(* ===== verification/EvioPrelude.thy ===== *)
theory EvioPrelude
  imports Main "HOL-Library.Word" "HOL-Library.Monad_Syntax"
begin

text \<open>
  Shared material: the machine integers of the C code, memory as lists of 32-bit words with
  checked reads and writes, and the status codes of \<^verbatim>\<open>evio.h\<close>.

  A C function of the library is a function into \<open>option\<close>. \<open>None\<close> is the outcome that the
  C standard gives no meaning to (an access outside the object a pointer points into) or a
  loop that has used up the fuel it was given; \<open>Some\<close> is a defined return. Status codes are
  ordinary return values, so every error return of the source is a value the theorems can speak about.
\<close>

unbundle bit_operations_syntax

section \<open>Machine integers\<close>

type_synonym u8 = "8 word"
type_synonym u16 = "16 word"
type_synonym u32 = "32 word"
type_synonym u64 = "64 word"

text \<open>A C array of 32-bit words, of bytes.\<close>

type_synonym words = "u32 list"
type_synonym bytes = "u8 list"

named_theorems mem_simps \<open>reads after writes in word and byte memories\<close>
named_theorems status_simps \<open>the status codes, as numbers\<close>

section \<open>Checked memory\<close>

definition rd :: "'a list \<Rightarrow> nat \<Rightarrow> 'a option" where
  "rd m i = (if i < length m then Some (m ! i) else None)"

definition wr :: "'a list \<Rightarrow> nat \<Rightarrow> 'a \<Rightarrow> 'a list option" where
  "wr m i v = (if i < length m then Some (m[i := v]) else None)"

text \<open>
  \<open>cut m i n\<close> is the source side of a \<^verbatim>\<open>memcpy\<close>, \<open>paste m i xs\<close> the destination side. A
  \<^verbatim>\<open>memcpy\<close> of no bytes touches nothing.
\<close>

definition cut :: "'a list \<Rightarrow> nat \<Rightarrow> nat \<Rightarrow> 'a list option" where
  "cut m i n = (if n = 0 then Some [] else if i + n \<le> length m then Some (take n (drop i m)) else None)"

definition paste :: "'a list \<Rightarrow> nat \<Rightarrow> 'a list \<Rightarrow> 'a list option" where
  "paste m i xs =
     (if xs = [] then Some m
      else if i + length xs \<le> length m then Some (take i m @ xs @ drop (i + length xs) m) else None)"

lemma rd_Some_iff: "rd m i = Some v \<longleftrightarrow> i < length m \<and> v = m ! i"
  by (auto simp: rd_def)

lemma rd_None_iff [simp]: "rd m i = None \<longleftrightarrow> length m \<le> i"
  by (auto simp: rd_def)

lemma rd_in [simp]: "i < length m \<Longrightarrow> rd m i = Some (m ! i)"
  by (simp add: rd_def)

lemma wr_Some_iff: "wr m i v = Some m' \<longleftrightarrow> i < length m \<and> m' = m[i := v]"
  by (auto simp: wr_def)

lemma wr_in [simp]: "i < length m \<Longrightarrow> wr m i v = Some (m[i := v])"
  by (simp add: wr_def)

lemma wr_length [mem_simps]: "wr m i v = Some m' \<Longrightarrow> length m' = length m"
  by (auto simp: wr_Some_iff)

lemma cut_in [simp]: "i + n \<le> length m \<Longrightarrow> cut m i n = Some (take n (drop i m))"
  by (simp add: cut_def)

lemma cut_length [mem_simps]: "cut m i n = Some xs \<Longrightarrow> length xs = n"
  by (auto simp: cut_def split: if_splits)

lemma paste_in [simp]:
  "i + length xs \<le> length m \<Longrightarrow> paste m i xs = Some (take i m @ xs @ drop (i + length xs) m)"
  by (simp add: paste_def)

lemma paste_length [mem_simps]: "paste m i xs = Some m' \<Longrightarrow> length m' = length m"
  by (auto simp: paste_def split: if_splits)

text \<open>Memory seen as a block at an offset: the form in which most proofs use it.\<close>

lemma rd_append [mem_simps]: "i < length xs \<Longrightarrow> rd (as @ xs @ bs) (length as + i) = Some (xs ! i)"
  by (simp add: rd_def nth_append)

lemma rd_at [mem_simps]: "rd (as @ x # bs) (length as) = Some x"
  by (simp add: rd_def)

lemma wr_at [mem_simps]: "wr (as @ x # bs) (length as) y = Some (as @ y # bs)"
  by (simp add: wr_def)

lemma paste_at [mem_simps]:
  "length xs = length ys \<Longrightarrow> paste (as @ xs @ bs) (length as) ys = Some (as @ ys @ bs)"
  by (auto simp: paste_def)

lemma cut_at [mem_simps]: "n = length xs \<Longrightarrow> cut (as @ xs @ bs) (length as) n = Some xs"
  by (auto simp: cut_def)

section \<open>Status codes\<close>

text \<open>A C \<^verbatim>\<open>int\<close> status, as in \<^verbatim>\<open>evio.h\<close>. \<open>EOF\<close> is -1 in the C library.\<close>

type_synonym status = int

definition S_SUCCESS :: status where "S_SUCCESS = 0"
definition S_FAILURE :: status where "S_FAILURE = -1"
definition c_EOF :: status where "c_EOF = -1"

text \<open>The codes with the top bit set are negative once returned as an \<^verbatim>\<open>int\<close>.\<close>

definition as_int :: "u32 \<Rightarrow> int" where "as_int w = sint w"

definition S_EVFILE :: status where "S_EVFILE = as_int 0x00730000"
definition S_EVFILE_TRUNC :: status where "S_EVFILE_TRUNC = as_int 0x40730001"
definition S_EVFILE_BADBLOCK :: status where "S_EVFILE_BADBLOCK = as_int 0x40730002"
definition S_EVFILE_BADHANDLE :: status where "S_EVFILE_BADHANDLE = as_int 0x80730001"
definition S_EVFILE_ALLOCFAIL :: status where "S_EVFILE_ALLOCFAIL = as_int 0x80730002"
definition S_EVFILE_BADFILE :: status where "S_EVFILE_BADFILE = as_int 0x80730003"
definition S_EVFILE_UNKOPTION :: status where "S_EVFILE_UNKOPTION = as_int 0x80730004"
definition S_EVFILE_UNXPTDEOF :: status where "S_EVFILE_UNXPTDEOF = as_int 0x80730005"
definition S_EVFILE_BADSIZEREQ :: status where "S_EVFILE_BADSIZEREQ = as_int 0x80730006"
definition S_EVFILE_BADARG :: status where "S_EVFILE_BADARG = as_int 0x80730007"
definition S_EVFILE_BADMODE :: status where "S_EVFILE_BADMODE = as_int 0x80730008"

lemmas status_defs = S_SUCCESS_def S_FAILURE_def c_EOF_def S_EVFILE_def S_EVFILE_TRUNC_def
  S_EVFILE_BADBLOCK_def S_EVFILE_BADHANDLE_def S_EVFILE_ALLOCFAIL_def S_EVFILE_BADFILE_def
  S_EVFILE_UNKOPTION_def S_EVFILE_UNXPTDEOF_def S_EVFILE_BADSIZEREQ_def S_EVFILE_BADARG_def
  S_EVFILE_BADMODE_def

lemma status_values [status_simps]:
  "S_SUCCESS = 0" "S_FAILURE = -1" "c_EOF = -1" "S_EVFILE = 7536640"
  "S_EVFILE_TRUNC = 1081278465" "S_EVFILE_BADBLOCK = 1081278466"
  "S_EVFILE_BADHANDLE = -2139947007" "S_EVFILE_ALLOCFAIL = -2139947006"
  "S_EVFILE_BADFILE = -2139947005" "S_EVFILE_UNKOPTION = -2139947004"
  "S_EVFILE_UNXPTDEOF = -2139947003" "S_EVFILE_BADSIZEREQ = -2139947002"
  "S_EVFILE_BADARG = -2139947001" "S_EVFILE_BADMODE = -2139947000"
  by (simp_all add: status_defs as_int_def)

text \<open>A call whose failure status is returned at once.\<close>

definition on_success :: "(status \<times> 's) option \<Rightarrow> ('s \<Rightarrow> (status \<times> 's) option) \<Rightarrow> (status \<times> 's) option" where
  "on_success r f = (case r of None \<Rightarrow> None | Some (st, s) \<Rightarrow> if st \<noteq> S_SUCCESS then Some (st, s) else f s)"

lemma on_success_simps [simp]:
  "on_success None f = None" "on_success (Some (S_SUCCESS, s)) f = f s"
  "st \<noteq> S_SUCCESS \<Longrightarrow> on_success (Some (st, s)) f = Some (st, s)"
  by (simp_all add: on_success_def)

text \<open>
  Early returns whose status may be any number, such as \<^verbatim>\<open>errno\<close>: \<open>Inl\<close> is what the routine returns at once,
  \<open>Inr\<close> goes on.
\<close>

definition proceed :: "('r + 'a) option \<Rightarrow> ('a \<Rightarrow> ('r + 'b) option) \<Rightarrow> ('r + 'b) option" where
  "proceed r f = (case r of None \<Rightarrow> None | Some (Inl s) \<Rightarrow> Some (Inl s) | Some (Inr x) \<Rightarrow> f x)"

definition returned :: "('r + 'r) option \<Rightarrow> 'r option" where
  "returned r = map_option (case_sum id id) r"

lemma proceed_simps [simp]:
  "proceed None f = None" "proceed (Some (Inl s)) f = Some (Inl s)" "proceed (Some (Inr x)) f = f x"
  by (simp_all add: proceed_def)

lemma returned_simps [simp]:
  "returned None = None" "returned (Some (Inl s)) = Some s" "returned (Some (Inr s)) = Some s"
  by (simp_all add: returned_def)

section \<open>Lists and options\<close>

lemma bind_Some_iff: "(x \<bind> f) = Some y \<longleftrightarrow> (\<exists>z. x = Some z \<and> f z = Some y)"
  by (cases x) auto

lemma take_drop_nth3:
  "i < length xs \<Longrightarrow> take i xs @ [xs ! i] @ drop (Suc i) xs = xs"
  by (simp add: id_take_nth_drop [symmetric])

lemma list_update_append_at: "length as = i \<Longrightarrow> (as @ x # bs)[i := y] = as @ y # bs"
  by (auto simp: list_update_append)

section \<open>Blocks in memory\<close>

text \<open>
  \<open>at off ws m\<close>: the memory \<open>m\<close> holds \<open>ws\<close> from offset \<open>off\<close> on. \<open>ov off ws m\<close>: the memory after
  \<open>ws\<close> has been laid over it there.
\<close>

definition at :: "nat \<Rightarrow> 'a list \<Rightarrow> 'a list \<Rightarrow> bool" where
  "at off ws m \<longleftrightarrow> off + length ws \<le> length m \<and> take (length ws) (drop off m) = ws"

definition ov :: "nat \<Rightarrow> 'a list \<Rightarrow> 'a list \<Rightarrow> 'a list" where
  "ov off ws m = map (\<lambda>i. if off \<le> i \<and> i < off + length ws then ws ! (i - off) else m ! i) [0..<length m]"

named_theorems block_simps \<open>blocks in memory\<close>

lemma ov_length [simp]: "length (ov off ws m) = length m"
  by (simp add: ov_def)

lemma ov_nth: "i < length m \<Longrightarrow> ov off ws m ! i = (if off \<le> i \<and> i < off + length ws then ws ! (i - off) else m ! i)"
  by (simp add: ov_def)

lemma ov_Nil [simp]: "ov off [] m = m"
  by (rule nth_equalityI) (auto simp: ov_nth)

lemma ov_append: "ov off (xs @ ys) m = ov (off + length xs) ys (ov off xs m)"
  by (rule nth_equalityI) (auto simp: ov_nth nth_append)

lemma ov_Cons: "ov off (x # xs) m = ov (Suc off) xs (m[off := x])"
  by (rule nth_equalityI) (auto simp: ov_nth nth_list_update nth_Cons')

lemma ov_ov_same: "length xs = length ys \<Longrightarrow> ov off xs (ov off ys m) = ov off xs m"
  by (rule nth_equalityI) (auto simp: ov_nth)

lemma ov_id: "at off ws m \<Longrightarrow> ov off ws m = m"
proof (rule nth_equalityI)
  fix i assume a: "at off ws m" and i: "i < length (ov off ws m)"
  have "ws ! (i - off) = m ! i" if "off \<le> i" "i < off + length ws"
  proof -
    have "ws ! (i - off) = take (length ws) (drop off m) ! (i - off)" using a by (simp add: at_def)
    then show ?thesis using that i a by (simp add: at_def)
  qed
  then show "ov off ws m ! i = m ! i" using i by (auto simp: ov_nth)
qed simp

lemma at_nth_iff: "at off ws m \<longleftrightarrow> off + length ws \<le> length m \<and> (\<forall>i < length ws. m ! (off + i) = ws ! i)"
  by (auto simp: at_def list_eq_iff_nth_eq)

lemma at_Nil [simp]: "at off [] m \<longleftrightarrow> off \<le> length m"
  by (simp add: at_def)

lemma at_append: "at off (xs @ ys) m \<longleftrightarrow> at off xs m \<and> at (off + length xs) ys m"
proof
  assume "at off (xs @ ys) m"
  then have l: "off + length xs + length ys \<le> length m"
    and e: "\<And>i. i < length xs + length ys \<Longrightarrow> m ! (off + i) = (xs @ ys) ! i"
    by (auto simp: at_nth_iff)
  have "m ! (off + i) = xs ! i" if "i < length xs" for i using e [of i] that by (simp add: nth_append)
  moreover have "m ! (off + length xs + i) = ys ! i" if "i < length ys" for i
    using e [of "length xs + i"] that by (simp add: nth_append add.assoc)
  ultimately show "at off xs m \<and> at (off + length xs) ys m" using l by (simp add: at_nth_iff)
next
  assume a: "at off xs m \<and> at (off + length xs) ys m"
  have "m ! (off + i) = (xs @ ys) ! i" if "i < length xs + length ys" for i
  proof (cases "i < length xs")
    case True then show ?thesis using a by (simp add: at_nth_iff nth_append)
  next
    case False
    then have "i - length xs < length ys" using that by simp
    then have "m ! (off + length xs + (i - length xs)) = ys ! (i - length xs)" using a by (simp add: at_nth_iff)
    then show ?thesis using False by (simp add: nth_append)
  qed
  then show "at off (xs @ ys) m" using a by (simp add: at_nth_iff)
qed

lemma at_Cons: "at off (x # xs) m \<longleftrightarrow> off < length m \<and> m ! off = x \<and> at (Suc off) xs m"
  using at_append [of off "[x]" xs m] by (auto simp: at_nth_iff)

lemma at_ov: "off + length ws \<le> length m \<Longrightarrow> at off ws (ov off ws m)"
  by (simp add: at_nth_iff ov_nth)

lemma at_ov_before: "off + length xs \<le> off' \<Longrightarrow> at off' ws (ov off xs m) \<longleftrightarrow> at off' ws m"
  by (auto simp: at_nth_iff ov_nth)

lemma at_ov_after: "off' + length ws \<le> off \<Longrightarrow> at off' ws (ov off xs m) \<longleftrightarrow> at off' ws m"
  by (auto simp: at_nth_iff ov_nth)

lemma at_cut: "at off ws m \<Longrightarrow> n = length ws \<Longrightarrow> cut m off n = Some ws"
  by (auto simp: at_def cut_def)

lemma at_rd: "at off ws m \<Longrightarrow> i < length ws \<Longrightarrow> rd m (off + i) = Some (ws ! i)"
  by (simp add: at_nth_iff rd_def)

lemma paste_ov: "off + length ws \<le> length m \<Longrightarrow> paste m off ws = Some (ov off ws m)"
  by (cases "ws = []") (auto simp: paste_def intro!: nth_equalityI simp: ov_nth nth_append)

lemmas block_at [block_simps] = at_append at_Cons

end
