(* ===== verification/ByteSwap.thy ===== *)
theory ByteSwap
  imports EvioPrelude
begin

text \<open>
  The byte-swapping macros of \<^verbatim>\<open>evio.h\<close>, their bit-level meaning, and what they do to the elements of a
  buffer of 32-bit words (two 16-bit halves of a word, two words of a 64-bit element).
\<close>

section \<open>The macros\<close>

definition EVIO_SWAP64 :: "u64 \<Rightarrow> u64" where
  "EVIO_SWAP64 x =
     (drop_bit 56 x AND 0x00000000000000FF) OR
     (drop_bit 40 x AND 0x000000000000FF00) OR
     (drop_bit 24 x AND 0x0000000000FF0000) OR
     (drop_bit 8 x AND 0x00000000FF000000) OR
     (push_bit 8 x AND 0x000000FF00000000) OR
     (push_bit 24 x AND 0x0000FF0000000000) OR
     (push_bit 40 x AND 0x00FF000000000000) OR
     (push_bit 56 x AND 0xFF00000000000000)"

definition EVIO_SWAP32 :: "u32 \<Rightarrow> u32" where
  "EVIO_SWAP32 x =
     (drop_bit 24 x AND 0x000000FF) OR
     (drop_bit 8 x AND 0x0000FF00) OR
     (push_bit 8 x AND 0x00FF0000) OR
     (push_bit 24 x AND 0xFF000000)"

definition EVIO_SWAP16 :: "u16 \<Rightarrow> u16" where
  "EVIO_SWAP16 x =
     (drop_bit 8 x AND 0x00FF) OR
     (push_bit 8 x AND 0xFF00)"

text \<open>The masks, in the form in which the bit rules apply to them.\<close>

lemma byte_masks:
  "(0xFF::'a::len word) = mask 8" "(0xFF00::'a::len word) = push_bit 8 (mask 8)"
  "(0xFF0000::'a::len word) = push_bit 16 (mask 8)"
  "(0xFF000000::'a::len word) = push_bit 24 (mask 8)"
  "(0xFF00000000::'a::len word) = push_bit 32 (mask 8)"
  "(0xFF0000000000::'a::len word) = push_bit 40 (mask 8)"
  "(0xFF000000000000::'a::len word) = push_bit 48 (mask 8)"
  "(0xFF00000000000000::'a::len word) = push_bit 56 (mask 8)"
  by (simp_all add: mask_eq_exp_minus_1 push_bit_eq_mult)

text \<open>A swap moves bit \<open>n\<close> of byte \<open>k\<close> to bit \<open>n\<close> of the byte opposite \<open>k\<close>.\<close>

lemma bit_EVIO_SWAP16: "bit (EVIO_SWAP16 x) n \<longleftrightarrow> n < 16 \<and> bit x (8 * (1 - n div 8) + n mod 8)"
proof -
  define k r where "k = n div 8" and "r = n mod 8"
  then have r: "r < 8" by simp
  consider "k = 0" | "k = 1" | "k \<ge> 2" by linarith
  then have "bit (EVIO_SWAP16 x) (8 * k + r) \<longleftrightarrow> 8 * k + r < 16 \<and> bit x (8 * (1 - k) + r)"
    by cases (use r in \<open>auto simp: EVIO_SWAP16_def byte_masks bit_simps dest: bit_imp_le_length\<close>)
  then show ?thesis by (simp add: k_def r_def)
qed

lemma bit_EVIO_SWAP32: "bit (EVIO_SWAP32 x) n \<longleftrightarrow> n < 32 \<and> bit x (8 * (3 - n div 8) + n mod 8)"
proof -
  define k r where "k = n div 8" and "r = n mod 8"
  then have r: "r < 8" by simp
  consider "k = 0" | "k = 1" | "k = 2" | "k = 3" | "k \<ge> 4" by linarith
  then have "bit (EVIO_SWAP32 x) (8 * k + r) \<longleftrightarrow> 8 * k + r < 32 \<and> bit x (8 * (3 - k) + r)"
    by cases (use r in \<open>auto simp: EVIO_SWAP32_def byte_masks bit_simps dest: bit_imp_le_length\<close>)
  then show ?thesis by (simp add: k_def r_def)
qed

lemma bit_EVIO_SWAP64: "bit (EVIO_SWAP64 x) n \<longleftrightarrow> n < 64 \<and> bit x (8 * (7 - n div 8) + n mod 8)"
proof -
  define k r where "k = n div 8" and "r = n mod 8"
  then have r: "r < 8" by simp
  consider "k = 0" | "k = 1" | "k = 2" | "k = 3" | "k = 4" | "k = 5" | "k = 6" | "k = 7" | "k \<ge> 8"
    by linarith
  then have "bit (EVIO_SWAP64 x) (8 * k + r) \<longleftrightarrow> 8 * k + r < 64 \<and> bit x (8 * (7 - k) + r)"
    by cases (use r in \<open>auto simp: EVIO_SWAP64_def byte_masks bit_simps dest: bit_imp_le_length\<close>)
  then show ?thesis by (simp add: k_def r_def)
qed

lemma opposite_byte:
  fixes n k :: nat
  assumes "n < 8 * Suc k"
  shows "8 * (k - (8 * (k - n div 8) + n mod 8) div 8) + (8 * (k - n div 8) + n mod 8) mod 8 = n"
    and "8 * (k - n div 8) + n mod 8 < 8 * Suc k"
proof -
  have "n div 8 \<le> k" using assms by auto
  then show "8 * (k - (8 * (k - n div 8) + n mod 8) div 8) + (8 * (k - n div 8) + n mod 8) mod 8 = n"
    by simp
  show "8 * (k - n div 8) + n mod 8 < 8 * Suc k"
    using mod_less_divisor [of 8 n] by simp
qed

lemma EVIO_SWAP16_twice [simp]: "EVIO_SWAP16 (EVIO_SWAP16 x) = x"
  by (rule bit_word_eqI) (simp only: bit_EVIO_SWAP16, use opposite_byte [of _ 1] in simp)

lemma EVIO_SWAP32_twice [simp]: "EVIO_SWAP32 (EVIO_SWAP32 x) = x"
  by (rule bit_word_eqI) (simp only: bit_EVIO_SWAP32, use opposite_byte [of _ 3] in simp)

lemma EVIO_SWAP64_twice [simp]: "EVIO_SWAP64 (EVIO_SWAP64 x) = x"
  by (rule bit_word_eqI) (simp only: bit_EVIO_SWAP64, use opposite_byte [of _ 7] in simp)

section \<open>A byte order and its opposite\<close>

text \<open>
  What a client of a swap relies on: swapping twice gives the value back. The lemmas about whole
  arrays are proved once, here, and used for every element width.
\<close>

locale byte_order =
  fixes sw :: "'a \<Rightarrow> 'a"
  assumes sw_sw: "sw (sw x) = x"
begin

lemma map_sw_sw: "map sw (map sw xs) = xs"
  by (simp add: sw_sw comp_def)

lemma sw_eq_iff: "sw x = sw y \<longleftrightarrow> x = y"
  by (metis sw_sw)

lemma sw_flip: "sw x = y \<longleftrightarrow> x = sw y"
  by (metis sw_sw)

lemma inj_sw: "inj sw"
  by (rule injI) (simp add: sw_eq_iff)

lemma map_sw_eq_iff: "map sw xs = map sw ys \<longleftrightarrow> xs = ys"
  by (simp add: inj_map_eq_map inj_sw)

end

section \<open>Elements of 16 and 64 bits in a memory of 32-bit words\<close>

text \<open>
  The casts of the source, \<^verbatim>\<open>(uint16_t *) data\<close> and \<^verbatim>\<open>(uint64_t *) data\<close>, are read on a
  little-endian host: the first 16-bit element of a word is its low half, the first word of a 64-bit
  element its low half. (The swapped words do not depend on this choice, see
  \<open>swap_halves_big_endian\<close> below.)
\<close>

definition half :: "u32 \<Rightarrow> nat \<Rightarrow> u16" where
  "half w k = ucast (drop_bit (16 * k) w)"

definition set_half :: "u32 \<Rightarrow> nat \<Rightarrow> u16 \<Rightarrow> u32" where
  "set_half w k h =
     (if k = 0 then (w AND 0xFFFF0000) OR ucast h else (w AND 0x0000FFFF) OR push_bit 16 (ucast h))"

definition pair64 :: "u32 \<Rightarrow> u32 \<Rightarrow> u64" where
  "pair64 lo hi = ucast lo OR push_bit 32 (ucast hi)"

definition lo64 :: "u64 \<Rightarrow> u32" where "lo64 x = ucast x"
definition hi64 :: "u64 \<Rightarrow> u32" where "hi64 x = ucast (drop_bit 32 x)"

text \<open>What the three widths do to whole words.\<close>

definition swap_halves :: "u32 \<Rightarrow> u32" where
  "swap_halves w = set_half (set_half w 0 (EVIO_SWAP16 (half w 0))) 1 (EVIO_SWAP16 (half w 1))"

fun swap_pairs :: "words \<Rightarrow> words" where
  "swap_pairs (a # b # ws) = EVIO_SWAP32 b # EVIO_SWAP32 a # swap_pairs ws"
| "swap_pairs ws = ws"

lemma half_masks:
  "(0xFFFF0000::u32) = push_bit 16 (mask 16)" "(0x0000FFFF::u32) = mask 16"
  by (simp_all add: mask_eq_exp_minus_1 push_bit_eq_mult)

lemma bit_half: "bit (half w k) n \<longleftrightarrow> n < 16 \<and> bit w (16 * k + n)"
  by (auto simp: half_def bit_simps)

lemma bit_set_half:
  "bit (set_half w k h) n \<longleftrightarrow>
     n < 32 \<and> (if k = 0 then (if n < 16 then bit h n else bit w n)
               else (if n < 16 then bit w n else bit h (n - 16)))"
  by (auto simp: set_half_def half_masks bit_simps dest: bit_imp_le_length)

lemma half_set_half:
  "half (set_half w 0 h) 0 = h" "half (set_half w 0 h) 1 = half w 1"
  "half (set_half w 1 h) 1 = h" "half (set_half w 1 h) 0 = half w 0"
  by (rule bit_word_eqI; auto simp: bit_half bit_set_half)+

lemma set_half_halves: "set_half (set_half v 0 (half w 0)) 1 (half w 1) = w"
  by (rule bit_word_eqI) (auto simp: bit_half bit_set_half)

lemma set_half_over: "set_half (set_half (set_half v 0 a) 1 b) 0 c = set_half (set_half v 0 c) 1 b"
  by (rule bit_word_eqI) (auto simp: bit_set_half)

text \<open>The word that is written does not depend on what the destination held.\<close>

lemma set_halves_indep: "set_half (set_half v 0 a) 1 b = set_half (set_half w 0 a) 1 b"
  by (rule bit_word_eqI) (auto simp: bit_set_half)

lemma swap_halves_twice: "swap_halves (swap_halves w) = w"
proof -
  let ?a = "half w 0" and ?b = "half w 1"
  have "half (swap_halves w) 0 = EVIO_SWAP16 ?a" "half (swap_halves w) 1 = EVIO_SWAP16 ?b"
    by (simp_all add: swap_halves_def half_set_half half_set_half [unfolded One_nat_def])
  then have "swap_halves (swap_halves w) = set_half (set_half (swap_halves w) 0 ?a) 1 ?b"
    by (simp add: swap_halves_def)
  then show ?thesis by (simp only: set_half_halves)
qed

lemma swap_halves_big_endian:
  "swap_halves w = set_half (set_half w 1 (EVIO_SWAP16 (half w 1))) 0 (EVIO_SWAP16 (half w 0))"
  by (rule bit_word_eqI) (auto simp: swap_halves_def bit_set_half)

lemma swap_pairs_twice: "swap_pairs (swap_pairs ws) = ws"
  by (induction ws rule: swap_pairs.induct) auto

lemma length_swap_pairs [simp]: "length (swap_pairs ws) = length ws"
  by (induction ws rule: swap_pairs.induct) auto

text \<open>A 64-bit swap exchanges the two words and swaps each.\<close>

lemma bit_pair64: "bit (pair64 a b) n \<longleftrightarrow> (if n < 32 then bit a n else bit b (n - 32))"
  by (auto simp: pair64_def bit_simps dest: bit_imp_le_length)

lemma swap64_words:
  "lo64 (EVIO_SWAP64 (pair64 a b)) = EVIO_SWAP32 b" "hi64 (EVIO_SWAP64 (pair64 a b)) = EVIO_SWAP32 a"
proof -
  have *: "8 * (7 - n div 8) + n mod 8 = 32 + (8 * (3 - n div 8) + n mod 8)" if "n < 32" for n :: nat
    using that by simp
  have **: "8 * (7 - (32 + n) div 8) + (32 + n) mod 8 = 8 * (3 - n div 8) + n mod 8"
    and lt32: "8 * (3 - n div 8) + n mod 8 < 32" if "n < 32" for n :: nat
  proof -
    have "(32 + n) div 8 = 4 + n div 8" "(32 + n) mod 8 = n mod 8" by presburger+
    then show "8 * (7 - (32 + n) div 8) + (32 + n) mod 8 = 8 * (3 - n div 8) + n mod 8" by simp
    show "8 * (3 - n div 8) + n mod 8 < 32" using opposite_byte(2) [of n 3] that by simp
  qed
  show "lo64 (EVIO_SWAP64 (pair64 a b)) = EVIO_SWAP32 b"
    by (rule bit_word_eqI) (simp add: lo64_def bit_simps bit_EVIO_SWAP64 bit_EVIO_SWAP32 bit_pair64 *)
  show "hi64 (EVIO_SWAP64 (pair64 a b)) = EVIO_SWAP32 a"
  proof (rule bit_word_eqI)
    fix n assume "n < LENGTH(32)"
    then have n: "n < 32" by simp
    have "bit (hi64 (EVIO_SWAP64 (pair64 a b))) n = bit (EVIO_SWAP64 (pair64 a b)) (32 + n)"
      using n by (simp add: hi64_def bit_simps)
    also have "\<dots> = bit a (8 * (3 - n div 8) + n mod 8)"
      using n by (simp only: bit_EVIO_SWAP64 **) (simp add: bit_pair64 lt32)
    finally show "bit (hi64 (EVIO_SWAP64 (pair64 a b))) n = bit (EVIO_SWAP32 a) n"
      using n by (simp add: bit_EVIO_SWAP32)
  qed
qed

interpretation swap16: byte_order EVIO_SWAP16 by unfold_locales simp
interpretation swap32: byte_order EVIO_SWAP32 by unfold_locales simp
interpretation swap64: byte_order EVIO_SWAP64 by unfold_locales simp
interpretation halves: byte_order swap_halves by unfold_locales (rule swap_halves_twice)
interpretation pairs: byte_order swap_pairs by unfold_locales (rule swap_pairs_twice)

end
