(* ===== verification/EvioFmt.thy ===== *)
theory EvioFmt
  imports EvioPrelude
begin

text \<open>
  \<^verbatim>\<open>eviofmt.c\<close>: the translation of a composite format string such as \<^verbatim>\<open>"3i,N(F,2D)"\<close> into the
  array of byte codes that \<^verbatim>\<open>eviofmtswap\<close> interprets. The high nibble of a code is a repeat count,
  the low nibble the element type, \<open>0\<close> a parenthesis and \<open>15\<close> a left parenthesis whose count is in the data.

  The state is the local variables of the loop: \<open>fs_nr\<close> (repeat number being read, -1 after an
  element), \<open>fs_nn\<close> (0 after an \<^verbatim>\<open>N\<close>), \<open>fs_lev\<close> (parenthesis level), the room left in \<^verbatim>\<open>ifmt\<close> and the codes
  written so far.
\<close>

record fmt_state =
  fs_nr :: int
  fs_nn :: int
  fs_lev :: int
  fs_room :: int
  fs_out :: bytes

definition fmt_init :: "int \<Rightarrow> fmt_state" where
  "fmt_init ifmtLen = \<lparr>fs_nr = 0, fs_nn = 1, fs_lev = 0, fs_room = ifmtLen, fs_out = []\<rparr>"

definition is_digit :: "char \<Rightarrow> bool" where
  "is_digit c \<longleftrightarrow> 48 \<le> (of_char c :: nat) \<and> (of_char c :: nat) \<le> 57"

definition digit_val :: "char \<Rightarrow> int" where
  "digit_val c = int (of_char c) - 48"

text \<open>The C library's \<^verbatim>\<open>atoi\<close> on a text that starts with a digit.\<close>

fun atoi_from :: "int \<Rightarrow> char list \<Rightarrow> int" where
  "atoi_from n [] = n"
| "atoi_from n (c # cs) = (if is_digit c then atoi_from (10 * n + digit_val c) cs else n)"

definition atoi :: "char list \<Rightarrow> int" where
  "atoi cs = atoi_from 0 cs"

text \<open>Write one code, if there is room: \<^verbatim>\<open>if (--ifmtLen < 0) return(-9); ifmt[n++] = ...\<close>\<close>

definition fmt_emit :: "int \<Rightarrow> fmt_state \<Rightarrow> (int \<times> fmt_state) + fmt_state" where
  "fmt_emit code s =
     (if fs_room s - 1 < 0 then Inl (-9, s)
      else Inr (s\<lparr>fs_room := fs_room s - 1, fs_out := fs_out s @ [word_of_int code]\<rparr>))"

text \<open>The type code of a format letter, 0 for an illegal character.\<close>

definition fmt_kind :: "char \<Rightarrow> int" where
  "fmt_kind ch =
     (if ch = CHR ''i'' then 1 else if ch = CHR ''F'' then 2 else if ch = CHR ''a'' then 3
      else if ch = CHR ''S'' then 4 else if ch = CHR ''s'' then 5 else if ch = CHR ''C'' then 6
      else if ch = CHR ''c'' then 7 else if ch = CHR ''D'' then 8 else if ch = CHR ''L'' then 9
      else if ch = CHR ''l'' then 10 else if ch = CHR ''I'' then 11 else if ch = CHR ''A'' then 12
      else 0)"

text \<open>
  One character of the format string. \<^verbatim>\<open>atoi(&ch)\<close> is called with the address of a single
  \<^verbatim>\<open>char\<close> that no zero byte follows: it reads on into whatever is stored behind that local variable.
  Those bytes are the parameter \<open>after\<close>.
\<close>

definition fmt_step :: "char list \<Rightarrow> char \<Rightarrow> fmt_state \<Rightarrow> (int \<times> fmt_state) + fmt_state" where
  "fmt_step after ch s =
     (if ch = CHR '' '' then Inr s
      else if is_digit ch then
        (if fs_nr s < 0 then Inl (-1, s)
         else let nr = 10 * max 0 (fs_nr s) + atoi (ch # after)
              in if nr > 15 then Inl (-2, s\<lparr>fs_nr := nr\<rparr>) else Inr (s\<lparr>fs_nr := nr\<rparr>))
      else if ch = CHR ''('' then
        (if fs_nr s < 0 then Inl (-3, s)
         else case fmt_emit (if fs_nn s = 0 then 15 else 16 * max (fs_nn s) (fs_nr s)) s of
                Inl e \<Rightarrow> Inl e
              | Inr s' \<Rightarrow> Inr (s'\<lparr>fs_lev := fs_lev s + 1, fs_nn := 1, fs_nr := 0\<rparr>))
      else if ch = CHR '')'' then
        (if fs_nr s \<ge> 0 then Inl (-4, s)
         else case fmt_emit 0 s of
                Inl e \<Rightarrow> Inl e
              | Inr s' \<Rightarrow> Inr (s'\<lparr>fs_lev := fs_lev s - 1, fs_nr := -1\<rparr>))
      else if ch = CHR '','' then
        (if fs_nr s \<ge> 0 then Inl (-5, s) else Inr (s\<lparr>fs_nr := 0\<rparr>))
      else if ch = CHR ''N'' then Inr (s\<lparr>fs_nn := 0\<rparr>)
      else if fmt_kind ch \<noteq> 0 then
        (if fs_nr s < 0 then Inl (-6, s)
         else case fmt_emit (16 * max (fs_nn s) (fs_nr s) + fmt_kind ch) s of
                Inl e \<Rightarrow> Inl e
              | Inr s' \<Rightarrow> Inr (s'\<lparr>fs_nn := 1, fs_nr := -1\<rparr>))
      else Inl (-7, s))"

fun fmt_run :: "char list \<Rightarrow> char list \<Rightarrow> fmt_state \<Rightarrow> (int \<times> fmt_state) + fmt_state" where
  "fmt_run after [] s = Inr s"
| "fmt_run after (c # cs) s = (case fmt_step after c s of Inl e \<Rightarrow> Inl e | Inr s' \<Rightarrow> fmt_run after cs s')"

text \<open>The whole routine: its return value and the codes it has written.\<close>

definition eviofmt :: "char list \<Rightarrow> char list \<Rightarrow> int \<Rightarrow> int \<times> bytes" where
  "eviofmt after fmt ifmtLen =
     (case fmt_run after fmt (fmt_init ifmtLen) of
        Inl (e, s) \<Rightarrow> (e, fs_out s)
      | Inr s \<Rightarrow> (if fs_lev s \<noteq> 0 then (-8, fs_out s) else (int (length (fs_out s)), fs_out s)))"

section \<open>What a code can be\<close>

text \<open>
  The codes that reach \<^verbatim>\<open>eviofmtswap\<close>: a right parenthesis (0), a left one (a positive count,
  or 15), or an element code. The kinds 13, 14 and a count over 15 never occur.
\<close>

definition code_ok :: "u8 \<Rightarrow> bool" where
  "code_ok c \<longleftrightarrow> c = 15 \<or> uint c mod 16 \<le> 12"

definition fmt_inv :: "int \<Rightarrow> fmt_state \<Rightarrow> bool" where
  "fmt_inv L s \<longleftrightarrow> -1 \<le> fs_nr s \<and> fs_nr s \<le> 15 \<and> fs_nn s \<in> {0, 1} \<and> 0 \<le> fs_room s
     \<and> fs_room s + int (length (fs_out s)) = L \<and> list_all code_ok (fs_out s)"

lemma fmt_kind_range: "0 \<le> fmt_kind ch \<and> fmt_kind ch \<le> 12"
  by (simp add: fmt_kind_def)

lemma code_ok_code:
  assumes "0 \<le> n" "n \<le> 15" "0 \<le> k" "k \<le> 12"
  shows "code_ok (word_of_int (16 * n + k))"
proof -
  have "uint (word_of_int (16 * n + k) :: u8) = 16 * n + k"
    using assms by (simp only: uint_word_of_int) simp
  then show ?thesis using assms by (simp add: code_ok_def)
qed

lemma fmt_emit_inv:
  "fmt_emit c s = Inr s' \<Longrightarrow> fmt_inv L s \<Longrightarrow> code_ok (word_of_int c) \<Longrightarrow> fmt_inv L s'"
  by (auto simp: fmt_emit_def fmt_inv_def split: if_splits)

lemma fmt_emit_frame:
  "fmt_emit c s = Inr s' \<Longrightarrow> fs_nr s' = fs_nr s \<and> fs_nn s' = fs_nn s \<and> fs_lev s' = fs_lev s"
  by (auto simp: fmt_emit_def split: if_splits)

lemma fmt_emit_fail: "fmt_emit c s = Inl (e, s') \<Longrightarrow> e = -9 \<and> s' = s"
  by (auto simp: fmt_emit_def split: if_splits)

lemma atoi_from_mono: "0 \<le> n \<Longrightarrow> n \<le> atoi_from n cs"
proof (induction cs arbitrary: n)
  case (Cons c cs)
  then show ?case
    by (fastforce simp: is_digit_def digit_val_def intro: order_trans [OF _ Cons.IH])
qed simp

lemma fmt_inv_upd:
  "fmt_inv L s \<Longrightarrow> -1 \<le> nr \<Longrightarrow> nr \<le> 15 \<Longrightarrow> nn \<in> {0, 1} \<Longrightarrow> fmt_inv L (s\<lparr>fs_lev := l, fs_nn := nn, fs_nr := nr\<rparr>)"
  by (auto simp: fmt_inv_def)

lemma fmt_step_inv:
  assumes "fmt_step after ch s = Inr s'" and inv: "fmt_inv L s"
  shows "fmt_inv L s'"
proof -
  have nn: "0 \<le> max (fs_nn s) (fs_nr s)" "max (fs_nn s) (fs_nr s) \<le> 15"
    using inv by (auto simp: fmt_inv_def)
  have code: "code_ok (word_of_int (16 * max (fs_nn s) (fs_nr s) + k))" if "0 \<le> k" "k \<le> 12" for k
    using code_ok_code nn that by blast
  have z: "code_ok (word_of_int 0)" "code_ok (word_of_int 15)" by (simp_all add: code_ok_def)
  have a: "0 \<le> atoi (ch # after)"
    unfolding atoi_def by (rule order_trans [OF _ atoi_from_mono]) simp_all
  show ?thesis
    using assms a code [OF order_refl] code [of "fmt_kind ch"] fmt_kind_range [of ch] z
    unfolding fmt_step_def Let_def
    by (auto split: if_splits sum.splits dest!: fmt_emit_inv [where L = L] dest: fmt_emit_frame simp: fmt_inv_def max_def)
qed

lemma fmt_step_fail:
  assumes "fmt_step after ch s = Inl (e, s')"
  shows "-9 \<le> e \<and> e \<le> -1 \<and> fs_out s' = fs_out s"
  using assms unfolding fmt_step_def Let_def
  by (auto split: if_splits sum.splits dest!: fmt_emit_fail)

lemma fmt_run_inv: "fmt_run after cs s = Inr s' \<Longrightarrow> fmt_inv L s \<Longrightarrow> fmt_inv L s'"
  by (induction cs arbitrary: s) (auto split: sum.splits dest: fmt_step_inv)

lemma fmt_run_fail:
  "fmt_run after cs s = Inl (e, s') \<Longrightarrow> fmt_inv L s \<Longrightarrow>
     -9 \<le> e \<and> e \<le> -1 \<and> int (length (fs_out s')) \<le> L \<and> list_all code_ok (fs_out s')"
proof (induction cs arbitrary: s)
  case (Cons c cs)
  show ?case
  proof (cases "fmt_step after c s")
    case (Inl p)
    then show ?thesis using Cons.prems fmt_step_fail [of after c s "fst p" "snd p"]
      by (auto simp: fmt_inv_def)
  next
    case (Inr s1)
    then show ?thesis using Cons.prems Cons.IH [of s1] fmt_step_inv by auto
  qed
qed simp

lemma fmt_run_append:
  "fmt_run after (xs @ ys) s = (case fmt_run after xs s of Inl e \<Rightarrow> Inl e | Inr s' \<Rightarrow> fmt_run after ys s')"
  by (induction xs arbitrary: s) (auto split: sum.splits)

section \<open>The grammar the routine accepts\<close>

text \<open>
  Formats as a datatype: elements and parenthesised groups, each with a count that is a number or
  is taken from the data. \<open>fmt_show\<close> is the concrete syntax, \<open>fmt_codes\<close> the code array
  that the documentation of \<^verbatim>\<open>eviofmt\<close> gives for it.
\<close>

datatype fmt_count = Times nat | FromData

datatype fmt_item = Elem fmt_count char | Group fmt_count "fmt_item list"

definition show_digit :: "nat \<Rightarrow> char" where
  "show_digit n = char_of (48 + n)"

fun show_count :: "fmt_count \<Rightarrow> char list" where
  "show_count FromData = ''N''"
| "show_count (Times n) =
     (if n = 1 then [] else if n < 10 then [show_digit n] else [show_digit (n div 10), show_digit (n mod 10)])"

fun fmt_show :: "fmt_item list \<Rightarrow> char list" and fmt_show1 :: "fmt_item \<Rightarrow> char list" where
  "fmt_show [] = []"
| "fmt_show [i] = fmt_show1 i"
| "fmt_show (i # is) = fmt_show1 i @ '','' @ fmt_show is"
| "fmt_show1 (Elem n k) = show_count n @ [k]"
| "fmt_show1 (Group n is) = show_count n @ ''('' @ fmt_show is @ '')''"

fun fmt_codes :: "fmt_item list \<Rightarrow> bytes" and fmt_codes1 :: "fmt_item \<Rightarrow> bytes" where
  "fmt_codes [] = []"
| "fmt_codes (i # is) = fmt_codes1 i @ fmt_codes is"
| "fmt_codes1 (Elem (Times n) k) = [word_of_int (16 * int n + fmt_kind k)]"
| "fmt_codes1 (Elem FromData k) = [word_of_int (fmt_kind k)]"
| "fmt_codes1 (Group (Times n) is) = word_of_int (16 * int n) # fmt_codes is @ [0]"
| "fmt_codes1 (Group FromData is) = 15 # fmt_codes is @ [0]"

fun count_wf :: "fmt_count \<Rightarrow> bool" where
  "count_wf FromData = True"
| "count_wf (Times n) = (1 \<le> n \<and> n \<le> 15)"

fun fmt_wf :: "fmt_item list \<Rightarrow> bool" and fmt_wf1 :: "fmt_item \<Rightarrow> bool" where
  "fmt_wf [] = True"
| "fmt_wf (i # is) = (fmt_wf1 i \<and> fmt_wf is)"
| "fmt_wf1 (Elem n k) = (count_wf n \<and> fmt_kind k \<noteq> 0)"
| "fmt_wf1 (Group n is) = (count_wf n \<and> is \<noteq> [] \<and> fmt_wf is)"

text \<open>What follows the local variable in memory must not look like a digit.\<close>

definition stops_atoi :: "char list \<Rightarrow> bool" where
  "stops_atoi after \<longleftrightarrow> (case after of [] \<Rightarrow> True | c # _ \<Rightarrow> \<not> is_digit c)"

lemma atoi_single: "stops_atoi after \<Longrightarrow> is_digit c \<Longrightarrow> atoi (c # after) = digit_val c"
  by (cases after) (auto simp: atoi_def stops_atoi_def)

lemma show_digit_props:
  assumes "n < 10"
  shows "is_digit (show_digit n)" "digit_val (show_digit n) = int n" "show_digit n \<noteq> CHR '' ''"
proof -
  have v: "(of_char (show_digit n) :: nat) = 48 + n"
    using assms by (simp add: show_digit_def)
  show "is_digit (show_digit n)" "digit_val (show_digit n) = int n"
    using assms v by (simp_all add: is_digit_def digit_val_def)
  show "show_digit n \<noteq> CHR '' ''"
  proof
    assume "show_digit n = CHR '' ''"
    then have "(of_char (show_digit n) :: nat) = 32" by simp
    with v show False by simp
  qed
qed

definition at_item :: "fmt_state \<Rightarrow> bool" where
  "at_item s \<longleftrightarrow> fs_nr s = 0 \<and> fs_nn s = 1"

definition count_nr :: "fmt_count \<Rightarrow> int" where
  "count_nr n = (case n of FromData \<Rightarrow> 0 | Times k \<Rightarrow> if k = 1 then 0 else int k)"

definition count_nn :: "fmt_count \<Rightarrow> int" where
  "count_nn n = (case n of FromData \<Rightarrow> 0 | Times k \<Rightarrow> 1)"

lemma fmt_step_digit:
  "stops_atoi after \<Longrightarrow> n < 10 \<Longrightarrow> 0 \<le> fs_nr s \<Longrightarrow> 10 * fs_nr s + int n \<le> 15 \<Longrightarrow>
     fmt_step after (show_digit n) s = Inr (s\<lparr>fs_nr := 10 * fs_nr s + int n\<rparr>)"
  by (simp add: fmt_step_def show_digit_props atoi_single max_def Let_def)

lemma fmt_run_count:
  assumes "stops_atoi after" "count_wf n" "at_item s"
  shows "fmt_run after (show_count n) s = Inr (s\<lparr>fs_nn := count_nn n, fs_nr := count_nr n\<rparr>)"
proof (cases n)
  case FromData
  then show ?thesis using assms
    by (simp add: fmt_step_def is_digit_def count_nn_def count_nr_def at_item_def)
next
  case (Times k)
  have k: "1 \<le> k" "k \<le> 15" using assms Times by auto
  have st: "s = s\<lparr>fs_nn := 1, fs_nr := 0\<rparr>" using assms by (simp add: at_item_def)
  consider "k = 1" | "k \<noteq> 1" "k < 10" | "10 \<le> k" by linarith
  then show ?thesis
  proof cases
    case 1
    then show ?thesis using Times st by (simp add: count_nn_def count_nr_def)
  next
    case 2
    then show ?thesis using Times st assms
      by (simp add: count_nn_def count_nr_def fmt_step_digit at_item_def)
  next
    case 3
    then have "k div 10 = 1" "int k = 10 + int (k mod 10)" using k by presburger+
    then show ?thesis using Times st assms k 3
      by (simp add: count_nn_def count_nr_def fmt_step_digit at_item_def)
  qed
qed

lemma max_count: "count_wf n \<Longrightarrow> count_nn n \<noteq> 0 \<Longrightarrow> max (count_nn n) (count_nr n) = (case n of Times k \<Rightarrow> int k | FromData \<Rightarrow> 0)"
  by (cases n) (auto simp: count_nn_def count_nr_def)

definition emitted :: "fmt_state \<Rightarrow> bytes \<Rightarrow> fmt_state" where
  "emitted s cs = s\<lparr>fs_nr := -1, fs_nn := 1, fs_room := fs_room s - int (length cs), fs_out := fs_out s @ cs\<rparr>"

lemma fmt_kind_letter:
  "fmt_kind k \<noteq> 0 \<Longrightarrow> k \<noteq> CHR '' '' \<and> \<not> is_digit k \<and> k \<noteq> CHR ''('' \<and> k \<noteq> CHR '')'' \<and> k \<noteq> CHR '','' \<and> k \<noteq> CHR ''N''"
  by (auto simp: fmt_kind_def is_digit_def split: if_splits)

lemma fmt_run_elem:
  assumes "stops_atoi after" "fmt_wf1 (Elem n k)" "at_item s" "1 \<le> fs_room s"
  shows "fmt_run after (fmt_show1 (Elem n k)) s = Inr (emitted s (fmt_codes1 (Elem n k)))"
proof -
  let ?s = "s\<lparr>fs_nn := count_nn n, fs_nr := count_nr n\<rparr>"
  have nr: "0 \<le> count_nr n" using assms by (cases n) (auto simp: count_nr_def)
  have "fmt_run after (fmt_show1 (Elem n k)) s = fmt_run after [k] ?s"
    using assms fmt_run_count [of after n s] by (simp add: fmt_run_append)
  also have "\<dots> = Inr (emitted s (fmt_codes1 (Elem n k)))"
    using assms nr fmt_kind_letter [of k] max_count [of n]
    by (cases n) (auto simp: fmt_step_def fmt_emit_def emitted_def count_nn_def count_nr_def)
  finally show ?thesis .
qed

lemma fmt_step_open:
  "at_item s \<Longrightarrow> count_wf n \<Longrightarrow> 1 \<le> fs_room s \<Longrightarrow>
   fmt_step after (CHR ''('') (s\<lparr>fs_nn := count_nn n, fs_nr := count_nr n\<rparr>) =
     Inr (s\<lparr>fs_nn := 1, fs_nr := 0, fs_lev := fs_lev s + 1, fs_room := fs_room s - 1,
           fs_out := fs_out s @ [case n of FromData \<Rightarrow> 15 | Times k \<Rightarrow> word_of_int (16 * int k)]\<rparr>)"
  using max_count [of n]
  by (cases n) (auto simp: fmt_step_def is_digit_def fmt_emit_def count_nn_def count_nr_def)

lemma fmt_run_show:
  assumes "stops_atoi after"
  shows "is \<noteq> [] \<Longrightarrow> fmt_wf is \<Longrightarrow> at_item s \<Longrightarrow> int (length (fmt_codes is)) \<le> fs_room s \<Longrightarrow>
           fmt_run after (fmt_show is) s = Inr (emitted s (fmt_codes is))"
    and "fmt_wf1 i \<Longrightarrow> at_item s \<Longrightarrow> int (length (fmt_codes1 i)) \<le> fs_room s \<Longrightarrow>
           fmt_run after (fmt_show1 i) s = Inr (emitted s (fmt_codes1 i))"
proof (induction "is" and i arbitrary: s and s rule: fmt_show_fmt_show1.induct)
  case (3 i i' "is")
  have one: "fmt_run after (fmt_show1 i) s = Inr (emitted s (fmt_codes1 i))"
    using 3 by simp
  let ?s = "(emitted s (fmt_codes1 i))\<lparr>fs_nr := 0\<rparr>"
  have "fmt_step after (CHR '','') (emitted s (fmt_codes1 i)) = Inr ?s"
    by (simp add: fmt_step_def is_digit_def emitted_def)
  moreover have "fmt_run after (fmt_show (i' # is)) ?s = Inr (emitted ?s (fmt_codes (i' # is)))"
    using 3 by (simp add: at_item_def emitted_def)
  ultimately show ?case using one
    by (simp add: fmt_run_append) (simp add: emitted_def)
next
  case (4 n k)
  then show ?case using fmt_run_elem [OF assms, of n k s] by (cases n) auto
next
  case (5 n "is")
  let ?c = "case n of FromData \<Rightarrow> 15 | Times k \<Rightarrow> word_of_int (16 * int k)"
  let ?s = "s\<lparr>fs_nn := 1, fs_nr := 0, fs_lev := fs_lev s + 1, fs_room := fs_room s - 1, fs_out := fs_out s @ [?c]\<rparr>"
  have codes: "fmt_codes1 (Group n is) = ?c # fmt_codes is @ [0]" by (cases n) simp_all
  have "fmt_run after (fmt_show is) ?s = Inr (emitted ?s (fmt_codes is))"
    using 5 codes by (simp add: at_item_def)
  moreover have "fmt_step after (CHR '')'') (emitted ?s (fmt_codes is)) = Inr (emitted s (?c # fmt_codes is @ [0]))"
    using 5 codes by (simp add: fmt_step_def is_digit_def emitted_def fmt_emit_def)
  ultimately show ?case
    using 5 codes fmt_run_count [OF assms, of n s] fmt_step_open [of s n after]
    by (simp add: fmt_run_append)
qed auto

text \<open>C14: the parser is a left inverse of the printer: every well-formed format string is accepted
  and translated to the documented codes, in any array that has room for them. The hypothesis on
  \<open>after\<close> is what \<^verbatim>\<open>atoi(&ch)\<close> relies on.\<close>

theorem eviofmt_show:
  assumes "stops_atoi after" and "fmt_wf is" and "int (length (fmt_codes is)) \<le> ifmtLen"
  shows "eviofmt after (fmt_show is) ifmtLen = (int (length (fmt_codes is)), fmt_codes is)"
proof (cases "is = []")
  case False
  then show ?thesis
    using fmt_run_show(1) [OF assms(1) False assms(2), of "fmt_init ifmtLen"] assms(3)
    by (simp add: eviofmt_def fmt_init_def at_item_def emitted_def)
qed (simp add: eviofmt_def fmt_init_def)

theorem eviofmt_show_witness:
  "eviofmt [CHR 0x00] ''3i,N(F,2D)'' 1024 = (5, [49, 15, 18, 40, 0])"
proof -
  have d: "show_digit 2 = CHR ''2''" "show_digit 3 = CHR ''3''" by code_simp+
  show ?thesis
    using eviofmt_show [of "[CHR 0x00]" "[Elem (Times 3) (CHR ''i''), Group FromData [Elem (Times 1) (CHR ''F''), Elem (Times 2) (CHR ''D'')]]" 1024]
    by (simp add: stops_atoi_def is_digit_def fmt_kind_def d)
qed

text \<open>C15: for any string, any length and any bytes behind the local variable, the routine never writes
  more codes than the array holds, writes only codes the interpreter knows, and returns either the
  number of codes or one of the nine documented errors.\<close>

theorem eviofmt_bounds:
  assumes "0 \<le> ifmtLen" and "eviofmt after fmt ifmtLen = (r, codes)"
  shows "int (length codes) \<le> ifmtLen \<and> list_all code_ok codes \<and>
    (if r < 0 then -9 \<le> r else r = int (length codes))"
proof -
  have i: "fmt_inv ifmtLen (fmt_init ifmtLen)" using assms by (simp add: fmt_inv_def fmt_init_def)
  show ?thesis
  proof (cases "fmt_run after fmt (fmt_init ifmtLen)")
    case (Inl p)
    then show ?thesis using assms fmt_run_fail [OF _ i, of after fmt "fst p" "snd p"]
      by (cases p) (auto simp: eviofmt_def)
  next
    case (Inr s)
    then show ?thesis using assms fmt_run_inv [OF _ i, of after fmt s]
      by (auto simp: eviofmt_def fmt_inv_def split: if_splits)
  qed
qed

theorem eviofmt_bounds_witness:
  "(0::int) \<le> 2 \<and> eviofmt [] ''i,i,i'' 2 = (-9, [17, 17]) \<and> length [17, 17 :: u8] \<le> 2"
proof -
  have e: "eviofmt [] ''i,i,i'' 2 = (-9, [17, 17])"
    by (simp add: eviofmt_def fmt_init_def fmt_step_def is_digit_def fmt_kind_def fmt_emit_def)
  show ?thesis using eviofmt_bounds [OF _ e] e by simp
qed

text \<open>what the code does when the hypothesis on \<open>after\<close> fails. With a digit stored behind the local
  variable \<^verbatim>\<open>ch\<close>, the valid format \<^verbatim>\<open>"3i"\<close> is refused with error -2.\<close>

theorem eviofmt_reads_past_char:
  assumes "is_digit c"
  shows "eviofmt (c # after) ''3i'' 1024 = (-2, [])"
proof -
  have "30 \<le> atoi_from (10 * 3 + digit_val c) after"
    by (rule order_trans [OF _ atoi_from_mono]) (use assms in \<open>simp_all add: is_digit_def digit_val_def\<close>)
  then have "\<not> atoi (CHR ''3'' # c # after) \<le> 15"
    using assms by (simp add: atoi_def is_digit_def digit_val_def)
  then show ?thesis
    by (simp add: eviofmt_def fmt_init_def fmt_step_def is_digit_def Let_def)
qed

theorem eviofmt_reads_past_char_witness:
  "is_digit (CHR ''7'') \<and> eviofmt ''7'' ''3i'' 1024 = (-2, [])"
  using eviofmt_reads_past_char [of "CHR ''7''" "[]"] by (simp add: is_digit_def)

end
