(* ===== verification/EvioFmtSwap.thy ===== *)
theory EvioFmtSwap
  imports ByteSwap EvioFmt
begin

text \<open>
  \<^verbatim>\<open>eviofmtswap.c\<close>: the interpreter that walks over composite data, guided by the codes of
  \<^verbatim>\<open>eviofmt\<close>, and swaps every element in place.

  The data are bytes (the element pointer \<^verbatim>\<open>b8\<close> moves by single bytes). \<open>b8\<close> is an integer
  position in the memory that holds the data; the format position, the parenthesis level and the
  array \<^verbatim>\<open>lv[10]\<close> are the control state. Reads of repeat counts from the data are those of a
  little-endian host. Loops that the source does not bound take fuel.
\<close>

section \<open>Words in a byte memory\<close>

definition bytes32 :: "u32 \<Rightarrow> bytes" where
  "bytes32 w = [ucast w, ucast (drop_bit 8 w), ucast (drop_bit 16 w), ucast (drop_bit 24 w)]"

definition le32 :: "bytes \<Rightarrow> u32" where
  "le32 bs = ucast (bs ! 0) OR push_bit 8 (ucast (bs ! 1)) OR push_bit 16 (ucast (bs ! 2)) OR push_bit 24 (ucast (bs ! 3))"

definition bytes16 :: "u16 \<Rightarrow> bytes" where
  "bytes16 w = [ucast w, ucast (drop_bit 8 w)]"

definition le16 :: "bytes \<Rightarrow> u16" where
  "le16 bs = ucast (bs ! 0) OR push_bit 8 (ucast (bs ! 1))"

definition bytes64 :: "u64 \<Rightarrow> bytes" where
  "bytes64 w = bytes32 (lo64 w) @ bytes32 (hi64 w)"

definition le64 :: "bytes \<Rightarrow> u64" where
  "le64 bs = pair64 (le32 (take 4 bs)) (le32 (drop 4 bs))"

text \<open>Access at a signed position: below 0 or past the end is outside the object.\<close>

definition rdn :: "bytes \<Rightarrow> int \<Rightarrow> nat \<Rightarrow> bytes option" where
  "rdn m p k = (if 0 \<le> p \<and> nat p + k \<le> length m then Some (take k (drop (nat p) m)) else None)"

definition wrn :: "bytes \<Rightarrow> int \<Rightarrow> bytes \<Rightarrow> bytes option" where
  "wrn m p bs =
     (if 0 \<le> p \<and> nat p + length bs \<le> length m
      then Some (take (nat p) m @ bs @ drop (nat p + length bs) m) else None)"

definition swap64_at :: "bytes \<Rightarrow> int \<Rightarrow> bytes option" where
  "swap64_at m p = do { bs \<leftarrow> rdn m p 8; wrn m p (bytes64 (EVIO_SWAP64 (le64 bs))) }"

definition swap32_at :: "bytes \<Rightarrow> int \<Rightarrow> bytes option" where
  "swap32_at m p = do { bs \<leftarrow> rdn m p 4; wrn m p (bytes32 (EVIO_SWAP32 (le32 bs))) }"

definition swap16_at :: "bytes \<Rightarrow> int \<Rightarrow> bytes option" where
  "swap16_at m p = do { bs \<leftarrow> rdn m p 2; wrn m p (bytes16 (EVIO_SWAP16 (le16 bs))) }"

section \<open>Control state\<close>

text \<open>The \<^verbatim>\<open>LV\<close> struct and the local variables of the routine.\<close>

record LV =
  lv_left :: nat
  lv_nrepeat :: int
  lv_irepeat :: int

record fmt_ctl =
  imt :: nat
  lev :: int
  iterm :: nat
  lv :: "LV list"

definition LV_SIZE :: nat where "LV_SIZE = 10"

definition ctl_init :: fmt_ctl where
  "ctl_init = \<lparr>imt = 0, lev = 0, iterm = 0,
     lv = replicate LV_SIZE \<lparr>lv_left = 0, lv_nrepeat = 0, lv_irepeat = 0\<rparr>\<rparr>"

definition lv_at :: "fmt_ctl \<Rightarrow> int \<Rightarrow> LV option" where
  "lv_at c i = (if i < 0 then None else rd (lv c) (nat i))"

definition lv_set :: "fmt_ctl \<Rightarrow> int \<Rightarrow> LV \<Rightarrow> fmt_ctl option" where
  "lv_set c i L = (if i < 0 then None else map_option (\<lambda>l. c\<lparr>lv := l\<rparr>) (wr (lv c) (nat i) L))"

text \<open>
  Read a repeat count from the data and swap it: \<^verbatim>\<open>if (!tolocal) ncnf = *b32; *b32 = EVIO_SWAP32(*b32);
  if (tolocal) ncnf = *b32; b8 += 4;\<close>
\<close>

definition take_count :: "bool \<Rightarrow> bytes \<Rightarrow> int \<Rightarrow> (int \<times> bytes \<times> int) option" where
  "take_count tolocal m p = do {
     before \<leftarrow> rdn m p 4;
     m' \<leftarrow> swap32_at m p;
     after \<leftarrow> rdn m' p 4;
     Some (sint (le32 (if tolocal then after else before)), m', p + 4)
   }"

text \<open>A right parenthesis: count the round, then leave the group or go back to its start.\<close>

definition close_paren :: "fmt_ctl \<Rightarrow> fmt_ctl option" where
  "close_paren c = do {
     L \<leftarrow> lv_at c (lev c - 1);
     let L' = L\<lparr>lv_irepeat := lv_irepeat L + 1\<rparr>;
     c' \<leftarrow> lv_set c (lev c - 1) L';
     Some (if lv_irepeat L' \<ge> lv_nrepeat L'
           then c'\<lparr>iterm := lv_left L' - 1, lev := lev c - 1\<rparr>
           else c'\<lparr>imt := lv_left L'\<rparr>)
   }"

definition open_paren :: "fmt_ctl \<Rightarrow> int \<Rightarrow> fmt_ctl option" where
  "open_paren c n =
     map_option (\<lambda>c'. c'\<lparr>lev := lev c + 1\<rparr>)
       (lv_set c (lev c) \<lparr>lv_left = imt c, lv_nrepeat = n, lv_irepeat = 0\<rparr>)"

text \<open>The repeat count of an element code: the last element of the last group is repeated to the end.\<close>

definition elem_count :: "fmt_ctl \<Rightarrow> int \<Rightarrow> int \<Rightarrow> int option" where
  "elem_count c nfmt ncnf =
     (if lev c = 0 then Some ncnf
      else if int (imt c) \<noteq> nfmt - 1 then Some ncnf
      else do {
        L \<leftarrow> lv_at c (lev c - 1);
        Some (if imt c \<noteq> lv_left L + 1 then ncnf else 999999999)
      })"

text \<open>
  One round of the inner loop \<^verbatim>\<open>while (1)\<close> that looks for the next element code: it either goes
  round again or breaks with a kind and a count.
\<close>

datatype code_round = Again fmt_ctl bytes int | Found int int fmt_ctl bytes int

definition code_iter :: "bool \<Rightarrow> bytes \<Rightarrow> int \<Rightarrow> fmt_ctl \<Rightarrow> bytes \<Rightarrow> int \<Rightarrow> code_round option" where
  "code_iter tolocal ifmt nfmt c0 m p =
     (let c = c0\<lparr>imt := imt c0 + 1\<rparr> in
      if int (imt c) > nfmt then Some (Again (c\<lparr>imt := iterm c\<rparr>) m p)
      else do {
        code \<leftarrow> rd ifmt (imt c - 1);
        if code = 0 then do { c' \<leftarrow> close_paren c; Some (Again c' m p) }
        else do {
          let ncnf = uint code div 16;
          let kcnf = uint code - 16 * ncnf;
          (kcnf, ncnf, m, p) \<leftarrow>
            (if kcnf = 15 then do { (n, m', p') \<leftarrow> take_count tolocal m p; Some (0, n, m', p') }
             else Some (kcnf, ncnf, m, p));
          if kcnf = 0 then do { c' \<leftarrow> open_paren c ncnf; Some (Again c' m p) }
          else do { n \<leftarrow> elem_count c nfmt ncnf; Some (Found kcnf n c m p) }
        }
      })"

fun next_code :: "nat \<Rightarrow> bool \<Rightarrow> bytes \<Rightarrow> int \<Rightarrow> fmt_ctl \<Rightarrow> bytes \<Rightarrow> int
    \<Rightarrow> (int \<times> int \<times> fmt_ctl \<times> bytes \<times> int) option" where
  "next_code 0 tolocal ifmt nfmt c m p = None"
| "next_code (Suc fuel) tolocal ifmt nfmt c m p = do {
     r \<leftarrow> code_iter tolocal ifmt nfmt c m p;
     (case r of Again c' m' p' \<Rightarrow> next_code fuel tolocal ifmt nfmt c' m' p'
      | Found k n c' m' p' \<Rightarrow> Some (k, n, c', m', p'))
   }"

section \<open>Element loops\<close>

text \<open>
  \<^verbatim>\<open>while (b64 < b64end) { *b64 = EVIO_SWAP64(*b64); b64++; }\<close> and its 32 and 16 bit siblings, for
  a swap \<open>sw\<close> of elements of \<open>Suc k\<close> bytes.
\<close>

function swap_run :: "(bytes \<Rightarrow> int \<Rightarrow> bytes option) \<Rightarrow> nat \<Rightarrow> bytes \<Rightarrow> int \<Rightarrow> int \<Rightarrow> (bytes \<times> int) option" where
  "swap_run sw k m b e =
     (if b < e then do { m' \<leftarrow> sw m b; swap_run sw k m' (b + int (Suc k)) e } else Some (m, b))"
  by pat_completeness auto
termination
  by (relation "measure (\<lambda>(sw, k, m, b, e). nat (e - b))") auto

declare swap_run.simps [simp del]

text \<open>Convert \<open>ncnf\<close> elements of kind \<open>kcnf\<close> from position \<open>p\<close>, clipped at the end of the data.\<close>

definition convert :: "int \<Rightarrow> int \<Rightarrow> bytes \<Rightarrow> int \<Rightarrow> int \<Rightarrow> (bytes \<times> int) option" where
  "convert kcnf ncnf m p e =
     (if kcnf = 8 \<or> kcnf = 9 \<or> kcnf = 10 then swap_run swap64_at 7 m p (min (p + 8 * ncnf) e)
      else if kcnf = 1 \<or> kcnf = 2 \<or> kcnf = 11 \<or> kcnf = 12 then swap_run swap32_at 3 m p (min (p + 4 * ncnf) e)
      else if kcnf = 4 \<or> kcnf = 5 then swap_run swap16_at 1 m p (min (p + 2 * ncnf) e)
      else if kcnf = 6 \<or> kcnf = 7 \<or> kcnf = 3 then Some (m, p + ncnf)
      else Some (m, p))"

text \<open>The outer loop, \<^verbatim>\<open>while (b8 < b8end)\<close>.\<close>

fun fmtswap_loop :: "nat \<Rightarrow> bool \<Rightarrow> bytes \<Rightarrow> int \<Rightarrow> fmt_ctl \<Rightarrow> bytes \<Rightarrow> int \<Rightarrow> int \<Rightarrow> bytes option" where
  "fmtswap_loop 0 tolocal ifmt nfmt c m p e = None"
| "fmtswap_loop (Suc fuel) tolocal ifmt nfmt c m p e =
     (if p < e then do {
        (kcnf, ncnf, c, m, p) \<leftarrow> next_code fuel tolocal ifmt nfmt c m p;
        (ncnf, m, p) \<leftarrow> (if ncnf = 0 then take_count tolocal m p else Some (ncnf, m, p));
        (m, p) \<leftarrow> convert kcnf ncnf m p e;
        fmtswap_loop fuel tolocal ifmt nfmt c m p e
      } else Some m)"

definition eviofmtswap ::
  "nat \<Rightarrow> bytes \<Rightarrow> int \<Rightarrow> int \<Rightarrow> bytes \<Rightarrow> int \<Rightarrow> bool \<Rightarrow> (status \<times> bytes) option" where
  "eviofmtswap fuel m base nwrd ifmt nfmt tolocal =
     (if nwrd \<le> 0 \<or> nfmt \<le> 0 then Some (-1, m)
      else map_option (\<lambda>m'. (0, m'))
             (fmtswap_loop fuel tolocal ifmt nfmt ctl_init m base (base + 4 * nwrd)))"

section \<open>Bytes of swapped elements\<close>

lemma bit_byte: "bit (ucast (drop_bit k (w::'a::len word)) :: u8) n \<longleftrightarrow> n < 8 \<and> bit w (k + n)"
  by (auto simp: bit_simps dest: bit_imp_le_length)

lemma bytes32_swap: "bytes32 (EVIO_SWAP32 w) = rev (bytes32 w)"
proof -
  have b: "(ucast (drop_bit (8 * k) (EVIO_SWAP32 w)) :: u8) = ucast (drop_bit (8 * (3 - k)) w)" if "k < 4" for k
    by (rule bit_word_eqI) (use that in \<open>auto simp: bit_byte bit_EVIO_SWAP32\<close>)
  show ?thesis using b [of 0] b [of 1] b [of 2] b [of 3] by (simp add: bytes32_def)
qed

lemma le32_bytes32: "le32 (bytes32 w) = w"
proof (rule bit_word_eqI)
  fix n assume "n < LENGTH(32)"
  then have "n < 32" by simp
  then show "bit (le32 (bytes32 w)) n = bit w n"
    by (cases "n < 8"; cases "n < 16"; cases "n < 24") (auto simp: le32_def bytes32_def bit_simps dest: bit_imp_le_length)
qed

lemma bytes32_le32:
  assumes "length bs = 4"
  shows "bytes32 (le32 bs) = bs"
proof -
  obtain a b c d where bs: "bs = [a, b, c, d]"
    using assms by (auto simp: numeral_eq_Suc length_Suc_conv)
  have "(ucast (le32 bs) :: u8) = a" "(ucast (drop_bit 8 (le32 bs)) :: u8) = b"
    "(ucast (drop_bit 16 (le32 bs)) :: u8) = c" "(ucast (drop_bit 24 (le32 bs)) :: u8) = d"
    by (rule bit_word_eqI; auto simp: bs le32_def bit_simps dest: bit_imp_le_length)+
  then show ?thesis by (simp add: bytes32_def bs)
qed

lemma bytes16_le16:
  assumes "length bs = 2"
  shows "bytes16 (EVIO_SWAP16 (le16 bs)) = rev bs"
proof -
  obtain a b where bs: "bs = [a, b]"
    using assms by (auto simp: numeral_eq_Suc length_Suc_conv)
  have "(ucast (EVIO_SWAP16 (le16 bs)) :: u8) = b" "(ucast (drop_bit 8 (EVIO_SWAP16 (le16 bs))) :: u8) = a"
    by (rule bit_word_eqI; auto simp: bs le16_def bit_EVIO_SWAP16 bit_simps dest: bit_imp_le_length)+
  then show ?thesis by (simp add: bytes16_def bs)
qed

lemma swapped_bytes32: "length bs = 4 \<Longrightarrow> bytes32 (EVIO_SWAP32 (le32 bs)) = rev bs"
  by (simp add: bytes32_swap bytes32_le32)

lemma swapped_bytes64:
  assumes "length bs = 8"
  shows "bytes64 (EVIO_SWAP64 (le64 bs)) = rev bs"
proof -
  have "bytes32 (le32 (take 4 bs)) = take 4 bs" "bytes32 (le32 (drop 4 bs)) = drop 4 bs"
    using assms by (simp_all add: bytes32_le32)
  then have "bytes64 (EVIO_SWAP64 (le64 bs)) = rev (drop 4 bs) @ rev (take 4 bs)"
    by (simp add: bytes64_def le64_def swap64_words bytes32_swap)
  then show ?thesis by (simp add: rev_append [symmetric])
qed

section \<open>Forward steps and how they are undone\<close>

text \<open>
  Every operation of the interpreter works on a range \<open>[p, p')\<close> and moves the data pointer from
  \<open>p\<close> to \<open>p'\<close>. \<open>graft m2 p q m\<close> is \<open>m2\<close> with the range \<open>[p, q)\<close> taken from \<open>m\<close>.
\<close>

definition fwd :: "bytes \<Rightarrow> int \<Rightarrow> bytes \<Rightarrow> int \<Rightarrow> bool" where
  "fwd m p m' p' \<longleftrightarrow> 0 \<le> p \<and> p \<le> p' \<and> length m' = length m \<and>
     (\<forall>i < length m. \<not> (p \<le> int i \<and> int i < p') \<longrightarrow> m' ! i = m ! i)"

definition agree :: "bytes \<Rightarrow> bytes \<Rightarrow> int \<Rightarrow> int \<Rightarrow> bool" where
  "agree m2 m p q \<longleftrightarrow> length m2 = length m \<and> (\<forall>i < length m. p \<le> int i \<and> int i < q \<longrightarrow> m2 ! i = m ! i)"

definition graft :: "bytes \<Rightarrow> int \<Rightarrow> int \<Rightarrow> bytes \<Rightarrow> bytes" where
  "graft m2 p q m = map (\<lambda>i. if p \<le> int i \<and> int i < q then m ! i else m2 ! i) [0..<length m2]"

lemma graft_length [simp]: "length (graft m2 p q m) = length m2"
  by (simp add: graft_def)

lemma graft_nth [simp]:
  "i < length m2 \<Longrightarrow> graft m2 p q m ! i = (if p \<le> int i \<and> int i < q then m ! i else m2 ! i)"
  by (simp add: graft_def)

lemma graft_empty: "p = q \<Longrightarrow> graft m2 p q m = m2"
  by (rule nth_equalityI) auto

lemma fwd_refl: "0 \<le> p \<Longrightarrow> p \<le> p' \<Longrightarrow> fwd m p m p'"
  by (simp add: fwd_def)

lemma fwd_trans: "fwd m p m' p' \<Longrightarrow> fwd m' p' m'' p'' \<Longrightarrow> fwd m p m'' p''"
  by (auto simp: fwd_def)

lemma fwd_nonneg: "fwd m p m' p' \<Longrightarrow> 0 \<le> p'"
  by (auto simp: fwd_def)

lemma agree_before: "fwd m p m' p' \<Longrightarrow> fwd m' p' m'' p'' \<Longrightarrow> agree m2 m'' p p'' \<Longrightarrow> agree m2 m' p p'"
  by (auto simp: fwd_def agree_def)

lemma agree_after: "fwd m p m' p' \<Longrightarrow> fwd m' p' m'' p'' \<Longrightarrow> agree m2 m'' p p'' \<Longrightarrow> agree (graft m2 p p' m) m'' p' p''"
  by (auto simp: fwd_def agree_def)

lemma graft_splice: "fwd m p m' p' \<Longrightarrow> fwd m' p' m'' p'' \<Longrightarrow> length m2 = length m \<Longrightarrow>
   graft (graft m2 p p' m) p' p'' m' = graft m2 p p'' m"
  by (rule nth_equalityI) (auto simp: fwd_def)

lemma agree_length: "agree m2 m' p q \<Longrightarrow> length m2 = length m'"
  by (simp add: agree_def)

lemma fwd_length: "fwd m p m' q \<Longrightarrow> length m' = length m"
  by (simp add: fwd_def)

text \<open>What the element loops need from the swap of one element of \<open>Suc k\<close> bytes.\<close>

locale element_swap =
  fixes sw :: "bytes \<Rightarrow> int \<Rightarrow> bytes option" and k :: nat
  assumes sw_fwd: "sw m p = Some m' \<Longrightarrow> fwd m p m' (p + int (Suc k))"
    and sw_undo: "sw m p = Some m' \<Longrightarrow> agree m2 m' p (p + int (Suc k)) \<Longrightarrow>
      sw m2 p = Some (graft m2 p (p + int (Suc k)) m)"
begin

lemma run_undo:
  "swap_run sw k m b e = Some (m', b') \<Longrightarrow> 0 \<le> b \<Longrightarrow>
     fwd m b m' b' \<and> (\<forall>m2. agree m2 m' b b' \<longrightarrow> swap_run sw k m2 b e = Some (graft m2 b b' m, b'))"
proof (induction "nat (e - b)" arbitrary: m b rule: less_induct)
  case less
  show ?case
  proof (cases "b < e")
    case False
    with less.prems have "m' = m" "b' = b"
      by (simp_all add: swap_run.simps [of sw k m])
    then show ?thesis using False less.prems
      by (simp add: fwd_refl graft_empty swap_run.simps [of sw k])
  next
    case True
    let ?c = "b + int (Suc k)"
    obtain m1 where m1: "sw m b = Some m1" "swap_run sw k m1 ?c e = Some (m', b')"
      using less.prems True by (auto simp: swap_run.simps [of sw k m] bind_Some_iff)
    have IH: "fwd m1 ?c m' b'" "\<And>m2. agree m2 m' ?c b' \<Longrightarrow> swap_run sw k m2 ?c e = Some (graft m2 ?c b' m1, b')"
      using less.hyps [OF _ m1(2)] True less.prems by auto
    have f: "fwd m b m1 ?c" using m1(1) by (rule sw_fwd)
    have "swap_run sw k m2 b e = Some (graft m2 b b' m, b')" if a: "agree m2 m' b b'" for m2
    proof -
      have "sw m2 b = Some (graft m2 b ?c m)"
        by (rule sw_undo [OF m1(1) agree_before [OF f IH(1) a]])
      moreover have "swap_run sw k (graft m2 b ?c m) ?c e = Some (graft m2 b b' m, b')"
        using IH(2) [OF agree_after [OF f IH(1) a]] graft_splice [OF f IH(1)]
          agree_length [OF a] fwd_length [OF f] fwd_length [OF IH(1)] by simp
      ultimately show ?thesis using True by (simp add: swap_run.simps [of sw k m2])
    qed
    then show ?thesis using fwd_trans [OF f IH(1)] by blast
  qed
qed

end

text \<open>Swapping \<open>n\<close> bytes where they are: the common shape of the three element swaps.\<close>

definition rev_at :: "nat \<Rightarrow> bytes \<Rightarrow> int \<Rightarrow> bytes option" where
  "rev_at n m p = do { bs \<leftarrow> rdn m p n; wrn m p (rev bs) }"

lemma rdn_length: "rdn m p n = Some bs \<Longrightarrow> length bs = n"
  by (auto simp: rdn_def split: if_splits)

lemma rdn_nth: "rdn m p n = Some bs \<Longrightarrow> i < n \<Longrightarrow> bs ! i = m ! (nat p + i)"
  by (auto simp: rdn_def split: if_splits)

lemma wrn_nth:
  "wrn m p bs = Some m' \<Longrightarrow> i < length m \<Longrightarrow>
     m' ! i = (if p \<le> int i \<and> int i < p + int (length bs) then bs ! (i - nat p) else m ! i)"
  by (auto simp: wrn_def nth_append min_def split: if_splits)

lemma wrn_length: "wrn m p bs = Some m' \<Longrightarrow> length m' = length m"
  by (auto simp: wrn_def split: if_splits)

lemma swaps_rev_at: "swap64_at = rev_at 8" "swap32_at = rev_at 4" "swap16_at = rev_at 2"
  unfolding swap64_at_def swap32_at_def swap16_at_def rev_at_def
  by (intro ext Option.bind_cong refl;
      simp add: swapped_bytes64 swapped_bytes32 bytes16_le16 rdn_length)+

lemma rev_at_Some:
  "rev_at n m p = Some m' \<longleftrightarrow> 0 \<le> p \<and> nat p + n \<le> length m \<and> length m' = length m \<and>
     (\<forall>i < length m. m' ! i = (if p \<le> int i \<and> int i < p + int n then m ! (nat p + (n - Suc (i - nat p))) else m ! i))"
    (is "?L \<longleftrightarrow> ?R")
proof
  assume ?L
  then obtain bs where bs: "rdn m p n = Some bs" "wrn m p (rev bs) = Some m'"
    by (auto simp: rev_at_def bind_Some_iff)
  then have r: "0 \<le> p" "nat p + n \<le> length m" by (auto simp: rdn_def split: if_splits)
  show ?R using r wrn_length [OF bs(2)] wrn_nth [OF bs(2)] rdn_nth [OF bs(1)] rdn_length [OF bs(1)]
    by (auto simp: rev_nth)
next
  assume R: ?R
  then obtain bs where bs: "rdn m p n = Some bs" by (simp add: rdn_def)
  with R obtain m1 where m1: "wrn m p (rev bs) = Some m1" by (simp add: wrn_def rdn_length)
  have "m1 = m'"
    using R wrn_length [OF m1] wrn_nth [OF m1] rdn_nth [OF bs] rdn_length [OF bs]
    by (intro nth_equalityI) (auto simp: rev_nth)
  then show ?L using bs m1 by (simp add: rev_at_def)
qed

lemma rev_at_fwd: "rev_at n m p = Some m' \<Longrightarrow> fwd m p m' (p + int n)"
  by (auto simp: rev_at_Some fwd_def)

lemma rev_at_undo:
  assumes "rev_at n m p = Some m'" and "agree m2 m' p (p + int n)"
  shows "rev_at n m2 p = Some (graft m2 p (p + int n) m)"
  unfolding rev_at_Some
proof (intro conjI allI impI)
  show "0 \<le> p" "nat p + n \<le> length m2" "length (graft m2 p (p + int n) m) = length m2"
    using assms by (auto simp: rev_at_Some agree_def)
next
  fix i assume i: "i < length m2"
  show "graft m2 p (p + int n) m ! i =
    (if p \<le> int i \<and> int i < p + int n then m2 ! (nat p + (n - Suc (i - nat p))) else m2 ! i)"
  proof (cases "p \<le> int i \<and> int i < p + int n")
    case True
    define j where "j = nat p + (n - Suc (i - nat p))"
    have p: "0 \<le> p" "nat p + n \<le> length m" "length m' = length m" "length m2 = length m"
      using assms by (auto simp: rev_at_Some agree_def)
    then have j: "j < length m" "p \<le> int j" "int j < p + int n" "nat p + (n - Suc (j - nat p)) = i"
      using True unfolding j_def by linarith+
    have "m2 ! j = m' ! j" using assms(2) j p(3) by (simp add: agree_def)
    also have "\<dots> = m ! i" using assms(1) j by (simp add: rev_at_Some)
    finally show ?thesis using True i by (simp add: j_def [symmetric])
  qed (use i in auto)
qed

interpretation run64: element_swap swap64_at 7
  by unfold_locales (use rev_at_fwd [of 8] rev_at_undo [of 8] in \<open>simp_all add: swaps_rev_at\<close>)

interpretation run32: element_swap swap32_at 3
  by unfold_locales (use rev_at_fwd [of 4] rev_at_undo [of 4] in \<open>simp_all add: swaps_rev_at\<close>)

interpretation run16: element_swap swap16_at 1
  by unfold_locales (use rev_at_fwd [of 2] rev_at_undo [of 2] in \<open>simp_all add: swaps_rev_at\<close>)

section \<open>The whole interpreter is undone by its counterpart\<close>

lemma swap32_undo: "swap32_at m p = Some m' \<Longrightarrow> agree m2 m' p (p + 4) \<Longrightarrow> swap32_at m2 p = Some (graft m2 p (p + 4) m)"
  using run32.sw_undo [of m p m' m2] by simp

lemma rdn_agree: "agree m2 m p (p + int n) \<Longrightarrow> rdn m2 p n = rdn m p n"
  unfolding agree_def rdn_def
  by (auto intro!: nth_equalityI)

text \<open>The count read after the swap in one direction is the one read before it in the other.\<close>

lemma take_count_undo:
  assumes "take_count True m p = Some (n, m', p')"
  shows "p' = p + 4 \<and> fwd m p m' p' \<and>
    (\<forall>m2. agree m2 m' p p' \<longrightarrow> take_count False m2 p = Some (n, graft m2 p p' m, p'))"
proof -
  obtain a b where a: "rdn m p 4 = Some a" "swap32_at m p = Some m'" "rdn m' p 4 = Some b"
    "n = sint (le32 b)" "p' = p + 4"
    using assms by (auto simp: take_count_def bind_Some_iff)
  have f: "fwd m p m' (p + 4)" using run32.sw_fwd [OF a(2)] by simp
  have "take_count False m2 p = Some (n, graft m2 p (p + 4) m, p + 4)" if g: "agree m2 m' p (p + 4)" for m2
  proof -
    have "rdn m2 p 4 = Some b" using rdn_agree [of m2 m' p 4] g a by simp
    moreover have "swap32_at m2 p = Some (graft m2 p (p + 4) m)" using swap32_undo a(2) g by blast
    moreover have "rdn (graft m2 p (p + 4) m) p 4 = rdn m p 4"
      using agree_length [OF g] fwd_length [OF f] by (intro rdn_agree) (simp add: agree_def)
    ultimately show ?thesis using a by (simp add: take_count_def)
  qed
  with a f show ?thesis by simp
qed

text \<open>The memory and position a round ends with, and the round with another memory.\<close>

fun round_mem :: "code_round \<Rightarrow> bytes" where
  "round_mem (Again c m p) = m"
| "round_mem (Found k n c m p) = m"

fun round_pos :: "code_round \<Rightarrow> int" where
  "round_pos (Again c m p) = p"
| "round_pos (Found k n c m p) = p"

fun with_mem :: "bytes \<Rightarrow> code_round \<Rightarrow> code_round" where
  "with_mem x (Again c m p) = Again c x p"
| "with_mem x (Found k n c m p) = Found k n c x p"

lemma code_iter_undo:
  assumes "code_iter True ifmt nfmt c m p = Some r" "0 \<le> p"
  shows "fwd m p (round_mem r) (round_pos r) \<and>
    (\<forall>m2. agree m2 (round_mem r) p (round_pos r) \<longrightarrow>
       code_iter False ifmt nfmt c m2 p = Some (with_mem (graft m2 p (round_pos r) m) r))"
proof -
  let ?c = "c\<lparr>imt := imt c + 1\<rparr>"
  have still: "?thesis" if "round_mem r = m" "round_pos r = p"
    "\<And>m2. code_iter False ifmt nfmt c m2 p = Some (with_mem m2 r)"
    using that assms(2) by (simp add: fwd_refl graft_empty)
  show ?thesis
  proof (cases "int (imt ?c) > nfmt")
    case True
    then show ?thesis using assms(1) by (intro still) (auto simp: code_iter_def)
  next
    case in_fmt: False
    then obtain x where x: "rd ifmt (imt ?c - 1) = Some x"
      using assms(1) by (auto simp: code_iter_def Let_def bind_Some_iff)
    let ?k = "uint x - 16 * (uint x div 16)"
    show ?thesis
    proof (cases "x \<noteq> 0 \<and> ?k = 15")
      case False
      then show ?thesis using assms(1) in_fmt x
        by (intro still) (auto simp: code_iter_def Let_def bind_Some_iff split: if_splits)
    next
      case True
      from assms(1) in_fmt x True obtain n m1 p1 c' where
        t: "take_count True m p = Some (n, m1, p1)" and o: "open_paren ?c n = Some c'" and r: "r = Again c' m1 p1"
        by (auto simp: code_iter_def Let_def bind_Some_iff)
      then show ?thesis using take_count_undo [OF t] in_fmt x True
        by (auto simp add: code_iter_def Let_def)
    qed
  qed
qed

lemma next_code_undo:
  "next_code fuel True ifmt nfmt c m p = Some (k, n, c', m', p') \<Longrightarrow> 0 \<le> p \<Longrightarrow>
     fwd m p m' p' \<and>
     (\<forall>m2. agree m2 m' p p' \<longrightarrow>
        next_code fuel False ifmt nfmt c m2 p = Some (k, n, c', graft m2 p p' m, p'))"
proof (induction fuel arbitrary: c m p)
  case 0
  then show ?case by simp
next
  case (Suc fuel)
  from Suc.prems(1) obtain r where it: "code_iter True ifmt nfmt c m p = Some r"
    and rest: "(case r of Again c' m' p' \<Rightarrow> next_code fuel True ifmt nfmt c' m' p'
      | Found k n c' m' p' \<Rightarrow> Some (k, n, c', m', p')) = Some (k, n, c', m', p')"
    by (auto simp: bind_Some_iff)
  note iu = code_iter_undo [OF it Suc.prems(2)]
  show ?case
  proof (cases r)
    case (Found k2 n2 c2 m2 p2)
    then show ?thesis using iu rest by simp
  next
    case (Again c1 m1 p1)
    then have f: "fwd m p m1 p1" and u: "\<And>x. agree x m1 p p1 \<Longrightarrow>
        code_iter False ifmt nfmt c x p = Some (Again c1 (graft x p p1 m) p1)"
      using iu by auto
    have IH: "fwd m1 p1 m' p'" "\<And>x. agree x m' p1 p' \<Longrightarrow>
        next_code fuel False ifmt nfmt c1 x p1 = Some (k, n, c', graft x p1 p' m1, p')"
      using Suc.IH [of c1 m1 p1] rest Again fwd_nonneg [OF f] by auto
    have "next_code (Suc fuel) False ifmt nfmt c x p = Some (k, n, c', graft x p p' m, p')"
      if a: "agree x m' p p'" for x
      using u [OF agree_before [OF f IH(1) a]] IH(2) [OF agree_after [OF f IH(1) a]]
        graft_splice [OF f IH(1)] agree_length [OF a] fwd_length [OF f] fwd_length [OF IH(1)] by simp
    then show ?thesis using fwd_trans [OF f IH(1)] by blast
  qed
qed

text \<open>Formats that never take the count of an 8-bit element from the data: their data pointer never moves back.\<close>

definition forward_fmt :: "bytes \<Rightarrow> bool" where
  "forward_fmt ifmt \<longleftrightarrow> list_all (\<lambda>c. uint c \<notin> {3, 6, 7}) ifmt"

lemma elem_count_cases: "elem_count c nfmt n = Some n' \<Longrightarrow> n' = n \<or> n' = 999999999"
  by (auto simp: elem_count_def bind_Some_iff split: if_splits)

lemma code_iter_count:
  assumes "code_iter t ifmt nfmt c0 m p = Some (Found k n c m' p')" "forward_fmt ifmt" "k \<in> {3, 6, 7}"
  shows "0 < n"
proof -
  let ?c = "c0\<lparr>imt := imt c0 + 1\<rparr>"
  obtain x where x: "rd ifmt (imt ?c - 1) = Some x" "k = uint x - 16 * (uint x div 16)"
    "elem_count ?c nfmt (uint x div 16) = Some n"
    using assms(1) by (auto simp: code_iter_def Let_def bind_Some_iff split: if_splits)
  have "uint x \<notin> {3, 6, 7}"
    using x(1) assms(2) by (auto simp: forward_fmt_def list_all_iff rd_Some_iff)
  then have "uint x div 16 \<noteq> 0" using x(2) assms(3) by auto
  moreover have "0 \<le> uint x div 16" by (simp add: pos_imp_zdiv_nonneg_iff)
  ultimately show ?thesis using elem_count_cases [OF x(3)] by linarith
qed

lemma next_code_count:
  "next_code fuel t ifmt nfmt c m p = Some (k, n, c', m', p') \<Longrightarrow> forward_fmt ifmt \<Longrightarrow> k \<in> {3, 6, 7} \<Longrightarrow> 0 < n"
proof (induction fuel arbitrary: c m p)
  case 0
  then show ?case by simp
next
  case (Suc fuel)
  then obtain r where r: "code_iter t ifmt nfmt c m p = Some r"
    and rest: "(case r of Again c' m' p' \<Rightarrow> next_code fuel t ifmt nfmt c' m' p'
      | Found k n c' m' p' \<Rightarrow> Some (k, n, c', m', p')) = Some (k, n, c', m', p')"
    by (auto simp: bind_Some_iff)
  show ?case
  proof (cases r)
    case (Again c1 m1 p1)
    then show ?thesis using rest Suc.IH [of c1 m1 p1] Suc.prems(2,3) by simp
  next
    case (Found k2 n2 c2 m2 p2)
    then show ?thesis using rest code_iter_count [of t ifmt nfmt c m p k n] r Suc.prems(2,3) by simp
  qed
qed

lemma convert_undo:
  assumes "convert k n m p e = Some (m', p')" "0 \<le> p" "k \<in> {3, 6, 7} \<Longrightarrow> 0 \<le> n"
  shows "fwd m p m' p' \<and> (\<forall>m2. agree m2 m' p p' \<longrightarrow> convert k n m2 p e = Some (graft m2 p p' m, p'))"
proof -
  consider (w64) "k = 8 \<or> k = 9 \<or> k = 10"
    | (w32) "\<not> (k = 8 \<or> k = 9 \<or> k = 10)" "k = 1 \<or> k = 2 \<or> k = 11 \<or> k = 12"
    | (w16) "\<not> (k = 8 \<or> k = 9 \<or> k = 10)" "\<not> (k = 1 \<or> k = 2 \<or> k = 11 \<or> k = 12)" "k = 4 \<or> k = 5"
    | (none) "\<not> (k = 8 \<or> k = 9 \<or> k = 10)" "\<not> (k = 1 \<or> k = 2 \<or> k = 11 \<or> k = 12)" "\<not> (k = 4 \<or> k = 5)"
    by blast
  then show ?thesis
  proof cases
    case w64
    then have "convert k n x p e = swap_run swap64_at 7 x p (min (p + 8 * n) e)" for x
      by (simp only: convert_def if_True)
    then show ?thesis using run64.run_undo [of m p "min (p + 8 * n) e" m' p'] assms(1,2) by auto
  next
    case w32
    then have "convert k n x p e = swap_run swap32_at 3 x p (min (p + 4 * n) e)" for x
      by (simp only: convert_def if_True if_False)
    then show ?thesis using run32.run_undo [of m p "min (p + 4 * n) e" m' p'] assms(1,2) by auto
  next
    case w16
    then have "convert k n x p e = swap_run swap16_at 1 x p (min (p + 2 * n) e)" for x
      by (simp only: convert_def if_True if_False)
    then show ?thesis using run16.run_undo [of m p "min (p + 2 * n) e" m' p'] assms(1,2) by auto
  next
    case none
    then have "m' = m" "p \<le> p'" "\<And>x. convert k n x p e = Some (x, p')"
      using assms by (auto simp: convert_def split: if_splits)
    moreover have "graft m2 p p' m = m2" if "agree m2 m p p'" for m2
      using that by (intro nth_equalityI) (auto simp: agree_def)
    ultimately show ?thesis using assms(2) by (simp add: fwd_refl)
  qed
qed

lemma fmtswap_loop_undo:
  "fmtswap_loop fuel True ifmt nfmt c m p e = Some m' \<Longrightarrow> 0 \<le> p \<Longrightarrow> forward_fmt ifmt \<Longrightarrow>
     (\<exists>p'. fwd m p m' p' \<and>
       (\<forall>m2. agree m2 m' p p' \<longrightarrow> fmtswap_loop fuel False ifmt nfmt c m2 p e = Some (graft m2 p p' m)))"
proof (induction fuel arbitrary: c m p)
  case 0
  then show ?case by simp
next
  case (Suc fuel)
  show ?case
  proof (cases "p < e")
    case False
    then show ?thesis using Suc.prems
      by (intro exI [of _ p]) (auto simp: fwd_refl graft_empty)
  next
    case True
    from Suc.prems(1) True obtain k n0 c1 m1 p1 n m2 p2 m3 p3 where
      nc: "next_code fuel True ifmt nfmt c m p = Some (k, n0, c1, m1, p1)" and
      tc: "(if n0 = 0 then take_count True m1 p1 else Some (n0, m1, p1)) = Some (n, m2, p2)" and
      cv: "convert k n m2 p2 e = Some (m3, p3)" and
      lp: "fmtswap_loop fuel True ifmt nfmt c1 m3 p3 e = Some m'"
      by (auto simp: bind_Some_iff)
    have f1: "fwd m p m1 p1" and u1: "\<And>x. agree x m1 p p1 \<Longrightarrow>
        next_code fuel False ifmt nfmt c x p = Some (k, n0, c1, graft x p p1 m, p1)"
      using next_code_undo [OF nc Suc.prems(2)] by auto
    have f2: "fwd m1 p1 m2 p2" and u2: "\<And>x. agree x m2 p1 p2 \<Longrightarrow>
        (if n0 = 0 then take_count False x p1 else Some (n0, x, p1)) = Some (n, graft x p1 p2 m1, p2)"
      using take_count_undo [of m1 p1 n m2 p2] tc fwd_nonneg [OF f1]
      by (auto simp: fwd_refl graft_empty split: if_splits)
    have n: "0 \<le> n" if "k \<in> {3, 6, 7}"
      using next_code_count [OF nc Suc.prems(3) that] tc by (auto split: if_splits)
    have f3: "fwd m2 p2 m3 p3" and u3: "\<And>x. agree x m3 p2 p3 \<Longrightarrow> convert k n x p2 e = Some (graft x p2 p3 m2, p3)"
      using convert_undo [OF cv fwd_nonneg [OF f2] n] by auto
    obtain p4 where f4: "fwd m3 p3 m' p4" and u4: "\<And>x. agree x m' p3 p4 \<Longrightarrow>
        fmtswap_loop fuel False ifmt nfmt c1 x p3 e = Some (graft x p3 p4 m3)"
      using Suc.IH [OF lp fwd_nonneg [OF f3] Suc.prems(3)] by auto
    note f24 = fwd_trans [OF f2 fwd_trans [OF f3 f4]] and f34 = fwd_trans [OF f3 f4]
    have "fmtswap_loop (Suc fuel) False ifmt nfmt c x p e = Some (graft x p p4 m)" if a: "agree x m' p p4" for x
    proof -
      let ?x1 = "graft x p p1 m"
      let ?x2 = "graft ?x1 p1 p2 m1"
      let ?x3 = "graft ?x2 p2 p3 m2"
      have len: "length x = length m" "length m1 = length m" "length m2 = length m" "length m3 = length m"
        using agree_length [OF a] fwd_length [OF f1] fwd_length [OF f2] fwd_length [OF f3] fwd_length [OF f4] by auto
      have a1: "agree ?x1 m' p1 p4" by (rule agree_after [OF f1 f24 a])
      have a2: "agree ?x2 m' p2 p4" by (rule agree_after [OF f2 f34 a1])
      have a3: "agree ?x3 m' p3 p4" by (rule agree_after [OF f3 f4 a2])
      have "graft ?x3 p3 p4 m3 = graft ?x2 p2 p4 m2"
        using graft_splice [OF f3 f4, of ?x2] len by simp
      also have "\<dots> = graft ?x1 p1 p4 m1"
        using graft_splice [OF f2 f34, of ?x1] len by simp
      also have "\<dots> = graft x p p4 m"
        using graft_splice [OF f1 f24, of x] len by simp
      finally show ?thesis
        using True u1 [OF agree_before [OF f1 f24 a]] u2 [OF agree_before [OF f2 f34 a1]]
          u3 [OF agree_before [OF f3 f4 a2]] u4 [OF a3]
        by (auto simp: bind_Some_iff)
    qed
    then show ?thesis using fwd_trans [OF f1 f24] by blast
  qed
qed

text \<open>C12: swapping composite data to the local byte order and back is the identity, for every
  interpreted format that does not take the count of an 8-bit element from the data, whatever counts
  the data hold: the second run, with \<^verbatim>\<open>tolocal\<close> off, restores every byte of the memory.\<close>

theorem eviofmtswap_inverse:
  assumes "eviofmtswap fuel m base nwrd ifmt nfmt True = Some (r, m')"
    and "0 \<le> base" and "forward_fmt ifmt"
  shows "eviofmtswap fuel m' base nwrd ifmt nfmt False = Some (r, m)"
proof (cases "nwrd \<le> 0 \<or> nfmt \<le> 0")
  case True
  then show ?thesis using assms(1) by (auto simp: eviofmtswap_def)
next
  case False
  then have r: "r = 0" and l: "fmtswap_loop fuel True ifmt nfmt ctl_init m base (base + 4 * nwrd) = Some m'"
    using assms(1) by (auto simp: eviofmtswap_def)
  obtain p' where f: "fwd m base m' p'" and u: "\<And>x. agree x m' base p' \<Longrightarrow>
      fmtswap_loop fuel False ifmt nfmt ctl_init x base (base + 4 * nwrd) = Some (graft x base p' m)"
    using fmtswap_loop_undo [OF l assms(2,3)] by auto
  have "graft m' base p' m = m"
    using f by (intro nth_equalityI) (auto simp: fwd_def)
  moreover have "agree m' m' base p'" by (simp add: agree_def)
  ultimately show ?thesis using u False r by (simp add: eviofmtswap_def)
qed

theorem eviofmtswap_inverse_witness:
  "eviofmtswap 8 [2,0,0,0,4,3,2,1,8,7,6,5] 0 3 [11] 1 False = Some (0, [0,0,0,2,1,2,3,4,5,6,7,8])"
proof -
  have "eviofmtswap 8 [0,0,0,2,1,2,3,4,5,6,7,8] 0 3 [11] 1 True = Some (0, [2,0,0,0,4,3,2,1,8,7,6,5])"
    by code_simp
  moreover have "forward_fmt [11]" by (simp add: forward_fmt_def)
  ultimately show ?thesis by (intro eviofmtswap_inverse) simp_all
qed

section \<open>A format of one 32-bit kind\<close>

text \<open>The bytes of an array of words.\<close>

definition bytes_of :: "words \<Rightarrow> bytes" where
  "bytes_of ws = concat (map bytes32 ws)"

lemma bytes_of_simps [simp]:
  "bytes_of [] = []" "bytes_of (w # ws) = bytes32 w @ bytes_of ws" "bytes_of (xs @ ys) = bytes_of xs @ bytes_of ys"
  by (simp_all add: bytes_of_def)

lemma length_bytes32 [simp]: "length (bytes32 w) = 4"
  by (simp add: bytes32_def)

lemma length_bytes_of [simp]: "length (bytes_of ws) = 4 * length ws"
  by (induction ws) simp_all

lemma swap32_at_word:
  "swap32_at (pre @ bytes32 w @ post) (int (length pre)) = Some (pre @ bytes32 (EVIO_SWAP32 w) @ post)"
  by (simp add: swap32_at_def rdn_def wrn_def le32_bytes32)

lemma swap32_run_words:
  "swap_run swap32_at 3 (pre @ bytes_of ws @ post) (int (length pre)) (int (length pre) + 4 * int (length ws)) =
     Some (pre @ bytes_of (map EVIO_SWAP32 ws) @ post, int (length pre) + 4 * int (length ws))"
proof (induction ws arbitrary: pre)
  case Nil
  then show ?case by (simp add: swap_run.simps)
next
  case (Cons w ws)
  have IH: "swap_run swap32_at 3 ((pre @ bytes32 (EVIO_SWAP32 w)) @ bytes_of ws @ post) (int (length pre) + 4)
      (int (length pre) + 4 + 4 * int (length ws)) =
    Some (pre @ bytes_of (map EVIO_SWAP32 (w # ws)) @ post, int (length pre) + 4 + 4 * int (length ws))"
    using Cons [of "pre @ bytes32 (EVIO_SWAP32 w)"] by simp
  show ?case
    by (subst swap_run.simps) (use IH in \<open>simp add: swap32_at_word algebra_simps\<close>)
qed

text \<open>At level 0 the interpreter comes back to the only code, directly or round the end of the format.\<close>

lemma next_code_single:
  assumes "lev c = 0" "iterm c = 0" "imt c \<le> 1" "uint code div 16 = n" "uint code mod 16 = k"
    "k \<noteq> 0" "k \<noteq> 15" "2 \<le> fuel"
  shows "\<exists>c'. next_code fuel t [code] 1 c m p = Some (k, n, c', m, p) \<and> lev c' = 0 \<and> iterm c' = 0 \<and> imt c' = 1"
proof -
  have nz: "code \<noteq> 0" using assms by auto
  have k: "uint code - 16 * (uint code div 16) = k"
    using assms(5) by (simp add: minus_mult_div_eq_mod)
  have found: "code_iter t [code] 1 c0 m p = Some (Found k n (c0\<lparr>imt := 1\<rparr>) m p)" if "imt c0 = 0" "lev c0 = 0" for c0
    using that nz k assms by (simp add: code_iter_def elem_count_def Let_def)
  obtain f where f: "fuel = Suc (Suc f)" using assms(8) by (metis add_2_eq_Suc le_Suc_ex)
  show ?thesis
  proof (cases "imt c = 0")
    case True
    then show ?thesis using found [of c] assms f by simp
  next
    case False
    then have "code_iter t [code] 1 c m p = Some (Again (c\<lparr>imt := 0\<rparr>) m p)"
      using assms by (simp add: code_iter_def)
    then show ?thesis using found [of "c\<lparr>imt := 0\<rparr>"] assms f by simp
  qed
qed

definition kind32 :: "int \<Rightarrow> bool" where
  "kind32 k \<longleftrightarrow> k = 1 \<or> k = 2 \<or> k = 11 \<or> k = 12"

lemma fmtswap_loop_words:
  assumes "uint code div 16 = n" "uint code mod 16 = k" "kind32 k" "1 \<le> n"
  shows "length ws + 2 < fuel \<Longrightarrow> lev c = 0 \<Longrightarrow> iterm c = 0 \<Longrightarrow> imt c \<le> 1 \<Longrightarrow>
    fmtswap_loop fuel t [code] 1 c (pre @ bytes_of ws @ post) (int (length pre)) (int (length pre) + 4 * int (length ws)) =
      Some (pre @ bytes_of (map EVIO_SWAP32 ws) @ post)"
proof (induction fuel arbitrary: ws pre c)
  case 0
  then show ?case by simp
next
  case (Suc fuel)
  show ?case
  proof (cases ws)
    case Nil
    then show ?thesis by simp
  next
    case (Cons w ws')
    define j where "j = min (nat n) (length ws)"
    have j: "1 \<le> j" "j \<le> length ws" using assms(4) Cons by (auto simp: j_def)
    have "k \<noteq> 0" "k \<noteq> 15" using assms(3) by (auto simp: kind32_def)
    then obtain c' where c': "next_code fuel t [code] 1 c (pre @ bytes_of ws @ post) (int (length pre)) =
        Some (k, n, c', pre @ bytes_of ws @ post, int (length pre))" "lev c' = 0" "iterm c' = 0" "imt c' = 1"
      using next_code_single [OF Suc.prems(2-4) assms(1,2), of fuel] Suc.prems(1) by fastforce
    let ?a = "take j ws" and ?b = "drop j ws"
    have end': "min (int (length pre) + 4 * n) (int (length pre) + 4 * int (length ws)) = int (length pre) + 4 * int (length ?a)"
      using assms(4) by (auto simp: j_def min_def)
    have k: "\<not> (k = 8 \<or> k = 9 \<or> k = 10)" "k = 1 \<or> k = 2 \<or> k = 11 \<or> k = 12"
      using assms(3) by (auto simp: kind32_def)
    have "convert k n (pre @ bytes_of ws @ post) (int (length pre)) (int (length pre) + 4 * int (length ws)) =
        swap_run swap32_at 3 (pre @ bytes_of ?a @ (bytes_of ?b @ post)) (int (length pre)) (int (length pre) + 4 * int (length ?a))"
      by (simp only: convert_def if_not_P [OF k(1)] if_P [OF k(2)] end')
        (simp only: append_assoc [symmetric] bytes_of_simps(3) [symmetric] append_take_drop_id)
    also have "\<dots> = Some (pre @ bytes_of (map EVIO_SWAP32 ?a) @ (bytes_of ?b @ post), int (length pre) + 4 * int (length ?a))"
      by (rule swap32_run_words)
    finally have cv: "convert k n (pre @ bytes_of ws @ post) (int (length pre)) (int (length pre) + 4 * int (length ws)) = \<dots>" .
    let ?pre = "pre @ bytes_of (map EVIO_SWAP32 ?a)"
    have IH: "fmtswap_loop fuel t [code] 1 c' (?pre @ bytes_of ?b @ post) (int (length ?pre)) (int (length ?pre) + 4 * int (length ?b)) =
        Some (?pre @ bytes_of (map EVIO_SWAP32 ?b) @ post)"
      using Suc.IH [of ?b c' ?pre] Suc.prems(1) j c' by simp
    have "?pre @ bytes_of (map EVIO_SWAP32 ?b) = pre @ bytes_of (map EVIO_SWAP32 ws)"
      by (simp only: append_assoc bytes_of_simps(3) [symmetric] map_append [symmetric] append_take_drop_id)
    moreover have "int (length ?pre) = int (length pre) + 4 * int (length ?a)"
      "int (length ?pre) + 4 * int (length ?b) = int (length pre) + 4 * int (length ws)"
      using j by auto
    ultimately have IH': "fmtswap_loop fuel t [code] 1 c' (pre @ bytes_of (map EVIO_SWAP32 ?a) @ bytes_of ?b @ post)
        (int (length pre) + 4 * int (length ?a)) (int (length pre) + 4 * int (length ws)) =
        Some (pre @ bytes_of (map EVIO_SWAP32 ws) @ post)"
      using IH by (simp only: append_assoc) (metis append_assoc)
    have lt: "int (length pre) < int (length pre) + 4 * int (length ws)" using Cons by simp
    show ?thesis
      by (simp only: fmtswap_loop.simps if_P [OF lt] c'(1) cv IH' bind.bind_lunit prod.case)
        (use assms(4) cv IH' in simp)
  qed
qed

lemma eviofmtswap_block:
  assumes "kind32 k" "1 \<le> n" "n \<le> 15" "ws \<noteq> []" "length ws + 2 < fuel"
  shows "eviofmtswap fuel (pre @ bytes_of ws @ post) (int (length pre)) (int (length ws)) [word_of_int (16 * n + k)] 1 t =
    Some (S_SUCCESS, pre @ bytes_of (map EVIO_SWAP32 ws) @ post)"
proof -
  have k: "1 \<le> k" "k \<le> 12" using assms(1) by (auto simp: kind32_def)
  have u: "uint (word_of_int (16 * n + k) :: u8) = 16 * n + k"
    using assms k by (simp only: uint_word_of_int) simp
  have "uint (word_of_int (16 * n + k) :: u8) div 16 = n" "uint (word_of_int (16 * n + k) :: u8) mod 16 = k"
    using k by (simp_all only: u) auto
  from fmtswap_loop_words [OF this assms(1,2,5), of ctl_init t pre post] assms(4)
  show ?thesis by (simp add: eviofmtswap_def ctl_init_def S_SUCCESS_def)
qed

text \<open>C13: for a format of a single 32-bit element code (\<^verbatim>\<open>"i"\<close>, \<^verbatim>\<open>"F"\<close>, \<^verbatim>\<open>"I"\<close>, \<^verbatim>\<open>"A"\<close>, with any repeat count),
  the interpreter returns, and does to the data exactly what \<^verbatim>\<open>swap_int32_t\<close> does to an array of words:
  the format is repeated to the end of the data, every word is swapped, nothing else is touched.\<close>

theorem eviofmtswap_words:
  assumes "kind32 k" "1 \<le> n" "n \<le> 15" "ws \<noteq> []" "length ws + 2 < fuel"
  shows "eviofmtswap fuel (pre @ bytes_of ws @ post) (int (length pre)) (int (length ws)) [word_of_int (16 * n + k)] 1 t =
    Some (S_SUCCESS, pre @ bytes_of (map EVIO_SWAP32 ws) @ post)"
  using assms by (rule eviofmtswap_block)

theorem eviofmtswap_words_witness:
  "eviofmtswap 9 (bytes_of [0x01020304, 0x05060708]) 0 2 [word_of_int 27] 1 True =
     Some (S_SUCCESS, bytes_of [0x04030201, 0x08070605])"
  using eviofmtswap_words [of 11 1 "[0x01020304, 0x05060708]" 9 "[]" "[]" True]
  by (simp add: kind32_def EVIO_SWAP32_def)

section \<open>Where the checks are missing\<close>

text \<open>C33: the parser's level check at the end of the string lets unbalanced parentheses pass when a
  later one brings the level back to 0. On such codes the interpreter reads \<^verbatim>\<open>lv[-1]\<close>: whatever the data,
  there is no defined result once it reaches the stray parenthesis.\<close>

theorem unbalanced_format_accepted:
  "eviofmt after ''i),(i'' 1024 = (4, [17, 0, 16, 17]) \<and>
   (2 \<le> nwrd \<longrightarrow> eviofmtswap fuel m base nwrd [17, 0, 16, 17] 4 t = None)"
proof -
  have p: "eviofmt after ''i),(i'' 1024 = (4, [17, 0, 16, 17])"
    by (simp add: eviofmt_def fmt_init_def fmt_step_def is_digit_def fmt_kind_def fmt_emit_def)
  let ?f = "[17, 0, 16, 17] :: bytes"
  let ?c = "ctl_init\<lparr>imt := 1\<rparr>"
  have first: "code_iter t ?f 4 ctl_init m p = Some (Found 1 1 ?c m p)" for m p
    by (simp add: code_iter_def ctl_init_def elem_count_def Let_def)
  have stuck: "next_code f t ?f 4 ?c m p = None" for f m p
    by (cases f) (simp_all add: code_iter_def ctl_init_def close_paren_def lv_at_def Let_def)
  have loop2: "fmtswap_loop f t ?f 4 ?c m p e = None" if "p < e" for f m p e
    using that stuck by (cases f) simp_all
  have run: "p' = p + 4" if "swap_run swap32_at 3 m p (p + 4) = Some (m', p')" for m m' p p'
    using that by (auto simp: bind_Some_iff swap_run.simps [of _ _ _ p] swap_run.simps [of _ _ _ "p + 4"])
  have "fmtswap_loop f t ?f 4 ctl_init m base (base + 4 * nwrd) = None" if n: "2 \<le> nwrd" for f
  proof (rule ccontr)
    assume "\<not> ?thesis"
    then obtain r where r: "fmtswap_loop f t ?f 4 ctl_init m base (base + 4 * nwrd) = Some r" by auto
    then obtain g where g: "f = Suc g" by (cases f) auto
    have lt: "base < base + 4 * nwrd" using n by simp
    obtain h where h: "g = Suc h" using r g lt by (cases g) auto
    have nc: "next_code g t ?f 4 ctl_init m base = Some (1, 1, ?c, m, base)" using first h by simp
    from r g lt nc obtain m1 p1 where cv: "convert 1 1 m base (base + 4 * nwrd) = Some (m1, p1)"
      and l: "fmtswap_loop g t ?f 4 ?c m1 p1 (base + 4 * nwrd) = Some r"
      by (auto simp del: next_code.simps simp: bind_Some_iff)
    have "min (base + 4) (base + 4 * nwrd) = base + 4" using n by simp
    then have "p1 = base + 4" using cv run by (auto simp: convert_def)
    then show False using l loop2 [of p1 "base + 4 * nwrd" g m1] n by simp
  qed
  then show ?thesis using p by (auto simp: eviofmtswap_def)
qed

theorem unbalanced_format_accepted_witness:
  "eviofmtswap 100 (bytes_of [1, 2]) 0 2 [17, 0, 16, 17] 4 True = None"
  using unbalanced_format_accepted [of "[]" 2 100 "bytes_of [1, 2]" 0 True] by simp

text \<open>a repeat count read from the data is not checked. A negative count of 8-bit elements moves
  the data pointer to before the buffer, and the next access is out of bounds, whatever follows.\<close>

theorem negative_count_leaves_buffer:
  assumes "1 \<le> nwrd"
  shows "eviofmtswap fuel ([0xFF, 0, 0, 0] @ rest) 0 nwrd [7] 1 True = None"
proof -
  let ?m = "[0xFF, 0, 0, 0] @ rest" and ?m' = "[0, 0, 0, 0xFF] @ rest"
  have it0: "code_iter True [7] 1 ctl_init m p = Some (Found 7 0 (ctl_init\<lparr>imt := 1\<rparr>) m p)" for m p
    by (simp add: code_iter_def ctl_init_def elem_count_def Let_def)
  have tc: "take_count True ?m 0 = Some (-16777216, ?m', 4)"
    by (simp add: take_count_def rdn_def swap32_at_def wrn_def le32_def bytes32_def EVIO_SWAP32_def)
  have bad: "take_count True m p = None" if "p < 0" for m p
    using that by (simp add: take_count_def rdn_def)
  have it1: "code_iter True [7] 1 (ctl_init\<lparr>imt := 1\<rparr>) m p = Some (Again (ctl_init\<lparr>imt := 0\<rparr>) m p)"
    "code_iter True [7] 1 (ctl_init\<lparr>imt := 0\<rparr>) m p = Some (Found 7 0 (ctl_init\<lparr>imt := 1\<rparr>) m p)" for m p
    by (simp_all add: code_iter_def ctl_init_def elem_count_def Let_def)
  have nc: "next_code f True [7] 1 (ctl_init\<lparr>imt := 1\<rparr>) m p =
      (if f < 2 then None else Some (7, 0, ctl_init\<lparr>imt := 1\<rparr>, m, p))" for f m p
    by (cases f; cases "f - 1") (auto simp: it1 it1 [unfolded One_nat_def])
  have loop: "fmtswap_loop f True [7] 1 (ctl_init\<lparr>imt := 1\<rparr>) m p e = None" if "p < 0" "0 < e" for f m p e
    using that by (cases f) (auto simp: nc [unfolded One_nat_def] bad)
  have "fmtswap_loop f True [7] 1 ctl_init ?m 0 (4 * nwrd) = None" for f
  proof (cases f)
    case (Suc g)
    then show ?thesis using assms loop tc it0
      by (cases g) (auto simp: convert_def nc [unfolded One_nat_def] bad)
  qed simp
  then show ?thesis using assms by (auto simp: eviofmtswap_def)
qed

theorem negative_count_leaves_buffer_witness:
  "eviofmtswap 100 [0xFF, 0, 0, 0, 1, 2, 3, 4] 0 2 [7] 1 True = None"
  using negative_count_leaves_buffer [of 2 100 "[1, 2, 3, 4]"] by simp

end
