(* ===== verification/EvioSwap.thy ===== *)
theory EvioSwap
  imports EvioFmtSwap
begin

text \<open>
  \<^verbatim>\<open>evioswap.c\<close>: the recursive walk over an evio event that swaps headers and data.

  \<open>swapmem\<close> is the pair of memories the pointers \<^verbatim>\<open>buf\<close> and \<^verbatim>\<open>dest\<close> point into; \<^verbatim>\<open>dest\<close> is \<open>None\<close>
  for a swap in place. All routines are called with equal offsets in both memories, so one offset
  stands for both pointers. Fuel bounds the recursion and the \<^verbatim>\<open>while (l < length)\<close> loops, whose
  step comes from the data and can be 0.
\<close>

record swapmem =
  sm_src :: words
  sm_dst :: "words option"

definition sm_out :: "swapmem \<Rightarrow> words" where
  "sm_out m = (case sm_dst m of None \<Rightarrow> sm_src m | Some d \<Rightarrow> d)"

definition set_out :: "swapmem \<Rightarrow> words \<Rightarrow> swapmem" where
  "set_out m ws = (case sm_dst m of None \<Rightarrow> m\<lparr>sm_src := ws\<rparr> | Some d \<Rightarrow> m\<lparr>sm_dst := Some ws\<rparr>)"

definition rd_src :: "swapmem \<Rightarrow> nat \<Rightarrow> u32 option" where "rd_src m i = rd (sm_src m) i"
definition rd_out :: "swapmem \<Rightarrow> nat \<Rightarrow> u32 option" where "rd_out m i = rd (sm_out m) i"

definition wr_out :: "swapmem \<Rightarrow> nat \<Rightarrow> u32 \<Rightarrow> swapmem option" where
  "wr_out m i v = map_option (set_out m) (wr (sm_out m) i v)"

section \<open>Array routines\<close>

fun swap_int32_t :: "nat \<Rightarrow> nat \<Rightarrow> swapmem \<Rightarrow> swapmem option" where
  "swap_int32_t off 0 m = Some m"
| "swap_int32_t off (Suc n) m = do {
     v \<leftarrow> rd_src m off;
     m \<leftarrow> wr_out m off (EVIO_SWAP32 v);
     swap_int32_t (Suc off) n m
   }"

text \<open>\<open>length\<close> counts elements of 64 bits: element \<open>i\<close> is the words \<open>2 i\<close> and \<open>2 i + 1\<close>.\<close>

fun swap_int64_t :: "nat \<Rightarrow> nat \<Rightarrow> swapmem \<Rightarrow> swapmem option" where
  "swap_int64_t off 0 m = Some m"
| "swap_int64_t off (Suc n) m = do {
     a \<leftarrow> rd_src m off;
     b \<leftarrow> rd_src m (Suc off);
     let x = EVIO_SWAP64 (pair64 a b);
     m \<leftarrow> wr_out m off (lo64 x);
     m \<leftarrow> wr_out m (Suc off) (hi64 x);
     swap_int64_t (off + 2) n m
   }"

text \<open>\<open>length\<close> counts elements of 16 bits: element \<open>i\<close> is half \<open>i mod 2\<close> of word \<open>i div 2\<close>.\<close>

fun swap_int16_from :: "nat \<Rightarrow> nat \<Rightarrow> nat \<Rightarrow> swapmem \<Rightarrow> swapmem option" where
  "swap_int16_from off i 0 m = Some m"
| "swap_int16_from off i (Suc n) m = do {
     v \<leftarrow> rd_src m (off + i div 2);
     w \<leftarrow> rd_out m (off + i div 2);
     m \<leftarrow> wr_out m (off + i div 2) (set_half w (i mod 2) (EVIO_SWAP16 (half v (i mod 2))));
     swap_int16_from off (Suc i) n m
   }"

definition swap_int16_t :: "nat \<Rightarrow> nat \<Rightarrow> swapmem \<Rightarrow> swapmem option" where
  "swap_int16_t off n m = swap_int16_from off 0 n m"

fun copy_words :: "nat \<Rightarrow> nat \<Rightarrow> swapmem \<Rightarrow> swapmem option" where
  "copy_words off 0 m = Some m"
| "copy_words off (Suc n) m = do {
     v \<leftarrow> rd_src m off;
     m \<leftarrow> wr_out m off v;
     copy_words (Suc off) n m
   }"

definition copy_data :: "nat \<Rightarrow> nat \<Rightarrow> swapmem \<Rightarrow> swapmem option" where
  "copy_data off n m = (if sm_dst m = None then Some m else copy_words off n m)"

section \<open>Composite data\<close>

fun words_of :: "bytes \<Rightarrow> words" where
  "words_of (a # b # c # d # bs) = le32 [a, b, c, d] # words_of bs"
| "words_of bs = []"

lemma words_of_bytes_of [simp]: "words_of (bytes_of ws) = ws"
proof (induction ws)
  case (Cons w ws)
  then show ?case using le32_bytes32 [of w] by (simp add: bytes32_def)
qed simp

text \<open>A zero-terminated string at a word offset of a memory.\<close>

definition c_string :: "words \<Rightarrow> nat \<Rightarrow> char list option" where
  "c_string m off =
     (let bs = drop (4 * off) (bytes_of m)
      in if 0 \<in> set bs then Some (map (\<lambda>b. char_of (unat b)) (takeWhile (\<lambda>b. b \<noteq> 0) bs)) else None)"

text \<open>
  One element of the array: the format tagsegment, the bank header, the data. Returns the status, the
  memory and the number of words of the element.
\<close>

definition swap_composite_elem ::
  "nat \<Rightarrow> char list \<Rightarrow> bool \<Rightarrow> nat \<Rightarrow> swapmem \<Rightarrow> (status \<times> swapmem \<times> u32) option" where
  "swap_composite_elem fuel after tolocal off m0 = do {
     m \<leftarrow> (if tolocal then swap_int32_t off 1 m0 else Some m0);
     w \<leftarrow> (if tolocal then rd_out m off else rd_src m off);
     let formatLen = w AND 0xffff;
     m \<leftarrow> (if tolocal then Some m else swap_int32_t off 1 m);
     m \<leftarrow> copy_data (off + 1) (unat formatLen) m;
     let hd = off + unat formatLen + 1;
     m \<leftarrow> (if tolocal then swap_int32_t hd 2 m else Some m);
     w \<leftarrow> (if tolocal then rd_out m hd else rd_src m hd);
     let dataLen = w - 1;
     m \<leftarrow> (if tolocal then Some m else swap_int32_t hd 2 m);
     m \<leftarrow> copy_data (hd + 2) (unat dataLen) m;
     formatString \<leftarrow> c_string (if tolocal then sm_out m else sm_src m) (off + 1);
     let (nfmt, ifmt) = eviofmt after formatString 1024;
     if nfmt > 0 then do {
       (r, bs) \<leftarrow> eviofmtswap fuel (bytes_of (sm_out m)) (4 * int (hd + 2)) (sint dataLen) ifmt nfmt tolocal;
       let m = set_out m (words_of bs);
       if r \<noteq> 0 then Some (S_FAILURE, m, 0)
       else Some (S_SUCCESS, m, 1 + formatLen + 2 + dataLen)
     } else Some (S_FAILURE, m, 0)
   }"

text \<open>
  The loop over the array. At its end \<^verbatim>\<open>dest += wordLen\<close> is computed even when \<^verbatim>\<open>dest\<close> is \<open>NULL\<close>: from
  the second element of a swap in place (\<open>again\<close>), \<^verbatim>\<open>dest\<close> is no longer \<open>NULL\<close> but points into no memory of the
  program: a destination without words. The test \<^verbatim>\<open>length < 0\<close> on an unsigned length is never true.
\<close>

fun swap_composite_loop ::
  "nat \<Rightarrow> char list \<Rightarrow> bool \<Rightarrow> bool \<Rightarrow> nat \<Rightarrow> u32 \<Rightarrow> swapmem \<Rightarrow> (status \<times> swapmem) option" where
  "swap_composite_loop 0 after tolocal again off len m = None"
| "swap_composite_loop (Suc fuel) after tolocal again off len m =
     (if len > 0 then
        do {
          (r, m, wordLen) \<leftarrow> swap_composite_elem fuel after tolocal off (if again \<and> sm_dst m = None then m\<lparr>sm_dst := Some []\<rparr> else m);
          if r \<noteq> S_SUCCESS then Some (r, m)
          else swap_composite_loop fuel after tolocal True (off + unat wordLen) (len - wordLen) m
        }
      else Some (S_SUCCESS, m))"

definition swap_composite_t ::
  "nat \<Rightarrow> char list \<Rightarrow> bool \<Rightarrow> nat \<Rightarrow> u32 \<Rightarrow> swapmem \<Rightarrow> (status \<times> swapmem) option" where
  "swap_composite_t fuel after tolocal off len m = swap_composite_loop fuel after tolocal False off len m"

section \<open>Structures\<close>

text \<open>
  The header of a structure: swapped first when the data are foreign (then its fields are read from the
  destination), read first when they are local. Returns the header words in local byte order.
\<close>

definition swap_header :: "bool \<Rightarrow> nat \<Rightarrow> nat \<Rightarrow> swapmem \<Rightarrow> (words \<times> swapmem) option" where
  "swap_header tolocal n off m0 = do {
     m \<leftarrow> (if tolocal then swap_int32_t off n m0 else Some m0);
     p \<leftarrow> cut (if tolocal then sm_out m else sm_src m) off n;
     m \<leftarrow> (if tolocal then Some m else swap_int32_t off n m);
     Some (p, m)
   }"

text \<open>The len word of the child at \<open>off\<close>, as the loops of \<^verbatim>\<open>swap_data\<close> read it.\<close>

definition child_word :: "bool \<Rightarrow> nat \<Rightarrow> swapmem \<Rightarrow> u32 option" where
  "child_word tolocal off m = (if tolocal then rd_out m off else rd_src m off)"

text \<open>
  The three \<^verbatim>\<open>while (l < length)\<close> loops of \<^verbatim>\<open>swap_data\<close> differ in the routine they call for a child and
  in the way they read its length. \<open>swapk\<close> is the routine for a child of each kind.
\<close>

datatype skind = Bank | Segment | Tagsegment

definition child_len :: "skind \<Rightarrow> u32 \<Rightarrow> u32" where
  "child_len k w = (case k of Bank \<Rightarrow> w + 1 | _ \<Rightarrow> (w AND 0xffff) + 1)"

fun swap_children ::
  "(skind \<Rightarrow> nat \<Rightarrow> swapmem \<Rightarrow> swapmem option) \<Rightarrow> skind \<Rightarrow> nat \<Rightarrow> bool \<Rightarrow> u32 \<Rightarrow> u32 \<Rightarrow> nat \<Rightarrow> swapmem
    \<Rightarrow> swapmem option" where
  "swap_children swapk k 0 tolocal len l off m = None"
| "swap_children swapk k (Suc fuel) tolocal len l off m =
     (if l < len then
        (if tolocal then do {
           m \<leftarrow> swapk k (off + unat l) m;
           w \<leftarrow> child_word tolocal (off + unat l) m;
           swap_children swapk k fuel tolocal len (l + child_len k w) off m
         } else do {
           w \<leftarrow> child_word tolocal (off + unat l) m;
           m \<leftarrow> swapk k (off + unat l) m;
           swap_children swapk k fuel tolocal len (l + child_len k w) off m
         })
      else Some m)"

definition swap_data ::
  "(skind \<Rightarrow> nat \<Rightarrow> swapmem \<Rightarrow> swapmem option) \<Rightarrow> nat \<Rightarrow> char list \<Rightarrow> bool \<Rightarrow> u32 \<Rightarrow> u32 \<Rightarrow> nat \<Rightarrow> swapmem
    \<Rightarrow> swapmem option" where
  "swap_data swapk fuel after tolocal type len off m =
     (if type = 0x0 then copy_data off (unat len) m
      else if type \<in> {0x1, 0x2, 0xb} then swap_int32_t off (unat len) m
      else if type \<in> {0x3, 0x6, 0x7} then copy_data off (unat len) m
      else if type \<in> {0x4, 0x5} then swap_int16_t off (unat (len * 2)) m
      else if type \<in> {0x8, 0x9, 0xa} then swap_int64_t off (unat (len div 2)) m
      else if type = 0xf then map_option snd (swap_composite_t fuel after tolocal off len m)
      else if type \<in> {0xe, 0x10} then swap_children swapk Bank fuel tolocal len 0 off m
      else if type \<in> {0xd, 0x20} then swap_children swapk Segment fuel tolocal len 0 off m
      else if type = 0xc then swap_children swapk Tagsegment fuel tolocal len 0 off m
      else copy_data off (unat len) m)"

definition swap_bank ::
  "(skind \<Rightarrow> nat \<Rightarrow> swapmem \<Rightarrow> swapmem option) \<Rightarrow> nat \<Rightarrow> char list \<Rightarrow> bool \<Rightarrow> nat \<Rightarrow> swapmem \<Rightarrow> swapmem option" where
  "swap_bank swapk fuel after tolocal off m = do {
     (p, m) \<leftarrow> swap_header tolocal 2 off m;
     let data_length = p ! 0 - 1;
     let data_type = drop_bit 8 (p ! 1) AND 0x3f;
     swap_data swapk fuel after tolocal data_type data_length (off + 2) m
   }"

definition swap_segment ::
  "(skind \<Rightarrow> nat \<Rightarrow> swapmem \<Rightarrow> swapmem option) \<Rightarrow> nat \<Rightarrow> char list \<Rightarrow> bool \<Rightarrow> nat \<Rightarrow> swapmem \<Rightarrow> swapmem option" where
  "swap_segment swapk fuel after tolocal off m = do {
     (p, m) \<leftarrow> swap_header tolocal 1 off m;
     let data_length = p ! 0 AND 0xffff;
     let data_type = drop_bit 16 (p ! 0) AND 0x3f;
     swap_data swapk fuel after tolocal data_type data_length (off + 1) m
   }"

definition swap_tagsegment ::
  "(skind \<Rightarrow> nat \<Rightarrow> swapmem \<Rightarrow> swapmem option) \<Rightarrow> nat \<Rightarrow> char list \<Rightarrow> bool \<Rightarrow> nat \<Rightarrow> swapmem \<Rightarrow> swapmem option" where
  "swap_tagsegment swapk fuel after tolocal off m = do {
     (p, m) \<leftarrow> swap_header tolocal 1 off m;
     let data_length = p ! 0 AND 0xffff;
     let data_type = drop_bit 16 (p ! 0) AND 0xf;
     swap_data swapk fuel after tolocal data_type data_length (off + 1) m
   }"

text \<open>The recursion: the routine for a child is the routine itself, with less fuel.\<close>

primrec swap_fragment :: "nat \<Rightarrow> char list \<Rightarrow> bool \<Rightarrow> skind \<Rightarrow> nat \<Rightarrow> swapmem \<Rightarrow> swapmem option" where
  "swap_fragment 0 after tolocal k off m = None"
| "swap_fragment (Suc fuel) after tolocal k off m =
     (case k of
        Bank \<Rightarrow> swap_bank (swap_fragment fuel after tolocal) fuel after tolocal off m
      | Segment \<Rightarrow> swap_segment (swap_fragment fuel after tolocal) fuel after tolocal off m
      | Tagsegment \<Rightarrow> swap_tagsegment (swap_fragment fuel after tolocal) fuel after tolocal off m)"

definition evioswap :: "nat \<Rightarrow> char list \<Rightarrow> bool \<Rightarrow> nat \<Rightarrow> swapmem \<Rightarrow> swapmem option" where
  "evioswap fuel after tolocal off m = swap_fragment fuel after tolocal Bank off m"

section \<open>Array routines on a block\<close>

text \<open>\<open>src_has off ws m\<close>: the source holds \<open>ws\<close> at \<open>off\<close>; \<open>room\<close>: the destination reaches that far.\<close>

definition src_has :: "nat \<Rightarrow> words \<Rightarrow> swapmem \<Rightarrow> bool" where
  "src_has off ws m \<longleftrightarrow> at off ws (sm_src m)"

definition room :: "nat \<Rightarrow> swapmem \<Rightarrow> bool" where
  "room n m \<longleftrightarrow> n \<le> length (sm_out m)"

definition put :: "nat \<Rightarrow> words \<Rightarrow> swapmem \<Rightarrow> swapmem" where
  "put off ws m = set_out m (ov off ws (sm_out m))"

lemma out_set_out [simp]: "sm_out (set_out m ws) = ws"
  by (simp add: sm_out_def set_out_def split: option.splits)

lemma set_out_out [simp]: "set_out m (sm_out m) = m"
  by (cases m) (simp add: sm_out_def set_out_def split: option.splits)

lemma set_out_set_out [simp]: "set_out (set_out m a) b = set_out m b"
  by (simp add: set_out_def split: option.splits)

lemma in_place_set_out [simp]: "sm_dst (set_out m ws) = None \<longleftrightarrow> sm_dst m = None"
  by (simp add: set_out_def split: option.splits)

lemma src_set_out: "sm_src (set_out m ws) = (if sm_dst m = None then ws else sm_src m)"
  by (simp add: set_out_def split: option.splits)

lemma out_in_place: "sm_dst m = None \<Longrightarrow> sm_out m = sm_src m"
  by (simp add: sm_out_def)

lemma out_put [simp]: "sm_out (put off ws m) = ov off ws (sm_out m)"
  by (simp add: put_def)

lemma room_put [simp]: "room n (put off ws m) = room n m"
  by (simp add: room_def)

lemma in_place_put [simp]: "sm_dst (put off ws m) = None \<longleftrightarrow> sm_dst m = None"
  by (simp add: put_def)

lemma put_Nil [simp]: "put off [] m = m"
  by (simp add: put_def)

lemma put_append: "put off (xs @ ys) m = put (off + length xs) ys (put off xs m)"
  by (simp add: put_def ov_append)

lemma put_Cons: "put off (x # xs) m = put (Suc off) xs (put off [x] m)"
  using put_append [of off "[x]" xs m] by (simp only: append_Cons append_Nil list.size One_nat_def add_Suc_right add_0_right)

lemma put_put: "length xs = length ys \<Longrightarrow> put off xs (put off ys m) = put off xs m"
  by (simp add: put_def ov_ov_same)

lemma src_has_put_before [simp]: "off + length xs \<le> off' \<Longrightarrow> src_has off' ws (put off xs m) \<longleftrightarrow> src_has off' ws m"
  by (auto simp: src_has_def put_def src_set_out out_in_place at_ov_before)

lemma src_has_append: "src_has off (xs @ ys) m \<longleftrightarrow> src_has off xs m \<and> src_has (off + length xs) ys m"
  by (simp add: src_has_def at_append)

lemma src_has_Cons: "src_has off (x # xs) m \<longleftrightarrow> src_has off [x] m \<and> src_has (Suc off) xs m"
  using src_has_append [of off "[x]" xs m] by (simp only: append_Cons append_Nil list.size One_nat_def add_Suc_right add_0_right)

lemma rd_src_has: "src_has off [x] m \<Longrightarrow> rd_src m off = Some x"
  by (simp add: src_has_def at_Cons rd_src_def)

lemma wr_out_room: "room (Suc off) m \<Longrightarrow> wr_out m off v = Some (put off [v] m)"
  by (simp add: wr_out_def room_def put_def ov_Cons)

lemma rd_out_put: "room (Suc off) m \<Longrightarrow> rd_out (put off [v] m) off = Some v"
  by (simp add: rd_out_def room_def ov_Cons)

lemma room_mono: "room n m \<Longrightarrow> k \<le> n \<Longrightarrow> room k m"
  by (simp add: room_def)

named_theorems walk_simps \<open>evaluating the swap routines on a block\<close>

lemmas [walk_simps] = src_has_append rd_src_has wr_out_room rd_out_put put_put

lemma swap_int32_t_block [walk_simps]:
  "src_has off ws m \<Longrightarrow> room (off + length ws) m \<Longrightarrow> n = length ws \<Longrightarrow>
   swap_int32_t off n m = Some (put off (map EVIO_SWAP32 ws) m)"
proof (induction ws arbitrary: off m n)
  case (Cons w ws)
  have "src_has off [w] m" "src_has (Suc off) ws m" using Cons.prems(1) by (simp_all add: src_has_Cons [of off w ws])
  moreover have "room (Suc off) m" using Cons.prems(2) by (rule room_mono) simp
  ultimately show ?case using Cons.prems
    by (simp add: walk_simps Cons.IH put_Cons [of off _ "map EVIO_SWAP32 ws"])
qed simp

lemma copy_words_block:
  "src_has off ws m \<Longrightarrow> room (off + length ws) m \<Longrightarrow> n = length ws \<Longrightarrow> copy_words off n m = Some (put off ws m)"
proof (induction ws arbitrary: off m n)
  case (Cons w ws)
  have "src_has off [w] m" "src_has (Suc off) ws m" using Cons.prems(1) by (simp_all add: src_has_Cons [of off w ws])
  moreover have "room (Suc off) m" using Cons.prems(2) by (rule room_mono) simp
  ultimately show ?case using Cons.prems
    by (simp add: walk_simps Cons.IH put_Cons [of off _ "ws"])
qed simp

lemma copy_data_block [walk_simps]:
  "src_has off ws m \<Longrightarrow> room (off + length ws) m \<Longrightarrow> n = length ws \<Longrightarrow> copy_data off n m = Some (put off ws m)"
  by (auto simp: copy_data_def copy_words_block put_def src_has_def out_in_place ov_id)
     (metis set_out_out out_in_place)

lemma swap_int64_t_block [walk_simps]:
  "src_has off ws m \<Longrightarrow> room (off + length ws) m \<Longrightarrow> even (length ws) \<Longrightarrow> n = length ws div 2 \<Longrightarrow>
   swap_int64_t off n m = Some (put off (swap_pairs ws) m)"
proof (induction ws arbitrary: off m n rule: swap_pairs.induct)
  case (1 a b ws)
  have s: "src_has off [a] m" "src_has (Suc off) [b] m" "src_has (off + 2) ws m"
    using "1.prems"(1) src_has_append [of off "[a, b]" ws m] src_has_append [of off "[a]" "[b]" m] by simp_all
  have r: "room (Suc off) m" "room (Suc (Suc off)) m" using "1.prems"(2) by (auto elim: room_mono)
  have w: "put off (swap_pairs (a # b # ws)) m =
           put (off + 2) (swap_pairs ws) (put (Suc off) [EVIO_SWAP32 a] (put off [EVIO_SWAP32 b] m))"
    using put_append [of off "[EVIO_SWAP32 b]" "[EVIO_SWAP32 a]" m]
      put_append [of off "[EVIO_SWAP32 b, EVIO_SWAP32 a]" "swap_pairs ws" m] by simp
  have n: "n = Suc (length ws div 2)" using "1.prems" by simp
  show ?case using s r "1.prems" unfolding w n
    by (simp add: walk_simps swap64_words "1.IH")
qed auto

lemma swap_int16_from_block:
  "src_has (off + k) ws m \<Longrightarrow> room (off + k + length ws) m \<Longrightarrow>
   swap_int16_from off (2 * k) (2 * length ws) m = Some (put (off + k) (map swap_halves ws) m)"
proof (induction ws arbitrary: k m)
  case (Cons w ws)
  have s: "src_has (off + k) [w] m" "src_has (off + Suc k) ws m"
    using Cons.prems(1) by (simp_all add: src_has_Cons [of "off + k" w ws])
  have r: "room (Suc (off + k)) m" using Cons.prems(2) by (rule room_mono) simp
  obtain v where v: "rd_out m (off + k) = Some v" using r by (simp add: rd_out_def room_def)
  let ?a = "set_half v 0 (EVIO_SWAP16 (half w 0))"
  have again: "src_has (off + k) [if sm_dst m = None then ?a else w] (put (off + k) [?a] m)"
    using s(1) r by (auto simp: src_has_def put_def src_set_out out_in_place room_def at_Cons ov_nth)
  have h: "half (if sm_dst m = None then ?a else w) (Suc 0) = half w (Suc 0)"
    using s(1) v by (auto simp: half_set_half [unfolded One_nat_def] src_has_def at_Cons rd_out_def out_in_place rd_def split: if_splits)
  have e: "set_half ?a (Suc 0) (EVIO_SWAP16 (half w (Suc 0))) = swap_halves w"
    unfolding swap_halves_def by (metis One_nat_def set_halves_indep)
  have "swap_int16_from off (2 * k) (2 * length (w # ws)) m =
        swap_int16_from off (2 * Suc k) (2 * length ws) (put (off + k) [swap_halves w] m)"
    using s(1) r by (simp add: walk_simps v rd_src_has [OF again] h e)
  also have "\<dots> = Some (put (off + Suc k) (map swap_halves ws) (put (off + k) [swap_halves w] m))"
    by (rule Cons.IH) (use s(2) Cons.prems(2) in simp_all)
  also have "\<dots> = Some (put (off + k) (map swap_halves (w # ws)) m)"
    by (simp add: put_Cons [of "off + k" _ "map swap_halves ws"])
  finally show ?case .
qed simp

lemma swap_int16_t_block [walk_simps]:
  "src_has off ws m \<Longrightarrow> room (off + length ws) m \<Longrightarrow> n = 2 * length ws \<Longrightarrow>
   swap_int16_t off n m = Some (put off (map swap_halves ws) m)"
  using swap_int16_from_block [of off 0 ws m] by (simp add: swap_int16_t_def)

section \<open>The structure tree and its two encodings\<close>

text \<open>
  An evio structure: \<open>Leaf h ws\<close> holds data words, \<open>Inner h ns\<close> holds structures. \<open>h\<close> is the header
  with its length field left out: the second word of a bank (tag, padding and type, num), the upper half
  of the word of a segment or tagsegment. The kind of a structure is the business of its parent.
\<close>

datatype evnode = Leaf u32 words | Inner u32 "evnode list"

fun hd_bits :: "evnode \<Rightarrow> u32" where
  "hd_bits (Leaf h ws) = h" | "hd_bits (Inner h ns) = h"

definition type_of :: "skind \<Rightarrow> u32 \<Rightarrow> u32" where
  "type_of k h = (case k of Bank \<Rightarrow> drop_bit 8 h AND 0x3f
     | Segment \<Rightarrow> drop_bit 16 h AND 0x3f | Tagsegment \<Rightarrow> drop_bit 16 h AND 0xf)"

definition header :: "skind \<Rightarrow> u32 \<Rightarrow> nat \<Rightarrow> words" where
  "header k h n = (case k of Bank \<Rightarrow> [of_nat n + 1, h] | _ \<Rightarrow> [h OR of_nat n])"

definition hlen :: "skind \<Rightarrow> nat" where
  "hlen k = (case k of Bank \<Rightarrow> 2 | _ \<Rightarrow> 1)"

text \<open>The kind of the children, by the type of the container.\<close>

definition child_kind :: "u32 \<Rightarrow> skind option" where
  "child_kind t = (if t \<in> {0xe, 0x10} then Some Bank else if t \<in> {0xd, 0x20} then Some Segment
     else if t = 0xc then Some Tagsegment else None)"

definition kids_kind :: "skind \<Rightarrow> u32 \<Rightarrow> skind" where
  "kids_kind k h = (case child_kind (type_of k h) of Some c \<Rightarrow> c | None \<Rightarrow> Bank)"

text \<open>Swapping data words by type: by 32, 16 or 64 bits, or not at all.\<close>

definition swap_words :: "u32 \<Rightarrow> words \<Rightarrow> words" where
  "swap_words t ws =
     (if t \<in> {0x1, 0x2, 0xb} then map EVIO_SWAP32 ws
      else if t \<in> {0x4, 0x5} then map swap_halves ws
      else if t \<in> {0x8, 0x9, 0xa} then swap_pairs ws else ws)"

text \<open>The encoding in the byte order of the host (\<open>foreign = False\<close>) or in the other one.\<close>

fun enc :: "bool \<Rightarrow> skind \<Rightarrow> evnode \<Rightarrow> words" where
  "enc foreign k (Leaf h ws) =
     (let hd = header k h (length ws) in
      if foreign then map EVIO_SWAP32 hd @ swap_words (type_of k h) ws else hd @ ws)"
| "enc foreign k (Inner h ns) =
     (let kids = concat (map (enc foreign (kids_kind k h)) ns);
          hd = header k h (length kids)
      in (if foreign then map EVIO_SWAP32 hd else hd) @ kids)"

text \<open>
  Well-formed structures: lengths fit their fields, the type says whether there are children and of which
  kind, 64-bit data fill an even number of words, and there are no composite data.
\<close>

definition wf_header :: "skind \<Rightarrow> u32 \<Rightarrow> nat \<Rightarrow> bool" where
  "wf_header k h n = (case k of Bank \<Rightarrow> n < 2 ^ 32 - 1 | _ \<Rightarrow> n < 2 ^ 16 \<and> h AND 0xffff = 0)"

fun wf_node :: "skind \<Rightarrow> evnode \<Rightarrow> bool" where
  "wf_node k (Leaf h ws) \<longleftrightarrow>
     wf_header k h (length ws) \<and> child_kind (type_of k h) = None \<and> type_of k h \<noteq> 0xf \<and>
     (type_of k h \<in> {0x8, 0x9, 0xa} \<longrightarrow> even (length ws)) \<and>
     (type_of k h \<in> {0x4, 0x5} \<longrightarrow> length ws < 2 ^ 31)"
| "wf_node k (Inner h ns) \<longleftrightarrow>
     child_kind (type_of k h) \<noteq> None \<and> list_all (wf_node (kids_kind k h)) ns \<and>
     wf_header k h (length (concat (map (enc False (kids_kind k h)) ns)))"

fun node_fuel :: "evnode \<Rightarrow> nat" where
  "node_fuel (Leaf h ws) = 1"
| "node_fuel (Inner h ns) = 2 + sum_list (map (\<lambda>n. 1 + node_fuel n) ns)"

lemma length_header [simp]: "length (header k h n) = hlen k"
  by (cases k) (simp_all add: header_def hlen_def)

lemma length_swap_words [simp]: "length (swap_words t ws) = length ws"
  by (simp add: swap_words_def)

lemma swap_words_twice [simp]: "swap_words t (swap_words t ws) = ws"
  by (simp add: swap_words_def swap32.map_sw_sw halves.map_sw_sw swap_pairs_twice del: map_map)

lemma length_enc: "length (enc f k n) = length (enc g k n)"
proof (induction n arbitrary: k)
  case (Inner h ns)
  have "length (concat (map (enc f (kids_kind k h)) ns)) = length (concat (map (enc g (kids_kind k h)) ns))"
    using Inner by (induction ns) simp_all
  then show ?case by (simp add: Let_def)
qed (simp add: Let_def)

lemma enc_nonempty: "0 < length (enc f k n)"
  by (cases n; cases k) (auto simp: Let_def header_def)

lemma node_fuel_bound: "node_fuel n < 4 * length (enc f k n)"
proof (induction n arbitrary: k)
  case (Leaf h ws) then show ?case by (cases k) (simp_all add: Let_def hlen_def)
next
  case (Inner h ns)
  have "sum_list (map (\<lambda>n. 1 + node_fuel n) ns) \<le> 4 * length (concat (map (enc f (kids_kind k h)) ns))"
  proof -
    have "\<forall>n \<in> set ns. node_fuel n < 4 * length (enc f (kids_kind k h) n)" using Inner by blast
    then show ?thesis by (induction ns) simp_all
  qed
  moreover have "1 \<le> hlen k" by (cases k) (simp_all add: hlen_def)
  ultimately show ?case by (cases f) (simp_all add: Let_def)
qed

section \<open>The walk over a tree\<close>

text \<open>Reading back the fields of a header.\<close>

lemma of_nat_and_ffff: "n < 2 ^ 16 \<Longrightarrow> (of_nat n :: u32) AND 0xffff = of_nat n"
  using take_bit_eq_mask [of 16 "of_nat n :: u32"]
  by (simp add: take_bit_of_nat take_bit_nat_eq_self mask_eq_exp_minus_1)

lemma drop_16_of_nat: "n < 2 ^ 16 \<Longrightarrow> drop_bit 16 (of_nat n :: u32) = 0"
  unfolding word_unat_eq_iff unat_drop_bit_eq by (simp add: drop_bit_eq_div unat_of_nat)

lemma unat_of_nat_32: "n < 2 ^ 32 \<Longrightarrow> unat (of_nat n :: u32) = n"
  by (simp add: unat_of_nat)

lemma wf_header_lt: "wf_header k h n \<Longrightarrow> n < 2 ^ 32 - 1"
  by (cases k) (simp_all add: wf_header_def)

lemma short_header:
  assumes "h AND 0xffff = 0" "n < 2 ^ 16"
  shows "(h OR of_nat n) AND 0xffff = of_nat n" "drop_bit 16 (h OR of_nat n) = drop_bit 16 (h :: u32)"
  using assms by (simp_all add: bit.conj_disj_distrib2 of_nat_and_ffff drop_16_of_nat drop_bit_or)

lemma child_len_header: "wf_header k h n \<Longrightarrow> child_len k (header k h n ! 0) = of_nat (hlen k + n)"
  by (cases k) (simp_all add: wf_header_def child_len_def header_def hlen_def short_header)

lemma swap_header_block:
  assumes "src_has off (if tolocal then map EVIO_SWAP32 hw else hw) m" "room (off + length hw) m"
  shows "swap_header tolocal (length hw) off m =
         Some (hw, put off (if tolocal then hw else map EVIO_SWAP32 hw) m)"
proof (cases tolocal)
  case True
  have "at off hw (ov off hw (sm_out m))" using assms(2) by (intro at_ov) (simp add: room_def)
  then show ?thesis using True assms
    by (simp add: swap_header_def walk_simps swap32.map_sw_sw at_cut del: map_map)
next
  case False
  then show ?thesis using assms
    using swap_int32_t_block [of off hw m] by (simp add: swap_header_def at_cut src_has_def)
qed

lemma swap_fragment_header:
  assumes wf: "wf_header k h n" and hw: "hw = header k h n"
    and "src_has off (if tolocal then map EVIO_SWAP32 hw else hw) m" "room (off + length hw) m"
  shows "swap_fragment (Suc fuel) after tolocal k off m =
         swap_data (swap_fragment fuel after tolocal) fuel after tolocal (type_of k h) (of_nat n)
           (off + hlen k) (put off (if tolocal then hw else map EVIO_SWAP32 hw) m)"
proof -
  have "swap_header tolocal (hlen k) off m =
        Some (hw, put off (if tolocal then hw else map EVIO_SWAP32 hw) m)"
    using swap_header_block [OF assms(3,4)] hw by simp
  then show ?thesis using wf unfolding hw
    by (cases k)
       (simp_all add: hlen_def swap_bank_def swap_segment_def swap_tagsegment_def header_def type_of_def
          wf_header_def short_header del: drop_bit_or)
qed

text \<open>A leaf: the data words are swapped by their type.\<close>

lemma swap_data_leaf:
  assumes "child_kind t = None" "t \<noteq> 0xf" "t \<in> {0x8, 0x9, 0xa} \<longrightarrow> even (length ws)"
    and "t \<in> {0x4, 0x5} \<longrightarrow> length ws < 2 ^ 31"
    and len: "length ws < 2 ^ 32" and m: "src_has off ws m" "room (off + length ws) m"
  shows "swap_data swapk fuel after tolocal t (of_nat (length ws)) off m = Some (put off (swap_words t ws) m)"
proof -
  have u: "unat (of_nat (length ws) :: u32) = length ws" using len by (rule unat_of_nat_32)
  have d: "unat (of_nat (length ws) div 2 :: u32) = length ws div 2" using u by (simp add: unat_div)
  have h: "unat (of_nat (length ws) * 2 :: u32) = 2 * length ws" if "length ws < 2 ^ 31"
  proof -
    have "of_nat (length ws) * 2 = (of_nat (2 * length ws) :: u32)" by simp
    then show ?thesis using that unat_of_nat_32 [of "2 * length ws"] by (simp add: mult.commute)
  qed
  consider "t = 0" | "t \<in> {0x1, 0x2, 0xb}" | "t \<in> {0x3, 0x6, 0x7}" | "t \<in> {0x4, 0x5}" | "t \<in> {0x8, 0x9, 0xa}"
    | "t \<notin> {0, 0x1, 0x2, 0xb, 0x3, 0x6, 0x7, 0x4, 0x5, 0x8, 0x9, 0xa}" by blast
  then show ?thesis
  proof cases
    case 6
    then show ?thesis using assms u
      by (simp add: swap_data_def swap_words_def walk_simps child_kind_def split: if_splits)
  next
    case 4 then show ?thesis using assms(4) h m by (auto simp: swap_data_def swap_words_def swap_int16_t_block)
  next
    case 5 then show ?thesis using assms(3) d m by (auto simp: swap_data_def swap_words_def swap_int64_t_block)
  qed (use u m in \<open>auto simp: swap_data_def swap_words_def copy_data_block swap_int32_t_block\<close>)
qed

lemma length_encs: "length (concat (map (enc f k) ns)) = length (concat (map (enc g k) ns))"
  by (induction ns) (simp_all add: length_enc [of f k _ g])

lemma enc_first:
  assumes "wf_node k n"
  obtains w r where "enc False k n = w # r" "child_len k w = of_nat (length (enc False k n))"
proof -
  obtain h len rest where e: "enc False k n = header k h len @ rest" "length rest = len" "wf_header k h len"
    using assms by (cases n) (auto simp: Let_def)
  then have "header k h len \<noteq> []" by (cases k) (simp_all add: header_def)
  then obtain w hs where w: "header k h len = w # hs" by (cases "header k h len") auto
  moreover have "hlen k = Suc (length hs)" using length_header [of k h len] w by simp
  ultimately have "child_len k w = of_nat (length (enc False k n))" using child_len_header [OF e(3)] w e by simp
  then show ?thesis using that e(1) w by simp
qed

text \<open>What the walk owes for one structure, and the loop over the structures of a container.\<close>

definition walks :: "char list \<Rightarrow> bool \<Rightarrow> skind \<Rightarrow> evnode \<Rightarrow> bool" where
  "walks after tolocal k n \<longleftrightarrow> (\<forall>fuel off m. node_fuel n \<le> fuel \<longrightarrow> src_has off (enc tolocal k n) m \<longrightarrow>
     room (off + length (enc tolocal k n)) m \<longrightarrow>
     swap_fragment fuel after tolocal k off m = Some (put off (enc (\<not> tolocal) k n) m))"

lemma swap_children_round:
  assumes "wf_node k n" and s: "src_has p (enc tolocal k n) m" and r: "room (p + length (enc tolocal k n)) m"
    and p: "p = off + unat l" and lt: "l < len" and l': "l' = l + of_nat (length (enc tolocal k n))"
    and "swapk k p m = Some (put p (enc (\<not> tolocal) k n) m)"
  shows "swap_children swapk k (Suc fuel) tolocal len l off m =
         swap_children swapk k fuel tolocal len l' off (put p (enc (\<not> tolocal) k n) m)"
proof -
  obtain w rest where w: "enc False k n = w # rest" "child_len k w = of_nat (length (enc False k n))"
    using enc_first [OF assms(1)] .
  have le: "length (enc tolocal k n) = length (enc False k n)" by (rule length_enc)
  have "child_word tolocal p (put p (enc False k n) m) = Some w" if tolocal
  proof -
    have "at p (w # rest) (ov p (w # rest) (sm_out m))"
      using r le w(1) by (intro at_ov) (simp add: room_def)
    then show ?thesis using that w(1) by (simp add: child_word_def rd_out_def at_Cons)
  qed
  moreover have "child_word tolocal p m = Some w" if "\<not> tolocal"
    using that s w(1) by (simp add: child_word_def rd_src_def src_has_def at_Cons)
  ultimately show ?thesis using assms(7) lt w(2) le unfolding p l' by (cases tolocal) simp_all
qed

lemma swap_children_block:
  assumes "\<forall>n \<in> set ns. wf_node k n \<and> walks after tolocal k n \<and> node_fuel n \<le> fuel'"
    and "length ns < fuel" and "L + length (concat (map (enc tolocal k) ns)) < 2 ^ 32"
    and "src_has (off + L) (concat (map (enc tolocal k) ns)) m"
    and "room (off + L + length (concat (map (enc tolocal k) ns))) m"
  shows "swap_children (swap_fragment fuel' after tolocal) k fuel tolocal
           (of_nat (L + length (concat (map (enc tolocal k) ns)))) (of_nat L) off m =
         Some (put (off + L) (concat (map (enc (\<not> tolocal) k) ns)) m)"
  using assms
proof (induction ns arbitrary: fuel L m)
  case Nil
  then obtain f where "fuel = Suc f" by (cases fuel) auto
  then show ?case by simp
next
  case (Cons n ns)
  obtain f where f: "fuel = Suc f" using Cons.prems(2) by (cases fuel) auto
  let ?e = "enc tolocal k n" and ?e' = "enc (\<not> tolocal) k n" and ?r = "concat (map (enc tolocal k) ns)"
  let ?len = "of_nat (L + length (concat (map (enc tolocal k) (n # ns)))) :: u32"
  have len': "?len = of_nat (L + length ?e + length ?r)" by (simp add: add.assoc)
  have u: "unat (of_nat L :: u32) = L" using Cons.prems(3) by (intro unat_of_nat_32) simp
  have uu: "unat ?len = L + length (concat (map (enc tolocal k) (n # ns)))"
    using Cons.prems(3) by (rule unat_of_nat_32)
  have lt: "of_nat L < ?len" unfolding word_less_nat_alt u uu using enc_nonempty [of tolocal k n] by simp
  have s: "src_has (off + L) ?e m" "src_has (off + L + length ?e) ?r m"
    using Cons.prems(4) by (simp_all add: src_has_append)
  have r: "room (off + L + length ?e) m" using Cons.prems(5) by (rule room_mono) simp
  have "swap_fragment fuel' after tolocal k (off + L) m = Some (put (off + L) ?e' m)"
    using Cons.prems(1) s(1) r by (simp add: walks_def)
  then have "swap_children (swap_fragment fuel' after tolocal) k fuel tolocal ?len (of_nat L) off m =
    swap_children (swap_fragment fuel' after tolocal) k f tolocal ?len (of_nat (L + length ?e)) off (put (off + L) ?e' m)"
    unfolding f by (intro swap_children_round) (use Cons.prems(1) s(1) r lt u in simp_all)
  also have "\<dots> = Some (put (off + (L + length ?e)) (concat (map (enc (\<not> tolocal) k) ns)) (put (off + L) ?e' m))"
    unfolding len'
    by (rule Cons.IH)
      (use Cons.prems f s(2) length_enc [of tolocal k n "\<not> tolocal"] in \<open>simp_all add: add.assoc\<close>)
  also have "\<dots> = Some (put (off + L) (concat (map (enc (\<not> tolocal) k) (n # ns))) m)"
    using length_enc [of tolocal k n "\<not> tolocal"] by (simp add: put_append add.assoc)
  finally show ?case .
qed

lemma fuel_kids: "node_fuel (Inner h ns) \<le> Suc f \<Longrightarrow> n \<in> set ns \<Longrightarrow> node_fuel n \<le> f"
  using member_le_sum_list [of "1 + node_fuel n" "map (\<lambda>n. 1 + node_fuel n) ns"] by auto

lemma fuel_loop: "node_fuel (Inner h ns) \<le> Suc f \<Longrightarrow> length ns < f"
proof -
  have "length ns \<le> sum_list (map (\<lambda>n. 1 + node_fuel n) ns)" by (induction ns) auto
  then show "node_fuel (Inner h ns) \<le> Suc f \<Longrightarrow> length ns < f" by simp
qed

lemma swap_data_kids:
  "child_kind t = Some k \<Longrightarrow>
   swap_data swapk fuel after tolocal t len off m = swap_children swapk k fuel tolocal len 0 off m"
  by (auto simp: swap_data_def child_kind_def split: if_splits)

lemma walks_node: "wf_node k n \<Longrightarrow> walks after tolocal k n"
proof (induction n arbitrary: k)
  case (Leaf h ws)
  show ?case unfolding walks_def
  proof (intro allI impI)
    fix fuel off m
    assume "node_fuel (Leaf h ws) \<le> fuel" and s: "src_has off (enc tolocal k (Leaf h ws)) m"
      and r: "room (off + length (enc tolocal k (Leaf h ws))) m"
    then obtain f where f: "fuel = Suc f" by (cases fuel) auto
    let ?hd = "header k h (length ws)" and ?t = "type_of k h"
    let ?in = "if tolocal then map EVIO_SWAP32 ?hd else ?hd" and ?out = "if tolocal then ?hd else map EVIO_SWAP32 ?hd"
    let ?ws = "if tolocal then swap_words ?t ws else ws"
    have e: "enc tolocal k (Leaf h ws) = ?in @ ?ws" "enc (\<not> tolocal) k (Leaf h ws) = ?out @ swap_words ?t ?ws"
      by (simp_all add: Let_def)
    have l: "length ?in = hlen k" "length ?out = hlen k" "length ?ws = length ws" by simp_all
    have wf: "wf_header k h (length ws)" using Leaf.prems by simp
    have s': "src_has off ?in m" "src_has (off + hlen k) ?ws m" using s l unfolding e by (simp_all only: src_has_append)
    have r': "room (off + length ?hd) m" using r unfolding e by (rule room_mono) simp
    have "swap_fragment fuel after tolocal k off m =
          swap_data (swap_fragment f after tolocal) f after tolocal ?t (of_nat (length ?ws)) (off + hlen k) (put off ?out m)"
      unfolding f l(3) by (rule swap_fragment_header [OF wf refl s'(1) r'])
    also have "\<dots> = Some (put (off + hlen k) (swap_words ?t ?ws) (put off ?out m))"
    proof (rule swap_data_leaf)
      show "child_kind ?t = None" "?t \<noteq> 0xf" using Leaf.prems by simp_all
      show "?t \<in> {0x8, 0x9, 0xa} \<longrightarrow> even (length ?ws)" "?t \<in> {0x4, 0x5} \<longrightarrow> length ?ws < 2 ^ 31"
        using Leaf.prems unfolding l(3) wf_node.simps by blast+
      show "length ?ws < 2 ^ 32" using wf_header_lt [OF wf] unfolding l(3) by simp
      show "src_has (off + hlen k) ?ws (put off ?out m)" using s'(2) l(2) by (simp only: src_has_put_before order_refl)
      show "room (off + hlen k + length ?ws) (put off ?out m)"
        using r unfolding e length_append l room_put by (simp only: add.assoc)
    qed
    also have "\<dots> = Some (put off (enc (\<not> tolocal) k (Leaf h ws)) m)"
      unfolding e put_append l(2) ..
    finally show "swap_fragment fuel after tolocal k off m = Some (put off (enc (\<not> tolocal) k (Leaf h ws)) m)" .
  qed
next
  case (Inner h ns)
  show ?case unfolding walks_def
  proof (intro allI impI)
    fix fuel off m
    assume fl: "node_fuel (Inner h ns) \<le> fuel" and s: "src_has off (enc tolocal k (Inner h ns)) m"
      and r: "room (off + length (enc tolocal k (Inner h ns))) m"
    then obtain f where f: "fuel = Suc f" by (cases fuel) auto
    let ?c = "kids_kind k h"
    let ?kids = "concat (map (enc tolocal ?c) ns)" and ?kids' = "concat (map (enc (\<not> tolocal) ?c) ns)"
    let ?hd = "header k h (length ?kids)"
    let ?in = "if tolocal then map EVIO_SWAP32 ?hd else ?hd" and ?out = "if tolocal then ?hd else map EVIO_SWAP32 ?hd"
    have e: "enc tolocal k (Inner h ns) = ?in @ ?kids" "enc (\<not> tolocal) k (Inner h ns) = ?out @ ?kids'"
      using length_encs [of tolocal ?c ns "\<not> tolocal"] by (cases tolocal; simp add: Let_def)+
    have l: "length ?in = hlen k" "length ?out = hlen k" by simp_all
    have wf: "wf_header k h (length ?kids)"
      using Inner.prems length_encs [of tolocal ?c ns False] by simp
    have c: "child_kind (type_of k h) = Some ?c" using Inner.prems by (auto simp: kids_kind_def)
    have s': "src_has off ?in m" "src_has (off + hlen k) ?kids m"
      using s l unfolding e by (simp_all only: src_has_append)
    have r': "room (off + length ?hd) m" "room (off + hlen k + length ?kids) m"
      using r unfolding e by (auto elim: room_mono)
    have "swap_fragment fuel after tolocal k off m =
          swap_data (swap_fragment f after tolocal) f after tolocal (type_of k h) (of_nat (length ?kids)) (off + hlen k) (put off ?out m)"
      unfolding f by (rule swap_fragment_header [OF wf refl s'(1) r'(1)])
    also have "\<dots> = swap_children (swap_fragment f after tolocal) ?c f tolocal (of_nat (0 + length ?kids)) (of_nat 0) (off + hlen k) (put off ?out m)"
      unfolding swap_data_kids [OF c] by simp
    also have "\<dots> = Some (put (off + hlen k + 0) ?kids' (put off ?out m))"
    proof (rule swap_children_block)
      show "\<forall>n\<in>set ns. wf_node ?c n \<and> walks after tolocal ?c n \<and> node_fuel n \<le> f"
        using Inner.IH Inner.prems fl fuel_kids [of h ns f] unfolding f by (auto simp: list_all_iff)
      show "length ns < f" using fl unfolding f by (rule fuel_loop)
      show "0 + length ?kids < 2 ^ 32" using wf_header_lt [OF wf] by simp
      show "src_has (off + hlen k + 0) ?kids (put off ?out m)" using s'(2) by simp
      show "room (off + hlen k + 0 + length ?kids) (put off ?out m)" using r'(2) by simp
    qed
    also have "\<dots> = Some (put off (enc (\<not> tolocal) k (Inner h ns)) m)"
      unfolding e put_append l(2) by simp
    finally show "swap_fragment fuel after tolocal k off m = Some (put off (enc (\<not> tolocal) k (Inner h ns)) m)" .
  qed
qed

lemma evioswap_block:
  assumes "wf_node Bank n" "src_has off (enc tolocal Bank n) m" "room (off + length (enc tolocal Bank n)) m"
    and "4 * length (enc tolocal Bank n) \<le> fuel"
  shows "evioswap fuel after tolocal off m = Some (put off (enc (\<not> tolocal) Bank n) m)"
  using walks_node [OF assms(1), of after tolocal] node_fuel_bound [of n tolocal Bank] assms(2-4)
  by (simp add: evioswap_def walks_def)

lemma ov_middle: "length xs = length ys \<Longrightarrow> ov (length as) xs (as @ ys @ bs) = as @ xs @ bs"
  using paste_ov [of "length as" xs "as @ ys @ bs"] paste_at [of ys xs as bs] by simp

lemma at_middle: "at (length as) xs (as @ xs @ bs)"
  by (simp add: at_def)

text \<open>The composite routine keeps a swap in place a swap in place.\<close>

section \<open>Properties\<close>

text \<open>C10: Swapping an event in place turns its encoding in one byte order into its encoding in the
  other one, and touches no word outside the event: header words are swapped as 32 bits at every depth,
  data words by their type, and every child is found.\<close>
theorem evioswap_in_place:
  assumes "wf_node Bank n" and "4 * length (enc tolocal Bank n) \<le> fuel"
  shows "evioswap fuel after tolocal (length as) \<lparr>sm_src = as @ enc tolocal Bank n @ bs, sm_dst = None\<rparr> =
         Some \<lparr>sm_src = as @ enc (\<not> tolocal) Bank n @ bs, sm_dst = None\<rparr>"
proof -
  let ?m = "\<lparr>sm_src = as @ enc tolocal Bank n @ bs, sm_dst = None\<rparr>"
  have "evioswap fuel after tolocal (length as) ?m = Some (put (length as) (enc (\<not> tolocal) Bank n) ?m)"
    using assms by (intro evioswap_block) (simp_all add: src_has_def at_middle room_def sm_out_def)
  then show ?thesis
    using length_enc [of tolocal Bank n "\<not> tolocal"] by (simp add: put_def sm_out_def set_out_def ov_middle)
qed

definition sample_event :: evnode where
  "sample_event = Inner 0x00011002
     [Leaf 0x00020103 [1, 2], Inner 0x00030D04 [Leaf 0x05040000 [0x00010002]], Inner 0x00040C00 [Leaf 0x00680000 [7, 8]]]"

lemma sample_event_facts:
  "wf_node Bank sample_event" "length (enc f Bank sample_event) = 15"
  "enc True Bank sample_event =
     [0x0E000000, 0x02100100, 0x03000000, 0x03010200, 0x01000000, 0x02000000, 0x03000000, 0x040D0300,
      0x01000405, 0x01000200, 0x04000000, 0x000C0400, 0x02006800, 0x08000000, 0x07000000]"
proof -
  note defs = sample_event_def kids_kind_def child_kind_def type_of_def header_def
  show "wf_node Bank sample_event" by (simp add: defs wf_header_def)
  show "length (enc f Bank sample_event) = 15"
    unfolding length_enc [of f Bank _ False] by (simp add: defs)
  show "enc True Bank sample_event =
     [0x0E000000, 0x02100100, 0x03000000, 0x03010200, 0x01000000, 0x02000000, 0x03000000, 0x040D0300,
      0x01000405, 0x01000200, 0x04000000, 0x000C0400, 0x02006800, 0x08000000, 0x07000000]"
    by (simp add: defs swap_words_def EVIO_SWAP32_def swap_halves_def set_half_def half_def EVIO_SWAP16_def Let_def)
qed

theorem evioswap_in_place_witness:
  "evioswap 60 [] False (length [42]) \<lparr>sm_src = [42] @ enc False Bank sample_event @ [43], sm_dst = None\<rparr> =
   Some \<lparr>sm_src = [42] @ enc True Bank sample_event @ [43], sm_dst = None\<rparr> \<and>
   enc True Bank sample_event =
     [0x0E000000, 0x02100100, 0x03000000, 0x03010200, 0x01000000, 0x02000000, 0x03000000, 0x040D0300,
      0x01000405, 0x01000200, 0x04000000, 0x000C0400, 0x02006800, 0x08000000, 0x07000000]"
proof -
  show ?thesis using evioswap_in_place [of sample_event False 60 "[]" "[42]" "[43]"] by (simp add: sample_event_facts)
qed

text \<open>Swapping an event into another buffer leaves the source as it is, writes the other encoding at
  the same offset and touches no other word of the destination.\<close>
theorem evioswap_copy:
  assumes "wf_node Bank n" and "4 * length (enc tolocal Bank n) \<le> fuel"
    and "length ds = length (enc tolocal Bank n)" and "length cs = length as"
  shows "evioswap fuel after tolocal (length as)
           \<lparr>sm_src = as @ enc tolocal Bank n @ bs, sm_dst = Some (cs @ ds @ es)\<rparr> =
         Some \<lparr>sm_src = as @ enc tolocal Bank n @ bs, sm_dst = Some (cs @ enc (\<not> tolocal) Bank n @ es)\<rparr>"
proof -
  let ?m = "\<lparr>sm_src = as @ enc tolocal Bank n @ bs, sm_dst = Some (cs @ ds @ es)\<rparr>"
  have "evioswap fuel after tolocal (length as) ?m = Some (put (length as) (enc (\<not> tolocal) Bank n) ?m)"
    using assms by (intro evioswap_block) (simp_all add: src_has_def at_middle room_def sm_out_def)
  then show ?thesis
    using length_enc [of tolocal Bank n "\<not> tolocal"] assms(3) ov_middle [of "enc (\<not> tolocal) Bank n" ds cs es]
    unfolding assms(4) [symmetric] by (simp add: put_def sm_out_def set_out_def)
qed

theorem evioswap_copy_witness:
  "evioswap 60 [] True (length [42]) \<lparr>sm_src = [42] @ enc True Bank sample_event @ [43],
      sm_dst = Some ([1] @ replicate 15 0 @ [2])\<rparr> =
   Some \<lparr>sm_src = [42] @ enc True Bank sample_event @ [43], sm_dst = Some ([1] @ enc False Bank sample_event @ [2])\<rparr>"
proof -
  show ?thesis using evioswap_copy [of sample_event True 60 "replicate 15 0" "[1]" "[42]" "[]" "[43]" "[2]"] by (simp add: sample_event_facts)
qed

text \<open>Swapping an event away and back is the identity on the whole memory.\<close>
theorem evioswap_twice:
  assumes "wf_node Bank n" and "4 * length (enc False Bank n) \<le> fuel"
    and "m = \<lparr>sm_src = as @ enc False Bank n @ bs, sm_dst = None\<rparr>"
  shows "(evioswap fuel after False (length as) m \<bind> evioswap fuel after True (length as)) = Some m"
proof -
  let ?away = "\<lparr>sm_src = as @ enc True Bank n @ bs, sm_dst = None\<rparr>"
  have run: "evioswap fuel after tl (length as) \<lparr>sm_src = as @ enc tl Bank n @ bs, sm_dst = None\<rparr> =
             Some \<lparr>sm_src = as @ enc (\<not> tl) Bank n @ bs, sm_dst = None\<rparr>" for tl
    using evioswap_block [OF assms(1), of "length as" tl "\<lparr>sm_src = as @ enc tl Bank n @ bs, sm_dst = None\<rparr>" fuel after]
      assms(2) length_enc [of tl Bank n False] length_enc [of tl Bank n "\<not> tl"]
    by (simp add: src_has_def at_middle room_def sm_out_def put_def set_out_def ov_middle)
  show ?thesis unfolding assms(3) using run [of False] run [of True] by simp
qed

theorem evioswap_twice_witness:
  "(evioswap 60 [] False 1 \<lparr>sm_src = [9] @ enc False Bank sample_event @ [], sm_dst = None\<rparr> \<bind> evioswap 60 [] True 1) =
   Some \<lparr>sm_src = [9] @ enc False Bank sample_event @ [], sm_dst = None\<rparr>"
proof -
  show ?thesis using evioswap_twice [of sample_event 60 _ "[9]" "[]" "[]"] by (simp add: sample_event_facts)
qed

end
