(* ===== verification/EvioComposite.thy ===== *)
theory EvioComposite
  imports EvioSwap
begin

text \<open>
  Arrays of composite data, as \<^verbatim>\<open>swap_composite_t\<close> of \<^verbatim>\<open>evioswap.c\<close> walks over them: each element is a tagsegment with the
  format and a bank with the data. The elements here have formats of one 32-bit item.
\<close>

unbundle bit_operations_syntax

section \<open>The elements and their two encodings\<close>

text \<open>
  The tagsegment's word without its length, the words of the format string, the second word of the bank, and the data.
\<close>

record comp_elem =
  ce_tag :: u32
  ce_text :: words
  ce_head :: u32
  ce_data :: words

definition ordered_words :: "bool \<Rightarrow> words \<Rightarrow> words" where
  "ordered_words f ws = (if f then map EVIO_SWAP32 ws else ws)"

definition comp_words :: "bool \<Rightarrow> comp_elem \<Rightarrow> words" where
  "comp_words f c = ordered_words f [ce_tag c OR of_nat (length (ce_text c))] @ ce_text c @
     ordered_words f [of_nat (length (ce_data c)) + 1, ce_head c] @ ordered_words f (ce_data c)"

definition comp_array :: "bool \<Rightarrow> comp_elem list \<Rightarrow> words" where
  "comp_array f cs = concat (map (comp_words f) cs)"

definition comp_ok :: "char list \<Rightarrow> comp_elem \<Rightarrow> bool" where
  "comp_ok after c \<longleftrightarrow> ce_tag c AND 0xffff = 0 \<and> length (ce_text c) < 2 ^ 16 \<and> ce_data c \<noteq> [] \<and> length (ce_data c) < 2 ^ 31 \<and>
     (\<exists>s n k. c_string (ce_text c) 0 = Some s \<and> kind32 k \<and> 1 \<le> n \<and> n \<le> 15 \<and> eviofmt after s 1024 = (1, [word_of_int (16 * n + k)]))"

lemma length_ordered_words [simp]: "length (ordered_words f ws) = length ws"
  by (simp add: ordered_words_def)

lemma length_comp_words [simp]: "length (comp_words f c) = length (ce_text c) + length (ce_data c) + 3"
  by (simp add: comp_words_def)

lemma swap_ordered: "map EVIO_SWAP32 (ordered_words f ws) = ordered_words (\<not> f) ws"
  by (simp add: ordered_words_def comp_def)

lemma ordered_words_local [simp]: "ordered_words False ws = ws"
  by (simp add: ordered_words_def)

lemma comp_array_simps [simp]: "comp_array f [] = []" "comp_array f (c # cs) = comp_words f c @ comp_array f cs"
  by (simp_all add: comp_array_def)

lemma length_comp_array: "length (comp_array f cs) = length (comp_array g cs)"
  by (induction cs) simp_all

section \<open>One element\<close>

lemma drop_bytes_of: "drop (4 * n) (bytes_of ws) = bytes_of (drop n ws)"
proof (induction n arbitrary: ws)
  case (Suc n) then show ?case by (cases ws) simp_all
qed simp

lemma c_string_at:
  assumes "at off text ws" "c_string text 0 = Some s"
  shows "c_string ws off = Some s"
proof -
  obtain post where d: "drop off ws = text @ post" using assms(1) by (metis append_take_drop_id at_def)
  have z: "0 \<in> set (bytes_of text)" using assms(2) by (auto simp: c_string_def Let_def split: if_splits)
  then have "takeWhile (\<lambda>b. b \<noteq> 0) (bytes_of text @ bytes_of post) = takeWhile (\<lambda>b. b \<noteq> 0) (bytes_of text)"
    by (intro takeWhile_append1) auto
  then show ?thesis using assms(2) z by (simp add: c_string_def Let_def drop_bytes_of d)
qed

lemma src_has_put_after: "off' + length ws \<le> off \<Longrightarrow> src_has off' ws (put off xs m) \<longleftrightarrow> src_has off' ws m"
  by (auto simp: src_has_def put_def src_set_out out_in_place at_ov_after)

lemma data_swapped:
  assumes "kind32 k" "1 \<le> n" "n \<le> 15" "at off ws (sm_out m)" "ws \<noteq> []" "length ws + 2 < fuel"
  shows "\<exists>bs. eviofmtswap fuel (bytes_of (sm_out m)) (4 * int off) (int (length ws)) [word_of_int (16 * n + k)] 1 t = Some (0, bs) \<and>
     set_out m (words_of bs) = put off (map EVIO_SWAP32 ws) m"
proof -
  let ?o = "sm_out m"
  let ?post = "drop (off + length ws) ?o"
  have o: "?o = take off ?o @ ws @ ?post" and l: "length (take off ?o) = off"
    using assms(4) by (auto simp: at_def) (metis append_take_drop_id drop_drop add.commute)
  have b: "bytes_of ?o = bytes_of (take off ?o) @ bytes_of ws @ bytes_of ?post" by (metis o bytes_of_simps(3))
  have p: "int (length (bytes_of (take off ?o))) = 4 * int off" using l by simp
  have s: "eviofmtswap fuel (bytes_of ?o) (4 * int off) (int (length ws)) [word_of_int (16 * n + k)] 1 t =
      Some (S_SUCCESS, bytes_of (take off ?o) @ bytes_of (map EVIO_SWAP32 ws) @ bytes_of ?post)"
    using eviofmtswap_block [OF assms(1,2,3,5,6), of "bytes_of (take off ?o)" "bytes_of ?post" t] unfolding p b [symmetric] .
  have w: "words_of (bytes_of (take off ?o) @ bytes_of (map EVIO_SWAP32 ws) @ bytes_of ?post) = take off ?o @ map EVIO_SWAP32 ws @ ?post"
    by (metis words_of_bytes_of bytes_of_simps(3))
  have "ov off (map EVIO_SWAP32 ws) ?o = take off ?o @ map EVIO_SWAP32 ws @ ?post"
    using ov_middle [of "map EVIO_SWAP32 ws" ws "take off ?o" ?post] l o by simp
  then show ?thesis using s w by (intro exI [of _ "bytes_of (take off ?o) @ bytes_of (map EVIO_SWAP32 ws) @ bytes_of ?post"])
      (simp add: put_def S_SUCCESS_def)
qed

lemma tag_length: "ce_tag c AND 0xffff = 0 \<Longrightarrow> length (ce_text c) < 2 ^ 16 \<Longrightarrow>
    (ce_tag c OR of_nat (length (ce_text c))) AND 0xffff = of_nat (length (ce_text c))"
  by (simp add: bit.conj_disj_distrib2 of_nat_and_ffff)

lemma sint_of_nat_32: "n < 2 ^ 31 \<Longrightarrow> sint (of_nat n :: u32) = int n"
  by (simp add: signed_of_nat signed_take_bit_int_eq_self_iff)

lemma composite_elem_block:
  assumes ok: "comp_ok after c" and s: "src_has off (comp_words f c) m" and r: "room (off + length (comp_words f c)) m"
    and fuel: "length (ce_data c) + 2 < fuel"
  shows "swap_composite_elem fuel after f off m = Some (S_SUCCESS, put off (comp_words (\<not> f) c) m, of_nat (length (comp_words f c)))"
proof -
  let ?t = "ce_tag c OR of_nat (length (ce_text c))" and ?n = "length (ce_data c)" and ?b = "off + length (ce_text c) + 1"
  let ?h = "[of_nat ?n + 1, ce_head c]"
  obtain str n k where fmt: "c_string (ce_text c) 0 = Some str" "kind32 k" "1 \<le> n" "n \<le> 15"
      "eviofmt after str 1024 = (1, [word_of_int (16 * n + k)])"
    and l: "length (ce_text c) < 2 ^ 16" "ce_data c \<noteq> []" "?n < 2 ^ 31" "ce_tag c AND 0xffff = 0"
    using ok by (auto simp: comp_ok_def)
  have tl: "unat (?t AND 0xffff) = length (ce_text c)" using l by (simp add: tag_length unat_of_nat_32)
  have sn: "sint (of_nat ?n :: u32) = int ?n" "unat (of_nat ?n :: u32) = ?n" using l(3) by (simp_all add: sint_of_nat_32 unat_of_nat_32)
  define m1 where "m1 = put off (ordered_words (\<not> f) [?t]) m"
  define m2 where "m2 = put (off + 1) (ce_text c) m1"
  define m3 where "m3 = put ?b (ordered_words (\<not> f) ?h) m2"
  define m4 where "m4 = put (?b + 2) (ordered_words f (ce_data c)) m3"
  have src: "src_has off (ordered_words f [?t]) m" "src_has (off + 1) (ce_text c) m" "src_has ?b (ordered_words f ?h) m"
      "src_has (?b + 2) (ordered_words f (ce_data c)) m"
    using s by (simp_all add: comp_words_def src_has_append add.commute add.left_commute)
  have rm: "room (off + 1) m" "room (off + 1 + length (ce_text c)) m1" "room (?b + 2) m2" "room (?b + 2 + ?n) m3"
    using r by (auto simp: m1_def m2_def m3_def elim: room_mono)
  have s1: "swap_int32_t off 1 m = Some m1"
    using swap_int32_t_block [OF src(1), of 1] rm(1) by (simp add: swap_ordered m1_def)
  have s2: "copy_data (off + 1) (length (ce_text c)) m1 = Some m2"
    using copy_data_block [of "off + 1" "ce_text c" m1] src(2) rm(2) by (simp add: m1_def m2_def)
  have s3: "swap_int32_t ?b 2 m2 = Some m3"
    using swap_int32_t_block [of ?b "ordered_words f ?h" m2 2] src(3) rm(3) by (simp add: swap_ordered m1_def m2_def m3_def numeral_2_eq_2)
  have s4: "copy_data (?b + 2) ?n m3 = Some m4"
    using copy_data_block [of "?b + 2" "ordered_words f (ce_data c)" m3] src(4) rm(4) by (simp add: m1_def m2_def m3_def m4_def)
  have t1: "if f then rd_out m1 off = Some ?t else rd_src m off = Some ?t"
    using src(1) rm(1) rd_src_has [of off ?t m] by (cases f) (simp_all add: m1_def rd_out_put)
  have h1: "if f then rd_out m3 ?b = Some (of_nat ?n + 1) else rd_src m2 ?b = Some (of_nat ?n + 1)"
  proof (cases f)
    case True
    have "at ?b ?h (sm_out m3)" unfolding m3_def using True rm(3) by (simp add: at_ov room_def)
    then show ?thesis using True by (simp add: rd_out_def at_Cons)
  next
    case False
    then have "src_has ?b ?h m2" using src(3) by (simp add: m1_def m2_def)
    then show ?thesis using False rd_src_has [of ?b "of_nat ?n + 1" m2] src_has_Cons [of ?b "of_nat ?n + 1" "[ce_head c]" m2] by simp
  qed
  have str: "c_string (if f then sm_out m4 else sm_src m4) (off + 1) = Some str"
  proof (rule c_string_at [OF _ fmt(1)])
    have "at (off + 1) (ce_text c) (sm_out m4)"
      using rm(2) by (simp add: m4_def m3_def m2_def at_ov_after at_ov room_def)
    moreover have "src_has (off + 1) (ce_text c) m4"
    proof (cases "sm_dst m = None")
      case True
      then have "sm_dst m4 = None" by (simp add: m4_def m3_def m2_def m1_def)
      then show ?thesis using calculation by (simp add: src_has_def out_in_place)
    next
      case False
      then have "sm_src m4 = sm_src m" by (simp add: m4_def m3_def m2_def m1_def put_def src_set_out del: not_None_eq)
      then show ?thesis using src(2) by (simp add: src_has_def)
    qed
    ultimately show "at (off + 1) (ce_text c) (if f then sm_out m4 else sm_src m4)" by (simp add: src_has_def)
  qed
  have dd: "at (?b + 2) (ordered_words f (ce_data c)) (sm_out m4)" "ordered_words f (ce_data c) \<noteq> []"
      "length (ordered_words f (ce_data c)) + 2 < fuel"
    using rm(4) l(2) fuel by (simp_all add: m4_def at_ov room_def ordered_words_def)
  from data_swapped [OF fmt(2-4) dd, of f, unfolded swap_ordered length_ordered_words] obtain bs where bs:
      "eviofmtswap fuel (bytes_of (sm_out m4)) (4 * int (?b + 2)) (int ?n) [word_of_int (16 * n + k)] 1 f = Some (0, bs)"
      "set_out m4 (words_of bs) = put (?b + 2) (ordered_words (\<not> f) (ce_data c)) m4"
    by (elim exE conjE) (rule that)
  let ?A = "ordered_words (\<not> f) [?t]" and ?H = "ordered_words (\<not> f) ?h" and ?D = "ordered_words (\<not> f) (ce_data c)"
  have e: "off + length ?A = off + 1" "off + 1 + length (ce_text c) = ?b" "?b + length ?H = ?b + 2" by simp_all
  have "put off (comp_words (\<not> f) c) m = put (?b + 2) ?D m3"
    unfolding comp_words_def m3_def m2_def m1_def put_append [of off ?A] e(1) put_append [of "off + 1" "ce_text c"] e(2)
      put_append [of ?b ?H] e(3) ..
  also have "\<dots> = put (?b + 2) ?D m4" unfolding m4_def by (rule put_put [symmetric]) simp
  finally have fin: "put (?b + 2) ?D m4 = put off (comp_words (\<not> f) c) m" ..
  have w: "1 + (?t AND 0xffff) + 2 + of_nat ?n = (of_nat (length (comp_words f c)) :: u32)"
    using l by (simp add: tag_length)
  have d: "(of_nat ?n + 1 - 1 :: u32) = of_nat ?n" by simp
  have b: "off + unat (?t AND 0xffff) + 1 = ?b" "off + unat (?t AND 0xffff) + 1 + 2 = ?b + 2" using tl by simp_all
  show ?thesis
  proof (cases f)
    case True
    then show ?thesis
      using t1 h1 str bs(1) unfolding swap_composite_elem_def
      by (simp only: if_True s1 s2 s3 s4 tl b d w sn fmt(5) bs(2) fin Let_def bind.bind_lunit prod.case) (use fin True in simp)
  next
    case False
    then show ?thesis
      using t1 h1 str bs(1) unfolding swap_composite_elem_def
      by (simp only: if_False s1 s2 s3 s4 tl b d w sn fmt(5) bs(2) fin Let_def bind.bind_lunit prod.case) (use fin False in simp)
  qed
qed

section \<open>The array\<close>

text \<open>A destination without words takes no element.\<close>

lemma swap_int32_t_nowhere: "0 < n \<Longrightarrow> swap_int32_t off n (m\<lparr>sm_dst := Some []\<rparr>) = None"
  by (cases n) (simp_all add: wr_out_def sm_out_def wr_def Option.bind_eq_None_conv)

lemma composite_elem_nowhere: "swap_composite_elem fuel after f off (m\<lparr>sm_dst := Some []\<rparr>) = None"
proof -
  have n: "swap_int32_t off 1 (m\<lparr>sm_dst := Some []\<rparr>) = None" by (rule swap_int32_t_nowhere) simp
  show ?thesis
  proof (cases f)
    case True then show ?thesis by (simp only: swap_composite_elem_def if_True n bind.bind_lzero)
  next
    case False
    then show ?thesis
      by (simp only: swap_composite_elem_def if_False n bind.bind_lunit bind.bind_lzero Let_def) (simp add: Option.bind_eq_None_conv)
  qed
qed

lemma comp_words_lt: "unat (of_nat (length (comp_words f c)) :: u32) = length (comp_words f c)"
    "(of_nat (length (comp_words f c) + k) :: u32) - of_nat (length (comp_words f c)) = of_nat k"
  if "length (comp_words f c) < 2 ^ 32"
  using that by (simp_all only: unat_of_nat_32 of_nat_add) simp

lemma composite_loop_step:
  assumes c: "comp_ok after c" and s: "src_has off (comp_words f c) m" and r: "room (off + length (comp_words f c)) m"
    and l: "length (comp_words f c) + k < 2 ^ 32" "length (comp_words f c) \<le> fuel" and again: "again \<longrightarrow> sm_dst m \<noteq> None"
  shows "swap_composite_loop (Suc fuel) after f again off (of_nat (length (comp_words f c) + k)) m =
    swap_composite_loop fuel after f True (off + length (comp_words f c)) (of_nat k) (put off (comp_words (\<not> f) c) m)"
proof -
  have pos: "(of_nat (length (comp_words f c) + k) :: u32) > 0"
  proof -
    have "0 < length (comp_words f c)" by simp
    then show ?thesis using l(1) by (simp add: word_less_nat_alt unat_of_nat_32 del: of_nat_add length_comp_words length_greater_0_conv)
  qed
  have e: "swap_composite_elem fuel after f off m =
      Some (S_SUCCESS, put off (comp_words (\<not> f) c) m, of_nat (length (comp_words f c)))"
    by (rule composite_elem_block [OF c s r]) (use l(2) in simp)
  have d: "(if again \<and> sm_dst m = None then m\<lparr>sm_dst := Some []\<rparr> else m) = m" using again by simp
  note lt = comp_words_lt [of f c, OF add_lessD1 [OF l(1)]]
  show ?thesis unfolding swap_composite_loop.simps if_P [OF pos] d e by (simp only: bind.bind_lunit prod.case lt simp_thms if_False)
qed

lemma composite_loop_copy:
  assumes "\<forall>c\<in>set cs. comp_ok after c" "src_has off (comp_array f cs) m" "room (off + length (comp_array f cs)) m"
    "length (comp_array f cs) < 2 ^ 32" "length (comp_array f cs) < fuel" "sm_dst m \<noteq> None"
  shows "swap_composite_loop fuel after f again off (of_nat (length (comp_array f cs))) m =
    Some (S_SUCCESS, put off (comp_array (\<not> f) cs) m)"
  using assms
proof (induction cs arbitrary: off m fuel again)
  case Nil then show ?case by (cases fuel) simp_all
next
  case (Cons c cs)
  let ?w = "comp_words f c" and ?w' = "comp_words (\<not> f) c" and ?r = "comp_array f cs"
  obtain g where g: "fuel = Suc g" using Cons.prems(5) by (cases fuel) simp_all
  have s: "src_has off ?w m" "src_has (off + length ?w) ?r m" using Cons.prems(2) by (simp_all only: comp_array_simps src_has_append)
  have rm: "room (off + length ?w) m" using Cons.prems(3) by (auto elim: room_mono)
  have "swap_composite_loop fuel after f again off (of_nat (length (comp_array f (c # cs)))) m =
      swap_composite_loop g after f True (off + length ?w) (of_nat (length ?r)) (put off ?w' m)"
    using composite_loop_step [OF _ s(1) rm, of after "length ?r" g again] Cons.prems unfolding g
    by (simp add: del: of_nat_add of_nat_Suc)
  also have "\<dots> = Some (S_SUCCESS, put (off + length ?w) (comp_array (\<not> f) cs) (put off ?w' m))"
    by (rule Cons.IH) (use Cons.prems s(2) g in \<open>simp_all add: add.assoc\<close>)
  also have "\<dots> = Some (S_SUCCESS, put off (comp_array (\<not> f) (c # cs)) m)" by (simp add: put_append)
  finally show ?case .
qed

lemma composite_loop_in_place:
  assumes "\<forall>c\<in>set cs. comp_ok after c" "src_has off (comp_array f cs) m" "length (comp_array f cs) < 2 ^ 32"
    "length (comp_array f cs) < fuel" "sm_dst m = None"
  shows "swap_composite_loop fuel after f False off (of_nat (length (comp_array f cs))) m =
    (if length cs \<le> 1 then Some (S_SUCCESS, put off (comp_array (\<not> f) cs) m) else None)"
proof (cases cs)
  case Nil then show ?thesis using assms(4) by (cases fuel) simp_all
next
  case (Cons c ds)
  let ?w = "comp_words f c" and ?w' = "comp_words (\<not> f) c" and ?r = "comp_array f ds"
  obtain g where g: "fuel = Suc g" using assms(4) by (cases fuel) simp_all
  have s: "src_has off ?w m" using assms(2) unfolding Cons by (simp only: comp_array_simps src_has_append)
  then have rm: "room (off + length ?w) m" by (simp add: src_has_def room_def out_in_place assms(5) at_def)
  have step: "swap_composite_loop fuel after f False off (of_nat (length (comp_array f cs))) m =
      swap_composite_loop g after f True (off + length ?w) (of_nat (length ?r)) (put off ?w' m)"
    using composite_loop_step [OF _ s rm, of after "length ?r" g False] assms(1,3,4) unfolding g Cons
    by (simp add: del: of_nat_add of_nat_Suc)
  obtain h where h: "g = Suc h" using assms(4) unfolding g Cons by (cases g) simp_all
  show ?thesis
  proof (cases ds)
    case Nil then show ?thesis unfolding step h using Cons by simp
  next
    case (Cons d es)
    have "(of_nat (length ?r) :: u32) > 0"
      using assms(3) unfolding \<open>cs = c # ds\<close> Cons by (simp add: word_less_nat_alt unat_of_nat_32 del: of_nat_add of_nat_Suc)
    then have "swap_composite_loop g after f True (off + length ?w) (of_nat (length ?r)) (put off ?w' m) = None"
      unfolding h using assms(5) by (simp add: composite_elem_nowhere del: of_nat_add of_nat_Suc length_comp_words)
    moreover have "\<not> length cs \<le> 1" using \<open>cs = c # ds\<close> Cons by simp
    ultimately show ?thesis using step by (simp only: if_False)
  qed
qed

text \<open>C32: \<^verbatim>\<open>swap_composite_t\<close> turns an array of composite elements in one byte order into the array in the other when
  it copies: in every element the format word, the bank header and the data are swapped and the format string is
  kept, the source and all other words of the destination stay as they are. In place it does the same for an array of one
  element, but with a second element it writes through the \<^verbatim>\<open>NULL\<close> destination it has advanced. This is for formats of one
  32-bit item with any repeat count; \<open>after\<close> is the stack behind the local character of \<^verbatim>\<open>eviofmt\<close>.\<close>

theorem composite_array_swapped:
  assumes "\<forall>c\<in>set cs. comp_ok after c" "length (comp_array f cs) < 2 ^ 32" "length (comp_array f cs) < fuel"
    and "length js = length (comp_array f cs)" "length ds = length as"
  shows "swap_composite_t fuel after f (length as) (of_nat (length (comp_array f cs)))
       \<lparr>sm_src = as @ comp_array f cs @ bs, sm_dst = Some (ds @ js @ es)\<rparr> =
     Some (S_SUCCESS, \<lparr>sm_src = as @ comp_array f cs @ bs, sm_dst = Some (ds @ comp_array (\<not> f) cs @ es)\<rparr>) \<and>
     swap_composite_t fuel after f (length as) (of_nat (length (comp_array f cs))) \<lparr>sm_src = as @ comp_array f cs @ bs, sm_dst = None\<rparr> =
     (if length cs \<le> 1 then Some (S_SUCCESS, \<lparr>sm_src = as @ comp_array (\<not> f) cs @ bs, sm_dst = None\<rparr>) else None)"
proof
  let ?n = "of_nat (length (comp_array f cs))" and ?o = "comp_array (\<not> f) cs"
  let ?m = "\<lparr>sm_src = as @ comp_array f cs @ bs, sm_dst = Some (ds @ js @ es)\<rparr>"
  have l: "length ?o = length (comp_array f cs)" by (rule length_comp_array)
  have "swap_composite_t fuel after f (length as) ?n ?m = Some (S_SUCCESS, put (length as) ?o ?m)"
    unfolding swap_composite_t_def using assms
    by (intro composite_loop_copy) (simp_all add: src_has_def at_middle room_def sm_out_def)
  moreover have "put (length as) ?o ?m = \<lparr>sm_src = as @ comp_array f cs @ bs, sm_dst = Some (ds @ ?o @ es)\<rparr>"
    using ov_middle [of ?o js ds es] l assms(4) unfolding assms(5) [symmetric] by (simp add: put_def sm_out_def set_out_def)
  ultimately show "swap_composite_t fuel after f (length as) ?n ?m =
      Some (S_SUCCESS, \<lparr>sm_src = as @ comp_array f cs @ bs, sm_dst = Some (ds @ ?o @ es)\<rparr>)" by simp
  let ?p = "\<lparr>sm_src = as @ comp_array f cs @ bs, sm_dst = None\<rparr>"
  have "put (length as) ?o ?p = \<lparr>sm_src = as @ ?o @ bs, sm_dst = None\<rparr>"
    using ov_middle [of ?o "comp_array f cs" as bs] l by (simp add: put_def sm_out_def set_out_def)
  then show "swap_composite_t fuel after f (length as) ?n ?p =
      (if length cs \<le> 1 then Some (S_SUCCESS, \<lparr>sm_src = as @ ?o @ bs, sm_dst = None\<rparr>) else None)"
    using composite_loop_in_place [of cs after "length as" f ?p fuel] assms(1-3)
    by (simp add: swap_composite_t_def src_has_def at_middle)
qed

definition comp_sample :: "u32 \<Rightarrow> comp_elem" where
  "comp_sample x = \<lparr>ce_tag = 0x00300000, ce_text = [0x00004932], ce_head = 0x00060001, ce_data = [x, 7]\<rparr>"

theorem composite_array_swapped_witness:
  "swap_composite_t 20 [] False 1 12 \<lparr>sm_src = 9 # comp_array False [comp_sample 5, comp_sample 6] @ [8], sm_dst = Some (1 # replicate 12 0 @ [2])\<rparr> =
     Some (S_SUCCESS, \<lparr>sm_src = 9 # comp_array False [comp_sample 5, comp_sample 6] @ [8],
       sm_dst = Some [1, 0x01003000, 0x4932, 0x03000000, 0x01000600, 0x05000000, 0x07000000,
         0x01003000, 0x4932, 0x03000000, 0x01000600, 0x06000000, 0x07000000, 2]\<rparr>) \<and>
   swap_composite_t 20 [] False 1 12 \<lparr>sm_src = 9 # comp_array False [comp_sample 5, comp_sample 6] @ [8], sm_dst = None\<rparr> = None"
proof -
  let ?cs = "[comp_sample 5, comp_sample 6]"
  have "c_string [0x00004932] 0 = Some ''2I''" by code_simp
  moreover have "eviofmt [] ''2I'' 1024 = (1, [word_of_int (16 * 2 + 11)])" by code_simp
  moreover have "kind32 11" by (simp add: kind32_def)
  ultimately have "\<exists>s n k. c_string [0x00004932] 0 = Some s \<and> kind32 k \<and> 1 \<le> n \<and> n \<le> 15 \<and>
      eviofmt [] s 1024 = (1, [word_of_int (16 * n + k)])"
    by (intro exI [of _ "''2I''"] exI [of _ "2 :: int"] exI [of _ "11 :: int"]) simp
  then have ok: "comp_ok [] (comp_sample x)" for x by (simp add: comp_ok_def comp_sample_def)
  have "comp_array True ?cs = [0x01003000, 0x4932, 0x03000000, 0x01000600, 0x05000000, 0x07000000,
      0x01003000, 0x4932, 0x03000000, 0x01000600, 0x06000000, 0x07000000]" by code_simp
  moreover have "length (comp_array False ?cs) = 12" by (simp add: comp_sample_def)
  ultimately show ?thesis
    using composite_array_swapped [of ?cs "[]" False 20 "replicate 12 0" "[1]" "[9]" "[8]" "[2]"] ok by simp
qed

end
