(* ===== verification/EvioSys.thy ===== *)
theory EvioSys
  imports EvioSwap
begin

text \<open>
  The part of the operating system and the C library that \<^verbatim>\<open>evio.c\<close> rests on: allocation, files,
  sockets; and the two loops \<^verbatim>\<open>tcpWrite\<close> and \<^verbatim>\<open>tcpRead\<close> that move a given number of bytes over a socket
  by as many system calls as it takes. All files hold whole 32-bit words.
\<close>

section \<open>Environment, files\<close>

text \<open>
  What the environment decides: which allocations, file creations, reads and writes succeed, the value of
  \<^verbatim>\<open>errno\<close> after a failure, the result of \<^verbatim>\<open>fclose\<close>, the environment variables, what is in memory fresh
  from \<^verbatim>\<open>malloc\<close>, and the bytes of the stack behind the local character of \<^verbatim>\<open>eviofmt\<close>.
\<close>

record env =
  malloc_ok :: "nat \<Rightarrow> bool"
  create_ok :: "string \<Rightarrow> bool"
  read_ok :: "string \<Rightarrow> bool"
  write_ok :: "string \<Rightarrow> bool"
  err_no :: int
  fclose_status :: int
  getenv :: "string \<Rightarrow> string option"
  junk :: "nat \<Rightarrow> u32"
  stack_bytes :: "char list"

definition fresh :: "env \<Rightarrow> nat \<Rightarrow> words" where "fresh e n = map (junk e) [0..<n]"

text \<open>An open stream: its name, its position in words, its end-of-file and error indicators.\<close>

record stream =
  st_name :: string
  st_pos :: nat
  st_eof :: bool
  st_err :: bool

text \<open>
  Files by name; a pipe is the file named by its command line with the bar, standard input and output the
  file named by a dash. Sockets by descriptor: the bytes still to arrive, the bytes sent, and what the next
  \<^verbatim>\<open>read\<close> or \<^verbatim>\<open>write\<close> calls will do (move at most so many bytes, be interrupted, fail); with no
  plan left a call moves as much as it can.
\<close>

datatype sysret = Moves nat | Interrupted | Fails


record world =
  files :: "string \<Rightarrow> words option"
  sock_in :: "int \<Rightarrow> bytes"
  sock_out :: "int \<Rightarrow> bytes"
  sock_plan :: "int \<Rightarrow> sysret list"

definition contents :: "world \<Rightarrow> string \<Rightarrow> words" where
  "contents w f = (case files w f of None \<Rightarrow> [] | Some ws \<Rightarrow> ws)"

definition set_file :: "string \<Rightarrow> words \<Rightarrow> world \<Rightarrow> world" where
  "set_file f ws w = w\<lparr>files := (files w)(f \<mapsto> ws)\<rparr>"

definition fread :: "env \<Rightarrow> nat \<Rightarrow> stream \<Rightarrow> world \<Rightarrow> words \<times> stream" where
  "fread e n s w =
     (if n = 0 then ([], s)
      else if \<not> read_ok e (st_name s) then ([], s\<lparr>st_err := True\<rparr>)
      else
        (let got = take n (drop (st_pos s) (contents w (st_name s)))
         in (got, s\<lparr>st_pos := st_pos s + length got, st_eof := st_eof s \<or> length got < n\<rparr>)))"

text \<open>A write at the position; a gap behind the end of the file is filled with zeros.\<close>

definition splice :: "nat \<Rightarrow> words \<Rightarrow> words \<Rightarrow> words" where
  "splice pos ws c = take pos (c @ replicate (pos - length c) 0) @ ws @ drop (pos + length ws) c"

definition fwrite :: "env \<Rightarrow> words \<Rightarrow> stream \<Rightarrow> world \<Rightarrow> nat \<times> stream \<times> world" where
  "fwrite e ws s w =
     (if write_ok e (st_name s)
      then (length ws, s\<lparr>st_pos := st_pos s + length ws\<rparr>,
            set_file (st_name s) (splice (st_pos s) ws (contents w (st_name s))) w)
      else (0, s\<lparr>st_err := True\<rparr>, w))"

text \<open>\<^verbatim>\<open>clearerr\<close>, \<^verbatim>\<open>fseek\<close> to a place and \<^verbatim>\<open>fseek\<close> by words from the current position; before the start of the file is an error.\<close>

definition clearerr :: "stream \<Rightarrow> stream" where
  "clearerr s = s\<lparr>st_eof := False, st_err := False\<rparr>"

definition fseek_set :: "nat \<Rightarrow> stream \<Rightarrow> stream" where
  "fseek_set p s = s\<lparr>st_pos := p, st_eof := False\<rparr>"

definition fseek_cur :: "int \<Rightarrow> stream \<Rightarrow> stream option" where
  "fseek_cur d s = (if int (st_pos s) + d < 0 then None
                    else Some (s\<lparr>st_pos := nat (int (st_pos s) + d), st_eof := False\<rparr>))"

definition fopen_read :: "string \<Rightarrow> world \<Rightarrow> stream option" where
  "fopen_read f w = (case files w f of None \<Rightarrow> None
                     | Some _ \<Rightarrow> Some \<lparr>st_name = f, st_pos = 0, st_eof = False, st_err = False\<rparr>)"

definition fopen_write :: "env \<Rightarrow> string \<Rightarrow> world \<Rightarrow> (stream \<times> world) option" where
  "fopen_write e f w =
     (if create_ok e f then Some (\<lparr>st_name = f, st_pos = 0, st_eof = False, st_err = False\<rparr>, set_file f [] w) else None)"

text \<open>\<^verbatim>\<open>popen\<close> gives a pipe from or to a command; standard input is read from its start, standard output is written
  at its end.\<close>

definition popen_read :: "env \<Rightarrow> string \<Rightarrow> stream option" where
  "popen_read e f = (if create_ok e f then Some \<lparr>st_name = f, st_pos = 0, st_eof = False, st_err = False\<rparr> else None)"

definition c_stdin :: stream where
  "c_stdin = \<lparr>st_name = ''-'', st_pos = 0, st_eof = False, st_err = False\<rparr>"

definition c_stdout :: "world \<Rightarrow> stream" where
  "c_stdout w = \<lparr>st_name = ''-'', st_pos = length (contents w ''-''), st_eof = False, st_err = False\<rparr>"

text \<open>\<^verbatim>\<open>fileExists\<close> opens the file for reading and closes it.\<close>

definition fileExists :: "world \<Rightarrow> string \<Rightarrow> bool" where
  "fileExists w f \<longleftrightarrow> fopen_read f w \<noteq> None"

section \<open>Sockets\<close>

text \<open>
  \<^verbatim>\<open>tcpWrite\<close>: an interrupted call is repeated, any other result that is not positive is returned. The
  result is the return value, the bytes that went out and the calls left.
\<close>

fun write_loop :: "sysret list \<Rightarrow> bytes \<Rightarrow> bool \<times> int \<times> bytes \<times> sysret list" where
  "write_loop [] data = (True, 0, data, [])"
| "write_loop (r # plan) data =
     (if data = [] then (True, 0, [], r # plan)
      else (case r of
          Interrupted \<Rightarrow> write_loop plan data
        | Fails \<Rightarrow> (False, -1, [], plan)
        | Moves k \<Rightarrow>
            (if k = 0 then (False, 0, [], plan)
             else (case write_loop plan (drop k data) of (ok, res, out, p) \<Rightarrow> (ok, res, take k data @ out, p)))))"

definition tcpWrite :: "int \<Rightarrow> bytes \<Rightarrow> world \<Rightarrow> int \<times> world" where
  "tcpWrite fd data w =
     (case write_loop (sock_plan w fd) data of (ok, res, out, plan) \<Rightarrow>
        (if ok then int (length data) else res,
         w\<lparr>sock_out := (sock_out w)(fd := sock_out w fd @ out), sock_plan := (sock_plan w)(fd := plan)\<rparr>))"

text \<open>
  \<^verbatim>\<open>tcpRead\<close>: a call that returns 0 is the end of the data. The result is whether no call failed, the bytes
  read, the bytes still to arrive and the calls left.
\<close>

fun read_loop :: "sysret list \<Rightarrow> nat \<Rightarrow> bytes \<Rightarrow> bool \<times> bytes \<times> bytes \<times> sysret list" where
  "read_loop [] n av = (True, take n av, drop n av, [])"
| "read_loop (r # plan) n av =
     (if n = 0 then (True, [], av, r # plan)
      else (case r of
          Interrupted \<Rightarrow> read_loop plan n av
        | Fails \<Rightarrow> (False, [], av, plan)
        | Moves k \<Rightarrow>
            (let j = min (min k n) (length av) in
             if j = 0 then (True, [], av, plan)
             else (case read_loop plan (n - j) (drop j av) of (ok, got, av', p) \<Rightarrow> (ok, take j av @ got, av', p)))))"

definition tcpRead :: "int \<Rightarrow> nat \<Rightarrow> world \<Rightarrow> int \<times> bytes \<times> world" where
  "tcpRead fd n w =
     (case read_loop (sock_plan w fd) n (sock_in w fd) of (ok, got, av, plan) \<Rightarrow>
        (if ok then int (length got) else -1, got,
         w\<lparr>sock_in := (sock_in w)(fd := av), sock_plan := (sock_plan w)(fd := plan)\<rparr>))"

text \<open>A plan that only splits and interrupts the transfer.\<close>

definition keeps_moving :: "sysret list \<Rightarrow> bool" where
  "keeps_moving plan \<longleftrightarrow> Fails \<notin> set plan \<and> Moves 0 \<notin> set plan"

lemma write_loop_all:
  "keeps_moving plan \<Longrightarrow> \<exists>plan'. write_loop plan data = (True, 0, data, plan') \<and> keeps_moving plan'"
proof (induction plan data rule: write_loop.induct)
  case (2 r plan data)
  then have k: "keeps_moving plan" by (simp add: keeps_moving_def)
  show ?case
  proof (cases "data = []")
    case False
    then show ?thesis using 2 k by (cases r) (auto simp: keeps_moving_def)
  qed (use "2.prems" in simp)
qed (simp add: keeps_moving_def)

lemma read_loop_all:
  "keeps_moving plan \<Longrightarrow> n \<le> length av \<Longrightarrow>
   \<exists>plan'. read_loop plan n av = (True, take n av, drop n av, plan') \<and> keeps_moving plan'"
proof (induction plan n av rule: read_loop.induct)
  case (2 r plan n av)
  then have k: "keeps_moving plan" by (simp add: keeps_moving_def)
  show ?case
  proof (cases "n = 0")
    case False
    show ?thesis
    proof (cases r)
      case (Moves j)
      then have j: "j \<noteq> 0" using "2.prems"(1) by (auto simp: keeps_moving_def)
      let ?j = "min (min j n) (length av)"
      have pos: "?j \<noteq> 0" using j False "2.prems"(2) by simp
      have fits: "n - ?j \<le> length (drop ?j av)" using "2.prems"(2) by simp
      obtain plan' where p: "read_loop plan (n - ?j) (drop ?j av) = (True, take (n - ?j) (drop ?j av), drop (n - ?j) (drop ?j av), plan')"
        "keeps_moving plan'"
        using "2.IH"(1) [OF False Moves refl pos k fits] by blast
      have "take ?j av @ take (n - ?j) (drop ?j av) = take n av"
        using take_add [of ?j "n - ?j" av] "2.prems"(2) by simp
      then show ?thesis using Moves False pos p "2.prems"(2) by (auto simp: Let_def)
    qed (use 2 False k in \<open>simp_all add: keeps_moving_def\<close>)
  qed (use "2.prems" in simp)
qed (simp add: keeps_moving_def)

section \<open>Properties\<close>

text \<open>However the system splits or interrupts the calls, \<^verbatim>\<open>tcpWrite\<close> sends exactly the bytes it was
  given, in order, and returns their number.\<close>
theorem tcpWrite_sends_all:
  assumes "keeps_moving (sock_plan w fd)"
  shows "\<exists>w'. tcpWrite fd data w = (int (length data), w') \<and> sock_out w' fd = sock_out w fd @ data \<and>
           files w' = files w \<and> sock_in w' = sock_in w \<and> keeps_moving (sock_plan w' fd)"
proof -
  obtain plan' where "write_loop (sock_plan w fd) data = (True, 0, data, plan')" "keeps_moving plan'"
    using write_loop_all [OF assms] by blast
  then show ?thesis by (simp add: tcpWrite_def)
qed

text \<open>C16: However the system splits or interrupts the calls, \<^verbatim>\<open>tcpRead\<close> returns exactly the number of bytes
  asked for when that many arrive, and they are the next bytes of the stream.\<close>
theorem tcpRead_gets_all:
  assumes "keeps_moving (sock_plan w fd)" and "n \<le> length (sock_in w fd)"
  shows "\<exists>w'. tcpRead fd n w = (int n, take n (sock_in w fd), w') \<and> sock_in w' fd = drop n (sock_in w fd) \<and>
           files w' = files w \<and> sock_out w' = sock_out w \<and> keeps_moving (sock_plan w' fd)"
proof -
  obtain plan' where "read_loop (sock_plan w fd) n (sock_in w fd) =
      (True, take n (sock_in w fd), drop n (sock_in w fd), plan')" "keeps_moving plan'"
    using read_loop_all [OF assms] by blast
  then show ?thesis using assms(2) by (simp add: tcpRead_def)
qed

definition busy_world :: world where
  "busy_world = \<lparr>files = (\<lambda>_. None), sock_in = (\<lambda>_. [1, 2, 3, 4, 5]), sock_out = (\<lambda>_. [9]),
     sock_plan = (\<lambda>_. [Moves 2, Interrupted, Moves 1])\<rparr>"

theorem tcpWrite_sends_all_witness:
  "\<exists>w'. tcpWrite 3 [1, 2, 3, 4] busy_world = (4, w') \<and> sock_out w' 3 = [9, 1, 2, 3, 4]"
proof -
  have "keeps_moving (sock_plan busy_world 3)" by (simp add: keeps_moving_def busy_world_def)
  from tcpWrite_sends_all [OF this, of "[1, 2, 3, 4]"] show ?thesis by (auto simp: busy_world_def)
qed

theorem tcpRead_gets_all_witness:
  "\<exists>w'. tcpRead 3 4 busy_world = (4, [1, 2, 3, 4], w') \<and> sock_in w' 3 = [5]"
proof -
  have "keeps_moving (sock_plan busy_world 3)" "4 \<le> length (sock_in busy_world 3)"
    by (simp_all add: keeps_moving_def busy_world_def)
  from tcpRead_gets_all [OF this] show ?thesis by (auto simp: busy_world_def)
qed

end
