(* ===== verification/EvioStrings.thy ===== *)
theory EvioStrings
  imports EvioSys "HOL-Library.Sublist"
begin

text \<open>
  The string routines of \<^verbatim>\<open>evio.c\<close>: trimming, substitution, the specifiers of file names, and the evio
  format for arrays of strings.

  A C string is the list of its characters without the final NUL; \<open>None\<close> inside a result is the
  \<^verbatim>\<open>NULL\<close> pointer, while an outer \<open>None\<close> is the outcome without a meaning (a buffer overrun, a
  \<^verbatim>\<open>NULL\<close> dereference) or a loop that does not end. Loops whose end is not evident are
  \<open>partial_function (option)\<close>, so that their ending is something to prove.
\<close>

section \<open>Characters and substrings\<close>

definition code :: "char \<Rightarrow> nat" where "code c = of_char c"

definition isspace :: "char \<Rightarrow> bool" where "isspace c \<longleftrightarrow> code c = 32 \<or> 9 \<le> code c \<and> code c \<le> 13"
definition isprint :: "char \<Rightarrow> bool" where "isprint c \<longleftrightarrow> 32 \<le> code c \<and> code c \<le> 126"
definition isdigit :: "char \<Rightarrow> bool" where "isdigit c \<longleftrightarrow> 48 \<le> code c \<and> code c \<le> 57"

definition NUL :: char where "NUL = CHR 0x00"

text \<open>\<^verbatim>\<open>strstr\<close>: the position of the first occurrence.\<close>

fun strstr :: "string \<Rightarrow> string \<Rightarrow> nat option" where
  "strstr [] pat = (if pat = [] then Some 0 else None)"
| "strstr (c # cs) pat = (if prefix pat (c # cs) then Some 0 else map_option Suc (strstr cs pat))"

definition strdup :: "env \<Rightarrow> string \<Rightarrow> string option" where
  "strdup e s = (if malloc_ok e (length s + 1) then Some s else None)"

section \<open>evTrim\<close>

text \<open>
  \<open>mem\<close> is the memory from the pointer on. Characters are dropped from both ends of the string behind the
  \<open>skip\<close> bytes while they are white space or not printable. \<open>NULL\<close> when nothing is left.
\<close>

definition trims :: "char \<Rightarrow> bool" where "trims c \<longleftrightarrow> isspace c \<or> \<not> isprint c"

definition evTrim :: "char list option \<Rightarrow> int \<Rightarrow> string option option" where
  "evTrim mem skip =
     (case mem of None \<Rightarrow> Some None
      | Some m \<Rightarrow>
          (let skip = nat (max skip 0) in
           if NUL \<notin> set (drop skip m) then None
           else
             (let s = takeWhile (\<lambda>c. c \<noteq> NUL) (drop skip m) in
              if length s < 1 then Some None
              else
                (let front = dropWhile trims s in
                 if front = [] then Some None
                 else Some (Some (rev (dropWhile trims (rev front))))))))"

section \<open>evStrReplace\<close>

partial_function (option) count_loop :: "string \<Rightarrow> string \<Rightarrow> nat \<Rightarrow> nat option" where
  "count_loop pat ins n =
     (case strstr ins pat of
        None \<Rightarrow> Some n
      | Some i \<Rightarrow> count_loop pat (drop (i + length pat) ins) (n + 1))"

fun replace_loop :: "string \<Rightarrow> string \<Rightarrow> nat \<Rightarrow> string \<Rightarrow> string option" where
  "replace_loop pat w 0 orig = Some orig"
| "replace_loop pat w (Suc n) orig =
     (case strstr orig pat of
        None \<Rightarrow> None
      | Some i \<Rightarrow> map_option (\<lambda>r. take i orig @ w @ r) (replace_loop pat w n (drop (i + length pat) orig)))"

definition the_str :: "string option \<Rightarrow> string" where "the_str s = (case s of None \<Rightarrow> [] | Some x \<Rightarrow> x)"

text \<open>
  The result is written into a block of \<^verbatim>\<open>strlen(orig) + (len_with - len_rep) * count + 1\<close> bytes,
  computed with the wrap-around of \<^verbatim>\<open>size_t\<close>.
\<close>

definition evStrReplace :: "env \<Rightarrow> string option \<Rightarrow> string option \<Rightarrow> string option \<Rightarrow> string option option" where
  "evStrReplace e orig replace with =
     (case orig of None \<Rightarrow> Some None
      | Some s \<Rightarrow> do {
          let pat = the_str replace;
          let w = the_str with;
          n \<leftarrow> count_loop pat s 0;
          let size = unat (of_nat (length s) + (of_nat (length w) - of_nat (length pat)) * of_nat n + 1 :: u64);
          if \<not> malloc_ok e size then Some None
          else do {
            r \<leftarrow> replace_loop pat w n s;
            if length r + 1 \<le> size then Some (Some r) else None
          }
        })"

section \<open>evStrReplaceEnvVar\<close>

partial_function (option) env_loop :: "env \<Rightarrow> string \<Rightarrow> string option option" where
  "env_loop e s =
     (case strstr s ''$('' of
        None \<Rightarrow> Some (Some s)
      | Some i \<Rightarrow>
          (case strstr (drop i s) '')'' of
             None \<Rightarrow> Some (Some s)
           | Some j \<Rightarrow>
               (let len = j - 2; envVar = take len (drop (i + 2) s) in
                if \<not> malloc_ok e (len + 1) then Some None
                else if len + 4 > 256 then None
                else do {
                  r \<leftarrow> evStrReplace e (Some s) (Some (''$('' @ envVar @ '')'')) (getenv e envVar);
                  (case r of None \<Rightarrow> None | Some s' \<Rightarrow> env_loop e s')
                })))"

definition evStrReplaceEnvVar :: "env \<Rightarrow> string option \<Rightarrow> string option option" where
  "evStrReplaceEnvVar e orig =
     (case orig of None \<Rightarrow> Some None
      | Some s \<Rightarrow> (case strdup e s of None \<Rightarrow> Some None | Some r \<Rightarrow> env_loop e r))"

text \<open>The reference: replace every occurrence, leftmost first, without looking into what was put in.\<close>

fun subst_all :: "string \<Rightarrow> string \<Rightarrow> string \<Rightarrow> string" where
  "subst_all p w [] = []"
| "subst_all p w (c # cs) =
     (if prefix p (c # cs) then w @ subst_all p w (drop (length p - 1) cs) else c # subst_all p w cs)"

fun occurrences :: "string \<Rightarrow> string \<Rightarrow> nat" where
  "occurrences p [] = 0"
| "occurrences p (c # cs) =
     (if prefix p (c # cs) then 1 + occurrences p (drop (length p - 1) cs) else occurrences p cs)"

lemma strstr_Some: "strstr s p = Some i \<Longrightarrow> i + length p \<le> length s \<and> prefix p (drop i s)"
proof (induction s p arbitrary: i rule: strstr.induct)
  case (2 c cs pat) then show ?case by (auto split: if_splits dest: prefix_length_le)
qed (auto split: if_splits)

lemma subst_all_None: "p \<noteq> [] \<Longrightarrow> strstr s p = None \<Longrightarrow> subst_all p w s = s"
  by (induction s p rule: strstr.induct) (auto split: if_splits)

lemma occurrences_None: "p \<noteq> [] \<Longrightarrow> strstr s p = None \<Longrightarrow> occurrences p s = 0"
  by (induction s p rule: strstr.induct) (auto split: if_splits)

lemma drop_pattern: "p \<noteq> [] \<Longrightarrow> drop (length p - 1) cs = drop (length p) (c # cs)"
  by (cases p) simp_all

lemma subst_all_Some:
  "p \<noteq> [] \<Longrightarrow> strstr s p = Some i \<Longrightarrow>
   subst_all p w s = take i s @ w @ subst_all p w (drop (i + length p) s) \<and>
   occurrences p s = Suc (occurrences p (drop (i + length p) s))"
proof (induction s p arbitrary: i rule: strstr.induct)
  case (2 c cs pat)
  show ?case
  proof (cases "prefix pat (c # cs)")
    case True then show ?thesis using 2 drop_pattern [of pat cs c] by simp
  next
    case False then show ?thesis using 2 by auto
  qed
qed simp

lemma count_loop_occurrences: "p \<noteq> [] \<Longrightarrow> count_loop p s n = Some (n + occurrences p s)"
proof (induction s arbitrary: n rule: measure_induct_rule [where f = length])
  case (less s)
  show ?case
  proof (cases "strstr s p")
    case None then show ?thesis using less.prems by (subst count_loop.simps) (simp add: occurrences_None)
  next
    case (Some i)
    have "length (drop (i + length p) s) < length s"
      using strstr_Some [OF Some] less.prems by (cases p) auto
    then have "count_loop p (drop (i + length p) s) (n + 1) = Some (n + 1 + occurrences p (drop (i + length p) s))"
      using less by blast
    then show ?thesis using Some subst_all_Some [OF less.prems Some] by (subst count_loop.simps) simp
  qed
qed

lemma replace_loop_subst: "p \<noteq> [] \<Longrightarrow> replace_loop p w (occurrences p s) s = Some (subst_all p w s)"
proof (induction s rule: measure_induct_rule [where f = length])
  case (less s)
  show ?case
  proof (cases "strstr s p")
    case None then show ?thesis using less.prems by (simp add: occurrences_None subst_all_None)
  next
    case (Some i)
    have "length (drop (i + length p) s) < length s"
      using strstr_Some [OF Some] less.prems by (cases p) auto
    then show ?thesis using less Some subst_all_Some [OF less.prems Some, of w] by simp
  qed
qed

lemma subst_all_length: "p \<noteq> [] \<Longrightarrow> length (subst_all p w s) + length p * occurrences p s = length s + length w * occurrences p s"
proof (induction s rule: measure_induct_rule [where f = length])
  case (less s)
  show ?case
  proof (cases "strstr s p")
    case None then show ?thesis using less.prems by (simp add: occurrences_None subst_all_None)
  next
    case (Some i)
    have "length (drop (i + length p) s) < length s" "i + length p \<le> length s"
      using strstr_Some [OF Some] less.prems by (cases p; auto)+
    then show ?thesis using less.IH [of "drop (i + length p) s"] less.prems subst_all_Some [OF less.prems Some, of w]
      by simp
  qed
qed

text \<open>The size computed for the result is exactly what it needs, although the difference may wrap.\<close>

lemma replace_size:
  assumes "p \<noteq> []" and "length (subst_all p w s) < 2 ^ 64 - 1"
  shows "unat (of_nat (length s) + (of_nat (length w) - of_nat (length p)) * of_nat (occurrences p s) + 1 :: u64) =
         length (subst_all p w s) + 1"
proof -
  let ?n = "occurrences p s"
  have "(of_nat (length (subst_all p w s) + length p * ?n) :: u64) = of_nat (length s + length w * ?n)"
    using subst_all_length [OF assms(1)] by simp
  then have "of_nat (length s) + (of_nat (length w) - of_nat (length p)) * of_nat ?n + 1 =
      (of_nat (length (subst_all p w s) + 1) :: u64)"
    by (simp add: algebra_simps)
  moreover have "unat (of_nat (length (subst_all p w s) + 1) :: u64) = length (subst_all p w s) + 1"
    using assms(2) by (simp add: unat_of_nat del: of_nat_add of_nat_Suc)
  ultimately show ?thesis by (simp only:)
qed

lemma evStrReplace_value:
  assumes "p \<noteq> []" and "length (subst_all p (the_str w) s) < 2 ^ 64 - 1" and "\<And>n. malloc_ok e n"
  shows "evStrReplace e (Some s) (Some p) w = Some (Some (subst_all p (the_str w) s))"
  using assms replace_size [OF assms(1,2)]
  by (simp add: evStrReplace_def the_str_def [of "Some p"] count_loop_occurrences replace_loop_subst)

text \<open>\<^verbatim>\<open>evStrReplace\<close> returns the string with every occurrence of the pattern replaced, and the block it
  allocates is exactly as long as the result and its NUL, although its size is computed with unsigned
  differences.\<close>
theorem evStrReplace_replaces_all:
  assumes "p \<noteq> []" and "length (subst_all p (the_str w) s) < 2 ^ 64 - 1"
    and "malloc_ok e (length (subst_all p (the_str w) s) + 1)"
  shows "evStrReplace e (Some s) (Some p) w = Some (Some (subst_all p (the_str w) s))"
  using assms replace_size [OF assms(1,2)]
  by (simp add: evStrReplace_def the_str_def [of "Some p"] count_loop_occurrences replace_loop_subst)

definition easy_env :: env where
  "easy_env = \<lparr>malloc_ok = (\<lambda>_. True), create_ok = (\<lambda>_. True), read_ok = (\<lambda>_. True), write_ok = (\<lambda>_. True), err_no = 5,
     fclose_status = 0, getenv = (\<lambda>v. if v = ''RUN'' then Some ''r%d'' else if v = ''X'' then Some ''$(X)'' else None),
     junk = (\<lambda>_. 0xdeadbeef), stack_bytes = [NUL]\<rparr>"

theorem evStrReplace_replaces_all_witness:
  "evStrReplace easy_env (Some ''a%s-%s'') (Some ''%s'') (Some ''x'') = Some (Some ''ax-x'')"
  using evStrReplace_replaces_all [of "''%s''" "Some ''x''" "''a%s-%s''" easy_env]
  by (simp add: the_str_def easy_env_def)

text \<open>With a \<^verbatim>\<open>NULL\<close> or empty pattern, which the routine takes care to accept, it never returns.\<close>
theorem evStrReplace_empty_pattern_loops:
  "evStrReplace e (Some s) None w = None \<and> evStrReplace e (Some s) (Some []) w = None"
proof -
  have "count_loop p ins n = Some k \<Longrightarrow> p \<noteq> []" for p ins n k
  proof (rule count_loop.raw_induct [where P = "\<lambda>p ins n k. p \<noteq> []"])
    fix f :: "string \<Rightarrow> string \<Rightarrow> nat \<Rightarrow> nat option" and p ins n k
    assume IH: "\<And>p ins n k. f p ins n = Some k \<Longrightarrow> p \<noteq> []"
      and st: "(case strstr ins p of None \<Rightarrow> Some n | Some i \<Rightarrow> f p (drop (i + length p) ins) (n + 1)) = Some k"
    show "p \<noteq> []"
    proof
      assume p: "p = []"
      have "strstr ins [] = Some 0" by (cases ins) simp_all
      then show False using IH st p by force
    qed
  qed
  then have "count_loop [] s 0 = None" by (metis not_None_eq)
  then show ?thesis by (simp add: evStrReplace_def the_str_def)
qed

section \<open>Environment variables\<close>

definition dollars :: "string \<Rightarrow> nat" where "dollars s = count_list s CHR ''$''"

text \<open>No reference \<^verbatim>\<open>$(...)\<close> is left: there is no opening, or the first one has no closing parenthesis.\<close>

definition no_reference :: "string \<Rightarrow> bool" where
  "no_reference s \<longleftrightarrow> (case strstr s ''$('' of None \<Rightarrow> True | Some i \<Rightarrow> strstr (drop i s) '')'' = None)"

lemma dollars_append [simp]: "dollars (xs @ ys) = dollars xs + dollars ys"
  by (simp add: dollars_def)

lemma dollars_take_drop: "dollars (take i s) + dollars (drop i s) = dollars s"
  by (metis append_take_drop_id dollars_append)

lemma subst_all_dollars:
  "p \<noteq> [] \<Longrightarrow> dollars (subst_all p w s) + dollars p * occurrences p s = dollars s + dollars w * occurrences p s"
proof (induction s rule: measure_induct_rule [where f = length])
  case (less s)
  show ?case
  proof (cases "strstr s p")
    case None then show ?thesis using less.prems by (simp add: occurrences_None subst_all_None)
  next
    case (Some i)
    have st: "length (drop (i + length p) s) < length s" "prefix p (drop i s)"
      using strstr_Some [OF Some] less.prems by (cases p; auto)+
    then obtain r where r: "drop i s = p @ r" by (auto simp: prefix_def)
    then have "drop (i + length p) s = r" by (metis add.commute append_eq_conv_conj drop_drop)
    moreover have "dollars s = dollars (take i s) + dollars p + dollars r"
      using dollars_take_drop [of i s] r by simp
    ultimately show ?thesis
      using less.IH [OF st(1) less.prems] subst_all_Some [OF less.prems Some, of w] by (simp add: algebra_simps)
  qed
qed

lemma strstr_prefix_None: "strstr s p = None \<Longrightarrow> \<not> prefix p (drop i s) \<or> p = [] \<or> length s \<le> i"
proof (induction s p arbitrary: i rule: strstr.induct)
  case (2 c cs pat) then show ?case by (cases i) (auto split: if_splits)
qed auto

lemma occurrences_pos: "p \<noteq> [] \<Longrightarrow> prefix p (drop i s) \<Longrightarrow> 0 < occurrences p s"
proof (cases "strstr s p")
  case None
  assume "p \<noteq> []" "prefix p (drop i s)"
  then show ?thesis using strstr_prefix_None [OF None, of i] by (auto dest: prefix_length_le)
next
  case (Some j)
  assume "p \<noteq> []" then show ?thesis using subst_all_Some [OF _ Some] by auto
qed

lemma env_loop_ends:
  assumes env: "\<And>v x. getenv e v = Some x \<Longrightarrow> CHR ''$'' \<notin> set x \<and> length x \<le> V" and m: "\<And>n. malloc_ok e n"
  shows "length s + V * dollars s \<le> 250 \<Longrightarrow> \<exists>r. env_loop e s = Some (Some r) \<and> no_reference r"
proof (induction s rule: measure_induct_rule [where f = dollars])
  case (less s)
  show ?case
  proof (cases "strstr s ''$(''")
    case None then show ?thesis by (subst env_loop.simps) (simp add: no_reference_def)
  next
    case (Some i)
    note i = Some
    show ?thesis
    proof (cases "strstr (drop i s) '')''")
      case None then show ?thesis using i by (subst env_loop.simps) (simp add: no_reference_def)
    next
      case (Some j)
      obtain r where r: "drop i s = ''$('' @ r" using strstr_Some [OF i] by (auto simp: prefix_def)
      have j: "j \<le> length (drop i s)" "prefix '')'' (drop j (drop i s))" using strstr_Some [OF Some] by auto
      have "2 \<le> j" using Some r by (auto simp: prefix_def split: if_splits)
      define name where "name = take (j - 2) (drop (i + 2) s)"
      let ?p = "''$('' @ name @ '')''" and ?w = "the_str (getenv e name)"
      obtain r' where r': "drop j (drop i s) = '')'' @ r'" using j(2) by (auto simp: prefix_def)
      have "drop (i + 2) s = r" using r by (metis add.commute append_eq_conv_conj drop_drop length_Cons list.size(3) numeral_2_eq_2)
      then have name: "name = take (j - 2) r" by (simp add: name_def)
      have "drop (j - 2) r = drop j (drop i s)" using r \<open>2 \<le> j\<close> by (simp add: drop_Cons' numeral_2_eq_2)
      then have "r = name @ '')'' @ r'" using r' name by (metis append_take_drop_id)
      then have pre: "prefix ?p (drop i s)" using r by simp
      have w: "CHR ''$'' \<notin> set ?w" "length ?w \<le> V"
        using env by (auto simp: the_str_def split: option.splits)
      then have "dollars ?w = 0" by (simp add: dollars_def)
      have occ: "0 < occurrences ?p s" using occurrences_pos [OF _ pre] by simp
      let ?s' = "subst_all ?p ?w s"
      have d: "dollars ?s' + dollars ?p * occurrences ?p s = dollars s"
        using subst_all_dollars [of ?p ?w s] \<open>dollars ?w = 0\<close> by simp
      have p1: "1 \<le> dollars ?p" by (simp add: dollars_def)
      then have o: "dollars ?s' + occurrences ?p s \<le> dollars s"
        using d by (metis add_le_cancel_left mult_le_mono1 nat_mult_1)
      have "length ?s' \<le> length s + V * occurrences ?p s"
      proof -
        have "length ?s' + length ?p * occurrences ?p s = length s + length ?w * occurrences ?p s"
          by (rule subst_all_length) simp
        then show ?thesis using mult_le_mono1 [OF w(2), of "occurrences ?p s"] by linarith
      qed
      moreover have "V * dollars ?s' + V * occurrences ?p s \<le> V * dollars s"
        using mult_le_mono2 [OF o, of V] by (simp add: distrib_left)
      ultimately have len: "length ?s' + V * dollars ?s' \<le> 250" using less.prems by linarith
      have "evStrReplace e (Some s) (Some ?p) (getenv e name) = Some (Some ?s')"
        using len m by (intro evStrReplace_value) auto
      moreover have "\<not> 256 < j - 2 + 4" using j(1) less.prems by simp
      ultimately have "env_loop e s = env_loop e ?s'"
        using i Some m by (subst env_loop.simps) (simp add: Let_def name_def)
      moreover have "dollars ?s' < dollars s" using o occ by linarith
      ultimately show ?thesis using less.IH len by simp
    qed
  qed
qed

text \<open>
  A name as its author writes it: characters and references. Nothing but a reference has a dollar sign, and the
  values have none, so that no reference comes up in the course of the replacement.
\<close>

datatype name_part = Chars string | Ref string

fun part_text :: "name_part \<Rightarrow> string" where
  "part_text (Chars t) = t"
| "part_text (Ref x) = ''$('' @ x @ '')''"

fun part_value :: "env \<Rightarrow> name_part \<Rightarrow> string" where
  "part_value e (Chars t) = t"
| "part_value e (Ref x) = the_str (getenv e x)"

fun part_ok :: "env \<Rightarrow> name_part \<Rightarrow> bool" where
  "part_ok e (Chars t) = (CHR ''$'' \<notin> set t)"
| "part_ok e (Ref x) = (CHR ''$'' \<notin> set x \<and> CHR '')'' \<notin> set x \<and> length x \<le> 252 \<and> CHR ''$'' \<notin> set (the_str (getenv e x)))"

definition spelled :: "name_part list \<Rightarrow> string" where
  "spelled ps = concat (map part_text ps)"

definition expanded :: "env \<Rightarrow> name_part list \<Rightarrow> string" where
  "expanded e ps = concat (map (part_value e) ps)"

definition settle :: "env \<Rightarrow> string \<Rightarrow> name_part list \<Rightarrow> name_part list" where
  "settle e x ps = map (\<lambda>p. if p = Ref x then Chars (the_str (getenv e x)) else p) ps"

lemma spelled_simps [simp]: "spelled [] = []" "spelled (p # ps) = part_text p @ spelled ps"
  by (simp_all add: spelled_def)

lemma expanded_simps [simp]: "expanded e [] = []" "expanded e (p # ps) = part_value e p @ expanded e ps"
  by (simp_all add: expanded_def)

lemma settle_simps [simp]:
  "settle e x [] = []" "settle e x (Chars t # ps) = Chars t # settle e x ps"
  "settle e x (Ref y # ps) = (if y = x then Chars (the_str (getenv e x)) else Ref y) # settle e x ps"
  by (simp_all add: settle_def)

lemma strstr_skip: "CHR ''$'' \<notin> set t \<Longrightarrow> strstr (t @ s) ''$('' = map_option ((+) (length t)) (strstr s ''$('')"
  by (induction t) (cases "strstr s ''$(''"; auto)+

lemma strstr_closing: "CHR '')'' \<notin> set x \<Longrightarrow> strstr (x @ CHR '')'' # s) '')'' = Some (length x)"
  by (induction x) simp_all

lemma subst_all_skip: "CHR ''$'' \<notin> set t \<Longrightarrow> subst_all (CHR ''$'' # q) w (t @ s) = t @ subst_all (CHR ''$'' # q) w s"
  by (induction t) simp_all

lemma same_reference:
  "CHR '')'' \<notin> set x \<Longrightarrow> CHR '')'' \<notin> set y \<Longrightarrow> prefix (x @ '')'') (y @ CHR '')'' # s) \<longleftrightarrow> x = y"
proof (induction x arbitrary: y)
  case Nil then show ?case by (cases y) auto
next
  case (Cons a x) then show ?case by (cases y) auto
qed

lemma subst_all_spelled:
  assumes "CHR '')'' \<notin> set x" "\<forall>p\<in>set ps. part_ok e p"
  shows "subst_all (''$('' @ x @ '')'') (the_str (getenv e x)) (spelled ps) = spelled (settle e x ps)"
  using assms(2)
proof (induction ps)
  case (Cons p ps)
  then have IH: "subst_all (''$('' @ x @ '')'') (the_str (getenv e x)) (spelled ps) = spelled (settle e x ps)" by simp
  show ?case
  proof (cases p)
    case (Chars t) then show ?thesis using Cons.prems IH subst_all_skip [of t "CHR ''('' # x @ '')''"] by simp
  next
    case (Ref y)
    then have y: "CHR ''$'' \<notin> set y" "CHR '')'' \<notin> set y" using Cons.prems by simp_all
    show ?thesis
    proof (cases "y = x")
      case True then show ?thesis using Ref IH by simp
    next
      case False
      moreover from this have "\<not> prefix (x @ '')'') (y @ CHR '')'' # spelled ps)" using same_reference [OF assms(1) y(2)] by blast
      ultimately show ?thesis
        using Ref IH y(1) subst_all_skip [of "CHR ''('' # y @ '')''" "CHR ''('' # x @ '')''"] by simp
    qed
  qed
qed simp

lemma settle_expanded: "expanded e (settle e x ps) = expanded e ps"
  by (induction ps) (auto simp: settle_def)

lemma settle_ok:
  assumes "\<forall>p\<in>set ps. part_ok e p" "Ref x \<in> set ps"
  shows "\<forall>p\<in>set (settle e x ps). part_ok e p"
  using assms by (auto simp: settle_def)

lemma settle_fewer:
  assumes "Ref x \<in> set ps"
  shows "length (filter (\<lambda>p. \<exists>y. p = Ref y) (settle e x ps)) < length (filter (\<lambda>p. \<exists>y. p = Ref y) ps)"
proof -
  have le: "length (filter (\<lambda>p. \<exists>y. p = Ref y) (settle e x qs)) \<le> length (filter (\<lambda>p. \<exists>y. p = Ref y) qs)" for qs
    by (induction qs) (auto simp: settle_def)
  show ?thesis using assms
  proof (induction ps)
    case (Cons p ps)
    show ?case
    proof (cases "p = Ref x")
      case True then show ?thesis using le [of ps] by simp
    next
      case False then show ?thesis using Cons by (cases p) auto
    qed
  qed simp
qed

text \<open>A bound on the text in the course of the replacement.\<close>

definition widest :: "env \<Rightarrow> name_part list \<Rightarrow> nat" where
  "widest e ps = (\<Sum>p\<leftarrow>ps. max (length (part_text p)) (length (part_value e p)))"

lemma widest_bounds:
  "length (spelled ps) \<le> widest e ps" "widest e (settle e x ps) \<le> widest e ps"
  "widest e ps \<le> length (spelled ps) + length (expanded e ps)"
  by (induction ps) (auto simp: widest_def settle_def)

lemma first_reference:
  "(\<exists>t. ps = map Chars t) \<or> (\<exists>t x qs. ps = map Chars t @ Ref x # qs)"
proof (induction ps)
  case (Cons p ps)
  show ?case
  proof (cases p)
    case (Chars c) then show ?thesis using Cons by (metis append_Cons list.simps(9))
  next
    case (Ref x) then show ?thesis by (metis append_Nil list.simps(8))
  qed
qed simp

lemma spelled_chars: "spelled (map Chars t) = concat t" "expanded e (map Chars t) = concat t"
  by (induction t) simp_all

lemma spelled_append: "spelled (ps @ qs) = spelled ps @ spelled qs"
  by (simp add: spelled_def)

lemma env_loop_step:
  assumes ok: "\<forall>p\<in>set ps. part_ok e p" and ps: "ps = map Chars t @ Ref x # qs" and w: "widest e ps < 2 ^ 64 - 1"
    and m: "\<And>n. malloc_ok e n"
  shows "env_loop e (spelled ps) = env_loop e (spelled (settle e x ps))"
proof -
  let ?p = "''$('' @ x @ '')''"
  have "part_ok e (Chars c)" if "c \<in> set t" for c using ok ps that by (metis UnCI image_eqI list.set_map set_append)
  then have t: "CHR ''$'' \<notin> set (concat t)" by auto
  have x: "CHR '')'' \<notin> set x" "length x \<le> 252" using ok ps by simp_all
  have s: "spelled ps = concat t @ ''$('' @ x @ CHR '')'' # spelled qs" by (simp add: ps spelled_append spelled_chars)
  have 1: "strstr (spelled ps) ''$('' = Some (length (concat t))" unfolding s strstr_skip [OF t] by simp
  have 2: "strstr (drop (length (concat t)) (spelled ps)) '')'' = Some (length x + 2)"
    unfolding s using strstr_closing [OF x(1), of "spelled qs"] by simp
  have 3: "take (length x) (drop (length (concat t) + 2) (spelled ps)) = x" unfolding s by simp
  have "length (subst_all ?p (the_str (getenv e x)) (spelled ps)) < 2 ^ 64 - 1"
    unfolding subst_all_spelled [OF x(1) ok] using widest_bounds(1) [of "settle e x ps" e] widest_bounds(2) [of e x ps] w by linarith
  then have "evStrReplace e (Some (spelled ps)) (Some ?p) (getenv e x) = Some (Some (spelled (settle e x ps)))"
    using evStrReplace_value [of ?p "getenv e x" "spelled ps" e] m subst_all_spelled [OF x(1) ok] by simp
  then show ?thesis using 1 2 3 x(2) m by (subst env_loop.simps) (simp add: Let_def)
qed

lemma env_loop_expands:
  assumes m: "\<And>n. malloc_ok e n"
  shows "\<forall>p\<in>set ps. part_ok e p \<Longrightarrow> widest e ps < 2 ^ 64 - 1 \<Longrightarrow> env_loop e (spelled ps) = Some (Some (expanded e ps))"
proof (induction ps rule: measure_induct_rule [where f = "\<lambda>ps. length (filter (\<lambda>p. \<exists>y. p = Ref y) ps)"])
  case (less ps)
  from first_reference [of ps] show ?case
  proof (elim disjE exE)
    fix t assume ps: "ps = map Chars t"
    then have "CHR ''$'' \<notin> set (concat t)" using less.prems(1) by auto
    then have "strstr (concat t) ''$('' = None" using strstr_skip [of "concat t" "[]"] by simp
    then show ?thesis unfolding ps spelled_chars by (subst env_loop.simps) simp
  next
    fix t x qs assume ps: "ps = map Chars t @ Ref x # qs"
    then have x: "Ref x \<in> set ps" by simp
    have "widest e (settle e x ps) < 2 ^ 64 - 1" using less.prems(2) widest_bounds(2) [of e x ps] by linarith
    then have "env_loop e (spelled (settle e x ps)) = Some (Some (expanded e (settle e x ps)))"
      by (rule less.IH [OF settle_fewer [OF x] settle_ok [OF less.prems(1) x]])
    then show ?thesis using env_loop_step [OF less.prems(1) ps less.prems(2) m] by (simp add: settle_expanded)
  qed
qed

text \<open>C17: \<^verbatim>\<open>evStrReplaceEnvVar\<close> returns for every name that is made of characters and of references \<open>$(name)\<close>, and the
  result is the name with each reference replaced by the value of its variable, or by nothing when the variable is
  not set. Here only references have a dollar sign, the names of the variables have at most 252 characters
  (they are copied to an array of 256), the values of the variables that are referenced have no dollar sign, memory can be allocated
  and its sizes do not wrap. Other variables may be as they like, and the values as long.\<close>
theorem evStrReplaceEnvVar_expands:
  assumes "\<forall>p\<in>set ps. part_ok e p" and "length (spelled ps) + length (expanded e ps) < 2 ^ 64 - 1" and "\<forall>n. malloc_ok e n"
  shows "evStrReplaceEnvVar e (Some (spelled ps)) = Some (Some (expanded e ps))"
proof -
  have "widest e ps < 2 ^ 64 - 1" using assms(2) widest_bounds(3) [of e ps] by linarith
  then show ?thesis using env_loop_expands [of e ps] assms(1,3) by (simp add: evStrReplaceEnvVar_def strdup_def)
qed

theorem evStrReplaceEnvVar_expands_witness:
  "evStrReplaceEnvVar easy_env (Some ''/data/$(RUN)/x_$(NONE)$(RUN)'') = Some (Some ''/data/r%d/x_r%d'')"
proof -
  let ?ps = "[Chars ''/data/'', Ref ''RUN'', Chars ''/x_'', Ref ''NONE'', Ref ''RUN'']"
  have "\<forall>p\<in>set ?ps. part_ok easy_env p" "length (spelled ?ps) + length (expanded easy_env ?ps) < 2 ^ 64 - 1"
    by (simp_all add: easy_env_def the_str_def)
  then show ?thesis using evStrReplaceEnvVar_expands [of ?ps easy_env] by (simp add: easy_env_def the_str_def)
qed

text \<open>When no environment variable at all, referenced or not, has a dollar sign in its value or a value longer than
  \<open>V\<close>, and name and values are short, \<^verbatim>\<open>evStrReplaceEnvVar\<close> returns, and the result has no closed reference left.\<close>
theorem evStrReplaceEnvVar_returns:
  assumes "\<And>v x. getenv e v = Some x \<Longrightarrow> CHR ''$'' \<notin> set x \<and> length x \<le> V" and "\<And>n. malloc_ok e n"
    and "length s + V * dollars s \<le> 250"
  shows "\<exists>r. evStrReplaceEnvVar e (Some s) = Some (Some r) \<and> no_reference r"
  using env_loop_ends [OF assms] assms(2) by (simp add: evStrReplaceEnvVar_def strdup_def)

theorem evStrReplaceEnvVar_returns_witness:
  "\<exists>r. evStrReplaceEnvVar (easy_env\<lparr>getenv := (\<lambda>v. if v = ''RUN'' then Some ''r1'' else None)\<rparr>) (Some ''$(RUN)/$(X)'') = Some (Some r) \<and>
     no_reference r"
  by (rule evStrReplaceEnvVar_returns [where V = 2]) (auto simp: easy_env_def dollars_def split: if_splits)

text \<open>A variable whose value refers to itself makes \<^verbatim>\<open>evStrReplaceEnvVar\<close> loop for ever.\<close>
theorem evStrReplaceEnvVar_self_reference:
  assumes "getenv e ''X'' = Some ''$(X)''" and "\<And>n. malloc_ok e n"
  shows "evStrReplaceEnvVar e (Some ''$(X)'') = None"
proof -
  have "env_loop e' s = Some r \<Longrightarrow> \<not> (e' = e \<and> s = ''$(X)'')" for e' s r
  proof (rule env_loop.raw_induct [where P = "\<lambda>e' s r. \<not> (e' = e \<and> s = ''$(X)'')"])
    fix f :: "env \<Rightarrow> string \<Rightarrow> string option option" and e' s r
    assume IH: "\<And>e' s r. f e' s = Some r \<Longrightarrow> \<not> (e' = e \<and> s = ''$(X)'')"
    assume st: "(case strstr s ''$('' of None \<Rightarrow> Some (Some s)
        | Some i \<Rightarrow> (case strstr (drop i s) '')'' of None \<Rightarrow> Some (Some s)
           | Some j \<Rightarrow> (let len = j - 2; envVar = take len (drop (i + 2) s) in
                if \<not> malloc_ok e' (len + 1) then Some None
                else if len + 4 > 256 then None
                else do {
                  r \<leftarrow> evStrReplace e' (Some s) (Some (''$('' @ envVar @ '')'')) (getenv e' envVar);
                  (case r of None \<Rightarrow> None | Some s' \<Rightarrow> f e' s')
                }))) = Some r"
    show "\<not> (e' = e \<and> s = ''$(X)'')"
    proof
      assume eq: "e' = e \<and> s = ''$(X)''"
      have "evStrReplace e (Some ''$(X)'') (Some ''$(X)'') (Some ''$(X)'') = Some (Some ''$(X)'')"
        using evStrReplace_value [of "''$(X)''" "Some ''$(X)''" "''$(X)''" e] assms(2) by (simp add: the_str_def)
      then show False using st eq assms IH by (auto simp: Let_def)
    qed
  qed
  then have "env_loop e ''$(X)'' = None" by (metis not_None_eq)
  then show ?thesis using assms(2) by (simp add: evStrReplaceEnvVar_def strdup_def)
qed

theorem evStrReplaceEnvVar_self_reference_witness:
  "evStrReplaceEnvVar easy_env (Some ''$(X)'') = None"
  by (rule evStrReplaceEnvVar_self_reference) (simp_all add: easy_env_def)

section \<open>evStrFindSpecifiers\<close>

definition char_at :: "string \<Rightarrow> nat \<Rightarrow> char" where
  "char_at s i = (if i < length s then s ! i else NUL)"

text \<open>
  The loop from position \<open>pos\<close>. \<^verbatim>\<open>digits\<close> has room for 20 characters and \<^verbatim>\<open>sprintf\<close> needs a NUL in it.
  A specifier without a leading 0 is replaced in the whole string, and the scan starts over.
\<close>

partial_function (option) find_loop :: "env \<Rightarrow> string \<Rightarrow> nat \<Rightarrow> int \<Rightarrow> (string \<times> int) option option" where
  "find_loop e result pos count =
     (case strstr (drop pos result) ''%'' of
        None \<Rightarrow> Some (Some (result, count))
      | Some i \<Rightarrow>
          (let p = pos + i + 1; ds = takeWhile isdigit (drop p result); digitCount = length ds;
               c = char_at result (p + digitCount) in
           if digitCount > 20 then None
           else if c = CHR ''s'' \<and> digitCount = 0 then find_loop e result (p + 1) count
           else if c \<noteq> CHR ''x'' \<and> c \<noteq> CHR ''d'' then Some None
           else if digitCount \<ge> 20 then None
           else if digitCount < 1 \<or> hd ds \<noteq> CHR ''0'' then
             (if digitCount \<ge> 19 then None
              else do {
                r \<leftarrow> evStrReplace e (Some result) (Some (CHR ''%'' # ds @ [c])) (Some (CHR ''%'' # CHR ''0'' # ds @ [c]));
                (case r of None \<Rightarrow> None | Some r' \<Rightarrow> find_loop e r' 0 0)
              })
           else find_loop e result (p + digitCount + 1) (count + 1)))"

definition evStrFindSpecifiers :: "env \<Rightarrow> string option \<Rightarrow> (string \<times> int) option option" where
  "evStrFindSpecifiers e orig =
     (case orig of None \<Rightarrow> Some None
      | Some s \<Rightarrow> (case strdup e s of None \<Rightarrow> Some None | Some r \<Rightarrow> find_loop e r 0 0))"

text \<open>A file name as tokens: literal characters, \<^verbatim>\<open>%s\<close>, and integer specifiers.\<close>

datatype tok = Lit char | RunType | Spec string char

fun show_tok :: "tok \<Rightarrow> string" where
  "show_tok (Lit c) = [c]"
| "show_tok RunType = ''%s''"
| "show_tok (Spec ds c) = CHR ''%'' # ds @ [c]"

definition show_toks :: "tok list \<Rightarrow> string" where "show_toks ts = concat (map show_tok ts)"

fun padded :: "tok \<Rightarrow> bool" where
  "padded (Spec ds c) \<longleftrightarrow> ds \<noteq> [] \<and> hd ds = CHR ''0''" | "padded _ \<longleftrightarrow> True"

fun pad :: "tok \<Rightarrow> tok" where
  "pad (Spec ds c) = (if padded (Spec ds c) then Spec ds c else Spec (CHR ''0'' # ds) c)" | "pad t = t"

fun wf_tok :: "tok \<Rightarrow> bool" where
  "wf_tok (Lit c) \<longleftrightarrow> c \<noteq> CHR ''%''"
| "wf_tok RunType \<longleftrightarrow> True"
| "wf_tok (Spec ds c) \<longleftrightarrow> list_all isdigit ds \<and> c \<in> {CHR ''x'', CHR ''d''} \<and> length ds \<le> (if padded (Spec ds c) then 19 else 18)"

fun is_spec :: "tok \<Rightarrow> bool" where
  "is_spec (Spec ds c) \<longleftrightarrow> True" | "is_spec _ \<longleftrightarrow> False"

definition specs :: "tok list \<Rightarrow> nat" where "specs ts = length (filter is_spec ts)"

lemma show_toks_simps [simp]:
  "show_toks [] = []" "show_toks (t # ts) = show_tok t @ show_toks ts" "show_toks (ts @ us) = show_toks ts @ show_toks us"
  by (simp_all add: show_toks_def)

lemma specs_simps [simp]:
  "specs [] = 0" "specs (t # ts) = (if is_spec t then 1 else 0) + specs ts" "specs (ts @ us) = specs ts + specs us"
  by (simp_all add: specs_def)

lemma digit_chars [simp]: "\<not> isdigit CHR ''%''" "\<not> isdigit CHR ''s''" "\<not> isdigit CHR ''x''" "\<not> isdigit CHR ''d''" "isdigit CHR ''0''"
  by (simp_all add: isdigit_def code_def)

lemma no_percent_digits: "list_all isdigit ds \<Longrightarrow> CHR ''%'' \<notin> set ds"
  using digit_chars(1) by (auto simp: list_all_iff)

lemma subst_skip:
  "CHR ''%'' \<notin> set xs \<Longrightarrow> subst_all (CHR ''%'' # p) w (xs @ ys) = xs @ subst_all (CHR ''%'' # p) w ys"
  by (induction xs) auto

lemma spec_prefix_iff:
  assumes "list_all isdigit ds" "list_all isdigit ds'" "\<not> isdigit c" "\<not> isdigit c'"
  shows "prefix (ds @ [c]) (ds' @ c' # r) \<longleftrightarrow> ds = ds' \<and> c = c'"
  using assms(1,2)
proof (induction ds arbitrary: ds')
  case Nil then show ?case using assms(3,4) by (cases ds') auto
next
  case (Cons d ds) then show ?case using assms(3,4) by (cases ds') auto
qed

lemma no_percent_in_spec: "wf_tok (Spec ds c) \<Longrightarrow> CHR ''%'' \<notin> set (ds @ [c])"
  using no_percent_digits by auto

text \<open>Replacing the text of a specifier replaces exactly the specifiers with that text.\<close>

lemma subst_all_toks:
  assumes t: "wf_tok (Spec ds c)"
  shows "list_all wf_tok ts \<Longrightarrow>
    subst_all (show_tok (Spec ds c)) (show_tok u) (show_toks ts) = show_toks (map (\<lambda>t. if t = Spec ds c then u else t) ts)"
proof (induction ts)
  case (Cons a ts)
  let ?p = "show_tok (Spec ds c)"
  have nc: "\<not> isdigit c" using t by auto
  show ?case
  proof (cases a)
    case (Lit x) then show ?thesis using Cons by auto
  next
    case RunType
    have "\<not> prefix (ds @ [c]) ([] @ CHR ''s'' # show_toks ts)"
      using t nc by (subst spec_prefix_iff) auto
    then show ?thesis using RunType Cons by simp
  next
    case (Spec ds' c')
    have w': "list_all isdigit ds'" "\<not> isdigit c'" "CHR ''%'' \<notin> set (ds' @ [c'])"
      using Cons.prems Spec no_percent_in_spec [of ds' c'] by auto
    have iff: "prefix (ds @ [c]) (ds' @ c' # show_toks ts) \<longleftrightarrow> ds = ds' \<and> c = c'"
      using t nc w' by (intro spec_prefix_iff) auto
    show ?thesis
    proof (cases "ds = ds' \<and> c = c'")
      case True
      then show ?thesis using Spec Cons iff by simp
    next
      case False
      have "subst_all ?p (show_tok u) (ds' @ [c'] @ show_toks ts) = (ds' @ [c']) @ subst_all ?p (show_tok u) (show_toks ts)"
        using subst_skip [OF w'(3), of "ds @ [c]" "show_tok u" "show_toks ts"] by simp
      then show ?thesis using Spec Cons iff False by auto
    qed
  qed
qed simp

text \<open>One step of the scan per token.\<close>

lemma strstr_percent_Cons: "strstr (CHR ''%'' # s) ''%'' = Some 0"
  by simp

lemma find_loop_lit:
  assumes "drop pos r = c # rest" "c \<noteq> CHR ''%''"
  shows "find_loop e r pos n = find_loop e r (Suc pos) n"
proof -
  have "drop (Suc pos) r = rest" using assms(1) by (metis drop_Suc list.sel(3) tl_drop)
  then have "strstr (drop pos r) ''%'' = map_option Suc (strstr (drop (Suc pos) r) ''%'')"
    using assms by simp
  then show ?thesis
    by (subst (1 2) find_loop.simps) (cases "strstr (drop (Suc pos) r) ''%''"; simp add: Let_def)
qed

lemma digits_behind:
  assumes "drop pos r = CHR ''%'' # ds @ c # rest" "list_all isdigit ds" "\<not> isdigit c"
  shows "strstr (drop pos r) ''%'' = Some 0" "takeWhile isdigit (drop (Suc pos) r) = ds"
    "char_at r (Suc pos + length ds) = c" "drop (pos + length ds + 2) r = rest"
proof -
  show "strstr (drop pos r) ''%'' = Some 0" using assms(1) by simp
  have d: "drop (Suc pos) r = ds @ c # rest" using assms(1) by (metis drop_Suc list.sel(3) tl_drop)
  then show "takeWhile isdigit (drop (Suc pos) r) = ds"
    using assms(2,3) by (simp add: takeWhile_append2 list_all_iff takeWhile_tail)
  have "drop (Suc pos + length ds) r = c # rest" using d by (metis append_eq_conv_conj drop_drop add.commute)
  then show "char_at r (Suc pos + length ds) = c" "drop (pos + length ds + 2) r = rest"
    by (auto simp: char_at_def nth_via_drop drop_Suc [symmetric] intro: ccontr)
       (metis add_2_eq_Suc' add_Suc drop_Suc list.sel(3) tl_drop)
qed

definition unpadded :: "tok list \<Rightarrow> nat" where "unpadded ts = length (filter (\<lambda>t. \<not> padded t) ts)"

lemma length_show_pad: "length (show_tok t) \<le> length (show_tok (pad t))"
  by (cases t) auto

lemma length_show_toks_map:
  "(\<And>t. length (show_tok (f t)) \<le> length (show_tok (g t))) \<Longrightarrow>
   length (show_toks (map f ts)) \<le> length (show_toks (map g ts))"
proof (induction ts)
  case (Cons t ts) then show ?case using Cons.prems [of t] by (simp add: add_mono)
qed simp

lemma padded_pad [simp]: "padded (pad t)"
  by (cases t) auto

lemma pad_padded: "padded t \<Longrightarrow> pad t = t"
  by (cases t) auto

lemma pad_pad [simp]: "pad (pad t) = pad t"
  by (rule pad_padded) simp

lemma spec_pad [simp]: "is_spec (pad t) = is_spec t"
  by (cases t) auto

lemma wf_pad: "wf_tok t \<Longrightarrow> wf_tok (pad t)"
  by (cases t) auto

lemma specs_map_pad: "specs (map (\<lambda>u. if u = v then pad u else u) ts) = specs ts"
  by (induction ts) auto

lemma wf_map_pad: "list_all wf_tok ts \<Longrightarrow> list_all wf_tok (map (\<lambda>u. if u = v then pad u else u) ts)"
  by (induction ts) (auto simp: wf_pad simp del: wf_tok.simps pad.simps)

lemma unpadded_map_pad:
  "v \<in> set ts \<Longrightarrow> \<not> padded v \<Longrightarrow> unpadded (map (\<lambda>u. if u = v then pad u else u) ts) < unpadded ts"
proof (induction ts)
  case (Cons t ts)
  have le: "unpadded (map (\<lambda>u. if u = v then pad u else u) us) \<le> unpadded us" for us
    by (induction us) (auto simp: unpadded_def)
  show ?case using Cons le [of ts] by (auto simp: unpadded_def)
qed simp

lemma find_loop_padded:
  assumes "wf_tok t" "padded t" "drop pos r = show_tok t @ rest"
  shows "find_loop e r pos n = find_loop e r (pos + length (show_tok t)) (n + (if is_spec t then 1 else 0))"
proof (cases t)
  case (Lit c) then show ?thesis using assms find_loop_lit [of pos r c rest e n] by simp
next
  case RunType
  have "drop pos r = CHR ''%'' # [] @ CHR ''s'' # rest" using RunType assms(3) by simp
  note d = digits_behind [OF this, simplified]
  show ?thesis using RunType d
    by (subst find_loop.simps) (simp add: Let_def)
next
  case (Spec ds c)
  have "list_all isdigit ds" "\<not> isdigit c" "drop pos r = CHR ''%'' # ds @ c # rest" "c = CHR ''x'' \<or> c = CHR ''d''"
    "length ds \<le> 19" "ds \<noteq> []" "hd ds = CHR ''0''"
    using Spec assms by auto
  note d = digits_behind [OF this(3,1,2)] and this
  then show ?thesis using Spec assms(1)
    by (subst find_loop.simps) (auto simp: Let_def)
qed

lemma find_loop_unpadded:
  assumes "wf_tok (Spec ds c)" "\<not> padded (Spec ds c)" "drop pos (show_toks ts) = show_tok (Spec ds c) @ rest"
    and "list_all wf_tok ts" "length (show_toks (map pad ts)) < 2 ^ 64 - 1" "\<And>n. malloc_ok e n"
  shows "find_loop e (show_toks ts) pos n =
         find_loop e (show_toks (map (\<lambda>t. if t = Spec ds c then pad t else t) ts)) 0 0"
proof -
  have s: "list_all isdigit ds" "\<not> isdigit c" "drop pos (show_toks ts) = CHR ''%'' # ds @ c # rest"
    "c = CHR ''x'' \<or> c = CHR ''d''" "length ds \<le> 18" "ds = [] \<or> hd ds \<noteq> CHR ''0''"
    using assms(1-3) by auto
  note d = digits_behind [OF s(3,1,2)]
  let ?ts' = "map (\<lambda>t. if t = Spec ds c then pad t else t) ts"
  have eq: "?ts' = map (\<lambda>t. if t = Spec ds c then Spec (CHR ''0'' # ds) c else t) ts"
    using assms(2) by auto
  have sub: "subst_all (CHR ''%'' # ds @ [c]) (CHR ''%'' # CHR ''0'' # ds @ [c]) (show_toks ts) = show_toks ?ts'"
    using subst_all_toks [OF assms(1,4), of "Spec (CHR ''0'' # ds) c"] unfolding eq by simp
  have "length (show_toks ?ts') \<le> length (show_toks (map pad ts))"
    by (rule length_show_toks_map) (simp add: length_show_pad)
  then have "evStrReplace e (Some (show_toks ts)) (Some (CHR ''%'' # ds @ [c])) (Some (CHR ''%'' # CHR ''0'' # ds @ [c])) =
    Some (Some (show_toks ?ts'))"
    using assms(5,6) sub by (subst evStrReplace_value) (auto simp: the_str_def)
  then show ?thesis using d s(4-6)
    by (subst find_loop.simps) (auto simp: Let_def)
qed

lemma find_loop_toks:
  assumes "\<And>n. malloc_ok e n"
  shows "list_all wf_tok (before @ after) \<Longrightarrow> list_all padded before \<Longrightarrow>
    length (show_toks (map pad (before @ after))) < 2 ^ 64 - 1 \<Longrightarrow>
    find_loop e (show_toks (before @ after)) (length (show_toks before)) (int (specs before)) =
    Some (Some (show_toks (map pad (before @ after)), int (specs (before @ after))))"
proof (induction "unpadded (before @ after)" arbitrary: before after rule: less_induct)
  case less
  define m where "m = unpadded (before @ after)"
  have outer: "\<lbrakk>unpadded (b @ a) < m; list_all wf_tok (b @ a); list_all padded b;
      length (show_toks (map pad (b @ a))) < 2 ^ 64 - 1\<rbrakk> \<Longrightarrow>
    find_loop e (show_toks (b @ a)) (length (show_toks b)) (int (specs b)) =
    Some (Some (show_toks (map pad (b @ a)), int (specs (b @ a))))" for b a
    using less.hyps unfolding m_def by blast
  show ?case using less.prems m_def
  proof (induction after arbitrary: before)
    case Nil
    then have "map pad before = before" by (simp add: list_all_iff map_idI pad_padded)
    then show ?case by (subst find_loop.simps) simp
  next
    case (Cons t ts)
    have wt: "wf_tok t" using Cons.prems(1) by simp
    have dr: "drop (length (show_toks before)) (show_toks (before @ t # ts)) = show_tok t @ show_toks ts" by simp
    show ?case
    proof (cases "padded t")
      case True
      have "find_loop e (show_toks (before @ t # ts)) (length (show_toks before)) (int (specs before)) =
        find_loop e (show_toks ((before @ [t]) @ ts)) (length (show_toks (before @ [t]))) (int (specs (before @ [t])))"
        using find_loop_padded [OF wt True dr, of e "int (specs before)"] by simp
      also have "\<dots> = Some (Some (show_toks (map pad ((before @ [t]) @ ts)), int (specs ((before @ [t]) @ ts))))"
        by (rule Cons.IH) (use Cons.prems True in simp_all)
      finally show ?thesis by simp
    next
      case False
      then obtain ds c where t: "t = Spec ds c" by (cases t) auto
      let ?f = "\<lambda>u. if u = Spec ds c then pad u else u"
      let ?ts' = "map ?f (before @ t # ts)"
      have pads: "map pad ?ts' = map pad (before @ t # ts)" by simp
      have nspec: "specs ?ts' = specs (before @ t # ts)" by (rule specs_map_pad)
      have "find_loop e (show_toks (before @ t # ts)) (length (show_toks before)) (int (specs before)) =
        find_loop e (show_toks ?ts') 0 0"
        using wt False dr Cons.prems assms unfolding t by (intro find_loop_unpadded) auto
      also have "\<dots> = find_loop e (show_toks ([] @ ?ts')) (length (show_toks [])) (int (specs []))" by simp
      also have "\<dots> = Some (Some (show_toks (map pad ([] @ ?ts')), int (specs ([] @ ?ts'))))"
      proof (rule outer)
        show "unpadded ([] @ ?ts') < m"
          using Cons.prems(4) unpadded_map_pad [of "Spec ds c" "before @ t # ts"] False t by simp
        show "list_all wf_tok ([] @ ?ts')" using wf_map_pad [OF Cons.prems(1)] by simp
        show "length (show_toks (map pad ([] @ ?ts'))) < 2 ^ 64 - 1"
          using Cons.prems(3) pads by (simp only: append_Nil)
      qed simp
      finally show ?thesis using pads nspec by (simp only: append_Nil)
    qed
  qed
qed

text \<open>On a name made of literal characters, \<^verbatim>\<open>%s\<close> and integer specifiers, \<^verbatim>\<open>evStrFindSpecifiers\<close>
  returns (its restarts end), every specifier of the result is padded with zeros, nothing else is changed,
  and the count is the number of specifiers.\<close>
theorem evStrFindSpecifiers_pads:
  assumes "list_all wf_tok ts" and "length (show_toks (map pad ts)) < 2 ^ 64 - 1" and "\<And>n. malloc_ok e n"
  shows "evStrFindSpecifiers e (Some (show_toks ts)) = Some (Some (show_toks (map pad ts), int (specs ts)))"
  using find_loop_toks [OF assms(3), of "[]" ts] assms by (simp add: evStrFindSpecifiers_def strdup_def)

theorem evStrFindSpecifiers_pads_witness:
  "evStrFindSpecifiers easy_env (Some ''r_%s%4d_%d.%04d%x'') = Some (Some (''r_%s%04d_%0d.%04d%0x'', 4))"
proof -
  let ?ts = "[Lit CHR ''r'', Lit CHR ''_'', RunType, Spec ''4'' CHR ''d'', Lit CHR ''_'', Spec [] CHR ''d'',
     Lit CHR ''.'', Spec ''04'' CHR ''d'', Spec [] CHR ''x'']"
  show ?thesis using evStrFindSpecifiers_pads [where ts = ?ts and e = easy_env]
    by (simp add: easy_env_def isdigit_def code_def)
qed

section \<open>evStrRemoveSpecifiers\<close>

text \<open>
  The string is changed in place: \<open>m\<close> is its memory with the NUL, and the scan goes on in it from a position.
  The specifier is removed by moving what is behind it, NUL included, but the position stays where the
  specifier ended before the move.
\<close>

definition c_str :: "char list \<Rightarrow> string" where "c_str m = takeWhile (\<lambda>c. c \<noteq> NUL) m"

definition shift_left :: "char list \<Rightarrow> nat \<Rightarrow> nat \<Rightarrow> int \<Rightarrow> char list" where
  "shift_left m start k n = (if n \<le> 0 then m
     else take start m @ take (nat n) (drop (start + k) m) @ drop (start + nat n) m)"

partial_function (option) remove_loop :: "char list \<Rightarrow> nat \<Rightarrow> string option option" where
  "remove_loop m pos =
     (if NUL \<notin> set (drop pos m) then None
      else (case strstr (c_str (drop pos m)) ''%'' of
          None \<Rightarrow> Some (Some (c_str m))
        | Some i \<Rightarrow>
            (let spec = pos + i; p = spec + 1; digitCount = length (takeWhile isdigit (drop p m)); q = p + digitCount;
                 c = char_at m q in
             if c = CHR ''s'' \<and> digitCount = 0 then remove_loop m (q + 1)
             else if c \<noteq> CHR ''x'' \<and> c \<noteq> CHR ''d'' then Some None
             else
               (let specLen = q + 1 - spec; endIndex = int (length (c_str m)) + 1 - int specLen - int spec
                in remove_loop (shift_left m spec specLen endIndex) (q + 1)))))"

definition evStrRemoveSpecifiers :: "env \<Rightarrow> string option \<Rightarrow> string option option" where
  "evStrRemoveSpecifiers e orig =
     (case orig of None \<Rightarrow> Some None
      | Some s \<Rightarrow> (case strdup e s of None \<Rightarrow> Some None | Some r \<Rightarrow> remove_loop (r @ [NUL]) 0))"

text \<open>Text in which every percent sign belongs to a \<^verbatim>\<open>%s\<close>.\<close>

fun harmless :: "string \<Rightarrow> bool" where
  "harmless [] \<longleftrightarrow> True"
| "harmless (c # cs) \<longleftrightarrow> (c = CHR ''%'' \<longrightarrow> cs \<noteq> [] \<and> hd cs = CHR ''s'') \<and> NUL \<noteq> c \<and> harmless cs"

lemma harmless_drop: "harmless s \<Longrightarrow> harmless (drop n s)"
proof (induction s arbitrary: n)
  case (Cons c cs) then show ?case by (cases n) auto
qed simp

lemma harmless_NUL: "harmless s \<Longrightarrow> NUL \<notin> set s"
  by (induction s) auto

lemma c_str_append: "NUL \<notin> set s \<Longrightarrow> c_str (s @ NUL # r) = s"
  by (simp add: c_str_def takeWhile_append2 takeWhile_tail) (metis takeWhile_eq_all_conv)

lemma strstr_append: "strstr s p = Some i \<Longrightarrow> p \<noteq> [] \<Longrightarrow> s = take i s @ p @ drop (i + length p) s"
  using strstr_Some [of s p i] by (metis append_eq_conv_conj append_take_drop_id drop_drop add.commute prefix_def)

text \<open>From a position behind which there is harmless text, nothing is changed any more.\<close>

lemma remove_loop_harmless:
  "drop pos m = s @ NUL # r \<Longrightarrow> harmless s \<Longrightarrow> remove_loop m pos = Some (Some (c_str m))"
proof (induction s arbitrary: pos rule: measure_induct_rule [where f = length])
  case (less s)
  have cs: "c_str (drop pos m) = s" using less.prems by (simp add: c_str_append harmless_NUL)
  have n: "NUL \<in> set (drop pos m)" using less.prems(1) by simp
  show ?case
  proof (cases "strstr s ''%''")
    case None then show ?thesis using cs n by (subst remove_loop.simps) simp
  next
    case (Some i)
    then have sp: "s = take i s @ ''%'' @ drop (i + 1) s" using strstr_append [OF Some] by simp
    have il: "i < length s" using strstr_Some [OF Some] by simp
    have "harmless (drop i s)" using less.prems(2) by (rule harmless_drop)
    moreover have "drop i s = CHR ''%'' # drop (i + 1) s"
      using il sp by (metis Cons_nth_drop_Suc Suc_eq_plus1 append_Cons append_Nil append_eq_append_conv append_take_drop_id)
    ultimately have h: "drop (i + 1) s \<noteq> []" "hd (drop (i + 1) s) = CHR ''s''" by auto
    then obtain t where t: "drop (i + 1) s = CHR ''s'' # t" by (cases "drop (i + 1) s") auto
    define x where "x = take i s"
    have x: "length x = i" "drop pos m = x @ CHR ''%'' # CHR ''s'' # t @ NUL # r" "s = x @ CHR ''%'' # CHR ''s'' # t"
      using il sp t less.prems(1) unfolding x_def by simp_all
    have d: "drop (pos + i + 1) m = CHR ''s'' # t @ NUL # r"
      using drop_drop [of "i + 1" pos m] x(1) unfolding x(2) by (simp add: add.commute)
    have c: "drop (pos + i + 2) m = t @ NUL # r"
      using drop_drop [of "i + 2" pos m] x(1) unfolding x(2) by (simp add: add.commute)
    have ca: "char_at m (pos + i + 1) = CHR ''s''"
      using d by (auto simp: char_at_def nth_via_drop intro: ccontr)
    have "remove_loop m pos = remove_loop m (pos + i + 2)"
      using cs n Some d ca by (subst remove_loop.simps) (simp add: Let_def)
    also have "\<dots> = Some (Some (c_str m))"
    proof (rule less.IH)
      show "length t < length s" using x(3) by simp
      show "drop (pos + i + 2) m = t @ NUL # r" by (rule c)
      show "harmless t" using harmless_drop [OF less.prems(2), of "i + 1"] t by simp
    qed
    finally show ?thesis .
  qed
qed

lemma remove_loop_char:
  assumes "drop pos m = c # rest" "c \<noteq> CHR ''%''" "c \<noteq> NUL"
  shows "remove_loop m pos = remove_loop m (Suc pos)"
proof -
  have d: "drop (Suc pos) m = rest" using assms(1) by (metis drop_Suc list.sel(3) tl_drop)
  have "strstr (c_str (drop pos m)) ''%'' = map_option Suc (strstr (c_str (drop (Suc pos) m)) ''%'')"
    using assms d by (simp add: c_str_def)
  moreover have "NUL \<in> set (drop pos m) \<longleftrightarrow> NUL \<in> set (drop (Suc pos) m)" using assms d by auto
  ultimately show ?thesis
    by (subst (1 2) remove_loop.simps) (cases "strstr (c_str (drop (Suc pos) m)) ''%''"; simp add: Let_def)
qed

lemma remove_loop_run_type:
  assumes "drop pos m = CHR ''%'' # CHR ''s'' # rest" "NUL \<in> set rest"
  shows "remove_loop m pos = remove_loop m (pos + 2)"
proof -
  have d: "drop (Suc pos) m = CHR ''s'' # rest" using assms(1) by (metis drop_Suc list.sel(3) tl_drop)
  have "char_at m (Suc pos) = CHR ''s''" using d by (auto simp: char_at_def nth_via_drop intro: ccontr)
  moreover have "c_str (drop pos m) = CHR ''%'' # CHR ''s'' # c_str rest"
    unfolding assms(1) by (simp add: c_str_def NUL_def)
  ultimately show ?thesis using assms d by (subst remove_loop.simps) (simp add: Let_def)
qed

lemma remove_loop_skip:
  "drop pos m = a @ rest \<Longrightarrow> harmless a \<Longrightarrow> NUL \<in> set rest \<Longrightarrow> remove_loop m pos = remove_loop m (pos + length a)"
proof (induction a arbitrary: pos rule: measure_induct_rule [where f = length])
  case (less a)
  show ?case
  proof (cases a)
    case (Cons c cs)
    have d1: "drop (Suc pos) m = cs @ rest" using less.prems(1) Cons by (metis append_Cons drop_Suc list.sel(3) tl_drop)
    show ?thesis
    proof (cases "c = CHR ''%''")
      case False
      have "remove_loop m pos = remove_loop m (Suc pos)"
        using less.prems Cons False by (intro remove_loop_char [of pos m c "cs @ rest"]) auto
      then show ?thesis using less.IH [of cs "Suc pos"] less.prems Cons d1 by simp
    next
      case True
      then obtain b where b: "cs = CHR ''s'' # b" using less.prems(2) Cons by (cases cs) auto
      have d2: "drop (pos + 2) m = b @ rest" using d1 b by (metis add_2_eq_Suc' append_Cons drop_Suc list.sel(3) tl_drop)
      have "remove_loop m pos = remove_loop m (pos + 2)"
        using less.prems Cons True b by (intro remove_loop_run_type [of pos m "b @ rest"]) auto
      then show ?thesis using less.IH [of b "pos + 2"] less.prems Cons b d2 by simp
    qed
  qed simp
qed

lemma remove_loop_spec:
  assumes "drop pos m = CHR ''%'' # ds @ c # rest" "list_all isdigit ds" "c = CHR ''x'' \<or> c = CHR ''d''" "NUL \<in> set rest"
  shows "remove_loop m pos =
    remove_loop (shift_left m pos (length ds + 2) (int (length (c_str m)) + 1 - int (length ds + 2) - int pos)) (pos + length ds + 2)"
proof -
  have nd: "\<not> isdigit c" using assms(3) by auto
  note b = digits_behind [OF assms(1,2) nd]
  have "c_str (drop pos m) = CHR ''%'' # c_str (ds @ c # rest)"
    unfolding assms(1) by (simp add: c_str_def NUL_def)
  then show ?thesis using assms b by (subst remove_loop.simps) (auto simp: Let_def)
qed

text \<open>In a name with one integer specifier, \<^verbatim>\<open>evStrRemoveSpecifiers\<close> removes that specifier and
  nothing else.\<close>
theorem evStrRemoveSpecifiers_one:
  assumes "harmless pre" "harmless post" "list_all isdigit ds" "c = CHR ''x'' \<or> c = CHR ''d''" and "\<And>n. malloc_ok e n"
  shows "evStrRemoveSpecifiers e (Some (pre @ CHR ''%'' # ds @ c # post)) = Some (Some (pre @ post))"
proof -
  let ?m = "pre @ (CHR ''%'' # ds @ c # post @ [NUL])" and ?k = "length ds + 2"
  have nul: "NUL \<notin> set pre" "NUL \<notin> set post" "NUL \<notin> set ds" "NUL \<noteq> c"
    using assms(1-4) harmless_NUL by (auto simp: list_all_iff NUL_def isdigit_def code_def)
  have cs: "c_str ?m = pre @ CHR ''%'' # ds @ c # post"
    using c_str_append [of "pre @ CHR ''%'' # ds @ c # post" "[]"] nul by (simp add: NUL_def)
  let ?m' = "pre @ post @ NUL # drop (length pre + length post + 1) ?m"
  have "remove_loop ?m 0 = remove_loop ?m (length pre)"
    using remove_loop_skip [of 0 ?m pre "CHR ''%'' # ds @ c # post @ [NUL]"] assms(1) by simp
  also have "\<dots> = remove_loop (shift_left ?m (length pre) ?k (int (length (c_str ?m)) + 1 - int ?k - int (length pre))) (length pre + length ds + 2)"
    using assms(3,4) by (intro remove_loop_spec [where rest = "post @ [NUL]"]) auto
  also have "shift_left ?m (length pre) ?k (int (length (c_str ?m)) + 1 - int ?k - int (length pre)) = ?m'"
  proof -
    have n: "int (length (c_str ?m)) + 1 - int ?k - int (length pre) = int (length post + 1)" unfolding cs by simp
    have "drop (length pre + ?k) ?m = post @ [NUL]" by (simp add: add.commute)
    then show ?thesis unfolding n shift_left_def by (simp add: nat_add_distrib)
  qed
  also have "remove_loop ?m' (length pre + length ds + 2) = Some (Some (c_str ?m'))"
  proof (cases "?k \<le> length post")
    case True
    then have "drop (length pre + length ds + 2) ?m' = drop ?k post @ NUL # drop (length pre + length post + 1) ?m"
      by (simp add: add.commute add.left_commute)
    then show ?thesis using harmless_drop [OF assms(2)] by (rule remove_loop_harmless)
  next
    case False
    have "drop (length pre + length ds + 2) ?m' = drop (length ds + 2 - length post - 1) (drop (length pre + length post + 1) ?m)"
      using False by (simp add: drop_Cons')
    also have "\<dots> = drop (length pre + length ds + 2) ?m" using False by (simp only: drop_drop) simp
    also have "\<dots> = post @ NUL # []" by (simp add: add.commute)
    finally show ?thesis using assms(2) by (rule remove_loop_harmless)
  qed
  also have "c_str ?m' = pre @ post" using c_str_append [of "pre @ post"] nul by simp
  finally have "remove_loop ?m 0 = Some (Some (pre @ post))" .
  then show ?thesis using assms(5) by (simp add: evStrRemoveSpecifiers_def strdup_def)
qed

theorem evStrRemoveSpecifiers_one_witness:
  "evStrRemoveSpecifiers easy_env (Some ''a%s.%04d-%s'') = Some (Some ''a%s.-%s'')"
  using evStrRemoveSpecifiers_one [of "''a%s.''" "''-%s''" "''04''" "CHR ''d''" easy_env]
  by (simp add: easy_env_def NUL_def isdigit_def code_def)

text \<open>Two specifiers next to each other: the second one survives, because the scan position is not
  moved back with the text.\<close>
theorem evStrRemoveSpecifiers_leaves_second:
  "evStrRemoveSpecifiers easy_env (Some ''%d%d'') = Some (Some ''%d'')"
proof -
  have "remove_loop (''%d%d'' @ [NUL]) 0 = remove_loop (CHR ''%'' # CHR ''d'' # NUL # [CHR ''d'', NUL]) 2"
    by (subst remove_loop.simps) (simp add: c_str_def NUL_def shift_left_def char_at_def Let_def numeral_2_eq_2)
  also have "\<dots> = Some (Some ''%d'')"
    by (subst remove_loop_harmless [where s = "[]"]) (simp_all add: c_str_def NUL_def numeral_2_eq_2)
  finally show ?thesis by (simp add: evStrRemoveSpecifiers_def strdup_def easy_env_def)
qed

section \<open>evTrim\<close>

text \<open>\<^verbatim>\<open>evTrim\<close> returns the text behind the skipped bytes without the white space and the unprintable
  characters (such as the padding of an evio string) around it; inner ones are kept.\<close>
theorem evTrim_trims:
  assumes "list_all trims front" "list_all trims back" "s \<noteq> []" "\<not> trims (hd s)" "\<not> trims (last s)"
    and "NUL \<notin> set (front @ s @ back)" and "int (length skipped) = skip"
  shows "evTrim (Some (skipped @ front @ s @ back @ NUL # rest)) skip = Some (Some s)"
proof -
  let ?t = "front @ s @ back"
  have sk: "nat (max skip 0) = length skipped" using assms(7) by simp
  have tw: "takeWhile (\<lambda>c. c \<noteq> NUL) (?t @ NUL # rest) = ?t"
    using c_str_append [OF assms(6), of rest] by (simp add: c_str_def)
  have dw: "dropWhile trims ?t = s @ back"
    using assms(1,3,4) by (cases s) (simp_all add: dropWhile_append3 list_all_iff)
  have "dropWhile trims (rev (s @ back)) = rev s"
    using assms(2,3,5) by (cases s rule: rev_cases) (simp_all add: dropWhile_append3 list_all_iff)
  then show ?thesis using sk tw dw assms(3)
    by (simp add: evTrim_def)
qed

theorem evTrim_trims_witness:
  "evTrim (Some (''head'' @ '' '' @ ''a b'' @ [CHR 0x04, CHR ''\<newline>''] @ NUL # ''x'')) 4 = Some (Some ''a b'')"
  by (rule evTrim_trims) (simp_all add: trims_def isspace_def isprint_def code_def NUL_def)

end
