(* ===== verification/EvioHandle.thy ===== *)
theory EvioHandle
  imports EvioStrings
begin

text \<open>
  The handle structure \<^verbatim>\<open>EVFILE\<close> of \<^verbatim>\<open>evio.h\<close>, its block header macros, and the table of handles of \<^verbatim>\<open>evio.c\<close>.

  Pointers into a block buffer (\<^verbatim>\<open>buf\<close>, \<^verbatim>\<open>next\<close>, \<^verbatim>\<open>currentHeader\<close>) are word offsets into the memory they
  point into: the allocated block buffer \<open>bufmem\<close>, or \<open>rwBuf\<close> itself when a user buffer is written
  (then \<^verbatim>\<open>buf\<close> aliases it). An unallocated \<^verbatim>\<open>buf\<close> is \<open>bufmem = []\<close>. All files hold whole 32-bit words.
  Counters keep their C width.
\<close>

section \<open>Constants\<close>

definition EV_READFILE :: int where "EV_READFILE = 0"
definition EV_READPIPE :: int where "EV_READPIPE = 1"
definition EV_READSOCK :: int where "EV_READSOCK = 2"
definition EV_READBUF :: int where "EV_READBUF = 3"
definition EV_WRITEFILE :: int where "EV_WRITEFILE = 4"
definition EV_WRITEPIPE :: int where "EV_WRITEPIPE = 5"
definition EV_WRITESOCK :: int where "EV_WRITESOCK = 6"
definition EV_WRITEBUF :: int where "EV_WRITEBUF = 7"

lemmas mode_defs = EV_READFILE_def EV_READPIPE_def EV_READSOCK_def EV_READBUF_def
  EV_WRITEFILE_def EV_WRITEPIPE_def EV_WRITESOCK_def EV_WRITEBUF_def

definition EV_MAGIC :: u32 where "EV_MAGIC = 0xc0da0100"
definition EV_HDSIZ :: u32 where "EV_HDSIZ = 8"
definition EV_VERSION :: u32 where "EV_VERSION = 4"
definition EV_BLOCKSIZE_V4 :: u32 where "EV_BLOCKSIZE_V4 = 64000"
definition EV_BLOCKSIZE_MIN :: u32 where "EV_BLOCKSIZE_MIN = 256"
definition EV_BLOCKSIZE_MAX :: u32 where "EV_BLOCKSIZE_MAX = 25600000"
definition EV_VERSION_MASK :: u32 where "EV_VERSION_MASK = 0xFF"
definition EV_DICTIONARY_MASK :: u32 where "EV_DICTIONARY_MASK = 0x100"
definition EV_LASTBLOCK_MASK :: u32 where "EV_LASTBLOCK_MASK = 0x200"
definition EV_FIRSTEVENT_MASK :: u32 where "EV_FIRSTEVENT_MASK = 0x4000"
definition EV_EVENTS_MAX :: u32 where "EV_EVENTS_MAX = 100000"
definition EV_EVENTS_MAX_DEF :: u32 where "EV_EVENTS_MAX_DEF = 10000"
definition EV_SPLIT_SIZE :: u64 where "EV_SPLIT_SIZE = 2000000000"

lemmas const_defs = EV_MAGIC_def EV_HDSIZ_def EV_VERSION_def EV_BLOCKSIZE_V4_def EV_BLOCKSIZE_MIN_def
  EV_BLOCKSIZE_MAX_def EV_VERSION_MASK_def EV_DICTIONARY_MASK_def EV_LASTBLOCK_MASK_def
  EV_FIRSTEVENT_MASK_def EV_EVENTS_MAX_def EV_EVENTS_MAX_DEF_def EV_SPLIT_SIZE_def

text \<open>Positions in a block header.\<close>

definition EV_HD_BLKSIZ :: nat where "EV_HD_BLKSIZ = 0"
definition EV_HD_BLKNUM :: nat where "EV_HD_BLKNUM = 1"
definition EV_HD_HDSIZ :: nat where "EV_HD_HDSIZ = 2"
definition EV_HD_COUNT :: nat where "EV_HD_COUNT = 3"
definition EV_HD_START :: nat where "EV_HD_START = 3"
definition EV_HD_USED :: nat where "EV_HD_USED = 4"
definition EV_HD_VER :: nat where "EV_HD_VER = 5"
definition EV_HD_MAGIC :: nat where "EV_HD_MAGIC = 7"

lemmas pos_defs = EV_HD_BLKSIZ_def EV_HD_BLKNUM_def EV_HD_HDSIZ_def EV_HD_COUNT_def EV_HD_START_def
  EV_HD_USED_def EV_HD_VER_def EV_HD_MAGIC_def

section \<open>Block header words\<close>

definition hasDictionaryInt :: "u32 \<Rightarrow> bool" where
  "hasDictionaryInt i \<longleftrightarrow> (i AND EV_DICTIONARY_MASK) > 0"

definition isLastBlockInt :: "u32 \<Rightarrow> bool" where
  "isLastBlockInt i \<longleftrightarrow> (i AND EV_LASTBLOCK_MASK) > 0"

definition clearLastBlockBitInt :: "u32 \<Rightarrow> u32" where
  "clearLastBlockBitInt i = i AND NOT EV_LASTBLOCK_MASK"

definition setLastBlockBitInt :: "u32 \<Rightarrow> u32" where
  "setLastBlockBitInt i = i OR EV_LASTBLOCK_MASK"

definition setDictionaryBitInt :: "u32 \<Rightarrow> u32" where
  "setDictionaryBitInt i = i OR EV_DICTIONARY_MASK"

text \<open>\<^verbatim>\<open>initBlockHeader(a)\<close> and \<^verbatim>\<open>initLastBlockHeader(a, b)\<close>: the eight words they store.\<close>

definition initBlockHeader :: words where
  "initBlockHeader = [0, 1, EV_HDSIZ, 0, 0, EV_VERSION, 0, EV_MAGIC]"

definition initLastBlockHeader :: "u32 \<Rightarrow> words" where
  "initLastBlockHeader b = [8, b, EV_HDSIZ, 0, 0, EV_VERSION OR EV_LASTBLOCK_MASK, 0, EV_MAGIC]"

section \<open>The handle structure\<close>

record EVFILE =
  "file" :: "stream option"
  handle :: int
  rw :: int
  magic :: u32
  byte_swapped :: bool
  version :: int
  append :: int
  eventCount :: u32
  bufmem :: words
  buf :: nat
  "next" :: nat
  left :: u32
  blksiz :: u32
  blknum :: u32
  blkNumDiff :: u32
  blkSizeTarget :: u32
  blkEvCount :: u32
  bufSize :: u32
  bufRealSize :: u32
  blkEvMax :: u32
  isLastBlock :: bool
  baseFileName :: "string option"
  fileName :: "string option"
  runType :: "string option"
  specifierCount :: int
  splitting :: bool
  currentHeader :: nat
  bytesToBuf :: u32
  eventsToBuf :: u32
  eventsToFile :: u32
  bytesToFile :: u64
  runNumber :: u32
  splitNumber :: u32
  split :: u64
  fileSize :: u64
  rwBuf :: words
  rwBufSize :: u32
  rwBytesOut :: u32
  rwBytesIn :: u32
  rwFirstWrite :: bool
  sockFd :: int
  randomAccess :: bool
  mmapFileSize :: u64
  mmapFile :: words
  pTable :: "nat list option"
  hasAppendDictionary :: bool
  wroteDictionary :: bool
  dictLength :: u32
  dictBuf :: "words option"
  dictionary :: "string option"
  wroteFirstEvent :: bool
  firstEventLength :: u32
  firstEventBuf :: "words option"
  wroteCommonBlock :: bool
  commonBlkCount :: u32

definition structInit :: EVFILE where
  "structInit = \<lparr>
     file = None, handle = 0, rw = 0, magic = EV_MAGIC, byte_swapped = False, version = 4, append = 0,
     eventCount = 0, bufmem = [], buf = 0, next = 0, left = EV_BLOCKSIZE_V4 - EV_HDSIZ, blksiz = EV_HDSIZ,
     blknum = 1, blkNumDiff = 0, blkSizeTarget = EV_BLOCKSIZE_V4, blkEvCount = 0, bufSize = EV_BLOCKSIZE_V4,
     bufRealSize = EV_BLOCKSIZE_V4, blkEvMax = EV_EVENTS_MAX_DEF, isLastBlock = False, baseFileName = None,
     fileName = None, runType = None, specifierCount = 0, splitting = False, currentHeader = 0,
     bytesToBuf = 4 * EV_HDSIZ, eventsToBuf = 0, eventsToFile = 0, bytesToFile = 0, runNumber = 1,
     splitNumber = 0, split = EV_SPLIT_SIZE, fileSize = 0, rwBuf = [], rwBufSize = 0, rwBytesOut = 0,
     rwBytesIn = 0, rwFirstWrite = True, sockFd = 0, randomAccess = False, mmapFileSize = 0, mmapFile = [],
     pTable = None, hasAppendDictionary = False, wroteDictionary = False, dictLength = 0, dictBuf = None,
     dictionary = None, wroteFirstEvent = False, firstEventLength = 0, firstEventBuf = None,
     wroteCommonBlock = False, commonBlkCount = 0\<rparr>"

text \<open>The memory \<^verbatim>\<open>buf\<close>, \<^verbatim>\<open>next\<close> and \<^verbatim>\<open>currentHeader\<close> point into.\<close>

definition mem :: "EVFILE \<Rightarrow> words" where
  "mem a = (if rw a = EV_WRITEBUF then rwBuf a else bufmem a)"

definition set_mem :: "words \<Rightarrow> EVFILE \<Rightarrow> EVFILE" where
  "set_mem m a = (if rw a = EV_WRITEBUF then a\<lparr>rwBuf := m\<rparr> else a\<lparr>bufmem := m\<rparr>)"

definition writing :: "EVFILE \<Rightarrow> bool" where
  "writing a \<longleftrightarrow> rw a = EV_WRITEFILE \<or> rw a = EV_WRITEBUF \<or> rw a = EV_WRITESOCK \<or> rw a = EV_WRITEPIPE"

definition reading :: "EVFILE \<Rightarrow> bool" where
  "reading a \<longleftrightarrow> rw a = EV_READFILE \<or> rw a = EV_READPIPE \<or> rw a = EV_READBUF \<or> rw a = EV_READSOCK"

lemma mem_set_mem [simp]: "mem (set_mem m a) = m" "rw (set_mem m a) = rw a"
  by (simp_all add: mem_def set_mem_def)

text \<open>Read, and change, a word of the buffer.\<close>

definition rd_buf :: "EVFILE \<Rightarrow> nat \<Rightarrow> u32 option" where "rd_buf a i = rd (mem a) i"

definition wr_buf :: "nat \<Rightarrow> u32 \<Rightarrow> EVFILE \<Rightarrow> EVFILE option" where
  "wr_buf i v a = map_option (\<lambda>m. set_mem m a) (wr (mem a) i v)"

section \<open>The table of handles\<close>

text \<open>\<^verbatim>\<open>handleCount\<close> is the length of \<^verbatim>\<open>handleList\<close>. The locks of a handle have no state of their own here.\<close>

record lib =
  handleList :: "EVFILE option list"
  sys :: world

definition handleCount :: "lib \<Rightarrow> nat" where "handleCount l = length (handleList l)"

definition expandHandles :: "env \<Rightarrow> lib \<Rightarrow> status \<times> lib" where
  "expandHandles e l =
     (if handleCount l < 1 then
        (if malloc_ok e (100 * 8) then (S_SUCCESS, l\<lparr>handleList := replicate 100 None\<rparr>)
         else (S_EVFILE_ALLOCFAIL, l))
      else
        (let newCount = handleCount l * 3 div 2 in
         if malloc_ok e (newCount * 8)
         then (S_SUCCESS, l\<lparr>handleList := handleList l @ replicate (newCount - handleCount l) None\<rparr>)
         else (S_EVFILE_ALLOCFAIL, l)))"

text \<open>The end of \<^verbatim>\<open>evOpenImpl\<close>: the first free slot, or the first of the slots added.\<close>

fun free_slot :: "EVFILE option list \<Rightarrow> nat option" where
  "free_slot [] = None"
| "free_slot (None # hs) = Some 0"
| "free_slot (Some a # hs) = map_option Suc (free_slot hs)"

definition newHandle :: "env \<Rightarrow> EVFILE \<Rightarrow> lib \<Rightarrow> (int \<times> lib) option" where
  "newHandle e a l0 =
     (let l = (if handleCount l0 < 1 then snd (expandHandles e l0) else l0) in
      (case free_slot (handleList l) of
         Some i \<Rightarrow> Some (int i + 1, l\<lparr>handleList := (handleList l)[i := Some (a\<lparr>handle := int i + 1\<rparr>)]\<rparr>)
       | None \<Rightarrow>
           (let i = handleCount l; l' = snd (expandHandles e l) in
            map_option (\<lambda>hs. (int i + 1, l'\<lparr>handleList := hs\<rparr>))
              (wr (handleList l') i (Some (a\<lparr>handle := int i + 1\<rparr>))))))"

text \<open>
  How every routine finds its structure: the handle must be in range and its slot occupied. \<open>with_handle\<close>
  runs a routine on the structure and stores it back.
\<close>

definition lookup_handle :: "lib \<Rightarrow> int \<Rightarrow> EVFILE option" where
  "lookup_handle l h = (if h < 1 \<or> h > int (handleCount l) then None else handleList l ! nat (h - 1))"

definition store_handle :: "lib \<Rightarrow> int \<Rightarrow> EVFILE \<Rightarrow> lib" where
  "store_handle l h a = l\<lparr>handleList := (handleList l)[nat (h - 1) := Some a]\<rparr>"

definition free_handle :: "lib \<Rightarrow> int \<Rightarrow> lib" where
  "free_handle l h = l\<lparr>handleList := (handleList l)[nat (h - 1) := None]\<rparr>"

definition bad_handle :: "lib \<Rightarrow> int \<Rightarrow> bool" where
  "bad_handle l h \<longleftrightarrow> h < 1 \<or> h > int (handleCount l)"

section \<open>The table as a map\<close>

text \<open>
  What the routines need of a table of handles: a lookup sees the last store, and only at its own
  handle. \<open>keeps_others\<close> and the lemmas on it are what the callers use.
\<close>

locale handle_table =
  fixes get :: "'t \<Rightarrow> int \<Rightarrow> 'a option" and put :: "'t \<Rightarrow> int \<Rightarrow> 'a \<Rightarrow> 't" and del :: "'t \<Rightarrow> int \<Rightarrow> 't"
  assumes get_put: "get t h \<noteq> None \<Longrightarrow> get (put t h a) h = Some a"
    and get_put_other: "h \<noteq> k \<Longrightarrow> get t k \<noteq> None \<Longrightarrow> get (put t k a) h = get t h"
    and get_del: "get t h \<noteq> None \<Longrightarrow> get (del t h) h = None"
    and get_del_other: "h \<noteq> k \<Longrightarrow> get t k \<noteq> None \<Longrightarrow> get (del t k) h = get t h"
begin

lemma put_keeps_open: "get t k \<noteq> None \<Longrightarrow> get t h \<noteq> None \<Longrightarrow> get (put t k a) h \<noteq> None"
  by (cases "h = k") (auto simp: get_put get_put_other)

lemma put_put_get: "get t h \<noteq> None \<Longrightarrow> get (put (put t h a) h b) h = Some b"
  by (rule get_put) (simp add: get_put)

lemma del_put: "get t h \<noteq> None \<Longrightarrow> get (del (put t h a) h) h = None"
  by (rule get_del) (simp add: get_put)

lemma update_frame: "get t k \<noteq> None \<Longrightarrow> (\<And>h. h \<noteq> k \<Longrightarrow> get (put t k a) h = get t h)"
  by (rule get_put_other) auto

end

lemma lookup_handle_Some_iff:
  "lookup_handle l h = Some a \<longleftrightarrow> 1 \<le> h \<and> h \<le> int (handleCount l) \<and> handleList l ! nat (h - 1) = Some a"
  by (auto simp: lookup_handle_def)

interpretation handles: handle_table lookup_handle store_handle free_handle
proof
  show "lookup_handle l h \<noteq> None \<Longrightarrow> lookup_handle (store_handle l h a) h = Some a" for l h a
    by (auto simp: lookup_handle_def store_handle_def handleCount_def split: if_splits)
  show "h \<noteq> k \<Longrightarrow> lookup_handle l k \<noteq> None \<Longrightarrow> lookup_handle (store_handle l k a) h = lookup_handle l h" for l h k a
    by (auto simp: lookup_handle_def store_handle_def handleCount_def nth_list_update split: if_splits)
  show "lookup_handle l h \<noteq> None \<Longrightarrow> lookup_handle (free_handle l h) h = None" for l h
    by (auto simp: lookup_handle_def free_handle_def handleCount_def split: if_splits)
  show "h \<noteq> k \<Longrightarrow> lookup_handle l k \<noteq> None \<Longrightarrow> lookup_handle (free_handle l k) h = lookup_handle l h" for l h k
    by (auto simp: lookup_handle_def free_handle_def handleCount_def nth_list_update split: if_splits)
qed

lemma free_slot_Some: "free_slot hs = Some i \<Longrightarrow> i < length hs \<and> hs ! i = None \<and> (\<forall>j < i. hs ! j \<noteq> None)"
  by (induction hs arbitrary: i rule: free_slot.induct) (auto simp: nth_Cons' less_Suc_eq_0_disj)

lemma free_slot_None: "free_slot hs = None \<longleftrightarrow> None \<notin> set hs"
  by (induction hs rule: free_slot.induct) auto

lemma free_slot_replicate: "0 < n \<Longrightarrow> free_slot (replicate n None) = Some 0"
  by (cases n) auto

text \<open>The table a successful open leaves: a longer or equally long table with the new slot filled.\<close>

lemma newHandle_shape:
  assumes "newHandle e a l = Some (h, l')"
  shows "\<exists>i n. h = int i + 1 \<and> sys l' = sys l \<and> i < length (handleList l @ replicate n None) \<and>
           (handleList l @ replicate n None) ! i = None \<and>
           handleList l' = (handleList l @ replicate n None)[i := Some (a\<lparr>handle := h\<rparr>)]"
proof -
  define l1 where "l1 = (if handleCount l < 1 then snd (expandHandles e l) else l)"
  obtain n1 where l1: "handleList l1 = handleList l @ replicate n1 None" "sys l1 = sys l"
  proof -
    have "\<exists>n1. handleList l1 = handleList l @ replicate n1 None \<and> sys l1 = sys l"
      by (auto simp: l1_def expandHandles_def handleCount_def intro: exI [of _ 100] exI [of _ 0])
    then show ?thesis using that by blast
  qed
  show ?thesis
  proof (cases "free_slot (handleList l1)")
    case (Some i)
    then have "h = int i + 1" "l' = l1\<lparr>handleList := (handleList l1)[i := Some (a\<lparr>handle := h\<rparr>)]\<rparr>"
      using assms unfolding newHandle_def l1_def [symmetric] by (auto simp: Let_def)
    then show ?thesis using free_slot_Some [OF Some] l1 by auto
  next
    case None
    define l2 where "l2 = snd (expandHandles e l1)"
    have ne: "handleList l1 \<noteq> [] \<or> handleList l2 = handleList l1 @ replicate 100 None \<or> handleList l2 = handleList l1"
      by (auto simp: l2_def expandHandles_def handleCount_def)
    obtain n2 where l2: "handleList l2 = handleList l1 @ replicate n2 None" "sys l2 = sys l1"
    proof -
      have "\<exists>n2. handleList l2 = handleList l1 @ replicate n2 None \<and> sys l2 = sys l1"
        by (auto simp: l2_def expandHandles_def handleCount_def Let_def intro: exI [of _ 100] exI [of _ 0])
      then show ?thesis using that by blast
    qed
    have w: "h = int (handleCount l1) + 1" "wr (handleList l2) (handleCount l1) (Some (a\<lparr>handle := h\<rparr>)) = Some (handleList l')"
      "sys l' = sys l2"
      using assms None unfolding newHandle_def l1_def [symmetric] l2_def by (auto simp: Let_def)
    then have lt: "handleCount l1 < length (handleList l2)" by (simp add: wr_Some_iff)
    then have "handleList l2 ! handleCount l1 = None" using l2 by (auto simp: handleCount_def nth_append)
    then show ?thesis using w lt l1 l2
      by (intro exI [of _ "handleCount l1"] exI [of _ "n1 + n2"]) (auto simp: wr_Some_iff replicate_add)
  qed
qed

lemma newHandle_binds:
  assumes "newHandle e a l = Some (h, l')"
  shows "1 \<le> h \<and> lookup_handle l h = None \<and> sys l' = sys l \<and>
    (\<forall>k. lookup_handle l' k = (if k = h then Some (a\<lparr>handle := h\<rparr>) else lookup_handle l k))"
proof -
  obtain i n where s: "h = int i + 1" "i < length (handleList l @ replicate n None)"
    "(handleList l @ replicate n None) ! i = None" "sys l' = sys l"
    "handleList l' = (handleList l @ replicate n None)[i := Some (a\<lparr>handle := h\<rparr>)]"
    using newHandle_shape [OF assms] by blast
  have "lookup_handle l h = None"
    using s(1-3) by (auto simp: lookup_handle_def handleCount_def nth_append split: if_splits)
  moreover have "lookup_handle l' h = Some (a\<lparr>handle := h\<rparr>)"
    using s(1,2,5) by (auto simp: lookup_handle_def handleCount_def)
  moreover have "lookup_handle l' k = lookup_handle l k" if "k \<noteq> h" for k
  proof -
    have "handleList l' ! nat (k - 1) = (handleList l @ replicate n None) ! nat (k - 1)" if "1 \<le> k"
      using s(1,5) \<open>k \<noteq> h\<close> that by (auto simp: nth_list_update)
    then show ?thesis using s(2,5) by (auto simp: lookup_handle_def handleCount_def nth_append)
  qed
  ultimately show ?thesis using s(1,4) by simp
qed

lemma newHandle_ok:
  assumes "None \<in> set (handleList l) \<or> handleList l = []" "\<And>n. malloc_ok e n"
  shows "\<exists>h l'. newHandle e a l = Some (h, l')"
proof (cases "handleList l = []")
  case True
  then show ?thesis
    using assms(2) by (simp add: newHandle_def expandHandles_def handleCount_def free_slot_replicate)
next
  case False
  then obtain i where "free_slot (handleList l) = Some i" using assms(1) free_slot_None by blast
  then show ?thesis using False by (simp add: newHandle_def handleCount_def)
qed

lemma bad_handle_lookup: "lookup_handle l h = Some a \<Longrightarrow> \<not> bad_handle l h"
  by (simp add: lookup_handle_Some_iff bad_handle_def)

lemma lookup_sys [simp]: "lookup_handle (l\<lparr>sys := w\<rparr>) h = lookup_handle l h"
  by (simp add: lookup_handle_def handleCount_def)

text \<open>A call on one handle leaves the others as they were; a handle can be opened when there is room for it.\<close>

definition others_kept :: "lib \<Rightarrow> int \<Rightarrow> lib \<Rightarrow> bool" where
  "others_kept l h l' \<longleftrightarrow> (\<forall>k. k \<noteq> h \<longrightarrow> lookup_handle l' k = lookup_handle l k)"

lemma others_kept_store: "lookup_handle l h = Some a \<Longrightarrow> others_kept l h ((store_handle l h b)\<lparr>sys := w\<rparr>)"
  using handles.get_put_other [of _ h l b] by (auto simp: others_kept_def)

lemma others_kept_trans [trans]: "others_kept l h l' \<Longrightarrow> others_kept l' h l'' \<Longrightarrow> others_kept l h l''"
  by (simp add: others_kept_def)

definition can_open :: "lib \<Rightarrow> bool" where
  "can_open l \<longleftrightarrow> None \<in> set (handleList l) \<or> handleList l = []"

section \<open>Properties\<close>

text \<open>Opening allocates a handle that was not in use, binds it to the new structure, and leaves every
  other handle bound as it was; the system state is not touched.\<close>
theorem newHandle_fresh:
  assumes "newHandle e a l = Some (h, l')"
  shows "1 \<le> h \<and> lookup_handle l h = None \<and> sys l' = sys l \<and>
    (\<forall>k. lookup_handle l' k = (if k = h then Some (a\<lparr>handle := h\<rparr>) else lookup_handle l k))"
  using assms by (rule newHandle_binds)

definition calm :: env where
  "calm = \<lparr>malloc_ok = (\<lambda>_. True), create_ok = (\<lambda>_. True), read_ok = (\<lambda>_. True), write_ok = (\<lambda>_. True), err_no = 5, fclose_status = 0, getenv = (\<lambda>_. None),
     junk = (\<lambda>_. 0xdeadbeef), stack_bytes = [NUL]\<rparr>"

definition empty_world :: world where
  "empty_world = \<lparr>files = (\<lambda>_. None), sock_in = (\<lambda>_. []), sock_out = (\<lambda>_. []), sock_plan = (\<lambda>_. [])\<rparr>"

definition empty_lib :: lib where "empty_lib = \<lparr>handleList = [], sys = empty_world\<rparr>"

theorem newHandle_fresh_witness:
  "\<exists>l'. newHandle calm structInit empty_lib = Some (1, l') \<and> lookup_handle empty_lib 1 = None \<and>
     lookup_handle l' 1 = Some (structInit\<lparr>handle := 1\<rparr>) \<and> lookup_handle l' 2 = None"
proof -
  have e: "expandHandles calm empty_lib = (S_SUCCESS, empty_lib\<lparr>handleList := replicate 100 None\<rparr>)"
    by (simp add: expandHandles_def handleCount_def empty_lib_def calm_def)
  obtain l' where n: "newHandle calm structInit empty_lib = Some (1, l')"
    unfolding newHandle_def e by (simp add: handleCount_def empty_lib_def free_slot_replicate)
  have "lookup_handle empty_lib k = None" for k by (auto simp: lookup_handle_def empty_lib_def handleCount_def)
  then show ?thesis using newHandle_fresh [OF n] n by auto
qed

text \<open>When every handle is in use and the larger table cannot be allocated, the open stores its
  structure behind the end of the table: the status of \<^verbatim>\<open>expandHandles\<close> is not looked at.\<close>
theorem newHandle_full_overruns:
  assumes "None \<notin> set (handleList l)" and "handleList l \<noteq> []" and "\<not> malloc_ok e (handleCount l * 3 div 2 * 8)"
  shows "fst (expandHandles e l) = S_EVFILE_ALLOCFAIL \<and> newHandle e a l = None"
proof -
  have "free_slot (handleList l) = None" using assms(1) by (simp add: free_slot_None)
  then show ?thesis using assms(2,3) by (simp add: newHandle_def expandHandles_def handleCount_def Let_def wr_def)
qed

theorem newHandle_full_overruns_witness:
  "newHandle (calm\<lparr>malloc_ok := (\<lambda>_. False)\<rparr>) structInit \<lparr>handleList = replicate 100 (Some structInit), sys = empty_world\<rparr> = None"
  using newHandle_full_overruns [of "\<lparr>handleList = replicate 100 (Some structInit), sys = empty_world\<rparr>"
     "calm\<lparr>malloc_ok := (\<lambda>_. False)\<rparr>" structInit]
  by (simp add: replicate_eq_replicate set_replicate_conv_if)

end
