(* ===== verification/EvioNames.thy ===== *)
theory EvioNames
  imports EvioSwap
begin

text \<open>
  The tables of names of \<^verbatim>\<open>evio.c\<close>: \<^verbatim>\<open>evGetTypename\<close>, \<^verbatim>\<open>evIsContainer\<close>, \<^verbatim>\<open>evPerror\<close>, and their agreement with
  the types the swap routines know and with the status codes.
\<close>

definition evGetTypename :: "int \<Rightarrow> string" where
  "evGetTypename type =
     (if type = 0x0 then ''unknown32''
      else if type = 0x1 then ''uint32''
      else if type = 0x2 then ''float32''
      else if type = 0x3 then ''string''
      else if type = 0x4 then ''int16''
      else if type = 0x5 then ''uint16''
      else if type = 0x6 then ''int8''
      else if type = 0x7 then ''uint8''
      else if type = 0x8 then ''float64''
      else if type = 0x9 then ''int64''
      else if type = 0xa then ''uint64''
      else if type = 0xb then ''int32''
      else if type = 0xe \<or> type = 0x10 then ''bank''
      else if type = 0xd \<or> type = 0x20 then ''segment''
      else if type = 0xc then ''tagsegment''
      else if type = 0xf then ''composite''
      else ''unknown'')"

definition evIsContainer :: "int \<Rightarrow> int" where
  "evIsContainer type =
     (if type = 0xc \<or> type = 0xd \<or> type = 0xe \<or> type = 0x10 \<or> type = 0x20 then 1 else 0)"

text \<open>Decimal digits of a C \<^verbatim>\<open>int\<close>, as \<^verbatim>\<open>%d\<close> prints it.\<close>

definition digit_char :: "nat \<Rightarrow> char" where "digit_char d = char_of (48 + d)"

fun nat_digits :: "nat \<Rightarrow> string" where
  "nat_digits n = (if n < 10 then [digit_char n] else nat_digits (n div 10) @ [digit_char (n mod 10)])"

declare nat_digits.simps [simp del]

definition int_digits :: "int \<Rightarrow> string" where
  "int_digits i = (if i < 0 then CHR ''-'' # nat_digits (nat (- i)) else nat_digits (nat i))"

definition line_of :: "string \<Rightarrow> string" where "line_of s = s @ [CHR 0x0A]"

definition evPerror :: "int \<Rightarrow> string" where
  "evPerror error =
     (if error = S_SUCCESS then line_of ''S_SUCCESS:  action completed successfully''
      else if error = S_FAILURE then line_of ''S_FAILURE:  action failed''
      else if error = S_EVFILE then line_of ''S_EVFILE:  evfile.msg event file I/O''
      else if error = S_EVFILE_TRUNC then line_of ''S_EVFILE_TRUNC:  event truncated, insufficient buffer space''
      else if error = S_EVFILE_BADBLOCK then line_of ''S_EVFILE_BADBLOCK:  bad block (header) number''
      else if error = S_EVFILE_BADHANDLE
        then line_of ''S_EVFILE_BADHANDLE:  bad handle (closed?) or no memory to create new handle''
      else if error = S_EVFILE_BADFILE then line_of ''S_EVFILE_BADFILE:  bad file format''
      else if error = S_EVFILE_BADARG then line_of ''S_EVFILE_BADARG:  invalid function argument''
      else if error = S_EVFILE_ALLOCFAIL then line_of ''S_EVFILE_ALLOCFAIL:  failed to allocate memory''
      else if error = S_EVFILE_UNKOPTION then line_of ''S_EVFILE_UNKOPTION:  unknown option specified''
      else if error = S_EVFILE_UNXPTDEOF
        then line_of ''S_EVFILE_UNXPTDEOF:  unexpected end-of-file or end-of-valid_data while reading''
      else if error = S_EVFILE_BADSIZEREQ then line_of ''S_EVFILE_BADSIZEREQ:  invalid buffer size request to evIoct''
      else if error = S_EVFILE_BADMODE then line_of ''S_EVFILE_BADMODE:  invalid operation for current evOpen() mode''
      else line_of (''?evPerror...no such error: '' @ int_digits error))"

definition status_codes :: "int list" where
  "status_codes = [S_SUCCESS, S_FAILURE, S_EVFILE, S_EVFILE_TRUNC, S_EVFILE_BADBLOCK, S_EVFILE_BADHANDLE,
     S_EVFILE_BADFILE, S_EVFILE_BADARG, S_EVFILE_ALLOCFAIL, S_EVFILE_UNKOPTION, S_EVFILE_UNXPTDEOF,
     S_EVFILE_BADSIZEREQ, S_EVFILE_BADMODE]"

text \<open>The container test, the type names and the swap routine agree: on the 6-bit types of a header
  \<^verbatim>\<open>evIsContainer\<close> holds exactly for the types whose data the swap walks as structures, and those are exactly
  the types named bank, segment and tagsegment.\<close>
theorem evIsContainer_is_walked:
  assumes "0 \<le> type" "type < 64"
  shows "(evIsContainer type = 1 \<longleftrightarrow> child_kind (word_of_int type) \<noteq> None) \<and>
         (evIsContainer type = 1 \<longleftrightarrow> evGetTypename type \<in> {''bank'', ''segment'', ''tagsegment''})"
proof -
  have w: "(word_of_int type :: u32) = word_of_int k \<longleftrightarrow> type = k" if "0 \<le> k" "k < 64" for k
    using assms that by (simp add: word_of_int_eq_iff take_bit_int_eq_self)
  have "child_kind (word_of_int type) \<noteq> None \<longleftrightarrow>
        type = 0xe \<or> type = 0x10 \<or> type = 0xd \<or> type = 0x20 \<or> type = 0xc"
    using w [of 14] w [of 16] w [of 13] w [of 32] w [of 12] by (simp add: child_kind_def)
  then show ?thesis by (auto simp: evIsContainer_def evGetTypename_def)
qed

theorem evIsContainer_is_walked_witness:
  "evIsContainer 0x20 = 1 \<and> child_kind 0x20 \<noteq> None \<and> evGetTypename 0x20 = ''segment''"
  using evIsContainer_is_walked [of "0x20"] by (simp add: evGetTypename_def evIsContainer_def)

lemma nat_digits_length: "n < 10 ^ Suc k \<Longrightarrow> length (nat_digits n) \<le> Suc k"
proof (induction k arbitrary: n)
  case (Suc k)
  show ?case
  proof (cases "n < 10")
    case False
    have "n div 10 < 10 ^ Suc k" using Suc.prems by (simp add: div_less_iff_less_mult mult.commute)
    then show ?thesis using Suc.IH False by (subst nat_digits.simps) simp
  qed (subst nat_digits.simps, simp)
qed (subst nat_digits.simps, simp)

text \<open>Every message fits into the 256 bytes of the static buffer, whatever the argument, and the
  messages of the status codes are pairwise different.\<close>
theorem evPerror_fits:
  assumes "- (2 ^ 31) \<le> error" "error < 2 ^ 31"
  shows "length (evPerror error) + 1 \<le> 256 \<and> distinct (map evPerror status_codes)"
proof -
  have "length (nat_digits (nat \<bar>error\<bar>)) \<le> Suc 9"
    using assms by (intro nat_digits_length) simp
  then have "length (int_digits error) \<le> 11"
    by (cases "error < 0") (simp_all add: int_digits_def)
  then have "length (evPerror error) + 1 \<le> 256"
    by (simp add: evPerror_def line_of_def)
  moreover have "distinct (map evPerror status_codes)"
    by (simp add: status_codes_def evPerror_def status_simps line_of_def)
  ultimately show ?thesis by simp
qed

theorem evPerror_fits_witness:
  "length (evPerror (- 2147483648)) + 1 \<le> 256"
  using evPerror_fits [of "- 2147483648"] by simp

end
