(* ===== verification/EvioFileNames.thy ===== *)
theory EvioFileNames
  imports EvioHandle EvioNames
begin

text \<open>
  The names of the files written: \<^verbatim>\<open>evGenerateBaseFileName\<close> and \<^verbatim>\<open>evGenerateFileName\<close>, over a model of
  \<^verbatim>\<open>sprintf\<close> for the formats they use (\<^verbatim>\<open>%d\<close> and \<^verbatim>\<open>%x\<close> with a width and zero padding). A conversion
  without an argument, and a result longer than the block allocated for it, have no meaning (\<open>None\<close>).
\<close>

section \<open>sprintf for integers\<close>

fun hex_digits :: "nat \<Rightarrow> string" where
  "hex_digits n = (let c = (if n mod 16 < 10 then digit_char (n mod 16) else char_of (87 + n mod 16)) in
     if n < 16 then [c] else hex_digits (n div 16) @ [c])"

declare hex_digits.simps [simp del]

definition digits_value :: "string \<Rightarrow> nat" where
  "digits_value ds = foldl (\<lambda>v d. 10 * v + (code d - 48)) 0 ds"

definition print_int :: "string \<Rightarrow> char \<Rightarrow> int \<Rightarrow> string" where
  "print_int ds conv a =
     (let sign = (if conv = CHR ''d'' \<and> a < 0 then ''-'' else '''');
          body = (if conv = CHR ''d'' then nat_digits (nat \<bar>a\<bar>) else hex_digits (nat (a mod 2 ^ 32)));
          fill = digits_value ds - length sign - length body
      in if ds \<noteq> [] \<and> hd ds = CHR ''0'' then sign @ replicate fill CHR ''0'' @ body
         else replicate fill CHR '' '' @ sign @ body)"

function sprintf_ints :: "string \<Rightarrow> int list \<Rightarrow> string option" where
  "sprintf_ints [] args = Some []"
| "sprintf_ints (c # cs) args =
     (if c \<noteq> CHR ''%'' then map_option (Cons c) (sprintf_ints cs args)
      else (case (dropWhile isdigit cs, args) of
          (conv # rest, a # args') \<Rightarrow>
            (if conv = CHR ''d'' \<or> conv = CHR ''x''
             then map_option (\<lambda>r. print_int (takeWhile isdigit cs) conv a @ r) (sprintf_ints rest args')
             else None)
        | _ \<Rightarrow> None))"
  by pat_completeness auto
termination
proof (relation "measure (\<lambda>(s, args). length s)", goal_cases)
  case (3 c cs args a b conv rest aa args')
  then have "length (conv # rest) \<le> length cs" using length_dropWhile_le [of isdigit cs] by simp
  then show ?case by simp
qed auto

text \<open>\<^verbatim>\<open>sprintf\<close> into a block of \<open>n\<close> bytes.\<close>

definition sprintf_into :: "nat \<Rightarrow> string \<Rightarrow> int list \<Rightarrow> string option" where
  "sprintf_into n fmt args = do {
     r \<leftarrow> sprintf_ints fmt args;
     if length r + 1 \<le> n then Some r else None
   }"

section \<open>The two routines\<close>

text \<open>The result is the status and, on success, the base name and the number of specifiers.\<close>

definition evGenerateBaseFileName :: "env \<Rightarrow> string option \<Rightarrow> bool \<Rightarrow> bool \<Rightarrow> (status \<times> (string \<times> int) option) option" where
  "evGenerateBaseFileName e origName baseName count =
     (if \<not> count \<or> \<not> baseName \<or> origName = None \<or> length (the origName) < 1 then Some (S_EVFILE_BADARG, None)
      else do {
        tmp \<leftarrow> evStrReplaceEnvVar e origName;
        if tmp = None then Some (S_EVFILE_ALLOCFAIL, None)
        else do {
          found \<leftarrow> evStrFindSpecifiers e tmp;
          (case found of
             None \<Rightarrow> Some (S_EVFILE_ALLOCFAIL, None)
           | Some (name, n) \<Rightarrow>
               if n > 2 then Some (S_FAILURE, None)
               else Some (S_SUCCESS, Some (name, n)))
        }
      })"

text \<open>The result is the name or \<^verbatim>\<open>NULL\<close>, and the handle with its base name changed.\<close>

definition evGenerateFileName ::
  "env \<Rightarrow> EVFILE option \<Rightarrow> int \<Rightarrow> int \<Rightarrow> bool \<Rightarrow> int \<Rightarrow> string option \<Rightarrow> (string option \<times> EVFILE option) option" where
  "evGenerateFileName e h specifiers runNo splits splitNo rtype =
     (if splits \<and> splitNo < 0 \<or> runNo < 1 \<or> specifiers < 0 \<or> specifiers > 2 then Some (None, h)
      else case h of None \<Rightarrow> Some (None, h)
      | Some a \<Rightarrow>
          if rw a \<noteq> EV_WRITEFILE then Some (None, h)
          else if baseFileName a = None then Some (None, h)
          else do {
            name \<leftarrow> evStrReplace e (baseFileName a) (Some ''%s'') rtype;
            (case name of
               None \<Rightarrow> Some (None, h)
             | Some base \<Rightarrow>
                 let h = Some (a\<lparr>baseFileName := Some base\<rparr>) in
                 if splits then
                   (if specifiers < 1 then
                      (if \<not> malloc_ok e (length base + 12) \<or> \<not> malloc_ok e (length base + 6) then Some (None, h)
                       else do { f \<leftarrow> sprintf_into (length base + 12) (base @ ''.%d'') [splitNo]; Some (Some f, h) })
                    else if specifiers = 1 then
                      (if \<not> malloc_ok e (length base + 22) \<or> \<not> malloc_ok e (length base + 6) then Some (None, h)
                       else do { f \<leftarrow> sprintf_into (length base + 22) (base @ ''.%d'') [runNo, splitNo]; Some (Some f, h) })
                    else
                      (if \<not> malloc_ok e (length base + 21) then Some (None, h)
                       else do { f \<leftarrow> sprintf_into (length base + 21) base [runNo, splitNo]; Some (Some f, h) }))
                 else if specifiers = 1 then
                   (if \<not> malloc_ok e (length base + 11) then Some (None, h)
                    else do { f \<leftarrow> sprintf_into (length base + 11) base [runNo]; Some (Some f, h) })
                 else if specifiers = 2 then
                   (if \<not> malloc_ok e (length base + 11) then Some (None, h)
                    else do {
                      f \<leftarrow> sprintf_into (length base + 11) base [runNo];
                      f \<leftarrow> evStrRemoveSpecifiers e (Some f);
                      Some (f, h)
                    })
                 else Some (strdup e base, h))
          })"

section \<open>Printed numbers can be read back\<close>

lemma code_digit_char [simp]: "d < 10 \<Longrightarrow> code (digit_char d) = 48 + d"
  by (simp add: code_def digit_char_def)

lemma isdigit_digit_char [simp]: "d < 10 \<Longrightarrow> isdigit (digit_char d)"
  by (simp add: isdigit_def)

lemma digits_value_snoc [simp]: "digits_value (xs @ [d]) = 10 * digits_value xs + (code d - 48)"
  by (simp add: digits_value_def)

lemma digits_value_zeros [simp]: "digits_value (replicate k CHR ''0'' @ xs) = digits_value xs"
  by (induction k) (simp_all add: digits_value_def code_def)

lemma digits_value_nat_digits [simp]: "digits_value (nat_digits n) = n"
proof (induction n rule: nat_digits.induct)
  case (1 n)
  show ?case
  proof (cases "n < 10")
    case True then show ?thesis by (subst nat_digits.simps) (simp add: digits_value_def)
  next
    case False then show ?thesis using 1 by (subst nat_digits.simps) simp
  qed
qed

definition hex_char_value :: "char \<Rightarrow> nat" where
  "hex_char_value c = (if code c < 58 then code c - 48 else code c - 87)"

definition hex_value :: "string \<Rightarrow> nat" where
  "hex_value ds = foldl (\<lambda>v d. 16 * v + hex_char_value d) 0 ds"

lemma hex_value_snoc [simp]: "hex_value (xs @ [d]) = 16 * hex_value xs + hex_char_value d"
  by (simp add: hex_value_def)

lemma hex_value_zeros [simp]: "hex_value (replicate k CHR ''0'' @ xs) = hex_value xs"
  by (induction k) (simp_all add: hex_value_def hex_char_value_def code_def)

lemma hex_char_value_digit:
  "n < 16 \<Longrightarrow> hex_char_value (if n < 10 then digit_char n else char_of (87 + n)) = n"
  by (simp add: hex_char_value_def code_def digit_char_def)

lemma hex_value_hex_digits [simp]: "hex_value (hex_digits n) = n"
proof (induction n rule: hex_digits.induct)
  case (1 n)
  let ?c = "if n mod 16 < 10 then digit_char (n mod 16) else char_of (87 + n mod 16)"
  have c: "hex_char_value ?c = n mod 16" by (rule hex_char_value_digit) simp
  show ?case
  proof (cases "n < 16")
    case True
    then show ?thesis using c by (subst hex_digits.simps) (simp add: hex_value_def Let_def)
  next
    case False
    have "hex_value (hex_digits n) = 16 * hex_value (hex_digits (n div 16)) + hex_char_value ?c"
      using False by (subst hex_digits.simps) (simp only: Let_def if_False hex_value_snoc)
    then show ?thesis using 1 [OF refl False] c by simp
  qed
qed

lemma hex_digits_length: "n < 16 ^ Suc k \<Longrightarrow> length (hex_digits n) \<le> Suc k"
proof (induction k arbitrary: n)
  case (Suc k)
  show ?case
  proof (cases "n < 16")
    case False
    have "n div 16 < 16 ^ Suc k" using Suc.prems by (simp add: div_less_iff_less_mult mult.commute)
    then show ?thesis using Suc.IH False by (subst hex_digits.simps) (simp add: Let_def)
  qed (subst hex_digits.simps, simp add: Let_def)
qed (subst hex_digits.simps, simp add: Let_def)

definition small :: "int \<Rightarrow> bool" where "small a \<longleftrightarrow> 0 \<le> a \<and> a < 2 ^ 31"

lemma print_int_shape:
  assumes "small a" "ds = [] \<or> hd ds = CHR ''0''"
  shows "\<exists>k. print_int ds conv a =
    replicate k CHR ''0'' @ (if conv = CHR ''d'' then nat_digits (nat a) else hex_digits (nat a))"
proof (cases "ds = []")
  case True
  then have "digits_value ds = 0" by (simp add: digits_value_def)
  then show ?thesis using assms True by (intro exI [of _ 0]) (auto simp: print_int_def small_def Let_def)
next
  case False
  then show ?thesis using assms by (auto simp: print_int_def small_def Let_def)
qed

lemma print_int_inj:
  assumes "small a" "small b" "ds = [] \<or> hd ds = CHR ''0''" "print_int ds conv a = print_int ds conv b"
  shows "a = b"
proof -
  obtain k j where eq:
    "replicate k CHR ''0'' @ (if conv = CHR ''d'' then nat_digits (nat a) else hex_digits (nat a)) =
     replicate j CHR ''0'' @ (if conv = CHR ''d'' then nat_digits (nat b) else hex_digits (nat b))"
    using print_int_shape [OF assms(1,3), of conv] print_int_shape [OF assms(2,3), of conv] assms(4) by metis
  have "nat a = nat b"
    using arg_cong [OF eq, of digits_value] arg_cong [OF eq, of hex_value] by (cases "conv = CHR ''d''") simp_all
  then show ?thesis using assms(1,2) by (simp add: small_def eq_nat_nat_iff)
qed

lemma print_int_length:
  assumes "small a" "digits_value ds \<le> 10"
  shows "length (print_int ds conv a) \<le> 10"
proof -
  have "nat a < 2147483648" using assms(1) by (simp add: small_def nat_less_iff)
  then have "length (nat_digits (nat a)) \<le> Suc 9" by (intro nat_digits_length) simp
  moreover have "length (hex_digits (nat a)) \<le> Suc 8"
    using \<open>nat a < 2147483648\<close> by (intro hex_digits_length) simp
  ultimately show ?thesis using assms by (auto simp: print_int_def small_def Let_def)
qed

section \<open>Names as tokens\<close>

text \<open>The run type in place of every \<^verbatim>\<open>%s\<close>, and the numbers in place of the specifiers.\<close>

definition expand :: "string \<Rightarrow> tok list \<Rightarrow> tok list" where
  "expand rt ts = concat (map (\<lambda>t. if t = RunType then map Lit rt else [t]) ts)"

fun fill :: "tok list \<Rightarrow> int list \<Rightarrow> string" where
  "fill [] args = []"
| "fill (Lit c # ts) args = c # fill ts args"
| "fill (RunType # ts) args = fill ts args"
| "fill (Spec ds c # ts) args = (case args of [] \<Rightarrow> [] | a # as \<Rightarrow> print_int ds c a @ fill ts as)"

lemma expand_simps [simp]:
  "expand rt [] = []" "expand rt (t # ts) = (if t = RunType then map Lit rt else [t]) @ expand rt ts"
  "expand rt (ts @ us) = expand rt ts @ expand rt us"
  by (simp_all add: expand_def)

lemma show_lits [simp]: "show_toks (map Lit rt) = rt" and specs_lits [simp]: "specs (map Lit rt) = 0"
  by (induction rt) simp_all

lemma specs_expand [simp]: "specs (expand rt ts) = specs ts"
  by (induction ts) auto

lemma run_type_notin_expand: "RunType \<notin> set (expand rt ts)"
  by (induction ts) auto

lemma all_expand:
  assumes "\<forall>c \<in> set rt. P (Lit c)"
  shows "list_all P ts \<Longrightarrow> list_all P (expand rt ts)"
  using assms by (induction ts) (auto simp: list_all_iff)

lemma subst_run_type:
  "list_all wf_tok ts \<Longrightarrow> subst_all ''%s'' rt (show_toks ts) = show_toks (expand rt ts)"
proof (induction ts)
  case (Cons t ts)
  show ?case
  proof (cases t)
    case (Lit c) then show ?thesis using Cons by auto
  next
    case RunType then show ?thesis using Cons by simp
  next
    case (Spec ds c)
    have n: "CHR ''%'' \<notin> set (ds @ [c])" using Cons.prems Spec no_percent_in_spec [of ds c] by auto
    have "\<not> prefix ''s'' (ds @ c # show_toks ts)"
      using Cons.prems Spec digit_chars(2) by (cases ds) (auto simp: prefix_def)
    then show ?thesis using Cons Spec subst_skip [OF n, of "''s''" rt "show_toks ts"] by simp
  qed
qed simp

lemma sprintf_toks:
  "list_all wf_tok ts \<Longrightarrow> RunType \<notin> set ts \<Longrightarrow>
   sprintf_ints (show_toks ts) args = (if specs ts \<le> length args then Some (fill ts args) else None)"
proof (induction ts arbitrary: args)
  case (Cons t ts)
  show ?case
  proof (cases t)
    case (Spec ds c)
    have d: "list_all isdigit ds" "\<not> isdigit c" "c = CHR ''x'' \<or> c = CHR ''d''" using Cons.prems(1) Spec by auto
    have tw: "takeWhile isdigit (ds @ c # show_toks ts) = ds" "dropWhile isdigit (ds @ c # show_toks ts) = c # show_toks ts"
      using d(1,2) by (simp_all add: list_all_iff takeWhile_append2 takeWhile_tail dropWhile_append2)
    show ?thesis using Cons Spec d(3) tw by (cases args) auto
  qed (use Cons in auto)
qed simp

lemma fill_length:
  assumes "\<forall>a \<in> set args. small a"
  shows "list_all wf_tok ts \<Longrightarrow> list_all padded ts \<Longrightarrow> (\<forall>ds c. Spec ds c \<in> set ts \<longrightarrow> digits_value ds \<le> 10) \<Longrightarrow>
    length (fill ts args) \<le> length (show_toks ts) + 7 * specs ts"
  using assms
proof (induction ts args rule: fill.induct)
  case (4 ds c ts args)
  show ?case
  proof (cases args)
    case (Cons a as)
    have "length (print_int ds c a) \<le> 10" using 4 Cons by (intro print_int_length) auto
    moreover have "1 \<le> length ds" using "4.prems"(2) by (cases ds) auto
    ultimately show ?thesis using 4 Cons by force
  qed simp
qed auto

text \<open>The name is determined by the last number it takes.\<close>

lemma fill_same_tail: "specs ts = 0 \<Longrightarrow> fill ts args = fill ts args'"
  by (induction ts args arbitrary: args' rule: fill.induct) (auto split: if_splits)

lemma fill_append: "specs ts \<le> length args \<Longrightarrow> fill (ts @ us) args = fill ts args @ fill us (drop (specs ts) args)"
proof (induction ts args rule: fill.induct)
  case (4 ds c ts args) then show ?case by (cases args) auto
qed auto

lemma fill_inj:
  assumes "small a" "small b"
  shows "list_all wf_tok ts \<Longrightarrow> (\<forall>ds c. Spec ds c \<in> set ts \<longrightarrow> ds = [] \<or> hd ds = CHR ''0'') \<Longrightarrow>
    specs ts = Suc (length before) \<Longrightarrow> fill ts (before @ [a]) = fill ts (before @ [b]) \<Longrightarrow> a = b"
proof (induction ts arbitrary: before)
  case (Cons t ts)
  show ?case
  proof (cases t)
    case (Spec ds c)
    show ?thesis
    proof (cases before)
      case Nil
      have "specs ts = 0" using Cons.prems(3) Spec Nil by simp
      then have "fill ts [] = fill ts []" and e: "print_int ds c a = print_int ds c b"
        using Cons.prems(4) Spec Nil by simp_all
      have z: "ds = [] \<or> hd ds = CHR ''0''" using Cons.prems(2) Spec by auto
      show ?thesis by (rule print_int_inj [OF assms z e])
    next
      case (Cons x xs)
      then show ?thesis using Cons.IH [of xs] Cons.prems Spec by auto
    qed
  qed (use Cons in auto)
qed simp

section \<open>Properties\<close>

text \<open>A handle open for writing a file, with a base name of checked tokens and at most two specifiers.\<close>

definition names_file :: "EVFILE \<Rightarrow> tok list \<Rightarrow> string \<Rightarrow> bool" where
  "names_file a ts rt \<longleftrightarrow> rw a = EV_WRITEFILE \<and> baseFileName a = Some (show_toks ts) \<and> list_all wf_tok ts \<and>
     list_all padded ts \<and> (\<forall>ds c. Spec ds c \<in> set ts \<longrightarrow> digits_value ds \<le> 10) \<and> specs ts \<le> 2 \<and>
     CHR ''%'' \<notin> set rt \<and> length (show_toks (expand rt ts)) < 2 ^ 64 - 1"

text \<open>The tokens of a split file's name: the base, and the split number behind a dot when it has no place.\<close>

definition split_tokens :: "string \<Rightarrow> tok list \<Rightarrow> tok list" where
  "split_tokens rt ts = expand rt ts @ (if specs ts < 2 then [Lit CHR ''.'', Spec [] CHR ''d''] else [])"

definition split_numbers :: "tok list \<Rightarrow> int \<Rightarrow> int \<Rightarrow> int list" where
  "split_numbers ts run n = (if specs ts = 0 then [n] else [run, n])"

lemma names_file_expand:
  assumes "names_file a ts rt"
  shows "list_all wf_tok (expand rt ts)" "list_all padded (expand rt ts)" "RunType \<notin> set (expand rt ts)"
    "\<forall>ds c. Spec ds c \<in> set (expand rt ts) \<longrightarrow> digits_value ds \<le> 10" "specs (expand rt ts) = specs ts"
proof -
  show "list_all wf_tok (expand rt ts)" "list_all padded (expand rt ts)"
    using assms all_expand [of rt wf_tok ts] all_expand [of rt padded ts] by (auto simp: names_file_def)
  show "\<forall>ds c. Spec ds c \<in> set (expand rt ts) \<longrightarrow> digits_value ds \<le> 10"
    using assms by (auto simp: names_file_def expand_def split: if_splits)
qed (simp_all add: run_type_notin_expand)

lemma split_name_value:
  assumes "names_file a ts rt" "small run" "1 \<le> run" "small n" "\<And>k. malloc_ok e k"
  shows "evGenerateFileName e (Some a) (int (specs ts)) run True n (Some rt) =
    Some (Some (fill (split_tokens rt ts) (split_numbers ts run n)),
          Some (a\<lparr>baseFileName := Some (show_toks (expand rt ts))\<rparr>))"
proof -
  let ?b = "show_toks (expand rt ts)" and ?args = "split_numbers ts run n"
  note x = names_file_expand [OF assms(1)]
  have rep: "evStrReplace e (Some (show_toks ts)) (Some ''%s'') (Some rt) = Some (Some ?b)"
    using assms(1,5) by (subst evStrReplace_value) (auto simp: the_str_def subst_run_type names_file_def)
  have st: "show_toks (split_tokens rt ts) = ?b @ (if specs ts < 2 then ''.%d'' else '''')"
    by (simp add: split_tokens_def)
  have wf: "list_all wf_tok (split_tokens rt ts)" "RunType \<notin> set (split_tokens rt ts)"
    using x by (auto simp: split_tokens_def)
  have enough: "specs (split_tokens rt ts) \<le> length ?args"
    using assms(1) by (auto simp: split_tokens_def split_numbers_def names_file_def)
  have sp: "sprintf_ints (?b @ (if specs ts < 2 then ''.%d'' else '''')) ?args = Some (fill (split_tokens rt ts) ?args)"
    using sprintf_toks [OF wf, of ?args] enough unfolding st by simp
  have args: "\<forall>v \<in> set ?args. small v" using assms(2,4) by (simp add: split_numbers_def)
  have len: "length (fill (expand rt ts) ?args) \<le> length ?b + 7 * specs ts"
    using fill_length [OF args x(1,2,4)] by simp
  have num: "length (print_int [] CHR ''d'' n) \<le> 10"
    using assms(4) by (intro print_int_length) (simp_all add: digits_value_def)
  have "specs (expand rt ts) \<le> length ?args" using assms(1) by (auto simp: split_numbers_def names_file_def)
  then have fl: "fill (split_tokens rt ts) ?args =
      fill (expand rt ts) ?args @ (if specs ts < 2 then CHR ''.'' # print_int [] CHR ''d'' n else [])"
  proof -
    have "specs ts = 0 \<or> specs ts = 1 \<or> \<not> specs ts < 2" by linarith
    then show ?thesis using \<open>specs (expand rt ts) \<le> length ?args\<close>
      by (elim disjE) (simp_all add: split_tokens_def fill_append split_numbers_def)
  qed
  have tot: "length (fill (split_tokens rt ts) ?args) \<le> length ?b + 7 * specs ts + (if specs ts < 2 then 11 else 0)"
    using len num unfolding fl by simp
  consider "specs ts = 0" | "specs ts = 1" | "specs ts = 2" using assms(1) unfolding names_file_def by linarith
  then show ?thesis
    using assms rep sp tot
    by cases (simp_all add: evGenerateFileName_def names_file_def small_def sprintf_into_def split_numbers_def)
qed

text \<open>The name of a split file is the base name with the run type, the run number and the split number
  in the places of \<^verbatim>\<open>%s\<close> and of the first and second specifier, with the split number behind a dot when
  the base name has no second specifier. The blocks allocated for it are large enough.\<close>
theorem evGenerateFileName_split:
  assumes "names_file a ts rt" "small run" "1 \<le> run" "small n" "\<And>k. malloc_ok e k"
  shows "evGenerateFileName e (Some a) (int (specs ts)) run True n (Some rt) =
    Some (Some (fill (split_tokens rt ts) (split_numbers ts run n)),
          Some (a\<lparr>baseFileName := Some (show_toks (expand rt ts))\<rparr>))"
  using assms by (rule split_name_value)

definition run_tokens :: "tok list" where
  "run_tokens = [RunType, Lit CHR ''_'', Spec ''04'' CHR ''d'']"

definition run_file :: EVFILE where
  "run_file = structInit\<lparr>rw := EV_WRITEFILE, baseFileName := Some ''%s_%04d''\<rparr>"

lemma run_file_names: "names_file run_file run_tokens ''cosmic''"
  by (simp add: names_file_def run_file_def run_tokens_def isdigit_def code_def digits_value_def)

theorem evGenerateFileName_split_witness:
  "evGenerateFileName easy_env (Some run_file) 1 17 True 3 (Some ''cosmic'') =
    Some (Some ''cosmic_0017.3'', Some (run_file\<lparr>baseFileName := Some ''cosmic_%04d''\<rparr>))"
proof -
  have "fill (split_tokens ''cosmic'' run_tokens) (split_numbers run_tokens 17 3) = ''cosmic_0017.3''"
    by code_simp
  then show ?thesis
    using evGenerateFileName_split [OF run_file_names, of 17 3 easy_env]
    by (simp add: small_def easy_env_def run_tokens_def)
qed

text \<open>Two split files of one run never get the same name, so no file of the run is overwritten by a
  later one: different split numbers give different names, whatever the base name and run type.\<close>
theorem split_names_differ:
  assumes "names_file a ts rt" "small run" "1 \<le> run" "small n" "small m" "n \<noteq> m" "\<And>k. malloc_ok e k"
  shows "evGenerateFileName e (Some a) (int (specs ts)) run True n (Some rt) \<noteq>
         evGenerateFileName e (Some a) (int (specs ts)) run True m (Some rt)"
proof
  assume eq: "evGenerateFileName e (Some a) (int (specs ts)) run True n (Some rt) =
    evGenerateFileName e (Some a) (int (specs ts)) run True m (Some rt)"
  have same: "fill (split_tokens rt ts) (split_numbers ts run n) = fill (split_tokens rt ts) (split_numbers ts run m)"
    using eq split_name_value [OF assms(1-4,7)] split_name_value [OF assms(1-3,5,7)] by simp
  note x = names_file_expand [OF assms(1)]
  have "list_all wf_tok (split_tokens rt ts)" using x by (auto simp: split_tokens_def)
  moreover have "\<forall>ds c. Spec ds c \<in> set (split_tokens rt ts) \<longrightarrow> ds = [] \<or> hd ds = CHR ''0''"
    using x(2) by (auto simp: split_tokens_def list_all_iff)
  moreover have "specs (split_tokens rt ts) = Suc (length (if specs ts = 0 then [] else [run]))"
    using assms(1) by (auto simp: split_tokens_def names_file_def)
  moreover have "split_numbers ts run k = (if specs ts = 0 then [] else [run]) @ [k]" for k
    by (simp add: split_numbers_def)
  ultimately have "n = m"
    using fill_inj [OF assms(4,5), of "split_tokens rt ts" "if specs ts = 0 then [] else [run]"] same by metis
  then show False using assms(6) by simp
qed

theorem split_names_differ_witness:
  "evGenerateFileName easy_env (Some run_file) (int (specs run_tokens)) 17 True 3 (Some ''cosmic'') \<noteq>
   evGenerateFileName easy_env (Some run_file) (int (specs run_tokens)) 17 True 4 (Some ''cosmic'')"
  by (rule split_names_differ [OF run_file_names]) (simp_all add: small_def easy_env_def)

text \<open>A base name with two specifiers in a file that is not split: the format is printed with the run
  number only, so the second conversion takes an argument that was never passed.\<close>
theorem two_specifiers_unsplit_undefined:
  assumes "names_file a ts rt" "specs ts = 2" "1 \<le> run" "\<And>k. malloc_ok e k"
  shows "evGenerateFileName e (Some a) 2 run False n (Some rt) = None"
proof -
  note x = names_file_expand [OF assms(1)]
  have rep: "evStrReplace e (Some (show_toks ts)) (Some ''%s'') (Some rt) = Some (Some (show_toks (expand rt ts)))"
    using assms(1,4) by (subst evStrReplace_value) (auto simp: the_str_def subst_run_type names_file_def)
  have "sprintf_ints (show_toks (expand rt ts)) [run] = None"
    using sprintf_toks [OF x(1,3), of "[run]"] assms(2) by simp
  then show ?thesis using assms rep
    by (simp add: evGenerateFileName_def names_file_def sprintf_into_def)
qed

theorem two_specifiers_unsplit_undefined_witness:
  "evGenerateFileName easy_env (Some (structInit\<lparr>rw := EV_WRITEFILE, baseFileName := Some ''r%04d.%03d''\<rparr>)) 2 17 False 0 (Some ''x'') = None"
  using two_specifiers_unsplit_undefined [of "structInit\<lparr>rw := EV_WRITEFILE, baseFileName := Some ''r%04d.%03d''\<rparr>"
     "[Lit CHR ''r'', Spec ''04'' CHR ''d'', Lit CHR ''.'', Spec ''03'' CHR ''d'']" "''x''" 17 easy_env 0]
  by (simp add: names_file_def easy_env_def isdigit_def code_def digits_value_def)

text \<open>A width that \<^verbatim>\<open>evGenerateBaseFileName\<close> accepts overruns the block allocated for the file name:
  the block has room for ten digits, the number is printed with ninety-nine.\<close>
theorem wide_specifier_overruns:
  "evGenerateBaseFileName easy_env (Some ''%099d'') True True = Some (S_SUCCESS, Some (''%099d'', 1)) \<and>
   evGenerateFileName easy_env (Some (structInit\<lparr>rw := EV_WRITEFILE, baseFileName := Some ''%099d''\<rparr>)) 1 17 False 0 None = None"
proof
  have env: "malloc_ok easy_env n" for n by (simp add: easy_env_def)
  have rep: "evStrReplace easy_env (Some ''%099d'') (Some ''%s'') None = Some (Some ''%099d'')"
    using env by (subst evStrReplace_value) (simp_all add: the_str_def)
  have "env_loop easy_env ''%099d'' = Some (Some ''%099d'')" by (subst env_loop.simps) simp
  then have "evStrReplaceEnvVar easy_env (Some ''%099d'') = Some (Some ''%099d'')"
    using env by (simp add: evStrReplaceEnvVar_def strdup_def)
  moreover have "evStrFindSpecifiers easy_env (Some ''%099d'') = Some (Some (''%099d'', 1))"
  proof -
    have "find_loop easy_env (show_toks ([] @ [Spec ''099'' CHR ''d''])) (length (show_toks [])) (int (specs [])) =
      Some (Some (show_toks (map pad ([] @ [Spec ''099'' CHR ''d''])), int (specs ([] @ [Spec ''099'' CHR ''d'']))))"
      using env by (intro find_loop_toks) (simp_all add: isdigit_def code_def)
    then show ?thesis using env by (simp add: evStrFindSpecifiers_def strdup_def)
  qed
  ultimately show "evGenerateBaseFileName easy_env (Some ''%099d'') True True = Some (S_SUCCESS, Some (''%099d'', 1))"
    by (simp add: evGenerateBaseFileName_def)
  have "sprintf_ints ''%099d'' [17] = Some (print_int ''099'' CHR ''d'' 17)"
    by (simp add: isdigit_def code_def)
  moreover have "length (print_int ''099'' CHR ''d'' 17) = 99"
    by (simp add: print_int_def digits_value_def code_def nat_digits.simps Let_def)
  ultimately show "evGenerateFileName easy_env (Some (structInit\<lparr>rw := EV_WRITEFILE, baseFileName := Some ''%099d''\<rparr>)) 1 17 False 0 None = None"
    using rep env by (simp add: evGenerateFileName_def sprintf_into_def)
qed

end
