(* ===== verification/EvioWrite.thy ===== *)
theory EvioWrite
  imports EvioFileNames
begin

text \<open>
  Writing events: the internal buffer with its blocks, and the calls that move it to a file, pipe or
  socket (\<^verbatim>\<open>writeNewHeader\<close> to \<^verbatim>\<open>splitFile\<close> of \<^verbatim>\<open>evio.c\<close>). A routine on a handle takes the structure and,
  where it does input or output, the world, and returns a status with the new ones.
\<close>

section \<open>Block headers\<close>

definition generateSixthWord :: "u32 \<Rightarrow> bool \<Rightarrow> bool \<Rightarrow> u32 \<Rightarrow> u32" where
  "generateSixthWord ver hasDictionary isEnd eventType =
     (let ver = (if hasDictionary then ver OR EV_DICTIONARY_MASK else ver);
          ver = (if isEnd then ver OR EV_LASTBLOCK_MASK else ver)
      in ver OR push_bit 10 (eventType AND 0xf))"

definition writeNewHeader ::
  "EVFILE \<Rightarrow> u32 \<Rightarrow> u32 \<Rightarrow> u32 \<Rightarrow> bool \<Rightarrow> bool \<Rightarrow> bool \<Rightarrow> bool \<Rightarrow> (status \<times> EVFILE) option" where
  "writeNewHeader a wordSize events blockNumber hasDictionary isLast isCurrentHeader absoluteMode =
     (if bufSize a - bytesToBuf a div 4 < 8 then Some (S_FAILURE, a)
      else do {
        let a = (if isCurrentHeader then a\<lparr>currentHeader := next a\<rparr> else a);
        m \<leftarrow> paste (mem a) (next a)
               [wordSize, blockNumber, 8, events, 0, generateSixthWord 4 hasDictionary isLast 0, 0, EV_MAGIC];
        let a = set_mem m a;
        let a = (if absoluteMode then a
                 else a\<lparr>next := next a + 8, left := left a - 8, blksiz := 8, blkEvCount := 0\<rparr>);
        Some (S_SUCCESS, a\<lparr>bytesToBuf := bytesToBuf a + 4 * EV_HDSIZ\<rparr>)
      })"

definition writeEmptyLastBlockHeader :: "EVFILE \<Rightarrow> u32 \<Rightarrow> (status \<times> EVFILE) option" where
  "writeEmptyLastBlockHeader a blockNumber = writeNewHeader a 8 0 blockNumber False True False True"

section \<open>The internal buffer\<close>

definition expandBuffer :: "env \<Rightarrow> EVFILE \<Rightarrow> u32 \<Rightarrow> status \<times> EVFILE" where
  "expandBuffer e a newSize =
     (if newSize \<le> 4 * bufSize a then (S_SUCCESS, a)
      else if newSize \<le> 4 * bufRealSize a then (S_SUCCESS, a\<lparr>bufSize := newSize div 4\<rparr>)
      else if \<not> malloc_ok e (unat newSize) then (S_EVFILE_ALLOCFAIL, a)
      else
        (S_SUCCESS,
         (set_mem (fresh e (unat newSize div 4)) a)
           \<lparr>buf := 0, currentHeader := 0, left := newSize div 4 - EV_HDSIZ, next := 8,
            bufRealSize := newSize div 4, bufSize := newSize div 4\<rparr>))"

definition resetBuffer :: "EVFILE \<Rightarrow> EVFILE option" where
  "resetBuffer a = do {
     m \<leftarrow> paste (mem a) (buf a) (initLastBlockHeader (blknum a));
     Some ((set_mem m a)
       \<lparr>currentHeader := buf a, next := buf a + 8, left := bufSize a - EV_HDSIZ, blksiz := EV_HDSIZ,
        blkEvCount := 0, bytesToBuf := 4 * EV_HDSIZ, eventsToBuf := 0\<rparr>)
   }"

text \<open>
  \<^verbatim>\<open>writeEventToBuffer\<close>, in its four parts: the copy and the counters; the dictionary's or event's own
  bookkeeping in the header; the last-block bit; the new empty last block.
\<close>

definition copy_event :: "EVFILE \<Rightarrow> words \<Rightarrow> u32 \<Rightarrow> EVFILE option" where
  "copy_event a buffer wordsToWrite = do {
     ev \<leftarrow> cut buffer 0 (unat (4 * wordsToWrite) div 4);
     m \<leftarrow> paste (mem a) (next a) ev;
     let a = (set_mem m a)
       \<lparr>blksiz := blksiz a + wordsToWrite, bytesToBuf := bytesToBuf a + 4 * wordsToWrite,
        next := next a + unat wordsToWrite, left := left a - wordsToWrite,
        blkEvCount := blkEvCount a + 1, eventsToBuf := eventsToBuf a + 1\<rparr>;
     wr_buf (currentHeader a + EV_HD_BLKSIZ) (blksiz a) a
   }"

definition count_dictionary :: "EVFILE \<Rightarrow> EVFILE option" where
  "count_dictionary a = do {
     let a = a\<lparr>wroteDictionary := True\<rparr>;
     v \<leftarrow> rd_buf a (buf a + EV_HD_VER);
     a \<leftarrow> wr_buf (buf a + EV_HD_VER) (setDictionaryBitInt v) a;
     wr_buf (currentHeader a + EV_HD_COUNT) 0 a
   }"

definition count_event :: "EVFILE \<Rightarrow> EVFILE option" where
  "count_event a = do {
     let a = a\<lparr>eventCount := eventCount a + 1\<rparr>;
     a \<leftarrow> wr_buf (currentHeader a + EV_HD_COUNT) (blkEvCount a) a;
     a \<leftarrow> (if wroteDictionary a \<and> blknum a = 2 \<and> blkEvCount a - 1 > 0
           then do {
             c \<leftarrow> rd_buf a (currentHeader a + EV_HD_COUNT);
             wr_buf (currentHeader a + EV_HD_COUNT) (c - 1) a
           } else Some a);
     Some (if append a \<noteq> 0 then a\<lparr>append := 2\<rparr> else a)
   }"

definition leave_last_block :: "EVFILE \<Rightarrow> EVFILE option" where
  "leave_last_block a = do {
     v \<leftarrow> rd_buf a (currentHeader a + EV_HD_VER);
     if isLastBlockInt v then do {
       a \<leftarrow> wr_buf (currentHeader a + EV_HD_VER) (clearLastBlockBitInt v) a;
       Some (a\<lparr>blknum := blknum a + 1\<rparr>)
     } else Some a
   }"

definition writeEventToBuffer :: "EVFILE \<Rightarrow> words \<Rightarrow> u32 \<Rightarrow> bool \<Rightarrow> EVFILE option" where
  "writeEventToBuffer a buffer wordsToWrite isDictionary = do {
     a \<leftarrow> copy_event a buffer wordsToWrite;
     a \<leftarrow> (if isDictionary then count_dictionary a else count_event a);
     a \<leftarrow> leave_last_block a;
     (_, a) \<leftarrow> writeEmptyLastBlockHeader a (blknum a);
     Some a
   }"

definition evWriteDictImpl :: "env \<Rightarrow> EVFILE \<Rightarrow> (status \<times> EVFILE) option" where
  "evWriteDictImpl e a = do {
     dict \<leftarrow> dictBuf a;
     len \<leftarrow> rd dict 0;
     let nToWrite = len + 1;
     on_success
       (if 4 * bufSize a < 4 * (nToWrite + 2 * EV_HDSIZ) then
          (if rw a = EV_WRITEBUF then Some (S_EVFILE_TRUNC, a)
           else on_success (Some (expandBuffer e a (4 * (nToWrite + 2 * EV_HDSIZ))))
             (\<lambda>a. map_option (\<lambda>a. (S_SUCCESS, a)) (resetBuffer a)))
        else Some (S_SUCCESS, a))
       (\<lambda>a. do {
          a \<leftarrow> writeEventToBuffer a dict nToWrite True;
          Some (S_SUCCESS, a\<lparr>commonBlkCount := commonBlkCount a + 1\<rparr>)
        })
   }"

text \<open>
  The size needed for the common block starts as two headers, but the dictionary's assignment
  replaces it.
\<close>

definition common_words :: "EVFILE \<Rightarrow> u32 option" where
  "common_words a = do {
     n \<leftarrow> (case dictBuf a of None \<Rightarrow> Some (2 * EV_HDSIZ) | Some d \<Rightarrow> map_option (\<lambda>l. l + 1) (rd d 0));
     (case firstEventBuf a of None \<Rightarrow> Some n | Some f \<Rightarrow> map_option (\<lambda>l. n + (l + 1)) (rd f 0))
   }"

definition evWriteCommonBlock :: "env \<Rightarrow> EVFILE \<Rightarrow> (status \<times> EVFILE) option" where
  "evWriteCommonBlock e a = do {
     numWordsToWrite \<leftarrow> common_words a;
     on_success
       (if bufSize a < numWordsToWrite then
          (if rw a = EV_WRITEBUF then Some (S_EVFILE_TRUNC, a)
           else on_success (Some (expandBuffer e a (4 * numWordsToWrite)))
             (\<lambda>a. map_option (\<lambda>a. (S_SUCCESS, a)) (resetBuffer a)))
        else Some (S_SUCCESS, a))
       (\<lambda>a. do {
          a \<leftarrow> (case dictBuf a of None \<Rightarrow> Some a
                | Some d \<Rightarrow> do { l \<leftarrow> rd d 0; writeEventToBuffer a d (l + 1) True });
          a \<leftarrow> (case firstEventBuf a of None \<Rightarrow> Some a
                | Some f \<Rightarrow> do {
                    let a = (if dictBuf a \<noteq> None then a\<lparr>bytesToBuf := bytesToBuf a - 4 * EV_HDSIZ\<rparr> else a);
                    l \<leftarrow> rd f 0;
                    writeEventToBuffer a f (l + 1) False
                  });
          Some (S_SUCCESS, a\<lparr>wroteCommonBlock := True\<rparr>)
        })
   }"

section \<open>Flushing the buffer\<close>

text \<open>The bytes of the buffer that are written: \<open>n\<close> bytes from \<^verbatim>\<open>buf\<close> on.\<close>

definition buffered :: "EVFILE \<Rightarrow> u32 \<Rightarrow> words option" where
  "buffered a n = cut (mem a) (buf a) (unat n div 4)"

text \<open>
  A socket and a pipe get everything but the empty last block, a file all of it. The result is a
  status for an early return, and the number of bytes written and asked for.
\<close>

type_synonym flush_result = "status \<times> (int \<times> u32 \<times> EVFILE \<times> world)"

definition flush_socket :: "EVFILE \<Rightarrow> world \<Rightarrow> flush_result option" where
  "flush_socket a w = do {
     let bytesToWrite = bytesToBuf a - 4 * EV_HDSIZ;
     ws \<leftarrow> buffered a bytesToWrite;
     let (n, w) = tcpWrite (sockFd a) (bytes_of ws) w;
     Some (S_SUCCESS, (n, bytesToWrite, a, w))
   }"

definition flush_pipe :: "env \<Rightarrow> EVFILE \<Rightarrow> world \<Rightarrow> flush_result option" where
  "flush_pipe e a w = do {
     let bytesToWrite = bytesToBuf a - 4 * EV_HDSIZ;
     ws \<leftarrow> buffered a bytesToWrite;
     s \<leftarrow> file a;
     let (n, s, w) = fwrite e ws s w;
     let a = a\<lparr>file := Some s\<rparr>;
     if st_err s then Some (S_FAILURE, (0, bytesToWrite, a, w))
     else Some (S_SUCCESS, (4 * int n, bytesToWrite, a, w))
   }"

text \<open>The stream to write to: created at the first flush of a file, else moved back over the last header.\<close>

definition flush_open :: "env \<Rightarrow> EVFILE \<Rightarrow> world \<Rightarrow> (status \<times> (EVFILE \<times> world)) option" where
  "flush_open e a w =
     (if bytesToFile a < 1 then
        (if file a = None then
           on_success
             (if fileName a = None then do {
                (fname, h) \<leftarrow> evGenerateFileName e (Some (a\<lparr>splitNumber := splitNumber a + 1\<rparr>)) (specifierCount a)
                   (sint (runNumber a)) (splitting a) (sint (splitNumber a)) (runType a);
                a \<leftarrow> h;
                (case fname of None \<Rightarrow> Some (S_FAILURE, (a, w))
                 | Some f \<Rightarrow> Some (S_SUCCESS, (a\<lparr>fileName := Some f\<rparr>, w)))
              } else Some (S_SUCCESS, (a, w)))
             (\<lambda>(a, w). do {
                f \<leftarrow> fileName a;
                if splitting a \<and> fileExists w f then Some (S_FAILURE, (a, w))
                else (case fopen_write e f w of
                    None \<Rightarrow> Some (S_FAILURE, (a, w))
                  | Some (s, w) \<Rightarrow> Some (S_SUCCESS, (a\<lparr>file := Some s\<rparr>, w)))
              })
         else Some (S_SUCCESS, (a, w)))
      else do {
        s \<leftarrow> file a;
        Some (S_SUCCESS, (a\<lparr>file := Some (case fseek_cur (- 8) s of None \<Rightarrow> s | Some s' \<Rightarrow> s')\<rparr>, w))
      })"

definition flush_file :: "env \<Rightarrow> EVFILE \<Rightarrow> world \<Rightarrow> flush_result option" where
  "flush_file e a w = do {
     (st, a, w) \<leftarrow> flush_open e (a\<lparr>file := map_option clearerr (file a)\<rparr>) w;
     let bytesToWrite = bytesToBuf a;
     if st \<noteq> S_SUCCESS then Some (st, (0, bytesToWrite, a, w))
     else do {
       ws \<leftarrow> buffered a bytesToWrite;
       s \<leftarrow> file a;
       let (n, s, w) = fwrite e ws s w;
       let a = a\<lparr>file := Some s\<rparr>;
       if st_err s then Some (S_FAILURE, (0, bytesToWrite, a, w))
       else Some (S_SUCCESS, (4 * int n, bytesToWrite, a, w))
     }
   }"

definition evFlush :: "env \<Rightarrow> EVFILE \<Rightarrow> world \<Rightarrow> (status \<times> (EVFILE \<times> world)) option" where
  "evFlush e a w =
     (if eventsToBuf a < 1 then Some (S_SUCCESS, (a, w))
      else do {
        (st, nBytes, bytesToWrite, a, w) \<leftarrow>
          (if rw a = EV_WRITESOCK then flush_socket a w
           else if rw a = EV_WRITEPIPE then flush_pipe e a w
           else if rw a = EV_WRITEFILE then flush_file e a w
           else Some (S_SUCCESS, (0, bytesToBuf a, a, w)));
        if st \<noteq> S_SUCCESS then Some (st, (a, w))
        else if nBytes \<noteq> int (unat bytesToWrite) then Some (S_FAILURE, (a, w))
        else Some (S_SUCCESS,
          (a\<lparr>bytesToFile := bytesToFile a + ucast bytesToWrite, eventsToFile := eventsToFile a + eventsToBuf a\<rparr>, w))
      })"

section \<open>Splitting the file\<close>

definition splitFile :: "env \<Rightarrow> EVFILE \<Rightarrow> world \<Rightarrow> (int \<times> EVFILE \<times> world) option" where
  "splitFile e a w =
     (if rw a \<noteq> EV_WRITEFILE then Some (0, a, w)
      else do {
        let a = a\<lparr>blknum := 1, bytesToFile := 0, eventsToFile := 0, wroteCommonBlock := False\<rparr>;
        let status = (if randomAccess a then 1
                      else if file a \<noteq> None \<and> fclose_status e = c_EOF then -1 else 1);
        let a = a\<lparr>file := None\<rparr>;
        (fname, h) \<leftarrow> evGenerateFileName e (Some (a\<lparr>splitNumber := splitNumber a + 1\<rparr>)) (specifierCount a)
           (sint (runNumber a)) (splitting a) (sint (splitNumber a)) (runType a);
        a \<leftarrow> h;
        (case fname of None \<Rightarrow> Some (-1, a, w)
         | Some f \<Rightarrow> Some (status, a\<lparr>fileName := Some f\<rparr>, w))
      })"

section \<open>Writing an event\<close>

text \<open>The event fits the block: then no new header is needed.\<close>

definition fits_block :: "EVFILE \<Rightarrow> u32 \<Rightarrow> bool" where
  "fits_block a wordsToWrite \<longleftrightarrow> wordsToWrite + blksiz a \<le> blkSizeTarget a \<and> blkEvCount a < blkEvMax a"

text \<open>Does this event split the file?\<close>

definition wants_split :: "EVFILE \<Rightarrow> u32 \<Rightarrow> bool \<Rightarrow> bool option" where
  "wants_split a bytesToWrite newHeader =
     (if \<not> splitting a then Some False
      else if blknum a - 1 = 1 \<and> eventsToBuf a \<le> commonBlkCount a then Some False
      else do {
        v \<leftarrow> rd_buf a (currentHeader a + EV_HD_VER);
        let totalSize = bytesToFile a + ucast bytesToWrite + ucast (bytesToBuf a);
        let totalSize = (if newHeader \<and> bytesToFile a < 1 then totalSize + 32 else totalSize);
        let totalSize = (if isLastBlockInt v then totalSize + 32 else totalSize);
        Some (totalSize > split a)
      })"

text \<open>Is the event by itself, or together with what is buffered, too big for the buffer?\<close>

definition too_big :: "EVFILE \<Rightarrow> u32 \<Rightarrow> bool" where
  "too_big a bytesToWrite \<longleftrightarrow> 4 * bufSize a < bytesToWrite + 64"

definition no_room :: "EVFILE \<Rightarrow> u32 \<Rightarrow> bool \<Rightarrow> bool" where
  "no_room a bytesToWrite newHeader \<longleftrightarrow>
     \<not> newHeader \<and> 4 * bufSize a - bytesToBuf a < bytesToWrite \<or>
     newHeader \<and> 4 * bufSize a - bytesToBuf a < bytesToWrite + 32"

text \<open>Make room: flush, split, expand and reset, as decided.\<close>

definition make_room ::
  "env \<Rightarrow> u32 \<Rightarrow> bool \<Rightarrow> bool \<Rightarrow> bool \<Rightarrow> EVFILE \<times> world \<Rightarrow> (status \<times> (int \<times> EVFILE \<times> world)) option" where
  "make_room e words doFlush splittingFile needBiggerBuffer s0 =
     on_success
       (on_success
          (map_option (\<lambda>(st, a, w). (st, 0 :: int, a, w)) (if doFlush then evFlush e (fst s0) (snd s0) else Some (S_SUCCESS, s0)))
          (\<lambda>(_, a, w).
             if splittingFile then do {
               (r, a, w) \<leftarrow> splitFile e a w;
               if r = S_FAILURE then Some (S_FAILURE, (r, a, w)) else Some (S_SUCCESS, (r, a, w))
             } else Some (S_SUCCESS, (0, a, w))))
       (\<lambda>(r, a, w).
          on_success
            (if needBiggerBuffer
             then (case expandBuffer e a (4 * (words + 2 * EV_HDSIZ)) of (st, a) \<Rightarrow> Some (st, (r, a, w)))
             else Some (S_SUCCESS, (r, a, w)))
            (\<lambda>(r, a, w).
               if doFlush \<or> splittingFile then do { a \<leftarrow> resetBuffer a; Some (S_SUCCESS, (r, a, w)) }
               else Some (S_SUCCESS, (r, a, w))))"

text \<open>The common block at the start of the next split file.\<close>

definition common_block :: "env \<Rightarrow> u32 \<Rightarrow> EVFILE \<Rightarrow> (status \<times> EVFILE) option" where
  "common_block e bytesToWrite a =
     on_success (Some (expandBuffer e a (dictLength a + firstEventLength a + 3 * 4 * EV_HDSIZ + bytesToWrite)))
       (\<lambda>a. do { a \<leftarrow> resetBuffer a; evWriteCommonBlock e a })"

text \<open>The header of the event's block, or the step back over the empty last block, and the event.\<close>

definition put_event :: "EVFILE \<Rightarrow> words \<Rightarrow> u32 \<Rightarrow> bool \<Rightarrow> (status \<times> EVFILE) option" where
  "put_event a buffer words newHeader =
     on_success
       (if newHeader then
          on_success (writeNewHeader (a\<lparr>blknum := blknum a + 1\<rparr>) 8 1 (blknum a) False False True False)
            (\<lambda>a. Some (S_SUCCESS, a\<lparr>bytesToBuf := bytesToBuf a - 4 * EV_HDSIZ\<rparr>))
        else do {
          v \<leftarrow> rd_buf a (currentHeader a + EV_HD_VER);
          Some (S_SUCCESS, if \<not> isLastBlockInt v then a\<lparr>bytesToBuf := bytesToBuf a - 4 * EV_HDSIZ\<rparr> else a)
        })
       (\<lambda>a. do { a \<leftarrow> writeEventToBuffer a buffer words False; Some (S_SUCCESS, a) })"

definition write_event :: "env \<Rightarrow> EVFILE \<Rightarrow> world \<Rightarrow> words \<Rightarrow> (status \<times> (EVFILE \<times> world)) option" where
  "write_event e a w buffer = do {
     len \<leftarrow> rd buffer 0;
     let words = len + 1;
     let bytes = 4 * words;
     let newHeader = (\<not> fits_block a words);
     splits \<leftarrow> wants_split a bytes newHeader;
     let big = too_big a bytes;
     let full = (\<not> big \<and> no_room a bytes newHeader);
     if (big \<or> full) \<and> rw a = EV_WRITEBUF then Some (S_EVFILE_TRUNC, (a, w))
     else do {
       let doFlush = (splits \<and> eventsToBuf a > 0 \<or> big \<or> full);
       (st, r, a, w) \<leftarrow> make_room e words doFlush splits big (a, w);
       if st \<noteq> S_SUCCESS then Some (st, (a, w))
       else do {
         let newHeader = (newHeader \<and> \<not> (doFlush \<or> splits));
         let common = (r \<noteq> 0 \<and> (dictionary a \<noteq> None \<or> firstEventBuf a \<noteq> None));
         on_success
           (map_option (\<lambda>(st, a). (st, a, w)) (if common then common_block e bytes a else Some (S_SUCCESS, a)))
           (\<lambda>(a, w). map_option (\<lambda>(st, a). (st, a, w)) (put_event a buffer words (newHeader \<or> common)))
       }
     }
   }"

section \<open>The calls on a handle\<close>

text \<open>\<^verbatim>\<open>evWriteImpl\<close>: the checks of the arguments and of the handle before an event is written.\<close>

definition evWriteImpl :: "env \<Rightarrow> lib \<Rightarrow> int \<Rightarrow> words option \<Rightarrow> (status \<times> lib) option" where
  "evWriteImpl e l h buffer =
     (if bad_handle l h then Some (S_EVFILE_BADHANDLE, l)
      else if buffer = None then Some (S_EVFILE_BADARG, l)
      else (case lookup_handle l h of
          None \<Rightarrow> Some (S_EVFILE_BADHANDLE, l)
        | Some a \<Rightarrow>
            if append a \<noteq> 0 \<and> byte_swapped a then Some (S_EVFILE_BADMODE, l)
            else if \<not> writing a then Some (S_EVFILE_BADMODE, l)
            else do {
              (st, a, w) \<leftarrow> write_event e a (sys l) (the buffer);
              Some (st, (store_handle l h a)\<lparr>sys := w\<rparr>)
            }))"

definition evWrite :: "env \<Rightarrow> lib \<Rightarrow> int \<Rightarrow> words option \<Rightarrow> (status \<times> lib) option" where
  "evWrite e l h buffer = evWriteImpl e l h buffer"

end
