(* ===== verification/EvioBlocks.thy ===== *)
theory EvioBlocks
  imports EvioWrite
begin

text \<open>
  The specification of the version 4 format, and the proof that the internal buffer always holds it: a
  sequence of blocks with whole events, closed by an empty last block.
\<close>

section \<open>Blocks\<close>

text \<open>An event is a bank: its first word is the number of words behind it.\<close>

definition event :: "words \<Rightarrow> bool" where
  "event ev \<longleftrightarrow> ev \<noteq> [] \<and> length ev < 2 ^ 28 \<and> hd ev + 1 = of_nat (length ev)"

text \<open>
  A block: its number, whether its first event is the dictionary (which its event count leaves out), and
  its events.
\<close>

record block =
  b_num :: u32
  b_dict :: bool
  b_events :: "words list"

definition block_header :: "u32 \<Rightarrow> u32 \<Rightarrow> u32 \<Rightarrow> bool \<Rightarrow> bool \<Rightarrow> words" where
  "block_header len num cnt isd lst = [len, num, 8, cnt, 0, generateSixthWord 4 isd lst 0, 0, EV_MAGIC]"

definition body :: "block \<Rightarrow> words" where "body b = concat (b_events b)"

definition event_count :: "block \<Rightarrow> u32" where
  "event_count b = of_nat (length (b_events b)) - (if b_dict b then 1 else 0)"

definition block_words :: "block \<Rightarrow> words" where
  "block_words b = block_header (of_nat (8 + length (body b))) (b_num b) (event_count b) (b_dict b) False @ body b"

definition last_block :: "u32 \<Rightarrow> words" where
  "last_block n = block_header 8 n 0 False True"

definition blocks_words :: "block list \<Rightarrow> words" where
  "blocks_words bs = concat (map block_words bs)"

text \<open>A whole file: blocks and the empty last block.\<close>

definition file_words :: "block list \<Rightarrow> u32 \<Rightarrow> words" where
  "file_words bs n = blocks_words bs @ last_block n"

definition events_of :: "block list \<Rightarrow> words list" where
  "events_of bs = concat (map b_events bs)"

text \<open>A dictionary is the first event of the first block; the other events are the data.\<close>

definition with_dictionary :: "block list \<Rightarrow> bool" where
  "with_dictionary bs \<longleftrightarrow> bs \<noteq> [] \<and> b_dict (hd bs)"

definition data_events :: "block list \<Rightarrow> words list" where
  "data_events bs = (if with_dictionary bs then tl (events_of bs) else events_of bs)"

lemma length_block_header [simp]: "length (block_header l n c d e) = 8"
  by (simp add: block_header_def)

lemma length_last_block [simp]: "length (last_block n) = 8"
  by (simp add: last_block_def)

lemma length_block_words [simp]: "length (block_words b) = 8 + length (body b)"
  by (simp add: block_words_def)

lemma blocks_words_simps [simp]:
  "blocks_words [] = []" "blocks_words (b # bs) = block_words b @ blocks_words bs"
  "blocks_words (bs @ cs) = blocks_words bs @ blocks_words cs"
  by (simp_all add: blocks_words_def)

lemma events_of_simps [simp]:
  "events_of [] = []" "events_of (b # bs) = b_events b @ events_of bs"
  "events_of (bs @ cs) = events_of bs @ events_of cs"
  by (simp_all add: events_of_def)

lemma initLastBlockHeader_last_block: "initLastBlockHeader n = last_block n"
  by (simp add: initLastBlockHeader_def last_block_def block_header_def generateSixthWord_def const_defs)

text \<open>The bits of the sixth word.\<close>

lemma sixth_bits [simp]:
  "isLastBlockInt (generateSixthWord 4 d True 0)" "\<not> isLastBlockInt (generateSixthWord 4 d False 0)"
  "clearLastBlockBitInt (generateSixthWord 4 d l 0) = generateSixthWord 4 d False 0"
  "setDictionaryBitInt (generateSixthWord 4 d l 0) = generateSixthWord 4 True l 0"
  "hasDictionaryInt (generateSixthWord 4 d l 0) \<longleftrightarrow> d"
  by (cases d; cases l; simp add: isLastBlockInt_def clearLastBlockBitInt_def setDictionaryBitInt_def
      hasDictionaryInt_def generateSixthWord_def const_defs)+

lemma event_words:
  assumes "event ev"
  shows "rd ev 0 = Some (hd ev)" "hd ev + 1 = of_nat (length ev)" "unat (hd ev + 1) = length ev"
    "unat (4 * (hd ev + 1)) = 4 * length ev" "cut ev 0 (unat (4 * (hd ev + 1)) div 4) = Some ev" "0 < length ev"
proof -
  have ne: "ev \<noteq> []" and l: "length ev < 2 ^ 28" and h: "hd ev + 1 = of_nat (length ev)"
    using assms by (simp_all add: event_def)
  show "rd ev 0 = Some (hd ev)" using ne by (simp add: hd_conv_nth)
  show u: "unat (hd ev + 1) = length ev" unfolding h using l by (intro unat_of_nat_32) simp
  show u4: "unat (4 * (hd ev + 1)) = 4 * length ev"
  proof -
    have "4 * (hd ev + 1) = (of_nat (4 * length ev) :: u32)" unfolding h by simp
    then show ?thesis using l unat_of_nat_32 [of "4 * length ev"] by simp
  qed
  show "cut ev 0 (unat (4 * (hd ev + 1)) div 4) = Some ev" unfolding u4 by (simp add: cut_def)
qed (use assms in \<open>simp_all add: event_def\<close>)

lemma events_le_words: "list_all event evs \<Longrightarrow> length evs \<le> length (concat evs)"
proof (induction evs)
  case (Cons ev evs)
  then show ?case by (cases ev) (auto simp: event_def)
qed simp

section \<open>Fields the memory does not touch\<close>

lemma set_mem_fields [simp]:
  "file (set_mem m a) = file a" "append (set_mem m a) = append a" "eventCount (set_mem m a) = eventCount a"
  "buf (set_mem m a) = buf a" "next (set_mem m a) = next a" "blksiz (set_mem m a) = blksiz a"
  "blknum (set_mem m a) = blknum a" "blkSizeTarget (set_mem m a) = blkSizeTarget a"
  "blkEvCount (set_mem m a) = blkEvCount a" "bufSize (set_mem m a) = bufSize a"
  "bufRealSize (set_mem m a) = bufRealSize a" "blkEvMax (set_mem m a) = blkEvMax a" "left (set_mem m a) = left a"
  "fileName (set_mem m a) = fileName a" "splitting (set_mem m a) = splitting a"
  "currentHeader (set_mem m a) = currentHeader a" "bytesToBuf (set_mem m a) = bytesToBuf a"
  "eventsToBuf (set_mem m a) = eventsToBuf a" "eventsToFile (set_mem m a) = eventsToFile a"
  "bytesToFile (set_mem m a) = bytesToFile a" "wroteDictionary (set_mem m a) = wroteDictionary a"
  "dictionary (set_mem m a) = dictionary a" "firstEventBuf (set_mem m a) = firstEventBuf a"
  "byte_swapped (set_mem m a) = byte_swapped a" "randomAccess (set_mem m a) = randomAccess a"
  "sockFd (set_mem m a) = sockFd a" "commonBlkCount (set_mem m a) = commonBlkCount a"
  "split (set_mem m a) = split a"
  by (simp_all add: set_mem_def)

lemma set_mem_set_mem [simp]: "set_mem m (set_mem m' a) = set_mem m a"
  by (simp add: set_mem_def)

section \<open>Writing over the empty last block\<close>

lemma set_mem_upd [simp]:
  "set_mem m (a\<lparr>currentHeader := x0\<rparr>) = (set_mem m a)\<lparr>currentHeader := x0\<rparr>"
  "set_mem m (a\<lparr>next := x1\<rparr>) = (set_mem m a)\<lparr>next := x1\<rparr>"
  "set_mem m (a\<lparr>left := x2\<rparr>) = (set_mem m a)\<lparr>left := x2\<rparr>"
  "set_mem m (a\<lparr>blksiz := x3\<rparr>) = (set_mem m a)\<lparr>blksiz := x3\<rparr>"
  "set_mem m (a\<lparr>blkEvCount := x4\<rparr>) = (set_mem m a)\<lparr>blkEvCount := x4\<rparr>"
  "set_mem m (a\<lparr>bytesToBuf := x5\<rparr>) = (set_mem m a)\<lparr>bytesToBuf := x5\<rparr>"
  "set_mem m (a\<lparr>eventsToBuf := x6\<rparr>) = (set_mem m a)\<lparr>eventsToBuf := x6\<rparr>"
  "set_mem m (a\<lparr>eventCount := x7\<rparr>) = (set_mem m a)\<lparr>eventCount := x7\<rparr>"
  "set_mem m (a\<lparr>blknum := x8\<rparr>) = (set_mem m a)\<lparr>blknum := x8\<rparr>"
  "set_mem m (a\<lparr>append := x9\<rparr>) = (set_mem m a)\<lparr>append := x9\<rparr>"
  "set_mem m (a\<lparr>bufSize := x10\<rparr>) = (set_mem m a)\<lparr>bufSize := x10\<rparr>"
  "set_mem m (a\<lparr>bufRealSize := x11\<rparr>) = (set_mem m a)\<lparr>bufRealSize := x11\<rparr>"
  "set_mem m (a\<lparr>file := x12\<rparr>) = (set_mem m a)\<lparr>file := x12\<rparr>"
  "set_mem m (a\<lparr>bytesToFile := x13\<rparr>) = (set_mem m a)\<lparr>bytesToFile := x13\<rparr>"
  "set_mem m (a\<lparr>eventsToFile := x14\<rparr>) = (set_mem m a)\<lparr>eventsToFile := x14\<rparr>"
  "set_mem m (a\<lparr>fileName := x15\<rparr>) = (set_mem m a)\<lparr>fileName := x15\<rparr>"
  "set_mem m (a\<lparr>isLastBlock := x16\<rparr>) = (set_mem m a)\<lparr>isLastBlock := x16\<rparr>"
  "set_mem m (a\<lparr>wroteDictionary := x17\<rparr>) = (set_mem m a)\<lparr>wroteDictionary := x17\<rparr>"
  "set_mem m (a\<lparr>buf := x18\<rparr>) = (set_mem m a)\<lparr>buf := x18\<rparr>"
  by (simp_all add: set_mem_def)

lemma mem_upd [simp]:
  "mem (a\<lparr>currentHeader := x0\<rparr>) = mem a"
  "mem (a\<lparr>next := x1\<rparr>) = mem a"
  "mem (a\<lparr>left := x2\<rparr>) = mem a"
  "mem (a\<lparr>blksiz := x3\<rparr>) = mem a"
  "mem (a\<lparr>blkEvCount := x4\<rparr>) = mem a"
  "mem (a\<lparr>bytesToBuf := x5\<rparr>) = mem a"
  "mem (a\<lparr>eventsToBuf := x6\<rparr>) = mem a"
  "mem (a\<lparr>eventCount := x7\<rparr>) = mem a"
  "mem (a\<lparr>blknum := x8\<rparr>) = mem a"
  "mem (a\<lparr>append := x9\<rparr>) = mem a"
  "mem (a\<lparr>bufSize := x10\<rparr>) = mem a"
  "mem (a\<lparr>bufRealSize := x11\<rparr>) = mem a"
  "mem (a\<lparr>file := x12\<rparr>) = mem a"
  "mem (a\<lparr>bytesToFile := x13\<rparr>) = mem a"
  "mem (a\<lparr>eventsToFile := x14\<rparr>) = mem a"
  "mem (a\<lparr>fileName := x15\<rparr>) = mem a"
  "mem (a\<lparr>isLastBlock := x16\<rparr>) = mem a"
  "mem (a\<lparr>wroteDictionary := x17\<rparr>) = mem a"
  "mem (a\<lparr>buf := x18\<rparr>) = mem a"
  by (simp_all add: mem_def)

lemma header_update:
  "(A @ block_header l n c d s @ X)[length A + EV_HD_BLKSIZ := v] = A @ block_header v n c d s @ X"
  "(A @ block_header l n c d s @ X)[length A + EV_HD_COUNT := v] = A @ block_header l n v d s @ X"
  "(A @ block_header l n c d s @ X)[length A + EV_HD_VER := generateSixthWord 4 d' s' 0] = A @ block_header l n c d' s' @ X"
  by (simp_all add: block_header_def list_update_append pos_defs eval_nat_numeral)

lemma header_read:
  "rd (A @ block_header l n c d s @ X) (length A + EV_HD_VER) = Some (generateSixthWord 4 d s 0)"
  "rd (A @ block_header l n c d s @ X) (length A + EV_HD_COUNT) = Some c"
  by (simp_all add: block_header_def rd_def nth_append pos_defs eval_nat_numeral)

lemma header_write:
  "wr (A @ block_header l n c d s @ X) (length A + EV_HD_BLKSIZ) v = Some (A @ block_header v n c d s @ X)"
  "wr (A @ block_header l n c d s @ X) (length A + EV_HD_COUNT) v = Some (A @ block_header l n v d s @ X)"
  "wr (A @ block_header l n c d s @ X) (length A + EV_HD_VER) (generateSixthWord 4 d' s' 0) = Some (A @ block_header l n c d' s' @ X)"
  by (simp_all add: wr_def header_update) (simp_all add: pos_defs)

lemma paste_behind:
  assumes "p = length A + length H + length B" "length ws \<le> length tail"
  shows "paste (A @ H @ B @ tail) p ws = Some (A @ H @ B @ ws @ drop (length ws) tail)"
  using paste_at [of "take (length ws) tail" ws "A @ H @ B" "drop (length ws) tail"] assms by simp

lemma copy_event_block:
  assumes "mem a = A @ block_header l n c d s @ B @ tail" "currentHeader a = length A" "next a = length A + 8 + length B"
    and "event ev" "length ev \<le> length tail"
  shows "copy_event a ev (of_nat (length ev)) =
    Some ((set_mem (A @ block_header (blksiz a + of_nat (length ev)) n c d s @ B @ ev @ drop (length ev) tail) a)
       \<lparr>blksiz := blksiz a + of_nat (length ev), bytesToBuf := bytesToBuf a + 4 * of_nat (length ev),
        next := next a + length ev, left := left a - of_nat (length ev),
        blkEvCount := blkEvCount a + 1, eventsToBuf := eventsToBuf a + 1\<rparr>)"
proof -
  have p: "paste (mem a) (next a) ev = Some (A @ block_header l n c d s @ B @ ev @ drop (length ev) tail)"
    unfolding assms(1) by (rule paste_behind) (use assms(3,5) in auto)
  have w: "unat (of_nat (length ev) :: u32) = length ev" "hd ev + 1 = of_nat (length ev)"
    using event_words [OF assms(4)] by simp_all
  have c: "cut ev 0 (unat (4 * of_nat (length ev) :: u32) div 4) = Some ev"
    using event_words [OF assms(4)] by simp
  show ?thesis
    by (simp add: copy_event_def c p w wr_buf_def assms(2) header_write)
qed

definition after_event :: "words \<Rightarrow> EVFILE \<Rightarrow> u32 \<Rightarrow> words \<Rightarrow> EVFILE" where
  "after_event ev a bn m = (set_mem m a)
     \<lparr>blksiz := blksiz a + of_nat (length ev), bytesToBuf := bytesToBuf a + 4 * of_nat (length ev) + 32,
      next := next a + length ev, left := left a - of_nat (length ev),
      blkEvCount := blkEvCount a + 1, eventsToBuf := eventsToBuf a + 1, eventCount := eventCount a + 1,
      blknum := bn, append := (if append a \<noteq> 0 then 2 else 0)\<rparr>"

text \<open>The count in the header leaves the dictionary out.\<close>

definition header_count :: "EVFILE \<Rightarrow> u32" where
  "header_count a = (if wroteDictionary a \<and> blknum a = 2 \<and> blkEvCount a - 1 > 0 then blkEvCount a - 1 else blkEvCount a)"

lemma count_event_block:
  assumes "mem a = A @ block_header l n c d s @ X" "currentHeader a = length A"
  shows "count_event a = Some ((set_mem (A @ block_header l n (header_count a) d s @ X) a)
    \<lparr>eventCount := eventCount a + 1, append := (if append a \<noteq> 0 then 2 else 0)\<rparr>)"
  using assms by (simp add: count_event_def wr_buf_def rd_buf_def header_write header_read header_count_def)

lemma leave_last_block_block:
  assumes "mem a = A @ block_header l n c d s @ X" "currentHeader a = length A"
  shows "leave_last_block a = Some ((set_mem (A @ block_header l n c d False @ X) a)\<lparr>blknum := (if s then blknum a + 1 else blknum a)\<rparr>)"
proof (cases s)
  case False
  have "a\<lparr>blknum := blknum a\<rparr> = a" "set_mem (mem a) a = a" by (cases a; simp add: set_mem_def mem_def)+
  then show ?thesis using assms False by (simp add: leave_last_block_def rd_buf_def header_read)
qed (use assms in \<open>simp add: leave_last_block_def rd_buf_def wr_buf_def header_write header_read\<close>)

lemma write_last_block:
  assumes "mem a = P @ tail" "next a = length P" "8 \<le> length tail" "8 \<le> bufSize a - bytesToBuf a div 4"
  shows "writeEmptyLastBlockHeader a bn = Some (S_SUCCESS, (set_mem (P @ last_block bn @ drop 8 tail) a)\<lparr>bytesToBuf := bytesToBuf a + 32\<rparr>)"
proof -
  have "paste (P @ tail) (length P) (last_block bn) = Some (P @ last_block bn @ drop 8 tail)"
    using paste_behind [of "length P" P "[]" "[]" "last_block bn" tail] assms(3) by simp
  moreover have "\<not> bufSize a - bytesToBuf a div 4 < 8" using assms(4) by (simp add: not_less)
  ultimately show ?thesis using assms(1,2)
    by (simp add: writeEmptyLastBlockHeader_def writeNewHeader_def last_block_def block_header_def EV_HDSIZ_def)
qed

lemma write_event_block:
  assumes m: "mem a = A @ block_header l n c d s @ B @ tail" and h: "currentHeader a = length A"
    and nx: "next a = length A + 8 + length B" and ev: "event ev" and t: "length ev + 8 \<le> length tail"
    and nd: "cc = header_count (a\<lparr>blkEvCount := blkEvCount a + 1\<rparr>)" and big: "8 \<le> bufSize a - (bytesToBuf a + 4 * of_nat (length ev)) div 4"
    and bn: "bn = (if s then blknum a + 1 else blknum a)"
  shows "writeEventToBuffer a ev (of_nat (length ev)) False = Some (after_event ev a bn
     (A @ block_header (blksiz a + of_nat (length ev)) n cc d False @ B @ ev @ last_block bn @
      drop (length ev + 8) tail))"
proof -
  have dd: "drop 8 (drop (length ev) tail) = drop (length ev + 8) tail" by (simp add: add.commute)
  have le: "length ev \<le> length tail" "8 \<le> length (drop (length ev) tail)" using t by simp_all
  note c = copy_event_block [OF m h nx ev le(1)]
  define a1 where "a1 = the (copy_event a ev (of_nat (length ev)))"
  have e1: "a1 = (set_mem (A @ block_header (blksiz a + of_nat (length ev)) n c d s @ B @ ev @ drop (length ev) tail) a)
       \<lparr>blksiz := blksiz a + of_nat (length ev), bytesToBuf := bytesToBuf a + 4 * of_nat (length ev),
        next := next a + length ev, left := left a - of_nat (length ev),
        blkEvCount := blkEvCount a + 1, eventsToBuf := eventsToBuf a + 1\<rparr>"
    by (simp add: a1_def c)
  have a1: "mem a1 = A @ block_header (blksiz a + of_nat (length ev)) n c d s @ B @ ev @ drop (length ev) tail"
    "currentHeader a1 = length A" "header_count a1 = cc"
    using h nd by (simp_all add: e1 header_count_def)
  note c2 = count_event_block [OF a1(1,2), unfolded a1(3)]
  define a2 where "a2 = the (count_event a1)"
  have e2: "a2 = (set_mem (A @ block_header (blksiz a + of_nat (length ev)) n cc d s @ B @ ev @ drop (length ev) tail) a1)
    \<lparr>eventCount := eventCount a1 + 1, append := (if append a1 \<noteq> 0 then 2 else 0)\<rparr>"
    by (simp add: a2_def c2)
  have a2: "mem a2 = A @ block_header (blksiz a + of_nat (length ev)) n cc d s @ B @ ev @ drop (length ev) tail"
    "currentHeader a2 = length A"
    using h by (simp_all add: e2 e1)
  note c3 = leave_last_block_block [OF a2]
  define a3 where "a3 = the (leave_last_block a2)"
  have e3: "a3 = (set_mem (A @ block_header (blksiz a + of_nat (length ev)) n cc d False @ B @ ev @ drop (length ev) tail) a2)
    \<lparr>blknum := (if s then blknum a2 + 1 else blknum a2)\<rparr>"
    by (simp add: a3_def c3)
  have a3: "mem a3 = (A @ block_header (blksiz a + of_nat (length ev)) n cc d False @ B @ ev) @ drop (length ev) tail"
    "next a3 = length (A @ block_header (blksiz a + of_nat (length ev)) n cc d False @ B @ ev)"
    "8 \<le> bufSize a3 - bytesToBuf a3 div 4" "blknum a3 = bn"
    using h nx big bn by (simp_all add: e3 e2 e1)
  note c4 = write_last_block [OF a3(1,2) le(2) a3(3), of bn]
  have "writeEventToBuffer a ev (of_nat (length ev)) False = Some (snd (the (writeEmptyLastBlockHeader a3 bn)))"
    using c2 c3 c4 a3(4) by (simp add: writeEventToBuffer_def c e1 [symmetric] e2 [symmetric] e3 [symmetric])
  also have "snd (the (writeEmptyLastBlockHeader a3 bn)) = after_event ev a bn
     (A @ block_header (blksiz a + of_nat (length ev)) n cc d False @ B @ ev @ last_block bn @
      drop (length ev + 8) tail)"
    unfolding c4 dd option.sel snd_conv by (simp add: e3 e2 e1 after_event_def bn)
  finally show ?thesis .
qed

section \<open>The state of the internal buffer\<close>

text \<open>
  The events counted as buffered: those of the buffer's blocks, and after opening to append also those that
  were in the file already.
\<close>

definition counted :: "EVFILE \<Rightarrow> nat \<Rightarrow> bool" where
  "counted a n \<longleftrightarrow> (\<exists>before < 2 ^ 31. eventsToBuf a = of_nat (before + n))"

lemma counted_Suc: "counted a n \<Longrightarrow> eventsToBuf a' = eventsToBuf a + 1 \<Longrightarrow> m = n + 1 \<Longrightarrow> counted a' m"
  by (auto simp: counted_def intro!: exI)

definition clean :: "EVFILE \<Rightarrow> bool" where
  "clean a \<longleftrightarrow> (\<exists>tail. mem a = last_block (blknum a) @ tail) \<and> buf a = 0 \<and> currentHeader a = 0 \<and> next a = 8 \<and>
     blksiz a = 8 \<and> blkEvCount a = 0 \<and> bytesToBuf a = 32 \<and> counted a 0"

definition filled :: "EVFILE \<Rightarrow> block list \<Rightarrow> block \<Rightarrow> bool" where
  "filled a bs b \<longleftrightarrow> (\<exists>tail. mem a = blocks_words bs @ block_words b @ last_block (blknum a) @ tail) \<and> buf a = 0 \<and>
     currentHeader a = length (blocks_words bs) \<and> next a = length (blocks_words bs) + length (block_words b) \<and>
     blksiz a = of_nat (length (block_words b)) \<and> blkEvCount a = of_nat (length (b_events b)) \<and>
     bytesToBuf a = of_nat (4 * (length (blocks_words bs) + length (block_words b) + 8)) \<and>
     counted a (length (events_of (bs @ [b]))) \<and> blknum a = b_num b + 1 \<and> (b_dict b \<longleftrightarrow> wroteDictionary a \<and> b_num b = 1) \<and>
     b_events b \<noteq> [] \<and> length (blocks_words bs) + length (block_words b) + 8 \<le> unat (bufSize a)"

definition roomy :: "EVFILE \<Rightarrow> bool" where
  "roomy a \<longleftrightarrow> 16 \<le> unat (bufSize a) \<and> unat (bufSize a) \<le> unat (bufRealSize a) \<and> unat (bufRealSize a) \<le> length (mem a) \<and>
     unat (bufSize a) < 2 ^ 29 \<and> unat (bufRealSize a) < 2 ^ 29"

definition buffer_only :: "EVFILE \<Rightarrow> EVFILE \<Rightarrow> bool" where
  "buffer_only a a' \<longleftrightarrow>
     a' = a\<lparr>bufmem := bufmem a', rwBuf := rwBuf a', currentHeader := currentHeader a', next := next a', left := left a',
            blksiz := blksiz a', blkEvCount := blkEvCount a', bytesToBuf := bytesToBuf a', eventsToBuf := eventsToBuf a',
            eventCount := eventCount a', blknum := blknum a', append := append a'\<rparr> \<and>
     length (mem a') = length (mem a) \<and> (append a = 0 \<longrightarrow> append a' = 0)"

lemma four_bytes:
  assumes "k \<le> n" "n < 2 ^ 29"
  shows "(of_nat n :: u32) - of_nat (4 * k) div 4 = of_nat (n - k)"
proof -
  have "(of_nat (4 * k) :: u32) div 4 = of_nat k"
    using assms using unat_of_nat_32 [of "4 * k"] unat_of_nat_32 [of k] by (simp add: word_unat_eq_iff unat_div)
  then show ?thesis using assms(1) by simp
qed

lemma room_left:
  assumes "n + 8 \<le> unat z" "unat z < 2 ^ 29"
  shows "8 \<le> (z :: u32) - of_nat (4 * n) div 4"
proof -
  have "z - of_nat (4 * n) div 4 = of_nat (unat z - n)"
    using four_bytes [of n "unat z"] assms by simp
  then show ?thesis using assms unat_of_nat_32 [of "unat z - n"] by (simp add: word_le_nat_alt)
qed

lemma buffer_only_after: "length m = length (mem a) \<Longrightarrow> buffer_only a (after_event ev a bn m)"
  by (cases "rw a = EV_WRITEBUF"; cases a) (simp_all add: buffer_only_def after_event_def set_mem_def mem_def)

lemma buffer_only_bytes: "buffer_only a (a\<lparr>bytesToBuf := x\<rparr>)"
  by (cases a) (simp add: buffer_only_def mem_def)

lemma buffer_only_trans:
  assumes "buffer_only a b" "buffer_only b c"
  shows "buffer_only a c"
proof -
  have "c = b\<lparr>bufmem := bufmem c, rwBuf := rwBuf c, currentHeader := currentHeader c, next := next c, left := left c,
            blksiz := blksiz c, blkEvCount := blkEvCount c, bytesToBuf := bytesToBuf c, eventsToBuf := eventsToBuf c,
            eventCount := eventCount c, blknum := blknum c, append := append c\<rparr>" (is "c = ?u b")
    using assms(2) by (simp add: buffer_only_def)
  moreover have "?u b = ?u a" using assms(1) unfolding buffer_only_def by (cases a; cases b) simp
  ultimately show ?thesis using assms by (simp add: buffer_only_def)
qed

lemma put_event_clean:
  assumes "clean a" "roomy a" "event ev" "16 + length ev \<le> unat (bufSize a)" "\<not> (wroteDictionary a \<and> blknum a = 1)"
  shows "\<exists>a'. put_event a ev (of_nat (length ev)) False = Some (S_SUCCESS, a') \<and>
    filled a' [] \<lparr>b_num = blknum a, b_dict = False, b_events = [ev]\<rparr> \<and> buffer_only a a'"
proof -
  obtain tail where m: "mem a = [] @ block_header 8 (blknum a) 0 False True @ [] @ tail"
    using assms(1) by (auto simp: clean_def last_block_def)
  have fields: "buf a = 0" "currentHeader a = 0" "next a = 8" "blksiz a = 8" "blkEvCount a = 0" "bytesToBuf a = 32" "counted a 0"
    using assms(1) by (auto simp: clean_def)
  have t: "length ev + 8 \<le> length tail"
    using assms(2,4) arg_cong [OF m, of length] by (simp add: roomy_def)
  have big: "8 \<le> bufSize a - (bytesToBuf a + 4 * of_nat (length ev)) div 4"
    using room_left [of "8 + length ev" "bufSize a"] assms(2,4) fields by (simp add: roomy_def)
  have v: "rd_buf a (currentHeader a + EV_HD_VER) = Some (generateSixthWord 4 False True 0)"
    using header_read(1) [of "[]"] fields(2) m by (simp add: rd_buf_def)
  have w: "writeEventToBuffer a ev (of_nat (length ev)) False = Some (after_event ev a (blknum a + 1)
     ([] @ block_header (blksiz a + of_nat (length ev)) (blknum a) 1 False False @ [] @ ev @ last_block (blknum a + 1) @
      drop (length ev + 8) tail))" (is "_ = Some ?a")
    by (rule write_event_block [OF m]) (use assms fields t big in \<open>simp_all add: header_count_def\<close>)
  have "put_event a ev (of_nat (length ev)) False = Some (S_SUCCESS, ?a)"
    using w v by (simp add: put_event_def)
  moreover have "counted ?a (length (events_of [\<lparr>b_num = blknum a, b_dict = False, b_events = [ev]\<rparr>]))"
    by (rule counted_Suc [OF fields(7)]) (simp_all add: after_event_def)
  then have "filled ?a [] \<lparr>b_num = blknum a, b_dict = False, b_events = [ev]\<rparr>"
    using assms(4,5) by (simp add: filled_def after_event_def fields block_words_def body_def event_count_def events_of_def)
  moreover have "buffer_only a ?a"
    by (rule buffer_only_after) (use m t in simp)
  ultimately show ?thesis by blast
qed

lemma put_event_same:
  assumes f: "filled a bs b" and r: "roomy a" and ev: "event ev" and evs: "list_all event (b_events b)"
    and sz: "length (blocks_words bs) + length (block_words b) + 8 + length ev \<le> unat (bufSize a)"
  shows "\<exists>a'. put_event a ev (of_nat (length ev)) False = Some (S_SUCCESS, a') \<and>
    filled a' bs (b\<lparr>b_events := b_events b @ [ev]\<rparr>) \<and> buffer_only a a'"
proof -
  obtain tail where m: "mem a = blocks_words bs @ block_words b @ last_block (blknum a) @ tail"
    using f by (auto simp: filled_def)
  then have m': "mem (a\<lparr>bytesToBuf := x\<rparr>) = blocks_words bs @
      block_header (of_nat (8 + length (body b))) (b_num b) (event_count b) (b_dict b) False @ body b @ (last_block (blknum a) @ tail)" for x
    using f by (simp add: filled_def block_words_def)
  have fields: "buf a = 0" "currentHeader a = length (blocks_words bs)" "next a = length (blocks_words bs) + 8 + length (body b)"
    "blksiz a = of_nat (8 + length (body b))" "blkEvCount a = of_nat (length (b_events b))"
    "bytesToBuf a = of_nat (4 * (length (blocks_words bs) + length (block_words b) + 8))"
    "counted a (length (events_of (bs @ [b])))" "blknum a = b_num b + 1" "b_dict b \<longleftrightarrow> wroteDictionary a \<and> b_num b = 1"
    using f by (simp_all add: filled_def)
  let ?a = "a\<lparr>bytesToBuf := bytesToBuf a - 32\<rparr>"
  have t: "length ev + 8 \<le> length (last_block (blknum a) @ tail)"
    using r sz arg_cong [OF m, of length] by (simp add: roomy_def)
  have big: "8 \<le> bufSize ?a - (bytesToBuf ?a + 4 * of_nat (length ev)) div 4"
    using room_left [of "length (blocks_words bs) + length (block_words b) + length ev" "bufSize a"] r sz fields
    by (simp add: roomy_def algebra_simps)
  have "length (b_events b) \<le> length (body b)" using events_le_words [OF evs] by (simp add: body_def)
  then have "length (b_events b) < 2 ^ 29" using f r by (simp add: filled_def roomy_def)
  then have "unat (blkEvCount a) = length (b_events b)" using fields(5) unat_of_nat_32 [of "length (b_events b)"] by simp
  then have "0 < blkEvCount a" using f by (simp add: filled_def word_less_nat_alt)
  then have cc: "event_count (b\<lparr>b_events := b_events b @ [ev]\<rparr>) = header_count (?a\<lparr>blkEvCount := blkEvCount ?a + 1\<rparr>)"
    using fields(5,8,9) by (auto simp: event_count_def header_count_def)
  have w: "writeEventToBuffer ?a ev (of_nat (length ev)) False = Some (after_event ev ?a (blknum a)
     (blocks_words bs @ block_header (blksiz ?a + of_nat (length ev)) (b_num b) (event_count (b\<lparr>b_events := b_events b @ [ev]\<rparr>)) (b_dict b) False @ body b @ ev @
      last_block (blknum a) @ drop (length ev + 8) (last_block (blknum a) @ tail)))" (is "_ = Some ?a'")
    by (rule write_event_block [OF m']) (use ev cc fields t big in simp_all)
  have v: "rd_buf a (currentHeader a + EV_HD_VER) = Some (generateSixthWord 4 (b_dict b) False 0)"
    using header_read(1) m' [of "bytesToBuf a"] fields(2) by (simp add: rd_buf_def)
  have "put_event a ev (of_nat (length ev)) False = Some (S_SUCCESS, ?a')"
    using w v by (simp add: put_event_def EV_HDSIZ_def)
  moreover have "counted ?a' (length (events_of (bs @ [b\<lparr>b_events := b_events b @ [ev]\<rparr>])))"
    by (rule counted_Suc [OF fields(7)]) (simp_all add: after_event_def)
  then have "filled ?a' bs (b\<lparr>b_events := b_events b @ [ev]\<rparr>)"
    using sz f by (simp add: filled_def after_event_def fields block_words_def body_def event_count_def events_of_def algebra_simps)
  moreover have "buffer_only a ?a'"
    by (rule buffer_only_trans [of _ ?a]) (use m' t in \<open>simp_all add: buffer_only_bytes buffer_only_after\<close>)
  ultimately show ?thesis by blast
qed
lemma put_event_new:
  assumes f: "filled a bs b" and r: "roomy a" and ev: "event ev" and nd: "\<not> (wroteDictionary a \<and> blknum a = 1)"
    and sz: "length (blocks_words bs) + length (block_words b) + 16 + length ev \<le> unat (bufSize a)"
  shows "\<exists>a'. put_event a ev (of_nat (length ev)) True = Some (S_SUCCESS, a') \<and>
    filled a' (bs @ [b]) \<lparr>b_num = blknum a, b_dict = False, b_events = [ev]\<rparr> \<and> buffer_only a a'"
proof -
  obtain tail where m: "mem a = blocks_words bs @ block_words b @ last_block (blknum a) @ tail"
    using f by (auto simp: filled_def)
  have fields: "buf a = 0" "currentHeader a = length (blocks_words bs)" "next a = length (blocks_words bs) + length (block_words b)"
    "bytesToBuf a = of_nat (4 * (length (blocks_words bs) + length (block_words b) + 8))"
    "counted a (length (events_of (bs @ [b])))" "blknum a = b_num b + 1"
    using f by (simp_all add: filled_def)
  have small: "\<not> bufSize a - bytesToBuf a div 4 < 8"
    using room_left [of "length (blocks_words bs) + length (block_words b) + 8" "bufSize a"] r sz fields(4)
    by (simp add: roomy_def not_less)
  let ?m = "blocks_words (bs @ [b]) @ block_header 8 (blknum a) 1 False False @ [] @ tail"
  let ?a = "(set_mem ?m a)\<lparr>blknum := blknum a + 1, currentHeader := next a, next := next a + 8, left := left a - 8, blksiz := 8,
              blkEvCount := 0, bytesToBuf := bytesToBuf a\<rparr>"
  have hb: "[8, blknum a, 8, 1, 0, generateSixthWord 4 False False 0, 0, EV_MAGIC] = block_header 8 (blknum a) 1 False False"
    by (simp add: block_header_def)
  have "paste (mem a) (next a) (block_header 8 (blknum a) 1 False False) = Some ?m"
    using paste_at [of "last_block (blknum a)" "block_header 8 (blknum a) 1 False False" "blocks_words (bs @ [b])" tail] m fields
    by simp
  then have "writeNewHeader (a\<lparr>blknum := blknum a + 1\<rparr>) 8 1 (blknum a) False False True False = Some (S_SUCCESS, ?a\<lparr>bytesToBuf := bytesToBuf a + 32\<rparr>)"
    using small by (simp add: writeNewHeader_def hb EV_HDSIZ_def)
  moreover have w: "writeEventToBuffer ?a ev (of_nat (length ev)) False = Some (after_event ev ?a (blknum a + 1)
     (blocks_words (bs @ [b]) @ block_header (blksiz ?a + of_nat (length ev)) (blknum a) 1 False False @ [] @ ev @
      last_block (blknum a + 1) @ drop (length ev + 8) tail))" (is "_ = Some ?a'")
  proof (rule write_event_block)
    show "length ev + 8 \<le> length tail" using r sz arg_cong [OF m, of length] by (simp add: roomy_def)
    show "8 \<le> bufSize ?a - (bytesToBuf ?a + 4 * of_nat (length ev)) div 4"
      using room_left [of "length (blocks_words bs) + length (block_words b) + 8 + length ev" "bufSize a"] r sz fields
      by (simp add: roomy_def algebra_simps)
  qed (use ev fields in \<open>auto simp: header_count_def\<close>)
  ultimately have "put_event a ev (of_nat (length ev)) True = Some (S_SUCCESS, ?a')"
    by (simp add: put_event_def EV_HDSIZ_def)
  moreover have "counted ?a' (length (events_of ((bs @ [b]) @ [\<lparr>b_num = blknum a, b_dict = False, b_events = [ev]\<rparr>])))"
    by (rule counted_Suc [OF fields(5)]) (simp_all add: after_event_def)
  then have "filled ?a' (bs @ [b]) \<lparr>b_num = blknum a, b_dict = False, b_events = [ev]\<rparr>"
    using sz nd by (simp add: filled_def after_event_def fields block_words_def body_def event_count_def events_of_def algebra_simps)
  moreover have "buffer_only a ?a'"
    using m sz r by (cases "rw a = EV_WRITEBUF"; cases a) (simp_all add: buffer_only_def after_event_def set_mem_def mem_def roomy_def)
  ultimately show ?thesis by blast
qed

end
