(* ===== verification/EvioRead.thy ===== *)
theory EvioRead
  imports EvioHandle
begin

text \<open>
  Reading: \<^verbatim>\<open>evGetNewBuffer\<close>, which gets the next block from a file, pipe, socket or buffer, the calls
  that hand out the next event (\<^verbatim>\<open>evRead\<close>, \<^verbatim>\<open>evReadAlloc\<close>, \<^verbatim>\<open>evReadNoCopy\<close>), and random access
  (\<^verbatim>\<open>memoryMapFile\<close>, \<^verbatim>\<open>generatePointerTable\<close>, \<^verbatim>\<open>evReadRandom\<close>). A pointer returned into the block
  buffer or the map is its offset there.
\<close>

section \<open>Swapping in place\<close>

definition swap_in_place :: "nat \<Rightarrow> nat \<Rightarrow> words \<Rightarrow> words option" where
  "swap_in_place off n m = map_option sm_src (swap_int32_t off n \<lparr>sm_src = m, sm_dst = None\<rparr>)"

text \<open>\<^verbatim>\<open>evioswap(p, 1, NULL)\<close> on an event in \<open>m\<close>. The recursion is bounded by the words there are.\<close>

definition swap_event :: "env \<Rightarrow> nat \<Rightarrow> words \<Rightarrow> words option" where
  "swap_event e off m = map_option sm_src (evioswap (4 * length m) (stack_bytes e) True off \<lparr>sm_src = m, sm_dst = None\<rparr>)"

text \<open>The host's value of a word in the file's byte order.\<close>

definition host :: "EVFILE \<Rightarrow> u32 \<Rightarrow> u32" where
  "host a v = (if byte_swapped a then EVIO_SWAP32 v else v)"

section \<open>Getting words from the source\<close>

text \<open>
  One of the reads of \<^verbatim>\<open>evGetNewBuffer\<close>: \<open>n\<close> bytes into the buffer at \<open>off\<close>. The result is a status for an
  early return and the number of bytes read. Bytes from a socket may end inside a word.
\<close>

definition put_bytes :: "nat \<Rightarrow> bytes \<Rightarrow> words \<Rightarrow> words option" where
  "put_bytes off bs m = map_option words_of (paste (bytes_of m) (4 * off) bs)"

definition fetch ::
  "env \<Rightarrow> nat \<Rightarrow> u32 \<Rightarrow> EVFILE \<Rightarrow> world \<Rightarrow> (status \<times> (int \<times> EVFILE \<times> world)) option" where
  "fetch e off n a w =
     (if rw a = EV_READFILE then do {
        s \<leftarrow> file a;
        let (ws, s) = fread e (unat n div 4) s w;
        m \<leftarrow> paste (mem a) off ws;
        let a = (set_mem m a)\<lparr>file := Some s\<rparr>;
        Some (if st_eof s then c_EOF else if st_err s then 1 else S_SUCCESS, (4 * int (length ws), a, w))
      }
      else if rw a = EV_READSOCK then do {
        let (r, bs, w) = (if sint n \<le> 0 then (0, [], w) else tcpRead (sockFd a) (unat n) w);
        m \<leftarrow> put_bytes off bs (mem a);
        Some (S_SUCCESS, (r, set_mem m a, w))
      }
      else if rw a = EV_READPIPE then do {
        s \<leftarrow> file a;
        let (ws, s) = fread e (unat n div 4) s w;
        m \<leftarrow> paste (mem a) off ws;
        Some (S_SUCCESS, (4 * int (length ws), (set_mem m a)\<lparr>file := Some s\<rparr>, w))
      }
      else if unat (rwBufSize a) < unat (rwBytesIn a) + unat n then Some (S_EVFILE_UNXPTDEOF, (0, a, w))
      else do {
        ws \<leftarrow> cut (rwBuf a) (unat (rwBytesIn a) div 4) (unat n div 4);
        m \<leftarrow> paste (mem a) off ws;
        Some (S_SUCCESS, (int (unat n), (set_mem m a)\<lparr>rwBytesIn := rwBytesIn a + n\<rparr>, w))
      })"

text \<open>A read that must be complete: anything less returns \<^verbatim>\<open>errno\<close>, which may be 0.\<close>

type_synonym 'a read_step = "(status \<times> EVFILE \<times> world) + 'a"

definition fetch_all :: "env \<Rightarrow> nat \<Rightarrow> u32 \<Rightarrow> EVFILE \<Rightarrow> world \<Rightarrow> (EVFILE \<times> world) read_step option" where
  "fetch_all e off n a w = do {
     (st, k, a, w) \<leftarrow> fetch e off n a w;
     Some (if st \<noteq> S_SUCCESS then Inl (st, a, w)
           else if k \<noteq> int (unat n) then Inl (err_no e, a, w)
           else Inr (a, w))
   }"

definition swap_buf :: "nat \<Rightarrow> nat \<Rightarrow> EVFILE \<Rightarrow> EVFILE option" where
  "swap_buf off n a = (if byte_swapped a then map_option (\<lambda>m. set_mem m a) (swap_in_place off n (mem a)) else Some a)"

section \<open>The next block\<close>

text \<open>The header, with its end-of-file tests, and its extra words when it is longer than usual.\<close>

definition read_extra :: "env \<Rightarrow> EVFILE \<times> world \<Rightarrow> (EVFILE \<times> world) read_step option" where
  "read_extra e = (\<lambda>(a, w). do {
     blkHdrSize \<leftarrow> rd_buf a (buf a + EV_HD_HDSIZ);
     if blkHdrSize > EV_HDSIZ then
       let n = 4 * (blkHdrSize - EV_HDSIZ) in
       proceed (fetch_all e (buf a + 8) n a w)
         (\<lambda>(a, w). do { a \<leftarrow> swap_buf (buf a + 8) (unat n div 4) a; Some (Inr (a, w)) })
     else Some (Inr (a, w))
   })"

definition read_header :: "env \<Rightarrow> EVFILE \<Rightarrow> world \<Rightarrow> (EVFILE \<times> world) read_step option" where
  "read_header e a w =
     (if rw a = EV_READFILE \<and> (case file a of None \<Rightarrow> False | Some s \<Rightarrow> st_eof s) then Some (Inl (c_EOF, a, w))
      else
        let a = (if rw a = EV_READFILE then a\<lparr>file := map_option clearerr (file a)\<rparr> else a) in
        proceed (fetch_all e (buf a) (4 * EV_HDSIZ) a w)
          (\<lambda>(a, w). do { a \<leftarrow> swap_buf (buf a) (unat EV_HDSIZ) a; read_extra e (a, w) }))"

text \<open>
  The data: the buffer is enlarged when the block is bigger. For a pipe the test names the socket again,
  so nothing is read, and the number of bytes compared is that of the last read of the header.
\<close>

definition grow_buf :: "env \<Rightarrow> u32 \<Rightarrow> EVFILE \<Rightarrow> (status \<times> EVFILE) option" where
  "grow_buf e blkHdrSize a =
     (if bufSize a < blksiz a then
        (if \<not> malloc_ok e (unat (4 * blksiz a)) then Some (S_EVFILE_ALLOCFAIL, a)
         else do {
           hdr \<leftarrow> cut (mem a) (buf a) (unat (4 * blkHdrSize) div 4);
           m \<leftarrow> paste (fresh e (unat (4 * blksiz a) div 4)) 0 hdr;
           Some (S_SUCCESS, (set_mem m a)\<lparr>bufSize := blksiz a, buf := 0\<rparr>)
         })
      else Some (S_SUCCESS, a))"

definition read_rest :: "env \<Rightarrow> u32 \<Rightarrow> EVFILE \<times> world \<Rightarrow> (EVFILE \<times> world) read_step option" where
  "read_rest e blkHdrSize = (\<lambda>(a, w). do {
     size \<leftarrow> rd_buf a (buf a + EV_HD_BLKSIZ);
     (st, a) \<leftarrow> grow_buf e blkHdrSize (a\<lparr>blksiz := size\<rparr>);
     if st \<noteq> S_SUCCESS then Some (Inl (st, a, w))
     else
       let n = 4 * (blksiz a - blkHdrSize) in
       if rw a = EV_READPIPE then
         let nBytes = (if blkHdrSize > EV_HDSIZ then 4 * (blkHdrSize - EV_HDSIZ) else 4 * EV_HDSIZ) in
         Some (if nBytes \<noteq> n then Inl (err_no e, a, w) else Inr (a, w))
       else fetch_all e (buf a + unat blkHdrSize) n a w
   })"

definition note_block :: "u32 \<Rightarrow> EVFILE \<Rightarrow> (status \<times> EVFILE) option" where
  "note_block blkHdrSize a = do {
     let a = a\<lparr>blknum := blknum a + 1\<rparr>;
     num \<leftarrow> rd_buf a (buf a + EV_HD_BLKNUM);
     ver \<leftarrow> rd_buf a (buf a + EV_HD_VER);
     used \<leftarrow> rd_buf a (buf a + EV_HD_USED);
     let a = (if num \<noteq> blknum a + blkNumDiff a then a\<lparr>blkNumDiff := num - blknum a\<rparr> else a);
     let a = (if version a > 3 \<and> isLastBlockInt ver then a\<lparr>isLastBlock := True\<rparr> else a);
     let a = a\<lparr>next := buf a + unat blkHdrSize,
               left := (if version a < 4 then used - blkHdrSize else blksiz a - blkHdrSize)\<rparr>;
     Some (if left a < 1 then (if isLastBlock a then c_EOF else S_EVFILE_UNXPTDEOF) else S_SUCCESS, a)
   }"

definition evGetNewBuffer :: "env \<Rightarrow> EVFILE \<Rightarrow> world \<Rightarrow> (status \<times> EVFILE \<times> world) option" where
  "evGetNewBuffer e a w =
     (if version a > 3 \<and> isLastBlock a then Some (c_EOF, a, w)
      else returned (proceed (read_header e a w)
        (\<lambda>(a, w). do {
           blkHdrSize \<leftarrow> rd_buf a (buf a + EV_HD_HDSIZ);
           proceed (read_rest e blkHdrSize (a, w))
             (\<lambda>(a, w). map_option (\<lambda>(st, a). Inr (st, a, w)) (note_block blkHdrSize a))
         })))"

section \<open>The next event\<close>

text \<open>
  The loop that gathers an event, which in old files may cross blocks: \<open>nleft\<close> words are still missing.
  It does not end when a failed read leaves \<^verbatim>\<open>errno\<close> 0 and no data.
\<close>

definition more_data :: "env \<Rightarrow> EVFILE \<Rightarrow> world \<Rightarrow> (status \<times> EVFILE \<times> world) option" where
  "more_data e a w = (if left a < 1 then evGetNewBuffer e a w else Some (S_SUCCESS, a, w))"

partial_function (option) gather ::
  "env \<Rightarrow> u32 \<Rightarrow> words \<Rightarrow> EVFILE \<Rightarrow> world \<Rightarrow> (status \<times> words \<times> EVFILE \<times> world) option" where
  "gather e nleft got a w =
     (if nleft = 0 then Some (S_SUCCESS, got, a, w)
      else do {
        (st, a, w) \<leftarrow> more_data e a w;
        if st \<noteq> S_SUCCESS then Some (st, got, a, w)
        else do {
          let ncopy = (if nleft \<le> left a then nleft else left a);
          ws \<leftarrow> cut (mem a) (next a) (unat ncopy);
          gather e (nleft - ncopy) (got @ ws) (a\<lparr>next := next a + unat ncopy, left := left a - ncopy\<rparr>) w
        }
      })"

text \<open>The inclusive length of the event at \<^verbatim>\<open>next\<close>, after more data have been read when the block is used up.\<close>

definition event_length :: "EVFILE \<Rightarrow> u32 option" where
  "event_length a = map_option (\<lambda>v. host a v + 1) (rd_buf a (next a))"

text \<open>\<^verbatim>\<open>evReadAllocImpl\<close>: the buffer it returns on success.\<close>

definition evReadAllocImpl :: "env \<Rightarrow> EVFILE \<Rightarrow> world \<Rightarrow> (status \<times> words option \<times> EVFILE \<times> world) option" where
  "evReadAllocImpl e a w =
     (if \<not> reading a \<or> randomAccess a then Some (S_EVFILE_BADMODE, None, a, w)
      else do {
        (st, a, w) \<leftarrow> more_data e a w;
        if st \<noteq> S_SUCCESS then Some (st, None, a, w)
        else do {
          len \<leftarrow> event_length a;
          if \<not> malloc_ok e (unat (4 * len)) then Some (S_EVFILE_ALLOCFAIL, None, a, w)
          else do {
            (st, ev, a, w) \<leftarrow> gather e len [] a w;
            if st \<noteq> S_SUCCESS then Some (st, None, a, w)
            else do {
              ev \<leftarrow> (if byte_swapped a then swap_event e 0 ev else Some ev);
              Some (S_SUCCESS, Some ev, a, w)
            }
          }
        }
      })"

definition evReadAlloc :: "env \<Rightarrow> lib \<Rightarrow> int \<Rightarrow> (status \<times> words option \<times> lib) option" where
  "evReadAlloc e l h =
     (if bad_handle l h then Some (S_EVFILE_BADHANDLE, None, l)
      else (case lookup_handle l h of
          None \<Rightarrow> Some (S_EVFILE_BADHANDLE, None, l)
        | Some a \<Rightarrow> do {
            (st, ev, a, w) \<leftarrow> evReadAllocImpl e a (sys l);
            Some (st, ev, (store_handle l h a)\<lparr>sys := w\<rparr>)
          }))"

text \<open>\<^verbatim>\<open>evRead\<close> into the caller's buffer; the result holds that buffer.\<close>

definition read_event :: "env \<Rightarrow> EVFILE \<Rightarrow> world \<Rightarrow> words \<Rightarrow> u32 \<Rightarrow> (status \<times> words \<times> EVFILE \<times> world) option" where
  "read_event e a w buffer buflen = do {
     (st, a, w) \<leftarrow> more_data e a w;
     if st \<noteq> S_SUCCESS then Some (st, buffer, a, w)
     else if byte_swapped a \<and> \<not> malloc_ok e (4 * unat buflen) then Some (S_EVFILE_ALLOCFAIL, buffer, a, w)
     else do {
       len \<leftarrow> event_length a;
       if len > buflen then Some (S_EVFILE_TRUNC, buffer, a, w)
       else do {
         (st, ev, a, w) \<leftarrow> gather e len [] a w;
         if byte_swapped a then
           (if st \<noteq> S_SUCCESS then Some (st, buffer, a, w)
            else do {
              temp \<leftarrow> paste (fresh e (unat buflen)) 0 ev;
              m \<leftarrow> evioswap (4 * unat buflen) (stack_bytes e) True 0 \<lparr>sm_src = temp, sm_dst = Some buffer\<rparr>;
              Some (S_SUCCESS, sm_out m, a, w)
            })
         else do {
           buffer \<leftarrow> paste buffer 0 ev;
           Some (st, buffer, a, w)
         }
       }
     }
   }"

definition evRead :: "env \<Rightarrow> lib \<Rightarrow> int \<Rightarrow> words option \<Rightarrow> u32 \<Rightarrow> (status \<times> words option \<times> lib) option" where
  "evRead e l h buffer buflen =
     (if bad_handle l h then Some (S_EVFILE_BADHANDLE, buffer, l)
      else if buffer = None \<or> buflen < 3 then Some (S_EVFILE_BADARG, buffer, l)
      else (case lookup_handle l h of
          None \<Rightarrow> Some (S_EVFILE_BADHANDLE, buffer, l)
        | Some a \<Rightarrow>
            if \<not> reading a then Some (S_EVFILE_BADMODE, buffer, l)
            else if randomAccess a then Some (S_EVFILE_BADMODE, buffer, l)
            else do {
              (st, ev, a, w) \<leftarrow> read_event e a (sys l) (the buffer) buflen;
              Some (st, Some ev, (store_handle l h a)\<lparr>sys := w\<rparr>)
            }))"

text \<open>\<^verbatim>\<open>evReadNoCopy\<close>: the offset of the event in the block buffer and its length.\<close>

definition next_in_buffer :: "env \<Rightarrow> EVFILE \<Rightarrow> world \<Rightarrow> (status \<times> (nat \<times> u32) option \<times> EVFILE \<times> world) option" where
  "next_in_buffer e a w = do {
     (st, a, w) \<leftarrow> more_data e a w;
     if st \<noteq> S_SUCCESS then Some (st, None, a, w)
     else do {
       nleft \<leftarrow> event_length a;
       m \<leftarrow> (if byte_swapped a then swap_event e (next a) (mem a) else Some (mem a));
       let p = next a;
       Some (S_SUCCESS, Some (p, nleft), (set_mem m a)\<lparr>next := next a + unat nleft, left := left a - nleft\<rparr>, w)
     }
   }"

definition evReadNoCopy :: "env \<Rightarrow> lib \<Rightarrow> int \<Rightarrow> (status \<times> (nat \<times> u32) option \<times> lib) option" where
  "evReadNoCopy e l h =
     (if bad_handle l h then Some (S_EVFILE_BADHANDLE, None, l)
      else (case lookup_handle l h of
          None \<Rightarrow> Some (S_EVFILE_BADHANDLE, None, l)
        | Some a \<Rightarrow>
            if version a < 4 then Some (S_EVFILE_BADFILE, None, l)
            else if \<not> reading a then Some (S_EVFILE_BADMODE, None, l)
            else if randomAccess a then Some (S_EVFILE_BADMODE, None, l)
            else do {
              (st, r, a, w) \<leftarrow> next_in_buffer e a (sys l);
              Some (st, r, (store_handle l h a)\<lparr>sys := w\<rparr>)
            }))"

end
