(* ===== verification/EvioRandom.thy ===== *)
theory EvioRandom
  imports EvioRead
begin

text \<open>
  Random access and counting: \<^verbatim>\<open>memoryMapFile\<close>, \<^verbatim>\<open>generatePointerTable\<close>, \<^verbatim>\<open>evReadRandom\<close> and
  \<^verbatim>\<open>getEventCount\<close> of \<^verbatim>\<open>evio.c\<close>. The table of pointers is a list of offsets.
\<close>

text \<open>The file is opened for reading and writing, but mapped read-only. An empty file cannot be mapped.\<close>

definition memoryMapFile :: "env \<Rightarrow> world \<Rightarrow> EVFILE \<Rightarrow> string \<Rightarrow> status \<times> EVFILE" where
  "memoryMapFile e w a f =
     (case files w f of
        None \<Rightarrow> (S_FAILURE, a)
      | Some ws \<Rightarrow>
          if \<not> create_ok e f then (S_FAILURE, a)
          else if ws = [] \<or> \<not> malloc_ok e (4 * length ws) then (S_FAILURE, a)
          else (S_SUCCESS, a\<lparr>mmapFile := ws, mmapFileSize := of_nat (4 * length ws)\<rparr>))"

definition random_mem :: "EVFILE \<Rightarrow> words" where
  "random_mem a = (if rw a = EV_READBUF then rwBuf a else mmapFile a)"

section \<open>The pointer table\<close>

text \<open>
  The \<^verbatim>\<open>for\<close> loop over the events of a block, with the table (\<open>None\<close> if its first allocation failed) and its
  capacity.
\<close>

record scan =
  sc_pos :: nat
  sc_left :: u64
  sc_table :: "nat list option"
  sc_room :: nat

definition hop :: "u32 \<Rightarrow> scan \<Rightarrow> scan" where
  "hop len s = s\<lparr>sc_pos := sc_pos s + unat len, sc_left := sc_left s - ucast (4 * len)\<rparr>"

fun table_events :: "env \<Rightarrow> bool \<Rightarrow> words \<Rightarrow> nat \<Rightarrow> scan \<Rightarrow> (status \<times> scan) option" where
  "table_events e sw m 0 s = Some (S_SUCCESS, s)"
| "table_events e sw m (Suc k) s =
     (if sc_left s < 8 then Some (S_EVFILE_UNXPTDEOF, s)
      else do {
        v \<leftarrow> rd m (sc_pos s);
        let len = (if sw then EVIO_SWAP32 v else v) + 1;
        t \<leftarrow> sc_table s;
        let s = s\<lparr>sc_table := Some (t @ [sc_pos s])\<rparr>;
        if Suc (length t) \<ge> sc_room s \<and> \<not> malloc_ok e ((sc_room s + 10000) * 8) then Some (S_EVFILE_ALLOCFAIL, s)
        else
          let s = (if Suc (length t) \<ge> sc_room s then s\<lparr>sc_room := sc_room s + 10000\<rparr> else s)
          in table_events e sw m k (hop len s)
      })"

text \<open>The dictionary at the start of the first block that has one is skipped.\<close>

definition skip_dictionary :: "bool \<Rightarrow> words \<Rightarrow> scan \<Rightarrow> scan option" where
  "skip_dictionary sw m s = do {
     v \<leftarrow> rd m (sc_pos s);
     Some (hop ((if sw then EVIO_SWAP32 v else v) + 1) s)
   }"

text \<open>The \<^verbatim>\<open>while\<close> loop over the blocks: an empty block of header size 0 keeps it at its place for ever.\<close>

partial_function (option) table_blocks ::
  "env \<Rightarrow> bool \<Rightarrow> words \<Rightarrow> bool \<Rightarrow> scan \<Rightarrow> (status \<times> scan) option" where
  "table_blocks e sw m firstBlock s = do {
     i \<leftarrow> rd m (sc_pos s + EV_HD_VER);
     blockHdrSize \<leftarrow> rd m (sc_pos s + EV_HD_HDSIZ);
     blockEventCount \<leftarrow> rd m (sc_pos s + EV_HD_COUNT);
     let i = (if sw then EVIO_SWAP32 i else i);
     let blockHdrSize = (if sw then EVIO_SWAP32 blockHdrSize else blockHdrSize);
     let blockEventCount = (if sw then EVIO_SWAP32 blockEventCount else blockEventCount);
     let s = hop blockHdrSize s;
     let d = (hasDictionaryInt i \<and> firstBlock);
     s \<leftarrow> (if d then skip_dictionary sw m s else Some s);
     (st, s) \<leftarrow> table_events e sw m (nat (sint blockEventCount)) s;
     if st \<noteq> S_SUCCESS then Some (st, s)
     else if isLastBlockInt i then Some (S_SUCCESS, s)
     else table_blocks e sw m (firstBlock \<and> \<not> d) s
   }"

definition generatePointerTable :: "env \<Rightarrow> EVFILE \<Rightarrow> (status \<times> EVFILE) option" where
  "generatePointerTable e a =
     (if \<not> randomAccess a then Some (S_SUCCESS, a)
      else do {
        let left = (if rw a = EV_READBUF then ucast (rwBufSize a) else mmapFileSize a);
        (st, s) \<leftarrow> table_blocks e (byte_swapped a) (random_mem a) True
          \<lparr>sc_pos = 0, sc_left = left, sc_table = (if malloc_ok e (10000 * 8) then Some [] else None), sc_room = 10000\<rparr>;
        let a = a\<lparr>pTable := sc_table s\<rparr>;
        Some (if st \<noteq> S_SUCCESS then (st, a)
              else (S_SUCCESS, a\<lparr>eventCount := (case sc_table s of None \<Rightarrow> 0 | Some t \<Rightarrow> of_nat (length t))\<rparr>))
      })"

section \<open>Reading by number\<close>

text \<open>
  The entry \<^verbatim>\<open>pTable[eventNumber - 1]\<close>, then the length, and the swap in place: into the user's buffer, or
  into the map, which cannot be written.
\<close>

definition random_event :: "env \<Rightarrow> EVFILE \<Rightarrow> u32 \<Rightarrow> (status \<times> (nat \<times> u32) option \<times> EVFILE) option" where
  "random_event e a eventNumber =
     (if eventNumber > eventCount a \<or> pTable a = None then Some (S_FAILURE, None, a)
      else do {
        t \<leftarrow> pTable a;
        pev \<leftarrow> (if eventNumber = 0 then None else rd t (unat (eventNumber - 1)));
        v \<leftarrow> rd (random_mem a) pev;
        let buflen = host a v + 1;
        a \<leftarrow> (if \<not> byte_swapped a then Some a
              else if rw a = EV_READBUF then map_option (\<lambda>m. a\<lparr>rwBuf := m\<rparr>) (swap_event e pev (rwBuf a))
              else None);
        Some (S_SUCCESS, Some (pev, buflen), a)
      })"

definition evReadRandom :: "env \<Rightarrow> lib \<Rightarrow> int \<Rightarrow> u32 \<Rightarrow> (status \<times> (nat \<times> u32) option \<times> lib) option" where
  "evReadRandom e l h eventNumber =
     (if bad_handle l h then Some (S_EVFILE_BADHANDLE, None, l)
      else (case lookup_handle l h of
          None \<Rightarrow> Some (S_EVFILE_BADHANDLE, None, l)
        | Some a \<Rightarrow>
            if version a < 4 then Some (S_EVFILE_BADFILE, None, l)
            else if rw a \<noteq> EV_READFILE \<and> rw a \<noteq> EV_READBUF \<or> \<not> randomAccess a then Some (S_EVFILE_BADMODE, None, l)
            else do {
              (st, r, a) \<leftarrow> random_event e a eventNumber;
              Some (st, r, store_handle l h a)
            }))"

section \<open>Counting the events\<close>

text \<open>The headers of a buffer, and of a file, up to the last block.\<close>

partial_function (option) count_buffer :: "nat \<Rightarrow> EVFILE \<Rightarrow> (status \<times> EVFILE) option" where
  "count_buffer bytesUsed a =
     (if unat (rwBufSize a - of_nat bytesUsed) < 32 then Some (S_EVFILE_UNXPTDEOF, a)
      else do {
        hdr \<leftarrow> cut (rwBuf a) (bytesUsed div 4) 8;
        let blockSize = host a (hdr ! EV_HD_BLKSIZ);
        let a = a\<lparr>eventCount := eventCount a + host a (hdr ! EV_HD_COUNT)\<rparr>;
        if isLastBlockInt (host a (hdr ! EV_HD_VER)) then Some (S_SUCCESS, a)
        else if rwBufSize a - of_nat bytesUsed < 4 * blockSize then Some (S_EVFILE_UNXPTDEOF, a)
        else count_buffer (bytesUsed + unat (4 * blockSize)) a
      })"

partial_function (option) count_stream :: "env \<Rightarrow> world \<Rightarrow> stream \<Rightarrow> EVFILE \<Rightarrow> (status \<times> stream \<times> EVFILE) option" where
  "count_stream e w s a =
     (let (hdr, s) = fread e 8 s w in
      if length hdr \<noteq> 8 then Some (S_EVFILE_BADFILE, s, a)
      else
        let blockSize = host a (hdr ! EV_HD_BLKSIZ);
            a = a\<lparr>eventCount := eventCount a + host a (hdr ! EV_HD_COUNT)\<rparr>
        in if isLastBlockInt (host a (hdr ! EV_HD_VER)) then Some (S_SUCCESS, s, a)
           else (case fseek_cur (int (unat (4 * (blockSize - EV_HDSIZ)) div 4)) s of
               None \<Rightarrow> Some (err_no e, s, a)
             | Some s \<Rightarrow> count_stream e w s a))"

text \<open>The count is left in the structure. A write buffer in append mode has no file to seek in.\<close>

definition getEventCount :: "env \<Rightarrow> EVFILE \<Rightarrow> world \<Rightarrow> (status \<times> EVFILE) option" where
  "getEventCount e a w =
     (if rw a = EV_WRITESOCK \<or> rw a = EV_READSOCK \<or> rw a = EV_WRITEPIPE \<or> rw a = EV_READPIPE then Some (S_FAILURE, a)
      else if randomAccess a then Some (S_SUCCESS, a)
      else if eventCount a > 0 then Some (S_SUCCESS, a)
      else if append a = 0 \<and> (rw a = EV_WRITEBUF \<or> rw a = EV_WRITEFILE) then Some (S_SUCCESS, a)
      else if rw a = EV_READBUF then count_buffer 0 a
      else do {
        s \<leftarrow> file a;
        (st, s', a) \<leftarrow> count_stream e w (fseek_set 0 s) a;
        Some (if st \<noteq> S_SUCCESS then (st, a\<lparr>file := Some s'\<rparr>)
              else (S_SUCCESS, a\<lparr>file := Some (fseek_set (st_pos s) s')\<rparr>))
      })"

end
