(* ===== verification/EvioOpen.thy ===== *)
theory EvioOpen
  imports EvioRandom EvioFileNames
begin

text \<open>
  Opening: \<^verbatim>\<open>evOpen\<close>, \<^verbatim>\<open>evOpenBuffer\<close>, \<^verbatim>\<open>evOpenSocket\<close> and \<^verbatim>\<open>evOpenImpl\<close> with \<^verbatim>\<open>toAppendPosition\<close>. The body of
  \<^verbatim>\<open>evOpenImpl\<close> is cut into its phases: arguments, first header, checks, first block, output, handle.
\<close>

section \<open>The position to append at\<close>

text \<open>The last header found: its bits, block size, header size, and the number for the next block.\<close>

record found_header =
  fh_bits :: u32
  fh_size :: u32
  fh_hdr :: u32
  fh_next :: u32

type_synonym 'a append_step = "(status \<times> EVFILE \<times> world) + 'a"

definition found :: "EVFILE \<Rightarrow> words \<Rightarrow> u32 \<Rightarrow> found_header" where
  "found a hdr n = \<lparr>fh_bits = host a (hdr ! EV_HD_VER), fh_size = host a (hdr ! EV_HD_BLKSIZ),
                    fh_hdr = host a (hdr ! EV_HD_HDSIZ), fh_next = n + 1\<rparr>"

partial_function (option) scan_buffer :: "u32 \<Rightarrow> EVFILE \<Rightarrow> world \<Rightarrow> (found_header \<times> EVFILE \<times> world) append_step option" where
  "scan_buffer n a w =
     (if unat (rwBufSize a - rwBytesOut a) < 32 then Some (Inl (S_EVFILE_UNXPTDEOF, a, w))
      else do {
        let a = a\<lparr>buf := unat (rwBytesOut a) div 4\<rparr>;
        hdr \<leftarrow> cut (rwBuf a) (buf a) 8;
        let h = found a hdr n;
        let a = a\<lparr>eventCount := eventCount a + host a (hdr ! EV_HD_COUNT)\<rparr>;
        if isLastBlockInt (fh_bits h) then Some (Inr (h, a, w))
        else if rwBufSize a - rwBytesOut a < 4 * fh_size h then Some (Inl (S_EVFILE_UNXPTDEOF, a, w))
        else scan_buffer (n + 1) (a\<lparr>rwBytesOut := rwBytesOut a + 4 * fh_size h\<rparr>) w
      })"

partial_function (option) scan_file :: "env \<Rightarrow> u32 \<Rightarrow> EVFILE \<Rightarrow> world \<Rightarrow> (found_header \<times> EVFILE \<times> world) append_step option" where
  "scan_file e n a w = do {
     s \<leftarrow> file a;
     let (hdr, s) = fread e 8 s w;
     let a = a\<lparr>file := Some s\<rparr>;
     if length hdr \<noteq> 8 then Some (Inl (S_EVFILE_BADFILE, a, w))
     else do {
       let h = found a hdr n;
       let a = a\<lparr>eventCount := eventCount a + host a (hdr ! EV_HD_COUNT)\<rparr>;
       if isLastBlockInt (fh_bits h) then Some (Inr (h, a, w))
       else (case fseek_cur (int (unat (4 * (fh_size h - EV_HDSIZ)) div 4)) s of
           None \<Rightarrow> Some (Inl (err_no e, a, w))
         | Some s \<Rightarrow> scan_file e (n + 1) (a\<lparr>file := Some s\<rparr>) w)
     }
   }"

definition seek :: "env \<Rightarrow> int \<Rightarrow> EVFILE \<times> world \<Rightarrow> (EVFILE \<times> world) append_step option" where
  "seek e d = (\<lambda>(a, w). do {
     s \<leftarrow> file a;
     Some (case fseek_cur d s of None \<Rightarrow> Inl (err_no e, a, w) | Some s \<Rightarrow> Inr (a\<lparr>file := Some s\<rparr>, w))
   })"

definition write_words :: "env \<Rightarrow> words \<Rightarrow> status \<Rightarrow> EVFILE \<times> world \<Rightarrow> (EVFILE \<times> world) append_step option" where
  "write_words e ws failure = (\<lambda>(a, w). do {
     s \<leftarrow> file a;
     let (n, s, w) = fwrite e ws s w;
     let a = a\<lparr>file := Some s\<rparr>;
     Some (if n \<noteq> length ws then Inl (failure, a, w) else Inr (a, w))
   })"

text \<open>The last block holds data: its last-block bit goes, and the new last header comes behind it.\<close>

definition keep_last_buffer :: "found_header \<Rightarrow> EVFILE \<Rightarrow> world \<Rightarrow> (u32 \<times> EVFILE \<times> world) append_step option" where
  "keep_last_buffer h a w = do {
     m \<leftarrow> wr (rwBuf a) (unat (rwBytesOut a) div 4 + EV_HD_VER) (clearLastBlockBitInt (fh_bits h));
     let a = a\<lparr>rwBuf := m, rwBytesOut := rwBytesOut a + 4 * fh_size h\<rparr>;
     if rwBufSize a < rwBytesOut a + 4 * EV_HDSIZ then Some (Inl (S_EVFILE_TRUNC, a, w))
     else do {
       let a = a\<lparr>buf := unat (rwBytesOut a) div 4\<rparr>;
       m \<leftarrow> paste (rwBuf a) (buf a) initBlockHeader;
       Some (Inr (fh_next h, a\<lparr>rwBuf := m\<rparr>, w))
     }
   }"

definition keep_last_file :: "env \<Rightarrow> found_header \<Rightarrow> EVFILE \<Rightarrow> world \<Rightarrow> (u32 \<times> EVFILE \<times> world) append_step option" where
  "keep_last_file e h a w =
     proceed (seek e (- 3) (a, w))
       (\<lambda>s. proceed (write_words e [clearLastBlockBitInt (fh_bits h)] (err_no e) s)
          (\<lambda>s. proceed (seek e (int (unat (4 * (fh_size h - 6)) div 4)) s)
             (\<lambda>(a, w). Some (Inr (fh_next h, a, w)))))"

text \<open>The last block is empty: it is written over.\<close>

definition reuse_last :: "env \<Rightarrow> found_header \<Rightarrow> EVFILE \<Rightarrow> world \<Rightarrow> (u32 \<times> EVFILE \<times> world) append_step option" where
  "reuse_last e h a w =
     (if rw a = EV_WRITEBUF then do {
        m \<leftarrow> paste (rwBuf a) (buf a) initBlockHeader;
        Some (Inr (fh_next h - 1, a\<lparr>rwBuf := m\<rparr>, w))
      }
      else proceed (seek e (- 8) (a, w)) (\<lambda>(a, w). Some (Inr (fh_next h - 1, a, w))))"

text \<open>The new empty last header, and the step back over it in a file.\<close>

definition end_header :: "env \<Rightarrow> u32 \<Rightarrow> EVFILE \<Rightarrow> world \<Rightarrow> (EVFILE \<times> world) append_step option" where
  "end_header e n a w = do {
     a \<leftarrow> wr_buf (buf a + EV_HD_BLKNUM) n a;
     v \<leftarrow> rd_buf a (buf a + EV_HD_VER);
     a \<leftarrow> wr_buf (buf a + EV_HD_VER) (setLastBlockBitInt v) (a\<lparr>blknum := n + 1, isLastBlock := True\<rparr>);
     a \<leftarrow> wr_buf (buf a + EV_HD_BLKSIZ) EV_HDSIZ a;
     if rw a = EV_WRITEBUF then Some (Inr (a\<lparr>rwBytesOut := rwBytesOut a + 4 * EV_HDSIZ\<rparr>, w))
     else do {
       ws \<leftarrow> cut (mem a) (buf a) 8;
       proceed (write_words e ws 1 (a\<lparr>file := map_option clearerr (file a)\<rparr>, w)) (seek e (- 8))
     }
   }"

definition toAppendPosition :: "env \<Rightarrow> EVFILE \<Rightarrow> world \<Rightarrow> (EVFILE \<times> world) append_step option" where
  "toAppendPosition e a w =
     (if append a = 0 then Some (Inr (a, w))
      else
        proceed
          (if rw a = EV_WRITEBUF then scan_buffer 1 (a\<lparr>rwBytesOut := 0\<rparr>) w
           else scan_file e 1 (a\<lparr>file := map_option (fseek_set 0) (file a)\<rparr>) w)
          (\<lambda>(h, a, w).
             let n = (if hasAppendDictionary a then eventCount a + 1 else eventCount a);
                 a = a\<lparr>eventsToFile := n, eventsToBuf := n\<rparr>
             in proceed
                  (if fh_size h > fh_hdr h then
                     (if rw a = EV_WRITEBUF then keep_last_buffer h a w else keep_last_file e h a w)
                   else reuse_last e h a w)
                  (\<lambda>(n, a, w). end_header e n a w)))"

section \<open>Arguments\<close>

text \<open>What the caller passes as source or destination.\<close>

datatype source = NoPtr | Name string | Memory words

datatype target = File string | Buffer words u32 | Socket int

definition lower :: "char \<Rightarrow> char" where
  "lower c = (if 65 \<le> code c \<and> code c \<le> 90 then char_of (code c + 32) else c)"

definition strcasecmp_eq :: "string \<Rightarrow> string \<Rightarrow> bool" where
  "strcasecmp_eq f g \<longleftrightarrow> map lower f = map lower g"

definition one_of :: "string \<Rightarrow> string list \<Rightarrow> bool" where
  "one_of f gs \<longleftrightarrow> list_ex (strcasecmp_eq f) gs"

text \<open>A file name is trimmed; a name of white space only is kept.\<close>

definition trimmed :: "string \<Rightarrow> string option" where
  "trimmed f = map_option (\<lambda>r. case r of None \<Rightarrow> f | Some s \<Rightarrow> s) (evTrim (Some (f @ [NUL])) 0)"

definition open_target :: "env \<Rightarrow> source \<Rightarrow> u32 \<Rightarrow> int \<Rightarrow> string \<Rightarrow> (status + target) option" where
  "open_target e src bufLen fd flags =
     (if one_of flags [''w'', ''s'', ''r'', ''a'', ''ra''] then
        (case src of
           Name f \<Rightarrow> (case strdup e f of None \<Rightarrow> Some (Inl S_EVFILE_ALLOCFAIL)
                      | Some f \<Rightarrow> map_option (\<lambda>f. Inr (File f)) (trimmed f))
         | _ \<Rightarrow> Some (Inl S_EVFILE_BADARG))
      else if one_of flags [''wb'', ''rb'', ''ab'', ''rab''] then
        (case src of
           Memory m \<Rightarrow> Some (if 4 * bufLen < 4 * 11 then Inl S_EVFILE_BADARG else Inr (Buffer m (4 * bufLen)))
         | _ \<Rightarrow> Some (Inl S_EVFILE_BADARG))
      else if one_of flags [''ws'', ''rs''] then
        Some (if fd < 0 then Inl S_EVFILE_BADARG else Inr (Socket fd))
      else Some (Inl S_EVFILE_BADARG))"

section \<open>Opening for reading\<close>

text \<open>Random access is noted in the structure for a file only: a buffer opened for it has no table.\<close>

text \<open>An early return of \<^verbatim>\<open>evOpenImpl\<close>: the status, what is stored to the handle variable, and the world.\<close>

type_synonym 'a open_step = "(status \<times> int option \<times> world) + 'a"

text \<open>The words of a header as the file has them, read into a local array.\<close>

definition open_stream :: "env \<Rightarrow> bool \<Rightarrow> string \<Rightarrow> EVFILE \<Rightarrow> world \<Rightarrow> EVFILE open_step" where
  "open_stream e random f a w =
     (let a = a\<lparr>rw := EV_READFILE, randomAccess := random\<rparr> in
      if f = ''-'' then Inr (a\<lparr>file := Some c_stdin\<rparr>)
      else if f \<noteq> [] \<and> hd f = CHR ''|'' then Inr (a\<lparr>file := popen_read e f, rw := EV_READPIPE\<rparr>)
      else if random then
        (case memoryMapFile e w a f of (st, a) \<Rightarrow> if st \<noteq> S_SUCCESS then Inl (err_no e, None, w) else Inr a)
      else Inr (a\<lparr>file := fopen_read f w\<rparr>))"

definition first_header ::
  "env \<Rightarrow> bool \<Rightarrow> target \<Rightarrow> EVFILE \<Rightarrow> world \<Rightarrow> (int \<times> words \<times> EVFILE \<times> world) open_step option" where
  "first_header e random t a w =
     (case t of
        File f \<Rightarrow>
          (case open_stream e random f a w of
             Inl r \<Rightarrow> Some (Inl r)
           | Inr a \<Rightarrow>
               if random then map_option (\<lambda>hdr. Inr (32, hdr, a, w)) (cut (mmapFile a) 0 8)
               else (case file a of
                   None \<Rightarrow> Some (Inl (err_no e, Some 0, w))
                 | Some s \<Rightarrow> let (hdr, s) = fread e 8 s w
                     in Some (Inr (4 * int (length hdr), hdr, a\<lparr>file := Some s\<rparr>, w))))
      | Socket fd \<Rightarrow>
          (let (r, bs, w) = tcpRead fd 32 w
           in Some (Inr (r, words_of bs, a\<lparr>sockFd := fd, rw := EV_READSOCK\<rparr>, w)))
      | Buffer m sz \<Rightarrow>
          (let a = a\<lparr>rwBuf := m, rw := EV_READBUF, rwBufSize := sz\<rparr>
           in map_option (\<lambda>hdr. Inr (32, hdr, a\<lparr>rwBytesIn := rwBytesIn a + 32\<rparr>, w)) (cut m 0 8)))"

text \<open>Byte order, version and header size.\<close>

definition check_header :: "words \<Rightarrow> EVFILE \<Rightarrow> EVFILE option" where
  "check_header hdr a =
     (let magicWord = hdr ! EV_HD_MAGIC in
      if magicWord \<noteq> EV_MAGIC \<and> EVIO_SWAP32 magicWord \<noteq> EV_MAGIC then None
      else
        let a = a\<lparr>byte_swapped := magicWord \<noteq> EV_MAGIC\<rparr>;
            v = uint (host a (hdr ! EV_HD_VER) AND EV_VERSION_MASK)
        in if v < 1 \<or> v > 4 then None
           else if sint (host a (hdr ! EV_HD_HDSIZ) - EV_HDSIZ) < 0 then None
           else Some (a\<lparr>version := v\<rparr>))"

text \<open>The rest of the first block is read without the checks that later blocks get.\<close>

definition first_rest :: "env \<Rightarrow> u32 \<Rightarrow> target \<Rightarrow> EVFILE \<Rightarrow> world \<Rightarrow> (int \<times> EVFILE \<times> world) option" where
  "first_rest e n t a w =
     (case t of
        File f \<Rightarrow> do {
          s \<leftarrow> file a;
          let (ws, s) = fread e (unat n div 4) s w;
          m \<leftarrow> paste (mem a) 8 ws;
          Some (4 * int (length ws), (set_mem m a)\<lparr>file := Some s\<rparr>, w)
        }
      | Socket fd \<Rightarrow> do {
          let (r, bs, w) = (if sint n \<le> 0 then (0, [], w) else tcpRead fd (unat n) w);
          m \<leftarrow> put_bytes 8 bs (mem a);
          Some (r, set_mem m a, w)
        }
      | Buffer m sz \<Rightarrow> do {
          ws \<leftarrow> cut (rwBuf a) (unat (rwBytesIn a) div 4) (unat n div 4);
          m \<leftarrow> paste (mem a) 8 ws;
          Some (int (unat n), (set_mem m a)\<lparr>rwBytesIn := rwBytesIn a + n\<rparr>, w)
        })"

definition chars_of :: "words \<Rightarrow> string" where
  "chars_of ws = map (\<lambda>b. char_of (unat b)) (bytes_of ws)"

text \<open>The dictionary is the first event of the first block. Failing to read it is not an error.\<close>

definition take_dictionary :: "env \<Rightarrow> EVFILE \<Rightarrow> world \<Rightarrow> (EVFILE \<times> world) option" where
  "take_dictionary e a w = do {
     ver \<leftarrow> rd_buf a (buf a + EV_HD_VER);
     if \<not> hasDictionaryInt ver then Some (a, w)
     else do {
       (st, ev, a, w) \<leftarrow> evReadAllocImpl e a w;
       (case ev of
          None \<Rightarrow> Some (a, w)
        | Some ws \<Rightarrow> do { d \<leftarrow> evTrim (Some (chars_of ws)) 8; Some (a\<lparr>dictionary := d\<rparr>, w) })
     }
   }"

definition first_block :: "env \<Rightarrow> words \<Rightarrow> target \<Rightarrow> EVFILE \<Rightarrow> world \<Rightarrow> (EVFILE \<times> world) open_step option" where
  "first_block e hdr t a w =
     (let blk_size = host a (hdr ! EV_HD_BLKSIZ);
          blkHdrSize = host a (hdr ! EV_HD_HDSIZ);
          a = a\<lparr>blksiz := blk_size, bufSize := (if blk_size < EV_BLOCKSIZE_MIN then EV_BLOCKSIZE_MIN else blk_size)\<rparr> in
      if \<not> malloc_ok e (unat (4 * bufSize a)) then Some (Inl (S_EVFILE_ALLOCFAIL, None, w))
      else do {
        m \<leftarrow> paste (fresh e (unat (4 * bufSize a) div 4)) 0 (map (host a) hdr);
        let a = (set_mem m a)\<lparr>buf := 0\<rparr>;
        let n = 4 * (blk_size - EV_HDSIZ);
        (k, a, w) \<leftarrow> first_rest e n t a w;
        if k \<noteq> int (unat n) then Some (Inl (S_EVFILE_BADFILE, None, w))
        else if version a < 4 then do {
          start \<leftarrow> rd_buf a (buf a + EV_HD_START);
          used \<leftarrow> rd_buf a (buf a + EV_HD_USED);
          Some (Inr (a\<lparr>next := buf a + unat start, left := used - start\<rparr>, w))
        }
        else do {
          size \<leftarrow> rd_buf a (buf a + EV_HD_BLKSIZ);
          ver \<leftarrow> rd_buf a (buf a + EV_HD_VER);
          let a = a\<lparr>next := buf a + unat blkHdrSize, left := size - blkHdrSize, isLastBlock := isLastBlockInt ver\<rparr>;
          map_option Inr (take_dictionary e a w)
        }
      })"

definition open_reading :: "env \<Rightarrow> bool \<Rightarrow> target \<Rightarrow> EVFILE \<Rightarrow> world \<Rightarrow> (EVFILE \<times> world) open_step option" where
  "open_reading e random t a w =
     proceed (first_header e random t a w)
       (\<lambda>(n, hdr, a, w).
          if n \<noteq> 32 then Some (Inl (S_EVFILE_BADFILE, None, w))
          else (case check_header hdr a of
              None \<Rightarrow> Some (Inl (S_EVFILE_BADFILE, None, w))
            | Some a \<Rightarrow>
                if random then
                  (if version a < 4 then Some (Inl (S_EVFILE_BADFILE, None, w))
                   else do {
                     (st, a) \<leftarrow> generatePointerTable e a;
                     Some (if st \<noteq> S_SUCCESS then Inl (st, None, w) else Inr (a, w))
                   })
                else first_block e hdr t a w))"

section \<open>Opening for writing\<close>

text \<open>
  The destination, and in append mode the first header of what is there. Appending to a file that does not
  exist reads from a \<^verbatim>\<open>NULL\<close> stream.
\<close>

definition open_output ::
  "env \<Rightarrow> bool \<Rightarrow> bool \<Rightarrow> target \<Rightarrow> EVFILE \<Rightarrow> world \<Rightarrow> (words \<times> EVFILE \<times> world) open_step option" where
  "open_output e appends splits t a w =
     (case t of
        File f \<Rightarrow>
          (let a = a\<lparr>rw := EV_WRITEFILE\<rparr> in
           if f = ''-'' then Some (Inr (fresh e 8, a\<lparr>file := Some (c_stdout w)\<rparr>, w))
           else if f \<noteq> [] \<and> hd f = CHR ''|'' then
             (case fopen_write e f w of
                None \<Rightarrow> Some (Inr (fresh e 8, a\<lparr>file := None, rw := EV_WRITEPIPE\<rparr>, w))
              | Some (s, w) \<Rightarrow> Some (Inr (fresh e 8, a\<lparr>file := Some s, rw := EV_WRITEPIPE\<rparr>, w)))
           else if appends then do {
             s \<leftarrow> fopen_read f w;
             let (hdr, s) = fread e 8 s w;
             Some (if length hdr \<noteq> 8 then Inl (S_EVFILE_BADFILE, None, w) else Inr (hdr, a\<lparr>file := Some s\<rparr>, w))
           }
           else do {
             (st, r) \<leftarrow> evGenerateBaseFileName e (Some f) True True;
             (case r of
                None \<Rightarrow> Some (Inl (st, Some 0, w))
              | Some (base, n) \<Rightarrow>
                  Some (Inr (fresh e 8, a\<lparr>splitting := splits, baseFileName := Some base, specifierCount := n\<rparr>, w)))
           })
      | Socket fd \<Rightarrow> Some (Inr (fresh e 8, a\<lparr>sockFd := fd, rw := EV_WRITESOCK\<rparr>, w))
      | Buffer m sz \<Rightarrow>
          (let a = a\<lparr>rwBuf := m, rw := EV_WRITEBUF, rwBufSize := sz\<rparr> in
           if appends then
             (if sz < 32 then Some (Inl (S_EVFILE_UNXPTDEOF, None, w))
              else map_option (\<lambda>hdr. Inr (hdr, a, w)) (cut m 0 8))
           else Some (Inr (fresh e 8, a, w))))"

definition check_append :: "words \<Rightarrow> EVFILE \<Rightarrow> EVFILE option" where
  "check_append hdr a =
     (let magicWord = hdr ! EV_HD_MAGIC in
      if magicWord \<noteq> EV_MAGIC \<and> EVIO_SWAP32 magicWord \<noteq> EV_MAGIC then None
      else
        let a = a\<lparr>byte_swapped := magicWord \<noteq> EV_MAGIC\<rparr>;
            info = host a (hdr ! EV_HD_VER)
        in if info AND EV_VERSION_MASK \<noteq> EV_VERSION then None
           else Some (a\<lparr>hasAppendDictionary := (info AND EV_DICTIONARY_MASK) \<noteq> 0\<rparr>))"

text \<open>The block buffer, or the user's buffer in its place, with a first empty last header.\<close>

definition open_block :: "env \<Rightarrow> bool \<Rightarrow> EVFILE \<Rightarrow> world \<Rightarrow> EVFILE open_step option" where
  "open_block e appends a w =
     (if rw a \<noteq> EV_WRITEBUF then
        (if \<not> malloc_ok e (unat (4 * bufRealSize a)) then Some (Inl (S_EVFILE_ALLOCFAIL, None, w))
         else do {
           m \<leftarrow> paste (replicate (unat (4 * bufRealSize a) div 4) 0) 0 (initLastBlockHeader 1);
           Some (Inr ((set_mem m a)\<lparr>buf := 0\<rparr>))
         })
      else if appends then Some (Inr a)
      else do {
        m \<leftarrow> paste (rwBuf a) 0 (initLastBlockHeader 1);
        Some (Inr (a\<lparr>buf := 0, rwBuf := m, isLastBlock := True, rwBytesOut := 4 * EV_HDSIZ\<rparr>))
      })"

definition open_writing :: "env \<Rightarrow> bool \<Rightarrow> bool \<Rightarrow> target \<Rightarrow> EVFILE \<Rightarrow> world \<Rightarrow> (EVFILE \<times> world) open_step option" where
  "open_writing e appends splits t a w =
     proceed (open_output e appends splits t (a\<lparr>append := (if appends then 1 else 0)\<rparr>) w)
       (\<lambda>(hdr, a, w).
          case (if appends then check_append hdr a else Some a) of
            None \<Rightarrow> Some (Inl (S_EVFILE_BADFILE, None, w))
          | Some a \<Rightarrow>
              proceed (open_block e appends a w)
                (\<lambda>a. do {
                   r \<leftarrow> toAppendPosition e a w;
                   let (st, a, w) = (case r of Inl r \<Rightarrow> r | Inr (a, w) \<Rightarrow> (S_SUCCESS, a, w));
                   Some (if st \<noteq> S_SUCCESS then Inl (st, None, w)
                         else Inr (a\<lparr>currentHeader := buf a, next := buf a + 8\<rparr>, w))
                 }))"

section \<open>The calls\<close>

text \<open>
  The result: the status, what is stored to the caller's handle variable (\<open>None\<close>: nothing) and the
  library. The structure takes 336 bytes on a 64-bit host.
\<close>

definition evOpenImpl ::
  "env \<Rightarrow> lib \<Rightarrow> source \<Rightarrow> u32 \<Rightarrow> int \<Rightarrow> string option \<Rightarrow> (status \<times> int option \<times> lib) option" where
  "evOpenImpl e l src bufLen fd flags =
     (case flags of None \<Rightarrow> Some (S_EVFILE_BADARG, None, l)
      | Some f \<Rightarrow> do {
          t \<leftarrow> open_target e src bufLen fd f;
          (case t of
             Inl st \<Rightarrow> Some (st, None, l)
           | Inr t \<Rightarrow>
               if \<not> malloc_ok e 336 then Some (S_EVFILE_ALLOCFAIL, None, l)
               else do {
                 let random = one_of f [''ra'', ''rab''];
                 let appends = one_of f [''a'', ''ab''];
                 let is_read = (map lower (take 1 f) = ''r'');
                 r \<leftarrow> (if is_read then open_reading e random t structInit (sys l)
                       else open_writing e appends (one_of f [''s'']) t structInit (sys l));
                 (case r of
                    Inl (st, h, w) \<Rightarrow> Some (st, h, l\<lparr>sys := w\<rparr>)
                  | Inr (a, w) \<Rightarrow> do {
                      a \<leftarrow> (if random then Some a
                            else map_option (\<lambda>n. a\<lparr>blknum := n\<rparr>) (rd_buf a (buf a + EV_HD_BLKNUM)));
                      (h, l) \<leftarrow> newHandle e a (l\<lparr>sys := w\<rparr>);
                      Some (S_SUCCESS, Some h, l)
                    })
               })
        })"

definition evOpen :: "env \<Rightarrow> lib \<Rightarrow> source \<Rightarrow> string \<Rightarrow> (status \<times> int option \<times> lib) option" where
  "evOpen e l filename flags =
     (if \<not> one_of flags [''w'', ''s'', ''r'', ''a'', ''ra''] then Some (S_EVFILE_BADARG, None, l)
      else evOpenImpl e l filename 0 0 (Some flags))"

definition evOpenBuffer :: "env \<Rightarrow> lib \<Rightarrow> source \<Rightarrow> u32 \<Rightarrow> string \<Rightarrow> (status \<times> int option \<times> lib) option" where
  "evOpenBuffer e l buffer bufLen flags =
     (if strcasecmp_eq flags ''w'' then evOpenImpl e l buffer bufLen 0 (Some ''wb'')
      else if strcasecmp_eq flags ''r'' then evOpenImpl e l buffer bufLen 0 (Some ''rb'')
      else if strcasecmp_eq flags ''a'' then evOpenImpl e l buffer bufLen 0 (Some ''ab'')
      else if strcasecmp_eq flags ''ra'' then evOpenImpl e l buffer bufLen 0 (Some ''rab'')
      else Some (S_EVFILE_BADARG, None, l))"

definition evOpenSocket :: "env \<Rightarrow> lib \<Rightarrow> int \<Rightarrow> string \<Rightarrow> (status \<times> int option \<times> lib) option" where
  "evOpenSocket e l fd flags =
     (if strcasecmp_eq flags ''w'' then evOpenImpl e l NoPtr 0 fd (Some ''ws'')
      else if strcasecmp_eq flags ''r'' then evOpenImpl e l NoPtr 0 fd (Some ''rs'')
      else Some (S_EVFILE_BADARG, None, l))"

end
