(* ===== verification/EvioStringArrays.thy ===== *)
theory EvioStringArrays
  imports EvioStrings
begin

text \<open>
  The evio format for arrays of strings: \<^verbatim>\<open>evStringsToBuf\<close>, \<^verbatim>\<open>addStringToArray\<close>, \<^verbatim>\<open>evBufToStrings\<close>.
  A buffer is its list of characters; the strings of an array carry no NUL.
\<close>

definition EOT :: char where "EOT = CHR 0x04"

text \<open>Storing a wide sum into a C \<^verbatim>\<open>int\<close>.\<close>

definition to_int32 :: "int \<Rightarrow> int" where "to_int32 x = sint (word_of_int x :: u32)"

text \<open>\<^verbatim>\<open>pads[size % 4]\<close> for \<^verbatim>\<open>pads = {4, 3, 2, 1}\<close>; the C remainder of a negative size is not an index.\<close>

definition pads :: "int \<Rightarrow> int option" where
  "pads n = (if n < 0 \<and> n mod 4 \<noteq> 0 then None else Some (4 - n mod 4))"

section \<open>Writing an array of strings\<close>

text \<open>The sizes of the strings; \<open>Inl\<close> is the error return for a \<^verbatim>\<open>NULL\<close> string.\<close>

fun strings_size :: "string option list \<Rightarrow> int \<Rightarrow> status + int" where
  "strings_size [] n = Inr n"
| "strings_size (None # ss) n = Inl S_EVFILE_BADARG"
| "strings_size (Some s # ss) n = strings_size ss (to_int32 (n + int (length s) + 1))"

fun write_strings :: "string option list \<Rightarrow> nat \<Rightarrow> char list \<Rightarrow> (nat \<times> char list) option" where
  "write_strings [] off buf = Some (off, buf)"
| "write_strings (None # ss) off buf = None"
| "write_strings (Some s # ss) off buf = do {
     buf \<leftarrow> paste buf off (s @ [NUL]);
     write_strings ss (off + length s + 1) buf
   }"

text \<open>
  The result is the status, the buffer and what is stored through \<^verbatim>\<open>dataLen\<close> (\<open>None\<close> when nothing is).
\<close>

definition evStringsToBuf ::
  "char list option \<Rightarrow> int \<Rightarrow> string option list option \<Rightarrow> int \<Rightarrow> bool \<Rightarrow> (status \<times> char list option \<times> int option) option" where
  "evStringsToBuf buffer bufLen strings stringCount dataLen =
     (if buffer = None \<or> \<not> dataLen \<or> bufLen < 4 \<or> stringCount < 0 then Some (S_EVFILE_BADARG, buffer, None)
      else if strings = None \<or> stringCount = 0 then Some (S_SUCCESS, buffer, None)
      else do {
        ss \<leftarrow> cut (the strings) 0 (nat stringCount);
        (case strings_size ss 0 of
           Inl err \<Rightarrow> Some (err, buffer, None)
         | Inr size0 \<Rightarrow> do {
             padChars \<leftarrow> pads size0;
             let total = to_int32 (size0 + padChars);
             if total > bufLen then Some (S_EVFILE_TRUNC, buffer, None)
             else do {
               (off, buf) \<leftarrow> write_strings ss 0 (the buffer);
               buf \<leftarrow> paste buf off (replicate (nat padChars) EOT);
               Some (S_SUCCESS, Some buf, Some total)
             }
           })
      })"

section \<open>Growing an array of strings\<close>

record str_array =
  sa_array :: "string option list option"
  sa_total :: nat
  sa_valid :: nat

definition addStringToArray :: "env \<Rightarrow> str_array \<Rightarrow> string option \<Rightarrow> (status \<times> str_array) option" where
  "addStringToArray e a str =
     (case str of None \<Rightarrow> Some (S_EVFILE_BADARG, a)
      | Some s \<Rightarrow>
          if sa_array a = None \<and> \<not> malloc_ok e (100 * 8) then Some (S_EVFILE_ALLOCFAIL, a)
          else
            (let strCount = (if sa_array a = None then 0 else sa_valid a);
                 a = (if sa_array a = None then a\<lparr>sa_array := Some (replicate 100 None), sa_total := 100\<rparr> else a);
                 old = the (sa_array a) in
             if strCount < sa_total a then
               (case strdup e s of None \<Rightarrow> Some (S_EVFILE_ALLOCFAIL, a)
                | Some d \<Rightarrow> do {
                    new \<leftarrow> wr old strCount (Some d);
                    Some (S_SUCCESS, a\<lparr>sa_array := Some new, sa_valid := strCount + 1\<rparr>)
                  })
             else
               (let doubleLen = 2 * strCount in
                if \<not> malloc_ok e (doubleLen * 8) then Some (S_EVFILE_ALLOCFAIL, a)
                else do {
                  copied \<leftarrow> cut old 0 strCount;
                  (case strdup e s of None \<Rightarrow> Some (S_EVFILE_ALLOCFAIL, a)
                   | Some d \<Rightarrow> do {
                       new \<leftarrow> wr (copied @ replicate (doubleLen - strCount) None) strCount (Some d);
                       Some (S_SUCCESS, \<lparr>sa_array = Some new, sa_total = doubleLen, sa_valid = strCount + 1\<rparr>)
                     })
                })))"

section \<open>Reading an array of strings\<close>

definition non_printing :: "char \<Rightarrow> bool" where
  "non_printing c \<longleftrightarrow> (code c < 32 \<or> code c > 126) \<and> code c \<noteq> 9 \<and> code c \<noteq> 10"

text \<open>
  The scan, with \<open>k\<close> characters to go: the position is \<open>bufLen - k\<close>, \<open>start\<close> is where the current string
  starts. The result is whether the format is bad, the number of NULs and the array.
\<close>

fun scan_strings ::
  "env \<Rightarrow> char list \<Rightarrow> nat \<Rightarrow> bool \<Rightarrow> nat \<Rightarrow> nat \<Rightarrow> nat \<Rightarrow> str_array \<Rightarrow> (bool \<times> nat \<times> str_array) option" where
  "scan_strings e buf bufLen noEnding4 0 start nulls a = Some (True, nulls, a)"
| "scan_strings e buf bufLen noEnding4 (Suc k) start nulls a = do {
     let i = bufLen - Suc k;
     c \<leftarrow> rd buf i;
     if c = NUL then do {
       (_, a) \<leftarrow> addStringToArray e a (Some (take (i - start) (drop start buf)));
       if noEnding4 then Some (False, nulls + 1, a)
       else scan_strings e buf bufLen noEnding4 k (i + 1) (nulls + 1) a
     }
     else if non_printing c then
       (if nulls < 1 then Some (True, nulls, a)
        else if c = EOT then
          (let charsLeft = bufLen - (i + 1) in
           if charsLeft > 3 then Some (True, nulls, a)
           else do {
             rest \<leftarrow> cut buf (i + 1) charsLeft;
             Some (\<not> list_all (\<lambda>c. c = EOT) rest, nulls, a)
           })
        else Some (True, nulls, a))
     else scan_strings e buf bufLen noEnding4 k start nulls a
   }"

definition evBufToStrings ::
  "env \<Rightarrow> char list option \<Rightarrow> int \<Rightarrow> bool \<Rightarrow> bool \<Rightarrow> (status \<times> (string option list option \<times> int) option) option" where
  "evBufToStrings e buffer bufLen pStrArray strCount =
     (if buffer = None \<or> bufLen < 4 \<or> \<not> pStrArray \<or> \<not> strCount then Some (S_EVFILE_BADARG, None)
      else do {
        let buf = the buffer;
        let n = nat bufLen;
        c \<leftarrow> rd buf (n - 1);
        (bad, nulls, a) \<leftarrow> scan_strings e buf n (c \<noteq> EOT) n 0 0 \<lparr>sa_array = None, sa_total = 0, sa_valid = 0\<rparr>;
        if bad then Some (S_FAILURE, Some (None, 0)) else Some (S_SUCCESS, Some (sa_array a, int nulls))
      })"

section \<open>The array keeps what was added\<close>

definition holds :: "str_array \<Rightarrow> string list \<Rightarrow> bool" where
  "holds a ss \<longleftrightarrow>
     (case sa_array a of None \<Rightarrow> ss = []
      | Some xs \<Rightarrow> sa_valid a = length ss \<and> sa_total a = length xs \<and> length ss \<le> length xs \<and> 1 \<le> length xs \<and>
                  take (length ss) xs = map Some ss)"

lemma addStringToArray_holds:
  assumes "holds a ss" and m: "\<And>n. malloc_ok e n"
  shows "\<exists>a'. addStringToArray e a (Some s) = Some (S_SUCCESS, a') \<and> holds a' (ss @ [s]) \<and> sa_array a' \<noteq> None"
proof (cases "sa_array a")
  case None
  then have "ss = []" using assms(1) by (simp add: holds_def)
  then show ?thesis using None m by (simp add: addStringToArray_def holds_def strdup_def Let_def take_Suc_conv_app_nth)
next
  case (Some xs)
  then have h: "sa_valid a = length ss" "sa_total a = length xs" "length ss \<le> length xs" "1 \<le> length xs"
    "take (length ss) xs = map Some ss"
    using assms(1) by (auto simp: holds_def)
  show ?thesis
  proof (cases "length ss < length xs")
    case True
    then show ?thesis using Some h m
      by (simp add: addStringToArray_def holds_def strdup_def Let_def take_Suc_conv_app_nth)
  next
    case False
    then have "length ss = length xs" "xs = map Some ss" using h by simp_all
    moreover obtain n where "length ss = Suc n" using h(4) False by (cases "length ss") auto
    ultimately show ?thesis using Some h m
      by (simp add: addStringToArray_def holds_def strdup_def Let_def wr_def list_update_append)
  qed
qed

section \<open>Round trip\<close>

text \<open>What is written for the strings, and what they may consist of.\<close>

definition packed :: "string list \<Rightarrow> char list" where
  "packed ss = concat (map (\<lambda>s. s @ [NUL]) ss)"

definition padding :: "string list \<Rightarrow> nat" where
  "padding ss = 4 - length (packed ss) mod 4"

definition text_chars :: "string \<Rightarrow> bool" where
  "text_chars s \<longleftrightarrow> (\<forall>c \<in> set s. \<not> non_printing c \<and> c \<noteq> NUL)"

lemma packed_simps [simp]:
  "packed [] = []" "packed (s # ss) = s @ NUL # packed ss" "packed (ss @ ts) = packed ss @ packed ts"
  by (simp_all add: packed_def)

lemma padding_range: "1 \<le> padding ss" "padding ss \<le> 4"
  by (simp_all add: padding_def)

lemma to_int32_small: "0 \<le> x \<Longrightarrow> x < 2 ^ 31 \<Longrightarrow> to_int32 x = x"
  by (simp add: to_int32_def sint_sbintrunc' signed_take_bit_int_eq_self)

lemma strings_size_packed:
  "0 \<le> n \<Longrightarrow> n + int (length (packed ss)) < 2 ^ 31 \<Longrightarrow>
   strings_size (map Some ss) n = Inr (n + int (length (packed ss)))"
proof (induction ss arbitrary: n)
  case (Cons s ss)
  have "to_int32 (n + int (length s) + 1) = n + int (length s) + 1"
    using Cons.prems by (intro to_int32_small) simp_all
  then show ?case using Cons.IH [of "n + int (length s) + 1"] Cons.prems by simp
qed simp

lemma write_strings_packed:
  "off + length (packed ss) \<le> length buf \<Longrightarrow>
   write_strings (map Some ss) off buf = Some (off + length (packed ss), ov off (packed ss) buf)"
proof (induction ss arbitrary: off buf)
  case (Cons s ss)
  have p: "paste buf off (s @ [NUL]) = Some (ov off (s @ [NUL]) buf)"
    using Cons.prems by (intro paste_ov) simp
  have "packed (s # ss) = (s @ [NUL]) @ packed ss" by simp
  then have "ov off (packed (s # ss)) buf = ov (off + length s + 1) (packed ss) (ov off (s @ [NUL]) buf)"
    using ov_append [of off "s @ [NUL]" "packed ss" buf] by (simp add: add.assoc)
  then show ?case using Cons p by simp
qed simp

lemma evStringsToBuf_packed:
  assumes "ss \<noteq> []" and "int (length (packed ss) + padding ss) \<le> bufLen" and "bufLen \<le> int (length buf)"
    and "bufLen < 2 ^ 31"
  shows "evStringsToBuf (Some buf) bufLen (Some (map Some ss)) (int (length ss)) True =
    Some (S_SUCCESS, Some (ov 0 (packed ss @ replicate (padding ss) EOT) buf), Some (int (length (packed ss) + padding ss)))"
proof -
  let ?n = "int (length (packed ss))"
  have r: "1 \<le> padding ss" "padding ss \<le> 4" by (rule padding_range)+
  have b4: "\<not> bufLen < 4"
  proof -
    have "(length (packed ss) + padding ss) mod 4 = 0" unfolding padding_def by presburger
    then show ?thesis using assms(2) r by presburger
  qed
  have sz: "strings_size (map Some ss) 0 = Inr ?n"
    using strings_size_packed [of 0 ss] assms(2,4) by simp
  have pd: "pads ?n = Some (int (padding ss))" by (simp add: pads_def padding_def of_nat_diff zmod_int)
  have t: "to_int32 (?n + int (padding ss)) = ?n + int (padding ss)"
    using assms(2,4) by (intro to_int32_small) simp_all
  have w: "write_strings (map Some ss) 0 buf = Some (length (packed ss), ov 0 (packed ss) buf)"
    using write_strings_packed [of 0 ss buf] assms(2,3) by simp
  have p: "paste (ov 0 (packed ss) buf) (length (packed ss)) (replicate (padding ss) EOT) =
      Some (ov 0 (packed ss @ replicate (padding ss) EOT) buf)"
    using assms(2,3) by (subst paste_ov) (simp_all add: ov_append)
  show ?thesis using assms(1,2) b4 sz pd t w p by (simp add: evStringsToBuf_def cut_def)
qed

lemma scan_text:
  assumes "text_chars s" "k = length s + Suc j" "k \<le> n" "at (n - k) (s @ [NUL]) buf"
  shows "scan_strings e buf n ne k st nulls a = scan_strings e buf n ne (Suc j) st nulls a"
  using assms
proof (induction s arbitrary: k)
  case (Cons c s)
  have k: "k = Suc (length s + Suc j)" using Cons.prems(2) by simp
  have at: "n - k < length buf" "buf ! (n - k) = c" "at (Suc (n - k)) (s @ [NUL]) buf"
    using Cons.prems(4) by (simp_all add: at_Cons)
  have "Suc (n - k) = n - (length s + Suc j)" using Cons.prems(3) k by simp
  then have "scan_strings e buf n ne (length s + Suc j) st nulls a = scan_strings e buf n ne (Suc j) st nulls a"
    using Cons.prems at(3) k by (intro Cons.IH) (auto simp: text_chars_def)
  then show ?case using at(1,2) Cons.prems(1) unfolding k
    by (simp add: text_chars_def)
qed simp

lemma at_take_drop: "at i xs m \<Longrightarrow> take (length xs) (drop i m) = xs"
  by (simp add: at_def)

lemma scan_packed:
  assumes m: "\<And>n. malloc_ok e n"
  shows "\<forall>s \<in> set ss. text_chars s \<Longrightarrow> holds a before \<Longrightarrow> before @ ss \<noteq> [] \<Longrightarrow> k = length (packed ss) + p \<Longrightarrow> k \<le> n \<Longrightarrow>
    1 \<le> p \<Longrightarrow> p \<le> 4 \<Longrightarrow> at (n - k) (packed ss @ replicate p EOT) buf \<Longrightarrow>
    \<exists>a'. scan_strings e buf n False k (n - k) (length before) a = Some (False, length before + length ss, a') \<and> holds a' (before @ ss)"
proof (induction ss arbitrary: a before k)
  case Nil
  obtain q where q: "p = Suc q" using Nil.prems(6) by (cases p) auto
  have at: "n - k < length buf" "buf ! (n - k) = EOT" "at (Suc (n - k)) (replicate q EOT) buf"
    using Nil.prems(8) q by (simp_all add: at_Cons)
  have left: "n - Suc (n - k) = q" using Nil.prems(4,5) q by simp
  have c: "cut buf (Suc (n - k)) q = Some (replicate q EOT)" using at(3) by (intro at_cut) simp_all
  have "non_printing EOT" "EOT \<noteq> NUL" by (simp_all add: non_printing_def EOT_def NUL_def code_def)
  then show ?case using Nil.prems q at c left
    by (simp add: Let_def list_all_iff)
next
  case (Cons s ss)
  have k: "k = length s + Suc (length (packed ss) + p)" using Cons.prems(4) by simp
  let ?j = "length (packed ss) + p"
  have at: "at (n - k) (s @ [NUL]) buf" "at (n - ?j) (packed ss @ replicate p EOT) buf"
  proof -
    have "at (n - k) ((s @ [NUL]) @ packed ss @ replicate p EOT) buf" using Cons.prems(8) by simp
    then have "at (n - k) (s @ [NUL]) buf" "at (n - k + length (s @ [NUL])) (packed ss @ replicate p EOT) buf"
      unfolding at_append by simp_all
    moreover have "n - k + length (s @ [NUL]) = n - ?j" using k Cons.prems(5) by simp
    ultimately show "at (n - k) (s @ [NUL]) buf" "at (n - ?j) (packed ss @ replicate p EOT) buf" by simp_all
  qed
  have i: "n - Suc ?j = n - k + length s" using k Cons.prems(5) by simp
  have nul: "n - Suc ?j < length buf" "buf ! (n - Suc ?j) = NUL"
    using at(1) unfolding at_append i by (simp_all add: at_Cons)
  have str: "take (n - Suc ?j - (n - k)) (drop (n - k) buf) = s"
    using at(1) at_take_drop [of "n - k" s buf] unfolding at_append i by simp
  obtain a1 where a1: "addStringToArray e a (Some s) = Some (S_SUCCESS, a1)" "holds a1 (before @ [s])"
    using addStringToArray_holds [OF Cons.prems(2) m] by blast
  have "scan_strings e buf n False k (n - k) (length before) a = scan_strings e buf n False (Suc ?j) (n - k) (length before) a"
    using Cons.prems(1,5) k at(1) by (intro scan_text) auto
  also have "\<dots> = scan_strings e buf n False ?j (n - ?j) (length (before @ [s])) a1"
    using nul str a1(1) k Cons.prems(5) by (simp add: Let_def Suc_diff_Suc)
  finally have step: "scan_strings e buf n False k (n - k) (length before) a =
    scan_strings e buf n False ?j (n - ?j) (length (before @ [s])) a1" .
  have "\<exists>a'. scan_strings e buf n False ?j (n - ?j) (length (before @ [s])) a1 =
      Some (False, length (before @ [s]) + length ss, a') \<and> holds a' ((before @ [s]) @ ss)"
    by (rule Cons.IH) (use Cons.prems k a1(2) at(2) in simp_all)
  then show ?case unfolding step by simp
qed

lemma evBufToStrings_packed:
  assumes "ss \<noteq> []" "\<forall>s \<in> set ss. text_chars s" "\<And>n. malloc_ok e n"
    and "at 0 (packed ss @ replicate (padding ss) EOT) buf"
  shows "\<exists>xs. evBufToStrings e (Some buf) (int (length (packed ss) + padding ss)) True True =
    Some (S_SUCCESS, Some (Some xs, int (length ss))) \<and> take (length ss) xs = map Some ss"
proof -
  let ?n = "length (packed ss) + padding ss" and ?a = "\<lparr>sa_array = None, sa_total = 0, sa_valid = 0\<rparr>"
  have p: "1 \<le> padding ss" "padding ss \<le> 4" by (rule padding_range)+
  have n4: "4 \<le> ?n"
  proof -
    have "(length (packed ss) + padding ss) mod 4 = 0" unfolding padding_def by presburger
    then show ?thesis using p(1) by presburger
  qed
  have last: "?n - 1 < length buf" "buf ! (?n - 1) = EOT"
  proof -
    have "at (length (packed ss)) (replicate (padding ss) EOT) buf" using assms(4) by (simp add: at_append)
    then have "length (packed ss) + padding ss \<le> length buf"
      "\<forall>i < padding ss. buf ! (length (packed ss) + i) = EOT" by (simp_all add: at_nth_iff)
    then show "?n - 1 < length buf" "buf ! (?n - 1) = EOT" using p(1)
      by (auto dest: spec [of _ "padding ss - 1"])
  qed
  obtain a' where sc: "scan_strings e buf ?n False ?n 0 0 ?a = Some (False, length ss, a')" "holds a' ss"
    using scan_packed [OF assms(3) assms(2), of ?a "[]" ?n "padding ss" ?n buf] assms(1,4) p
    by (auto simp: holds_def)
  obtain xs where xs: "sa_array a' = Some xs" "take (length ss) xs = map Some ss"
    using sc(2) assms(1) by (auto simp: holds_def split: option.splits)
  have "nat (int ?n) = ?n" by simp
  then show ?thesis using n4 last sc(1) xs
    by (simp add: evBufToStrings_def del: of_nat_add)
qed

section \<open>Properties\<close>

text \<open>C11: Round trip: the strings written by \<^verbatim>\<open>evStringsToBuf\<close> are the strings \<^verbatim>\<open>evBufToStrings\<close> reads
  back from the bytes it reports to have written, for any number of strings of printable characters, tabs
  and newlines (empty strings and arrays grown past their first capacity included).\<close>
theorem string_array_roundtrip:
  assumes "ss \<noteq> []" and "\<forall>s \<in> set ss. text_chars s" and "\<And>n. malloc_ok e n"
    and "int (length (packed ss) + padding ss) \<le> bufLen" and "bufLen \<le> int (length buf)" and "bufLen < 2 ^ 31"
  shows "\<exists>buf' n xs.
    evStringsToBuf (Some buf) bufLen (Some (map Some ss)) (int (length ss)) True = Some (S_SUCCESS, Some buf', Some n) \<and>
    n mod 4 = 0 \<and> drop (nat n) buf' = drop (nat n) buf \<and>
    evBufToStrings e (Some buf') n True True = Some (S_SUCCESS, Some (Some xs, int (length ss))) \<and>
    take (length ss) xs = map Some ss"
proof -
  let ?t = "packed ss @ replicate (padding ss) EOT"
  have fits: "0 + length ?t \<le> length buf" using assms(4,5) by simp
  then have "at 0 ?t (ov 0 ?t buf)" by (rule at_ov)
  then obtain xs where xs: "evBufToStrings e (Some (ov 0 ?t buf)) (int (length (packed ss) + padding ss)) True True =
    Some (S_SUCCESS, Some (Some xs, int (length ss)))" "take (length ss) xs = map Some ss"
    using evBufToStrings_packed [OF assms(1,2,3)] by blast
  have "(length (packed ss) + padding ss) mod 4 = 0" unfolding padding_def by presburger
  then have m: "int (length (packed ss) + padding ss) mod 4 = 0" by presburger
  have d: "drop (nat (int (length (packed ss) + padding ss))) (ov 0 ?t buf) = drop (nat (int (length (packed ss) + padding ss))) buf"
    by (rule nth_equalityI) (auto simp: ov_nth)
  show ?thesis using evStringsToBuf_packed [OF assms(1,4,5,6)] xs m d
    by (intro exI conjI)
qed

theorem string_array_roundtrip_witness:
  "\<exists>buf' n xs.
    evStringsToBuf (Some (replicate 20 CHR ''?'')) 20 (Some (map Some [''run 7'', '''', ''x''])) (int (length [''run 7'', '''', ''x''])) True =
      Some (S_SUCCESS, Some buf', Some n) \<and>
    n mod 4 = 0 \<and> drop (nat n) buf' = drop (nat n) (replicate 20 CHR ''?'') \<and>
    evBufToStrings easy_env (Some buf') n True True = Some (S_SUCCESS, Some (Some xs, int (length [''run 7'', '''', ''x'']))) \<and>
    take (length [''run 7'', '''', ''x'']) xs = map Some [''run 7'', '''', ''x'']"
  by (rule string_array_roundtrip)
     (simp_all add: text_chars_def non_printing_def code_def NUL_def easy_env_def padding_def)

end
