(* ===== verification/EvioControl.thy ===== *)
theory EvioControl
  imports EvioOpen EvioWrite EvioStringArrays
begin

text \<open>
  \<^verbatim>\<open>evClose\<close>, the parameters of a handle (\<^verbatim>\<open>evIoctl\<close>, \<^verbatim>\<open>evGetBufferLength\<close>, \<^verbatim>\<open>evGetRandomAccessTable\<close>,
  \<^verbatim>\<open>evGetDictionary\<close>), and the dictionary and first event (\<^verbatim>\<open>evWriteDictionary\<close>, \<^verbatim>\<open>evWriteFirstEvent\<close>,
  \<^verbatim>\<open>evCreateFirstEventBlock\<close>).
\<close>

section \<open>evClose\<close>

text \<open>What is buffered is flushed, whatever the status of that.\<close>

definition close_flush :: "env \<Rightarrow> EVFILE \<Rightarrow> world \<Rightarrow> (EVFILE \<times> world) option" where
  "close_flush e a w =
     (if rw a = EV_WRITEFILE \<or> rw a = EV_WRITEPIPE \<or> rw a = EV_WRITESOCK
      then map_option snd (evFlush e a w) else Some (a, w))"

text \<open>Pipes and sockets get the empty last block now; a failure leaves the handle open.\<close>

definition close_last :: "env \<Rightarrow> EVFILE \<times> world \<Rightarrow> ((status \<times> EVFILE \<times> world) + (EVFILE \<times> world)) option" where
  "close_last e = (\<lambda>(a, w).
     if rw a = EV_WRITEPIPE \<or> rw a = EV_WRITESOCK then do {
       a \<leftarrow> resetBuffer a;
       ws \<leftarrow> buffered a (4 * EV_HDSIZ);
       if rw a = EV_WRITESOCK then
         (let (n, w) = tcpWrite (sockFd a) (bytes_of ws) w
          in Some (if n \<noteq> 32 then Inl (err_no e, a, w) else Inr (a, w)))
       else do {
         s \<leftarrow> file a;
         let (n, s, w) = fwrite e ws s w;
         let a = a\<lparr>file := Some s\<rparr>;
         Some (if n \<noteq> 8 then Inl (err_no e, a, w) else Inr (a, w))
       }
     } else Some (Inr (a, w)))"

text \<open>Unmapping what was mapped succeeds.\<close>

definition close_status :: "env \<Rightarrow> EVFILE \<Rightarrow> status" where
  "close_status e a =
     (if rw a = EV_WRITEFILE \<or> rw a = EV_READFILE then
        (if randomAccess a then S_SUCCESS
         else if file a \<noteq> None then fclose_status e else S_SUCCESS)
      else if rw a = EV_READPIPE \<or> rw a = EV_WRITEPIPE then
        (if file a \<noteq> None \<and> fclose_status e < 0 then S_FAILURE else S_SUCCESS)
      else S_SUCCESS)"

definition evClose :: "env \<Rightarrow> lib \<Rightarrow> int \<Rightarrow> (status \<times> lib) option" where
  "evClose e l h =
     (if bad_handle l h then Some (S_EVFILE_BADHANDLE, l)
      else (case lookup_handle l h of
          None \<Rightarrow> Some (S_EVFILE_BADHANDLE, l)
        | Some a \<Rightarrow> do {
            s \<leftarrow> close_flush e a (sys l);
            r \<leftarrow> close_last e s;
            Some (case r of
                Inl (st, a, w) \<Rightarrow> (st, (store_handle l h a)\<lparr>sys := w\<rparr>)
              | Inr (a, w) \<Rightarrow> (close_status e a, (free_handle l h)\<lparr>sys := w\<rparr>))
          }))"

definition evGetBufferLength :: "lib \<Rightarrow> int \<Rightarrow> status \<times> u32 option" where
  "evGetBufferLength l h =
     (if bad_handle l h then (S_EVFILE_BADHANDLE, None)
      else (case lookup_handle l h of
          None \<Rightarrow> (S_EVFILE_BADHANDLE, None)
        | Some a \<Rightarrow> (S_SUCCESS, Some (rwBytesOut a))))"

section \<open>evIoctl\<close>

text \<open>What \<^verbatim>\<open>argp\<close> points to, and what is stored through it.\<close>

datatype ioctl_arg = ArgNull | ArgWord u32 | ArgLong u64 | ArgChars string | ArgOut

datatype ioctl_out = NoOut | OutWord u32 | OutHeader words

fun arg_word :: "ioctl_arg \<Rightarrow> u32 option" where
  "arg_word (ArgWord v) = Some v" | "arg_word _ = None"

fun arg_long :: "ioctl_arg \<Rightarrow> u64 option" where
  "arg_long (ArgLong v) = Some v" | "arg_long _ = None"

fun arg_chars :: "ioctl_arg \<Rightarrow> string option" where
  "arg_chars (ArgChars s) = Some s" | "arg_chars _ = None"

type_synonym ioctl_result = "(status \<times> ioctl_out \<times> EVFILE) option"

text \<open>Sizes can be changed only before the first event.\<close>

definition events_written :: "EVFILE \<Rightarrow> bool" where
  "events_written a \<longleftrightarrow> append a = 0 \<and> (blknum a \<noteq> 1 \<or> blkEvCount a \<noteq> 0) \<or> append a > 1"

text \<open>A new block buffer of \<open>n\<close> words with a first empty last header.\<close>

definition new_buffer :: "env \<Rightarrow> u32 \<Rightarrow> EVFILE \<Rightarrow> EVFILE option" where
  "new_buffer e n a = do {
     m \<leftarrow> paste (fresh e (unat (4 * n) div 4)) 0 (initLastBlockHeader 1);
     Some ((set_mem m a)\<lparr>buf := 0, currentHeader := 0, bufRealSize := n, bufSize := n\<rparr>)
   }"

definition ioctl_block_size :: "env \<Rightarrow> ioctl_arg \<Rightarrow> EVFILE \<Rightarrow> ioctl_result" where
  "ioctl_block_size e arg a =
     (if arg = ArgNull then Some (S_EVFILE_BADARG, NoOut, a)
      else if \<not> writing a then Some (S_EVFILE_BADSIZEREQ, NoOut, a)
      else if events_written a then Some (S_EVFILE_BADSIZEREQ, NoOut, a)
      else do {
        blockSize \<leftarrow> arg_word arg;
        if blockSize = blkSizeTarget a then Some (S_SUCCESS, NoOut, a)
        else if blockSize < EV_BLOCKSIZE_MIN then Some (S_EVFILE_BADSIZEREQ, NoOut, a)
        else if blockSize > EV_BLOCKSIZE_MAX then Some (S_EVFILE_BADSIZEREQ, NoOut, a)
        else
          let bigger = (blockSize + EV_HDSIZ > bufRealSize a \<and> rw a \<noteq> EV_WRITEBUF) in
          if bigger \<and> \<not> malloc_ok e (unat (4 * (blockSize + EV_HDSIZ))) then Some (S_EVFILE_ALLOCFAIL, NoOut, a)
          else do {
            a \<leftarrow> (if bigger then new_buffer e (blockSize + EV_HDSIZ) a
                 else if blockSize + EV_HDSIZ > bufSize a \<and> rw a \<noteq> EV_WRITEBUF
                      then Some (a\<lparr>bufSize := blockSize + EV_HDSIZ\<rparr>)
                 else Some a);
            Some (S_SUCCESS, NoOut, a\<lparr>left := blockSize - EV_HDSIZ, blkSizeTarget := blockSize, next := buf a + 8\<rparr>)
          }
      })"

definition ioctl_buffer_size :: "env \<Rightarrow> ioctl_arg \<Rightarrow> EVFILE \<Rightarrow> ioctl_result" where
  "ioctl_buffer_size e arg a =
     (if arg = ArgNull then Some (S_EVFILE_BADARG, NoOut, a)
      else if rw a \<noteq> EV_WRITEFILE \<and> rw a \<noteq> EV_WRITEPIPE \<and> rw a \<noteq> EV_WRITESOCK then Some (S_EVFILE_BADSIZEREQ, NoOut, a)
      else if events_written a then Some (S_EVFILE_BADSIZEREQ, NoOut, a)
      else do {
        bufferSize \<leftarrow> arg_word arg;
        if bufferSize = bufSize a then Some (S_SUCCESS, NoOut, a)
        else if bufferSize < blkSizeTarget a + EV_HDSIZ then Some (S_EVFILE_BADSIZEREQ, NoOut, a)
        else if bufferSize > EV_BLOCKSIZE_MAX + EV_HDSIZ then Some (S_EVFILE_BADSIZEREQ, NoOut, a)
        else if bufferSize > bufRealSize a \<and> \<not> malloc_ok e (unat (bufferSize * 4)) then Some (S_EVFILE_ALLOCFAIL, NoOut, a)
        else do {
          a \<leftarrow> (if bufferSize > bufRealSize a then new_buffer e bufferSize a else Some a);
          Some (S_SUCCESS, NoOut, a\<lparr>bufSize := bufferSize, left := bufferSize - EV_HDSIZ, next := buf a + 8\<rparr>)
        }
      })"

definition ioctl_version :: "ioctl_arg \<Rightarrow> EVFILE \<Rightarrow> ioctl_result" where
  "ioctl_version arg a =
     (if arg = ArgNull then Some (S_EVFILE_BADARG, NoOut, a)
      else map_option (\<lambda>v. (S_SUCCESS, OutWord (v AND EV_VERSION_MASK), a)) (rd_buf a (buf a + EV_HD_VER)))"

definition ioctl_header :: "env \<Rightarrow> ioctl_arg \<Rightarrow> EVFILE \<Rightarrow> ioctl_result" where
  "ioctl_header e arg a =
     (if arg = ArgNull then Some (S_EVFILE_BADARG, NoOut, a)
      else if \<not> malloc_ok e 32 then Some (S_EVFILE_ALLOCFAIL, NoOut, a)
      else map_option (\<lambda>ws. (S_SUCCESS, OutHeader ws, a)) (cut (mem a) (buf a) 8))"

definition ioctl_events_max :: "ioctl_arg \<Rightarrow> EVFILE \<Rightarrow> ioctl_result" where
  "ioctl_events_max arg a =
     (if arg = ArgNull then Some (S_EVFILE_BADARG, NoOut, a)
      else do {
        eventsMax \<leftarrow> arg_word arg;
        if eventsMax < 1 then Some (S_EVFILE_BADSIZEREQ, NoOut, a)
        else Some (S_SUCCESS, NoOut, a\<lparr>blkEvMax := (if eventsMax > EV_EVENTS_MAX then EV_EVENTS_MAX else eventsMax)\<rparr>)
      })"

text \<open>\<^verbatim>\<open>long\<close> has 64 bits.\<close>

definition ioctl_split_size :: "ioctl_arg \<Rightarrow> EVFILE \<Rightarrow> ioctl_result" where
  "ioctl_split_size arg a =
     (if arg = ArgNull then Some (S_EVFILE_BADARG, NoOut, a)
      else do {
        splitSize \<leftarrow> arg_long arg;
        let splitSize = (if splitSize > - 1 - 32 then - 1 - 32 else splitSize);
        if splitSize < 4 * 18 then Some (S_EVFILE_BADSIZEREQ, NoOut, a)
        else Some (S_SUCCESS, NoOut, a\<lparr>split := splitSize\<rparr>)
      })"

definition ioctl_run_number :: "ioctl_arg \<Rightarrow> EVFILE \<Rightarrow> ioctl_result" where
  "ioctl_run_number arg a =
     (if arg = ArgNull then Some (S_EVFILE_BADARG, NoOut, a)
      else do {
        n \<leftarrow> arg_word arg;
        if n < 1 then Some (S_EVFILE_BADSIZEREQ, NoOut, a) else Some (S_SUCCESS, NoOut, a\<lparr>runNumber := n\<rparr>)
      })"

definition ioctl_run_type :: "env \<Rightarrow> ioctl_arg \<Rightarrow> EVFILE \<Rightarrow> ioctl_result" where
  "ioctl_run_type e arg a =
     (if arg = ArgNull then Some (S_SUCCESS, NoOut, a\<lparr>runType := None\<rparr>)
      else do {
        s \<leftarrow> arg_chars arg;
        (case strdup e s of
           None \<Rightarrow> Some (S_EVFILE_BADSIZEREQ, NoOut, a)
         | Some t \<Rightarrow> Some (S_SUCCESS, NoOut, a\<lparr>runType := Some t\<rparr>))
      })"

definition ioctl_event_count :: "env \<Rightarrow> ioctl_arg \<Rightarrow> EVFILE \<Rightarrow> world \<Rightarrow> ioctl_result" where
  "ioctl_event_count e arg a w =
     (if arg = ArgNull then Some (S_EVFILE_BADARG, NoOut, a)
      else map_option (\<lambda>(st, a). if st \<noteq> S_SUCCESS then (st, NoOut, a) else (S_SUCCESS, OutWord (eventCount a), a))
             (getEventCount e a w))"

definition ioctl_request :: "env \<Rightarrow> char \<Rightarrow> ioctl_arg \<Rightarrow> EVFILE \<Rightarrow> world \<Rightarrow> ioctl_result" where
  "ioctl_request e c arg a w =
     (if c = CHR ''b'' \<or> c = CHR ''B'' then ioctl_block_size e arg a
      else if c = CHR ''w'' \<or> c = CHR ''W'' then ioctl_buffer_size e arg a
      else if c = CHR ''v'' \<or> c = CHR ''V'' then ioctl_version arg a
      else if c = CHR ''h'' \<or> c = CHR ''H'' then ioctl_header e arg a
      else if c = CHR ''n'' \<or> c = CHR ''N'' then ioctl_events_max arg a
      else if c = CHR ''s'' \<or> c = CHR ''S'' then ioctl_split_size arg a
      else if c = CHR ''r'' \<or> c = CHR ''R'' then ioctl_run_number arg a
      else if c = CHR ''t'' \<or> c = CHR ''T'' then ioctl_run_type e arg a
      else if c = CHR ''e'' \<or> c = CHR ''E'' then ioctl_event_count e arg a w
      else Some (S_EVFILE_UNKOPTION, NoOut, a))"

definition evIoctl :: "env \<Rightarrow> lib \<Rightarrow> int \<Rightarrow> string option \<Rightarrow> ioctl_arg \<Rightarrow> (status \<times> ioctl_out \<times> lib) option" where
  "evIoctl e l h request argp =
     (if bad_handle l h then Some (S_EVFILE_BADHANDLE, NoOut, l)
      else (case lookup_handle l h of
          None \<Rightarrow> Some (S_EVFILE_BADHANDLE, NoOut, l)
        | Some a \<Rightarrow>
            (case request of
               None \<Rightarrow> Some (S_EVFILE_BADARG, NoOut, l)
             | Some r \<Rightarrow>
                 map_option (\<lambda>(st, out, a). (st, out, store_handle l h a))
                   (ioctl_request e (case r of [] \<Rightarrow> NUL | c # _ \<Rightarrow> c) argp a (sys l)))))"

section \<open>What a handle tells\<close>

definition evGetRandomAccessTable :: "lib \<Rightarrow> int \<Rightarrow> bool \<Rightarrow> bool \<Rightarrow> status \<times> (nat list option \<times> u32) option" where
  "evGetRandomAccessTable l h table len =
     (if bad_handle l h then (S_EVFILE_BADHANDLE, None)
      else (case lookup_handle l h of
          None \<Rightarrow> (S_EVFILE_BADHANDLE, None)
        | Some a \<Rightarrow>
            if \<not> table \<or> \<not> len then (S_EVFILE_BADARG, None)
            else if \<not> randomAccess a then (S_EVFILE_BADMODE, None)
            else (S_SUCCESS, Some (pTable a, eventCount a))))"

definition evGetDictionary :: "env \<Rightarrow> lib \<Rightarrow> int \<Rightarrow> bool \<Rightarrow> status \<times> (string option \<times> nat) option" where
  "evGetDictionary e l h dictionaryArg =
     (if bad_handle l h then (S_EVFILE_BADHANDLE, None)
      else (case lookup_handle l h of
          None \<Rightarrow> (S_EVFILE_BADHANDLE, None)
        | Some a \<Rightarrow>
            if \<not> dictionaryArg then (S_EVFILE_BADARG, None)
            else (case dictionary a of
                None \<Rightarrow> (S_SUCCESS, Some (None, 0))
              | Some d \<Rightarrow> (case strdup e d of None \<Rightarrow> (S_EVFILE_ALLOCFAIL, None)
                           | Some c \<Rightarrow> (S_SUCCESS, Some (Some c, length d))))))"

section \<open>Dictionary and first event\<close>

text \<open>The bank a dictionary is wrapped in: the string, its NUL and one to four padding bytes.\<close>

definition dictionary_pads :: "nat \<Rightarrow> nat" where
  "dictionary_pads n = [4, 3, 2, 1] ! ((n + 1) mod 4)"

definition dictionary_bank :: "string \<Rightarrow> words" where
  "dictionary_bank xml =
     (let n = length xml; pad = dictionary_pads n; bufSize = 8 + n + 1 + pad
      in of_nat (bufSize div 4 - 1) # push_bit 8 3 #
         words_of (map (\<lambda>c. of_nat (code c)) (xml @ [NUL] @ replicate pad EOT)))"

text \<open>
  When the block for the bank cannot be allocated, the code frees the dictionary but keeps the pointer: the handle must not be
  used any more then. Here the dictionary stays.
\<close>

definition write_dictionary :: "env \<Rightarrow> string \<Rightarrow> EVFILE \<Rightarrow> (status \<times> EVFILE) option" where
  "write_dictionary e xml a =
     (if blknum a \<noteq> 1 \<or> eventCount a > 0 \<or> wroteDictionary a then Some (S_FAILURE, a)
      else (case strdup e xml of
          None \<Rightarrow> Some (S_EVFILE_ALLOCFAIL, a\<lparr>dictionary := None\<rparr>)
        | Some d \<Rightarrow>
            let bank = dictionary_bank xml; a = a\<lparr>dictionary := Some d\<rparr> in
            if \<not> malloc_ok e (4 * length bank) then Some (S_EVFILE_ALLOCFAIL, a)
            else evWriteDictImpl e (a\<lparr>dictBuf := Some bank, dictLength := of_nat (4 * length bank)\<rparr>)))"

definition evWriteDictionary :: "env \<Rightarrow> lib \<Rightarrow> int \<Rightarrow> string option \<Rightarrow> (status \<times> lib) option" where
  "evWriteDictionary e l h xmlDictionary =
     (if bad_handle l h then Some (S_EVFILE_BADHANDLE, l)
      else (case lookup_handle l h of
          None \<Rightarrow> Some (S_EVFILE_BADHANDLE, l)
        | Some a \<Rightarrow> do {
            xml \<leftarrow> xmlDictionary;
            if length xml < 35 then Some (S_EVFILE_BADARG, l)
            else if \<not> writing a then Some (S_EVFILE_BADMODE, l)
            else if append a \<noteq> 0 then Some (S_EVFILE_BADMODE, l)
            else map_option (\<lambda>(st, a). (st, store_handle l h a)) (write_dictionary e xml a)
          }))"

text \<open>The status of the write comes after the bookkeeping that says it was written.\<close>

definition evWriteFirstEvent :: "env \<Rightarrow> lib \<Rightarrow> int \<Rightarrow> words option \<Rightarrow> (status \<times> lib) option" where
  "evWriteFirstEvent e l h firstEvent =
     (if bad_handle l h then Some (S_EVFILE_BADHANDLE, l)
      else (case lookup_handle l h of
          None \<Rightarrow> Some (S_EVFILE_BADHANDLE, l)
        | Some a \<Rightarrow>
            if \<not> writing a then Some (S_EVFILE_BADMODE, l)
            else if wroteFirstEvent a then Some (S_FAILURE, l)
            else (case firstEvent of
                None \<Rightarrow> Some (S_SUCCESS, store_handle l h (a\<lparr>firstEventBuf := None, firstEventLength := 0\<rparr>))
              | Some ev \<Rightarrow> do {
                  len \<leftarrow> rd ev 0;
                  let bytesToWrite = 4 * (len + 1);
                  let a = a\<lparr>firstEventBuf := None, firstEventLength := bytesToWrite\<rparr>;
                  if \<not> malloc_ok e (unat bytesToWrite) then Some (S_EVFILE_ALLOCFAIL, store_handle l h a)
                  else do {
                    copy \<leftarrow> cut ev 0 (unat bytesToWrite div 4);
                    (st, l) \<leftarrow> evWriteImpl e (store_handle l h (a\<lparr>firstEventBuf := Some copy\<rparr>)) h (Some ev);
                    a \<leftarrow> lookup_handle l h;
                    Some (st, store_handle l h (a\<lparr>commonBlkCount := commonBlkCount a + 1, wroteFirstEvent := True\<rparr>))
                  }
                })))"

text \<open>The copy takes \<^verbatim>\<open>4 * blockWords\<close> bytes, the header's 32 among them, to a place behind the header.\<close>

definition first_event_header :: "u32 \<Rightarrow> words" where
  "first_event_header blockWords =
     [blockWords, 1, 8, 1, 0, (EV_VERSION AND 0xff) OR EV_LASTBLOCK_MASK OR EV_FIRSTEVENT_MASK, 0, 0xc0da0100]"

definition evCreateFirstEventBlock ::
  "env \<Rightarrow> words option \<Rightarrow> bool \<Rightarrow> bool \<Rightarrow> bool \<Rightarrow> (status \<times> (words \<times> u32) option) option" where
  "evCreateFirstEventBlock e firstEvent localEndian block count =
     (case firstEvent of
        None \<Rightarrow> Some (S_EVFILE_BADARG, None)
      | Some ev \<Rightarrow>
          if \<not> block \<or> \<not> count then Some (S_EVFILE_BADARG, None)
          else do {
            v \<leftarrow> rd ev 0;
            let blockWords = (if localEndian then v else EVIO_SWAP32 v) + 1 + 8;
            if \<not> malloc_ok e (unat (4 * blockWords)) then Some (S_EVFILE_ALLOCFAIL, None)
            else do {
              let hdr = first_event_header blockWords;
              m \<leftarrow> paste (replicate (unat (4 * blockWords) div 4) 0) 0
                     (if localEndian then hdr else map EVIO_SWAP32 hdr);
              data \<leftarrow> cut ev 0 (unat (4 * blockWords) div 4);
              m \<leftarrow> paste m 8 data;
              Some (S_SUCCESS, Some (m, blockWords))
            }
          })"

end
