(* ===== verification/EvioWriteBlocks.thy ===== *)
theory EvioWriteBlocks
  imports EvioBlocks EvioControl
begin

text \<open>
  Writing events to any destination that takes blocks. The locale \<open>block_sink\<close> states what a flush and the
  end of \<^verbatim>\<open>evClose\<close> do at a destination; in it the invariant that ties the handle, its buffer and the
  destination to the list of events written is proved once for \<^verbatim>\<open>evWrite\<close>, whether the event goes to the
  current block, to a new block, or to the buffer emptied (and perhaps enlarged) by a flush.
\<close>

section \<open>Numbers and limits of blocks\<close>

fun numbered :: "u32 \<Rightarrow> block list \<Rightarrow> bool" where
  "numbered k [] \<longleftrightarrow> True"
| "numbered k (b # bs) \<longleftrightarrow> b_num b = k \<and> numbered (k + 1) bs"

lemma numbered_append [simp]:
  "numbered k (bs @ cs) \<longleftrightarrow> numbered k bs \<and> numbered (k + of_nat (length bs)) cs"
  by (induction bs arbitrary: k) (simp_all add: algebra_simps)

text \<open>A block written under a size target and a maximal number of events.\<close>

definition good_block :: "u32 \<Rightarrow> u32 \<Rightarrow> block \<Rightarrow> bool" where
  "good_block target most b \<longleftrightarrow> b_events b \<noteq> [] \<and> list_all event (b_events b) \<and>
     length (b_events b) \<le> unat most \<and> (length (block_words b) \<le> unat target \<or> length (b_events b) = 1)"

lemma block_words_bound:
  assumes "list_all event (b_events b)" "b_events b \<noteq> []"
  shows "length (block_words b) \<le> 9 * length (concat (b_events b))" "9 \<le> length (block_words b)"
proof -
  have "1 \<le> length (concat (b_events b))"
    using assms by (cases "b_events b") (auto simp: event_def Suc_le_eq)
  then show "length (block_words b) \<le> 9 * length (concat (b_events b))" "9 \<le> length (block_words b)"
    by (simp_all add: body_def)
qed

lemma blocks_words_bound:
  "list_all (good_block t m) bs \<Longrightarrow> length (blocks_words bs) \<le> 9 * length (concat (events_of bs))"
proof (induction bs)
  case (Cons b bs)
  then show ?case using block_words_bound(1) [of b] by (simp add: good_block_def del: length_block_words)
qed simp

lemma blocks_count: "list_all (good_block t m) bs \<Longrightarrow> length bs \<le> length (concat (events_of bs))"
proof (induction bs)
  case (Cons b bs)
  have "b_events b \<noteq> []" "list_all event (b_events b)" using Cons.prems by (simp_all add: good_block_def)
  then have "1 \<le> length (concat (b_events b))" by (cases "b_events b") (auto simp: event_def Suc_le_eq)
  then show ?case using Cons by simp
qed simp

text \<open>Only the first block of a file can start with a dictionary.\<close>

definition marked :: "bool \<Rightarrow> block \<Rightarrow> bool" where
  "marked dic b \<longleftrightarrow> (b_dict b \<longleftrightarrow> dic \<and> b_num b = 1)"

section \<open>Reset and expand\<close>

lemma reset_clean:
  assumes "roomy a" "buf a = 0"
  shows "\<exists>a'. resetBuffer a = Some a' \<and> clean a' \<and> blknum a' = blknum a \<and> buffer_only a a'"
proof -
  have l: "16 \<le> length (mem a)" using assms(1) by (simp add: roomy_def)
  let ?m = "last_block (blknum a) @ drop 8 (mem a)"
  have p: "paste (mem a) 0 (last_block (blknum a)) = Some ?m" using l paste_in [of 0 "last_block (blknum a)" "mem a"] by simp
  let ?a = "(set_mem ?m a)\<lparr>currentHeader := buf a, next := buf a + 8, left := bufSize a - EV_HDSIZ, blksiz := EV_HDSIZ,
        blkEvCount := 0, bytesToBuf := 4 * EV_HDSIZ, eventsToBuf := 0\<rparr>"
  have "resetBuffer a = Some ?a" using assms(2) p by (simp add: resetBuffer_def initLastBlockHeader_last_block)
  moreover have "clean ?a" using assms(2) by (auto simp: clean_def counted_def EV_HDSIZ_def intro!: exI [of _ 0])
  moreover have "buffer_only a ?a"
    using l by (cases "rw a = EV_WRITEBUF"; cases a) (simp_all add: buffer_only_def set_mem_def mem_def)
  ultimately show ?thesis by (intro exI [of _ ?a]) (simp add: set_mem_def)
qed

lemma expand_roomy:
  assumes r: "roomy a" "buf a = 0" "\<And>n. malloc_ok e n" and n: "n + 16 < 2 ^ 29" "unat (bufSize a) < n + 16"
  shows "\<exists>a' m c x t z r. expandBuffer e a (4 * (of_nat n + 2 * EV_HDSIZ)) = (S_SUCCESS, a') \<and> roomy a' \<and> buf a' = 0 \<and>
    unat (bufSize a') = n + 16 \<and> a' = (set_mem m a)\<lparr>currentHeader := c, left := x, next := t, bufRealSize := r, bufSize := z, buf := 0\<rparr>"
proof -
  define k :: u32 where "k = 4 * (of_nat n + 2 * EV_HDSIZ)"
  have k: "k = of_nat (4 * (n + 16))" by (simp add: k_def EV_HDSIZ_def)
  have u: "unat k = 4 * (n + 16)" unfolding k using n(1) by (intro unat_of_nat_32) simp
  have ds: "k div 4 = of_nat (n + 16)" using u unat_of_nat_32 [of "n + 16"] n(1) by (simp add: word_unat_eq_iff unat_div)
  have ud: "unat (k div 4) = n + 16" unfolding ds using n(1) by (intro unat_of_nat_32) simp
  have b4: "unat (4 * bufSize a) = 4 * unat (bufSize a)" "unat (4 * bufRealSize a) = 4 * unat (bufRealSize a)"
    using r(1) by (simp_all add: roomy_def unat_word_ariths)
  have nle: "\<not> k \<le> 4 * bufSize a" using n(2) by (simp add: word_le_nat_alt u b4)
  show ?thesis
  proof (cases "k \<le> 4 * bufRealSize a")
    case True
    let ?a = "a\<lparr>bufSize := k div 4\<rparr>"
    have e: "expandBuffer e a k = (S_SUCCESS, ?a)" using nle True by (simp add: expandBuffer_def)
    moreover have "n + 16 \<le> unat (bufRealSize a)" using True by (simp add: word_le_nat_alt u b4)
    then have "roomy ?a" using r(1) n(1) by (simp add: roomy_def ud)
    moreover have "?a = (set_mem (mem a) a)\<lparr>currentHeader := currentHeader a, left := left a, next := next a,
        bufRealSize := bufRealSize a, bufSize := k div 4, buf := 0\<rparr>"
      using r(2) by (cases a) (simp add: set_mem_def mem_def)
    moreover have "buf ?a = 0" "unat (bufSize ?a) = n + 16" using r(2) ud by simp_all
    ultimately show ?thesis unfolding k_def by blast
  next
    case False
    let ?a = "(set_mem (fresh e (unat k div 4)) a)\<lparr>currentHeader := 0, left := k div 4 - EV_HDSIZ, next := 8,
            bufRealSize := k div 4, bufSize := k div 4, buf := 0\<rparr>"
    have e: "expandBuffer e a k = (S_SUCCESS, ?a)" using nle False r(3) by (simp add: expandBuffer_def)
    moreover have "roomy ?a" using n(1) by (simp add: roomy_def ud u fresh_def)
    moreover have "buf ?a = 0" "unat (bufSize ?a) = n + 16" using ud by simp_all
    ultimately show ?thesis unfolding k_def by blast
  qed
qed

text \<open>What is in the buffer, when there is something in it.\<close>

definition in_buffer :: "block list \<Rightarrow> block \<Rightarrow> words" where
  "in_buffer bs b = blocks_words (bs @ [b]) @ last_block (b_num b + 1)"

lemma blocks_words_events: "length (concat (events_of bs)) \<le> length (blocks_words bs)"
  by (induction bs) (simp_all add: body_def)

lemma buffered_filled:
  assumes f: "filled a bs b" and r: "roomy a"
  shows "buffered a (bytesToBuf a) = Some (in_buffer bs b)" "unat (bytesToBuf a) = 4 * length (in_buffer bs b)"
    "length (in_buffer bs b) < 2 ^ 29"
proof -
  have n: "length (in_buffer bs b) \<le> unat (bufSize a)" using f by (simp add: filled_def in_buffer_def)
  then show l: "length (in_buffer bs b) < 2 ^ 29" using r by (simp add: roomy_def)
  have "bytesToBuf a = of_nat (4 * length (in_buffer bs b))" using f by (simp add: filled_def in_buffer_def algebra_simps)
  then show u: "unat (bytesToBuf a) = 4 * length (in_buffer bs b)"
    using l unat_of_nat_32 [of "4 * length (in_buffer bs b)"] by simp
  show "buffered a (bytesToBuf a) = Some (in_buffer bs b)"
    using f unfolding buffered_def u by (auto simp: filled_def in_buffer_def cut_def)
qed

text \<open>Sockets and pipes get the blocks without the empty last one.\<close>

lemma buffered_blocks:
  assumes f: "filled a bs b" and r: "roomy a"
  shows "buffered a (bytesToBuf a - 4 * EV_HDSIZ) = Some (blocks_words (bs @ [b]))"
    "uint (bytesToBuf a - 4 * EV_HDSIZ) = int (4 * length (blocks_words (bs @ [b])))"
proof -
  have n: "length (blocks_words (bs @ [b])) \<le> unat (bufSize a)" using f by (simp add: filled_def)
  have "bytesToBuf a - 4 * EV_HDSIZ = of_nat (4 * length (blocks_words (bs @ [b])))"
    using f by (simp add: filled_def EV_HDSIZ_def algebra_simps)
  then have u: "unat (bytesToBuf a - 4 * EV_HDSIZ) = 4 * length (blocks_words (bs @ [b]))"
    using n r unat_of_nat_32 [of "4 * length (blocks_words (bs @ [b]))"] by (simp add: roomy_def)
  show "uint (bytesToBuf a - 4 * EV_HDSIZ) = int (4 * length (blocks_words (bs @ [b])))"
    using arg_cong [OF u, of int] by simp
  show "buffered a (bytesToBuf a - 4 * EV_HDSIZ) = Some (blocks_words (bs @ [b]))"
    using f unfolding buffered_def u by (auto simp: filled_def cut_def)
qed

lemma filled_count:
  assumes f: "filled a bs b" and r: "roomy a" and e: "list_all event (events_of (bs @ [b]))"
  shows "\<not> eventsToBuf a < 1"
proof -
  have "length (events_of (bs @ [b])) \<le> length (blocks_words (bs @ [b]))"
    using events_le_words [OF e] blocks_words_events [of "bs @ [b]"] by linarith
  then have n: "length (events_of (bs @ [b])) < 2 ^ 29"
    using buffered_filled(3) [OF f r] by (simp add: in_buffer_def)
  obtain before where "before < 2 ^ 31" "eventsToBuf a = of_nat (before + length (events_of (bs @ [b])))"
    using f by (auto simp: filled_def counted_def)
  then have "unat (eventsToBuf a) = before + length (events_of (bs @ [b]))"
    using n unat_of_nat_32 [of "before + length (events_of (bs @ [b]))"] by simp
  then have "unat (eventsToBuf a) \<noteq> 0" using f by (simp add: filled_def)
  then show ?thesis by (simp add: word_less_nat_alt)
qed

lemma unat_ucast_64: "unat (ucast (x :: u32) :: u64) = unat x"
proof -
  have "unat x < 2 ^ LENGTH(32)" by (rule unsigned_less)
  then show ?thesis by (simp add: unsigned_ucast_eq take_bit_nat_eq_self)
qed

text \<open>A flush moves the blocks of the buffer to the file.\<close>

definition flushed :: "EVFILE \<Rightarrow> EVFILE \<Rightarrow> bool" where
  "flushed a a' \<longleftrightarrow> a' = a\<lparr>file := file a', fileName := fileName a', splitNumber := splitNumber a',
     bytesToFile := bytesToFile a', eventsToFile := eventsToFile a'\<rparr>"

section \<open>Writing an event\<close>

lemma write_event_direct:
  assumes "event ev" "\<not> splitting a" "n = of_nat (length ev)" "\<not> too_big a (4 * n)" "\<not> no_room a (4 * n) (\<not> fits_block a n)"
  shows "write_event e a w ev = map_option (\<lambda>(st, a). (st, (a, w))) (put_event a ev n (\<not> fits_block a n))"
proof -
  have h: "rd ev 0 = Some (hd ev)" "hd ev + 1 = n" using event_words [OF assms(1)] assms(3) by simp_all
  show ?thesis
    unfolding write_event_def h(1) Option.bind_lunit Let_def h(2)
    using assms(2,4,5) by (cases "put_event a ev n (\<not> fits_block a n)") (auto simp: wants_split_def make_room_def split: prod.splits)
qed

lemma write_event_flush:
  assumes "event ev" "\<not> splitting a" "rw a \<noteq> EV_WRITEBUF" "n = of_nat (length ev)"
    and "too_big a (4 * n) \<or> no_room a (4 * n) (\<not> fits_block a n)"
    and "evFlush e a w = Some (S_SUCCESS, (a1, w1))"
    and "(if too_big a (4 * n) then expandBuffer e a1 (4 * (n + 2 * EV_HDSIZ)) else (S_SUCCESS, a1)) = (S_SUCCESS, a2)"
    and "resetBuffer a2 = Some a3" "put_event a3 ev n False = Some (S_SUCCESS, a4)"
  shows "write_event e a w ev = Some (S_SUCCESS, (a4, w1))"
proof -
  have h: "rd ev 0 = Some (hd ev)" "hd ev + 1 = n" using event_words [OF assms(1)] assms(4) by simp_all
  have m: "make_room e n True False (too_big a (4 * n)) (a, w) = Some (S_SUCCESS, (0, a3, w1))"
    using assms(6-8) by (cases "too_big a (4 * n)") (simp_all add: make_room_def split: prod.splits)
  have d: "(too_big a (4 * n) \<or> \<not> too_big a (4 * n) \<and> no_room a (4 * n) (\<not> fits_block a n)) = True"
    using assms(5) by blast
  show ?thesis
    unfolding write_event_def h(1) Option.bind_lunit Let_def h(2)
    using assms(2,3,9) d m by (simp add: wants_split_def)
qed

text \<open>The arithmetic of the tests, without wrap-around.\<close>

lemma too_big_iff:
  "event ev \<Longrightarrow> roomy a \<Longrightarrow> too_big a (4 * of_nat (length ev)) \<longleftrightarrow> unat (bufSize a) < length ev + 16"
proof -
  assume e: "event ev" and r: "roomy a"
  have "unat (4 * of_nat (length ev) + 64 :: u32) = 4 * length ev + 64"
    using e unat_of_nat_32 [of "4 * length ev + 64"] by (simp add: event_def)
  moreover have "unat (4 * bufSize a) = 4 * unat (bufSize a)" using r by (simp add: roomy_def unat_word_ariths)
  ultimately show ?thesis by (simp add: too_big_def word_less_nat_alt) linarith
qed

lemma fits_block_iff:
  assumes "event ev" "blksiz a = of_nat k" "k < 2 ^ 29"
  shows "fits_block a (of_nat (length ev)) \<longleftrightarrow> length ev + k \<le> unat (blkSizeTarget a) \<and> unat (blkEvCount a) < unat (blkEvMax a)"
proof -
  have "unat (of_nat (length ev) + blksiz a) = length ev + k"
    using assms unat_of_nat_32 [of "length ev + k"] by (simp add: event_def)
  then show ?thesis by (simp add: fits_block_def word_le_nat_alt word_less_nat_alt)
qed

lemma no_room_iff:
  assumes "event ev" "roomy a" "bytesToBuf a = of_nat (4 * k)" "k \<le> unat (bufSize a)"
  shows "no_room a (4 * of_nat (length ev)) nh \<longleftrightarrow> unat (bufSize a) < k + length ev + (if nh then 8 else 0)"
proof -
  have b: "unat (4 * bufSize a) = 4 * unat (bufSize a)" "unat (of_nat (4 * k) :: u32) = 4 * k"
    using assms(2,4) unat_of_nat_32 [of "4 * k"] by (simp_all add: roomy_def unat_word_ariths)
  then have "unat (4 * bufSize a - bytesToBuf a) = 4 * (unat (bufSize a) - k)"
    using assms(3,4) by (simp add: unat_sub word_le_nat_alt)
  moreover have "unat (4 * of_nat (length ev) :: u32) = 4 * length ev" "unat (4 * of_nat (length ev) + 32 :: u32) = 4 * length ev + 32"
    using assms(1) unat_of_nat_32 [of "4 * length ev"] unat_of_nat_32 [of "4 * length ev + 32"] by (simp_all add: event_def)
  ultimately show ?thesis using assms(4) by (cases nh) (auto simp: no_room_def word_less_nat_alt)
qed
section \<open>What a call leaves alone in the handle\<close>

text \<open>The settings of a handle, and its place in the output.\<close>

definition same_settings :: "EVFILE \<Rightarrow> EVFILE \<Rightarrow> bool" where
  "same_settings a a' \<longleftrightarrow> rw a' = rw a \<and> splitting a' = splitting a \<and> specifierCount a' = specifierCount a \<and>
     baseFileName a' = baseFileName a \<and> randomAccess a' = randomAccess a \<and> runNumber a' = runNumber a \<and>
     runType a' = runType a \<and> wroteDictionary a' = wroteDictionary a \<and> byte_swapped a' = byte_swapped a \<and>
     sockFd a' = sockFd a \<and> blkEvMax a' = blkEvMax a \<and> blkSizeTarget a' = blkSizeTarget a \<and> (append a = 0 \<longrightarrow> append a' = 0)"

definition same_output :: "EVFILE \<Rightarrow> EVFILE \<Rightarrow> bool" where
  "same_output a a' \<longleftrightarrow> file a' = file a \<and> fileName a' = fileName a \<and> bytesToFile a' = bytesToFile a"

lemma same_refl [simp]: "same_settings a a" "same_output a a"
  by (simp_all add: same_settings_def same_output_def)

lemma same_settings_trans [trans]: "same_settings a b \<Longrightarrow> same_settings b c \<Longrightarrow> same_settings a c"
  by (simp add: same_settings_def)

lemma same_output_trans [trans]: "same_output a b \<Longrightarrow> same_output b c \<Longrightarrow> same_output a c"
  by (simp add: same_output_def)

lemma buffer_only_same:
  assumes "buffer_only a a'"
  shows "same_settings a a'" "same_output a a'" "roomy a' = roomy a" "bufSize a' = bufSize a"
proof -
  have "length (mem a') = length (mem a)" using assms by (simp add: buffer_only_def)
  moreover have "same_settings a a' \<and> same_output a a' \<and> bufSize a' = bufSize a \<and> bufRealSize a' = bufRealSize a"
    using assms unfolding buffer_only_def same_settings_def same_output_def by (cases a; cases a') simp
  ultimately show "same_settings a a'" "same_output a a'" "roomy a' = roomy a" "bufSize a' = bufSize a"
    by (simp_all add: roomy_def)
qed

lemma flushed_same:
  assumes "flushed a a'"
  shows "same_settings a a'" "roomy a' = roomy a" "buf a' = buf a" "bufSize a' = bufSize a" "blknum a' = blknum a"
proof -
  have "rw a' = rw a \<and> bufmem a' = bufmem a \<and> rwBuf a' = rwBuf a \<and> same_settings a a' \<and> buf a' = buf a \<and> bufSize a' = bufSize a \<and>
    bufRealSize a' = bufRealSize a \<and> blknum a' = blknum a"
    using assms unfolding flushed_def same_settings_def by (cases a; cases a') simp
  then show "same_settings a a'" "roomy a' = roomy a" "buf a' = buf a" "bufSize a' = bufSize a" "blknum a' = blknum a"
    by (simp_all add: roomy_def mem_def)
qed

text \<open>A buffer emptied, after it has been enlarged if need be.\<close>

lemma expand_reset:
  assumes r: "roomy a" "buf a = 0" and m: "\<And>n. malloc_ok e n" and n: "n + 16 < 2 ^ 29"
    and big: "big \<longleftrightarrow> unat (bufSize a) < n + 16"
  shows "\<exists>a2 a3. (if big then expandBuffer e a (4 * (of_nat n + 2 * EV_HDSIZ)) else (S_SUCCESS, a)) = (S_SUCCESS, a2) \<and>
    resetBuffer a2 = Some a3 \<and> clean a3 \<and> roomy a3 \<and> n + 16 \<le> unat (bufSize a3) \<and> same_settings a a3 \<and> same_output a a3 \<and>
    blknum a3 = blknum a"
proof -
  have "\<exists>a2. (if big then expandBuffer e a (4 * (of_nat n + 2 * EV_HDSIZ)) else (S_SUCCESS, a)) = (S_SUCCESS, a2) \<and>
    roomy a2 \<and> buf a2 = 0 \<and> n + 16 \<le> unat (bufSize a2) \<and> same_settings a a2 \<and> same_output a a2 \<and> blknum a2 = blknum a"
  proof (cases big)
    case True
    obtain a2 m c x t z q where e: "expandBuffer e a (4 * (of_nat n + 2 * EV_HDSIZ)) = (S_SUCCESS, a2)"
      "roomy a2" "buf a2 = 0" "unat (bufSize a2) = n + 16"
      and a2: "a2 = (set_mem m a)\<lparr>currentHeader := c, left := x, next := t, bufRealSize := q, bufSize := z, buf := 0\<rparr>"
      using expand_roomy [OF r m n] True big by auto
    have "same_settings a a2" "same_output a a2" "blknum a2 = blknum a"
      by (simp_all add: a2 same_settings_def same_output_def set_mem_def)
    then show ?thesis using e True by auto
  qed (use r big in simp)
  then obtain a2 where a2: "(if big then expandBuffer e a (4 * (of_nat n + 2 * EV_HDSIZ)) else (S_SUCCESS, a)) = (S_SUCCESS, a2)"
    "roomy a2" "buf a2 = 0" "n + 16 \<le> unat (bufSize a2)" "same_settings a a2" "same_output a a2" "blknum a2 = blknum a"
    by blast
  obtain a3 where a3: "resetBuffer a2 = Some a3" "clean a3" "blknum a3 = blknum a2" "buffer_only a2 a3"
    using reset_clean [OF a2(2,3)] by blast
  note bo = buffer_only_same [OF a3(4)]
  have "same_settings a a3" "same_output a a3"
    using same_settings_trans [OF a2(5) bo(1)] same_output_trans [OF a2(6) bo(2)] by simp_all
  then show ?thesis using a2(1,2,4,7) a3(1-3) bo(3,4) by auto
qed

text \<open>A handle that takes events: no split files, its data in the order of the host.\<close>

definition ready :: "int \<Rightarrow> EVFILE \<Rightarrow> bool" where
  "ready mode a \<longleftrightarrow> rw a = mode \<and> \<not> splitting a \<and> \<not> randomAccess a \<and> 1 \<le> unat (blkEvMax a) \<and>
     \<not> (append a \<noteq> 0 \<and> byte_swapped a)"

lemma ready_same: "same_settings a a' \<Longrightarrow> ready mode a \<Longrightarrow> ready mode a'"
  by (auto simp: same_settings_def ready_def)

abbreviation good_blocks :: "EVFILE \<Rightarrow> block list \<Rightarrow> bool" where
  "good_blocks a bs \<equiv> list_all (good_block (blkSizeTarget a) (blkEvMax a)) bs"

lemma same_dictionary: "same_settings a a' \<Longrightarrow> wroteDictionary a' = wroteDictionary a"
  by (simp add: same_settings_def)

lemma good_blocks_same:
  assumes "same_settings a a'"
  shows "good_block (blkSizeTarget a') (blkEvMax a') b = good_block (blkSizeTarget a) (blkEvMax a) b"
    and "good_blocks a' bs = good_blocks a bs"
  using assms by (simp_all add: same_settings_def)

lemma same_block_good:
  assumes "good_block t m b" "event ev" "length (b_events b) < unat m" "length ev + length (block_words b) \<le> unat t"
  shows "good_block t m (b\<lparr>b_events := b_events b @ [ev]\<rparr>)"
  using assms by (simp add: good_block_def body_def)

text \<open>A handle just opened: the next block has the number \<open>n\<close>, the buffer holds the empty last header only.\<close>

definition opened :: "int \<Rightarrow> u32 \<Rightarrow> EVFILE \<Rightarrow> bool" where
  "opened mode n a \<longleftrightarrow> rw a = mode \<and> bufmem a = last_block n @ replicate 63992 0 \<and> blknum a = n \<and> buf a = 0 \<and>
     currentHeader a = 0 \<and> next a = 8 \<and> blksiz a = 8 \<and> blkEvCount a = 0 \<and> bytesToBuf a = 32 \<and> bufSize a = 64000 \<and>
     bufRealSize a = 64000 \<and> blkSizeTarget a = 64000 \<and> blkEvMax a = 10000 \<and> \<not> splitting a \<and> \<not> randomAccess a \<and>
     \<not> wroteDictionary a"

lemma opened_clean:
  assumes "opened mode n a" "mode \<noteq> EV_WRITEBUF" "counted a 0"
  shows "clean a" "roomy a" "append a = 0 \<or> \<not> byte_swapped a \<Longrightarrow> ready mode a"
proof -
  have m: "mem a = last_block n @ replicate 63992 0" using assms(1,2) by (simp add: opened_def mem_def)
  show "clean a" using assms(1,3) m by (auto simp: opened_def clean_def)
  show "roomy a" unfolding roomy_def m using assms(1) by (simp add: opened_def)
  show "ready mode a" if "append a = 0 \<or> \<not> byte_swapped a" using assms(1) that by (auto simp: opened_def ready_def)
qed

section \<open>Writing all the events\<close>

text \<open>Writing a list of events; the first failure stops.\<close>

fun write_all :: "env \<Rightarrow> int \<Rightarrow> words list \<Rightarrow> lib \<Rightarrow> (status \<times> lib) option" where
  "write_all e h [] l = Some (S_SUCCESS, l)"
| "write_all e h (ev # evs) l = on_success (evWrite e l h (Some ev)) (write_all e h evs)"

text \<open>The words that may be written: with a dictionary the block numbers must not come back to 1.\<close>

definition limit :: "bool \<Rightarrow> nat" where "limit dic = (if dic then 2 ^ 31 else 2 ^ 50)"

section \<open>Destinations\<close>

text \<open>
  A destination: \<open>start\<close> is a handle just opened on it, with the blocks that were there before; \<open>gone\<close> says which
  blocks have left the buffer, \<open>final\<close> what the destination holds when the handle is closed, \<open>quiet\<close> what of the
  world is left alone.
\<close>

locale block_sink =
  fixes e :: env and mode :: int
    and start :: "EVFILE \<Rightarrow> world \<Rightarrow> block list \<Rightarrow> bool" and gone :: "EVFILE \<Rightarrow> world \<Rightarrow> block list \<Rightarrow> bool"
    and final :: "world \<Rightarrow> block list \<Rightarrow> bool" and closed :: status and quiet :: "world \<Rightarrow> world \<Rightarrow> bool"
  assumes memory: "gone a w cs \<Longrightarrow> malloc_ok e n"
    and modes: "mode = EV_WRITEFILE \<or> mode = EV_WRITEPIPE \<or> mode = EV_WRITESOCK"
    and start_gone: "start a w cs \<Longrightarrow> gone a w cs"
    and gone_same: "\<lbrakk>same_settings a a'; same_output a a'; gone a w cs\<rbrakk> \<Longrightarrow> gone a' w cs"
    and gone_dictionary: "gone a w cs \<Longrightarrow> gone (a\<lparr>wroteDictionary := x\<rparr>) w cs"
    and quiet_refl: "quiet w w" and quiet_trans: "\<lbrakk>quiet w w'; quiet w' w''\<rbrakk> \<Longrightarrow> quiet w w''"
    and flush: "\<lbrakk>rw a = mode; filled a bs b; roomy a; gone a w cs; b_num b = of_nat (length (cs @ bs @ [b]));
        list_all event (events_of (bs @ [b])); length (blocks_words (cs @ bs @ [b])) < 2 ^ 60\<rbrakk> \<Longrightarrow>
      \<exists>a' w'. evFlush e a w = Some (S_SUCCESS, (a', w')) \<and> flushed a a' \<and> gone a' w' (cs @ bs @ [b]) \<and> quiet w w'"
    and flush_start: "\<lbrakk>rw a = mode; clean a; start a w cs; blknum a = 1 + of_nat (length cs)\<rbrakk> \<Longrightarrow>
      \<exists>a' w'. evFlush e a w = Some (S_SUCCESS, (a', w')) \<and> flushed a a' \<and> gone a' w' cs \<and> quiet w w'"
    and close: "\<lbrakk>rw a = mode; \<not> randomAccess a; roomy a; buf a = 0; gone a w cs; cs \<noteq> []; blknum a = 1 + of_nat (length cs)\<rbrakk> \<Longrightarrow>
      \<exists>a' w'. close_last e (a, w) = Some (Inr (a', w')) \<and> close_status e a' = closed \<and> final w' cs \<and> quiet w w'"
begin

text \<open>
  \<open>writer dic old a w evs\<close>: behind the blocks \<open>old\<close> the events \<open>evs\<close> have been written with the handle \<open>a\<close>, some
  blocks of them to the destination, the rest still in the buffer. With \<open>dic\<close> the first of them is a
  dictionary.
\<close>

definition writer :: "bool \<Rightarrow> block list \<Rightarrow> EVFILE \<Rightarrow> world \<Rightarrow> words list \<Rightarrow> bool" where
  "writer dic old a w evs \<longleftrightarrow> ready mode a \<and> roomy a \<and> length (blocks_words old) < 2 ^ 50 \<and> wroteDictionary a = dic \<and> (dic \<longrightarrow> old = []) \<and>
     (\<not> dic \<and> clean a \<and> start a w old \<and> evs = [] \<and> blknum a = 1 + of_nat (length old) \<and> unat (bufSize a) \<le> unat (blkSizeTarget a) + 8 \<or>
      (\<exists>cs bs b. filled a bs b \<and> gone a w (old @ cs) \<and> good_blocks a (cs @ bs @ [b]) \<and> list_all (marked dic) (cs @ bs @ [b]) \<and>
         numbered (1 + of_nat (length old)) (cs @ bs @ [b]) \<and> events_of (cs @ bs @ [b]) = evs))"

lemma opened_writer:
  assumes o: "opened mode (1 + of_nat (length old)) a" and s: "start a w old"
    and c: "counted a 0" "append a = 0 \<or> \<not> byte_swapped a" "length (blocks_words old) < 2 ^ 50"
  shows "writer False old a w []"
proof -
  have m: "mode \<noteq> EV_WRITEBUF" using modes by (auto simp: mode_defs)
  show ?thesis using opened_clean [OF o m c(1)] c(2,3) o s by (simp add: writer_def opened_def)
qed

text \<open>Putting the first event into a clean buffer.\<close>

lemma writer_first:
  assumes "clean a" "roomy a" "ready mode a" "event ev" "16 + length ev \<le> unat (bufSize a)" "gone a w (old @ cs)"
    and "good_blocks a cs" "numbered (1 + of_nat (length old)) cs" "blknum a = 1 + of_nat (length (old @ cs))"
    and "length (blocks_words old) < 2 ^ 50" "wroteDictionary a = dic" "dic \<longrightarrow> old = []" "list_all (marked dic) cs" "\<not> (dic \<and> blknum a = 1)"
  shows "\<exists>a'. put_event a ev (of_nat (length ev)) False = Some (S_SUCCESS, a') \<and> writer dic old a' w (events_of cs @ [ev]) \<and> same_settings a a'"
proof -
  let ?b = "\<lparr>b_num = blknum a, b_dict = False, b_events = [ev]\<rparr>"
  obtain a' where p: "put_event a ev (of_nat (length ev)) False = Some (S_SUCCESS, a')"
    and f: "filled a' [] ?b" and b: "buffer_only a a'"
    using put_event_clean [OF assms(1,2,4,5)] assms(11,14) by auto
  note bf = buffer_only_same [OF b]
  have "good_block (blkSizeTarget a) (blkEvMax a) ?b"
    using assms(3,4) by (simp add: good_block_def ready_def)
  then have "good_blocks a' (cs @ [] @ [?b])" using assms(7) by (simp add: good_blocks_same [OF bf(1)])
  then have "writer dic old a' w (events_of cs @ [ev])"
    unfolding writer_def
    using f assms(2,8-14) gone_same [OF bf(1,2) assms(6)] bf(3) ready_same [OF bf(1) assms(3)]
    by (intro conjI disjI2 exI [of _ cs] exI [of _ "[]"] exI [of _ ?b]) (simp_all add: algebra_simps marked_def same_dictionary [OF bf(1)])
  then show ?thesis using p bf(1) by blast
qed

text \<open>Room in the buffer: the event goes to the current block or to a new one behind it.\<close>

lemma writer_direct:
  assumes f: "filled a bs b" and r: "roomy a" and s: "ready mode a" and ev: "event ev" and o: "gone a w (old @ cs)"
    and g: "good_blocks a (cs @ bs @ [b])" and n: "numbered (1 + of_nat (length old)) (cs @ bs @ [b])"
    and z: "length (blocks_words old) < 2 ^ 50"
    and dic: "wroteDictionary a = dic" "dic \<longrightarrow> old = []" "list_all (marked dic) (cs @ bs @ [b])" "\<not> (dic \<and> blknum a = 1)"
    and nh: "nh \<longleftrightarrow> \<not> fits_block a (of_nat (length ev))" and room: "\<not> no_room a (4 * of_nat (length ev)) nh"
  shows "\<exists>a'. put_event a ev (of_nat (length ev)) nh = Some (S_SUCCESS, a') \<and> writer dic old a' w (events_of (cs @ bs @ [b]) @ [ev]) \<and>
    same_settings a a'"
proof -
  have evs: "list_all event (b_events b)" using g by (simp add: good_block_def)
  have k: "bytesToBuf a = of_nat (4 * (length (blocks_words bs) + length (block_words b) + 8))"
    "length (blocks_words bs) + length (block_words b) + 8 \<le> unat (bufSize a)" "blksiz a = of_nat (length (block_words b))"
    "blknum a = b_num b + 1" "blkEvCount a = of_nat (length (b_events b))"
    using f by (simp_all add: filled_def)
  have lt: "length (block_words b) < 2 ^ 29" using k(2) r by (simp add: roomy_def)
  have sz: "length (blocks_words bs) + length (block_words b) + 8 + length ev + (if nh then 8 else 0) \<le> unat (bufSize a)"
    using room no_room_iff [OF ev r k(1,2), of nh] by linarith
  have num: "b_num b = 1 + of_nat (length old) + of_nat (length cs) + of_nat (length bs)" using n by simp
  show ?thesis
  proof (cases nh)
    case False
    let ?b = "b\<lparr>b_events := b_events b @ [ev]\<rparr>"
    obtain a' where p: "put_event a ev (of_nat (length ev)) False = Some (S_SUCCESS, a')" and f': "filled a' bs ?b" and bo: "buffer_only a a'"
      using put_event_same [OF f r ev evs] sz False by auto
    note bf = buffer_only_same [OF bo]
    have "length (b_events b) \<le> unat (blkEvMax a)" using g by (simp add: good_block_def)
    also have "unat (blkEvMax a) < 2 ^ LENGTH(32)" by (rule unsigned_less)
    finally have "length (b_events b) < 2 ^ 32" by simp
    then have "length (b_events b) < unat (blkEvMax a)" "length ev + length (block_words b) \<le> unat (blkSizeTarget a)"
      using False nh fits_block_iff [OF ev k(3) lt] unat_of_nat_32 [of "length (b_events b)"] k(5) by simp_all
    then have "good_blocks a' (cs @ bs @ [?b])"
      using g same_block_good [of "blkSizeTarget a" "blkEvMax a" b ev] ev by (simp add: good_blocks_same [OF bf(1)])
    then have "writer dic old a' w (events_of (cs @ bs @ [b]) @ [ev])"
      unfolding writer_def
      using f' r n z dic gone_same [OF bf(1,2) o] bf(3) ready_same [OF bf(1) s]
      by (intro conjI disjI2 exI [of _ cs] exI [of _ bs] exI [of _ ?b]) (simp_all add: marked_def same_dictionary [OF bf(1)])
    then show ?thesis using p False bf(1) by auto
  next
    case True
    let ?b = "\<lparr>b_num = blknum a, b_dict = False, b_events = [ev]\<rparr>"
    obtain a' where p: "put_event a ev (of_nat (length ev)) True = Some (S_SUCCESS, a')" and f': "filled a' (bs @ [b]) ?b" and bo: "buffer_only a a'"
      using put_event_new [OF f r ev _] sz True dic(1,4) by auto
    note bf = buffer_only_same [OF bo]
    have "good_block (blkSizeTarget a) (blkEvMax a) ?b" using s ev by (simp add: good_block_def ready_def)
    then have "good_blocks a' (cs @ (bs @ [b]) @ [?b])" using g by (simp add: good_blocks_same [OF bf(1)])
    then have "writer dic old a' w (events_of (cs @ bs @ [b]) @ [ev])"
      unfolding writer_def
      using f' r n z dic num k(4) gone_same [OF bf(1,2) o] bf(3) ready_same [OF bf(1) s]
      by (intro conjI disjI2 exI [of _ cs] exI [of _ "bs @ [b]"] exI [of _ ?b]) (simp_all add: algebra_simps marked_def same_dictionary [OF bf(1)])
    then show ?thesis using p True bf(1) by auto
  qed
qed

text \<open>After a flush: a bigger buffer if need be, a reset, and the event first in the buffer.\<close>

lemma writer_after_flush:
  assumes r: "roomy a" "buf a = 0" and s: "ready mode a" and ev: "event ev" "length ev + 16 < 2 ^ 29"
    and o: "gone a w (old @ cs)" and g: "good_blocks a cs" "numbered (1 + of_nat (length old)) cs"
    and bn: "blknum a = 1 + of_nat (length (old @ cs))" and z: "length (blocks_words old) < 2 ^ 50"
    and dic: "wroteDictionary a = dic" "dic \<longrightarrow> old = []" "list_all (marked dic) cs" "\<not> (dic \<and> blknum a = 1)"
    and big: "big \<longleftrightarrow> unat (bufSize a) < length ev + 16"
  shows "\<exists>a2 a3 a4. (if big then expandBuffer e a (4 * (of_nat (length ev) + 2 * EV_HDSIZ)) else (S_SUCCESS, a)) = (S_SUCCESS, a2) \<and>
    resetBuffer a2 = Some a3 \<and> put_event a3 ev (of_nat (length ev)) False = Some (S_SUCCESS, a4) \<and>
    writer dic old a4 w (events_of cs @ [ev]) \<and> same_settings a a4"
proof -
  obtain a2 a3 where a2: "(if big then expandBuffer e a (4 * (of_nat (length ev) + 2 * EV_HDSIZ)) else (S_SUCCESS, a)) = (S_SUCCESS, a2)"
    "resetBuffer a2 = Some a3" "clean a3" "roomy a3" "length ev + 16 \<le> unat (bufSize a3)" and ss: "same_settings a a3" "same_output a a3"
    and bn3: "blknum a3 = blknum a"
    using expand_reset [OF r memory [OF o] ev(2) big] by blast
  have "\<exists>a4. put_event a3 ev (of_nat (length ev)) False = Some (S_SUCCESS, a4) \<and> writer dic old a4 w (events_of cs @ [ev]) \<and>
    same_settings a3 a4"
  proof (rule writer_first)
    show "roomy a3" by (rule a2(4))
    show "ready mode a3" by (rule ready_same [OF ss(1) s])
    show "16 + length ev \<le> unat (bufSize a3)" using a2(5) by simp
    show "gone a3 w (old @ cs)" by (rule gone_same [OF ss o])
    show "good_blocks a3 cs" using g(1) by (simp add: good_blocks_same [OF ss(1)])
    show "blknum a3 = 1 + of_nat (length (old @ cs))" using bn bn3 by simp
  qed (use a2(3) bn3 ev(1) g(2) z dic in \<open>simp_all add: same_dictionary [OF ss(1)]\<close>)
  then show ?thesis using a2(1,2) same_settings_trans [OF ss(1)] by blast
qed

text \<open>\<^verbatim>\<open>evWrite\<close> appends the event.\<close>

lemma writer_step:
  assumes wr: "writer dic old a w evs" and ev: "event ev" "length ev + 16 < 2 ^ 28" and sz: "length (concat evs) < limit dic"
  shows "\<exists>a' w'. write_event e a w ev = Some (S_SUCCESS, (a', w')) \<and> writer dic old a' w' (evs @ [ev]) \<and> same_settings a a' \<and> quiet w w'"
proof -
  have s: "ready mode a" and r: "roomy a" and z: "length (blocks_words old) < 2 ^ 50"
    and dic: "wroteDictionary a = dic" "dic \<longrightarrow> old = []" using wr by (simp_all add: writer_def)
  have sz50: "length (concat evs) < 2 ^ 50" using sz by (cases dic) (simp_all add: limit_def)
  have rw: "\<not> splitting a" "rw a \<noteq> EV_WRITEBUF" "rw a = mode" using s modes by (auto simp: ready_def mode_defs)
  have ev29: "length ev + 16 < 2 ^ 29" using ev(2) by simp
  let ?n = "of_nat (length ev) :: u32"
  have tb: "too_big a (4 * ?n) \<longleftrightarrow> unat (bufSize a) < length ev + 16" by (rule too_big_iff [OF ev(1) r])
  text \<open>Whatever the flush leaves, the event then goes to the start of the buffer.\<close>
  have after: "\<exists>a' w'. write_event e a w ev = Some (S_SUCCESS, (a', w')) \<and> writer dic old a' w' (events_of cs @ [ev]) \<and> same_settings a a' \<and> quiet w w'"
    if t: "too_big a (4 * ?n) \<or> no_room a (4 * ?n) (\<not> fits_block a ?n)"
      and fl: "evFlush e a w = Some (S_SUCCESS, (a1, w1))" "flushed a a1" "gone a1 w1 (old @ cs)" "quiet w w1"
      and g: "buf a = 0" "good_blocks a cs" "numbered (1 + of_nat (length old)) cs" "blknum a = 1 + of_nat (length (old @ cs))"
        "list_all (marked dic) cs" "\<not> (dic \<and> blknum a = 1)" for a1 w1 cs
  proof -
    note ff = flushed_same [OF fl(2)]
    have "\<exists>a2 a3 a4. (if too_big a (4 * ?n) then expandBuffer e a1 (4 * (?n + 2 * EV_HDSIZ)) else (S_SUCCESS, a1)) = (S_SUCCESS, a2) \<and>
      resetBuffer a2 = Some a3 \<and> put_event a3 ev ?n False = Some (S_SUCCESS, a4) \<and> writer dic old a4 w1 (events_of cs @ [ev]) \<and> same_settings a1 a4"
      by (rule writer_after_flush [OF _ _ _ ev(1) ev29 fl(3) _ g(3) _ z _ dic(2) g(5)])
        (use ff r g(1,2,4,6) tb dic same_dictionary [OF ff(1)] ready_same [OF ff(1) s] in \<open>simp_all add: good_blocks_same [OF ff(1)]\<close>)
    then obtain a2 a3 a4 where x: "(if too_big a (4 * ?n) then expandBuffer e a1 (4 * (?n + 2 * EV_HDSIZ)) else (S_SUCCESS, a1)) = (S_SUCCESS, a2)"
      "resetBuffer a2 = Some a3" "put_event a3 ev ?n False = Some (S_SUCCESS, a4)" "writer dic old a4 w1 (events_of cs @ [ev])" "same_settings a1 a4"
      by blast
    show ?thesis
      using write_event_flush [OF ev(1) rw(1,2) refl t fl(1) x(1-3)] x(4) fl(4) same_settings_trans [OF ff(1) x(5)] by blast
  qed
  from wr consider
      (clean) "\<not> dic" "clean a" "start a w old" "evs = []" "blknum a = 1 + of_nat (length old)" "unat (bufSize a) \<le> unat (blkSizeTarget a) + 8"
    | (filled) cs bs b where "filled a bs b" "gone a w (old @ cs)" "good_blocks a (cs @ bs @ [b])"
        "list_all (marked dic) (cs @ bs @ [b])" "numbered (1 + of_nat (length old)) (cs @ bs @ [b])" "events_of (cs @ bs @ [b]) = evs"
    unfolding writer_def by blast
  then show ?thesis
  proof cases
    case clean
    have c: "buf a = 0" "bytesToBuf a = of_nat (4 * 8)" "blksiz a = of_nat 8" "blkEvCount a = 0"
      using clean(2) by (simp_all add: clean_def)
    show ?thesis
    proof (cases "too_big a (4 * ?n)")
      case True
      obtain a1 w1 where fl: "evFlush e a w = Some (S_SUCCESS, (a1, w1))" "flushed a a1" "gone a1 w1 old" "quiet w w1"
        using flush_start [OF rw(3) clean(2,3,5)] by blast
      show ?thesis using after [OF disjI1 [OF True] fl(1,2), of "[]"] fl(3,4) c(1) clean(1,4,5) by simp
    next
      case False
      then have sm: "16 + length ev \<le> unat (bufSize a)" using tb by simp
      have fits: "fits_block a ?n"
        using fits_block_iff [OF ev(1) c(3)] sm clean(6) s c(4) by (simp add: ready_def)
      have nr: "\<not> no_room a (4 * ?n) (\<not> fits_block a ?n)"
        using no_room_iff [OF ev(1) r c(2)] sm fits by simp
      have g: "gone a w (old @ [])" using start_gone [OF clean(3)] by simp
      obtain a' where "put_event a ev ?n False = Some (S_SUCCESS, a')" "writer dic old a' w (events_of [] @ [ev])" "same_settings a a'"
        using writer_first [OF clean(2) r s ev(1) sm g _ _ _ z dic] clean(1,5) by auto
      then show ?thesis
        using write_event_direct [OF ev(1) rw(1) refl False nr] fits clean(4) quiet_refl by auto
    qed
  next
    case (filled cs bs b)
    have c: "buf a = 0" "bytesToBuf a = of_nat (4 * (length (blocks_words bs) + length (block_words b) + 8))"
      "length (blocks_words bs) + length (block_words b) + 8 \<le> unat (bufSize a)" "blknum a = b_num b + 1"
      using filled(1) by (simp_all add: filled_def)
    have num: "b_num b = of_nat (length ((old @ cs) @ bs @ [b]))" using filled(5) by (simp add: algebra_simps)
    have nd: "\<not> (dic \<and> blknum a = 1)"
    proof
      assume d: "dic \<and> blknum a = 1"
      have "length (cs @ bs @ [b]) < 2 ^ 31" using blocks_count [OF filled(3)] sz d unfolding filled(6) by (simp add: limit_def)
      then have "unat (b_num b) \<noteq> 0" using num d dic(2) unat_of_nat_32 [of "length (cs @ bs @ [b])"] by simp
      then show False using d c(4) by simp
    qed
    show ?thesis
    proof (cases "too_big a (4 * ?n) \<or> no_room a (4 * ?n) (\<not> fits_block a ?n)")
      case True
      have evs: "list_all event (events_of (bs @ [b]))"
        using filled(3) by (auto simp: events_of_def good_block_def list_all_iff)
      have "length (blocks_words (cs @ bs @ [b])) \<le> 9 * length (concat evs)"
        using blocks_words_bound [OF filled(3)] unfolding filled(6) .
      then have "length (blocks_words ((old @ cs) @ bs @ [b])) < 2 ^ 60" using sz50 z by simp
      then obtain a1 w1 where fl: "evFlush e a w = Some (S_SUCCESS, (a1, w1))" "flushed a a1"
        "gone a1 w1 ((old @ cs) @ bs @ [b])" "quiet w w1"
        using flush [OF rw(3) filled(1) r filled(2) num evs] by blast
      show ?thesis
        using after [OF True fl(1,2) _ fl(4) c(1) filled(3,5) _ filled(4) nd] fl(3) num c(4) filled(6) [symmetric] by simp
    next
      case False
      then show ?thesis
        using writer_direct [OF filled(1) r s ev(1) filled(2,3,5) z dic filled(4) nd refl] filled(6)
          write_event_direct [OF ev(1) rw(1) refl, of e w] quiet_refl by auto
    qed
  qed
qed

text \<open>The end of \<^verbatim>\<open>evClose\<close>: everything is at the destination.\<close>

lemma writer_close:
  assumes wr: "writer dic old a w evs" and ne: "old \<noteq> [] \<or> evs \<noteq> []" and sz: "length (concat evs) < 2 ^ 50"
  shows "\<exists>s a' w' new. close_flush e a w = Some s \<and> close_last e s = Some (Inr (a', w')) \<and> close_status e a' = closed \<and>
    final w' (old @ new) \<and> good_blocks a new \<and> list_all (marked dic) new \<and> numbered (1 + of_nat (length old)) new \<and> events_of new = evs \<and> quiet w w'"
proof -
  have s: "rw a = mode" "\<not> randomAccess a" and r: "roomy a" and z: "length (blocks_words old) < 2 ^ 50"
    using wr by (simp_all add: writer_def ready_def)
  have finish: ?thesis
    if fl: "evFlush e a w = Some (S_SUCCESS, (a1, w1))" "flushed a a1" "gone a1 w1 (old @ new)" "quiet w w1"
      and n: "buf a = 0" "blknum a = 1 + of_nat (length (old @ new))" "old @ new \<noteq> []" "good_blocks a new"
        "list_all (marked dic) new" "numbered (1 + of_nat (length old)) new" "events_of new = evs" for a1 w1 new
  proof -
    note ff = flushed_same [OF fl(2)]
    have "close_flush e a w = Some (a1, w1)" using s(1) modes fl(1) by (auto simp: close_flush_def)
    moreover have "rw a1 = mode" "\<not> randomAccess a1" using ff(1) s by (simp_all add: same_settings_def)
    then obtain a2 w2 where "close_last e (a1, w1) = Some (Inr (a2, w2))" "close_status e a2 = closed" "final w2 (old @ new)" "quiet w1 w2"
      using close [of a1 w1 "old @ new"] fl(3) ff r n(1-3) by auto
    ultimately show ?thesis using n(4-7) quiet_trans [OF fl(4)] by blast
  qed
  from wr consider "clean a" "start a w old" "evs = []" "blknum a = 1 + of_nat (length old)"
    | cs bs b where "filled a bs b" "gone a w (old @ cs)" "good_blocks a (cs @ bs @ [b])"
        "list_all (marked dic) (cs @ bs @ [b])" "numbered (1 + of_nat (length old)) (cs @ bs @ [b])" "events_of (cs @ bs @ [b]) = evs"
    unfolding writer_def by blast
  then show ?thesis
  proof cases
    case 1
    then show ?thesis using flush_start [OF s(1) 1(1,2,4)] finish [of _ _ "[]"] ne by (auto simp: clean_def)
  next
    case (2 cs bs b)
    have num: "b_num b = of_nat (length ((old @ cs) @ bs @ [b]))" using 2(5) by (simp add: algebra_simps)
    have evs: "list_all event (events_of (bs @ [b]))" using 2(3) by (auto simp: events_of_def good_block_def list_all_iff)
    have "length (blocks_words ((old @ cs) @ bs @ [b])) < 2 ^ 60"
      using blocks_words_bound [OF 2(3)] sz z unfolding 2(6) by simp
    then obtain a1 w1 where "evFlush e a w = Some (S_SUCCESS, (a1, w1))" "flushed a a1" "gone a1 w1 ((old @ cs) @ bs @ [b])" "quiet w w1"
      using flush [OF s(1) 2(1) r 2(2) num evs] by blast
    then show ?thesis using finish [of a1 w1 "cs @ bs @ [b]"] 2(1,3-6) num by (simp add: filled_def)
  qed
qed

text \<open>
  The calls on a handle: \<open>writes dic old t m l h evs\<close> is the abstract state of a handle that is written with blocks of
  at most \<open>t\<close> words and \<open>m\<close> events, the list \<open>evs\<close> of events behind the blocks \<open>old\<close>.
\<close>

definition writes :: "bool \<Rightarrow> block list \<Rightarrow> u32 \<Rightarrow> u32 \<Rightarrow> lib \<Rightarrow> int \<Rightarrow> words list \<Rightarrow> bool" where
  "writes dic old t m l h evs \<longleftrightarrow>
     (\<exists>a. lookup_handle l h = Some a \<and> writer dic old a (sys l) evs \<and> blkSizeTarget a = t \<and> blkEvMax a = m)"

lemma evWrite_writer:
  assumes wr: "writes dic old t m l h evs" and ev: "event ev" "length ev + 16 < 2 ^ 28" and sz: "length (concat evs) < limit dic"
  shows "\<exists>l'. evWrite e l h (Some ev) = Some (S_SUCCESS, l') \<and> writes dic old t m l' h (evs @ [ev]) \<and> others_kept l h l' \<and> quiet (sys l) (sys l')"
proof -
  obtain a where a: "lookup_handle l h = Some a" "writer dic old a (sys l) evs" "blkSizeTarget a = t" "blkEvMax a = m"
    using wr by (auto simp: writes_def)
  obtain a' w' where w: "write_event e a (sys l) ev = Some (S_SUCCESS, (a', w'))" "writer dic old a' w' (evs @ [ev])"
    "same_settings a a'" "quiet (sys l) w'"
    using writer_step [OF a(2) ev sz] by blast
  have s: "append a = 0 \<or> \<not> byte_swapped a" "writing a"
    using a(2) modes by (auto simp: writer_def ready_def writing_def)
  let ?l = "(store_handle l h a')\<lparr>sys := w'\<rparr>"
  have "evWrite e l h (Some ev) = Some (S_SUCCESS, ?l)"
    using a(1) bad_handle_lookup [OF a(1)] s w(1) by (auto simp: evWrite_def evWriteImpl_def)
  moreover have "lookup_handle ?l h = Some a'" using handles.get_put [of l h a'] a(1) by simp
  ultimately show ?thesis using w(2-4) a(3,4) others_kept_store [OF a(1), of w' a'] by (auto simp: writes_def same_settings_def)
qed

lemma write_all_writer:
  assumes "writes dic old t m l h evs" "list_all event new" "\<forall>ev \<in> set new. length ev + 16 < 2 ^ 28" "length (concat (evs @ new)) < limit dic"
  shows "\<exists>l'. write_all e h new l = Some (S_SUCCESS, l') \<and> writes dic old t m l' h (evs @ new) \<and> others_kept l h l' \<and> quiet (sys l) (sys l')"
  using assms
proof (induction new arbitrary: l evs)
  case Nil
  then show ?case by (simp add: others_kept_def quiet_refl)
next
  case (Cons ev new)
  obtain l1 where l1: "evWrite e l h (Some ev) = Some (S_SUCCESS, l1)" "writes dic old t m l1 h (evs @ [ev])" "others_kept l h l1" "quiet (sys l) (sys l1)"
    using evWrite_writer [OF Cons.prems(1), of ev] Cons.prems(2-4) by auto
  obtain l2 where l2: "write_all e h new l1 = Some (S_SUCCESS, l2)" "writes dic old t m l2 h ((evs @ [ev]) @ new)" "others_kept l1 h l2"
    "quiet (sys l1) (sys l2)"
    using Cons.IH [OF l1(2)] Cons.prems(2-4) by auto
  show ?case using l1(1) l2 others_kept_trans [OF l1(3) l2(3)] quiet_trans [OF l1(4) l2(4)] by simp
qed

text \<open>Closing: the destination holds the events, in numbered blocks that keep the limits, behind what was there.\<close>

definition holds_events :: "bool \<Rightarrow> block list \<Rightarrow> u32 \<Rightarrow> u32 \<Rightarrow> world \<Rightarrow> words list \<Rightarrow> bool" where
  "holds_events dic old t m w evs \<longleftrightarrow> (\<exists>bs. final w (old @ bs) \<and> list_all (good_block t m) bs \<and>
     list_all (marked dic) bs \<and> numbered (1 + of_nat (length old)) bs \<and> events_of bs = evs)"

lemma evClose_writer:
  assumes wr: "writes dic old t m l h evs" and ne: "old \<noteq> [] \<or> evs \<noteq> []" and sz: "length (concat evs) < 2 ^ 50"
  shows "\<exists>l'. evClose e l h = Some (closed, l') \<and> lookup_handle l' h = None \<and> can_open l' \<and> others_kept l h l' \<and>
    quiet (sys l) (sys l') \<and> holds_events dic old t m (sys l') evs"
proof -
  obtain a where a: "lookup_handle l h = Some a" "writer dic old a (sys l) evs" "blkSizeTarget a = t" "blkEvMax a = m"
    using wr by (auto simp: writes_def)
  obtain s a' w' new where c: "close_flush e a (sys l) = Some s" "close_last e s = Some (Inr (a', w'))" "close_status e a' = closed"
    and f: "final w' (old @ new)" "good_blocks a new" "list_all (marked dic) new" "numbered (1 + of_nat (length old)) new" "events_of new = evs" "quiet (sys l) w'"
    using writer_close [OF a(2) ne sz] by blast
  let ?l = "(free_handle l h)\<lparr>sys := w'\<rparr>"
  have "evClose e l h = Some (closed, ?l)"
    using a(1) bad_handle_lookup [OF a(1)] c by (simp add: evClose_def)
  moreover have "others_kept l h ?l" using handles.get_del_other [of _ h l] a(1) by (auto simp: others_kept_def)
  moreover have "lookup_handle ?l h = None" using handles.get_del [of l h] a(1) by simp
  moreover have "can_open ?l"
  proof -
    have "nat (h - 1) < length (handleList l)" using a(1) unfolding lookup_handle_Some_iff handleCount_def by linarith
    then show ?thesis by (simp add: can_open_def free_handle_def set_update_memI)
  qed
  moreover have "holds_events dic old t m w' evs" using f(1-5) a(3,4) by (auto simp: holds_events_def)
  ultimately show ?thesis using f(6) by auto
qed

text \<open>From a handle just opened to its close.\<close>

lemma write_and_close:
  assumes "writes dic old t m l h before" "list_all event evs" "\<forall>ev \<in> set evs. length ev + 16 < 2 ^ 28" "length (concat (before @ evs)) < limit dic"
    and "old \<noteq> [] \<or> before @ evs \<noteq> []"
  shows "\<exists>l1 l2. write_all e h evs l = Some (S_SUCCESS, l1) \<and> evClose e l1 h = Some (closed, l2) \<and> lookup_handle l2 h = None \<and>
    can_open l2 \<and> others_kept l h l2 \<and> quiet (sys l) (sys l2) \<and> holds_events dic old t m (sys l2) (before @ evs)"
proof -
  have sz: "length (concat (before @ evs)) < 2 ^ 50" using assms(4) by (cases dic) (simp_all add: limit_def)
  obtain l1 where l1: "write_all e h evs l = Some (S_SUCCESS, l1)" "writes dic old t m l1 h (before @ evs)" "others_kept l h l1" "quiet (sys l) (sys l1)"
    using write_all_writer [OF assms(1-4)] by auto
  obtain l2 where l2: "evClose e l1 h = Some (closed, l2)" "lookup_handle l2 h = None" "can_open l2" "others_kept l1 h l2"
    "quiet (sys l1) (sys l2)" "holds_events dic old t m (sys l2) (before @ evs)"
    using evClose_writer [OF l1(2) assms(5) sz] by blast
  show ?thesis using l1(1) l2 others_kept_trans [OF l1(3) l2(4)] quiet_trans [OF l1(4) l2(5)] by blast
qed

end

end
