(* ===== verification/EvioWriteFile.thy ===== *)
theory EvioWriteFile
  imports EvioWriteBlocks
begin

text \<open>
  Files as destinations of blocks: the file is created by the first flush, or was opened to append; a flush
  goes over the empty last block that is there and brings its own.
\<close>

section \<open>Flushing to a file\<close>

text \<open>A handle whose file is still to be created, under a name without specifiers, run number or run type.\<close>

definition named :: "string \<Rightarrow> EVFILE \<Rightarrow> bool" where
  "named f a \<longleftrightarrow> rw a = EV_WRITEFILE \<and> \<not> splitting a \<and> specifierCount a = 0 \<and> baseFileName a = Some f \<and>
     strstr f ''%s'' = None \<and> f \<noteq> [] \<and> length f < 2 ^ 32 \<and> 1 \<le> sint (runNumber a)"

definition works :: "env \<Rightarrow> string \<Rightarrow> bool" where
  "works e f \<longleftrightarrow> (\<forall>n. malloc_ok e n) \<and> create_ok e f \<and> write_ok e f"

definition file_final :: "string \<Rightarrow> world \<Rightarrow> block list \<Rightarrow> bool" where
  "file_final f w bs \<longleftrightarrow> files w f = Some (file_words bs (of_nat (length bs) + 1))"

text \<open>
  The blocks \<open>bs\<close> have gone to the file \<open>f\<close>, with an empty last block behind them: the stream is at that block
  after opening to append, and behind it after a flush, which counts its bytes.
\<close>

definition file_gone :: "env \<Rightarrow> string \<Rightarrow> EVFILE \<Rightarrow> world \<Rightarrow> block list \<Rightarrow> bool" where
  "file_gone e f a w bs \<longleftrightarrow> works e f \<and>
     (bs = [] \<and> file a = None \<and> fileName a = None \<and> bytesToFile a = 0 \<and> named f a \<or>
      (\<exists>s. file a = Some s \<and> st_name s = f \<and> file_final f w bs \<and>
           (st_pos s = length (blocks_words bs) \<and> bytesToFile a = 0 \<or>
            st_pos s = length (blocks_words bs) + 8 \<and> 1 \<le> unat (bytesToFile a) \<and>
            unat (bytesToFile a) \<le> 8 * length (blocks_words bs) + 64)))"

definition file_start :: "env \<Rightarrow> string \<Rightarrow> EVFILE \<Rightarrow> world \<Rightarrow> block list \<Rightarrow> bool" where
  "file_start e f a w bs \<longleftrightarrow> file_gone e f a w bs \<and> bytesToFile a = 0 \<and> (file a = None \<longrightarrow> eventsToBuf a = 0)"

definition file_quiet :: "string \<Rightarrow> world \<Rightarrow> world \<Rightarrow> bool" where
  "file_quiet f w w' \<longleftrightarrow> (\<forall>g. g \<noteq> f \<longrightarrow> files w' g = files w g) \<and> sock_in w' = sock_in w \<and> sock_out w' = sock_out w \<and>
     sock_plan w' = sock_plan w"

lemma file_quiet_set [simp]: "file_quiet f w (set_file f c w)"
  by (simp add: file_quiet_def set_file_def)

lemma plain_name:
  assumes "named f a" "works e f"
  shows "evGenerateFileName e (Some (a\<lparr>splitNumber := x\<rparr>)) (specifierCount a) (sint (runNumber a)) (splitting a) y (runType a) =
    Some (Some f, Some (a\<lparr>splitNumber := x\<rparr>))"
proof -
  have c: "count_loop ''%s'' f 0 = Some 0"
    using assms(1) by (subst count_loop.simps) (simp add: named_def)
  have "unat (of_nat (length f) + 1 :: u64) = length f + 1"
    using assms(1) by (simp add: named_def unat_of_nat take_bit_nat_eq_self unat_word_ariths)
  then have "evStrReplace e (Some f) (Some ''%s'') (runType a) = Some (Some f)"
    using assms(2) by (simp add: evStrReplace_def the_str_def [of "Some ''%s''"] c works_def Let_def)
  moreover have "a\<lparr>splitNumber := x, baseFileName := Some f\<rparr> = a\<lparr>splitNumber := x\<rparr>"
    using assms(1) by (cases a) (simp add: named_def)
  ultimately show ?thesis using assms
    by (simp add: evGenerateFileName_def named_def strdup_def works_def)
qed

lemma splice_over_last:
  "splice (length xs) ys (xs @ zs) = xs @ ys" if "length zs \<le> length ys"
  using that by (simp add: splice_def)

text \<open>The write of a flush: it goes over the empty last block of the file, or starts the file.\<close>

lemma flush_file_over:
  assumes m: "rw a = EV_WRITEFILE" and g: "file_gone e f a w cs"
    and b: "buffered a (bytesToBuf a) = Some ws" "unat (bytesToBuf a) = 4 * length ws" "8 \<le> length ws"
  shows "\<exists>s g n. flush_file e a w = Some (S_SUCCESS, (int (unat (bytesToBuf a)), bytesToBuf a,
      a\<lparr>file := Some s, fileName := g, splitNumber := n\<rparr>, set_file f (blocks_words cs @ ws) w)) \<and>
    st_name s = f \<and> st_pos s = length (blocks_words cs) + length ws"
proof -
  have k: "works e f" using g by (simp add: file_gone_def)
  then have ok: "create_ok e f" "write_ok e f" by (simp_all add: works_def)
  consider "cs = []" "file a = None" "fileName a = None" "bytesToFile a = 0" "named f a"
    | s where "file a = Some s" "st_name s = f" "file_final f w cs"
      "st_pos s = length (blocks_words cs) \<and> bytesToFile a = 0 \<or> st_pos s = length (blocks_words cs) + 8 \<and> 1 \<le> unat (bytesToFile a)"
    using g unfolding file_gone_def by metis
  then show ?thesis
  proof cases
    case 1
    let ?s = "\<lparr>st_name = f, st_pos = 0, st_eof = False, st_err = False\<rparr>"
    let ?a = "a\<lparr>splitNumber := splitNumber a + 1, fileName := Some f, file := Some ?s\<rparr>"
    have same: "a\<lparr>file := map_option clearerr (file a)\<rparr> = a" using 1(2) by (cases a) simp
    have fo: "flush_open e (a\<lparr>file := map_option clearerr (file a)\<rparr>) w = Some (S_SUCCESS, (?a, set_file f [] w))"
      unfolding same using 1 plain_name [OF 1(5) k, of "splitNumber a + 1" "sint (splitNumber a)"] ok
      by (simp add: flush_open_def fopen_write_def named_def)
    moreover have "buffered ?a (bytesToBuf a) = Some ws" using b(1) m by (simp add: buffered_def mem_def mode_defs)
    ultimately show ?thesis
      using ok b(2) 1(1)
      by (intro exI [of _ "?s\<lparr>st_pos := length ws\<rparr>"] exI [of _ "Some f"] exI [of _ "splitNumber a + 1"])
        (simp add: flush_file_def fwrite_def Let_def contents_def set_file_def splice_def)
  next
    case (2 s)
    let ?s = "s\<lparr>st_pos := length (blocks_words cs), st_eof := False, st_err := False\<rparr>"
    have s1: "clearerr s = ?s" if "bytesToFile a < 1"
      using 2(4) that by (cases s) (auto simp: clearerr_def)
    have s2: "fseek_cur (- 8) (clearerr s) = Some ?s" if "\<not> bytesToFile a < 1"
      using 2(4) that by (auto simp: fseek_cur_def clearerr_def)
    have fo: "flush_open e (a\<lparr>file := Some (clearerr s)\<rparr>) w = Some (S_SUCCESS, (a\<lparr>file := Some ?s\<rparr>, w))"
      using s1 s2 by (cases "bytesToFile a < 1") (simp_all add: flush_open_def)
    have "splice (length (blocks_words cs)) ws (blocks_words cs @ last_block (of_nat (length cs) + 1)) = blocks_words cs @ ws"
      using splice_over_last [of "last_block (of_nat (length cs) + 1)" ws "blocks_words cs"] b(3) by simp
    moreover have "buffered (a\<lparr>file := Some ?s\<rparr>) (bytesToBuf a) = Some ws"
      using b(1) m by (simp add: buffered_def mem_def mode_defs)
    moreover have "a\<lparr>file := Some y, fileName := fileName a, splitNumber := splitNumber a\<rparr> = a\<lparr>file := Some y\<rparr>" for y
      by (cases a) simp
    ultimately show ?thesis
      using ok b(2) 2(1-3)
      by (intro exI [of _ "?s\<lparr>st_pos := length (blocks_words cs) + length ws\<rparr>"] exI [of _ "fileName a"] exI [of _ "splitNumber a"])
        (simp add: flush_file_def fo fwrite_def Let_def contents_def set_file_def file_final_def file_words_def)
  qed
qed

lemma evFlush_over:
  assumes m: "rw a = EV_WRITEFILE" "\<not> eventsToBuf a < 1" and g: "file_gone e f a w cs"
    and b: "buffered a (bytesToBuf a) = Some ws" "unat (bytesToBuf a) = 4 * length ws" "8 \<le> length ws"
    and d: "blocks_words cs @ ws = file_words ds (of_nat (length ds) + 1)"
      "8 + length (blocks_words cs) \<le> length (blocks_words ds) \<and> length (blocks_words ds) < 2 ^ 60 \<or> bytesToFile a = 0 \<and> length ws = 8"
  shows "\<exists>a' w'. evFlush e a w = Some (S_SUCCESS, (a', w')) \<and> flushed a a' \<and> file_gone e f a' w' ds \<and> file_quiet f w w'"
proof -
  obtain s g n where ff: "flush_file e a w = Some (S_SUCCESS, (int (unat (bytesToBuf a)), bytesToBuf a,
      a\<lparr>file := Some s, fileName := g, splitNumber := n\<rparr>, set_file f (blocks_words cs @ ws) w))"
    and s: "st_name s = f" "st_pos s = length (blocks_words cs) + length ws"
    using flush_file_over [OF m(1) g b] by blast
  let ?w = "set_file f (blocks_words cs @ ws) w"
  let ?a = "a\<lparr>file := Some s, fileName := g, splitNumber := n,
      bytesToFile := bytesToFile a + ucast (bytesToBuf a), eventsToFile := eventsToFile a + eventsToBuf a\<rparr>"
  have "evFlush e a w = Some (S_SUCCESS, (?a, ?w))" using m ff by (simp add: evFlush_def mode_defs)
  moreover have "flushed a ?a" by (cases a) (simp add: flushed_def)
  moreover have "file_gone e f ?a ?w ds"
  proof -
    have l: "length (blocks_words cs) + length ws = length (blocks_words ds) + 8"
      using arg_cong [OF d(1), of length] by (simp add: file_words_def)
    have u: "unat (ucast (bytesToBuf a) :: u64) = 4 * length ws" using b(2) by (simp add: unat_ucast_64)
    have c: "unat (bytesToFile a) \<le> 8 * length (blocks_words cs) + 64" using g by (auto simp: file_gone_def)
    have le: "unat (bytesToFile a) + 4 * length ws \<le> 8 * length (blocks_words ds) + 64"
      using d(2) c l by auto
    have "unat (bytesToFile a) + 4 * length ws < 2 ^ 64" using d(2) le by auto
    then have "unat (bytesToFile a + ucast (bytesToBuf a)) = unat (bytesToFile a) + 4 * length ws"
      using u by (simp add: unat_word_ariths)
    then show ?thesis using g le l s d(1) b(3) by (simp add: file_gone_def file_final_def set_file_def)
  qed
  ultimately show ?thesis using file_quiet_set by blast
qed

section \<open>A file is a destination of blocks\<close>

interpretation file_sink: block_sink e EV_WRITEFILE "file_start e f" "file_gone e f" "file_final f" "fclose_status e" "file_quiet f"
  for e f
proof
  fix a w cs n
  assume "file_gone e f a w cs"
  then show "malloc_ok e n" by (simp add: file_gone_def works_def)
next
  fix a w cs
  assume "file_start e f a w cs"
  then show "file_gone e f a w cs" by (simp add: file_start_def)
next
  fix a a' w cs
  assume "same_settings a a'" "same_output a a'" "file_gone e f a w cs"
  then show "file_gone e f a' w cs"
    by (simp add: file_gone_def same_settings_def same_output_def named_def)
next
  fix a bs b w cs
  assume m: "rw a = EV_WRITEFILE" and f: "filled a bs b" "roomy a" and g: "file_gone e f a w cs"
    and n: "b_num b = of_nat (length (cs @ bs @ [b]))" and ev: "list_all event (events_of (bs @ [b]))"
    and sz: "length (blocks_words (cs @ bs @ [b])) < 2 ^ 60"
  have d: "blocks_words cs @ in_buffer bs b = file_words (cs @ bs @ [b]) (of_nat (length (cs @ bs @ [b])) + 1)"
    using n by (simp add: in_buffer_def file_words_def)
  have l: "8 \<le> length (in_buffer bs b)" "8 + length (blocks_words cs) \<le> length (blocks_words (cs @ bs @ [b]))"
    by (simp_all add: in_buffer_def)
  show "\<exists>a' w'. evFlush e a w = Some (S_SUCCESS, (a', w')) \<and> flushed a a' \<and> file_gone e f a' w' (cs @ bs @ [b]) \<and> file_quiet f w w'"
    by (rule evFlush_over [OF m filled_count [OF f ev] g buffered_filled(1,2) [OF f] l(1) d disjI1 [OF conjI [OF l(2) sz]]])
next
  fix a w cs
  assume m: "rw a = EV_WRITEFILE" and c: "clean a" and s: "file_start e f a w cs" and n: "blknum a = 1 + of_nat (length cs)"
  show "\<exists>a' w'. evFlush e a w = Some (S_SUCCESS, (a', w')) \<and> flushed a a' \<and> file_gone e f a' w' cs \<and> file_quiet f w w'"
  proof (cases "eventsToBuf a < 1")
    case True
    have "flushed a a" by (cases a) (simp add: flushed_def)
    then show ?thesis using True s by (simp add: evFlush_def file_start_def file_quiet_def)
  next
    case False
    have d: "blocks_words cs @ last_block (blknum a) = file_words cs (of_nat (length cs) + 1)"
      using n by (simp add: file_words_def add.commute)
    have b: "buffered a (bytesToBuf a) = Some (last_block (blknum a))" "unat (bytesToBuf a) = 4 * length (last_block (blknum a))"
      using c by (auto simp: clean_def buffered_def cut_def)
    have g: "file_gone e f a w cs" "bytesToFile a = 0" using s by (simp_all add: file_start_def)
    show ?thesis by (rule evFlush_over [OF m False g(1) b _ d]) (simp_all add: g(2))
  qed
next
  fix a w cs
  assume "rw a = EV_WRITEFILE" "\<not> randomAccess a" "file_gone e f a w cs" "cs \<noteq> []"
  then show "\<exists>a' w'. close_last e (a, w) = Some (Inr (a', w')) \<and> close_status e a' = fclose_status e \<and> file_final f w' cs \<and> file_quiet f w w'"
    by (auto simp: close_last_def close_status_def file_gone_def file_quiet_def mode_defs)
qed (auto simp: file_quiet_def file_gone_def named_def)

end
