(* ===== verification/EvioWriteStream.thy ===== *)
theory EvioWriteStream
  imports EvioWriteBlocks
begin

text \<open>
  Sockets and pipes as destinations of blocks: a flush sends the blocks without the empty last one, which
  \<^verbatim>\<open>evClose\<close> sends at the end.
\<close>

lemma reset_last:
  assumes "roomy a" "buf a = 0"
  shows "\<exists>a'. resetBuffer a = Some a' \<and> buffered a' (4 * EV_HDSIZ) = Some (last_block (blknum a)) \<and>
    same_settings a a' \<and> same_output a a'"
proof -
  obtain a' where a': "resetBuffer a = Some a'" "clean a'" "blknum a' = blknum a" "buffer_only a a'"
    using reset_clean [OF assms] by blast
  then have "buffered a' (4 * EV_HDSIZ) = Some (last_block (blknum a))"
    by (auto simp: clean_def buffered_def cut_def EV_HDSIZ_def)
  then show ?thesis using a'(1) buffer_only_same(1,2) [OF a'(4)] by blast
qed

section \<open>Sockets\<close>

definition socket_final :: "int \<Rightarrow> bytes \<Rightarrow> world \<Rightarrow> block list \<Rightarrow> bool" where
  "socket_final fd base w bs \<longleftrightarrow> sock_out w fd = base @ bytes_of (file_words bs (of_nat (length bs) + 1))"

text \<open>Behind the bytes \<open>base\<close> sent before, the blocks have been sent over a socket that does not fail.\<close>

definition socket_gone :: "env \<Rightarrow> int \<Rightarrow> bytes \<Rightarrow> EVFILE \<Rightarrow> world \<Rightarrow> block list \<Rightarrow> bool" where
  "socket_gone e fd base a w bs \<longleftrightarrow> (\<forall>n. malloc_ok e n) \<and> sockFd a = fd \<and> keeps_moving (sock_plan w fd) \<and>
     sock_out w fd = base @ bytes_of (blocks_words bs)"

definition socket_start :: "env \<Rightarrow> int \<Rightarrow> bytes \<Rightarrow> EVFILE \<Rightarrow> world \<Rightarrow> block list \<Rightarrow> bool" where
  "socket_start e fd base a w bs \<longleftrightarrow> socket_gone e fd base a w bs \<and> eventsToBuf a = 0"

definition socket_quiet :: "int \<Rightarrow> world \<Rightarrow> world \<Rightarrow> bool" where
  "socket_quiet fd w w' \<longleftrightarrow> files w' = files w \<and> sock_in w' = sock_in w \<and>
     (\<forall>k. k \<noteq> fd \<longrightarrow> sock_out w' k = sock_out w k \<and> sock_plan w' k = sock_plan w k)"

lemma tcpWrite_words:
  assumes "keeps_moving (sock_plan w fd)"
  shows "\<exists>w'. tcpWrite fd (bytes_of ws) w = (int (4 * length ws), w') \<and> sock_out w' fd = sock_out w fd @ bytes_of ws \<and>
    keeps_moving (sock_plan w' fd) \<and> socket_quiet fd w w'"
proof -
  obtain plan' where "write_loop (sock_plan w fd) (bytes_of ws) = (True, 0, bytes_of ws, plan')" "keeps_moving plan'"
    using write_loop_all [OF assms] by blast
  then show ?thesis by (simp add: tcpWrite_def socket_quiet_def)
qed

interpretation socket_sink: block_sink e EV_WRITESOCK "socket_start e fd base" "socket_gone e fd base" "socket_final fd base" S_SUCCESS
  "socket_quiet fd" for e fd base
proof
  fix a bs b w cs
  assume m: "rw a = EV_WRITESOCK" and f: "filled a bs b" "roomy a" and g: "socket_gone e fd base a w cs"
    and ev: "list_all event (events_of (bs @ [b]))"
  note bf = buffered_blocks [OF f]
  obtain w' where w: "tcpWrite fd (bytes_of (blocks_words (bs @ [b]))) w = (int (4 * length (blocks_words (bs @ [b]))), w')"
    "sock_out w' fd = sock_out w fd @ bytes_of (blocks_words (bs @ [b]))" "keeps_moving (sock_plan w' fd)" "socket_quiet fd w w'"
    using tcpWrite_words g unfolding socket_gone_def by blast
  let ?a = "a\<lparr>bytesToFile := bytesToFile a + ucast (bytesToBuf a - 4 * EV_HDSIZ), eventsToFile := eventsToFile a + eventsToBuf a\<rparr>"
  have "sockFd a = fd" using g by (simp add: socket_gone_def)
  then have "flush_socket a w = Some (S_SUCCESS, (int (4 * length (blocks_words (bs @ [b]))), bytesToBuf a - 4 * EV_HDSIZ, a, w'))"
    unfolding flush_socket_def Let_def bf(1) Option.bind_lunit using w(1) by simp
  then have "evFlush e a w = Some (S_SUCCESS, (?a, w'))"
    using m filled_count [OF f ev] bf(2) by (simp add: evFlush_def)
  moreover have "flushed a ?a" by (cases a) (simp add: flushed_def)
  moreover have "socket_gone e fd base ?a w' (cs @ bs @ [b])" using g w(2,3) by (simp add: socket_gone_def)
  ultimately show "\<exists>a' w'. evFlush e a w = Some (S_SUCCESS, (a', w')) \<and> flushed a a' \<and> socket_gone e fd base a' w' (cs @ bs @ [b]) \<and> socket_quiet fd w w'"
    using w(4) by blast
next
  fix a w cs
  assume s: "socket_start e fd base a w cs"
  have "flushed a a" by (cases a) (simp add: flushed_def)
  then show "\<exists>a' w'. evFlush e a w = Some (S_SUCCESS, (a', w')) \<and> flushed a a' \<and> socket_gone e fd base a' w' cs \<and> socket_quiet fd w w'"
    using s by (simp add: evFlush_def socket_start_def socket_quiet_def)
next
  fix a w cs
  assume m: "rw a = EV_WRITESOCK" and r: "roomy a" "buf a = 0" and g: "socket_gone e fd base a w cs" and n: "blknum a = 1 + of_nat (length cs)"
  obtain a' where a': "resetBuffer a = Some a'" "buffered a' (4 * EV_HDSIZ) = Some (last_block (blknum a))" "same_settings a a'"
    using reset_last [OF r] by blast
  obtain w' where w: "tcpWrite fd (bytes_of (last_block (blknum a))) w = (int (4 * length (last_block (blknum a))), w')"
    "sock_out w' fd = sock_out w fd @ bytes_of (last_block (blknum a))" "socket_quiet fd w w'"
    using tcpWrite_words g unfolding socket_gone_def by blast
  have f: "rw a' = EV_WRITESOCK" "sockFd a' = fd" using a'(3) m g by (simp_all add: same_settings_def socket_gone_def)
  have "close_last e (a, w) = Some (Inr (a', w'))"
    using a'(1,2) f w(1) m by (simp add: close_last_def)
  moreover have "close_status e a' = S_SUCCESS" using f by (simp add: close_status_def mode_defs)
  moreover have "socket_final fd base w' cs"
    using g w(2) n by (simp add: socket_final_def socket_gone_def file_words_def add.commute)
  ultimately show "\<exists>a' w'. close_last e (a, w) = Some (Inr (a', w')) \<and> close_status e a' = S_SUCCESS \<and> socket_final fd base w' cs \<and> socket_quiet fd w w'"
    using w(3) by blast
qed (auto simp: socket_quiet_def socket_gone_def socket_start_def same_settings_def)

section \<open>Pipes\<close>

definition pipe_final :: "string \<Rightarrow> world \<Rightarrow> block list \<Rightarrow> bool" where
  "pipe_final f w bs \<longleftrightarrow> files w f = Some (file_words bs (of_nat (length bs) + 1))"

definition pipe_gone :: "env \<Rightarrow> string \<Rightarrow> EVFILE \<Rightarrow> world \<Rightarrow> block list \<Rightarrow> bool" where
  "pipe_gone e f a w bs \<longleftrightarrow> (\<forall>n. malloc_ok e n) \<and> write_ok e f \<and>
     (\<exists>s. file a = Some s \<and> st_name s = f \<and> \<not> st_err s \<and> st_pos s = length (blocks_words bs) \<and> files w f = Some (blocks_words bs))"

definition pipe_start :: "env \<Rightarrow> string \<Rightarrow> EVFILE \<Rightarrow> world \<Rightarrow> block list \<Rightarrow> bool" where
  "pipe_start e f a w bs \<longleftrightarrow> pipe_gone e f a w bs \<and> eventsToBuf a = 0"

definition pipe_quiet :: "string \<Rightarrow> world \<Rightarrow> world \<Rightarrow> bool" where
  "pipe_quiet f w w' \<longleftrightarrow> (\<exists>c. w' = set_file f c w \<or> w' = w)"

lemma fwrite_pipe:
  assumes "write_ok e f" "st_name s = f" "st_pos s = length c" "files w f = Some c"
  shows "fwrite e ws s w = (length ws, s\<lparr>st_pos := length (c @ ws)\<rparr>, set_file f (c @ ws) w)"
  using assms by (simp add: fwrite_def contents_def splice_def)

interpretation pipe_sink: block_sink e EV_WRITEPIPE "pipe_start e f" "pipe_gone e f" "pipe_final f"
  "if fclose_status e < 0 then S_FAILURE else S_SUCCESS" "pipe_quiet f" for e f
proof
  fix w w' w''
  assume "pipe_quiet f w w'" "pipe_quiet f w' w''"
  then show "pipe_quiet f w w''" by (auto simp: pipe_quiet_def set_file_def)
next
  fix a bs b w cs
  assume m: "rw a = EV_WRITEPIPE" and f: "filled a bs b" "roomy a" and g: "pipe_gone e f a w cs"
    and ev: "list_all event (events_of (bs @ [b]))"
  note bf = buffered_blocks [OF f]
  obtain s where s: "file a = Some s" "st_name s = f" "\<not> st_err s" "st_pos s = length (blocks_words cs)" "files w f = Some (blocks_words cs)"
    "write_ok e f" using g by (auto simp: pipe_gone_def)
  let ?ws = "blocks_words (bs @ [b])"
  let ?s = "s\<lparr>st_pos := length (blocks_words cs @ ?ws)\<rparr>" and ?w = "set_file f (blocks_words cs @ ?ws) w"
  let ?a = "a\<lparr>file := Some ?s, bytesToFile := bytesToFile a + ucast (bytesToBuf a - 4 * EV_HDSIZ), eventsToFile := eventsToFile a + eventsToBuf a\<rparr>"
  have "flush_pipe e a w = Some (S_SUCCESS, (4 * int (length ?ws), bytesToBuf a - 4 * EV_HDSIZ, a\<lparr>file := Some ?s\<rparr>, ?w))"
    unfolding flush_pipe_def Let_def bf(1) Option.bind_lunit s(1) fwrite_pipe [OF s(6,2,4,5)] using s(3) by simp
  then have "evFlush e a w = Some (S_SUCCESS, (?a, ?w))"
    using m filled_count [OF f ev] bf(2) by (simp add: evFlush_def mode_defs)
  moreover have "flushed a ?a" by (cases a) (simp add: flushed_def)
  moreover have "pipe_gone e f ?a ?w (cs @ bs @ [b])" using g s by (simp add: pipe_gone_def set_file_def)
  ultimately show "\<exists>a' w'. evFlush e a w = Some (S_SUCCESS, (a', w')) \<and> flushed a a' \<and> pipe_gone e f a' w' (cs @ bs @ [b]) \<and> pipe_quiet f w w'"
    by (auto simp: pipe_quiet_def)
next
  fix a w cs
  assume s: "pipe_start e f a w cs"
  have "flushed a a" by (cases a) (simp add: flushed_def)
  then show "\<exists>a' w'. evFlush e a w = Some (S_SUCCESS, (a', w')) \<and> flushed a a' \<and> pipe_gone e f a' w' cs \<and> pipe_quiet f w w'"
    using s by (simp add: evFlush_def pipe_start_def pipe_quiet_def)
next
  fix a w cs
  assume m: "rw a = EV_WRITEPIPE" and r: "roomy a" "buf a = 0" and g: "pipe_gone e f a w cs" and n: "blknum a = 1 + of_nat (length cs)"
  obtain a' where a': "resetBuffer a = Some a'" "buffered a' (4 * EV_HDSIZ) = Some (last_block (blknum a))" "same_settings a a'" "same_output a a'"
    using reset_last [OF r] by blast
  have "pipe_gone e f a' w cs" using g a'(4) by (simp add: pipe_gone_def same_output_def)
  then obtain s where s: "file a' = Some s" "st_name s = f" "st_pos s = length (blocks_words cs)" "files w f = Some (blocks_words cs)"
    "write_ok e f" by (auto simp: pipe_gone_def)
  have rw: "rw a' = EV_WRITEPIPE" using a'(3) m by (simp add: same_settings_def)
  let ?a = "a'\<lparr>file := Some (s\<lparr>st_pos := length (blocks_words cs @ last_block (blknum a))\<rparr>)\<rparr>"
  let ?w = "set_file f (blocks_words cs @ last_block (blknum a)) w"
  have "close_last e (a, w) = Some (Inr (?a, ?w))"
    using a'(1,2) rw s(1) m fwrite_pipe [OF s(5,2-4)] by (simp add: close_last_def mode_defs)
  moreover have "close_status e ?a = (if fclose_status e < 0 then S_FAILURE else S_SUCCESS)"
    using rw by (simp add: close_status_def mode_defs)
  moreover have "pipe_final f ?w cs" using n by (simp add: pipe_final_def set_file_def file_words_def add.commute)
  ultimately show "\<exists>a' w'. close_last e (a, w) = Some (Inr (a', w')) \<and> close_status e a' = (if fclose_status e < 0 then S_FAILURE else S_SUCCESS) \<and>
      pipe_final f w' cs \<and> pipe_quiet f w w'"
    by (auto simp: pipe_quiet_def)
qed (auto simp: pipe_quiet_def pipe_gone_def pipe_start_def same_output_def)

end
