(* ===== verification/EvioReadBlocks.thy ===== *)
theory EvioReadBlocks
  imports EvioRead EvioBlocks
begin

text \<open>
  Reading version 4 blocks from any source; what follows the last block does not matter. The locale \<open>word_source\<close> is what \<^verbatim>\<open>evGetNewBuffer\<close> relies on: a
  source that delivers the next words into the block buffer. Files, buffers and sockets are its instances.
  Inside it, the events of well-formed blocks are delivered one by one, in either byte order, until the
  empty last block.
\<close>

section \<open>Blocks in either byte order\<close>

definition in_order :: "bool \<Rightarrow> words \<Rightarrow> words" where
  "in_order sw hdr = (if sw then map EVIO_SWAP32 hdr else hdr)"

definition raw_block :: "bool \<Rightarrow> block \<Rightarrow> words" where
  "raw_block sw b =
     in_order sw (block_header (of_nat (8 + length (body b))) (b_num b) (event_count b) (b_dict b) False) @ body b"

definition raw_file :: "bool \<Rightarrow> block list \<Rightarrow> u32 \<Rightarrow> words" where
  "raw_file sw bs n = concat (map (raw_block sw) bs) @ in_order sw (last_block n)"

text \<open>An event as the file has it, and as the reader gets it.\<close>

definition stored :: "bool \<Rightarrow> words \<Rightarrow> words \<Rightarrow> bool" where
  "stored sw raw ev \<longleftrightarrow> event ev \<and>
     (if sw then \<exists>n. wf_node Bank n \<and> raw = enc True Bank n \<and> ev = enc False Bank n else raw = ev)"

lemma length_in_order [simp]: "length (in_order sw xs) = length xs"
  by (simp add: in_order_def)

lemma raw_file_host: "raw_file False bs n = file_words bs n"
  by (simp add: raw_file_def file_words_def blocks_words_def block_words_def [abs_def] raw_block_def [abs_def] in_order_def)

lemma stored_length: "stored sw raw ev \<Longrightarrow> length raw = length ev"
  by (auto simp: stored_def length_enc [of True] split: if_splits)

section \<open>The source of the words\<close>

text \<open>The structure after a read: only the memory and the position of the source change.\<close>

definition advance :: "EVFILE \<Rightarrow> words \<Rightarrow> stream option \<Rightarrow> u32 \<Rightarrow> EVFILE" where
  "advance a m f i = a\<lparr>bufmem := m, file := f, rwBytesIn := i\<rparr>"

lemma advance_fields [simp]:
  "bufmem (advance a m f i) = m" "file (advance a m f i) = f" "rwBytesIn (advance a m f i) = i"
  "rw (advance a m f i) = rw a" "byte_swapped (advance a m f i) = byte_swapped a" "version (advance a m f i) = version a"
  "buf (advance a m f i) = buf a" "bufSize (advance a m f i) = bufSize a" "blksiz (advance a m f i) = blksiz a"
  "blknum (advance a m f i) = blknum a" "blkNumDiff (advance a m f i) = blkNumDiff a"
  "isLastBlock (advance a m f i) = isLastBlock a" "rwBuf (advance a m f i) = rwBuf a" "rwBufSize (advance a m f i) = rwBufSize a"
  "sockFd (advance a m f i) = sockFd a" "randomAccess (advance a m f i) = randomAccess a" "next (advance a m f i) = next a"
  "left (advance a m f i) = left a" "dictionary (advance a m f i) = dictionary a"
  by (simp_all add: advance_def)

lemma advance_advance [simp]: "advance (advance a m f i) m' f' i' = advance a m' f' i'"
  by (simp add: advance_def)

lemma advance_mem:
  "a\<lparr>bufmem := m\<rparr> = advance a m (file a) (rwBytesIn a)" "a\<lparr>bufmem := m, file := f\<rparr> = advance a m f (rwBytesIn a)"
  "a\<lparr>bufmem := m, rwBytesIn := i\<rparr> = advance a m (file a) i" "advance a (bufmem a) (file a) (rwBytesIn a) = a"
  by (cases a, simp add: advance_def)+

definition same_source :: "EVFILE \<Rightarrow> EVFILE \<Rightarrow> bool" where
  "same_source a b \<longleftrightarrow> rw b = rw a \<and> file b = file a \<and> rwBuf b = rwBuf a \<and> rwBufSize b = rwBufSize a \<and>
     rwBytesIn b = rwBytesIn a \<and> sockFd b = sockFd a"

locale word_source =
  fixes e :: env and holds :: "EVFILE \<Rightarrow> world \<Rightarrow> words \<Rightarrow> bool"
  assumes fetch_words: "\<lbrakk>holds a w (xs @ ys); off + length xs \<le> length (bufmem a); length xs < 2 ^ 29\<rbrakk> \<Longrightarrow>
      \<exists>f i w'. fetch_all e off (of_nat (4 * length xs)) a w = Some (Inr (advance a (ov off xs (bufmem a)) f i, w')) \<and>
        holds (advance a (ov off xs (bufmem a)) f i) w' ys"
    and same_holds: "same_source a b \<Longrightarrow> holds a w zs \<Longrightarrow> holds b w zs"
    and readable: "holds a w zs \<Longrightarrow> rw a \<in> {EV_READFILE, EV_READSOCK, EV_READBUF}"
    and no_eof: "holds a w zs \<Longrightarrow> rw a = EV_READFILE \<Longrightarrow> \<exists>s. file a = Some s \<and> \<not> st_eof s \<and> \<not> st_err s"

section \<open>Three sources\<close>

definition file_holds :: "env \<Rightarrow> EVFILE \<Rightarrow> world \<Rightarrow> words \<Rightarrow> bool" where
  "file_holds e a w zs \<longleftrightarrow> rw a = EV_READFILE \<and>
     (case file a of None \<Rightarrow> False
      | Some s \<Rightarrow> read_ok e (st_name s) \<and> \<not> st_eof s \<and> \<not> st_err s \<and> (\<exists>more. drop (st_pos s) (contents w (st_name s)) = zs @ more))"

definition buffer_holds :: "EVFILE \<Rightarrow> world \<Rightarrow> words \<Rightarrow> bool" where
  "buffer_holds a w zs \<longleftrightarrow> rw a = EV_READBUF \<and> unat (rwBytesIn a) mod 4 = 0 \<and> unat (rwBufSize a) = 4 * length (rwBuf a) \<and>
     unat (rwBytesIn a) \<le> unat (rwBufSize a) \<and> (\<exists>more. drop (unat (rwBytesIn a) div 4) (rwBuf a) = zs @ more)"

definition socket_holds :: "EVFILE \<Rightarrow> world \<Rightarrow> words \<Rightarrow> bool" where
  "socket_holds a w zs \<longleftrightarrow> rw a = EV_READSOCK \<and> (\<exists>more. sock_in w (sockFd a) = bytes_of zs @ more) \<and> keeps_moving (sock_plan w (sockFd a))"

lemma bytes_count: "n < 2 ^ 29 \<Longrightarrow> unat (of_nat (4 * n) :: u32) = 4 * n"
  by (rule unat_of_nat_32) simp

interpretation from_file: word_source e "file_holds e" for e
proof
  fix a w xs ys off
  assume h: "file_holds e a w (xs @ ys)" and l: "off + length xs \<le> length (bufmem a)" and n: "length xs < 2 ^ 29"
  obtain s more where s: "rw a = EV_READFILE" "file a = Some s" "read_ok e (st_name s)" "\<not> st_eof s" "\<not> st_err s"
    "drop (st_pos s) (contents w (st_name s)) = xs @ ys @ more"
    using h by (auto simp: file_holds_def split: option.splits)
  let ?s = "s\<lparr>st_pos := st_pos s + length xs\<rparr>"
  have m: "mem a = bufmem a" "set_mem m a = a\<lparr>bufmem := m\<rparr>" for m using s(1) by (simp_all add: mem_def set_mem_def mode_defs)
  have "fread e (length xs) s w = (xs, ?s)"
    using s(3-6) by (cases s) (simp add: fread_def)
  then have "fetch_all e off (of_nat (4 * length xs)) a w = Some (Inr (advance a (ov off xs (bufmem a)) (Some ?s) (rwBytesIn a), w))"
    using s l paste_ov [OF l]
    by (simp add: fetch_all_def fetch_def bytes_count [OF n] m advance_mem(2) del: of_nat_mult)
  moreover have "drop (st_pos s + length xs) (contents w (st_name s)) = ys @ more"
    using arg_cong [OF s(6), of "drop (length xs)"] by (simp add: add.commute)
  ultimately show "\<exists>f i w'. fetch_all e off (of_nat (4 * length xs)) a w = Some (Inr (advance a (ov off xs (bufmem a)) f i, w')) \<and>
        file_holds e (advance a (ov off xs (bufmem a)) f i) w' ys"
    using s by (intro exI [of _ "Some ?s"] exI [of _ "rwBytesIn a"] exI [of _ w]) (simp add: file_holds_def)
qed (auto simp: file_holds_def same_source_def split: option.splits)

interpretation from_buffer: word_source e buffer_holds for e
proof
  fix a w xs ys off
  assume h: "buffer_holds a w (xs @ ys)" and l: "off + length xs \<le> length (bufmem a)" and n: "length xs < 2 ^ 29"
  obtain more where s: "rw a = EV_READBUF" "unat (rwBytesIn a) mod 4 = 0" "unat (rwBufSize a) = 4 * length (rwBuf a)"
    "unat (rwBytesIn a) \<le> unat (rwBufSize a)" "drop (unat (rwBytesIn a) div 4) (rwBuf a) = xs @ ys @ more"
    using h by (auto simp: buffer_holds_def)
  define k where "k = unat (rwBytesIn a) div 4"
  have k: "unat (rwBytesIn a) = 4 * k" using s(2) unfolding k_def by presburger
  have kl: "k + length xs \<le> length (rwBuf a)"
    using arg_cong [OF s(5), of length] s(3,4) k by (simp add: k_def [symmetric])
  have m: "mem a = bufmem a" "set_mem m a = a\<lparr>bufmem := m\<rparr>" for m using s(1) by (simp_all add: mem_def set_mem_def mode_defs)
  have modes: "EV_READBUF \<noteq> EV_READFILE" "EV_READBUF \<noteq> EV_READSOCK" "EV_READBUF \<noteq> EV_READPIPE" by (simp_all add: mode_defs)
  have c: "cut (rwBuf a) k (length xs) = Some xs"
    using s(5) kl by (simp add: k_def [symmetric] cut_def)
  have bi: "unat (rwBytesIn a + of_nat (4 * length xs)) = 4 * (k + length xs)"
  proof -
    have "unat (rwBufSize a) < 2 ^ LENGTH(32)" by (rule unsigned_less)
    then have "4 * (k + length xs) < 2 ^ 32" using s(3) kl by simp
    then show ?thesis using k bytes_count [OF n] by (simp add: unat_word_ariths del: of_nat_mult)
  qed
  let ?a = "advance a (ov off xs (bufmem a)) (file a) (rwBytesIn a + of_nat (4 * length xs))"
  have "fetch_all e off (of_nat (4 * length xs)) a w = Some (Inr (?a, w))"
    using s l paste_ov [OF l] kl k c
    by (simp add: fetch_all_def fetch_def bytes_count [OF n] m modes advance_mem(3) del: of_nat_mult)
  moreover have "drop (k + length xs) (rwBuf a) = ys @ more"
    using arg_cong [OF s(5), of "drop (length xs)"] by (simp add: k_def [symmetric] add.commute)
  ultimately show "\<exists>f i w'. fetch_all e off (of_nat (4 * length xs)) a w = Some (Inr (advance a (ov off xs (bufmem a)) f i, w')) \<and>
        buffer_holds (advance a (ov off xs (bufmem a)) f i) w' ys"
    using s(1,3) bi kl
    by (intro exI [of _ "file a"] exI [of _ "rwBytesIn a + of_nat (4 * length xs)"] exI [of _ w]) (simp add: buffer_holds_def)
qed (auto simp: buffer_holds_def same_source_def mode_defs)

lemma put_bytes_ov:
  assumes "off + length xs \<le> length m"
  shows "put_bytes off (bytes_of xs) m = Some (ov off xs m)"
proof -
  let ?A = "take off m" and ?M = "take (length xs) (drop off m)" and ?B = "drop (off + length xs) m"
  have m: "m = ?A @ ?M @ ?B" by (metis append_take_drop_id drop_drop add.commute)
  have "paste (bytes_of (?A @ ?M @ ?B)) (4 * off) (bytes_of xs) = Some (bytes_of (?A @ xs @ ?B))"
    using paste_at [of "bytes_of ?M" "bytes_of xs" "bytes_of ?A" "bytes_of ?B"] assms by simp
  moreover have "?A @ xs @ ?B = ov off xs m"
    using paste_ov [OF assms] assms by (cases "xs = []") (simp_all add: paste_def)
  ultimately show ?thesis using m by (simp add: put_bytes_def)
qed

interpretation from_socket: word_source e socket_holds for e
proof
  fix a w xs ys off
  assume h: "socket_holds a w (xs @ ys)" and l: "off + length xs \<le> length (bufmem a)" and n: "length xs < 2 ^ 29"
  obtain more where s: "rw a = EV_READSOCK" "sock_in w (sockFd a) = bytes_of xs @ bytes_of ys @ more" "keeps_moving (sock_plan w (sockFd a))"
    using h by (auto simp: socket_holds_def)
  have m: "mem a = bufmem a" "set_mem m a = a\<lparr>bufmem := m\<rparr>" for m using s(1) by (simp_all add: mem_def set_mem_def mode_defs)
  have modes: "EV_READSOCK \<noteq> EV_READFILE" by (simp add: mode_defs)
  have pos: "sint (of_nat (4 * length xs) :: u32) = 4 * int (length xs)"
    using n by (simp add: signed_of_nat signed_take_bit_int_eq_self del: of_nat_mult)
  have "\<exists>w'. (if sint (of_nat (4 * length xs) :: u32) \<le> 0 then (0, [], w) else tcpRead (sockFd a) (4 * length xs) w) =
      (4 * int (length xs), bytes_of xs, w') \<and> sock_in w' (sockFd a) = bytes_of ys @ more \<and> keeps_moving (sock_plan w' (sockFd a))"
  proof (cases "xs = []")
    case False
    obtain plan' where "read_loop (sock_plan w (sockFd a)) (4 * length xs) (bytes_of xs @ bytes_of ys @ more) =
      (True, bytes_of xs, bytes_of ys @ more, plan')" "keeps_moving plan'"
      using read_loop_all [OF s(3), of "4 * length xs" "bytes_of xs @ bytes_of ys @ more"] by auto
    then show ?thesis using False s(2) unfolding pos by (simp add: tcpRead_def)
  qed (use s in simp)
  then obtain w' where t: "(if sint (of_nat (4 * length xs) :: u32) \<le> 0 then (0, [], w) else tcpRead (sockFd a) (4 * length xs) w) =
      (4 * int (length xs), bytes_of xs, w')" "sock_in w' (sockFd a) = bytes_of ys @ more" "keeps_moving (sock_plan w' (sockFd a))"
    by blast
  let ?a = "advance a (ov off xs (bufmem a)) (file a) (rwBytesIn a)"
  have "fetch_all e off (of_nat (4 * length xs)) a w = Some (Inr (?a, w'))"
    using s(1) t(1) put_bytes_ov [OF l]
    by (cases "sint (of_nat (4 * length xs) :: u32) \<le> 0")
      (auto simp: fetch_all_def fetch_def bytes_count [OF n] m modes advance_mem(1) simp del: of_nat_mult)
  then show "\<exists>f i w'. fetch_all e off (of_nat (4 * length xs)) a w = Some (Inr (advance a (ov off xs (bufmem a)) f i, w')) \<and>
        socket_holds (advance a (ov off xs (bufmem a)) f i) w' ys"
    using s(1) t(2,3) by (intro exI [of _ "file a"] exI [of _ "rwBytesIn a"] exI [of _ w']) (simp add: socket_holds_def)
qed (auto simp: socket_holds_def same_source_def mode_defs)

section \<open>The next block\<close>

definition block_reader :: "EVFILE \<Rightarrow> bool" where
  "block_reader a \<longleftrightarrow> version a = 4 \<and> buf a = 0 \<and> unat (bufSize a) \<le> length (bufmem a) \<and> 8 \<le> unat (bufSize a)"

lemma in_order_twice [simp]: "map (EVIO_SWAP32 \<circ> EVIO_SWAP32) xs = xs"
  by (induction xs) simp_all

lemma swap_header_in_place:
  assumes "at off (in_order (byte_swapped a) hdr) (bufmem a)" "rw a \<noteq> EV_WRITEBUF"
  shows "swap_buf off (length hdr) a = Some (a\<lparr>bufmem := ov off hdr (bufmem a)\<rparr>)"
proof (cases "byte_swapped a")
  case True
  have "swap_int32_t off (length hdr) \<lparr>sm_src = bufmem a, sm_dst = None\<rparr> =
    Some (put off (map EVIO_SWAP32 (map EVIO_SWAP32 hdr)) \<lparr>sm_src = bufmem a, sm_dst = None\<rparr>)"
    using assms(1) True by (intro swap_int32_t_block) (auto simp: src_has_def in_order_def room_def sm_out_def at_def)
  then show ?thesis
    using True assms(2) by (simp add: swap_buf_def swap_in_place_def put_def sm_out_def set_out_def mem_def set_mem_def)
next
  case False
  then have "ov off hdr (bufmem a) = bufmem a" using assms(1) by (simp add: in_order_def ov_id)
  then show ?thesis using False by (cases a) (simp add: swap_buf_def)
qed

lemma at_start_rd: "at 0 ws m \<Longrightarrow> i < length ws \<Longrightarrow> rd m i = Some (ws ! i)"
  using at_rd [of 0 ws m i] by simp

text \<open>What is left of the current block.\<close>

definition in_block :: "EVFILE \<Rightarrow> words \<Rightarrow> bool" where
  "in_block a data \<longleftrightarrow> at (next a) data (bufmem a) \<and> unat (left a) = length data"

definition same_reader :: "EVFILE \<Rightarrow> EVFILE \<Rightarrow> bool" where
  "same_reader a b \<longleftrightarrow> rw b = rw a \<and> byte_swapped b = byte_swapped a \<and> randomAccess b = randomAccess a \<and> version b = version a"

context word_source begin

lemma get_header:
  assumes h: "holds a w (in_order (byte_swapped a) hdr @ ys)" and l: "length hdr = 8" "hdr ! EV_HD_HDSIZ = 8"
    and b: "block_reader a"
  shows "\<exists>f i w'. read_header e a w = Some (Inr (advance a (ov 0 hdr (bufmem a)) f i, w')) \<and>
    holds (advance a (ov 0 hdr (bufmem a)) f i) w' ys"
proof -
  note rw = readable [OF h]
  have mem: "mem x = bufmem x" if "rw x = rw a" for x using rw that by (auto simp: mem_def mode_defs)
  have ll: "0 + length (in_order (byte_swapped a) hdr) \<le> length (bufmem a)" using b l(1) by (simp add: block_reader_def)
  obtain f i w' where f: "fetch_all e 0 (4 * EV_HDSIZ) a w = Some (Inr (advance a (ov 0 (in_order (byte_swapped a) hdr) (bufmem a)) f i, w'))"
    "holds (advance a (ov 0 (in_order (byte_swapped a) hdr) (bufmem a)) f i) w' ys"
    using fetch_words [OF h ll] l(1) by (auto simp: EV_HDSIZ_def)
  let ?a1 = "advance a (ov 0 (in_order (byte_swapped a) hdr) (bufmem a)) f i"
  let ?a2 = "advance a (ov 0 hdr (bufmem a)) f i"
  have "swap_buf 0 (length hdr) ?a1 = Some (?a1\<lparr>bufmem := ov 0 hdr (bufmem ?a1)\<rparr>)"
    using ll rw by (intro swap_header_in_place) (auto simp: at_ov mode_defs)
  also have "?a1\<lparr>bufmem := ov 0 hdr (bufmem ?a1)\<rparr> = ?a2" by (simp add: advance_def ov_ov_same)
  finally have s: "swap_buf 0 8 ?a1 = Some ?a2" using l(1) by simp
  have "at 0 hdr (bufmem ?a2)" using ll by (simp add: at_ov)
  then have "rd_buf ?a2 EV_HD_HDSIZ = Some 8"
    using at_start_rd [of hdr "bufmem ?a2" EV_HD_HDSIZ] l mem [of ?a2] by (simp add: rd_buf_def EV_HD_HDSIZ_def)
  then have x: "read_extra e (?a2, w') = Some (Inr (?a2, w'))"
    using b by (simp add: read_extra_def block_reader_def EV_HDSIZ_def)
  have c: "(if rw a = EV_READFILE then a\<lparr>file := map_option clearerr (file a)\<rparr> else a) = a"
    using no_eof [OF h] by (auto simp: clearerr_def intro!: EVFILE.equality stream.equality)
  have eof: "\<not> (rw a = EV_READFILE \<and> (case file a of None \<Rightarrow> False | Some s \<Rightarrow> st_eof s))"
    using no_eof [OF h] by auto
  have "read_header e a w = Some (Inr (?a2, w'))"
    using f(1) s x b eof unfolding read_header_def c by (simp add: block_reader_def EV_HDSIZ_def)
  moreover have "holds ?a2 w' ys"
    by (rule same_holds [OF _ f(2)]) (simp add: same_source_def)
  ultimately show ?thesis by blast
qed

lemma get_rest:
  assumes h: "holds a w (data @ ys)" and l: "length hdr = 8" "hdr ! EV_HD_BLKSIZ = of_nat (8 + length data)" "8 + length data < 2 ^ 29"
    and b: "block_reader a" and m: "at 0 hdr (bufmem a)" and memory: "\<And>n. malloc_ok e n"
  shows "\<exists>f i w' mm z. read_rest e 8 (a, w) = Some (Inr (advance (a\<lparr>blksiz := of_nat (8 + length data), bufSize := z\<rparr>) mm f i, w')) \<and>
    holds (advance (a\<lparr>blksiz := of_nat (8 + length data), bufSize := z\<rparr>) mm f i) w' ys \<and> at 0 (hdr @ data) mm \<and>
    unat z \<le> length mm \<and> 8 \<le> unat z"
proof -
  note rw = readable [OF h]
  have mem: "mem x = bufmem x" if "rw x = rw a" for x using rw that by (auto simp: mem_def mode_defs)
  have smem: "set_mem mm x = advance x mm (file x) (rwBytesIn x)" if "rw x = rw a" for mm x
    using rw that by (auto simp: set_mem_def mode_defs advance_mem)
  have bf: "version a = 4" "buf a = 0" "unat (bufSize a) \<le> length (bufmem a)" "8 \<le> unat (bufSize a)"
    using b by (simp_all add: block_reader_def)
  let ?n = "of_nat (8 + length data) :: u32"
  have un: "unat ?n = 8 + length data" using l(3) by (intro unat_of_nat_32) simp
  have un4: "unat (4 * ?n) = 4 * (8 + length data)" using bytes_count [OF l(3)] by simp
  have rb: "rd_buf a (buf a + EV_HD_BLKSIZ) = Some ?n"
    using at_start_rd [OF m, of EV_HD_BLKSIZ] l(1,2) mem [of a] bf(2) by (simp add: rd_buf_def EV_HD_BLKSIZ_def)
  let ?a0 = "a\<lparr>blksiz := ?n\<rparr>"
  have "\<exists>mm z. grow_buf e 8 ?a0 = Some (S_SUCCESS, advance (a\<lparr>blksiz := ?n, bufSize := z\<rparr>) mm (file a) (rwBytesIn a)) \<and>
      at 0 hdr mm \<and> unat z \<le> length mm \<and> 8 + length data \<le> unat z"
  proof (cases "bufSize a < ?n")
    case True
    have "cut (bufmem a) 0 8 = Some hdr" using at_cut [OF m] l(1) by simp
    moreover have "paste (fresh e (8 + length data)) 0 hdr = Some (ov 0 hdr (fresh e (8 + length data)))"
      using l(1) by (intro paste_ov) (simp add: fresh_def)
    moreover have "a\<lparr>blksiz := ?n, bufSize := ?n, buf := 0\<rparr> = a\<lparr>blksiz := ?n, bufSize := ?n\<rparr>" using bf(2) by (cases a) simp
    ultimately have "grow_buf e 8 ?a0 = Some (S_SUCCESS, advance (a\<lparr>blksiz := ?n, bufSize := ?n\<rparr>) (ov 0 hdr (fresh e (8 + length data))) (file a) (rwBytesIn a))"
      using True memory bf(2) mem un4 smem [of ?a0] by (simp add: grow_buf_def advance_def)
    then show ?thesis using un l(1) by (intro exI) (auto simp: at_ov fresh_def)
  next
    case False
    have "?a0 = advance (a\<lparr>blksiz := ?n, bufSize := bufSize a\<rparr>) (bufmem a) (file a) (rwBytesIn a)"
      by (cases a) (simp add: advance_def)
    then show ?thesis using False bf m un
      by (intro exI [of _ "bufmem a"] exI [of _ "bufSize a"]) (simp add: grow_buf_def word_less_nat_alt)
  qed
  then obtain mm z where g: "grow_buf e 8 ?a0 = Some (S_SUCCESS, advance (a\<lparr>blksiz := ?n, bufSize := z\<rparr>) mm (file a) (rwBytesIn a))"
    "at 0 hdr mm" "unat z \<le> length mm" "8 + length data \<le> unat z" by blast
  let ?a1 = "advance (a\<lparr>blksiz := ?n, bufSize := z\<rparr>) mm (file a) (rwBytesIn a)"
  have "holds ?a1 w (data @ ys)" by (rule same_holds [OF _ h]) (simp add: same_source_def)
  moreover have "8 + length data \<le> length (bufmem ?a1)" "length data < 2 ^ 29" using g(3,4) l(3) by simp_all
  ultimately obtain f i w' where f: "fetch_all e 8 (of_nat (4 * length data)) ?a1 w = Some (Inr (advance ?a1 (ov 8 data mm) f i, w'))"
    "holds (advance ?a1 (ov 8 data mm) f i) w' ys"
    using fetch_words [of ?a1 w data ys 8] by auto
  have np: "rw a \<noteq> EV_READPIPE" using rw by (auto simp: mode_defs)
  have d4: "4 * (?n - 8) = of_nat (4 * length data)" by simp
  have "read_rest e 8 (a, w) = Some (Inr (advance ?a1 (ov 8 data mm) f i, w'))"
    using rb g(1) f(1) np bf(2)
    by (simp add: read_rest_def Let_def d4 del: of_nat_mult of_nat_add right_diff_distrib_numeral)
  moreover have "at 0 (hdr @ data) (ov 8 data mm)"
    using g l(1) by (simp add: at_append at_ov_after at_ov)
  ultimately show ?thesis using f(2) g(3,4) by (intro exI [of _ f] exI [of _ i] exI [of _ w'] exI [of _ "ov 8 data mm"] exI [of _ z]) simp
qed

lemma get_block:
  assumes h: "holds a w (in_order (byte_swapped a) hdr @ data @ ys)"
    and hdr: "hdr = block_header (of_nat (8 + length data)) num cnt d lst" and sz: "8 + length data < 2 ^ 29"
    and b: "block_reader a" and nl: "\<not> isLastBlock a" and memory: "\<And>n. malloc_ok e n"
  shows "\<exists>a' w'. evGetNewBuffer e a w =
      Some (if data = [] then (if lst then c_EOF else S_EVFILE_UNXPTDEOF) else S_SUCCESS, a', w') \<and>
    holds a' w' ys \<and> in_block a' data \<and> isLastBlock a' = lst \<and> same_reader a a' \<and> block_reader a'"
proof -
  have l: "length hdr = 8" "hdr ! EV_HD_HDSIZ = 8" "hdr ! EV_HD_BLKSIZ = of_nat (8 + length data)" "hdr ! EV_HD_VER = generateSixthWord 4 d lst 0"
    by (simp_all add: hdr block_header_def pos_defs eval_nat_numeral)
  obtain f i w1 where r1: "read_header e a w = Some (Inr (advance a (ov 0 hdr (bufmem a)) f i, w1))"
    "holds (advance a (ov 0 hdr (bufmem a)) f i) w1 (data @ ys)"
    using get_header [OF h l(1,2) b] by blast
  let ?a1 = "advance a (ov 0 hdr (bufmem a)) f i"
  have b1: "block_reader ?a1" "at 0 hdr (bufmem ?a1)" using b l(1) by (simp_all add: block_reader_def at_ov)
  obtain f2 i2 w2 mm z where r2: "read_rest e 8 (?a1, w1) = Some (Inr (advance (?a1\<lparr>blksiz := of_nat (8 + length data), bufSize := z\<rparr>) mm f2 i2, w2))"
    "holds (advance (?a1\<lparr>blksiz := of_nat (8 + length data), bufSize := z\<rparr>) mm f2 i2) w2 ys" "at 0 (hdr @ data) mm" "unat z \<le> length mm" "8 \<le> unat z"
    using get_rest [OF r1(2) l(1,3) sz b1 memory] by blast
  let ?a2 = "advance (?a1\<lparr>blksiz := of_nat (8 + length data), bufSize := z\<rparr>) mm f2 i2"
  have rw: "rw a \<noteq> EV_WRITEBUF" using readable [OF h] by (auto simp: mode_defs)
  have m: "mem ?a1 = bufmem ?a1" "mem ?a2 = mm" using rw by (simp_all add: mem_def)
  have bf: "buf a = 0" "version a = 4" using b by (simp_all add: block_reader_def)
  have hs: "rd_buf ?a1 (buf ?a1 + EV_HD_HDSIZ) = Some 8"
    using at_start_rd [OF b1(2), of EV_HD_HDSIZ] l(1,2) m bf by (simp add: rd_buf_def EV_HD_HDSIZ_def numeral_2_eq_2)
  have at2: "at 0 hdr mm" "at 8 data mm" using r2(3) l(1) by (simp_all add: at_append)
  have rds: "rd mm EV_HD_BLKNUM = Some (hdr ! EV_HD_BLKNUM)" "rd mm EV_HD_VER = Some (generateSixthWord 4 d lst 0)"
    "rd mm EV_HD_USED = Some (hdr ! EV_HD_USED)"
    using at_start_rd [OF at2(1)] l(1,4) by (simp_all add: pos_defs)
  have un: "unat (of_nat (8 + length data) - 8 :: u32) = length data" 
    using sz unat_of_nat_32 [of "length data"] by simp
  have z0: "(of_nat (length data) :: u32) < 1 \<longleftrightarrow> data = []"
    using sz unat_of_nat_32 [of "length data"] by (simp add: word_less_nat_alt)
  have "\<exists>a3. note_block 8 ?a2 = Some (if data = [] then (if lst then c_EOF else S_EVFILE_UNXPTDEOF) else S_SUCCESS, a3) \<and>
      isLastBlock a3 = lst \<and> next a3 = 8 \<and> left a3 = of_nat (length data) \<and> bufmem a3 = mm \<and> same_source ?a2 a3 \<and>
      same_reader a a3 \<and> buf a3 = 0 \<and> bufSize a3 = z"
    using nl z0 m bf rds
    by (cases lst; cases "data = []") (simp_all add: note_block_def rd_buf_def Let_def same_source_def same_reader_def)
  then obtain a3 where nb: "note_block 8 ?a2 = Some (if data = [] then (if lst then c_EOF else S_EVFILE_UNXPTDEOF) else S_SUCCESS, a3)"
    "isLastBlock a3 = lst" "next a3 = 8" "left a3 = of_nat (length data)" "bufmem a3 = mm" "same_source ?a2 a3" "same_reader a a3"
    "buf a3 = 0" "bufSize a3 = z"
    by blast
  have "evGetNewBuffer e a w = Some (if data = [] then (if lst then c_EOF else S_EVFILE_UNXPTDEOF) else S_SUCCESS, a3, w2)"
    using r1(1) hs r2(1) nb(1) nl by (simp add: evGetNewBuffer_def)
  moreover have "holds a3 w2 ys" by (rule same_holds [OF nb(6) r2(2)])
  moreover have "in_block a3 data"
    using at2(2) nb(3-5) sz unat_of_nat_32 [of "length data"] by (simp add: in_block_def)
  moreover have "block_reader a3" using nb(5,7-9) bf r2(4,5) by (simp add: block_reader_def same_reader_def)
  ultimately show ?thesis using nb(2,7) by blast
qed

end

section \<open>The events one by one\<close>

definition block_fits :: "block \<Rightarrow> bool" where
  "block_fits b \<longleftrightarrow> b_events b \<noteq> [] \<and> 8 + length (body b) < 2 ^ 29"

text \<open>
  The reader has \<open>raws\<close> left in the current block and the blocks \<open>bs\<close> to come; or it has seen the last block.
\<close>

definition reader :: "(EVFILE \<Rightarrow> world \<Rightarrow> words \<Rightarrow> bool) \<Rightarrow> EVFILE \<Rightarrow> world \<Rightarrow> bool \<Rightarrow> words list \<Rightarrow> block list \<Rightarrow> u32 \<Rightarrow> bool" where
  "reader holds a w sw raws bs n \<longleftrightarrow> block_reader a \<and> byte_swapped a = sw \<and> \<not> randomAccess a \<and> \<not> isLastBlock a \<and>
     in_block a (concat raws) \<and> list_all block_fits bs \<and> holds a w (raw_file sw bs n)"

definition at_end :: "EVFILE \<Rightarrow> bool" where
  "at_end a \<longleftrightarrow> reading a \<and> version a = 4 \<and> \<not> randomAccess a \<and> isLastBlock a \<and> left a = 0"

lemma raw_file_Cons:
  "raw_file sw (b # bs) n =
     in_order sw (block_header (of_nat (8 + length (body b))) (b_num b) (event_count b) (b_dict b) False) @ body b @ raw_file sw bs n"
  by (simp add: raw_file_def raw_block_def)

lemma stored_first:
  assumes "stored sw raw ev"
  shows "(if sw then EVIO_SWAP32 (raw ! 0) else raw ! 0) + 1 = of_nat (length raw)" "raw \<noteq> []" "length raw < 2 ^ 28"
proof -
  have e: "event ev" and l: "length raw = length ev" using assms stored_length by (auto simp: stored_def)
  then have ne: "ev \<noteq> []" "raw \<noteq> []" "length raw < 2 ^ 28" by (auto simp: event_def)
  then show "raw \<noteq> []" "length raw < 2 ^ 28" by simp_all
  have "(if sw then EVIO_SWAP32 (raw ! 0) else raw ! 0) = ev ! 0"
  proof (cases sw)
    case True
    then obtain n where n: "wf_node Bank n" "raw = enc True Bank n" "ev = enc False Bank n" using assms by (auto simp: stored_def)
    have "EVIO_SWAP32 (enc True Bank n ! 0) = enc False Bank n ! 0"
      by (cases n) (simp_all add: Let_def header_def length_encs [of True _ _ False])
    then show ?thesis using True n by simp
  qed (use assms in \<open>simp add: stored_def\<close>)
  then show "(if sw then EVIO_SWAP32 (raw ! 0) else raw ! 0) + 1 = of_nat (length raw)"
    using e ne(1) l by (simp add: event_def hd_conv_nth)
qed

lemma swap_event_stored:
  assumes "stored True raw ev" "at off raw m"
  shows "swap_event e off m = Some (ov off ev m)"
proof -
  obtain t where t: "wf_node Bank t" "raw = enc True Bank t" "ev = enc False Bank t"
    using assms(1) by (auto simp: stored_def)
  have "off + length raw \<le> length m" using assms(2) by (simp add: at_def)
  then have "evioswap (4 * length m) (stack_bytes e) True off \<lparr>sm_src = m, sm_dst = None\<rparr> =
      Some (put off (enc False Bank t) \<lparr>sm_src = m, sm_dst = None\<rparr>)"
    using evioswap_block [OF t(1), of off True "\<lparr>sm_src = m, sm_dst = None\<rparr>" "4 * length m" "stack_bytes e"] assms(2) t(2)
    by (simp add: src_has_def room_def sm_out_def)
  then show ?thesis using t(3) by (simp add: swap_event_def put_def sm_out_def set_out_def)
qed

lemma read_at_end: "at_end a \<Longrightarrow> evReadAllocImpl e a w = Some (c_EOF, None, a, w)"
  by (simp add: at_end_def evReadAllocImpl_def more_data_def evGetNewBuffer_def status_simps)

lemma ov_full: "length xs = length ys \<Longrightarrow> ov 0 xs ys = xs"
  by (rule nth_equalityI) (simp_all add: ov_nth)

context word_source begin

lemma reader_modes:
  assumes "reader holds a w sw raws bs n"
  shows "reading a" "mem a = bufmem a" "version a = 4"
proof -
  have h: "holds a w (raw_file sw bs n)" using assms by (simp add: reader_def)
  show "reading a" "mem a = bufmem a" "version a = 4"
    using readable [OF h] assms by (auto simp: reading_def mem_def mode_defs reader_def block_reader_def)
qed

lemma next_event_ready:
  assumes r: "reader holds a w sw raws bs n" and st: "list_all2 (stored sw) (raws @ events_of bs) (ev # evs)"
    and memory: "\<And>n. malloc_ok e n"
  shows "\<exists>a' w' raw raws' bs'. more_data e a w = Some (S_SUCCESS, a', w') \<and> reader holds a' w' sw (raw # raws') bs' n \<and>
    stored sw raw ev \<and> list_all2 (stored sw) (raws' @ events_of bs') evs"
proof (cases raws)
  case (Cons raw raws')
  then have "raw \<noteq> []" using st stored_first(2) by auto
  then have "\<not> left a < 1" using r Cons by (cases raw) (auto simp: reader_def in_block_def word_less_nat_alt)
  then show ?thesis using r st Cons by (auto simp: more_data_def)
next
  case Nil
  then have lt: "left a < 1" using r by (simp add: reader_def in_block_def word_less_nat_alt)
  obtain b bs' where bs: "bs = b # bs'" using st Nil by (cases bs) auto
  have bf: "b_events b \<noteq> []" "8 + length (body b) < 2 ^ 29" "list_all block_fits bs'"
    using r bs by (simp_all add: reader_def block_fits_def)
  obtain raw raws' where be: "b_events b = raw # raws'" using bf(1) by (cases "b_events b") auto
  have st': "stored sw raw ev" "list_all2 (stored sw) (raws' @ events_of bs') evs" using st Nil bs be by simp_all
  have ne: "body b \<noteq> []" using stored_first(2) [OF st'(1)] be by (simp add: body_def)
  have h: "holds a w (in_order (byte_swapped a) (block_header (of_nat (8 + length (body b))) (b_num b) (event_count b) (b_dict b) False) @
      body b @ raw_file sw bs' n)"
    using r unfolding reader_def bs raw_file_Cons by simp
  obtain a' w' where g: "evGetNewBuffer e a w = Some (S_SUCCESS, a', w')" "holds a' w' (raw_file sw bs' n)" "in_block a' (body b)"
    "\<not> isLastBlock a'" "same_reader a a'" "block_reader a'"
    using get_block [OF h refl bf(2) _ _ memory] r ne by (auto simp: reader_def)
  have "reader holds a' w' sw (raw # raws') bs' n"
    using g r bf(3) be by (simp add: reader_def same_reader_def body_def)
  then show ?thesis using g(1) lt st' by (auto simp: more_data_def)
qed

lemma no_more_events:
  assumes r: "reader holds a w sw [] [] n" and memory: "\<And>n. malloc_ok e n"
  shows "\<exists>a' w'. more_data e a w = Some (c_EOF, a', w') \<and> at_end a'"
proof -
  have lt: "left a < 1" using r by (simp add: reader_def in_block_def word_less_nat_alt)
  have h: "holds a w (in_order (byte_swapped a) (block_header (of_nat (8 + length ([] :: words))) n 0 False True) @ [] @ [])"
    using r by (simp add: reader_def raw_file_def last_block_def)
  obtain a' w' where g: "evGetNewBuffer e a w = Some (c_EOF, a', w')" "in_block a' []" "isLastBlock a'" "same_reader a a'" "block_reader a'"
    using get_block [OF h refl _ _ _ memory] r by (auto simp: reader_def)
  have "at_end a'"
    using g r reader_modes(1) [OF r] by (simp add: at_end_def in_block_def same_reader_def block_reader_def reader_def reading_def unat_eq_0)
  then show ?thesis using g(1) lt by (auto simp: more_data_def)
qed

text \<open>The event at hand: its length, its words, and the reader behind it.\<close>

lemma take_event:
  assumes r: "reader holds a w sw (raw # raws) bs n" and st: "stored sw raw ev"
  shows "event_length a = Some (of_nat (length raw))" "cut (mem a) (next a) (length raw) = Some raw"
    "gather e (of_nat (length raw)) [] a w =
       Some (S_SUCCESS, raw, a\<lparr>next := next a + length raw, left := left a - of_nat (length raw)\<rparr>, w)"
    "reader holds (a\<lparr>next := next a + length raw, left := left a - of_nat (length raw)\<rparr>) w sw raws bs n"
proof -
  note f = stored_first [OF st]
  note m = reader_modes [OF r]
  have ib: "at (next a) raw (bufmem a)" "at (next a + length raw) (concat raws) (bufmem a)" "unat (left a) = length raw + length (concat raws)"
    using r by (simp_all add: reader_def in_block_def at_append)
  have un: "unat (of_nat (length raw) :: u32) = length raw" using f(3) by (intro unat_of_nat_32) simp
  have "rd (bufmem a) (next a) = Some (raw ! 0)" using at_rd [OF ib(1), of 0] f(2) by simp
  then show "event_length a = Some (of_nat (length raw))"
    using f(1) m(2) r by (cases sw) (auto simp: event_length_def rd_buf_def host_def reader_def)
  show c: "cut (mem a) (next a) (length raw) = Some raw" using at_cut [OF ib(1)] m(2) by simp
  let ?a = "a\<lparr>next := next a + length raw, left := left a - of_nat (length raw)\<rparr>"
  have l: "of_nat (length raw) \<le> left a" using ib(3) un by (simp add: word_le_nat_alt)
  have "unat (left a - of_nat (length raw)) = length (concat raws)" using ib(3) un l by (simp add: unat_sub)
  then have "in_block ?a (concat raws)" using ib(2) by (simp add: in_block_def)
  moreover have "holds ?a w (raw_file sw bs n)" by (rule same_holds [of a]) (use r in \<open>simp_all add: same_source_def reader_def\<close>)
  ultimately show "reader holds ?a w sw raws bs n" using r by (simp add: reader_def block_reader_def)
  have nz: "(of_nat (length raw) :: u32) \<noteq> 0" using un f(2) by (metis length_0_conv unat_0)
  then have md: "more_data e a w = Some (S_SUCCESS, a, w)"
    using ib(3) f(2) by (cases raw) (simp_all add: more_data_def word_less_nat_alt)
  show "gather e (of_nat (length raw)) [] a w = Some (S_SUCCESS, raw, ?a, w)"
    using nz md l c un by (subst gather.simps) (simp add: Let_def gather.simps)
qed

text \<open>\<^verbatim>\<open>evReadAlloc\<close>, \<^verbatim>\<open>evRead\<close> and \<^verbatim>\<open>evReadNoCopy\<close> on the next event.\<close>

lemma read_alloc_event:
  assumes r: "reader holds a w sw raws bs n" and st: "list_all2 (stored sw) (raws @ events_of bs) (ev # evs)"
    and memory: "\<And>n. malloc_ok e n"
  shows "\<exists>a' w' raws' bs'. evReadAllocImpl e a w = Some (S_SUCCESS, Some ev, a', w') \<and>
    reader holds a' w' sw raws' bs' n \<and> list_all2 (stored sw) (raws' @ events_of bs') evs"
proof -
  obtain a1 w1 raw raws' bs' where m: "more_data e a w = Some (S_SUCCESS, a1, w1)" "reader holds a1 w1 sw (raw # raws') bs' n"
    "stored sw raw ev" "list_all2 (stored sw) (raws' @ events_of bs') evs"
    using next_event_ready [OF r st memory] by blast
  note t = take_event [OF m(2,3)]
  have "reading a" "\<not> randomAccess a" "byte_swapped a1 = sw"
    using reader_modes(1) [OF r] r m(2) by (simp_all add: reader_def)
  moreover have "(if sw then swap_event e 0 raw else Some raw) = Some ev"
    using swap_event_stored [of raw ev 0 raw e] m(3) stored_length [OF m(3)]
    by (cases sw) (simp_all add: at_def ov_full, simp add: stored_def)
  ultimately have "evReadAllocImpl e a w = Some (S_SUCCESS, Some ev, a1\<lparr>next := next a1 + length raw, left := left a1 - of_nat (length raw)\<rparr>, w1)"
    using m(1) t(1,3) memory by (simp add: evReadAllocImpl_def)
  then show ?thesis using t(4) m(4) by blast
qed

lemma read_alloc_end:
  assumes r: "reader holds a w sw [] [] n" and memory: "\<And>n. malloc_ok e n"
  shows "\<exists>a' w'. evReadAllocImpl e a w = Some (c_EOF, None, a', w') \<and> at_end a'"
  using no_more_events [OF r memory] reader_modes(1) [OF r] r by (auto simp: evReadAllocImpl_def reader_def status_simps)

lemma read_event_into:
  assumes r: "reader holds a w sw raws bs n" and st: "list_all2 (stored sw) (raws @ events_of bs) (ev # evs)"
    and memory: "\<And>n. malloc_ok e n" and len: "length ev \<le> unat buflen" "unat buflen \<le> length buffer"
  shows "\<exists>a' w' raws' bs'. read_event e a w buffer buflen = Some (S_SUCCESS, ov 0 ev buffer, a', w') \<and>
    reader holds a' w' sw raws' bs' n \<and> list_all2 (stored sw) (raws' @ events_of bs') evs"
proof -
  obtain a1 w1 raw raws' bs' where m: "more_data e a w = Some (S_SUCCESS, a1, w1)" "reader holds a1 w1 sw (raw # raws') bs' n"
    "stored sw raw ev" "list_all2 (stored sw) (raws' @ events_of bs') evs"
    using next_event_ready [OF r st memory] by blast
  note t = take_event [OF m(2,3)]
  have l: "length raw = length ev" by (rule stored_length [OF m(3)])
  have un: "unat (of_nat (length raw) :: u32) = length raw"
    using stored_first(3) [OF m(3)] by (intro unat_of_nat_32) simp
  have fits: "\<not> of_nat (length raw) > buflen" using len l un by (simp add: word_less_nat_alt)
  have sw1: "byte_swapped a1 = sw" using m(2) by (simp add: reader_def)
  have "read_event e a w buffer buflen = Some (S_SUCCESS, ov 0 ev buffer, a1\<lparr>next := next a1 + length raw, left := left a1 - of_nat (length raw)\<rparr>, w1)"
  proof (cases sw)
    case True
    obtain t where t1: "wf_node Bank t" "raw = enc True Bank t" "ev = enc False Bank t"
      using m(3) True by (auto simp: stored_def)
    let ?temp = "ov 0 raw (fresh e (unat buflen))"
    have p: "paste (fresh e (unat buflen)) 0 raw = Some ?temp" using len l by (intro paste_ov) (simp add: fresh_def)
    have "evioswap (4 * unat buflen) (stack_bytes e) True 0 \<lparr>sm_src = ?temp, sm_dst = Some buffer\<rparr> =
        Some (put 0 (enc False Bank t) \<lparr>sm_src = ?temp, sm_dst = Some buffer\<rparr>)"
      using evioswap_block [OF t1(1), of 0 True "\<lparr>sm_src = ?temp, sm_dst = Some buffer\<rparr>" "4 * unat buflen" "stack_bytes e"]
        len l t1 by (simp add: src_has_def at_ov fresh_def room_def sm_out_def)
    then have q: "evioswap (4 * unat buflen) (stack_bytes e) True 0 \<lparr>sm_src = ?temp, sm_dst = Some buffer\<rparr> =
        Some \<lparr>sm_src = ?temp, sm_dst = Some (ov 0 ev buffer)\<rparr>"
      using t1 by (simp add: put_def sm_out_def set_out_def)
    show ?thesis using m(1) memory t(1,3) fits sw1 True p q by (simp add: read_event_def sm_out_def)
  next
    case False
    then have "raw = ev" using m(3) by (simp add: stored_def)
    then have "paste buffer 0 raw = Some (ov 0 ev buffer)" using len paste_ov [of 0 raw buffer] by simp
    then show ?thesis using m(1) t(1,3) fits sw1 False by (simp add: read_event_def)
  qed
  then show ?thesis using t(4) m(4) by blast
qed

lemma next_in_buffer_event:
  assumes r: "reader holds a w sw raws bs n" and st: "list_all2 (stored sw) (raws @ events_of bs) (ev # evs)"
    and memory: "\<And>n. malloc_ok e n"
  shows "\<exists>p a' w' raws' bs'. next_in_buffer e a w = Some (S_SUCCESS, Some (p, of_nat (length ev)), a', w') \<and>
    at p ev (mem a') \<and> reader holds a' w' sw raws' bs' n \<and> list_all2 (stored sw) (raws' @ events_of bs') evs"
proof -
  obtain a1 w1 raw raws' bs' where m: "more_data e a w = Some (S_SUCCESS, a1, w1)" "reader holds a1 w1 sw (raw # raws') bs' n"
    "stored sw raw ev" "list_all2 (stored sw) (raws' @ events_of bs') evs"
    using next_event_ready [OF r st memory] by blast
  note t = take_event [OF m(2,3)]
  have l: "length raw = length ev" by (rule stored_length [OF m(3)])
  have un: "unat (of_nat (length raw) :: u32) = length raw"
    using stored_first(3) [OF m(3)] by (intro unat_of_nat_32) simp
  have sw1: "byte_swapped a1 = sw" using m(2) by (simp add: reader_def)
  have ib: "at (next a1) raw (bufmem a1)" "at (next a1 + length raw) (concat raws') (bufmem a1)"
    using m(2) by (simp_all add: reader_def in_block_def at_append)
  let ?m = "ov (next a1) ev (bufmem a1)"
  let ?a = "(set_mem ?m a1)\<lparr>next := next a1 + length raw, left := left a1 - of_nat (length raw)\<rparr>"
  have sm: "set_mem ?m a1 = a1\<lparr>bufmem := ?m\<rparr>" using readable [of a1 w1 "raw_file sw bs' n"] m(2) by (auto simp: set_mem_def mode_defs reader_def)
  have "(if sw then swap_event e (next a1) (mem a1) else Some (mem a1)) = Some ?m"
  proof (cases sw)
    case True
    then show ?thesis using swap_event_stored [of raw ev "next a1" "bufmem a1" e] m(3) ib(1) reader_modes(2) [OF m(2)] by simp
  next
    case False
    then have "raw = ev" using m(3) by (simp add: stored_def)
    then show ?thesis using False ib(1) reader_modes(2) [OF m(2)] by (simp add: ov_id)
  qed
  then have "next_in_buffer e a w = Some (S_SUCCESS, Some (next a1, of_nat (length ev)), ?a, w1)"
    using m(1) t(1) sw1 un l by (simp add: next_in_buffer_def)
  moreover have "at (next a1) ev (mem ?a)"
    using ib(1) l at_ov [of "next a1" ev "bufmem a1"] by (simp add: at_def)
  moreover have "reader holds ?a w1 sw raws' bs' n"
  proof -
    let ?b = "a1\<lparr>next := next a1 + length raw, left := left a1 - of_nat (length raw)\<rparr>"
    have "at (next a1 + length raw) (concat raws') ?m" using ib(2) l by (simp add: at_ov_before)
    moreover have "holds ?a w1 (raw_file sw bs' n)"
      by (rule same_holds [of a1]) (use m(2) in \<open>simp_all add: same_source_def reader_def sm\<close>)
    ultimately show ?thesis using t(4) by (simp add: reader_def in_block_def block_reader_def sm)
  qed
  ultimately show ?thesis using m(4) by blast
qed

end

end
