(* ===== verification/EvioOpenWrite.thy ===== *)
theory EvioOpenWrite imports EvioWriteFile EvioWriteStream EvioReadBlocks begin

text \<open>
  Opening to write: a new file, a socket, a pipe, and an existing file to append to. Each gives a handle in
  the first state of the writer's invariant.
\<close>

section \<open>Plain names\<close>

text \<open>A file name without white space around it, specifiers or variables, that is neither a pipe nor a standard stream.\<close>

definition plain_name :: "string \<Rightarrow> bool" where
  "plain_name f \<longleftrightarrow> f \<noteq> [] \<and> f \<noteq> ''-'' \<and> hd f \<noteq> CHR ''|'' \<and> \<not> trims (hd f) \<and> \<not> trims (last f) \<and> NUL \<notin> set f \<and>
     CHR ''%'' \<notin> set f \<and> CHR ''$'' \<notin> set f \<and> length f < 2 ^ 32"

lemma strstr_absent: "p \<noteq> [] \<Longrightarrow> hd p \<notin> set s \<Longrightarrow> strstr s p = None"
proof (rule ccontr)
  assume p: "p \<noteq> []" "hd p \<notin> set s" and "strstr s p \<noteq> None"
  then obtain i where "strstr s p = Some i" by blast
  then have "prefix p (drop i s)" using strstr_Some by blast
  then have "hd p \<in> set (drop i s)" using p(1) by (cases p) (auto simp: prefix_def)
  then show False using p(2) in_set_dropD by fast
qed

lemma trimmed_same:
  assumes n: "NUL \<notin> set f" "f \<noteq> []" "\<not> trims (hd f)" "\<not> trims (last f)" shows "trimmed f = Some f"
proof -
  have tw: "takeWhile (\<lambda>c. c \<noteq> NUL) (f @ [NUL]) = f" using n(1) by (induction f) auto
  have d1: "dropWhile trims f = f" using n(2,3) by (cases f) auto
  have d2: "dropWhile trims (rev f) = rev f" using n(2,4) by (cases f rule: rev_cases) auto
  show ?thesis using n(2) by (simp add: trimmed_def evTrim_def tw d1 d2)
qed

lemma trimmed_plain: "plain_name f \<Longrightarrow> trimmed f = Some f"
  by (rule trimmed_same) (simp_all add: plain_name_def)

lemma base_name_plain:
  assumes "plain_name f" "\<And>n. malloc_ok e n"
  shows "evGenerateBaseFileName e (Some f) True True = Some (S_SUCCESS, Some (f, 0))"
proof -
  have p: "f \<noteq> []" "strstr f ''$('' = None" "strstr f ''%'' = None"
    using assms(1) strstr_absent [of "''$(''" f] strstr_absent [of "''%''" f] by (simp_all add: plain_name_def)
  have "evStrReplaceEnvVar e (Some f) = Some (Some f)"
    using p assms(2) by (simp add: evStrReplaceEnvVar_def strdup_def env_loop.simps)
  moreover have "evStrFindSpecifiers e (Some f) = Some (Some (f, 0))"
    using p assms(2) by (simp add: evStrFindSpecifiers_def strdup_def find_loop.simps)
  ultimately show ?thesis using p(1) by (simp add: evGenerateBaseFileName_def)
qed

section \<open>Opening a new file\<close>

lemma flags_simps [simp]:
  "one_of ''w'' [''w'', ''s'', ''r'', ''a'', ''ra'']" "one_of ''r'' [''w'', ''s'', ''r'', ''a'', ''ra'']"
  "\<not> one_of ''w'' [''ra'', ''rab'']" "\<not> one_of ''r'' [''ra'', ''rab'']" "\<not> one_of ''w'' [''a'', ''ab'']"
  "\<not> one_of ''w'' [''s'']" "lower CHR ''w'' = CHR ''w''" "lower CHR ''r'' = CHR ''r''"
  by code_simp+

lemma open_for_writing:
  assumes t: "open_target e src n fd f = Some (Inr t)" "\<not> one_of f [''ra'', ''rab'']" "map lower (take 1 f) \<noteq> ''r''"
    and o: "open_writing e (one_of f [''a'', ''ab'']) (one_of f [''s'']) t structInit (sys l) = Some (Inr (a, w))"
    and a: "opened mode k (a\<lparr>blknum := k\<rparr>)" "mode \<noteq> EV_WRITEBUF" and m: "\<And>n. malloc_ok e n" and c: "can_open l"
  shows "\<exists>h l'. evOpenImpl e l src n fd (Some f) = Some (S_SUCCESS, Some h, l') \<and>
    lookup_handle l' h = Some (a\<lparr>blknum := k, handle := h\<rparr>) \<and> sys l' = w \<and> lookup_handle l h = None \<and> others_kept l h l'"
proof -
  have b: "rd_buf a (buf a + EV_HD_BLKNUM) = Some k"
    using a by (simp add: opened_def rd_buf_def mem_def last_block_def block_header_def pos_defs)
  have "can_open (l\<lparr>sys := w\<rparr>)" using c by (simp add: can_open_def)
  then obtain h l' where h: "newHandle e (a\<lparr>blknum := k\<rparr>) (l\<lparr>sys := w\<rparr>) = Some (h, l')"
    using newHandle_ok [where e = e and l = "l\<lparr>sys := w\<rparr>"] m unfolding can_open_def by blast
  have "evOpenImpl e l src n fd (Some f) = Some (S_SUCCESS, Some h, l')"
    using m t o b h by (simp add: evOpenImpl_def)
  then show ?thesis using newHandle_binds [OF h] by (auto simp: others_kept_def)
qed

section \<open>A new file\<close>

text \<open>The structure of a new file before its first event.\<close>

definition new_file :: "string \<Rightarrow> EVFILE" where
  "new_file f = structInit\<lparr>rw := EV_WRITEFILE, baseFileName := Some f,
     bufmem := last_block 1 @ replicate 63992 0, currentHeader := 0, next := 8\<rparr>"

text \<open>A clear buffer with the header of block 1.\<close>

lemma open_block_clear:
  assumes "\<And>n. malloc_ok e n" "rw a \<noteq> EV_WRITEBUF" "bufRealSize a = 64000"
  shows "open_block e appends a w = Some (Inr (a\<lparr>bufmem := last_block 1 @ replicate 63992 0, buf := 0\<rparr>))"
proof -
  have "paste (replicate 64000 0) 0 (last_block 1) = Some (last_block 1 @ replicate 63992 0)"
    by (simp add: paste_def last_block_def block_header_def)
  then show ?thesis using assms by (simp add: open_block_def initLastBlockHeader_last_block set_mem_def)
qed

lemma open_new_file:
  assumes f: "plain_name f" and m: "\<And>n. malloc_ok e n"
  shows "open_writing e False False (File f) structInit w = Some (Inr (new_file f, w))"
proof -
  let ?a = "structInit\<lparr>append := 0, rw := EV_WRITEFILE, splitting := False, baseFileName := Some f, specifierCount := 0\<rparr>"
  have "open_output e False False (File f) (structInit\<lparr>append := 0\<rparr>) w = Some (Inr (fresh e 8, ?a, w))"
    using f m base_name_plain [OF f m] by (simp add: open_output_def plain_name_def)
  moreover have "open_block e False ?a w = Some (Inr (?a\<lparr>bufmem := last_block 1 @ replicate 63992 0, buf := 0\<rparr>))"
    by (rule open_block_clear [OF m]) (simp_all add: mode_defs structInit_def EV_BLOCKSIZE_V4_def)
  ultimately show ?thesis
    by (simp add: open_writing_def toAppendPosition_def new_file_def structInit_def)
qed

lemma new_file_opened: "opened EV_WRITEFILE 1 (new_file f)" "(new_file f)\<lparr>blknum := 1\<rparr> = new_file f"
  by (simp_all add: opened_def new_file_def structInit_def const_defs)

lemma counted_0 [simp]: "eventsToBuf a = 0 \<Longrightarrow> counted a 0"
  by (auto simp: counted_def intro!: exI [of _ 0])

text \<open>The abstract state of a handle that writes a file: \<open>old\<close> blocks are there, \<open>evs\<close> have been written behind them.\<close>

abbreviation file_writes :: "env \<Rightarrow> string \<Rightarrow> bool \<Rightarrow> block list \<Rightarrow> u32 \<Rightarrow> u32 \<Rightarrow> lib \<Rightarrow> int \<Rightarrow> words list \<Rightarrow> bool" where
  "file_writes e f \<equiv> block_sink.writes EV_WRITEFILE (file_start e f) (file_gone e f)"

lemma new_file_writes:
  assumes "plain_name f" "works e f" "lookup_handle l h = Some ((new_file f)\<lparr>handle := h\<rparr>)"
  shows "file_writes e f False [] 64000 10000 l h []"
proof -
  let ?a = "(new_file f)\<lparr>handle := h\<rparr>"
  have "file_start e f ?a (sys l) []"
    using assms(1,2) strstr_absent [of "''%s''" f]
    by (simp add: file_start_def file_gone_def named_def new_file_def structInit_def plain_name_def)
  moreover have "opened EV_WRITEFILE (1 + of_nat (length ([] :: block list))) ?a" using new_file_opened [of f] by (simp add: opened_def)
  moreover have "counted ?a 0" "append ?a = 0" by (simp_all add: new_file_def structInit_def)
  ultimately have "block_sink.writer EV_WRITEFILE (file_start e f) (file_gone e f) False [] ?a (sys l) []"
    using file_sink.opened_writer by simp
  then show ?thesis using assms(3) new_file_opened [of f] by (simp add: file_sink.writes_def opened_def)
qed

lemma evOpen_new:
  assumes f: "plain_name f" and m: "\<And>n. malloc_ok e n" and c: "can_open l"
  shows "\<exists>h l'. evOpen e l (Name f) ''w'' = Some (S_SUCCESS, Some h, l') \<and>
    lookup_handle l' h = Some ((new_file f)\<lparr>handle := h\<rparr>) \<and> sys l' = sys l \<and> lookup_handle l h = None \<and> others_kept l h l'"
proof -
  have t: "open_target e (Name f) 0 0 ''w'' = Some (Inr (File f))"
    using m trimmed_plain [OF f] by (simp add: open_target_def strdup_def)
  show ?thesis
    using open_for_writing [OF t, of l "new_file f" "sys l" EV_WRITEFILE 1] open_new_file [OF f m] new_file_opened m c
    by (simp add: evOpen_def mode_defs)
qed

section \<open>Sockets and pipes\<close>

text \<open>The structure of a socket or pipe before its first event.\<close>

definition new_stream :: "int \<Rightarrow> stream option \<Rightarrow> int \<Rightarrow> EVFILE" where
  "new_stream mode s fd = structInit\<lparr>file := s, rw := mode, sockFd := fd,
     bufmem := last_block 1 @ replicate 63992 0, currentHeader := 0, next := 8\<rparr>"

lemma new_stream_opened: "opened mode 1 (new_stream mode s fd)" "(new_stream mode s fd)\<lparr>blknum := 1\<rparr> = new_stream mode s fd"
  by (simp_all add: opened_def new_stream_def structInit_def const_defs)

lemma open_new_stream:
  assumes m: "\<And>n. malloc_ok e n" and mode: "mode \<noteq> EV_WRITEBUF"
    and o: "open_output e False False t (structInit\<lparr>append := 0\<rparr>) w = Some (Inr (hdr, structInit\<lparr>append := 0, file := s, rw := mode, sockFd := fd\<rparr>, w'))"
  shows "open_writing e False False t structInit w = Some (Inr (new_stream mode s fd, w'))"
proof -
  let ?a = "structInit\<lparr>append := 0, file := s, rw := mode, sockFd := fd\<rparr>"
  have "open_block e False ?a w' = Some (Inr (?a\<lparr>bufmem := last_block 1 @ replicate 63992 0, buf := 0\<rparr>))"
    by (rule open_block_clear [OF m]) (use mode in \<open>simp_all add: structInit_def EV_BLOCKSIZE_V4_def\<close>)
  then show ?thesis using o by (simp add: open_writing_def toAppendPosition_def new_stream_def structInit_def)
qed

abbreviation socket_writes :: "env \<Rightarrow> int \<Rightarrow> bytes \<Rightarrow> bool \<Rightarrow> block list \<Rightarrow> u32 \<Rightarrow> u32 \<Rightarrow> lib \<Rightarrow> int \<Rightarrow> words list \<Rightarrow> bool" where
  "socket_writes e fd base \<equiv> block_sink.writes EV_WRITESOCK (socket_start e fd base) (socket_gone e fd base)"

abbreviation pipe_writes :: "env \<Rightarrow> string \<Rightarrow> bool \<Rightarrow> block list \<Rightarrow> u32 \<Rightarrow> u32 \<Rightarrow> lib \<Rightarrow> int \<Rightarrow> words list \<Rightarrow> bool" where
  "pipe_writes e f \<equiv> block_sink.writes EV_WRITEPIPE (pipe_start e f) (pipe_gone e f)"

lemma stream_flags [simp]:
  "\<not> one_of ''ws'' [''w'', ''s'', ''r'', ''a'', ''ra'']" "\<not> one_of ''ws'' [''wb'', ''rb'', ''ab'', ''rab'']" "one_of ''ws'' [''ws'', ''rs'']"
  "\<not> one_of ''ws'' [''ra'', ''rab'']" "\<not> one_of ''ws'' [''a'', ''ab'']" "\<not> one_of ''ws'' [''s'']" "strcasecmp_eq ''w'' ''w''"
  by code_simp+

lemma evOpenSocket_new:
  assumes fd: "0 \<le> fd" "keeps_moving (sock_plan (sys l) fd)" and m: "\<And>n. malloc_ok e n" and c: "can_open l"
  shows "\<exists>h l'. evOpenSocket e l fd ''w'' = Some (S_SUCCESS, Some h, l') \<and>
    socket_writes e fd (sock_out (sys l) fd) False [] 64000 10000 l' h [] \<and> sys l' = sys l \<and> lookup_handle l h = None \<and> others_kept l h l'"
proof -
  let ?a = "new_stream EV_WRITESOCK None fd"
  have t: "open_target e NoPtr 0 fd ''ws'' = Some (Inr (Socket fd))" using fd(1) by (simp add: open_target_def)
  have "structInit\<lparr>append := 0, sockFd := fd, rw := EV_WRITESOCK\<rparr> = structInit\<lparr>append := 0, file := None, rw := EV_WRITESOCK, sockFd := fd\<rparr>"
    by (simp add: structInit_def)
  then have "open_output e False False (Socket fd) (structInit\<lparr>append := 0\<rparr>) (sys l) =
      Some (Inr (fresh e 8, structInit\<lparr>append := 0, file := None, rw := EV_WRITESOCK, sockFd := fd\<rparr>, sys l))"
    unfolding open_output_def by simp
  then have "open_writing e False False (Socket fd) structInit (sys l) = Some (Inr (?a, sys l))"
    by (intro open_new_stream [OF m]) (simp_all add: mode_defs)
  then obtain h l' where o: "evOpenImpl e l NoPtr 0 fd (Some ''ws'') = Some (S_SUCCESS, Some h, l')"
    "lookup_handle l' h = Some (?a\<lparr>handle := h\<rparr>)" "sys l' = sys l" "lookup_handle l h = None" "others_kept l h l'"
    using open_for_writing [OF t, of l ?a "sys l" EV_WRITESOCK 1] new_stream_opened m c by (auto simp: mode_defs)
  let ?b = "?a\<lparr>handle := h\<rparr>"
  have op: "opened EV_WRITESOCK (1 + of_nat (length ([] :: block list))) ?b"
    using new_stream_opened [of EV_WRITESOCK None fd] by (simp add: opened_def)
  have "socket_start e fd (sock_out (sys l) fd) ?b (sys l') []"
    using fd(2) m o(3) by (simp add: socket_start_def socket_gone_def new_stream_def structInit_def)
  moreover have "counted ?b 0" "append ?b = 0" by (simp_all add: new_stream_def structInit_def)
  ultimately have "block_sink.writer EV_WRITESOCK (socket_start e fd (sock_out (sys l) fd)) (socket_gone e fd (sock_out (sys l) fd)) False [] ?b (sys l') []"
    by (intro socket_sink.opened_writer op) simp_all
  then show ?thesis using o op by (auto simp: socket_sink.writes_def evOpenSocket_def opened_def)
qed

text \<open>A pipe to a command: a name with a bar in front.\<close>

definition pipe_name :: "string \<Rightarrow> bool" where
  "pipe_name f \<longleftrightarrow> f \<noteq> [] \<and> hd f = CHR ''|'' \<and> \<not> trims (last f) \<and> NUL \<notin> set f"

lemma evOpen_pipe:
  assumes f: "pipe_name f" "create_ok e f" "write_ok e f" and m: "\<And>n. malloc_ok e n" and c: "can_open l"
  shows "\<exists>h l'. evOpen e l (Name f) ''w'' = Some (S_SUCCESS, Some h, l') \<and> pipe_writes e f False [] 64000 10000 l' h [] \<and>
    sys l' = set_file f [] (sys l) \<and> lookup_handle l h = None \<and> others_kept l h l'"
proof -
  let ?s = "\<lparr>st_name = f, st_pos = 0, st_eof = False, st_err = False\<rparr>"
  let ?a = "new_stream EV_WRITEPIPE (Some ?s) 0" and ?w = "set_file f [] (sys l)"
  have bar: "\<not> trims CHR ''|''" by code_simp
  have n: "f \<noteq> ''-''" "f \<noteq> []" "hd f = CHR ''|''" using f(1) by (auto simp: pipe_name_def)
  have "trimmed f = Some f" by (rule trimmed_same) (use f(1) bar in \<open>simp_all add: pipe_name_def\<close>)
  then have t: "open_target e (Name f) 0 0 ''w'' = Some (Inr (File f))" using m by (simp add: open_target_def strdup_def)
  have "open_output e False False (File f) (structInit\<lparr>append := 0\<rparr>) (sys l) =
      Some (Inr (fresh e 8, structInit\<lparr>append := 0, file := Some ?s, rw := EV_WRITEPIPE, sockFd := 0\<rparr>, ?w))"
    using n f(2) by (simp add: open_output_def fopen_write_def Let_def structInit_def)
  then have "open_writing e False False (File f) structInit (sys l) = Some (Inr (?a, ?w))"
    by (intro open_new_stream [OF m]) (simp_all add: mode_defs)
  then obtain h l' where o: "evOpenImpl e l (Name f) 0 0 (Some ''w'') = Some (S_SUCCESS, Some h, l')"
    "lookup_handle l' h = Some (?a\<lparr>handle := h\<rparr>)" "sys l' = ?w" "lookup_handle l h = None" "others_kept l h l'"
    using open_for_writing [OF t, of l ?a ?w EV_WRITEPIPE 1] new_stream_opened m c by (auto simp: mode_defs)
  let ?b = "?a\<lparr>handle := h\<rparr>"
  have op: "opened EV_WRITEPIPE (1 + of_nat (length ([] :: block list))) ?b"
    using new_stream_opened [of EV_WRITEPIPE "Some ?s" 0] by (simp add: opened_def)
  have "pipe_start e f ?b (sys l') []"
    using f(3) m o(3) by (simp add: pipe_start_def pipe_gone_def new_stream_def structInit_def set_file_def)
  moreover have "counted ?b 0" "append ?b = 0" by (simp_all add: new_stream_def structInit_def)
  ultimately have "block_sink.writer EV_WRITEPIPE (pipe_start e f) (pipe_gone e f) False [] ?b (sys l') []"
    by (intro pipe_sink.opened_writer op) simp_all
  then show ?thesis using o op by (auto simp: pipe_sink.writes_def evOpen_def opened_def)
qed

section \<open>Appending to a file\<close>

text \<open>A file to append to: non-empty blocks of at most 1 GB, a dictionary in the first one only.\<close>

definition appendable :: "block list \<Rightarrow> bool" where
  "appendable bs \<longleftrightarrow> list_all (\<lambda>b. b_events b \<noteq> [] \<and> length (block_words b) < 2 ^ 28) bs \<and> (\<forall>b \<in> set (tl bs). \<not> b_dict b) \<and>
     length (events_of bs) < 2 ^ 31 \<and> length (blocks_words bs) < 2 ^ 50"

lemma header_nth [simp]:
  "block_header l n c d s ! EV_HD_VER = generateSixthWord 4 d s 0" "block_header l n c d s ! EV_HD_BLKSIZ = l"
  "block_header l n c d s ! EV_HD_HDSIZ = 8" "block_header l n c d s ! EV_HD_COUNT = c" "block_header l n c d s ! EV_HD_MAGIC = EV_MAGIC"
  by (simp_all add: block_header_def pos_defs)

text \<open>The scan for the last block, in either byte order.\<close>

lemma in_order_nth: "i < length hdr \<Longrightarrow> in_order sw hdr ! i = (if sw then EVIO_SWAP32 (hdr ! i) else hdr ! i)"
  by (simp add: in_order_def)

lemma found_header:
  assumes "byte_swapped a = sw"
  shows "found a (in_order sw (block_header l n c d x)) k = \<lparr>fh_bits = generateSixthWord 4 d x 0, fh_size = l, fh_hdr = 8, fh_next = k + 1\<rparr>"
    "host a (in_order sw (block_header l n c d x) ! EV_HD_COUNT) = c"
    "host a (in_order sw (block_header l n c d x) ! EV_HD_VER) = generateSixthWord 4 d x 0"
proof -
  have h: "host a (in_order sw (block_header l n c d x) ! i) = block_header l n c d x ! i" if "i < 8" for i
    using assms that by (simp add: in_order_nth host_def)
  have i: "EV_HD_VER < 8" "EV_HD_BLKSIZ < 8" "EV_HD_HDSIZ < 8" "EV_HD_COUNT < 8" by (simp_all add: pos_defs)
  show "found a (in_order sw (block_header l n c d x)) k = \<lparr>fh_bits = generateSixthWord 4 d x 0, fh_size = l, fh_hdr = 8, fh_next = k + 1\<rparr>"
    "host a (in_order sw (block_header l n c d x) ! EV_HD_COUNT) = c"
    "host a (in_order sw (block_header l n c d x) ! EV_HD_VER) = generateSixthWord 4 d x 0"
    by (simp_all add: found_def h i)
qed

lemma fread_header:
  assumes "read_ok e (st_name s)" "files w (st_name s) = Some (pre @ hdr @ zs)" "st_pos s = length pre" "length hdr = 8"
  shows "fread e 8 s w = (hdr, s\<lparr>st_pos := length pre + 8\<rparr>)"
  using assms by (simp add: fread_def contents_def)

lemma scan_file_blocks:
  assumes "file a = Some s" "st_name s = f" "st_pos s = length pre" "files w f = Some (pre @ raw_file sw bs m)"
    and "read_ok e f" "byte_swapped a = sw" "list_all (\<lambda>b. length (block_words b) < 2 ^ 28) bs"
  shows "\<exists>s'. scan_file e n a w = Some (Inr (\<lparr>fh_bits = generateSixthWord 4 False True 0, fh_size = 8, fh_hdr = 8, fh_next = n + of_nat (length bs) + 1\<rparr>,
      a\<lparr>file := Some s', eventCount := eventCount a + sum_list (map event_count bs)\<rparr>, w)) \<and>
    st_name s' = f \<and> st_pos s' = length pre + length (blocks_words bs) + 8"
  using assms
proof (induction bs arbitrary: a s pre n)
  case Nil
  have r: "fread e 8 s w = (in_order sw (block_header 8 m 0 False True), s\<lparr>st_pos := length pre + 8\<rparr>)"
    by (rule fread_header [where zs = "[]"]) (use Nil.prems in \<open>simp_all add: raw_file_def last_block_def\<close>)
  show ?case
    by (subst scan_file.simps, intro exI [of _ "s\<lparr>st_pos := length pre + 8\<rparr>"])
      (use Nil.prems in \<open>simp add: r found_header\<close>)
next
  case (Cons b bs)
  have small: "length (body b) < 2 ^ 28" using Cons.prems(7) by simp
  let ?t = "s\<lparr>st_pos := length pre + 8\<rparr>" and ?u = "s\<lparr>st_pos := length pre + 8 + length (body b), st_eof := False\<rparr>"
  have r: "fread e 8 s w = (in_order sw (block_header (of_nat (8 + length (body b))) (b_num b) (event_count b) (b_dict b) False), ?t)"
    by (rule fread_header [where zs = "body b @ raw_file sw bs m"]) (use Cons.prems in \<open>simp_all add: raw_file_def raw_block_def\<close>)
  have "4 * (of_nat (8 + length (body b)) - EV_HDSIZ) = (of_nat (4 * length (body b)) :: u32)" by (simp add: EV_HDSIZ_def)
  then have k: "unat (4 * (of_nat (8 + length (body b)) - EV_HDSIZ) :: u32) div 4 = length (body b)"
    using small unat_of_nat_32 [of "4 * length (body b)"] by simp
  have "fseek_cur (int (length (body b))) ?t = Some ?u" by (simp add: fseek_cur_def nat_add_distrib)
  then have step: "scan_file e n a w = scan_file e (n + 1) (a\<lparr>eventCount := eventCount a + event_count b, file := Some ?u\<rparr>) w"
    using Cons.prems(1,6) k by (subst scan_file.simps) (simp add: r found_header Let_def)
  obtain s' where s': "scan_file e (n + 1) (a\<lparr>eventCount := eventCount a + event_count b, file := Some ?u\<rparr>) w =
      Some (Inr (\<lparr>fh_bits = generateSixthWord 4 False True 0, fh_size = 8, fh_hdr = 8, fh_next = n + 1 + of_nat (length bs) + 1\<rparr>,
        a\<lparr>eventCount := eventCount a + event_count b, file := Some ?u\<rparr>\<lparr>file := Some s',
          eventCount := eventCount (a\<lparr>eventCount := eventCount a + event_count b, file := Some ?u\<rparr>) + sum_list (map event_count bs)\<rparr>, w))"
    "st_name s' = f" "st_pos s' = length (pre @ raw_block sw b) + length (blocks_words bs) + 8"
    using Cons.IH [of "a\<lparr>eventCount := eventCount a + event_count b, file := Some ?u\<rparr>" ?u "pre @ raw_block sw b" "n + 1"] Cons.prems
    by (auto simp: raw_block_def raw_file_def)
  show ?case using s' by (intro exI [of _ s']) (simp add: step raw_block_def algebra_simps)
qed

lemma toAppendPosition_blocks:
  assumes a: "append a \<noteq> 0" "rw a = EV_WRITEFILE" "file a = Some s" "byte_swapped a = sw" "bufmem a = last_block k @ X" "buf a = 0"
    and f: "st_name s = f" "files w f = Some (raw_file sw old m)" "read_ok e f" "write_ok e f"
    and old: "list_all (\<lambda>b. length (block_words b) < 2 ^ 28) old"
    and d: "n = of_nat (length old) + 1" "c = eventCount a + sum_list (map event_count old)" "v = (if hasAppendDictionary a then c + 1 else c)"
  shows "\<exists>s'. toAppendPosition e a w = Some (Inr (a\<lparr>file := Some s', eventCount := c, eventsToFile := v, eventsToBuf := v,
      bufmem := last_block n @ X, blknum := n + 1, isLastBlock := True\<rparr>, set_file f (concat (map (raw_block sw) old) @ last_block n) w)) \<and>
    st_name s' = f \<and> st_pos s' = length (blocks_words old)"
proof -
  let ?h = "\<lparr>fh_bits = generateSixthWord 4 False True 0, fh_size = 8, fh_hdr = 8, fh_next = 1 + of_nat (length old) + 1\<rparr>"
  obtain s1 where s1: "scan_file e 1 (a\<lparr>file := Some (fseek_set 0 s)\<rparr>) w = Some (Inr (?h, a\<lparr>file := Some s1, eventCount := c\<rparr>, w))"
    "st_name s1 = f" "st_pos s1 = length (blocks_words old) + 8"
    using scan_file_blocks [of "a\<lparr>file := Some (fseek_set 0 s)\<rparr>" "fseek_set 0 s" f "[]" w sw old m e 1] a f old d(2)
    by (auto simp: fseek_set_def)
  let ?s2 = "s1\<lparr>st_pos := length (blocks_words old), st_eof := False\<rparr>"
  have sk: "fseek_cur (- 8) s1 = Some ?s2" using s1(3) by (simp add: fseek_cur_def)
  let ?a2 = "a\<lparr>file := Some ?s2, eventCount := c, eventsToFile := v, eventsToBuf := v\<rparr>"
  have re: "reuse_last e ?h (a\<lparr>file := Some s1, eventCount := c, eventsToFile := v, eventsToBuf := v\<rparr>) w = Some (Inr (n, ?a2, w))"
    using a(2) sk d(1) by (simp add: reuse_last_def seek_def mode_defs add.commute)
  let ?s3 = "?s2\<lparr>st_err := False, st_pos := length (blocks_words old) + 8\<rparr>"
  let ?a3 = "?a2\<lparr>bufmem := last_block n @ X, blknum := n + 1, isLastBlock := True\<rparr>"
  have lb: "[8, n, EV_HDSIZ, 0, 0, generateSixthWord 4 False True 0, 0, EV_MAGIC] = last_block n"
    by (simp add: last_block_def block_header_def EV_HDSIZ_def)
  have hw: "wr_buf (buf ?a2 + EV_HD_BLKNUM) n ?a2 = Some (?a2\<lparr>bufmem := last_block n @ X\<rparr>)"
    using a by (simp add: wr_buf_def wr_def mem_def set_mem_def mode_defs last_block_def block_header_def pos_defs)
  let ?a4 = "?a2\<lparr>bufmem := last_block n @ X\<rparr>"
  have rv: "rd_buf ?a4 (buf ?a4 + EV_HD_VER) = Some (generateSixthWord 4 False True 0)"
    using a by (simp add: rd_buf_def mem_def mode_defs last_block_def block_header_def pos_defs)
  have sl: "setLastBlockBitInt (generateSixthWord 4 False True 0) = generateSixthWord 4 False True 0" by code_simp
  have hv: "wr_buf (buf ?a4 + EV_HD_VER) (generateSixthWord 4 False True 0) (?a4\<lparr>blknum := n + 1, isLastBlock := True\<rparr>) = Some ?a3"
    using a by (simp add: wr_buf_def wr_def mem_def set_mem_def mode_defs last_block_def block_header_def pos_defs)
  have hs: "wr_buf (buf ?a3 + EV_HD_BLKSIZ) EV_HDSIZ ?a3 = Some ?a3"
    using a by (simp add: wr_buf_def wr_def mem_def set_mem_def mode_defs last_block_def block_header_def pos_defs EV_HDSIZ_def)
  have len: "length (concat (map (raw_block sw) old)) = length (blocks_words old)"
    by (induction old) (simp_all add: raw_block_def)
  have ct: "cut (mem ?a3) (buf ?a3) 8 = Some (last_block n)" using a by (simp add: mem_def mode_defs cut_def)
  have fw: "fwrite e (last_block n) (clearerr ?s2) w = (8, ?s3, set_file f (concat (map (raw_block sw) old) @ last_block n) w)"
    using f s1(2) splice_over_last [of "in_order sw (last_block m)" "last_block n" "concat (map (raw_block sw) old)"] len
    by (simp add: fwrite_def contents_def clearerr_def raw_file_def)
  have eh: "end_header e n ?a2 w = Some (Inr (?a3\<lparr>file := Some (?s3\<lparr>st_pos := length (blocks_words old)\<rparr>)\<rparr>, set_file f (concat (map (raw_block sw) old) @ last_block n) w))"
    unfolding end_header_def hw Option.bind_lunit rv sl hv hs ct
    using a(2) fw by (simp add: write_words_def seek_def mode_defs fseek_cur_def)
  have "toAppendPosition e a w = Some (Inr (?a3\<lparr>file := Some (?s3\<lparr>st_pos := length (blocks_words old)\<rparr>)\<rparr>, set_file f (concat (map (raw_block sw) old) @ last_block n) w))"
    using a(1-3) s1(1) re eh d(3) by (cases "hasAppendDictionary a") (simp_all add: toAppendPosition_def mode_defs Let_def)
  then show ?thesis using s1(2) by (intro exI [of _ "?s3\<lparr>st_pos := length (blocks_words old)\<rparr>"]) simp
qed

text \<open>The events counted in the headers; the dictionary is counted by its bit.\<close>

lemma sum_event_count:
  assumes "appendable bs"
  shows "sum_list (map event_count bs) + (if with_dictionary bs then 1 else 0) = of_nat (length (events_of bs))"
proof -
  have plain: "sum_list (map event_count cs) = of_nat (length (events_of cs))" if "\<forall>b \<in> set cs. \<not> b_dict b" for cs
    using that by (induction cs) (simp_all add: event_count_def)
  show ?thesis
    using assms plain [of "tl bs"] by (cases bs) (simp_all add: appendable_def with_dictionary_def event_count_def)
qed

text \<open>The first header of the file decides on the byte order and the dictionary.\<close>

lemma first_header_words: "\<exists>l n c s X. raw_file sw bs m = in_order sw (block_header l n c (with_dictionary bs) s) @ X"
proof (cases bs)
  case Nil
  then have "raw_file sw bs m = in_order sw (block_header 8 m 0 (with_dictionary bs) True) @ []"
    by (simp add: raw_file_def last_block_def with_dictionary_def)
  then show ?thesis by blast
next
  case (Cons b cs)
  then have "raw_file sw bs m = in_order sw (block_header (of_nat (8 + length (body b))) (b_num b) (event_count b) (with_dictionary bs) False) @
      body b @ raw_file sw cs m"
    by (simp add: raw_file_def raw_block_def with_dictionary_def)
  then show ?thesis by blast
qed

lemma version_bits:
  "generateSixthWord 4 d s 0 AND EV_VERSION_MASK = EV_VERSION" "generateSixthWord 4 d s 0 AND EV_DICTIONARY_MASK = 0 \<longleftrightarrow> \<not> d"
  by (cases d; cases s; simp add: generateSixthWord_def const_defs EV_VERSION_def)+

lemma append_flags [simp]:
  "one_of ''a'' [''w'', ''s'', ''r'', ''a'', ''ra'']" "\<not> one_of ''a'' [''ra'', ''rab'']" "one_of ''a'' [''a'', ''ab'']" "\<not> one_of ''a'' [''s'']"
  "lower CHR ''a'' = CHR ''a''"
  by code_simp+

lemma host_blocks: "concat (map (raw_block False) bs) = blocks_words bs"
  by (simp add: blocks_words_def block_words_def [abs_def] raw_block_def [abs_def] in_order_def)

lemma open_append:
  assumes f: "plain_name f" "read_ok e f" "works e f" "files w f = Some (raw_file sw old m)" and old: "appendable old"
    and w': "w' = set_file f (concat (map (raw_block sw) old) @ last_block (of_nat (length old) + 1)) w"
  shows "\<exists>a. open_writing e True False (File f) structInit w = Some (Inr (a, w')) \<and>
    opened EV_WRITEFILE (of_nat (length old) + 1) (a\<lparr>blknum := of_nat (length old) + 1\<rparr>) \<and>
    (\<not> sw \<longrightarrow> file_start e f a w' old) \<and> counted a 0 \<and> append a \<noteq> 0 \<and> byte_swapped a = sw"
proof -
  have m: "malloc_ok e n" for n using f(3) by (simp add: works_def)
  obtain l n c x X where w: "raw_file sw old m = in_order sw (block_header l n c (with_dictionary old) x) @ X" using first_header_words by blast
  let ?z = "\<lparr>st_name = f, st_pos = 0, st_eof = False, st_err = False\<rparr>" and ?s = "\<lparr>st_name = f, st_pos = 8, st_eof = False, st_err = False\<rparr>"
  let ?hdr = "in_order sw (block_header l n c (with_dictionary old) x)"
  let ?a1 = "structInit\<lparr>append := 1, rw := EV_WRITEFILE, file := Some ?s\<rparr>"
  have "fread e 8 ?z w = (?hdr, ?s)"
    using fread_header [of e ?z w "[]" ?hdr X] f(2,4) w by simp
  then have o: "open_output e True False (File f) (structInit\<lparr>append := 1\<rparr>) w = Some (Inr (?hdr, ?a1, w))"
    using f(1,4) by (simp add: open_output_def plain_name_def fopen_read_def)
  let ?a2 = "?a1\<lparr>byte_swapped := sw, hasAppendDictionary := with_dictionary old\<rparr>"
  have h: "check_append ?hdr ?a1 = Some ?a2"
  proof -
    have "?hdr ! EV_HD_MAGIC = (if sw then EVIO_SWAP32 EV_MAGIC else EV_MAGIC)" by (simp add: in_order_nth pos_defs(8) block_header_def)
    moreover have "EVIO_SWAP32 EV_MAGIC \<noteq> EV_MAGIC" by code_simp
    ultimately show ?thesis using found_header(3) [of "?a1\<lparr>byte_swapped := sw\<rparr>" sw l n c "with_dictionary old" x]
      by (cases sw) (simp_all add: check_append_def version_bits Let_def)
  qed
  let ?a3 = "?a2\<lparr>bufmem := last_block 1 @ replicate 63992 0, buf := 0\<rparr>"
  have b: "open_block e True ?a2 w = Some (Inr ?a3)"
    by (rule open_block_clear [OF m]) (simp_all add: mode_defs structInit_def EV_BLOCKSIZE_V4_def)
  define k :: u32 where "k = of_nat (length old) + 1"
  define c :: u32 where "c = sum_list (map event_count old)"
  define v :: u32 where "v = of_nat (length (events_of old))"
  have v: "v = (if hasAppendDictionary ?a3 then c + 1 else c)" "c = eventCount ?a3 + sum_list (map event_count old)"
    using sum_event_count [OF old] by (simp_all add: v_def c_def structInit_def split: if_splits)
  obtain s' where t: "toAppendPosition e ?a3 w = Some (Inr (?a3\<lparr>file := Some s', eventCount := c, eventsToFile := v, eventsToBuf := v,
      bufmem := last_block k @ replicate 63992 0, blknum := k + 1, isLastBlock := True\<rparr>, set_file f (concat (map (raw_block sw) old) @ last_block k) w))"
    "st_name s' = f" "st_pos s' = length (blocks_words old)"
    using toAppendPosition_blocks [of ?a3 ?s sw 1 "replicate 63992 0" f w old m e k c v] f old v k_def
    by (auto simp: structInit_def works_def appendable_def list_all_iff)
  let ?a = "?a3\<lparr>file := Some s', eventCount := c, eventsToFile := v, eventsToBuf := v,
      bufmem := last_block k @ replicate 63992 0, blknum := k + 1, isLastBlock := True, currentHeader := 0, next := 8\<rparr>"
  have "open_writing e True False (File f) structInit w = Some (Inr (?a, set_file f (concat (map (raw_block sw) old) @ last_block k) w))"
    using o h b t(1) by (simp add: open_writing_def)
  moreover have "opened EV_WRITEFILE k (?a\<lparr>blknum := k\<rparr>)" by (simp add: opened_def structInit_def const_defs)
  moreover have "\<not> sw \<longrightarrow> file_start e f ?a (set_file f (concat (map (raw_block sw) old) @ last_block k) w) old"
    using f(3) t(2,3) by (simp add: file_start_def file_gone_def file_final_def set_file_def structInit_def k_def host_blocks file_words_def)
  moreover have "counted ?a 0" using old by (auto simp: counted_def v_def appendable_def)
  moreover have "append ?a \<noteq> 0" "byte_swapped ?a = sw" by simp_all
  ultimately show ?thesis unfolding w' k_def by blast
qed

lemma evOpen_append_raw:
  assumes f: "plain_name f" "read_ok e f" "works e f" "files (sys l) f = Some (raw_file sw old m)" and old: "appendable old" and c: "can_open l"
  shows "\<exists>h l' a. evOpen e l (Name f) ''a'' = Some (S_SUCCESS, Some h, l') \<and> lookup_handle l' h = Some a \<and>
    opened EV_WRITEFILE (1 + of_nat (length old)) a \<and> (\<not> sw \<longrightarrow> file_start e f a (sys l') old) \<and> counted a 0 \<and> append a \<noteq> 0 \<and> byte_swapped a = sw \<and>
    sys l' = set_file f (concat (map (raw_block sw) old) @ last_block (of_nat (length old) + 1)) (sys l) \<and>
    lookup_handle l h = None \<and> others_kept l h l'"
proof -
  have m: "malloc_ok e n" for n using f(3) by (simp add: works_def)
  define w where "w = set_file f (concat (map (raw_block sw) old) @ last_block (of_nat (length old) + 1)) (sys l)"
  let ?k = "of_nat (length old) + 1"
  have t: "open_target e (Name f) 0 0 ''a'' = Some (Inr (File f))"
    using m trimmed_plain [OF f(1)] by (simp add: open_target_def strdup_def)
  obtain a where a: "open_writing e True False (File f) structInit (sys l) = Some (Inr (a, w))" "opened EV_WRITEFILE ?k (a\<lparr>blknum := ?k\<rparr>)"
    "\<not> sw \<longrightarrow> file_start e f a w old" "counted a 0" "append a \<noteq> 0" "byte_swapped a = sw"
    using open_append [OF f old w_def] by blast
  then obtain h l' where o: "evOpenImpl e l (Name f) 0 0 (Some ''a'') = Some (S_SUCCESS, Some h, l')"
    "lookup_handle l' h = Some (a\<lparr>blknum := ?k, handle := h\<rparr>)" "sys l' = w" "lookup_handle l h = None" "others_kept l h l'"
    using open_for_writing [OF t, of l a w EV_WRITEFILE ?k] m c by (auto simp: mode_defs)
  let ?b = "a\<lparr>blknum := ?k, handle := h\<rparr>"
  have "opened EV_WRITEFILE (1 + of_nat (length old)) ?b" using a(2) by (simp add: opened_def add.commute)
  moreover have "\<not> sw \<longrightarrow> file_start e f ?b (sys l') old"
    using a(3) o(3) by (auto simp: file_start_def file_gone_def named_def)
  moreover have "counted ?b 0" "append ?b \<noteq> 0" "byte_swapped ?b = sw" using a(4-6) by (simp_all add: counted_def)
  ultimately show ?thesis using o unfolding w_def by (auto simp: evOpen_def)
qed

lemma evOpen_append:
  assumes f: "plain_name f" "read_ok e f" "works e f" "files (sys l) f = Some (file_words old m)" and old: "appendable old" and c: "can_open l"
  shows "\<exists>h l'. evOpen e l (Name f) ''a'' = Some (S_SUCCESS, Some h, l') \<and> file_writes e f False old 64000 10000 l' h [] \<and>
    sys l' = set_file f (file_words old (of_nat (length old) + 1)) (sys l) \<and> lookup_handle l h = None \<and> others_kept l h l'"
proof -
  obtain h l' a where o: "evOpen e l (Name f) ''a'' = Some (S_SUCCESS, Some h, l')" "lookup_handle l' h = Some a"
    "opened EV_WRITEFILE (1 + of_nat (length old)) a" "file_start e f a (sys l') old" "counted a 0" "\<not> byte_swapped a"
    "sys l' = set_file f (file_words old (of_nat (length old) + 1)) (sys l)" "lookup_handle l h = None" "others_kept l h l'"
    using evOpen_append_raw [of f e l False old m] f old c by (auto simp: raw_file_host host_blocks file_words_def)
  then have "block_sink.writer EV_WRITEFILE (file_start e f) (file_gone e f) False old a (sys l') []"
    using old by (intro file_sink.opened_writer) (simp_all add: appendable_def)
  then show ?thesis using o by (auto simp: file_sink.writes_def opened_def)
qed

end
