(* ===== verification/EvioOpenRead.thy ===== *)
theory EvioOpenRead
  imports EvioOpen EvioReadBlocks
begin

text \<open>
  Opening for reading, and reading to the end. The locale \<open>open_source\<close> extends \<open>word_source\<close> by what
  \<^verbatim>\<open>evOpenImpl\<close> relies on: a source that delivers the first header and the rest of the first block. Files,
  buffers and sockets are its instances; what is proved in it is that an opened source hands out exactly the
  events of its blocks.
\<close>

section \<open>Sources that can be opened\<close>

text \<open>The structure while the first block is read, and how it fits the place that was opened.\<close>

definition fresh_reader :: "EVFILE \<Rightarrow> bool" where
  "fresh_reader a \<longleftrightarrow> a = structInit\<lparr>file := file a, rw := rw a, rwBuf := rwBuf a, rwBufSize := rwBufSize a,
     rwBytesIn := rwBytesIn a, sockFd := sockFd a\<rparr>"

definition tied :: "target \<Rightarrow> EVFILE \<Rightarrow> bool" where
  "tied t a \<longleftrightarrow> (case t of File _ \<Rightarrow> rw a = EV_READFILE | Buffer _ _ \<Rightarrow> rw a = EV_READBUF
     | Socket fd \<Rightarrow> rw a = EV_READSOCK \<and> sockFd a = fd)"

locale open_source = word_source +
  fixes t :: target and starts :: "world \<Rightarrow> words \<Rightarrow> bool"
  assumes first_words: "\<lbrakk>starts w (hdr @ ys); length hdr = 8\<rbrakk> \<Longrightarrow>
      \<exists>a w'. first_header e False t structInit w = Some (Inr (32, hdr, a, w')) \<and> fresh_reader a \<and> tied t a \<and> holds a w' ys"
    and rest_words: "\<lbrakk>holds a w (xs @ ys); tied t a; 8 + length xs \<le> length (bufmem a); length xs < 2 ^ 29\<rbrakk> \<Longrightarrow>
      \<exists>f i w'. first_rest e (of_nat (4 * length xs)) t a w = Some (4 * int (length xs), advance a (ov 8 xs (bufmem a)) f i, w') \<and>
        holds (advance a (ov 8 xs (bufmem a)) f i) w' ys"

definition file_starts :: "env \<Rightarrow> string \<Rightarrow> world \<Rightarrow> words \<Rightarrow> bool" where
  "file_starts e f w zs \<longleftrightarrow> f \<noteq> [] \<and> f \<noteq> ''-'' \<and> hd f \<noteq> CHR ''|'' \<and> read_ok e f \<and> (\<exists>more. files w f = Some (zs @ more))"

definition buffer_starts :: "words \<Rightarrow> u32 \<Rightarrow> world \<Rightarrow> words \<Rightarrow> bool" where
  "buffer_starts m sz w zs \<longleftrightarrow> unat sz = 4 * length m \<and> (\<exists>more. m = zs @ more)"

definition socket_starts :: "int \<Rightarrow> world \<Rightarrow> words \<Rightarrow> bool" where
  "socket_starts fd w zs \<longleftrightarrow> (\<exists>more. sock_in w fd = bytes_of zs @ more) \<and> keeps_moving (sock_plan w fd)"

lemma fresh_fields:
  assumes "fresh_reader a"
  shows "a\<lparr>randomAccess := False\<rparr> = a" "bufmem a = []" "\<not> randomAccess a" "version a = 4" "dictionary a = None"
  using assms unfolding fresh_reader_def by (cases a; simp add: structInit_def)+

interpretation open_file: open_source e "file_holds e" "File f" "file_starts e f" for e f
proof
  fix w hdr ys
  assume s: "file_starts e f w (hdr @ ys)" and l: "length (hdr :: words) = 8"
  obtain more where m: "files w f = Some (hdr @ ys @ more)" "f \<noteq> []" "f \<noteq> ''-''" "hd f \<noteq> CHR ''|''" "read_ok e f"
    using s by (auto simp: file_starts_def)
  let ?s = "\<lparr>st_name = f, st_pos = 8, st_eof = False, st_err = False\<rparr>"
  let ?a = "structInit\<lparr>rw := EV_READFILE, file := Some ?s\<rparr>"
  have "open_stream e False f structInit w = Inr (structInit\<lparr>rw := EV_READFILE, file := fopen_read f w\<rparr>)"
    using m by (simp add: open_stream_def structInit_def)
  moreover have "fread e 8 \<lparr>st_name = f, st_pos = 0, st_eof = False, st_err = False\<rparr> w = (hdr, ?s)"
    using m l by (simp add: fread_def contents_def)
  ultimately have "first_header e False (File f) structInit w = Some (Inr (32, hdr, ?a, w))"
    using m(1) l by (simp add: first_header_def fopen_read_def)
  moreover have "file_holds e ?a w ys" using m(1,5) l by (simp add: file_holds_def contents_def)
  moreover have "fresh_reader ?a" by (simp add: fresh_reader_def structInit_def)
  ultimately show "\<exists>a w'. first_header e False (File f) structInit w = Some (Inr (32, hdr, a, w')) \<and> fresh_reader a \<and>
      tied (File f) a \<and> file_holds e a w' ys"
    by (intro exI [of _ ?a] exI [of _ w]) (simp add: tied_def)
next
  fix a w xs ys
  assume h: "file_holds e a w (xs @ ys)" and l: "8 + length xs \<le> length (bufmem a)" and n: "length (xs :: words) < 2 ^ 29"
  obtain s more where s: "rw a = EV_READFILE" "file a = Some s" "read_ok e (st_name s)" "\<not> st_eof s" "\<not> st_err s"
    "drop (st_pos s) (contents w (st_name s)) = xs @ ys @ more"
    using h by (auto simp: file_holds_def split: option.splits)
  let ?s = "s\<lparr>st_pos := st_pos s + length xs\<rparr>"
  have m: "mem a = bufmem a" "set_mem m a = a\<lparr>bufmem := m\<rparr>" for m using s(1) by (simp_all add: mem_def set_mem_def mode_defs)
  have "fread e (length xs) s w = (xs, ?s)"
    using s(3-6) by (cases s) (simp add: fread_def)
  then have "first_rest e (of_nat (4 * length xs)) (File f) a w =
      Some (4 * int (length xs), advance a (ov 8 xs (bufmem a)) (Some ?s) (rwBytesIn a), w)"
    using s(2) l paste_ov [OF l]
    by (simp add: first_rest_def bytes_count [OF n] m advance_mem(2) del: of_nat_mult)
  moreover have "drop (st_pos s + length xs) (contents w (st_name s)) = ys @ more"
    using arg_cong [OF s(6), of "drop (length xs)"] by (simp add: add.commute)
  ultimately show "\<exists>fl i w'. first_rest e (of_nat (4 * length xs)) (File f) a w =
      Some (4 * int (length xs), advance a (ov 8 xs (bufmem a)) fl i, w') \<and> file_holds e (advance a (ov 8 xs (bufmem a)) fl i) w' ys"
    using s by (intro exI [of _ "Some ?s"] exI [of _ "rwBytesIn a"] exI [of _ w]) (simp add: file_holds_def)
qed

interpretation open_buffer: open_source e buffer_holds "Buffer m sz" "buffer_starts m sz" for e m sz
proof
  fix w hdr ys
  assume s: "buffer_starts m sz w (hdr @ ys)" and l: "length (hdr :: words) = 8"
  obtain more where m: "m = hdr @ ys @ more" "unat sz = 4 * length m" using s by (auto simp: buffer_starts_def)
  let ?a = "structInit\<lparr>rwBuf := m, rw := EV_READBUF, rwBufSize := sz, rwBytesIn := 32\<rparr>"
  have "cut m 0 8 = Some hdr" using m(1) l by (simp add: cut_def)
  then have "first_header e False (Buffer m sz) structInit w = Some (Inr (32, hdr, ?a, w))"
    by (simp add: first_header_def structInit_def)
  moreover have "buffer_holds ?a w ys" using m l by (simp add: buffer_holds_def)
  moreover have "fresh_reader ?a" by (simp add: fresh_reader_def structInit_def)
  ultimately show "\<exists>a w'. first_header e False (Buffer m sz) structInit w = Some (Inr (32, hdr, a, w')) \<and> fresh_reader a \<and>
      tied (Buffer m sz) a \<and> buffer_holds a w' ys"
    by (intro exI [of _ ?a] exI [of _ w]) (simp add: tied_def)
next
  fix a w xs ys
  assume h: "buffer_holds a w (xs @ ys)" and l: "8 + length xs \<le> length (bufmem a)" and n: "length (xs :: words) < 2 ^ 29"
  obtain fl i w' where f: "fetch_all e 8 (of_nat (4 * length xs)) a w = Some (Inr (advance a (ov 8 xs (bufmem a)) fl i, w'))"
    "buffer_holds (advance a (ov 8 xs (bufmem a)) fl i) w' ys"
    using from_buffer.fetch_words [OF h l n] by blast
  have rw: "rw a = EV_READBUF" using h by (simp add: buffer_holds_def)
  have "first_rest e (of_nat (4 * length xs)) (Buffer m sz) a w = Some (4 * int (length xs), advance a (ov 8 xs (bufmem a)) fl i, w')"
    using f(1) rw bytes_count [OF n]
    by (auto simp: fetch_all_def fetch_def first_rest_def bind_Some_iff mode_defs status_simps split: if_splits simp del: of_nat_mult)
  then show "\<exists>fl i w'. first_rest e (of_nat (4 * length xs)) (Buffer m sz) a w =
      Some (4 * int (length xs), advance a (ov 8 xs (bufmem a)) fl i, w') \<and> buffer_holds (advance a (ov 8 xs (bufmem a)) fl i) w' ys"
    using f(2) by blast
qed

interpretation open_socket: open_source e socket_holds "Socket fd" "socket_starts fd" for e fd
proof
  fix w hdr ys
  assume s: "socket_starts fd w (hdr @ ys)" and l: "length (hdr :: words) = 8"
  obtain more where m: "sock_in w fd = bytes_of hdr @ bytes_of ys @ more" "keeps_moving (sock_plan w fd)"
    using s by (auto simp: socket_starts_def)
  have n: "length (bytes_of hdr) = 32" using l by simp
  obtain plan' where p: "read_loop (sock_plan w fd) 32 (bytes_of hdr @ bytes_of ys @ more) = (True, bytes_of hdr, bytes_of ys @ more, plan')"
    "keeps_moving plan'"
    using read_loop_all [OF m(2), of 32 "bytes_of hdr @ bytes_of ys @ more"] n by auto
  let ?a = "structInit\<lparr>sockFd := fd, rw := EV_READSOCK\<rparr>"
  let ?w = "w\<lparr>sock_in := (sock_in w)(fd := bytes_of ys @ more), sock_plan := (sock_plan w)(fd := plan')\<rparr>"
  have "first_header e False (Socket fd) structInit w = Some (Inr (32, hdr, ?a, ?w))"
    using m(1) p(1) n by (simp add: first_header_def tcpRead_def)
  moreover have "socket_holds ?a ?w ys" using p(2) by (simp add: socket_holds_def)
  moreover have "fresh_reader ?a" by (simp add: fresh_reader_def structInit_def)
  ultimately show "\<exists>a w'. first_header e False (Socket fd) structInit w = Some (Inr (32, hdr, a, w')) \<and> fresh_reader a \<and>
      tied (Socket fd) a \<and> socket_holds a w' ys"
    by (intro exI [of _ ?a] exI [of _ ?w]) (simp add: tied_def)
next
  fix a w xs ys
  assume h: "socket_holds a w (xs @ ys)" and ti: "tied (Socket fd) a" and l: "8 + length xs \<le> length (bufmem a)" and n: "length (xs :: words) < 2 ^ 29"
  obtain fl i w' where f: "fetch_all e 8 (of_nat (4 * length xs)) a w = Some (Inr (advance a (ov 8 xs (bufmem a)) fl i, w'))"
    "socket_holds (advance a (ov 8 xs (bufmem a)) fl i) w' ys"
    using from_socket.fetch_words [OF h l n] by blast
  have rw: "rw a = EV_READSOCK" "sockFd a = fd" using h ti by (simp_all add: socket_holds_def tied_def)
  have "first_rest e (of_nat (4 * length xs)) (Socket fd) a w = Some (4 * int (length xs), advance a (ov 8 xs (bufmem a)) fl i, w')"
    using f(1) rw bytes_count [OF n]
    by (auto simp: fetch_all_def fetch_def first_rest_def bind_Some_iff mode_defs status_simps split: if_splits prod.splits simp del: of_nat_mult)
  then show "\<exists>fl i w'. first_rest e (of_nat (4 * length xs)) (Socket fd) a w =
      Some (4 * int (length xs), advance a (ov 8 xs (bufmem a)) fl i, w') \<and> socket_holds (advance a (ov 8 xs (bufmem a)) fl i) w' ys"
    using f(2) by blast
qed

section \<open>Any source\<close>

definition any_holds :: "env \<Rightarrow> EVFILE \<Rightarrow> world \<Rightarrow> words \<Rightarrow> bool" where
  "any_holds e a w zs \<longleftrightarrow> file_holds e a w zs \<or> buffer_holds a w zs \<or> socket_holds a w zs"

definition starts_at :: "env \<Rightarrow> target \<Rightarrow> world \<Rightarrow> words \<Rightarrow> bool" where
  "starts_at e t w zs = (case t of File f \<Rightarrow> file_starts e f w zs | Buffer m sz \<Rightarrow> buffer_starts m sz w zs
     | Socket fd \<Rightarrow> socket_starts fd w zs)"

interpretation any_source: word_source e "any_holds e" for e
proof
  fix a w xs ys off
  assume h: "any_holds e a w (xs @ ys)" and l: "off + length xs \<le> length (bufmem a)" and n: "length xs < 2 ^ 29"
  show "\<exists>f i w'. fetch_all e off (of_nat (4 * length xs)) a w = Some (Inr (advance a (ov off xs (bufmem a)) f i, w')) \<and>
        any_holds e (advance a (ov off xs (bufmem a)) f i) w' ys"
    using h from_file.fetch_words [OF _ l n, of e w ys] from_buffer.fetch_words [OF _ l n, of w ys e]
      from_socket.fetch_words [OF _ l n, of w ys e]
    unfolding any_holds_def by metis
next
  show "same_source a b \<Longrightarrow> any_holds e a w zs \<Longrightarrow> any_holds e b w zs" for a b w zs
    using from_file.same_holds from_buffer.same_holds from_socket.same_holds unfolding any_holds_def by metis
  show "any_holds e a w zs \<Longrightarrow> rw a \<in> {EV_READFILE, EV_READSOCK, EV_READBUF}" for a w zs
    using from_file.readable from_buffer.readable from_socket.readable unfolding any_holds_def by metis
  show "any_holds e a w zs \<Longrightarrow> rw a = EV_READFILE \<Longrightarrow> \<exists>s. file a = Some s \<and> \<not> st_eof s \<and> \<not> st_err s" for a w zs
    using from_file.no_eof [of e a w zs] by (auto simp: any_holds_def buffer_holds_def socket_holds_def mode_defs)
qed
interpretation open_any: open_source e "any_holds e" t "starts_at e t" for e t
proof
  fix w hdr ys
  assume s: "starts_at e t w (hdr @ ys)" and l: "length (hdr :: words) = 8"
  show "\<exists>a w'. first_header e False t structInit w = Some (Inr (32, hdr, a, w')) \<and> fresh_reader a \<and> tied t a \<and> any_holds e a w' ys"
    using s l open_file.first_words [of e _ w hdr ys] open_buffer.first_words [of _ _ w hdr ys e] open_socket.first_words [of _ w hdr ys e]
    unfolding any_holds_def by (cases t) (simp_all add: starts_at_def, blast+)
next
  fix a w xs ys
  assume h: "any_holds e a w (xs @ ys)" and ti: "tied t a" and l: "8 + length xs \<le> length (bufmem a)" and n: "length (xs :: words) < 2 ^ 29"
  show "\<exists>f i w'. first_rest e (of_nat (4 * length xs)) t a w = Some (4 * int (length xs), advance a (ov 8 xs (bufmem a)) f i, w') \<and>
        any_holds e (advance a (ov 8 xs (bufmem a)) f i) w' ys"
  proof (cases t)
    case (File f)
    then have "file_holds e a w (xs @ ys)" using h ti by (auto simp: any_holds_def tied_def buffer_holds_def socket_holds_def mode_defs)
    from open_file.rest_words [OF this _ l n, of f] show ?thesis using ti unfolding File any_holds_def by (auto simp: tied_def)
  next
    case (Buffer m sz)
    then have "buffer_holds a w (xs @ ys)" using h ti by (auto simp: any_holds_def tied_def file_holds_def socket_holds_def mode_defs)
    from open_buffer.rest_words [OF this _ l n, of m sz] show ?thesis using ti unfolding Buffer any_holds_def by blast
  next
    case (Socket fd)
    then have "socket_holds a w (xs @ ys)" using h ti by (auto simp: any_holds_def tied_def file_holds_def buffer_holds_def mode_defs)
    from open_socket.rest_words [OF this _ l n, of fd] show ?thesis using ti unfolding Socket any_holds_def by blast
  qed
qed

section \<open>The first block\<close>

lemma header_version [simp]: "generateSixthWord 4 d lst 0 AND EV_VERSION_MASK = 4"
  by (cases d; cases lst; simp add: generateSixthWord_def const_defs)

lemma sixth_last [simp]: "isLastBlockInt (generateSixthWord 4 d lst 0) \<longleftrightarrow> lst"
  by (cases lst) simp_all

lemma host_in_order: "map (host a) (in_order (byte_swapped a) hdr) = hdr"
  by (simp add: in_order_def host_def map_idI)

lemma host_nth:
  "byte_swapped a = sw \<Longrightarrow> i < length hdr \<Longrightarrow> host a (in_order sw hdr ! i) = hdr ! i"
  by (simp add: in_order_def host_def)

lemma header_words [simp]:
  "block_header len num cnt d lst ! EV_HD_BLKSIZ = len" "block_header len num cnt d lst ! EV_HD_BLKNUM = num"
  "block_header len num cnt d lst ! EV_HD_HDSIZ = 8" "block_header len num cnt d lst ! EV_HD_COUNT = cnt"
  "block_header len num cnt d lst ! EV_HD_VER = generateSixthWord 4 d lst 0" "block_header len num cnt d lst ! EV_HD_MAGIC = EV_MAGIC"
  by (simp_all add: block_header_def pos_defs eval_nat_numeral)

lemma header_positions:
  "EV_HD_BLKSIZ < 8" "EV_HD_BLKNUM < 8" "EV_HD_HDSIZ < 8" "EV_HD_COUNT < 8" "EV_HD_VER < 8" "EV_HD_MAGIC < 8"
  by (simp_all add: pos_defs)

lemma check_block_header:
  "check_header (in_order sw (block_header len num cnt d lst)) a = Some (a\<lparr>byte_swapped := sw, version := 4\<rparr>)"
proof -
  let ?h = "block_header len num cnt d lst"
  let ?a = "a\<lparr>byte_swapped := sw\<rparr>"
  have ne: "EVIO_SWAP32 EV_MAGIC \<noteq> EV_MAGIC" by (simp add: EV_MAGIC_def EVIO_SWAP32_def)
  have h: "host ?a (in_order sw ?h ! EV_HD_VER) = generateSixthWord 4 d lst 0" "host ?a (in_order sw ?h ! EV_HD_HDSIZ) = 8"
    by (simp_all add: host_nth header_positions)
  have m: "in_order sw ?h ! EV_HD_MAGIC \<noteq> EV_MAGIC \<longleftrightarrow> sw" "in_order sw ?h ! EV_HD_MAGIC = EV_MAGIC \<or> EVIO_SWAP32 (in_order sw ?h ! EV_HD_MAGIC) = EV_MAGIC"
    using ne by (auto simp: in_order_def header_positions)
  show ?thesis using m h by (cases sw) (simp_all add: check_header_def EV_HDSIZ_def)
qed

context open_source begin

text \<open>Opening leaves the data of the first block to be read, but for a dictionary.\<close>

lemma open_first:
  assumes s: "starts w (in_order sw hdr @ data @ ys)" and hdr: "hdr = block_header (of_nat (8 + length data)) num cnt dic lst"
    and sz: "8 + length data < 2 ^ 29" and memory: "\<And>n. malloc_ok e n"
  shows "\<exists>a w'. open_reading e False t structInit w = map_option Inr (take_dictionary e a w') \<and> holds a w' ys \<and> in_block a data \<and>
    rd_buf a (buf a + EV_HD_VER) = Some (generateSixthWord 4 dic lst 0) \<and> dictionary a = None \<and> isLastBlock a = lst \<and> block_reader a \<and> byte_swapped a = sw \<and> \<not> randomAccess a \<and> rd_buf a (buf a + EV_HD_BLKNUM) = Some num"
proof -
  have l: "length hdr = 8" by (simp add: hdr)
  obtain a1 w1 where h1: "first_header e False t structInit w = Some (Inr (32, in_order sw hdr, a1, w1))" "fresh_reader a1" "tied t a1"
    "holds a1 w1 (data @ ys)"
    using first_words [OF s] l by auto
  define size :: u32 where "size = of_nat (8 + length data)"
  define z where "z = (if size < EV_BLOCKSIZE_MIN then EV_BLOCKSIZE_MIN else size)"
  let ?a = "a1\<lparr>byte_swapped := sw, version := 4\<rparr>"
  let ?b = "?a\<lparr>blksiz := size, bufSize := z\<rparr>"
  have us: "unat size = 8 + length data" unfolding size_def using sz by (intro unat_of_nat_32) simp
  have uz: "unat z = max 256 (8 + length data)" using us by (auto simp: z_def EV_BLOCKSIZE_MIN_def word_less_nat_alt)
  have u4: "unat (4 * z) div 4 = unat z" using uz sz by (simp add: unat_word_ariths)
  have hw: "hdr ! EV_HD_BLKSIZ = size" "hdr ! EV_HD_BLKNUM = num" "hdr ! EV_HD_HDSIZ = 8" "hdr ! EV_HD_VER = generateSixthWord 4 dic lst 0"
    by (simp_all add: hdr size_def)
  have hosts: "host ?a (in_order sw hdr ! EV_HD_BLKSIZ) = size" "host ?a (in_order sw hdr ! EV_HD_HDSIZ) = 8"
    using hw l by (simp_all add: host_nth header_positions)
  have mp: "map (host ?b) (in_order sw hdr) = hdr" using host_in_order [of ?b hdr] by simp
  define m where "m = ov 0 hdr (fresh e (unat z))"
  have pm: "paste (fresh e (unat z)) 0 hdr = Some m" unfolding m_def using uz l by (intro paste_ov) (simp add: fresh_def)
  have lm: "length m = unat z" by (simp add: m_def fresh_def)
  have rw: "rw a1 \<noteq> EV_WRITEBUF" using readable [OF h1(4)] by (auto simp: mode_defs)
  let ?c = "?b\<lparr>bufmem := m, buf := 0\<rparr>"
  have sm: "set_mem m ?b = ?b\<lparr>bufmem := m\<rparr>" using rw by (simp add: set_mem_def)
  have hc: "holds ?c w1 (data @ ys)" by (rule same_holds [OF _ h1(4)]) (simp add: same_source_def)
  have n: "4 * (size - EV_HDSIZ) = of_nat (4 * length data)" by (simp add: EV_HDSIZ_def size_def)
  have sl: "size - 8 = of_nat (length data)" by (simp add: size_def)
  have bc: "unat (of_nat (4 * length data) :: u32) = 4 * length data" using sz by (intro bytes_count) simp
  have tc: "tied t ?c" using h1(3) by (cases t) (simp_all add: tied_def)
  obtain f i w2 where r: "first_rest e (of_nat (4 * length data)) t ?c w1 = Some (4 * int (length data), advance ?c (ov 8 data m) f i, w2)"
    "holds (advance ?c (ov 8 data m) f i) w2 ys"
    using rest_words [OF hc tc] lm uz sz by auto
  define d where "d = advance ?c (ov 8 data m) f i"
  have df: "bufmem d = ov 8 data m" "rw d \<noteq> EV_WRITEBUF" "buf d = 0" "version d = 4" "bufSize d = z" "byte_swapped d = sw" "randomAccess d = False" "dictionary d = None"
    using rw fresh_fields(3,5) [OF h1(2)] by (simp_all add: d_def)
  have at_d: "at 8 data (ov 8 data m)" using uz lm by (intro at_ov) simp
  have "at 0 hdr m" unfolding m_def using uz l by (intro at_ov) (simp add: fresh_def)
  then have at_h: "at 0 hdr (ov 8 data m)" using l by (simp add: at_ov_after)
  have rd_d: "rd (mem d) k = Some (hdr ! k)" if "k < 8" for k
    using at_start_rd [OF at_h] that l df by (simp add: mem_def)
  let ?e = "d\<lparr>next := 8, left := of_nat (length data), isLastBlock := lst\<rparr>"
  have me: "mem ?e = mem d" by (simp add: mem_def)
  have nd: "rd_buf ?e (buf ?e + EV_HD_VER) = Some (generateSixthWord 4 dic lst 0)"
    using rd_d [of EV_HD_VER] df(3) hw(4) by (simp add: header_positions rd_buf_def me)
  have "first_block e (in_order sw hdr) t ?a w1 = map_option Inr (take_dictionary e ?e w2)"
    unfolding first_block_def Let_def hosts z_def [symmetric]
    using memory mp pm sm u4 r(1) rd_d [of EV_HD_BLKSIZ] rd_d [of EV_HD_VER] df hw sl
    by (simp add: n bc header_positions d_def [symmetric] rd_buf_def del: of_nat_mult right_diff_distrib_numeral)
  then have "open_reading e False t structInit w = map_option Inr (take_dictionary e ?e w2)"
    using h1(1) check_block_header [of sw size num cnt dic lst a1] by (simp add: open_reading_def hdr size_def)
  moreover have "holds ?e w2 ys" by (rule same_holds [OF _ r(2)]) (simp add: same_source_def d_def)
  moreover have "in_block ?e data" using at_d df(1) sz unat_of_nat_32 [of "length data"] by (simp add: in_block_def)
  moreover have "rd_buf ?e (buf ?e + EV_HD_BLKNUM) = Some num"
    using rd_d [of EV_HD_BLKNUM] df(3) hw(2) by (simp add: rd_buf_def me header_positions)
  moreover have "block_reader ?e" using uz df lm by (simp add: block_reader_def)
  ultimately show ?thesis using df nd by (intro exI [of _ ?e] exI [of _ w2]) simp
qed

end

section \<open>What a handle still delivers\<close>

definition delivers :: "(EVFILE \<Rightarrow> world \<Rightarrow> words \<Rightarrow> bool) \<Rightarrow> bool \<Rightarrow> EVFILE \<Rightarrow> world \<Rightarrow> words list \<Rightarrow> bool" where
  "delivers holds sw a w evs \<longleftrightarrow>
     (\<exists>raws bs n. reader holds a w sw raws bs n \<and> list_all2 (stored sw) (raws @ events_of bs) evs) \<or> at_end a \<and> evs = []"

definition feeds :: "(EVFILE \<Rightarrow> world \<Rightarrow> words \<Rightarrow> bool) \<Rightarrow> bool \<Rightarrow> lib \<Rightarrow> int \<Rightarrow> words list \<Rightarrow> bool" where
  "feeds holds sw l h evs \<longleftrightarrow> (\<exists>a. lookup_handle l h = Some a \<and> delivers holds sw a (sys l) evs)"

context word_source begin

lemma delivers_same:
  assumes "delivers holds sw a w evs" "b = a\<lparr>blknum := n, dictionary := d, handle := h\<rparr>"
  shows "delivers holds sw b w evs"
proof -
  have "holds a w zs \<Longrightarrow> holds b w zs" for zs by (rule same_holds) (simp_all add: assms(2) same_source_def)
  moreover have "block_reader b = block_reader a" "in_block b ws = in_block a ws" "at_end b = at_end a" "byte_swapped b = byte_swapped a"
    "randomAccess b = randomAccess a" "isLastBlock b = isLastBlock a" for ws
    by (simp_all add: assms(2) block_reader_def in_block_def at_end_def reading_def)
  ultimately show ?thesis using assms(1) unfolding delivers_def reader_def by fastforce
qed

end

context open_source begin

text \<open>An opened source delivers the events of its blocks; the dictionary of the first block is taken out.\<close>

lemma open_blocks:
  assumes s: "starts w (raw_file sw bs n)" and bs: "list_all block_fits bs" and ev: "list_all2 (stored sw) (events_of bs) evs"
    and dict: "with_dictionary bs \<Longrightarrow> evTrim (Some (chars_of (hd evs))) 8 = Some d" and memory: "\<And>n. malloc_ok e n"
  shows "\<exists>a w'. open_reading e False t structInit w = Some (Inr (a, w')) \<and> rd_buf a (buf a + EV_HD_BLKNUM) \<noteq> None \<and>
    delivers holds sw a w' (if with_dictionary bs then tl evs else evs) \<and> dictionary a = (if with_dictionary bs then d else None)"
proof (cases bs)
  case Nil
  have st: "starts w (in_order sw (block_header (of_nat (8 + length ([] :: words))) n 0 False True) @ [] @ [])"
    using s Nil by (simp add: raw_file_def last_block_def)
  obtain a w' where a: "open_reading e False t structInit w = map_option Inr (take_dictionary e a w')" "holds a w' []" "in_block a []" "isLastBlock a"
    "block_reader a" "\<not> randomAccess a" "rd_buf a (buf a + EV_HD_BLKNUM) = Some n" "rd_buf a (buf a + EV_HD_VER) = Some (generateSixthWord 4 False True 0)"
    "dictionary a = None"
    using open_first [OF st refl _ memory] by auto
  have "reading a" using readable [OF a(2)] by (auto simp: reading_def)
  then have "delivers holds sw a w' evs" using a ev Nil by (simp add: delivers_def at_end_def block_reader_def in_block_def unat_eq_0)
  moreover have "take_dictionary e a w' = Some (a, w')" using a(8) by (simp add: take_dictionary_def)
  ultimately show ?thesis using a(1,7,9) Nil by (auto simp: with_dictionary_def)
next
  case (Cons b bs')
  have b: "b_events b \<noteq> []" "8 + length (body b) < 2 ^ 29" "list_all block_fits bs'"
    using bs Cons by (simp_all add: block_fits_def)
  have w: "with_dictionary bs \<longleftrightarrow> b_dict b" by (simp add: with_dictionary_def Cons)
  have st: "starts w (in_order sw (block_header (of_nat (8 + length (body b))) (b_num b) (event_count b) (b_dict b) False) @ body b @ raw_file sw bs' n)"
    using s unfolding Cons raw_file_Cons by simp
  obtain a w' where a: "open_reading e False t structInit w = map_option Inr (take_dictionary e a w')" "holds a w' (raw_file sw bs' n)" "in_block a (body b)"
    "\<not> isLastBlock a" "block_reader a" "byte_swapped a = sw" "\<not> randomAccess a" "rd_buf a (buf a + EV_HD_BLKNUM) = Some (b_num b)"
    "rd_buf a (buf a + EV_HD_VER) = Some (generateSixthWord 4 (b_dict b) False 0)" "dictionary a = None"
    using open_first [OF st refl b(2) memory] by auto
  have r: "reader holds a w' sw (b_events b) bs' n" using a b(3) by (simp add: reader_def body_def)
  have st: "list_all2 (stored sw) (b_events b @ events_of bs') evs" using ev Cons by simp
  show ?thesis
  proof (cases "b_dict b")
    case False
    have "delivers holds sw a w' evs" using r st by (auto simp: delivers_def)
    moreover have "take_dictionary e a w' = Some (a, w')" using a(9) False by (simp add: take_dictionary_def)
    ultimately show ?thesis using a(1,8,10) False w by auto
  next
    case True
    obtain x xs where evs: "evs = x # xs" using st b(1) by (cases evs) auto
    have reader_header: "rd_buf c (buf c + EV_HD_BLKNUM) \<noteq> None" if q: "reader holds c v sw raws cs n" for c v raws cs
    proof -
      have "rw c \<noteq> EV_WRITEBUF" using q readable [of c v "raw_file sw cs n"] by (auto simp: reader_def mode_defs)
      then show ?thesis using q by (simp add: reader_def block_reader_def rd_buf_def rd_def mem_def pos_defs)
    qed
    obtain a2 w2 raws cs where x: "evReadAllocImpl e a w' = Some (S_SUCCESS, Some x, a2, w2)" "reader holds a2 w2 sw raws cs n"
      "list_all2 (stored sw) (raws @ events_of cs) xs" "rd_buf a2 (buf a2 + EV_HD_BLKNUM) \<noteq> None"
      using read_alloc_event [OF r _ memory] st evs reader_header by blast
    have "take_dictionary e a w' = Some (a2\<lparr>dictionary := d\<rparr>, w2)"
      using a(9) True x(1) dict w evs by (simp add: take_dictionary_def)
    moreover have "delivers holds sw a2 w2 xs" using x(2,3) by (auto simp: delivers_def)
    then have "delivers holds sw (a2\<lparr>dictionary := d\<rparr>) w2 xs"
      by (rule delivers_same [where n = "blknum a2" and h = "handle a2"]) (cases a2; simp)
    moreover have "rd_buf (a2\<lparr>dictionary := d\<rparr>) (buf a2 + EV_HD_BLKNUM) \<noteq> None" using x(4) by (simp add: rd_buf_def mem_def split: if_splits)
    ultimately show ?thesis using a(1) True w evs by auto
  qed
qed

end

section \<open>Reading to the end\<close>

text \<open>Reading with \<^verbatim>\<open>evReadAlloc\<close> until it returns something else than success.\<close>

partial_function (option) read_all :: "env \<Rightarrow> int \<Rightarrow> lib \<Rightarrow> (status \<times> words list \<times> lib) option" where
  "read_all e h l = do {
     (st, ev, l) \<leftarrow> evReadAlloc e l h;
     if st \<noteq> S_SUCCESS then Some (st, [], l)
     else do {
       ev \<leftarrow> ev;
       (st, evs, l) \<leftarrow> read_all e h l;
       Some (st, ev # evs, l)
     }
   }"

text \<open>Only the handle's own slot changes.\<close>

context word_source begin

lemma delivers_next:
  assumes d: "delivers holds sw a w (ev # evs)" and memory: "\<And>n. malloc_ok e n"
  shows "\<exists>a' w'. evReadAllocImpl e a w = Some (S_SUCCESS, Some ev, a', w') \<and> delivers holds sw a' w' evs"
  using d read_alloc_event [OF _ _ memory] unfolding delivers_def by blast

lemma delivers_end:
  assumes d: "delivers holds sw a w []" and memory: "\<And>n. malloc_ok e n"
  shows "\<exists>a' w'. evReadAllocImpl e a w = Some (c_EOF, None, a', w') \<and> delivers holds sw a' w' []"
proof -
  consider "at_end a" | raws bs n where "reader holds a w sw raws bs n" "raws @ events_of bs = []"
    using d by (auto simp: delivers_def)
  then show ?thesis
  proof cases
    case 1 then show ?thesis using read_at_end by (auto simp: delivers_def)
  next
    case (2 raws bs n)
    have "bs = []" using 2 by (cases bs) (auto simp: reader_def block_fits_def)
    then show ?thesis using read_alloc_end [OF _ memory, of a w sw n] 2 by (auto simp: delivers_def)
  qed
qed

lemma evReadAlloc_next:
  assumes f: "feeds holds sw l h (ev # evs)" and memory: "\<And>n. malloc_ok e n"
  shows "\<exists>l'. evReadAlloc e l h = Some (S_SUCCESS, Some ev, l') \<and> feeds holds sw l' h evs \<and> others_kept l h l'"
proof -
  obtain a where a: "lookup_handle l h = Some a" "delivers holds sw a (sys l) (ev # evs)" using f by (auto simp: feeds_def)
  obtain a' w' where r: "evReadAllocImpl e a (sys l) = Some (S_SUCCESS, Some ev, a', w')" "delivers holds sw a' w' evs"
    using delivers_next [OF a(2) memory] by blast
  have "feeds holds sw ((store_handle l h a')\<lparr>sys := w'\<rparr>) h evs" using handles.get_put [of l h a'] a(1) r(2) by (simp add: feeds_def)
  then show ?thesis using a(1) bad_handle_lookup [OF a(1)] r(1) others_kept_store [OF a(1)] by (simp add: evReadAlloc_def)
qed

lemma evReadAlloc_end:
  assumes f: "feeds holds sw l h []" and memory: "\<And>n. malloc_ok e n"
  shows "\<exists>l'. evReadAlloc e l h = Some (c_EOF, None, l') \<and> feeds holds sw l' h [] \<and> others_kept l h l'"
proof -
  obtain a where a: "lookup_handle l h = Some a" "delivers holds sw a (sys l) []" using f by (auto simp: feeds_def)
  obtain a' w' where r: "evReadAllocImpl e a (sys l) = Some (c_EOF, None, a', w')" "delivers holds sw a' w' []"
    using delivers_end [OF a(2) memory] by blast
  have "feeds holds sw ((store_handle l h a')\<lparr>sys := w'\<rparr>) h []" using handles.get_put [of l h a'] a(1) r(2) by (simp add: feeds_def)
  then show ?thesis using a(1) bad_handle_lookup [OF a(1)] r(1) others_kept_store [OF a(1)] by (simp add: evReadAlloc_def)
qed

lemma read_all_feeds:
  assumes memory: "\<And>n. malloc_ok e n"
  shows "feeds holds sw l h evs \<Longrightarrow> \<exists>l'. read_all e h l = Some (c_EOF, evs, l') \<and> feeds holds sw l' h [] \<and> others_kept l h l'"
proof (induction evs arbitrary: l)
  case Nil
  then show ?case using evReadAlloc_end [OF Nil memory] by (auto simp: read_all.simps status_simps)
next
  case (Cons ev evs)
  obtain l1 where l1: "evReadAlloc e l h = Some (S_SUCCESS, Some ev, l1)" "feeds holds sw l1 h evs" "others_kept l h l1"
    using evReadAlloc_next [OF Cons.prems memory] by blast
  obtain l2 where "read_all e h l1 = Some (c_EOF, evs, l2)" "feeds holds sw l2 h []" "others_kept l1 h l2" using Cons.IH [OF l1(2)] by blast
  then show ?case using l1(1) others_kept_trans [OF l1(3)] by (subst read_all.simps) auto
qed

end

section \<open>The other two ways to read\<close>

context word_source begin

lemma delivers_mode: "delivers holds sw a w evs \<Longrightarrow> reading a \<and> \<not> randomAccess a \<and> version a = 4"
  using reader_modes by (auto simp: delivers_def at_end_def reader_def)

text \<open>\<^verbatim>\<open>evRead\<close> into a buffer of \<open>buflen\<close> words: the event, or a refusal that takes nothing from the source.\<close>

lemma evRead_next:
  assumes f: "feeds holds sw l h (ev # evs)" and memory: "\<And>n. malloc_ok e n"
    and len: "length ev \<le> unat buflen" "unat buflen \<le> length buffer" "3 \<le> buflen"
  shows "\<exists>l'. evRead e l h (Some buffer) buflen = Some (S_SUCCESS, Some (ov 0 ev buffer), l') \<and> feeds holds sw l' h evs \<and> others_kept l h l'"
proof -
  obtain a where a: "lookup_handle l h = Some a" "delivers holds sw a (sys l) (ev # evs)" using f by (auto simp: feeds_def)
  obtain a' w' where r: "read_event e a (sys l) buffer buflen = Some (S_SUCCESS, ov 0 ev buffer, a', w')" "delivers holds sw a' w' evs"
    using a(2) read_event_into [OF _ _ memory len(1,2)] unfolding delivers_def by blast
  have "feeds holds sw ((store_handle l h a')\<lparr>sys := w'\<rparr>) h evs" using handles.get_put [of l h a'] a(1) r(2) by (simp add: feeds_def)
  then show ?thesis
    using a(1) bad_handle_lookup [OF a(1)] r(1) others_kept_store [OF a(1)] delivers_mode [OF a(2)] len(3)
    by (auto simp: evRead_def)
qed

lemma evRead_truncated:
  assumes f: "feeds holds sw l h (ev # evs)" and memory: "\<And>n. malloc_ok e n" and len: "unat buflen < length ev" "3 \<le> buflen"
  shows "\<exists>l'. evRead e l h (Some buffer) buflen = Some (S_EVFILE_TRUNC, Some buffer, l') \<and> feeds holds sw l' h (ev # evs) \<and> others_kept l h l'"
proof -
  obtain a where a: "lookup_handle l h = Some a" "delivers holds sw a (sys l) (ev # evs)" using f by (auto simp: feeds_def)
  obtain raws bs n where r: "reader holds a (sys l) sw raws bs n" "list_all2 (stored sw) (raws @ events_of bs) (ev # evs)"
    using a(2) by (auto simp: delivers_def)
  obtain a1 w1 raw raws' bs' where m: "more_data e a (sys l) = Some (S_SUCCESS, a1, w1)" "reader holds a1 w1 sw (raw # raws') bs' n"
    "stored sw raw ev" "list_all2 (stored sw) (raws' @ events_of bs') evs"
    using next_event_ready [OF r memory] by blast
  have el: "event_length a1 = Some (of_nat (length ev))"
    using take_event(1) [OF m(2,3)] stored_length [OF m(3)] by simp
  have "unat (of_nat (length ev) :: u32) = length ev"
    using stored_first(3) [OF m(3)] stored_length [OF m(3)] by (intro unat_of_nat_32) simp
  then have "read_event e a (sys l) buffer buflen = Some (S_EVFILE_TRUNC, buffer, a1, w1)"
    using m(1) el memory len(1) by (simp add: read_event_def word_less_nat_alt)
  moreover have "delivers holds sw a1 w1 (ev # evs)"
    unfolding delivers_def using m(2-4) by (intro disjI1 exI [of _ "raw # raws'"] exI [of _ bs'] exI [of _ n]) simp
  then have "feeds holds sw ((store_handle l h a1)\<lparr>sys := w1\<rparr>) h (ev # evs)"
    using handles.get_put [of l h a1] a(1) by (simp add: feeds_def)
  ultimately show ?thesis
    using a(1) bad_handle_lookup [OF a(1)] others_kept_store [OF a(1)] delivers_mode [OF a(2)] len(2)
    by (auto simp: evRead_def)
qed

text \<open>\<^verbatim>\<open>evReadNoCopy\<close>: the event lies at the returned place of the block buffer.\<close>

lemma evReadNoCopy_next:
  assumes f: "feeds holds sw l h (ev # evs)" and memory: "\<And>n. malloc_ok e n"
  shows "\<exists>p l' a'. evReadNoCopy e l h = Some (S_SUCCESS, Some (p, of_nat (length ev)), l') \<and> lookup_handle l' h = Some a' \<and>
    at p ev (mem a') \<and> feeds holds sw l' h evs \<and> others_kept l h l'"
proof -
  obtain a where a: "lookup_handle l h = Some a" "delivers holds sw a (sys l) (ev # evs)" using f by (auto simp: feeds_def)
  obtain p a' w' where r: "next_in_buffer e a (sys l) = Some (S_SUCCESS, Some (p, of_nat (length ev)), a', w')" "at p ev (mem a')"
    "delivers holds sw a' w' evs"
    using a(2) next_in_buffer_event [OF _ _ memory] unfolding delivers_def by blast
  let ?l = "(store_handle l h a')\<lparr>sys := w'\<rparr>"
  have lk: "lookup_handle ?l h = Some a'" using handles.get_put [of l h a'] a(1) by simp
  then have "feeds holds sw ?l h evs" using r(3) by (simp add: feeds_def)
  then show ?thesis
    using lk a(1) bad_handle_lookup [OF a(1)] r(1,2) others_kept_store [OF a(1)] delivers_mode [OF a(2)]
    by (auto simp: evReadNoCopy_def)
qed

end

section \<open>Opening for reading\<close>

context open_source begin

lemma open_call:
  assumes tg: "open_target e src bufLen fd fl = Some (Inr t)" and fl: "map lower (take 1 fl) = ''r''" "\<not> one_of fl [''ra'', ''rab'']"
    and s: "starts (sys l) (raw_file sw bs n)" and bs: "list_all block_fits bs" and ev: "list_all2 (stored sw) (events_of bs) evs"
    and dict: "with_dictionary bs \<Longrightarrow> evTrim (Some (chars_of (hd evs))) 8 = Some d" and memory: "\<And>n. malloc_ok e n" and room: "can_open l"
  shows "\<exists>h l' a. evOpenImpl e l src bufLen fd (Some fl) = Some (S_SUCCESS, Some h, l') \<and>
    feeds holds sw l' h (if with_dictionary bs then tl evs else evs) \<and>
    lookup_handle l' h = Some a \<and> dictionary a = (if with_dictionary bs then d else None) \<and>
    lookup_handle l h = None \<and> others_kept l h l'"
proof -
  obtain a w' num where a: "open_reading e False t structInit (sys l) = Some (Inr (a, w'))" "rd_buf a (buf a + EV_HD_BLKNUM) = Some num"
    "delivers holds sw a w' (if with_dictionary bs then tl evs else evs)" "dictionary a = (if with_dictionary bs then d else None)"
    using open_blocks [OF s bs ev dict memory] by auto
  let ?a = "a\<lparr>blknum := num\<rparr>"
  have "can_open (l\<lparr>sys := w'\<rparr>)" using room by (simp add: can_open_def)
  then obtain h l' where h: "newHandle e ?a (l\<lparr>sys := w'\<rparr>) = Some (h, l')"
    using newHandle_ok [where e = e and l = "l\<lparr>sys := w'\<rparr>"] memory unfolding can_open_def by blast
  note hb = newHandle_binds [OF h]
  have "delivers holds sw (?a\<lparr>handle := h\<rparr>) w' (if with_dictionary bs then tl evs else evs)"
    by (rule delivers_same [OF a(3), where n = num and d = "dictionary a" and h = h]) (cases a; simp)
  then have "feeds holds sw l' h (if with_dictionary bs then tl evs else evs)" using hb by (simp add: feeds_def)
  moreover have "evOpenImpl e l src bufLen fd (Some fl) = Some (S_SUCCESS, Some h, l')"
    unfolding evOpenImpl_def option.case(2) tg Option.bind_lunit Let_def using fl memory a(1,2) h by simp
  ultimately show ?thesis using hb a(4) by (auto simp: others_kept_def)
qed

end

end
