(* ===== verification/EvioRoundTrip.thy ===== *)
theory EvioRoundTrip imports EvioOpenWrite EvioOpenRead begin

text \<open>
  The calls together: a file, socket or pipe is opened, written event by event and closed, then opened
  again and read to its end. What comes out is what went in.
\<close>

section \<open>Reading back\<close>

lemma stored_same: "list_all event evs \<Longrightarrow> list_all2 (stored False) evs evs"
  by (induction evs) (simp_all add: stored_def)

lemma good_blocks_readable:
  assumes "list_all (good_block t m) bs" "unat t < 2 ^ 28"
  shows "list_all block_fits bs" "list_all event (events_of bs)"
proof -
  have "8 + length (body b) < 2 ^ 29" if "good_block t m b" for b
  proof -
    have "length (body b) \<le> unat t \<or> (\<exists>ev. b_events b = [ev] \<and> event ev)"
      using that by (cases "b_events b") (auto simp: good_block_def)
    then show ?thesis using assms(2) by (auto simp: event_def body_def)
  qed
  then show "list_all block_fits bs" "list_all event (events_of bs)"
    using assms(1) by (auto simp: list_all_iff block_fits_def good_block_def events_of_def)
qed

lemma marked_dictionary: "list_all (marked dic) bs \<Longrightarrow> numbered 1 bs \<Longrightarrow> with_dictionary bs \<longleftrightarrow> dic \<and> bs \<noteq> []"
  by (cases bs) (auto simp: with_dictionary_def marked_def)

text \<open>Opening a file, a buffer or a socket to read from it.\<close>

definition open_to_read :: "env \<Rightarrow> lib \<Rightarrow> target \<Rightarrow> (status \<times> int option \<times> lib) option" where
  "open_to_read e l t = (case t of File f \<Rightarrow> evOpen e l (Name f) ''r''
     | Buffer m sz \<Rightarrow> evOpenBuffer e l (Memory m) (of_nat (length m)) ''r''
     | Socket fd \<Rightarrow> evOpenSocket e l fd ''r'')"

definition proper :: "target \<Rightarrow> bool" where
  "proper t \<longleftrightarrow> (case t of File f \<Rightarrow> plain_name f | Buffer m sz \<Rightarrow> 11 \<le> length m \<and> length m < 2 ^ 28 \<and> sz = 4 * of_nat (length m)
     | Socket fd \<Rightarrow> 0 \<le> fd)"

lemma more_flags_simps [simp]:
  "\<not> strcasecmp_eq ''r'' ''w''" "strcasecmp_eq ''r'' ''r''" "lower CHR ''b'' = CHR ''b''" "lower CHR ''s'' = CHR ''s''"
  "\<not> one_of ''rb'' [''w'', ''s'', ''r'', ''a'', ''ra'']" "one_of ''rb'' [''wb'', ''rb'', ''ab'', ''rab'']"
  "\<not> one_of ''rb'' [''ra'', ''rab'']" "\<not> one_of ''rs'' [''w'', ''s'', ''r'', ''a'', ''ra'']"
  "\<not> one_of ''rs'' [''wb'', ''rb'', ''ab'', ''rab'']" "one_of ''rs'' [''ws'', ''rs'']" "\<not> one_of ''rs'' [''ra'', ''rab'']"
  by code_simp+

lemma open_source_feeds:
  assumes t: "proper t" "starts_at e t (sys l) (raw_file sw bs n)" and bs: "list_all block_fits bs"
    and ev: "list_all2 (stored sw) (events_of bs) evs"
    and dict: "with_dictionary bs \<Longrightarrow> evTrim (Some (chars_of (hd evs))) 8 = Some d" and m: "\<And>n. malloc_ok e n" and c: "can_open l"
  shows "\<exists>h l' a. open_to_read e l t = Some (S_SUCCESS, Some h, l') \<and>
    feeds (any_holds e) sw l' h (if with_dictionary bs then tl evs else evs) \<and>
    lookup_handle l' h = Some a \<and> dictionary a = (if with_dictionary bs then d else None) \<and> lookup_handle l h = None \<and> others_kept l h l'"
proof (cases t)
  case (File f)
  then have "open_target e (Name f) 0 0 ''r'' = Some (Inr t)"
    using t(1) m by (simp add: open_target_def strdup_def trimmed_plain proper_def)
  from open_any.open_call [OF this _ _ t(2) bs ev dict m c] show ?thesis by (simp add: open_to_read_def File evOpen_def)
next
  case (Buffer b sz)
  then have "11 \<le> length b" "length b < 2 ^ 28" and sz: "sz = 4 * of_nat (length b)" using t(1) by (simp_all add: proper_def)
  then have "\<not> 4 * (of_nat (length b) :: u32) < 44"
    using bytes_count [of "length b"] by (simp add: word_less_nat_alt)
  then have "open_target e (Memory b) (of_nat (length b)) 0 ''rb'' = Some (Inr t)"
    using Buffer sz by (simp add: open_target_def)
  from open_any.open_call [OF this _ _ t(2) bs ev dict m c] show ?thesis by (simp add: open_to_read_def Buffer evOpenBuffer_def)
next
  case (Socket fd)
  then have "open_target e NoPtr 0 fd ''rs'' = Some (Inr t)" using t(1) by (simp add: open_target_def proper_def)
  from open_any.open_call [OF this _ _ t(2) bs ev dict m c] show ?thesis by (simp add: open_to_read_def Socket evOpenSocket_def)
qed

text \<open>From the opening of a new file to its close.\<close>

lemma written_file:
  assumes f: "plain_name f" "works e f" and c: "can_open l"
    and ev: "list_all event evs" "\<forall>ev \<in> set evs. length ev + 16 < 2 ^ 28" "length (concat evs) < 2 ^ 50" "evs \<noteq> []"
  shows "\<exists>h l1 l2 l3 bs. evOpen e l (Name f) ''w'' = Some (S_SUCCESS, Some h, l1) \<and>
    write_all e h evs l1 = Some (S_SUCCESS, l2) \<and> evClose e l2 h = Some (fclose_status e, l3) \<and> can_open l3 \<and>
    files (sys l3) f = Some (file_words bs (of_nat (length bs) + 1)) \<and> list_all (good_block 64000 10000) bs \<and> numbered 1 bs \<and>
    \<not> with_dictionary bs \<and> events_of bs = evs \<and> (\<forall>g. g \<noteq> f \<longrightarrow> files (sys l3) g = files (sys l) g) \<and> (\<forall>k. lookup_handle l3 k = lookup_handle l k)"
proof -
  have m: "malloc_ok e n" for n using f(2) by (simp add: works_def)
  obtain h l1 where o: "evOpen e l (Name f) ''w'' = Some (S_SUCCESS, Some h, l1)" "lookup_handle l1 h = Some ((new_file f)\<lparr>handle := h\<rparr>)"
    "sys l1 = sys l" "lookup_handle l h = None" "others_kept l h l1"
    using evOpen_new [OF f(1) m c] by blast
  obtain l2 l3 where w: "write_all e h evs l1 = Some (S_SUCCESS, l2)" "evClose e l2 h = Some (fclose_status e, l3)" "lookup_handle l3 h = None"
    "can_open l3" "others_kept l1 h l3" "file_quiet f (sys l1) (sys l3)" "block_sink.holds_events (file_final f) False [] 64000 10000 (sys l3) evs"
    using file_sink.write_and_close [OF new_file_writes [OF f o(2)] ev(1,2)] ev(3,4) by (auto simp: limit_def)
  obtain bs where "file_final f (sys l3) ([] @ bs)" "list_all (good_block 64000 10000) bs" "numbered 1 bs" "events_of bs = evs"
    "\<not> with_dictionary bs"
    using w(7) marked_dictionary [of False] by (auto simp: file_sink.holds_events_def)
  moreover have "lookup_handle l3 k = lookup_handle l k" for k
    using o(4,5) w(3,5) by (cases "k = h") (simp_all add: others_kept_def)
  ultimately show ?thesis using o(1,3) w(1,2,4,6) by (auto simp: file_quiet_def file_final_def)
qed

text \<open>Reading a file of the host's byte order without a dictionary.\<close>

lemma read_file:
  assumes f: "plain_name f" "read_ok e f" "files (sys l) f = Some (file_words bs n)" and m: "\<And>n. malloc_ok e n" and c: "can_open l"
    and bs: "list_all block_fits bs" "\<not> with_dictionary bs" "list_all event (events_of bs)"
  shows "\<exists>h l1 l2. evOpen e l (Name f) ''r'' = Some (S_SUCCESS, Some h, l1) \<and> read_all e h l1 = Some (c_EOF, events_of bs, l2)"
proof -
  have s: "proper (File f)" "starts_at e (File f) (sys l) (raw_file False bs n)"
    using f by (auto simp: proper_def starts_at_def file_starts_def plain_name_def raw_file_host)
  obtain h l1 where r: "open_to_read e l (File f) = Some (S_SUCCESS, Some h, l1)" "feeds (any_holds e) False l1 h (events_of bs)"
    using open_source_feeds [OF s bs(1) stored_same [OF bs(3)] _ m c, of None] bs(2) by auto
  then show ?thesis using any_source.read_all_feeds [OF m r(2)] by (auto simp: open_to_read_def)
qed

section \<open>Properties\<close>

text \<open>C1: Write and read a file: the events written to a new file, whatever their number and sizes, are the
  events read from it to its end, in their order; every call succeeds and both loops end.\<close>

theorem file_roundtrip:
  assumes f: "plain_name f" "works e f" "read_ok e f" and c: "can_open l"
    and ev: "list_all event evs" "\<forall>ev \<in> set evs. length ev + 16 < 2 ^ 28" "length (concat evs) < 2 ^ 50" "evs \<noteq> []"
  shows "\<exists>h l1 l2 l3 h' l4 l5. evOpen e l (Name f) ''w'' = Some (S_SUCCESS, Some h, l1) \<and>
    write_all e h evs l1 = Some (S_SUCCESS, l2) \<and> evClose e l2 h = Some (fclose_status e, l3) \<and>
    evOpen e l3 (Name f) ''r'' = Some (S_SUCCESS, Some h', l4) \<and> read_all e h' l4 = Some (c_EOF, evs, l5)"
proof -
  have m: "malloc_ok e n" for n using f(2) by (simp add: works_def)
  obtain h l1 l2 l3 bs where w: "evOpen e l (Name f) ''w'' = Some (S_SUCCESS, Some h, l1)" "write_all e h evs l1 = Some (S_SUCCESS, l2)"
    "evClose e l2 h = Some (fclose_status e, l3)" "can_open l3"
    and bs: "files (sys l3) f = Some (file_words bs (of_nat (length bs) + 1))" "list_all (good_block 64000 10000) bs" "events_of bs = evs" "\<not> with_dictionary bs"
    using written_file [OF f(1,2) c ev] by blast
  note g = good_blocks_readable [OF bs(2)]
  show ?thesis using read_file [OF f(1,3) bs(1) m w(4) g(1) bs(4) g(2)] w(1-3) bs(3) by simp
qed

definition two_events :: "words list" where
  "two_events = [[1, 0x00010100], [3, 0x00020101, 7, 8]]"

lemma calm_file: "plain_name ''run'' \<and> works calm ''run'' \<and> read_ok calm ''run'' \<and> can_open empty_lib"
  by (simp add: plain_name_def works_def calm_def can_open_def empty_lib_def trims_def isspace_def isprint_def code_def NUL_def)

lemma two_events_facts:
  "list_all event two_events \<and> (\<forall>ev \<in> set two_events. length ev + 16 < 2 ^ 28) \<and> length (concat two_events) < 2 ^ 50 \<and> two_events \<noteq> []"
  by (simp add: two_events_def event_def)

theorem file_roundtrip_witness:
  "\<exists>h l1 l2 l3 h' l4 l5. evOpen calm empty_lib (Name ''run'') ''w'' = Some (S_SUCCESS, Some h, l1) \<and>
    write_all calm h two_events l1 = Some (S_SUCCESS, l2) \<and> evClose calm l2 h = Some (0, l3) \<and>
    evOpen calm l3 (Name ''run'') ''r'' = Some (S_SUCCESS, Some h', l4) \<and> read_all calm h' l4 = Some (c_EOF, two_events, l5)"
  using file_roundtrip [of "''run''" calm empty_lib two_events] calm_file two_events_facts by (simp add: calm_def)

text \<open>C2: What the written file holds: blocks numbered from 1 with the events in order, each at most 64000 words
  and 10000 events long unless it has a single event, and the empty last block. No other file and no
  other handle is changed.\<close>

theorem written_blocks:
  assumes "plain_name f" "works e f" "can_open l"
    and "list_all event evs" "\<forall>ev \<in> set evs. length ev + 16 < 2 ^ 28" "length (concat evs) < 2 ^ 50" "evs \<noteq> []"
  shows "\<exists>h l1 l2 l3 bs. evOpen e l (Name f) ''w'' = Some (S_SUCCESS, Some h, l1) \<and>
    write_all e h evs l1 = Some (S_SUCCESS, l2) \<and> evClose e l2 h = Some (fclose_status e, l3) \<and>
    files (sys l3) f = Some (file_words bs (of_nat (length bs) + 1)) \<and> events_of bs = evs \<and> numbered 1 bs \<and>
    list_all (\<lambda>b. b_events b \<noteq> [] \<and> length (b_events b) \<le> 10000 \<and> (length (block_words b) \<le> 64000 \<or> length (b_events b) = 1)) bs \<and>
    (\<forall>g. g \<noteq> f \<longrightarrow> files (sys l3) g = files (sys l) g) \<and> (\<forall>k. lookup_handle l3 k = lookup_handle l k)"
proof -
  obtain h l1 l2 l3 bs where w: "evOpen e l (Name f) ''w'' = Some (S_SUCCESS, Some h, l1)" "write_all e h evs l1 = Some (S_SUCCESS, l2)"
    "evClose e l2 h = Some (fclose_status e, l3)" "files (sys l3) f = Some (file_words bs (of_nat (length bs) + 1))"
    "list_all (good_block 64000 10000) bs" "numbered 1 bs" "events_of bs = evs"
    "\<forall>g. g \<noteq> f \<longrightarrow> files (sys l3) g = files (sys l) g" "\<forall>k. lookup_handle l3 k = lookup_handle l k"
    using written_file [OF assms] by blast
  have "list_all (\<lambda>b. b_events b \<noteq> [] \<and> length (b_events b) \<le> 10000 \<and> (length (block_words b) \<le> 64000 \<or> length (b_events b) = 1)) bs"
    by (rule list.pred_mono_strong [OF w(5)]) (simp add: good_block_def)
  then show ?thesis using w(1-4,6-9) by blast
qed

theorem written_blocks_witness:
  "\<exists>h l1 l2 l3 bs. evOpen calm empty_lib (Name ''run'') ''w'' = Some (S_SUCCESS, Some h, l1) \<and>
    write_all calm h two_events l1 = Some (S_SUCCESS, l2) \<and> evClose calm l2 h = Some (0, l3) \<and>
    files (sys l3) ''run'' = Some (file_words bs (of_nat (length bs) + 1)) \<and> events_of bs = two_events"
proof -
  have z: "fclose_status calm = 0" by (simp add: calm_def)
  note facts = calm_file [THEN conjunct1] calm_file [THEN conjunct2, THEN conjunct1] calm_file [THEN conjunct2, THEN conjunct2, THEN conjunct2]
    two_events_facts [THEN conjunct1] two_events_facts [THEN conjunct2, THEN conjunct1]
    two_events_facts [THEN conjunct2, THEN conjunct2, THEN conjunct1] two_events_facts [THEN conjunct2, THEN conjunct2, THEN conjunct2]
  from written_blocks [OF facts, unfolded z] show ?thesis by (elim exE conjE) (intro exI conjI, assumption+)
qed

text \<open>C8: The list of events as the abstract state of a handle that writes a file: \<^verbatim>\<open>evWrite\<close> appends to it, from
  every reachable buffer state (same block, new block, flush, bigger buffer), and touches neither another
  handle nor another file.\<close>

theorem evWrite_appends:
  assumes "file_writes e f False old t m l h evs" "event ev" "length ev + 16 < 2 ^ 28" "length (concat evs) < 2 ^ 50"
  shows "\<exists>l'. evWrite e l h (Some ev) = Some (S_SUCCESS, l') \<and> file_writes e f False old t m l' h (evs @ [ev]) \<and>
    (\<forall>k. k \<noteq> h \<longrightarrow> lookup_handle l' k = lookup_handle l k) \<and> (\<forall>g. g \<noteq> f \<longrightarrow> files (sys l') g = files (sys l) g)"
  using file_sink.evWrite_writer [OF assms(1-3)] assms(4) by (auto simp: others_kept_def file_quiet_def limit_def)

definition one_writer :: lib where
  "one_writer = \<lparr>handleList = [Some ((new_file ''run'')\<lparr>handle := 1\<rparr>)], sys = empty_world\<rparr>"

lemma one_writer_writes: "file_writes calm ''run'' False [] 64000 10000 one_writer 1 []"
  by (rule new_file_writes) (use calm_file in \<open>simp_all add: one_writer_def lookup_handle_def handleCount_def\<close>)

theorem evWrite_appends_witness:
  "\<exists>l'. evWrite calm one_writer 1 (Some [1, 0x100]) = Some (S_SUCCESS, l') \<and> file_writes calm ''run'' False [] 64000 10000 l' 1 [[1, 0x100]]"
  using evWrite_appends [OF one_writer_writes, of "[1, 0x100]"] by (auto simp: event_def)

text \<open>A handle that is closed before anything is written: the call succeeds, the handle is free and no file is
  created, although the comment in \<^verbatim>\<open>evClose\<close> announces an empty block.\<close>

theorem empty_file_not_created:
  assumes "plain_name f" "\<And>n. malloc_ok e n" "can_open l"
  shows "\<exists>h l1 l2. evOpen e l (Name f) ''w'' = Some (S_SUCCESS, Some h, l1) \<and> evClose e l1 h = Some (S_SUCCESS, l2) \<and>
    lookup_handle l2 h = None \<and> sys l2 = sys l"
proof -
  obtain h l1 where o: "evOpen e l (Name f) ''w'' = Some (S_SUCCESS, Some h, l1)" "lookup_handle l1 h = Some ((new_file f)\<lparr>handle := h\<rparr>)"
    "sys l1 = sys l"
    using evOpen_new [OF assms] by blast
  have "evClose e l1 h = Some (S_SUCCESS, (free_handle l1 h)\<lparr>sys := sys l1\<rparr>)"
    using o(2) bad_handle_lookup [OF o(2)]
    by (simp add: evClose_def close_flush_def close_last_def close_status_def new_file_def structInit_def evFlush_def mode_defs)
  then show ?thesis using o handles.get_del [of l1 h] by auto
qed

theorem empty_file_not_created_witness:
  "\<exists>h l1 l2. evOpen calm empty_lib (Name ''run'') ''w'' = Some (S_SUCCESS, Some h, l1) \<and> evClose calm l1 h = Some (S_SUCCESS, l2) \<and>
    files (sys l2) ''run'' = None"
proof -
  have "files (sys empty_lib) ''run'' = None" by (simp add: empty_lib_def empty_world_def)
  then show ?thesis using empty_file_not_created [of "''run''" calm empty_lib] calm_file by (fastforce simp: calm_def)
qed

text \<open>C3: Reading from any source, in either byte order: when a file, a buffer or a socket has the blocks of a file
  (their headers and events all in one byte order), opening it and reading to the end gives its events in
  the order of the host, and the loop ends with \<^verbatim>\<open>EOF\<close> however a socket splits the data. A dictionary at the
  start is not among the events: \<^verbatim>\<open>evGetDictionary\<close> has it.\<close>

theorem source_reads:
  assumes "proper t" "starts_at e t (sys l) (raw_file sw bs n)" "list_all block_fits bs"
    and "list_all2 (stored sw) (events_of bs) evs" "with_dictionary bs \<Longrightarrow> evTrim (Some (chars_of (hd evs))) 8 = Some (Some d)"
    and "\<And>n. malloc_ok e n" "can_open l"
  shows "\<exists>h l1 l2. open_to_read e l t = Some (S_SUCCESS, Some h, l1) \<and>
    evGetDictionary e l1 h True = (S_SUCCESS, Some (if with_dictionary bs then (Some d, length d) else (None, 0))) \<and>
    read_all e h l1 = Some (c_EOF, if with_dictionary bs then tl evs else evs, l2)"
proof -
  obtain h l1 a where o: "open_to_read e l t = Some (S_SUCCESS, Some h, l1)"
    "feeds (any_holds e) sw l1 h (if with_dictionary bs then tl evs else evs)"
    "lookup_handle l1 h = Some a" "dictionary a = (if with_dictionary bs then Some d else None)"
    using open_source_feeds [OF assms(1-7)] by blast
  have "evGetDictionary e l1 h True = (S_SUCCESS, Some (if with_dictionary bs then (Some d, length d) else (None, 0)))"
    using o(3,4) bad_handle_lookup [OF o(3)] assms(6) by (simp add: evGetDictionary_def strdup_def)
  then show ?thesis using o(1) any_source.read_all_feeds [OF assms(6) o(2)] by blast
qed

definition foreign_block :: block where
  "foreign_block = \<lparr>b_num = 1, b_dict = False, b_events = [enc True Bank sample_event]\<rparr>"

definition foreign_world :: world where
  "foreign_world = \<lparr>files = (\<lambda>_. None), sock_in = (\<lambda>_. bytes_of (raw_file True [foreign_block] 2)), sock_out = (\<lambda>_. []),
     sock_plan = (\<lambda>_. [Moves 5, Interrupted, Moves 40])\<rparr>"

lemma foreign_setup:
  "proper (Socket 4)" "starts_at calm (Socket 4) (sys (empty_lib\<lparr>sys := foreign_world\<rparr>)) (raw_file True [foreign_block] 2)"
  "list_all block_fits [foreign_block]" "list_all2 (stored True) (events_of [foreign_block]) [enc False Bank sample_event]" "malloc_ok calm k"
  "can_open (empty_lib\<lparr>sys := foreign_world\<rparr>)" "\<not> with_dictionary [foreign_block]"
proof -
  show "starts_at calm (Socket 4) (sys (empty_lib\<lparr>sys := foreign_world\<rparr>)) (raw_file True [foreign_block] 2)"
    by (simp add: starts_at_def socket_starts_def foreign_world_def keeps_moving_def)
  have "event (enc False Bank sample_event)"
    by (simp add: event_def sample_event_facts(2)) (simp add: sample_event_def kids_kind_def child_kind_def type_of_def header_def)
  then show "list_all2 (stored True) (events_of [foreign_block]) [enc False Bank sample_event]"
    using sample_event_facts(1) by (auto simp: foreign_block_def stored_def)
  show "list_all block_fits [foreign_block]" by (simp add: block_fits_def foreign_block_def body_def sample_event_facts(2))
qed (simp_all add: proper_def foreign_block_def calm_def can_open_def empty_lib_def with_dictionary_def)

theorem source_reads_witness:
  "\<exists>h l1 l2. open_to_read calm (empty_lib\<lparr>sys := foreign_world\<rparr>) (Socket 4) = Some (S_SUCCESS, Some h, l1) \<and>
    read_all calm h l1 = Some (c_EOF, [enc False Bank sample_event], l2)"
  using source_reads [OF foreign_setup(1-4) _ foreign_setup(5,6)] foreign_setup(7) by auto

text \<open>C9: \<^verbatim>\<open>evRead\<close> into the caller's buffer: an event that fits is copied to its start, the words behind it are kept;
  an event that does not fit is refused with \<^verbatim>\<open>S_EVFILE_TRUNC\<close>, nothing is written, and the same event is
  delivered by the next call.\<close>

theorem evRead_whole_or_nothing:
  assumes "feeds (any_holds e) sw l h (ev # evs)" "\<And>n. malloc_ok e n" "3 \<le> buflen" "unat buflen \<le> length buffer"
  shows "\<exists>l'. (if length ev \<le> unat buflen
       then evRead e l h (Some buffer) buflen = Some (S_SUCCESS, Some (ov 0 ev buffer), l') \<and> feeds (any_holds e) sw l' h evs
       else evRead e l h (Some buffer) buflen = Some (S_EVFILE_TRUNC, Some buffer, l') \<and> feeds (any_holds e) sw l' h (ev # evs)) \<and>
    (\<forall>k. k \<noteq> h \<longrightarrow> lookup_handle l' k = lookup_handle l k)"
proof (cases "length ev \<le> unat buflen")
  case True
  then show ?thesis using any_source.evRead_next [OF assms(1,2) True assms(4,3)] by (auto simp: others_kept_def)
next
  case False
  then show ?thesis using any_source.evRead_truncated [OF assms(1,2) _ assms(3)] by (auto simp: others_kept_def)
qed

lemma foreign_feeds: "\<exists>h l1. feeds (any_holds calm) True l1 h [enc False Bank sample_event]"
  using open_source_feeds [OF foreign_setup(1-4) _ foreign_setup(5,6)] foreign_setup(7) by auto

theorem evRead_whole_or_nothing_witness:
  "\<exists>h l l'. evRead calm l h (Some (replicate 10 0)) 10 = Some (S_EVFILE_TRUNC, Some (replicate 10 0), l') \<and>
     feeds (any_holds calm) True l' h [enc False Bank sample_event]"
proof -
  obtain h l where f: "feeds (any_holds calm) True l h [enc False Bank sample_event]" using foreign_feeds by blast
  show ?thesis
    using evRead_whole_or_nothing [OF f foreign_setup(5), of 10 "replicate 10 0"] sample_event_facts(2) [of False] by auto
qed

text \<open>\<^verbatim>\<open>evReadNoCopy\<close> hands out the place of the event in the block buffer: the event lies there in the order of the
  host, and the handle goes on behind it.\<close>

theorem evReadNoCopy_in_buffer:
  assumes "feeds (any_holds e) sw l h (ev # evs)" "\<And>n. malloc_ok e n"
  shows "\<exists>p l' a'. evReadNoCopy e l h = Some (S_SUCCESS, Some (p, of_nat (length ev)), l') \<and> lookup_handle l' h = Some a' \<and>
    cut (mem a') p (length ev) = Some ev \<and> feeds (any_holds e) sw l' h evs"
  using any_source.evReadNoCopy_next [OF assms] at_cut by blast

theorem evReadNoCopy_in_buffer_witness:
  "\<exists>h l p l' a'. evReadNoCopy calm l h = Some (S_SUCCESS, Some (p, 15), l') \<and> lookup_handle l' h = Some a' \<and>
    cut (mem a') p 15 = Some (enc False Bank sample_event)"
proof -
  obtain h l where f: "feeds (any_holds calm) True l h [enc False Bank sample_event]" using foreign_feeds by blast
  have n: "(of_nat 15 :: u32) = 15" by simp
  from evReadNoCopy_in_buffer [OF f foreign_setup(5), unfolded sample_event_facts(2) n]
  show ?thesis by (elim exE conjE) (intro exI conjI, assumption+)
qed

end
