(* ===== verification/EvioAppend.thy ===== *)
theory EvioAppend imports EvioRoundTrip begin

text \<open>
  Appending to a file that is there, and sending over sockets and pipes: what is read afterwards is what was
  there and what was written.
\<close>

lemma blocks_readable:
  assumes "appendable old" "\<not> with_dictionary old" "list_all (good_block t m) new" "unat t < 2 ^ 28" "list_all (marked False) new"
  shows "list_all block_fits (old @ new)" "\<not> with_dictionary (old @ new)"
proof -
  show "list_all block_fits (old @ new)"
    using assms(1) good_blocks_readable(1) [OF assms(3,4)] by (auto simp: appendable_def block_fits_def list_all_iff)
  show "\<not> with_dictionary (old @ new)"
    using assms(2,5) by (cases old; cases new) (auto simp: with_dictionary_def marked_def)
qed

section \<open>Properties\<close>

text \<open>C4: Append and read back: what is read from the file afterwards is its old events followed by the new ones,
  and appending nothing to a file with events is harmless.\<close>

theorem append_roundtrip:
  assumes f: "plain_name f" "works e f" "read_ok e f" and c: "can_open l"
    and old: "files (sys l) f = Some (file_words old m)" "appendable old" "\<not> with_dictionary old" "list_all event (events_of old)"
    and ev: "list_all event evs" "\<forall>ev \<in> set evs. length ev + 16 < 2 ^ 28" "length (concat evs) < 2 ^ 50" "old \<noteq> [] \<or> evs \<noteq> []"
  shows "\<exists>h l1 l2 l3 h' l4 l5. evOpen e l (Name f) ''a'' = Some (S_SUCCESS, Some h, l1) \<and>
    write_all e h evs l1 = Some (S_SUCCESS, l2) \<and> evClose e l2 h = Some (fclose_status e, l3) \<and>
    evOpen e l3 (Name f) ''r'' = Some (S_SUCCESS, Some h', l4) \<and> read_all e h' l4 = Some (c_EOF, events_of old @ evs, l5)"
proof -
  have m: "malloc_ok e n" for n using f(2) by (simp add: works_def)
  obtain h l1 where o: "evOpen e l (Name f) ''a'' = Some (S_SUCCESS, Some h, l1)" "file_writes e f False old 64000 10000 l1 h []"
    using evOpen_append [OF f(1,3,2) old(1,2) c] by blast
  obtain l2 l3 where w: "write_all e h evs l1 = Some (S_SUCCESS, l2)" "evClose e l2 h = Some (fclose_status e, l3)"
    "can_open l3" "block_sink.holds_events (file_final f) False old 64000 10000 (sys l3) evs"
    using file_sink.write_and_close [OF o(2) ev(1,2)] ev(3,4) by (auto simp: limit_def)
  obtain new where new: "files (sys l3) f = Some (file_words (old @ new) (of_nat (length (old @ new)) + 1))"
    "list_all (good_block 64000 10000) new" "events_of new = evs" "list_all (marked False) new"
    using w(4) by (auto simp: file_sink.holds_events_def file_final_def)
  have b: "list_all event (events_of (old @ new))" using old(4) ev(1) new(3) by simp
  show ?thesis
    using read_file [OF f(1,3) new(1) m w(3) blocks_readable [OF old(2,3) new(2) _ new(4)] b] o(1) w(1,2) new(3) by auto
qed

definition one_block :: block where
  "one_block = \<lparr>b_num = 1, b_dict = False, b_events = [[1, 0x00030100]]\<rparr>"

definition file_there :: lib where
  "file_there = empty_lib\<lparr>sys := set_file ''run'' (file_words [one_block] 2) empty_world\<rparr>"

lemma file_there_facts:
  "can_open file_there" "files (sys file_there) ''run'' = Some (file_words [one_block] 2)" "appendable [one_block]"
  "\<not> with_dictionary [one_block]" "list_all event (events_of [one_block])"
  by (simp_all add: file_there_def can_open_def empty_lib_def set_file_def appendable_def one_block_def body_def with_dictionary_def event_def)

theorem append_roundtrip_witness:
  "\<exists>h l1 l2 l3 h' l4 l5. evOpen calm file_there (Name ''run'') ''a'' = Some (S_SUCCESS, Some h, l1) \<and>
    write_all calm h two_events l1 = Some (S_SUCCESS, l2) \<and> evClose calm l2 h = Some (0, l3) \<and>
    evOpen calm l3 (Name ''run'') ''r'' = Some (S_SUCCESS, Some h', l4) \<and> read_all calm h' l4 = Some (c_EOF, [1, 0x00030100] # two_events, l5)"
proof -
  have e: "events_of [one_block] @ two_events = [1, 0x00030100] # two_events" by (simp add: one_block_def)
  have z: "fclose_status calm = 0" by (simp add: calm_def)
  show ?thesis
    using append_roundtrip [of "''run''" calm, OF _ _ _ file_there_facts, of two_events] calm_file two_events_facts
    unfolding e z by blast
qed

text \<open>C31: A file of the other byte order cannot be appended to, yet opening it for that damages it: every \<^verbatim>\<open>evWrite\<close> is
  refused with \<^verbatim>\<open>S_EVFILE_BADMODE\<close>, but the last header has already been written over in the order of the
  host, so that the file is no longer in one byte order.\<close>

theorem append_foreign_damages:
  assumes f: "plain_name f" "works e f" "read_ok e f" and c: "can_open l"
    and old: "files (sys l) f = Some (raw_file True old m)" "appendable old"
  shows "\<exists>h l1. evOpen e l (Name f) ''a'' = Some (S_SUCCESS, Some h, l1) \<and>
    evWrite e l1 h (Some ev) = Some (S_EVFILE_BADMODE, l1) \<and>
    files (sys l1) f = Some (concat (map (raw_block True) old) @ last_block (of_nat (length old) + 1)) \<and>
    (\<forall>n. files (sys l1) f \<noteq> Some (raw_file True old n))"
proof -
  obtain h l1 a where o: "evOpen e l (Name f) ''a'' = Some (S_SUCCESS, Some h, l1)" "lookup_handle l1 h = Some a" "append a \<noteq> 0"
    "byte_swapped a" "sys l1 = set_file f (concat (map (raw_block True) old) @ last_block (of_nat (length old) + 1)) (sys l)"
    using evOpen_append_raw [OF f(1,3,2) old c] by blast
  have "evWrite e l1 h (Some ev) = Some (S_EVFILE_BADMODE, l1)"
    using o(2-4) bad_handle_lookup [OF o(2)] by (simp add: evWrite_def evWriteImpl_def)
  moreover have "last_block k \<noteq> in_order True (last_block n)" for k n
  proof -
    have "EVIO_SWAP32 8 \<noteq> 8" by code_simp
    then show ?thesis by (simp add: last_block_def block_header_def in_order_def)
  qed
  ultimately show ?thesis using o(1,5) by (simp add: set_file_def raw_file_def)
qed

theorem append_foreign_damages_witness:
  "\<exists>h l1. evOpen calm (empty_lib\<lparr>sys := set_file ''run'' (raw_file True [one_block] 2) empty_world\<rparr>) (Name ''run'') ''a'' = Some (S_SUCCESS, Some h, l1) \<and>
    evWrite calm l1 h (Some [1, 0]) = Some (S_EVFILE_BADMODE, l1) \<and> files (sys l1) ''run'' \<noteq> Some (raw_file True [one_block] 2)"
proof -
  let ?l = "empty_lib\<lparr>sys := set_file ''run'' (raw_file True [one_block] 2) empty_world\<rparr>"
  have "can_open ?l" "files (sys ?l) ''run'' = Some (raw_file True [one_block] 2)"
    by (simp_all add: can_open_def empty_lib_def set_file_def)
  then show ?thesis using append_foreign_damages [of "''run''" calm ?l "[one_block]" 2 "[1, 0]"] calm_file file_there_facts(3) by blast
qed

text \<open>C5: Over a socket: the bytes that a writer sends between opening and closing a handle are a complete sequence of
  blocks, whatever the system calls do short of failing, and a receiver that gets them (and anything behind
  them) reads the events of the sender in their order.\<close>

theorem socket_roundtrip:
  assumes s: "0 \<le> fd" "keeps_moving (sock_plan (sys l) fd)" and m: "\<And>n. malloc_ok e n" and c: "can_open l"
    and ev: "list_all event evs" "\<forall>ev \<in> set evs. length ev + 16 < 2 ^ 28" "length (concat evs) < 2 ^ 50" "evs \<noteq> []"
  shows "\<exists>h l1 l2 l3 sent. evOpenSocket e l fd ''w'' = Some (S_SUCCESS, Some h, l1) \<and>
    write_all e h evs l1 = Some (S_SUCCESS, l2) \<and> evClose e l2 h = Some (S_SUCCESS, l3) \<and>
    sock_out (sys l3) fd = sock_out (sys l) fd @ sent \<and> files (sys l3) = files (sys l) \<and>
    (\<forall>r fd' more. 0 \<le> fd' \<and> sock_in (sys r) fd' = sent @ more \<and> keeps_moving (sock_plan (sys r) fd') \<and> can_open r \<longrightarrow>
       (\<exists>h' r1 r2. evOpenSocket e r fd' ''r'' = Some (S_SUCCESS, Some h', r1) \<and> read_all e h' r1 = Some (c_EOF, evs, r2)))"
proof -
  obtain h l1 where o: "evOpenSocket e l fd ''w'' = Some (S_SUCCESS, Some h, l1)"
    "socket_writes e fd (sock_out (sys l) fd) False [] 64000 10000 l1 h []" "sys l1 = sys l"
    using evOpenSocket_new [OF s m c] by blast
  obtain l2 l3 where w: "write_all e h evs l1 = Some (S_SUCCESS, l2)" "evClose e l2 h = Some (S_SUCCESS, l3)"
    "socket_quiet fd (sys l1) (sys l3)" "block_sink.holds_events (socket_final fd (sock_out (sys l) fd)) False [] 64000 10000 (sys l3) evs"
    using socket_sink.write_and_close [OF o(2) ev(1,2)] ev(3,4) by (auto simp: limit_def)
  obtain bs where bs: "sock_out (sys l3) fd = sock_out (sys l) fd @ bytes_of (file_words bs (of_nat (length bs) + 1))"
    "list_all (good_block 64000 10000) bs" "events_of bs = evs" "\<not> with_dictionary bs"
    using w(4) marked_dictionary [of False] by (auto simp: socket_sink.holds_events_def socket_final_def)
  have g: "list_all block_fits bs" "list_all2 (stored False) (events_of bs) evs"
    using good_blocks_readable [OF bs(2)] stored_same [OF ev(1)] bs(3) by simp_all
  have r: "\<exists>h' r1 r2. evOpenSocket e r fd' ''r'' = Some (S_SUCCESS, Some h', r1) \<and> read_all e h' r1 = Some (c_EOF, evs, r2)"
    if "0 \<le> fd'" "sock_in (sys r) fd' = bytes_of (file_words bs (of_nat (length bs) + 1)) @ more" "keeps_moving (sock_plan (sys r) fd')" "can_open r" for r fd' more
  proof -
    have "proper (Socket fd')" "starts_at e (Socket fd') (sys r) (raw_file False bs (of_nat (length bs) + 1))"
      using that by (auto simp: proper_def starts_at_def socket_starts_def raw_file_host)
    from open_source_feeds [OF this g _ m that(4), of None] bs(4) obtain h' r1
      where "open_to_read e r (Socket fd') = Some (S_SUCCESS, Some h', r1)" "feeds (any_holds e) False r1 h' evs" by auto
    moreover from this(2) obtain r2 where "read_all e h' r1 = Some (c_EOF, evs, r2)" using any_source.read_all_feeds [OF m] by blast
    ultimately show ?thesis by (auto simp: open_to_read_def)
  qed
  show ?thesis using o(1,3) w(1-3) bs(1) r by (auto simp: socket_quiet_def)
qed

definition slow_world :: world where
  "slow_world = empty_world\<lparr>sock_plan := (\<lambda>_. [Moves 1, Interrupted, Moves 7])\<rparr>"

theorem socket_roundtrip_witness:
  "\<exists>h l1 l2 l3. evOpenSocket calm (empty_lib\<lparr>sys := slow_world\<rparr>) 3 ''w'' = Some (S_SUCCESS, Some h, l1) \<and>
    write_all calm h two_events l1 = Some (S_SUCCESS, l2) \<and> evClose calm l2 h = Some (S_SUCCESS, l3)"
proof -
  have "keeps_moving (sock_plan (sys (empty_lib\<lparr>sys := slow_world\<rparr>)) 3)" "can_open (empty_lib\<lparr>sys := slow_world\<rparr>)" "malloc_ok calm n" for n
    by (simp_all add: keeps_moving_def slow_world_def can_open_def empty_lib_def calm_def)
  from socket_roundtrip [OF _ this(1,3,2), of two_events] two_events_facts show ?thesis by simp blast
qed

text \<open>Into a pipe: the command gets the same complete sequence of blocks, the last header sent by \<^verbatim>\<open>evClose\<close>.\<close>

theorem pipe_gets_blocks:
  assumes f: "pipe_name f" "create_ok e f" "write_ok e f" and m: "\<And>n. malloc_ok e n" and c: "can_open l"
    and ev: "list_all event evs" "\<forall>ev \<in> set evs. length ev + 16 < 2 ^ 28" "length (concat evs) < 2 ^ 50" "evs \<noteq> []"
  shows "\<exists>h l1 l2 l3 bs. evOpen e l (Name f) ''w'' = Some (S_SUCCESS, Some h, l1) \<and>
    write_all e h evs l1 = Some (S_SUCCESS, l2) \<and> evClose e l2 h = Some (if fclose_status e < 0 then S_FAILURE else S_SUCCESS, l3) \<and>
    files (sys l3) f = Some (file_words bs (of_nat (length bs) + 1)) \<and> events_of bs = evs \<and> numbered 1 bs \<and>
    list_all (good_block 64000 10000) bs"
proof -
  obtain h l1 where o: "evOpen e l (Name f) ''w'' = Some (S_SUCCESS, Some h, l1)" "pipe_writes e f False [] 64000 10000 l1 h []"
    using evOpen_pipe [OF f m c] by blast
  obtain l2 l3 where "write_all e h evs l1 = Some (S_SUCCESS, l2)" "evClose e l2 h = Some (if fclose_status e < 0 then S_FAILURE else S_SUCCESS, l3)"
    "block_sink.holds_events (pipe_final f) False [] 64000 10000 (sys l3) evs"
    using pipe_sink.write_and_close [OF o(2) ev(1,2)] ev(3,4) by (auto simp: limit_def)
  then show ?thesis using o(1) by (auto simp: pipe_sink.holds_events_def pipe_final_def)
qed

theorem pipe_gets_blocks_witness:
  "\<exists>h l1 l2 l3 bs. evOpen calm empty_lib (Name ''|sort'') ''w'' = Some (S_SUCCESS, Some h, l1) \<and>
    write_all calm h two_events l1 = Some (S_SUCCESS, l2) \<and> evClose calm l2 h = Some (S_SUCCESS, l3) \<and>
    files (sys l3) ''|sort'' = Some (file_words bs (of_nat (length bs) + 1)) \<and> events_of bs = two_events"
proof -
  have "pipe_name ''|sort''" "create_ok calm ''|sort''" "write_ok calm ''|sort''" "malloc_ok calm n" "can_open empty_lib" for n
    by (simp_all add: calm_def can_open_def empty_lib_def pipe_name_def trims_def isspace_def isprint_def code_def NUL_def)
  moreover have "\<not> fclose_status calm < 0" by (simp add: calm_def)
  ultimately show ?thesis
    using pipe_gets_blocks [of "''|sort''" calm empty_lib two_events] two_events_facts by auto
qed

end
