(* ===== verification/EvioDictionary.thy ===== *)
theory EvioDictionary imports EvioAppend begin

text \<open>
  The dictionary: the bank it is wrapped in, its place in the first block of the file, and its way through
  a file back to \<^verbatim>\<open>evGetDictionary\<close>.
\<close>

section \<open>The bank\<close>

lemma dictionary_pads_le: "dictionary_pads n = 4 - (n + 1) mod 4"
proof -
  consider "(n + 1) mod 4 = 0" | "(n + 1) mod 4 = 1" | "(n + 1) mod 4 = 2" | "(n + 1) mod 4 = 3"
    using mod_less_divisor [of 4 "n + 1"] by linarith
  then show ?thesis by cases (simp_all add: dictionary_pads_def)
qed

definition dictionary_chars :: "string \<Rightarrow> string" where
  "dictionary_chars xml = xml @ [NUL] @ replicate (dictionary_pads (length xml)) EOT"

definition dictionary_words :: "string \<Rightarrow> nat" where
  "dictionary_words xml = (length xml + 1) div 4 + 1"

lemma length_dictionary_chars: "length (dictionary_chars xml) = 4 * dictionary_words xml"
proof -
  define k where "k = length xml + 1"
  have "length (dictionary_chars xml) = k + (4 - k mod 4)"
    unfolding dictionary_chars_def dictionary_pads_le k_def [symmetric] by (simp add: k_def)
  also have "\<dots> = 4 * (k div 4 + 1)" by presburger
  finally show ?thesis by (simp add: dictionary_words_def k_def)
qed

lemma bytes_of_words_of: "length bs = 4 * n \<Longrightarrow> bytes_of (words_of bs) = bs"
proof (induction n arbitrary: bs)
  case (Suc n)
  then obtain a b c d cs where bs: "bs = a # b # c # d # cs" "length cs = 4 * n"
    by (auto simp: length_Suc_conv numeral_eq_Suc)
  then show ?case using Suc.IH [OF bs(2)] bytes32_le32 [of "[a, b, c, d]"] by simp
qed simp

lemma dictionary_bank_words:
  "dictionary_bank xml = of_nat (dictionary_words xml + 1) # push_bit 8 3 # words_of (map (\<lambda>c. of_nat (code c)) (dictionary_chars xml))"
proof -
  have "8 + length xml + 1 + dictionary_pads (length xml) = 4 * (dictionary_words xml + 2)"
    using length_dictionary_chars [of xml] by (simp add: dictionary_chars_def)
  then have "(8 + length xml + 1 + dictionary_pads (length xml)) div 4 - 1 = dictionary_words xml + 1" by presburger
  then show ?thesis unfolding dictionary_bank_def Let_def dictionary_chars_def by (simp only:)
qed

lemma length_dictionary_bank: "length (dictionary_bank xml) = dictionary_words xml + 2"
proof -
  have "length (bytes_of (words_of (map (\<lambda>c. of_nat (code c) :: u8) (dictionary_chars xml)))) = 4 * dictionary_words xml"
    by (subst bytes_of_words_of [of _ "dictionary_words xml"]) (simp_all add: length_dictionary_chars)
  then show ?thesis by (simp add: dictionary_bank_words)
qed

lemma dictionary_bank_event: "length xml < 2 ^ 28 \<Longrightarrow> event (dictionary_bank xml)"
  by (simp add: event_def length_dictionary_bank) (simp add: dictionary_bank_words dictionary_words_def)

lemma byte_char: "char_of (unat (of_nat (code c) :: u8)) = c"
proof -
  have "code c < 256" by (simp add: code_def)
  then have "unat (of_nat (code c) :: u8) = code c" by (simp add: unat_of_nat)
  then show ?thesis by (simp add: code_def)
qed

text \<open>A text of XML has no zero byte in it and neither starts nor ends with white space.\<close>

definition xml_text :: "string \<Rightarrow> bool" where
  "xml_text xml \<longleftrightarrow> 35 \<le> length xml \<and> length xml < 2 ^ 28 \<and> NUL \<notin> set xml \<and> \<not> trims (hd xml) \<and> \<not> trims (last xml)"

lemma dictionary_trim:
  assumes "xml_text xml"
  shows "evTrim (Some (chars_of (dictionary_bank xml))) 8 = Some (Some xml)"
proof -
  define bs :: bytes where "bs = map (\<lambda>c. of_nat (code c)) (dictionary_chars xml)"
  have "map (\<lambda>b. char_of (unat b)) bs = dictionary_chars xml"
    unfolding bs_def by (simp add: byte_char comp_def)
  moreover have "bytes_of (dictionary_bank xml) = (bytes32 (of_nat (dictionary_words xml + 1)) @ bytes32 (push_bit 8 3)) @ bs"
    using bytes_of_words_of [of bs "dictionary_words xml"]
    by (simp add: dictionary_bank_words bs_def [symmetric]) (simp add: bs_def length_dictionary_chars)
  ultimately have c: "drop 8 (chars_of (dictionary_bank xml)) = dictionary_chars xml"
    by (simp add: chars_of_def drop_map)
  have x: "xml \<noteq> []" "NUL \<notin> set xml" "\<not> trims (hd xml)" "\<not> trims (last xml)" using assms by (auto simp: xml_text_def)
  have d: "dropWhile trims xml = xml" using x(1,3) by (cases xml) simp_all
  have "rev xml \<noteq> []" "\<not> trims (hd (rev xml))" using x(1,4) by (simp_all add: hd_rev)
  then have "dropWhile trims (rev xml) = rev xml" by (cases "rev xml") simp_all
  note d = d this
  have t: "takeWhile (\<lambda>c. c \<noteq> NUL) (dictionary_chars xml) = xml"
  proof -
    have "takeWhile (\<lambda>c. c \<noteq> NUL) (xml @ NUL # r) = xml" for r using x(2) by (induction xml) auto
    then show ?thesis by (simp add: dictionary_chars_def)
  qed
  have "NUL \<in> set (dictionary_chars xml)" "0 < length xml" using x(1) by (simp_all add: dictionary_chars_def)
  then show ?thesis unfolding evTrim_def using x(1) by (simp add: c t d Let_def)
qed

section \<open>The dictionary in the buffer\<close>

lemma count_dictionary_block:
  assumes "mem a = block_header l n c d s @ X" "currentHeader a = 0" "buf a = 0"
  shows "count_dictionary a = Some ((set_mem (block_header l n 0 True s @ X) a)\<lparr>wroteDictionary := True\<rparr>)"
  using assms header_read(1) [of "[]"] header_write [of "[]"]
  by (simp add: count_dictionary_def rd_buf_def wr_buf_def)

definition after_dictionary :: "words \<Rightarrow> EVFILE \<Rightarrow> words \<Rightarrow> EVFILE" where
  "after_dictionary ev a m = (set_mem m a)
     \<lparr>blksiz := blksiz a + of_nat (length ev), bytesToBuf := bytesToBuf a + 4 * of_nat (length ev) + 32,
      next := next a + length ev, left := left a - of_nat (length ev), blkEvCount := blkEvCount a + 1,
      eventsToBuf := eventsToBuf a + 1, wroteDictionary := True, blknum := blknum a + 1\<rparr>"

lemma write_dictionary_block:
  assumes m: "mem a = last_block (blknum a) @ tail" and h: "currentHeader a = 0" "buf a = 0" "next a = 8"
    and ev: "event ev" "length ev + 8 \<le> length tail" and big: "8 \<le> bufSize a - (bytesToBuf a + 4 * of_nat (length ev)) div 4"
  shows "writeEventToBuffer a ev (of_nat (length ev)) True = Some (after_dictionary ev a
     (block_header (blksiz a + of_nat (length ev)) (blknum a) 0 True False @ ev @ last_block (blknum a + 1) @ drop (length ev + 8) tail))"
proof -
  let ?l = "blksiz a + of_nat (length ev)" and ?t = "drop (length ev) tail"
  have le: "length ev \<le> length tail" "8 \<le> length ?t" using ev(2) by simp_all
  note c = copy_event_block [of a "[]" 8 "blknum a" 0 False True "[]" tail ev, OF _ _ _ ev(1) le(1)]
  define a1 where "a1 = the (copy_event a ev (of_nat (length ev)))"
  have e1: "copy_event a ev (of_nat (length ev)) = Some a1"
    "a1 = (set_mem (block_header ?l (blknum a) 0 False True @ ev @ ?t) a)
       \<lparr>blksiz := ?l, bytesToBuf := bytesToBuf a + 4 * of_nat (length ev), next := next a + length ev,
        left := left a - of_nat (length ev), blkEvCount := blkEvCount a + 1, eventsToBuf := eventsToBuf a + 1\<rparr>"
    using c m h by (simp_all add: a1_def last_block_def)
  have a1: "mem a1 = block_header ?l (blknum a) 0 False True @ ev @ ?t" "currentHeader a1 = 0" "buf a1 = 0"
    using h by (simp_all add: e1(2))
  note c2 = count_dictionary_block [OF a1]
  define a2 where "a2 = the (count_dictionary a1)"
  have e2: "count_dictionary a1 = Some a2"
    "a2 = (set_mem (block_header ?l (blknum a) 0 True True @ ev @ ?t) a1)\<lparr>wroteDictionary := True\<rparr>"
    by (simp_all add: a2_def c2)
  have a2: "mem a2 = [] @ block_header ?l (blknum a) 0 True True @ ev @ ?t" "currentHeader a2 = length []"
    using h by (simp_all add: e2(2) e1(2))
  note c3 = leave_last_block_block [OF a2]
  define a3 where "a3 = the (leave_last_block a2)"
  have e3: "leave_last_block a2 = Some a3"
    "a3 = (set_mem (block_header ?l (blknum a) 0 True False @ ev @ ?t) a2)\<lparr>blknum := blknum a + 1\<rparr>"
    unfolding a3_def c3 by (simp_all add: e2(2) e1(2))
  have a3: "mem a3 = (block_header ?l (blknum a) 0 True False @ ev) @ ?t"
    "next a3 = length (block_header ?l (blknum a) 0 True False @ ev)" "8 \<le> bufSize a3 - bytesToBuf a3 div 4" "blknum a3 = blknum a + 1"
    using h big by (simp_all add: e3(2) e2(2) e1(2))
  note c4 = write_last_block [OF a3(1,2) le(2) a3(3), of "blknum a + 1"]
  have "writeEventToBuffer a ev (of_nat (length ev)) True =
    Some ((set_mem ((block_header ?l (blknum a) 0 True False @ ev) @ last_block (blknum a + 1) @ drop 8 ?t) a3)\<lparr>bytesToBuf := bytesToBuf a3 + 32\<rparr>)"
    using c4 by (simp add: writeEventToBuffer_def e1(1) e2(1) e3(1) a3(4))
  then show ?thesis by (simp add: e3(2) e2(2) e1(2) after_dictionary_def add.commute)
qed

text \<open>Everything but the buffer and what the call says of the dictionary stays.\<close>

definition dictionary_only :: "EVFILE \<Rightarrow> EVFILE \<Rightarrow> bool" where
  "dictionary_only a a' \<longleftrightarrow> same_settings (a\<lparr>wroteDictionary := True\<rparr>) a' \<and> same_output a a'"

lemma dictionary_clean:
  assumes a: "clean a" "roomy a" "blknum a = 1" and ev: "event ev" "16 + length ev \<le> unat (bufSize a)"
  shows "\<exists>a'. writeEventToBuffer a ev (of_nat (length ev)) True = Some a' \<and> roomy a' \<and> dictionary_only a a' \<and>
    filled a' [] \<lparr>b_num = 1, b_dict = True, b_events = [ev]\<rparr>"
proof -
  obtain tail where m: "mem a = last_block (blknum a) @ tail" using a(1) by (auto simp: clean_def)
  have fields: "buf a = 0" "currentHeader a = 0" "next a = 8" "blksiz a = 8" "blkEvCount a = 0" "bytesToBuf a = 32" "counted a 0"
    using a(1) by (auto simp: clean_def)
  have t: "length ev + 8 \<le> length tail"
    using a(2) ev(2) arg_cong [OF m, of length] by (simp add: roomy_def)
  have big: "8 \<le> bufSize a - (bytesToBuf a + 4 * of_nat (length ev)) div 4"
    using room_left [of "8 + length ev" "bufSize a"] a(2) ev(2) fields by (simp add: roomy_def)
  define a' where "a' = after_dictionary ev a
     (block_header (blksiz a + of_nat (length ev)) (blknum a) 0 True False @ ev @ last_block (blknum a + 1) @ drop (length ev + 8) tail)"
  have w: "writeEventToBuffer a ev (of_nat (length ev)) True = Some a'"
    unfolding a'_def by (rule write_dictionary_block [OF m fields(2,1,3) ev(1) t big])
  have "counted a' (length (events_of [\<lparr>b_num = 1, b_dict = True, b_events = [ev]\<rparr>]))"
    by (rule counted_Suc [OF fields(7)]) (simp_all add: a'_def after_dictionary_def)
  then have "filled a' [] \<lparr>b_num = 1, b_dict = True, b_events = [ev]\<rparr>"
    using ev(2) a(3) by (simp add: filled_def a'_def after_dictionary_def fields block_words_def body_def event_count_def)
  moreover have "roomy a'"
    using a(2) t arg_cong [OF m, of length] by (simp add: roomy_def a'_def after_dictionary_def)
  moreover have "dictionary_only a a'"
    by (simp add: dictionary_only_def same_settings_def same_output_def a'_def after_dictionary_def set_mem_def)
  ultimately show ?thesis using w by blast
qed

section \<open>Writing it\<close>

context block_sink begin

lemma dictionary_writer:
  assumes wr: "writer False [] a w []" and xml: "length xml < 2 ^ 28" and c: "eventCount a = 0"
  shows "\<exists>a'. write_dictionary e xml a = Some (S_SUCCESS, a') \<and> writer True [] a' w [dictionary_bank xml] \<and>
    blkSizeTarget a' = blkSizeTarget a \<and> blkEvMax a' = blkEvMax a"
proof -
  let ?ev = "dictionary_bank xml"
  have ev: "event ?ev" using xml by (rule dictionary_bank_event)
  have sz: "length ?ev + 16 < 2 ^ 29" using xml by (simp add: length_dictionary_bank dictionary_words_def)
  have a: "ready mode a" "roomy a" "clean a" "start a w []" "blknum a = 1" "\<not> wroteDictionary a"
    using wr by (auto simp: writer_def filled_def)
  have g: "gone a w []" by (rule start_gone [OF a(4)])
  have rw: "rw a \<noteq> EV_WRITEBUF" using a(1) modes by (auto simp: ready_def mode_defs)
  define a1 where "a1 = a\<lparr>dictionary := Some xml, dictBuf := Some ?ev, dictLength := of_nat (4 * length ?ev)\<rparr>"
  have a1: "roomy a1" "buf a1 = 0" "blknum a1 = 1" "dictBuf a1 = Some ?ev" "rw a1 \<noteq> EV_WRITEBUF" "same_settings a a1" "same_output a a1" "clean a1"
    using a(2,3,5) rw by (simp_all add: a1_def roomy_def clean_def mem_def same_settings_def same_output_def counted_def)
  have h: "rd ?ev 0 = Some (hd ?ev)" "hd ?ev + 1 = of_nat (length ?ev)" using event_words [OF ev] by simp_all
  have big: "4 * bufSize a1 < 4 * (of_nat (length ?ev) + 2 * EV_HDSIZ) \<longleftrightarrow> unat (bufSize a1) < length ?ev + 16"
    using too_big_iff [OF ev a1(1)] by (simp add: too_big_def EV_HDSIZ_def)
  obtain a2 a3 where e: "(if 4 * bufSize a1 < 4 * (of_nat (length ?ev) + 2 * EV_HDSIZ) then expandBuffer e a1 (4 * (of_nat (length ?ev) + 2 * EV_HDSIZ))
      else (S_SUCCESS, a1)) = (S_SUCCESS, a2)" "resetBuffer a2 = Some a3" "clean a3" "roomy a3" "length ?ev + 16 \<le> unat (bufSize a3)"
    "same_settings a1 a3" "same_output a1 a3" "blknum a3 = blknum a1"
    using expand_reset [OF a1(1,2) memory [OF g] sz big] by blast
  define a4 where "a4 = (if 4 * bufSize a1 < 4 * (of_nat (length ?ev) + 2 * EV_HDSIZ) then a3 else a1)"
  have a4: "clean a4" "roomy a4" "16 + length ?ev \<le> unat (bufSize a4)" "same_settings a a4" "same_output a a4" "blknum a4 = 1"
    using e big a1 same_settings_trans [OF a1(6) e(6)] same_output_trans [OF a1(7) e(7)] by (auto simp: a4_def)
  obtain a5 where a5: "writeEventToBuffer a4 ?ev (of_nat (length ?ev)) True = Some a5" "roomy a5" "dictionary_only a4 a5"
    "filled a5 [] \<lparr>b_num = 1, b_dict = True, b_events = [?ev]\<rparr>"
    using dictionary_clean [OF a4(1,2,6) ev a4(3)] by blast
  let ?a = "a5\<lparr>commonBlkCount := commonBlkCount a5 + 1\<rparr>"
  have "evWriteDictImpl e a1 = Some (S_SUCCESS, ?a)"
    unfolding evWriteDictImpl_def a1(4) Option.bind_lunit h(1) Let_def h(2)
    using e(1,2) a1(5) a5(1) by (simp add: a4_def split: if_splits)
  then have w: "write_dictionary e xml a = Some (S_SUCCESS, ?a)"
    using a(5,6) c memory [OF g] by (simp add: write_dictionary_def strdup_def a1_def)
  have s: "same_settings (a\<lparr>wroteDictionary := True\<rparr>) ?a" "same_output (a\<lparr>wroteDictionary := True\<rparr>) ?a"
    using a4(4,5) a5(3) by (simp_all add: dictionary_only_def same_settings_def same_output_def)
  have m: "mem ?a = mem a5" by (simp add: mem_def)
  have "gone ?a w ([] @ [])" using gone_same [OF s gone_dictionary [OF g]] by simp
  moreover have "ready mode ?a" using ready_same [OF s(1), of mode] a(1) by (simp add: ready_def)
  moreover have "good_block (blkSizeTarget ?a) (blkEvMax ?a) \<lparr>b_num = 1, b_dict = True, b_events = [?ev]\<rparr>"
    using s(1) a(1) ev by (simp add: good_block_def same_settings_def ready_def)
  moreover have "filled ?a [] \<lparr>b_num = 1, b_dict = True, b_events = [?ev]\<rparr>" "roomy ?a" "wroteDictionary ?a"
    using a5(2,4) s(1) m by (auto simp: filled_def roomy_def counted_def same_settings_def)
  ultimately have "writer True [] ?a w [?ev]"
    unfolding writer_def
    by (intro conjI disjI2 exI [of _ "[]"] exI [of _ "\<lparr>b_num = 1, b_dict = True, b_events = [?ev]\<rparr>"]) (simp_all add: marked_def)
  then show ?thesis using w s(1) by (auto simp: same_settings_def)
qed

lemma evWriteDictionary_writer:
  assumes l: "lookup_handle l h = Some a" "writer False [] a (sys l) []" and xml: "35 \<le> length xml" "length xml < 2 ^ 28"
    and c: "eventCount a = 0" "append a = 0"
  shows "\<exists>l'. evWriteDictionary e l h (Some xml) = Some (S_SUCCESS, l') \<and>
    writes True [] (blkSizeTarget a) (blkEvMax a) l' h [dictionary_bank xml] \<and> others_kept l h l' \<and> sys l' = sys l"
proof -
  obtain a' where a': "write_dictionary e xml a = Some (S_SUCCESS, a')" "writer True [] a' (sys l) [dictionary_bank xml]"
    "blkSizeTarget a' = blkSizeTarget a" "blkEvMax a' = blkEvMax a"
    using dictionary_writer [OF l(2) xml(2) c(1)] by blast
  have w: "writing a" using l(2) modes by (auto simp: writer_def ready_def writing_def)
  let ?l = "store_handle l h a'"
  have "evWriteDictionary e l h (Some xml) = Some (S_SUCCESS, ?l)"
    using l(1) bad_handle_lookup [OF l(1)] w xml(1) c(2) a'(1) by (simp add: evWriteDictionary_def)
  moreover have "lookup_handle ?l h = Some a'" using handles.get_put [of l h a'] l(1) by simp
  moreover have "sys ?l = sys l" by (simp add: store_handle_def)
  moreover have "others_kept l h ?l" using others_kept_store [OF l(1), of "sys l" a'] by (simp add: store_handle_def)
  ultimately show ?thesis using a'(2-4) by (auto simp: writes_def)
qed

end

section \<open>Properties\<close>

text \<open>C6: A dictionary goes through a file: it is written before the events, kept in the first block with its mark and
  out of the event counts, given back by \<^verbatim>\<open>evGetDictionary\<close> as it was, and not among the events read.\<close>

theorem dictionary_roundtrip:
  assumes f: "plain_name f" "works e f" "read_ok e f" and c: "can_open l" and xml: "xml_text xml"
    and ev: "list_all event evs" "\<forall>ev \<in> set evs. length ev + 16 < 2 ^ 28" "length (concat evs) < 2 ^ 30"
  shows "\<exists>h l1 l2 l3 l4 h' l5 l6. evOpen e l (Name f) ''w'' = Some (S_SUCCESS, Some h, l1) \<and>
    evWriteDictionary e l1 h (Some xml) = Some (S_SUCCESS, l2) \<and> write_all e h evs l2 = Some (S_SUCCESS, l3) \<and>
    evClose e l3 h = Some (fclose_status e, l4) \<and> evOpen e l4 (Name f) ''r'' = Some (S_SUCCESS, Some h', l5) \<and>
    evGetDictionary e l5 h' True = (S_SUCCESS, Some (Some xml, length xml)) \<and> read_all e h' l5 = Some (c_EOF, evs, l6)"
proof -
  have m: "malloc_ok e n" for n using f(2) by (simp add: works_def)
  let ?evs = "dictionary_bank xml # evs"
  have x: "35 \<le> length xml" "length xml < 2 ^ 28" using xml by (simp_all add: xml_text_def)
  have b: "event (dictionary_bank xml)" "length (dictionary_bank xml) < 2 ^ 30"
    using dictionary_bank_event [OF x(2)] x(2) by (simp_all add: length_dictionary_bank dictionary_words_def)
  obtain h l1 where o: "evOpen e l (Name f) ''w'' = Some (S_SUCCESS, Some h, l1)" "lookup_handle l1 h = Some ((new_file f)\<lparr>handle := h\<rparr>)"
    "sys l1 = sys l"
    using evOpen_new [OF f(1) m c] by blast
  let ?a = "(new_file f)\<lparr>handle := h\<rparr>"
  obtain a where a: "lookup_handle l1 h = Some a" "block_sink.writer EV_WRITEFILE (file_start e f) (file_gone e f) False [] a (sys l1) []"
    "blkSizeTarget a = 64000" "blkEvMax a = 10000"
    using new_file_writes [OF f(1,2) o(2)] by (auto simp: file_sink.writes_def)
  have "a = ?a" using a(1) o(2) by simp
  then have n: "eventCount a = 0" "append a = 0" by (simp_all add: new_file_def structInit_def)
  obtain l2 where l2: "evWriteDictionary e l1 h (Some xml) = Some (S_SUCCESS, l2)"
    "file_writes e f True [] 64000 10000 l2 h [dictionary_bank xml]" "sys l2 = sys l1"
    using file_sink.evWriteDictionary_writer [OF a(1,2) x n] a(3,4) by auto
  have lim: "length (concat ([dictionary_bank xml] @ evs)) < limit True" using b(2) ev(3) by (simp add: limit_def)
  obtain l3 l4 where w: "write_all e h evs l2 = Some (S_SUCCESS, l3)" "evClose e l3 h = Some (fclose_status e, l4)" "can_open l4"
    "block_sink.holds_events (file_final f) True [] 64000 10000 (sys l4) ?evs"
    using file_sink.write_and_close [OF l2(2) ev(1,2) lim] by auto
  obtain bs where bs: "files (sys l4) f = Some (file_words bs (of_nat (length bs) + 1))" "list_all (good_block 64000 10000) bs"
    "events_of bs = ?evs" "with_dictionary bs"
    using w(4) marked_dictionary [of True] by (force simp: file_sink.holds_events_def file_final_def)
  have s: "proper (File f)" "starts_at e (File f) (sys l4) (raw_file False bs (of_nat (length bs) + 1))"
    using f bs(1) by (auto simp: proper_def starts_at_def file_starts_def plain_name_def raw_file_host)
  have st: "list_all2 (stored False) (events_of bs) ?evs" unfolding bs(3) using ev(1) b(1) by (intro stored_same) simp
  have d: "evTrim (Some (chars_of (List.hd ?evs))) 8 = Some (Some xml)" using dictionary_trim [OF xml] by simp
  obtain h' l5 a5 where r: "open_to_read e l4 (File f) = Some (S_SUCCESS, Some h', l5)" "feeds (any_holds e) False l5 h' evs"
    "lookup_handle l5 h' = Some a5" "dictionary a5 = Some xml"
    using open_source_feeds [OF s good_blocks_readable(1) [OF bs(2)] st d m w(3)] bs(4) by auto
  have g: "evGetDictionary e l5 h' True = (S_SUCCESS, Some (Some xml, length xml))"
    using r(3,4) bad_handle_lookup [OF r(3)] m by (simp add: evGetDictionary_def strdup_def)
  obtain l6 where "read_all e h' l5 = Some (c_EOF, evs, l6)" using any_source.read_all_feeds [OF m r(2)] by blast
  then show ?thesis using o(1) l2(1) w(1,2) r(1) g by (auto simp: open_to_read_def)
qed

definition small_xml :: string where
  "small_xml = ''<xmlDict><dictEntry num=1/></xmlDict>''"

theorem dictionary_roundtrip_witness:
  "\<exists>h l1 l2 l3 l4 h' l5 l6. evOpen calm empty_lib (Name ''run'') ''w'' = Some (S_SUCCESS, Some h, l1) \<and>
    evWriteDictionary calm l1 h (Some small_xml) = Some (S_SUCCESS, l2) \<and> write_all calm h two_events l2 = Some (S_SUCCESS, l3) \<and>
    evClose calm l3 h = Some (0, l4) \<and> evOpen calm l4 (Name ''run'') ''r'' = Some (S_SUCCESS, Some h', l5) \<and>
    evGetDictionary calm l5 h' True = (S_SUCCESS, Some (Some small_xml, 37)) \<and> read_all calm h' l5 = Some (c_EOF, two_events, l6)"
proof -
  have x: "xml_text small_xml" "length small_xml = 37"
    by (simp_all add: xml_text_def small_xml_def trims_def isspace_def isprint_def code_def NUL_def)
  have z: "fclose_status calm = 0" by (simp add: calm_def)
  have "length (concat two_events) < 2 ^ 30" by (simp add: two_events_def)
  then show ?thesis
    using dictionary_roundtrip [of "''run''" calm empty_lib, OF _ _ _ _ x(1), of two_events] calm_file two_events_facts
    unfolding z x(2) by blast
qed

end
