(* ===== verification/EvioRandomRead.thy ===== *)
theory EvioRandomRead imports EvioAppend begin

text \<open>
  Random access to a file of blocks: the pointer table has the place of every event, in order, and
  \<^verbatim>\<open>evReadRandom\<close> hands out the event of the number asked for.
\<close>

section \<open>The pointer table\<close>

text \<open>An event whose first word, read in the byte order \<open>sw\<close>, is the number of words behind it.\<close>

definition sized :: "bool \<Rightarrow> words \<Rightarrow> bool" where
  "sized sw ev \<longleftrightarrow> ev \<noteq> [] \<and> length ev < 2 ^ 28 \<and> (if sw then EVIO_SWAP32 (hd ev) else hd ev) + 1 = of_nat (length ev)"

lemma sized_event: "sized False ev \<longleftrightarrow> event ev"
  by (simp add: sized_def event_def)

abbreviation places :: "words \<Rightarrow> nat list \<Rightarrow> words list \<Rightarrow> bool" where
  "places m ps evs \<equiv> list_all2 (\<lambda>p ev. cut m p (length ev) = Some ev) ps evs"

lemma hop_fields:
  assumes "n < 2 ^ 28" "4 * n \<le> unat (sc_left s)"
  shows "sc_pos (hop (of_nat n) s) = sc_pos s + n" "unat (sc_left (hop (of_nat n) s)) = unat (sc_left s) - 4 * n"
    "sc_table (hop k s) = sc_table s" "sc_room (hop k s) = sc_room s"
proof -
  have "unat (of_nat n :: u32) = n" "unat (4 * of_nat n :: u32) = 4 * n"
    using assms(1) unat_of_nat_32 [of n] unat_of_nat_32 [of "4 * n"] by simp_all
  then show "sc_pos (hop (of_nat n) s) = sc_pos s + n" "unat (sc_left (hop (of_nat n) s)) = unat (sc_left s) - 4 * n"
    using assms(2) unat_ucast_64 [of "4 * of_nat n"] by (simp_all add: hop_def unat_sub word_le_nat_alt)
qed (simp_all add: hop_def)

lemma table_events_sized:
  assumes "\<And>n. malloc_ok e n"
    and "list_all (sized sw) evs" "sc_pos s = length pre" "sc_table s = Some t" "4 * length (concat evs) + 8 \<le> unat (sc_left s)"
  shows "\<exists>s' ps. table_events e sw (pre @ concat evs @ post) (length evs) s = Some (S_SUCCESS, s') \<and>
    sc_pos s' = length pre + length (concat evs) \<and> unat (sc_left s') = unat (sc_left s) - 4 * length (concat evs) \<and>
    sc_table s' = Some (t @ ps) \<and> places (pre @ concat evs @ post) ps evs"
  using assms(2-)
proof (induction evs arbitrary: s pre t)
  case Nil
  then show ?case by simp
next
  case (Cons ev evs)
  have ev: "ev \<noteq> []" "length ev < 2 ^ 28" "(if sw then EVIO_SWAP32 (hd ev) else hd ev) + 1 = of_nat (length ev)"
    using Cons.prems(1) by (simp_all add: sized_def)
  let ?m = "pre @ concat (ev # evs) @ post"
  have rd: "rd ?m (sc_pos s) = Some (hd ev)" using ev(1) Cons.prems(2) by (simp add: rd_def nth_append hd_conv_nth)
  have nl: "\<not> sc_left s < 8" using Cons.prems(4) by (simp add: word_less_nat_alt)
  define u where "u = s\<lparr>sc_table := Some (t @ [sc_pos s]), sc_room := (if Suc (length t) \<ge> sc_room s then sc_room s + 10000 else sc_room s)\<rparr>"
  have u: "sc_pos u = sc_pos s" "sc_left u = sc_left s" "sc_table u = Some (t @ [sc_pos s])" by (simp_all add: u_def)
  define v where "v = hop (of_nat (length ev)) u"
  have v: "sc_pos v = length (pre @ ev)" "unat (sc_left v) = unat (sc_left s) - 4 * length ev" "sc_table v = Some (t @ [sc_pos s])"
    using hop_fields [OF ev(2), of u] u Cons.prems(2,4) by (simp_all add: v_def)
  have "(if Suc (length t) \<ge> sc_room s then s\<lparr>sc_table := Some (t @ [sc_pos s]), sc_room := sc_room s + 10000\<rparr>
     else s\<lparr>sc_table := Some (t @ [sc_pos s])\<rparr>) = u" by (simp add: u_def)
  then have step: "table_events e sw ?m (length (ev # evs)) s = table_events e sw ((pre @ ev) @ concat evs @ post) (length evs) v"
    using nl rd Cons.prems(3) assms(1) ev(3) unfolding v_def by (auto simp: Let_def split: if_splits)
  have room: "4 * length (concat evs) + 8 \<le> unat (sc_left v)" using v(2) Cons.prems(4) by simp
  obtain s' ps where s': "table_events e sw ((pre @ ev) @ concat evs @ post) (length evs) v = Some (S_SUCCESS, s')"
    "sc_pos s' = length (pre @ ev) + length (concat evs)" "unat (sc_left s') = unat (sc_left v) - 4 * length (concat evs)"
    "sc_table s' = Some ((t @ [sc_pos s]) @ ps)" "places ((pre @ ev) @ concat evs @ post) ps evs"
    using Cons.IH [OF _ v(1,3) room] Cons.prems(1) by auto
  have "cut ?m (sc_pos s) (length ev) = Some ev" using Cons.prems(2) by (simp add: cut_def)
  then show ?case using s' v(2) step by (intro exI [of _ s'] exI [of _ "sc_pos s # ps"]) simp
qed

text \<open>The words of blocks, and what follows them, in the byte order \<open>sw\<close>.\<close>

definition blocks_sized :: "bool \<Rightarrow> block list \<Rightarrow> bool" where
  "blocks_sized sw bs \<longleftrightarrow> list_all (\<lambda>b. list_all (sized sw) (b_events b) \<and> length (b_events b) < 2 ^ 31) bs"

lemma header_at:
  assumes "m = pre @ in_order sw (block_header l n c d x) @ post" "p = length pre"
  shows "rd m (p + EV_HD_VER) = Some (if sw then EVIO_SWAP32 (generateSixthWord 4 d x 0) else generateSixthWord 4 d x 0)"
    "rd m (p + EV_HD_HDSIZ) = Some (if sw then EVIO_SWAP32 8 else 8)" "rd m (p + EV_HD_COUNT) = Some (if sw then EVIO_SWAP32 c else c)"
  using assms by (simp_all add: rd_def nth_append in_order_nth) (simp_all add: pos_defs)

text \<open>One round of the loop over the blocks.\<close>

lemma table_blocks_step:
  assumes "m = pre @ in_order sw (block_header l n c d x) @ post" "sc_pos s = length pre"
  shows "table_blocks e sw m first s = do {
    s \<leftarrow> (if d \<and> first then skip_dictionary sw m (hop 8 s) else Some (hop 8 s));
    (st, s) \<leftarrow> table_events e sw m (nat (sint c)) s;
    if st \<noteq> S_SUCCESS then Some (st, s) else if x then Some (S_SUCCESS, s) else table_blocks e sw m (first \<and> \<not> d) s }"
proof -
  note r = header_at [OF assms]
  have bits: "isLastBlockInt (generateSixthWord 4 d x 0) = x" "hasDictionaryInt (generateSixthWord 4 d x 0) = d" by (cases x; simp)+
  have twice: "(if sw then EVIO_SWAP32 (if sw then EVIO_SWAP32 v else v) else if sw then EVIO_SWAP32 v else v) = v" for v by simp
  have flag: "(first \<and> \<not> (d \<and> first)) = (first \<and> \<not> d)" by blast
  show ?thesis by (subst table_blocks.simps) (unfold r Option.bind_lunit Let_def twice bits flag, rule refl)
qed

lemma nat_sint_of_nat: "k < 2 ^ 31 \<Longrightarrow> nat (sint (of_nat k :: u32)) = k"
  using sint_sbintrunc' [of "int k", where 'a = 32] by (simp add: signed_take_bit_int_eq_self)

lemma table_blocks_plain:
  assumes malloc: "\<And>n. malloc_ok e n"
    and "blocks_sized sw bs" "\<forall>b \<in> set bs. \<not> b_dict b" "sc_pos s = length pre" "sc_table s = Some t"
      "4 * length (raw_file sw bs n) \<le> unat (sc_left s)"
  shows "\<exists>s' ps. table_blocks e sw (pre @ raw_file sw bs n) first s = Some (S_SUCCESS, s') \<and> sc_table s' = Some (t @ ps) \<and>
    places (pre @ raw_file sw bs n) ps (events_of bs)"
  using assms(2-)
proof (induction bs arbitrary: s pre t "first")
  case Nil
  have m: "pre @ raw_file sw [] n = pre @ in_order sw (block_header 8 n 0 False True) @ []" by (simp add: raw_file_def last_block_def)
  show ?case using Nil.prems(4) by (simp add: table_blocks_step [OF m Nil.prems(3)] hop_def)
next
  case (Cons b bs)
  have b: "list_all (sized sw) (b_events b)" "length (b_events b) < 2 ^ 31" "\<not> b_dict b" "blocks_sized sw bs"
    using Cons.prems(1,2) by (simp_all add: blocks_sized_def)
  let ?m = "pre @ raw_file sw (b # bs) n"
  let ?hd = "in_order sw (block_header (of_nat (8 + length (body b))) (b_num b) (event_count b) (b_dict b) False)"
  have m: "?m = pre @ ?hd @ (concat (b_events b) @ raw_file sw bs n)" by (simp add: raw_file_def raw_block_def body_def)
  have c: "event_count b = of_nat (length (b_events b))" using b(3) by (simp add: event_count_def)
  have k: "nat (sint (event_count b)) = length (b_events b)"
    using b(2) unfolding c by (rule nat_sint_of_nat)
  define u where "u = hop 8 s"
  have l: "4 * (8 + length (concat (b_events b)) + length (raw_file sw bs n)) \<le> unat (sc_left s)" "8 \<le> length (raw_file sw bs n)"
    using Cons.prems(5) by (simp_all add: raw_file_def raw_block_def body_def)
  have u: "sc_pos u = length (pre @ ?hd)" "unat (sc_left u) = unat (sc_left s) - 32" "sc_table u = Some t"
    using hop_fields [of 8 s] l Cons.prems(3,4) by (simp_all add: u_def)
  obtain v ps where v: "table_events e sw ((pre @ ?hd) @ concat (b_events b) @ raw_file sw bs n) (length (b_events b)) u = Some (S_SUCCESS, v)"
    "sc_pos v = length (pre @ ?hd) + length (concat (b_events b))" "unat (sc_left v) = unat (sc_left u) - 4 * length (concat (b_events b))"
    "sc_table v = Some (t @ ps)" "places ((pre @ ?hd) @ concat (b_events b) @ raw_file sw bs n) ps (b_events b)"
    using table_events_sized [OF malloc b(1) u(1,3)] l u(2) by fastforce
  have m': "?m = (pre @ ?hd @ concat (b_events b)) @ raw_file sw bs n" using m by simp
  have room: "4 * length (raw_file sw bs n) \<le> unat (sc_left v)" using v(3) u(2) l by simp
  have pos: "sc_pos v = length (pre @ ?hd @ concat (b_events b))" using v(2) by simp
  obtain s' qs where s': "table_blocks e sw ((pre @ ?hd @ concat (b_events b)) @ raw_file sw bs n) first v = Some (S_SUCCESS, s')"
    "sc_table s' = Some ((t @ ps) @ qs)" "places ((pre @ ?hd @ concat (b_events b)) @ raw_file sw bs n) qs (events_of bs)"
    using Cons.IH [OF b(4) _ pos v(4) room, of "first"] Cons.prems(2) by auto
  have "table_blocks e sw ?m first s = Some (S_SUCCESS, s')"
    unfolding table_blocks_step [OF m Cons.prems(3)] k u_def [symmetric] using v(1) s'(1) b(3) by (simp add: m)
  then show ?case using s'(2,3) v(5) m m' by (intro exI [of _ s'] exI [of _ "ps @ qs"]) (simp add: list_all2_appendI)
qed

definition tabled :: "bool \<Rightarrow> block list \<Rightarrow> bool" where
  "tabled sw bs \<longleftrightarrow> blocks_sized sw bs \<and> (\<forall>b \<in> set (tl bs). \<not> b_dict b) \<and> (with_dictionary bs \<longrightarrow> b_events (hd bs) \<noteq> []) \<and>
     length (events_of bs) < 2 ^ 31 \<and> length (blocks_words bs) < 2 ^ 60"

lemma table_blocks_all:
  assumes malloc: "\<And>n. malloc_ok e n" and t: "tabled sw bs"
    and s: "sc_pos s = 0" "sc_table s = Some []" "4 * length (raw_file sw bs n) \<le> unat (sc_left s)"
  shows "\<exists>s' ps. table_blocks e sw (raw_file sw bs n) True s = Some (S_SUCCESS, s') \<and> sc_table s' = Some ps \<and>
    places (raw_file sw bs n) ps (data_events bs)"
proof (cases "with_dictionary bs")
  case False
  then have "\<forall>b \<in> set bs. \<not> b_dict b" using t by (cases bs) (auto simp: tabled_def with_dictionary_def)
  then show ?thesis
    using table_blocks_plain [OF malloc, of sw bs s "[]" "[]" n True] t s False by (simp add: tabled_def data_events_def)
next
  case True
  then obtain b cs where bs: "bs = b # cs" "b_dict b" by (cases bs) (auto simp: with_dictionary_def)
  obtain d evs where evs: "b_events b = d # evs" using t True bs(1) by (cases "b_events b") (auto simp: tabled_def)
  have z: "sized sw d" "list_all (sized sw) evs" "length evs < 2 ^ 31" "blocks_sized sw cs" "\<forall>b \<in> set cs. \<not> b_dict b"
    using t evs by (simp_all add: tabled_def bs(1) blocks_sized_def)
  let ?hd = "in_order sw (block_header (of_nat (8 + length (body b))) (b_num b) (event_count b) True False)"
  let ?m = "raw_file sw bs n"
  have m: "?m = [] @ ?hd @ (body b @ raw_file sw cs n)" using bs by (simp add: raw_file_def raw_block_def)
  have m1: "?m = (?hd @ d) @ concat evs @ raw_file sw cs n" using m evs by (simp add: body_def)
  have k: "nat (sint (event_count b)) = length evs"
    using nat_sint_of_nat [OF z(3)] bs(2) evs by (simp add: event_count_def)
  have l: "32 + 4 * length d + 4 * length (concat evs) + 4 * length (raw_file sw cs n) \<le> unat (sc_left s)" "8 \<le> length (raw_file sw cs n)"
    using s(3) unfolding m1 by (simp_all add: raw_file_def)
  have d: "d \<noteq> []" "length d < 2 ^ 28" "(if sw then EVIO_SWAP32 (hd d) else hd d) + 1 = of_nat (length d)"
    using z(1) by (simp_all add: sized_def)
  define u where "u = hop 8 s"
  have u: "sc_pos u = 8" "unat (sc_left u) = unat (sc_left s) - 32" "sc_table u = Some []"
    using hop_fields [of 8 s] l s(1,2) by (simp_all add: u_def)
  define v where "v = hop (of_nat (length d)) u"
  have "rd ?m 8 = Some (hd d)" unfolding m1 using d(1) by (simp add: rd_def nth_append hd_conv_nth)
  then have sk: "skip_dictionary sw ?m u = Some v" unfolding skip_dictionary_def u(1) by (simp add: d(3) v_def)
  have v: "sc_pos v = length (?hd @ d)" "unat (sc_left v) = unat (sc_left s) - 32 - 4 * length d" "sc_table v = Some []"
    using hop_fields [OF d(2), of u] u l by (simp_all add: v_def)
  have room: "4 * length (concat evs) + 8 \<le> unat (sc_left v)" using v(2) l by simp
  obtain x ps where x: "table_events e sw ((?hd @ d) @ concat evs @ raw_file sw cs n) (length evs) v = Some (S_SUCCESS, x)"
    "sc_pos x = length (?hd @ d) + length (concat evs)" "unat (sc_left x) = unat (sc_left v) - 4 * length (concat evs)"
    "sc_table x = Some ps" "places ((?hd @ d) @ concat evs @ raw_file sw cs n) ps evs"
    using table_events_sized [OF malloc z(2) v(1,3) room, of "raw_file sw cs n"] by auto
  have room2: "4 * length (raw_file sw cs n) \<le> unat (sc_left x)" using x(3) v(2) l by simp
  have pos: "sc_pos x = length (?hd @ d @ concat evs)" using x(2) by simp
  obtain y qs where y: "table_blocks e sw ((?hd @ d @ concat evs) @ raw_file sw cs n) False x = Some (S_SUCCESS, y)"
    "sc_table y = Some (ps @ qs)" "places ((?hd @ d @ concat evs) @ raw_file sw cs n) qs (events_of cs)"
    using table_blocks_plain [OF malloc z(4,5) pos x(4) room2, of False] by auto
  have m2: "(?hd @ d @ concat evs) @ raw_file sw cs n = ?m" "(?hd @ d) @ concat evs @ raw_file sw cs n = ?m" using m1 by simp_all
  have p0: "sc_pos s = length ([] :: words)" using s(1) by simp
  have "table_blocks e sw ?m True s = Some (S_SUCCESS, y)"
    unfolding table_blocks_step [OF m p0] k u_def [symmetric] using x(1) [unfolded m2] y(1) [unfolded m2] sk by simp
  moreover have "places ?m (ps @ qs) (data_events bs)"
    using x(5) [unfolded m2] y(3) [unfolded m2] True by (simp add: data_events_def bs(1) evs list_all2_appendI)
  ultimately show ?thesis using y(2) by blast
qed

section \<open>Opening for random access\<close>

lemma random_flags [simp]:
  "one_of ''ra'' [''w'', ''s'', ''r'', ''a'', ''ra'']" "one_of ''ra'' [''ra'', ''rab'']" "\<not> one_of ''ra'' [''a'', ''ab'']"
  by code_simp+

text \<open>The handle has the file in memory, in the byte order \<open>sw\<close>, and the table of the places of its events.\<close>

definition random_reader :: "bool \<Rightarrow> words \<Rightarrow> words list \<Rightarrow> EVFILE \<Rightarrow> bool" where
  "random_reader sw m evs a \<longleftrightarrow> rw a = EV_READFILE \<and> randomAccess a \<and> version a = 4 \<and> mmapFile a = m \<and> byte_swapped a = sw \<and>
     (\<exists>ps. pTable a = Some ps \<and> eventCount a = of_nat (length ps) \<and> length ps < 2 ^ 31 \<and> places m ps evs)"

lemma evOpen_random:
  assumes f: "plain_name f" "create_ok e f" "files (sys l) f = Some (raw_file sw bs n)" and m: "\<And>n. malloc_ok e n"
    and t: "tabled sw bs" and c: "can_open l"
  shows "\<exists>h l' a. evOpen e l (Name f) ''ra'' = Some (S_SUCCESS, Some h, l') \<and> lookup_handle l' h = Some a \<and>
    random_reader sw (raw_file sw bs n) (data_events bs) a \<and> sys l' = sys l \<and> lookup_handle l h = None \<and> others_kept l h l'"
proof -
  let ?m = "raw_file sw bs n"
  obtain k b j x X where hdr: "?m = in_order sw (block_header k b j (with_dictionary bs) x) @ X"
  proof -
    have "\<exists>k b j x X. ?m = in_order sw (block_header k b j (with_dictionary bs) x) @ X" using first_header_words [of sw bs n] by fast
    then show ?thesis using that by blast
  qed
  let ?h = "in_order sw (block_header k b j (with_dictionary bs) x)"
  define z :: u64 where "z = of_nat (4 * length ?m)"
  have len: "length ?m = length (blocks_words bs) + 8" unfolding raw_file_def by (induction bs) (simp_all add: raw_block_def)
  have "4 * length ?m < 2 ^ 64" using t by (simp add: len tabled_def)
  then have uz: "unat z = 4 * length ?m" unfolding z_def by (simp add: unat_of_nat take_bit_nat_eq_self del: of_nat_mult)
  have ot: "open_target e (Name f) 0 0 ''ra'' = Some (Inr (File f))"
    using m trimmed_plain [OF f(1)] by (simp add: open_target_def strdup_def)
  let ?a1 = "structInit\<lparr>rw := EV_READFILE, randomAccess := True, mmapFile := ?m, mmapFileSize := z\<rparr>"
  have "?m \<noteq> []" using len by auto
  then have os: "open_stream e True f structInit (sys l) = Inr ?a1"
    using f m unfolding z_def by (simp add: open_stream_def memoryMapFile_def plain_name_def Let_def)
  have "cut ?m 0 8 = Some ?h" unfolding hdr by (simp add: cut_def)
  then have fh: "first_header e True (File f) structInit (sys l) = Some (Inr (32, ?h, ?a1, sys l))"
    using os by (simp add: first_header_def)
  let ?a2 = "?a1\<lparr>byte_swapped := sw, version := 4\<rparr>"
  let ?s = "\<lparr>sc_pos = 0, sc_left = z, sc_table = Some [], sc_room = 10000\<rparr>"
  obtain s ps where s: "table_blocks e sw ?m True ?s = Some (S_SUCCESS, s)" "sc_table s = Some ps" "places ?m ps (data_events bs)"
    using table_blocks_all [OF m t, of ?s n] uz by auto
  let ?a = "?a2\<lparr>pTable := Some ps, eventCount := of_nat (length ps)\<rparr>"
  have "generatePointerTable e ?a2 = Some (S_SUCCESS, ?a)"
    using s m by (simp add: generatePointerTable_def random_mem_def mode_defs)
  then have o: "open_reading e True (File f) structInit (sys l) = Some (Inr (?a, sys l))"
    using fh check_block_header [of sw k b j "with_dictionary bs" x ?a1] by (simp add: open_reading_def)
  obtain h l' where h: "newHandle e ?a l = Some (h, l')"
    using newHandle_ok [where e = e and l = l] m c unfolding can_open_def by blast
  have "evOpen e l (Name f) ''ra'' = Some (S_SUCCESS, Some h, l')"
    using m ot o h by (simp add: evOpen_def evOpenImpl_def)
  moreover have "length ps < 2 ^ 31"
    using list_all2_lengthD [OF s(3)] t by (auto simp: data_events_def tabled_def)
  then have "random_reader sw ?m (data_events bs) (?a\<lparr>handle := h\<rparr>)" using s(3) by (simp add: random_reader_def)
  ultimately show ?thesis using newHandle_binds [OF h] by (auto simp: others_kept_def)
qed

lemma cut_hd:
  assumes "cut m p n = Some ev" "ev \<noteq> []"
  shows "rd m p = Some (hd ev)"
proof -
  have "0 < n" using assms by (cases n) (simp_all add: cut_def)
  moreover have "p + n \<le> length m" "ev = take n (drop p m)" using assms(1) \<open>0 < n\<close> by (simp_all add: cut_def split: if_splits)
  ultimately show ?thesis by (simp add: rd_def hd_drop_conv_nth)
qed

lemma random_event_host:
  assumes r: "random_reader False m evs a" and i: "i < length evs" and ev: "list_all event evs"
  shows "\<exists>p. random_event e a (of_nat i + 1) = Some (S_SUCCESS, Some (p, of_nat (length (evs ! i))), a) \<and>
    cut m p (length (evs ! i)) = Some (evs ! i)"
proof -
  obtain ps where ps: "pTable a = Some ps" "eventCount a = of_nat (length ps)" "length ps < 2 ^ 31" "places m ps evs"
    and a: "rw a = EV_READFILE" "mmapFile a = m" "\<not> byte_swapped a"
    using r by (auto simp: random_reader_def)
  have l: "length ps = length evs" using ps(4) by (rule list_all2_lengthD)
  have c: "cut m (ps ! i) (length (evs ! i)) = Some (evs ! i)" using list_all2_nthD [OF ps(4), of i] i l by simp
  have e: "evs ! i \<noteq> []" "hd (evs ! i) + 1 = of_nat (length (evs ! i))" using ev i by (simp_all add: list_all_length event_def)
  have "rd m (ps ! i) = Some (hd (evs ! i))"
    by (rule cut_hd [OF c e(1)])
  moreover have "\<not> eventCount a < of_nat i + 1" "of_nat i + 1 \<noteq> (0 :: u32)" "unat (of_nat i + 1 - 1 :: u32) = i"
    using i l ps(2,3) unat_of_nat_32 [of i] unat_of_nat_32 [of "Suc i"] unat_of_nat_32 [of "length ps"]
    by (simp_all add: word_less_nat_alt add.commute word_unat_eq_iff)
  ultimately show ?thesis
    using c i l ps(1) a e(2) by (intro exI [of _ "ps ! i"]) (simp add: random_event_def random_mem_def mode_defs host_def rd_def)
qed

lemma store_same: "lookup_handle l h = Some a \<Longrightarrow> store_handle l h a = l"
  by (cases l) (auto simp: store_handle_def lookup_handle_def handleCount_def list_update_same_conv split: if_splits)

lemma evReadRandom_reader:
  assumes "lookup_handle l h = Some a" "random_reader sw m evs a" "random_event e a k = Some (st, r, a)"
  shows "evReadRandom e l h k = Some (st, r, l)"
  using assms bad_handle_lookup [OF assms(1)] store_same [OF assms(1)] by (simp add: evReadRandom_def random_reader_def)

section \<open>Properties\<close>

text \<open>C7: Random access to a file of the host's byte order: for every number from 1 to the number of events (the
  dictionary is not counted) \<^verbatim>\<open>evReadRandom\<close> hands out the place of that event and its length, the next number
  is refused, and no call changes anything.\<close>

theorem random_access_reads:
  assumes "plain_name f" "create_ok e f" "files (sys l) f = Some (file_words bs n)" "\<And>n. malloc_ok e n" "tabled False bs" "can_open l"
  shows "\<exists>h l' a. evOpen e l (Name f) ''ra'' = Some (S_SUCCESS, Some h, l') \<and> lookup_handle l' h = Some a \<and>
    (\<forall>i < length (data_events bs). \<exists>p. cut (mmapFile a) p (length (data_events bs ! i)) = Some (data_events bs ! i) \<and>
       evReadRandom e l' h (of_nat i + 1) = Some (S_SUCCESS, Some (p, of_nat (length (data_events bs ! i))), l')) \<and>
    evReadRandom e l' h (of_nat (length (data_events bs)) + 1) = Some (S_FAILURE, None, l')"
proof -
  obtain h l' a where o: "evOpen e l (Name f) ''ra'' = Some (S_SUCCESS, Some h, l')" "lookup_handle l' h = Some a"
    "random_reader False (file_words bs n) (data_events bs) a"
    using evOpen_random [OF assms(1,2) _ assms(4-6), of n] assms(3) by (auto simp: raw_file_host)
  have all: "list_all event (events_of bs)"
    using assms(5) by (auto simp: tabled_def blocks_sized_def sized_event [abs_def] events_of_def list_all_iff)
  have ev: "list_all event (data_events bs)"
    using all by (cases "events_of bs") (simp_all add: data_events_def)
  have m: "mmapFile a = file_words bs n" using o(3) by (simp add: random_reader_def)
  have "\<exists>p. cut (mmapFile a) p (length (data_events bs ! i)) = Some (data_events bs ! i) \<and>
       evReadRandom e l' h (of_nat i + 1) = Some (S_SUCCESS, Some (p, of_nat (length (data_events bs ! i))), l')" if "i < length (data_events bs)" for i
    using random_event_host [OF o(3) that ev, of e] evReadRandom_reader [OF o(2,3)] unfolding m by blast
  moreover have "random_event e a (of_nat (length (data_events bs)) + 1) = Some (S_FAILURE, None, a)"
  proof -
    obtain ps where ps: "eventCount a = of_nat (length ps)" "length ps < 2 ^ 31" "places (file_words bs n) ps (data_events bs)"
      using o(3) by (auto simp: random_reader_def)
    have "eventCount a < of_nat (length (data_events bs)) + 1"
      using ps(1,2) list_all2_lengthD [OF ps(3)] unat_of_nat_32 [of "length ps"] unat_of_nat_32 [of "Suc (length ps)"]
      by (simp add: word_less_nat_alt add.commute)
    then show ?thesis by (simp add: random_event_def)
  qed
  ultimately show ?thesis using o(1,2) evReadRandom_reader [OF o(2,3)] by blast
qed

definition dictionary_block :: block where
  "dictionary_block = \<lparr>b_num = 1, b_dict = True, b_events = [[2, 0x00000e00, 0x41424304], [1, 0x00010100]]\<rparr>"

definition random_lib :: "bool \<Rightarrow> lib" where
  "random_lib sw = empty_lib\<lparr>sys := set_file ''run'' (raw_file sw [if sw then \<lparr>b_num = 1, b_dict = False, b_events = [[0x01000000, 0x00010000]]\<rparr> else dictionary_block] 2) empty_world\<rparr>"

theorem random_access_reads_witness:
  "\<exists>h l' a p. evOpen calm (random_lib False) (Name ''run'') ''ra'' = Some (S_SUCCESS, Some h, l') \<and> lookup_handle l' h = Some a \<and>
    evReadRandom calm l' h 1 = Some (S_SUCCESS, Some (p, 2), l') \<and> cut (mmapFile a) p 2 = Some [1, 0x00010100] \<and>
    evReadRandom calm l' h 2 = Some (S_FAILURE, None, l')"
proof -
  have d: "data_events [dictionary_block] = [[1, 0x00010100]]"
    by (simp add: data_events_def dictionary_block_def with_dictionary_def)
  have t: "tabled False [dictionary_block]"
    by (simp add: tabled_def dictionary_block_def with_dictionary_def blocks_sized_def sized_def body_def)
  have c: "can_open (random_lib False)" "files (sys (random_lib False)) ''run'' = Some (file_words [dictionary_block] 2)"
    by (simp_all add: random_lib_def can_open_def empty_lib_def set_file_def raw_file_host)
  have m: "malloc_ok calm n" "create_ok calm ''run''" for n by (simp_all add: calm_def)
  from random_access_reads [OF calm_file [THEN conjunct1] m(2) c(2) m(1) t c(1)] show ?thesis
    unfolding d by (simp add: numeral_2_eq_2) (elim exE conjE, intro exI conjI, assumption+)
qed

text \<open>C30: Random access to a file of the other byte order: opening succeeds and counts the events, but the first
  \<^verbatim>\<open>evReadRandom\<close> swaps the event in place, in a map that was made for reading only: the program has no
  behaviour from there on.\<close>

theorem random_access_foreign_undefined:
  assumes "plain_name f" "create_ok e f" "files (sys l) f = Some (raw_file True bs n)" "\<And>n. malloc_ok e n" "tabled True bs" "can_open l"
    and "i < length (data_events bs)"
  shows "\<exists>h l' a. evOpen e l (Name f) ''ra'' = Some (S_SUCCESS, Some h, l') \<and> lookup_handle l' h = Some a \<and>
    eventCount a = of_nat (length (data_events bs)) \<and> evReadRandom e l' h (of_nat i + 1) = None"
proof -
  obtain h l' a where o: "evOpen e l (Name f) ''ra'' = Some (S_SUCCESS, Some h, l')" "lookup_handle l' h = Some a"
    "random_reader True (raw_file True bs n) (data_events bs) a"
    using evOpen_random [OF assms(1-6)] by blast
  obtain ps where ps: "pTable a = Some ps" "eventCount a = of_nat (length ps)" "length ps < 2 ^ 31" "places (raw_file True bs n) ps (data_events bs)"
    and a: "rw a = EV_READFILE" "byte_swapped a" "randomAccess a" "version a = 4"
    using o(3) by (auto simp: random_reader_def)
  have l: "length ps = length (data_events bs)" using ps(4) by (rule list_all2_lengthD)
  have "\<not> eventCount a < of_nat i + 1"
    using assms(7) l ps(2,3) unat_of_nat_32 [of "Suc i"] unat_of_nat_32 [of "length ps"] by (simp add: word_less_nat_alt add.commute)
  then have "random_event e a (of_nat i + 1) = None"
    using ps(1) a by (simp add: random_event_def mode_defs Option.bind_eq_None_conv Let_def split: bind_splits)
  then have "evReadRandom e l' h (of_nat i + 1) = None"
    using o(2) bad_handle_lookup [OF o(2)] a by (simp add: evReadRandom_def)
  then show ?thesis using o(1,2) ps(2) [unfolded l] by blast
qed

theorem random_access_foreign_undefined_witness:
  "\<exists>h l'. evOpen calm (random_lib True) (Name ''run'') ''ra'' = Some (S_SUCCESS, Some h, l') \<and> evReadRandom calm l' h 1 = None"
proof -
  let ?b = "\<lparr>b_num = 1, b_dict = False, b_events = [[0x01000000, 0x00010000]]\<rparr>"
  have d: "data_events [?b] = [[0x01000000, 0x00010000]]" by (simp add: data_events_def with_dictionary_def)
  have "EVIO_SWAP32 0x01000000 = 1" by code_simp
  then have t: "tabled True [?b]"
    by (simp add: tabled_def with_dictionary_def blocks_sized_def sized_def body_def)
  have c: "can_open (random_lib True)" "files (sys (random_lib True)) ''run'' = Some (raw_file True [?b] 2)"
    by (simp_all add: random_lib_def can_open_def empty_lib_def set_file_def)
  have m: "malloc_ok calm n" "create_ok calm ''run''" for n by (simp_all add: calm_def)
  from random_access_foreign_undefined [OF calm_file [THEN conjunct1] m(2) c(2) m(1) t c(1), of 0] show ?thesis
    unfolding d by simp blast
qed

end
