(* ===== verification/EtTypes.thy ===== *)
theory EtTypes
  imports EvioPrelude
begin

text \<open>
  The shared memory of an ET system (\<^verbatim>\<open>et.h\<close>, \<^verbatim>\<open>et_private.h\<close>) and its initial values (\<^verbatim>\<open>et_init.c\<close>). The
  events are an array; a pointer to an event is its index, or \<open>None\<close> for \<^verbatim>\<open>NULL\<close>. The conversions between
  the addresses of the system's and of the user's process (\<^verbatim>\<open>ET_PEVENT2USR\<close>, \<^verbatim>\<open>ET_PEVENT2ET\<close>) do not
  change which event is meant. Of the mutexes only those of the lists of events are part of the state
  (\<open>ls_locked\<close>); what other threads do while one waits for a condition is a parameter of the routines that
  wait.
\<close>

section \<open>Constants\<close>

definition ET_OK :: int where [simp]: "ET_OK = 0"
definition ET_ERROR :: int where [simp]: "ET_ERROR = -1"
definition ET_ERROR_TOOMANY :: int where [simp]: "ET_ERROR_TOOMANY = -2"
definition ET_ERROR_EXISTS :: int where [simp]: "ET_ERROR_EXISTS = -3"
definition ET_ERROR_WAKEUP :: int where [simp]: "ET_ERROR_WAKEUP = -4"
definition ET_ERROR_TIMEOUT :: int where [simp]: "ET_ERROR_TIMEOUT = -5"
definition ET_ERROR_EMPTY :: int where [simp]: "ET_ERROR_EMPTY = -6"
definition ET_ERROR_BUSY :: int where [simp]: "ET_ERROR_BUSY = -7"
definition ET_ERROR_DEAD :: int where [simp]: "ET_ERROR_DEAD = -8"
definition ET_ERROR_CLOSED :: int where [simp]: "ET_ERROR_CLOSED = -18"

definition ET_STATION_SELECT_INTS :: nat where [simp]: "ET_STATION_SELECT_INTS = 6"
definition ET_STATNAME_LENGTH :: nat where [simp]: "ET_STATNAME_LENGTH = 48"
definition ET_FUNCNAME_LENGTH :: nat where [simp]: "ET_FUNCNAME_LENGTH = 48"
definition ET_FILENAME_LENGTH :: nat where [simp]: "ET_FILENAME_LENGTH = 100"
definition ET_STATION_CUE :: int where [simp]: "ET_STATION_CUE = 10"
definition ET_STATION_PRESCALE :: int where [simp]: "ET_STATION_PRESCALE = 1"
definition ET_ATTACHMENTS_MAX :: nat where [simp]: "ET_ATTACHMENTS_MAX = 110"
definition ET_GRANDCENTRAL :: int where [simp]: "ET_GRANDCENTRAL = 0"

definition ET_STATION_UNUSED :: int where [simp]: "ET_STATION_UNUSED = 0"
definition ET_STATION_CREATING :: int where [simp]: "ET_STATION_CREATING = 1"
definition ET_STATION_IDLE :: int where [simp]: "ET_STATION_IDLE = 2"
definition ET_STATION_ACTIVE :: int where [simp]: "ET_STATION_ACTIVE = 3"

definition ET_STATION_USER_MULTI :: int where [simp]: "ET_STATION_USER_MULTI = 0"
definition ET_STATION_NONBLOCKING :: int where [simp]: "ET_STATION_NONBLOCKING = 0"
definition ET_STATION_BLOCKING :: int where [simp]: "ET_STATION_BLOCKING = 1"

definition ET_STATION_SELECT_ALL :: int where [simp]: "ET_STATION_SELECT_ALL = 1"
definition ET_STATION_SELECT_MATCH :: int where [simp]: "ET_STATION_SELECT_MATCH = 2"
definition ET_STATION_SELECT_USER :: int where [simp]: "ET_STATION_SELECT_USER = 3"
definition ET_STATION_SELECT_RROBIN :: int where [simp]: "ET_STATION_SELECT_RROBIN = 4"
definition ET_STATION_SELECT_EQUALCUE :: int where [simp]: "ET_STATION_SELECT_EQUALCUE = 5"

definition ET_STATION_RESTORE_OUT :: int where [simp]: "ET_STATION_RESTORE_OUT = 0"
definition ET_STATION_RESTORE_IN :: int where [simp]: "ET_STATION_RESTORE_IN = 1"
definition ET_STATION_RESTORE_GC :: int where [simp]: "ET_STATION_RESTORE_GC = 2"
definition ET_STATION_RESTORE_REDIST :: int where [simp]: "ET_STATION_RESTORE_REDIST = 3"

definition ET_STATION_SERIAL :: int where [simp]: "ET_STATION_SERIAL = 0"
definition ET_STATION_PARALLEL :: int where [simp]: "ET_STATION_PARALLEL = 1"

definition ET_LOW :: int where [simp]: "ET_LOW = 0"
definition ET_HIGH :: int where [simp]: "ET_HIGH = 1"
definition ET_SYS :: int where [simp]: "ET_SYS = -1"
definition ET_END :: int where [simp]: "ET_END = -1"
definition ET_NEWHEAD :: int where [simp]: "ET_NEWHEAD = -2"
definition ET_EVENT_TEMP :: int where [simp]: "ET_EVENT_TEMP = 1"
definition ET_EVENT_NORMAL :: int where [simp]: "ET_EVENT_NORMAL = 0"
definition ET_EVENT_NEW :: int where [simp]: "ET_EVENT_NEW = 1"
definition ET_EVENT_USED :: int where [simp]: "ET_EVENT_USED = 0"

definition ET_SLEEP :: int where [simp]: "ET_SLEEP = 0"
definition ET_TIMED :: int where [simp]: "ET_TIMED = 1"
definition ET_ASYNC :: int where [simp]: "ET_ASYNC = 2"
definition ET_REMOTE :: int where [simp]: "ET_REMOTE = 0"
definition ET_LOCAL :: int where [simp]: "ET_LOCAL = 1"
definition ET_LOCAL_NOSHARE :: int where [simp]: "ET_LOCAL_NOSHARE = 2"

definition ET_DATA_OK :: int where [simp]: "ET_DATA_OK = 0"
definition ET_DATA_CORRUPT :: int where [simp]: "ET_DATA_CORRUPT = 1"
definition ET_DATA_POSSIBLY_CORRUPT :: int where [simp]: "ET_DATA_POSSIBLY_CORRUPT = 2"

definition ET_ENDIAN_BIG :: int where [simp]: "ET_ENDIAN_BIG = 0"
definition ET_ENDIAN_LITTLE :: int where [simp]: "ET_ENDIAN_LITTLE = 1"
definition ET_ENDIAN_LOCAL :: int where [simp]: "ET_ENDIAN_LOCAL = 2"
definition ET_ENDIAN_NOTLOCAL :: int where [simp]: "ET_ENDIAN_NOTLOCAL = 3"
definition ET_ENDIAN_SWITCH :: int where [simp]: "ET_ENDIAN_SWITCH = 4"
definition ET_NOSWAP :: int where [simp]: "ET_NOSWAP = 0"
definition ET_SWAP :: int where [simp]: "ET_SWAP = 1"

definition ET_ATT_UNUSED :: int where [simp]: "ET_ATT_UNUSED = 0"
definition ET_ATT_ACTIVE :: int where [simp]: "ET_ATT_ACTIVE = 1"
definition ET_ATT_CONTINUE :: int where [simp]: "ET_ATT_CONTINUE = 0"
definition ET_ATT_QUIT :: int where [simp]: "ET_ATT_QUIT = 1"
definition ET_ATT_UNBLOCKED :: int where [simp]: "ET_ATT_UNBLOCKED = 0"
definition ET_ATT_BLOCKED :: int where [simp]: "ET_ATT_BLOCKED = 1"
definition ET_ATT_NOSLEEP :: int where [simp]: "ET_ATT_NOSLEEP = 0"
definition ET_ATT_SLEEP :: int where [simp]: "ET_ATT_SLEEP = 1"
definition ET_PROC_CLOSED :: int where [simp]: "ET_PROC_CLOSED = 0"
definition ET_PROC_OPEN :: int where [simp]: "ET_PROC_OPEN = 1"
definition ET_PROCESSES_MAX :: nat where [simp]: "ET_PROCESSES_MAX = 110"
definition ET_LANG_C :: int where [simp]: "ET_LANG_C = 0"
definition ET_LANG_CPP :: int where [simp]: "ET_LANG_CPP = 1"
definition ET_LANG_JAVA :: int where [simp]: "ET_LANG_JAVA = 2"
definition ET_STRUCT_NEW :: int where [simp]: "ET_STRUCT_NEW = 0"
definition ET_STRUCT_OK :: int where [simp]: "ET_STRUCT_OK = 1"
definition ET_THREAD_KEEP :: int where [simp]: "ET_THREAD_KEEP = 0"
definition ET_THREAD_KILL :: int where [simp]: "ET_THREAD_KILL = 1"
definition ET_FIX_READ :: int where [simp]: "ET_FIX_READ = 0"
definition ET_FIX_DUMP :: int where [simp]: "ET_FIX_DUMP = 1"

section \<open>Events\<close>

type_synonym eptr = "nat option"

text \<open>The data of an event: its own part of the shared memory, or a file that is mapped into the process.\<close>

datatype edata = NoData | Shared nat | Mapped string

text \<open>The fields for remote use (\<^verbatim>\<open>pointer\<close>, \<^verbatim>\<open>tempdata\<close>) are left out; \<^verbatim>\<open>data\<close> is the part of the event's \<^verbatim>\<open>place\<close>.\<close>

record et_event =
  ev_next :: eptr
  ev_pdata :: edata
  ev_length :: u64
  ev_memsize :: u64
  ev_modify :: int
  ev_priority :: int
  ev_owner :: int
  ev_temp :: int
  ev_age :: int
  ev_datastatus :: int
  ev_byteorder :: u32
  ev_group :: int
  ev_place :: nat
  ev_control :: "int list"
  ev_filename :: string

definition et_init_event :: "et_event \<Rightarrow> et_event" where
  "et_init_event pe = pe\<lparr>ev_owner := ET_SYS, ev_next := None, ev_pdata := NoData, ev_length := 0, ev_memsize := 0,
     ev_priority := ET_LOW, ev_temp := ET_EVENT_NORMAL, ev_age := ET_EVENT_NEW, ev_datastatus := ET_DATA_OK,
     ev_byteorder := 0x04030201, ev_group := 0, ev_modify := 0, ev_control := replicate ET_STATION_SELECT_INTS 0\<rparr>"

text \<open>\<^verbatim>\<open>et_init_event_\<close>: owner and group stay.\<close>

definition et_init_event' :: "et_event \<Rightarrow> et_event" where
  "et_init_event' pe = (et_init_event pe)\<lparr>ev_owner := ev_owner pe, ev_group := ev_group pe\<rparr>"

text \<open>Access through a pointer.\<close>

definition deref :: "et_event list \<Rightarrow> eptr \<Rightarrow> et_event option" where
  "deref es p = (case p of None \<Rightarrow> None | Some i \<Rightarrow> rd es i)"

definition change :: "eptr \<Rightarrow> (et_event \<Rightarrow> et_event) \<Rightarrow> et_event list \<Rightarrow> et_event list option" where
  "change p f es = do { i \<leftarrow> p; e \<leftarrow> rd es i; Some (es[i := f e]) }"

lemma deref_Some [simp]: "i < length es \<Longrightarrow> deref es (Some i) = Some (es ! i)"
  by (simp add: deref_def)

lemma change_Some [simp]: "i < length es \<Longrightarrow> change (Some i) f es = Some (es[i := f (es ! i)])"
  by (simp add: change_def)

lemma deref_None [simp]: "deref es None = None" "change None f es = None"
  by (simp_all add: deref_def change_def)

section \<open>Lists of events and stations\<close>

record et_list =
  ls_cnt :: int
  ls_lasthigh :: int
  ls_try :: u64
  ls_in :: u64
  ls_out :: u64
  ls_first :: eptr
  ls_last :: eptr
  ls_locked :: bool

definition et_init_llist :: et_list where
  "et_init_llist = \<lparr>ls_cnt = 0, ls_lasthigh = 0, ls_try = 0, ls_in = 0, ls_out = 0, ls_first = None, ls_last = None,
     ls_locked = False\<rparr>"

record et_fixin =
  fi_first :: eptr
  fi_eventsin :: u64
  fi_start :: int
  fi_cnt :: int
  fi_num :: int
  fi_call :: int

record et_fixout =
  fo_start :: int
  fo_cnt :: int
  fo_num :: int

record et_stat_config =
  cf_init :: int
  cf_flow_mode :: int
  cf_user_mode :: int
  cf_restore_mode :: int
  cf_block_mode :: int
  cf_prescale :: int
  cf_cue :: int
  cf_select_mode :: int
  cf_select :: "int list"
  cf_fname :: string
  cf_lib :: string
  cf_class :: string

text \<open>
  A station. Its \<^verbatim>\<open>data.att\<close> is the list of the entries for all attachment numbers. \<^verbatim>\<open>data.func\<close>, the
  event selection routine, is loaded by the station's conductor and is a parameter of the conductor here.
\<close>

record et_station =
  sn_num :: int
  sn_conductor :: int
  sn_next :: int
  sn_prev :: int
  sn_nextparallel :: int
  sn_prevparallel :: int
  sn_waslast :: int
  sn_name :: string
  sn_fixin :: et_fixin
  sn_fixout :: et_fixout
  sn_status :: int
  sn_nattachments :: int
  sn_att :: "int list"
  sn_config :: et_stat_config
  sn_list_in :: et_list
  sn_list_out :: et_list

definition default_config :: et_stat_config where
  "default_config = \<lparr>cf_init = ET_STRUCT_OK, cf_flow_mode = ET_STATION_SERIAL, cf_user_mode = ET_STATION_USER_MULTI,
     cf_restore_mode = ET_STATION_RESTORE_OUT, cf_block_mode = ET_STATION_BLOCKING, cf_prescale = ET_STATION_PRESCALE,
     cf_cue = ET_STATION_CUE, cf_select_mode = ET_STATION_SELECT_ALL, cf_select = replicate ET_STATION_SELECT_INTS (-1),
     cf_fname = '''', cf_lib = '''', cf_class = ''''\<rparr>"

definition et_init_station :: et_station where
  "et_init_station = \<lparr>sn_num = -1, sn_conductor = ET_THREAD_KEEP, sn_next = -1, sn_prev = -1, sn_nextparallel = -1,
     sn_prevparallel = -1, sn_waslast = 0, sn_name = '''',
     sn_fixin = \<lparr>fi_first = None, fi_eventsin = 0, fi_start = 0, fi_cnt = 0, fi_num = 0, fi_call = ET_FIX_READ\<rparr>,
     sn_fixout = \<lparr>fo_start = 0, fo_cnt = 0, fo_num = 0\<rparr>,
     sn_status = ET_STATION_UNUSED, sn_nattachments = 0, sn_att = replicate ET_ATTACHMENTS_MAX (-1),
     sn_config = default_config, sn_list_in = et_init_llist, sn_list_out = et_init_llist\<rparr>"

section \<open>Attachments, processes, the system\<close>

record et_attach =
  at_num :: int
  at_proc :: int
  at_stat :: int
  at_status :: int
  at_blocked :: int
  at_quit :: int
  at_sleep :: int
  at_put :: u64
  at_get :: u64
  at_dump :: u64
  at_make :: u64

definition et_init_attachment :: et_attach where
  "et_init_attachment = \<lparr>at_num = -1, at_proc = -1, at_stat = -1, at_status = ET_ATT_UNUSED, at_blocked = ET_ATT_UNBLOCKED,
     at_quit = ET_ATT_CONTINUE, at_sleep = ET_ATT_NOSLEEP, at_put = 0, at_get = 0, at_dump = 0, at_make = 0\<rparr>"

record et_proc =
  pr_num :: int
  pr_status :: int
  pr_att :: "int list"
  pr_nattachments :: int

definition et_init_process :: et_proc where
  "et_init_process = \<lparr>pr_num = -1, pr_status = ET_PROC_CLOSED, pr_att = replicate ET_ATTACHMENTS_MAX (-1), pr_nattachments = 0\<rparr>"

record et_sys_config =
  sg_event_size :: u64
  sg_nevents :: int
  sg_ntemps :: int
  sg_nstations :: int
  sg_nprocesses :: int
  sg_nattachments :: int
  sg_groupCount :: int
  sg_groups :: "int list"
  sg_filename :: string

record et_system =
  sy_hz :: int
  sy_nstations :: int
  sy_ntemps :: int
  sy_nprocesses :: int
  sy_nattachments :: int
  sy_stat_head :: int
  sy_stat_tail :: int
  sy_proc :: "et_proc list"
  sy_attach :: "et_attach list"
  sy_config :: et_sys_config

text \<open>
  What a caller holds: \<^verbatim>\<open>et_id\<close>, with the shared memory it points to. \<open>id_files\<close> are the files of the
  temporary events, \<open>id_alive\<close> what \<^verbatim>\<open>et_alive\<close> finds.
\<close>

record et_id =
  id_lang :: int
  id_alive :: bool
  id_closed :: bool
  id_proc :: int
  id_cleanup :: bool
  id_group :: int
  id_locality :: int
  id_sys :: et_system
  id_stats :: "et_station list"
  id_histogram :: "int list"
  id_events :: "et_event list"
  id_files :: "string set"

text \<open>Reading and changing a station or an attachment by its number.\<close>

definition station :: "et_id \<Rightarrow> int \<Rightarrow> et_station option" where
  "station s n = (if n < 0 then None else rd (id_stats s) (nat n))"

definition set_station :: "int \<Rightarrow> (et_station \<Rightarrow> et_station) \<Rightarrow> et_id \<Rightarrow> et_id option" where
  "set_station n f s = do { ps \<leftarrow> station s n; Some (s\<lparr>id_stats := (id_stats s)[nat n := f ps]\<rparr>) }"

definition attachment :: "et_id \<Rightarrow> int \<Rightarrow> et_attach option" where
  "attachment s n = (if n < 0 then None else rd (sy_attach (id_sys s)) (nat n))"

definition set_attachment :: "int \<Rightarrow> (et_attach \<Rightarrow> et_attach) \<Rightarrow> et_id \<Rightarrow> et_id option" where
  "set_attachment n f s = do {
     a \<leftarrow> attachment s n;
     Some (s\<lparr>id_sys := (id_sys s)\<lparr>sy_attach := (sy_attach (id_sys s))[nat n := f a]\<rparr>\<rparr>)
   }"

definition nevents :: "et_id \<Rightarrow> int" where
  "nevents s = sg_nevents (sy_config (id_sys s))"

end
