(* ===== verification/EtLists.thy ===== *)
theory EtLists
  imports EtTypes
begin

text \<open>
  The lists of events of a station (\<^verbatim>\<open>et_readwrite.c\<close>). What a routine does to the shared memory while it holds
  the list's mutex is a program of single stores: run to its end it is the routine, stopped after any of
  the stores it is what a process leaves behind that dies in the middle.
\<close>

section \<open>Programs of stores\<close>

datatype ('s, 'a) prog =
    Ret 'a
  | Stuck
  | Put "'s \<Rightarrow> 's option" "('s, 'a) prog"
  | Get "'s \<Rightarrow> ('s, 'a) prog"

primrec run :: "('s, 'a) prog \<Rightarrow> 's \<Rightarrow> ('a \<times> 's) option" where
  "run (Ret x) s = Some (x, s)"
| "run Stuck s = None"
| "run (Put f p) s = (case f s of None \<Rightarrow> None | Some s \<Rightarrow> run p s)"
| "run (Get f) s = run (f s) s"

text \<open>The states in which a program may be found when it is interrupted.\<close>

inductive crash :: "('s, 'a) prog \<Rightarrow> 's \<Rightarrow> 's \<Rightarrow> bool" where
  here: "crash p s s"
| store: "f s = Some s' \<Longrightarrow> crash p s' t \<Longrightarrow> crash (Put f p) s t"
| look: "crash (f s) s t \<Longrightarrow> crash (Get f) s t"

text \<open>What the routines work on: the events, one list, and the station's notes for a repair.\<close>

record fr =
  fr_events :: "et_event list"
  fr_list :: et_list
  fr_fixin :: et_fixin
  fr_fixout :: et_fixout

definition ask :: "('s \<Rightarrow> 'b option) \<Rightarrow> ('b \<Rightarrow> ('s, 'a) prog) \<Rightarrow> ('s, 'a) prog" where
  "ask f k = Get (\<lambda>s. case f s of None \<Rightarrow> Stuck | Some x \<Rightarrow> k x)"

definition set_list :: "(et_list \<Rightarrow> et_list) \<Rightarrow> (fr, 'a) prog \<Rightarrow> (fr, 'a) prog" where
  "set_list f p = Put (\<lambda>s. Some (s\<lparr>fr_list := f (fr_list s)\<rparr>)) p"

definition set_event :: "eptr \<Rightarrow> (et_event \<Rightarrow> et_event) \<Rightarrow> (fr, 'a) prog \<Rightarrow> (fr, 'a) prog" where
  "set_event q f p = Put (\<lambda>s. map_option (\<lambda>es. s\<lparr>fr_events := es\<rparr>) (change q f (fr_events s))) p"

definition set_fixin :: "(et_fixin \<Rightarrow> et_fixin) \<Rightarrow> (fr, 'a) prog \<Rightarrow> (fr, 'a) prog" where
  "set_fixin f p = Put (\<lambda>s. Some (s\<lparr>fr_fixin := f (fr_fixin s)\<rparr>)) p"

definition set_fixout :: "(et_fixout \<Rightarrow> et_fixout) \<Rightarrow> (fr, 'a) prog \<Rightarrow> (fr, 'a) prog" where
  "set_fixout f p = Put (\<lambda>s. Some (s\<lparr>fr_fixout := f (fr_fixout s)\<rparr>)) p"

definition ev_at :: "eptr \<Rightarrow> fr \<Rightarrow> et_event option" where
  "ev_at p s = deref (fr_events s) p"

text \<open>The single stores.\<close>

definition put_next :: "eptr \<Rightarrow> eptr \<Rightarrow> (fr, 'a) prog \<Rightarrow> (fr, 'a) prog" where
  "put_next p q = set_event p (\<lambda>e. e\<lparr>ev_next := q\<rparr>)"

definition put_owner :: "eptr \<Rightarrow> int \<Rightarrow> (fr, 'a) prog \<Rightarrow> (fr, 'a) prog" where
  "put_owner p a = set_event p (\<lambda>e. e\<lparr>ev_owner := a\<rparr>)"

definition put_first :: "eptr \<Rightarrow> (fr, 'a) prog \<Rightarrow> (fr, 'a) prog" where
  "put_first p = set_list (\<lambda>l. l\<lparr>ls_first := p\<rparr>)"

definition put_last :: "eptr \<Rightarrow> (fr, 'a) prog \<Rightarrow> (fr, 'a) prog" where
  "put_last p = set_list (\<lambda>l. l\<lparr>ls_last := p\<rparr>)"

definition add_cnt :: "int \<Rightarrow> (fr, 'a) prog \<Rightarrow> (fr, 'a) prog" where
  "add_cnt n = set_list (\<lambda>l. l\<lparr>ls_cnt := ls_cnt l + n\<rparr>)"

text \<open>Following \<^verbatim>\<open>next\<close> a number of times.\<close>

fun walk :: "et_event list \<Rightarrow> eptr \<Rightarrow> nat \<Rightarrow> eptr option" where
  "walk es p 0 = Some p"
| "walk es p (Suc n) = (case deref es p of None \<Rightarrow> None | Some e \<Rightarrow> walk es (ev_next e) n)"

definition find_lasthigh :: "fr \<Rightarrow> eptr option" where
  "find_lasthigh s =
     (let l = fr_list s in
      if ls_lasthigh l = 0 then Some None else walk (fr_events s) (ls_first l) (nat (ls_lasthigh l - 1)))"

section \<open>Writing to an output list\<close>

text \<open>The notes for a repair that are made before the first change.\<close>

definition note_write :: "int \<Rightarrow> (fr, 'a) prog \<Rightarrow> (fr, 'a) prog" where
  "note_write num p = Get (\<lambda>s.
     let note = Get (\<lambda>s. set_fixout (\<lambda>x. x\<lparr>fo_cnt := ls_cnt (fr_list s)\<rparr>)
       (set_fixout (\<lambda>x. x\<lparr>fo_num := num\<rparr>) (set_fixout (\<lambda>x. x\<lparr>fo_start := fo_start x + 1\<rparr>) p)))
     in if ls_cnt (fr_list s) = 0 then put_first None note else note)"

definition end_write :: "(fr, int) prog" where
  "end_write = set_fixout (\<lambda>x. x\<lparr>fo_start := fo_start x - 1\<rparr>) (Ret ET_OK)"

definition put_lasthigh :: "int \<Rightarrow> (fr, 'a) prog \<Rightarrow> (fr, 'a) prog" where
  "put_lasthigh n = set_list (\<lambda>l. l\<lparr>ls_lasthigh := n\<rparr>)"

definition more_high :: "(fr, 'a) prog \<Rightarrow> (fr, 'a) prog" where
  "more_high = set_list (\<lambda>l. l\<lparr>ls_lasthigh := ls_lasthigh l + 1\<rparr>)"

text \<open>A high priority event: in front, at the end, or behind the last event of high priority.\<close>

definition place_high :: "eptr \<Rightarrow> eptr \<Rightarrow> eptr \<Rightarrow> (fr, 'a) prog \<Rightarrow> (fr, 'a) prog" where
  "place_high pe pe_lasthigh pe_last p =
     (if pe_lasthigh = None then Get (\<lambda>s. put_next pe (ls_first (fr_list s)) (put_first pe p))
      else if pe_lasthigh = pe_last then put_next pe_last pe (put_last pe p)
      else ask (ev_at pe_lasthigh) (\<lambda>e. put_next pe (ev_next e) (put_next pe_lasthigh pe p)))"

definition write_prog :: "int \<Rightarrow> eptr \<Rightarrow> (fr, int) prog" where
  "write_prog most pe = Get (\<lambda>s.
     if ls_cnt (fr_list s) \<ge> most then Ret ET_ERROR
     else note_write 1 (Get (\<lambda>s.
       let finish = put_owner pe ET_SYS (add_cnt 1 end_write) in
       if ls_cnt (fr_list s) = 0 then
         put_first pe (put_last pe (ask (ev_at pe) (\<lambda>e.
           if ev_priority e = ET_HIGH then put_lasthigh 1 finish else finish)))
       else ask (ev_at pe) (\<lambda>e.
         if ev_priority e = ET_LOW then put_next (ls_last (fr_list s)) pe (put_last pe finish)
         else ask find_lasthigh (\<lambda>h. place_high pe h (ls_last (fr_list s)) (more_high finish))))))"

text \<open>Several events; the ends of the list and of its high priority events are kept in variables.\<close>

fun nwrite_rest :: "nat list \<Rightarrow> eptr \<Rightarrow> eptr \<Rightarrow> (fr, int) prog" where
  "nwrite_rest [] pe_last pe_lasthigh = end_write"
| "nwrite_rest (i # pe) pe_last pe_lasthigh = ask (ev_at (Some i)) (\<lambda>e.
     let finish = (\<lambda>p. put_owner (Some i) ET_SYS (add_cnt 1 p)) in
     if ev_priority e = ET_LOW then
       put_next pe_last (Some i) (put_last (Some i) (finish (nwrite_rest pe (Some i) pe_lasthigh)))
     else place_high (Some i) pe_lasthigh pe_last (more_high (finish
       (nwrite_rest pe (if pe_lasthigh = None \<or> pe_lasthigh \<noteq> pe_last then pe_last else Some i) (Some i)))))"

definition nwrite_prog :: "int \<Rightarrow> nat list \<Rightarrow> (fr, int) prog" where
  "nwrite_prog most pe =
     (case pe of
        [] \<Rightarrow> Ret ET_OK
      | i # rest \<Rightarrow> Get (\<lambda>s.
          if int (length pe) > most - ls_cnt (fr_list s) then Ret ET_ERROR
          else note_write (int (length pe)) (Get (\<lambda>s.
            if ls_cnt (fr_list s) = 0 then
              put_first (Some i) (put_last (Some i) (put_owner (Some i) ET_SYS (ask (ev_at (Some i)) (\<lambda>e.
                if ev_priority e = ET_HIGH then put_lasthigh 1 (add_cnt 1 (nwrite_rest rest (Some i) (Some i)))
                else add_cnt 1 (nwrite_rest rest (Some i) None)))))
            else ask find_lasthigh (\<lambda>h. nwrite_rest pe (ls_last (fr_list s)) h)))))"

fun nwriteNoPri_rest :: "nat list \<Rightarrow> eptr \<Rightarrow> (fr, int) prog" where
  "nwriteNoPri_rest [] pe_last = end_write"
| "nwriteNoPri_rest (i # pe) pe_last =
     put_next pe_last (Some i) (put_last (Some i) (put_owner (Some i) ET_SYS (add_cnt 1 (nwriteNoPri_rest pe (Some i)))))"

definition nwriteNoPri_prog :: "int \<Rightarrow> nat list \<Rightarrow> (fr, int) prog" where
  "nwriteNoPri_prog most pe =
     (case pe of
        [] \<Rightarrow> Ret ET_OK
      | i # rest \<Rightarrow> Get (\<lambda>s.
          if int (length pe) > most - ls_cnt (fr_list s) then Ret ET_ERROR
          else note_write (int (length pe)) (Get (\<lambda>s.
            if ls_cnt (fr_list s) = 0 then
              put_first (Some i) (put_last (Some i) (put_owner (Some i) ET_SYS (add_cnt 1 (nwriteNoPri_rest rest (Some i)))))
            else nwriteNoPri_rest pe (ls_last (fr_list s))))))"

section \<open>Reading from an input list\<close>

definition note_read :: "int \<Rightarrow> (fr, 'a) prog \<Rightarrow> (fr, 'a) prog" where
  "note_read num p = Get (\<lambda>s. set_fixin (\<lambda>x. x\<lparr>fi_cnt := ls_cnt (fr_list s)\<rparr>)
     (set_fixin (\<lambda>x. x\<lparr>fi_num := num\<rparr>) (set_fixin (\<lambda>x. x\<lparr>fi_call := ET_FIX_READ\<rparr>)
        (set_fixin (\<lambda>x. x\<lparr>fi_first := ls_first (fr_list s)\<rparr>) p))))"

definition note_nread :: "int \<Rightarrow> (fr, 'a) prog \<Rightarrow> (fr, 'a) prog" where
  "note_nread num p = set_fixin (\<lambda>x. x\<lparr>fi_num := num\<rparr>) (Get (\<lambda>s. set_fixin (\<lambda>x. x\<lparr>fi_cnt := ls_cnt (fr_list s)\<rparr>)
     (set_fixin (\<lambda>x. x\<lparr>fi_call := ET_FIX_READ\<rparr>) (set_fixin (\<lambda>x. x\<lparr>fi_first := ls_first (fr_list s)\<rparr>) p))))"

definition end_read :: "'a \<Rightarrow> (fr, 'a) prog" where
  "end_read x = set_fixin (\<lambda>x. x\<lparr>fi_first := None\<rparr>) (Ret x)"

definition read_prog :: "int \<Rightarrow> (fr, eptr) prog" where
  "read_prog att = note_read 1 (Get (\<lambda>s.
     let pe = ls_first (fr_list s) in
     ask (ev_at pe) (\<lambda>e. put_first (ev_next e) (put_owner pe att (add_cnt (-1) (end_read pe))))))"

text \<open>\<open>taken\<close> are the events of the array already, the latest first.\<close>

fun nread_rest :: "int \<Rightarrow> nat \<Rightarrow> nat list \<Rightarrow> nat \<Rightarrow> (fr, nat list) prog" where
  "nread_rest att 0 taken pe = ask (ev_at (Some pe)) (\<lambda>e. put_first (ev_next e)
     (add_cnt (- int (length taken + 1)) (end_read (rev (pe # taken)))))"
| "nread_rest att (Suc n) taken pe = ask (ev_at (Some pe)) (\<lambda>e.
     case ev_next e of
       None \<Rightarrow> Stuck
     | Some q \<Rightarrow> put_owner (Some q) att (nread_rest att n (pe # taken) q))"

definition nread_prog :: "int \<Rightarrow> int \<Rightarrow> (fr, nat list) prog" where
  "nread_prog att num = Get (\<lambda>s.
     let num = min num (ls_cnt (fr_list s)) in
     note_nread num (case ls_first (fr_list s) of
       None \<Rightarrow> Stuck
     | Some p \<Rightarrow> put_owner (Some p) att (nread_rest att (nat num - 1) [] p)))"

text \<open>The events of one group, wherever they are in the list.\<close>

fun group_scan :: "int \<Rightarrow> int \<Rightarrow> int \<Rightarrow> nat \<Rightarrow> eptr \<Rightarrow> eptr \<Rightarrow> nat list \<Rightarrow> (fr, nat list) prog" where
  "group_scan att grp num 0 prev pev taken = add_cnt (- int (length taken)) (end_read (rev taken))"
| "group_scan att grp num (Suc n) prev pev taken = ask (ev_at pev) (\<lambda>e.
     if ev_group e \<noteq> grp then group_scan att grp num n pev (ev_next e) taken
     else put_owner pev att
       ((if prev = None then put_first (ev_next e) else put_next prev (ev_next e))
         (Get (\<lambda>s.
           let taken = the pev # taken;
               go = (if int (length taken) \<ge> num then add_cnt (- int (length taken)) (end_read (rev taken))
                     else group_scan att grp num n prev (ev_next e) taken) in
           if ls_last (fr_list s) = pev then put_last prev go else go))))"

definition group_prog :: "int \<Rightarrow> int \<Rightarrow> int \<Rightarrow> (fr, nat list) prog" where
  "group_prog att grp num = Get (\<lambda>s. note_nread num
     (group_scan att grp num (nat (ls_cnt (fr_list s))) None (ls_first (fr_list s)) []))"

section \<open>Dumping into the input list of Grand Central\<close>

definition note_dump :: "int \<Rightarrow> (fr, 'a) prog \<Rightarrow> (fr, 'a) prog" where
  "note_dump num p = Get (\<lambda>s.
     let note = Get (\<lambda>s. set_fixin (\<lambda>x. x\<lparr>fi_eventsin := ls_in (fr_list s)\<rparr>)
       (set_fixin (\<lambda>x. x\<lparr>fi_cnt := ls_cnt (fr_list s)\<rparr>) (set_fixin (\<lambda>x. x\<lparr>fi_num := num\<rparr>)
         (set_fixin (\<lambda>x. x\<lparr>fi_call := ET_FIX_DUMP\<rparr>) (set_fixin (\<lambda>x. x\<lparr>fi_start := fi_start x + 1\<rparr>) p)))))
     in if ls_cnt (fr_list s) = 0 then put_first None note else note)"

definition end_dump :: "(fr, int) prog" where
  "end_dump = set_fixin (\<lambda>x. x\<lparr>fi_start := fi_start x - 1\<rparr>) (Ret ET_OK)"

definition dump_prog :: "int \<Rightarrow> eptr \<Rightarrow> (fr, int) prog" where
  "dump_prog most pe = Get (\<lambda>s.
     if ls_cnt (fr_list s) \<ge> most then Ret ET_ERROR
     else note_dump 1 (Get (\<lambda>s.
       let finish = put_last pe (put_owner pe ET_SYS (add_cnt 1 (set_list (\<lambda>l. l\<lparr>ls_in := ls_in l + 1\<rparr>) end_dump))) in
       if ls_cnt (fr_list s) = 0 then put_first pe finish else put_next (ls_last (fr_list s)) pe finish)))"

fun ndump_rest :: "nat list \<Rightarrow> eptr \<Rightarrow> (fr, int) prog" where
  "ndump_rest [] pe_last = end_dump"
| "ndump_rest (i # pe) pe_last =
     put_next pe_last (Some i) (put_last (Some i) (put_owner (Some i) ET_SYS (add_cnt 1 (ndump_rest pe (Some i)))))"

definition ndump_prog :: "int \<Rightarrow> nat list \<Rightarrow> (fr, int) prog" where
  "ndump_prog most pe =
     (case pe of
        [] \<Rightarrow> Ret ET_OK
      | i # rest \<Rightarrow> Get (\<lambda>s.
          if int (length pe) > most - ls_cnt (fr_list s) then Ret ET_ERROR
          else note_dump (int (length pe)) (Get (\<lambda>s.
            if ls_cnt (fr_list s) = 0 then
              put_first (Some i) (put_last (Some i) (put_owner (Some i) ET_SYS (add_cnt 1 (ndump_rest rest (Some i)))))
            else ndump_rest pe (ls_last (fr_list s))))))"

section \<open>Repairing a list\<close>

text \<open>
  The server calls these when the process that held the list's mutex has died. The result is the routine's
  status; \<open>None\<close> is the access through \<^verbatim>\<open>NULL\<close>, and for the input list also the walk that never ends.
\<close>

fun fix_walk :: "nat \<Rightarrow> eptr \<Rightarrow> eptr \<Rightarrow> int \<Rightarrow> int \<Rightarrow> et_event list \<Rightarrow> (int \<times> int \<times> int \<times> et_event list) option" where
  "fix_walk 0 pe pe_last count lasthigh es = Some (ET_ERROR, count, lasthigh, es)"
| "fix_walk (Suc n) pe pe_last count lasthigh es = do {
     es \<leftarrow> change pe (\<lambda>e. e\<lparr>ev_owner := ET_SYS\<rparr>) es;
     e \<leftarrow> deref es pe;
     let count = count + 1;
     let lasthigh = (if ev_priority e = ET_HIGH then lasthigh + 1 else lasthigh);
     if pe = pe_last then Some (ET_OK, count, lasthigh, es)
     else fix_walk n (ev_next e) pe_last count lasthigh es
   }"

definition et_repair_outputlist :: "fr \<Rightarrow> (int \<times> fr) option" where
  "et_repair_outputlist s =
     (let x = fr_fixout s; l = fr_list s in
      if fo_start x = 0 then Some (ET_OK, s)
      else if ls_cnt l = fo_cnt x + fo_num x \<or> (ls_cnt l = 0 \<and> ls_first l = None)
      then Some (ET_OK, s\<lparr>fr_fixout := x\<lparr>fo_start := 0\<rparr>\<rparr>)
      else do {
        let l = (if ls_cnt l = 0 then l\<lparr>ls_last := ls_first l\<rparr> else l);
        (status, count, lasthigh, es) \<leftarrow>
          fix_walk (nat (fo_cnt x + fo_num x)) (ls_first l) (ls_last l) 0 0 (fr_events s);
        Some (status, s\<lparr>fr_events := es, fr_list := l\<lparr>ls_cnt := count, ls_lasthigh := lasthigh\<rparr>,
                fr_fixout := x\<lparr>fo_start := 0\<rparr>\<rparr>)
      })"

partial_function (option) fix_all :: "eptr \<Rightarrow> eptr \<Rightarrow> int \<Rightarrow> et_event list \<Rightarrow> (int \<times> et_event list) option" where
  "fix_all pe pe_last count es =
     Option.bind (change pe (\<lambda>e. e\<lparr>ev_owner := ET_SYS\<rparr>) es) (\<lambda>es.
       if pe = pe_last then Some (count + 1, es)
       else Option.bind (deref es pe) (\<lambda>e. fix_all (ev_next e) pe_last (count + 1) es))"

definition et_repair_inputlist :: "fr \<Rightarrow> (int \<times> fr) option" where
  "et_repair_inputlist s =
     (let x = fr_fixin s; l = fr_list s in
      if fi_first x = None then Some (ET_OK, s)
      else if ls_cnt l = fi_cnt x - fi_num x then Some (ET_OK, s\<lparr>fr_fixin := x\<lparr>fi_first := None\<rparr>\<rparr>)
      else do {
        (count, es) \<leftarrow> fix_all (fi_first x) (ls_last l) 0 (fr_events s);
        Some (ET_OK, s\<lparr>fr_events := es, fr_list := l\<lparr>ls_first := fi_first x, ls_cnt := count\<rparr>,
                fr_fixin := x\<lparr>fi_first := None\<rparr>\<rparr>)
      })"

text \<open>The input list of Grand Central when the process was dumping events. Priorities do not matter.\<close>

definition et_repair_gcinputlist :: "fr \<Rightarrow> (int \<times> fr) option" where
  "et_repair_gcinputlist s =
     (let x = fr_fixin s; l = fr_list s in
      if fi_start x = 0 then Some (ET_OK, s)
      else if ls_cnt l = fi_cnt x + fi_num x \<or> (ls_cnt l = 0 \<and> ls_first l = None)
      then Some (ET_OK, s\<lparr>fr_fixin := x\<lparr>fi_start := 0\<rparr>\<rparr>)
      else do {
        let l = (if ls_cnt l = 0 then l\<lparr>ls_last := ls_first l\<rparr> else l);
        (status, count, lasthigh, es) \<leftarrow>
          fix_walk (nat (fi_cnt x + fi_num x)) (ls_first l) (ls_last l) 0 0 (fr_events s);
        Some (status, s\<lparr>fr_events := es,
                fr_list := l\<lparr>ls_cnt := count,
                  ls_in := (if fi_eventsin x = ls_in l then ls_in l + word_of_int (count - fi_cnt x) else ls_in l)\<rparr>,
                fr_fixin := x\<lparr>fi_start := 0\<rparr>\<rparr>)
      })"

end
