(* ===== verification/EtServerLists.thy ===== *)
theory EtServerLists
  imports EtLists
begin

text \<open>
  The list routines of \<^verbatim>\<open>et_readwrite.c\<close> that the server and the recovery use: \<^verbatim>\<open>et_llist_read\<close>, \<^verbatim>\<open>et_llist_write\<close>,
  \<^verbatim>\<open>et_llist_write_gc\<close>, \<^verbatim>\<open>et_restore\<close>. They work on the events and one list; \<open>None\<close> is an access outside an
  array or through \<^verbatim>\<open>NULL\<close>. An array of event pointers is the list of their indices.
\<close>

type_synonym lists = "et_event list \<times> et_list"

definition set_next :: "eptr \<Rightarrow> eptr \<Rightarrow> et_event list \<Rightarrow> et_event list option" where
  "set_next p q = change p (\<lambda>e. e\<lparr>ev_next := q\<rparr>)"

text \<open>The events of a list, by following \<^verbatim>\<open>next\<close>.\<close>

fun collect :: "et_event list \<Rightarrow> eptr \<Rightarrow> nat \<Rightarrow> nat list option" where
  "collect es p 0 = Some []"
| "collect es p (Suc n) = do {
     i \<leftarrow> p;
     if n = 0 then Some [i] else do { e \<leftarrow> rd es i; xs \<leftarrow> collect es (ev_next e) n; Some (i # xs) }
   }"

definition et_llist_read :: "lists \<Rightarrow> (int \<times> nat list \<times> lists) option" where
  "et_llist_read m = (let (es, l) = m; cnt = ls_cnt l in
     if cnt = 0 then Some (ET_ERROR, [], m)
     else do {
       pe \<leftarrow> collect es (ls_first l) (nat cnt);
       Some (cnt, pe, es, l\<lparr>ls_first := None, ls_cnt := 0, ls_lasthigh := 0, ls_out := ls_out l + word_of_int cnt\<rparr>)
     })"

text \<open>Each event of the array points to the one behind it.\<close>

fun link_up :: "nat list \<Rightarrow> et_event list \<Rightarrow> et_event list option" where
  "link_up (i # j # pe) es = do { es \<leftarrow> set_next (Some i) (Some j) es; link_up (j # pe) es }"
| "link_up _ es = Some es"

definition append_events :: "nat list \<Rightarrow> int \<Rightarrow> lists \<Rightarrow> lists option" where
  "append_events pe num m = do {
     let (es, l) = m;
     p0 \<leftarrow> rd pe 0;
     (es, l) \<leftarrow> (if ls_cnt l = 0 then Some (es, l\<lparr>ls_first := Some p0\<rparr>)
                else do { es \<leftarrow> set_next (ls_last l) (Some p0) es; Some (es, l) });
     if num < 1 \<or> int (length pe) < num then None
     else do {
       es \<leftarrow> link_up (take (nat num) pe) es;
       Some (es, l\<lparr>ls_last := Some (pe ! (nat num - 1))\<rparr>)
     }
   }"

definition count_in :: "int \<Rightarrow> et_list \<Rightarrow> et_list" where
  "count_in num l = l\<lparr>ls_in := ls_in l + word_of_int num, ls_cnt := ls_cnt l + num\<rparr>"

definition et_llist_write_gc :: "int \<Rightarrow> nat list \<Rightarrow> int \<Rightarrow> lists \<Rightarrow> (int \<times> lists) option" where
  "et_llist_write_gc most pe num m =
     (if num > most - ls_cnt (snd m) then Some (ET_ERROR, m)
      else do { (es, l) \<leftarrow> append_events pe num m; Some (ET_OK, es, count_in num l) })"

text \<open>
  The events of high priority at the beginning of a list: the last of them, the event behind them, and
  their number.
\<close>

fun scan_high :: "et_event list \<Rightarrow> nat \<Rightarrow> eptr \<Rightarrow> eptr \<Rightarrow> int \<Rightarrow> (eptr \<times> eptr \<times> int) option" where
  "scan_high es 0 pe_lasthigh pevent high_cnt = Some (pe_lasthigh, pevent, high_cnt)"
| "scan_high es (Suc n) pe_lasthigh pevent high_cnt = do {
     e \<leftarrow> deref es pevent;
     if ev_priority e = ET_HIGH then scan_high es n pevent (ev_next e) (high_cnt + 1)
     else Some (pe_lasthigh, pevent, high_cnt)
   }"

text \<open>Further events of high priority behind the first one; \<open>num_high\<close> of them and the first are linked.\<close>

fun more_highs :: "nat \<Rightarrow> nat list \<Rightarrow> eptr \<Rightarrow> nat \<Rightarrow> et_event list \<Rightarrow> (nat \<times> et_event list) option" where
  "more_highs i [] behind num_high es = Some (num_high, es)"
| "more_highs i (j # pe) behind num_high es = do {
     e \<leftarrow> rd es j;
     if ev_priority e \<noteq> ET_HIGH then Some (num_high, es)
     else do {
       es \<leftarrow> set_next (Some i) (Some j) es;
       es \<leftarrow> set_next (Some j) behind es;
       more_highs j pe behind (num_high + 1) es
     }
   }"

text \<open>The first event goes behind those of high priority or in front of the list.\<close>

definition put_first_high :: "nat \<Rightarrow> eptr \<Rightarrow> lists \<Rightarrow> lists option" where
  "put_first_high p0 pe_lasthigh m = (let (es, l) = m in
     if pe_lasthigh \<noteq> None then do {
       e \<leftarrow> deref es pe_lasthigh;
       es \<leftarrow> set_next (Some p0) (ev_next e) es;
       es \<leftarrow> set_next pe_lasthigh (Some p0) es;
       Some (es, l)
     } else do {
       es \<leftarrow> set_next (Some p0) (ls_first l) es;
       Some (es, l\<lparr>ls_first := Some p0\<rparr>)
     })"

text \<open>The rest are of low priority and go to the end.\<close>

definition put_lows_last :: "nat list \<Rightarrow> int \<Rightarrow> nat \<Rightarrow> lists \<Rightarrow> lists option" where
  "put_lows_last pe num num_high m = (let (es, l) = m in
     if int num_high < num then do {
       es \<leftarrow> link_up (drop num_high (take (nat num) pe)) es;
       es \<leftarrow> set_next (ls_last l) (Some (pe ! num_high)) es;
       Some (es, l\<lparr>ls_last := Some (pe ! (nat num - 1))\<rparr>)
     } else Some (es, l))"

definition write_by_priority :: "nat list \<Rightarrow> nat \<Rightarrow> int \<Rightarrow> lists \<Rightarrow> lists option" where
  "write_by_priority pe p0 num m = do {
     let (es, l) = m;
     (pe_lasthigh, pevent, high_cnt) \<leftarrow> scan_high es (nat (ls_cnt l)) None (ls_first l) 0;
     (es, l) \<leftarrow> put_first_high p0 pe_lasthigh (es, l);
     if int (length pe) < num then None
     else do {
       (num_high, es) \<leftarrow> more_highs p0 (tl (take (nat num) pe)) pevent 1 es;
       put_lows_last pe num num_high
         (es, if high_cnt = ls_cnt l then l\<lparr>ls_last := Some (pe ! (num_high - 1))\<rparr> else l)
     }
   }"

definition et_llist_write :: "int \<Rightarrow> nat list \<Rightarrow> int \<Rightarrow> lists \<Rightarrow> (int \<times> lists) option" where
  "et_llist_write most pe num m = do {
     let (es, l) = m;
     let num = (if num > most - ls_cnt l then most - ls_cnt l else num);
     p0 \<leftarrow> rd pe 0;
     e0 \<leftarrow> rd es p0;
     (es, l) \<leftarrow> (if ev_priority e0 = ET_LOW \<or> ls_cnt l = 0 then append_events pe num m
                else write_by_priority pe p0 num m);
     Some (num, es, count_in num l)
   }"

section \<open>Putting events back\<close>

fun set_owners :: "int \<Rightarrow> nat list \<Rightarrow> et_event list \<Rightarrow> et_event list option" where
  "set_owners a [] es = Some es"
| "set_owners a (i # pe) es = do { es \<leftarrow> change (Some i) (\<lambda>e. e\<lparr>ev_owner := a\<rparr>) es; set_owners a pe es }"

text \<open>Events of low priority, linked to each other, go in front of the list's own of low priority.\<close>

definition put_lows_first :: "eptr \<Rightarrow> eptr \<Rightarrow> eptr \<Rightarrow> eptr \<Rightarrow> nat list \<Rightarrow> lists \<Rightarrow> lists option" where
  "put_lows_first plast before pfirstlow head pe m = (let (es, l) = m in
     if pfirstlow = None then do {
       es \<leftarrow> set_next plast (Some (hd pe)) es;
       Some (es, l\<lparr>ls_last := Some (last pe)\<rparr>)
     }
     else do {
       (es, l) \<leftarrow> (if before \<noteq> None then do { es \<leftarrow> set_next before (Some (hd pe)) es; Some (es, l) }
                  else if head \<noteq> None then do { es \<leftarrow> set_next head (Some (hd pe)) es; Some (es, l) }
                  else Some (es, l\<lparr>ls_first := Some (hd pe)\<rparr>));
       es \<leftarrow> set_next (Some (last pe)) pfirstlow es;
       Some (es, l)
     })"

text \<open>
  \<^verbatim>\<open>et_restore\<close>: the events of high priority go in front of the list, those of low priority in front of the
  list's own. The result has the number of events put back. \<open>change_owner\<close> tells whether the owner is
  changed: \<^verbatim>\<open>et_restore_in\<close>, which nothing calls, differs only in that.
\<close>

definition restore_highs :: "nat list \<Rightarrow> eptr \<Rightarrow> eptr \<Rightarrow> lists \<Rightarrow> lists option" where
  "restore_highs pe plasthigh pfirstlow m = do {
     let (es, l) = m;
     let plast = ls_last l;
     let pfirst = ls_first l;
     es \<leftarrow> set_next (Some (hd pe)) (ls_first l) es;
     let l = l\<lparr>ls_first := Some (hd pe)\<rparr>;
     (num_high, es) \<leftarrow> more_highs (hd pe) (tl pe) pfirst 1 es;
     if num_high < length pe then do {
       es \<leftarrow> link_up (drop num_high pe) es;
       put_lows_first plast plasthigh pfirstlow (Some (pe ! (num_high - 1))) (drop num_high pe) (es, l)
     } else Some (es, l)
   }"

definition restore_links :: "nat list \<Rightarrow> int \<Rightarrow> eptr \<Rightarrow> eptr \<Rightarrow> lists \<Rightarrow> lists option" where
  "restore_links pe priority plasthigh pfirstlow m = (let (es, l) = m in
     if ls_cnt l = 0 then do {
       es \<leftarrow> link_up pe es;
       Some (es, l\<lparr>ls_first := Some (hd pe), ls_last := Some (last pe)\<rparr>)
     }
     else if priority = ET_LOW then do {
       es \<leftarrow> link_up pe es;
       put_lows_first (ls_last l) plasthigh pfirstlow None pe (es, l)
     }
     else restore_highs pe plasthigh pfirstlow (es, l))"

definition restore_events :: "bool \<Rightarrow> int \<Rightarrow> nat list \<Rightarrow> int \<Rightarrow> lists \<Rightarrow> (int \<times> int \<times> lists) option" where
  "restore_events change_owner most pe num m = (let (es, l) = m in
     if ls_cnt l \<ge> most then Some (ET_ERROR, 0, m)
     else do {
       let num = (if num > most - ls_cnt l then most - ls_cnt l else num);
       (plasthigh, pfirstlow, high_cnt) \<leftarrow>
         (if ls_cnt l \<noteq> 0 then scan_high es (nat (ls_cnt l)) None (ls_first l) 0 else Some (None, None, 0));
       let pfirstlow = (if high_cnt = ls_cnt l then None else pfirstlow);
       if num < 1 \<or> int (length pe) < num then None
       else do {
         let pe = take (nat num) pe;
         es \<leftarrow> (if change_owner then set_owners ET_SYS pe es else Some es);
         e0 \<leftarrow> rd es (hd pe);
         (es, l) \<leftarrow> restore_links pe (ev_priority e0) plasthigh pfirstlow (es, l);
         Some (ET_OK, num, es, l\<lparr>ls_cnt := ls_cnt l + num\<rparr>)
       }
     })"

definition et_restore :: "int \<Rightarrow> nat list \<Rightarrow> int \<Rightarrow> lists \<Rightarrow> (int \<times> int \<times> lists) option" where
  "et_restore = restore_events True"

definition et_restore_in :: "int \<Rightarrow> nat list \<Rightarrow> int \<Rightarrow> lists \<Rightarrow> (int \<times> int \<times> lists) option" where
  "et_restore_in = restore_events False"

end
