(* ===== verification/EtListProofs.thy ===== *)
theory EtListProofs
  imports EtLists
begin

text \<open>
  What the list routines do. \<open>shape\<close> relates the pointers of a list to the sequence of its events, \<open>out_held\<close>
  an output list to its two queues, the events of high and of low priority. \<open>sound p s I Q\<close> says two things
  of a program at once: run to its end it gives a result and a state with \<open>Q\<close>, and \<open>I\<close> holds wherever it is
  interrupted.
\<close>

section \<open>Programs\<close>

inductive_simps crash_simps [simp]:
  "crash (Ret x) s t"
  "crash Stuck s t"
  "crash (Put f p) s t"
  "crash (Get f) s t"

definition sound :: "('s, 'a) prog \<Rightarrow> 's \<Rightarrow> ('s \<Rightarrow> bool) \<Rightarrow> ('a \<Rightarrow> 's \<Rightarrow> bool) \<Rightarrow> bool" where
  "sound p s I Q = ((\<forall>t. crash p s t \<longrightarrow> I t) \<and> (\<exists>x s'. run p s = Some (x, s') \<and> Q x s'))"

lemma sound_Ret [simp]: "sound (Ret x) s I Q = (I s \<and> Q x s)"
  by (auto simp: sound_def)

lemma sound_Stuck [simp]: "\<not> sound Stuck s I Q"
  by (simp add: sound_def)

lemma sound_Put [simp]: "sound (Put f p) s I Q = (I s \<and> (\<exists>s'. f s = Some s' \<and> sound p s' I Q))"
  by (auto simp: sound_def split: option.splits)

lemma sound_Get [simp]: "sound (Get f) s I Q = sound (f s) s I Q"
  by (auto simp: sound_def intro: crash.here)

lemma sound_mono: "\<lbrakk>sound p s I Q; \<And>t. I t \<Longrightarrow> I' t; \<And>x t. Q x t \<Longrightarrow> Q' x t\<rbrakk> \<Longrightarrow> sound p s I' Q'"
  by (auto simp: sound_def)

lemma sound_run: "sound p s I Q \<Longrightarrow> \<exists>x s'. run p s = Some (x, s') \<and> Q x s'"
  by (simp add: sound_def)

lemma sound_crash: "sound p s I Q \<Longrightarrow> crash p s t \<Longrightarrow> I t"
  by (simp add: sound_def)

lemma sound_ask [simp]: "sound (ask f k) s I Q = (\<exists>x. f s = Some x \<and> sound (k x) s I Q)"
  by (auto simp: ask_def split: option.splits)

lemma sound_set_list [simp]:
  "sound (set_list f p) s I Q = (I s \<and> sound p (s\<lparr>fr_list := f (fr_list s)\<rparr>) I Q)"
  by (simp add: set_list_def)

lemma sound_set_fixin [simp]:
  "sound (set_fixin f p) s I Q = (I s \<and> sound p (s\<lparr>fr_fixin := f (fr_fixin s)\<rparr>) I Q)"
  by (simp add: set_fixin_def)

lemma sound_set_fixout [simp]:
  "sound (set_fixout f p) s I Q = (I s \<and> sound p (s\<lparr>fr_fixout := f (fr_fixout s)\<rparr>) I Q)"
  by (simp add: set_fixout_def)

definition upd :: "nat \<Rightarrow> (et_event \<Rightarrow> et_event) \<Rightarrow> fr \<Rightarrow> fr" where
  "upd i f s = s\<lparr>fr_events := (fr_events s)[i := f (fr_events s ! i)]\<rparr>"

lemma sound_set_event [simp]:
  "i < length (fr_events s) \<Longrightarrow> sound (set_event (Some i) f p) s I Q = (I s \<and> sound p (upd i f s) I Q)"
  by (simp add: set_event_def upd_def)

lemma upd_simps [simp]:
  "fr_list (upd i f s) = fr_list s" "fr_fixin (upd i f s) = fr_fixin s" "fr_fixout (upd i f s) = fr_fixout s"
  "length (fr_events (upd i f s)) = length (fr_events s)"
  "fr_events (upd i f s) = (fr_events s)[i := f (fr_events s ! i)]"
  by (simp_all add: upd_def)

lemma ev_at_Some [simp]: "i < length (fr_events s) \<Longrightarrow> ev_at (Some i) s = Some (fr_events s ! i)"
  by (simp add: ev_at_def)

section \<open>Lists in memory\<close>

fun linked :: "et_event list \<Rightarrow> nat list \<Rightarrow> bool" where
  "linked es [] = True"
| "linked es (x # xs) = (x < length es \<and> (xs \<noteq> [] \<longrightarrow> ev_next (es ! x) = Some (hd xs)) \<and> linked es xs)"

lemma linked_lt: "linked es xs \<Longrightarrow> x \<in> set xs \<Longrightarrow> x < length es"
  by (induction xs) auto

lemma linked_append:
  "linked es (xs @ ys) =
     (linked es xs \<and> linked es ys \<and> (xs \<noteq> [] \<longrightarrow> ys \<noteq> [] \<longrightarrow> ev_next (es ! last xs) = Some (hd ys)))"
  by (induction xs) (auto simp: hd_append)

lemma nth_upd: "es[i := x] ! j = (if i = j \<and> i < length es then x else es ! j)"
  by (cases "i < length es") (simp_all add: nth_list_update list_update_beyond)

lemma linked_cong:
  "\<lbrakk>linked es xs; length es' = length es; \<And>i. i \<in> set (butlast xs) \<Longrightarrow> ev_next (es' ! i) = ev_next (es ! i)\<rbrakk>
     \<Longrightarrow> linked es' xs"
proof (induction xs)
  case (Cons x xs)
  then show ?case by (cases xs) auto
qed simp

lemma linked_upd_next:
  assumes "linked es xs" "i \<notin> set (butlast xs)"
  shows "linked (es[i := f (es ! i)]) xs"
  by (rule linked_cong [OF assms(1)]) (use assms(2) in \<open>auto simp: nth_upd\<close>)

lemma linked_upd_owner:
  assumes "linked es xs" "\<And>e. ev_next (f e) = ev_next e"
  shows "linked (es[i := f (es ! i)]) xs"
  by (rule linked_cong [OF assms(1)]) (simp_all add: nth_upd assms(2))

lemma walk_linked:
  "linked es xs \<Longrightarrow> n < length xs \<Longrightarrow> walk es (Some (hd xs)) n = Some (Some (xs ! n))"
proof (induction xs arbitrary: n)
  case (Cons x xs)
  then show ?case by (cases n) auto
qed simp

text \<open>The pointers of a list that holds the events \<open>xs\<close> and is not empty.\<close>

definition shape :: "fr \<Rightarrow> nat list \<Rightarrow> bool" where
  "shape s xs = (xs \<noteq> [] \<and> distinct xs \<and> linked (fr_events s) xs
     \<and> ls_first (fr_list s) = Some (hd xs) \<and> ls_last (fr_list s) = Some (last xs))"

definition owned :: "fr \<Rightarrow> nat list \<Rightarrow> bool" where
  "owned s xs = (\<forall>i\<in>set xs. ev_owner (fr_events s ! i) = ET_SYS)"

definition held :: "fr \<Rightarrow> nat list \<Rightarrow> bool" where
  "held s xs = (ls_cnt (fr_list s) = int (length xs) \<and> owned s xs \<and> (xs \<noteq> [] \<longrightarrow> shape s xs))"

definition high :: "et_event list \<Rightarrow> nat \<Rightarrow> bool" where
  "high es i = (ev_priority (es ! i) = ET_HIGH)"

definition low :: "et_event list \<Rightarrow> nat \<Rightarrow> bool" where
  "low es i = (ev_priority (es ! i) = ET_LOW)"

definition queued :: "et_event list \<Rightarrow> nat list \<Rightarrow> nat list \<Rightarrow> bool" where
  "queued es hs ls = ((\<forall>i\<in>set hs. high es i) \<and> (\<forall>i\<in>set ls. low es i))"

text \<open>An output list: the events of high priority, then those of low priority.\<close>

definition out_held :: "fr \<Rightarrow> nat list \<Rightarrow> nat list \<Rightarrow> bool" where
  "out_held s hs ls = (held s (hs @ ls) \<and> queued (fr_events s) hs ls \<and> ls_lasthigh (fr_list s) = int (length hs))"

text \<open>
  What a routine leaves alone: everything but the owner and the link of an event, the links outside \<open>A\<close> and
  the owners outside \<open>B\<close>.
\<close>

definition blank :: "et_event \<Rightarrow> et_event" where
  "blank e = e\<lparr>ev_next := None, ev_owner := 0\<rparr>"

definition keeps :: "nat set \<Rightarrow> nat set \<Rightarrow> fr \<Rightarrow> fr \<Rightarrow> bool" where
  "keeps A B s t = (map blank (fr_events t) = map blank (fr_events s)
     \<and> (\<forall>i < length (fr_events s). (i \<notin> A \<longrightarrow> ev_next (fr_events t ! i) = ev_next (fr_events s ! i))
          \<and> (i \<notin> B \<longrightarrow> ev_owner (fr_events t ! i) = ev_owner (fr_events s ! i))))"

lemma keeps_length: "keeps A B s t \<Longrightarrow> length (fr_events t) = length (fr_events s)"
  by (metis keeps_def length_map)

lemma keeps_nth: "keeps A B s t \<Longrightarrow> i < length (fr_events s) \<Longrightarrow> blank (fr_events t ! i) = blank (fr_events s ! i)"
  using keeps_length [of A B s t] nth_map [of i "fr_events t" blank] nth_map [of i "fr_events s" blank] by (simp add: keeps_def)

lemma keeps_refl [simp]: "keeps A B s s"
  by (simp add: keeps_def)

lemma keeps_trans: "keeps A B s t \<Longrightarrow> keeps A B t u \<Longrightarrow> keeps A B s u"
  using keeps_length [of A B s t] by (auto simp: keeps_def)

lemma keeps_mono: "keeps A B s t \<Longrightarrow> A \<subseteq> A' \<Longrightarrow> B \<subseteq> B' \<Longrightarrow> keeps A' B' s t"
  by (auto simp: keeps_def)

lemma keeps_list [simp]:
  "keeps A B s (s\<lparr>fr_list := l\<rparr>)" "keeps A B s (s\<lparr>fr_fixin := x\<rparr>)" "keeps A B s (s\<lparr>fr_fixout := y\<rparr>)"
  by (simp_all add: keeps_def)

lemma keeps_field [simp]:
  "keeps A B s (t\<lparr>fr_list := l\<rparr>) = keeps A B s t" "keeps A B s (t\<lparr>fr_fixin := x\<rparr>) = keeps A B s t"
  "keeps A B s (t\<lparr>fr_fixout := y\<rparr>) = keeps A B s t"
  by (simp_all add: keeps_def)

lemma priority_of_blank: "ev_priority (blank e) = ev_priority e"
  by (simp add: blank_def)

lemma priority_blank: "blank e = blank e' \<Longrightarrow> ev_priority e = ev_priority e'"
  by (metis priority_of_blank)

lemma keeps_high: "keeps A B s t \<Longrightarrow> i < length (fr_events s) \<Longrightarrow> high (fr_events t) i = high (fr_events s) i"
  using priority_blank [OF keeps_nth [of A B s t i]] by (simp add: high_def)

lemma keeps_low: "keeps A B s t \<Longrightarrow> i < length (fr_events s) \<Longrightarrow> low (fr_events t) i = low (fr_events s) i"
  using priority_blank [OF keeps_nth [of A B s t i]] by (simp add: low_def)

lemma map_blank_upd: "blank (f (es ! i)) = blank (es ! i) \<Longrightarrow> map blank (es[i := f (es ! i)]) = map blank es"
  by (cases "i < length es") (simp_all add: map_update list_update_same_conv list_update_beyond)

lemma blank_set [simp]: "blank (e\<lparr>ev_next := q\<rparr>) = blank e" "blank (e\<lparr>ev_owner := a\<rparr>) = blank e"
  by (simp_all add: blank_def)

lemma keeps_upd_next: "i \<in> A \<Longrightarrow> keeps A B s (upd i (\<lambda>e. e\<lparr>ev_next := q\<rparr>) s)"
  by (auto simp add: keeps_def map_blank_upd nth_upd)

lemma keeps_upd_owner: "i \<in> B \<Longrightarrow> keeps A B s (upd i (\<lambda>e. e\<lparr>ev_owner := a\<rparr>) s)"
  by (auto simp add: keeps_def map_blank_upd nth_upd)


section \<open>Adding one event\<close>

text \<open>What stays as it is while events are linked in: the notes for the repair and the counts of the statistics.\<close>

definition noted :: "fr \<Rightarrow> fr \<Rightarrow> bool" where
  "noted s t = (fr_fixin t = fr_fixin s \<and> fr_fixout t = fr_fixout s
     \<and> ls_in (fr_list t) = ls_in (fr_list s) \<and> ls_out (fr_list t) = ls_out (fr_list s)
     \<and> ls_try (fr_list t) = ls_try (fr_list s))"

text \<open>In the middle of an insertion: a well linked list with the old count.\<close>

definition midway :: "fr \<Rightarrow> fr \<Rightarrow> nat list \<Rightarrow> nat list \<Rightarrow> bool" where
  "midway s t hs ls = (noted s t \<and> ls_cnt (fr_list t) = ls_cnt (fr_list s) \<and> shape t (hs @ ls)
     \<and> queued (fr_events t) hs ls)"

lemma queued_keeps:
  "queued (fr_events s) hs ls \<Longrightarrow> keeps A B s t \<Longrightarrow> set (hs @ ls) \<subseteq> {..<length (fr_events s)} \<Longrightarrow> queued (fr_events t) hs ls"
  by (auto simp: queued_def keeps_high keeps_low subset_iff)

lemma owned_keeps:
  "owned s xs \<Longrightarrow> keeps A B s t \<Longrightarrow> set xs \<subseteq> {..<length (fr_events s)} \<Longrightarrow> owned t (filter (\<lambda>i. i \<notin> B) xs)"
  by (auto simp: owned_def keeps_def subset_iff)

lemma held_lt: "held s xs \<Longrightarrow> set xs \<subseteq> {..<length (fr_events s)}"
  by (cases "xs = []") (auto simp: held_def shape_def dest: linked_lt)

lemma shape_lt: "shape s xs \<Longrightarrow> set xs \<subseteq> {..<length (fr_events s)}"
  by (auto simp: shape_def dest: linked_lt)

lemma out_heldD:
  "out_held s hs ls \<Longrightarrow> held s (hs @ ls)"
  "out_held s hs ls \<Longrightarrow> queued (fr_events s) hs ls"
  "out_held s hs ls \<Longrightarrow> ls_lasthigh (fr_list s) = int (length hs)"
  by (simp_all add: out_held_def)

lemma heldD:
  "held s xs \<Longrightarrow> ls_cnt (fr_list s) = int (length xs)"
  "held s xs \<Longrightarrow> owned s xs"
  "held s xs \<Longrightarrow> xs \<noteq> [] \<Longrightarrow> shape s xs"
  by (simp_all add: held_def)

lemma last_not_butlast: "distinct xs \<Longrightarrow> xs \<noteq> [] \<Longrightarrow> last xs \<notin> set (butlast xs)"
  by (induction xs) (auto split: if_splits dest: in_set_butlastD)

text \<open>At the end of the list.\<close>

lemma shape_push:
  assumes "shape s xs" "i < length (fr_events s)" "i \<notin> set xs"
  defines "s1 \<equiv> upd (last xs) (\<lambda>e. e\<lparr>ev_next := Some i\<rparr>) s"
  shows "shape s1 xs" "shape (s1\<lparr>fr_list := (fr_list s1)\<lparr>ls_last := Some i\<rparr>\<rparr>) (xs @ [i])"
proof -
  have l: "linked (fr_events s) xs" and d: "distinct xs" and ne: "xs \<noteq> []"
    using assms(1) by (simp_all add: shape_def)
  have l1: "linked (fr_events s1) xs"
    unfolding s1_def upd_simps by (rule linked_upd_next [OF l last_not_butlast [OF d ne]])
  have "last xs < length (fr_events s)" using linked_lt [OF l] ne by simp
  then have "linked (fr_events s1) (xs @ [i])"
    using l1 assms(2) by (simp add: linked_append s1_def)
  then show "shape s1 xs" "shape (s1\<lparr>fr_list := (fr_list s1)\<lparr>ls_last := Some i\<rparr>\<rparr>) (xs @ [i])"
    using assms(1,3) l1 by (auto simp: shape_def s1_def)
qed

text \<open>In front of the list.\<close>

lemma shape_front:
  assumes "shape s xs" "i < length (fr_events s)" "i \<notin> set xs"
  defines "s1 \<equiv> upd i (\<lambda>e. e\<lparr>ev_next := ls_first (fr_list s)\<rparr>) s"
  shows "shape s1 xs" "shape (s1\<lparr>fr_list := (fr_list s1)\<lparr>ls_first := Some i\<rparr>\<rparr>) (i # xs)"
proof -
  have l: "linked (fr_events s) xs" and ne: "xs \<noteq> []" using assms(1) by (simp_all add: shape_def)
  have l1: "linked (fr_events s1) xs"
    unfolding s1_def upd_simps by (rule linked_upd_next [OF l]) (use assms(3) in \<open>auto dest: in_set_butlastD\<close>)
  then show "shape s1 xs" "shape (s1\<lparr>fr_list := (fr_list s1)\<lparr>ls_first := Some i\<rparr>\<rparr>) (i # xs)"
    using assms(1-3) by (auto simp: shape_def s1_def)
qed

text \<open>Between two parts of the list.\<close>

lemma shape_between:
  assumes "shape s (xs @ ys)" "i < length (fr_events s)" "i \<notin> set (xs @ ys)" "xs \<noteq> []" "ys \<noteq> []"
  defines "s1 \<equiv> upd i (\<lambda>e. e\<lparr>ev_next := ev_next (fr_events s ! last xs)\<rparr>) s"
  defines "s2 \<equiv> upd (last xs) (\<lambda>e. e\<lparr>ev_next := Some i\<rparr>) s1"
  shows "shape s1 (xs @ ys)" "shape s2 (xs @ i # ys)"
proof -
  have l: "linked (fr_events s) (xs @ ys)" and d: "distinct (xs @ ys)" using assms(1) by (simp_all add: shape_def)
  have l1: "linked (fr_events s1) (xs @ ys)"
    unfolding s1_def upd_simps by (rule linked_upd_next [OF l]) (use assms(3) in \<open>auto dest!: in_set_butlastD\<close>)
  then show "shape s1 (xs @ ys)" using assms(1) by (simp add: shape_def s1_def)
  have lx: "last xs \<in> set xs" using assms(4) by simp
  have n: "ev_next (fr_events s ! last xs) = Some (hd ys)" using l assms(4,5) by (simp add: linked_append)
  have xs2: "linked (fr_events s2) xs"
    unfolding s2_def upd_simps
    by (rule linked_upd_next) (use l1 d assms(4) last_not_butlast in \<open>auto simp: linked_append\<close>)
  have ys2: "linked (fr_events s2) ys"
    unfolding s2_def upd_simps
    by (rule linked_upd_next) (use l1 d lx in \<open>auto simp: linked_append dest!: in_set_butlastD\<close>)
  have "last xs < length (fr_events s)" "i \<noteq> last xs"
    using linked_lt [OF l] lx assms(3) by auto
  then have "linked (fr_events s2) (xs @ i # ys)"
    using xs2 ys2 n assms(2,4,5) by (simp add: linked_append s2_def s1_def nth_upd)
  then show "shape s2 (xs @ i # ys)"
    using assms(1,3-5) by (auto simp: shape_def s2_def s1_def)
qed


text \<open>The owner and the count of the new event.\<close>

lemma insert_finish:
  assumes m: "midway s t hs ls" and k: "keeps A {i} s t" and i: "i \<in> set (hs @ ls)"
    and o: "owned s (filter (\<lambda>j. j \<noteq> i) (hs @ ls))"
    and c: "ls_cnt (fr_list s) + 1 = int (length (hs @ ls))" and h: "ls_lasthigh (fr_list t) = int (length hs)"
    and I: "\<And>u. midway s u hs ls \<Longrightarrow> keeps A {i} s u \<Longrightarrow> I u"
    and rest: "\<And>u. noted s u \<Longrightarrow> out_held u hs ls \<Longrightarrow> keeps A {i} s u \<Longrightarrow> sound p u I Q"
  shows "sound (put_owner (Some i) ET_SYS (add_cnt 1 p)) t I Q"
proof -
  let ?t = "upd i (\<lambda>e. e\<lparr>ev_owner := ET_SYS\<rparr>) t"
  let ?u = "?t\<lparr>fr_list := (fr_list ?t)\<lparr>ls_cnt := ls_cnt (fr_list ?t) + 1\<rparr>\<rparr>"
  have sh: "shape t (hs @ ls)" and q: "queued (fr_events t) hs ls" using m by (simp_all add: midway_def)
  note lt = shape_lt [OF sh]
  have k1: "keeps A {i} s ?t" using keeps_trans [OF k keeps_upd_owner] by simp
  have sh1: "shape ?t (hs @ ls)"
    using sh linked_upd_owner [of "fr_events t" "hs @ ls" "\<lambda>e. e\<lparr>ev_owner := ET_SYS\<rparr>" i] by (simp add: shape_def)
  have q1: "queued (fr_events ?t) hs ls" by (rule queued_keeps [OF q keeps_upd_owner [of i "{i}"] lt]) simp
  have m1: "midway s ?t hs ls" using m sh1 q1 by (simp add: midway_def noted_def)
  have "owned ?t (hs @ ls)"
    unfolding owned_def
  proof
    fix j assume j: "j \<in> set (hs @ ls)"
    then have jl: "j < length (fr_events s)" using lt keeps_length [OF k] by auto
    show "ev_owner (fr_events ?t ! j) = ET_SYS"
    proof (cases "j = i")
      case False
      then have "ev_owner (fr_events ?t ! j) = ev_owner (fr_events s ! j)" using k1 jl by (simp add: keeps_def)
      then show ?thesis using o j False by (auto simp: owned_def)
    qed (use jl keeps_length [OF k] in simp)
  qed
  moreover have "ls_cnt (fr_list ?u) = int (length (hs @ ls))" using m c by (simp add: midway_def)
  ultimately have "out_held ?u hs ls"
    using sh1 q1 h unfolding out_held_def held_def owned_def shape_def by simp
  moreover have "noted s ?u" using m by (simp add: midway_def noted_def)
  ultimately have "sound p ?u I Q" using rest k1 by simp
  then show ?thesis
    using I [OF m k] I [OF m1 k1] lt i by (auto simp: put_owner_def add_cnt_def subset_iff)
qed

lemma insert_low:
  assumes h: "out_held s hs ls" and ne: "hs @ ls \<noteq> []" and i: "i < length (fr_events s)" "i \<notin> set (hs @ ls)"
    and lo: "low (fr_events s) i" and A: "insert i (set (hs @ ls)) \<subseteq> A"
    and I1: "\<And>u. midway s u hs ls \<Longrightarrow> keeps A {} s u \<Longrightarrow> I u"
    and I2: "\<And>u. midway s u hs (ls @ [i]) \<Longrightarrow> keeps A {i} s u \<Longrightarrow> I u"
    and rest: "\<And>u. noted s u \<Longrightarrow> out_held u hs (ls @ [i]) \<Longrightarrow> keeps A {i} s u \<Longrightarrow> sound p u I Q"
  shows "sound (put_next (Some (last (hs @ ls))) (Some i) (put_last (Some i) (put_owner (Some i) ET_SYS (add_cnt 1 p)))) s I Q"
proof -
  let ?l = "last (hs @ ls)"
  define s1 where "s1 = upd ?l (\<lambda>e. e\<lparr>ev_next := Some i\<rparr>) s"
  define s2 where "s2 = s1\<lparr>fr_list := (fr_list s1)\<lparr>ls_last := Some i\<rparr>\<rparr>"
  note hd = out_heldD [OF h]
  note hh = heldD [OF hd(1)]
  note sh = hh(3) [OF ne]
  note lt = shape_lt [OF sh]
  have l: "?l < length (fr_events s)" "?l \<in> A" using last_in_set [OF ne] lt A by auto
  have k1: "keeps A B s s1" for B unfolding s1_def by (rule keeps_upd_next) (rule l)
  have q1: "queued (fr_events s1) hs ls" by (rule queued_keeps [OF hd(2) k1 lt])
  have "low (fr_events s1) i" using keeps_low [OF k1 i(1)] lo by simp
  then have q2: "queued (fr_events s2) hs (ls @ [i])" using q1 by (simp add: queued_def s2_def)
  have n1: "noted s s1" "ls_cnt (fr_list s1) = ls_cnt (fr_list s)" "ls_lasthigh (fr_list s1) = ls_lasthigh (fr_list s)"
    by (simp_all add: s1_def noted_def)
  note sp = shape_push [OF sh i, folded s1_def s2_def]
  have m1: "midway s s1 hs ls" using sp(1) q1 n1 by (simp add: midway_def)
  have m2: "midway s s2 hs (ls @ [i])" using sp(2) q2 n1 by (simp add: midway_def s2_def noted_def)
  have k2: "keeps A {i} s s2" using k1 by (simp add: s2_def)
  have "sound (put_owner (Some i) ET_SYS (add_cnt 1 p)) s2 I Q"
    by (rule insert_finish [OF m2 k2]) (use hh n1 hd I2 rest in \<open>auto simp: owned_def s2_def\<close>)
  moreover have "midway s s hs ls" using sh hd by (simp add: midway_def noted_def)
  ultimately show ?thesis
    using I1 [OF m1 k1] I1 [OF _ keeps_refl] l by (simp add: put_next_def put_last_def s1_def [symmetric] s2_def)
qed


lemma insert_high_finish:
  assumes h: "out_held s hs ls" and m: "midway s t (hs @ [i]) ls" and k: "keeps A {i} s t"
    and i: "i \<notin> set (hs @ ls)" and lh: "ls_lasthigh (fr_list t) = ls_lasthigh (fr_list s)"
    and I2: "\<And>u. midway s u (hs @ [i]) ls \<Longrightarrow> keeps A {i} s u \<Longrightarrow> I u"
    and rest: "\<And>u. noted s u \<Longrightarrow> out_held u (hs @ [i]) ls \<Longrightarrow> keeps A {i} s u \<Longrightarrow> sound p u I Q"
  shows "sound (more_high (put_owner (Some i) ET_SYS (add_cnt 1 p))) t I Q"
proof -
  let ?t = "t\<lparr>fr_list := (fr_list t)\<lparr>ls_lasthigh := ls_lasthigh (fr_list t) + 1\<rparr>\<rparr>"
  note hd = out_heldD [OF h]
  note hh = heldD [OF hd(1)]
  have m': "midway s ?t (hs @ [i]) ls" using m by (simp add: midway_def noted_def shape_def)
  have "sound (put_owner (Some i) ET_SYS (add_cnt 1 p)) ?t I Q"
    by (rule insert_finish [OF m']) (use hh hd k lh I2 rest i in \<open>auto simp: owned_def\<close>)
  then show ?thesis using I2 [OF m k] by (simp add: more_high_def)
qed

lemma insert_high:
  assumes h: "out_held s hs ls" and ne: "hs @ ls \<noteq> []" and i: "i < length (fr_events s)" "i \<notin> set (hs @ ls)"
    and hi: "high (fr_events s) i" and A: "insert i (set (hs @ ls)) \<subseteq> A"
    and I1: "\<And>u. midway s u hs ls \<Longrightarrow> keeps A {} s u \<Longrightarrow> I u"
    and I2: "\<And>u. midway s u (hs @ [i]) ls \<Longrightarrow> keeps A {i} s u \<Longrightarrow> I u"
    and rest: "\<And>u. noted s u \<Longrightarrow> out_held u (hs @ [i]) ls \<Longrightarrow> keeps A {i} s u \<Longrightarrow> sound p u I Q"
  shows "sound (place_high (Some i) (if hs = [] then None else Some (last hs)) (Some (last (hs @ ls)))
           (more_high (put_owner (Some i) ET_SYS (add_cnt 1 p)))) s I Q"
proof -
  note hd = out_heldD [OF h]
  note hh = heldD [OF hd(1)]
  note sh = hh(3) [OF ne]
  note lt = shape_lt [OF sh]
  have m0: "midway s s hs ls" using sh hd by (simp add: midway_def noted_def)
  note I0 = I1 [OF m0 keeps_refl]
  have q1: "queued (fr_events u) hs ls" "queued (fr_events u) (hs @ [i]) ls" if "keeps A B s u" for u B
    using queued_keeps [OF hd(2) that lt] keeps_high [OF that i(1)] hi by (auto simp: queued_def)
  note fin = insert_high_finish [OF h _ _ i(2) _ I2 rest]
  consider (none) "hs = []" | (only) "hs \<noteq> []" "ls = []" | (both) "hs \<noteq> []" "ls \<noteq> []" by blast
  then show ?thesis
  proof cases
    case none
    define s1 where "s1 = upd i (\<lambda>e. e\<lparr>ev_next := ls_first (fr_list s)\<rparr>) s"
    define s2 where "s2 = s1\<lparr>fr_list := (fr_list s1)\<lparr>ls_first := Some i\<rparr>\<rparr>"
    have k1: "keeps A B s s1" for B unfolding s1_def by (rule keeps_upd_next) (use A in simp)
    note sp = shape_front [OF sh i, folded s1_def s2_def]
    have m1: "midway s s1 hs ls" using sp(1) q1 [OF k1] by (simp add: midway_def noted_def) (simp add: s1_def)
    have m2: "midway s s2 (hs @ [i]) ls"
      using sp(2) q1 [OF k1] none by (simp add: midway_def noted_def s2_def) (simp add: s1_def)
    have "sound (more_high (put_owner (Some i) ET_SYS (add_cnt 1 p))) s2 I Q"
      by (rule fin [OF m2]) (simp_all add: s2_def k1, simp add: s1_def)
    then show ?thesis
      using none I0 I1 [OF m1 k1] i
      by (simp add: place_high_def put_next_def put_first_def s1_def [symmetric] s2_def)
  next
    case only
    define s1 where "s1 = upd (last (hs @ ls)) (\<lambda>e. e\<lparr>ev_next := Some i\<rparr>) s"
    define s2 where "s2 = s1\<lparr>fr_list := (fr_list s1)\<lparr>ls_last := Some i\<rparr>\<rparr>"
    have l: "last (hs @ ls) < length (fr_events s)" "last (hs @ ls) \<in> A" using last_in_set [OF ne] lt A by auto
    have k1: "keeps A B s s1" for B unfolding s1_def by (rule keeps_upd_next) (rule l)
    note sp = shape_push [OF sh i, folded s1_def s2_def]
    have m1: "midway s s1 hs ls" using sp(1) q1 [OF k1] by (simp add: midway_def noted_def) (simp add: s1_def)
    have m2: "midway s s2 (hs @ [i]) ls"
      using sp(2) q1 [OF k1] only by (simp add: midway_def noted_def s2_def) (simp add: s1_def)
    have "sound (more_high (put_owner (Some i) ET_SYS (add_cnt 1 p))) s2 I Q"
      by (rule fin [OF m2]) (simp_all add: s2_def k1, simp add: s1_def)
    then show ?thesis
      using only I0 I1 [OF m1 k1] l(1)
      by (simp add: place_high_def put_next_def put_last_def s1_def s2_def)
  next
    case both
    define s1 where "s1 = upd i (\<lambda>e. e\<lparr>ev_next := ev_next (fr_events s ! last hs)\<rparr>) s"
    define s2 where "s2 = upd (last hs) (\<lambda>e. e\<lparr>ev_next := Some i\<rparr>) s1"
    have l: "last hs < length (fr_events s)" "last hs \<in> A" using last_in_set [OF both(1)] lt A by auto
    have k1: "keeps A B s s1" for B unfolding s1_def by (rule keeps_upd_next) (use A in simp)
    have k2: "keeps A B s s2" for B
      unfolding s2_def by (rule keeps_trans [OF k1 keeps_upd_next]) (rule l)
    note sp = shape_between [OF sh i both, folded s1_def s2_def]
    have m1: "midway s s1 hs ls" using sp(1) q1 [OF k1] by (simp add: midway_def noted_def) (simp add: s1_def)
    have m2: "midway s s2 (hs @ [i]) ls"
      using sp(2) q1 [OF k2] by (simp add: midway_def noted_def) (simp add: s2_def s1_def)
    have "sound (more_high (put_owner (Some i) ET_SYS (add_cnt 1 p))) s2 I Q"
      by (rule fin [OF m2 k2]) (simp add: s2_def s1_def)
    moreover have "last hs \<noteq> last ls"
      using sh last_in_set [OF both(1)] last_in_set [OF both(2)] by (auto simp: shape_def simp del: last_in_set)
    moreover have "length (fr_events s1) = length (fr_events s)" by (simp add: s1_def)
    ultimately show ?thesis
      using both I0 I1 [OF m1 k1] l(1) i
      by (simp add: place_high_def put_next_def s1_def [symmetric] s2_def)
  qed
qed

end
