(* ===== verification/EtWriteProofs.thy ===== *)
theory EtWriteProofs
  imports EtListProofs
begin

text \<open>
  Writing into an output list, and repairing one. \<open>fixable\<close> describes the lists that \<^verbatim>\<open>et_repair_outputlist\<close>
  can repair, with the queues it makes of them; every state in which a write may be interrupted is one.
\<close>

section \<open>What can be repaired\<close>

definition fixable :: "fr \<Rightarrow> nat list \<Rightarrow> nat list \<Rightarrow> bool" where
  "fixable s hs ls = (let x = fr_fixout s; l = fr_list s; total = fo_cnt x + fo_num x in
     if fo_start x = 0 \<or> ls_cnt l = total then out_held s hs ls
     else if ls_cnt l = 0 \<and> ls_first l = None then hs @ ls = [] \<and> ls_lasthigh l = 0
     else if ls_cnt l = 0 then (\<exists>i < length (fr_events s). hs @ ls = [i] \<and> ls_first l = Some i) \<and> total > 0
            \<and> queued (fr_events s) hs ls
     else shape s (hs @ ls) \<and> queued (fr_events s) hs ls \<and> int (length (hs @ ls)) \<le> total)"

definition own :: "nat list \<Rightarrow> et_event list \<Rightarrow> et_event list" where
  "own xs es = fold (\<lambda>i es. es[i := (es ! i)\<lparr>ev_owner := ET_SYS\<rparr>]) xs es"

lemma own_simps [simp]:
  "own [] es = es" "own (i # xs) es = own xs (es[i := (es ! i)\<lparr>ev_owner := ET_SYS\<rparr>])"
  by (simp_all add: own_def)

lemma length_own [simp]: "length (own xs es) = length es"
  by (induction xs arbitrary: es) auto

lemma own_nth:
  "i < length es \<Longrightarrow> own xs es ! i = (if i \<in> set xs then (es ! i)\<lparr>ev_owner := ET_SYS\<rparr> else es ! i)"
  by (induction xs arbitrary: es) (auto simp: nth_upd)

lemma linked_own: "linked es xs \<Longrightarrow> linked (own ys es) xs"
  by (induction ys arbitrary: es) (auto simp: linked_upd_owner)

lemma keeps_own: "set xs \<subseteq> B \<Longrightarrow> keeps A B s (s\<lparr>fr_events := own xs (fr_events s)\<rparr>)"
  by (auto simp: keeps_def own_nth intro!: nth_equalityI)

lemma fix_walk_linked:
  assumes "linked es xs" "distinct xs" "xs \<noteq> []" "length xs \<le> n"
  shows "fix_walk n (Some (hd xs)) (Some (last xs)) c h es =
           Some (ET_OK, c + int (length xs), h + int (length (filter (high es) xs)), own xs es)"
  using assms
proof (induction xs arbitrary: n c h es)
  case (Cons x xs)
  obtain m where n: "n = Suc m" using Cons.prems(4) by (cases n) auto
  let ?es = "es[x := (es ! x)\<lparr>ev_owner := ET_SYS\<rparr>]"
  have x: "x < length es" using Cons.prems by simp
  show ?case
  proof (cases "xs = []")
    case True
    then show ?thesis using n x by (simp add: high_def)
  next
    case False
    have "linked ?es xs"
      using Cons.prems(1) linked_upd_owner [of es xs "\<lambda>e. e\<lparr>ev_owner := ET_SYS\<rparr>" x] by simp
    note IH = Cons.IH [OF this _ False, of m]
    have "last xs \<in> set xs" using False by simp
    then have "x \<noteq> last xs" using Cons.prems(2) by auto
    moreover have "filter (high ?es) xs = filter (high es) xs"
      by (rule filter_cong) (auto simp: high_def nth_upd)
    ultimately show ?thesis using IH Cons.prems n x False by (simp add: high_def [of es x])
  qed
qed simp

lemma queued_filter: "queued es hs ls \<Longrightarrow> filter (high es) (hs @ ls) = hs"
proof -
  assume q: "queued es hs ls"
  then have "filter (high es) hs = hs" "filter (high es) ls = []"
    by (auto simp: queued_def high_def low_def filter_id_conv filter_empty_conv)
  then show ?thesis by simp
qed

lemma out_held_empty: "ls_cnt (fr_list s) = 0 \<Longrightarrow> ls_lasthigh (fr_list s) = 0 \<Longrightarrow> out_held s [] []"
  by (simp add: out_held_def held_def owned_def queued_def)

text \<open>A repair succeeds, and the list holds its events again, all of them owned by the system.\<close>

lemma repair_fixable:
  assumes f: "fixable s hs ls"
  shows "\<exists>t. et_repair_outputlist s = Some (ET_OK, t) \<and> keeps {} (set (hs @ ls)) s t \<and> fo_start (fr_fixout t) = 0
     \<and> out_held t hs ls"
proof -
  define xs where xs: "xs = hs @ ls"
  let ?l = "fr_list s" and ?x = "fr_fixout s"
  let ?total = "fo_cnt ?x + fo_num ?x"
  consider (complete) "fo_start ?x = 0 \<or> ls_cnt ?l = ?total" "out_held s hs ls"
    | (none) "fo_start ?x \<noteq> 0" "ls_cnt ?l \<noteq> ?total" "ls_cnt ?l = 0 \<and> ls_first ?l = None" "xs = []" "ls_lasthigh ?l = 0"
    | (walk) "fo_start ?x \<noteq> 0" "ls_cnt ?l \<noteq> ?total" "\<not> (ls_cnt ?l = 0 \<and> ls_first ?l = None)"
        "queued (fr_events s) hs ls" "int (length xs) \<le> ?total" "xs \<noteq> []" "distinct xs"
        "linked (fr_events s) xs" "ls_first ?l = Some (hd xs)"
        "(if ls_cnt ?l = 0 then ls_first ?l else ls_last ?l) = Some (last xs)"
  proof (cases "fo_start ?x = 0 \<or> ls_cnt ?l = ?total \<or> ls_cnt ?l = 0 \<and> ls_first ?l = None")
    case True
    then show ?thesis using f [unfolded fixable_def Let_def, folded xs] that(1,2) by argo
  next
    case False
    note f' = f [unfolded fixable_def Let_def, folded xs]
    show ?thesis
    proof (cases "ls_cnt ?l = 0")
      case True
      then obtain i where "i < length (fr_events s)" "xs = [i]" "ls_first ?l = Some i"
        and "?total > 0" "queued (fr_events s) hs ls" using f' False by auto
      then show ?thesis using False True by (intro that(3)) simp_all
    next
      case nz: False
      then have "shape s xs" "queued (fr_events s) hs ls" "int (length xs) \<le> ?total" using f' False by simp_all
      then show ?thesis using False nz by (intro that(3)) (simp_all add: shape_def)
    qed
  qed
  then show ?thesis
  proof cases
    case complete
    then show ?thesis
      by (cases "fo_start ?x = 0")
        (auto simp: et_repair_outputlist_def Let_def out_held_def held_def owned_def shape_def xs)
  next
    case none
    then show ?thesis
      by (auto simp: et_repair_outputlist_def Let_def xs intro!: out_held_empty)
  next
    case walk
    let ?es = "own xs (fr_events s)"
    let ?l' = "(if ls_cnt ?l = 0 then ?l\<lparr>ls_last := ls_first ?l\<rparr> else ?l)"
    let ?t = "s\<lparr>fr_events := ?es, fr_list := ?l'\<lparr>ls_cnt := int (length xs), ls_lasthigh := int (length hs)\<rparr>,
                fr_fixout := ?x\<lparr>fo_start := 0\<rparr>\<rparr>"
    have "length xs \<le> nat ?total" using walk(5) by linarith
    note w = fix_walk_linked [OF walk(8,7,6) this, of 0 0]
    have ends: "ls_first ?l' = Some (hd xs)" "ls_last ?l' = Some (last xs)"
      using walk(9,10) by (auto split: if_splits)
    have r: "et_repair_outputlist s = Some (ET_OK, ?t)"
      using walk(1-3) w ends queued_filter [OF walk(4), folded xs]
      by (auto simp: et_repair_outputlist_def Let_def split: if_splits)
    have k: "keeps {} (set xs) s (s\<lparr>fr_events := ?es\<rparr>)" by (rule keeps_own) simp
    have lt: "set xs \<subseteq> {..<length (fr_events s)}" using linked_lt [OF walk(8)] by auto
    have q: "queued ?es hs ls" using queued_keeps [OF walk(4) k] lt by (simp add: xs)
    have "owned ?t xs" using lt by (auto simp: owned_def own_nth subset_iff)
    moreover have "shape ?t xs"
      using walk(6,7) linked_own [OF walk(8)] ends by (simp add: shape_def)
    ultimately have "out_held ?t hs ls" using q by (simp add: out_held_def held_def xs)
    moreover have "keeps {} (set xs) s ?t" using k by simp
    ultimately show ?thesis using r xs by auto
  qed
qed


section \<open>Writing\<close>

text \<open>The queues after the events \<open>pe\<close> have been written.\<close>

abbreviation highs :: "fr \<Rightarrow> nat list \<Rightarrow> nat list" where
  "highs s pe \<equiv> filter (high (fr_events s)) pe"

abbreviation lows :: "fr \<Rightarrow> nat list \<Rightarrow> nat list" where
  "lows s pe \<equiv> filter (low (fr_events s)) pe"

definition lasthigh_of :: "nat list \<Rightarrow> eptr" where
  "lasthigh_of hs = (if hs = [] then None else Some (last hs))"

definition ready :: "fr \<Rightarrow> nat list \<Rightarrow> nat list \<Rightarrow> bool" where
  "ready s xs pe = (distinct pe \<and> set pe \<inter> set xs = {} \<and> set pe \<subseteq> {..<length (fr_events s)}
     \<and> (\<forall>i\<in>set pe. high (fr_events s) i \<or> low (fr_events s) i))"

lemma high_not_low: "high es i \<Longrightarrow> \<not> low es i"
  by (simp add: high_def low_def)

lemma highs_keeps: "keeps A B s t \<Longrightarrow> set pe \<subseteq> {..<length (fr_events s)} \<Longrightarrow> highs t pe = highs s pe"
  by (rule filter_cong) (auto simp: keeps_high)

lemma lows_keeps: "keeps A B s t \<Longrightarrow> set pe \<subseteq> {..<length (fr_events s)} \<Longrightarrow> lows t pe = lows s pe"
  by (rule filter_cong) (auto simp: keeps_low)

lemma ready_keeps:
  "ready s xs (i # pe) \<Longrightarrow> keeps A B s t \<Longrightarrow> set ys = insert i (set xs) \<Longrightarrow> ready t ys pe"
  using keeps_length [of A B s t] keeps_high [of A B s t] keeps_low [of A B s t]
  by (auto simp: ready_def subset_iff)

text \<open>How far a writer has come when it is interrupted, and what it has done in the end.\<close>

definition partly :: "fr \<Rightarrow> nat list \<Rightarrow> nat list \<Rightarrow> nat list \<Rightarrow> nat set \<Rightarrow> fr \<Rightarrow> bool" where
  "partly s hs ls pe A t = (\<exists>k \<le> length pe. fixable t (hs @ highs s (take k pe)) (ls @ lows s (take k pe))
     \<and> keeps A (set (take k pe)) s t)"

definition written :: "fr \<Rightarrow> nat list \<Rightarrow> nat list \<Rightarrow> nat list \<Rightarrow> nat set \<Rightarrow> int \<Rightarrow> fr \<Rightarrow> bool" where
  "written s hs ls pe A status t = (status = ET_OK \<and> out_held t (hs @ highs s pe) (ls @ lows s pe)
     \<and> keeps A (set pe) s t \<and> fo_start (fr_fixout t) = 0 \<and> fr_fixin t = fr_fixin s
     \<and> ls_in (fr_list t) = ls_in (fr_list s) \<and> ls_out (fr_list t) = ls_out (fr_list s))"

lemma partly_0: "fixable t hs ls \<Longrightarrow> keeps A {} s t \<Longrightarrow> partly s hs ls pe A t"
  by (auto simp: partly_def intro!: exI [of _ 0])

lemma partly_Cons:
  assumes "partly u (hs @ highs s [i]) (ls @ lows s [i]) pe A t" "keeps A {i} s u" "set pe \<subseteq> {..<length (fr_events s)}"
  shows "partly s hs ls (i # pe) A t"
proof -
  obtain k where k: "k \<le> length pe"
    "fixable t ((hs @ highs s [i]) @ highs u (take k pe)) ((ls @ lows s [i]) @ lows u (take k pe))"
    "keeps A (set (take k pe)) u t" using assms(1) unfolding partly_def by blast
  have lt: "set (take k pe) \<subseteq> {..<length (fr_events s)}" using assms(3) set_take_subset [of k pe] by blast
  have "fixable t (hs @ highs s (take (Suc k) (i # pe))) (ls @ lows s (take (Suc k) (i # pe)))"
    using k(2) highs_keeps [OF assms(2) lt] lows_keeps [OF assms(2) lt] by (auto split: if_splits)
  moreover have "keeps A (set (take (Suc k) (i # pe))) s t"
    by (rule keeps_trans [OF keeps_mono [OF assms(2)] keeps_mono [OF k(3)]]) auto
  ultimately show ?thesis using k(1) unfolding partly_def by (intro exI [of _ "Suc k"]) simp
qed

lemma written_Cons:
  assumes "written u (hs @ highs s [i]) (ls @ lows s [i]) pe A x t" "keeps A {i} s u" "noted s u"
    "set pe \<subseteq> {..<length (fr_events s)}"
  shows "written s hs ls (i # pe) A x t"
proof -
  have "keeps A (set (i # pe)) s t"
    by (rule keeps_trans [OF keeps_mono [OF assms(2)] keeps_mono]) (use assms(1) in \<open>auto simp: written_def\<close>)
  then show ?thesis
    using assms highs_keeps [OF assms(2,4)] lows_keeps [OF assms(2,4)]
    by (auto simp: written_def noted_def split: if_splits)
qed

lemma fixable_midway:
  assumes "midway s t hs ls" "fo_start (fr_fixout s) \<noteq> 0" "0 < ls_cnt (fr_list s)"
    "ls_cnt (fr_list s) < fo_cnt (fr_fixout s) + fo_num (fr_fixout s)"
    "int (length (hs @ ls)) \<le> fo_cnt (fr_fixout s) + fo_num (fr_fixout s)"
  shows "fixable t hs ls"
  using assms by (simp add: fixable_def midway_def noted_def Let_def)

lemma end_write_sound:
  assumes "out_held s hs ls" "fo_start (fr_fixout s) = 1" "ls_cnt (fr_list s) = fo_cnt (fr_fixout s) + fo_num (fr_fixout s)"
  shows "sound end_write s (partly s hs ls [] A) (written s hs ls [] A)"
proof -
  have "fixable s hs ls" using assms by (simp add: fixable_def)
  moreover have "out_held (s\<lparr>fr_fixout := x\<rparr>) hs ls" for x
    using assms(1) by (simp add: out_held_def held_def owned_def shape_def)
  ultimately show ?thesis
    using assms by (auto simp: end_write_def written_def fixable_def intro!: partly_0)
qed

lemma nwrite_rest_sound:
  assumes "out_held s hs ls" "hs @ ls \<noteq> []" "ready s (hs @ ls) pe" "fo_start (fr_fixout s) = 1"
    "ls_cnt (fr_list s) + int (length pe) = fo_cnt (fr_fixout s) + fo_num (fr_fixout s)"
    "set (hs @ ls @ pe) \<subseteq> A"
  shows "sound (nwrite_rest pe (Some (last (hs @ ls))) (lasthigh_of hs)) s (partly s hs ls pe A) (written s hs ls pe A)"
  using assms
proof (induction pe arbitrary: s hs ls)
  case Nil
  then show ?case using end_write_sound by simp
next
  case (Cons i pe)
  note h = Cons.prems(1) and ne = Cons.prems(2) and rd = Cons.prems(3)
  have i: "i < length (fr_events s)" "i \<notin> set (hs @ ls)" and pe: "set pe \<subseteq> {..<length (fr_events s)}"
    using rd by (auto simp: ready_def)
  have A: "insert i (set (hs @ ls)) \<subseteq> A" "set pe \<subseteq> A" using Cons.prems(6) by auto
  have c: "ls_cnt (fr_list s) = int (length (hs @ ls))" using heldD(1) [OF out_heldD(1) [OF h]] .
  have pos: "0 < ls_cnt (fr_list s)" using c ne by (cases hs; cases ls) auto
  have I1: "partly s hs ls (i # pe) A u" if "midway s u hs ls" "keeps A {} s u" for u
    by (rule partly_0 [OF fixable_midway [OF that(1)] that(2)]) (use Cons.prems(4,5) c pos in auto)
  have I2: "partly s hs ls (i # pe) A u"
    if "midway s u (hs @ highs s [i]) (ls @ lows s [i])" "keeps A {i} s u" for u
  proof -
    have "length (highs s [i]) + length (lows s [i]) = 1" using rd high_not_low [of "fr_events s" i] by (auto simp: ready_def)
    then have "fixable u (hs @ highs s [i]) (ls @ lows s [i])"
      by (intro fixable_midway [OF that(1)]) (use Cons.prems(4,5) c pos in auto)
    then show ?thesis using that(2) unfolding partly_def by (intro exI [of _ 1]) simp
  qed
  have rest: "sound (nwrite_rest pe (Some (last (hs' @ ls'))) (lasthigh_of hs')) u
        (partly s hs ls (i # pe) A) (written s hs ls (i # pe) A)"
    if u: "noted s u" "out_held u hs' ls'" "keeps A {i} s u" "hs' = hs @ highs s [i]" "ls' = ls @ lows s [i]" for u hs' ls'
  proof -
    have one: "set (hs' @ ls') = insert i (set (hs @ ls))" "length (hs' @ ls') = Suc (length (hs @ ls))"
      using u(4,5) rd high_not_low [of "fr_events s" i] by (auto simp: ready_def)
    then have ne': "hs' @ ls' \<noteq> []" by force
    have rd': "ready u (hs' @ ls') pe" by (rule ready_keeps [OF rd u(3) one(1)])
    have c': "ls_cnt (fr_list u) = ls_cnt (fr_list s) + 1" using heldD(1) [OF out_heldD(1) [OF u(2)]] one(2) c by simp
    have A': "set (hs' @ ls' @ pe) \<subseteq> A" using one(1) A by auto
    have "sound (nwrite_rest pe (Some (last (hs' @ ls'))) (lasthigh_of hs')) u (partly u hs' ls' pe A) (written u hs' ls' pe A)"
      by (rule Cons.IH [OF u(2) ne' rd' _ _ A']) (use c' Cons.prems(4,5) u(1) in \<open>simp_all add: noted_def\<close>)
    then show ?thesis
    proof (rule sound_mono)
      show "partly s hs ls (i # pe) A t" if "partly u hs' ls' pe A t" for t
        by (rule partly_Cons [OF _ u(3) pe]) (rule that [unfolded u(4,5)])
      show "written s hs ls (i # pe) A x t" if "written u hs' ls' pe A x t" for x t
        by (rule written_Cons [OF _ u(3,1) pe]) (rule that [unfolded u(4,5)])
    qed
  qed
  show ?case
  proof (cases "low (fr_events s) i")
    case True
    then have hl: "highs s [i] = []" "lows s [i] = [i]" using high_not_low [of "fr_events s" i] by auto
    then have qs: "hs = hs @ highs s [i]" "ls @ [i] = ls @ lows s [i]" by simp_all
    have "sound (put_next (Some (last (hs @ ls))) (Some i) (put_last (Some i) (put_owner (Some i) ET_SYS (add_cnt 1
        (nwrite_rest pe (Some i) (lasthigh_of hs)))))) s (partly s hs ls (i # pe) A) (written s hs ls (i # pe) A)"
    proof (rule insert_low [OF h ne i True A(1) I1])
      show "partly s hs ls (i # pe) A u" if "midway s u hs (ls @ [i])" "keeps A {i} s u" for u
        by (rule I2) (use that hl in auto)
      show "sound (nwrite_rest pe (Some i) (lasthigh_of hs)) u (partly s hs ls (i # pe) A) (written s hs ls (i # pe) A)"
        if "noted s u" "out_held u hs (ls @ [i])" "keeps A {i} s u" for u
        using rest [OF that qs] by simp
    qed
    then show ?thesis using i(1) True by (simp add: low_def Let_def)
  next
    case False
    then have hi: "high (fr_events s) i" using rd by (simp add: ready_def)
    then have hl: "highs s [i] = [i]" "lows s [i] = []" using False by auto
    then have qs: "hs @ [i] = hs @ highs s [i]" "ls = ls @ lows s [i]" by simp_all
    have l: "lasthigh_of (hs @ [i]) = Some i" by (simp add: lasthigh_of_def)
    have d: "distinct (hs @ ls)" using heldD(3) [OF out_heldD(1) [OF h] ne] by (simp add: shape_def)
    have e: "last ((hs @ [i]) @ ls) = (if lasthigh_of hs = None \<or> lasthigh_of hs \<noteq> Some (last (hs @ ls)) then last (hs @ ls) else i)"
      using ne d last_in_set [of hs] last_in_set [of ls] by (auto simp: lasthigh_of_def simp del: last_in_set)
    have "sound (place_high (Some i) (lasthigh_of hs) (Some (last (hs @ ls))) (more_high (put_owner (Some i) ET_SYS (add_cnt 1
        (nwrite_rest pe (if lasthigh_of hs = None \<or> lasthigh_of hs \<noteq> Some (last (hs @ ls)) then Some (last (hs @ ls)) else Some i)
           (Some i)))))) s (partly s hs ls (i # pe) A) (written s hs ls (i # pe) A)"
    proof (rule insert_high [OF h ne i hi A(1) I1, folded lasthigh_of_def])
      show "partly s hs ls (i # pe) A u" if "midway s u (hs @ [i]) ls" "keeps A {i} s u" for u
        by (rule I2) (use that hl in auto)
      show "sound (nwrite_rest pe (if lasthigh_of hs = None \<or> lasthigh_of hs \<noteq> Some (last (hs @ ls)) then Some (last (hs @ ls)) else Some i)
           (Some i)) u (partly s hs ls (i # pe) A) (written s hs ls (i # pe) A)"
        if "noted s u" "out_held u (hs @ [i]) ls" "keeps A {i} s u" for u
        using rest [OF that qs] l e by (cases "lasthigh_of hs = None \<or> lasthigh_of hs \<noteq> Some (last (hs @ ls))") simp_all
    qed
    then show ?thesis using i(1) False by (simp add: low_def Let_def)
  qed
qed


text \<open>The whole of \<^verbatim>\<open>et_station_nwrite\<close> and \<^verbatim>\<open>et_station_write\<close> between locking and unlocking.\<close>

lemma out_held_cong:
  assumes "out_held s hs ls" "fr_events t = fr_events s" "ls_cnt (fr_list t) = ls_cnt (fr_list s)"
    "ls_lasthigh (fr_list t) = ls_lasthigh (fr_list s)"
    "hs @ ls \<noteq> [] \<longrightarrow> ls_first (fr_list t) = ls_first (fr_list s) \<and> ls_last (fr_list t) = ls_last (fr_list s)"
  shows "out_held t hs ls"
  using assms by (auto simp: out_held_def held_def owned_def shape_def)

lemma out_held_nil: "out_held s [] [] = (ls_cnt (fr_list s) = 0 \<and> ls_lasthigh (fr_list s) = 0)"
  by (auto simp: out_held_def held_def owned_def queued_def)

lemma find_lasthigh_held:
  assumes "out_held s hs ls" "hs @ ls \<noteq> []"
  shows "find_lasthigh s = Some (lasthigh_of hs)"
proof (cases "hs = []")
  case True
  then show ?thesis using assms out_heldD(3) [OF assms(1)] by (simp add: find_lasthigh_def lasthigh_of_def)
next
  case False
  have sh: "shape s (hs @ ls)" using heldD(3) [OF out_heldD(1) [OF assms(1)] assms(2)] .
  have lt: "length hs - 1 < length (hs @ ls)" using False by (cases hs) simp_all
  have "walk (fr_events s) (Some (hd (hs @ ls))) (length hs - 1) = Some (Some ((hs @ ls) ! (length hs - 1)))"
    by (rule walk_linked) (use sh lt in \<open>simp_all add: shape_def\<close>)
  then have "walk (fr_events s) (ls_first (fr_list s)) (length hs - 1) = Some (Some (last hs))"
    using sh False by (simp add: shape_def nth_append last_conv_nth)
  moreover have "nat (int (length hs) - 1) = length hs - 1" by simp
  ultimately show ?thesis
    using False out_heldD(3) [OF assms(1)] by (simp add: find_lasthigh_def lasthigh_of_def Let_def)
qed

text \<open>An event that goes into an empty list.\<close>

lemma fixable_one:
  assumes "fo_start (fr_fixout t) \<noteq> 0" "ls_cnt (fr_list t) = 0" "ls_first (fr_list t) = Some i"
    "0 < fo_cnt (fr_fixout t) + fo_num (fr_fixout t)" "i < length (fr_events t)"
    "high (fr_events t) i \<or> low (fr_events t) i"
  shows "fixable t (highs t [i]) (lows t [i])"
  using assms high_not_low [of "fr_events t" i] by (auto simp: fixable_def Let_def queued_def)

lemma out_held_one:
  assumes "ls_cnt (fr_list t) = 1" "ls_first (fr_list t) = Some i" "ls_last (fr_list t) = Some i" "i < length (fr_events t)"
    "ev_owner (fr_events t ! i) = ET_SYS" "high (fr_events t) i \<or> low (fr_events t) i"
    "ls_lasthigh (fr_list t) = (if high (fr_events t) i then 1 else 0)"
  shows "out_held t (highs t [i]) (lows t [i])"
  using assms high_not_low [of "fr_events t" i] by (auto simp: out_held_def held_def owned_def shape_def queued_def)

lemma upd_owner_high [simp]:
  "high ((fr_events s)[i := (fr_events s ! i)\<lparr>ev_owner := a\<rparr>]) j = high (fr_events s) j"
  "low ((fr_events s)[i := (fr_events s ! i)\<lparr>ev_owner := a\<rparr>]) j = low (fr_events s) j"
  by (auto simp: high_def low_def nth_upd)

lemma partly_one:
  assumes "fo_start (fr_fixout t) \<noteq> 0" "ls_cnt (fr_list t) = 0" "ls_first (fr_list t) = Some i"
    "0 < fo_cnt (fr_fixout t) + fo_num (fr_fixout t)" "i < length (fr_events t)" "keeps A {i} s t"
    "high (fr_events s) i \<or> low (fr_events s) i"
  shows "partly s [] [] (i # pe) A t"
proof -
  have l: "i < length (fr_events s)" using assms(5) keeps_length [OF assms(6)] by simp
  have "fixable t (highs t [i]) (lows t [i])"
    using assms keeps_high [OF assms(6) l] keeps_low [OF assms(6) l] by (intro fixable_one) auto
  then show ?thesis
    using assms(6) highs_keeps [OF assms(6), of "[i]"] lows_keeps [OF assms(6), of "[i]"] l
    by (auto simp: partly_def intro!: exI [of _ 1])
qed


lemma note_write_sound:
  assumes h: "out_held s hs ls" and st: "fo_start (fr_fixout s) = 0" and n: "0 < num"
    and I: "\<And>t. fixable t hs ls \<Longrightarrow> fr_events t = fr_events s \<Longrightarrow> I t"
    and rest: "\<And>t. \<lbrakk>fixable t hs ls; fr_events t = fr_events s; fo_start (fr_fixout t) = 1; fr_fixin t = fr_fixin s;
        fo_cnt (fr_fixout t) = ls_cnt (fr_list s); fo_num (fr_fixout t) = num;
        fr_list t = (if ls_cnt (fr_list s) = 0 then (fr_list s)\<lparr>ls_first := None\<rparr> else fr_list s)\<rbrakk> \<Longrightarrow> sound p t I Q"
  shows "sound (note_write num p) s I Q"
proof -
  define s0 where "s0 = s\<lparr>fr_list := (if ls_cnt (fr_list s) = 0 then (fr_list s)\<lparr>ls_first := None\<rparr> else fr_list s)\<rparr>"
  define s1 where "s1 = s0\<lparr>fr_fixout := (fr_fixout s0)\<lparr>fo_cnt := ls_cnt (fr_list s)\<rparr>\<rparr>"
  define s2 where "s2 = s1\<lparr>fr_fixout := (fr_fixout s1)\<lparr>fo_num := num\<rparr>\<rparr>"
  define s3 where "s3 = s2\<lparr>fr_fixout := (fr_fixout s2)\<lparr>fo_start := fo_start (fr_fixout s2) + 1\<rparr>\<rparr>"
  note defs = s3_def s2_def s1_def s0_def
  have c: "ls_cnt (fr_list s) = int (length (hs @ ls))" using heldD(1) [OF out_heldD(1) [OF h]] .
  then have e: "hs @ ls = [] \<longleftrightarrow> ls_cnt (fr_list s) = 0" by (metis length_0_conv of_nat_eq_0_iff)
  have o: "out_held t hs ls" if "fr_events t = fr_events s" "fr_list t = fr_list s0" for t
    by (rule out_held_cong [OF h]) (use that e in \<open>auto simp: s0_def\<close>)
  have f: "fixable t hs ls" if "fo_start (fr_fixout t) = 0" "fr_events t = fr_events s" "fr_list t = fr_list s0" for t
    using o [OF that(2,3)] that(1) by (simp add: fixable_def)
  have "fixable s hs ls" using h st by (simp add: fixable_def)
  then have "I s" "I s0" "I s1" "I s2" using f st by (auto intro!: I simp: defs)
  moreover have "fixable s3 hs ls"
  proof (cases "hs @ ls = []")
    case True
    then show ?thesis using e n st out_heldD(3) [OF h] by (simp add: fixable_def defs)
  next
    case False
    have "fr_events s3 = fr_events s" "fr_list s3 = fr_list s0" by (simp_all add: defs)
    note o3 = o [OF this]
    have "fo_cnt (fr_fixout s3) + fo_num (fr_fixout s3) = ls_cnt (fr_list s) + num" "ls_cnt (fr_list s3) = ls_cnt (fr_list s)"
      by (simp_all add: defs)
    moreover have "ls_cnt (fr_list s) \<noteq> 0" using False e by blast
    ultimately show ?thesis
      using o3 n c out_heldD(2) [OF o3] heldD(3) [OF out_heldD(1) [OF o3] False] unfolding fixable_def Let_def by auto
  qed
  then have "sound p s3 I Q" by (rule rest) (use st in \<open>simp_all add: defs\<close>)
  ultimately show ?thesis
    by (simp add: note_write_def put_first_def Let_def s3_def s2_def s1_def) (simp add: s0_def split: if_splits)
qed

text \<open>After the notes a writer may assume this.\<close>

definition begun :: "fr \<Rightarrow> nat list \<Rightarrow> nat list \<Rightarrow> nat list \<Rightarrow> bool" where
  "begun t hs ls pe = (fixable t hs ls \<and> out_held t hs ls \<and> ready t (hs @ ls) pe \<and> fo_start (fr_fixout t) = 1
     \<and> ls_cnt (fr_list t) + int (length pe) = fo_cnt (fr_fixout t) + fo_num (fr_fixout t))"

lemma note_write_partly:
  assumes h: "out_held s hs ls" and r: "ready s (hs @ ls) pe" and st: "fo_start (fr_fixout s) = 0" and ne: "pe \<noteq> []"
    and p: "\<And>t. begun t hs ls pe \<Longrightarrow> sound p t (partly t hs ls pe A) (written t hs ls pe A)"
  shows "sound (note_write (int (length pe)) p) s (partly s hs ls pe A) (written s hs ls pe A)"
proof (rule note_write_sound [OF h st])
  fix t assume t: "fixable t hs ls" "fr_events t = fr_events s" "fo_start (fr_fixout t) = 1" "fr_fixin t = fr_fixin s"
        "fo_cnt (fr_fixout t) = ls_cnt (fr_list s)" "fo_num (fr_fixout t) = int (length pe)"
        "fr_list t = (if ls_cnt (fr_list s) = 0 then (fr_list s)\<lparr>ls_first := None\<rparr> else fr_list s)"
  have "ls_cnt (fr_list s) \<noteq> 0" if "hs @ ls \<noteq> []"
    using heldD(1) [OF out_heldD(1) [OF h]] that by (cases hs; cases ls) auto
  then have "out_held t hs ls" by (intro out_held_cong [OF h]) (use t in \<open>auto split: if_splits\<close>)
  moreover have "ready t (hs @ ls) pe" using r t(2) by (simp add: ready_def)
  ultimately have "begun t hs ls pe" using t by (simp add: begun_def)
  then show "sound p t (partly s hs ls pe A) (written s hs ls pe A)"
    by (rule sound_mono [OF p]) (use t(2,4,7) in \<open>simp_all add: partly_def written_def keeps_def split: if_splits\<close>)
qed (use ne in \<open>auto intro!: partly_0 simp: keeps_def\<close>)

lemma begun_find:
  assumes b: "begun t hs ls pe" and ne: "ls_cnt (fr_list t) \<noteq> 0" and A: "set (hs @ ls @ pe) \<subseteq> A"
  shows "ls_last (fr_list t) = Some (last (hs @ ls))" "find_lasthigh t = Some (lasthigh_of hs)"
    "sound (nwrite_rest pe (Some (last (hs @ ls))) (lasthigh_of hs)) t (partly t hs ls pe A) (written t hs ls pe A)"
proof -
  have h: "out_held t hs ls" using b by (simp add: begun_def)
  have ne': "hs @ ls \<noteq> []" using ne heldD(1) [OF out_heldD(1) [OF h]] by auto
  show "ls_last (fr_list t) = Some (last (hs @ ls))"
    using heldD(3) [OF out_heldD(1) [OF h] ne'] by (simp add: shape_def)
  show "find_lasthigh t = Some (lasthigh_of hs)" by (rule find_lasthigh_held [OF h ne'])
  show "sound (nwrite_rest pe (Some (last (hs @ ls))) (lasthigh_of hs)) t (partly t hs ls pe A) (written t hs ls pe A)"
    by (rule nwrite_rest_sound [OF h ne' _ _ _ A]) (use b in \<open>simp_all add: begun_def\<close>)
qed

lemma begun_empty:
  assumes "begun t hs ls pe" "ls_cnt (fr_list t) = 0"
  shows "hs = []" "ls = []" "ls_lasthigh (fr_list t) = 0"
proof -
  have h: "out_held t hs ls" using assms(1) by (simp add: begun_def)
  then have "int (length (hs @ ls)) = 0" using assms(2) heldD(1) [OF out_heldD(1) [OF h]] by simp
  then show "hs = []" "ls = []" by (cases hs; cases ls; simp)+
  then show "ls_lasthigh (fr_list t) = 0" using h by (simp add: out_held_nil)
qed

lemma nwrite_first_sound:
  assumes b: "begun t [] [] (i # pe)" and c0: "ls_cnt (fr_list t) = 0" and A: "set (i # pe) \<subseteq> A"
  shows "sound (put_first (Some i) (put_last (Some i) (put_owner (Some i) ET_SYS (ask (ev_at (Some i)) (\<lambda>e.
      if ev_priority e = ET_HIGH then put_lasthigh 1 (add_cnt 1 (nwrite_rest pe (Some i) (Some i)))
      else add_cnt 1 (nwrite_rest pe (Some i) None)))))) t (partly t [] [] (i # pe) A) (written t [] [] (i # pe) A)"
proof -
  have f: "fixable t [] []" and st: "fo_start (fr_fixout t) = 1"
      "fo_cnt (fr_fixout t) + fo_num (fr_fixout t) = int (length (i # pe))" and r: "ready t [] (i # pe)"
    and c: "ls_cnt (fr_list t) = 0" "ls_lasthigh (fr_list t) = 0"
    using b c0 begun_empty(3) [OF b c0] by (simp_all add: begun_def)
  have i: "i < length (fr_events t)" and hl: "high (fr_events t) i \<or> low (fr_events t) i"
    and lt: "set pe \<subseteq> {..<length (fr_events t)}"
    using r by (auto simp: ready_def)
  define t1 where "t1 = t\<lparr>fr_list := (fr_list t)\<lparr>ls_first := Some i\<rparr>\<rparr>"
  define t2 where "t2 = t1\<lparr>fr_list := (fr_list t1)\<lparr>ls_last := Some i\<rparr>\<rparr>"
  define t3 where "t3 = upd i (\<lambda>e. e\<lparr>ev_owner := ET_SYS\<rparr>) t2"
  define t4 where "t4 = (if high (fr_events t) i then t3\<lparr>fr_list := (fr_list t3)\<lparr>ls_lasthigh := 1\<rparr>\<rparr> else t3)"
  define t5 where "t5 = t4\<lparr>fr_list := (fr_list t4)\<lparr>ls_cnt := ls_cnt (fr_list t4) + 1\<rparr>\<rparr>"
  note defs = t5_def t4_def t3_def t2_def t1_def
  have k3: "keeps A {i} t u" if "fr_events u = fr_events t3" for u
  proof -
    have "keeps A {i} t2 t3" unfolding t3_def by (rule keeps_upd_owner) simp
    moreover have "keeps A {i} t t2" by (simp add: t2_def t1_def)
    ultimately have "keeps A {i} t t3" by (rule keeps_trans [rotated])
    then show ?thesis using that by (simp add: keeps_def)
  qed
  have P: "partly t [] [] (i # pe) A u"
    if "ls_cnt (fr_list u) = 0" "ls_first (fr_list u) = Some i" "fr_fixout u = fr_fixout t"
      "fr_events u = fr_events t \<or> fr_events u = fr_events t3" for u
  proof (rule partly_one [OF _ that(1,2)])
    show "keeps A {i} t u" using that(4) k3 by (auto simp: keeps_def)
    then show "i < length (fr_events u)" using i keeps_length by simp
  qed (use that(3) st hl in auto)
  have I: "partly t [] [] (i # pe) A t1" "partly t [] [] (i # pe) A t2" "partly t [] [] (i # pe) A t3"
      "partly t [] [] (i # pe) A t4"
    by (intro P; use c in \<open>simp add: defs\<close>)+
  have I0: "partly t [] [] (i # pe) A t" using f by (rule partly_0) simp
  have "out_held t5 (highs t5 [i]) (lows t5 [i])"
    by (rule out_held_one) (use c i hl in \<open>auto simp: defs\<close>)
  moreover have "highs t5 [i] = highs t [i]" "lows t5 [i] = lows t [i]" by (simp_all add: defs)
  ultimately have h5: "out_held t5 (highs t [i]) (lows t [i])" by simp
  have k5: "keeps A {i} t t5" by (rule k3) (simp add: defs)
  have e: "set (highs t [i] @ lows t [i]) = insert i (set [])" using hl by auto
  have r5: "ready t5 (highs t [i] @ lows t [i]) pe" by (rule ready_keeps [OF r k5 e])
  have ne: "highs t [i] @ lows t [i] \<noteq> []" using hl by auto
  have lst: "last (highs t [i] @ lows t [i]) = i" "lasthigh_of (highs t [i]) = (if high (fr_events t) i then Some i else None)"
    using hl by (auto simp: lasthigh_of_def)
  have "sound (nwrite_rest pe (Some i) (if high (fr_events t) i then Some i else None)) t5
      (partly t5 (highs t [i]) (lows t [i]) pe A) (written t5 (highs t [i]) (lows t [i]) pe A)"
    using nwrite_rest_sound [OF h5 ne r5, of A] c st A lst by (auto simp: defs)
  then have "sound (nwrite_rest pe (Some i) (if high (fr_events t) i then Some i else None)) t5
      (partly t [] [] (i # pe) A) (written t [] [] (i # pe) A)"
  proof (rule sound_mono)
    show "partly t [] [] (i # pe) A u" if "partly t5 (highs t [i]) (lows t [i]) pe A u" for u
      using partly_Cons [of t5 "[]" t i "[]", OF _ k5 lt] that by simp
    show "written t [] [] (i # pe) A x u" if w: "written t5 (highs t [i]) (lows t [i]) pe A x u" for x u
    proof -
      have "keeps A (set (i # pe)) t u"
        by (rule keeps_trans [OF keeps_mono [OF k5] keeps_mono]) (use w in \<open>auto simp: written_def\<close>)
      then show ?thesis
        using w highs_keeps [OF k5 lt] lows_keeps [OF k5 lt] by (auto simp: written_def defs split: if_splits)
    qed
  qed
  then show ?thesis
    using I I0 i
    by (simp add: put_first_def put_last_def put_owner_def put_lasthigh_def add_cnt_def high_def defs split: if_splits)
qed

lemma nwrite_sound:
  assumes h: "out_held s hs ls" and r: "ready s (hs @ ls) pe" and st: "fo_start (fr_fixout s) = 0"
    and A: "set (hs @ ls @ pe) \<subseteq> A" and room: "int (length pe) \<le> most - ls_cnt (fr_list s)"
  shows "sound (nwrite_prog most pe) s (partly s hs ls pe A) (written s hs ls pe A)"
proof (cases pe)
  case Nil
  have "fixable s hs ls" using h st by (simp add: fixable_def)
  then show ?thesis using h st Nil by (auto simp: nwrite_prog_def written_def intro: partly_0)
next
  case (Cons i rest)
  let ?prog = "Get (\<lambda>s.
    if ls_cnt (fr_list s) = 0 then
      put_first (Some i) (put_last (Some i) (put_owner (Some i) ET_SYS (ask (ev_at (Some i)) (\<lambda>e.
        if ev_priority e = ET_HIGH then put_lasthigh 1 (add_cnt 1 (nwrite_rest rest (Some i) (Some i)))
        else add_cnt 1 (nwrite_rest rest (Some i) None)))))
    else ask find_lasthigh (\<lambda>h. nwrite_rest pe (ls_last (fr_list s)) h))"
  have "sound (note_write (int (length pe)) ?prog) s (partly s hs ls pe A) (written s hs ls pe A)"
  proof (rule note_write_partly [OF h r st])
    fix t assume b: "begun t hs ls pe"
    show "sound ?prog t (partly t hs ls pe A) (written t hs ls pe A)"
      using begun_find [OF b _ A] begun_empty [OF b] nwrite_first_sound [of t i rest A] b Cons A
      by (cases "ls_cnt (fr_list t) = 0") (simp_all del: nwrite_rest.simps)
  qed (simp add: Cons)
  then show ?thesis
    using room unfolding Cons by (simp add: nwrite_prog_def del: nwrite_rest.simps)
qed

lemma write_first_sound:
  assumes b: "begun t [] [] [i]" and c0: "ls_cnt (fr_list t) = 0"
  shows "sound (put_first (Some i) (put_last (Some i) (ask (ev_at (Some i)) (\<lambda>e.
      if ev_priority e = ET_HIGH then put_lasthigh 1 (put_owner (Some i) ET_SYS (add_cnt 1 end_write))
      else put_owner (Some i) ET_SYS (add_cnt 1 end_write))))) t (partly t [] [] [i] A) (written t [] [] [i] A)"
proof -
  have f: "fixable t [] []" and st: "fo_start (fr_fixout t) = 1" "fo_cnt (fr_fixout t) + fo_num (fr_fixout t) = 1"
    and i: "i < length (fr_events t)" and hl: "high (fr_events t) i \<or> low (fr_events t) i"
    and c: "ls_cnt (fr_list t) = 0" "ls_lasthigh (fr_list t) = 0"
    using b c0 begun_empty(3) [OF b c0] by (auto simp: begun_def ready_def)
  define t1 where "t1 = t\<lparr>fr_list := (fr_list t)\<lparr>ls_first := Some i\<rparr>\<rparr>"
  define t2 where "t2 = t1\<lparr>fr_list := (fr_list t1)\<lparr>ls_last := Some i\<rparr>\<rparr>"
  define t3 where "t3 = (if high (fr_events t) i then t2\<lparr>fr_list := (fr_list t2)\<lparr>ls_lasthigh := 1\<rparr>\<rparr> else t2)"
  define t4 where "t4 = upd i (\<lambda>e. e\<lparr>ev_owner := ET_SYS\<rparr>) t3"
  define t5 where "t5 = t4\<lparr>fr_list := (fr_list t4)\<lparr>ls_cnt := ls_cnt (fr_list t4) + 1\<rparr>\<rparr>"
  note defs = t5_def t4_def t3_def t2_def t1_def
  have k4: "keeps A {i} t u" if "fr_events u = fr_events t4" for u
  proof -
    have "keeps A {i} t3 t4" unfolding t4_def by (rule keeps_upd_owner) simp
    moreover have "keeps A {i} t t3" by (simp add: t3_def t2_def t1_def)
    ultimately have "keeps A {i} t t4" by (rule keeps_trans [rotated])
    then show ?thesis using that by (simp add: keeps_def)
  qed
  have P: "partly t [] [] [i] A u"
    if "ls_cnt (fr_list u) = 0" "ls_first (fr_list u) = Some i" "fr_fixout u = fr_fixout t"
      "fr_events u = fr_events t \<or> fr_events u = fr_events t4" for u
  proof (rule partly_one [OF _ that(1,2)])
    show "keeps A {i} t u" using that(4) k4 by (auto simp: keeps_def)
    then show "i < length (fr_events u)" using i keeps_length by simp
  qed (use that(3) st hl in auto)
  have I: "partly t [] [] [i] A t1" "partly t [] [] [i] A t2" "partly t [] [] [i] A t3" "partly t [] [] [i] A t4"
    by (intro P; use c in \<open>simp add: defs\<close>)+
  have I0: "partly t [] [] [i] A t" using f by (rule partly_0) simp
  have "out_held t5 (highs t5 [i]) (lows t5 [i])"
    by (rule out_held_one) (use c i hl in \<open>auto simp: defs\<close>)
  moreover have e: "highs t5 [i] = highs t [i]" "lows t5 [i] = lows t [i]" by (simp_all add: defs)
  ultimately have h5: "out_held t5 (highs t [i]) (lows t [i])" by simp
  have k5: "keeps A {i} t t5" by (rule k4) (simp add: defs)
  have "sound end_write t5 (partly t5 (highs t [i]) (lows t [i]) [] A) (written t5 (highs t [i]) (lows t [i]) [] A)"
    by (rule end_write_sound [OF h5]) (use st c in \<open>simp_all add: defs\<close>)
  then have "sound end_write t5 (partly t [] [] [i] A) (written t [] [] [i] A)"
  proof (rule sound_mono)
    show "partly t [] [] [i] A u" if "partly t5 (highs t [i]) (lows t [i]) [] A u" for u
      using partly_Cons [of t5 "[]" t i "[]" "[]", OF _ k5] that by simp
    show "written t [] [] [i] A x u" if w: "written t5 (highs t [i]) (lows t [i]) [] A x u" for x u
    proof -
      have "keeps A {i} t u" by (rule keeps_trans [OF k5 keeps_mono]) (use w in \<open>auto simp: written_def\<close>)
      then show ?thesis using w by (auto simp: written_def defs split: if_splits)
    qed
  qed
  then show ?thesis
    using I I0 i
    by (simp add: put_first_def put_last_def put_owner_def put_lasthigh_def add_cnt_def high_def defs split: if_splits)
qed

lemma write_sound:
  assumes h: "out_held s hs ls" and r: "ready s (hs @ ls) [i]" and st: "fo_start (fr_fixout s) = 0"
    and A: "set (hs @ ls @ [i]) \<subseteq> A" and room: "ls_cnt (fr_list s) < most"
  shows "sound (write_prog most (Some i)) s (partly s hs ls [i] A) (written s hs ls [i] A)"
proof -
  let ?finish = "put_owner (Some i) ET_SYS (add_cnt 1 end_write)"
  let ?prog = "Get (\<lambda>s.
       if ls_cnt (fr_list s) = 0 then
         put_first (Some i) (put_last (Some i) (ask (ev_at (Some i)) (\<lambda>e.
           if ev_priority e = ET_HIGH then put_lasthigh 1 ?finish else ?finish)))
       else ask (ev_at (Some i)) (\<lambda>e.
         if ev_priority e = ET_LOW then put_next (ls_last (fr_list s)) (Some i) (put_last (Some i) ?finish)
         else ask find_lasthigh (\<lambda>h. place_high (Some i) h (ls_last (fr_list s)) (more_high ?finish))))"
  have "sound (note_write (int (length [i])) ?prog) s (partly s hs ls [i] A) (written s hs ls [i] A)"
  proof (rule note_write_partly [OF h r st])
    fix t assume b: "begun t hs ls [i]"
    have i: "i < length (fr_events t)" using b by (simp add: begun_def ready_def)
    show "sound ?prog t (partly t hs ls [i] A) (written t hs ls [i] A)"
      using begun_find [OF b _ A] begun_empty [OF b] write_first_sound [of t i A] b i
      by (cases "ls_cnt (fr_list t) = 0") (simp_all add: Let_def split: if_splits)
  qed simp
  then show ?thesis using room by (simp add: write_prog_def Let_def del: ET_SYS_def ET_LOW_def ET_HIGH_def)
qed

end
