(* ===== verification/EtReadProofs.thy ===== *)
theory EtReadProofs
  imports EtWriteProofs
begin

text \<open>
  Reading from the front of an input list, and repairing one: a reader that is interrupted has taken all of
  its events or none.
\<close>

section \<open>What can be repaired\<close>

definition fixable_in :: "fr \<Rightarrow> nat list \<Rightarrow> bool" where
  "fixable_in s xs = (let x = fr_fixin s; l = fr_list s in
     if fi_first x = None \<or> ls_cnt l = fi_cnt x - fi_num x then held s xs
     else xs \<noteq> [] \<and> distinct xs \<and> linked (fr_events s) xs \<and> fi_first x = Some (hd xs) \<and> ls_last l = Some (last xs))"

lemma fix_all_linked:
  assumes "linked es xs" "distinct xs" "xs \<noteq> []"
  shows "fix_all (Some (hd xs)) (Some (last xs)) c es = Some (c + int (length xs), own xs es)"
  using assms
proof (induction xs arbitrary: c es)
  case (Cons x xs)
  let ?es = "es[x := (es ! x)\<lparr>ev_owner := ET_SYS\<rparr>]"
  have x: "x < length es" using Cons.prems by simp
  show ?case
  proof (cases "xs = []")
    case True
    then show ?thesis using x by (subst fix_all.simps) simp
  next
    case False
    have "linked ?es xs"
      using Cons.prems(1) linked_upd_owner [of es xs "\<lambda>e. e\<lparr>ev_owner := ET_SYS\<rparr>" x] by simp
    note IH = Cons.IH [OF this _ False]
    have "last xs \<in> set xs" using False by simp
    then have "x \<noteq> last xs" using Cons.prems(2) by auto
    then show ?thesis using IH Cons.prems x False by (subst fix_all.simps) simp
  qed
qed simp

lemma held_cong:
  assumes "held s xs" "fr_events t = fr_events s" "ls_cnt (fr_list t) = ls_cnt (fr_list s)"
    "xs \<noteq> [] \<longrightarrow> ls_first (fr_list t) = ls_first (fr_list s) \<and> ls_last (fr_list t) = ls_last (fr_list s)"
  shows "held t xs"
  using assms by (auto simp: held_def owned_def shape_def)

lemma repair_fixable_in:
  assumes f: "fixable_in s xs"
  shows "\<exists>t. et_repair_inputlist s = Some (ET_OK, t) \<and> held t xs \<and> fi_first (fr_fixin t) = None
     \<and> fi_start (fr_fixin t) = fi_start (fr_fixin s) \<and> keeps {} (set xs) s t"
proof -
  let ?l = "fr_list s" and ?x = "fr_fixin s"
  show ?thesis
  proof (cases "fi_first ?x = None \<or> ls_cnt ?l = fi_cnt ?x - fi_num ?x")
    case True
    then have h: "held s xs" using f by (simp add: fixable_in_def)
    then have "held (s\<lparr>fr_fixin := ?x\<lparr>fi_first := None\<rparr>\<rparr>) xs" by (rule held_cong) simp_all
    then show ?thesis using True h by (cases "fi_first ?x = None") (auto simp: et_repair_inputlist_def Let_def)
  next
    case False
    let ?es = "own xs (fr_events s)"
    let ?t = "s\<lparr>fr_events := ?es, fr_list := ?l\<lparr>ls_first := fi_first ?x, ls_cnt := int (length xs)\<rparr>,
                fr_fixin := ?x\<lparr>fi_first := None\<rparr>\<rparr>"
    have w: "xs \<noteq> []" "distinct xs" "linked (fr_events s) xs" "fi_first ?x = Some (hd xs)" "ls_last ?l = Some (last xs)"
      using f False by (auto simp: fixable_in_def Let_def)
    have "et_repair_inputlist s = Some (ET_OK, ?t)"
      using False fix_all_linked [OF w(3,2,1), of 0] w(4,5) by (auto simp: et_repair_inputlist_def Let_def)
    moreover have "owned ?t xs" using linked_lt [OF w(3)] by (auto simp: owned_def own_nth)
    then have "held ?t xs" using w linked_own [OF w(3), of xs] by (simp add: held_def shape_def)
    moreover have "keeps {} (set xs) s ?t" using keeps_own [of xs "set xs" "{}" s] by simp
    ultimately show ?thesis by auto
  qed
qed

section \<open>Reading\<close>

definition owned_by :: "int \<Rightarrow> fr \<Rightarrow> nat list \<Rightarrow> bool" where
  "owned_by att s xs = (\<forall>i\<in>set xs. ev_owner (fr_events s ! i) = att)"

text \<open>All or nothing.\<close>

definition unread :: "int \<Rightarrow> fr \<Rightarrow> nat list \<Rightarrow> nat \<Rightarrow> fr \<Rightarrow> bool" where
  "unread att s xs n t = (keeps {} (set (take n xs)) s t \<and> fi_start (fr_fixin t) = fi_start (fr_fixin s) \<and>
     (fixable_in t xs \<or> fixable_in t (drop n xs) \<and> owned_by att t (take n xs)))"

definition taken :: "int \<Rightarrow> fr \<Rightarrow> nat list \<Rightarrow> nat \<Rightarrow> fr \<Rightarrow> bool" where
  "taken att s xs n t = (keeps {} (set (take n xs)) s t \<and> held t (drop n xs) \<and> owned_by att t (take n xs)
     \<and> fi_first (fr_fixin t) = None \<and> fi_start (fr_fixin t) = fi_start (fr_fixin s) \<and> fr_fixout t = fr_fixout s)"

lemma held_first:
  "held s xs \<Longrightarrow> xs \<noteq> [] \<Longrightarrow> ls_first (fr_list s) = Some (hd xs) \<and> ls_last (fr_list s) = Some (last xs)
     \<and> linked (fr_events s) xs \<and> distinct xs"
  by (auto simp: held_def shape_def)

lemma linked_drop: "linked es xs \<Longrightarrow> linked es (drop n xs)"
  by (metis append_take_drop_id linked_append)

text \<open>While the events are marked: the list is as it was, the owners of the first \<open>k\<close> are changed.\<close>

definition marking :: "int \<Rightarrow> fr \<Rightarrow> nat list \<Rightarrow> nat \<Rightarrow> nat \<Rightarrow> fr \<Rightarrow> bool" where
  "marking att s xs n k t = (keeps {} (set (take k xs)) s t \<and> owned_by att t (take k xs) \<and> fr_list t = fr_list s
     \<and> fi_first (fr_fixin t) = Some (hd xs) \<and> fi_cnt (fr_fixin t) = int (length xs) \<and> fi_num (fr_fixin t) = int n
     \<and> fi_start (fr_fixin t) = fi_start (fr_fixin s) \<and> fr_fixout t = fr_fixout s)"

lemma linked_keeps: "linked (fr_events s) xs \<Longrightarrow> keeps {} B s t \<Longrightarrow> linked (fr_events t) xs"
proof (rule linked_cong)
  assume l: "linked (fr_events s) xs" and k: "keeps {} B s t"
  show "length (fr_events t) = length (fr_events s)" by (rule keeps_length [OF k])
  fix i assume "i \<in> set (butlast xs)"
  then have "i < length (fr_events s)" using linked_lt [OF l] by (auto dest: in_set_butlastD)
  then show "ev_next (fr_events t ! i) = ev_next (fr_events s ! i)" using k by (simp add: keeps_def)
qed

lemma marking_unread:
  assumes "held s xs" "marking att s xs n k t" "0 < n" "k \<le> n" "xs \<noteq> []"
  shows "unread att s xs n t"
proof -
  have "set (take k xs) \<subseteq> set (take n xs)" by (rule set_take_subset_set_take [OF assms(4)])
  then have "keeps {} (set (take n xs)) s t"
    using assms(2) keeps_mono [of "{}" "set (take k xs)" s t "{}"] by (simp add: marking_def)
  moreover have "fixable_in t xs"
    using assms held_first [OF assms(1,5)] linked_keeps [of s xs "set (take k xs)" t]
    by (auto simp: fixable_in_def marking_def held_def Let_def)
  ultimately show ?thesis using assms(2) by (simp add: unread_def marking_def)
qed

lemma marking_step:
  assumes m: "marking att s xs n k t" and k: "k < length xs" and d: "distinct xs" and l: "linked (fr_events s) xs"
  shows "marking att s xs n (Suc k) (upd (xs ! k) (\<lambda>e. e\<lparr>ev_owner := att\<rparr>) t)"
proof -
  have e: "take (Suc k) xs = take k xs @ [xs ! k]" using k by (rule take_Suc_conv_app_nth)
  have "keeps {} (set (take (Suc k) xs)) s (upd (xs ! k) (\<lambda>e. e\<lparr>ev_owner := att\<rparr>) t)"
    by (rule keeps_trans [OF keeps_mono keeps_upd_owner]) (use m e in \<open>auto simp: marking_def\<close>)
  moreover have "length (fr_events t) = length (fr_events s)" using m by (auto simp: marking_def keeps_length)
  then have "xs ! k < length (fr_events t)" using linked_lt [OF l nth_mem [OF k]] by simp
  ultimately show ?thesis using m by (auto simp: e marking_def owned_by_def nth_upd)
qed

lemma read_end_sound:
  assumes h: "held s xs" and m: "marking att s xs n n t" and n: "0 < n" "n \<le> length xs"
  shows "sound (ask (ev_at (Some (xs ! (n - 1)))) (\<lambda>e. put_first (ev_next e) (add_cnt (- int n) (end_read x)))) t
           (unread att s xs n) (\<lambda>y t. y = x \<and> taken att s xs n t)"
proof -
  have ne: "xs \<noteq> []" using n by auto
  note f = held_first [OF h ne]
  have c: "ls_cnt (fr_list s) = int (length xs)" using h by (simp add: held_def)
  have k: "keeps {} (set (take n xs)) s t" and lt: "linked (fr_events t) xs"
    using m f linked_keeps by (auto simp: marking_def)
  have j: "n - 1 < length xs" using n by simp
  have i: "xs ! (n - 1) < length (fr_events t)" using linked_lt [OF lt nth_mem [OF j]] .
  define q where "q = ev_next (fr_events t ! (xs ! (n - 1)))"
  define t1 where "t1 = t\<lparr>fr_list := (fr_list t)\<lparr>ls_first := q\<rparr>\<rparr>"
  define t2 where "t2 = t1\<lparr>fr_list := (fr_list t1)\<lparr>ls_cnt := ls_cnt (fr_list t1) - int n\<rparr>\<rparr>"
  define t3 where "t3 = t2\<lparr>fr_fixin := (fr_fixin t2)\<lparr>fi_first := None\<rparr>\<rparr>"
  note defs = t3_def t2_def t1_def
  have I0: "unread att s xs n t" by (rule marking_unread [OF h m n(1) order_refl ne])
  have I1: "unread att s xs n t1"
    using k lt f n m by (auto simp: unread_def t1_def fixable_in_def Let_def marking_def c)
  have q: "q = Some (hd (drop n xs))" if "drop n xs \<noteq> []"
  proof -
    have t: "take n xs \<noteq> []" using n ne by simp
    moreover have "last (take n xs) = xs ! (n - 1)" using n last_conv_nth [OF t] by (simp add: min_def)
    moreover have "linked (fr_events t) (take n xs @ drop n xs)" using lt by simp
    ultimately show ?thesis using that unfolding q_def linked_append by simp
  qed
  have "held t2 (drop n xs)"
  proof -
    have "set (take n xs) \<inter> set (drop n xs) = {}" using f set_take_disj_set_drop_if_distinct by blast
    then have "owned t (drop n xs)"
      using h k linked_lt [of "fr_events s" xs] f
      unfolding owned_def keeps_def held_def by (metis disjoint_iff in_set_dropD)
    moreover have "shape t2 (drop n xs)" if "drop n xs \<noteq> []"
      using that q [OF that] f m linked_drop [OF lt] by (simp add: shape_def defs marking_def)
    ultimately show ?thesis using m n c by (auto simp: held_def defs owned_def marking_def)
  qed
  then have h2: "held t2 (drop n xs)" "held t3 (drop n xs)" by (auto simp: t3_def elim: held_cong)
  have o: "owned_by att t2 (take n xs)" "owned_by att t3 (take n xs)"
    using m by (simp_all add: marking_def owned_by_def defs)
  have "fixable_in t2 (drop n xs)" "fixable_in t3 (drop n xs)"
    using h2 m c by (auto simp: fixable_in_def Let_def defs marking_def)
  then have "unread att s xs n t2" "unread att s xs n t3" using k o m by (auto simp: unread_def defs marking_def)
  moreover have "taken att s xs n t3" using k h2 o m by (auto simp: taken_def defs marking_def)
  ultimately show ?thesis
    using I0 I1 i by (simp add: put_first_def add_cnt_def end_read_def q_def t1_def t2_def t3_def)
qed


lemma nread_rest_sound:
  assumes h: "held s xs" and d: "distinct xs" "linked (fr_events s) xs"
    and m: "marking att s xs (k + Suc n) (Suc k) t" and b: "k + Suc n \<le> length xs"
  shows "sound (nread_rest att n (rev (take k xs)) (xs ! k)) t (unread att s xs (k + Suc n))
           (\<lambda>x t. x = take (k + Suc n) xs \<and> taken att s xs (k + Suc n) t)"
  using m b
proof (induction n arbitrary: k t)
  case 0
  have "Suc (length (rev (take k xs))) = Suc k" "rev (xs ! k # rev (take k xs)) = take (Suc k) xs"
    using 0 by (simp_all add: take_Suc_conv_app_nth)
  then show ?case
    using read_end_sound [OF h, of att "Suc k" t "take (Suc k) xs"] 0 by simp
next
  case (Suc n)
  have k: "Suc k < length xs" using Suc.prems(2) by simp
  have ne: "xs \<noteq> []" using k by auto
  have lt: "linked (fr_events t) xs" using Suc.prems(1) linked_keeps [OF d(2)] by (auto simp: marking_def)
  have len: "length (fr_events t) = length (fr_events s)" using Suc.prems(1) by (auto simp: marking_def keeps_length)
  have "xs ! k \<in> set xs" "xs ! Suc k \<in> set xs" using k by auto
  then have i: "xs ! k < length (fr_events t)" "xs ! Suc k < length (fr_events t)" using linked_lt [OF lt] by blast+
  have "linked (fr_events t) (drop k xs)" by (rule linked_drop [OF lt])
  moreover have "drop k xs = xs ! k # xs ! Suc k # drop (Suc (Suc k)) xs"
    using k by (simp add: Cons_nth_drop_Suc)
  ultimately have nx: "ev_next (fr_events t ! (xs ! k)) = Some (xs ! Suc k)" by simp
  have r: "rev (take (Suc k) xs) = xs ! k # rev (take k xs)" using k by (simp add: take_Suc_conv_app_nth)
  have "marking att s xs (Suc k + Suc n) (Suc (Suc k)) (upd (xs ! Suc k) (\<lambda>e. e\<lparr>ev_owner := att\<rparr>) t)"
    using marking_step [OF _ k d] Suc.prems(1) by simp
  from Suc.IH [OF this] have
    "sound (nread_rest att n (rev (take (Suc k) xs)) (xs ! Suc k)) (upd (xs ! Suc k) (\<lambda>e. e\<lparr>ev_owner := att\<rparr>) t)
       (unread att s xs (Suc k + Suc n)) (\<lambda>x t. x = take (Suc k + Suc n) xs \<and> taken att s xs (Suc k + Suc n) t)"
    using Suc.prems(2) by simp
  moreover have "unread att s xs (k + Suc (Suc n)) t"
    by (rule marking_unread [OF h Suc.prems(1)]) (use ne in simp_all)
  ultimately show ?case using i nx r by (simp add: put_owner_def)
qed

text \<open>The whole of \<^verbatim>\<open>et_station_nread\<close> and \<^verbatim>\<open>et_station_read\<close> between locking and unlocking.\<close>

lemma nread_sound:
  assumes h: "held s xs" and ne: "xs \<noteq> []" and f: "fi_first (fr_fixin s) = None" and n: "0 < num"
  shows "sound (nread_prog att num) s (unread att s xs (nat num)) (\<lambda>x t. x = take (nat num) xs \<and> taken att s xs (nat num) t)"
proof -
  note h1 = held_first [OF h ne]
  have c: "ls_cnt (fr_list s) = int (length xs)" using h by (simp add: held_def)
  define m where "m = nat (min num (ls_cnt (fr_list s)))"
  have m: "min num (ls_cnt (fr_list s)) = int m" "0 < m" "m \<le> length xs" "take (nat num) xs = take m xs" "drop (nat num) xs = drop m xs"
    using n c ne by (auto simp: m_def min_def nat_less_iff le_nat_iff)
  have e: "unread att s xs (nat num) = unread att s xs m" "taken att s xs (nat num) = taken att s xs m"
    using m(4,5) by (auto simp: unread_def taken_def fun_eq_iff)
  obtain k where k: "m = Suc k" using m(2) by (cases m) auto
  have kk: "nat (1 + int k) - Suc 0 = k" by (simp add: nat_add_distrib)
  define s1 where "s1 = s\<lparr>fr_fixin := (fr_fixin s)\<lparr>fi_num := int m\<rparr>\<rparr>"
  define s2 where "s2 = s1\<lparr>fr_fixin := (fr_fixin s1)\<lparr>fi_cnt := ls_cnt (fr_list s)\<rparr>\<rparr>"
  define s3 where "s3 = s2\<lparr>fr_fixin := (fr_fixin s2)\<lparr>fi_call := ET_FIX_READ\<rparr>\<rparr>"
  define s4 where "s4 = s3\<lparr>fr_fixin := (fr_fixin s3)\<lparr>fi_first := ls_first (fr_list s)\<rparr>\<rparr>"
  define s5 where "s5 = upd (hd xs) (\<lambda>e. e\<lparr>ev_owner := att\<rparr>) s4"
  note defs = s5_def s4_def s3_def s2_def s1_def
  have u: "unread att s xs m t" if "fr_events t = fr_events s" "fr_list t = fr_list s" "fi_first (fr_fixin t) = None"
      "fi_start (fr_fixin t) = fi_start (fr_fixin s)" for t
    using held_cong [OF h, of t] that by (simp add: unread_def fixable_in_def keeps_def)
  have I: "unread att s xs m s" "unread att s xs m s1" "unread att s xs m s2" "unread att s xs m s3"
    by (rule u; use f in \<open>simp add: defs\<close>)+
  have m4: "marking att s xs m 0 s4" using h1 c by (simp add: marking_def owned_by_def defs)
  then have I4: "unread att s xs m s4" by (intro marking_unread [OF h _ m(2) _ ne]) auto
  have "xs ! 0 = hd xs" using ne by (simp add: hd_conv_nth)
  then have "marking att s xs m (Suc 0) s5"
    using marking_step [OF m4 _ h1 [THEN conjunct2, THEN conjunct2, THEN conjunct2] h1 [THEN conjunct2, THEN conjunct2, THEN conjunct1]] ne
    by (simp add: s5_def)
  then have "sound (nread_rest att k [] (hd xs)) s5 (unread att s xs m) (\<lambda>x t. x = take m xs \<and> taken att s xs m t)"
    using nread_rest_sound [OF h, of att 0 k s5] h1 m(3) ne by (simp add: k hd_conv_nth)
  moreover have "hd xs < length (fr_events s)" using h1 linked_lt [of "fr_events s" xs "hd xs"] ne by simp
  ultimately show ?thesis
    using I I4 h1 m(1) k
    by (simp add: nread_prog_def note_nread_def put_owner_def e m(4) defs Let_def kk)
qed

lemma read_sound:
  assumes h: "held s xs" and ne: "xs \<noteq> []" and f: "fi_first (fr_fixin s) = None"
  shows "sound (read_prog att) s (unread att s xs 1) (\<lambda>x t. x = Some (hd xs) \<and> taken att s xs 1 t)"
proof -
  note h1 = held_first [OF h ne]
  have c: "ls_cnt (fr_list s) = int (length xs)" using h by (simp add: held_def)
  obtain i ys where xs: "xs = i # ys" using ne by (cases xs) auto
  define s1 where "s1 = s\<lparr>fr_fixin := (fr_fixin s)\<lparr>fi_cnt := ls_cnt (fr_list s)\<rparr>\<rparr>"
  define s2 where "s2 = s1\<lparr>fr_fixin := (fr_fixin s1)\<lparr>fi_num := 1\<rparr>\<rparr>"
  define s3 where "s3 = s2\<lparr>fr_fixin := (fr_fixin s2)\<lparr>fi_call := ET_FIX_READ\<rparr>\<rparr>"
  define s4 where "s4 = s3\<lparr>fr_fixin := (fr_fixin s3)\<lparr>fi_first := ls_first (fr_list s)\<rparr>\<rparr>"
  define s5 where "s5 = s4\<lparr>fr_list := (fr_list s4)\<lparr>ls_first := ev_next (fr_events s4 ! i)\<rparr>\<rparr>"
  define s6 where "s6 = upd i (\<lambda>e. e\<lparr>ev_owner := att\<rparr>) s5"
  define s7 where "s7 = s6\<lparr>fr_list := (fr_list s6)\<lparr>ls_cnt := ls_cnt (fr_list s6) - 1\<rparr>\<rparr>"
  define s8 where "s8 = s7\<lparr>fr_fixin := (fr_fixin s7)\<lparr>fi_first := None\<rparr>\<rparr>"
  note defs = s8_def s7_def s6_def s5_def s4_def s3_def s2_def s1_def
  have i: "i < length (fr_events s)" using h1 xs by simp
  have u: "unread att s xs 1 t" if "fr_events t = fr_events s" "fr_list t = fr_list s" "fi_first (fr_fixin t) = None"
      "fi_start (fr_fixin t) = fi_start (fr_fixin s)" for t
    using held_cong [OF h, of t] that by (simp add: unread_def fixable_in_def keeps_def)
  have I: "unread att s xs 1 s" "unread att s xs 1 s1" "unread att s xs 1 s2" "unread att s xs 1 s3"
    by (rule u; use f in \<open>simp add: defs\<close>)+
  have k6: "keeps {} (set (take 1 xs)) s s6"
    unfolding s6_def by (rule keeps_trans [OF _ keeps_upd_owner]) (simp_all add: xs defs)
  have l6: "linked (fr_events s6) xs" by (rule linked_keeps [OF _ k6]) (use h1 in simp)
  have I4: "unread att s xs 1 t"
    if "fr_events t = fr_events s \<or> fr_events t = fr_events s6" "fr_fixin t = fr_fixin s4" "ls_last (fr_list t) = ls_last (fr_list s)"
      "ls_cnt (fr_list t) = ls_cnt (fr_list s)" for t
  proof -
    have "keeps {} (set (take 1 xs)) s t" using that(1) k6 by (auto simp: keeps_def)
    then show ?thesis using that h1 l6 xs by (auto simp: unread_def fixable_in_def Let_def defs)
  qed
  have I456: "unread att s xs 1 s4" "unread att s xs 1 s5" "unread att s xs 1 s6"
    by (rule I4; simp add: defs)+
  have "held s7 ys"
  proof -
    have "owned s7 ys" using h1 h by (auto simp: owned_def held_def defs nth_upd xs)
    moreover have "shape s7 ys" if "ys \<noteq> []" using that h1 l6 by (simp add: shape_def xs defs)
    ultimately show ?thesis using c by (simp add: held_def xs defs)
  qed
  moreover from this have "held s8 ys" by (rule held_cong) (simp_all add: s8_def)
  moreover have "owned_by att s7 [i]" "owned_by att s8 [i]" using i by (simp_all add: owned_by_def defs)
  ultimately have "unread att s xs 1 s7" "unread att s xs 1 s8" "taken att s xs 1 s8"
    using k6 c by (simp_all add: unread_def taken_def fixable_in_def xs s8_def s7_def Let_def) (simp_all add: defs)
  then show ?thesis
    using I I456 h1 i xs
    by (simp add: read_prog_def note_read_def put_first_def put_owner_def add_cnt_def end_read_def defs Let_def)
qed

end
