(* ===== verification/EtDumpProofs.thy ===== *)
theory EtDumpProofs
  imports EtReadProofs
begin

text \<open>
  Dumping events into the input list of Grand Central, where priorities do not count, and repairing it.
  The same tail insertion serves \<^verbatim>\<open>et_station_nwriteNoPri\<close>.
\<close>

section \<open>What can be repaired\<close>

definition fixable_gc :: "fr \<Rightarrow> nat list \<Rightarrow> bool" where
  "fixable_gc s xs = (let x = fr_fixin s; l = fr_list s; total = fi_cnt x + fi_num x in
     if fi_start x = 0 \<or> ls_cnt l = total then held s xs
     else if ls_cnt l = 0 \<and> ls_first l = None then xs = []
     else if ls_cnt l = 0 then (\<exists>i < length (fr_events s). xs = [i] \<and> ls_first l = Some i) \<and> total > 0
     else shape s xs \<and> int (length xs) \<le> total)"

lemma held_nil: "held s [] = (ls_cnt (fr_list s) = 0)"
  by (auto simp: held_def owned_def)

lemma repair_fixable_gc:
  assumes f: "fixable_gc s xs"
  shows "\<exists>t. et_repair_gcinputlist s = Some (ET_OK, t) \<and> held t xs \<and> fi_start (fr_fixin t) = 0
     \<and> fi_first (fr_fixin t) = fi_first (fr_fixin s) \<and> keeps {} (set xs) s t"
proof -
  let ?l = "fr_list s" and ?x = "fr_fixin s"
  let ?total = "fi_cnt ?x + fi_num ?x"
  show ?thesis
  proof (cases "fi_start ?x = 0 \<or> ls_cnt ?l = ?total \<or> ls_cnt ?l = 0 \<and> ls_first ?l = None")
    case True
    then have h: "held s xs" using f by (auto simp: fixable_gc_def held_nil Let_def split: if_splits)
    have "held (s\<lparr>fr_fixin := ?x\<lparr>fi_start := 0\<rparr>\<rparr>) xs" by (rule held_cong [OF h]) simp_all
    then show ?thesis using True h by (cases "fi_start ?x = 0") (auto simp: et_repair_gcinputlist_def Let_def)
  next
    case False
    let ?l' = "(if ls_cnt ?l = 0 then ?l\<lparr>ls_last := ls_first ?l\<rparr> else ?l)"
    let ?es = "own xs (fr_events s)"
    have w: "xs \<noteq> []" "distinct xs" "linked (fr_events s) xs" "ls_first ?l' = Some (hd xs)" "ls_last ?l' = Some (last xs)"
        "length xs \<le> nat ?total"
      using f False by (auto simp: fixable_gc_def shape_def Let_def split: if_splits)
    define t where "t = s\<lparr>fr_events := ?es,
        fr_list := ?l'\<lparr>ls_cnt := int (length xs),
          ls_in := (if fi_eventsin ?x = ls_in ?l' then ls_in ?l' + word_of_int (int (length xs) - fi_cnt ?x) else ls_in ?l')\<rparr>,
        fr_fixin := ?x\<lparr>fi_start := 0\<rparr>\<rparr>"
    have r: "et_repair_gcinputlist s = Some (ET_OK, t)"
      using False fix_walk_linked [OF w(3,2,1,6), of 0 0] w(4,5)
      by (auto simp: et_repair_gcinputlist_def Let_def t_def split: if_splits)
    have t: "fr_events t = ?es" "ls_cnt (fr_list t) = int (length xs)"
        "ls_first (fr_list t) = ls_first ?l'" "ls_last (fr_list t) = ls_last ?l'" "fi_start (fr_fixin t) = 0" "fi_first (fr_fixin t) = fi_first ?x"
      by (simp_all add: t_def del: if_split)
    have "owned t xs" using linked_lt [OF w(3)] t(1) by (auto simp: owned_def own_nth)
    then have "held t xs" using w t linked_own [OF w(3), of xs] by (simp add: held_def shape_def)
    moreover have "keeps {} (set xs) s t" using keeps_own [of xs "set xs" "{}" s] t(1) by (simp add: keeps_def)
    ultimately show ?thesis using r t(5,6) by auto
  qed
qed

section \<open>Dumping\<close>

definition tail_mid :: "fr \<Rightarrow> fr \<Rightarrow> nat list \<Rightarrow> bool" where
  "tail_mid s t xs = (noted s t \<and> ls_cnt (fr_list t) = ls_cnt (fr_list s) \<and> shape t xs)"

lemma tail_finish:
  assumes m: "tail_mid s t (xs @ [i])" and k: "keeps A {i} s t" and h: "held s xs" and i: "i \<notin> set xs"
    and I: "\<And>u. tail_mid s u (xs @ [i]) \<Longrightarrow> keeps A {i} s u \<Longrightarrow> I u"
    and rest: "\<And>u. noted s u \<Longrightarrow> held u (xs @ [i]) \<Longrightarrow> keeps A {i} s u \<Longrightarrow> sound p u I Q"
  shows "sound (put_owner (Some i) ET_SYS (add_cnt 1 p)) t I Q"
proof -
  let ?t = "upd i (\<lambda>e. e\<lparr>ev_owner := ET_SYS\<rparr>) t"
  let ?u = "?t\<lparr>fr_list := (fr_list ?t)\<lparr>ls_cnt := ls_cnt (fr_list ?t) + 1\<rparr>\<rparr>"
  have sh: "shape t (xs @ [i])" using m by (simp add: tail_mid_def)
  note lt = shape_lt [OF sh]
  have k1: "keeps A {i} s ?t" using keeps_trans [OF k keeps_upd_owner] by simp
  have sh1: "shape ?t (xs @ [i])"
    using sh linked_upd_owner [of "fr_events t" "xs @ [i]" "\<lambda>e. e\<lparr>ev_owner := ET_SYS\<rparr>" i] by (simp add: shape_def)
  have m1: "tail_mid s ?t (xs @ [i])" using m sh1 by (simp add: tail_mid_def noted_def)
  have o: "owned ?t (xs @ [i])"
    using k1 keeps_length [OF k] h i lt by (auto simp: owned_def keeps_def held_def nth_upd subset_iff)
  have "ls_cnt (fr_list t) = ls_cnt (fr_list s)" "ls_cnt (fr_list s) = int (length xs)"
    using m heldD(1) [OF h] by (simp_all add: tail_mid_def)
  then have "ls_cnt (fr_list ?u) = int (length (xs @ [i]))" by simp
  then have "held ?u (xs @ [i])" using sh1 o unfolding held_def owned_def shape_def by simp
  moreover have "noted s ?u" using m by (simp add: tail_mid_def noted_def)
  ultimately have "sound p ?u I Q" using rest k1 by simp
  then show ?thesis using I [OF m k] I [OF m1 k1] lt by (auto simp: put_owner_def add_cnt_def)
qed

lemma insert_tail:
  assumes h: "held s xs" and ne: "xs \<noteq> []" and i: "i < length (fr_events s)" "i \<notin> set xs"
    and A: "insert i (set xs) \<subseteq> A"
    and I1: "\<And>u. tail_mid s u xs \<Longrightarrow> keeps A {} s u \<Longrightarrow> I u"
    and I2: "\<And>u. tail_mid s u (xs @ [i]) \<Longrightarrow> keeps A {i} s u \<Longrightarrow> I u"
    and rest: "\<And>u. noted s u \<Longrightarrow> held u (xs @ [i]) \<Longrightarrow> keeps A {i} s u \<Longrightarrow> sound p u I Q"
  shows "sound (put_next (Some (last xs)) (Some i) (put_last (Some i) (put_owner (Some i) ET_SYS (add_cnt 1 p)))) s I Q"
proof -
  define s1 where "s1 = upd (last xs) (\<lambda>e. e\<lparr>ev_next := Some i\<rparr>) s"
  define s2 where "s2 = s1\<lparr>fr_list := (fr_list s1)\<lparr>ls_last := Some i\<rparr>\<rparr>"
  note sh = heldD(3) [OF h ne]
  have l: "last xs < length (fr_events s)" "last xs \<in> A" using last_in_set [OF ne] shape_lt [OF sh] A by auto
  have k1: "keeps A B s s1" for B unfolding s1_def by (rule keeps_upd_next) (rule l)
  note sp = shape_push [OF sh i, folded s1_def s2_def]
  have m1: "tail_mid s s1 xs" using sp(1) by (simp add: tail_mid_def noted_def) (simp add: s1_def)
  have m2: "tail_mid s s2 (xs @ [i])" using sp(2) by (simp add: tail_mid_def noted_def s2_def) (simp add: s1_def)
  have k2: "keeps A {i} s s2" using k1 by (simp add: s2_def)
  have "tail_mid s s xs" using sh by (simp add: tail_mid_def noted_def)
  then show ?thesis
    using I1 [OF m1 k1] I1 [OF _ keeps_refl] l tail_finish [OF m2 k2 h i(2) I2 rest]
    by (simp add: put_next_def put_last_def s1_def [symmetric] s2_def)
qed

definition tail_ready :: "fr \<Rightarrow> nat list \<Rightarrow> nat list \<Rightarrow> bool" where
  "tail_ready s xs pe = (distinct pe \<and> set pe \<inter> set xs = {} \<and> set pe \<subseteq> {..<length (fr_events s)})"

text \<open>The notes say that a dump is going on as soon as it matters.\<close>

definition dump_noted :: "fr \<Rightarrow> fr \<Rightarrow> bool" where
  "dump_noted s t = (fi_first (fr_fixin t) = fi_first (fr_fixin s)
     \<and> (fi_start (fr_fixin t) = 0 \<or> fi_call (fr_fixin t) = ET_FIX_DUMP))"

definition partly_gc :: "fr \<Rightarrow> nat list \<Rightarrow> nat list \<Rightarrow> nat set \<Rightarrow> fr \<Rightarrow> bool" where
  "partly_gc s xs pe A t = ((\<exists>k \<le> length pe. fixable_gc t (xs @ take k pe) \<and> keeps A (set (take k pe)) s t)
     \<and> dump_noted s t)"

definition dumped :: "fr \<Rightarrow> nat list \<Rightarrow> nat list \<Rightarrow> nat set \<Rightarrow> int \<Rightarrow> fr \<Rightarrow> bool" where
  "dumped s xs pe A status t = (status = ET_OK \<and> held t (xs @ pe) \<and> keeps A (set pe) s t
     \<and> fi_start (fr_fixin t) = 0 \<and> fi_first (fr_fixin t) = fi_first (fr_fixin s) \<and> fr_fixout t = fr_fixout s)"

lemma partly_gc_0: "fixable_gc t xs \<Longrightarrow> keeps A {} s t \<Longrightarrow> dump_noted s t \<Longrightarrow> partly_gc s xs pe A t"
  by (auto simp: partly_gc_def intro!: exI [of _ 0])

lemma partly_gc_1: "fixable_gc t (xs @ [i]) \<Longrightarrow> keeps A {i} s t \<Longrightarrow> dump_noted s t \<Longrightarrow> partly_gc s xs (i # pe) A t"
  by (auto simp: partly_gc_def intro!: exI [of _ 1])

lemma partly_gc_Cons:
  assumes "partly_gc u (xs @ [i]) pe A t" "keeps A {i} s u" "fi_first (fr_fixin u) = fi_first (fr_fixin s)"
  shows "partly_gc s xs (i # pe) A t"
proof -
  obtain k where k: "k \<le> length pe" "fixable_gc t ((xs @ [i]) @ take k pe)" "keeps A (set (take k pe)) u t"
    using assms(1) unfolding partly_gc_def by blast
  moreover have "keeps A (set (take (Suc k) (i # pe))) s t"
    by (rule keeps_trans [OF keeps_mono [OF assms(2)] keeps_mono [OF k(3)]]) auto
  moreover have "dump_noted s t" using assms(1,3) by (simp add: partly_gc_def dump_noted_def)
  ultimately show ?thesis unfolding partly_gc_def by (intro conjI exI [of _ "Suc k"]) simp_all
qed

lemma dumped_Cons:
  assumes "dumped u (xs @ [i]) pe A x t" "keeps A {i} s u" "fr_fixout u = fr_fixout s" "fi_first (fr_fixin u) = fi_first (fr_fixin s)"
  shows "dumped s xs (i # pe) A x t"
proof -
  have "keeps A (set (i # pe)) s t"
    by (rule keeps_trans [OF keeps_mono [OF assms(2)] keeps_mono]) (use assms(1) in \<open>auto simp: dumped_def\<close>)
  then show ?thesis using assms by (auto simp: dumped_def)
qed

lemma ndump_rest_sound:
  assumes "held s xs" "xs \<noteq> []" "tail_ready s xs pe" "fi_start (fr_fixin s) = 1"
    "ls_cnt (fr_list s) + int (length pe) = fi_cnt (fr_fixin s) + fi_num (fr_fixin s)" "set (xs @ pe) \<subseteq> A"
    "fi_call (fr_fixin s) = ET_FIX_DUMP"
  shows "sound (ndump_rest pe (Some (last xs))) s (partly_gc s xs pe A) (dumped s xs pe A)"
  using assms
proof (induction pe arbitrary: s xs)
  case Nil
  have "fixable_gc s xs" using Nil by (simp add: fixable_gc_def)
  moreover have "held (s\<lparr>fr_fixin := x\<rparr>) xs" for x by (rule held_cong [OF Nil(1)]) simp_all
  ultimately show ?case
    using Nil by (auto simp: end_dump_def dumped_def fixable_gc_def dump_noted_def intro!: partly_gc_0)
next
  case (Cons i pe)
  have i: "i < length (fr_events s)" "i \<notin> set xs" and A: "insert i (set xs) \<subseteq> A"
    using Cons.prems by (auto simp: tail_ready_def)
  have c: "ls_cnt (fr_list s) = int (length xs)" using heldD(1) [OF Cons.prems(1)] .
  have pos: "0 < ls_cnt (fr_list s)" using c Cons.prems(2) by simp
  have fx: "fixable_gc u ys" if "tail_mid s u ys" "length ys \<le> Suc (length xs)" for u ys
    using that Cons.prems(4,5) c pos by (auto simp: tail_mid_def fixable_gc_def noted_def Let_def)
  have "sound (put_next (Some (last xs)) (Some i) (put_last (Some i) (put_owner (Some i) ET_SYS (add_cnt 1
      (ndump_rest pe (Some i)))))) s (partly_gc s xs (i # pe) A) (dumped s xs (i # pe) A)"
  proof (rule insert_tail [OF Cons.prems(1,2) i A])
    show "partly_gc s xs (i # pe) A u" if "tail_mid s u xs" "keeps A {} s u" for u
      by (rule partly_gc_0 [OF fx that(2)]) (use that Cons.prems(7) in \<open>auto simp: tail_mid_def noted_def dump_noted_def\<close>)
    show "partly_gc s xs (i # pe) A u" if "tail_mid s u (xs @ [i])" "keeps A {i} s u" for u
      by (rule partly_gc_1 [OF fx that(2)]) (use that Cons.prems(7) in \<open>auto simp: tail_mid_def noted_def dump_noted_def\<close>)
    fix u assume u: "noted s u" "held u (xs @ [i])" "keeps A {i} s u"
    have "ls_cnt (fr_list u) = ls_cnt (fr_list s) + 1" using heldD(1) [OF u(2)] c by simp
    moreover have "tail_ready u (xs @ [i]) pe"
      using Cons.prems(3) keeps_length [OF u(3)] by (auto simp: tail_ready_def)
    ultimately have "sound (ndump_rest pe (Some (last (xs @ [i])))) u (partly_gc u (xs @ [i]) pe A) (dumped u (xs @ [i]) pe A)"
      by (intro Cons.IH [OF u(2)]) (use Cons.prems(4-7) u(1) in \<open>auto simp: noted_def\<close>)
    then show "sound (ndump_rest pe (Some i)) u (partly_gc s xs (i # pe) A) (dumped s xs (i # pe) A)"
      using partly_gc_Cons [OF _ u(3)] dumped_Cons [OF _ u(3)] u(1)
      by (auto simp: noted_def elim: sound_mono)
  qed
  then show ?case by simp
qed


text \<open>The notes, and an event that goes into the empty list.\<close>

definition begun_gc :: "fr \<Rightarrow> nat list \<Rightarrow> nat list \<Rightarrow> bool" where
  "begun_gc t xs pe = (fixable_gc t xs \<and> held t xs \<and> tail_ready t xs pe \<and> fi_start (fr_fixin t) = 1
     \<and> fi_call (fr_fixin t) = ET_FIX_DUMP
     \<and> ls_cnt (fr_list t) + int (length pe) = fi_cnt (fr_fixin t) + fi_num (fr_fixin t))"

lemma note_dump_partly:
  assumes h: "held s xs" and r: "tail_ready s xs pe" and st: "fi_start (fr_fixin s) = 0" and ne: "pe \<noteq> []"
    and p: "\<And>t. begun_gc t xs pe \<Longrightarrow> sound p t (partly_gc t xs pe A) (dumped t xs pe A)"
  shows "sound (note_dump (int (length pe)) p) s (partly_gc s xs pe A) (dumped s xs pe A)"
proof -
  define s0 where "s0 = s\<lparr>fr_list := (if ls_cnt (fr_list s) = 0 then (fr_list s)\<lparr>ls_first := None\<rparr> else fr_list s)\<rparr>"
  define s1 where "s1 = s0\<lparr>fr_fixin := (fr_fixin s0)\<lparr>fi_eventsin := ls_in (fr_list s)\<rparr>\<rparr>"
  define s2 where "s2 = s1\<lparr>fr_fixin := (fr_fixin s1)\<lparr>fi_cnt := ls_cnt (fr_list s)\<rparr>\<rparr>"
  define s3 where "s3 = s2\<lparr>fr_fixin := (fr_fixin s2)\<lparr>fi_num := int (length pe)\<rparr>\<rparr>"
  define s4 where "s4 = s3\<lparr>fr_fixin := (fr_fixin s3)\<lparr>fi_call := ET_FIX_DUMP\<rparr>\<rparr>"
  define s5 where "s5 = s4\<lparr>fr_fixin := (fr_fixin s4)\<lparr>fi_start := fi_start (fr_fixin s4) + 1\<rparr>\<rparr>"
  note defs = s5_def s4_def s3_def s2_def s1_def s0_def
  have c: "ls_cnt (fr_list s) = int (length xs)" using heldD(1) [OF h] .
  have o: "held t xs" if "fr_events t = fr_events s" "fr_list t = fr_list s0" for t
    by (rule held_cong [OF h]) (use that c in \<open>auto simp: s0_def\<close>)
  have f: "partly_gc s xs pe A t"
    if "fi_start (fr_fixin t) = 0" "fr_events t = fr_events s" "fr_list t = fr_list s0 \<or> t = s"
      "fi_first (fr_fixin t) = fi_first (fr_fixin s)" for t
    using o [of t] that h by (intro partly_gc_0) (auto simp: fixable_gc_def keeps_def dump_noted_def)
  have I: "partly_gc s xs pe A s" "partly_gc s xs pe A s0" "partly_gc s xs pe A s1" "partly_gc s xs pe A s2"
      "partly_gc s xs pe A s3" "partly_gc s xs pe A s4"
    by (rule f; use st in \<open>simp add: defs\<close>)+
  have e5: "fr_events s5 = fr_events s" "fr_list s5 = fr_list s0" by (simp_all add: defs)
  have h5: "held s5 xs" by (rule o [OF e5])
  have "fixable_gc s5 xs"
  proof (cases "xs = []")
    case True
    then show ?thesis using c ne by (auto simp: fixable_gc_def held_nil defs)
  next
    case False
    have "fi_cnt (fr_fixin s5) + fi_num (fr_fixin s5) = ls_cnt (fr_list s) + int (length pe)" "ls_cnt (fr_list s5) = ls_cnt (fr_list s)"
      by (simp_all add: defs)
    then show ?thesis using h5 ne c False heldD(3) [OF h5 False] unfolding fixable_gc_def Let_def by auto
  qed
  then have "begun_gc s5 xs pe"
    using h5 r st by (simp add: begun_gc_def tail_ready_def) (simp add: defs)
  note p [OF this]
  then have "sound p s5 (partly_gc s xs pe A) (dumped s xs pe A)"
    by (rule sound_mono) (use e5 in \<open>auto simp: partly_gc_def dumped_def dump_noted_def keeps_def s5_def s4_def s3_def s2_def s1_def s0_def\<close>)
  then show ?thesis using I
    by (simp add: note_dump_def put_first_def Let_def s5_def s4_def s3_def s2_def s1_def) (simp add: s0_def split: if_splits)
qed

lemma begun_gc_last:
  assumes b: "begun_gc t xs pe" and ne: "ls_cnt (fr_list t) \<noteq> 0" and A: "set (xs @ pe) \<subseteq> A"
  shows "ls_last (fr_list t) = Some (last xs)"
    "sound (ndump_rest pe (Some (last xs))) t (partly_gc t xs pe A) (dumped t xs pe A)"
proof -
  have h: "held t xs" using b by (simp add: begun_gc_def)
  have ne': "xs \<noteq> []" using ne heldD(1) [OF h] by auto
  show "ls_last (fr_list t) = Some (last xs)" using heldD(3) [OF h ne'] by (simp add: shape_def)
  show "sound (ndump_rest pe (Some (last xs))) t (partly_gc t xs pe A) (dumped t xs pe A)"
    by (rule ndump_rest_sound [OF h ne' _ _ _ A]) (use b in \<open>simp_all add: begun_gc_def\<close>)
qed

lemma begun_gc_empty: "begun_gc t xs pe \<Longrightarrow> ls_cnt (fr_list t) = 0 \<Longrightarrow> xs = []"
  by (auto simp: begun_gc_def dest: heldD(1))

lemma insert_first:
  assumes b: "begun_gc t [] (i # pe)" and c: "ls_cnt (fr_list t) = 0"
    and rest: "\<And>u. fr_fixin u = fr_fixin t \<Longrightarrow> fr_fixout u = fr_fixout t \<Longrightarrow> held u [i] \<Longrightarrow> keeps A {i} t u \<Longrightarrow>
      sound p u (partly_gc t [] (i # pe) A) Q"
  shows "sound (put_first (Some i) (put_last (Some i) (put_owner (Some i) ET_SYS (add_cnt 1 p))))
     t (partly_gc t [] (i # pe) A) Q"
proof -
  have i: "i < length (fr_events t)" and f: "fixable_gc t []" and st: "fi_start (fr_fixin t) = 1"
      "fi_cnt (fr_fixin t) + fi_num (fr_fixin t) = int (length (i # pe))" and fc: "fi_call (fr_fixin t) = ET_FIX_DUMP"
    using b c by (auto simp: begun_gc_def tail_ready_def)
  define t1 where "t1 = t\<lparr>fr_list := (fr_list t)\<lparr>ls_first := Some i\<rparr>\<rparr>"
  define t2 where "t2 = t1\<lparr>fr_list := (fr_list t1)\<lparr>ls_last := Some i\<rparr>\<rparr>"
  define t3 where "t3 = upd i (\<lambda>e. e\<lparr>ev_owner := ET_SYS\<rparr>) t2"
  define t4 where "t4 = t3\<lparr>fr_list := (fr_list t3)\<lparr>ls_cnt := ls_cnt (fr_list t3) + 1\<rparr>\<rparr>"
  note defs = t4_def t3_def t2_def t1_def
  have k: "keeps A {i} t u" if "fr_events u = fr_events t3 \<or> fr_events u = fr_events t" for u
  proof -
    have "keeps A {i} t2 t3" unfolding t3_def by (rule keeps_upd_owner) simp
    moreover have "keeps A {i} t t2" by (simp add: t2_def t1_def)
    ultimately have "keeps A {i} t t3" by (rule keeps_trans [rotated])
    then show ?thesis using that by (auto simp: keeps_def)
  qed
  have P: "partly_gc t [] (i # pe) A u"
    if "ls_cnt (fr_list u) = 0" "ls_first (fr_list u) = Some i" "fr_fixin u = fr_fixin t"
      "fr_events u = fr_events t3 \<or> fr_events u = fr_events t" for u
    using that i st fc keeps_length [OF k [OF that(4)]]
    by (intro partly_gc_1 [OF _ k [OF that(4)]]) (auto simp: fixable_gc_def dump_noted_def)
  have I: "partly_gc t [] (i # pe) A t1" "partly_gc t [] (i # pe) A t2" "partly_gc t [] (i # pe) A t3"
    by (rule P; use c in \<open>simp add: defs\<close>)+
  have I0: "partly_gc t [] (i # pe) A t" by (rule partly_gc_0 [OF f]) (use fc in \<open>simp_all add: dump_noted_def\<close>)
  have h4: "held t4 [i]" using i c by (auto simp: held_def owned_def shape_def defs)
  have k4: "keeps A {i} t t4" by (rule k) (simp add: defs)
  have "sound p t4 (partly_gc t [] (i # pe) A) Q"
    by (rule rest [OF _ _ h4 k4]) (simp_all add: defs)
  then show ?thesis using I I0 i
    by (simp add: put_first_def put_last_def put_owner_def add_cnt_def defs)
qed

lemma ndump_first_sound:
  assumes b: "begun_gc t [] (i # pe)" and c: "ls_cnt (fr_list t) = 0" and A: "set (i # pe) \<subseteq> A"
  shows "sound (put_first (Some i) (put_last (Some i) (put_owner (Some i) ET_SYS (add_cnt 1 (ndump_rest pe (Some i))))))
     t (partly_gc t [] (i # pe) A) (dumped t [] (i # pe) A)"
proof (rule insert_first [OF b c])
  fix u assume u: "fr_fixin u = fr_fixin t" "fr_fixout u = fr_fixout t" "held u [i]" "keeps A {i} t u"
  have "tail_ready u [i] pe" using b keeps_length [OF u(4)] by (auto simp: begun_gc_def tail_ready_def)
  then have "sound (ndump_rest pe (Some i)) u (partly_gc u [i] pe A) (dumped u [i] pe A)"
    using ndump_rest_sound [OF u(3), of pe A] b u(1) heldD(1) [OF u(3)] c A by (auto simp: begun_gc_def)
  then show "sound (ndump_rest pe (Some i)) u (partly_gc t [] (i # pe) A) (dumped t [] (i # pe) A)"
    using partly_gc_Cons [of u "[]" i pe A _ t, OF _ u(4)] dumped_Cons [of u "[]" i pe A _ _ t, OF _ u(4)] u(1,2)
    by (auto elim: sound_mono)
qed

text \<open>The count of the events that came in, which only the single dump keeps.\<close>

lemma end_dump_sound:
  assumes h: "held u (xs @ [i])" and k: "keeps A {i} s u" and st: "fi_start (fr_fixin u) = 1"
    and c: "ls_cnt (fr_list u) = fi_cnt (fr_fixin u) + fi_num (fr_fixin u)" and x: "fr_fixout u = fr_fixout s" "fi_first (fr_fixin u) = fi_first (fr_fixin s)"
      "fi_call (fr_fixin u) = ET_FIX_DUMP"
  shows "sound (set_list (\<lambda>l. l\<lparr>ls_in := ls_in l + 1\<rparr>) end_dump) u (partly_gc s xs [i] A)
     (\<lambda>y t. dumped s xs [i] A y t \<and> ls_in (fr_list t) = ls_in (fr_list u) + 1)"
proof -
  have hc: "held t (xs @ [i])" if "fr_events t = fr_events u" "ls_cnt (fr_list t) = ls_cnt (fr_list u)"
      "ls_first (fr_list t) = ls_first (fr_list u)" "ls_last (fr_list t) = ls_last (fr_list u)" for t
    by (rule held_cong [OF h]) (use that in simp_all)
  show ?thesis
    using h k st c x by (auto simp: end_dump_def dumped_def fixable_gc_def dump_noted_def intro!: partly_gc_1 hc)
qed

text \<open>The whole of \<^verbatim>\<open>et_station_ndump\<close> between locking and unlocking.\<close>

lemma ndump_sound:
  assumes h: "held s xs" and r: "tail_ready s xs pe" and st: "fi_start (fr_fixin s) = 0"
    and A: "set (xs @ pe) \<subseteq> A" and room: "int (length pe) \<le> most - ls_cnt (fr_list s)"
  shows "sound (ndump_prog most pe) s (partly_gc s xs pe A) (dumped s xs pe A)"
proof (cases pe)
  case Nil
  have "fixable_gc s xs" using h st by (simp add: fixable_gc_def)
  then show ?thesis using h st Nil by (auto simp: ndump_prog_def dumped_def dump_noted_def intro!: partly_gc_0)
next
  case (Cons i rest)
  let ?prog = "Get (\<lambda>s.
    if ls_cnt (fr_list s) = 0 then
      put_first (Some i) (put_last (Some i) (put_owner (Some i) ET_SYS (add_cnt 1 (ndump_rest rest (Some i)))))
    else ndump_rest pe (ls_last (fr_list s)))"
  have "sound (note_dump (int (length pe)) ?prog) s (partly_gc s xs pe A) (dumped s xs pe A)"
  proof (rule note_dump_partly [OF h r st])
    fix t assume b: "begun_gc t xs pe"
    show "sound ?prog t (partly_gc t xs pe A) (dumped t xs pe A)"
      using begun_gc_last [OF b _ A] begun_gc_empty [OF b] ndump_first_sound [of t i rest A] b Cons A
      by (cases "ls_cnt (fr_list t) = 0") (simp_all del: ndump_rest.simps)
  qed (simp add: Cons)
  then show ?thesis
    using room unfolding Cons by (simp add: ndump_prog_def del: ndump_rest.simps ET_SYS_def)
qed


lemma dump_sound:
  assumes h: "held s xs" and r: "tail_ready s xs [i]" and st: "fi_start (fr_fixin s) = 0"
    and A: "set (xs @ [i]) \<subseteq> A" and room: "ls_cnt (fr_list s) < most"
  shows "sound (dump_prog most (Some i)) s (partly_gc s xs [i] A) (dumped s xs [i] A)"
proof -
  let ?fin = "set_list (\<lambda>l. l\<lparr>ls_in := ls_in l + 1\<rparr>) end_dump :: (fr, int) prog"
  let ?finish = "put_last (Some i) (put_owner (Some i) ET_SYS (add_cnt 1 ?fin))"
  let ?prog = "Get (\<lambda>s. if ls_cnt (fr_list s) = 0 then put_first (Some i) ?finish else put_next (ls_last (fr_list s)) (Some i) ?finish)"
  have "sound (note_dump (int (length [i])) ?prog) s (partly_gc s xs [i] A) (dumped s xs [i] A)"
  proof (rule note_dump_partly [OF h r st])
    fix t assume b: "begun_gc t xs [i]"
    have ht: "held t xs" and i: "i < length (fr_events t)" "i \<notin> set xs" and s1: "fi_start (fr_fixin t) = 1"
      and tot: "ls_cnt (fr_list t) + 1 = fi_cnt (fr_fixin t) + fi_num (fr_fixin t)" and fc: "fi_call (fr_fixin t) = ET_FIX_DUMP"
      using b by (auto simp: begun_gc_def tail_ready_def)
    have last: "sound ?fin u (partly_gc t xs [i] A) (dumped t xs [i] A)"
      if "held u (xs @ [i])" "keeps A {i} t u" "fr_fixin u = fr_fixin t" "fr_fixout u = fr_fixout t" for u
      using end_dump_sound [OF that(1,2)] that(3,4) s1 tot fc heldD(1) [OF that(1)] heldD(1) [OF ht]
      by (auto elim: sound_mono)
    show "sound ?prog t (partly_gc t xs [i] A) (dumped t xs [i] A)"
    proof (cases "xs = []")
      case True
      then have "ls_cnt (fr_list t) = 0" using heldD(1) [OF ht] by simp
      then show ?thesis using insert_first [of t i "[]" A ?fin] b last True by simp
    next
      case False
      then have c: "ls_cnt (fr_list t) > 0" using heldD(1) [OF ht] by simp
      have f: "fixable_gc u ys" if "tail_mid t u ys" "length ys \<le> Suc (length xs)" for u ys
        using that s1 tot c heldD(1) [OF ht] by (auto simp: tail_mid_def fixable_gc_def noted_def Let_def)
      have "sound (put_next (Some (last xs)) (Some i) ?finish) t (partly_gc t xs [i] A) (dumped t xs [i] A)"
      proof (rule insert_tail [OF ht False i])
        show "insert i (set xs) \<subseteq> A" using A by auto
        show "partly_gc t xs [i] A u" if "tail_mid t u xs" "keeps A {} t u" for u
          by (rule partly_gc_0 [OF f that(2)]) (use that fc in \<open>auto simp: tail_mid_def noted_def dump_noted_def\<close>)
        show "partly_gc t xs [i] A u" if "tail_mid t u (xs @ [i])" "keeps A {i} t u" for u
          by (rule partly_gc_1 [OF f that(2)]) (use that fc in \<open>auto simp: tail_mid_def noted_def dump_noted_def\<close>)
        show "sound ?fin u (partly_gc t xs [i] A) (dumped t xs [i] A)"
          if "noted t u" "held u (xs @ [i])" "keeps A {i} t u" for u
          by (rule last) (use that in \<open>simp_all add: noted_def\<close>)
      qed
      then show ?thesis using c begun_gc_last(1) [OF b _ A] by simp
    qed
  qed simp
  then show ?thesis using room by (simp add: dump_prog_def Let_def del: ET_SYS_def)
qed

text \<open>\<^verbatim>\<open>et_station_nwriteNoPri\<close> appends.\<close>

lemma nwriteNoPri_rest_held:
  assumes "held s xs" "xs \<noteq> []" "tail_ready s xs pe"
  shows "\<exists>t. run (nwriteNoPri_rest pe (Some (last xs))) s = Some (ET_OK, t) \<and> held t (xs @ pe)"
  using assms
proof (induction pe arbitrary: s xs)
  case Nil
  have "held (s\<lparr>fr_fixout := x\<rparr>) xs" for x by (rule held_cong [OF Nil(1)]) simp_all
  then show ?case by (simp add: end_write_def set_fixout_def)
next
  case (Cons i pe)
  let ?Q = "\<lambda>x t. x = ET_OK \<and> held t (xs @ i # pe)"
  have "sound (put_next (Some (last xs)) (Some i) (put_last (Some i) (put_owner (Some i) ET_SYS (add_cnt 1
      (nwriteNoPri_rest pe (Some i)))))) s (\<lambda>_. True) ?Q"
  proof (rule insert_tail [OF Cons.prems(1,2)])
    fix u assume u: "held u (xs @ [i])" "keeps UNIV {i} s u"
    have "tail_ready u (xs @ [i]) pe" using Cons.prems(3) keeps_length [OF u(2)] by (auto simp: tail_ready_def)
    then show "sound (nwriteNoPri_rest pe (Some i)) u (\<lambda>_. True) ?Q"
      using Cons.IH [OF u(1)] by (auto simp: sound_def)
  qed (use Cons.prems(3) in \<open>auto simp: tail_ready_def\<close>)
  then show ?case using sound_run by fastforce
qed

end
