(* ===== verification/EtServerProofs.thy ===== *)
theory EtServerProofs
  imports EtServerLists EtDumpProofs
begin

text \<open>
  What the server's list routines do: a list is emptied into an array, events are put at the end, or behind
  and in front of those of their priority.
\<close>

section \<open>Linking\<close>

definition at_lists :: "lists \<Rightarrow> fr" where
  "at_lists m = \<lparr>fr_events = fst m, fr_list = snd m, fr_fixin = sn_fixin et_init_station, fr_fixout = sn_fixout et_init_station\<rparr>"

lemma at_lists_simps [simp]: "fr_events (at_lists m) = fst m" "fr_list (at_lists m) = snd m"
  by (simp_all add: at_lists_def)

definition only_next :: "nat set \<Rightarrow> et_event list \<Rightarrow> et_event list \<Rightarrow> bool" where
  "only_next A es es' = (length es' = length es \<and>
     (\<forall>i < length es. (\<exists>q. es' ! i = (es ! i)\<lparr>ev_next := q\<rparr>) \<and> (i \<notin> A \<longrightarrow> ev_next (es' ! i) = ev_next (es ! i))))"

lemma next_itself [simp]: "\<exists>q. e = e\<lparr>ev_next := q\<rparr>"
  by (rule exI [of _ "ev_next e"]) simp

lemma only_next_refl [simp]: "only_next A es es"
  by (simp add: only_next_def)

lemma only_next_trans: "only_next A es es1 \<Longrightarrow> only_next B es1 es2 \<Longrightarrow> only_next (A \<union> B) es es2"
proof -
  assume o: "only_next A es es1" "only_next B es1 es2"
  then have len: "length es1 = length es" "length es2 = length es" by (simp_all add: only_next_def)
  have "(\<exists>q. es2 ! i = (es ! i)\<lparr>ev_next := q\<rparr>) \<and> (i \<notin> A \<union> B \<longrightarrow> ev_next (es2 ! i) = ev_next (es ! i))"
    if i: "i < length es" for i
  proof -
    have a: "\<exists>q. es1 ! i = (es ! i)\<lparr>ev_next := q\<rparr>" "i \<notin> A \<Longrightarrow> ev_next (es1 ! i) = ev_next (es ! i)"
      using o(1) i by (simp_all add: only_next_def)
    have b: "\<exists>q. es2 ! i = (es1 ! i)\<lparr>ev_next := q\<rparr>" "i \<notin> B \<Longrightarrow> ev_next (es2 ! i) = ev_next (es1 ! i)"
      using o(2) i len by (simp_all add: only_next_def)
    obtain q1 q2 where "es1 ! i = (es ! i)\<lparr>ev_next := q1\<rparr>" "es2 ! i = (es1 ! i)\<lparr>ev_next := q2\<rparr>"
      using a(1) b(1) by blast
    then have "es2 ! i = (es ! i)\<lparr>ev_next := q2\<rparr>" by simp
    then show ?thesis using a(2) b(2) by auto
  qed
  then show ?thesis using len by (simp add: only_next_def)
qed

lemma only_next_mono: "only_next A es es' \<Longrightarrow> A \<subseteq> B \<Longrightarrow> only_next B es es'"
  by (auto simp: only_next_def)

lemma only_nextD:
  assumes "only_next A es es'" "i < length es"
  shows "ev_owner (es' ! i) = ev_owner (es ! i)" "ev_priority (es' ! i) = ev_priority (es ! i)"
    "i \<notin> A \<Longrightarrow> es' ! i = es ! i"
proof -
  obtain q where e: "es' ! i = (es ! i)\<lparr>ev_next := q\<rparr>" using assms by (auto simp: only_next_def)
  show "ev_owner (es' ! i) = ev_owner (es ! i)" "ev_priority (es' ! i) = ev_priority (es ! i)"
    by (simp_all add: e)
  show "es' ! i = es ! i" if "i \<notin> A"
    using e assms that by (auto simp: only_next_def)
qed

lemma only_next_length: "only_next A es es' \<Longrightarrow> length es' = length es"
  by (simp add: only_next_def)

lemma only_next_priority:
  "only_next A es es' \<Longrightarrow> i < length es \<Longrightarrow> high es' i = high es i \<and> low es' i = low es i"
  using only_nextD(2) [of A es es' i] by (simp add: high_def low_def)

lemma set_next_ok:
  "i < length es \<Longrightarrow> \<exists>es'. set_next (Some i) q es = Some es' \<and> only_next {i} es es' \<and> ev_next (es' ! i) = q"
  by (auto simp: set_next_def only_next_def nth_list_update)

lemma linked_only_next: "linked es xs \<Longrightarrow> only_next A es es' \<Longrightarrow> A \<inter> set (butlast xs) = {} \<Longrightarrow> linked es' xs"
proof (rule linked_cong)
  assume l: "linked es xs" and o: "only_next A es es'" and d: "A \<inter> set (butlast xs) = {}"
  show "length es' = length es" by (rule only_next_length [OF o])
  fix i assume i: "i \<in> set (butlast xs)"
  then have "i < length es" using linked_lt [OF l] by (auto dest: in_set_butlastD)
  then show "ev_next (es' ! i) = ev_next (es ! i)" using o i d by (auto simp: only_next_def)
qed

lemma link_up_ok:
  "distinct pe \<Longrightarrow> set pe \<subseteq> {..<length es} \<Longrightarrow>
     \<exists>es'. link_up pe es = Some es' \<and> linked es' pe \<and> only_next (set (butlast pe)) es es'"
proof (induction pe es rule: link_up.induct)
  case (1 i j pe es)
  obtain es1 where es1: "set_next (Some i) (Some j) es = Some es1" "only_next {i} es es1" "ev_next (es1 ! i) = Some j"
    using set_next_ok [of i es "Some j"] 1(3) by auto
  note len = only_next_length [OF es1(2)]
  obtain es2 where es2: "link_up (j # pe) es1 = Some es2" "linked es2 (j # pe)" "only_next (set (butlast (j # pe))) es1 es2"
    using 1(1) [OF es1(1)] 1(2,3) len by auto
  have "i \<notin> set (butlast (j # pe))" using 1(2) by (auto dest: in_set_butlastD)
  then have "ev_next (es2 ! i) = Some j"
    using es1(3) only_nextD(3) [OF es2(3), of i] len 1(3) by simp
  moreover have "only_next (set (butlast (i # j # pe))) es es2"
    by (rule only_next_mono [OF only_next_trans [OF es1(2) es2(3)]]) auto
  ultimately show ?case using es1(1) es2 len 1(3) only_next_length [OF es2(3)] by auto
qed auto

text \<open>A chain put behind a chain, and an event put behind one of a chain.\<close>

lemma linked_join:
  assumes "linked es xs" "linked es ys" "xs \<noteq> []" "ys \<noteq> []" "distinct (xs @ ys)"
    "only_next {last xs} es es'" "ev_next (es' ! last xs) = Some (hd ys)"
  shows "linked es' (xs @ ys)"
proof -
  have "last xs \<notin> set (butlast xs)" "last xs \<notin> set (butlast ys)"
    using assms(3,5) last_not_butlast [of xs] last_in_set [OF assms(3)]
    by (simp, metis Int_iff distinct_append empty_iff in_set_butlastD)
  then show ?thesis
    using assms linked_only_next [OF assms(1,6)] linked_only_next [OF assms(2,6)] by (simp add: linked_append)
qed

lemma linked_behind:
  assumes l: "linked es (xs @ i # ys)" and d: "distinct (xs @ i # ys)" "j \<notin> set (xs @ i # ys)" "j < length es"
    and b: "ys \<noteq> [] \<longrightarrow> q = Some (hd ys)"
  shows "\<exists>es1 es2. set_next (Some i) (Some j) es = Some es1 \<and> set_next (Some j) q es1 = Some es2
     \<and> linked es2 (xs @ i # j # ys) \<and> only_next {i, j} es es2"
proof -
  have i: "i < length es" using l by (simp add: linked_append)
  obtain es1 where es1: "set_next (Some i) (Some j) es = Some es1" "only_next {i} es es1" "ev_next (es1 ! i) = Some j"
    using set_next_ok [OF i] by blast
  have j: "j < length es1" using d(3) only_next_length [OF es1(2)] by simp
  obtain es2 where es2: "set_next (Some j) q es1 = Some es2" "only_next {j} es1 es2" "ev_next (es2 ! j) = q"
    using set_next_ok [OF j] by blast
  have o: "only_next {i, j} es es2" by (rule only_next_mono [OF only_next_trans [OF es1(2) es2(2)]]) auto
  have "linked es (xs @ [i])" "linked es ys" using l by (simp_all add: linked_append)
  then have "linked es2 (xs @ [i])" "linked es2 ys"
    using d linked_only_next [OF _ o] by (auto dest: in_set_butlastD simp: butlast_append)
  moreover have "ev_next (es2 ! i) = Some j"
    using es1(3) only_nextD(3) [OF es2(2), of i] i d(2) only_next_length [OF es1(2)] by auto
  ultimately have "linked es2 (xs @ i # j # ys)"
    using es2(3) b j only_next_length [OF es2(2)] by (auto simp: linked_append)
  then show ?thesis using es1(1) es2(1) o by blast
qed

text \<open>The events of high priority behind the first.\<close>

lemma more_highs_ok:
  assumes "linked es (xs @ i # ys)" "distinct (xs @ i # ys @ ph @ pl)" "set (ph @ pl) \<subseteq> {..<length es}"
    "\<forall>j\<in>set ph. high es j" "\<forall>j\<in>set pl. \<not> high es j" "ys \<noteq> [] \<longrightarrow> behind = Some (hd ys)"
  shows "\<exists>es'. more_highs i (ph @ pl) behind n es = Some (n + length ph, es') \<and> linked es' (xs @ i # ph @ ys)
     \<and> only_next (set (i # ph)) es es'"
  using assms
proof (induction ph arbitrary: xs i es n)
  case Nil
  then show ?case by (cases pl) (auto simp: rd_def high_def)
next
  case (Cons j ph)
  have j: "j \<notin> set (xs @ i # ys)" "j < length es" using Cons.prems by auto
  have d: "distinct (xs @ i # ys)" using Cons.prems(2) by auto
  obtain es1 es2 where e: "set_next (Some i) (Some j) es = Some es1" "set_next (Some j) behind es1 = Some es2"
      "linked es2 (xs @ i # j # ys)" "only_next {i, j} es es2"
    using linked_behind [OF Cons.prems(1) d j Cons.prems(6)] by blast
  note len = only_next_length [OF e(4)]
  note pri = only_next_priority [OF e(4)]
  have "linked es2 ((xs @ [i]) @ j # ys)" using e(3) by simp
  then obtain es3 where es3: "more_highs j (ph @ pl) behind (n + 1) es2 = Some (n + 1 + length ph, es3)"
      "linked es3 ((xs @ [i]) @ j # ph @ ys)" "only_next (set (j # ph)) es2 es3"
    using Cons.IH [of es2 "xs @ [i]" j "n + 1"] Cons.prems len pri by (auto simp: subset_iff)
  have "only_next (set (i # j # ph)) es es3"
    by (rule only_next_mono [OF only_next_trans [OF e(4) es3(3)]]) auto
  moreover have "ev_priority (es ! j) = ET_HIGH" using Cons.prems(4) by (simp add: high_def)
  ultimately show ?case using e es3 j by (auto simp: rd_def)
qed

text \<open>What \<^verbatim>\<open>scan_high\<close> finds.\<close>

lemma scan_high_ok:
  assumes "linked es (hs @ ls)" "\<forall>i\<in>set hs. high es i" "\<forall>i\<in>set ls. \<not> high es i" "hs @ ls \<noteq> []"
  shows "\<exists>pevent. scan_high es (length (hs @ ls)) p0 (Some (hd (hs @ ls))) c =
       Some (if hs = [] then p0 else Some (last hs), pevent, c + int (length hs)) \<and> (ls \<noteq> [] \<longrightarrow> pevent = Some (hd ls))"
  using assms
proof (induction hs arbitrary: p0 c)
  case Nil
  then show ?case by (cases ls) (auto simp: deref_def rd_def high_def)
next
  case (Cons i hs)
  have i: "i < length es" "ev_priority (es ! i) = ET_HIGH" using Cons.prems by (simp_all add: high_def)
  show ?case
  proof (cases "hs @ ls = []")
    case True
    then show ?thesis using i by (auto simp: deref_def rd_def)
  next
    case False
    then have "ev_next (es ! i) = Some (hd (hs @ ls))" using Cons.prems(1) by auto
    moreover obtain pevent where "scan_high es (length (hs @ ls)) (Some i) (Some (hd (hs @ ls))) (c + 1) =
        Some (if hs = [] then Some i else Some (last hs), pevent, c + 1 + int (length hs))" "ls \<noteq> [] \<longrightarrow> pevent = Some (hd ls)"
      using Cons.IH [of "Some i" "c + 1"] Cons.prems False by auto
    ultimately show ?thesis using i by (auto simp: deref_def rd_def)
  qed
qed

section \<open>Taking all events of a list\<close>

lemma collect_linked: "linked es xs \<Longrightarrow> xs \<noteq> [] \<Longrightarrow> collect es (Some (hd xs)) (length xs) = Some xs"
proof (induction xs)
  case (Cons x xs)
  then show ?case by (cases "xs = []") (auto simp: rd_def)
qed simp

lemma et_llist_read_held:
  assumes "held (at_lists (es, l)) xs" "xs \<noteq> []"
  shows "et_llist_read (es, l) = Some (int (length xs), xs, es,
     l\<lparr>ls_first := None, ls_cnt := 0, ls_lasthigh := 0, ls_out := ls_out l + of_nat (length xs)\<rparr>)"
  using assms collect_linked [of es xs] by (simp add: et_llist_read_def held_def shape_def)

section \<open>Putting events at the end\<close>

text \<open>Events that belong to the system and are in none of these lists.\<close>

definition free_events :: "et_event list \<Rightarrow> nat list \<Rightarrow> nat list \<Rightarrow> bool" where
  "free_events es xs pe = (distinct pe \<and> set pe \<inter> set xs = {} \<and> (\<forall>i\<in>set pe. i < length es \<and> ev_owner (es ! i) = ET_SYS))"

lemma shape_lists: "shape (at_lists (es, l)) xs = (xs \<noteq> [] \<and> distinct xs \<and> linked es xs
     \<and> ls_first l = Some (hd xs) \<and> ls_last l = Some (last xs))"
  by (simp add: shape_def)

lemma owned_free:
  assumes "held (at_lists (es, l)) xs" "free_events es xs pe" "only_next A es es'"
  shows "owned (at_lists (es', l')) (xs @ pe)"
proof -
  have "\<forall>i\<in>set (xs @ pe). i < length es \<and> ev_owner (es ! i) = ET_SYS"
    using assms(1,2) held_lt [OF assms(1)] by (auto simp: held_def owned_def free_events_def)
  then show ?thesis using only_nextD(1) [OF assms(3)] by (auto simp: owned_def)
qed

lemma append_held:
  assumes h: "held (at_lists (es, l)) xs" and f: "free_events es xs pe" and ne: "pe \<noteq> []"
  shows "\<exists>es' l'. append_events pe (int (length pe)) (es, l) = Some (es', l') \<and> shape (at_lists (es', l')) (xs @ pe)
     \<and> only_next (set (xs @ pe)) es es' \<and> l' = l\<lparr>ls_first := ls_first l', ls_last := ls_last l'\<rparr>"
proof -
  have pe: "distinct pe" "set pe \<subseteq> {..<length es}" "pe ! 0 = hd pe" "pe ! (length pe - 1) = last pe"
    using f ne by (auto simp: free_events_def hd_conv_nth last_conv_nth)
  have c: "ls_cnt l = int (length xs)" using h by (simp add: held_def)
  have num: "nat (int (length pe)) = length pe" "\<not> int (length pe) < 1" using ne by (auto simp: Suc_le_eq)
  show ?thesis
  proof (cases "xs = []")
    case True
    obtain es' where e: "link_up pe es = Some es'" "linked es' pe" "only_next (set (butlast pe)) es es'"
      using link_up_ok [OF pe(1,2)] by blast
    have "only_next (set (xs @ pe)) es es'" by (rule only_next_mono [OF e(3)]) (auto dest: in_set_butlastD)
    then show ?thesis using True e c ne pe num by (auto simp: append_events_def rd_def shape_lists)
  next
    case False
    have l: "linked es xs" "ls_first l = Some (hd xs)" "ls_last l = Some (last xs)" "distinct xs"
      using heldD(3) [OF h False] by (simp_all add: shape_lists)
    have "last xs < length es" using linked_lt [OF l(1)] False by simp
    then obtain es1 where e1: "set_next (Some (last xs)) (Some (hd pe)) es = Some es1" "only_next {last xs} es es1"
        "ev_next (es1 ! last xs) = Some (hd pe)" using set_next_ok by blast
    note len1 = only_next_length [OF e1(2)]
    obtain es' where e: "link_up pe es1 = Some es'" "linked es' pe" "only_next (set (butlast pe)) es1 es'"
      using link_up_ok [of pe es1] pe(1,2) len1 by auto
    have dj: "last xs \<notin> set (butlast pe)" "set (butlast pe) \<inter> set (butlast xs) = {}"
      using f False last_in_set [of xs] by (auto simp: free_events_def dest!: in_set_butlastD simp del: last_in_set)
    have o: "only_next (insert (last xs) (set (butlast pe))) es es'"
      using only_next_trans [OF e1(2) e(3)] by simp
    have "last xs \<notin> set (butlast xs)" by (rule last_not_butlast [OF l(4) False])
    then have "linked es' xs" using dj(2) by (intro linked_only_next [OF l(1) o]) auto
    moreover have "ev_next (es' ! last xs) = Some (hd pe)"
      using e1(3) only_nextD(3) [OF e(3) _ dj(1)] linked_lt [OF l(1), of "last xs"] False len1 by simp
    ultimately have "linked es' (xs @ pe)" using e(2) by (simp add: linked_append)
    moreover have "only_next (set (xs @ pe)) es es'"
      by (rule only_next_mono [OF o]) (use False in \<open>auto dest: in_set_butlastD\<close>)
    ultimately show ?thesis
      using False c ne num pe e e1(1) l f by (auto simp: append_events_def rd_def shape_lists free_events_def)
  qed
qed

lemma held_count_in:
  assumes h: "held (at_lists (es, l)) xs" and f: "free_events es xs pe" and ne: "pe \<noteq> []"
    and s: "shape (at_lists (es', l')) ys" and o: "only_next A es es'" and p: "set ys = set (xs @ pe)" "length ys = length (xs @ pe)"
    and c: "ls_cnt l' = ls_cnt l"
  shows "held (at_lists (es', count_in (int (length pe)) l')) ys"
proof -
  have "owned (at_lists (es', l')) (xs @ pe)" by (rule owned_free [OF h f o])
  then show ?thesis using h s p c by (auto simp: held_def owned_def shape_lists count_in_def)
qed

lemma et_llist_write_gc_held:
  assumes h: "held (at_lists (es, l)) xs" and f: "free_events es xs pe" and ne: "pe \<noteq> []"
    and room: "int (length (xs @ pe)) \<le> most"
  shows "\<exists>es' l'. et_llist_write_gc most pe (int (length pe)) (es, l) = Some (ET_OK, es', l') \<and> held (at_lists (es', l')) (xs @ pe)
     \<and> only_next (set (xs @ pe)) es es' \<and> ls_in l' = ls_in l + of_nat (length pe)"
proof -
  have c: "ls_cnt l = int (length xs)" using h by (simp add: held_def)
  obtain es' l' where a: "append_events pe (int (length pe)) (es, l) = Some (es', l')" "shape (at_lists (es', l')) (xs @ pe)"
      "only_next (set (xs @ pe)) es es'" "l' = l\<lparr>ls_first := ls_first l', ls_last := ls_last l'\<rparr>"
    using append_held [OF h f ne] by blast
  have s: "ls_cnt l' = ls_cnt l" "ls_in l' = ls_in l" by (subst a(4), simp)+
  have "held (at_lists (es', count_in (int (length pe)) l')) (xs @ pe)"
    by (rule held_count_in [OF h f ne a(2,3) _ _ s(1)]) simp_all
  moreover have "ls_in (count_in (int (length pe)) l') = ls_in l + of_nat (length pe)" using s by (simp add: count_in_def)
  ultimately show ?thesis using a(1,3) c room by (auto simp: et_llist_write_gc_def)
qed

section \<open>Putting events in by priority\<close>

text \<open>An event between two parts of a chain; the first part may be empty.\<close>

lemma linked_insert:
  assumes l: "linked es (xs @ ys)" and d: "distinct (xs @ ys)" "j \<notin> set (xs @ ys)" "j < length es"
    and o: "only_next (insert j (if xs = [] then {} else {last xs})) es es'"
    and n: "xs \<noteq> [] \<longrightarrow> ev_next (es' ! last xs) = Some j" "ys \<noteq> [] \<longrightarrow> ev_next (es' ! j) = Some (hd ys)"
  shows "linked es' (xs @ j # ys)"
proof -
  have l1: "linked es xs" "linked es ys" using l by (simp_all add: linked_append)
  have j: "j \<notin> set (butlast xs)" "j \<notin> set (butlast ys)" using d(2) by (auto dest: in_set_butlastD)
  have lx: "last xs \<notin> set (butlast xs) \<and> last xs \<notin> set (butlast ys)" if "xs \<noteq> []"
    using last_not_butlast [of xs] last_in_set [OF that] d(1) that by (auto dest!: in_set_butlastD simp del: last_in_set)
  have "linked es' xs" "linked es' ys"
    by (rule linked_only_next [OF l1(1) o], use j lx in auto) (rule linked_only_next [OF l1(2) o], use j lx in auto)
  then show ?thesis using n d(3) only_next_length [OF o] by (auto simp: linked_append)
qed

text \<open>The first event of high priority.\<close>

lemma first_high:
  assumes s: "shape (at_lists (es, l)) (hs @ ls)" and j: "j \<notin> set (hs @ ls)" "j < length es"
  shows "\<exists>es' l'. put_first_high j (lasthigh_of hs) (es, l) = Some (es', l')
     \<and> linked es' (hs @ j # ls) \<and> only_next (set (hs @ j # ls)) es es' \<and> l' = l\<lparr>ls_first := Some (hd (hs @ j # ls))\<rparr>"
proof -
  have l: "linked es (hs @ ls)" "distinct (hs @ ls)" "ls_first l = Some (hd (hs @ ls))"
    using s by (simp_all add: shape_lists)
  show ?thesis
  proof (cases "hs = []")
    case True
    obtain es1 where e1: "set_next (Some j) (ls_first l) es = Some es1" "only_next {j} es es1" "ev_next (es1 ! j) = ls_first l"
      using set_next_ok [OF j(2)] by blast
    have "linked es1 ([] @ j # ls)"
      by (rule linked_insert [OF _ _ _ j(2)]) (use l j e1 True in auto)
    moreover have "only_next (set (j # ls)) es es1" by (rule only_next_mono [OF e1(2)]) simp
    ultimately show ?thesis using True e1 by (simp add: lasthigh_of_def put_first_high_def)
  next
    case False
    have i: "last hs < length es" using linked_lt [OF l(1), of "last hs"] False by simp
    obtain es1 where e1: "set_next (Some j) (ev_next (es ! last hs)) es = Some es1" "only_next {j} es es1"
        "ev_next (es1 ! j) = ev_next (es ! last hs)" using set_next_ok [OF j(2)] by blast
    have len: "length es1 = length es" by (rule only_next_length [OF e1(2)])
    obtain es2 where e2: "set_next (Some (last hs)) (Some j) es1 = Some es2" "only_next {last hs} es1 es2"
        "ev_next (es2 ! last hs) = Some j" using set_next_ok [of "last hs" es1] i len by auto
    have ne: "j \<noteq> last hs" using j(1) False by auto
    have o: "only_next (insert j (if hs = [] then {} else {last hs})) es es2"
      using only_next_trans [OF e1(2) e2(2)] False by (simp add: insert_commute)
    have "ev_next (es2 ! j) = ev_next (es ! last hs)" using only_nextD(3) [OF e2(2)] e1(3) ne j(2) len by simp
    moreover have "ls \<noteq> [] \<longrightarrow> ev_next (es ! last hs) = Some (hd ls)" using l(1) False by (auto simp: linked_append)
    ultimately have "linked es2 (hs @ j # ls)"
      by (intro linked_insert [OF l(1,2) j o]) (use e2(3) in auto)
    moreover have "only_next (set (hs @ j # ls)) es es2" by (rule only_next_mono [OF o]) (use False in auto)
    moreover have "l = l\<lparr>ls_first := Some (hd (hs @ j # ls))\<rparr>" using l(3) False by (cases l) simp
    ultimately show ?thesis using False e1(1) e2(1) i by (auto simp: lasthigh_of_def put_first_high_def)
  qed
qed

text \<open>The chain of the events of low priority at the end.\<close>

lemma lows_at_end:
  assumes l: "linked es xs" "xs \<noteq> []" and d: "distinct (xs @ pl)" "set pl \<subseteq> {..<length es}" "pl \<noteq> []"
  shows "\<exists>es' es''. link_up pl es = Some es' \<and> set_next (Some (last xs)) (Some (hd pl)) es' = Some es''
     \<and> linked es'' (xs @ pl) \<and> only_next (set (xs @ pl)) es es''"
proof -
  obtain es1 where e1: "link_up pl es = Some es1" "linked es1 pl" "only_next (set (butlast pl)) es es1"
    using link_up_ok [of pl es] d by auto
  have "set (butlast pl) \<inter> set (butlast xs) = {}" using d(1) by (auto dest!: in_set_butlastD)
  then have x1: "linked es1 xs" by (rule linked_only_next [OF l(1) e1(3)])
  have "last xs < length es1" using linked_lt [OF x1, of "last xs"] l(2) by simp
  then obtain es2 where e2: "set_next (Some (last xs)) (Some (hd pl)) es1 = Some es2" "only_next {last xs} es1 es2"
      "ev_next (es2 ! last xs) = Some (hd pl)" using set_next_ok by blast
  have "linked es2 (xs @ pl)" by (rule linked_join [OF x1 e1(2) l(2) d(3,1) e2(2,3)])
  moreover have "only_next (set (xs @ pl)) es es2"
    by (rule only_next_mono [OF only_next_trans [OF e1(3) e2(2)]]) (use l(2) in \<open>auto dest: in_set_butlastD\<close>)
  ultimately show ?thesis using e1(1) e2(1) by blast
qed

lemma put_lows_last_ok:
  assumes l: "linked es xs" "xs \<noteq> []" "ls_first l = Some (hd xs)" "ls_last l = Some (last xs)"
    and d: "distinct (xs @ pl)" "set pl \<subseteq> {..<length es}"
  shows "\<exists>es' l'. put_lows_last (ph @ pl) (int (length (ph @ pl))) (length ph) (es, l) = Some (es', l')
     \<and> shape (at_lists (es', l')) (xs @ pl) \<and> only_next (set (xs @ pl)) es es' \<and> l' = l\<lparr>ls_last := ls_last l'\<rparr>"
proof (cases "pl = []")
  case True
  then show ?thesis using l d by (simp add: put_lows_last_def shape_lists)
next
  case False
  obtain es1 es2 where e: "link_up pl es = Some es1" "set_next (Some (last xs)) (Some (hd pl)) es1 = Some es2"
      "linked es2 (xs @ pl)" "only_next (set (xs @ pl)) es es2"
    using lows_at_end [OF l(1,2) d False] by blast
  have "(ph @ pl) ! (length (ph @ pl) - 1) = last pl"
    using last_conv_nth [of "ph @ pl"] False by simp
  moreover have "(ph @ pl) ! length ph = hd pl" "nat (int (length ph) + int (length pl)) = length (ph @ pl)"
    using False by (simp_all add: nth_append hd_conv_nth nat_add_distrib)
  ultimately show ?thesis using e l d False by (simp add: put_lows_last_def shape_lists)
qed

lemma write_by_priority_ok:
  assumes s: "shape (at_lists (es, l)) (hs @ ls)" "ls_cnt l = int (length (hs @ ls))" and q: "queued es hs ls"
    and d: "distinct ((j # ph) @ pl)" "set ((j # ph) @ pl) \<inter> set (hs @ ls) = {}" "set ((j # ph) @ pl) \<subseteq> {..<length es}"
    and qp: "queued es (j # ph) pl"
  shows "\<exists>es' l'. write_by_priority ((j # ph) @ pl) j (int (length ((j # ph) @ pl))) (es, l) = Some (es', l')
     \<and> shape (at_lists (es', l')) (hs @ (j # ph) @ ls @ pl) \<and> only_next (set (hs @ ls @ (j # ph) @ pl)) es es'
     \<and> ls_cnt l' = ls_cnt l \<and> ls_in l' = ls_in l"
proof -
  let ?pe = "(j # ph) @ pl"
  have sl: "linked es (hs @ ls)" "distinct (hs @ ls)" "hs @ ls \<noteq> []" "ls_first l = Some (hd (hs @ ls))" "ls_last l = Some (last (hs @ ls))"
    using s(1) by (simp_all add: shape_lists)
  have hl: "\<forall>i\<in>set hs. high es i" "\<forall>i\<in>set ls. \<not> high es i" using q high_not_low by (auto simp: queued_def)
  obtain pevent where sc: "scan_high es (length (hs @ ls)) None (Some (hd (hs @ ls))) 0 = Some (lasthigh_of hs, pevent, int (length hs))"
      "ls \<noteq> [] \<longrightarrow> pevent = Some (hd ls)"
    using scan_high_ok [OF sl(1) hl sl(3), of None 0] by (auto simp only: lasthigh_of_def add_0)
  have j: "j \<notin> set (hs @ ls)" "j < length es" using d by auto
  obtain es1 l1 where e1: "put_first_high j (lasthigh_of hs) (es, l) = Some (es1, l1)"
      "linked es1 (hs @ j # ls)" "only_next (set (hs @ j # ls)) es es1" "l1 = l\<lparr>ls_first := Some (hd (hs @ j # ls))\<rparr>"
    using first_high [OF s(1) j] by blast
  note len1 = only_next_length [OF e1(3)]
  have hp: "\<forall>i\<in>set ph. high es1 i" "\<forall>i\<in>set pl. \<not> high es1 i"
    using qp d(3) only_next_priority [OF e1(3)] high_not_low by (auto simp: queued_def subset_iff)
  have dd: "distinct (hs @ j # ls @ ph @ pl)" "set (ph @ pl) \<subseteq> {..<length es1}"
    using d sl(2) len1 by auto
  obtain es2 where e2: "more_highs j (ph @ pl) pevent 1 es1 = Some (1 + length ph, es2)" "linked es2 (hs @ j # ph @ ls)"
      "only_next (set (j # ph)) es1 es2"
    using more_highs_ok [OF e1(2) dd hp sc(2)] by blast
  define l2 where "l2 = (if int (length hs) = ls_cnt l1 then l1\<lparr>ls_last := Some (?pe ! (1 + length ph - 1))\<rparr> else l1)"
  have lst: "?pe ! length ph = last (j # ph)"
    using last_conv_nth [of "j # ph"] nth_append [of "j # ph" pl "length ph"] by simp
  have l2: "ls_last l2 = Some (last (hs @ j # ph @ ls))" "ls_first l2 = Some (hd (hs @ j # ph @ ls))" "ls_cnt l2 = ls_cnt l" "ls_in l2 = ls_in l"
    using sl(5) s(2) e1(4) lst by (cases "ls = []"; simp add: l2_def hd_append)+
  have d3: "distinct ((hs @ j # ph @ ls) @ pl)" "set pl \<subseteq> {..<length es2}"
    using dd only_next_length [OF e2(3)] by auto
  obtain es3 l3 where e3: "put_lows_last (((j # ph)) @ pl) (int (length ?pe)) (length (j # ph)) (es2, l2) = Some (es3, l3)"
      "shape (at_lists (es3, l3)) ((hs @ j # ph @ ls) @ pl)" "only_next (set ((hs @ j # ph @ ls) @ pl)) es2 es3"
      "l3 = l2\<lparr>ls_last := ls_last l3\<rparr>"
    using put_lows_last_ok [OF e2(2) _ l2(2,1) d3, of "j # ph"] by auto
  have "only_next (set (hs @ ls @ (j # ph) @ pl)) es es3"
    by (rule only_next_mono [OF only_next_trans [OF only_next_trans [OF e1(3) e2(3)] e3(3)]]) auto
  moreover have "ls_cnt l3 = ls_cnt l" "ls_in l3 = ls_in l" using l2 by (subst e3(4), simp)+
  moreover have "write_by_priority ?pe j (int (length ?pe)) (es, l) = Some (es3, l3)"
  proof -
    have "nat (ls_cnt l) = length (hs @ ls)" using s(2) by simp
    moreover have "tl (take (nat (int (length ?pe))) ?pe) = ph @ pl" by simp
    ultimately show ?thesis
      using sc(1) e1(1) e2(1) e3(1) sl(4) e1(4) unfolding write_by_priority_def l2_def
      by (simp del: take_Suc_Cons split: if_splits)
  qed
  ultimately show ?thesis using e3(2) by auto
qed

lemma et_llist_write_held:
  assumes h: "held (at_lists (es, l)) (hs @ ls)" and q: "queued es hs ls"
    and f: "free_events es (hs @ ls) (ph @ pl)" and qp: "queued es ph pl" and ne: "ph @ pl \<noteq> []"
    and room: "int (length (hs @ ls @ ph @ pl)) \<le> most"
  shows "\<exists>es' l'. et_llist_write most (ph @ pl) (int (length (ph @ pl))) (es, l) = Some (int (length (ph @ pl)), es', l')
     \<and> held (at_lists (es', l')) (hs @ ph @ ls @ pl) \<and> only_next (set (hs @ ls @ ph @ pl)) es es'
     \<and> ls_in l' = ls_in l + of_nat (length (ph @ pl))"
proof -
  let ?pe = "ph @ pl"
  have c: "ls_cnt l = int (length (hs @ ls))" using h by (simp add: held_def)
  have num: "\<not> int (length ?pe) > most - ls_cnt l" using room c by simp
  have p0: "hd ?pe < length es" "rd ?pe 0 = Some (hd ?pe)" "rd es (hd ?pe) = Some (es ! hd ?pe)"
    using f ne hd_in_set [OF ne] by (auto simp: free_events_def rd_def hd_conv_nth simp del: hd_append)
  have "\<exists>es' l'. (if ev_priority (es ! hd ?pe) = ET_LOW \<or> ls_cnt l = 0 then append_events ?pe (int (length ?pe)) (es, l)
      else write_by_priority ?pe (hd ?pe) (int (length ?pe)) (es, l)) = Some (es', l') \<and> shape (at_lists (es', l')) (hs @ ph @ ls @ pl)
    \<and> only_next (set (hs @ ls @ ph @ pl)) es es' \<and> ls_cnt l' = ls_cnt l \<and> ls_in l' = ls_in l"
  proof (cases "ph = [] \<or> hs @ ls = []")
    case True
    then have same: "hs @ ph @ ls @ pl = (hs @ ls) @ ?pe" by auto
    have lowfirst: "ev_priority (es ! hd ?pe) = ET_LOW \<or> ls_cnt l = 0"
      using True qp ne c by (cases pl) (auto simp: queued_def low_def)
    obtain es' l' where a: "append_events ?pe (int (length ?pe)) (es, l) = Some (es', l')" "shape (at_lists (es', l')) ((hs @ ls) @ ?pe)"
        "only_next (set ((hs @ ls) @ ?pe)) es es'" "l' = l\<lparr>ls_first := ls_first l', ls_last := ls_last l'\<rparr>"
      using append_held [OF h f ne] by blast
    have "ls_cnt l' = ls_cnt l" "ls_in l' = ls_in l" by (subst a(4), simp)+
    then show ?thesis using a(1-3) lowfirst unfolding same by auto
  next
    case False
    then obtain j ph' where ph: "ph = j # ph'" and ne': "hs @ ls \<noteq> []" by (cases ph) auto
    have hj: "ev_priority (es ! j) = ET_HIGH" using qp ph by (simp add: queued_def high_def)
    have "ls_cnt l \<noteq> 0" using c ne' by (cases hs; cases ls) auto
    moreover obtain es' l' where "write_by_priority ((j # ph') @ pl) j (int (length ((j # ph') @ pl))) (es, l) = Some (es', l')"
        "shape (at_lists (es', l')) (hs @ (j # ph') @ ls @ pl)" "only_next (set (hs @ ls @ (j # ph') @ pl)) es es'"
        "ls_cnt l' = ls_cnt l" "ls_in l' = ls_in l"
      using write_by_priority_ok [OF heldD(3) [OF h ne'] c q, of j ph' pl] f qp unfolding ph free_events_def by blast
    ultimately show ?thesis using hj unfolding ph by simp
  qed
  then obtain es' l' where e: "(if ev_priority (es ! hd ?pe) = ET_LOW \<or> ls_cnt l = 0 then append_events ?pe (int (length ?pe)) (es, l)
      else write_by_priority ?pe (hd ?pe) (int (length ?pe)) (es, l)) = Some (es', l')" and s: "shape (at_lists (es', l')) (hs @ ph @ ls @ pl)"
    "only_next (set (hs @ ls @ ph @ pl)) es es'" "ls_cnt l' = ls_cnt l" "ls_in l' = ls_in l" by blast
  have "held (at_lists (es', count_in (int (length ?pe)) l')) (hs @ ph @ ls @ pl)"
    by (rule held_count_in [OF h f ne s(1,2) _ _ s(3)]) auto
  moreover have "et_llist_write most ?pe (int (length ?pe)) (es, l) = Some (int (length ?pe), es', count_in (int (length ?pe)) l')"
    using e num p0(2,3) by (auto simp: et_llist_write_def Let_def split: if_splits)
  ultimately show ?thesis using s(2,4) by (auto simp: count_in_def)
qed

section \<open>Putting events back\<close>

lemma set_owners_ok:
  "set pe \<subseteq> {..<length es} \<Longrightarrow> \<exists>es'. set_owners a pe es = Some es' \<and> length es' = length es
     \<and> (\<forall>i < length es. es' ! i = (if i \<in> set pe then (es ! i)\<lparr>ev_owner := a\<rparr> else es ! i))"
proof (induction pe arbitrary: es)
  case (Cons i pe)
  obtain es' where "set_owners a pe (es[i := (es ! i)\<lparr>ev_owner := a\<rparr>]) = Some es'" "length es' = length es"
      "\<forall>j < length es. es' ! j = (if j \<in> set pe then (es[i := (es ! i)\<lparr>ev_owner := a\<rparr>] ! j)\<lparr>ev_owner := a\<rparr>
         else es[i := (es ! i)\<lparr>ev_owner := a\<rparr>] ! j)"
    using Cons.IH [of "es[i := (es ! i)\<lparr>ev_owner := a\<rparr>]"] Cons.prems by auto
  then show ?case using Cons.prems by (auto simp: nth_upd)
qed simp

text \<open>
  The events of low priority in front of those of the list; \<open>xs\<close> are the events before them, the last of
  which is given by one of two pointers.
\<close>

lemma put_lows_first_ok:
  assumes l: "linked es (xs @ ls)" "ls \<noteq> [] \<longrightarrow> ls_last l = Some (last ls)"
    and f: "xs \<noteq> [] \<longrightarrow> ls_first l = Some (hd xs)" "xs @ ls \<noteq> []" "xs = [] \<longrightarrow> ls_first l = Some (hd ls)"
    and p: "linked es pl" "pl \<noteq> []" "distinct (xs @ ls @ pl)"
    and b: "ls = [] \<longrightarrow> plast = Some (last xs)" "pfirstlow = (if ls = [] then None else Some (hd ls))"
      "ls \<noteq> [] \<longrightarrow> (if before \<noteq> None then before else head) = (if xs = [] then None else Some (last xs))"
  shows "\<exists>es' l'. put_lows_first plast before pfirstlow head pl (es, l) = Some (es', l')
     \<and> shape (at_lists (es', l')) (xs @ pl @ ls) \<and> only_next (set (xs @ pl @ ls)) es es'
     \<and> l' = l\<lparr>ls_first := ls_first l', ls_last := ls_last l'\<rparr>"
proof (cases "ls = []")
  case True
  then have xs: "xs \<noteq> []" "linked es xs" using f l by auto
  have "last xs < length es" using linked_lt [OF xs(2), of "last xs"] xs(1) by simp
  then obtain es1 where e1: "set_next (Some (last xs)) (Some (hd pl)) es = Some es1" "only_next {last xs} es es1"
      "ev_next (es1 ! last xs) = Some (hd pl)" using set_next_ok by blast
  have "linked es1 (xs @ pl)" by (rule linked_join [OF xs(2) p(1) xs(1) p(2) _ e1(2,3)]) (use p(3) True in auto)
  moreover have "only_next (set (xs @ pl)) es es1" by (rule only_next_mono [OF e1(2)]) (use xs in auto)
  ultimately show ?thesis using True e1(1) b(1,2) f(1) xs p(2,3) by (auto simp: put_lows_first_def shape_lists)
next
  case False
  have ls: "linked es ls" "linked es xs" using l(1) by (simp_all add: linked_append)
  have "\<exists>es1 l1. (if before \<noteq> None then do { es \<leftarrow> set_next before (Some (hd pl)) es; Some (es, l) }
                  else if head \<noteq> None then do { es \<leftarrow> set_next head (Some (hd pl)) es; Some (es, l) }
                  else Some (es, l\<lparr>ls_first := Some (hd pl)\<rparr>)) = Some (es1, l1)
      \<and> linked es1 (xs @ pl) \<and> linked es1 ls \<and> only_next (set xs) es es1
      \<and> l1 = l\<lparr>ls_first := Some (hd (xs @ pl))\<rparr>"
  proof (cases "xs = []")
    case True
    then show ?thesis using b(3) False p(1) ls by (auto split: if_splits)
  next
    case xs: False
    have "last xs < length es" using linked_lt [OF ls(2), of "last xs"] xs by simp
    then obtain es1 where e1: "set_next (Some (last xs)) (Some (hd pl)) es = Some es1" "only_next {last xs} es es1"
        "ev_next (es1 ! last xs) = Some (hd pl)" using set_next_ok by blast
    have "linked es1 (xs @ pl)" by (rule linked_join [OF ls(2) p(1) xs p(2) _ e1(2,3)]) (use p(3) in auto)
    moreover have "linked es1 ls"
      by (rule linked_only_next [OF ls(1) e1(2)]) (use p(3) last_in_set [OF xs] in \<open>auto dest!: in_set_butlastD simp del: last_in_set\<close>)
    moreover have "only_next (set xs) es es1" by (rule only_next_mono [OF e1(2)]) (use xs in auto)
    moreover have "l = l\<lparr>ls_first := Some (hd (xs @ pl))\<rparr>" using f(1) xs by (cases l) simp
    ultimately show ?thesis using b(3) False xs e1(1) by (auto split: if_splits)
  qed
  then obtain es1 l1 where e1: "(if before \<noteq> None then do { es \<leftarrow> set_next before (Some (hd pl)) es; Some (es, l) }
                  else if head \<noteq> None then do { es \<leftarrow> set_next head (Some (hd pl)) es; Some (es, l) }
                  else Some (es, l\<lparr>ls_first := Some (hd pl)\<rparr>)) = Some (es1, l1)"
      and s1: "linked es1 (xs @ pl)" "linked es1 ls" "only_next (set xs) es es1" "l1 = l\<lparr>ls_first := Some (hd (xs @ pl))\<rparr>"
    by blast
  have "last pl < length es1" using linked_lt [OF s1(1), of "last pl"] p(2) by simp
  then obtain es2 where e2: "set_next (Some (last pl)) (Some (hd ls)) es1 = Some es2" "only_next {last pl} es1 es2"
      "ev_next (es2 ! last pl) = Some (hd ls)" using set_next_ok by blast
  have "linked es2 ((xs @ pl) @ ls)"
    by (rule linked_join [OF s1(1,2) _ False]) (use p(2,3) e2 in auto)
  moreover have "only_next (set (xs @ pl @ ls)) es es2"
    by (rule only_next_mono [OF only_next_trans [OF s1(3) e2(2)]]) (use p(2) in auto)
  moreover have "put_lows_first plast before pfirstlow head pl (es, l) = Some (es2, l1)"
    using e1 e2(1) b(2) False by (simp add: put_lows_first_def split: if_splits)
  ultimately show ?thesis
    using s1(4) l(2) False p(2,3) by (auto simp: shape_lists hd_append)
qed

lemma restore_highs_ok:
  assumes s: "shape (at_lists (es, l)) (hs @ ls)" and d: "distinct ((j # ph) @ pl)" "set ((j # ph) @ pl) \<inter> set (hs @ ls) = {}"
      "set ((j # ph) @ pl) \<subseteq> {..<length es}" and qp: "queued es (j # ph) pl"
    and b: "pfirstlow = (if ls = [] then None else Some (hd ls))"
  shows "\<exists>es' l'. restore_highs ((j # ph) @ pl) (lasthigh_of hs) pfirstlow (es, l) = Some (es', l')
     \<and> shape (at_lists (es', l')) ((j # ph) @ hs @ pl @ ls) \<and> only_next (set ((j # ph) @ hs @ pl @ ls)) es es'
     \<and> l' = l\<lparr>ls_first := ls_first l', ls_last := ls_last l'\<rparr>"
proof -
  let ?pe = "(j # ph) @ pl"
  have sl: "linked es (hs @ ls)" "distinct (hs @ ls)" "hs @ ls \<noteq> []" "ls_first l = Some (hd (hs @ ls))" "ls_last l = Some (last (hs @ ls))"
    using s by (simp_all add: shape_lists)
  have j: "j < length es" using d(3) by simp
  obtain es1 where e1: "set_next (Some j) (ls_first l) es = Some es1" "only_next {j} es es1" "ev_next (es1 ! j) = ls_first l"
    using set_next_ok [OF j] by blast
  note len1 = only_next_length [OF e1(2)]
  have o1: "only_next (insert j (if ([] :: nat list) = [] then {} else {last []})) es es1" using e1(2) by simp
  have l1: "linked es1 ([] @ j # (hs @ ls))"
    by (rule linked_insert [OF _ _ _ j o1]) (use sl d e1(3) in auto)
  have hp: "\<forall>i\<in>set ph. high es1 i" "\<forall>i\<in>set pl. \<not> high es1 i"
    using qp d(3) only_next_priority [OF e1(2)] high_not_low by (auto simp: queued_def subset_iff)
  have dd: "distinct ([] @ j # (hs @ ls) @ ph @ pl)" "set (ph @ pl) \<subseteq> {..<length es1}"
    using d sl(2) len1 by auto
  obtain es2 where e2: "more_highs j (ph @ pl) (ls_first l) 1 es1 = Some (1 + length ph, es2)" "linked es2 ([] @ j # ph @ (hs @ ls))"
      "only_next (set (j # ph)) es1 es2"
    using more_highs_ok [OF l1 dd hp, of "ls_first l"] sl(4) by blast
  have o2: "only_next (set ((j # ph) @ hs @ pl @ ls)) es es2"
    by (rule only_next_mono [OF only_next_trans [OF e1(2) e2(3)]]) auto
  have len2: "length es2 = length es" using len1 only_next_length [OF e2(3)] by simp
  let ?l = "l\<lparr>ls_first := Some j\<rparr>"
  show ?thesis
  proof (cases "pl = []")
    case True
    have "l\<lparr>ls_first := Some j\<rparr> = l\<lparr>ls_first := Some j, ls_last := ls_last l\<rparr>" by (cases l) simp
    then show ?thesis using e1(1) e2(1,2) o2 sl dd(1) True by (auto simp: restore_highs_def shape_lists)
  next
    case False
    obtain es3 where e3: "link_up pl es2 = Some es3" "linked es3 pl" "only_next (set (butlast pl)) es2 es3"
      using link_up_ok [of pl es2] d len2 by auto
    have "set (butlast pl) \<inter> set (butlast ((j # ph @ hs) @ ls)) = {}" using dd(1) by (auto dest!: in_set_butlastD)
    then have l3: "linked es3 ((j # ph @ hs) @ ls)"
      by (rule linked_only_next [OF _ e3(3), rotated]) (use e2(2) in simp)
    have lst: "?pe ! length ph = last (j # ph)"
      using last_conv_nth [of "j # ph"] nth_append [of "j # ph" pl "length ph"] by simp
    obtain es4 l4 where e4: "put_lows_first (ls_last l) (lasthigh_of hs) pfirstlow (Some (last (j # ph))) pl (es3, ?l) = Some (es4, l4)"
        "shape (at_lists (es4, l4)) ((j # ph @ hs) @ pl @ ls)" "only_next (set ((j # ph @ hs) @ pl @ ls)) es3 es4"
        "l4 = ?l\<lparr>ls_first := ls_first l4, ls_last := ls_last l4\<rparr>"
    proof -
      have f1: "ls \<noteq> [] \<longrightarrow> ls_last ?l = Some (last ls)" using sl(5) by auto
      have f2: "j # ph @ hs \<noteq> [] \<longrightarrow> ls_first ?l = Some (hd (j # ph @ hs))" by simp
      have f3: "(j # ph @ hs) @ ls \<noteq> []" "j # ph @ hs = [] \<longrightarrow> ls_first ?l = Some (hd ls)" by simp_all
      have f4: "distinct ((j # ph @ hs) @ ls @ pl)" using dd(1) by auto
      have b1: "ls = [] \<longrightarrow> ls_last l = Some (last (j # ph @ hs))" using sl(3,5) by auto
      have b2: "ls \<noteq> [] \<longrightarrow> (if lasthigh_of hs \<noteq> None then lasthigh_of hs else Some (last (j # ph))) =
          (if j # ph @ hs = [] then None else Some (last (j # ph @ hs)))" by (auto simp: lasthigh_of_def)
      show ?thesis
        using put_lows_first_ok [OF l3 f1 f2 f3 e3(2) False f4 b1 b b2] by (elim exE conjE) (rule that)
    qed
    have "only_next (set ((j # ph) @ hs @ pl @ ls)) es es4"
      by (rule only_next_mono [OF only_next_trans [OF only_next_trans [OF o2 e3(3)] e4(3)]]) (auto dest: in_set_butlastD)
    moreover have "l4 = l\<lparr>ls_first := ls_first l4, ls_last := ls_last l4\<rparr>" by (subst e4(4)) simp
    ultimately show ?thesis using e1(1) e2(1) e3(1) e4(1,2) lst False by (auto simp: restore_highs_def)
  qed
qed

lemma linked_owner: "linked es xs \<Longrightarrow> length es' = length es \<Longrightarrow> (\<And>i. i < length es \<Longrightarrow> ev_next (es' ! i) = ev_next (es ! i)) \<Longrightarrow> linked es' xs"
  by (induction xs) auto

lemma scan_list:
  assumes "shape (at_lists (es, l)) (hs @ ls)" "queued es hs ls" "ls_cnt l = int (length (hs @ ls))"
  shows "\<exists>pevent. scan_high es (nat (ls_cnt l)) None (ls_first l) 0 = Some (lasthigh_of hs, pevent, int (length hs))
     \<and> (if int (length hs) = ls_cnt l then None else pevent) = (if ls = [] then None else Some (hd ls))"
proof -
  have "\<forall>i\<in>set hs. high es i" "\<forall>i\<in>set ls. \<not> high es i" using assms(2) high_not_low by (auto simp: queued_def)
  then obtain pevent where "scan_high es (length (hs @ ls)) None (Some (hd (hs @ ls))) 0 =
      Some (if hs = [] then None else Some (last hs), pevent, 0 + int (length hs))" "ls \<noteq> [] \<longrightarrow> pevent = Some (hd ls)"
    using scan_high_ok [of es hs ls None 0] assms(1) unfolding shape_lists by blast
  moreover have "nat (ls_cnt l) = length (hs @ ls)" "int (length hs) = ls_cnt l \<longleftrightarrow> ls = []" using assms(3) by auto
  ultimately show ?thesis using assms(1) by (auto simp del: length_append simp: shape_lists lasthigh_of_def)
qed

lemma restore_links_ok:
  assumes c: "ls_cnt l = int (length (hs @ ls))" and s: "hs @ ls \<noteq> [] \<longrightarrow> shape (at_lists (es, l)) (hs @ ls)"
    and d: "distinct (ph @ pl)" "set (ph @ pl) \<inter> set (hs @ ls) = {}" "set (ph @ pl) \<subseteq> {..<length es}"
    and qp: "queued es ph pl" and ne: "ph @ pl \<noteq> []"
  shows "\<exists>es' l'. restore_links (ph @ pl) (ev_priority (es ! hd (ph @ pl))) (lasthigh_of hs) (if ls = [] then None else Some (hd ls)) (es, l)
       = Some (es', l') \<and> shape (at_lists (es', l')) (ph @ hs @ pl @ ls) \<and> only_next (set (ph @ hs @ pl @ ls)) es es'
     \<and> l' = l\<lparr>ls_first := ls_first l', ls_last := ls_last l'\<rparr>"
proof (cases "hs @ ls = []")
  case True
  obtain es1 where "link_up (ph @ pl) es = Some es1" "linked es1 (ph @ pl)" "only_next (set (butlast (ph @ pl))) es es1"
    using link_up_ok [OF d(1,3)] by blast
  moreover from this(3) have "only_next (set (ph @ hs @ pl @ ls)) es es1" by (rule only_next_mono) (auto dest: in_set_butlastD)
  ultimately show ?thesis using True c d(1) ne by (simp add: shape_lists restore_links_def)
next
  case False
  have sl: "linked es (hs @ ls)" "distinct (hs @ ls)" "ls_first l = Some (hd (hs @ ls))" "ls_last l = Some (last (hs @ ls))"
    using s False by (simp_all add: shape_lists)
  have nz: "ls_cnt l \<noteq> 0" using c False by (cases hs; cases ls) auto
  show ?thesis
  proof (cases ph)
    case Nil
    then have lowfirst: "ev_priority (es ! hd (ph @ pl)) = ET_LOW" using qp ne by (cases pl) (auto simp: queued_def low_def)
    obtain es1 where e1: "link_up pl es = Some es1" "linked es1 pl" "only_next (set (butlast pl)) es es1"
      using link_up_ok [of pl es] d by auto
    have "set (butlast pl) \<inter> set (butlast (hs @ ls)) = {}" using d(2) by (auto dest!: in_set_butlastD)
    then have l1: "linked es1 (hs @ ls)" by (rule linked_only_next [OF sl(1) e1(3)])
    have pl: "pl \<noteq> []" using ne Nil by simp
    obtain es2 l2 where e2: "put_lows_first (ls_last l) (lasthigh_of hs) (if ls = [] then None else Some (hd ls)) None pl (es1, l) = Some (es2, l2)"
        "shape (at_lists (es2, l2)) (hs @ pl @ ls)" "only_next (set (hs @ pl @ ls)) es1 es2"
        "l2 = l\<lparr>ls_first := ls_first l2, ls_last := ls_last l2\<rparr>"
    proof -
      have f1: "ls \<noteq> [] \<longrightarrow> ls_last l = Some (last ls)" using sl(4) by auto
      have f2: "hs \<noteq> [] \<longrightarrow> ls_first l = Some (hd hs)" "hs = [] \<longrightarrow> ls_first l = Some (hd ls)" using sl(3) by auto
      have f4: "distinct (hs @ ls @ pl)" using d sl(2) Nil by auto
      have b1: "ls = [] \<longrightarrow> ls_last l = Some (last hs)" using sl(4) by auto
      have b2: "ls \<noteq> [] \<longrightarrow> (if lasthigh_of hs \<noteq> None then lasthigh_of hs else None) =
          (if hs = [] then None else Some (last hs))" by (auto simp: lasthigh_of_def)
      show ?thesis
        using put_lows_first_ok [OF l1 f1 f2(1) False f2(2) e1(2) pl f4 b1 refl b2] by (elim exE conjE) (rule that)
    qed
    have "only_next (set (ph @ hs @ pl @ ls)) es es2"
      by (rule only_next_mono [OF only_next_trans [OF e1(3) e2(3)]]) (auto dest: in_set_butlastD)
    then show ?thesis using e1(1) e2(1,2,4) lowfirst nz Nil by (simp add: restore_links_def)
  next
    case (Cons j ph')
    have hj: "ev_priority (es ! j) = ET_HIGH" using qp Cons by (simp add: queued_def high_def)
    have dd: "distinct ((j # ph') @ pl)" "set ((j # ph') @ pl) \<inter> set (hs @ ls) = {}" "set ((j # ph') @ pl) \<subseteq> {..<length es}"
      and qq: "queued es (j # ph') pl" and sh: "shape (at_lists (es, l)) (hs @ ls)"
      using d qp s False Cons by auto
    show ?thesis using restore_highs_ok [OF sh dd qq refl] hj nz unfolding Cons by (simp add: restore_links_def)
  qed
qed

text \<open>C25: 
  \<^verbatim>\<open>et_restore\<close> puts the events of high priority in front of the list and the others in front of the list's own
  events of low priority. The count of events of high priority, which an output list keeps, is left as it was.
\<close>

theorem et_restore_puts_back:
  assumes h: "held (at_lists (es, l)) (hs @ ls)" and q: "queued es hs ls"
    and d: "distinct (ph @ pl)" "set (ph @ pl) \<inter> set (hs @ ls) = {}" "set (ph @ pl) \<subseteq> {..<length es}"
    and qp: "queued es ph pl" and ne: "ph @ pl \<noteq> []" and room: "int (length (hs @ ls @ ph @ pl)) \<le> most"
  shows "\<exists>es' l'. et_restore most (ph @ pl) (int (length (ph @ pl))) (es, l) = Some (ET_OK, int (length (ph @ pl)), es', l')
     \<and> held (at_lists (es', l')) (ph @ hs @ pl @ ls) \<and> ls_lasthigh l' = ls_lasthigh l"
proof -
  let ?pe = "ph @ pl"
  have c: "ls_cnt l = int (length (hs @ ls))" using h by (simp add: held_def)
  have "0 < int (length ?pe)" using ne by (cases ph; cases pl) auto
  then have num: "\<not> most \<le> ls_cnt l" "\<not> int (length ?pe) > most - ls_cnt l" "\<not> int (length ?pe) < 1"
    using room c by simp_all
  obtain es0 where e0: "set_owners ET_SYS ?pe es = Some es0" "length es0 = length es"
      "\<forall>i < length es. es0 ! i = (if i \<in> set ?pe then (es ! i)\<lparr>ev_owner := ET_SYS\<rparr> else es ! i)"
    using set_owners_ok [OF d(3)] by blast
  have nx: "ev_next (es0 ! i) = ev_next (es ! i)" "ev_priority (es0 ! i) = ev_priority (es ! i)" if "i < length es" for i
    using e0(3) that by auto
  have sh: "hs @ ls \<noteq> [] \<longrightarrow> shape (at_lists (es0, l)) (hs @ ls)"
    using heldD(3) [OF h] linked_owner [OF _ e0(2) nx(1)] by (simp add: shape_lists)
  have qp0: "queued es0 ph pl" using qp d(3) nx(2) by (auto simp: queued_def high_def low_def subset_iff)
  have hd_lt: "hd ?pe < length es0" using hd_in_set [OF ne] d(3) e0(2) by auto
  obtain pevent hc where sc: "(if ls_cnt l \<noteq> 0 then scan_high es (nat (ls_cnt l)) None (ls_first l) 0 else Some (None, None, 0))
        = Some (lasthigh_of hs, pevent, hc)" "(if hc = ls_cnt l then None else pevent) = (if ls = [] then None else Some (hd ls))"
  proof (cases "hs @ ls = []")
    case True
    then show ?thesis using c that [of None 0] by (simp add: lasthigh_of_def)
  next
    case False
    then have "ls_cnt l \<noteq> 0" using c by (cases hs; cases ls) auto
    then show ?thesis using scan_list [OF heldD(3) [OF h False] q c] that by auto
  qed
  obtain es' l' where r: "restore_links ?pe (ev_priority (es0 ! hd ?pe)) (lasthigh_of hs) (if ls = [] then None else Some (hd ls)) (es0, l) = Some (es', l')"
      and s: "shape (at_lists (es', l')) (ph @ hs @ pl @ ls)" "only_next (set (ph @ hs @ pl @ ls)) es0 es'"
        "l' = l\<lparr>ls_first := ls_first l', ls_last := ls_last l'\<rparr>"
    using restore_links_ok [OF c sh d(1,2) _ qp0 ne] d(3) e0(2) by auto
  have l': "ls_cnt l' = ls_cnt l" "ls_lasthigh l' = ls_lasthigh l" by (subst s(3), simp)+
  have "et_restore most ?pe (int (length ?pe)) (es, l) = Some (ET_OK, int (length ?pe), es', l'\<lparr>ls_cnt := ls_cnt l' + int (length ?pe)\<rparr>)"
    using r e0(1) hd_lt num sc by (simp add: et_restore_def restore_events_def Let_def rd_def)
  moreover have "held (at_lists (es', l'\<lparr>ls_cnt := ls_cnt l' + int (length ?pe)\<rparr>)) (ph @ hs @ pl @ ls)"
  proof -
    have "\<forall>i\<in>set (ph @ hs @ pl @ ls). i < length es \<and> ev_owner (es0 ! i) = ET_SYS"
      using h held_lt [OF h] d(3) e0(3) by (auto simp: held_def owned_def subset_iff)
    then have "owned (at_lists (es', l')) (ph @ hs @ pl @ ls)"
      using only_nextD(1) [OF s(2)] e0(2) by (simp add: owned_def)
    then show ?thesis using s(1) c l'(1) by (simp add: held_def owned_def shape_lists)
  qed
  ultimately show ?thesis using l'(2) by auto
qed

section \<open>Examples\<close>

definition two_lists :: lists where
  "two_lists = (let e = et_init_event \<lparr>ev_next = None, ev_pdata = NoData, ev_length = 0, ev_memsize = 0, ev_modify = 0,
       ev_priority = 0, ev_owner = ET_SYS, ev_temp = 0, ev_age = 0, ev_datastatus = 0, ev_byteorder = 0, ev_group = 1,
       ev_place = 0, ev_control = [], ev_filename = []\<rparr> in
     ([e\<lparr>ev_next := Some 1, ev_priority := ET_HIGH\<rparr>, e, e\<lparr>ev_priority := ET_HIGH\<rparr>, e],
      et_init_llist\<lparr>ls_cnt := 2, ls_first := Some 0, ls_last := Some 1, ls_lasthigh := 1\<rparr>))"

lemma two_lists_held:
  "held (at_lists (fst two_lists, snd two_lists)) ([0] @ [1])" "queued (fst two_lists) [0] [1]" "queued (fst two_lists) [2] [3]"
  "free_events (fst two_lists) ([0] @ [1]) ([2] @ [3])"
  by (simp_all add: two_lists_def held_def owned_def shape_def queued_def high_def low_def free_events_def Let_def et_init_event_def)

theorem et_restore_puts_back_witness:
  "\<exists>es' l'. et_restore 4 [2, 3] 2 two_lists = Some (ET_OK, 2, es', l') \<and> held (at_lists (es', l')) [2, 0, 3, 1]
     \<and> ls_lasthigh l' = 1"
  using et_restore_puts_back [OF two_lists_held(1,2) _ _ _ two_lists_held(3), of 4]
  by (auto simp: two_lists_def Let_def)

end
