(* ===== verification/EtReadWrite.thy ===== *)
theory EtReadWrite
  imports EtServerLists
begin

text \<open>
  The routines of \<^verbatim>\<open>et_readwrite.c\<close> on a station: locking, waiting for events, reading, writing, dumping, and
  what becomes of the events of an attachment that is gone. \<open>None\<close> stands for a routine that does not return:
  it waits for ever, for an event or for a mutex that nobody unlocks, or the process is aborted.
\<close>

section \<open>A list of a station\<close>

definition frame_of :: "(et_station \<Rightarrow> et_list) \<Rightarrow> et_station \<Rightarrow> et_id \<Rightarrow> fr" where
  "frame_of get ps s = \<lparr>fr_events = id_events s, fr_list = get ps, fr_fixin = sn_fixin ps, fr_fixout = sn_fixout ps\<rparr>"

definition put_frame :: "int \<Rightarrow> ((et_list \<Rightarrow> et_list) \<Rightarrow> et_station \<Rightarrow> et_station) \<Rightarrow> fr \<Rightarrow> et_id \<Rightarrow> et_id option" where
  "put_frame n put t s = set_station n (\<lambda>ps. (put (\<lambda>_. fr_list t) ps)\<lparr>sn_fixin := fr_fixin t, sn_fixout := fr_fixout t\<rparr>)
     (s\<lparr>id_events := fr_events t\<rparr>)"

definition run_on :: "(et_station \<Rightarrow> et_list) \<Rightarrow> ((et_list \<Rightarrow> et_list) \<Rightarrow> et_station \<Rightarrow> et_station) \<Rightarrow> int \<Rightarrow>
    (fr, 'a) prog \<Rightarrow> et_id \<Rightarrow> ('a \<times> et_id) option" where
  "run_on get put n p s = do {
     ps \<leftarrow> station s n;
     (x, t) \<leftarrow> run p (frame_of get ps s);
     s \<leftarrow> put_frame n put t s;
     Some (x, s)
   }"

definition run_in :: "int \<Rightarrow> (fr, 'a) prog \<Rightarrow> et_id \<Rightarrow> ('a \<times> et_id) option" where
  "run_in = run_on sn_list_in sn_list_in_update"

definition run_out :: "int \<Rightarrow> (fr, 'a) prog \<Rightarrow> et_id \<Rightarrow> ('a \<times> et_id) option" where
  "run_out = run_on sn_list_out sn_list_out_update"

text \<open>\<^verbatim>\<open>et_llist_lock\<close> and \<^verbatim>\<open>et_llist_unlock\<close>.\<close>

definition lock_in :: "int \<Rightarrow> et_id \<Rightarrow> et_id option" where
  "lock_in n s = do {
     ps \<leftarrow> station s n;
     if ls_locked (sn_list_in ps) then None
     else set_station n (sn_list_in_update (\<lambda>l. l\<lparr>ls_locked := True\<rparr>)) s
   }"

definition unlock_in :: "int \<Rightarrow> et_id \<Rightarrow> et_id option" where
  "unlock_in n = set_station n (sn_list_in_update (\<lambda>l. l\<lparr>ls_locked := False\<rparr>))"

definition lock_out :: "int \<Rightarrow> et_id \<Rightarrow> et_id option" where
  "lock_out n s = do {
     ps \<leftarrow> station s n;
     if ls_locked (sn_list_out ps) then None
     else set_station n (sn_list_out_update (\<lambda>l. l\<lparr>ls_locked := True\<rparr>)) s
   }"

definition unlock_out :: "int \<Rightarrow> et_id \<Rightarrow> et_id option" where
  "unlock_out n = set_station n (sn_list_out_update (\<lambda>l. l\<lparr>ls_locked := False\<rparr>))"

definition locked_in :: "int \<Rightarrow> (fr, 'a) prog \<Rightarrow> et_id \<Rightarrow> ('a \<times> et_id) option" where
  "locked_in n p s = do { s \<leftarrow> lock_in n s; (x, s) \<leftarrow> run_in n p s; s \<leftarrow> unlock_in n s; Some (x, s) }"

definition locked_out :: "int \<Rightarrow> (fr, 'a) prog \<Rightarrow> et_id \<Rightarrow> ('a \<times> et_id) option" where
  "locked_out n p s = do { s \<leftarrow> lock_out n s; (x, s) \<leftarrow> run_out n p s; s \<leftarrow> unlock_out n s; Some (x, s) }"

section \<open>Writing and dumping\<close>

definition et_station_write :: "int \<Rightarrow> nat \<Rightarrow> et_id \<Rightarrow> (int \<times> et_id) option" where
  "et_station_write n pe s = locked_out n (write_prog (nevents s) (Some pe)) s"

definition et_station_nwrite :: "int \<Rightarrow> nat list \<Rightarrow> et_id \<Rightarrow> (int \<times> et_id) option" where
  "et_station_nwrite n pe s = (if pe = [] then Some (ET_OK, s) else locked_out n (nwrite_prog (nevents s) pe) s)"

definition et_station_nwriteNoPri :: "int \<Rightarrow> nat list \<Rightarrow> et_id \<Rightarrow> (int \<times> et_id) option" where
  "et_station_nwriteNoPri n pe s = (if pe = [] then Some (ET_OK, s) else locked_out n (nwriteNoPri_prog (nevents s) pe) s)"

definition et_station_dump :: "nat \<Rightarrow> et_id \<Rightarrow> (int \<times> et_id) option" where
  "et_station_dump pe s = locked_in ET_GRANDCENTRAL (dump_prog (nevents s) (Some pe)) s"

definition et_station_ndump :: "nat list \<Rightarrow> et_id \<Rightarrow> (int \<times> et_id) option" where
  "et_station_ndump pe s = (if pe = [] then Some (ET_OK, s) else locked_in ET_GRANDCENTRAL (ndump_prog (nevents s) pe) s)"

section \<open>Waiting for events\<close>

text \<open>
  What ends a wait for the condition variable, and what the other threads have done in the meantime: a
  signal, the time given, or an error of \<^verbatim>\<open>pthread_cond_timedwait\<close>.
\<close>

datatype wait = Signal "et_id \<Rightarrow> et_id" | Timeout "et_id \<Rightarrow> et_id" | WaitError "et_id \<Rightarrow> et_id"

primrec others :: "wait \<Rightarrow> et_id \<Rightarrow> et_id" where
  "others (Signal f) = f" | "others (Timeout f) = f" | "others (WaitError f) = f"

definition cond_wait :: "int \<Rightarrow> int \<Rightarrow> wait \<Rightarrow> et_id \<Rightarrow> et_id option" where
  "cond_wait n att w s = do {
     s \<leftarrow> set_attachment att (\<lambda>a. a\<lparr>at_blocked := ET_ATT_BLOCKED\<rparr>) s;
     s \<leftarrow> unlock_in n s;
     s \<leftarrow> lock_in n (others w s);
     set_attachment att (\<lambda>a. a\<lparr>at_blocked := ET_ATT_UNBLOCKED\<rparr>) s
   }"

text \<open>Has \<^verbatim>\<open>et_wakeup_attachment\<close> (or the like) asked the attachment to return?\<close>

definition told_to_quit :: "int \<Rightarrow> int \<Rightarrow> et_id \<Rightarrow> (int option \<times> et_id) option" where
  "told_to_quit n att s = do {
     a \<leftarrow> attachment s att;
     if at_quit a = ET_ATT_QUIT then do {
       s \<leftarrow> unlock_in n s;
       s \<leftarrow> set_attachment att (\<lambda>a. a\<lparr>at_quit := ET_ATT_CONTINUE\<rparr>) s;
       Some (Some ET_ERROR_WAKEUP, s)
     } else Some (None, s)
   }"

definition count_new :: "int \<Rightarrow> int \<Rightarrow> et_id \<Rightarrow> et_id option" where
  "count_new n cnt s =
     (if n \<noteq> ET_GRANDCENTRAL then Some s
      else if cnt < 0 then None
      else do { h \<leftarrow> rd (id_histogram s) (nat cnt); Some (s\<lparr>id_histogram := (id_histogram s)[nat cnt := h + 1]\<rparr>) })"

text \<open>
  The loop around the wait. \<open>scan\<close> is false when the list has already been looked through. The result is
  the status with which the routine returns, or \<open>None\<close> when there are events to be read; the plan holds the
  waits that are left.
\<close>

fun wait_loop :: "bool \<Rightarrow> int \<Rightarrow> int \<Rightarrow> bool \<Rightarrow> wait list \<Rightarrow> et_id \<Rightarrow> (int option \<times> wait list \<times> et_id) option" where
  "wait_loop timed n att scan plan s = do {
     ps \<leftarrow> station s n;
     if ls_cnt (sn_list_in ps) \<ge> 1 \<and> scan then Some (None, plan, s)
     else case plan of
       [] \<Rightarrow> None
     | w # plan \<Rightarrow> do {
         s \<leftarrow> cond_wait n att w s;
         case w of
           Timeout f \<Rightarrow> if timed then do { s \<leftarrow> unlock_in n s; Some (Some ET_ERROR_TIMEOUT, plan, s) } else None
         | WaitError f \<Rightarrow> if timed then Some (Some ET_ERROR, plan, s) else None
         | Signal f \<Rightarrow> do {
             (r, s) \<leftarrow> told_to_quit n att s;
             if r \<noteq> None then Some (r, plan, s) else wait_loop timed n att True plan s
           }
       }
   }"

declare wait_loop.simps [simp del]

definition wait_for_events :: "int \<Rightarrow> int \<Rightarrow> int \<Rightarrow> bool \<Rightarrow> wait list \<Rightarrow> et_id \<Rightarrow> (int option \<times> wait list \<times> et_id) option" where
  "wait_for_events mode n att scan plan s =
     (if mode = ET_SLEEP \<or> mode = ET_TIMED then do {
        s \<leftarrow> lock_in n s;
        ps \<leftarrow> station s n;
        s \<leftarrow> (if scan then count_new n (ls_cnt (sn_list_in ps)) s else Some s);
        wait_loop (mode = ET_TIMED) n att scan plan s
      }
      else if mode = ET_ASYNC then do {
        ps \<leftarrow> station s n;
        if ls_locked (sn_list_in ps) then Some (Some ET_ERROR_BUSY, plan, s)
        else do {
          s \<leftarrow> lock_in n s;
          (r, s) \<leftarrow> told_to_quit n att s;
          if r \<noteq> None then Some (r, plan, s)
          else do {
            s \<leftarrow> count_new n (ls_cnt (sn_list_in ps)) s;
            if ls_cnt (sn_list_in ps) < 1 then do { s \<leftarrow> unlock_in n s; Some (Some ET_ERROR_EMPTY, plan, s) }
            else Some (None, plan, s)
          }
        }
      }
      else Some (Some ET_ERROR, plan, s))"

section \<open>Reading\<close>

definition et_station_read :: "int \<Rightarrow> int \<Rightarrow> int \<Rightarrow> wait list \<Rightarrow> et_id \<Rightarrow> (int \<times> eptr \<times> et_id) option" where
  "et_station_read n mode att plan s = do {
     (r, plan, s) \<leftarrow> wait_for_events mode n att True plan s;
     case r of
       Some status \<Rightarrow> Some (status, None, s)
     | None \<Rightarrow> do { (pe, s) \<leftarrow> run_in n (read_prog att) s; s \<leftarrow> unlock_in n s; Some (ET_OK, pe, s) }
   }"

definition et_station_nread :: "int \<Rightarrow> int \<Rightarrow> int \<Rightarrow> int \<Rightarrow> wait list \<Rightarrow> et_id \<Rightarrow> (int \<times> nat list \<times> et_id) option" where
  "et_station_nread n mode att num plan s =
     (if num < 1 then Some (ET_OK, [], s)
      else do {
        (r, plan, s) \<leftarrow> wait_for_events mode n att True plan s;
        case r of
          Some status \<Rightarrow> Some (status, [], s)
        | None \<Rightarrow> do { (pe, s) \<leftarrow> run_in n (nread_prog att num) s; s \<leftarrow> unlock_in n s; Some (ET_OK, pe, s) }
      })"

text \<open>
  The events of one group: when the list has none of them, the routine waits for the next change, now with
  \<^verbatim>\<open>num\<close> cut down to what the list held.
\<close>

definition try_group :: "int \<Rightarrow> int \<Rightarrow> int \<Rightarrow> int \<Rightarrow> et_id \<Rightarrow> (nat list \<times> int \<times> et_id) option" where
  "try_group n att grp num s = do {
     ps \<leftarrow> station s n;
     let num = min num (ls_cnt (sn_list_in ps));
     (pe, s) \<leftarrow> run_in n (group_prog att grp num) s;
     s \<leftarrow> unlock_in n s;
     Some (pe, num, s)
   }"

lemma wait_loop_plan:
  "wait_loop timed n att scan plan s = Some (r, plan', s') \<Longrightarrow>
     length plan' \<le> length plan \<and> (\<not> scan \<longrightarrow> length plan' < length plan)"
proof (induction plan arbitrary: scan s)
  case Nil
  then show ?case
    by (cases "station s n") (simp_all add: wait_loop.simps [of timed n att scan "[]" s] split: if_splits)
next
  case (Cons w plan)
  obtain ps where ps: "station s n = Some ps"
    using Cons.prems by (cases "station s n") (simp_all add: wait_loop.simps [of timed n att scan "w # plan" s])
  show ?case
  proof (cases "ls_cnt (sn_list_in ps) \<ge> 1 \<and> scan")
    case True
    then show ?thesis using Cons.prems ps by (simp add: wait_loop.simps [of timed n att True "w # plan" s])
  next
    case False
    then obtain u where u: "cond_wait n att w s = Some u"
      using Cons.prems ps
      by (cases "cond_wait n att w s") (simp_all add: wait_loop.simps [of timed n att scan "w # plan" s] split: if_splits)
    have e: "wait_loop timed n att scan (w # plan) s = (case w of
           Timeout f \<Rightarrow> if timed then do { s \<leftarrow> unlock_in n u; Some (Some ET_ERROR_TIMEOUT, plan, s) } else None
         | WaitError f \<Rightarrow> if timed then Some (Some ET_ERROR, plan, u) else None
         | Signal f \<Rightarrow> do {
             (r, s) \<leftarrow> told_to_quit n att u;
             if r \<noteq> None then Some (r, plan, s) else wait_loop timed n att True plan s
           })"
      using False ps u by (auto simp: wait_loop.simps [of timed n att scan "w # plan" s])
    show ?thesis
    proof (cases w)
      case (Signal f)
      then obtain r0 t where t: "told_to_quit n att u = Some (r0, t)"
        using Cons.prems e by (cases "told_to_quit n att u") auto
      show ?thesis
        using Cons.prems e Signal t Cons.IH [of True t] by (cases "r0 = None") simp_all
    next
      case (Timeout f)
      then show ?thesis using Cons.prems e by (cases "unlock_in n u") (simp_all split: if_splits)
    next
      case (WaitError f)
      then show ?thesis using Cons.prems e by (simp split: if_splits)
    qed
  qed
qed

lemma wait_for_events_plan:
  "wait_for_events mode n att scan plan s = Some (None, plan', s') \<Longrightarrow> mode \<noteq> ET_ASYNC \<Longrightarrow>
     length plan' \<le> length plan \<and> (\<not> scan \<longrightarrow> length plan' < length plan)"
proof -
  assume w: "wait_for_events mode n att scan plan s = Some (None, plan', s')" and m: "mode \<noteq> ET_ASYNC"
  then obtain t where "wait_loop (mode = ET_TIMED) n att scan plan t = Some (None, plan', s')"
    unfolding wait_for_events_def by (auto simp: bind_eq_Some_conv split: if_splits)
  then show ?thesis by (rule wait_loop_plan)
qed

function nread_group_loop :: "int \<Rightarrow> int \<Rightarrow> int \<Rightarrow> int \<Rightarrow> int \<Rightarrow> bool \<Rightarrow> wait list \<Rightarrow> et_id \<Rightarrow> (int \<times> nat list \<times> et_id) option" where
  "nread_group_loop n mode att num grp scan plan s =
     Option.bind (wait_for_events mode n att scan plan s) (\<lambda>(r, plan', s).
       case r of
         Some status \<Rightarrow> Some (status, [], s)
       | None \<Rightarrow> Option.bind (try_group n att grp num s) (\<lambda>(pe, num, s).
           if pe = [] \<and> mode \<noteq> ET_ASYNC then nread_group_loop n mode att num grp False plan' s
           else Some (ET_OK, pe, s)))"
  by pat_completeness auto
termination
  by (relation "measures [\<lambda>(n, mode, att, num, grp, scan, plan, s). length plan, \<lambda>(n, mode, att, num, grp, scan, plan, s). of_bool scan]")
    (auto dest!: wait_for_events_plan simp: le_less)

declare nread_group_loop.simps [simp del]

definition et_station_nread_group :: "int \<Rightarrow> int \<Rightarrow> int \<Rightarrow> int \<Rightarrow> int \<Rightarrow> wait list \<Rightarrow> et_id \<Rightarrow> (int \<times> nat list \<times> et_id) option" where
  "et_station_nread_group n mode att num grp plan s =
     (if num < 1 then Some (ET_OK, [], s) else nread_group_loop n mode att num grp True plan s)"


section \<open>Events of an attachment that is gone\<close>

text \<open>The first of a group of parallel stations, and the station before the group in the main list.\<close>

partial_function (option) first_parallel :: "et_id \<Rightarrow> int \<Rightarrow> int option" where
  "first_parallel s n = Option.bind (station s n) (\<lambda>ps.
     if sn_prevparallel ps > -1 then first_parallel s (sn_prevparallel ps) else Some n)"

definition station_before_group :: "et_id \<Rightarrow> int \<Rightarrow> int option" where
  "station_before_group s n = do { m \<leftarrow> first_parallel s n; ps \<leftarrow> station s m; Some (sn_prev ps) }"

text \<open>\<^verbatim>\<open>et_restore\<close> with its mutex.\<close>

definition restore_to_in :: "int \<Rightarrow> nat list \<Rightarrow> et_id \<Rightarrow> (int \<times> int \<times> et_id) option" where
  "restore_to_in n pe s = do {
     s \<leftarrow> lock_in n s;
     ps \<leftarrow> station s n;
     (status, num, es, l) \<leftarrow> et_restore (nevents s) pe (int (length pe)) (id_events s, sn_list_in ps);
     s \<leftarrow> set_station n (\<lambda>ps. ps\<lparr>sn_list_in := l\<rparr>) (s\<lparr>id_events := es\<rparr>);
     s \<leftarrow> unlock_in n s;
     Some (status, num, s)
   }"

definition restore_to_out :: "int \<Rightarrow> nat list \<Rightarrow> et_id \<Rightarrow> (int \<times> int \<times> et_id) option" where
  "restore_to_out n pe s = do {
     s \<leftarrow> lock_out n s;
     ps \<leftarrow> station s n;
     (status, num, es, l) \<leftarrow> et_restore (nevents s) pe (int (length pe)) (id_events s, sn_list_out ps);
     s \<leftarrow> set_station n (\<lambda>ps. ps\<lparr>sn_list_out := l\<rparr>) (s\<lparr>id_events := es\<rparr>);
     s \<leftarrow> unlock_out n s;
     Some (status, num, s)
   }"

text \<open>
  The events left in the input list of a station that nobody is attached to. The memory for the array is
  always had here.
\<close>

definition et_flush_events :: "int \<Rightarrow> int \<Rightarrow> et_id \<Rightarrow> et_id option" where
  "et_flush_events att n s =
     (if n = ET_GRANDCENTRAL then Some s
      else do {
        (status, pe, s) \<leftarrow> et_station_nread n ET_ASYNC att (nevents s) [] s;
        if status < 0 then Some s
        else do {
          ps \<leftarrow> station s n;
          if cf_restore_mode (sn_config ps) = ET_STATION_RESTORE_REDIST then do {
            m \<leftarrow> station_before_group s n;
            (status, num, s) \<leftarrow> restore_to_out m pe s;
            Some s
          }
          else do { (status, s) \<leftarrow> et_station_nwrite n pe s; Some s }
        }
      })"

text \<open>The files of temporary events that go back to Grand Central are removed.\<close>

fun remove_temps :: "nat list \<Rightarrow> et_id \<Rightarrow> et_id option" where
  "remove_temps [] s = Some s"
| "remove_temps (i # pe) s = do {
     e \<leftarrow> rd (id_events s) i;
     remove_temps pe
       (if ev_temp e = ET_EVENT_TEMP
        then s\<lparr>id_files := id_files s - {ev_filename e}, id_sys := (id_sys s)\<lparr>sy_ntemps := sy_ntemps (id_sys s) - 1\<rparr>\<rparr>
        else s)
   }"

fun mark_corrupt :: "nat list \<Rightarrow> et_id \<Rightarrow> et_id option" where
  "mark_corrupt [] s = Some s"
| "mark_corrupt (i # pe) s = do {
     es \<leftarrow> change (Some i) (\<lambda>e. e\<lparr>ev_datastatus := ET_DATA_POSSIBLY_CORRUPT\<rparr>) (id_events s);
     mark_corrupt pe (s\<lparr>id_events := es\<rparr>)
   }"

text \<open>
  The events that belong to \<^verbatim>\<open>att\<close>, the new ones and the others, and the others with high priority first. The
  owner of the others is the system from now on.
\<close>

definition owned_events :: "int \<Rightarrow> et_id \<Rightarrow> nat list" where
  "owned_events att s = filter (\<lambda>i. ev_owner (id_events s ! i) = att) [0..<nat (nevents s)]"

definition lost_new :: "int \<Rightarrow> et_id \<Rightarrow> nat list" where
  "lost_new att s = filter (\<lambda>i. ev_age (id_events s ! i) = ET_EVENT_NEW) (owned_events att s)"

definition lost_used :: "int \<Rightarrow> et_id \<Rightarrow> nat list" where
  "lost_used att s = filter (\<lambda>i. ev_age (id_events s ! i) \<noteq> ET_EVENT_NEW) (owned_events att s)"

definition lost_ordered :: "int \<Rightarrow> et_id \<Rightarrow> nat list" where
  "lost_ordered att s =
     filter (\<lambda>i. ev_priority (id_events s ! i) = ET_HIGH) (lost_used att s) @
     filter (\<lambda>i. ev_priority (id_events s ! i) \<noteq> ET_HIGH) (lost_used att s)"

text \<open>Where the used events go.\<close>

definition restore_used :: "int \<Rightarrow> nat list \<Rightarrow> et_id \<Rightarrow> (int \<times> et_id) option" where
  "restore_used n pe s = do {
     ps \<leftarrow> station s n;
     let mode = cf_restore_mode (sn_config ps);
     if mode = ET_STATION_RESTORE_GC \<or> n = ET_GRANDCENTRAL then do {
       s \<leftarrow> remove_temps pe s;
       et_station_ndump pe s
     }
     else if mode = ET_STATION_RESTORE_OUT \<or> (mode = ET_STATION_RESTORE_IN \<and> sn_nattachments ps = 0) then do {
       s \<leftarrow> mark_corrupt pe s;
       et_station_nwrite n pe s
     }
     else if mode = ET_STATION_RESTORE_IN then do {
       s \<leftarrow> mark_corrupt pe s;
       (status, num, s) \<leftarrow> restore_to_in n pe s;
       if status \<noteq> ET_OK then None
       else if num < int (length pe) then et_station_nwrite n (drop (nat num) pe) s
       else Some (status, s)
     }
     else if mode = ET_STATION_RESTORE_REDIST then do {
       s \<leftarrow> mark_corrupt pe s;
       m \<leftarrow> station_before_group s n;
       (status, num, s) \<leftarrow> restore_to_out m pe s;
       Some (status, s)
     }
     else Some (ET_ERROR, s)
   }"

definition et_restore_events :: "int \<Rightarrow> int \<Rightarrow> et_id \<Rightarrow> (int \<times> et_id) option" where
  "et_restore_events att n s =
     (if int (length (id_events s)) < nevents s then None
      else do {
        let new = lost_new att s;
        let ordered = lost_ordered att s;
        es \<leftarrow> set_owners ET_SYS (lost_used att s) (id_events s);
        let s = s\<lparr>id_events := es\<rparr>;
        if ordered = [] \<and> new = [] then Some (ET_OK, s)
        else do {
          (status, s) \<leftarrow>
            (if new \<noteq> [] then do { s \<leftarrow> remove_temps new s; et_station_ndump new s }
             else Some (ET_OK, s));
          if ordered \<noteq> [] then restore_used n ordered s else Some (status, s)
        }
      })"

section \<open>Repairing the lists of a station\<close>

text \<open>A mutex that has been locked for two seconds belongs to a process that died.\<close>

definition repair_on :: "(et_station \<Rightarrow> et_list) \<Rightarrow> ((et_list \<Rightarrow> et_list) \<Rightarrow> et_station \<Rightarrow> et_station) \<Rightarrow>
    (fr \<Rightarrow> (int \<times> fr) option) \<Rightarrow> int \<Rightarrow> et_id \<Rightarrow> (int \<times> et_id) option" where
  "repair_on get put f n s = do {
     ps \<leftarrow> station s n;
     (status, t) \<leftarrow> f (frame_of get ps s);
     s \<leftarrow> put_frame n put t s;
     if status = ET_ERROR then Some (status, s)
     else do { s \<leftarrow> set_station n (put (\<lambda>l. l\<lparr>ls_locked := False\<rparr>)) s; Some (ET_OK, s) }
   }"

definition et_repair_station :: "int \<Rightarrow> et_id \<Rightarrow> (int \<times> et_id) option" where
  "et_repair_station n s = do {
     ps \<leftarrow> station s n;
     if ls_locked (sn_list_in ps) then repair_on sn_list_in sn_list_in_update et_repair_inputlist n s
     else if ls_locked (sn_list_out ps) then repair_on sn_list_out sn_list_out_update et_repair_outputlist n s
     else Some (ET_OK, s)
   }"

definition et_repair_gc :: "et_id \<Rightarrow> (int \<times> et_id) option" where
  "et_repair_gc s = do {
     ps \<leftarrow> station s ET_GRANDCENTRAL;
     if ls_locked (sn_list_in ps)
     then repair_on sn_list_in sn_list_in_update
       (if fi_call (sn_fixin ps) = ET_FIX_DUMP then et_repair_gcinputlist else et_repair_inputlist) ET_GRANDCENTRAL s
     else Some (ET_OK, s)
   }"

end
