(* ===== verification/EtQueues.thy ===== *)
theory EtQueues
  imports EtDumpProofs EtReadWrite
begin

text \<open>
  What reading, writing and dumping do to a station: its output list is a pair of queues, its input list one
  queue. A process may be stopped after any store of such a routine; the repair by the server makes the
  station's lists queues again that hold what they held before and a first part of what was being added, or
  have lost what was being read and nothing else.
\<close>

section \<open>Stations\<close>

lemma station_set [simp]:
  "set_station n f s = Some s' \<Longrightarrow> station s' m = (if m = n then map_option f (station s n) else station s m)"
  by (auto simp: set_station_def station_def rd_def nth_list_update bind_eq_Some_conv split: if_splits)

lemma set_station_Some: "station s n = Some ps \<Longrightarrow> \<exists>s'. set_station n f s = Some s' \<and> station s' n = Some (f ps)
     \<and> (\<forall>m. m \<noteq> n \<longrightarrow> station s' m = station s m) \<and> s' = s\<lparr>id_stats := id_stats s'\<rparr>"
  by (auto simp: set_station_def station_def rd_def nth_list_update split: if_splits)

text \<open>Nothing changes but the events and one station.\<close>

definition only_station :: "int \<Rightarrow> et_id \<Rightarrow> et_id \<Rightarrow> bool" where
  "only_station n s s' = ((\<exists>es st. s' = s\<lparr>id_events := es, id_stats := st\<rparr>) \<and> (\<forall>m. m \<noteq> n \<longrightarrow> station s' m = station s m))"

lemma only_station_trans: "only_station n s t \<Longrightarrow> only_station n t u \<Longrightarrow> only_station n s u"
  by (auto simp: only_station_def) (rule exI, rule exI, rule refl)

lemma only_station_refl: "only_station n s s"
  unfolding only_station_def by (rule conjI, rule exI [of _ "id_events s"], rule exI [of _ "id_stats s"]) simp_all

lemma station_events [simp]: "station (s\<lparr>id_events := es\<rparr>) n = station s n"
  by (simp add: station_def)

lemma nevents_events [simp]: "nevents (s\<lparr>id_events := es\<rparr>) = nevents s" "nevents (s\<lparr>id_stats := st\<rparr>) = nevents s"
  by (simp_all add: nevents_def)

text \<open>The two lists of a station have the same interface.\<close>

locale station_list =
  fixes get :: "et_station \<Rightarrow> et_list" and put :: "(et_list \<Rightarrow> et_list) \<Rightarrow> et_station \<Rightarrow> et_station"
  assumes get_put: "get (put f ps) = f (get ps)"
    and put_put: "put f (put g ps) = put (\<lambda>l. f (g l)) ps"
    and put_notes: "sn_fixin (put f ps) = sn_fixin ps" "sn_fixout (put f ps) = sn_fixout ps"
    and get_notes: "get (ps\<lparr>sn_fixin := x\<rparr>) = get ps" "get (ps\<lparr>sn_fixout := y\<rparr>) = get ps"
begin

definition at :: "et_id \<Rightarrow> int \<Rightarrow> fr \<Rightarrow> bool" where
  "at s n t = (\<exists>ps. station s n = Some ps \<and> t = frame_of get ps s)"

lemma at_unique: "at s n t \<Longrightarrow> at s n u \<Longrightarrow> u = t"
  by (auto simp: at_def)

lemma at_events: "at s n t \<Longrightarrow> fr_events t = id_events s"
  by (auto simp: at_def frame_of_def)

lemma set_lock:
  assumes "at s n t"
  shows "\<exists>s'. set_station n (put (\<lambda>l. l\<lparr>ls_locked := b\<rparr>)) s = Some s' \<and> only_station n s s' \<and> id_events s' = id_events s
     \<and> at s' n (t\<lparr>fr_list := (fr_list t)\<lparr>ls_locked := b\<rparr>\<rparr>)"
proof -
  obtain ps where ps: "station s n = Some ps" "t = frame_of get ps s" using assms by (auto simp: at_def)
  obtain s' where s': "set_station n (put (\<lambda>l. l\<lparr>ls_locked := b\<rparr>)) s = Some s'"
      "station s' n = Some (put (\<lambda>l. l\<lparr>ls_locked := b\<rparr>) ps)" "\<forall>m. m \<noteq> n \<longrightarrow> station s' m = station s m"
      "s' = s\<lparr>id_stats := id_stats s'\<rparr>"
    using set_station_Some [OF ps(1)] by blast
  have "id_events s' = id_events s" by (subst s'(4)) simp
  moreover have "\<exists>es st. s' = s\<lparr>id_events := es, id_stats := st\<rparr>"
    by (rule exI [of _ "id_events s"], rule exI [of _ "id_stats s'"]) (subst s'(4), simp)
  then have "only_station n s s'" using s'(3) by (simp add: only_station_def)
  moreover have "at s' n (t\<lparr>fr_list := (fr_list t)\<lparr>ls_locked := b\<rparr>\<rparr>)"
    using s'(2) ps(2) calculation(1) by (auto simp: at_def frame_of_def get_put put_notes)
  ultimately show ?thesis using s'(1) by blast
qed

lemma put_frame_at:
  assumes "at s n t"
  shows "\<exists>s'. put_frame n put u s = Some s' \<and> only_station n s s' \<and> at s' n u"
proof -
  obtain ps where ps: "station s n = Some ps" "t = frame_of get ps s" using assms by (auto simp: at_def)
  let ?f = "\<lambda>ps. (put (\<lambda>_. fr_list u) ps)\<lparr>sn_fixin := fr_fixin u, sn_fixout := fr_fixout u\<rparr>"
  let ?s = "s\<lparr>id_events := fr_events u\<rparr>"
  have "station ?s n = Some ps" using ps by simp
  from set_station_Some [OF this, of ?f] obtain s' where s': "set_station n ?f ?s = Some s'"
      "station s' n = Some (?f ps)" "\<forall>m. m \<noteq> n \<longrightarrow> station s' m = station ?s m" "s' = ?s\<lparr>id_stats := id_stats s'\<rparr>"
    by blast
  have e: "id_events s' = fr_events u" by (subst s'(4)) simp
  have "\<exists>es st. s' = s\<lparr>id_events := es, id_stats := st\<rparr>"
    by (rule exI [of _ "fr_events u"], rule exI [of _ "id_stats s'"]) (subst s'(4), simp)
  then have "only_station n s s'" using s'(3) by (simp add: only_station_def)
  moreover have "at s' n u" using s'(2) e by (auto simp: at_def frame_of_def get_put get_notes)
  ultimately show ?thesis using s'(1) by (auto simp: put_frame_def)
qed

lemma run_on_at:
  assumes "at s n t" "run p t = Some (x, u)"
  shows "\<exists>s'. run_on get put n p s = Some (x, s') \<and> only_station n s s' \<and> at s' n u"
  using put_frame_at [OF assms(1), of u] assms by (auto simp: run_on_def at_def)

lemma at_other: "at s n t \<Longrightarrow> only_station m s s' \<Longrightarrow> id_events s' = id_events s \<Longrightarrow> m \<noteq> n \<Longrightarrow> at s' n t"
  by (auto simp: at_def only_station_def frame_of_def)

lemma locked_run:
  assumes a: "at s n t" and r: "run p (t\<lparr>fr_list := (fr_list t)\<lparr>ls_locked := True\<rparr>\<rparr>) = Some (x, u)"
  shows "\<exists>s1 s2 s3. set_station n (put (\<lambda>l. l\<lparr>ls_locked := True\<rparr>)) s = Some s1 \<and> run_on get put n p s1 = Some (x, s2)
     \<and> set_station n (put (\<lambda>l. l\<lparr>ls_locked := False\<rparr>)) s2 = Some s3 \<and> only_station n s s3
     \<and> at s3 n (u\<lparr>fr_list := (fr_list u)\<lparr>ls_locked := False\<rparr>\<rparr>)"
proof -
  obtain s1 where s1: "set_station n (put (\<lambda>l. l\<lparr>ls_locked := True\<rparr>)) s = Some s1" "only_station n s s1"
      "at s1 n (t\<lparr>fr_list := (fr_list t)\<lparr>ls_locked := True\<rparr>\<rparr>)"
    using set_lock [OF a, of True] by blast
  obtain s2 where s2: "run_on get put n p s1 = Some (x, s2)" "only_station n s1 s2" "at s2 n u"
    using run_on_at [OF s1(3) r] by blast
  obtain s3 where s3: "set_station n (put (\<lambda>l. l\<lparr>ls_locked := False\<rparr>)) s2 = Some s3" "only_station n s2 s3"
      "at s3 n (u\<lparr>fr_list := (fr_list u)\<lparr>ls_locked := False\<rparr>\<rparr>)"
    using set_lock [OF s2(3), of False] by blast
  have "only_station n s s3"
    by (rule only_station_trans [OF only_station_trans [OF s1(2) s2(2)] s3(2)])
  then show ?thesis using s1(1) s2(1) s3(1,3) by blast
qed

text \<open>The process that holds the mutex dies, and the server repairs the list.\<close>

lemma abandoned_repaired:
  assumes a: "at s n t" and c: "crash p (t\<lparr>fr_list := (fr_list t)\<lparr>ls_locked := True\<rparr>\<rparr>) u"
    and s': "set_station n (put (\<lambda>l. l\<lparr>ls_locked := True\<rparr>)) s = Some s1" "put_frame n put u s1 = Some s'"
    and f: "f u = Some (ET_OK, v)"
  shows "\<exists>s''. repair_on get put f n s' = Some (ET_OK, s'') \<and> only_station n s s''
     \<and> at s'' n (v\<lparr>fr_list := (fr_list v)\<lparr>ls_locked := False\<rparr>\<rparr>)"
proof -
  have s1: "only_station n s s1" "at s1 n (t\<lparr>fr_list := (fr_list t)\<lparr>ls_locked := True\<rparr>\<rparr>)"
    using set_lock [OF a, of True] s'(1) by auto
  have s2: "only_station n s1 s'" "at s' n u" using put_frame_at [OF s1(2), of u] s'(2) by auto
  obtain s3 where s3: "put_frame n put v s' = Some s3" "only_station n s' s3" "at s3 n v"
    using put_frame_at [OF s2(2), of v] by blast
  obtain s4 where s4: "set_station n (put (\<lambda>l. l\<lparr>ls_locked := False\<rparr>)) s3 = Some s4" "only_station n s3 s4"
      "at s4 n (v\<lparr>fr_list := (fr_list v)\<lparr>ls_locked := False\<rparr>\<rparr>)"
    using set_lock [OF s3(3), of False] by blast
  have "only_station n s s4"
    by (rule only_station_trans [OF only_station_trans [OF only_station_trans [OF s1(1) s2(1)] s3(2)] s4(2)])
  moreover have "repair_on get put f n s' = Some (ET_OK, s4)"
    using s2(2) f s3(1) s4(1) by (auto simp: repair_on_def at_def)
  ultimately show ?thesis using s4(3) by blast
qed

end

interpretation in_list: station_list sn_list_in sn_list_in_update
  by unfold_locales simp_all

interpretation out_list: station_list sn_list_out sn_list_out_update
  by unfold_locales simp_all

text \<open>A process dies while it holds the mutex of a list.\<close>

definition dies_in :: "int \<Rightarrow> (fr, 'a) prog \<Rightarrow> et_id \<Rightarrow> et_id \<Rightarrow> bool" where
  "dies_in n p s s' = (\<exists>s1 ps u. lock_in n s = Some s1 \<and> station s1 n = Some ps
     \<and> crash p (frame_of sn_list_in ps s1) u \<and> put_frame n sn_list_in_update u s1 = Some s')"

definition dies_out :: "int \<Rightarrow> (fr, 'a) prog \<Rightarrow> et_id \<Rightarrow> et_id \<Rightarrow> bool" where
  "dies_out n p s s' = (\<exists>s1 ps u. lock_out n s = Some s1 \<and> station s1 n = Some ps
     \<and> crash p (frame_of sn_list_out ps s1) u \<and> put_frame n sn_list_out_update u s1 = Some s')"

section \<open>Queues\<close>

definition out_queue :: "et_id \<Rightarrow> int \<Rightarrow> nat list \<Rightarrow> nat list \<Rightarrow> bool" where
  "out_queue s n hs ls = (case station s n of None \<Rightarrow> False | Some ps \<Rightarrow>
     \<not> ls_locked (sn_list_out ps) \<and> fo_start (sn_fixout ps) = 0 \<and> out_held (frame_of sn_list_out ps s) hs ls)"

definition in_queue :: "et_id \<Rightarrow> int \<Rightarrow> nat list \<Rightarrow> bool" where
  "in_queue s n xs = (case station s n of None \<Rightarrow> False | Some ps \<Rightarrow>
     \<not> ls_locked (sn_list_in ps) \<and> fi_start (sn_fixin ps) = 0 \<and> fi_first (sn_fixin ps) = None
     \<and> held (frame_of sn_list_in ps s) xs)"

text \<open>Events that can be put: of the system, not in the list, each once, with a valid priority.\<close>

definition can_put :: "et_id \<Rightarrow> nat list \<Rightarrow> nat list \<Rightarrow> bool" where
  "can_put s xs pe = (distinct pe \<and> set pe \<inter> set xs = {}
     \<and> (\<forall>i\<in>set pe. i < length (id_events s) \<and> (high (id_events s) i \<or> low (id_events s) i)))"

definition owner_of :: "et_id \<Rightarrow> nat \<Rightarrow> int" where
  "owner_of s i = ev_owner (id_events s ! i)"

text \<open>Of the events only the owners and links may change, and the links only in \<open>A\<close>, the owners only in \<open>B\<close>.\<close>

definition same_events :: "nat set \<Rightarrow> nat set \<Rightarrow> et_id \<Rightarrow> et_id \<Rightarrow> bool" where
  "same_events A B s s' = (map blank (id_events s') = map blank (id_events s)
     \<and> (\<forall>i < length (id_events s). (i \<notin> A \<longrightarrow> ev_next (id_events s' ! i) = ev_next (id_events s ! i))
          \<and> (i \<notin> B \<longrightarrow> owner_of s' i = owner_of s i)))"

lemma out_queue_at: "out_queue s n hs ls = (\<exists>t. out_list.at s n t \<and> \<not> ls_locked (fr_list t) \<and> fo_start (fr_fixout t) = 0
     \<and> out_held t hs ls)"
  by (auto simp: out_queue_def out_list.at_def frame_of_def split: option.splits)

lemma in_queue_at: "in_queue s n xs = (\<exists>t. in_list.at s n t \<and> \<not> ls_locked (fr_list t) \<and> fi_start (fr_fixin t) = 0
     \<and> fi_first (fr_fixin t) = None \<and> held t xs)"
  by (auto simp: in_queue_def in_list.at_def frame_of_def split: option.splits)

abbreviation lock_frame :: "fr \<Rightarrow> fr" where
  "lock_frame t \<equiv> t\<lparr>fr_list := (fr_list t)\<lparr>ls_locked := True\<rparr>\<rparr>"

abbreviation unlock_frame :: "fr \<Rightarrow> fr" where
  "unlock_frame t \<equiv> t\<lparr>fr_list := (fr_list t)\<lparr>ls_locked := False\<rparr>\<rparr>"

lemma out_held_lock [simp]: "out_held (t\<lparr>fr_list := (fr_list t)\<lparr>ls_locked := b\<rparr>\<rparr>) hs ls = out_held t hs ls"
  by (simp add: out_held_def held_def owned_def shape_def)

lemma held_lock [simp]: "held (t\<lparr>fr_list := (fr_list t)\<lparr>ls_locked := b\<rparr>\<rparr>) xs = held t xs"
  by (simp add: held_def owned_def shape_def)

lemma ready_can_put: "out_list.at s n t \<Longrightarrow> can_put s xs pe \<Longrightarrow> ready (lock_frame t) xs pe"
  by (auto simp: can_put_def ready_def out_list.at_events)

lemma keeps_same:
  "keeps A B t u \<Longrightarrow> fr_events t = id_events s \<Longrightarrow> fr_events u = id_events s' \<Longrightarrow> same_events A B s s'"
  by (simp add: keeps_def same_events_def owner_of_def)

text \<open>Running a routine on the output list, and dying in one.\<close>

lemma locked_out_sound:
  assumes a: "out_list.at s n t" and l: "\<not> ls_locked (fr_list t)" and p: "sound p (lock_frame t) I Q"
  shows "\<exists>x s' u. locked_out n p s = Some (x, s') \<and> only_station n s s' \<and> out_list.at s' n (unlock_frame u) \<and> Q x u"
proof -
  obtain x u where r: "run p (lock_frame t) = Some (x, u)" "Q x u" using sound_run [OF p] by blast
  obtain ps where ps: "station s n = Some ps" "\<not> ls_locked (sn_list_out ps)"
    using a l by (auto simp: out_list.at_def frame_of_def)
  show ?thesis
    using out_list.locked_run [OF a r(1)] r(2) ps
    by (force simp: locked_out_def lock_out_def unlock_out_def run_out_def)
qed

lemma locked_in_sound:
  assumes a: "in_list.at s n t" and l: "\<not> ls_locked (fr_list t)" and p: "sound p (lock_frame t) I Q"
  shows "\<exists>x s' u. locked_in n p s = Some (x, s') \<and> only_station n s s' \<and> in_list.at s' n (unlock_frame u) \<and> Q x u"
proof -
  obtain x u where r: "run p (lock_frame t) = Some (x, u)" "Q x u" using sound_run [OF p] by blast
  obtain ps where ps: "station s n = Some ps" "\<not> ls_locked (sn_list_in ps)"
    using a l by (auto simp: in_list.at_def frame_of_def)
  show ?thesis
    using in_list.locked_run [OF a r(1)] r(2) ps
    by (force simp: locked_in_def lock_in_def unlock_in_def run_in_def)
qed

lemma written_queue:
  assumes w: "written (lock_frame t) hs ls pe A x u" and t: "out_list.at s n t" and u: "out_list.at s' n (unlock_frame u)"
  shows "x = ET_OK" "out_queue s' n (hs @ filter (high (id_events s)) pe) (ls @ filter (low (id_events s)) pe)"
    "same_events A (set pe) s s'"
proof -
  note e = out_list.at_events [OF t] out_list.at_events [OF u]
  show "x = ET_OK" using w by (simp add: written_def)
  show "out_queue s' n (hs @ filter (high (id_events s)) pe) (ls @ filter (low (id_events s)) pe)"
    using w u e unfolding out_queue_at by (auto simp: written_def intro!: exI [of _ "unlock_frame u"])
  show "same_events A (set pe) s s'"
    by (rule keeps_same [of _ _ "lock_frame t" u]) (use w e in \<open>simp_all add: written_def\<close>)
qed

text \<open>C23: 
  \<^verbatim>\<open>et_station_nwrite\<close> puts the events of the caller behind those of their priority in the station's output list,
  in the order of the array. They belong to the system then; no other event, station or attachment changes.
\<close>

theorem et_station_nwrite_puts:
  assumes q: "out_queue s n hs ls" and p: "can_put s (hs @ ls) pe" and room: "int (length (hs @ ls @ pe)) \<le> nevents s"
  shows "\<exists>s'. et_station_nwrite n pe s = Some (ET_OK, s')
     \<and> out_queue s' n (hs @ filter (high (id_events s)) pe) (ls @ filter (low (id_events s)) pe)
     \<and> same_events (set (hs @ ls @ pe)) (set pe) s s' \<and> only_station n s s'"
proof (cases "pe = []")
  case True
  then show ?thesis using q only_station_refl by (auto simp: et_station_nwrite_def same_events_def)
next
  case False
  obtain t where t: "out_list.at s n t" "\<not> ls_locked (fr_list t)" "fo_start (fr_fixout t) = 0" "out_held t hs ls"
    using q by (auto simp: out_queue_at)
  have "sound (nwrite_prog (nevents s) pe) (lock_frame t) (partly (lock_frame t) hs ls pe (set (hs @ ls @ pe)))
      (written (lock_frame t) hs ls pe (set (hs @ ls @ pe)))"
    by (rule nwrite_sound) (use t ready_can_put [OF t(1) p] room heldD(1) [OF out_heldD(1) [OF t(4)]] in auto)
  from locked_out_sound [OF t(1,2) this] obtain x s' u where r: "locked_out n (nwrite_prog (nevents s) pe) s = Some (x, s')"
      "only_station n s s'" "out_list.at s' n (unlock_frame u)" "written (lock_frame t) hs ls pe (set (hs @ ls @ pe)) x u"
    by blast
  show ?thesis using written_queue [OF r(4) t(1) r(3)] r(1,2) False by (auto simp: et_station_nwrite_def)
qed

text \<open>
  \<^verbatim>\<open>et_station_write\<close> puts one event behind the last of its priority in the station's output list, and the event
  belongs to the system then.
\<close>

theorem et_station_write_puts:
  assumes q: "out_queue s n hs ls" and p: "can_put s (hs @ ls) [i]" and room: "int (length (hs @ ls)) < nevents s"
  shows "\<exists>s'. et_station_write n i s = Some (ET_OK, s')
     \<and> out_queue s' n (if high (id_events s) i then hs @ [i] else hs) (if high (id_events s) i then ls else ls @ [i])
     \<and> same_events (set (hs @ ls @ [i])) {i} s s' \<and> only_station n s s'"
proof -
  obtain t where t: "out_list.at s n t" "\<not> ls_locked (fr_list t)" "fo_start (fr_fixout t) = 0" "out_held t hs ls"
    using q by (auto simp: out_queue_at)
  have "sound (write_prog (nevents s) (Some i)) (lock_frame t) (partly (lock_frame t) hs ls [i] (set (hs @ ls @ [i])))
      (written (lock_frame t) hs ls [i] (set (hs @ ls @ [i])))"
    by (rule write_sound) (use t ready_can_put [OF t(1) p] room heldD(1) [OF out_heldD(1) [OF t(4)]] in auto)
  from locked_out_sound [OF t(1,2) this] obtain x s' u where r: "locked_out n (write_prog (nevents s) (Some i)) s = Some (x, s')"
      "only_station n s s'" "out_list.at s' n (unlock_frame u)" "written (lock_frame t) hs ls [i] (set (hs @ ls @ [i])) x u"
    by blast
  have "high (id_events s) i \<or> low (id_events s) i" using p by (simp add: can_put_def)
  then show ?thesis
    using written_queue [OF r(4) t(1) r(3)] r(1,2) high_not_low [of "id_events s" i]
    by (auto simp: et_station_write_def)
qed

text \<open>A process dies in the middle, at any store, and the server repairs the station.\<close>

lemma dies_outE:
  assumes "dies_out n p s s'" "out_list.at s n t"
  obtains s1 u where "set_station n (sn_list_out_update (\<lambda>l. l\<lparr>ls_locked := True\<rparr>)) s = Some s1"
    "crash p (lock_frame t) u" "put_frame n sn_list_out_update u s1 = Some s'"
    "out_list.at s1 n (lock_frame t)" "out_list.at s' n u" "only_station n s s'"
proof -
  obtain s1 ps u where d: "lock_out n s = Some s1" "station s1 n = Some ps"
      "crash p (frame_of sn_list_out ps s1) u" "put_frame n sn_list_out_update u s1 = Some s'"
    using assms(1) by (auto simp: dies_out_def)
  have l: "set_station n (sn_list_out_update (\<lambda>l. l\<lparr>ls_locked := True\<rparr>)) s = Some s1"
    using d(1) by (auto simp: lock_out_def bind_eq_Some_conv split: if_splits)
  then have a: "out_list.at s1 n (lock_frame t)" "only_station n s s1" using out_list.set_lock [OF assms(2), of True] by auto
  then have "frame_of sn_list_out ps s1 = lock_frame t" using d(2) by (auto simp: out_list.at_def)
  moreover have "out_list.at s' n u" "only_station n s1 s'" using out_list.put_frame_at [OF a(1), of u] d(4) by auto
  ultimately show thesis using that l d(3,4) a only_station_trans by metis
qed

lemma dies_inE:
  assumes "dies_in n p s s'" "in_list.at s n t"
  obtains s1 u where "set_station n (sn_list_in_update (\<lambda>l. l\<lparr>ls_locked := True\<rparr>)) s = Some s1"
    "crash p (lock_frame t) u" "put_frame n sn_list_in_update u s1 = Some s'"
    "in_list.at s1 n (lock_frame t)" "in_list.at s' n u" "only_station n s s'"
proof -
  obtain s1 ps u where d: "lock_in n s = Some s1" "station s1 n = Some ps"
      "crash p (frame_of sn_list_in ps s1) u" "put_frame n sn_list_in_update u s1 = Some s'"
    using assms(1) by (auto simp: dies_in_def)
  have l: "set_station n (sn_list_in_update (\<lambda>l. l\<lparr>ls_locked := True\<rparr>)) s = Some s1"
    using d(1) by (auto simp: lock_in_def bind_eq_Some_conv split: if_splits)
  then have a: "in_list.at s1 n (lock_frame t)" "only_station n s s1" using in_list.set_lock [OF assms(2), of True] by auto
  then have "frame_of sn_list_in ps s1 = lock_frame t" using d(2) by (auto simp: in_list.at_def)
  moreover have "in_list.at s' n u" "only_station n s1 s'" using in_list.put_frame_at [OF a(1), of u] d(4) by auto
  ultimately show thesis using that l d(3,4) a only_station_trans by metis
qed

text \<open>The routines on a list do not touch its mutex.\<close>

primrec tame :: "(fr, 'a) prog \<Rightarrow> bool" where
  "tame (Ret x) = True"
| "tame Stuck = True"
| "tame (Put f p) = ((\<forall>s s'. f s = Some s' \<longrightarrow> ls_locked (fr_list s') = ls_locked (fr_list s)) \<and> tame p)"
| "tame (Get f) = (\<forall>s. tame (f s))"

lemma tame_crash: "crash p s t \<Longrightarrow> tame p \<Longrightarrow> ls_locked (fr_list t) = ls_locked (fr_list s)"
  by (induction rule: crash.induct) auto

lemma tame_simps [simp]:
  "tame (set_event q g p) = tame p" "tame (set_fixin fi p) = tame p" "tame (set_fixout fo p) = tame p"
  "tame (put_first q p) = tame p" "tame (put_last q p) = tame p" "tame (add_cnt k p) = tame p"
  "tame (put_lasthigh k p) = tame p" "tame (more_high p) = tame p" "tame (put_next q r p) = tame p"
  "tame (put_owner q a p) = tame p" "(\<And>x. tame (k' x)) \<Longrightarrow> tame (ask h k')"
  by (auto simp: set_event_def set_fixin_def set_fixout_def put_first_def put_last_def add_cnt_def put_lasthigh_def
    more_high_def put_next_def put_owner_def set_list_def ask_def split: option.splits)

lemma tame_set_in [simp]: "tame (set_list (\<lambda>l. l\<lparr>ls_in := f l\<rparr>) p) = tame p"
  by (simp add: set_list_def)

lemma tame_notes [simp]:
  "tame (note_write num p) = tame p" "tame (note_read num p) = tame p" "tame (note_nread num p) = tame p"
  "tame (note_dump num p) = tame p" "tame end_write" "tame (end_read x)" "tame end_dump"
  by (auto simp: note_write_def note_read_def note_nread_def note_dump_def end_write_def end_read_def end_dump_def Let_def)

lemma tame_place_high [simp]: "tame p \<Longrightarrow> tame (place_high pe h l p)"
  by (simp add: place_high_def)

lemma tame_nwrite_rest: "tame (nwrite_rest pe l h)"
  by (induction pe l h rule: nwrite_rest.induct) (simp_all add: Let_def)

lemma tame_nread_rest: "tame (nread_rest att k tk q)"
  by (induction att k tk q rule: nread_rest.induct) (auto split: option.splits)

lemma tame_ndump_rest: "tame (ndump_rest pe l)"
  by (induction pe l rule: ndump_rest.induct) simp_all

lemmas tame_rests = tame_nwrite_rest tame_nread_rest tame_ndump_rest

lemma tame_progs: "tame (write_prog most q)" "tame (nwrite_prog most pe)" "tame (read_prog att)" "tame (nread_prog att num)"
    "tame (dump_prog most q)" "tame (ndump_prog most pe)"
  by (auto simp: write_prog_def nwrite_prog_def read_prog_def nread_prog_def dump_prog_def ndump_prog_def Let_def tame_rests
    split: list.splits option.splits)

definition in_unlocked :: "et_id \<Rightarrow> int \<Rightarrow> bool" where
  "in_unlocked s n = (case station s n of None \<Rightarrow> False | Some ps \<Rightarrow> \<not> ls_locked (sn_list_in ps))"

lemma in_unlocked_set: "set_station n (sn_list_out_update f) s = Some s1 \<Longrightarrow> in_unlocked s n \<Longrightarrow> in_unlocked s1 n"
  by (auto simp: in_unlocked_def split: option.splits)

lemma in_unlocked_put: "put_frame n sn_list_out_update u s1 = Some s' \<Longrightarrow> in_unlocked s1 n \<Longrightarrow> in_unlocked s' n"
  by (auto simp: in_unlocked_def put_frame_def split: option.splits)

lemma at_events_eq: "out_list.at s n t \<Longrightarrow> fr_events t = id_events s" "in_list.at s n t \<Longrightarrow> fr_events t = id_events s"
  by (simp_all add: out_list.at_events in_list.at_events)

text \<open>C20: 
  A process that dies while it writes events: after the repair a first part of them is in the list, in its
  place and owned by the system; the others still belong to the process and nothing else has changed.
\<close>

theorem et_station_nwrite_crash:
  assumes q: "out_queue s n hs ls" and p: "can_put s (hs @ ls) pe" and room: "int (length (hs @ ls @ pe)) \<le> nevents s"
    and l: "in_unlocked s n" and d: "dies_out n (nwrite_prog (nevents s) pe) s s'"
  shows "\<exists>k s''. k \<le> length pe \<and> et_repair_station n s' = Some (ET_OK, s'')
     \<and> out_queue s'' n (hs @ filter (high (id_events s)) (take k pe)) (ls @ filter (low (id_events s)) (take k pe))
     \<and> same_events (set (hs @ ls @ pe)) (set (hs @ ls @ take k pe)) s s'' \<and> only_station n s s''"
proof -
  let ?A = "set (hs @ ls @ pe)"
  obtain t where t: "out_list.at s n t" "\<not> ls_locked (fr_list t)" "fo_start (fr_fixout t) = 0" "out_held t hs ls"
    using q by (auto simp: out_queue_at)
  have snd: "sound (nwrite_prog (nevents s) pe) (lock_frame t) (partly (lock_frame t) hs ls pe ?A) (written (lock_frame t) hs ls pe ?A)"
    by (rule nwrite_sound) (use t ready_can_put [OF t(1) p] room heldD(1) [OF out_heldD(1) [OF t(4)]] in auto)
  obtain s1 u where u: "set_station n (sn_list_out_update (\<lambda>l. l\<lparr>ls_locked := True\<rparr>)) s = Some s1"
      "crash (nwrite_prog (nevents s) pe) (lock_frame t) u" "put_frame n sn_list_out_update u s1 = Some s'"
      "out_list.at s1 n (lock_frame t)" "out_list.at s' n u" "only_station n s s'"
    by (rule dies_outE [OF d t(1)])
  obtain k where k: "k \<le> length pe" "fixable u (hs @ highs (lock_frame t) (take k pe)) (ls @ lows (lock_frame t) (take k pe))"
      "keeps ?A (set (take k pe)) (lock_frame t) u"
    using sound_crash [OF snd u(2)] unfolding partly_def by blast
  let ?hs = "hs @ highs (lock_frame t) (take k pe)" and ?ls = "ls @ lows (lock_frame t) (take k pe)"
  obtain v where v: "et_repair_outputlist u = Some (ET_OK, v)" "keeps {} (set (?hs @ ?ls)) u v" "fo_start (fr_fixout v) = 0"
      "out_held v ?hs ?ls"
    using repair_fixable [OF k(2)] by blast
  obtain s'' where s'': "repair_on sn_list_out sn_list_out_update et_repair_outputlist n s' = Some (ET_OK, s'')"
      "only_station n s s''" "out_list.at s'' n (unlock_frame v)"
    using out_list.abandoned_repaired [OF t(1) u(2,1,3), of et_repair_outputlist v] v(1) by blast
  have "ls_locked (fr_list u)" using tame_crash [OF u(2) tame_progs(2)] by simp
  moreover have "in_unlocked s' n" by (rule in_unlocked_put [OF u(3) in_unlocked_set [OF u(1) l]])
  ultimately have r: "et_repair_station n s' = Some (ET_OK, s'')"
    using s''(1) u(5) by (auto simp: et_repair_station_def in_unlocked_def out_list.at_def frame_of_def split: option.splits)
  have "set (?hs @ ?ls) \<subseteq> set (hs @ ls @ take k pe)" by auto
  then have "keeps ?A (set (hs @ ls @ take k pe)) (lock_frame t) v"
    by (intro keeps_trans [OF keeps_mono [OF k(3)] keeps_mono [OF v(2)]]) auto
  then have "same_events ?A (set (hs @ ls @ take k pe)) s s''"
    by (rule keeps_same) (use at_events_eq(1) [OF t(1)] at_events_eq(1) [OF s''(3)] in simp_all)
  moreover have "out_queue s'' n (hs @ filter (high (id_events s)) (take k pe)) (ls @ filter (low (id_events s)) (take k pe))"
    using v(3,4) s''(3) at_events_eq(1) [OF t(1)] unfolding out_queue_at by (auto intro!: exI [of _ "unlock_frame v"])
  ultimately show ?thesis using k(1) r s''(2) by blast
qed

section \<open>Reading\<close>

text \<open>Events are there, so nothing has to be waited for.\<close>

definition will_read :: "int \<Rightarrow> int \<Rightarrow> et_id \<Rightarrow> bool" where
  "will_read mode att s = (mode = ET_SLEEP \<or> mode = ET_TIMED \<or>
     mode = ET_ASYNC \<and> (case attachment s att of None \<Rightarrow> False | Some a \<Rightarrow> at_quit a \<noteq> ET_ATT_QUIT))"

definition counted :: "int \<Rightarrow> int \<Rightarrow> et_id \<Rightarrow> et_id" where
  "counted n cnt s = (if n \<noteq> ET_GRANDCENTRAL then s
     else s\<lparr>id_histogram := (id_histogram s)[nat cnt := id_histogram s ! nat cnt + 1]\<rparr>)"

lemma counted_simps [simp]:
  "station (counted n c s) m = station s m" "attachment (counted n c s) a = attachment s a"
  "id_events (counted n c s) = id_events s" "id_stats (counted n c s) = id_stats s" "nevents (counted n c s) = nevents s"
  by (simp_all add: counted_def station_def attachment_def nevents_def)

lemma set_station_counted:
  "set_station n f s = Some s1 \<Longrightarrow> set_station n f (counted m c s) = Some (counted m c s1)"
  by (auto simp: set_station_def bind_eq_Some_conv counted_def station_def split: if_splits)

lemma attachment_set_station: "set_station n f s = Some s' \<Longrightarrow> attachment s' a = attachment s a"
  by (auto simp: set_station_def bind_eq_Some_conv attachment_def)

lemma histogram_set_station: "set_station n f s = Some s' \<Longrightarrow> id_histogram s' = id_histogram s"
  by (auto simp: set_station_def bind_eq_Some_conv)

lemma wait_ready:
  assumes t: "in_list.at s n t" "\<not> ls_locked (fr_list t)" "ls_cnt (fr_list t) \<ge> 1"
    and m: "will_read mode att s" and h: "n = ET_GRANDCENTRAL \<longrightarrow> nat (ls_cnt (fr_list t)) < length (id_histogram s)"
  shows "\<exists>s1. set_station n (sn_list_in_update (\<lambda>l. l\<lparr>ls_locked := True\<rparr>)) (counted n (ls_cnt (fr_list t)) s) = Some s1
     \<and> wait_for_events mode n att True plan s = Some (None, plan, s1)"
proof -
  obtain ps where ps: "station s n = Some ps" "t = frame_of sn_list_in ps s" using t(1) by (auto simp: in_list.at_def)
  then have c: "ls_cnt (sn_list_in ps) = ls_cnt (fr_list t)" "\<not> ls_locked (sn_list_in ps)" "ls_cnt (sn_list_in ps) \<ge> 1"
    using t(2,3) by (simp_all add: frame_of_def)
  let ?f = "sn_list_in_update (\<lambda>l. l\<lparr>ls_locked := True\<rparr>)"
  obtain s0 where s0: "set_station n ?f s = Some s0" "station s0 n = Some (?f ps)"
    using set_station_Some [OF ps(1)] by blast
  note s1 = set_station_counted [OF s0(1), of n "ls_cnt (fr_list t)"]
  have l: "lock_in n s = Some s0" using ps c s0 by (simp add: lock_in_def)
  have k: "count_new n (ls_cnt (fr_list t)) s0 = Some (counted n (ls_cnt (fr_list t)) s0)"
    using h t(3) histogram_set_station [OF s0(1)] by (auto simp: count_new_def counted_def rd_def)
  have "wait_for_events mode n att True plan s = Some (None, plan, counted n (ls_cnt (fr_list t)) s0)"
  proof (cases "mode = ET_SLEEP \<or> mode = ET_TIMED")
    case True
    then show ?thesis using l s0(2) c k
      by (simp add: wait_for_events_def wait_loop.simps [of _ n att True plan "counted n (ls_cnt (fr_list t)) s0"])
  next
    case False
    then show ?thesis using m l s0 c k ps(1) attachment_set_station [OF s0(1), of att]
      by (auto simp: will_read_def wait_for_events_def told_to_quit_def split: option.splits)
  qed
  then show ?thesis using s1 by blast
qed

definition only_read :: "int \<Rightarrow> et_id \<Rightarrow> et_id \<Rightarrow> bool" where
  "only_read n s s' = (\<exists>c. only_station n (counted n c s) s')"

text \<open>What a reader gets, and what it leaves.\<close>

lemma run_in_read:
  assumes t: "in_list.at s n t" "\<not> ls_locked (fr_list t)" "held t xs" "xs \<noteq> []" "fi_start (fr_fixin t) = 0"
    and m: "will_read mode att s" and h: "n = ET_GRANDCENTRAL \<longrightarrow> length xs < length (id_histogram s)"
    and p: "sound p (lock_frame t) I (\<lambda>x u. x = y \<and> taken att (lock_frame t) xs k u)"
  shows "\<exists>s1 s2 s3. wait_for_events mode n att True plan s = Some (None, plan, s1) \<and> run_in n p s1 = Some (y, s2)
     \<and> unlock_in n s2 = Some s3 \<and> only_read n s s3 \<and> in_queue s3 n (drop k xs)
     \<and> (\<forall>i\<in>set (take k xs). owner_of s3 i = att) \<and> same_events {} (set (take k xs)) s s3"
proof -
  have c: "ls_cnt (fr_list t) = int (length xs)" using t(3) by (simp add: held_def)
  let ?s = "counted n (ls_cnt (fr_list t)) s"
  have "ls_cnt (fr_list t) \<ge> 1" using c t(4) by (cases xs) auto
  then obtain s1 where s1: "set_station n (sn_list_in_update (\<lambda>l. l\<lparr>ls_locked := True\<rparr>)) ?s = Some s1"
      "wait_for_events mode n att True plan s = Some (None, plan, s1)"
    using wait_ready [OF t(1,2) _ m] h c by auto
  have a: "in_list.at ?s n t" using t(1) by (auto simp: in_list.at_def frame_of_def)
  obtain u where u: "run p (lock_frame t) = Some (y, u)" "taken att (lock_frame t) xs k u"
    using sound_run [OF p] by auto
  obtain s2 s3 where r: "run_on sn_list_in sn_list_in_update n p s1 = Some (y, s2)"
      "set_station n (sn_list_in_update (\<lambda>l. l\<lparr>ls_locked := False\<rparr>)) s2 = Some s3" "only_station n ?s s3"
      "in_list.at s3 n (unlock_frame u)"
    using in_list.locked_run [OF a u(1)] s1(1) by auto
  note e = at_events_eq(2) [OF t(1)] at_events_eq(2) [OF r(4)]
  have "in_queue s3 n (drop k xs)"
    using u(2) t(5) r(4) by (auto simp: in_queue_at taken_def intro!: exI [of _ "unlock_frame u"])
  moreover have "\<forall>i\<in>set (take k xs). owner_of s3 i = att"
    using u(2) e(2) by (auto simp: taken_def owned_by_def owner_of_def)
  moreover have "same_events {} (set (take k xs)) s s3"
    by (rule keeps_same [of _ _ "lock_frame t" u]) (use u(2) e in \<open>simp_all add: taken_def\<close>)
  ultimately show ?thesis
    using s1(2) r by (auto simp: run_in_def unlock_in_def only_read_def)
qed

text \<open>C24: 
  \<^verbatim>\<open>et_station_nread\<close>, in each of its three modes, takes at most \<^verbatim>\<open>num\<close> events from the front of the station's
  input list. The caller owns them then, and every other event is as before.
\<close>

theorem et_station_nread_takes:
  assumes q: "in_queue s n xs" and ne: "xs \<noteq> []" and num: "0 < num" and m: "will_read mode att s"
    and h: "n = ET_GRANDCENTRAL \<longrightarrow> length xs < length (id_histogram s)"
  shows "\<exists>s'. et_station_nread n mode att num plan s = Some (ET_OK, take (nat num) xs, s')
     \<and> in_queue s' n (drop (nat num) xs) \<and> (\<forall>i\<in>set (take (nat num) xs). owner_of s' i = att)
     \<and> same_events {} (set (take (nat num) xs)) s s' \<and> only_read n s s'"
proof -
  obtain t where t: "in_list.at s n t" "\<not> ls_locked (fr_list t)" "fi_start (fr_fixin t) = 0"
      "fi_first (fr_fixin t) = None" "held t xs"
    using q by (auto simp: in_queue_at)
  have "sound (nread_prog att num) (lock_frame t) (unread att (lock_frame t) xs (nat num))
      (\<lambda>x u. x = take (nat num) xs \<and> taken att (lock_frame t) xs (nat num) u)"
    by (rule nread_sound) (use t ne num in simp_all)
  from run_in_read [OF t(1,2,5) ne t(3) m h this] obtain s1 s2 s3 where r:
      "wait_for_events mode n att True plan s = Some (None, plan, s1)" "run_in n (nread_prog att num) s1 = Some (take (nat num) xs, s2)"
      "unlock_in n s2 = Some s3" "only_read n s s3" "in_queue s3 n (drop (nat num) xs)"
      "\<forall>i\<in>set (take (nat num) xs). owner_of s3 i = att" "same_events {} (set (take (nat num) xs)) s s3"
    by blast
  then show ?thesis using num by (simp add: et_station_nread_def)
qed

text \<open>
  \<^verbatim>\<open>et_station_read\<close> takes the first event of the station's input list and makes the caller its owner.
\<close>

theorem et_station_read_takes:
  assumes q: "in_queue s n (i # xs)" and m: "will_read mode att s"
    and h: "n = ET_GRANDCENTRAL \<longrightarrow> length (i # xs) < length (id_histogram s)"
  shows "\<exists>s'. et_station_read n mode att plan s = Some (ET_OK, Some i, s') \<and> in_queue s' n xs \<and> owner_of s' i = att
     \<and> same_events {} {i} s s' \<and> only_read n s s'"
proof -
  obtain t where t: "in_list.at s n t" "\<not> ls_locked (fr_list t)" "fi_start (fr_fixin t) = 0"
      "fi_first (fr_fixin t) = None" "held t (i # xs)"
    using q by (auto simp: in_queue_at)
  have "sound (read_prog att) (lock_frame t) (unread att (lock_frame t) (i # xs) 1)
      (\<lambda>x u. x = Some (hd (i # xs)) \<and> taken att (lock_frame t) (i # xs) 1 u)"
    by (rule read_sound) (use t in simp_all)
  from run_in_read [OF t(1,2,5) _ t(3) m h this, of plan] obtain s1 s2 s3 where r:
      "wait_for_events mode n att True plan s = Some (None, plan, s1)" "run_in n (read_prog att) s1 = Some (Some i, s2)"
      "unlock_in n s2 = Some s3" "only_read n s s3" "in_queue s3 n xs" "owner_of s3 i = att" "same_events {} {i} s s3"
    by auto
  then show ?thesis by (simp add: et_station_read_def)
qed

text \<open>C21: 
  A process that dies while it reads has all of its events or none: wherever it stops, the repair leaves either
  the whole list, owned by the system, or the list without the events that were asked for, which then belong to
  the attachment, and nothing else has changed.
\<close>

theorem et_station_nread_crash:
  assumes q: "in_queue s n xs" and ne: "xs \<noteq> []" and num: "0 < num" and d: "dies_in n (nread_prog att num) s s'"
  shows "\<exists>s''. et_repair_station n s' = Some (ET_OK, s'') \<and> only_station n s s''
     \<and> (in_queue s'' n xs \<and> same_events {} (set xs) s s''
        \<or> in_queue s'' n (drop (nat num) xs) \<and> (\<forall>i\<in>set (take (nat num) xs). owner_of s'' i = att)
          \<and> same_events {} (set xs) s s'')"
proof -
  obtain t where t: "in_list.at s n t" "\<not> ls_locked (fr_list t)" "fi_start (fr_fixin t) = 0"
      "fi_first (fr_fixin t) = None" "held t xs"
    using q by (auto simp: in_queue_at)
  have snd: "sound (nread_prog att num) (lock_frame t) (unread att (lock_frame t) xs (nat num))
      (\<lambda>x u. x = take (nat num) xs \<and> taken att (lock_frame t) xs (nat num) u)"
    by (rule nread_sound) (use t ne num in simp_all)
  obtain s1 u where u: "set_station n (sn_list_in_update (\<lambda>l. l\<lparr>ls_locked := True\<rparr>)) s = Some s1"
      "crash (nread_prog att num) (lock_frame t) u" "put_frame n sn_list_in_update u s1 = Some s'"
      "in_list.at s1 n (lock_frame t)" "in_list.at s' n u" "only_station n s s'"
    by (rule dies_inE [OF d t(1)])
  have lk: "ls_locked (fr_list u)" using tame_crash [OF u(2) tame_progs(4)] by simp
  have repaired: "\<exists>s'' v. et_repair_station n s' = Some (ET_OK, s'') \<and> only_station n s s'' \<and> in_queue s'' n ys
      \<and> in_list.at s'' n (unlock_frame v) \<and> keeps {} (set ys) u v \<and> held v ys"
    if f: "fixable_in u ys" "fi_start (fr_fixin u) = 0" for ys
  proof -
    obtain v where v: "et_repair_inputlist u = Some (ET_OK, v)" "held v ys" "fi_first (fr_fixin v) = None"
        "fi_start (fr_fixin v) = 0" "keeps {} (set ys) u v"
      using repair_fixable_in [OF f(1)] f(2) by auto
    obtain s'' where s'': "repair_on sn_list_in sn_list_in_update et_repair_inputlist n s' = Some (ET_OK, s'')"
        "only_station n s s''" "in_list.at s'' n (unlock_frame v)"
      using in_list.abandoned_repaired [OF t(1) u(2,1,3), of et_repair_inputlist v] v(1) by blast
    moreover have "et_repair_station n s' = Some (ET_OK, s'')"
      using s''(1) u(5) lk by (auto simp: et_repair_station_def in_list.at_def frame_of_def)
    moreover have "in_queue s'' n ys" using v(2,3,4) s''(3) by (auto simp: in_queue_at intro!: exI [of _ "unlock_frame v"])
    ultimately show ?thesis using v(2,5) by blast
  qed
  have un: "keeps {} (set (take (nat num) xs)) (lock_frame t) u" "fi_start (fr_fixin u) = 0"
      "fixable_in u xs \<or> fixable_in u (drop (nat num) xs) \<and> owned_by att u (take (nat num) xs)"
    using sound_crash [OF snd u(2)] t(3) by (simp_all add: unread_def)
  have sub: "set (take (nat num) xs) \<subseteq> set xs" "set (drop (nat num) xs) \<subseteq> set xs"
    by (auto dest: in_set_takeD in_set_dropD)
  have same: "same_events {} (set xs) s s''"
    if "keeps {} (set ys) u v" "set ys \<subseteq> set xs" "in_list.at s'' n (unlock_frame v)" for ys v s''
  proof (rule keeps_same)
    show "keeps {} (set xs) (lock_frame t) v"
      by (rule keeps_trans [OF keeps_mono [OF un(1)] keeps_mono [OF that(1)]]) (use sub that(2) in auto)
  qed (use at_events_eq(2) [OF t(1)] at_events_eq(2) [OF that(3)] in simp_all)
  show ?thesis
    using un(3)
  proof
    assume "fixable_in u xs"
    then show ?thesis using repaired [of xs] same [of xs] un(2) by blast
  next
    assume f: "fixable_in u (drop (nat num) xs) \<and> owned_by att u (take (nat num) xs)"
    then obtain s'' v where r: "et_repair_station n s' = Some (ET_OK, s'')" "only_station n s s''" "in_queue s'' n (drop (nat num) xs)"
        "in_list.at s'' n (unlock_frame v)" "keeps {} (set (drop (nat num) xs)) u v"
      using repaired [of "drop (nat num) xs"] un(2) by blast
    have "distinct xs" "linked (fr_events t) xs" using t(5) ne by (auto simp: held_def shape_def)
    then have "set (take (nat num) xs) \<inter> set (drop (nat num) xs) = {}" "\<forall>i\<in>set xs. i < length (fr_events u)"
      using set_take_disj_set_drop_if_distinct linked_lt keeps_length [OF un(1)] by (blast, fastforce)
    then have o: "ev_owner (fr_events v ! i) = ev_owner (fr_events u ! i)" if "i \<in> set (take (nat num) xs)" for i
      using that sub(1) r(5) unfolding keeps_def by blast
    have "\<forall>i\<in>set (take (nat num) xs). owner_of s'' i = att"
      using f o at_events_eq(2) [OF r(4)] by (simp add: owned_by_def owner_of_def)
    then show ?thesis using r(1-3) same [OF r(5) sub(2) r(4)] by blast
  qed
qed

section \<open>Dumping\<close>

definition can_dump :: "et_id \<Rightarrow> nat list \<Rightarrow> nat list \<Rightarrow> bool" where
  "can_dump s xs pe = (distinct pe \<and> set pe \<inter> set xs = {} \<and> (\<forall>i\<in>set pe. i < length (id_events s)))"

lemma tail_ready_can_dump: "in_list.at s n t \<Longrightarrow> can_dump s xs pe \<Longrightarrow> tail_ready (lock_frame t) xs pe"
  by (auto simp: can_dump_def tail_ready_def in_list.at_events)

lemma dumped_queue:
  assumes w: "dumped (lock_frame t) xs pe A x u" and t: "in_list.at s n t" "fi_first (fr_fixin t) = None"
    and u: "in_list.at s' n (unlock_frame u)"
  shows "x = ET_OK" "in_queue s' n (xs @ pe)" "same_events A (set pe) s s'"
proof -
  note e = at_events_eq(2) [OF t(1)] at_events_eq(2) [OF u]
  show "x = ET_OK" using w by (simp add: dumped_def)
  show "in_queue s' n (xs @ pe)"
    using w u t(2) unfolding in_queue_at by (auto simp: dumped_def intro!: exI [of _ "unlock_frame u"])
  show "same_events A (set pe) s s'"
    by (rule keeps_same [of _ _ "lock_frame t" u]) (use w e in \<open>simp_all add: dumped_def\<close>)
qed

text \<open>
  \<^verbatim>\<open>et_station_ndump\<close> puts the events at the end of the input list of Grand Central, whatever their priority.
\<close>

theorem et_station_ndump_appends:
  assumes q: "in_queue s ET_GRANDCENTRAL xs" and p: "can_dump s xs pe" and room: "int (length (xs @ pe)) \<le> nevents s"
  shows "\<exists>s'. et_station_ndump pe s = Some (ET_OK, s') \<and> in_queue s' ET_GRANDCENTRAL (xs @ pe)
     \<and> same_events (set (xs @ pe)) (set pe) s s' \<and> only_station ET_GRANDCENTRAL s s'"
proof (cases "pe = []")
  case True
  then show ?thesis using q only_station_refl by (auto simp: et_station_ndump_def same_events_def)
next
  case False
  obtain t where t: "in_list.at s ET_GRANDCENTRAL t" "\<not> ls_locked (fr_list t)" "fi_start (fr_fixin t) = 0"
      "fi_first (fr_fixin t) = None" "held t xs"
    using q by (auto simp: in_queue_at)
  have "sound (ndump_prog (nevents s) pe) (lock_frame t) (partly_gc (lock_frame t) xs pe (set (xs @ pe)))
      (dumped (lock_frame t) xs pe (set (xs @ pe)))"
    by (rule ndump_sound) (use t tail_ready_can_dump [OF t(1) p] room heldD(1) [OF t(5)] in auto)
  from locked_in_sound [OF t(1,2) this] obtain x s' u where r:
      "locked_in ET_GRANDCENTRAL (ndump_prog (nevents s) pe) s = Some (x, s')" "only_station ET_GRANDCENTRAL s s'"
      "in_list.at s' ET_GRANDCENTRAL (unlock_frame u)" "dumped (lock_frame t) xs pe (set (xs @ pe)) x u"
    by blast
  show ?thesis using dumped_queue [OF r(4) t(1,4) r(3)] r(1,2) False by (auto simp: et_station_ndump_def)
qed

text \<open>
  \<^verbatim>\<open>et_station_dump\<close> puts one event at the end of the input list of Grand Central.
\<close>

theorem et_station_dump_appends:
  assumes q: "in_queue s ET_GRANDCENTRAL xs" and p: "can_dump s xs [i]" and room: "int (length xs) < nevents s"
  shows "\<exists>s'. et_station_dump i s = Some (ET_OK, s') \<and> in_queue s' ET_GRANDCENTRAL (xs @ [i])
     \<and> same_events (set (xs @ [i])) {i} s s' \<and> only_station ET_GRANDCENTRAL s s'"
proof -
  obtain t where t: "in_list.at s ET_GRANDCENTRAL t" "\<not> ls_locked (fr_list t)" "fi_start (fr_fixin t) = 0"
      "fi_first (fr_fixin t) = None" "held t xs"
    using q by (auto simp: in_queue_at)
  have "sound (dump_prog (nevents s) (Some i)) (lock_frame t) (partly_gc (lock_frame t) xs [i] (set (xs @ [i])))
      (dumped (lock_frame t) xs [i] (set (xs @ [i])))"
    by (rule dump_sound) (use t tail_ready_can_dump [OF t(1) p] room heldD(1) [OF t(5)] in auto)
  from locked_in_sound [OF t(1,2) this] obtain x s' u where r:
      "locked_in ET_GRANDCENTRAL (dump_prog (nevents s) (Some i)) s = Some (x, s')" "only_station ET_GRANDCENTRAL s s'"
      "in_list.at s' ET_GRANDCENTRAL (unlock_frame u)" "dumped (lock_frame t) xs [i] (set (xs @ [i])) x u"
    by blast
  show ?thesis using dumped_queue [OF r(4) t(1,4) r(3)] r(1,2) by (auto simp: et_station_dump_def)
qed

text \<open>
  A process that dies while it dumps events. What the repair takes the broken call for, a dump or a read,
  may still be the note of an earlier call, but then nothing has been changed yet.
\<close>

lemma repair_of_dump:
  assumes p: "partly_gc t xs pe A u" and f: "fi_first (fr_fixin t) = None"
    and g: "g = (if fi_call (fr_fixin u) = ET_FIX_DUMP then et_repair_gcinputlist else et_repair_inputlist)"
  shows "\<exists>k v. k \<le> length pe \<and> g u = Some (ET_OK, v) \<and> held v (xs @ take k pe) \<and> fi_start (fr_fixin v) = 0
     \<and> fi_first (fr_fixin v) = None \<and> keeps A (set (xs @ take k pe)) t v"
proof -
  obtain k where k: "k \<le> length pe" "fixable_gc u (xs @ take k pe)" "keeps A (set (take k pe)) t u"
    and n: "dump_noted t u" using p by (auto simp: partly_gc_def)
  have km: "keeps A (set (xs @ take k pe)) t u" by (rule keeps_mono [OF k(3)]) auto
  show ?thesis
  proof (cases "fi_call (fr_fixin u) = ET_FIX_DUMP")
    case True
    obtain v where v: "et_repair_gcinputlist u = Some (ET_OK, v)" "held v (xs @ take k pe)" "fi_start (fr_fixin v) = 0"
        "fi_first (fr_fixin v) = fi_first (fr_fixin u)" "keeps {} (set (xs @ take k pe)) u v"
      using repair_fixable_gc [OF k(2)] by blast
    have "keeps A (set (xs @ take k pe)) t v" by (rule keeps_trans [OF km keeps_mono [OF v(5)]]) auto
    then show ?thesis using v k(1) n f g True by (auto simp: dump_noted_def)
  next
    case False
    then have z: "fi_start (fr_fixin u) = 0" using n by (simp add: dump_noted_def)
    then have "held u (xs @ take k pe)" using k(2) by (simp add: fixable_gc_def)
    then show ?thesis using False g n f k(1) km z by (auto simp: et_repair_inputlist_def dump_noted_def)
  qed
qed

text \<open>C22: 
  A process that dies while it dumps events: after the repair a first part of them is at the end of the input
  list of Grand Central and owned by the system; the others still belong to the process.
\<close>

theorem et_station_ndump_crash:
  assumes q: "in_queue s ET_GRANDCENTRAL xs" and p: "can_dump s xs pe" and room: "int (length (xs @ pe)) \<le> nevents s"
    and d: "dies_in ET_GRANDCENTRAL (ndump_prog (nevents s) pe) s s'"
  shows "\<exists>k s''. k \<le> length pe \<and> et_repair_gc s' = Some (ET_OK, s'') \<and> in_queue s'' ET_GRANDCENTRAL (xs @ take k pe)
     \<and> same_events (set (xs @ pe)) (set (xs @ take k pe)) s s'' \<and> only_station ET_GRANDCENTRAL s s''"
proof -
  let ?A = "set (xs @ pe)" and ?n = ET_GRANDCENTRAL
  obtain t where t: "in_list.at s ?n t" "\<not> ls_locked (fr_list t)" "fi_start (fr_fixin t) = 0"
      "fi_first (fr_fixin t) = None" "held t xs"
    using q by (auto simp: in_queue_at)
  have snd: "sound (ndump_prog (nevents s) pe) (lock_frame t) (partly_gc (lock_frame t) xs pe ?A) (dumped (lock_frame t) xs pe ?A)"
    by (rule ndump_sound) (use t tail_ready_can_dump [OF t(1) p] room heldD(1) [OF t(5)] in auto)
  obtain s1 u where u: "set_station ?n (sn_list_in_update (\<lambda>l. l\<lparr>ls_locked := True\<rparr>)) s = Some s1"
      "crash (ndump_prog (nevents s) pe) (lock_frame t) u" "put_frame ?n sn_list_in_update u s1 = Some s'"
      "in_list.at s1 ?n (lock_frame t)" "in_list.at s' ?n u" "only_station ?n s s'"
    by (rule dies_inE [OF d t(1)])
  let ?g = "if fi_call (fr_fixin u) = ET_FIX_DUMP then et_repair_gcinputlist else et_repair_inputlist"
  obtain k v where v: "k \<le> length pe" "?g u = Some (ET_OK, v)" "held v (xs @ take k pe)" "fi_start (fr_fixin v) = 0"
      "fi_first (fr_fixin v) = None" "keeps ?A (set (xs @ take k pe)) (lock_frame t) v"
    using repair_of_dump [OF sound_crash [OF snd u(2)], of ?g] t(4) by auto
  obtain s'' where s'': "repair_on sn_list_in sn_list_in_update ?g ?n s' = Some (ET_OK, s'')"
      "only_station ?n s s''" "in_list.at s'' ?n (unlock_frame v)"
    using in_list.abandoned_repaired [OF t(1) u(2,1,3), of ?g v] v(2) by blast
  have "ls_locked (fr_list u)" using tame_crash [OF u(2) tame_progs(6)] by simp
  then have "et_repair_gc s' = Some (ET_OK, s'')"
    using s''(1) u(5) by (auto simp: et_repair_gc_def in_list.at_def frame_of_def)
  moreover have "in_queue s'' ?n (xs @ take k pe)"
    using v(3-5) s''(3) by (auto simp: in_queue_at intro!: exI [of _ "unlock_frame v"])
  moreover have "same_events ?A (set (xs @ take k pe)) s s''"
    by (rule keeps_same [OF v(6)]) (use at_events_eq(2) [OF t(1)] at_events_eq(2) [OF s''(3)] in simp_all)
  ultimately show ?thesis using v(1) s''(2) by blast
qed

section \<open>An example\<close>

text \<open>
  Six events. Grand Central holds the events 0 and 1 in its input list, station 1 the event 2 in its output
  list and 3 in its input list; attachment 0 has the events 4 and 5, and 5 is of high priority.
\<close>

definition sample_event :: "eptr \<Rightarrow> int \<Rightarrow> int \<Rightarrow> nat \<Rightarrow> et_event" where
  "sample_event nx att pri k = \<lparr>ev_next = nx, ev_pdata = Shared k, ev_length = 0, ev_memsize = 100, ev_modify = 0,
     ev_priority = pri, ev_owner = att, ev_temp = ET_EVENT_NORMAL, ev_age = ET_EVENT_USED, ev_datastatus = ET_DATA_OK,
     ev_byteorder = 0x04030201, ev_group = 1, ev_place = k, ev_control = replicate 6 0, ev_filename = ''''\<rparr>"

definition sample_list :: "int \<Rightarrow> nat \<Rightarrow> nat \<Rightarrow> et_list" where
  "sample_list cnt f l = et_init_llist\<lparr>ls_cnt := cnt, ls_first := Some f, ls_last := Some l\<rparr>"

definition sample :: et_id where
  "sample = \<lparr>id_lang = ET_LANG_C, id_alive = True, id_closed = False, id_proc = 0, id_cleanup = False, id_group = 1, id_locality = ET_LOCAL,
     id_sys = \<lparr>sy_hz = 100, sy_nstations = 2, sy_ntemps = 0, sy_nprocesses = 1, sy_nattachments = 1, sy_stat_head = 0, sy_stat_tail = 1, sy_proc = [],
       sy_attach = [et_init_attachment\<lparr>at_num := 0, at_proc := 0, at_stat := 1, at_status := ET_ATT_ACTIVE\<rparr>],
       sy_config = \<lparr>sg_event_size = 100, sg_nevents = 6, sg_ntemps = 6, sg_nstations = 3, sg_nprocesses = 1,
         sg_nattachments = 1, sg_groupCount = 1, sg_groups = [6], sg_filename = ''sys''\<rparr>\<rparr>,
     id_stats = [et_init_station\<lparr>sn_num := 0, sn_status := ET_STATION_ACTIVE, sn_list_in := sample_list 2 0 1\<rparr>,
       et_init_station\<lparr>sn_num := 1, sn_status := ET_STATION_ACTIVE, sn_nattachments := 1, sn_list_in := sample_list 1 3 3,
         sn_list_out := sample_list 1 2 2\<rparr>,
       et_init_station],
     id_histogram = replicate 7 0,
     id_events = [sample_event (Some 1) ET_SYS 0 0, sample_event None ET_SYS 0 1, sample_event None ET_SYS 0 2,
       sample_event None ET_SYS 0 3, sample_event None 0 0 4, sample_event None 0 1 5],
     id_files = {}\<rparr>"

lemma sample_simps [simp]:
  "nevents sample = 6"
  "id_events sample = [sample_event (Some 1) ET_SYS 0 0, sample_event None ET_SYS 0 1, sample_event None ET_SYS 0 2,
       sample_event None ET_SYS 0 3, sample_event None 0 0 4, sample_event None 0 1 5]"
  "station sample 0 = Some (et_init_station\<lparr>sn_num := 0, sn_status := ET_STATION_ACTIVE, sn_list_in := sample_list 2 0 1\<rparr>)"
  "station sample 1 = Some (et_init_station\<lparr>sn_num := 1, sn_status := ET_STATION_ACTIVE, sn_nattachments := 1,
     sn_list_in := sample_list 1 3 3, sn_list_out := sample_list 1 2 2\<rparr>)"
  "id_histogram sample = [0, 0, 0, 0, 0, 0, 0]"
  by (simp_all add: sample_def nevents_def station_def rd_def numeral_eq_Suc)

lemma sample_queues:
  "out_queue sample 1 [] [2]" "in_queue sample 1 [3]" "in_queue sample ET_GRANDCENTRAL [0, 1]"
  "in_unlocked sample 1" "can_put sample [2] [4, 5]" "can_put sample [2] [5]" "can_dump sample [0, 1] [4, 5]"
  by (simp_all add: out_queue_def in_queue_def in_unlocked_def out_held_def held_def owned_def shape_def queued_def high_def low_def
    frame_of_def et_init_station_def sample_list_def sample_event_def et_init_llist_def can_put_def can_dump_def)

theorem et_station_nwrite_puts_witness:
  "\<exists>s'. et_station_nwrite 1 [4, 5] sample = Some (ET_OK, s') \<and> out_queue s' 1 [5] [2, 4]"
  using et_station_nwrite_puts [of sample 1 "[]" "[2]" "[4, 5]"] sample_queues
  by (auto simp: high_def low_def sample_event_def)

theorem et_station_write_puts_witness:
  "\<exists>s'. et_station_write 1 5 sample = Some (ET_OK, s') \<and> out_queue s' 1 [5] [2]"
  using et_station_write_puts [of sample 1 "[]" "[2]" 5] sample_queues
  by (auto simp: high_def sample_event_def)

theorem et_station_nread_takes_witness:
  "\<exists>s'. et_station_nread 0 ET_SLEEP 0 1 [] sample = Some (ET_OK, [0], s') \<and> in_queue s' 0 [1]"
  using et_station_nread_takes [of sample 0 "[0, 1]" 1 ET_SLEEP 0 "[]"] sample_queues
  by (auto simp: will_read_def)

theorem et_station_read_takes_witness:
  "\<exists>s'. et_station_read 1 ET_TIMED 0 [] sample = Some (ET_OK, Some 3, s') \<and> in_queue s' 1 []"
  using et_station_read_takes [of sample 1 3 "[]" ET_TIMED 0 "[]"] sample_queues
  by (auto simp: will_read_def)

theorem et_station_ndump_appends_witness:
  "\<exists>s'. et_station_ndump [4, 5] sample = Some (ET_OK, s') \<and> in_queue s' 0 [0, 1, 4, 5]"
  using et_station_ndump_appends [of sample "[0, 1]" "[4, 5]"] sample_queues by auto

theorem et_station_dump_appends_witness:
  "\<exists>s'. et_station_dump 4 sample = Some (ET_OK, s') \<and> in_queue s' 0 [0, 1, 4]"
  using et_station_dump_appends [of sample "[0, 1]" 4] sample_queues
  by (auto simp: can_dump_def)

text \<open>Stopped after so many steps.\<close>

fun steps :: "nat \<Rightarrow> (fr, 'a) prog \<Rightarrow> fr \<Rightarrow> fr" where
  "steps n (Get f) s = (case n of 0 \<Rightarrow> s | Suc n \<Rightarrow> steps n (f s) s)"
| "steps n (Put f p) s = (case n of 0 \<Rightarrow> s | Suc n \<Rightarrow> (case f s of None \<Rightarrow> s | Some s \<Rightarrow> steps n p s))"
| "steps n _ s = s"

lemma crash_steps: "crash p s (steps n p s)"
proof (induction p arbitrary: n s)
  case (Put f p)
  then show ?case by (cases n) (auto split: option.splits)
next
  case (Get f)
  then show ?case by (cases n) (auto intro: crash.here)
qed simp_all

lemma dies_out_steps:
  assumes "station s n = Some ps" "\<not> ls_locked (sn_list_out ps)"
  shows "\<exists>s'. dies_out n p s s' \<and> out_list.at s' n (steps k p (lock_frame (frame_of sn_list_out ps s)))"
proof -
  let ?t = "frame_of sn_list_out ps s"
  have t: "out_list.at s n ?t" using assms(1) by (auto simp: out_list.at_def)
  obtain s1 where s1: "set_station n (sn_list_out_update (\<lambda>l. l\<lparr>ls_locked := True\<rparr>)) s = Some s1" "out_list.at s1 n (lock_frame ?t)"
    using out_list.set_lock [OF t, of True] by blast
  obtain s' where s': "put_frame n sn_list_out_update (steps k p (lock_frame ?t)) s1 = Some s'"
      "out_list.at s' n (steps k p (lock_frame ?t))"
    using out_list.put_frame_at [OF s1(2)] by blast
  obtain ps1 where "station s1 n = Some ps1" "lock_frame ?t = frame_of sn_list_out ps1 s1"
    using s1(2) by (auto simp: out_list.at_def)
  then have "dies_out n p s s'"
    using assms s1(1) s'(1) crash_steps [of p "lock_frame ?t" k] by (auto simp: dies_out_def lock_out_def)
  then show ?thesis using s'(2) by blast
qed

lemma dies_in_steps:
  assumes "station s n = Some ps" "\<not> ls_locked (sn_list_in ps)"
  shows "\<exists>s'. dies_in n p s s' \<and> in_list.at s' n (steps k p (lock_frame (frame_of sn_list_in ps s)))"
proof -
  let ?t = "frame_of sn_list_in ps s"
  have t: "in_list.at s n ?t" using assms(1) by (auto simp: in_list.at_def)
  obtain s1 where s1: "set_station n (sn_list_in_update (\<lambda>l. l\<lparr>ls_locked := True\<rparr>)) s = Some s1" "in_list.at s1 n (lock_frame ?t)"
    using in_list.set_lock [OF t, of True] by blast
  obtain s' where s': "put_frame n sn_list_in_update (steps k p (lock_frame ?t)) s1 = Some s'"
      "in_list.at s' n (steps k p (lock_frame ?t))"
    using in_list.put_frame_at [OF s1(2)] by blast
  obtain ps1 where "station s1 n = Some ps1" "lock_frame ?t = frame_of sn_list_in ps1 s1"
    using s1(2) by (auto simp: in_list.at_def)
  then have "dies_in n p s s'"
    using assms s1(1) s'(1) crash_steps [of p "lock_frame ?t" k] by (auto simp: dies_in_def lock_in_def)
  then show ?thesis using s'(2) by blast
qed

lemma sample_unlocked:
  "\<not> ls_locked (sn_list_out (the (station sample 1)))" "\<not> ls_locked (sn_list_in (the (station sample 1)))"
  "\<not> ls_locked (sn_list_in (the (station sample 0)))"
  by (simp_all add: sample_list_def et_init_llist_def et_init_station_def)

theorem et_station_nwrite_crash_witness:
  "\<exists>s' k s''. dies_out 1 (nwrite_prog 6 [4, 5]) sample s' \<and> k \<le> 2 \<and> et_repair_station 1 s' = Some (ET_OK, s'')
     \<and> same_events {2, 4, 5} (set (2 # take k [4, 5])) sample s''"
proof -
  obtain s' where s': "dies_out 1 (nwrite_prog (nevents sample) [4, 5]) sample s'"
    using dies_out_steps [of sample 1 "the (station sample 1)" _ 12] sample_unlocked by fastforce
  show ?thesis
    using et_station_nwrite_crash [OF sample_queues(1) _ _ sample_queues(4) s'] sample_queues(5) s'
    by (auto simp: numeral_2_eq_2)
qed

theorem et_station_nread_crash_witness:
  "\<exists>s' s'' xs. dies_in 1 (nread_prog 0 1) sample s' \<and> et_repair_station 1 s' = Some (ET_OK, s'')
     \<and> in_queue s'' 1 xs \<and> (xs = [3] \<or> xs = [] \<and> owner_of s'' 3 = 0)"
proof -
  obtain s' where s': "dies_in 1 (nread_prog 0 1) sample s'"
    using dies_in_steps [of sample 1 "the (station sample 1)" _ 9] sample_unlocked by fastforce
  show ?thesis using et_station_nread_crash [OF sample_queues(2) _ _ s'] s' by auto
qed

theorem et_station_ndump_crash_witness:
  "\<exists>s' k s''. dies_in 0 (ndump_prog 6 [4, 5]) sample s' \<and> k \<le> 2 \<and> et_repair_gc s' = Some (ET_OK, s'')
     \<and> in_queue s'' 0 ([0, 1] @ take k [4, 5])"
proof -
  obtain s' where s': "dies_in ET_GRANDCENTRAL (ndump_prog (nevents sample) [4, 5]) sample s'"
    using dies_in_steps [of sample 0 "the (station sample 0)" _ 14] sample_unlocked by fastforce
  show ?thesis using et_station_ndump_crash [OF sample_queues(3,7) _ s'] s' by (auto simp: numeral_2_eq_2)
qed

end
