(* ===== verification/EtConfig.thy ===== *)
theory EtConfig
  imports EtTypes
begin

text \<open>
  Station configurations (\<^verbatim>\<open>et_statconfig.c\<close>): the defaults, the routines that set and read the parts of a
  configuration, the check of a configuration when a station is created, and the comparison of a
  configuration with that of a group of parallel stations. A setter gives the status and the configuration
  it leaves; a string argument is \<open>None\<close> for \<^verbatim>\<open>NULL\<close>, and an array that is too short makes the result \<open>None\<close>.
\<close>

section \<open>Setting and reading\<close>

text \<open>\<^verbatim>\<open>malloc\<close> may fail.\<close>

definition et_station_config_init :: "bool \<Rightarrow> int \<times> et_stat_config option" where
  "et_station_config_init memory =
     (if memory
      then (ET_OK, Some \<lparr>cf_init = ET_STRUCT_OK, cf_flow_mode = ET_STATION_SERIAL, cf_user_mode = ET_STATION_USER_MULTI,
              cf_restore_mode = ET_STATION_RESTORE_OUT, cf_block_mode = ET_STATION_BLOCKING,
              cf_prescale = ET_STATION_PRESCALE, cf_cue = ET_STATION_CUE, cf_select_mode = ET_STATION_SELECT_ALL,
              cf_select = replicate ET_STATION_SELECT_INTS (-1), cf_fname = [], cf_lib = [], cf_class = []\<rparr>)
      else (ET_ERROR, None))"

definition set_config :: "bool \<Rightarrow> (et_stat_config \<Rightarrow> et_stat_config) \<Rightarrow> et_stat_config \<Rightarrow> int \<times> et_stat_config" where
  "set_config valid f sc =
     (if cf_init sc \<noteq> ET_STRUCT_OK then (ET_ERROR, sc)
      else if \<not> valid then (ET_ERROR, sc)
      else (ET_OK, f sc))"

definition et_station_config_setblock :: "et_stat_config \<Rightarrow> int \<Rightarrow> int \<times> et_stat_config" where
  "et_station_config_setblock sc val =
     set_config (\<not> (val \<noteq> ET_STATION_NONBLOCKING \<and> val \<noteq> ET_STATION_BLOCKING)) (\<lambda>c. c\<lparr>cf_block_mode := val\<rparr>) sc"

definition et_station_config_setflow :: "et_stat_config \<Rightarrow> int \<Rightarrow> int \<times> et_stat_config" where
  "et_station_config_setflow sc val =
     set_config (\<not> (val \<noteq> ET_STATION_SERIAL \<and> val \<noteq> ET_STATION_PARALLEL)) (\<lambda>c. c\<lparr>cf_flow_mode := val\<rparr>) sc"

definition et_station_config_setselect :: "et_stat_config \<Rightarrow> int \<Rightarrow> int \<times> et_stat_config" where
  "et_station_config_setselect sc val =
     set_config (\<not> (val \<noteq> ET_STATION_SELECT_ALL \<and> val \<noteq> ET_STATION_SELECT_MATCH \<and> val \<noteq> ET_STATION_SELECT_USER \<and>
         val \<noteq> ET_STATION_SELECT_RROBIN \<and> val \<noteq> ET_STATION_SELECT_EQUALCUE)) (\<lambda>c. c\<lparr>cf_select_mode := val\<rparr>) sc"

definition et_station_config_setuser :: "et_stat_config \<Rightarrow> int \<Rightarrow> int \<times> et_stat_config" where
  "et_station_config_setuser sc val = set_config (\<not> val < 0) (\<lambda>c. c\<lparr>cf_user_mode := val\<rparr>) sc"

definition et_station_config_setrestore :: "et_stat_config \<Rightarrow> int \<Rightarrow> int \<times> et_stat_config" where
  "et_station_config_setrestore sc val =
     set_config (\<not> (val \<noteq> ET_STATION_RESTORE_OUT \<and> val \<noteq> ET_STATION_RESTORE_IN \<and> val \<noteq> ET_STATION_RESTORE_GC \<and>
         val \<noteq> ET_STATION_RESTORE_REDIST)) (\<lambda>c. c\<lparr>cf_restore_mode := val\<rparr>) sc"

definition et_station_config_setcue :: "et_stat_config \<Rightarrow> int \<Rightarrow> int \<times> et_stat_config" where
  "et_station_config_setcue sc val = set_config (\<not> val < 1) (\<lambda>c. c\<lparr>cf_cue := val\<rparr>) sc"

definition et_station_config_setprescale :: "et_stat_config \<Rightarrow> int \<Rightarrow> int \<times> et_stat_config" where
  "et_station_config_setprescale sc val = set_config (\<not> val < 1) (\<lambda>c. c\<lparr>cf_prescale := val\<rparr>) sc"

definition et_station_config_setselectwords :: "et_stat_config \<Rightarrow> int list \<Rightarrow> (int \<times> et_stat_config) option" where
  "et_station_config_setselectwords sc val =
     (if cf_init sc = ET_STRUCT_OK \<and> length val < ET_STATION_SELECT_INTS then None
      else Some (set_config True (\<lambda>c. c\<lparr>cf_select := take ET_STATION_SELECT_INTS val\<rparr>) sc))"

text \<open>A name that has to fit into its array with the final NUL.\<close>

definition set_name :: "nat \<Rightarrow> (string \<Rightarrow> et_stat_config \<Rightarrow> et_stat_config) \<Rightarrow> et_stat_config \<Rightarrow> string option \<Rightarrow> int \<times> et_stat_config" where
  "set_name room f sc val =
     (case val of
        None \<Rightarrow> (ET_ERROR, sc)
      | Some name \<Rightarrow> set_config (\<not> length name > room - 1) (f name) sc)"

definition et_station_config_setfunction :: "et_stat_config \<Rightarrow> string option \<Rightarrow> int \<times> et_stat_config" where
  "et_station_config_setfunction = set_name ET_FUNCNAME_LENGTH (\<lambda>n c. c\<lparr>cf_fname := n\<rparr>)"

definition et_station_config_setlib :: "et_stat_config \<Rightarrow> string option \<Rightarrow> int \<times> et_stat_config" where
  "et_station_config_setlib = set_name ET_FILENAME_LENGTH (\<lambda>n c. c\<lparr>cf_lib := n\<rparr>)"

definition et_station_config_setclass :: "et_stat_config \<Rightarrow> string option \<Rightarrow> int \<times> et_stat_config" where
  "et_station_config_setclass = set_name ET_FILENAME_LENGTH (\<lambda>n c. c\<lparr>cf_class := n\<rparr>)"

definition et_station_config_getblock :: "et_stat_config \<Rightarrow> int \<times> int" where
  "et_station_config_getblock sc = (ET_OK, cf_block_mode sc)"

definition et_station_config_getflow :: "et_stat_config \<Rightarrow> int \<times> int" where
  "et_station_config_getflow sc = (ET_OK, cf_flow_mode sc)"

definition et_station_config_getselect :: "et_stat_config \<Rightarrow> int \<times> int" where
  "et_station_config_getselect sc = (ET_OK, cf_select_mode sc)"

definition et_station_config_getuser :: "et_stat_config \<Rightarrow> int \<times> int" where
  "et_station_config_getuser sc = (ET_OK, cf_user_mode sc)"

definition et_station_config_getrestore :: "et_stat_config \<Rightarrow> int \<times> int" where
  "et_station_config_getrestore sc = (ET_OK, cf_restore_mode sc)"

definition et_station_config_getcue :: "et_stat_config \<Rightarrow> int \<times> int" where
  "et_station_config_getcue sc = (ET_OK, cf_cue sc)"

definition et_station_config_getprescale :: "et_stat_config \<Rightarrow> int \<times> int" where
  "et_station_config_getprescale sc = (ET_OK, cf_prescale sc)"

definition et_station_config_getselectwords :: "et_stat_config \<Rightarrow> int \<times> int list" where
  "et_station_config_getselectwords sc = (ET_OK, cf_select sc)"

definition et_station_config_getfunction :: "et_stat_config \<Rightarrow> int \<times> string" where
  "et_station_config_getfunction sc = (ET_OK, cf_fname sc)"

definition et_station_config_getlib :: "et_stat_config \<Rightarrow> int \<times> string" where
  "et_station_config_getlib sc = (ET_OK, cf_lib sc)"

definition et_station_config_getclass :: "et_stat_config \<Rightarrow> int \<times> string" where
  "et_station_config_getclass sc = (ET_OK, cf_class sc)"

section \<open>Checking and comparing\<close>

text \<open>Round robin or equal cue.\<close>

definition dealing :: "et_stat_config \<Rightarrow> bool" where
  "dealing sc = (cf_select_mode sc = ET_STATION_SELECT_RROBIN \<or> cf_select_mode sc = ET_STATION_SELECT_EQUALCUE)"

definition et_station_config_check :: "et_id \<Rightarrow> et_stat_config \<Rightarrow> int" where
  "et_station_config_check s sc =
     (if cf_flow_mode sc \<noteq> ET_STATION_SERIAL \<and> cf_flow_mode sc \<noteq> ET_STATION_PARALLEL then ET_ERROR
      else if cf_restore_mode sc \<noteq> ET_STATION_RESTORE_OUT \<and> cf_restore_mode sc \<noteq> ET_STATION_RESTORE_IN \<and>
        cf_restore_mode sc \<noteq> ET_STATION_RESTORE_GC \<and> cf_restore_mode sc \<noteq> ET_STATION_RESTORE_REDIST then ET_ERROR
      else if cf_user_mode sc < 0 \<or> cf_user_mode sc > sg_nattachments (sy_config (id_sys s)) then ET_ERROR
      else if cf_select_mode sc \<noteq> ET_STATION_SELECT_ALL \<and> cf_select_mode sc \<noteq> ET_STATION_SELECT_MATCH \<and>
        cf_select_mode sc \<noteq> ET_STATION_SELECT_USER \<and> cf_select_mode sc \<noteq> ET_STATION_SELECT_RROBIN \<and>
        cf_select_mode sc \<noteq> ET_STATION_SELECT_EQUALCUE then ET_ERROR
      else if cf_select_mode sc = ET_STATION_SELECT_USER \<and> (length (cf_lib sc) < 4 \<or> length (cf_fname sc) < 1) then ET_ERROR
      else if dealing sc \<and> (cf_flow_mode sc = ET_STATION_SERIAL \<or> cf_block_mode sc = ET_STATION_NONBLOCKING \<or>
        cf_restore_mode sc = ET_STATION_RESTORE_IN \<or> cf_prescale sc \<noteq> 1) then ET_ERROR
      else if cf_restore_mode sc = ET_STATION_RESTORE_REDIST \<and> cf_flow_mode sc \<noteq> ET_STATION_PARALLEL then ET_ERROR
      else if cf_block_mode sc \<noteq> ET_STATION_BLOCKING \<and> cf_block_mode sc \<noteq> ET_STATION_NONBLOCKING then ET_ERROR
      else if cf_block_mode sc = ET_STATION_BLOCKING then (if cf_prescale sc < 1 then ET_ERROR else ET_OK)
      else if cf_cue sc < 1 then ET_ERROR
      else if cf_cue sc > nevents s then ET_ERROR
      else ET_OK)"

definition et_station_compare_parallel :: "et_stat_config \<Rightarrow> et_stat_config \<Rightarrow> int" where
  "et_station_compare_parallel g c =
     (if cf_flow_mode g \<noteq> cf_flow_mode c then 0
      else if cf_select_mode g = ET_STATION_SELECT_RROBIN \<and> cf_select_mode c \<noteq> ET_STATION_SELECT_RROBIN \<or>
        cf_select_mode g = ET_STATION_SELECT_EQUALCUE \<and> cf_select_mode c \<noteq> ET_STATION_SELECT_EQUALCUE then 0
      else if dealing g \<and> (cf_block_mode g \<noteq> cf_block_mode c \<or> cf_prescale g \<noteq> cf_prescale c) then 0
      else if \<not> dealing g \<and> dealing c then 0
      else 1)"

end
