(* ===== verification/EtChain.thy ===== *)
theory EtChain
  imports EtConfig EtReadWrite
begin

text \<open>
  The order of the stations (\<^verbatim>\<open>et_station.c\<close>, \<^verbatim>\<open>et_system.c\<close>): a doubly linked list that starts with Grand Central, in
  which the place of a parallel station may be the head of a second list of the stations beside it. Like
  the routines on lists of events, \<open>station_insert\<close> and \<open>station_remove\<close> are programs of single stores,
  since a process may die in them; \<open>et_fix_linkedlist\<close> and \<open>et_fix_stations\<close> are what the system
  does then. The counters of the searches are unbounded here; the code's are of type \<^verbatim>\<open>int\<close>.
\<close>

section \<open>Stores\<close>

definition set_st :: "int \<Rightarrow> (et_station \<Rightarrow> et_station) \<Rightarrow> (et_id, 'a) prog \<Rightarrow> (et_id, 'a) prog" where
  "set_st n f = Put (set_station n f)"

definition on_st :: "int \<Rightarrow> (et_station \<Rightarrow> (et_id, 'a) prog) \<Rightarrow> (et_id, 'a) prog" where
  "on_st n = ask (\<lambda>s. station s n)"

definition set_tail :: "int \<Rightarrow> (et_id, 'a) prog \<Rightarrow> (et_id, 'a) prog" where
  "set_tail n = Put (\<lambda>s. Some (s\<lparr>id_sys := (id_sys s)\<lparr>sy_stat_tail := n\<rparr>\<rparr>))"

definition is_tail :: "int \<Rightarrow> et_id \<Rightarrow> bool" where
  "is_tail n s = (sy_stat_tail (id_sys s) = n)"

section \<open>Taking a station out\<close>

text \<open>A station that is the only one of its place.\<close>

definition remove_single :: "int \<Rightarrow> (et_id, unit) prog" where
  "remove_single n = on_st n (\<lambda>ps. on_st (sn_prev ps) (\<lambda>previous.
     let commit = on_st n (\<lambda>ps. set_st (sn_prev ps) (\<lambda>x. x\<lparr>sn_next := sn_next ps\<rparr>) (Ret ())) in
     Get (\<lambda>s. if is_tail n s then set_tail (sn_num previous) commit
       else set_st (sn_next ps) (\<lambda>x. x\<lparr>sn_prev := sn_num previous\<rparr>) commit)))"

text \<open>The first of several parallel stations: the next one takes its place.\<close>

definition remove_head :: "int \<Rightarrow> (et_id, unit) prog" where
  "remove_head n = on_st n (\<lambda>ps. set_st (sn_nextparallel ps) (\<lambda>x. x\<lparr>sn_prev := sn_prev ps\<rparr>)
     (on_st n (\<lambda>ps. set_st (sn_nextparallel ps) (\<lambda>x. x\<lparr>sn_next := sn_next ps\<rparr>)
     (on_st n (\<lambda>ps. set_st (sn_nextparallel ps) (\<lambda>x. x\<lparr>sn_prevparallel := -1\<rparr>)
     (let commit = on_st n (\<lambda>ps. set_st (sn_prev ps) (\<lambda>x. x\<lparr>sn_next := sn_nextparallel ps\<rparr>) (Ret ())) in
      Get (\<lambda>s. if is_tail n s then on_st n (\<lambda>ps. on_st (sn_nextparallel ps) (\<lambda>q. set_tail (sn_num q) commit))
        else on_st n (\<lambda>ps. set_st (sn_next ps) (\<lambda>x. x\<lparr>sn_prev := sn_nextparallel ps\<rparr>) commit))))))))"

definition remove_member :: "int \<Rightarrow> (et_id, unit) prog" where
  "remove_member n = on_st n (\<lambda>ps. on_st (sn_prevparallel ps) (\<lambda>previous.
     let commit = on_st n (\<lambda>ps. set_st (sn_prevparallel ps) (\<lambda>x. x\<lparr>sn_nextparallel := sn_nextparallel ps\<rparr>)
       (on_st n (\<lambda>ps. if sn_waslast ps = 1 then set_st (sn_prevparallel ps) (\<lambda>x. x\<lparr>sn_waslast := 1\<rparr>) (Ret ()) else Ret ()))) in
     if sn_nextparallel ps > -1 then set_st (sn_nextparallel ps) (\<lambda>x. x\<lparr>sn_prevparallel := sn_num previous\<rparr>) commit
     else commit))"

definition station_remove :: "int \<Rightarrow> (et_id, unit) prog" where
  "station_remove n = on_st n (\<lambda>ps.
     if cf_flow_mode (sn_config ps) = ET_STATION_PARALLEL then
       if sn_prev ps > -1 then if sn_nextparallel ps < 0 then remove_single n else remove_head n
       else remove_member n
     else remove_single n)"

section \<open>Putting a station in\<close>

text \<open>The station before the position asked for and the one there, or the last station and \<open>-1\<close>.\<close>

partial_function (option) seek_place :: "et_id \<Rightarrow> int \<Rightarrow> int \<Rightarrow> int \<Rightarrow> (int \<times> int) option" where
  "seek_place s position counter previous = Option.bind (station s previous) (\<lambda>pp.
     if sn_next pp < 0 then Some (previous, sn_next pp)
     else if counter = position then Some (previous, sn_next pp)
     else seek_place s position (counter + 1) (sn_next pp))"

text \<open>The same in a list of parallel stations.\<close>

partial_function (option) seek_parallel :: "et_id \<Rightarrow> int \<Rightarrow> int \<Rightarrow> int \<Rightarrow> (int \<times> int) option" where
  "seek_parallel s position counter p = Option.bind (station s p) (\<lambda>pp.
     if counter = position \<or> sn_nextparallel pp < 0 then Some (p, sn_nextparallel pp)
     else seek_parallel s position (counter + 1) (sn_nextparallel pp))"

definition insert_end :: "int \<Rightarrow> int \<Rightarrow> (et_id, int) prog" where
  "insert_end n previous = on_st previous (\<lambda>pp. set_st n (\<lambda>x. x\<lparr>sn_prev := sn_num pp\<rparr>)
     (on_st n (\<lambda>ps. set_tail (sn_num ps)
     (on_st n (\<lambda>ps. set_st previous (\<lambda>x. x\<lparr>sn_next := sn_num ps\<rparr>) (Ret ET_OK))))))"

definition insert_before :: "int \<Rightarrow> int \<Rightarrow> int \<Rightarrow> (et_id, int) prog" where
  "insert_before n previous next = set_st n (\<lambda>x. x\<lparr>sn_next := next\<rparr>)
     (on_st previous (\<lambda>pp. set_st n (\<lambda>x. x\<lparr>sn_prev := sn_num pp\<rparr>)
     (on_st n (\<lambda>ps. set_st next (\<lambda>x. x\<lparr>sn_prev := sn_num ps\<rparr>)
     (on_st n (\<lambda>ps. set_st previous (\<lambda>x. x\<lparr>sn_next := sn_num ps\<rparr>) (Ret ET_OK)))))))"

definition insert_parallel :: "int \<Rightarrow> int \<Rightarrow> int \<Rightarrow> (et_id, int) prog" where
  "insert_parallel n p next = set_st n (\<lambda>x. x\<lparr>sn_nextparallel := next\<rparr>)
     (on_st p (\<lambda>pp. set_st n (\<lambda>x. x\<lparr>sn_prevparallel := sn_num pp\<rparr>)
     (let commit = on_st n (\<lambda>ps. set_st p (\<lambda>x. x\<lparr>sn_nextparallel := sn_num ps\<rparr>) (Ret ET_OK)) in
      if next > -1 then on_st n (\<lambda>ps. set_st next (\<lambda>x. x\<lparr>sn_prevparallel := sn_num ps\<rparr>) commit) else commit)))"

definition station_insert :: "int \<Rightarrow> int \<Rightarrow> int \<Rightarrow> (et_id, int) prog" where
  "station_insert n position parallelposition = Get (\<lambda>s.
     if sy_nstations (id_sys s) < 3 then insert_end n ET_GRANDCENTRAL
     else ask (\<lambda>s. seek_place s position 1 ET_GRANDCENTRAL) (\<lambda>(previous, next).
       if next < 0 then insert_end n previous
       else on_st n (\<lambda>ps. on_st next (\<lambda>pnext.
         if cf_flow_mode (sn_config ps) = ET_STATION_PARALLEL \<and> cf_flow_mode (sn_config pnext) = ET_STATION_PARALLEL \<and>
           parallelposition \<noteq> ET_NEWHEAD then
           if et_station_compare_parallel (sn_config pnext) (sn_config ps) = 0 then Ret ET_ERROR
           else if parallelposition = 0 then Ret ET_ERROR
           else ask (\<lambda>s. seek_parallel s parallelposition 1 next) (\<lambda>(p, q). insert_parallel n p q)
         else insert_before n previous next))))"

section \<open>Finding a station\<close>

text \<open>The result is the position and the parallel position, or \<open>None\<close> for a station that is not in the list.\<close>

partial_function (option) find_parallel :: "et_id \<Rightarrow> int \<Rightarrow> int \<Rightarrow> int \<Rightarrow> int option option" where
  "find_parallel s n counter p = Option.bind (station s p) (\<lambda>pp.
     if sn_nextparallel pp < 0 then Some None
     else if sn_nextparallel pp = n then Some (Some counter)
     else find_parallel s n (counter + 1) (sn_nextparallel pp))"

partial_function (option) find_place_loop :: "et_id \<Rightarrow> int \<Rightarrow> int \<Rightarrow> int \<Rightarrow> (int \<times> int) option option" where
  "find_place_loop s n counter previous = Option.bind (station s previous) (\<lambda>pp.
     if sn_next pp < 0 then Some None
     else if sn_next pp = n then Some (Some (counter, 0))
     else Option.bind (station s (sn_next pp)) (\<lambda>pnext.
       if cf_flow_mode (sn_config pnext) = ET_STATION_PARALLEL
       then Option.bind (find_parallel s n 1 (sn_next pp)) (\<lambda>r.
         case r of Some k \<Rightarrow> Some (Some (counter, k)) | None \<Rightarrow> find_place_loop s n (counter + 1) (sn_next pp))
       else find_place_loop s n (counter + 1) (sn_next pp)))"

definition station_find :: "et_id \<Rightarrow> int \<Rightarrow> (int \<times> int) option option" where
  "station_find s n =
     (if n = ET_GRANDCENTRAL then Some (Some (0, 0))
      else if sy_nstations (id_sys s) < 2 then Some None
      else find_place_loop s n 1 ET_GRANDCENTRAL)"

section \<open>Repairing the order\<close>

partial_function (option) fix_group :: "int \<Rightarrow> et_id \<Rightarrow> et_id option" where
  "fix_group p s = Option.bind (station s p) (\<lambda>pstat.
     if sn_nextparallel pstat > -1
     then Option.bind (set_station (sn_nextparallel pstat)
         (\<lambda>x. x\<lparr>sn_prevparallel := sn_num pstat, sn_prev := -1, sn_next := -1\<rparr>) s) (\<lambda>s.
       fix_group (sn_nextparallel pstat) s)
     else Some s)"

definition fix_place :: "int \<Rightarrow> int \<Rightarrow> et_id \<Rightarrow> et_id option" where
  "fix_place before p s = do {
     s \<leftarrow> set_station p (\<lambda>x. x\<lparr>sn_prev := before\<rparr>) s;
     pnext \<leftarrow> station s p;
     if cf_flow_mode (sn_config pnext) = ET_STATION_PARALLEL
     then do { s \<leftarrow> set_station p (\<lambda>x. x\<lparr>sn_prevparallel := -1\<rparr>) s; fix_group p s }
     else set_station p (\<lambda>x. x\<lparr>sn_prevparallel := -1, sn_nextparallel := -1\<rparr>) s
   }"

partial_function (option) fix_places :: "int \<Rightarrow> et_id \<Rightarrow> et_id option" where
  "fix_places p s = Option.bind (station s p) (\<lambda>ps.
     if sn_next ps > -1
     then Option.bind (fix_place (sn_num ps) (sn_next ps) s) (\<lambda>s. fix_places (sn_next ps) s)
     else Some (s\<lparr>id_sys := (id_sys s)\<lparr>sy_stat_tail := sn_num ps\<rparr>\<rparr>))"

definition et_fix_linkedlist :: "et_id \<Rightarrow> et_id option" where
  "et_fix_linkedlist s = fix_places (sy_stat_head (id_sys s)) s"

text \<open>Is a station in the list? The numbers of the stations are compared.\<close>

partial_function (option) in_group :: "et_id \<Rightarrow> int \<Rightarrow> int \<Rightarrow> bool option" where
  "in_group s num p = Option.bind (station s p) (\<lambda>pstat.
     if sn_nextparallel pstat > -1
     then Option.bind (station s (sn_nextparallel pstat)) (\<lambda>q.
       if sn_num q = num then Some True else in_group s num (sn_nextparallel pstat))
     else Some False)"

partial_function (option) in_chain :: "et_id \<Rightarrow> int \<Rightarrow> int \<Rightarrow> bool option" where
  "in_chain s num p = Option.bind (station s p) (\<lambda>pstat.
     if sn_next pstat > -1
     then Option.bind (station s (sn_next pstat)) (\<lambda>pnext.
       if sn_num pnext = num then Some True
       else Option.bind (if cf_flow_mode (sn_config pnext) = ET_STATION_PARALLEL then in_group s num (sn_next pstat) else Some False)
         (\<lambda>found. if found then Some True else in_chain s num (sn_next pstat)))
     else Some False)"

text \<open>
  A station that was being created, or that is not in the list, is removed. Its conductor is told to end, and
  then \<^verbatim>\<open>et_init_station\<close> clears that flag again. The mutexes of its lists are not touched.
\<close>

definition clear_station :: "et_station \<Rightarrow> et_station" where
  "clear_station ps = et_init_station\<lparr>sn_list_in := et_init_llist\<lparr>ls_locked := ls_locked (sn_list_in ps)\<rparr>,
     sn_list_out := et_init_llist\<lparr>ls_locked := ls_locked (sn_list_out ps)\<rparr>\<rparr>"

fun fix_stations :: "nat list \<Rightarrow> int \<Rightarrow> et_id \<Rightarrow> (int \<times> et_id) option" where
  "fix_stations [] nstats s = Some (nstats, s)"
| "fix_stations (i # is) nstats s = do {
     ps \<leftarrow> station s (int i);
     if sn_status ps = ET_STATION_CREATING then do {
       s \<leftarrow> set_station (int i) clear_station s;
       fix_stations is nstats s
     }
     else if sn_status ps \<noteq> ET_STATION_UNUSED then do {
       found \<leftarrow> in_chain s (sn_num ps) ET_GRANDCENTRAL;
       s \<leftarrow> (if found then Some s else set_station (int i) clear_station s);
       fix_stations is (nstats + 1) s
     }
     else fix_stations is nstats s
   }"

definition et_fix_stations :: "et_id \<Rightarrow> et_id option" where
  "et_fix_stations s = do {
     (nstats, s) \<leftarrow> fix_stations [1..<nat (sg_nstations (sy_config (id_sys s)))] 1 s;
     Some (s\<lparr>id_sys := (id_sys s)\<lparr>sy_nstations := nstats\<rparr>\<rparr>)
   }"

end
