(* ===== verification/EtStations.thy ===== *)
theory EtStations
  imports EtChain
begin

text \<open>
  The routines of \<^verbatim>\<open>et_station.c\<close> that programs call. The result is the status, what was stored through the pointer
  arguments, which are taken not to be \<^verbatim>\<open>NULL\<close>, and the state. The argument \<open>rem\<close> is what the routine for a remote
  system returns, which is called in the place of the rest. The mutexes of the system, of the stations and of the
  transfers are free when a routine takes them, and it gives them back; they are not part of the state. The
  process id and the host of an attachment are not either.
\<close>

section \<open>Information\<close>

definition nstats :: "et_id \<Rightarrow> int" where
  "nstats s = sg_nstations (sy_config (id_sys s))"

text \<open>The checks of the routines that give away a value; \<open>used\<close>: the station must be in use.\<close>

definition get_of :: "bool \<Rightarrow> (et_station \<Rightarrow> 'a) \<Rightarrow> int \<Rightarrow> int \<times> 'a option \<Rightarrow> et_id \<Rightarrow> (int \<times> 'a option) option" where
  "get_of used f n rem s =
     (if id_locality s = ET_REMOTE then Some rem
      else if \<not> id_alive s then Some (ET_ERROR_DEAD, None)
      else if id_closed s then Some (ET_ERROR_CLOSED, None)
      else if n < 0 \<or> n \<ge> nstats s then Some (ET_ERROR, None)
      else do {
        ps \<leftarrow> station s n;
        if used \<and> sn_status ps = ET_STATION_UNUSED then Some (ET_ERROR, None)
        else Some (ET_OK, Some (f ps))
      })"

definition et_station_getstatus :: "int \<Rightarrow> int \<times> int option \<Rightarrow> et_id \<Rightarrow> (int \<times> int option) option" where
  "et_station_getstatus = get_of False sn_status"

definition et_station_getinputcount :: "int \<Rightarrow> int \<times> int option \<Rightarrow> et_id \<Rightarrow> (int \<times> int option) option" where
  "et_station_getinputcount = get_of False (\<lambda>ps. ls_cnt (sn_list_in ps))"

definition et_station_getoutputcount :: "int \<Rightarrow> int \<times> int option \<Rightarrow> et_id \<Rightarrow> (int \<times> int option) option" where
  "et_station_getoutputcount = get_of False (\<lambda>ps. ls_cnt (sn_list_out ps))"

definition et_station_getattachments :: "int \<Rightarrow> int \<times> int option \<Rightarrow> et_id \<Rightarrow> (int \<times> int option) option" where
  "et_station_getattachments = get_of True sn_nattachments"

definition et_station_getblock :: "int \<Rightarrow> int \<times> int option \<Rightarrow> et_id \<Rightarrow> (int \<times> int option) option" where
  "et_station_getblock = get_of True (\<lambda>ps. cf_block_mode (sn_config ps))"

definition et_station_getuser :: "int \<Rightarrow> int \<times> int option \<Rightarrow> et_id \<Rightarrow> (int \<times> int option) option" where
  "et_station_getuser = get_of True (\<lambda>ps. cf_user_mode (sn_config ps))"

definition et_station_getrestore :: "int \<Rightarrow> int \<times> int option \<Rightarrow> et_id \<Rightarrow> (int \<times> int option) option" where
  "et_station_getrestore = get_of True (\<lambda>ps. cf_restore_mode (sn_config ps))"

definition et_station_getprescale :: "int \<Rightarrow> int \<times> int option \<Rightarrow> et_id \<Rightarrow> (int \<times> int option) option" where
  "et_station_getprescale = get_of True (\<lambda>ps. cf_prescale (sn_config ps))"

definition et_station_getcue :: "int \<Rightarrow> int \<times> int option \<Rightarrow> et_id \<Rightarrow> (int \<times> int option) option" where
  "et_station_getcue = get_of True (\<lambda>ps. cf_cue (sn_config ps))"

definition et_station_getselectwords :: "int \<Rightarrow> int \<times> int list option \<Rightarrow> et_id \<Rightarrow> (int \<times> int list option) option" where
  "et_station_getselectwords = get_of True (\<lambda>ps. cf_select (sn_config ps))"

definition et_station_getselect :: "int \<Rightarrow> int \<times> int option \<Rightarrow> et_id \<Rightarrow> (int \<times> int option) option" where
  "et_station_getselect = get_of True (\<lambda>ps. cf_select_mode (sn_config ps))"

definition et_station_getlib :: "int \<Rightarrow> int \<times> string option \<Rightarrow> et_id \<Rightarrow> (int \<times> string option) option" where
  "et_station_getlib n rem s = (if id_lang s = ET_LANG_JAVA then Some (ET_ERROR, None)
     else get_of True (\<lambda>ps. cf_lib (sn_config ps)) n rem s)"

definition et_station_getclass :: "int \<Rightarrow> int \<times> string option \<Rightarrow> et_id \<Rightarrow> (int \<times> string option) option" where
  "et_station_getclass n rem s = (if id_lang s \<noteq> ET_LANG_JAVA then Some (ET_ERROR, None)
     else get_of True (\<lambda>ps. cf_class (sn_config ps)) n rem s)"

definition et_station_getfunction :: "int \<Rightarrow> int \<times> string option \<Rightarrow> et_id \<Rightarrow> (int \<times> string option) option" where
  "et_station_getfunction n rem s = (if id_lang s = ET_LANG_JAVA then Some (ET_ERROR, None)
     else get_of True (\<lambda>ps. cf_fname (sn_config ps)) n rem s)"

definition et_station_isattached :: "int \<Rightarrow> int \<Rightarrow> int \<Rightarrow> et_id \<Rightarrow> int option" where
  "et_station_isattached n att rem s =
     (if id_locality s = ET_REMOTE then Some rem
      else if \<not> id_alive s then Some ET_ERROR_DEAD
      else if id_closed s then Some ET_ERROR_CLOSED
      else if n < 0 \<or> n \<ge> nstats s then Some ET_ERROR
      else if att < 0 \<or> att \<ge> sg_nattachments (sy_config (id_sys s)) then Some ET_ERROR
      else do { ps \<leftarrow> station s n; a \<leftarrow> rd (sn_att ps) (nat att); Some (if a = att then 1 else 0) })"

text \<open>The first station of some kind.\<close>

fun first_station :: "(et_station \<Rightarrow> bool) \<Rightarrow> nat list \<Rightarrow> et_id \<Rightarrow> int option option" where
  "first_station P [] s = Some None"
| "first_station P (i # is) s = do {
     ps \<leftarrow> station s (int i);
     if P ps then Some (Some (int i)) else first_station P is s
   }"

definition et_station_exists :: "string option \<Rightarrow> int \<times> int option \<Rightarrow> et_id \<Rightarrow> (int \<times> int option) option" where
  "et_station_exists name rem s =
     (case name of
        None \<Rightarrow> Some (ET_ERROR, None)
      | Some stat_name \<Rightarrow>
          if id_locality s = ET_REMOTE then Some rem
          else if \<not> id_alive s then Some (ET_ERROR_DEAD, None)
          else if id_closed s then Some (ET_ERROR_CLOSED, None)
          else do {
            found \<leftarrow> first_station (\<lambda>ps. sn_status ps \<noteq> ET_STATION_UNUSED \<and> sn_name ps = stat_name) [0..<nat (nstats s)] s;
            Some (if found \<noteq> None then 1 else 0, found)
          })"

definition et_station_name_to_id :: "string option \<Rightarrow> int \<times> int option \<Rightarrow> et_id \<Rightarrow> (int \<times> int option) option" where
  "et_station_name_to_id name rem s = do {
     (status, n) \<leftarrow> et_station_exists name rem s;
     Some (if status < 0 then status else if status = 1 then ET_OK else ET_ERROR, n)
   }"

section \<open>Changing the configuration of a station\<close>

text \<open>
  \<open>valid\<close>: the value alone is good; \<open>fits\<close>: it goes with the station; \<open>locked\<close>: the mutex of the input list is held. The
  change is \<open>None\<close> when it reads outside of an array.
\<close>

definition set_of :: "bool \<Rightarrow> (et_stat_config \<Rightarrow> bool) \<Rightarrow> bool \<Rightarrow> (et_stat_config \<Rightarrow> et_stat_config option) \<Rightarrow>
    int \<Rightarrow> int \<Rightarrow> et_id \<Rightarrow> (int \<times> et_id) option" where
  "set_of valid fits locked f n rem s =
     (if n = ET_GRANDCENTRAL then Some (ET_ERROR, s)
      else if \<not> valid then Some (ET_ERROR, s)
      else if id_locality s \<noteq> ET_LOCAL then Some (rem, s)
      else if \<not> id_alive s then Some (ET_ERROR_DEAD, s)
      else if id_closed s then Some (ET_ERROR_CLOSED, s)
      else if n < 0 \<or> n \<ge> nstats s then Some (ET_ERROR, s)
      else do {
        ps \<leftarrow> station s n;
        if \<not> fits (sn_config ps) then Some (ET_ERROR, s)
        else do {
          s \<leftarrow> (if locked then lock_in n s else Some s);
          sc \<leftarrow> f (sn_config ps);
          s \<leftarrow> set_station n (\<lambda>x. x\<lparr>sn_config := sc\<rparr>) s;
          s \<leftarrow> (if locked then unlock_in n s else Some s);
          Some (ET_OK, s)
        }
      })"

definition et_station_setblock :: "int \<Rightarrow> int \<Rightarrow> int \<Rightarrow> et_id \<Rightarrow> (int \<times> et_id) option" where
  "et_station_setblock n block =
     set_of (\<not> (block \<noteq> ET_STATION_BLOCKING \<and> block \<noteq> ET_STATION_NONBLOCKING))
       (\<lambda>sc. \<not> (dealing sc \<and> block = ET_STATION_NONBLOCKING)) False (\<lambda>sc. Some (sc\<lparr>cf_block_mode := block\<rparr>)) n"

definition et_station_setuser :: "int \<Rightarrow> int \<Rightarrow> int \<Rightarrow> et_id \<Rightarrow> (int \<times> et_id) option" where
  "et_station_setuser n user = set_of (\<not> user < 0) (\<lambda>_. True) False (\<lambda>sc. Some (sc\<lparr>cf_user_mode := user\<rparr>)) n"

definition et_station_setrestore :: "int \<Rightarrow> int \<Rightarrow> int \<Rightarrow> et_id \<Rightarrow> (int \<times> et_id) option" where
  "et_station_setrestore n restore =
     set_of (\<not> (restore \<noteq> ET_STATION_RESTORE_OUT \<and> restore \<noteq> ET_STATION_RESTORE_IN \<and> restore \<noteq> ET_STATION_RESTORE_GC))
       (\<lambda>sc. \<not> (dealing sc \<and> restore = ET_STATION_RESTORE_IN)) False (\<lambda>sc. Some (sc\<lparr>cf_restore_mode := restore\<rparr>)) n"

definition et_station_setprescale :: "int \<Rightarrow> int \<Rightarrow> int \<Rightarrow> et_id \<Rightarrow> (int \<times> et_id) option" where
  "et_station_setprescale n prescale =
     set_of (\<not> prescale < 1) (\<lambda>sc. \<not> (dealing sc \<and> prescale \<noteq> 1)) True (\<lambda>sc. Some (sc\<lparr>cf_prescale := prescale\<rparr>)) n"

definition et_station_setcue :: "int \<Rightarrow> int \<Rightarrow> int \<Rightarrow> et_id \<Rightarrow> (int \<times> et_id) option" where
  "et_station_setcue n cue rem s =
     set_of True (\<lambda>_. \<not> (cue < 1 \<or> cue > nevents s)) True (\<lambda>sc. Some (sc\<lparr>cf_cue := cue\<rparr>)) n rem s"

definition et_station_setselectwords :: "int \<Rightarrow> int list \<Rightarrow> int \<Rightarrow> et_id \<Rightarrow> (int \<times> et_id) option" where
  "et_station_setselectwords n select =
     set_of True (\<lambda>_. True) True (\<lambda>sc. if length select < ET_STATION_SELECT_INTS then None
       else Some (sc\<lparr>cf_select := take ET_STATION_SELECT_INTS select\<rparr>)) n"

section \<open>Creating and removing a station\<close>

text \<open>
  The thread \<^verbatim>\<open>et_add_stations\<close> starts a conductor for the station being created. \<open>starts\<close>: the conductor gets its memory
  and finds the library with the station's function. A conductor that finds no station ends without a word, and
  the caller waits for ever.
\<close>

definition et_conductor_start :: "bool \<Rightarrow> et_id \<Rightarrow> et_id option" where
  "et_conductor_start starts s = do {
     me \<leftarrow> first_station (\<lambda>ps. sn_status ps = ET_STATION_CREATING) [0..<nat (nstats s)] s;
     case me of None \<Rightarrow> None
     | Some n \<Rightarrow>
         if starts then set_station n (\<lambda>x. x\<lparr>sn_status := if n = ET_GRANDCENTRAL then ET_STATION_ACTIVE else ET_STATION_IDLE\<rparr>) s
         else Some s
   }"

definition et_add_stations :: "bool \<Rightarrow> et_id \<Rightarrow> et_id option" where
  "et_add_stations starts s = (if sy_nstations (id_sys s) > nstats s then None else et_conductor_start starts s)"

definition count_stations :: "int \<Rightarrow> et_id \<Rightarrow> et_id" where
  "count_stations d s = s\<lparr>id_sys := (id_sys s)\<lparr>sy_nstations := sy_nstations (id_sys s) + d\<rparr>\<rparr>"

text \<open>Is a station defined by a configuration like this? A user's function is never the same.\<close>

definition same_station :: "et_stat_config \<Rightarrow> et_stat_config \<Rightarrow> bool" where
  "same_station c sc = (cf_flow_mode c = cf_flow_mode sc \<and> cf_user_mode c = cf_user_mode sc \<and> cf_block_mode c = cf_block_mode sc \<and>
     cf_select_mode c = cf_select_mode sc \<and> cf_restore_mode c = cf_restore_mode sc \<and> cf_prescale c = cf_prescale sc \<and>
     cf_cue c = cf_cue sc \<and> cf_select c = cf_select sc \<and> cf_select_mode c \<noteq> ET_STATION_SELECT_USER)"

definition new_station :: "int \<Rightarrow> string \<Rightarrow> et_stat_config \<Rightarrow> et_station \<Rightarrow> et_station" where
  "new_station n name sc ps = (clear_station ps)\<lparr>sn_num := n, sn_name := name, sn_config := sc, sn_status := ET_STATION_CREATING\<rparr>"

definition create_station :: "bool \<Rightarrow> string \<Rightarrow> et_stat_config \<Rightarrow> int \<Rightarrow> int \<Rightarrow> et_id \<Rightarrow> (int \<times> int option \<times> et_id) option" where
  "create_station starts name sc position parallelposition s =
     (if sy_nstations (id_sys s) \<ge> nstats s then Some (ET_ERROR_TOOMANY, None, s)
      else do {
        let s = count_stations 1 s;
        this_station \<leftarrow> first_station (\<lambda>ps. sn_status ps = ET_STATION_UNUSED) [0..<nat (nstats s)] s;
        case this_station of
          None \<Rightarrow> Some (ET_ERROR, None, count_stations (-1) s)
        | Some n \<Rightarrow> do {
            s \<leftarrow> set_station n (new_station n name sc) s;
            if name = ''GRAND_CENTRAL'' then Some (ET_OK, None, s)
            else do {
              s \<leftarrow> et_add_stations starts s;
              ps \<leftarrow> station s n;
              if sn_status ps \<noteq> ET_STATION_IDLE then do {
                s \<leftarrow> set_station n clear_station (count_stations (-1) s);
                Some (ET_ERROR, None, s)
              }
              else do {
                (r, s) \<leftarrow> run (station_insert n position parallelposition) s;
                if r \<noteq> ET_OK then do {
                  s \<leftarrow> set_station n (\<lambda>x. x\<lparr>sn_conductor := ET_THREAD_KILL, sn_status := ET_STATION_UNUSED\<rparr>) s;
                  Some (ET_ERROR, None, count_stations (-1) s)
                }
                else Some (ET_OK, Some n, s)
              }
            }
          }
      })"

definition existing_station :: "int option \<Rightarrow> et_stat_config \<Rightarrow> et_id \<Rightarrow> (int \<times> int option \<times> et_id) option" where
  "existing_station found sc s = do {
     n \<leftarrow> found;
     (r, status) \<leftarrow> et_station_getstatus n (0, None) s;
     status \<leftarrow> status;
     ps \<leftarrow> station s n;
     Some (if status \<noteq> ET_STATION_CREATING \<and> same_station (sn_config ps) sc then ET_OK else ET_ERROR_EXISTS, found, s)
   }"

definition et_station_create_at :: "bool \<Rightarrow> bool \<Rightarrow> string option \<Rightarrow> et_stat_config option \<Rightarrow> int \<Rightarrow> int \<Rightarrow>
    int \<times> int option \<Rightarrow> et_id \<Rightarrow> (int \<times> int option \<times> et_id) option" where
  "et_station_create_at memory starts stat_name sconfig position parallelposition rem s =
     (case stat_name of
        None \<Rightarrow> Some (ET_ERROR, None, s)
      | Some name \<Rightarrow>
          if length name > ET_STATNAME_LENGTH - 1 then Some (ET_ERROR, None, s)
          else if position \<noteq> ET_END \<and> position < 0 then Some (ET_ERROR, None, s)
          else if parallelposition \<noteq> ET_END \<and> parallelposition \<noteq> ET_NEWHEAD \<and> parallelposition < 0 then Some (ET_ERROR, None, s)
          else case (case sconfig of Some sc \<Rightarrow> Some sc | None \<Rightarrow> snd (et_station_config_init memory)) of
            None \<Rightarrow> Some (ET_ERROR, None, s)
          | Some sc \<Rightarrow>
              if cf_init sc \<noteq> ET_STRUCT_OK then Some (ET_ERROR, None, s)
              else if name \<noteq> ''GRAND_CENTRAL'' \<and> position = 0 then Some (ET_ERROR, None, s)
              else if id_locality s \<noteq> ET_LOCAL then Some (fst rem, snd rem, s)
              else if \<not> id_alive s \<and> name \<noteq> ''GRAND_CENTRAL'' then Some (ET_ERROR_DEAD, None, s)
              else if id_closed s then Some (ET_ERROR_CLOSED, None, s)
              else if et_station_config_check s sc = ET_ERROR then Some (ET_ERROR, None, s)
              else do {
                (r, found) \<leftarrow> et_station_exists (Some name) (0, None) s;
                if r = 1 then existing_station found sc s
                else create_station starts name sc position parallelposition s
              })"

definition et_station_create :: "bool \<Rightarrow> bool \<Rightarrow> string option \<Rightarrow> et_stat_config option \<Rightarrow>
    int \<times> int option \<Rightarrow> et_id \<Rightarrow> (int \<times> int option \<times> et_id) option" where
  "et_station_create memory starts stat_name sconfig = et_station_create_at memory starts stat_name sconfig ET_END ET_END"

text \<open>\<open>meanwhile\<close> is what the conductor does with the last events of the station.\<close>

definition et_station_remove :: "(et_id \<Rightarrow> et_id) \<Rightarrow> int \<Rightarrow> int \<Rightarrow> et_id \<Rightarrow> (int \<times> et_id) option" where
  "et_station_remove meanwhile n rem s =
     (if n < 0 then Some (ET_ERROR, s)
      else if n = ET_GRANDCENTRAL then Some (ET_ERROR, s)
      else if id_locality s \<noteq> ET_LOCAL then Some (rem, s)
      else if \<not> id_alive s then Some (ET_ERROR_DEAD, s)
      else if id_closed s then Some (ET_ERROR_CLOSED, s)
      else if n \<ge> nstats s then Some (ET_ERROR, s)
      else do {
        ps \<leftarrow> station s n;
        if sn_nattachments ps > 0 then Some (ET_ERROR, s)
        else do {
          (_, s) \<leftarrow> run (station_remove n) s;
          s \<leftarrow> set_station n (\<lambda>x. x\<lparr>sn_conductor := ET_THREAD_KILL, sn_status := ET_STATION_UNUSED\<rparr>) (meanwhile s);
          Some (ET_OK, count_stations (-1) s)
        }
      })"

section \<open>Attaching and detaching\<close>

fun first_attachment :: "nat list \<Rightarrow> et_id \<Rightarrow> int option option" where
  "first_attachment [] s = Some None"
| "first_attachment (i # is) s = do {
     a \<leftarrow> attachment s (int i);
     if at_num a = -1 then Some (Some (int i)) else first_attachment is s
   }"

definition count_attachments :: "int \<Rightarrow> et_id \<Rightarrow> et_id" where
  "count_attachments d s = s\<lparr>id_sys := (id_sys s)\<lparr>sy_nattachments := sy_nattachments (id_sys s) + d\<rparr>\<rparr>"

text \<open>A process or a station notes one attachment more or less.\<close>

definition note_proc :: "int \<Rightarrow> int \<Rightarrow> int \<Rightarrow> et_id \<Rightarrow> et_id option" where
  "note_proc att entry d s =
     (if id_proc s = ET_SYS then Some s
      else if id_proc s < 0 then None
      else do {
        p \<leftarrow> rd (sy_proc (id_sys s)) (nat (id_proc s));
        atts \<leftarrow> wr (pr_att p) (nat att) entry;
        Some (s\<lparr>id_sys := (id_sys s)\<lparr>sy_proc := (sy_proc (id_sys s))
          [nat (id_proc s) := p\<lparr>pr_nattachments := pr_nattachments p + d, pr_att := atts\<rparr>]\<rparr>\<rparr>)
      })"

definition note_station :: "int \<Rightarrow> int \<Rightarrow> int \<Rightarrow> int \<Rightarrow> et_id \<Rightarrow> et_id option" where
  "note_station n att entry d s = do {
     ps \<leftarrow> station s n;
     atts \<leftarrow> wr (sn_att ps) (nat att) entry;
     set_station n (\<lambda>x. x\<lparr>sn_nattachments := sn_nattachments x + d, sn_att := atts\<rparr>) s
   }"

definition et_station_attach :: "int \<Rightarrow> int \<times> int option \<Rightarrow> et_id \<Rightarrow> (int \<times> int option \<times> et_id) option" where
  "et_station_attach n rem s =
     (if n < 0 then Some (ET_ERROR, None, s)
      else if id_locality s \<noteq> ET_LOCAL then Some (fst rem, snd rem, s)
      else if \<not> id_alive s then Some (ET_ERROR_DEAD, None, s)
      else if id_closed s then Some (ET_ERROR_CLOSED, None, s)
      else if n \<ge> nstats s then Some (ET_ERROR, None, s)
      else do {
        ps \<leftarrow> station s n;
        if sn_status ps \<noteq> ET_STATION_ACTIVE \<and> sn_status ps \<noteq> ET_STATION_IDLE then Some (ET_ERROR, None, s)
        else if cf_user_mode (sn_config ps) > 0 \<and> cf_user_mode (sn_config ps) \<le> sn_nattachments ps then Some (ET_ERROR_TOOMANY, None, s)
        else if sy_nattachments (id_sys s) \<ge> sg_nattachments (sy_config (id_sys s)) then Some (ET_ERROR_TOOMANY, None, s)
        else do {
          my_index \<leftarrow> first_attachment [0..<nat (sg_nattachments (sy_config (id_sys s)))] s;
          case my_index of None \<Rightarrow> Some (ET_ERROR, None, s)
          | Some att \<Rightarrow> do {
              s \<leftarrow> set_attachment att (\<lambda>_. et_init_attachment\<lparr>at_num := att, at_proc := id_proc s, at_stat := n, at_status := ET_ATT_ACTIVE\<rparr>)
                (count_attachments 1 s);
              s \<leftarrow> note_proc att att 1 s;
              s \<leftarrow> note_station n att att 1 s;
              s \<leftarrow> set_station n (\<lambda>x. x\<lparr>sn_status := ET_STATION_ACTIVE\<rparr>) s;
              Some (ET_OK, Some att, s)
            }
        }
      })"

definition et_station_detach :: "int \<Rightarrow> int \<Rightarrow> et_id \<Rightarrow> (int \<times> et_id) option" where
  "et_station_detach att rem s =
     (if att < 0 \<or> att \<ge> int ET_ATTACHMENTS_MAX then Some (ET_ERROR, s)
      else if id_locality s \<noteq> ET_LOCAL then Some (rem, s)
      else if \<not> id_alive s then Some (ET_ERROR_DEAD, s)
      else if id_closed s then Some (ET_ERROR_CLOSED, s)
      else if att \<ge> sg_nattachments (sy_config (id_sys s)) then Some (ET_ERROR, s)
      else do {
        a \<leftarrow> attachment s att;
        if at_stat a < 0 then Some (ET_ERROR, s)
        else do {
          let n = at_stat a;
          s \<leftarrow> set_attachment att (\<lambda>a. a\<lparr>at_num := -1, at_status := ET_ATT_UNUSED\<rparr>) s;
          let s = count_attachments (-1) s;
          ps \<leftarrow> station s n;
          s \<leftarrow> (if sn_nattachments ps = 1 \<and> n \<noteq> ET_GRANDCENTRAL
                then do { s \<leftarrow> set_station n (\<lambda>x. x\<lparr>sn_status := ET_STATION_IDLE\<rparr>) s; et_flush_events att n s }
                else Some s);
          (_, s) \<leftarrow> et_restore_events att n s;
          s \<leftarrow> note_station n att (-1) (-1) s;
          s \<leftarrow> (if \<not> id_cleanup s then note_proc att (-1) (-1) s else Some s);
          Some (ET_OK, s)
        }
      })"

section \<open>Positions\<close>

definition placed :: "et_station \<Rightarrow> bool" where
  "placed ps = (\<not> (sn_status ps \<noteq> ET_STATION_IDLE \<and> sn_status ps \<noteq> ET_STATION_ACTIVE))"

text \<open>When the new place is refused, the old one is asked for; for a station that was not found it is not even set.\<close>

definition et_station_setposition :: "int \<Rightarrow> int \<Rightarrow> int \<Rightarrow> int \<Rightarrow> et_id \<Rightarrow> (int \<times> et_id) option" where
  "et_station_setposition n position parallelposition rem s =
     (if n < 0 then Some (ET_ERROR, s)
      else if n = ET_GRANDCENTRAL then Some (if position = 0 then ET_OK else ET_ERROR, s)
      else if position \<noteq> ET_END \<and> position < 0 then Some (ET_ERROR, s)
      else if position = 0 then Some (ET_ERROR, s)
      else if parallelposition \<noteq> ET_END \<and> parallelposition \<noteq> ET_NEWHEAD \<and> parallelposition < 0 then Some (ET_ERROR, s)
      else if id_locality s \<noteq> ET_LOCAL then Some (rem, s)
      else if \<not> id_alive s then Some (ET_ERROR_DEAD, s)
      else if id_closed s then Some (ET_ERROR_CLOSED, s)
      else if n \<ge> nstats s then Some (ET_ERROR, s)
      else do {
        ps \<leftarrow> station s n;
        if \<not> placed ps then Some (ET_ERROR, s)
        else do {
          current \<leftarrow> station_find s n;
          (_, s) \<leftarrow> run (station_remove n) s;
          (err, s) \<leftarrow> run (station_insert n position parallelposition) s;
          if err \<noteq> ET_OK then do {
            (p, q) \<leftarrow> current;
            (_, s) \<leftarrow> run (station_insert n p q) s;
            Some (err, s)
          }
          else Some (err, s)
        }
      })"

definition et_station_getposition :: "int \<Rightarrow> int \<times> int option \<times> int option \<Rightarrow> et_id \<Rightarrow> (int \<times> int option \<times> int option) option" where
  "et_station_getposition n rem s =
     (if n < 0 then Some (ET_ERROR, None, None)
      else if n = ET_GRANDCENTRAL then Some (ET_OK, Some 0, None)
      else if id_locality s = ET_REMOTE then Some rem
      else if \<not> id_alive s then Some (ET_ERROR_DEAD, None, None)
      else if id_closed s then Some (ET_ERROR_CLOSED, None, None)
      else if n \<ge> nstats s then Some (ET_ERROR, None, None)
      else do {
        ps \<leftarrow> station s n;
        if \<not> placed ps then Some (ET_ERROR, None, None)
        else do {
          place \<leftarrow> station_find s n;
          case place of None \<Rightarrow> Some (ET_ERROR, None, None) | Some (p, q) \<Rightarrow> Some (ET_OK, Some p, Some q)
        }
      })"

end
