(* ===== verification/EtConductor.thy ===== *)
theory EtConductor
  imports EtStations
begin

unbundle bit_operations_syntax

text \<open>
  The conductor of a station (\<^verbatim>\<open>et_conductor\<close> in \<^verbatim>\<open>et_system.c\<close>): one round of its loop, which takes all events of
  the station's output list and puts each into the input list of a station further down or, in the end, of Grand
  Central. The transfer mutex is held for the round, so the list of stations does not change in it. A
  result \<open>False\<close> is the jump to the label \<^verbatim>\<open>error\<close>, with which the thread ends. \<open>user\<close> stands for the
  selection functions that stations load from libraries.
\<close>

section \<open>Which events a station gets\<close>

text \<open>The events of the round with the flag \<^verbatim>\<open>event_put\<close>.\<close>

type_synonym marked = "(nat \<times> bool) list"

text \<open>\<^verbatim>\<open>et_condition\<close>: the even words of a station are compared with the control words, the odd ones are masks.\<close>

definition et_condition :: "et_station \<Rightarrow> et_event \<Rightarrow> bool" where
  "et_condition ps pe = list_ex (\<lambda>i. cf_select (sn_config ps) ! i \<noteq> -1 \<and>
     (if i mod 2 = 0 then cf_select (sn_config ps) ! i = ev_control pe ! i
      else cf_select (sn_config ps) ! i AND ev_control pe ! i \<noteq> 0)) [0..<ET_STATION_SELECT_INTS]"

text \<open>A station without a function makes the conductor call \<^verbatim>\<open>NULL\<close>.\<close>

definition wants :: "(int \<Rightarrow> et_event \<Rightarrow> bool) \<Rightarrow> et_station \<Rightarrow> et_event \<Rightarrow> bool option" where
  "wants user ps pe =
     (if cf_select_mode (sn_config ps) = ET_STATION_SELECT_MATCH then Some (et_condition ps pe)
      else if cf_select_mode (sn_config ps) = ET_STATION_SELECT_USER then Some (user (sn_num ps) pe)
      else None)"

text \<open>Every \<open>prescale\<close>-th of the events that are wanted, counted on from \<open>try\<close>.\<close>

fun take_prescaled :: "(nat \<Rightarrow> bool option) \<Rightarrow> u64 \<Rightarrow> u64 \<Rightarrow> marked \<Rightarrow> (nat list \<times> marked \<times> u64) option" where
  "take_prescaled want prescale try [] = Some ([], [], try)"
| "take_prescaled want prescale try ((e, put) # es) =
     (if put then do {
        (pe, es, try) \<leftarrow> take_prescaled want prescale try es;
        Some (pe, (e, put) # es, try)
      }
      else do {
        w \<leftarrow> want e;
        if \<not> w then do {
          (pe, es, try) \<leftarrow> take_prescaled want prescale try es;
          Some (pe, (e, put) # es, try)
        }
        else if prescale = 0 then None
        else if try mod prescale = 0 then do {
          (pe, es, try) \<leftarrow> take_prescaled want prescale (try + 1) es;
          Some (e # pe, (e, True) # es, try)
        }
        else do {
          (pe, es, try) \<leftarrow> take_prescaled want prescale (try + 1) es;
          Some (pe, (e, put) # es, try)
        }
      })"

text \<open>Wanted events until the station is full; \<open>j\<close> is not 0.\<close>

fun take_room :: "(nat \<Rightarrow> bool option) \<Rightarrow> nat \<Rightarrow> marked \<Rightarrow> (nat list \<times> marked) option" where
  "take_room want j [] = Some ([], [])"
| "take_room want j ((e, put) # es) =
     (if put then do { (pe, es) \<leftarrow> take_room want j es; Some (pe, (e, put) # es) }
      else do {
        w \<leftarrow> want e;
        if \<not> w then do { (pe, es) \<leftarrow> take_room want j es; Some (pe, (e, put) # es) }
        else if j - 1 = 0 then Some ([e], (e, True) # es)
        else do { (pe, es) \<leftarrow> take_room want (j - 1) es; Some (e # pe, (e, True) # es) }
      })"

definition not_put :: "marked \<Rightarrow> nat list" where
  "not_put es = map fst (filter (\<lambda>(e, put). \<not> put) es)"

section \<open>Putting them into its list\<close>

record round =
  rd_sys :: et_id
  rd_events :: marked
  rd_first :: bool
  rd_left :: int

definition on_input :: "int \<Rightarrow> (lists \<Rightarrow> ('a \<times> lists) option) \<Rightarrow> et_id \<Rightarrow> ('a \<times> et_id) option" where
  "on_input n f s = do {
     s \<leftarrow> lock_in n s;
     ps \<leftarrow> station s n;
     (x, es, l) \<leftarrow> f (id_events s, sn_list_in ps);
     s \<leftarrow> set_station n (\<lambda>ps. ps\<lparr>sn_list_in := l\<rparr>) (s\<lparr>id_events := es\<rparr>);
     s \<leftarrow> unlock_in n s;
     Some (x, s)
   }"

text \<open>\<^verbatim>\<open>et_llist_write\<close> of a number of events, which are counted as tried.\<close>

definition give :: "int \<Rightarrow> u64 \<Rightarrow> nat list \<Rightarrow> int \<Rightarrow> et_id \<Rightarrow> (bool \<times> et_id) option" where
  "give n try pe num s = on_input n (\<lambda>(es, l). do {
     (numwritten, m) \<leftarrow> et_llist_write (nevents s) pe num (es, l\<lparr>ls_try := try\<rparr>);
     Some (\<not> (numwritten = ET_ERROR \<or> numwritten < num), m)
   }) s"

text \<open>Grand Central gets all that is left. Temporary events lose their files.\<close>

fun drop_files :: "nat list \<Rightarrow> et_id \<Rightarrow> et_id option" where
  "drop_files [] s = Some s"
| "drop_files (i # pe) s = do {
     e \<leftarrow> rd (id_events s) i;
     drop_files pe (if ev_temp e = ET_EVENT_TEMP
       then s\<lparr>id_files := id_files s - {ev_filename e}, id_sys := (id_sys s)\<lparr>sy_ntemps := sy_ntemps (id_sys s) - 1\<rparr>\<rparr> else s)
   }"

definition serve_gc :: "round \<Rightarrow> (bool \<times> round) option" where
  "serve_gc r =
     (let pe = (if rd_first r then map fst (rd_events r) else not_put (rd_events r)) in
      if pe = [] then Some (True, r)
      else do {
        s \<leftarrow> drop_files pe (rd_sys r);
        (ok, s) \<leftarrow> on_input ET_GRANDCENTRAL (\<lambda>m. do {
          (status, m) \<leftarrow> et_llist_write_gc (nevents s) pe (int (length pe)) m;
          Some (status \<noteq> ET_ERROR, m)
        }) s;
        Some (ok, if ok then r\<lparr>rd_sys := s, rd_left := 0\<rparr> else r\<lparr>rd_sys := s\<rparr>)
      })"

text \<open>The events chosen go into the list. If there are none, only the count of tried events may have changed.\<close>

definition serve_chosen :: "int \<Rightarrow> u64 \<Rightarrow> nat list \<Rightarrow> marked \<Rightarrow> round \<Rightarrow> (bool \<times> round) option" where
  "serve_chosen n try pe es r =
     (if pe = [] then do {
        (_, s) \<leftarrow> on_input n (\<lambda>(es, l). Some ((), es, l\<lparr>ls_try := try\<rparr>)) (rd_sys r);
        Some (True, r\<lparr>rd_sys := s, rd_events := es\<rparr>)
      }
      else do {
        (ok, s) \<leftarrow> give n try pe (int (length pe)) (rd_sys r);
        Some (ok, r\<lparr>rd_sys := s, rd_events := es, rd_left := rd_left r - int (length pe)\<rparr>)
      })"

definition serve_all :: "int \<Rightarrow> round \<Rightarrow> (bool \<times> round) option" where
  "serve_all n r = do {
     ps \<leftarrow> station (rd_sys r) n;
     let pe = map fst (rd_events r);
     (ok, s) \<leftarrow> give n (ls_try (sn_list_in ps) + of_nat (length pe)) pe (int (length pe)) (rd_sys r);
     Some (ok, r\<lparr>rd_sys := s, rd_left := 0\<rparr>)
   }"

definition room_in :: "et_station \<Rightarrow> int" where
  "room_in ps = cf_cue (sn_config ps) - ls_cnt (sn_list_in ps)"

definition serve :: "(int \<Rightarrow> et_event \<Rightarrow> bool) \<Rightarrow> int \<Rightarrow> round \<Rightarrow> (bool \<times> round) option" where
  "serve user n r = do {
     ps \<leftarrow> station (rd_sys r) n;
     let sc = sn_config ps;
     let try = ls_try (sn_list_in ps);
     let want = (\<lambda>i. do { e \<leftarrow> rd (id_events (rd_sys r)) i; wants user ps e });
     let choose_prescaled = (\<lambda>want. do {
       (pe, es, try) \<leftarrow> take_prescaled want (word_of_int (cf_prescale sc)) try (rd_events r);
       serve_chosen n try pe es r });
     let choose_room = (\<lambda>want. do {
       (pe, es) \<leftarrow> (if ls_cnt (sn_list_in ps) < cf_cue sc then take_room want (nat (room_in ps)) (rd_events r) else Some ([], rd_events r));
       serve_chosen n try pe es r });
     if n = ET_GRANDCENTRAL then serve_gc r
     else if cf_select_mode sc = ET_STATION_SELECT_ALL \<and> cf_block_mode sc = ET_STATION_BLOCKING then
       (if rd_first r \<and> cf_prescale sc = 1 then serve_all n r else choose_prescaled (\<lambda>_. Some True))
     else if cf_select_mode sc = ET_STATION_SELECT_ALL \<and> cf_block_mode sc = ET_STATION_NONBLOCKING then choose_room (\<lambda>_. Some True)
     else if cf_block_mode sc = ET_STATION_BLOCKING then choose_prescaled want
     else if cf_block_mode sc = ET_STATION_NONBLOCKING then choose_room want
     else Some (True, r)
   }"

section \<open>A group of parallel stations\<close>

definition active :: "et_station \<Rightarrow> bool" where
  "active ps = (sn_status ps = ET_STATION_ACTIVE)"

text \<open>The first active station of the group, from \<open>p\<close> on, and the first one behind \<open>p\<close>.\<close>

partial_function (option) first_active :: "et_id \<Rightarrow> int \<Rightarrow> int option option" where
  "first_active s p = Option.bind (station s p) (\<lambda>ps.
     if active ps then Some (Some p)
     else if sn_nextparallel ps < 0 then Some None
     else first_active s (sn_nextparallel ps))"

definition next_active :: "et_id \<Rightarrow> int \<Rightarrow> int option option" where
  "next_active s p = Option.bind (station s p) (\<lambda>ps.
     if sn_nextparallel ps > -1 then first_active s (sn_nextparallel ps) else Some None)"

text \<open>Each active station in turn chooses from what the ones before it left.\<close>

partial_function (option) serve_group :: "(int \<Rightarrow> et_event \<Rightarrow> bool) \<Rightarrow> int \<Rightarrow> round \<Rightarrow> (bool \<times> round) option" where
  "serve_group user p r = Option.bind (serve user p r) (\<lambda>(ok, r).
     if \<not> ok then Some (False, r)
     else Option.bind (next_active (rd_sys r) p) (\<lambda>q.
       case q of None \<Rightarrow> Some (True, r)
       | Some p \<Rightarrow> if rd_left r > 0 then serve_group user p (r\<lparr>rd_first := False\<rparr>) else Some (True, r)))"

section \<open>Round robin\<close>

text \<open>
  The station that comes after the one marked as the last to have got an event, and the number of active stations.
  The mark is taken away.
\<close>

partial_function (option) rrobin_scan :: "et_id \<Rightarrow> int \<Rightarrow> bool \<Rightarrow> int option \<Rightarrow> int \<Rightarrow> (int option \<times> int \<times> et_id) option" where
  "rrobin_scan s p looking start numActive = Option.bind (station s p) (\<lambda>ps.
     let start = (if active ps \<and> looking then Some p else start);
         looking = (if active ps \<and> looking then False else looking);
         numActive = (if active ps then numActive + 1 else numActive) in
     Option.bind (if sn_waslast ps = 1 then set_station p (\<lambda>x. x\<lparr>sn_waslast := 0\<rparr>) s else Some s) (\<lambda>s.
       if sn_nextparallel ps > -1
       then rrobin_scan s (sn_nextparallel ps) (looking \<or> sn_waslast ps = 1) start numActive
       else Some (start, numActive, s)))"

text \<open>How many events the \<open>i\<close>-th station gets.\<close>

definition rrobin_number :: "int \<Rightarrow> int \<Rightarrow> int \<Rightarrow> int" where
  "rrobin_number left numActive i = (if i < left mod numActive then left div numActive + 1 else left div numActive)"

text \<open>
  Which events these are: when all are there, every \<open>numActive\<close>-th from \<open>i\<close> on. Otherwise the search starts at the
  index \<open>i\<close> of the array, whatever was put already, and does not stop for a station that is to get none.
\<close>

fun rrobin_pick :: "int \<Rightarrow> int \<Rightarrow> int \<Rightarrow> marked \<Rightarrow> nat list" where
  "rrobin_pick numActive skip num [] = []"
| "rrobin_pick numActive skip num ((e, put) # es) =
     (if put then rrobin_pick numActive skip num es
      else if skip > 0 then rrobin_pick numActive (skip - 1) num es
      else if num - 1 = 0 then [e]
      else e # rrobin_pick numActive (numActive - 1) (num - 1) es)"

fun rrobin_every :: "nat \<Rightarrow> nat \<Rightarrow> nat \<Rightarrow> marked \<Rightarrow> nat list option" where
  "rrobin_every step index 0 es = Some []"
| "rrobin_every step index (Suc n) es = do {
     (e, put) \<leftarrow> rd es index;
     pe \<leftarrow> rrobin_every step (index + step) n es;
     Some (e # pe)
   }"

fun rrobin_order :: "round \<Rightarrow> int \<Rightarrow> nat list \<Rightarrow> nat list option" where
  "rrobin_order r numActive [] = Some []"
| "rrobin_order r numActive (i # is) = do {
     pe \<leftarrow> (if rd_first r then rrobin_every (nat numActive) i (nat (rrobin_number (rd_left r) numActive (int i))) (rd_events r)
            else Some (rrobin_pick numActive 0 (rrobin_number (rd_left r) numActive (int i)) (drop i (rd_events r))));
     rest \<leftarrow> rrobin_order r numActive is;
     if int (length pe + length rest) > nevents (rd_sys r) then None else Some (pe @ rest)
   }"

definition rrobin_last :: "int \<Rightarrow> int \<Rightarrow> int" where
  "rrobin_last left numActive = (if left mod numActive = 0 then numActive - 1 else left mod numActive - 1)"

text \<open>
  \<open>left\<close> is the number of events at the beginning, \<open>count\<close> the number of stations that have had their turn, and \<open>pe\<close>
  the events that are still in the array.
\<close>

partial_function (option) rrobin_deal :: "int \<Rightarrow> int \<Rightarrow> int \<Rightarrow> int \<Rightarrow> int \<Rightarrow> nat list \<Rightarrow> round \<Rightarrow> (bool \<times> round) option" where
  "rrobin_deal left numActive firstActive p count pe r = Option.bind (station (rd_sys r) p) (\<lambda>ps.
     Option.bind
       (if active ps then
          Option.bind (if count = rrobin_last left numActive then set_station p (\<lambda>x. x\<lparr>sn_waslast := 1\<rparr>) (rd_sys r) else Some (rd_sys r)) (\<lambda>s.
            let num = rrobin_number left numActive count in
            if num > 0
            then Option.bind (give p (ls_try (sn_list_in ps) + word_of_int num) pe num s) (\<lambda>(ok, s).
              Some (ok, count + 1, drop (nat num) pe, r\<lparr>rd_sys := s, rd_left := rd_left r - num\<rparr>))
            else Some (True, count + 1, pe, r\<lparr>rd_sys := s\<rparr>))
        else Some (True, count, pe, r)) (\<lambda>(ok, count, pe, r).
       if \<not> ok then Some (False, r)
       else if count \<ge> numActive then Some (True, r)
       else rrobin_deal left numActive firstActive (if sn_nextparallel ps > -1 then sn_nextparallel ps else firstActive) count pe r))"

definition rrobin :: "int \<Rightarrow> int \<Rightarrow> round \<Rightarrow> (bool \<times> round) option" where
  "rrobin p firstActive r = do {
     (start, numActive, s) \<leftarrow> rrobin_scan (rd_sys r) p False None 0;
     let r = r\<lparr>rd_sys := s\<rparr>;
     if numActive = 0 then None
     else do {
       pe \<leftarrow> rrobin_order r numActive [0..<nat numActive];
       rrobin_deal (rd_left r) numActive firstActive (case start of None \<Rightarrow> firstActive | Some q \<Rightarrow> q) 0 pe r
     }
   }"

section \<open>Equal cues\<close>

text \<open>
  Shell's sort of the array \<open>a\<close>, with \<open>b\<close> carried along. The code's arrays are read from index 1 on; here they are
  lists, and the gap is a natural number.
\<close>

fun shell_gap :: "nat \<Rightarrow> nat \<Rightarrow> nat \<Rightarrow> nat" where
  "shell_gap 0 n inc = inc"
| "shell_gap (Suc fuel) n inc = (let inc = inc * 3 + 1 in if inc \<le> n then shell_gap fuel n inc else inc)"

text \<open>The entry \<open>(v, w)\<close> moves down in steps of \<open>inc\<close> from place \<open>j\<close> (from 0 on).\<close>

function shell_insert :: "nat \<Rightarrow> int \<Rightarrow> int \<Rightarrow> nat \<Rightarrow> int list \<Rightarrow> int list \<Rightarrow> int list \<times> int list" where
  "shell_insert inc v w j a b =
     (if inc = 0 \<or> j < inc \<or> \<not> a ! (j - inc) > v then (a[j := v], b[j := w])
      else shell_insert inc v w (j - inc) (a[j := a ! (j - inc)]) (b[j := b ! (j - inc)]))"
  by pat_completeness auto
termination
  by (relation "measure (\<lambda>(inc, v, w, j, a, b). j)") auto

declare shell_insert.simps [simp del]

definition shell_pass :: "nat \<Rightarrow> int list \<times> int list \<Rightarrow> int list \<times> int list" where
  "shell_pass inc ab = fold (\<lambda>i (a, b). shell_insert inc (a ! i) (b ! i) i a b) [inc..<length (fst ab)] ab"

function shell_passes :: "nat \<Rightarrow> int list \<times> int list \<Rightarrow> int list \<times> int list" where
  "shell_passes inc ab =
     (let inc' = inc div 3; ab = shell_pass inc' ab in if inc' > 1 then shell_passes inc' ab else ab)"
  by pat_completeness auto
termination
  by (relation "measure fst") auto

declare shell_passes.simps [simp del]

definition shellSort :: "int list \<Rightarrow> int list \<Rightarrow> int list \<times> int list" where
  "shellSort a b = shell_passes (shell_gap (Suc (length a)) (length a) 1) (a, b)"

text \<open>The number of events in the list of each active station of the group.\<close>

partial_function (option) cue_counts :: "et_id \<Rightarrow> int \<Rightarrow> int list option" where
  "cue_counts s p = Option.bind (station s p) (\<lambda>ps.
     Option.bind (if sn_nextparallel ps > -1 then cue_counts s (sn_nextparallel ps) else Some []) (\<lambda>rest.
       Some (if active ps then ls_cnt (sn_list_in ps) # rest else rest)))"

text \<open>
  The lowest cues are filled up to the next higher one until the events are used up. \<open>counts\<close> is sorted, \<open>place\<close> tells
  the stations, and \<open>nums\<close> is what each station gets so far.
\<close>

definition level_stations :: "int \<Rightarrow> int list \<Rightarrow> int list \<Rightarrow> int list \<Rightarrow> nat" where
  "level_stations low counts place nums =
     length (takeWhile (\<lambda>i. low = counts ! i + nums ! nat (place ! i - 1)) [0..<length counts])"

fun add_to :: "int list \<Rightarrow> (nat \<Rightarrow> int) \<Rightarrow> nat list \<Rightarrow> int list \<Rightarrow> int list" where
  "add_to place amount [] nums = nums"
| "add_to place amount (i # is) nums =
     add_to place amount is (nums[nat (place ! i - 1) := nums ! nat (place ! i - 1) + amount i])"

definition spread_rest :: "int list \<Rightarrow> nat \<Rightarrow> int \<Rightarrow> int list \<Rightarrow> int list" where
  "spread_rest place k rest nums = add_to place (\<lambda>i. if int i < rest mod int k then rest div int k + 1 else rest div int k) [0..<k] nums"

partial_function (option) dole :: "int list \<Rightarrow> int list \<Rightarrow> int \<Rightarrow> int \<Rightarrow> int \<Rightarrow> int list \<Rightarrow> int list option" where
  "dole counts place left doled low nums =
     (if \<not> doled < left then Some nums
      else let k = level_stations low counts place nums in
        if k = length counts \<or> left - doled < (counts ! k - low) * int k then Some (spread_rest place k (left - doled) nums)
        else let per = counts ! k - low in
          dole counts place left (doled + per * int k) (counts ! k) (add_to place (\<lambda>_. per) [0..<k] nums))"

definition equal_numbers :: "int \<Rightarrow> int list \<Rightarrow> int list option" where
  "equal_numbers left counts =
     (let (sorted, place) = shellSort counts (map (\<lambda>i. int i + 1) [0..<length counts]) in
      if sorted = [] then None else dole sorted place left 0 (hd sorted) (replicate (length counts) 0))"

text \<open>The first events that are not put yet are marked and given.\<close>

fun mark_first :: "nat \<Rightarrow> marked \<Rightarrow> nat list \<times> marked" where
  "mark_first n [] = ([], [])"
| "mark_first n ((e, put) # es) =
     (if put then let (pe, es) = mark_first n es in (pe, (e, put) # es)
      else if n \<le> 1 then ([e], (e, True) # es)
      else let (pe, es) = mark_first (n - 1) es in (e # pe, (e, True) # es))"

partial_function (option) cue_deal :: "int \<Rightarrow> int list \<Rightarrow> nat list \<Rightarrow> round \<Rightarrow> (bool \<times> round) option" where
  "cue_deal p nums pe r = Option.bind (station (rd_sys r) p) (\<lambda>ps.
     Option.bind
       (if \<not> active ps then Some (True, nums, pe, r)
        else case nums of [] \<Rightarrow> None
        | num # nums \<Rightarrow>
            if num < 1 then Some (True, nums, pe, r)
            else let (chosen, es) = (if rd_first r then (pe, rd_events r) else mark_first (nat num) (rd_events r)) in
              Option.bind (give p (ls_try (sn_list_in ps) + word_of_int num) chosen num (rd_sys r)) (\<lambda>(ok, s).
                Some (ok, nums, drop (nat num) pe, if ok then r\<lparr>rd_sys := s, rd_events := es, rd_left := rd_left r - num\<rparr>
                  else r\<lparr>rd_sys := s, rd_events := es\<rparr>)))
       (\<lambda>(ok, nums, pe, r).
         if \<not> ok then Some (False, r)
         else if sn_nextparallel ps > -1 then cue_deal (sn_nextparallel ps) nums pe r
         else Some (True, r)))"

definition equal_cue :: "int \<Rightarrow> round \<Rightarrow> (bool \<times> round) option" where
  "equal_cue firstActive r = do {
     counts \<leftarrow> cue_counts (rd_sys r) firstActive;
     nums \<leftarrow> equal_numbers (rd_left r) counts;
     cue_deal firstActive nums (map fst (rd_events r)) r
   }"

section \<open>A round\<close>

text \<open>The place \<open>p\<close> of the list of stations: one station or the head of a group.\<close>

definition serve_place :: "(int \<Rightarrow> et_event \<Rightarrow> bool) \<Rightarrow> int \<Rightarrow> round \<Rightarrow> (bool \<times> round) option" where
  "serve_place user p r = do {
     ps \<leftarrow> station (rd_sys r) p;
     if cf_flow_mode (sn_config ps) = ET_STATION_PARALLEL then do {
       q \<leftarrow> first_active (rd_sys r) p;
       case q of
         None \<Rightarrow> Some (True, r)
       | Some firstActive \<Rightarrow>
           if cf_select_mode (sn_config ps) = ET_STATION_SELECT_RROBIN then rrobin p firstActive r
           else if cf_select_mode (sn_config ps) = ET_STATION_SELECT_EQUALCUE then equal_cue firstActive r
           else serve_group user firstActive r
     }
     else if active ps then serve user p r
     else Some (True, r)
   }"

definition behind :: "et_station \<Rightarrow> int" where
  "behind ps = (if sn_next ps < 0 then ET_GRANDCENTRAL else sn_next ps)"

partial_function (option) deliver :: "(int \<Rightarrow> et_event \<Rightarrow> bool) \<Rightarrow> int \<Rightarrow> round \<Rightarrow> (bool \<times> round) option" where
  "deliver user p r =
     (if \<not> rd_left r > 0 then Some (True, r)
      else Option.bind (serve_place user p r) (\<lambda>(ok, r).
        if \<not> ok then Some (False, r)
        else if p = ET_GRANDCENTRAL then Some (True, r)
        else Option.bind (station (rd_sys r) p) (\<lambda>ps. deliver user (behind ps) (r\<lparr>rd_first := False\<rparr>))))"

text \<open>The head of the conductor's own group.\<close>

partial_function (option) group_head :: "et_id \<Rightarrow> int \<Rightarrow> int option" where
  "group_head s p = Option.bind (station s p) (\<lambda>ps.
     if sn_prevparallel ps > -1 then group_head s (sn_prevparallel ps) else Some p)"

text \<open>One round of the conductor of station \<open>me\<close>. It waits for ever when its list is empty.\<close>

definition take_output :: "int \<Rightarrow> et_id \<Rightarrow> ((int \<times> nat list) \<times> et_id) option" where
  "take_output me s = do {
     s \<leftarrow> lock_out me s;
     ps \<leftarrow> station s me;
     if ls_cnt (sn_list_out ps) < 1 then None
     else do {
       (num, pe, es, l) \<leftarrow> et_llist_read (id_events s, sn_list_out ps);
       s \<leftarrow> set_station me (\<lambda>ps. ps\<lparr>sn_list_out := l\<rparr>) (s\<lparr>id_events := es\<rparr>);
       s \<leftarrow> unlock_out me s;
       Some ((num, pe), s)
     }
   }"

definition et_conductor :: "(int \<Rightarrow> et_event \<Rightarrow> bool) \<Rightarrow> int \<Rightarrow> et_id \<Rightarrow> (bool \<times> et_id) option" where
  "et_conductor user me s = do {
     ((events_total, allevents), s) \<leftarrow> take_output me s;
     if events_total < 0 then Some (False, s)
     else do {
       ps \<leftarrow> station s me;
       h \<leftarrow> (if cf_flow_mode (sn_config ps) = ET_STATION_PARALLEL then group_head s me else Some me);
       ps \<leftarrow> station s h;
       (ok, r) \<leftarrow> deliver user (behind ps) \<lparr>rd_sys = s, rd_events = map (\<lambda>e. (e, False)) allevents, rd_first = True, rd_left = events_total\<rparr>;
       Some (ok, rd_sys r)
     }
   }"

text \<open>The equations of the loops are good for evaluation.\<close>

declare first_active.simps [code]
  serve_group.simps [code]
  rrobin_scan.simps [code]
  rrobin_deal.simps [code]
  cue_counts.simps [code]
  dole.simps [code]
  cue_deal.simps [code]
  deliver.simps [code]
  group_head.simps [code]

end
