(* ===== verification/EtCueProofs.thy ===== *)
theory EtCueProofs
  imports EtConductor "HOL-Library.Multiset"
begin

text \<open>
  How many events the stations of a group get: Shell's sort, the filling of the lowest lists first, and the dealing
  of the round robin.
\<close>

section \<open>Shell's sort\<close>

lemma shell_insert_length:
  "length (fst (shell_insert inc v w j a b)) = length a" "length (snd (shell_insert inc v w j a b)) = length b"
  by (induction inc v w j a b rule: shell_insert.induct) (simp_all add: shell_insert.simps)

lemma shell_insert_beyond: "j < k \<Longrightarrow> fst (shell_insert inc v w j a b) ! k = a ! k"
  by (induction inc v w j a b rule: shell_insert.induct) (simp add: shell_insert.simps)

lemma shell_insert_mset:
  "j < length a \<Longrightarrow> length b = length a \<Longrightarrow>
     mset (zip (fst (shell_insert inc v w j a b)) (snd (shell_insert inc v w j a b))) = mset ((zip a b)[j := (v, w)])"
proof (induction inc v w j a b rule: shell_insert.induct)
  case (1 inc v w j a b)
  show ?case
  proof (cases "inc = 0 \<or> j < inc \<or> \<not> a ! (j - inc) > v")
    case True
    then have "shell_insert inc v w j a b = (a[j := v], b[j := w])" by (subst shell_insert.simps) simp
    then show ?thesis by (simp add: update_zip)
  next
    case False
    let ?i = "j - inc" and ?z = "(zip a b)[j := (v, w)]"
    have i: "?i < length a" "?i \<noteq> j" using False 1(2) by auto
    have "shell_insert inc v w j a b = shell_insert inc v w ?i (a[j := a ! ?i]) (b[j := b ! ?i])"
      using False by (subst shell_insert.simps) simp
    moreover have "mset ((zip (a[j := a ! ?i]) (b[j := b ! ?i]))[?i := (v, w)]) = mset (?z[j := ?z ! ?i, ?i := ?z ! j])"
      using i 1(2,3) by (simp add: update_zip)
    moreover have "\<dots> = mset ?z" using i 1(2,3) by (intro mset_swap) simp_all
    ultimately show ?thesis using 1(1) [OF False] i 1(2,3) by simp
  qed
qed

lemma shell_insert_sorted:
  assumes "j \<le> m" "m < length a" "\<And>i k. i < k \<Longrightarrow> k \<le> m \<Longrightarrow> i \<noteq> j \<Longrightarrow> k \<noteq> j \<Longrightarrow> a ! i \<le> a ! k"
    "\<And>k. j < k \<Longrightarrow> k \<le> m \<Longrightarrow> v \<le> a ! k" "i < k" "k \<le> m"
  shows "fst (shell_insert 1 v w j a b) ! i \<le> fst (shell_insert 1 v w j a b) ! k"
  using assms
proof (induction j arbitrary: a b)
  case 0
  have "shell_insert 1 v w 0 a b = (a[0 := v], b[0 := w])" by (subst shell_insert.simps) simp
  moreover have "0 < length a" using 0(2) by linarith
  ultimately show ?case using 0(2) 0(3) [of i k] 0(4) [of k] 0(5,6) by (cases "i = 0") (simp_all add: nth_list_update)
next
  case (Suc j)
  show ?case
  proof (cases "a ! j > v")
    case True
    have "fst (shell_insert 1 v w j (a[Suc j := a ! j]) (b[Suc j := b ! j])) ! i
        \<le> fst (shell_insert 1 v w j (a[Suc j := a ! j]) (b[Suc j := b ! j])) ! k"
    proof (rule Suc.IH)
      fix x y assume "x < y" "y \<le> m" "x \<noteq> j" "y \<noteq> j"
      then show "a[Suc j := a ! j] ! x \<le> a[Suc j := a ! j] ! y"
        using Suc.prems(3) [of x y] Suc.prems(3) [of x j] Suc.prems(3) [of j y] Suc.prems(1,2) by (auto simp: nth_list_update)
    next
      fix y assume "j < y" "y \<le> m"
      then show "v \<le> a[Suc j := a ! j] ! y"
        using Suc.prems(4) [of y] Suc.prems(1,2) True by (auto simp: nth_list_update)
    qed (use Suc.prems in simp_all)
    then show ?thesis using True by (subst (1 2) shell_insert.simps) simp
  next
    case False
    have "a ! x \<le> v" if "x < Suc j" for x
      using Suc.prems(3) [of x j] Suc.prems(1) that False by (cases "x = j") auto
    then show ?thesis
      using False Suc.prems(3) [of i k] Suc.prems(4) [of k] Suc.prems(1,2,5,6)
      by (subst (1 2) shell_insert.simps) (auto simp: nth_list_update)
  qed
qed

definition sorts :: "int list \<times> int list \<Rightarrow> int list \<times> int list \<Rightarrow> bool" where
  "sorts ab cd = (length (fst cd) = length (fst ab) \<and> length (snd cd) = length (snd ab) \<and>
     mset (zip (fst cd) (snd cd)) = mset (zip (fst ab) (snd ab)))"

lemma sorts_trans: "sorts ab cd \<Longrightarrow> sorts cd ef \<Longrightarrow> sorts ab ef"
  by (simp add: sorts_def)

lemma shell_insert_sorts:
  "i < length a \<Longrightarrow> length b = length a \<Longrightarrow> sorts (a, b) (shell_insert inc (a ! i) (b ! i) i a b)"
  using shell_insert_mset [of i a b inc "a ! i" "b ! i"] list_update_id [of "zip a b" i] by (simp add: sorts_def shell_insert_length update_zip list_update_id)

lemma fold_sorts:
  "length (snd ab) = length (fst ab) \<Longrightarrow> \<forall>i\<in>set is. i < length (fst ab) \<Longrightarrow>
     sorts ab (fold (\<lambda>i (a, b). shell_insert inc (a ! i) (b ! i) i a b) is ab)"
proof (induction "is" arbitrary: ab)
  case Nil
  then show ?case by (simp add: sorts_def)
next
  case (Cons i "is")
  obtain a b where ab: "ab = (a, b)" by (cases ab)
  have s: "sorts ab (shell_insert inc (a ! i) (b ! i) i a b)" using Cons.prems ab by (auto intro: shell_insert_sorts)
  then show ?case
    using Cons.IH [of "shell_insert inc (a ! i) (b ! i) i a b"] Cons.prems sorts_trans [OF s] by (simp add: ab sorts_def)
qed

lemma shell_pass_sorts: "length (snd ab) = length (fst ab) \<Longrightarrow> sorts ab (shell_pass inc ab)"
  unfolding shell_pass_def by (rule fold_sorts) simp_all

lemma shell_pass_prefix:
  "m \<le> length (fst ab) \<Longrightarrow> length (snd ab) = length (fst ab) \<Longrightarrow> i < k \<Longrightarrow> k < m \<Longrightarrow>
     fst (fold (\<lambda>i (a, b). shell_insert 1 (a ! i) (b ! i) i a b) [1..<m] ab) ! i
       \<le> fst (fold (\<lambda>i (a, b). shell_insert 1 (a ! i) (b ! i) i a b) [1..<m] ab) ! k"
proof (induction m arbitrary: i k)
  case (Suc m)
  let ?cd = "fold (\<lambda>i (a, b). shell_insert 1 (a ! i) (b ! i) i a b) [1..<m] ab"
  obtain a b where ab: "?cd = (a, b)" by (cases ?cd)
  have s: "sorts ab (a, b)" using fold_sorts [of ab "[1..<m]" 1] Suc.prems ab by simp
  have m: "1 \<le> m" using Suc.prems by simp
  have "fst (shell_insert 1 (a ! m) (b ! m) m a b) ! i \<le> fst (shell_insert 1 (a ! m) (b ! m) m a b) ! k"
    by (rule shell_insert_sorted [of m m]) (use Suc.IH Suc.prems ab s in \<open>auto simp: sorts_def\<close>)
  then show ?case using ab m by simp
qed simp

lemma shell_pass_1: "length (snd ab) = length (fst ab) \<Longrightarrow> sorted (fst (shell_pass 1 ab))"
  using shell_pass_prefix [of "length (fst ab)" ab] shell_pass_sorts [of ab 1]
  by (simp add: sorted_iff_nth_mono_less shell_pass_def sorts_def)

text \<open>The gaps are 1, 4, 13 and so on; each is the one below it when divided by 3.\<close>

inductive gap :: "nat \<Rightarrow> bool" where
  gap_1: "gap 1"
| gap_step: "gap n \<Longrightarrow> gap (n * 3 + 1)"

lemma gap_pos: "gap n \<Longrightarrow> 0 < n"
  by (induction rule: gap.induct) simp_all

lemma shell_gap_gap: "gap inc \<Longrightarrow> 0 < fuel \<Longrightarrow> \<exists>g. gap g \<and> shell_gap fuel n inc = g * 3 + 1"
proof (induction fuel n inc rule: shell_gap.induct)
  case (2 fuel n inc)
  then show ?case
    using gap_step [OF 2(2)] by (cases "fuel = 0") (auto simp: Let_def)
qed simp

lemma shell_gap_enough: "n < inc + fuel \<Longrightarrow> 0 < fuel \<Longrightarrow> n < shell_gap fuel n inc"
proof (induction fuel n inc rule: shell_gap.induct)
  case (2 fuel n inc)
  then show ?case by (cases "fuel = 0") (auto simp: Let_def)
qed simp

lemma shell_passes_sorts:
  "gap g \<Longrightarrow> length (snd ab) = length (fst ab) \<Longrightarrow>
     sorts ab (shell_passes (g * 3 + 1) ab) \<and> sorted (fst (shell_passes (g * 3 + 1) ab))"
proof (induction g arbitrary: ab rule: gap.induct)
  case gap_1
  then show ?case by (subst (1 2) shell_passes.simps) (use shell_pass_sorts shell_pass_1 in simp)
next
  case (gap_step n)
  have d: "((n * 3 + 1) * 3 + 1) div 3 = n * 3 + 1" by simp
  note s = shell_pass_sorts [OF gap_step(3), of "n * 3 + 1"]
  have "length (snd (shell_pass (n * 3 + 1) ab)) = length (fst (shell_pass (n * 3 + 1) ab))"
    using s gap_step(3) by (simp add: sorts_def)
  note r = gap_step(2) [OF this]
  have "shell_passes ((n * 3 + 1) * 3 + 1) ab = shell_passes (n * 3 + 1) (shell_pass (n * 3 + 1) ab)"
    by (subst shell_passes.simps) (use gap_pos [OF gap_step(1)] d in \<open>simp add: Let_def\<close>)
  then show ?case using r sorts_trans [OF s] by simp
qed

lemma shellSort_sorts:
  assumes "length b = length a" "shellSort a b = (c, d)"
  shows "sorted c" "length c = length a" "length d = length a" "mset (zip c d) = mset (zip a b)"
proof -
  obtain g where g: "gap g" "shell_gap (Suc (length a)) (length a) 1 = g * 3 + 1"
    using shell_gap_gap [OF gap_1, of "Suc (length a)" "length a"] by auto
  have "(c, d) = shell_passes (g * 3 + 1) (a, b)" using assms(2) by (simp only: shellSort_def g(2))
  then have cd: "c = fst (shell_passes (g * 3 + 1) (a, b))" "d = snd (shell_passes (g * 3 + 1) (a, b))"
    by (metis fst_conv, metis snd_conv)
  show "sorted c" "length c = length a" "length d = length a" "mset (zip c d) = mset (zip a b)"
    unfolding cd using shell_passes_sorts [OF g(1), of "(a, b)"] assms(1) by (simp_all add: sorts_def)
qed

section \<open>Filling the lowest lists\<close>

text \<open>The sorted counts with the number that each of these stations gets; \<open>at i\<close> is where the \<open>i\<close>-th lowest is.\<close>

definition place_of :: "int list \<Rightarrow> nat \<Rightarrow> nat" where
  "place_of place i = nat (place ! i - 1)"

definition placing :: "int list \<Rightarrow> nat \<Rightarrow> bool" where
  "placing place n = (length place = n \<and> bij_betw (place_of place) {..<n} {..<n})"

lemma add_to_nth:
  assumes "placing place n" "length nums = n" "distinct is" "set is \<subseteq> {..<n}" "i < n"
  shows "add_to place amount is nums ! place_of place i = nums ! place_of place i + (if i \<in> set is then amount i else 0)
    \<and> length (add_to place amount is nums) = n"
  using assms
proof (induction "is" arbitrary: nums)
  case (Cons j js)
  have inj: "place_of place i = place_of place j \<longleftrightarrow> i = j"
    using Cons.prems(1,4,5) by (auto simp: placing_def bij_betw_def inj_on_def)
  have "place_of place j < n" using Cons.prems(1,4) by (auto simp: placing_def bij_betw_def)
  then show ?case using Cons inj by (auto simp: place_of_def nth_list_update)
qed simp

lemma placing_sum:
  "placing place n \<Longrightarrow> length nums = n \<Longrightarrow> (\<Sum>i<n. nums ! place_of place i) = sum_list nums"
  using sum.reindex_bij_betw [of "place_of place" "{..<n}" "{..<n}" "\<lambda>i. nums ! i"]
  by (simp add: placing_def sum_list_sum_nth atLeast0LessThan)

text \<open>
  Before each step of the loop: the stations at or below the level \<open>low\<close> are filled up to it, the others have got
  nothing.
\<close>

definition levelled :: "int list \<Rightarrow> int list \<Rightarrow> int \<Rightarrow> int \<Rightarrow> int list \<Rightarrow> bool" where
  "levelled counts place doled low nums = (length nums = length counts \<and> counts ! 0 \<le> low \<and> sum_list nums = doled \<and>
     (\<forall>i<length counts. nums ! place_of place i = (if counts ! i \<le> low then low - counts ! i else 0)))"

lemma takeWhile_upt:
  "(\<And>x y. x \<le> y \<Longrightarrow> y < n \<Longrightarrow> P y \<Longrightarrow> P x) \<Longrightarrow> i < n \<Longrightarrow> (i < length (takeWhile P [0..<n])) = P i"
proof (induction n)
  case (Suc n)
  have le: "length (takeWhile P [0..<n]) \<le> n" using length_takeWhile_le [of P "[0..<n]"] by simp
  show ?case
  proof (cases "\<forall>x<n. P x")
    case True
    then have "takeWhile P [0..<Suc n] = [0..<n] @ takeWhile P [n]" using takeWhile_append2 [of "[0..<n]" P "[n]"] by simp
    then show ?thesis using True Suc.prems(2) by (auto simp: less_Suc_eq)
  next
    case False
    then obtain x where x: "x < n" "\<not> P x" by blast
    then have "takeWhile P [0..<Suc n] = takeWhile P [0..<n]" by (simp add: takeWhile_append1 [of x])
    moreover have "\<not> P n" using x Suc.prems(1) [of x n] by auto
    ultimately show ?thesis using Suc le by (auto simp: less_Suc_eq)
  qed
qed simp

lemma level_stations_count:
  assumes c: "sorted counts" "counts \<noteq> []" and l: "levelled counts place doled low nums"
  shows "level_stations low counts place nums \<le> length counts" "0 < level_stations low counts place nums"
    "\<And>i. i < length counts \<Longrightarrow> (counts ! i \<le> low) = (i < level_stations low counts place nums)"
proof -
  define P where "P = (\<lambda>i. low = counts ! i + nums ! nat (place ! i - 1))"
  let ?k = "level_stations low counts place nums"
  have P: "P i = (counts ! i \<le> low)" if "i < length counts" for i
    using l that by (auto simp: levelled_def place_of_def P_def split: if_splits)
  have k: "?k = length (takeWhile P [0..<length counts])" by (simp add: level_stations_def P_def)
  have down: "P x" if "x \<le> y" "y < length counts" "P y" for x y
    using that P [of x] P [of y] sorted_nth_mono [OF c(1) that(1,2)] by linarith
  show le: "?k \<le> length counts" using length_takeWhile_le [of P "[0..<length counts]"] k by simp
  have i: "(counts ! i \<le> low) = (i < ?k)" if "i < length counts" for i
    using takeWhile_upt [of "length counts" P i, OF down that] P [OF that] k by simp
  then show "\<And>i. i < length counts \<Longrightarrow> (counts ! i \<le> low) = (i < ?k)" by blast
  show "0 < ?k" using i [of 0] l c(2) by (simp add: levelled_def)
qed

text \<open>As even as can be: nobody who gets an event ends up with two more than another.\<close>

definition evened :: "int list \<Rightarrow> int \<Rightarrow> int list \<Rightarrow> bool" where
  "evened counts left nums = (length nums = length counts \<and> (\<forall>x\<in>set nums. 0 \<le> x) \<and> sum_list nums = left \<and>
     (\<forall>i<length counts. \<forall>j<length counts. 0 < nums ! i \<longrightarrow> counts ! i + nums ! i \<le> counts ! j + nums ! j + 1))"

text \<open>The same of the numbers by the places in the sorted list.\<close>

definition evened_at :: "int list \<Rightarrow> int list \<Rightarrow> int \<Rightarrow> int list \<Rightarrow> bool" where
  "evened_at counts place left nums = (length nums = length counts \<and> sum_list nums = left \<and>
     (\<forall>i<length counts. 0 \<le> nums ! place_of place i \<and> (\<forall>j<length counts. 0 < nums ! place_of place i \<longrightarrow>
        counts ! i + nums ! place_of place i \<le> counts ! j + nums ! place_of place j + 1)))"

lemma sum_share:
  assumes "0 < k" "0 \<le> rest"
  shows "(\<Sum>i<k. if int i < rest mod int k then rest div int k + 1 else rest div int k) = rest"
proof -
  have b: "rest mod int k < int k" "0 \<le> rest mod int k" using assms by simp_all
  then have "{..<k} \<inter> {i. int i < rest mod int k} = {..<nat (rest mod int k)}" by auto
  moreover have "(\<Sum>i<k. if int i < rest mod int k then rest div int k + 1 else rest div int k)
      = (\<Sum>i<k. rest div int k + (if int i < rest mod int k then 1 else 0))" by (rule sum.cong) auto
  ultimately show ?thesis
    using assms pos_mod_sign [of "int k" rest] mult_div_mod_eq [of "int k" rest]
    by (simp add: sum.distrib sum.If_cases)
qed

lemma sum_first: "k \<le> (n::nat) \<Longrightarrow> (\<Sum>i<n. if i < k then f i else (0::int)) = (\<Sum>i<k. f i)"
proof -
  assume "k \<le> n"
  then have "{..<n} \<inter> {i. i < k} = {..<k}" by (auto intro: less_le_trans)
  then show ?thesis by (simp add: sum.If_cases)
qed

lemma add_first:
  assumes "placing place n" "length nums = n" "k \<le> n"
  shows "length (add_to place amount [0..<k] nums) = n"
    "\<And>i. i < n \<Longrightarrow> add_to place amount [0..<k] nums ! place_of place i = nums ! place_of place i + (if i < k then amount i else 0)"
    "sum_list (add_to place amount [0..<k] nums) = sum_list nums + (\<Sum>i<k. amount i)"
proof -
  have a: "add_to place amount [0..<k] nums ! place_of place i = nums ! place_of place i + (if i < k then amount i else 0)
      \<and> length (add_to place amount [0..<k] nums) = n" if "i < n" for i
  proof -
    have "set [0..<k] \<subseteq> {..<n}" using assms(3) by (auto intro: less_le_trans)
    then show ?thesis using add_to_nth [OF assms(1,2) distinct_upt _ that, of 0 k amount] by simp
  qed
  then show l: "length (add_to place amount [0..<k] nums) = n"
    using assms by (cases "n = 0") auto
  show "\<And>i. i < n \<Longrightarrow> add_to place amount [0..<k] nums ! place_of place i = nums ! place_of place i + (if i < k then amount i else 0)"
    using a by blast
  show "sum_list (add_to place amount [0..<k] nums) = sum_list nums + (\<Sum>i<k. amount i)"
    using placing_sum [OF assms(1) l] placing_sum [OF assms(1,2)] sum_first [OF assms(3), of amount] a
    by (simp add: sum.distrib)
qed

lemma div_below: "a < b * c \<Longrightarrow> 0 < c \<Longrightarrow> a div c < (b::int)"
proof -
  assume a: "a < b * c" and c: "0 < c"
  have "a div c * c \<le> a" using pos_mod_sign [OF c, of a] div_mult_mod_eq [of a c] by linarith
  then have "a div c * c < b * c" using a by simp
  then show ?thesis using c by simp
qed

lemma spread_rest_evened:
  assumes c: "sorted counts" "counts \<noteq> []" and p: "placing place (length counts)"
    and l: "levelled counts place doled low nums" and k: "k = level_stations low counts place nums"
    and r: "doled \<le> left" "k < length counts \<Longrightarrow> left - doled < (counts ! k - low) * int k"
  shows "evened_at counts place left (spread_rest place k (left - doled) nums)"
proof -
  note lk = level_stations_count [OF c l, folded k]
  define d where "d = (left - doled) div int k"
  define f where "f = (\<lambda>i. if int i < (left - doled) mod int k then (left - doled) div int k + 1 else (left - doled) div int k)"
  define out where "out = spread_rest place k (left - doled) nums"
  have ln: "length nums = length counts" using l by (simp add: levelled_def)
  note a = add_first [OF p ln lk(1), where amount = f]
  have o: "out = add_to place f [0..<k] nums" by (simp add: out_def spread_rest_def f_def)
  have "sum_list out = left" using a(3) l sum_share [of k "left - doled"] lk(2) r(1) by (simp add: o levelled_def f_def)
  moreover have d: "0 \<le> d" using r(1) lk(2) by (simp add: d_def pos_imp_zdiv_nonneg_iff)
  have f: "f i = d \<or> f i = d + 1" for i by (simp add: f_def d_def)
  have top: "low + d + 1 \<le> counts ! j" if "k \<le> j" "j < length counts" for j
  proof -
    have "left - doled < (counts ! k - low) * int k" using r(2) that by simp
    then have "d < counts ! k - low"
      using div_below [of "left - doled" "counts ! k - low" "int k"] lk(2) by (simp add: d_def)
    then show ?thesis using sorted_nth_mono [OF c(1) that] by linarith
  qed
  have out: "out ! place_of place i = (if i < k then low - counts ! i + f i else 0)" if "i < length counts" for i
    using a(2) [OF that] l lk(3) [OF that] that by (simp add: o levelled_def)
  have "0 \<le> out ! place_of place i" if "i < length counts" for i
    using out [OF that] d f [of i] lk(3) [OF that] by (auto split: if_splits)
  moreover have "counts ! i + out ! place_of place i \<le> counts ! j + out ! place_of place j + 1"
    if "i < length counts" "j < length counts" "0 < out ! place_of place i" for i j
    using that out [OF that(1)] out [OF that(2)] f [of i] f [of j] top [of j] d by (auto split: if_splits)
  ultimately show ?thesis using a(1) by (simp add: evened_at_def out_def [symmetric] o)
qed

lemma dole_evened:
  assumes c: "sorted counts" "counts \<noteq> []" and p: "placing place (length counts)"
    and l: "levelled counts place doled low nums" "doled \<le> left"
  shows "\<exists>out. dole counts place left doled low nums = Some out \<and> evened_at counts place left out"
  using l
proof (induction "nat (left - doled)" arbitrary: doled low nums rule: less_induct)
  case less
  define k where "k = level_stations low counts place nums"
  note lk = level_stations_count [OF c less.prems(1), folded k_def]
  have ln: "length nums = length counts" using less.prems(1) by (simp add: levelled_def)
  consider "\<not> doled < left" | "doled < left" "k = length counts \<or> left - doled < (counts ! k - low) * int k"
    | "doled < left" "k < length counts" "(counts ! k - low) * int k \<le> left - doled" using lk(1) by linarith
  then show ?case
  proof cases
    case 1
    have n: "nums ! place_of place i = (if counts ! i \<le> low then low - counts ! i else 0)" if "i < length counts" for i
      using less.prems(1) that by (simp add: levelled_def)
    have "0 \<le> nums ! place_of place i" if "i < length counts" for i using n [OF that] by simp
    moreover have "counts ! i + nums ! place_of place i \<le> counts ! j + nums ! place_of place j + 1"
      if "i < length counts" "j < length counts" "0 < nums ! place_of place i" for i j
      using n [OF that(1)] n [OF that(2)] that(3) by (simp split: if_splits)
    ultimately have "evened_at counts place left nums"
      using less.prems 1 by (simp add: evened_at_def levelled_def)
    then show ?thesis using 1 by (simp add: dole.simps)
  next
    case 2
    have "evened_at counts place left (spread_rest place k (left - doled) nums)"
      by (rule spread_rest_evened [OF c p less.prems(1) k_def less.prems(2)]) (use 2 in auto)
    moreover have "dole counts place left doled low nums = Some (spread_rest place k (left - doled) nums)"
      by (subst dole.simps) (use 2 in \<open>simp add: k_def [symmetric]\<close>)
    ultimately show ?thesis by blast
  next
    case 3
    define per where "per = counts ! k - low"
    have per: "0 < per" using lk(3) [OF 3(2)] by (simp add: per_def)
    define nums' where "nums' = add_to place (\<lambda>_. per) [0..<k] nums"
    note a = add_first [OF p ln lk(1), where amount = "\<lambda>_. per", folded nums'_def]
    have "nums' ! place_of place i = (if counts ! i \<le> counts ! k then counts ! k - counts ! i else 0)"
      if i: "i < length counts" for i
    proof (cases "i < k")
      case True
      then show ?thesis
        using a(2) [OF i] less.prems(1) lk(3) [OF i] sorted_nth_mono [OF c(1) _ 3(2), of i] i by (simp add: levelled_def per_def)
    next
      case False
      then show ?thesis
        using a(2) [OF i] less.prems(1) lk(3) [OF i] sorted_nth_mono [OF c(1) _ i, of k] i by (simp add: levelled_def)
    qed
    moreover have "counts ! 0 \<le> counts ! k" using sorted_nth_mono [OF c(1) _ 3(2), of 0] by simp
    ultimately have "levelled counts place (doled + per * int k) (counts ! k) nums'"
      using a(1,3) less.prems(1) by (simp add: levelled_def mult.commute)
    moreover have "nat (left - (doled + per * int k)) < nat (left - doled)" "doled + per * int k \<le> left"
      using 3(1,3) mult_pos_pos [OF per, of "int k"] lk(2) by (auto simp: per_def)
    moreover have "dole counts place left doled low nums = dole counts place left (doled + per * int k) (counts ! k) nums'"
      by (subst dole.simps) (use 3 in \<open>simp add: k_def [symmetric] per_def nums'_def Let_def\<close>)
    ultimately show ?thesis using less.hyps by simp
  qed
qed

lemma placing_zip:
  assumes "length place = length counts" "length cs = length counts"
    "mset (zip cs place) = mset (zip counts (map (\<lambda>i. int i + 1) [0..<length counts]))"
  shows "placing place (length counts)" "\<And>i. i < length counts \<Longrightarrow> cs ! i = counts ! place_of place i"
proof -
  let ?n = "length counts" and ?b = "map (\<lambda>i. int i + 1) [0..<length counts]"
  have m: "image_mset snd (mset (zip cs place)) = image_mset snd (mset (zip counts ?b))" using assms(3) by simp
  have "mset place = mset ?b"
    using m assms(1,2) unfolding mset_map [symmetric] by (simp del: mset_map)
  then have d: "distinct place" "set place = (\<lambda>i. int i + 1) ` {..<?n}"
    using mset_eq_setD [of place ?b] mset_eq_imp_distinct_iff [of place ?b]
    by (auto simp: distinct_map inj_on_def atLeast0LessThan)
  have at: "place ! i = int (place_of place i) + 1 \<and> place_of place i < ?n \<and> cs ! i = counts ! place_of place i" if i: "i < ?n" for i
  proof -
    have "(cs ! i, place ! i) \<in> set (zip cs place)" using i assms(1,2) by (auto simp: in_set_zip)
    then have "(cs ! i, place ! i) \<in> set (zip counts ?b)" using mset_eq_setD [OF assms(3)] by simp
    then obtain n where n: "n < ?n" "counts ! n = cs ! i" "int n + 1 = place ! i" by (auto simp: in_set_zip)
    then have "place_of place i = n" unfolding place_of_def n(3) [symmetric] by simp
    then show ?thesis using n by simp
  qed
  then show "\<And>i. i < ?n \<Longrightarrow> cs ! i = counts ! place_of place i" by blast
  have inj: "inj_on (place_of place) {..<?n}"
    using at d(1) assms(1) by (auto simp: inj_on_def distinct_conv_nth)
  moreover have "place_of place ` {..<?n} \<subseteq> {..<?n}" using at by auto
  ultimately have "bij_betw (place_of place) {..<?n} {..<?n}"
    by (simp add: bij_betw_def endo_inj_surj)
  then show "placing place ?n" using assms(1) by (simp add: placing_def)
qed

lemma equal_numbers_even:
  assumes "counts \<noteq> []" "0 \<le> left"
  shows "\<exists>nums. equal_numbers left counts = Some nums \<and> evened counts left nums"
proof -
  let ?n = "length counts"
  obtain cs place where s: "shellSort counts (map (\<lambda>i. int i + 1) [0..<?n]) = (cs, place)" by fastforce
  note ss = shellSort_sorts [OF _ s, simplified]
  note p = placing_zip [OF ss(3,2,4)]
  have pn: "placing place (length cs)" and ne: "cs \<noteq> []" and len: "length cs = ?n" using p(1) ss(2) assms(1) by auto
  have lv: "levelled cs place 0 (hd cs) (replicate ?n 0)"
  proof -
    have "replicate ?n 0 ! place_of place i = (if cs ! i \<le> hd cs then hd cs - cs ! i else 0)" if i: "i < ?n" for i
    proof -
      have "place_of place i < ?n" using p(1) i by (auto simp: placing_def bij_betw_def)
      moreover have "hd cs \<le> cs ! i" using sorted_nth_mono [OF ss(1), of 0 i] i ne len by (simp add: hd_conv_nth)
      ultimately show ?thesis by simp
    qed
    then show ?thesis using ne len by (simp add: levelled_def hd_conv_nth sum_list_replicate)
  qed
  obtain nums where d: "dole cs place left 0 (hd cs) (replicate ?n 0) = Some nums" "evened_at cs place left nums"
    using dole_evened [OF ss(1) ne pn lv assms(2)] by blast
  have at: "\<exists>x<?n. place_of place x = i" if "i < ?n" for i
  proof -
    have "i \<in> place_of place ` {..<?n}" using p(1) that by (simp add: placing_def bij_betw_def)
    then show ?thesis by auto
  qed
  have n: "nums ! i \<ge> 0" "\<And>j. j < ?n \<Longrightarrow> 0 < nums ! i \<Longrightarrow> counts ! i + nums ! i \<le> counts ! j + nums ! j + 1" if i: "i < ?n" for i
  proof -
    obtain x where x: "x < ?n" "place_of place x = i" using at [OF i] by blast
    show "nums ! i \<ge> 0" using d(2) x len by (auto simp: evened_at_def)
    show "counts ! i + nums ! i \<le> counts ! j + nums ! j + 1" if j: "j < ?n" "0 < nums ! i" for j
    proof -
      obtain y where y: "y < ?n" "place_of place y = j" using at [OF j(1)] by blast
      show ?thesis using d(2) x y j(2) p(2) [OF x(1)] p(2) [OF y(1)] len unfolding evened_at_def by metis
    qed
  qed
  have "evened counts left nums"
    using d(2) n len unfolding evened_def evened_at_def by (metis in_set_conv_nth)
  then show ?thesis using s ne d(1) by (simp add: equal_numbers_def)
qed

section \<open>Round robin\<close>

text \<open>The events with an index that is \<open>i\<close> modulo \<open>n\<close>.\<close>

definition every_nth :: "nat \<Rightarrow> nat \<Rightarrow> 'a list \<Rightarrow> 'a list" where
  "every_nth n i xs = map (\<lambda>x. xs ! x) (filter (\<lambda>x. x mod n = i) [0..<length xs])"

lemma residues:
  assumes "i < n"
  shows "filter (\<lambda>x. x mod n = i) [0..<m] = map (\<lambda>j. i + j * n) [0..<(if i < m mod n then m div n + 1 else m div n)]"
proof (induction m)
  case (Suc m)
  have n: "0 < n" using assms by simp
  have split: "m = m div n * n + m mod n" by simp
  show ?case
  proof (cases "Suc (m mod n) = n")
    case True
    then have "Suc m mod n = 0" "Suc m div n = Suc (m div n)" by (simp_all add: mod_Suc div_Suc)
    moreover have "m mod n = i \<longleftrightarrow> \<not> i < m mod n" using True assms by auto
    ultimately show ?thesis using Suc split by (cases "m mod n = i") (auto simp: add.commute)
  next
    case False
    then have "Suc m mod n = Suc (m mod n)" "Suc m div n = m div n" by (simp_all add: mod_Suc div_Suc)
    then show ?thesis using Suc split by (cases "m mod n = i") (auto simp: add.commute less_Suc_eq)
  qed
qed simp

lemma rrobin_every_ok:
  "(\<And>j. j < c \<Longrightarrow> index + j * step < length es) \<Longrightarrow>
     rrobin_every step index c es = Some (map (\<lambda>j. fst (es ! (index + j * step))) [0..<c])"
proof (induction c arbitrary: index)
  case (Suc c)
  have "rrobin_every step (index + step) c es = Some (map (\<lambda>j. fst (es ! (index + step + j * step))) [0..<c])"
    by (rule Suc.IH) (use Suc.prems [of "Suc _"] in \<open>auto simp: add.assoc\<close>)
  moreover have "map (\<lambda>j. fst (es ! (index + j * step))) [0..<Suc c]
      = fst (es ! index) # map (\<lambda>j. fst (es ! (index + step + j * step))) [0..<c]"
    by (subst map_upt_Suc) (simp add: add.assoc)
  moreover have "index < length es" using Suc.prems [of 0] by simp
  ultimately show ?case by (cases "es ! index") (simp add: rd_def)
qed simp

lemma rrobin_number_residues:
  "i < n \<Longrightarrow> nat (rrobin_number (int m) (int n) (int i)) = (if i < m mod n then m div n + 1 else m div n)"
  by (simp add: rrobin_number_def zmod_int [symmetric] zdiv_int [symmetric] nat_add_distrib)

lemma rrobin_every_nth:
  assumes "i < n"
  shows "rrobin_every n i (nat (rrobin_number (int (length es)) (int n) (int i))) es = Some (every_nth n i (map fst es))"
proof -
  let ?c = "if i < length es mod n then length es div n + 1 else length es div n"
  have r: "filter (\<lambda>x. x mod n = i) [0..<length es] = map (\<lambda>j. i + j * n) [0..<?c]" by (rule residues [OF assms])
  have lt: "i + j * n < length es" if "j < ?c" for j
  proof -
    have "i + j * n \<in> set (map (\<lambda>j. i + j * n) [0..<?c])" using that by auto
    then show ?thesis unfolding r [symmetric] by simp
  qed
  have "rrobin_every n i ?c es = Some (map (\<lambda>j. fst (es ! (i + j * n))) [0..<?c])" by (rule rrobin_every_ok [OF lt])
  also have "map (\<lambda>j. fst (es ! (i + j * n))) [0..<?c] = map (\<lambda>x. fst (es ! x)) (filter (\<lambda>x. x mod n = i) [0..<length es])"
    unfolding r by simp
  also have "\<dots> = every_nth n i (map fst es)" by (simp add: every_nth_def)
  finally show ?thesis using rrobin_number_residues [OF assms, of "length es"] by simp
qed

lemma every_nth_mset: "0 < n \<Longrightarrow> (\<Sum>i<n. mset (every_nth n i xs)) = mset xs"
proof (induction xs rule: rev_induct)
  case (snoc x xs)
  have e: "every_nth n i (xs @ [x]) = every_nth n i xs @ (if length xs mod n = i then [x] else [])" for i
    by (auto simp: every_nth_def nth_append intro!: map_cong)
  have "(\<Sum>i<n. mset (every_nth n i (xs @ [x]))) = (\<Sum>i<n. mset (every_nth n i xs)) + (\<Sum>i<n. if length xs mod n = i then {#x#} else {#})"
    by (simp add: e sum.distrib if_distrib [of mset] cong: if_cong)
  also have "(\<Sum>i<n. if length xs mod n = i then {#x#} else {#}) = {#x#}" using snoc.prems by (simp add: sum.delta)
  finally show ?case using snoc by simp
qed (simp add: every_nth_def)

lemma rrobin_order_ok:
  assumes r: "rd_first r" "rd_left r = int (length (rd_events r))" "rd_left r \<le> nevents (rd_sys r)" and n: "0 < n"
  shows "k \<le> n \<Longrightarrow> rrobin_order r (int n) [k..<n] = Some (concat (map (\<lambda>i. every_nth n i (map fst (rd_events r))) [k..<n]))"
proof (induction "n - k" arbitrary: k)
  case (Suc m)
  let ?f = "\<lambda>i. every_nth n i (map fst (rd_events r))"
  have k: "k < n" "[k..<n] = k # [Suc k..<n]" using Suc.hyps(2) by (simp_all add: upt_conv_Cons)
  have IH: "rrobin_order r (int n) [Suc k..<n] = Some (concat (map ?f [Suc k..<n]))" using Suc k by simp
  have "length (?f k @ concat (map ?f [Suc k..<n])) \<le> length (rd_events r)"
  proof -
    have "mset (concat (map ?f [k..<n])) = (\<Sum>i\<leftarrow>[k..<n]. mset (?f i))" by (induction "[k..<n]") (simp_all add: mset_concat comp_def)
    also have "\<dots> = (\<Sum>i\<in>{k..<n}. mset (?f i))" by (simp add: interv_sum_list_conv_sum_set_nat)
    also have "\<dots> \<subseteq># (\<Sum>i<n. mset (?f i))"
    proof -
      have "{..<n} = {k..<n} \<union> {..<k}" using k(1) by auto
      then have "(\<Sum>i<n. mset (?f i)) = (\<Sum>i\<in>{k..<n}. mset (?f i)) + (\<Sum>i<k. mset (?f i))" by (simp add: sum.union_disjoint [symmetric] Int_ac disjoint_iff)
      then show ?thesis by simp
    qed
    also have "\<dots> = mset (map fst (rd_events r))" by (rule every_nth_mset [OF n])
    finally show ?thesis using size_mset_mono [of "mset (concat (map ?f [k..<n]))" "mset (map fst (rd_events r))"] k(2) by simp
  qed
  moreover have "rrobin_every n k (nat (rrobin_number (rd_left r) (int n) (int k))) (rd_events r) = Some (?f k)"
    using rrobin_every_nth [OF k(1), of "rd_events r"] r(2) by simp
  ultimately show ?case using IH r k by simp
qed simp

text \<open>Picking from a round of which some events have been put: all is as for the events that are left, when none of the
  events before the place where the search starts has been put.\<close>

lemma not_put_Cons: "not_put ((e, put) # es) = (if put then not_put es else e # not_put es)"
  by (simp add: not_put_def)

lemma not_put_Nil: "not_put [] = []"
  by (simp add: not_put_def)

lemma not_put_drop: "i \<le> length es \<Longrightarrow> \<forall>j<i. \<not> snd (es ! j) \<Longrightarrow> not_put (drop i es) = drop i (not_put es)"
proof (induction es arbitrary: i)
  case (Cons x es)
  obtain e put where x: "x = (e, put)" by (cases x)
  show ?case
  proof (cases i)
    case (Suc k)
    have "not_put (drop k es) = drop k (not_put es)" by (rule Cons.IH) (use Cons.prems Suc in force)+
    moreover have "\<not> put" using Cons.prems(2) Suc x by auto
    ultimately show ?thesis using Suc x by (simp add: not_put_Cons)
  qed simp
qed simp

lemma rrobin_pick_length: "1 \<le> num \<Longrightarrow> length (rrobin_pick n skip num es) \<le> nat num"
proof (induction n skip num es rule: rrobin_pick.induct)
  case (2 n skip num e put es) then show ?case by (auto simp: nat_diff_distrib)
qed simp

lemma rrobin_pick_none: "not_put es = [] \<Longrightarrow> rrobin_pick n skip num es = []"
  by (induction es) (auto simp: not_put_Cons split: if_splits)

lemma rrobin_pick_first: "not_put es = e # xs \<Longrightarrow> e \<in> set (rrobin_pick n 0 num es)"
  by (induction es) (auto simp: not_put_Cons not_put_Nil split: if_splits)

lemma rrobin_pick_nths:
  "0 < n \<Longrightarrow> 0 < c \<Longrightarrow> k + (c - 1) * n < length (not_put es) \<Longrightarrow>
     rrobin_pick (int n) (int k) (int c) es = map (\<lambda>j. not_put es ! (k + j * n)) [0..<c]"
proof (induction es arbitrary: k c)
  case (Cons x es)
  obtain e put where x: "x = (e, put)" by (cases x)
  show ?case
  proof (cases put)
    case True then show ?thesis using Cons by (simp add: x not_put_Cons)
  next
    case False
    note np = not_put_Cons [of e put es, unfolded if_not_P [OF False]]
    show ?thesis
    proof (cases "k = 0")
      case k: False
      then have "rrobin_pick (int n) (int (k - 1)) (int c) es = map (\<lambda>j. not_put es ! (k - 1 + j * n)) [0..<c]"
        by (intro Cons.IH) (use Cons.prems x np in auto)
      then show ?thesis using k False np by (auto simp: x of_nat_diff nth_Cons')
    next
      case k: True
      show ?thesis
      proof (cases "c = 1")
        case True then show ?thesis using k False np by (simp add: x)
      next
        case c: False
        then obtain d where d: "c = Suc (Suc d)" using Cons.prems(2) by (metis One_nat_def gr0_implies_Suc not0_implies_Suc)
        have "rrobin_pick (int n) (int (n - 1)) (int (Suc d)) es = map (\<lambda>j. not_put es ! (n - 1 + j * n)) [0..<Suc d]"
          by (intro Cons.IH) (use Cons.prems x np k d in auto)
        moreover have "int (n - 1) = int n - 1" using Cons.prems(1) by simp
        moreover have "map (\<lambda>j. not_put (x # es) ! (k + j * n)) [0..<c] = e # map (\<lambda>j. not_put es ! (n - 1 + j * n)) [0..<Suc d]"
          unfolding d map_upt_Suc x np k using Cons.prems(1) by (simp add: nth_Cons' algebra_simps)
        ultimately show ?thesis using k False c d by (simp add: x)
      qed
    qed
  qed
qed (simp add: not_put_def)

lemma rrobin_pick_every_nth:
  assumes i: "i < n" and n: "n \<le> length (not_put es)" and u: "\<forall>j<i. \<not> snd (es ! j)"
  shows "rrobin_pick (int n) 0 (rrobin_number (int (length (not_put es))) (int n) (int i)) (drop i es) = every_nth n i (not_put es)"
proof -
  let ?m = "length (not_put es)"
  let ?c = "if i < ?m mod n then ?m div n + 1 else ?m div n"
  have r: "filter (\<lambda>x. x mod n = i) [0..<?m] = map (\<lambda>j. i + j * n) [0..<?c]" by (rule residues [OF i])
  have "1 \<le> ?m div n" using i n by (simp add: div_greater_zero_iff Suc_leI)
  then have c: "0 < ?c" by simp
  then have "i + (?c - 1) * n \<in> set (map (\<lambda>j. i + j * n) [0..<?c])" by auto
  then have lt: "i + (?c - 1) * n < ?m" unfolding r [symmetric] by simp
  have "?m \<le> length es" by (simp add: not_put_def)
  then have d: "not_put (drop i es) = drop i (not_put es)" by (intro not_put_drop) (use i n u in auto)
  have "rrobin_number (int ?m) (int n) (int i) = int ?c"
    by (simp add: rrobin_number_def zmod_int [symmetric] zdiv_int [symmetric])
  moreover have "rrobin_pick (int n) (int 0) (int ?c) (drop i es) = map (\<lambda>j. not_put (drop i es) ! (0 + j * n)) [0..<?c]"
    by (rule rrobin_pick_nths) (use i c lt in \<open>auto simp: d\<close>)
  moreover have "\<dots> = every_nth n i (not_put es)"
    unfolding every_nth_def r d using i n by (simp add: comp_def)
  ultimately show ?thesis by simp
qed

lemma rrobin_numbers_sum: "0 < n \<Longrightarrow> (\<Sum>i<n. nat (rrobin_number (int m) (int n) (int i))) = m"
proof -
  assume n: "0 < n"
  have "nat (rrobin_number (int m) (int n) (int i)) = size (mset (every_nth n i [0..<m]))" if "i < n" for i
    unfolding every_nth_def using residues [OF that, of m] rrobin_number_residues [OF that, of m] by simp
  then have "(\<Sum>i<n. nat (rrobin_number (int m) (int n) (int i))) = size (\<Sum>i<n. mset (every_nth n i [0..<m]))"
    by simp
  then show ?thesis using every_nth_mset [OF n, of "[0..<m]"] by simp
qed

lemma rrobin_order_picks:
  assumes "\<not> rd_first r" "\<forall>i\<in>set is. 1 \<le> rrobin_number (rd_left r) n (int i)"
    "(\<Sum>i\<leftarrow>is. nat (rrobin_number (rd_left r) n (int i))) \<le> nat (nevents (rd_sys r))"
  shows "rrobin_order r n is =
      Some (concat (map (\<lambda>i. rrobin_pick n 0 (rrobin_number (rd_left r) n (int i)) (drop i (rd_events r))) is)) \<and>
    length (concat (map (\<lambda>i. rrobin_pick n 0 (rrobin_number (rd_left r) n (int i)) (drop i (rd_events r))) is)) \<le>
      (\<Sum>i\<leftarrow>is. nat (rrobin_number (rd_left r) n (int i)))"
  using assms(2,3)
proof (induction "is")
  case (Cons i "is")
  note l = rrobin_pick_length [of "rrobin_number (rd_left r) n (int i)" n 0 "drop i (rd_events r)"]
  show ?case using Cons l assms(1) by (auto simp: nat_le_iff le_nat_iff)
qed simp

section \<open>Properties\<close>

text \<open>C29: \<^verbatim>\<open>shellSort\<close> sorts the numbers of the events in the lists, and each station's place stays with its number: the pairs
  of number and place are the same ones as before.\<close>

theorem shellSort_keeps_pairs:
  assumes "length place = length counts"
  shows "sorted (fst (shellSort counts place)) \<and>
     mset (zip (fst (shellSort counts place)) (snd (shellSort counts place))) = mset (zip counts place)"
  using shellSort_sorts [OF assms, of "fst (shellSort counts place)" "snd (shellSort counts place)"] by simp

theorem shellSort_keeps_pairs_witness:
  "shellSort [7, 3, 9, 3, 1] [1, 2, 3, 4, 5] = ([1, 3, 3, 7, 9], [5, 2, 4, 1, 3]) \<and>
     sorted (fst (shellSort [7, 3, 9, 3, 1] [1, 2, 3, 4, 5]))"
proof -
  have "shellSort [7, 3, 9, 3, 1] [1, 2, 3, 4, 5] = ([1, 3, 3, 7, 9], [5, 2, 4, 1, 3])" by code_simp
  then show ?thesis using shellSort_keeps_pairs [of "[1, 2, 3, 4, 5]" "[7, 3, 9, 3, 1]"] by simp
qed

text \<open>C28: The numbers of events that the stations of an equal-cue group get add up to the number of events that are left, and
  the lists are as even as can be afterwards: a station that gets an event has at most one more than any other.\<close>

theorem equal_numbers_evens:
  assumes "counts \<noteq> []" "0 \<le> left"
  shows "\<exists>nums. equal_numbers left counts = Some nums \<and> length nums = length counts \<and> (\<forall>x\<in>set nums. 0 \<le> x) \<and>
     sum_list nums = left \<and>
     (\<forall>i<length counts. \<forall>j<length counts. 0 < nums ! i \<longrightarrow> counts ! i + nums ! i \<le> counts ! j + nums ! j + 1)"
  using equal_numbers_even [OF assms] by (auto simp: evened_def)

theorem equal_numbers_evens_witness:
  "\<exists>nums. equal_numbers 9 [4, 0, 2] = Some nums \<and> sum_list nums = 9 \<and> nums = [1, 5, 3]"
proof -
  have "[4, 0, 2::int] \<noteq> []" "(0::int) \<le> 9" by simp_all
  from equal_numbers_evens [OF this] obtain nums where n: "equal_numbers 9 [4, 0, 2] = Some nums" "sum_list nums = 9" by blast
  moreover have "equal_numbers 9 [4, 0, 2] = Some [1, 5, 3]" by code_simp
  ultimately show ?thesis by simp
qed

end
