(* ===== verification/EtChainProofs.thy ===== *)
theory EtChainProofs
  imports EtChain EtQueues
begin

text \<open>
  The order of the stations as a list of groups: behind Grand Central each place holds one station or several
  parallel ones. \<open>forward\<close> says this of the links \<^verbatim>\<open>next\<close> and \<^verbatim>\<open>nextparallel\<close> alone, \<open>chained\<close> of all links and the
  tail. \<open>station_insert\<close> and \<open>station_remove\<close> take \<open>chained\<close> states to \<open>chained\<close> states; wherever they are
  interrupted the forward links are those of the old order or those of the new one, and
  \<open>et_fix_linkedlist\<close> makes a \<open>chained\<close> state of that.
\<close>

section \<open>Stations by number\<close>

definition st :: "et_id \<Rightarrow> int \<Rightarrow> et_station" where
  "st s n = id_stats s ! nat n"

definition valid :: "et_id \<Rightarrow> int \<Rightarrow> bool" where
  "valid s n = (0 \<le> n \<and> n < int (length (id_stats s)))"

definition upst :: "int \<Rightarrow> (et_station \<Rightarrow> et_station) \<Rightarrow> et_id \<Rightarrow> et_id" where
  "upst n f s = s\<lparr>id_stats := (id_stats s)[nat n := f (st s n)]\<rparr>"

lemma station_valid [simp]: "valid s n \<Longrightarrow> station s n = Some (st s n)"
  by (auto simp: valid_def station_def st_def rd_def)

lemma set_station_valid [simp]: "valid s n \<Longrightarrow> set_station n f s = Some (upst n f s)"
  by (simp add: set_station_def upst_def)

lemma valid_upst [simp]: "valid (upst n f s) m = valid s m"
  by (simp add: valid_def upst_def)

lemma st_upst: "valid s n \<Longrightarrow> 0 \<le> m \<Longrightarrow> st (upst n f s) m = (if m = n then f (st s n) else st s m)"
  by (auto simp: valid_def upst_def st_def nth_list_update)

lemma st_upst_same [simp]: "valid s n \<Longrightarrow> st (upst n f s) n = f (st s n)"
  by (simp add: st_upst valid_def)

lemma st_upst_other [simp]: "valid s n \<Longrightarrow> valid s m \<Longrightarrow> m \<noteq> n \<Longrightarrow> st (upst n f s) m = st s m"
  by (simp add: st_upst valid_def)

lemma upst_sys [simp]: "id_sys (upst n f s) = id_sys s"
  by (simp add: upst_def)

definition with_tail :: "int \<Rightarrow> et_id \<Rightarrow> et_id" where
  "with_tail n s = s\<lparr>id_sys := (id_sys s)\<lparr>sy_stat_tail := n\<rparr>\<rparr>"

lemma with_tail_simps [simp]:
  "st (with_tail n s) m = st s m" "valid (with_tail n s) m = valid s m"
  "sy_stat_tail (id_sys (with_tail n s)) = n" "sy_stat_head (id_sys (with_tail n s)) = sy_stat_head (id_sys s)"
  "sy_nstations (id_sys (with_tail n s)) = sy_nstations (id_sys s)"
  by (simp_all add: with_tail_def st_def valid_def)

lemma sound_set_st [simp]: "valid s n \<Longrightarrow> sound (set_st n f p) s I Q = (I s \<and> sound p (upst n f s) I Q)"
  by (simp add: set_st_def)

lemma sound_on_st [simp]: "valid s n \<Longrightarrow> sound (on_st n k) s I Q = sound (k (st s n)) s I Q"
  by (simp add: on_st_def)

lemma sound_set_tail [simp]: "sound (set_tail n p) s I Q = (I s \<and> sound p (with_tail n s) I Q)"
  by (simp add: set_tail_def with_tail_def)

section \<open>Links\<close>

fun path :: "(int \<Rightarrow> int) \<Rightarrow> int list \<Rightarrow> int \<Rightarrow> bool" where
  "path f [] e = True"
| "path f (x # xs) e = (f x = hd (xs @ [e]) \<and> path f xs e)"

fun backs :: "(int \<Rightarrow> int) \<Rightarrow> int \<Rightarrow> int list \<Rightarrow> bool" where
  "backs f p [] = True"
| "backs f p (x # xs) = (f x = p \<and> backs f x xs)"

lemma path_append [simp]: "path f (xs @ ys) e = (path f xs (hd (ys @ [e])) \<and> path f ys e)"
  by (induction xs) (auto simp: hd_append)

lemma backs_append [simp]: "backs f p (xs @ ys) = (backs f p xs \<and> backs f (last (p # xs)) ys)"
  by (induction xs arbitrary: p) auto

lemma path_cong: "(\<And>x. x \<in> set xs \<Longrightarrow> f x = g x) \<Longrightarrow> path f xs e = path g xs e"
  by (induction xs) auto

lemma backs_cong: "(\<And>x. x \<in> set xs \<Longrightarrow> f x = g x) \<Longrightarrow> backs f p xs = backs g p xs"
  by (induction xs arbitrary: p) auto

abbreviation nx :: "et_id \<Rightarrow> int \<Rightarrow> int" where "nx s n \<equiv> sn_next (st s n)"
abbreviation pv :: "et_id \<Rightarrow> int \<Rightarrow> int" where "pv s n \<equiv> sn_prev (st s n)"
abbreviation np :: "et_id \<Rightarrow> int \<Rightarrow> int" where "np s n \<equiv> sn_nextparallel (st s n)"
abbreviation pp :: "et_id \<Rightarrow> int \<Rightarrow> int" where "pp s n \<equiv> sn_prevparallel (st s n)"

lemma upst_field: "(\<And>x. g (f x) = g x) \<Longrightarrow> g (st (upst n f s) m) = g (st s m)"
  by (cases "nat n < length (id_stats s)"; cases "nat m = nat n") (simp_all add: st_def upst_def list_update_beyond)

lemma upst_fields [simp]:
  "(\<And>x. sn_next (f x) = sn_next x) \<Longrightarrow> nx (upst n f s) m = nx s m"
  "(\<And>x. sn_prev (f x) = sn_prev x) \<Longrightarrow> pv (upst n f s) m = pv s m"
  "(\<And>x. sn_nextparallel (f x) = sn_nextparallel x) \<Longrightarrow> np (upst n f s) m = np s m"
  "(\<And>x. sn_prevparallel (f x) = sn_prevparallel x) \<Longrightarrow> pp (upst n f s) m = pp s m"
  "(\<And>x. sn_num (f x) = sn_num x) \<Longrightarrow> sn_num (st (upst n f s) m) = sn_num (st s m)"
  "(\<And>x. sn_config (f x) = sn_config x) \<Longrightarrow> sn_config (st (upst n f s) m) = sn_config (st s m)"
  "(\<And>x. sn_waslast (f x) = sn_waslast x) \<Longrightarrow> sn_waslast (st (upst n f s) m) = sn_waslast (st s m)"
  by (rule upst_field, assumption)+

definition parallel :: "et_id \<Rightarrow> int \<Rightarrow> bool" where
  "parallel s n = (cf_flow_mode (sn_config (st s n)) = ET_STATION_PARALLEL)"

definition known :: "et_id \<Rightarrow> int list list \<Rightarrow> bool" where
  "known s gs = ([] \<notin> set gs \<and> distinct (0 # concat gs) \<and> (\<forall>n\<in>set (0 # concat gs). valid s n \<and> sn_num (st s n) = n)
     \<and> (\<forall>g\<in>set gs. length g > 1 \<longrightarrow> (\<forall>n\<in>set g. parallel s n)))"

definition forward :: "et_id \<Rightarrow> int list list \<Rightarrow> bool" where
  "forward s gs = (known s gs \<and> path (nx s) (0 # map hd gs) (-1) \<and> (\<forall>g\<in>set gs. path (np s) g (-1))
     \<and> sy_stat_head (id_sys s) = 0)"

definition chained :: "et_id \<Rightarrow> int list list \<Rightarrow> bool" where
  "chained s gs = (forward s gs \<and> backs (pv s) 0 (map hd gs) \<and> (\<forall>g\<in>set gs. backs (pp s) (-1) g \<and> (\<forall>n\<in>set (tl g). pv s n = -1))
     \<and> sy_stat_tail (id_sys s) = last (0 # map hd gs))"

text \<open>What is left of a state without the links.\<close>

definition unlinked :: "et_station \<Rightarrow> et_station" where
  "unlinked x = x\<lparr>sn_next := 0, sn_prev := 0, sn_nextparallel := 0, sn_prevparallel := 0, sn_waslast := 0\<rparr>"

definition bare :: "et_id \<Rightarrow> et_id" where
  "bare s = (with_tail 0 s)\<lparr>id_stats := map unlinked (id_stats s)\<rparr>"

lemma bare_upst [simp]: "(\<And>x. unlinked (f x) = unlinked x) \<Longrightarrow> bare (upst n f s) = bare s"
  by (cases "nat n < length (id_stats s)")
    (simp_all add: bare_def upst_def with_tail_def map_update list_update_same_conv st_def list_update_beyond)

lemma bare_tail [simp]: "bare (with_tail n s) = bare s"
  by (simp add: bare_def with_tail_def)

lemma unlinked_simps [simp]:
  "unlinked (x\<lparr>sn_next := a\<rparr>) = unlinked x" "unlinked (x\<lparr>sn_prev := a\<rparr>) = unlinked x"
  "unlinked (x\<lparr>sn_nextparallel := a\<rparr>) = unlinked x" "unlinked (x\<lparr>sn_prevparallel := a\<rparr>) = unlinked x"
  "unlinked (x\<lparr>sn_waslast := a\<rparr>) = unlinked x"
  by (simp_all add: unlinked_def)

lemma unlinked_keeps [simp]: "sn_num (unlinked x) = sn_num x" "sn_config (unlinked x) = sn_config x"
  by (simp_all add: unlinked_def)

lemma bare_same:
  assumes "bare t = bare s"
  shows "valid t n = valid s n" "valid s n \<Longrightarrow> unlinked (st t n) = unlinked (st s n)"
    "sy_stat_head (id_sys t) = sy_stat_head (id_sys s)" "sy_nstations (id_sys t) = sy_nstations (id_sys s)"
proof -
  have m: "map unlinked (id_stats t) = map unlinked (id_stats s)" using arg_cong [OF assms, of id_stats] by (simp add: bare_def)
  show v: "valid t n = valid s n" using map_eq_imp_length_eq [OF m] by (simp add: valid_def)
  show "unlinked (st t n) = unlinked (st s n)" if "valid s n"
  proof -
    have "nat n < length (id_stats s)" "nat n < length (id_stats t)" using that map_eq_imp_length_eq [OF m] by (auto simp: valid_def)
    then show ?thesis using arg_cong [OF m, of "\<lambda>xs. xs ! nat n"] by (simp add: st_def)
  qed
  show "sy_stat_head (id_sys t) = sy_stat_head (id_sys s)" "sy_nstations (id_sys t) = sy_nstations (id_sys s)"
    using arg_cong [OF assms, of "\<lambda>s. sy_stat_head (id_sys s)"] arg_cong [OF assms, of "\<lambda>s. sy_nstations (id_sys s)"]
    by (simp_all add: bare_def with_tail_def)
qed

lemma path_redirect:
  assumes "path f xs e" "xs \<noteq> []" "g (last xs) = e'" "\<And>x. x \<in> set (butlast xs) \<Longrightarrow> g x = f x"
  shows "path g xs e'"
proof -
  obtain ys x where xs: "xs = ys @ [x]" using assms(2) by (cases xs rule: rev_cases) auto
  have "path g ys x" using assms(1,4) path_cong [of ys g f x] by (simp add: xs)
  then show ?thesis using assms(3) by (simp add: xs)
qed

lemma backs_redirect:
  assumes "backs f p xs" "xs \<noteq> [] \<Longrightarrow> g (hd xs) = p'" "\<And>x. x \<in> set (tl xs) \<Longrightarrow> g x = f x"
  shows "backs g p' xs"
  using assms backs_cong [of "tl xs" g f "hd xs"] by (cases xs) auto

section \<open>Searching\<close>

lemma seek_path:
  "path (nx s) (p # hs) (-1) \<Longrightarrow> \<forall>x\<in>set (p # hs). valid s x \<Longrightarrow>
     seek_place s position c p = Some (if c \<le> position \<and> position < c + int (length hs)
       then ((p # hs) ! nat (position - c), hs ! nat (position - c)) else (last (p # hs), -1))"
proof (induction hs arbitrary: p c)
  case Nil
  then show ?case by (simp add: seek_place.simps [of s position c p])
next
  case (Cons h hs)
  have h: "nx s p = h" "\<not> h < 0" "valid s p" using Cons.prems by (simp_all add: valid_def)
  show ?case
  proof (cases "c = position")
    case True
    then show ?thesis using h by (simp add: seek_place.simps [of s position position p])
  next
    case False
    have "seek_place s position c p = seek_place s position (c + 1) h"
      using False h by (simp add: seek_place.simps [of s position c p])
    moreover have "nat (position - c) = Suc (nat (position - (c + 1)))" if "c \<le> position"
      using False that by simp
    ultimately show ?thesis using Cons.IH [of h "c + 1"] Cons.prems False by auto
  qed
qed

lemma seek_parallel_path:
  "path (np s) (p # hs) (-1) \<Longrightarrow> \<forall>x\<in>set (p # hs). valid s x \<Longrightarrow>
     seek_parallel s position c p = Some (if c \<le> position \<and> position < c + int (length hs)
       then ((p # hs) ! nat (position - c), hs ! nat (position - c)) else (last (p # hs), -1))"
proof (induction hs arbitrary: p c)
  case Nil
  then show ?case by (simp add: seek_parallel.simps [of s position c p])
next
  case (Cons h hs)
  have h: "np s p = h" "\<not> h < 0" "valid s p" using Cons.prems by (simp_all add: valid_def)
  show ?case
  proof (cases "c = position")
    case True
    then show ?thesis using h by (simp add: seek_parallel.simps [of s position position p])
  next
    case False
    have "seek_parallel s position c p = seek_parallel s position (c + 1) h"
      using False h by (simp add: seek_parallel.simps [of s position c p])
    moreover have "nat (position - c) = Suc (nat (position - (c + 1)))" if "c \<le> position"
      using False that by simp
    ultimately show ?thesis using Cons.IH [of h "c + 1"] Cons.prems False by auto
  qed
qed

section \<open>Insertion\<close>

lemma known_bare: "known s gs \<Longrightarrow> bare t = bare s \<Longrightarrow> known t gs"
proof -
  assume k: "known s gs" and b: "bare t = bare s"
  have "sn_num (st t n) = sn_num (st s n)" "parallel t n = parallel s n" if "valid s n" for n
    using bare_same(2) [OF b that] by (metis unlinked_keeps(1), metis unlinked_keeps(2) parallel_def)
  then show ?thesis using k bare_same(1) [OF b] by (auto simp: known_def)
qed

lemma forward_same:
  assumes "forward s gs" "bare t = bare s"
    and "\<And>x. x \<in> set (0 # map hd gs) \<Longrightarrow> nx t x = nx s x" "\<And>x. x \<in> set (concat gs) \<Longrightarrow> np t x = np s x"
  shows "forward t gs"
proof -
  have "path (nx t) (0 # map hd gs) (-1)"
    using assms(1,3) path_cong [of "0 # map hd gs" "nx t" "nx s" "-1"] by (simp add: forward_def)
  moreover have "path (np t) g (-1)" if "g \<in> set gs" for g
    using assms(1,4) that path_cong [of g "np t" "np s" "-1"] by (auto simp: forward_def)
  ultimately show ?thesis
    using assms(1) known_bare [OF _ assms(2)] bare_same(3) [OF assms(2)] by (simp add: forward_def)
qed

text \<open>A station that is not yet in the list.\<close>

definition spare :: "et_id \<Rightarrow> int list list \<Rightarrow> int \<Rightarrow> bool" where
  "spare s gs n = (valid s n \<and> n \<notin> set (0 # concat gs) \<and> sn_num (st s n) = n \<and> np s n = -1 \<and> pp s n = -1)"

text \<open>One that was never in it.\<close>

definition fresh :: "et_id \<Rightarrow> int list list \<Rightarrow> int \<Rightarrow> bool" where
  "fresh s gs n = (spare s gs n \<and> nx s n = -1 \<and> pv s n = -1)"

definition insert_place :: "int \<Rightarrow> nat \<Rightarrow> int list list \<Rightarrow> int list list" where
  "insert_place n i gs = take i gs @ [n] # drop i gs"

lemma known_insert_place: "known s gs \<Longrightarrow> spare s gs n \<Longrightarrow> known s (insert_place n i gs)"
proof -
  assume k: "known s gs" and f: "spare s gs n"
  have "gs = take i gs @ drop i gs" by simp
  moreover have "known s (as @ [n] # bs)" if "gs = as @ bs" for as bs
    using k f unfolding that by (auto simp: known_def spare_def)
  ultimately show ?thesis unfolding insert_place_def by blast
qed

lemma chained_place:
  assumes c: "chained s (as @ bs)" and f: "spare s (as @ bs) n" and b: "bare t = bare s"
    and nxt: "nx t (last (0 # map hd as)) = n" "nx t n = hd (map hd bs @ [-1])"
      "\<And>x. x \<in> set (butlast (0 # map hd as)) \<union> set (map hd bs) \<Longrightarrow> nx t x = nx s x"
    and npt: "\<And>x. x \<in> set (concat (as @ bs)) \<Longrightarrow> np t x = np s x" "np t n = -1"
  shows "forward t (as @ [n] # bs)"
    and "\<lbrakk>pv t n = last (0 # map hd as); bs \<noteq> [] \<Longrightarrow> pv t (hd (hd bs)) = n; pp t n = -1;
      \<And>x. x \<in> set (concat (as @ bs)) \<Longrightarrow> (bs = [] \<or> x \<noteq> hd (hd bs)) \<Longrightarrow> pv t x = pv s x;
      \<And>x. x \<in> set (concat (as @ bs)) \<Longrightarrow> pp t x = pp s x;
      sy_stat_tail (id_sys t) = (if bs = [] then n else sy_stat_tail (id_sys s))\<rbrakk> \<Longrightarrow> chained t (as @ [n] # bs)"
proof -
  have fw: "forward s (as @ bs)" and k: "known s (as @ bs)" using c by (simp_all add: chained_def forward_def)
  have kt: "known t (as @ [n] # bs)"
    using known_bare [OF known_insert_place [OF k f, of "length as"] b] by (simp add: insert_place_def)
  have pa: "path (nx t) (0 # map hd as) n"
  proof (rule path_redirect)
    have "path (nx s) ((0 # map hd as) @ map hd bs) (-1)" using fw by (simp add: forward_def)
    then show "path (nx s) (0 # map hd as) (hd (map hd bs @ [-1]))" by (simp only: path_append)
  qed (use nxt in \<open>auto split: if_splits\<close>)
  have pb: "path (nx t) (map hd bs) (-1)"
    using fw nxt(3) path_cong [of "map hd bs" "nx t" "nx s"] by (simp add: forward_def)
  have pg: "path (np t) g (-1)" if "g \<in> set (as @ bs)" for g
    using fw npt(1) that path_cong [of g "np t" "np s" "-1"] by (auto simp: forward_def)
  have "path (nx t) ((0 # map hd as) @ n # map hd bs) (-1)"
    unfolding path_append using pa pb nxt(2) by simp
  then show F: "forward t (as @ [n] # bs)"
    using fw kt pg npt(2) bare_same(3) [OF b] unfolding forward_def by auto
  assume p: "pv t n = last (0 # map hd as)" "bs \<noteq> [] \<Longrightarrow> pv t (hd (hd bs)) = n" "pp t n = -1"
    "\<And>x. x \<in> set (concat (as @ bs)) \<Longrightarrow> (bs = [] \<or> x \<noteq> hd (hd bs)) \<Longrightarrow> pv t x = pv s x"
    "\<And>x. x \<in> set (concat (as @ bs)) \<Longrightarrow> pp t x = pp s x"
    "sy_stat_tail (id_sys t) = (if bs = [] then n else sy_stat_tail (id_sys s))"
  have ne: "\<And>g. g \<in> set (as @ bs) \<Longrightarrow> g \<noteq> []" and dis: "distinct (concat (as @ bs))" using k by (auto simp: known_def)
  have heads: "hd g \<in> set (concat (as @ bs))" if "g \<in> set (as @ bs)" for g
    using hd_in_set [OF ne [OF that]] that by auto
  have hb: "x \<noteq> hd (hd bs)" if nb: "bs \<noteq> []" and x: "x \<in> set (map hd as) \<union> set (tl (map hd bs)) \<union> (\<Union>g\<in>set (as @ bs). set (tl g))" for x
  proof -
    obtain y ys bs' where bs: "bs = (y # ys) # bs'" using nb ne [of "hd bs"] by (cases bs; cases "hd bs") auto
    have "hd g \<in> set g \<and> set (tl g) \<subseteq> set g" if "g \<in> set as \<union> set bs'" for g
      using ne [of g] that unfolding bs by (cases g) auto
    then have "x \<in> set (concat as) \<union> set ys \<union> set (concat bs')" using x unfolding bs by fastforce
    then show ?thesis using dis unfolding bs by auto
  qed
  have same: "pv t x = pv s x" if x: "x \<in> set (map hd as) \<union> set (tl (map hd bs)) \<union> (\<Union>g\<in>set (as @ bs). set (tl g))" for x
  proof (rule p(4))
    have "hd g \<in> set g \<and> set (tl g) \<subseteq> set g" if "g \<in> set (as @ bs)" for g using ne [OF that] by (cases g) auto
    moreover have "set (tl (map hd bs)) \<subseteq> hd ` set bs" by (cases bs) auto
    ultimately show "x \<in> set (concat (as @ bs))" using x by fastforce
    show "bs = [] \<or> x \<noteq> hd (hd bs)" using hb [OF _ x] by blast
  qed
  have bp: "backs (pv s) 0 (map hd as)" "backs (pv s) (last (0 # map hd as)) (map hd bs)"
    using c by (simp_all add: chained_def)
  have "backs (pv t) 0 (map hd as)"
    using bp(1) backs_cong [of "map hd as" "pv t" "pv s" 0, OF same] by simp
  moreover have "backs (pv t) n (map hd bs)"
    by (rule backs_redirect [OF bp(2)]) (use p(2) same in \<open>auto simp: hd_map\<close>)
  moreover have "backs (pp t) (-1) g \<and> (\<forall>n\<in>set (tl g). pv t n = -1)" if g: "g \<in> set (as @ bs)" for g
  proof -
    have "backs (pp s) (-1) g" "\<forall>n\<in>set (tl g). pv s n = -1" using c g by (auto simp: chained_def)
    moreover have "pv t x = pv s x" if "x \<in> set (tl g)" for x using same [of x] that g by blast
    ultimately show ?thesis using backs_cong [of g "pp t" "pp s" "-1", OF p(5)] g by auto
  qed
  ultimately show "chained t (as @ [n] # bs)" using F p(1,3,6) c by (auto simp: chained_def)
qed

text \<open>The same for a station that joins a group of parallel stations.\<close>

lemma chained_member:
  assumes c: "chained s (as @ (xs @ ys) # bs)" and xs: "xs \<noteq> []" and f: "spare s (as @ (xs @ ys) # bs) n" and b: "bare t = bare s"
    and par: "parallel s n" "parallel s (hd xs)"
    and npt: "np t (last xs) = n" "np t n = hd (ys @ [-1])"
      "\<And>x. x \<in> set (concat (as @ (xs @ ys) # bs)) \<Longrightarrow> x \<noteq> last xs \<Longrightarrow> np t x = np s x"
    and nxt: "\<And>x. x \<in> set (0 # concat (as @ (xs @ ys) # bs)) \<Longrightarrow> nx t x = nx s x"
  shows "forward t (as @ (xs @ n # ys) # bs)"
    and "\<lbrakk>pp t n = last xs; ys \<noteq> [] \<Longrightarrow> pp t (hd ys) = n; pv t n = -1;
      \<And>x. x \<in> set (concat (as @ (xs @ ys) # bs)) \<Longrightarrow> (ys = [] \<or> x \<noteq> hd ys) \<Longrightarrow> pp t x = pp s x;
      \<And>x. x \<in> set (concat (as @ (xs @ ys) # bs)) \<Longrightarrow> pv t x = pv s x;
      sy_stat_tail (id_sys t) = sy_stat_tail (id_sys s)\<rbrakk> \<Longrightarrow> chained t (as @ (xs @ n # ys) # bs)"
proof -
  let ?gs = "as @ (xs @ ys) # bs"
  have fw: "forward s ?gs" and k: "known s ?gs" using c by (simp_all add: chained_def forward_def)
  have dis: "distinct (0 # concat ?gs)" and ne: "[] \<notin> set ?gs" using k by (simp_all add: known_def)
  have hds: "map hd (as @ (xs @ n # ys) # bs) = map hd ?gs" using xs by simp
  have mem: "set (map hd ?gs) \<subseteq> set (concat ?gs)"
  proof
    fix x assume "x \<in> set (map hd ?gs)"
    then obtain g where g: "g \<in> set ?gs" "x = hd g" by auto
    then have "x \<in> set g" using ne hd_in_set [of g] by metis
    then show "x \<in> set (concat ?gs)" using g(1) by auto
  qed
  have "\<forall>m\<in>set (xs @ n # ys). parallel s m"
  proof (cases "length (xs @ ys) > 1")
    case True
    then show ?thesis using k par(1) by (auto simp: known_def)
  next
    case False
    then have "xs @ ys = [hd xs]" using xs by (cases xs) auto
    then show ?thesis using par by (cases xs) auto
  qed
  then have "known s (as @ (xs @ n # ys) # bs)" using k f by (auto simp: known_def spare_def)
  then have kt: "known t (as @ (xs @ n # ys) # bs)" by (rule known_bare [OF _ b])
  have ph: "path (nx t) (0 # map hd ?gs) (-1)"
    using fw nxt mem path_cong [of "0 # map hd ?gs" "nx t" "nx s" "-1"] unfolding forward_def by (metis insert_iff list.simps(15) subsetD)
  have g: "path (np s) xs (hd (ys @ [-1]))" "path (np s) ys (-1)" using fw by (simp_all add: forward_def)
  have l: "last xs \<notin> set (butlast xs)" "last xs \<notin> set ys" "last xs \<notin> set (concat as)" "last xs \<notin> set (concat bs)"
  proof -
    have "xs = butlast xs @ [last xs]" using xs by simp
    then have "distinct (concat as @ (butlast xs @ [last xs]) @ ys @ concat bs)" using dis by simp
    then show "last xs \<notin> set (butlast xs)" "last xs \<notin> set ys" "last xs \<notin> set (concat as)" "last xs \<notin> set (concat bs)" by auto
  qed
  have "path (np t) xs n"
  proof (rule path_redirect [where f = "np s"])
    show "np t x = np s x" if "x \<in> set (butlast xs)" for x
      using npt(3) [of x] l(1) that in_set_butlastD [OF that] by auto
  qed (use g(1) xs npt(1) in simp_all)
  moreover have "path (np t) ys (-1)" using g(2) path_cong [of ys "np t" "np s" "-1"] npt(3) l(2) by auto
  ultimately have "path (np t) (xs @ n # ys) (-1)" using npt(2) by simp
  moreover have "path (np t) h (-1)" if "h \<in> set as \<union> set bs" for h
  proof -
    have "\<And>x. x \<in> set h \<Longrightarrow> np t x = np s x" using npt(3) l(3,4) that by fastforce
    then show ?thesis using fw that path_cong [of h "np t" "np s" "-1"] by (auto simp: forward_def)
  qed
  ultimately show F: "forward t (as @ (xs @ n # ys) # bs)"
    using kt ph hds fw bare_same(3) [OF b] unfolding forward_def by auto
  assume p: "pp t n = last xs" "ys \<noteq> [] \<Longrightarrow> pp t (hd ys) = n" "pv t n = -1"
      "\<And>x. x \<in> set (concat ?gs) \<Longrightarrow> (ys = [] \<or> x \<noteq> hd ys) \<Longrightarrow> pp t x = pp s x"
      "\<And>x. x \<in> set (concat ?gs) \<Longrightarrow> pv t x = pv s x" "sy_stat_tail (id_sys t) = sy_stat_tail (id_sys s)"
  have bh: "backs (pv t) 0 (map hd (as @ (xs @ n # ys) # bs))"
    unfolding hds using c p(5) mem backs_cong [of "map hd ?gs" "pv t" "pv s" 0] unfolding chained_def by blast
  have hy: "x \<noteq> hd ys" if "ys \<noteq> []" "x \<in> set xs \<union> set (tl ys) \<union> set (concat as) \<union> set (concat bs)" for x
    using dis that by (cases ys) auto
  have gb: "backs (pp s) (-1) xs" "backs (pp s) (last xs) ys" using c xs by (simp_all add: chained_def)
  have "backs (pp t) (-1) xs" using gb(1) backs_cong [of xs "pp t" "pp s" "-1"] p(4) hy by fastforce
  moreover have "backs (pp t) n ys"
  proof (rule backs_redirect [OF gb(2)])
    show "pp t x = pp s x" if "x \<in> set (tl ys)" for x
      using that p(4) [of x] hy [of x] list.set_sel(2) [of ys x] by (cases ys) auto
  qed (use p(2) in simp)
  ultimately have "backs (pp t) (-1) (xs @ n # ys)" using p(1) xs by simp
  moreover have "\<forall>m\<in>set (tl (xs @ n # ys)). pv t m = -1"
  proof -
    have "pv s m = -1" if "m \<in> set (tl xs) \<union> set ys" for m using c xs that by (auto simp: chained_def)
    then show ?thesis using p(3,5) xs list.set_sel(2) [OF xs] by auto
  qed
  moreover have "backs (pp t) (-1) h \<and> (\<forall>n\<in>set (tl h). pv t n = -1)" if h: "h \<in> set as \<union> set bs" for h
  proof -
    have "backs (pp s) (-1) h" "\<forall>n\<in>set (tl h). pv s n = -1" using c h by (auto simp: chained_def)
    moreover have "pp t x = pp s x" "pv t x = pv s x" if "x \<in> set h" for x
      using p(4) [of x] p(5) [of x] hy [of x] that h by auto
    moreover have "h \<noteq> []" using h ne by auto
    ultimately show ?thesis using backs_cong [of h "pp t" "pp s" "-1"] list.set_sel(2) [of h] by auto
  qed
  ultimately show "chained t (as @ (xs @ n # ys) # bs)"
    using F bh p(6) c hds unfolding chained_def by auto
qed

lemma hd_member: "[] \<notin> set gs \<Longrightarrow> g \<in> set gs \<Longrightarrow> hd g \<in> set g"
  by (metis hd_in_set)

lemma known_members:
  assumes "known s gs"
  shows "last (0 # map hd gs) \<in> set (0 # concat gs)" "\<And>g. g \<in> set gs \<Longrightarrow> hd g \<in> set (concat gs)"
    "\<And>x. x \<in> set (0 # concat gs) \<Longrightarrow> valid s x \<and> sn_num (st s x) = x \<and> 0 \<le> x" "\<And>g. g \<in> set gs \<Longrightarrow> hd g > 0"
proof -
  show h: "hd g \<in> set (concat gs)" if "g \<in> set gs" for g
  proof -
    have "g \<noteq> []" using that assms unfolding known_def by metis
    then show ?thesis using that hd_in_set by auto
  qed
  then show "last (0 # map hd gs) \<in> set (0 # concat gs)"
    by (cases gs rule: rev_cases) (auto simp del: set_concat)
  show v: "valid s x \<and> sn_num (st s x) = x \<and> 0 \<le> x" if "x \<in> set (0 # concat gs)" for x
    using assms that by (auto simp: known_def valid_def)
  show "hd g > 0" if "g \<in> set gs" for g
    using h [OF that] v [of "hd g"] assms by (auto simp: known_def simp del: set_concat intro: le_neq_trans)
qed

lemma heads_distinct: "known s gs \<Longrightarrow> distinct (0 # map hd gs)"
proof -
  assume k: "known s gs"
  show ?thesis
  proof -
    have "[] \<notin> set gs \<Longrightarrow> distinct (concat gs) \<Longrightarrow> distinct (map hd gs)"
    proof (induction gs)
      case (Cons g gs)
      have m: "hd h \<in> set h" if "h \<in> set (g # gs)" for h using hd_member [OF Cons.prems(1) that] .
      have "hd g \<noteq> hd h" if "h \<in> set gs" for h
      proof
        assume "hd g = hd h"
        then have "hd g \<in> set g \<inter> \<Union> (set ` set gs)" using m [of g] m [of h] that by auto
        moreover have "set g \<inter> \<Union> (set ` set gs) = {}" using Cons.prems(2) by simp
        ultimately show False by blast
      qed
      then show ?case using Cons by auto
    qed simp
    moreover have "0 \<notin> set (map hd gs)" using known_members(4) [OF k] by fastforce
    ultimately show ?thesis using k by (simp add: known_def)
  qed
qed

lemma last_head: "known s gs \<Longrightarrow> last (0 # map hd gs) \<notin> set (butlast (0 # map hd gs))"
proof -
  assume "known s gs"
  then have "distinct (butlast (0 # map hd gs) @ [last (0 # map hd gs)])"
    using heads_distinct by (simp only: append_butlast_last_id list.simps not_False_eq_True)
  then show ?thesis by simp
qed

lemma insert_end_sound:
  assumes c: "chained s gs" and f: "fresh s gs n" and pd: "p = last (0 # map hd gs)"
  shows "sound (insert_end n p) s (\<lambda>t. bare t = bare s \<and> (forward t gs \<or> forward t (gs @ [[n]])))
     (\<lambda>x t. x = ET_OK \<and> bare t = bare s \<and> chained t (gs @ [[n]]))"
proof -
  have fw: "forward s gs" and k: "known s gs" using c by (simp_all add: chained_def forward_def)
  have mem: "x \<noteq> n" "0 \<le> x" "valid s x" "sn_num (st s x) = x" if "x \<in> set (0 # concat gs)" for x
    using that known_members(3) [OF k that] f by (auto simp: fresh_def spare_def)
  have p: "valid s p" "sn_num (st s p) = p" "p \<noteq> n" "n \<noteq> p" using mem [OF known_members(1) [OF k]] pd by simp_all
  have n: "valid s n" "0 \<le> n" "sn_num (st s n) = n" "nx s n = -1" "np s n = -1" "pp s n = -1" using f by (simp_all add: fresh_def spare_def valid_def)
  define t1 where "t1 = upst n (\<lambda>x. x\<lparr>sn_prev := p\<rparr>) s"
  define t2 where "t2 = with_tail n t1"
  define t3 where "t3 = upst p (\<lambda>x. x\<lparr>sn_next := n\<rparr>) t2"
  note t = t1_def t2_def t3_def
  have b: "bare t1 = bare s" "bare t2 = bare s" "bare t3 = bare s" by (simp_all add: t)
  have same: "nx t1 x = nx s x" "np t1 x = np s x" "nx t2 x = nx s x" "np t2 x = np s x" for x by (simp_all add: t)
  have u: "nx t3 x = (if x = p then n else nx s x)" "pv t3 x = (if x = n then p else pv s x)"
      "np t3 x = np s x" "pp t3 x = pp s x" if "0 \<le> x" for x
    using that p n by (simp_all add: t st_upst)
  have "sound (insert_end n p) s I Q = (I s \<and> I t1 \<and> I t2 \<and> I t3 \<and> Q ET_OK t3)" for I Q
    using p n unfolding insert_end_def by (simp add: t)
  moreover have "forward t1 gs" "forward t2 gs"
    by (rule forward_same [OF fw b(1)] forward_same [OF fw b(2)]; simp add: same)+
  moreover have "forward t3 (gs @ [[n]])" "chained t3 (gs @ [[n]])"
  proof -
    have l: "p \<notin> set (butlast (0 # map hd gs))" unfolding pd by (rule last_head [OF k])
    have h: "set (map hd gs) \<subseteq> set (concat gs)" using known_members(2) [OF k] by auto
    have r: "chained s (gs @ [])" "spare s (gs @ []) n" using c f by (simp_all add: fresh_def)
    have "nx t3 (last (0 # map hd gs)) = n" "nx t3 n = hd (map hd [] @ [-1])"
      using u(1) [of p] u(1) [of n] p n mem(2) [OF known_members(1) [OF k]] unfolding pd [symmetric] by simp_all
    moreover have "nx t3 x = nx s x" if "x \<in> set (butlast (0 # map hd gs)) \<union> set (map hd [])" for x
    proof -
      have x: "x \<in> set (butlast (0 # map hd gs))" using that by simp
      then have "x \<noteq> p" "x \<in> set (0 # concat gs)" using l in_set_butlastD [OF x] h by auto
      then show ?thesis using u(1) [OF mem(2)] by simp
    qed
    moreover have "np t3 x = np s x" if "x \<in> set (concat (gs @ []))" for x using u(3) [OF mem(2)] that by simp
    moreover have "np t3 n = -1" using u(3) n by simp
    note r = chained_place [OF r b(3) calculation this]
    show "forward t3 (gs @ [[n]])" by (rule r(1))
    show "chained t3 (gs @ [[n]])"
    proof (rule r(2))
      show "pv t3 x = pv s x" if "x \<in> set (concat (gs @ []))" for x
        using u(2) [OF mem(2), of x] mem(1) [of x] that by simp
      show "pp t3 x = pp s x" if "x \<in> set (concat (gs @ []))" for x using u(4) [OF mem(2)] that by simp
    qed (use u n pd in \<open>simp_all add: t\<close>)
  qed
  ultimately show ?thesis using fw b by simp
qed

lemma insert_before_sound:
  assumes c: "chained s (as @ bs)" and f: "spare s (as @ bs) n" and ne: "bs \<noteq> []"
    and pd: "p = last (0 # map hd as)" and qd: "q = hd (hd bs)"
  shows "sound (insert_before n p q) s (\<lambda>t. bare t = bare s \<and> (forward t (as @ bs) \<or> forward t (as @ [n] # bs)))
     (\<lambda>x t. x = ET_OK \<and> bare t = bare s \<and> chained t (as @ [n] # bs))"
proof -
  let ?gs = "as @ bs"
  have fw: "forward s ?gs" and k: "known s ?gs" using c by (simp_all add: chained_def forward_def)
  have mem: "x \<noteq> n" "0 \<le> x" "valid s x" "sn_num (st s x) = x" if "x \<in> set (0 # concat ?gs)" for x
    using that known_members(3) [OF k that] f by (auto simp: spare_def)
  have h: "set (0 # map hd ?gs) \<subseteq> set (0 # concat ?gs)" using known_members(2) [OF k] by auto
  have ps: "p \<in> set (0 # map hd as)" unfolding pd by (rule last_in_set) simp
  have qs: "q = hd (map hd bs)" "q \<in> set (map hd bs)" using ne by (auto simp: qd hd_map)
  have dist: "distinct ((0 # map hd as) @ map hd bs)" using heads_distinct [OF k] by simp
  have pq: "p \<noteq> q" "q \<noteq> p" using dist ps qs(2) by auto
  have inm: "p \<in> set (0 # concat ?gs)" "q \<in> set (0 # concat ?gs)" using h ps qs(2) by (simp_all del: set_concat, blast+)
  note p = mem [OF inm(1)] and q = mem [OF inm(2)]
  have n: "valid s n" "0 \<le> n" "sn_num (st s n) = n" "np s n = -1" "pp s n = -1" using f by (simp_all add: spare_def valid_def)
  define t1 where "t1 = upst n (\<lambda>x. x\<lparr>sn_next := q\<rparr>) s"
  define t2 where "t2 = upst n (\<lambda>x. x\<lparr>sn_prev := p\<rparr>) t1"
  define t3 where "t3 = upst q (\<lambda>x. x\<lparr>sn_prev := n\<rparr>) t2"
  define t4 where "t4 = upst p (\<lambda>x. x\<lparr>sn_next := n\<rparr>) t3"
  note t = t1_def t2_def t3_def t4_def
  have b: "bare t1 = bare s" "bare t2 = bare s" "bare t3 = bare s" "bare t4 = bare s" by (simp_all add: t)
  have u1: "nx t1 x = (if x = n then q else nx s x)" if "0 \<le> x" for x using that n by (simp add: t st_upst)
  have u2: "nx t2 x = nx t1 x" "nx t3 x = nx t1 x" "np t1 x = np s x" "np t2 x = np s x" "np t3 x = np s x" for x
    by (simp_all add: t)
  have u: "nx t4 x = (if x = p then n else if x = n then q else nx s x)"
      "pv t4 x = (if x = q then n else if x = n then p else pv s x)" "np t4 x = np s x" "pp t4 x = pp s x" if "0 \<le> x" for x
    using that p n q pq by (simp_all add: t st_upst)
  have "sound (insert_before n p q) s I Q = (I s \<and> I t1 \<and> I t2 \<and> I t3 \<and> I t4 \<and> Q ET_OK t4)" for I Q
    using p n q pq unfolding insert_before_def by (simp add: t)
  moreover have "forward ti ?gs" if "bare ti = bare s" "\<And>x. nx ti x = nx t1 x" "\<And>x. np ti x = np s x" for ti
  proof (rule forward_same [OF fw that(1)])
    show "nx ti x = nx s x" if "x \<in> set (0 # map hd ?gs)" for x
      using u1 [OF mem(2), of x] mem(1) [of x] h that \<open>\<And>x. nx ti x = nx t1 x\<close> by (auto simp del: set_concat)
  qed (use that(3) in simp)
  note keep = this [OF b(1)] this [OF b(2)] this [OF b(3)]
  have "forward t1 ?gs" "forward t2 ?gs" "forward t3 ?gs" using keep u2 by simp_all
  moreover have "forward t4 (as @ [n] # bs)" "chained t4 (as @ [n] # bs)"
  proof -
    have hb: "hd (map hd bs @ [-1]) = q" using ne qs(1) by simp
    have "nx t4 (last (0 # map hd as)) = n" "nx t4 n = hd (map hd bs @ [-1])"
      unfolding hb pd [symmetric] using u(1) [of p] u(1) [of n] p n by simp_all
    moreover have "nx t4 x = nx s x" if "x \<in> set (butlast (0 # map hd as)) \<union> set (map hd bs)" for x
    proof -
      have "p \<notin> set (butlast (0 # map hd as))"
      proof -
        have "distinct (butlast (0 # map hd as) @ [p])" using dist unfolding pd
          by (simp only: distinct_append append_butlast_last_id list.simps not_False_eq_True)
        then show ?thesis by simp
      qed
      then have "x \<noteq> p" using that dist ps by auto
      moreover have "x \<in> set (0 # map hd ?gs)" using that in_set_butlastD [of x "0 # map hd as"] by auto
      then have "x \<in> set (0 # concat ?gs)" using h by blast
      ultimately show ?thesis using u(1) [OF mem(2)] mem(1) [of x] by simp
    qed
    moreover have "np t4 x = np s x" if "x \<in> set (concat ?gs)" for x using u(3) [OF mem(2)] that by simp
    moreover have "np t4 n = -1" using u(3) n by simp
    note r = chained_place [OF c f b(4) calculation this]
    show "forward t4 (as @ [n] # bs)" by (rule r(1))
    show "chained t4 (as @ [n] # bs)"
    proof (rule r(2))
      show "pv t4 x = pv s x" if "x \<in> set (concat ?gs)" "bs = [] \<or> x \<noteq> hd (hd bs)" for x
        using u(2) [OF mem(2), of x] mem(1) [of x] that ne qd by simp
      show "pp t4 x = pp s x" if "x \<in> set (concat ?gs)" for x using u(4) [OF mem(2)] that by simp
    qed (use u n q ne pd qd in \<open>simp_all add: t\<close>)
  qed
  ultimately show ?thesis using fw b by simp
qed

end
