(* ===== verification/EtDealProofs.thy ===== *)
theory EtDealProofs
  imports "HOL-Library.Sublist" EtCueProofs EtChainProofs EtServerProofs
begin

text \<open>
  What happens to the input lists when the conductor puts events into one of them: they stay queues that share no
  event, and the events go behind those of their priority, or to the end in Grand Central.
\<close>

section \<open>Events by priority\<close>

definition by_priority :: "et_event list \<Rightarrow> nat list \<Rightarrow> bool" where
  "by_priority es xs = (\<exists>hs ls. xs = hs @ ls \<and> queued es hs ls)"

text \<open>The list \<open>ys\<close> put into the list \<open>xs\<close>.\<close>

definition merged :: "et_event list \<Rightarrow> nat list \<Rightarrow> nat list \<Rightarrow> nat list" where
  "merged es xs ys = filter (high es) xs @ filter (high es) ys @ filter (low es) xs @ filter (low es) ys"

lemma low_not_high: "low es i \<Longrightarrow> \<not> high es i" "high es i \<Longrightarrow> \<not> low es i"
  by (simp_all add: low_def high_def)

lemma queued_filters:
  assumes "queued es hs ls"
  shows "filter (high es) (hs @ ls) = hs" "filter (low es) (hs @ ls) = ls"
  using assms low_not_high by (auto simp: queued_def filter_empty_conv intro!: filter_True)

lemma by_priority_filters: "by_priority es xs \<Longrightarrow> filter (high es) xs @ filter (low es) xs = xs"
  using queued_filters by (fastforce simp: by_priority_def)

lemma merged_Nil [simp]: "by_priority es xs \<Longrightarrow> merged es xs [] = xs"
  by (simp add: merged_def by_priority_filters)

lemma merged_priority: "by_priority es (merged es xs ys)"
  unfolding by_priority_def merged_def
  by (rule exI [of _ "filter (high es) xs @ filter (high es) ys"], rule exI [of _ "filter (low es) xs @ filter (low es) ys"])
    (auto simp: queued_def)

lemma set_merged: "by_priority es xs \<Longrightarrow> by_priority es ys \<Longrightarrow> set (merged es xs ys) = set xs \<union> set ys"
proof -
  assume "by_priority es xs" "by_priority es ys"
  then have "set (filter (high es) xs) \<union> set (filter (low es) xs) = set xs" "set (filter (high es) ys) \<union> set (filter (low es) ys) = set ys"
    by (metis by_priority_filters set_append)+
  then show ?thesis by (auto simp: merged_def simp del: set_filter)
qed

lemma subseq_appendE: "subseq zs (xs @ ys) \<Longrightarrow> \<exists>us vs. zs = us @ vs \<and> subseq us xs \<and> subseq vs ys"
  by (simp add: subseq_append_iff)

lemma by_priority_subseq:
  assumes "by_priority es ys" "subseq xs ys"
  shows "by_priority es xs"
proof -
  obtain hs ls where y: "ys = hs @ ls" "queued es hs ls" using assms(1) by (auto simp: by_priority_def)
  obtain us vs where x: "xs = us @ vs" "subseq us hs" "subseq vs ls" using subseq_appendE assms(2) y(1) by blast
  have "set us \<subseteq> set hs" "set vs \<subseteq> set ls" using x(2,3) by (auto dest: list_emb_set)
  then have "queued es us vs" using y(2) by (auto simp: queued_def)
  then show ?thesis using x(1) by (auto simp: by_priority_def)
qed

lemma by_priority_only_next:
  assumes "only_next A es es'" "set xs \<subseteq> {..<length es}"
  shows "by_priority es' xs = by_priority es xs"
proof -
  have "high es' i = high es i \<and> low es' i = low es i" if "i \<in> set xs" for i
    using only_next_priority [OF assms(1)] assms(2) that by auto
  then show ?thesis unfolding by_priority_def queued_def by (metis Un_iff set_append)
qed

lemma merged_only_next:
  assumes "only_next A es es'" "set xs \<union> set ys \<subseteq> {..<length es}"
  shows "merged es' xs ys = merged es xs ys"
proof -
  have "high es' i = high es i \<and> low es' i = low es i" if "i \<in> set xs \<union> set ys" for i
    using only_next_priority [OF assms(1)] assms(2) that by auto
  then show ?thesis unfolding merged_def by (intro arg_cong2 [where f = append] filter_cong) auto
qed

section \<open>One input list\<close>

lemma held_frame: "held (frame_of get ps s) xs = held (at_lists (id_events s, get ps)) xs"
  by (simp add: held_def owned_def shape_def frame_of_def)

lemma in_queue_valid:
  "valid s n \<Longrightarrow> in_queue s n xs = (\<not> ls_locked (sn_list_in (st s n)) \<and> fi_start (sn_fixin (st s n)) = 0 \<and>
     fi_first (sn_fixin (st s n)) = None \<and> held (at_lists (id_events s, sn_list_in (st s n))) xs)"
  by (simp add: in_queue_def held_frame)

lemma held_list_cong:
  "held (at_lists (es, l)) xs \<Longrightarrow> ls_cnt l' = ls_cnt l \<Longrightarrow> ls_first l' = ls_first l \<Longrightarrow> ls_last l' = ls_last l \<Longrightarrow>
     held (at_lists (es, l')) xs"
  by (simp add: held_def owned_def shape_def)

lemma held_other:
  assumes h: "held (at_lists (es, l)) xs" and o: "only_next A es es'" and d: "A \<inter> set xs = {}"
  shows "held (at_lists (es', l)) xs"
proof (cases "xs = []")
  case False
  have "linked es xs" using heldD(3) [OF h False] by (simp add: shape_lists)
  then have "linked es' xs" using linked_only_next [OF _ o] d by (auto dest: in_set_butlastD)
  moreover have "ev_owner (es' ! i) = ev_owner (es ! i)" if "i \<in> set xs" for i
    using only_nextD(1) [OF o] held_lt [OF h] that by auto
  ultimately show ?thesis using h by (auto simp: held_def owned_def shape_lists)
qed (use h in \<open>simp add: held_def owned_def\<close>)

lemma upst_upst: "valid s n \<Longrightarrow> upst n f (upst n g s) = upst n (\<lambda>x. f (g x)) s"
  by (simp add: upst_def st_def valid_def nat_less_iff)

lemma upst_events: "(upst n f s)\<lparr>id_events := es\<rparr> = upst n f (s\<lparr>id_events := es\<rparr>)"
  by (simp add: upst_def st_def)

lemma with_events [simp]: "valid (s\<lparr>id_events := es\<rparr>) n = valid s n" "st (s\<lparr>id_events := es\<rparr>) n = st s n"
  by (simp_all add: valid_def st_def)

lemma upst_id_events [simp]: "id_events (upst n f s) = id_events s" "nevents (upst n f s) = nevents s"
  by (simp_all add: upst_def nevents_def)

lemma on_input_ok:
  assumes n: "valid s n" "\<not> ls_locked (sn_list_in (st s n))"
    and f: "f (id_events s, (sn_list_in (st s n))\<lparr>ls_locked := True\<rparr>) = Some (x, es', l')"
  shows "on_input n f s = Some (x, upst n (\<lambda>ps. ps\<lparr>sn_list_in := l'\<lparr>ls_locked := False\<rparr>\<rparr>) (s\<lparr>id_events := es'\<rparr>))"
  using assms by (simp add: on_input_def lock_in_def unlock_in_def upst_upst upst_events comp_def)

section \<open>All input lists\<close>

definition inputs :: "et_id \<Rightarrow> (int \<Rightarrow> nat list) \<Rightarrow> bool" where
  "inputs s q = ((\<forall>n. valid s n \<longrightarrow> in_queue s n (q n) \<and> (n \<noteq> 0 \<longrightarrow> by_priority (id_events s) (q n))) \<and>
     (\<forall>m n. valid s m \<longrightarrow> valid s n \<longrightarrow> m \<noteq> n \<longrightarrow> set (q m) \<inter> set (q n) = {}))"

text \<open>Events of the system that are in none of them.\<close>

definition pending :: "et_id \<Rightarrow> (int \<Rightarrow> nat list) \<Rightarrow> nat list \<Rightarrow> bool" where
  "pending s q pe = (distinct pe \<and> by_priority (id_events s) pe \<and>
     (\<forall>i\<in>set pe. i < length (id_events s) \<and> ev_owner (id_events s ! i) = ET_SYS \<and> (\<forall>n. valid s n \<longrightarrow> i \<notin> set (q n))))"

text \<open>
  Nothing changes but the input lists of the stations \<open>N\<close>, the links of the events \<open>A\<close>, the files and the number of
  temporary events.
\<close>

definition flows :: "nat set \<Rightarrow> int set \<Rightarrow> et_id \<Rightarrow> et_id \<Rightarrow> bool" where
  "flows A N s s' = (length (id_stats s') = length (id_stats s) \<and> nevents s' = nevents s \<and> only_next A (id_events s) (id_events s') \<and>
     sy_stat_head (id_sys s') = sy_stat_head (id_sys s) \<and> sy_stat_tail (id_sys s') = sy_stat_tail (id_sys s) \<and>
     (\<forall>n. valid s n \<longrightarrow> (\<exists>l. st s' n = (st s n)\<lparr>sn_list_in := l\<rparr>) \<and> (n \<notin> N \<longrightarrow> st s' n = st s n)))"

lemma list_in_itself [simp]: "\<exists>l. x = x\<lparr>sn_list_in := l\<rparr>"
  by (rule exI [of _ "sn_list_in x"]) simp

lemma flows_refl [simp]: "flows A N s s"
  by (simp add: flows_def)

lemma flows_valid: "flows A N s s' \<Longrightarrow> valid s' n = valid s n"
  by (simp add: flows_def valid_def)

lemma flows_station: "flows A N s s' \<Longrightarrow> valid s n \<Longrightarrow> n \<notin> N \<Longrightarrow> st s' n = st s n"
  by (simp add: flows_def)

lemma flows_trans:
  assumes "flows A M s s1" "flows B N s1 s2"
  shows "flows (A \<union> B) (M \<union> N) s s2"
proof -
  have "(\<exists>l. st s2 n = (st s n)\<lparr>sn_list_in := l\<rparr>) \<and> (n \<notin> M \<union> N \<longrightarrow> st s2 n = st s n)" if v: "valid s n" for n
  proof -
    obtain l where "st s1 n = (st s n)\<lparr>sn_list_in := l\<rparr>" using assms(1) v by (auto simp: flows_def)
    moreover obtain l' where "st s2 n = (st s1 n)\<lparr>sn_list_in := l'\<rparr>"
      using assms(2) v flows_valid [OF assms(1)] by (auto simp: flows_def)
    moreover have "n \<notin> M \<union> N \<Longrightarrow> st s2 n = st s n"
      using flows_station [OF assms(1) v] flows_station [OF assms(2)] v flows_valid [OF assms(1)] by simp
    ultimately show ?thesis by auto
  qed
  then show ?thesis using assms only_next_trans [of A _ _ B] unfolding flows_def by metis
qed

lemma flows_mono: "flows A N s s' \<Longrightarrow> A \<subseteq> B \<Longrightarrow> N \<subseteq> M \<Longrightarrow> flows B M s s'"
  using only_next_mono unfolding flows_def by blast

lemma flows_keeps:
  assumes "flows A N s s'" "valid s n"
  shows "sn_config (st s' n) = sn_config (st s n)" "sn_status (st s' n) = sn_status (st s n)" "nx s' n = nx s n" "np s' n = np s n"
    "pp s' n = pp s n" "sn_num (st s' n) = sn_num (st s n)" "sn_list_out (st s' n) = sn_list_out (st s n)"
proof -
  obtain l where "st s' n = (st s n)\<lparr>sn_list_in := l\<rparr>" using assms by (auto simp: flows_def)
  then show "sn_config (st s' n) = sn_config (st s n)" "sn_status (st s' n) = sn_status (st s n)" "nx s' n = nx s n" "np s' n = np s n"
    "pp s' n = pp s n" "sn_num (st s' n) = sn_num (st s n)" "sn_list_out (st s' n) = sn_list_out (st s n)" by simp_all
qed

lemma inputsD:
  assumes "inputs s q" "valid s n"
  shows "in_queue s n (q n)" "n \<noteq> 0 \<Longrightarrow> by_priority (id_events s) (q n)" "held (at_lists (id_events s, sn_list_in (st s n))) (q n)"
    "set (q n) \<subseteq> {..<length (id_events s)}" "\<not> ls_locked (sn_list_in (st s n))"
proof -
  show q: "in_queue s n (q n)" and "n \<noteq> 0 \<Longrightarrow> by_priority (id_events s) (q n)" using assms by (simp_all add: inputs_def)
  then show h: "held (at_lists (id_events s, sn_list_in (st s n))) (q n)" and "\<not> ls_locked (sn_list_in (st s n))"
    using in_queue_valid [OF assms(2)] by simp_all
  show "set (q n) \<subseteq> {..<length (id_events s)}" using held_lt [OF h] by simp
qed

lemma inputs_disjoint: "inputs s q \<Longrightarrow> valid s m \<Longrightarrow> valid s n \<Longrightarrow> m \<noteq> n \<Longrightarrow> set (q m) \<inter> set (q n) = {}"
  by (simp add: inputs_def)

lemma pending_disjoint: "pending s q pe \<Longrightarrow> valid s n \<Longrightarrow> set pe \<inter> set (q n) = {}"
  by (auto simp: pending_def)

text \<open>One list is written: the others are not touched.\<close>

lemma inputs_write:
  assumes i: "inputs s q" and n: "valid s n" and p: "pending s q pe"
    and o: "only_next (set (q n @ pe)) (id_events s) es'" and h: "held (at_lists (es', l')) xs" and x: "set xs = set (q n @ pe)"
    and b: "n \<noteq> 0 \<Longrightarrow> by_priority es' xs"
  defines "s' \<equiv> upst n (\<lambda>ps. ps\<lparr>sn_list_in := l'\<lparr>ls_locked := False\<rparr>\<rparr>) (s\<lparr>id_events := es'\<rparr>)"
  shows "inputs s' (q(n := xs))" "flows (set (q n @ pe)) {n} s s'"
proof -
  have v: "valid s' m = valid s m" for m by (simp add: s'_def)
  have e: "id_events s' = es'" by (simp add: s'_def)
  have n': "valid (s\<lparr>id_events := es'\<rparr>) n" using n by simp
  have same: "st s' n = (st s n)\<lparr>sn_list_in := l'\<lparr>ls_locked := False\<rparr>\<rparr>"
    using st_upst_same [OF n'] by (simp add: s'_def)
  have other: "st s' m = st s m" if "valid s m" "m \<noteq> n" for m
    using st_upst_other [OF n'] that by (simp add: s'_def)
  have d: "set (q n @ pe) \<inter> set (q m) = {}" if "valid s m" "m \<noteq> n" for m
    using inputs_disjoint [OF i that(1) n that(2)] pending_disjoint [OF p that(1)] by auto
  have "in_queue s' m ((q(n := xs)) m) \<and> (m \<noteq> 0 \<longrightarrow> by_priority (id_events s') ((q(n := xs)) m))" if m: "valid s m" for m
  proof (cases "m = n")
    case True
    have "held (at_lists (es', l'\<lparr>ls_locked := False\<rparr>)) xs" by (rule held_list_cong [OF h]) simp_all
    then show ?thesis using inputsD(1) [OF i n] b True m v e same by (simp add: in_queue_valid)
  next
    case False
    note q = inputsD [OF i m]
    have "held (at_lists (es', sn_list_in (st s m))) (q m)" by (rule held_other [OF q(3) o d [OF m False]])
    then show ?thesis
      using q(1,2) by_priority_only_next [OF o q(4)] False m v e other [OF m False] by (simp add: in_queue_valid)
  qed
  moreover have "set ((q(n := xs)) k) \<inter> set ((q(n := xs)) m) = {}" if "valid s k" "valid s m" "k \<noteq> m" for k m
    using d [OF that(1)] d [OF that(2)] inputs_disjoint [OF i that] x that(3)
    by (cases "k = n"; cases "m = n") (simp_all add: Int_commute)
  ultimately show "inputs s' (q(n := xs))" unfolding inputs_def v by blast
  have "(\<exists>l. st s' m = (st s m)\<lparr>sn_list_in := l\<rparr>) \<and> (m \<notin> {n} \<longrightarrow> st s' m = st s m)" if "valid s m" for m
    using exI [of "\<lambda>l. st s' n = (st s n)\<lparr>sn_list_in := l\<rparr>", OF same] other [OF that] by (cases "m = n") simp_all
  then show "flows (set (q n @ pe)) {n} s s'" using o e by (simp add: flows_def) (simp add: s'_def upst_def nevents_def)
qed

text \<open>\<^verbatim>\<open>et_llist_write\<close> into a station's list.\<close>

definition enough :: "et_id \<Rightarrow> bool" where
  "enough s = (int (length (id_events s)) \<le> nevents s)"

lemma distinct_room: "distinct xs \<Longrightarrow> set xs \<subseteq> {..<n} \<Longrightarrow> length xs \<le> n"
  using card_mono [of "{..<n}" "set xs"] by (simp add: distinct_card)

lemma held_distinct: "held t xs \<Longrightarrow> distinct xs"
  by (cases "xs = []") (auto simp: held_def shape_def)

lemma pending_room:
  assumes "inputs s q" "valid s n" "pending s q pe" "enough s"
  shows "int (length (q n @ pe)) \<le> nevents s" "free_events (id_events s) (q n) pe"
proof -
  note q = inputsD [OF assms(1,2)]
  have "distinct (q n @ pe)" using held_distinct [OF q(3)] assms(2,3) by (auto simp: pending_def)
  moreover have "set (q n @ pe) \<subseteq> {..<length (id_events s)}" using q(4) assms(3) by (auto simp: pending_def)
  ultimately have "length (q n @ pe) \<le> length (id_events s)" by (rule distinct_room)
  then show "int (length (q n @ pe)) \<le> nevents s" using assms(4) unfolding enough_def by linarith
  show "free_events (id_events s) (q n) pe" using assms(2,3) by (auto simp: pending_def free_events_def)
qed

lemma give_puts:
  assumes i: "inputs s q" and n: "valid s n" "n \<noteq> 0" and p: "pending s q pe" "pe \<noteq> []" and e: "enough s"
  shows "\<exists>s'. give n try pe (int (length pe)) s = Some (True, s') \<and> inputs s' (q(n := merged (id_events s) (q n) pe)) \<and>
     flows (set (q n @ pe)) {n} s s'"
proof -
  let ?es = "id_events s" and ?l = "(sn_list_in (st s n))\<lparr>ls_locked := True\<rparr>\<lparr>ls_try := try\<rparr>"
  note q = inputsD [OF i n(1)]
  obtain hs ls where x: "q n = hs @ ls" "queued ?es hs ls" using q(2) [OF n(2)] by (auto simp: by_priority_def)
  obtain ph pl where y: "pe = ph @ pl" "queued ?es ph pl" using p(1) by (auto simp: pending_def by_priority_def)
  note room = pending_room [OF i n(1) p(1) e]
  have h: "held (at_lists (?es, ?l)) (hs @ ls)" using held_list_cong [OF q(3), of ?l] x(1) by simp
  obtain es' l' where w: "et_llist_write (nevents s) pe (int (length pe)) (?es, ?l) = Some (int (length pe), es', l')"
      "held (at_lists (es', l')) (hs @ ph @ ls @ pl)" "only_next (set (hs @ ls @ ph @ pl)) ?es es'"
    using et_llist_write_held [OF h x(2) room(2) [unfolded x(1) y(1)] y(2) p(2) [unfolded y(1)], of "nevents s"] room(1)
    unfolding x(1) y(1) by (auto simp del: set_append)
  have m: "merged ?es (q n) pe = hs @ ph @ ls @ pl"
    using queued_filters [OF x(2)] queued_filters [OF y(2)] unfolding merged_def x(1) y(1) by simp
  have o: "only_next (set (q n @ pe)) ?es es'" using w(3) x(1) y(1) by simp
  have lt: "set (q n @ pe) \<subseteq> {..<length ?es}" using q(4) p(1) by (auto simp: pending_def)
  have sm: "set (merged ?es (q n) pe) = set (q n @ pe)" using m x(1) y(1) by auto
  have "by_priority es' (merged ?es (q n) pe)"
    using by_priority_only_next [OF o, of "merged ?es (q n) pe"] lt merged_priority [of ?es "q n" pe] sm by simp
  moreover have "give n try pe (int (length pe)) s =
      Some (True, upst n (\<lambda>ps. ps\<lparr>sn_list_in := l'\<lparr>ls_locked := False\<rparr>\<rparr>) (s\<lparr>id_events := es'\<rparr>))"
    unfolding give_def by (rule on_input_ok [OF n(1) q(5)]) (simp add: w(1))
  ultimately show ?thesis
    using inputs_write [OF i n(1) p(1) o w(2) [folded m] sm] by blast
qed

text \<open>What is left goes to Grand Central.\<close>

lemma drop_files_ok:
  "set pe \<subseteq> {..<length (id_events s)} \<Longrightarrow>
     \<exists>F N. drop_files pe s = Some (s\<lparr>id_files := F, id_sys := (id_sys s)\<lparr>sy_ntemps := N\<rparr>\<rparr>)"
proof (induction pe arbitrary: s)
  case Nil
  have "s = s\<lparr>id_files := id_files s, id_sys := (id_sys s)\<lparr>sy_ntemps := sy_ntemps (id_sys s)\<rparr>\<rparr>" by simp
  then show ?case by (metis drop_files.simps(1))
next
  case (Cons i pe)
  define s1 where "s1 = (if ev_temp (id_events s ! i) = ET_EVENT_TEMP
    then s\<lparr>id_files := id_files s - {ev_filename (id_events s ! i)}, id_sys := (id_sys s)\<lparr>sy_ntemps := sy_ntemps (id_sys s) - 1\<rparr>\<rparr> else s)"
  have e: "id_events s1 = id_events s" by (simp add: s1_def)
  have "drop_files (i # pe) s = drop_files pe s1" using Cons.prems by (simp add: s1_def rd_def)
  moreover obtain F N where "drop_files pe s1 = Some (s1\<lparr>id_files := F, id_sys := (id_sys s1)\<lparr>sy_ntemps := N\<rparr>\<rparr>)"
    using Cons.IH [of s1] Cons.prems e by auto
  moreover have "s1\<lparr>id_files := F, id_sys := (id_sys s1)\<lparr>sy_ntemps := N\<rparr>\<rparr> = s\<lparr>id_files := F, id_sys := (id_sys s)\<lparr>sy_ntemps := N\<rparr>\<rparr>"
    by (simp add: s1_def)
  ultimately show ?case by metis
qed

lemma files_same [simp]:
  "valid (s\<lparr>id_files := F, id_sys := (id_sys s)\<lparr>sy_ntemps := N\<rparr>\<rparr>) n = valid s n"
  "st (s\<lparr>id_files := F, id_sys := (id_sys s)\<lparr>sy_ntemps := N\<rparr>\<rparr>) n = st s n"
  "nevents (s\<lparr>id_files := F, id_sys := (id_sys s)\<lparr>sy_ntemps := N\<rparr>\<rparr>) = nevents s"
  by (simp_all add: valid_def st_def nevents_def)

lemma files_queues [simp]:
  "inputs (s\<lparr>id_files := F, id_sys := (id_sys s)\<lparr>sy_ntemps := N\<rparr>\<rparr>) q = inputs s q"
  "pending (s\<lparr>id_files := F, id_sys := (id_sys s)\<lparr>sy_ntemps := N\<rparr>\<rparr>) q pe = pending s q pe"
  "enough (s\<lparr>id_files := F, id_sys := (id_sys s)\<lparr>sy_ntemps := N\<rparr>\<rparr>) = enough s"
  "flows A M (s\<lparr>id_files := F, id_sys := (id_sys s)\<lparr>sy_ntemps := N\<rparr>\<rparr>) t = flows A M s t"
  by (simp_all add: inputs_def pending_def enough_def flows_def in_queue_valid cong: conj_cong imp_cong)

lemma serve_gc_puts:
  assumes i: "inputs (rd_sys r) q" and n: "valid (rd_sys r) 0" and p: "pending (rd_sys r) q pe" "pe \<noteq> []" and e: "enough (rd_sys r)"
    and pe: "(if rd_first r then map fst (rd_events r) else not_put (rd_events r)) = pe"
  shows "\<exists>s'. serve_gc r = Some (True, r\<lparr>rd_sys := s', rd_left := 0\<rparr>) \<and> inputs s' (q(0 := q 0 @ pe)) \<and> flows (set (q 0 @ pe)) {0} (rd_sys r) s'"
proof -
  let ?s = "rd_sys r"
  have "set pe \<subseteq> {..<length (id_events ?s)}" using p(1) by (auto simp: pending_def)
  then obtain F N where d: "drop_files pe ?s = Some (?s\<lparr>id_files := F, id_sys := (id_sys ?s)\<lparr>sy_ntemps := N\<rparr>\<rparr>)"
    using drop_files_ok by blast
  define s where "s = ?s\<lparr>id_files := F, id_sys := (id_sys ?s)\<lparr>sy_ntemps := N\<rparr>\<rparr>"
  have s: "inputs s q" "valid s 0" "pending s q pe" "enough s" using i n p(1) e by (simp_all add: s_def)
  let ?l = "(sn_list_in (st s 0))\<lparr>ls_locked := True\<rparr>"
  note q = inputsD [OF s(1,2)]
  note room = pending_room [OF s]
  have h: "held (at_lists (id_events s, ?l)) (q 0)" by (rule held_list_cong [OF q(3)]) simp_all
  obtain es' l' where w: "et_llist_write_gc (nevents s) pe (int (length pe)) (id_events s, ?l) = Some (ET_OK, es', l')"
      "held (at_lists (es', l')) (q 0 @ pe)" "only_next (set (q 0 @ pe)) (id_events s) es'"
    using et_llist_write_gc_held [OF h room(2) p(2) room(1)] by blast
  define s' where "s' = upst 0 (\<lambda>ps. ps\<lparr>sn_list_in := l'\<lparr>ls_locked := False\<rparr>\<rparr>) (s\<lparr>id_events := es'\<rparr>)"
  have "on_input 0 (\<lambda>m. do { (status, m) \<leftarrow> et_llist_write_gc (nevents s) pe (int (length pe)) m; Some (status \<noteq> ET_ERROR, m) }) s = Some (True, s')"
    unfolding s'_def by (rule on_input_ok [OF s(2) q(5)]) (simp add: w(1))
  then have "serve_gc r = Some (True, r\<lparr>rd_sys := s', rd_left := 0\<rparr>)"
    using d p(2) by (simp add: serve_gc_def pe s_def)
  moreover have "inputs s' (q(0 := q 0 @ pe))" "flows (set (q 0 @ pe)) {0} s s'"
    using inputs_write [OF s(1,2,3) w(3,2)] unfolding s'_def by simp_all
  ultimately show ?thesis by (auto simp: s_def)
qed

end
