(* ===== verification/EtConductorProofs.thy ===== *)
theory EtConductorProofs
  imports EtDealProofs
begin

text \<open>
  One round of the conductor: which events each kind of station gets, and that every event of the round goes into
  exactly one input list.
\<close>

section \<open>Choosing\<close>

definition put_also :: "nat set \<Rightarrow> marked \<Rightarrow> marked" where
  "put_also A es = map (\<lambda>(e, put). (e, put \<or> e \<in> A)) es"

lemma put_also_simps [simp]:
  "put_also A [] = []" "put_also A ((e, put) # es) = (e, put \<or> e \<in> A) # put_also A es" "map fst (put_also A es) = map fst es"
  by (simp_all add: put_also_def) (induction es, auto)

lemma not_put_simps [simp]: "not_put [] = []" "not_put ((e, put) # es) = (if put then not_put es else e # not_put es)"
  by (simp_all add: not_put_def)

lemma not_put_also: "not_put (put_also A es) = filter (\<lambda>e. e \<notin> A) (not_put es)"
  by (induction es) auto

lemma not_put_set: "set (not_put es) \<subseteq> fst ` set es"
  by (auto simp: not_put_def)

lemma put_also_outside: "\<forall>e\<in>fst ` set es. (e \<in> A) = (e \<in> B) \<Longrightarrow> put_also A es = put_also B es"
  unfolding put_also_def by (rule map_cong) auto

definition wanted :: "(nat \<Rightarrow> bool option) \<Rightarrow> marked \<Rightarrow> nat list" where
  "wanted want es = filter (\<lambda>e. want e = Some True) (not_put es)"

lemma wanted_simps [simp]:
  "wanted want [] = []"
  "wanted want ((e, put) # es) = (if \<not> put \<and> want e = Some True then e # wanted want es else wanted want es)"
  by (simp_all add: wanted_def)

lemma wanted_set: "set (wanted want es) \<subseteq> fst ` set es"
  using not_put_set by (auto simp: wanted_def)

text \<open>Every \<open>prescale\<close>-th.\<close>

definition prescaled :: "u64 \<Rightarrow> u64 \<Rightarrow> nat list \<Rightarrow> nat list" where
  "prescaled prescale try xs = nths xs {k. (try + of_nat k) mod prescale = 0}"

lemma prescaled_simps [simp]:
  "prescaled prescale try [] = []"
  "prescaled prescale try (x # xs) = (if try mod prescale = 0 then x # prescaled prescale (try + 1) xs else prescaled prescale (try + 1) xs)"
  by (simp_all add: prescaled_def nths_Cons add.commute add.left_commute)

lemma prescaled_subseq: "subseq (prescaled prescale try xs) xs"
  unfolding prescaled_def subseq_conv_nths by blast

lemma subseq_subset: "subseq xs ys \<Longrightarrow> set xs \<subseteq> set ys"
  by (auto dest: list_emb_set)

lemma take_prescaled_ok:
  "\<forall>e\<in>set (not_put es). want e \<noteq> None \<Longrightarrow> prescale \<noteq> 0 \<Longrightarrow> distinct (map fst es) \<Longrightarrow>
     take_prescaled want prescale t es = Some (prescaled prescale t (wanted want es),
       put_also (set (prescaled prescale t (wanted want es))) es, t + of_nat (length (wanted want es)))"
proof (induction es arbitrary: t)
  case (Cons p es)
  obtain e put where p: "p = (e, put)" by (cases p)
  have e: "e \<notin> fst ` set es" using Cons.prems(3) p by (simp add: image_image)
  have IH: "take_prescaled want prescale t es = Some (prescaled prescale t (wanted want es),
      put_also (set (prescaled prescale t (wanted want es))) es, t + of_nat (length (wanted want es)))" for t
    by (rule Cons.IH) (use Cons.prems p in \<open>auto split: if_splits\<close>)
  have out: "e \<notin> set (prescaled prescale t (wanted want es))" for t
    using e wanted_set [of want es] subseq_subset [OF prescaled_subseq] by blast
  have more: "put_also (insert e A) es = put_also A es" for A
    by (rule put_also_outside) (use e in auto)
  show ?case
  proof (cases put)
    case True
    then show ?thesis using IH p by simp
  next
    case False
    then obtain w where "want e = Some w" using Cons.prems(1) p by auto
    then show ?thesis using False IH p out more Cons.prems(2) by (cases w) (auto simp: algebra_simps)
  qed
qed simp

lemma take_room_ok:
  "\<forall>e\<in>set (not_put es). want e \<noteq> None \<Longrightarrow> 0 < j \<Longrightarrow> distinct (map fst es) \<Longrightarrow>
     take_room want j es = Some (take j (wanted want es), put_also (set (take j (wanted want es))) es)"
proof (induction es arbitrary: j)
  case (Cons p es)
  obtain e put where p: "p = (e, put)" by (cases p)
  have e: "e \<notin> fst ` set es" using Cons.prems(3) p by (simp add: image_image)
  have IH: "0 < k \<Longrightarrow> take_room want k es = Some (take k (wanted want es), put_also (set (take k (wanted want es))) es)" for k
    by (rule Cons.IH) (use Cons.prems p in \<open>auto split: if_splits\<close>)
  have out: "e \<notin> set (take k (wanted want es))" for k
    using e wanted_set [of want es] by (auto dest: in_set_takeD)
  have more: "put_also (insert e A) es = put_also A es" for A
    by (rule put_also_outside) (use e in auto)
  have none: "put_also {} es = es" by (induction es) auto
  show ?case
  proof (cases put)
    case True
    then show ?thesis using IH Cons.prems(2) p by simp
  next
    case False
    then obtain w where w: "want e = Some w" using Cons.prems(1) p by auto
    show ?thesis
    proof (cases w)
      case False
      then show ?thesis using w IH [OF Cons.prems(2)] p out \<open>\<not> put\<close> by simp
    next
      case True
      obtain k where "j = Suc k" using Cons.prems(2) by (cases j) auto
      then show ?thesis using w True IH [of k] p out more [of "set (take k (wanted want es))"] more [of "{}"] none \<open>\<not> put\<close> by (cases k) auto
    qed
  qed
qed simp

section \<open>A single station\<close>

definition plain :: "et_stat_config \<Rightarrow> bool" where
  "plain sc = (cf_select_mode sc \<in> {ET_STATION_SELECT_ALL, ET_STATION_SELECT_MATCH, ET_STATION_SELECT_USER} \<and>
     cf_block_mode sc \<in> {ET_STATION_BLOCKING, ET_STATION_NONBLOCKING} \<and> 0 < cf_prescale sc \<and> cf_prescale sc < 2 ^ 31)"

lemma prescale_not_0: "plain sc \<Longrightarrow> (word_of_int (cf_prescale sc) :: u64) \<noteq> 0"
proof
  assume p: "plain sc" and "(word_of_int (cf_prescale sc) :: u64) = 0"
  then have "(2 :: int) ^ 64 dvd cf_prescale sc" by (simp add: word_of_int_eq_0_iff)
  then have "(2 :: int) ^ 64 \<le> cf_prescale sc" using p by (intro zdvd_imp_le) (simp_all add: plain_def)
  then show False using p by (simp add: plain_def)
qed

lemma serve_chosen_ok:
  assumes i: "inputs (rd_sys r) q" and n: "valid (rd_sys r) n" "n \<noteq> 0" and p: "pending (rd_sys r) q pe" and e: "enough (rd_sys r)"
  shows "\<exists>s'. serve_chosen n t pe es r = Some (True, r\<lparr>rd_sys := s', rd_events := es, rd_left := rd_left r - int (length pe)\<rparr>) \<and>
     inputs s' (q(n := merged (id_events (rd_sys r)) (q n) pe)) \<and> flows (set (q n @ pe)) {n} (rd_sys r) s'"
proof (cases "pe = []")
  case False
  then show ?thesis using give_puts [OF i n p False e, of t] by (auto simp: serve_chosen_def)
next
  case True
  let ?s = "rd_sys r" and ?l = "(sn_list_in (st (rd_sys r) n))\<lparr>ls_locked := True, ls_try := t\<rparr>"
  note q = inputsD [OF i n(1)]
  have m: "merged (id_events ?s) (q n) pe = q n" using True q(2) [OF n(2)] by simp
  have h: "held (at_lists (id_events ?s, ?l)) (q n)" by (rule held_list_cong [OF q(3)]) simp_all
  define s' where "s' = upst n (\<lambda>ps. ps\<lparr>sn_list_in := ?l\<lparr>ls_locked := False\<rparr>\<rparr>) (?s\<lparr>id_events := id_events ?s\<rparr>)"
  have "on_input n (\<lambda>(es, l). Some ((), es, l\<lparr>ls_try := t\<rparr>)) ?s = Some ((), s')"
    unfolding s'_def by (rule on_input_ok [OF n(1) q(5)]) simp
  then have "serve_chosen n t pe es r = Some (True, r\<lparr>rd_sys := s', rd_events := es, rd_left := rd_left r - int (length pe)\<rparr>)"
    using True by (cases r) (simp add: serve_chosen_def)
  moreover have "inputs s' (q(n := merged (id_events ?s) (q n) pe))" "flows (set (q n @ pe)) {n} ?s s'"
    using inputs_write [OF i n(1) p only_next_refl h] True q(2) [OF n(2)] m unfolding s'_def by simp_all
  ultimately show ?thesis by blast
qed

text \<open>What a station takes: a part of the events, of which it may want only some.\<close>

definition wish :: "(int \<Rightarrow> et_event \<Rightarrow> bool) \<Rightarrow> et_id \<Rightarrow> int \<Rightarrow> nat \<Rightarrow> bool" where
  "wish user s n i = (let ps = st s n; mode = cf_select_mode (sn_config ps); e = id_events s ! i in
     mode = ET_STATION_SELECT_ALL \<or> (if mode = ET_STATION_SELECT_MATCH then et_condition ps e else user (sn_num ps) e))"

definition choice :: "(int \<Rightarrow> et_event \<Rightarrow> bool) \<Rightarrow> et_id \<Rightarrow> int \<Rightarrow> nat list \<Rightarrow> nat list" where
  "choice user s n es = (let ps = st s n; xs = filter (wish user s n) es in
     if cf_block_mode (sn_config ps) = ET_STATION_BLOCKING
     then prescaled (word_of_int (cf_prescale (sn_config ps))) (ls_try (sn_list_in ps)) xs
     else take (nat (room_in ps)) xs)"

lemma choice_subseq: "subseq (choice user s n es) es"
proof -
  have "subseq (take m (filter P es)) es" for m P
    by (rule subseq_order.order_trans [OF prefix_imp_subseq [OF take_is_prefix] subseq_filter_left])
  then show ?thesis
    using subseq_order.order_trans [OF prescaled_subseq subseq_filter_left] by (simp add: choice_def Let_def)
qed

lemma wanted_wish:
  fixes user :: "int \<Rightarrow> et_event \<Rightarrow> bool"
  assumes "not_put es = rest" "set rest \<subseteq> {..<length (id_events s)}"
    "cf_select_mode (sn_config (st s n)) \<in> {ET_STATION_SELECT_MATCH, ET_STATION_SELECT_USER}"
  defines "want \<equiv> \<lambda>i. do { e \<leftarrow> rd (id_events s) i; wants user (st s n) e }"
  shows "\<forall>e\<in>set (not_put es). want e \<noteq> None" "wanted want es = filter (wish user s n) rest"
proof -
  have w: "want i = Some (wish user s n i)" if "i \<in> set rest" for i
    using that assms(2,3) by (auto simp: want_def rd_def wants_def wish_def Let_def)
  then show "\<forall>e\<in>set (not_put es). want e \<noteq> None" using assms(1) by simp
  show "wanted want es = filter (wish user s n) rest"
    unfolding wanted_def assms(1) by (rule filter_cong) (simp_all add: w)
qed

lemma wanted_all:
  "cf_select_mode (sn_config (st s n)) = ET_STATION_SELECT_ALL \<Longrightarrow> not_put es = rest \<Longrightarrow>
     wanted (\<lambda>_. Some True) es = filter (wish user s n) rest"
  by (simp add: wanted_def wish_def)

lemma prescaled_1 [simp]: "prescaled 1 t xs = xs"
  by (induction xs arbitrary: t) simp_all

definition served :: "(int \<Rightarrow> et_event \<Rightarrow> bool) \<Rightarrow> int \<Rightarrow> (int \<Rightarrow> nat list) \<Rightarrow> nat list \<Rightarrow> round \<Rightarrow> round \<Rightarrow> bool" where
  "served user n q rest r r' = (let s = rd_sys r; ch = choice user s n rest in
     inputs (rd_sys r') (q(n := merged (id_events s) (q n) ch)) \<and> flows (set (q n @ ch)) {n} s (rd_sys r') \<and>
     rd_left r' = int (length rest) - int (length ch) \<and>
     (ch \<noteq> rest \<longrightarrow> map fst (rd_events r') = map fst (rd_events r) \<and> not_put (rd_events r') = filter (\<lambda>e. e \<notin> set ch) rest))"

lemma subseq_distinct: "subseq xs ys \<Longrightarrow> distinct ys \<Longrightarrow> distinct xs"
  by (auto simp: subseq_conv_nths intro: distinct_nthsI)

lemma pending_subseq: "pending s q rest \<Longrightarrow> subseq ch rest \<Longrightarrow> pending s q ch"
  using by_priority_subseq subseq_subset [of ch rest] subseq_distinct [of ch rest] unfolding pending_def by blast

lemma serve_ok:
  assumes i: "inputs (rd_sys r) q" and n: "valid (rd_sys r) n" "n \<noteq> 0" and c: "plain (sn_config (st (rd_sys r) n))"
    and p: "pending (rd_sys r) q rest" and e: "enough (rd_sys r)"
    and r: "not_put (rd_events r) = rest" "distinct (map fst (rd_events r))" "rd_left r = int (length rest)"
      "rd_first r \<Longrightarrow> map fst (rd_events r) = rest" "rest \<noteq> []"
  shows "\<exists>r'. serve user n r = Some (True, r') \<and> served user n q rest r r'"
proof -
  let ?s = "rd_sys r" and ?ps = "st (rd_sys r) n" and ?sc = "sn_config (st (rd_sys r) n)"
  define ch where "ch = choice user ?s n rest"
  have lt: "set rest \<subseteq> {..<length (id_events ?s)}" using p by (auto simp: pending_def)
  note ch = pending_subseq [OF p choice_subseq [of user ?s n rest], folded ch_def]
  have chosen: "\<exists>r'. serve_chosen n t ch (put_also (set ch) (rd_events r)) r = Some (True, r') \<and> served user n q rest r r'" for t
    using serve_chosen_ok [OF i n ch e, of t "put_also (set ch) (rd_events r)"]
    by (auto simp: served_def Let_def r not_put_also ch_def [symmetric])
  define want where "want = (if cf_select_mode ?sc = ET_STATION_SELECT_ALL then (\<lambda>_. Some True)
    else (\<lambda>i. do { e \<leftarrow> rd (id_events ?s) i; wants user ?ps e }))"
  have w: "\<forall>e\<in>set (not_put (rd_events r)). want e \<noteq> None" "wanted want (rd_events r) = filter (wish user ?s n) rest"
    using wanted_wish [OF r(1) lt, of n user] wanted_all [of ?s n "rd_events r" rest user] c r(1) by (auto simp: want_def plain_def)
  consider (all) "cf_block_mode ?sc = ET_STATION_BLOCKING" "cf_select_mode ?sc = ET_STATION_SELECT_ALL" "rd_first r" "cf_prescale ?sc = 1"
    | (prescale) "cf_block_mode ?sc = ET_STATION_BLOCKING" "\<not> (cf_select_mode ?sc = ET_STATION_SELECT_ALL \<and> rd_first r \<and> cf_prescale ?sc = 1)"
    | (room) "cf_block_mode ?sc = ET_STATION_NONBLOCKING" using c by (auto simp: plain_def)
  then show ?thesis
  proof cases
    case all
    have "filter (wish user ?s n) rest = rest" using all(2) by (simp add: wish_def)
    then have c: "ch = rest" using all(1,4) by (simp add: ch_def choice_def)
    obtain s' where g: "give n (ls_try (sn_list_in ?ps) + of_nat (length rest)) rest (int (length rest)) ?s = Some (True, s')"
        "inputs s' (q(n := merged (id_events ?s) (q n) rest))" "flows (set (q n @ rest)) {n} ?s s'"
      using give_puts [OF i n p r(5) e] by blast
    have "serve user n r = Some (True, r\<lparr>rd_sys := s', rd_left := 0\<rparr>)"
      using all g(1) n r(4) by (simp add: serve_def serve_all_def)
    then show ?thesis using g(2,3) c by (auto simp: served_def ch_def [symmetric])
  next
    case prescale
    have "take_prescaled want (word_of_int (cf_prescale ?sc)) (ls_try (sn_list_in ?ps)) (rd_events r) =
        Some (ch, put_also (set ch) (rd_events r), ls_try (sn_list_in ?ps) + of_nat (length (wanted want (rd_events r))))"
      using take_prescaled_ok [OF w(1) prescale_not_0 [OF c] r(2)] w(2) prescale(1) by (simp add: ch_def choice_def Let_def)
    then show ?thesis
      using prescale n chosen c by (auto simp: serve_def want_def plain_def split: if_splits)
  next
    case room
    show ?thesis
    proof (cases "ls_cnt (sn_list_in ?ps) < cf_cue ?sc")
      case True
      then have "take_room want (nat (room_in ?ps)) (rd_events r) = Some (ch, put_also (set ch) (rd_events r))"
        using take_room_ok [OF w(1) _ r(2), of "nat (room_in ?ps)"] w(2) room by (simp add: ch_def choice_def room_in_def Let_def)
      then show ?thesis using room n chosen c True by (auto simp: serve_def want_def plain_def split: if_splits)
    next
      case False
      then have "ch = []" using room by (simp add: ch_def choice_def room_in_def Let_def)
      moreover have "put_also {} es = es" for es by (induction es) auto
      ultimately show ?thesis using room n chosen c False by (auto simp: serve_def plain_def)
    qed
  qed
qed

section \<open>Stations one after the other\<close>

text \<open>
  What a round is meant to do: each station in turn takes its choice of what is left, and this goes behind the events
  of its priority that are in the station's list.
\<close>

fun share :: "(int \<Rightarrow> et_event \<Rightarrow> bool) \<Rightarrow> et_id \<Rightarrow> int list \<Rightarrow> (int \<Rightarrow> nat list) \<times> nat list \<Rightarrow> (int \<Rightarrow> nat list) \<times> nat list" where
  "share user s [] (q, rest) = (q, rest)"
| "share user s (n # ns) (q, rest) = (let ch = choice user s n rest in
     share user s ns (q(n := merged (id_events s) (q n) ch), filter (\<lambda>e. e \<notin> set ch) rest))"

lemma share_append: "share user s (ns @ ms) qr = share user s ms (share user s ns qr)"
  by (induction user s ns qr rule: share.induct) (simp_all add: Let_def)

lemma choice_set: "set (choice user s n rest) \<subseteq> set rest"
  by (rule subseq_subset [OF choice_subseq])

lemma share_other: "m \<notin> set ns \<Longrightarrow> fst (share user s ns (q, rest)) m = q m"
  by (induction ns arbitrary: q rest) (simp_all add: Let_def)

lemma share_rest: "set (snd (share user s ns (q, rest))) \<subseteq> set rest"
proof (induction ns arbitrary: q rest)
  case (Cons n ns)
  show ?case unfolding share.simps(2) Let_def by (rule order_trans [OF Cons]) auto
qed simp

lemma choice_Nil [simp]: "choice user s n [] = []"
  using choice_set [of user s n "[]"] by simp

lemma share_Nil: "\<forall>n\<in>set ns. by_priority (id_events s) (q n) \<Longrightarrow> share user s ns (q, []) = (q, [])"
  by (induction ns) simp_all

lemma choice_cong:
  assumes "st s' n = st s n" "\<forall>i\<in>set rest. id_events s' ! i = id_events s ! i"
  shows "choice user s' n rest = choice user s n rest"
proof -
  have "filter (wish user s' n) rest = filter (wish user s n) rest"
    by (rule filter_cong) (use assms in \<open>simp_all add: wish_def\<close>)
  then show ?thesis using assms(1) by (simp add: choice_def)
qed

lemma share_cong:
  assumes "flows A N s s'" "N \<inter> set ns = {}" "\<forall>n\<in>set ns. valid s n \<and> set (q n) \<subseteq> {..<length (id_events s)}"
    "A \<inter> set rest = {}" "set rest \<subseteq> {..<length (id_events s)}"
  shows "share user s' ns (q, rest) = share user s ns (q, rest)"
  using assms(2-5)
proof (induction ns arbitrary: q rest)
  case (Cons n ns)
  let ?es = "id_events s" and ?ch = "choice user s n rest"
  have o: "only_next A ?es (id_events s')" using assms(1) by (simp add: flows_def)
  have "st s' n = st s n" using assms(1) Cons.prems(1,2) by (auto intro: flows_station)
  moreover have "\<forall>i\<in>set rest. id_events s' ! i = ?es ! i" using only_nextD(3) [OF o] Cons.prems(3,4) by auto
  ultimately have c: "choice user s' n rest = ?ch" by (rule choice_cong)
  note cs = choice_set [of user s n rest]
  have m: "merged (id_events s') (q n) ?ch = merged ?es (q n) ?ch"
    by (rule merged_only_next [OF o]) (use Cons.prems(2,4) cs in auto)
  have "share user s' ns (q(n := merged ?es (q n) ?ch), filter (\<lambda>e. e \<notin> set ?ch) rest)
      = share user s ns (q(n := merged ?es (q n) ?ch), filter (\<lambda>e. e \<notin> set ?ch) rest)"
  proof (rule Cons.IH)
    have "set (merged ?es (q n) ?ch) \<subseteq> set (q n) \<union> set ?ch" by (auto simp: merged_def)
    then show "\<forall>m\<in>set ns. valid s m \<and> set ((q(n := merged ?es (q n) ?ch)) m) \<subseteq> {..<length ?es}"
      using Cons.prems(2,4) cs by auto
  qed (use Cons.prems in auto)
  then show ?case using c m by (simp add: Let_def)
qed simp

text \<open>A round in which \<open>rest\<close> is left and the input lists are the queues \<open>q\<close>.\<close>

definition round_ok :: "round \<Rightarrow> (int \<Rightarrow> nat list) \<Rightarrow> nat list \<Rightarrow> bool" where
  "round_ok r q rest = (inputs (rd_sys r) q \<and> pending (rd_sys r) q rest \<and> enough (rd_sys r) \<and> rd_left r = int (length rest) \<and>
     (rest \<noteq> [] \<longrightarrow> not_put (rd_events r) = rest \<and> distinct (map fst (rd_events r)) \<and> (rd_first r \<longrightarrow> map fst (rd_events r) = rest)))"

definition shared :: "(int \<Rightarrow> et_event \<Rightarrow> bool) \<Rightarrow> int list \<Rightarrow> (int \<Rightarrow> nat list) \<Rightarrow> nat list \<Rightarrow> round \<Rightarrow> round \<Rightarrow> bool" where
  "shared user ns q rest r r' = (let (q', rest') = share user (rd_sys r) ns (q, rest) in
     round_ok (r'\<lparr>rd_first := False\<rparr>) q' rest' \<and>
     flows ((\<Union>n\<in>set ns. set (q n)) \<union> (set rest - set rest')) (set ns) (rd_sys r) (rd_sys r'))"

lemma shared_Nil: "round_ok r q rest \<Longrightarrow> shared user [] q rest r r"
  by (simp add: shared_def round_ok_def)

lemma shared_first [simp]: "shared user ns q rest (r\<lparr>rd_first := b\<rparr>) r' = shared user ns q rest r r'"
  by (simp add: shared_def)

lemma shared_append:
  assumes r: "round_ok r q rest" and v: "\<forall>n\<in>set (ns @ ms). valid (rd_sys r) n" and d: "distinct (ns @ ms)"
    and s1: "shared user ns q rest r r1" and q1: "share user (rd_sys r) ns (q, rest) = (q1, rest1)"
    and s2: "shared user ms q1 rest1 r1 r2"
  shows "shared user (ns @ ms) q rest r r2"
proof -
  let ?s = "rd_sys r" and ?A = "(\<Union>n\<in>set ns. set (q n)) \<union> (set rest - set rest1)"
  obtain q2 rest2 where q2: "share user (rd_sys r1) ms (q1, rest1) = (q2, rest2)" by fastforce
  have f1: "flows ?A (set ns) ?s (rd_sys r1)" using s1 q1 by (simp add: shared_def)
  have f2: "flows ((\<Union>n\<in>set ms. set (q1 n)) \<union> (set rest1 - set rest2)) (set ms) (rd_sys r1) (rd_sys r2)"
    and r2: "round_ok (r2\<lparr>rd_first := False\<rparr>) q2 rest2" using s2 q2 by (simp_all add: shared_def)
  have i: "inputs ?s q" and p: "pending ?s q rest" using r by (simp_all add: round_ok_def)
  have rr: "set rest1 \<subseteq> set rest" "set rest2 \<subseteq> set rest1"
    using share_rest [of user ?s ns q rest] share_rest [of user "rd_sys r1" ms q1 rest1] q1 q2 by simp_all
  have qm: "q1 n = q n" if "n \<in> set ms" for n using share_other [of n ns user ?s q rest] d that q1 by auto
  have "set (q n) \<inter> set rest = {}" if "valid ?s n" for n using pending_disjoint [OF p that] by auto
  then have "?A \<inter> set rest1 = {}" using rr(1) v by fastforce
  moreover have "set rest \<subseteq> {..<length (id_events ?s)}" using p by (auto simp: pending_def)
  ultimately have "share user (rd_sys r1) ms (q1, rest1) = share user ?s ms (q1, rest1)"
    using share_cong [OF f1, of ms q1 rest1 user] d v qm inputsD(4) [OF i] rr(1) by auto
  then have sh: "share user ?s (ns @ ms) (q, rest) = (q2, rest2)" using q1 q2 by (simp add: share_append)
  have "flows (?A \<union> ((\<Union>n\<in>set ms. set (q1 n)) \<union> (set rest1 - set rest2))) (set ns \<union> set ms) ?s (rd_sys r2)"
    by (rule flows_trans [OF f1 f2])
  then have "flows ((\<Union>n\<in>set (ns @ ms). set (q n)) \<union> (set rest - set rest2)) (set (ns @ ms)) ?s (rd_sys r2)"
    by (rule flows_mono) (use qm rr in auto)
  then show ?thesis using sh r2 by (simp add: shared_def)
qed

lemma length_left:
  assumes "distinct rest" "distinct ch" "set ch \<subseteq> set rest"
  shows "int (length (filter (\<lambda>e. e \<notin> set ch) rest)) = int (length rest) - int (length ch)"
proof -
  have "set (filter (\<lambda>e. e \<in> set ch) rest) = set ch" using assms(3) by auto
  then have "length (filter (\<lambda>e. e \<in> set ch) rest) = length ch"
    using distinct_card [OF assms(2)] distinct_card [OF distinct_filter [OF assms(1), of "\<lambda>e. e \<in> set ch"]] by simp
  then show ?thesis using sum_length_filter_compl [of "\<lambda>e. e \<in> set ch" rest] by linarith
qed

lemma pending_left:
  assumes p: "pending s q rest" and ch: "set ch \<subseteq> set rest" and f: "flows A N s s'" and n: "valid s n"
    and x: "set xs \<subseteq> set (q n) \<union> set ch"
  shows "pending s' (q(n := xs)) (filter (\<lambda>e. e \<notin> set ch) rest)"
proof -
  let ?rest = "filter (\<lambda>e. e \<notin> set ch) rest"
  have o: "only_next A (id_events s) (id_events s')" using f by (simp add: flows_def)
  have p': "pending s q ?rest" by (rule pending_subseq [OF p]) simp
  then have "set ?rest \<subseteq> {..<length (id_events s)}" by (auto simp: pending_def)
  then have "by_priority (id_events s') ?rest" using by_priority_only_next [OF o] p' by (simp add: pending_def)
  moreover have "i \<notin> set ((q(n := xs)) m)" if "i \<in> set ?rest" "valid s' m" for i m
    using pending_disjoint [OF p'] that x n flows_valid [OF f] by (cases "m = n") auto
  ultimately show ?thesis
    using p' only_nextD(1) [OF o] only_next_length [OF o] unfolding pending_def by (metis (no_types, lifting))
qed

lemma enough_flows: "flows A N s s' \<Longrightarrow> enough s \<Longrightarrow> enough s'"
  by (simp add: flows_def enough_def only_next_def)

lemma serve_shared:
  assumes r: "round_ok r q rest" "rest \<noteq> []" and n: "valid (rd_sys r) n" "n \<noteq> 0" and c: "plain (sn_config (st (rd_sys r) n))"
  shows "\<exists>r'. serve user n r = Some (True, r') \<and> shared user [n] q rest r r'"
proof -
  let ?s = "rd_sys r"
  define ch where "ch = choice user ?s n rest"
  let ?rest = "filter (\<lambda>e. e \<notin> set ch) rest" and ?q = "q(n := merged (id_events ?s) (q n) ch)"
  have p: "inputs ?s q" "pending ?s q rest" "enough ?s" "rd_left r = int (length rest)" "not_put (rd_events r) = rest"
      "distinct (map fst (rd_events r))" "rd_first r \<Longrightarrow> map fst (rd_events r) = rest"
    using r by (simp_all add: round_ok_def)
  obtain r' where s: "serve user n r = Some (True, r')" "served user n q rest r r'"
    using serve_ok [OF p(1) n c p(2,3,5,6,4) p(7) r(2)] by blast
  have i: "inputs (rd_sys r') ?q" and f: "flows (set (q n @ ch)) {n} ?s (rd_sys r')"
    and l: "rd_left r' = int (length rest) - int (length ch)"
    and e: "ch \<noteq> rest \<Longrightarrow> map fst (rd_events r') = map fst (rd_events r) \<and> not_put (rd_events r') = ?rest"
    using s(2) by (simp_all add: served_def Let_def ch_def)
  have sub: "subseq ch rest" "set ch \<subseteq> set rest" using choice_subseq choice_set by (simp_all add: ch_def)
  have d: "distinct rest" using p(2) by (simp add: pending_def)
  have "set (merged (id_events ?s) (q n) ch) \<subseteq> set (q n) \<union> set ch" by (auto simp: merged_def)
  then have "pending (rd_sys r') ?q ?rest" by (rule pending_left [OF p(2) sub(2) f n(1)])
  moreover have "rd_left r' = int (length ?rest)"
    using l length_left [OF d subseq_distinct [OF sub(1) d] sub(2)] by simp
  moreover have "?rest \<noteq> [] \<Longrightarrow> not_put (rd_events r') = ?rest \<and> distinct (map fst (rd_events r'))"
    using e p(6) by (cases "ch = rest") auto
  ultimately have "round_ok (r'\<lparr>rd_first := False\<rparr>) ?q ?rest"
    using i enough_flows [OF f p(3)] by (simp add: round_ok_def)
  moreover have "set rest - set ?rest = set ch" using sub(2) by auto
  ultimately show ?thesis using s(1) f by (auto simp: shared_def Let_def ch_def [symmetric])
qed

section \<open>A group of stations\<close>

lemma first_active_find:
  "path (np s) g (-1) \<Longrightarrow> g \<noteq> [] \<Longrightarrow> \<forall>n\<in>set g. valid s n \<Longrightarrow> first_active s (hd g) = Some (find (\<lambda>n. active (st s n)) g)"
proof (induction g)
  case (Cons p g)
  show ?case
  proof (cases g)
    case Nil
    then show ?thesis using Cons.prems by (simp add: first_active.simps [of s p])
  next
    case c: (Cons p' g')
    then have "valid s p'" "np s p = p'" using Cons.prems by simp_all
    then show ?thesis using Cons c by (simp add: first_active.simps [of s p]) (simp add: valid_def)
  qed
qed simp

lemma next_active_find:
  assumes "path (np s) (p # g) (-1)" "\<forall>n\<in>set (p # g). valid s n"
  shows "next_active s p = Some (find (\<lambda>n. active (st s n)) g)"
proof (cases g)
  case Nil
  then show ?thesis using assms by (simp add: next_active_def)
next
  case c: (Cons p' g')
  then have "valid s p'" "np s p = p'" using assms by simp_all
  then show ?thesis using first_active_find [of s g] assms c by (simp add: next_active_def valid_def)
qed

lemma find_split: "find P xs = Some x \<Longrightarrow> \<exists>ys zs. xs = ys @ x # zs \<and> P x \<and> filter P ys = []"
proof (induction xs)
  case (Cons y xs)
  show ?case
  proof (cases "P y")
    case True
    then show ?thesis using Cons.prems by (intro exI [of _ "[]"] exI [of _ xs]) simp
  next
    case False
    then obtain ys zs where "xs = ys @ x # zs \<and> P x \<and> filter P ys = []" using Cons by auto
    then show ?thesis using False by (intro exI [of _ "y # ys"] exI [of _ zs]) simp
  qed
qed simp

lemma serve_group_shared:
  assumes "round_ok r q rest" "rest \<noteq> []" "path (np (rd_sys r)) (p # g) (-1)" "distinct (p # g)" "active (st (rd_sys r) p)"
    "\<forall>n\<in>set (p # g). valid (rd_sys r) n \<and> n \<noteq> 0 \<and> plain (sn_config (st (rd_sys r) n))"
  shows "\<exists>r'. serve_group user p r = Some (True, r') \<and> shared user (filter (\<lambda>n. active (st (rd_sys r) n)) (p # g)) q rest r r'"
  using assms
proof (induction "length g" arbitrary: p g r q rest rule: less_induct)
  case less
  let ?s = "rd_sys r" and ?a = "\<lambda>n. active (st (rd_sys r) n)"
  have vp: "valid ?s p" "p \<noteq> 0" "plain (sn_config (st ?s p))" using less.prems(6) by simp_all
  have i: "inputs ?s q" using less.prems(1) by (simp add: round_ok_def)
  obtain r1 where r1: "serve user p r = Some (True, r1)" "shared user [p] q rest r r1"
    using serve_shared [OF less.prems(1,2) vp] by blast
  obtain q1 rest1 where q1: "share user ?s [p] (q, rest) = (q1, rest1)" by fastforce
  have ok1: "round_ok (r1\<lparr>rd_first := False\<rparr>) q1 rest1" and f: "\<exists>A. flows A {p} ?s (rd_sys r1)"
    using r1(2) q1 by (auto simp: shared_def)
  obtain A where f: "flows A {p} ?s (rd_sys r1)" using f by blast
  have st1: "st (rd_sys r1) n = st ?s n" if "n \<in> set g" for n
    using flows_station [OF f] less.prems(4,6) that by auto
  have v1: "valid (rd_sys r1) n = valid ?s n" for n by (rule flows_valid [OF f])
  have "path (np (rd_sys r1)) (p # g) (-1)"
    using less.prems(3) path_cong [of "p # g" "np (rd_sys r1)" "np ?s" "-1"] flows_keeps(4) [OF f] less.prems(6) by blast
  then have nxt: "next_active (rd_sys r1) p = Some (find ?a g)" and pg: "path (np (rd_sys r1)) g (-1)"
    using next_active_find [of "rd_sys r1" p g] less.prems(6) v1 st1 find_cong [of g g "\<lambda>n. active (st (rd_sys r1) n)" ?a] by auto
  have more: "rest1 = [] \<Longrightarrow> \<forall>n\<in>set ns. n \<in> set g \<Longrightarrow> shared user ns q1 rest1 r1 r1" for ns
  proof -
    assume e: "rest1 = []" and ns: "\<forall>n\<in>set ns. n \<in> set g"
    have "inputs (rd_sys r1) q1" using ok1 by (simp add: round_ok_def)
    then have "\<forall>n\<in>set ns. by_priority (id_events (rd_sys r1)) (q1 n)" using inputsD(2) ns less.prems(6) v1 by auto
    then show "shared user ns q1 rest1 r1 r1" using share_Nil [of ns "rd_sys r1" q1 user] ok1 e by (simp add: shared_def)
  qed
  have whole: "shared user ([p] @ filter ?a g) q rest r r2" if "shared user (filter ?a g) q1 rest1 r1 r2" for r2
    by (rule shared_append [OF less.prems(1) _ _ r1(2) q1 that]) (use less.prems(4,6) in auto)
  have fl: "filter ?a (p # g) = [p] @ filter ?a g" using less.prems(5) by simp
  show ?case
  proof (cases "find ?a g")
    case None
    then have "filter ?a g = []" by (auto simp: find_None_iff filter_empty_conv)
    then have "shared user (filter ?a (p # g)) q rest r r1" using r1(2) less.prems(5) by simp
    then show ?thesis using r1(1) nxt None by (simp add: serve_group.simps [of user p r])
  next
    case (Some p')
    then obtain g1 g2 where g: "g = g1 @ p' # g2" "?a p'" "filter ?a g1 = []" using find_split [OF Some] by blast
    show ?thesis
    proof (cases "rest1 = []")
      case True
      then have "\<not> rd_left r1 > 0" using ok1 by (simp add: round_ok_def)
      then have "serve_group user p r = Some (True, r1)" using r1(1) nxt Some by (simp add: serve_group.simps [of user p r])
      then show ?thesis using whole [OF more [OF True]] fl by auto
    next
      case False
      let ?r1 = "r1\<lparr>rd_first := False\<rparr>"
      have "\<exists>r'. serve_group user p' ?r1 = Some (True, r') \<and> shared user (filter (\<lambda>n. active (st (rd_sys ?r1) n)) (p' # g2)) q1 rest1 ?r1 r'"
        by (rule less.hyps [OF _ ok1 False]) (use g less.prems(4,6) pg st1 v1 in auto)
      moreover have "filter (\<lambda>n. active (st (rd_sys ?r1) n)) (p' # g2) = filter ?a g"
        using g st1 by (auto intro!: filter_cong)
      ultimately obtain r2 where r2: "serve_group user p' ?r1 = Some (True, r2)" "shared user (filter ?a g) q1 rest1 r1 r2"
        by (metis shared_first)
      have "rd_left r1 > 0" using ok1 False by (simp add: round_ok_def)
      then have "serve_group user p r = Some (True, r2)" using r1(1) nxt Some r2(1) by (simp add: serve_group.simps [of user p r])
      then show ?thesis using whole [OF r2(2)] fl by auto
    qed
  qed
qed

section \<open>Equal cues\<close>

fun slices :: "int list \<Rightarrow> nat list \<Rightarrow> nat list list" where
  "slices [] xs = []"
| "slices (k # ks) xs = take (nat k) xs # slices ks (drop (nat k) xs)"

fun hand_out :: "et_event list \<Rightarrow> (int \<times> nat list) list \<Rightarrow> (int \<Rightarrow> nat list) \<Rightarrow> int \<Rightarrow> nat list" where
  "hand_out es [] q = q"
| "hand_out es ((n, ch) # ps) q = hand_out es ps (q(n := merged es (q n) ch))"

lemma hand_out_other: "m \<notin> fst ` set ps \<Longrightarrow> hand_out es ps q m = q m"
  by (induction es ps q rule: hand_out.induct) auto

lemma hand_out_cong:
  assumes "only_next A es es'" "\<forall>p\<in>set ps. set (q (fst p)) \<union> set (snd p) \<subseteq> {..<length es}"
  shows "hand_out es' ps q = hand_out es ps q"
  using assms(2)
proof (induction ps arbitrary: q)
  case (Cons p ps)
  obtain n ch where p: "p = (n, ch)" by (cases p)
  have lt: "set (q n) \<union> set ch \<subseteq> {..<length es}" using Cons.prems p by simp
  have "merged es' (q n) ch = merged es (q n) ch" by (rule merged_only_next [OF assms(1) lt])
  moreover have "set (merged es (q n) ch) \<subseteq> {..<length es}" using lt by (auto simp: merged_def)
  then have "hand_out es' ps (q(n := merged es (q n) ch)) = hand_out es ps (q(n := merged es (q n) ch))"
    using Cons.prems by (intro Cons.IH) (simp add: p)
  ultimately show ?case using p by simp
qed simp

lemma slices_set: "ch \<in> set (slices ks xs) \<Longrightarrow> set ch \<subseteq> set xs"
proof (induction ks xs rule: slices.induct)
  case (2 k ks xs)
  then show ?case using set_take_subset [of "nat k" xs] set_drop_subset [of "nat k" xs] by auto
qed simp

lemma mark_first_ok:
  "0 < n \<Longrightarrow> distinct (map fst es) \<Longrightarrow>
     mark_first n es = (take n (not_put es), put_also (set (take n (not_put es))) es)"
proof (induction es arbitrary: n)
  case (Cons p es)
  obtain e put where p: "p = (e, put)" by (cases p)
  have e: "e \<notin> fst ` set es" and d: "distinct (map fst es)" using Cons.prems(2) p by simp_all
  then have out: "e \<notin> set (take k (not_put es))" for k using not_put_set [of es] by (auto dest: in_set_takeD)
  have more: "put_also (insert e A) es = put_also A es" for A
    by (rule put_also_outside) (use e in auto)
  have none: "put_also {} es = es" by (induction es) auto
  obtain m where m: "n = Suc m" using Cons.prems(1) by (cases n) auto
  show ?case
  proof (cases "put \<or> m = 0")
    case True
    then show ?thesis using Cons.IH [OF Cons.prems(1) d] p m out none more [of "{}"] by auto
  next
    case False
    then show ?thesis using Cons.IH [of m] d p m out more by simp
  qed
qed simp

lemma filter_not_taken: "distinct xs \<Longrightarrow> filter (\<lambda>e. e \<notin> set (take k xs)) xs = drop k xs"
proof -
  assume d: "distinct xs"
  then have "set (take k xs) \<inter> set (drop k xs) = {}" by (rule set_take_disj_set_drop_if_distinct) simp
  then have "filter (\<lambda>e. e \<notin> set (take k xs)) (take k xs @ drop k xs) = drop k xs"
    by (simp only: filter_append) (auto simp: filter_empty_conv intro!: filter_True)
  then show ?thesis by simp
qed

lemma cue_counts_ok:
  "path (np s) g (-1) \<Longrightarrow> g \<noteq> [] \<Longrightarrow> \<forall>n\<in>set g. valid s n \<Longrightarrow> inputs s q \<Longrightarrow>
     cue_counts s (hd g) = Some (map (\<lambda>n. int (length (q n))) (filter (\<lambda>n. active (st s n)) g))"
proof (induction g)
  case (Cons p g)
  have c: "ls_cnt (sn_list_in (st s p)) = int (length (q p))"
    using heldD(1) [OF inputsD(3) [OF Cons.prems(4), of p]] Cons.prems(3) by simp
  show ?case
  proof (cases g)
    case Nil
    then show ?thesis using Cons.prems c by (simp add: cue_counts.simps [of s p])
  next
    case g: (Cons p' g')
    then have "valid s p'" "np s p = p'" using Cons.prems by simp_all
    then show ?thesis using Cons g c by (simp add: cue_counts.simps [of s p]) (simp add: valid_def)
  qed
qed simp

text \<open>All that is left is dealt to the stations of a group.\<close>

definition dealt :: "(int \<times> nat list) list \<Rightarrow> (int \<Rightarrow> nat list) \<Rightarrow> nat list \<Rightarrow> round \<Rightarrow> round \<Rightarrow> bool" where
  "dealt ps q rest r r' = (rd_left r' = 0 \<and> inputs (rd_sys r') (hand_out (id_events (rd_sys r)) ps q) \<and>
     flows ((\<Union>n\<in>fst ` set ps. set (q n)) \<union> set rest) (fst ` set ps) (rd_sys r) (rd_sys r'))"

lemma slices_fst: "length ks = length ns \<Longrightarrow> fst ` set (zip ns (slices ks xs)) = set ns"
proof -
  assume "length ks = length ns"
  moreover have "length (slices ks xs) = length ks" by (induction ks xs rule: slices.induct) simp_all
  ultimately have "map fst (zip ns (slices ks xs)) = ns" by simp
  then show ?thesis by (metis set_map)
qed

lemma dealt_Cons:
  assumes p: "inputs (rd_sys r) q" "pending (rd_sys r) q rest" and n: "valid (rd_sys r) n" and v: "\<forall>m\<in>set ns. valid (rd_sys r) m"
    and d: "distinct (n # ns)" and k: "length ks = length ns"
    and f: "flows (set (q n @ take (nat k) rest)) {n} (rd_sys r) (rd_sys r1)"
    and c: "dealt (zip ns (slices ks (drop (nat k) rest))) (q(n := merged (id_events (rd_sys r)) (q n) (take (nat k) rest)))
      (drop (nat k) rest) r1 r'"
  shows "dealt (zip (n # ns) (slices (k # ks) rest)) q rest r r'"
proof -
  let ?es = "id_events (rd_sys r)" and ?ps = "zip ns (slices ks (drop (nat k) rest))"
    and ?q = "q(n := merged (id_events (rd_sys r)) (q n) (take (nat k) rest))"
  have fs: "fst ` set ?ps = set ns" by (rule slices_fst [OF k])
  have lt: "set rest \<subseteq> {..<length ?es}" using p(2) by (auto simp: pending_def)
  have "\<forall>p\<in>set ?ps. set (?q (fst p)) \<union> set (snd p) \<subseteq> {..<length ?es}"
  proof
    fix p assume "p \<in> set ?ps"
    then have "(fst p, snd p) \<in> set ?ps" by simp
    from set_zip_leftD [OF this] slices_set [OF set_zip_rightD [OF this]]
    have "fst p \<in> set ns" "set (snd p) \<subseteq> set (drop (nat k) rest)" .
    then show "set (?q (fst p)) \<union> set (snd p) \<subseteq> {..<length ?es}"
      using d v lt inputsD(4) [OF p(1), of "fst p"] set_drop_subset [of "nat k" rest] by auto
  qed
  then have "hand_out (id_events (rd_sys r1)) ?ps ?q = hand_out ?es ?ps ?q"
    using f by (intro hand_out_cong [where A = "set (q n @ take (nat k) rest)"]) (simp_all add: flows_def)
  moreover have "flows (set (q n @ take (nat k) rest) \<union> ((\<Union>m\<in>fst ` set ?ps. set (?q m)) \<union> set (drop (nat k) rest)))
      ({n} \<union> fst ` set ?ps) (rd_sys r) (rd_sys r')"
    using flows_trans [OF f] c by (simp add: dealt_def)
  then have "flows ((\<Union>m\<in>fst ` set (zip (n # ns) (slices (k # ks) rest)). set (q m)) \<union> set rest)
      (fst ` set (zip (n # ns) (slices (k # ks) rest))) (rd_sys r) (rd_sys r')"
    by (rule flows_mono) (use fs d set_take_subset [of "nat k" rest] set_drop_subset [of "nat k" rest] in \<open>auto split: if_splits\<close>)
  ultimately show ?thesis using c by (simp add: dealt_def)
qed

text \<open>The routine takes the first events of the array.\<close>

lemma more_highs_count: "more_highs i pe b n es = Some (k, es') \<Longrightarrow> n \<le> k \<and> k \<le> n + length pe"
proof (induction i pe b n es rule: more_highs.induct)
  case (2 i j pe b n es)
  then show ?case by (auto simp: bind_eq_Some_conv split: if_splits) force+
qed simp

lemma et_llist_write_take:
  assumes "0 < k" "k \<le> length pe" "int k \<le> most - ls_cnt l"
  shows "et_llist_write most pe (int k) (es, l) = et_llist_write most (take k pe) (int k) (es, l)"
proof -
  have "append_events pe (int k) (es, l) = append_events (take k pe) (int k) (es, l)"
    using assms(1,2) by (cases pe) (simp_all add: append_events_def rd_def)
  moreover have "write_by_priority pe p0 (int k) (es, l) = write_by_priority (take k pe) p0 (int k) (es, l)" for p0
  proof -
    have h: "n \<le> k \<and> 0 < n" if "more_highs p0 (tl (take k pe)) b 1 es' = Some (n, es'')" for b es' es'' n
      using more_highs_count [OF that] assms(1,2) by simp
    have "(more_highs p0 (tl (take k pe)) b 1 es' \<bind> (\<lambda>(n, es''). put_lows_last pe (int k) n
          (es'', if c then l'\<lparr>ls_last := Some (pe ! (n - 1))\<rparr> else l')))
        = (more_highs p0 (tl (take k pe)) b 1 es' \<bind> (\<lambda>(n, es''). put_lows_last (take k pe) (int k) n
          (es'', if c then l'\<lparr>ls_last := Some (take k pe ! (n - 1))\<rparr> else l')))" for b es' c l'
    proof (cases "more_highs p0 (tl (take k pe)) b 1 es'")
      case (Some x)
      obtain n es'' where x: "x = (n, es'')" by (cases x)
      have "put_lows_last pe (int k) n m = put_lows_last (take k pe) (int k) n m" for m
        using assms(1) by (cases m; cases "n < k") (simp_all add: put_lows_last_def)
      moreover have "n - 1 < k" using h Some x by (metis diff_less less_le_trans zero_less_one)
      ultimately show ?thesis using Some x by simp
    qed simp
    then show ?thesis using assms(2) by (simp add: write_by_priority_def)
  qed
  moreover have "rd (take k pe) 0 = rd pe 0" using assms(1,2) by (cases pe) (simp_all add: rd_def)
  ultimately show ?thesis using assms(3) by (simp add: et_llist_write_def Let_def cong: if_cong)
qed

lemma give_take:
  assumes i: "inputs s q" and n: "valid s n" and p: "pending s q rest" and e: "enough s" and k: "0 < k" "nat k \<le> length rest"
  shows "give n t rest k s = give n t (take (nat k) rest) k s"
proof -
  have "k \<le> nevents s - int (length (q n))" using pending_room(1) [OF i n p e] k by simp
  moreover have "ls_cnt (sn_list_in (st s n)) = int (length (q n))" using heldD(1) [OF inputsD(3) [OF i n]] by simp
  ultimately show ?thesis
    using et_llist_write_take [of "nat k" rest "nevents s" "(sn_list_in (st s n))\<lparr>ls_locked := True, ls_try := t\<rparr>" "id_events s"] k n
      inputsD(5) [OF i n]
    by (simp add: give_def on_input_def lock_in_def)
qed

lemma cue_deal_ok:
  assumes "inputs (rd_sys r) q" "pending (rd_sys r) q rest" "enough (rd_sys r)" "rd_left r = int (length rest)"
    "path (np (rd_sys r)) g (-1)" "g \<noteq> []" "distinct g" "\<forall>n\<in>set g. valid (rd_sys r) n \<and> n \<noteq> 0"
    "length nums = length (filter (\<lambda>n. active (st (rd_sys r) n)) g)" "\<forall>x\<in>set nums. 0 \<le> x" "sum_list nums = int (length rest)"
    "if rd_first r then pe = rest else not_put (rd_events r) = rest \<and> distinct (map fst (rd_events r))"
  shows "\<exists>r'. cue_deal (hd g) nums pe r = Some (True, r') \<and>
     dealt (zip (filter (\<lambda>n. active (st (rd_sys r) n)) g) (slices nums rest)) q rest r r'"
  using assms
proof (induction g arbitrary: nums pe r q rest)
  case (Cons p g)
  let ?s = "rd_sys r" and ?a = "\<lambda>n. active (st (rd_sys r) n)"
  have vp: "valid ?s p" "p \<noteq> 0" using Cons.prems(8) by simp_all
  note e = Cons.prems(3)
  text \<open>On to the next station of the group, in the state \<open>r1\<close>.\<close>
  have onward: "\<exists>r'. (if np ?s p > -1 then cue_deal (np ?s p) ks pe1 r1 else Some (True, r1)) = Some (True, r') \<and>
      dealt (zip (filter ?a g) (slices ks rest1)) q1 rest1 r1 r'"
    if i1: "inputs (rd_sys r1) q1" "pending (rd_sys r1) q1 rest1" "rd_left r1 = int (length rest1)"
      "length ks = length (filter ?a g)" "\<forall>x\<in>set ks. 0 \<le> x" "sum_list ks = int (length rest1)"
      "if rd_first r1 then pe1 = rest1 else not_put (rd_events r1) = rest1 \<and> distinct (map fst (rd_events r1))"
      and f1: "\<exists>A. flows A {p} ?s (rd_sys r1)" for r1 q1 rest1 ks pe1
  proof -
    obtain A where f: "flows A {p} ?s (rd_sys r1)" using f1 by blast
    have st1: "st (rd_sys r1) n = st ?s n" if "n \<in> set g" for n
      using flows_station [OF f] Cons.prems(7,8) that by auto
    have v1: "valid (rd_sys r1) n = valid ?s n" for n by (rule flows_valid [OF f])
    have fl: "filter (\<lambda>n. active (st (rd_sys r1) n)) g = filter ?a g" using st1 by (auto intro!: filter_cong)
    show ?thesis
    proof (cases g)
      case Nil
      then show ?thesis using Cons.prems(5) i1 by (simp add: dealt_def)
    next
      case g: (Cons p' g')
      have "path (np (rd_sys r1)) g (-1)"
        using Cons.prems(5) path_cong [of g "np (rd_sys r1)" "np ?s" "-1"] flows_keeps(4) [OF f] Cons.prems(8) by auto
      then have "\<exists>r'. cue_deal (hd g) ks pe1 r1 = Some (True, r') \<and>
          dealt (zip (filter (\<lambda>n. active (st (rd_sys r1) n)) g) (slices ks rest1)) q1 rest1 r1 r'"
        by (rule Cons.IH [OF i1(1,2) enough_flows [OF f e] i1(3)]) (use g Cons.prems(7,8) v1 i1 fl in auto)
      moreover have "np ?s p = p'" "p' > -1" using Cons.prems(5,8) g by (auto simp: valid_def)
      ultimately show ?thesis using g fl by simp
    qed
  qed
  show ?case
  proof (cases "?a p")
    case False
    then show ?thesis
      using onward [of r q rest nums pe] Cons.prems vp flows_refl [of "{}" "{p}" ?s] by (auto simp: cue_deal.simps [of p nums pe r])
  next
    case True
    then obtain k ks where nums: "nums = k # ks" using Cons.prems(9) by (cases nums) auto
    have k: "0 \<le> k" "length ks = length (filter ?a g)" "\<forall>x\<in>set ks. 0 \<le> x" "k + sum_list ks = int (length rest)"
      using Cons.prems(9-11) True nums by simp_all
    have kl: "nat k \<le> length rest" using k(3,4) sum_list_nonneg [of ks] by force
    let ?q = "q(p := merged (id_events ?s) (q p) (take (nat k) rest))"
    note step = dealt_Cons [OF Cons.prems(1,2) vp(1) _ _ k(2)]
    have split: "take (nat k) rest @ drop (nat k) rest = rest" by simp
    have d: "distinct rest" using Cons.prems(2) by (simp add: pending_def)
    have ch: "set (take (nat k) rest) \<subseteq> set rest" by (rule set_take_subset)
    have nets: "filter ?a (p # g) = p # filter ?a g" using True by simp
    have gd: "\<forall>m\<in>set (filter ?a g). valid ?s m" "distinct (p # filter ?a g)" using Cons.prems(7,8) by auto
    note step = dealt_Cons [OF Cons.prems(1,2) vp(1) gd k(2)]
    show ?thesis
    proof (cases "k < 1")
      case True
      then have k0: "k = 0" using k(1) by simp
      have q: "?q = q" using merged_Nil [OF inputsD(2) [OF Cons.prems(1) vp]] k0 by simp
      obtain r' where r': "(if np ?s p > -1 then cue_deal (np ?s p) ks pe r else Some (True, r)) = Some (True, r')"
          "dealt (zip (filter ?a g) (slices ks rest)) q rest r r'"
        using onward [of r q rest ks pe] Cons.prems(1,2,4,12) k(2-4) k0 flows_refl [of "{}" "{p}" ?s] by auto
      have "cue_deal p nums pe r = Some (True, r')"
        using r'(1) \<open>?a p\<close> vp nums k0 by (simp add: cue_deal.simps [of p "0 # ks" pe r] split: if_splits)
      moreover have "dealt (zip (filter ?a (p # g)) (slices nums rest)) q rest r r'"
        unfolding nets nums by (rule step [where ?r1.0 = r]) (use r'(2) k0 q in simp_all)
      ultimately show ?thesis by auto
    next
      case False
      define t where "t = ls_try (sn_list_in (st ?s p)) + word_of_int k"
      have ne: "take (nat k) rest \<noteq> []" using False kl by (auto simp: take_eq_Nil)
      have lk: "int (length (take (nat k) rest)) = k" using k(1) kl by simp
      have pk: "pending ?s q (take (nat k) rest)"
        by (rule pending_subseq [OF Cons.prems(2) prefix_imp_subseq [OF take_is_prefix]])
      obtain s' where g: "give p t (take (nat k) rest) k ?s = Some (True, s')" "inputs s' ?q"
          "flows (set (q p @ take (nat k) rest)) {p} ?s s'"
        using give_puts [OF Cons.prems(1) vp pk ne e, of t] lk by auto
      define es where "es = (if rd_first r then rd_events r else put_also (set (take (nat k) rest)) (rd_events r))"
      define chosen where "chosen = (if rd_first r then pe else take (nat k) rest)"
      have gc: "give p t chosen k ?s = Some (True, s')"
        using g(1) give_take [OF Cons.prems(1) vp(1) Cons.prems(2) e, of k t] Cons.prems(12) False kl by (simp add: chosen_def split: if_splits)
      let ?r = "r\<lparr>rd_sys := s', rd_events := es, rd_left := rd_left r - k\<rparr>"
      have rest1: "filter (\<lambda>e. e \<notin> set (take (nat k) rest)) rest = drop (nat k) rest" by (rule filter_not_taken [OF d])
      have "set (merged (id_events ?s) (q p) (take (nat k) rest)) \<subseteq> set (q p) \<union> set (take (nat k) rest)" by (auto simp: merged_def)
      from pending_left [OF Cons.prems(2) ch g(3) vp(1) this]
      have p1: "pending s' ?q (drop (nat k) rest)" by (simp only: rest1)
      have l1: "rd_left ?r = int (length (drop (nat k) rest))" using Cons.prems(4) k(1) kl by simp
      have s1: "sum_list ks = int (length (drop (nat k) rest))" using k(1,4) kl by simp
      have m1: "if rd_first ?r then drop (nat k) pe = drop (nat k) rest
          else not_put (rd_events ?r) = drop (nat k) rest \<and> distinct (map fst (rd_events ?r))"
        using Cons.prems(12) rest1 by (simp add: es_def not_put_also)
      obtain r' where r': "(if np ?s p > -1 then cue_deal (np ?s p) ks (drop (nat k) pe) ?r else Some (True, ?r)) = Some (True, r')"
          "dealt (zip (filter ?a g) (slices ks (drop (nat k) rest))) ?q (drop (nat k) rest) ?r r'"
        using onward [OF _ _ l1 k(2,3) s1 m1, of ?q] g(2,3) p1 by auto
      have ce: "(if rd_first r then (pe, rd_events r) else mark_first (nat k) (rd_events r)) = (chosen, es)"
        using Cons.prems(12) mark_first_ok [of "nat k" "rd_events r"] False by (auto simp: chosen_def es_def)
      have "cue_deal p nums pe r = Some (True, r')"
        unfolding nums cue_deal.simps [of p "k # ks" pe r]
        using r'(1) \<open>?a p\<close> vp False gc by (simp add: t_def [symmetric] ce)
      moreover have "dealt (zip (filter ?a (p # g)) (slices nums rest)) q rest r r'"
        unfolding nets nums by (rule step [where ?r1.0 = ?r]) (use r'(2) g(3) in simp_all)
      ultimately show ?thesis by auto
    qed
  qed
qed simp

section \<open>A place in the list of stations\<close>

text \<open>What a group with equal cues gets, each station a stretch of what is left.\<close>

definition cue_parts :: "(int \<Rightarrow> nat list) \<Rightarrow> int list \<Rightarrow> nat list \<Rightarrow> (int \<times> nat list) list" where
  "cue_parts q ns rest =
     zip ns (slices (the (equal_numbers (int (length rest)) (map (\<lambda>n. int (length (q n))) ns))) rest)"

definition equal_cue_group :: "et_id \<Rightarrow> int list \<Rightarrow> bool" where
  "equal_cue_group s g = (parallel s (hd g) \<and> cf_select_mode (sn_config (st s (hd g))) = ET_STATION_SELECT_EQUALCUE)"

definition share_place :: "(int \<Rightarrow> et_event \<Rightarrow> bool) \<Rightarrow> et_id \<Rightarrow> int list \<Rightarrow> (int \<Rightarrow> nat list) \<times> nat list \<Rightarrow> (int \<Rightarrow> nat list) \<times> nat list" where
  "share_place user s g qr = (let (q, rest) = qr; ns = filter (\<lambda>n. active (st s n)) g in
     if equal_cue_group s g \<and> ns \<noteq> [] then (hand_out (id_events s) (cue_parts q ns rest) q, []) else share user s ns (q, rest))"

text \<open>A place with no group that deals by round robin.\<close>

definition good_group :: "et_id \<Rightarrow> int list \<Rightarrow> bool" where
  "good_group s g = (g \<noteq> [] \<and> path (np s) g (-1) \<and> distinct g \<and> (\<forall>n\<in>set g. valid s n \<and> n \<noteq> 0) \<and>
     (length g > 1 \<longrightarrow> parallel s (hd g)) \<and> (equal_cue_group s g \<or> (\<forall>n\<in>set g. plain (sn_config (st s n)))))"

definition passed :: "int set \<Rightarrow> (int \<Rightarrow> nat list) \<Rightarrow> nat list \<Rightarrow> (int \<Rightarrow> nat list) \<times> nat list \<Rightarrow> round \<Rightarrow> round \<Rightarrow> bool" where
  "passed N q rest qr r r' = (case qr of (q', rest') \<Rightarrow> round_ok (r'\<lparr>rd_first := False\<rparr>) q' rest' \<and>
     flows ((\<Union>n\<in>N. set (q n)) \<union> (set rest - set rest')) N (rd_sys r) (rd_sys r'))"

lemma shared_passed: "shared user ns q rest r r' \<Longrightarrow> set ns \<subseteq> N \<Longrightarrow> passed N q rest (share user (rd_sys r) ns (q, rest)) r r'"
  unfolding shared_def passed_def Let_def by (auto elim!: flows_mono)

lemma equal_numbers_length:
  assumes "ns \<noteq> []"
  obtains nums where "equal_numbers (int k) (map f ns) = Some nums" "length nums = length ns" "\<forall>x\<in>set nums. 0 \<le> x" "sum_list nums = int k"
  using equal_numbers_even [of "map f ns" "int k"] assms by (auto simp: evened_def)

lemma equal_cue_passed:
  assumes r: "round_ok r q rest" "rest \<noteq> []" and g: "path (np (rd_sys r)) g (-1)" "g \<noteq> []" "distinct g" "\<forall>n\<in>set g. valid (rd_sys r) n \<and> n \<noteq> 0"
  defines "ns \<equiv> filter (\<lambda>n. active (st (rd_sys r) n)) g"
  assumes ns: "ns \<noteq> []"
  shows "\<exists>r'. equal_cue (hd g) r = Some (True, r') \<and> passed (set g) q rest (hand_out (id_events (rd_sys r)) (cue_parts q ns rest) q, []) r r'"
proof -
  let ?s = "rd_sys r" and ?f = "\<lambda>n. int (length (q n))"
  have p: "inputs ?s q" "pending ?s q rest" "enough ?s" "rd_left r = int (length rest)" "not_put (rd_events r) = rest"
      "distinct (map fst (rd_events r))" "rd_first r \<Longrightarrow> map fst (rd_events r) = rest"
    using r by (simp_all add: round_ok_def)
  obtain nums where nums: "equal_numbers (int (length rest)) (map ?f ns) = Some nums" "length nums = length ns"
      "\<forall>x\<in>set nums. 0 \<le> x" "sum_list nums = int (length rest)"
    using equal_numbers_length [OF ns] by blast
  have "cue_counts ?s (hd g) = Some (map ?f ns)"
    unfolding ns_def by (rule cue_counts_ok [OF g(1,2) _ p(1)]) (use g(4) in blast)
  then have e: "equal_cue (hd g) r = cue_deal (hd g) nums (map fst (rd_events r)) r"
    using nums(1) p(4) by (simp add: equal_cue_def)
  have c: "zip ns (slices nums rest) = cue_parts q ns rest" using nums(1) by (simp add: cue_parts_def)
  have "if rd_first r then map fst (rd_events r) = rest else not_put (rd_events r) = rest \<and> distinct (map fst (rd_events r))"
    using p(5-7) by simp
  from cue_deal_ok [OF p(1-4) g nums(2) [unfolded ns_def] nums(3,4) this]
  obtain r' where r': "cue_deal (hd g) nums (map fst (rd_events r)) r = Some (True, r')" "dealt (cue_parts q ns rest) q rest r r'"
    unfolding ns_def [symmetric] c by blast
  have fs: "fst ` set (cue_parts q ns rest) = set ns" unfolding c [symmetric] by (rule slices_fst [OF nums(2)])
  then have "flows ((\<Union>n\<in>set ns. set (q n)) \<union> set rest) (set ns) ?s (rd_sys r')" using r'(2) by (simp add: dealt_def)
  then have f: "flows ((\<Union>n\<in>set g. set (q n)) \<union> set rest) (set g) ?s (rd_sys r')"
    by (rule flows_mono) (auto simp: ns_def)
  have "by_priority es []" for es by (simp add: by_priority_def queued_def)
  then have "round_ok (r'\<lparr>rd_first := False\<rparr>) (hand_out (id_events ?s) (cue_parts q ns rest) q) []"
    using r'(2) enough_flows [OF f p(3)] by (simp add: round_ok_def dealt_def pending_def)
  then show ?thesis using r'(1) e f by (simp add: passed_def)
qed

lemma serve_place_ok:
  assumes r: "round_ok r q rest" "rest \<noteq> []" and g: "good_group (rd_sys r) g"
  shows "\<exists>r'. serve_place user (hd g) r = Some (True, r') \<and> passed (set g) q rest (share_place user (rd_sys r) g (q, rest)) r r'"
proof -
  let ?s = "rd_sys r" and ?a = "\<lambda>n. active (st (rd_sys r) n)" and ?m = "cf_select_mode (sn_config (st (rd_sys r) (hd g)))"
  have gg: "g \<noteq> []" "path (np ?s) g (-1)" "distinct g" "\<forall>n\<in>set g. valid ?s n \<and> n \<noteq> 0" "length g > 1 \<Longrightarrow> parallel ?s (hd g)"
      "equal_cue_group ?s g \<or> (\<forall>n\<in>set g. plain (sn_config (st ?s n)))"
    using g by (simp_all add: good_group_def)
  have v: "valid ?s (hd g)" "hd g \<noteq> 0" using gg(1,4) by simp_all
  have nobody: ?thesis if "serve_place user (hd g) r = Some (True, r)" "filter ?a g = []"
    using that shared_passed [OF shared_Nil [OF r(1)], of "set g"] by (simp add: share_place_def)
  show ?thesis
  proof (cases "parallel ?s (hd g)")
    case True
    have fa: "first_active ?s (hd g) = Some (find ?a g)" by (rule first_active_find [OF gg(2,1)]) (use gg(4) in blast)
    show ?thesis
    proof (cases "find ?a g")
      case None
      then have "filter ?a g = []" by (auto simp: find_None_iff filter_empty_conv)
      then show ?thesis using nobody None fa v True by (simp add: serve_place_def parallel_def)
    next
      case (Some p)
      then obtain g1 g2 where s: "g = g1 @ p # g2" "?a p" "filter ?a g1 = []" using find_split [OF Some] by blast
      have pg: "path (np ?s) (p # g2) (-1)" "distinct (p # g2)" "set (p # g2) \<subseteq> set g" using gg(2,3) s(1) by auto
      have fl: "filter ?a (p # g2) = filter ?a g" using s by simp
      show ?thesis
      proof (cases "?m = ET_STATION_SELECT_EQUALCUE")
        case eq: True
        have "\<forall>n\<in>set (p # g2). valid ?s n \<and> n \<noteq> 0" using pg(3) gg(4) by blast
        from equal_cue_passed [OF r pg(1) _ pg(2) this, unfolded fl]
        obtain r' where "equal_cue p r = Some (True, r')"
            "passed (set (p # g2)) q rest (hand_out (id_events ?s) (cue_parts q (filter ?a g) rest) q, []) r r'" using s(1,2) by auto
        moreover have "share_place user ?s g (q, rest) = (hand_out (id_events ?s) (cue_parts q (filter ?a g) rest) q, [])"
          using eq True s(1,2) by (simp add: share_place_def equal_cue_group_def)
        ultimately have "serve_place user (hd g) r = Some (True, r')" "passed (set g) q rest (share_place user ?s g (q, rest)) r r'"
          using eq True fa Some v pg(3) by (auto simp: serve_place_def parallel_def passed_def elim!: flows_mono)
        then show ?thesis by blast
      next
        case False
        then have ne: "\<not> equal_cue_group ?s g" by (simp add: equal_cue_group_def)
        then have pl: "\<forall>n\<in>set (p # g2). valid ?s n \<and> n \<noteq> 0 \<and> plain (sn_config (st ?s n))" and m: "plain (sn_config (st ?s (hd g)))"
          using gg(1,4,6) pg(3) by auto
        obtain r' where "serve_group user p r = Some (True, r')" "shared user (filter ?a g) q rest r r'"
          using serve_group_shared [OF r pg(1,2) s(2) pl, of user] unfolding fl by blast
        moreover have "?m \<noteq> ET_STATION_SELECT_RROBIN" using m by (auto simp: plain_def)
        ultimately show ?thesis
          using shared_passed [of user "filter ?a g" q rest r r' "set g"] False True fa Some v ne
          by (auto simp: serve_place_def parallel_def share_place_def)
      qed
    qed
  next
    case False
    then obtain p where p: "g = [p]" using gg(1,5) by (cases g; cases "tl g") auto
    have ne: "\<not> equal_cue_group ?s g" using False by (simp add: equal_cue_group_def)
    then have pl: "plain (sn_config (st ?s p))" using gg(6) p by simp
    show ?thesis
    proof (cases "?a p")
      case True
      have "\<exists>r'. serve user p r = Some (True, r') \<and> shared user [p] q rest r r'"
        by (rule serve_shared [OF r]) (use v p pl in simp_all)
      then show ?thesis
        using shared_passed [of user "[p]" q rest r _ "set g"] False True v p ne
        by (auto simp: serve_place_def parallel_def share_place_def)
    next
      case inactive: False
      then show ?thesis using nobody False v p by (simp add: serve_place_def parallel_def)
    qed
  qed
qed

section \<open>The whole list of stations\<close>

lemma cue_parts_set: "p \<in> set (cue_parts q ns rest) \<Longrightarrow> fst p \<in> set ns \<and> set (snd p) \<subseteq> set rest"
  using slices_set unfolding cue_parts_def
  by (metis (no_types, lifting) prod.collapse set_zip_leftD set_zip_rightD)

lemma hand_out_Nil: "\<forall>p\<in>set ps. snd p = [] \<and> by_priority es (q (fst p)) \<Longrightarrow> hand_out es ps q = q"
  by (induction ps arbitrary: q) auto

lemma share_place_Nil:
  assumes "\<forall>n\<in>set g. by_priority (id_events s) (q n)"
  shows "share_place user s g (q, []) = (q, [])"
proof -
  have "hand_out (id_events s) (cue_parts q ns []) q = q" if "set ns \<subseteq> set g" for ns
  proof (rule hand_out_Nil, rule ballI)
    fix p assume "p \<in> set (cue_parts q ns [])"
    from cue_parts_set [OF this] have "fst p \<in> set ns" "snd p = []" by simp_all
    then show "snd p = [] \<and> by_priority (id_events s) (q (fst p))" using assms that by auto
  qed
  moreover have "share user s (filter P g) (q, []) = (q, [])" for P by (rule share_Nil) (use assms in auto)
  ultimately show ?thesis by (simp add: share_place_def Let_def)
qed

lemma share_places_Nil:
  "\<forall>n\<in>set (concat gs). by_priority (id_events s) (q n) \<Longrightarrow> fold (share_place user s) gs (q, []) = (q, [])"
  by (induction gs) (simp_all add: share_place_Nil)

lemma share_place_rest: "set (snd (share_place user s g (q, rest))) \<subseteq> set rest"
  using share_rest by (simp add: share_place_def Let_def)

lemma share_place_other: "m \<notin> set g \<Longrightarrow> fst (share_place user s g (q, rest)) m = q m"
proof -
  assume m: "m \<notin> set g"
  have "hand_out (id_events s) (cue_parts q ns rest) q m = q m" if "set ns \<subseteq> set g" for ns
    by (rule hand_out_other) (use cue_parts_set m that in blast)
  moreover have "fst (share user s (filter P g) (q, rest)) m = q m" for P by (rule share_other) (use m in simp)
  ultimately show ?thesis by (simp add: share_place_def Let_def)
qed

lemma share_place_cong:
  assumes f: "flows A N s s'" "N \<inter> set g = {}" and q: "\<forall>n\<in>set g. valid s n \<and> set (q n) \<subseteq> {..<length (id_events s)}"
    and rest: "A \<inter> set rest = {}" "set rest \<subseteq> {..<length (id_events s)}" and g: "g \<noteq> []"
  shows "share_place user s' g (q, rest) = share_place user s g (q, rest)"
proof -
  have st': "st s' n = st s n" if "n \<in> set g" for n using flows_station [OF f(1)] f(2) q that by auto
  then have "filter (\<lambda>n. active (st s' n)) g = filter (\<lambda>n. active (st s n)) g" by (auto intro: filter_cong)
  moreover have "equal_cue_group s' g = equal_cue_group s g" using st' [of "hd g"] g by (simp add: equal_cue_group_def parallel_def)
  moreover have "share user s' ns (q, rest) = share user s ns (q, rest)" if "set ns \<subseteq> set g" for ns
    by (rule share_cong [OF f(1) _ _ rest]) (use f(2) q that in auto)
  moreover have "hand_out (id_events s') (cue_parts q ns rest) q = hand_out (id_events s) (cue_parts q ns rest) q" if "set ns \<subseteq> set g" for ns
  proof (rule hand_out_cong)
    show "only_next A (id_events s) (id_events s')" using f(1) by (simp add: flows_def)
    show "\<forall>p\<in>set (cue_parts q ns rest). set (q (fst p)) \<union> set (snd p) \<subseteq> {..<length (id_events s)}"
      using cue_parts_set q rest(2) that by blast
  qed
  ultimately show ?thesis by (simp add: share_place_def Let_def)
qed

lemma good_group_flows:
  assumes "flows A N s s'" "good_group s g"
  shows "good_group s' g"
proof -
  have v: "\<forall>n\<in>set g. valid s n" "g \<noteq> []" using assms(2) by (simp_all add: good_group_def)
  have c: "sn_config (st s' n) = sn_config (st s n)" "np s' n = np s n" if "n \<in> set g" for n
    using flows_keeps [OF assms(1)] v(1) that by blast+
  have "path (np s') g (-1) = path (np s) g (-1)" by (rule path_cong [OF c(2)])
  then show ?thesis
    using assms(2) c(1) v flows_valid [OF assms(1)] by (simp add: good_group_def equal_cue_group_def parallel_def)
qed

lemma share_places_cong:
  assumes f: "flows A N s s'" "N \<inter> set (concat gs) = {}" and q: "\<forall>n\<in>set (concat gs). valid s n \<and> set (q n) \<subseteq> {..<length (id_events s)}"
    and rest: "A \<inter> set rest = {}" "set rest \<subseteq> {..<length (id_events s)}" and d: "distinct (concat gs)" "[] \<notin> set gs"
  shows "fold (share_place user s') gs (q, rest) = fold (share_place user s) gs (q, rest)"
  using f(2) q rest d
proof (induction gs arbitrary: q rest)
  case (Cons g gs)
  obtain q1 rest1 where s1: "share_place user s g (q, rest) = (q1, rest1)" by fastforce
  have g: "g \<noteq> []" "N \<inter> set g = {}" "N \<inter> set (concat gs) = {}" "set g \<inter> set (concat gs) = {}" "distinct (concat gs)" "[] \<notin> set gs"
    and q: "\<forall>n\<in>set g. valid s n \<and> set (q n) \<subseteq> {..<length (id_events s)}"
      "\<forall>n\<in>set (concat gs). valid s n \<and> set (q n) \<subseteq> {..<length (id_events s)}"
    using Cons.prems by auto
  have "share_place user s' g (q, rest) = (q1, rest1)"
    using share_place_cong [OF f(1) g(2) q(1) Cons.prems(3,4) g(1)] s1 by simp
  moreover have rr: "set rest1 \<subseteq> set rest" using share_place_rest [of user s g q rest] s1 by simp
  moreover have "q1 n = q n" if "n \<in> set (concat gs)" for n
    using share_place_other [of n g user s q rest] s1 g(4) that by auto
  then have "\<forall>n\<in>set (concat gs). valid s n \<and> set (q1 n) \<subseteq> {..<length (id_events s)}" using q(2) by simp
  moreover have "A \<inter> set rest1 = {}" "set rest1 \<subseteq> {..<length (id_events s)}" using rr Cons.prems(3,4) by auto
  ultimately show ?case using Cons.IH [of q1 rest1] g s1 by simp
qed simp

text \<open>Grand Central is there all the time.\<close>

definition gc_ok :: "et_id \<Rightarrow> bool" where
  "gc_ok s = (valid s 0 \<and> active (st s 0) \<and> \<not> parallel s 0)"

definition delivered :: "int set \<Rightarrow> (int \<Rightarrow> nat list) \<Rightarrow> nat list \<Rightarrow> (int \<Rightarrow> nat list) \<times> nat list \<Rightarrow> et_id \<Rightarrow> et_id \<Rightarrow> bool" where
  "delivered N q rest qr s s' = (case qr of (q', rest') \<Rightarrow> inputs s' (q'(0 := q' 0 @ rest')) \<and>
     flows ((\<Union>n\<in>insert 0 N. set (q n)) \<union> set rest) (insert 0 N) s s')"

lemma deliver_ok:
  assumes "round_ok r q rest" "path (nx (rd_sys r)) (map hd gs) (-1)" "\<forall>g\<in>set gs. good_group (rd_sys r) g" "distinct (concat gs)"
    "gc_ok (rd_sys r)"
  shows "\<exists>r'. deliver user (hd (map hd gs @ [0])) r = Some (True, r') \<and>
     delivered (set (concat gs)) q rest (fold (share_place user (rd_sys r)) gs (q, rest)) (rd_sys r) (rd_sys r')"
  using assms
proof (induction gs arbitrary: r q rest)
  case Nil
  let ?s = "rd_sys r"
  have p: "inputs ?s q" "pending ?s q rest" "enough ?s" "rd_left r = int (length rest)" using Nil.prems(1) by (simp_all add: round_ok_def)
  have g: "valid ?s 0" "active (st ?s 0)" "\<not> parallel ?s 0" using Nil.prems(5) by (simp_all add: gc_ok_def)
  show ?case
  proof (cases "rest = []")
    case True
    then have "inputs ?s (q(0 := q 0 @ rest))" using p(1) by simp
    moreover have "deliver user 0 r = Some (True, r)" using p(4) True by (simp add: deliver.simps [of user 0 r])
    ultimately show ?thesis by (simp add: delivered_def)
  next
    case False
    have "(if rd_first r then map fst (rd_events r) else not_put (rd_events r)) = rest" using Nil.prems(1) False by (simp add: round_ok_def)
    from serve_gc_puts [OF p(1) g(1) p(2) False p(3) this] obtain s' where
      s': "serve_gc r = Some (True, r\<lparr>rd_sys := s', rd_left := 0\<rparr>)" "inputs s' (q(0 := q 0 @ rest))" "flows (set (q 0 @ rest)) {0} ?s s'"
      by blast
    have "serve user 0 r = Some (True, r\<lparr>rd_sys := s', rd_left := 0\<rparr>)" using s'(1) g(1) by (simp add: serve_def)
    then have "deliver user 0 r = Some (True, r\<lparr>rd_sys := s', rd_left := 0\<rparr>)"
      using p(4) False g by (simp add: deliver.simps [of user 0 r] serve_place_def parallel_def)
    then show ?thesis using s'(2,3) by (simp add: delivered_def)
  qed
next
  case (Cons g gs)
  let ?s = "rd_sys r"
  have p: "inputs ?s q" "pending ?s q rest" "rd_left r = int (length rest)" using Cons.prems(1) by (simp_all add: round_ok_def)
  have gg: "good_group ?s g" "g \<noteq> []" "valid ?s (hd g)" "hd g \<noteq> 0" using Cons.prems(3) by (auto simp: good_group_def)
  have vs: "valid ?s n \<and> n \<noteq> 0" if "n \<in> set (concat (g # gs))" for n using Cons.prems(3) that by (auto simp: good_group_def)
  show ?case
  proof (cases "rest = []")
    case True
    have "\<forall>n\<in>set (concat (g # gs)). by_priority (id_events ?s) (q n)" using inputsD(2) [OF p(1)] vs by blast
    then have "fold (share_place user ?s) (g # gs) (q, rest) = (q, [])" unfolding True by (rule share_places_Nil)
    moreover have "deliver user (hd g) r = Some (True, r)" using p(3) True by (simp add: deliver.simps [of user "hd g" r])
    ultimately show ?thesis using p(1) by (simp add: delivered_def)
  next
    case False
    obtain q1 rest1 where s1: "share_place user ?s g (q, rest) = (q1, rest1)" by fastforce
    obtain r1 where r1: "serve_place user (hd g) r = Some (True, r1)" "passed (set g) q rest (q1, rest1) r r1"
      using serve_place_ok [OF Cons.prems(1) False gg(1), of user] s1 by auto
    let ?r1 = "r1\<lparr>rd_first := False\<rparr>" and ?A = "(\<Union>n\<in>set g. set (q n)) \<union> (set rest - set rest1)"
    have ok1: "round_ok ?r1 q1 rest1" and f1: "flows ?A (set g) ?s (rd_sys r1)" using r1(2) by (simp_all add: passed_def)
    have rr: "set rest1 \<subseteq> set rest" using share_place_rest [of user ?s g q rest] s1 by simp
    have q1: "q1 n = q n" if "n \<notin> set g" for n using share_place_other [of n g user ?s q rest] s1 that by simp
    have lt: "set rest \<subseteq> {..<length (id_events ?s)}" using p(2) by (auto simp: pending_def)
    have dg: "set g \<inter> set (concat gs) = {}" "distinct (concat gs)" using Cons.prems(4) by simp_all
    have "set (q n) \<inter> set rest1 = {}" if "n \<in> set g" for n using pending_disjoint [OF p(2), of n] vs that rr by auto
    then have da: "?A \<inter> set rest1 = {}" by auto
    have v1: "\<forall>n\<in>set (concat gs). valid ?s n \<and> set (q1 n) \<subseteq> {..<length (id_events ?s)}"
    proof
      fix n assume n: "n \<in> set (concat gs)"
      then have "n \<notin> set g" "valid ?s n" using dg(1) vs by auto
      then show "valid ?s n \<and> set (q1 n) \<subseteq> {..<length (id_events ?s)}" using q1 inputsD(4) [OF p(1)] by simp
    qed
    have ne: "[] \<notin> set gs" using Cons.prems(3) by (auto simp: good_group_def)
    have lt1: "set rest1 \<subseteq> {..<length (id_events ?s)}" using rr lt by (rule order_trans)
    note sc = share_places_cong [OF f1 dg(1) v1 da lt1 dg(2) ne, of user]
    have good1: "\<forall>h\<in>set gs. good_group (rd_sys ?r1) h" using Cons.prems(3) good_group_flows [OF f1] by simp
    have nx1: "nx (rd_sys r1) n = nx ?s n" if "valid ?s n" for n by (rule flows_keeps(3) [OF f1 that])
    have heads: "valid ?s n" if "n \<in> set (map hd gs)" for n using that Cons.prems(3) by (auto simp: good_group_def)
    have path1: "path (nx (rd_sys ?r1)) (map hd gs) (-1)"
      using Cons.prems(2) path_cong [of "map hd gs" "nx (rd_sys r1)" "nx ?s" "-1"] nx1 heads by simp
    have gc1: "gc_ok (rd_sys ?r1)"
      using Cons.prems(5) flows_keeps(1,2) [OF f1] flows_valid [OF f1] by (simp add: gc_ok_def active_def parallel_def)
    obtain r2 where r2: "deliver user (hd (map hd gs @ [0])) ?r1 = Some (True, r2)"
        "delivered (set (concat gs)) q1 rest1 (fold (share_place user ?s) gs (q1, rest1)) (rd_sys r1) (rd_sys r2)"
      using Cons.IH [OF ok1 path1 good1 dg(2) gc1] sc by auto
    have "behind (st (rd_sys r1) (hd g)) = hd (map hd gs @ [0])"
      using Cons.prems(2) nx1 [OF gg(3)] heads [of "hd (map hd gs)"] by (cases gs) (simp_all add: behind_def valid_def)
    then have "deliver user (hd g) r = Some (True, r2)"
      using p(3) False r1(1) r2(1) gg(3,4) flows_valid [OF f1] by (simp add: deliver.simps [of user "hd g" r])
    moreover have "delivered (set (concat (g # gs))) q rest (fold (share_place user ?s) (g # gs) (q, rest)) ?s (rd_sys r2)"
    proof -
      obtain q2 rest2 where s2: "fold (share_place user ?s) gs (q1, rest1) = (q2, rest2)" by fastforce
      have i2: "inputs (rd_sys r2) (q2(0 := q2 0 @ rest2))"
        and f2: "flows ((\<Union>n\<in>insert 0 (set (concat gs)). set (q1 n)) \<union> set rest1) (insert 0 (set (concat gs))) (rd_sys r1) (rd_sys r2)"
        using r2(2) s2 by (simp_all add: delivered_def)
      have "flows ((\<Union>n\<in>insert 0 (set (concat (g # gs))). set (q n)) \<union> set rest) (insert 0 (set (concat (g # gs)))) ?s (rd_sys r2)"
      proof (rule flows_mono [OF flows_trans [OF f1 f2]])
        have "q1 n = q n" if "n \<in> insert 0 (set (concat gs))" for n using q1 that dg(1) vs by fastforce
        then show "?A \<union> ((\<Union>n\<in>insert 0 (set (concat gs)). set (q1 n)) \<union> set rest1)
            \<subseteq> (\<Union>n\<in>insert 0 (set (concat (g # gs))). set (q n)) \<union> set rest" using rr by (simp del: set_concat) blast
      qed auto
      then show ?thesis using i2 s1 s2 by (simp add: delivered_def)
    qed
    ultimately show ?thesis by auto
  qed
qed

end
