(* ===== verification/EtInsertProofs.thy ===== *)
theory EtInsertProofs
  imports EtChainProofs
begin

text \<open>
  \<^verbatim>\<open>station_insert\<close> puts a station at the place asked for, and leaves the forward links in order wherever it is interrupted.
\<close>

lemma insert_parallel_sound:
  assumes c: "chained s (as @ (xs @ ys) # bs)" and f: "fresh s (as @ (xs @ ys) # bs) n" and xs: "xs \<noteq> []"
    and par: "parallel s n" "parallel s (hd xs)" and pd: "p = last xs" and qd: "q = hd (ys @ [-1])"
  shows "sound (insert_parallel n p q) s (\<lambda>t. bare t = bare s \<and> (forward t (as @ (xs @ ys) # bs) \<or> forward t (as @ (xs @ n # ys) # bs)))
     (\<lambda>x t. x = ET_OK \<and> bare t = bare s \<and> chained t (as @ (xs @ n # ys) # bs))"
proof -
  let ?gs = "as @ (xs @ ys) # bs"
  have fw: "forward s ?gs" and k: "known s ?gs" using c by (simp_all add: chained_def forward_def)
  have spare: "spare s ?gs n" using f by (simp add: fresh_def)
  have mem: "x \<noteq> n" "0 \<le> x" "valid s x" "sn_num (st s x) = x" if "x \<in> set (0 # concat ?gs)" for x
    using that known_members(3) [OF k that] f by (auto simp: fresh_def spare_def)
  have inm: "p \<in> set (concat ?gs)" "p \<in> set xs" "ys \<noteq> [] \<Longrightarrow> q \<in> set ys" "ys \<noteq> [] \<Longrightarrow> q \<in> set (concat ?gs)"
    using xs by (auto simp: pd qd)
  have p: "p \<noteq> n" "n \<noteq> p" "0 \<le> p" "valid s p" "sn_num (st s p) = p" using mem [of p] inm(1) by auto
  have q: "q \<noteq> n \<and> n \<noteq> q \<and> 0 \<le> q \<and> valid s q \<and> p \<noteq> q \<and> q \<noteq> p" if "ys \<noteq> []"
    using mem [of q] inm that k by (auto simp: known_def)
  have n: "valid s n" "0 \<le> n" "sn_num (st s n) = n" "np s n = -1" "pv s n = -1" "pp s n = -1" using f by (simp_all add: fresh_def spare_def valid_def)
  define t1 where "t1 = upst n (\<lambda>x. x\<lparr>sn_nextparallel := q\<rparr>) s"
  define t2 where "t2 = upst n (\<lambda>x. x\<lparr>sn_prevparallel := p\<rparr>) t1"
  define t3 where "t3 = (if ys \<noteq> [] then upst q (\<lambda>x. x\<lparr>sn_prevparallel := n\<rparr>) t2 else t2)"
  define t4 where "t4 = upst p (\<lambda>x. x\<lparr>sn_nextparallel := n\<rparr>) t3"
  note t = t1_def t2_def t3_def t4_def
  have b: "bare t1 = bare s" "bare t2 = bare s" "bare t3 = bare s" "bare t4 = bare s" by (simp_all add: t)
  have u1: "np t1 x = (if x = n then q else np s x)" if "0 \<le> x" for x using that n by (simp add: t st_upst)
  have u2: "np t2 x = np t1 x" "np t3 x = np t1 x" "nx t1 x = nx s x" "nx t2 x = nx s x" "nx t3 x = nx s x" for x
    by (simp_all add: t)
  have u: "np t4 x = (if x = p then n else if x = n then q else np s x)"
      "pp t4 x = (if x = q then n else if x = n then p else pp s x)" "nx t4 x = nx s x" "pv t4 x = pv s x" if "0 \<le> x" for x
  proof -
    have "np t4 x = (if x = p then n else if x = n then q else np s x) \<and>
      pp t4 x = (if x = q then n else if x = n then p else pp s x)"
    proof (cases "ys = []")
      case True
      then have "x \<noteq> q" using that by (simp add: qd)
      then show ?thesis using True that p n by (simp add: t st_upst)
    next
      case False
      then show ?thesis using q [OF False] that p n by (simp add: t st_upst)
    qed
    then show "np t4 x = (if x = p then n else if x = n then q else np s x)"
      "pp t4 x = (if x = q then n else if x = n then p else pp s x)" "nx t4 x = nx s x" "pv t4 x = pv s x"
      by (simp_all add: t)
  qed
  have "sound (insert_parallel n p q) s I Q = (I s \<and> I t1 \<and> I t2 \<and> I t3 \<and> I t4 \<and> Q ET_OK t4)" for I Q
  proof (cases "ys = []")
    case True
    then have "\<not> q > -1" by (simp add: qd)
    then show ?thesis using True p n unfolding insert_parallel_def by (auto simp add: t)
  next
    case False
    have "q > -1" using q [OF False] by simp
    then show ?thesis using False q [OF False] p n unfolding insert_parallel_def by (simp add: t)
  qed
  moreover have "forward ti ?gs" if "bare ti = bare s" "\<And>x. np ti x = np t1 x" "\<And>x. nx ti x = nx s x" for ti
  proof (rule forward_same [OF fw that(1)])
    show "np ti x = np s x" if "x \<in> set (concat ?gs)" for x
      using u1 [OF mem(2), of x] mem(1) [of x] that \<open>\<And>x. np ti x = np t1 x\<close> by simp
  qed (use that(3) in simp)
  note keep = this [OF b(1)] this [OF b(2)] this [OF b(3)]
  have "forward t1 ?gs" "forward t2 ?gs" "forward t3 ?gs" using keep u2 by simp_all
  moreover have "forward t4 (as @ (xs @ n # ys) # bs)" "chained t4 (as @ (xs @ n # ys) # bs)"
  proof -
    have "np t4 (last xs) = n" "np t4 n = hd (ys @ [-1])"
      unfolding qd [symmetric] pd [symmetric] using u(1) [of p] u(1) [of n] p n by simp_all
    moreover have "np t4 x = np s x" if "x \<in> set (concat ?gs)" "x \<noteq> last xs" for x
      using u(1) [OF mem(2)] mem(1) [of x] that pd by simp
    moreover have "nx t4 x = nx s x" if "x \<in> set (0 # concat ?gs)" for x using u(3) [OF mem(2)] that by simp
    note r = chained_member [OF c xs spare b(4) par calculation this]
    show "forward t4 (as @ (xs @ n # ys) # bs)" by (rule r(1))
    show "chained t4 (as @ (xs @ n # ys) # bs)"
    proof (rule r(2))
      show "pp t4 x = pp s x" if "x \<in> set (concat ?gs)" "ys = [] \<or> x \<noteq> hd ys" for x
      proof -
        have "x \<noteq> q" using that mem(2) [of x] by (cases "ys = []") (auto simp: qd)
        then show ?thesis using u(2) [OF mem(2), of x] mem(1) [of x] that by simp
      qed
      show "pv t4 x = pv s x" if "x \<in> set (concat ?gs)" for x using u(4) [OF mem(2)] that by simp
      show "ys \<noteq> [] \<Longrightarrow> pp t4 (hd ys) = n" using u(2) [of q] q by (simp add: qd)
      show "pp t4 n = last xs" using u(2) [of n] n q pd by (cases "ys = []") (auto simp: qd)
    qed (use u n in \<open>simp_all add: t\<close>)
  qed
  ultimately show ?thesis using fw b by simp
qed

text \<open>Where a station comes to stand. \<open>None\<close>: the place asked for is refused.\<close>

definition insert_group :: "int \<Rightarrow> int \<Rightarrow> int list \<Rightarrow> int list" where
  "insert_group n k g = (if 1 \<le> k \<and> k < int (length g) then take (nat k) g @ n # drop (nat k) g else g @ [n])"

definition place_in :: "et_id \<Rightarrow> int \<Rightarrow> int \<Rightarrow> int \<Rightarrow> int list list \<Rightarrow> int list list option" where
  "place_in s n position k gs =
     (if 1 \<le> position \<and> position \<le> int (length gs) then
        let i = nat (position - 1); h = hd (gs ! i) in
        if parallel s n \<and> parallel s h \<and> k \<noteq> ET_NEWHEAD then
          if et_station_compare_parallel (sn_config (st s h)) (sn_config (st s n)) = 0 \<or> k = 0 then None
          else Some (gs[i := insert_group n k (gs ! i)])
        else Some (take i gs @ [n] # drop i gs)
      else Some (gs @ [[n]]))"

lemma seek_gap:
  assumes fw: "forward s gs"
  shows "seek_place s position 1 0 = Some (if 1 \<le> position \<and> position \<le> int (length gs)
     then (last (0 # map hd (take (nat (position - 1)) gs)), hd (gs ! nat (position - 1))) else (last (0 # map hd gs), -1))"
proof -
  have k: "known s gs" and pth: "path (nx s) (0 # map hd gs) (-1)" using fw by (simp_all add: forward_def)
  have "\<forall>x\<in>set (0 # map hd gs). valid s x"
    using known_members(2,3) [OF k] by (auto simp del: set_concat)
  note sk = seek_path [OF pth this, of position 1]
  show ?thesis
  proof (cases "1 \<le> position \<and> position \<le> int (length gs)")
    case True
    define i where "i = nat (position - 1)"
    then have i: "position = 1 + int i" "i < length gs" using True by auto
    have "(0 # map hd gs) ! i = last (0 # map hd (take i gs))"
    proof (cases i)
      case (Suc j)
      then have "take i gs = take j gs @ [gs ! j]" using i(2) by (simp add: take_Suc_conv_app_nth)
      then show ?thesis using Suc i(2) by simp
    qed simp
    then show ?thesis using sk i by simp
  next
    case False
    then show ?thesis using sk by auto
  qed
qed

lemma seek_member:
  assumes fw: "forward s gs" and g: "g \<in> set gs"
  shows "seek_parallel s k 1 (hd g) = Some (if 1 \<le> k \<and> k < int (length g)
     then (last (take (nat k) g), hd (drop (nat k) g @ [-1])) else (last g, -1))"
proof -
  have k: "known s gs" and "path (np s) g (-1)" using fw g by (simp_all add: forward_def)
  moreover obtain h hs where gd: "g = h # hs" using k g by (cases g) (auto simp: known_def)
  moreover have "\<forall>x\<in>set g. valid s x" using known_members(3) [OF k] g by auto
  ultimately have sk: "seek_parallel s k 1 h = Some (if 1 \<le> k \<and> k < 1 + int (length hs)
       then ((h # hs) ! nat (k - 1), hs ! nat (k - 1)) else (last (h # hs), -1))"
    using seek_parallel_path [of s h hs k 1] by simp
  show ?thesis
  proof (cases "1 \<le> k \<and> k < int (length g)")
    case True
    define i where "i = nat (k - 1)"
    have i: "nat k = Suc i" "i < length hs" using True by (auto simp: i_def gd)
    then have "last (take (nat k) g) = g ! i" "hd (drop (nat k) g @ [-1]) = hs ! i"
      by (auto simp: gd last_conv_nth nth_append hd_drop_conv_nth)
    then show ?thesis using sk True i(2) by (simp add: gd i_def [symmetric])
  qed (use sk in \<open>auto simp: gd\<close>)
qed

lemma insert_group_split:
  assumes "g \<noteq> []"
  obtains xs ys where "g = xs @ ys" "xs \<noteq> []" "insert_group n k g = xs @ n # ys"
    "(last xs, hd (ys @ [-1])) = (if 1 \<le> k \<and> k < int (length g)
     then (last (take (nat k) g), hd (drop (nat k) g @ [-1])) else (last g, -1))"
proof (cases "1 \<le> k \<and> k < int (length g)")
  case True
  then have "take (nat k) g \<noteq> []" using assms by auto
  then show ?thesis using True by (intro that [of "take (nat k) g" "drop (nat k) g"]) (simp_all add: insert_group_def)
next
  case False
  then show ?thesis using assms by (intro that [of g "[]"]) (auto simp: insert_group_def)
qed

lemma station_insert_sound:
  assumes c: "chained s gs" and f: "fresh s gs n" and few: "(sy_nstations (id_sys s) < 3) = (gs = [])"
  shows "sound (station_insert n position k) s
     (\<lambda>t. bare t = bare s \<and> (forward t gs \<or> (\<exists>gs'. place_in s n position k gs = Some gs' \<and> forward t gs')))
     (\<lambda>x t. case place_in s n position k gs of None \<Rightarrow> x = ET_ERROR \<and> t = s
        | Some gs' \<Rightarrow> x = ET_OK \<and> bare t = bare s \<and> chained t gs')"
proof -
  have fw: "forward s gs" and kn: "known s gs" using c by (simp_all add: chained_def forward_def)
  have spare: "spare s gs n" and vn: "valid s n" using f by (simp_all add: fresh_def spare_def)
  have at_end: "sound (insert_end n (last (0 # map hd gs))) s
     (\<lambda>t. bare t = bare s \<and> (forward t gs \<or> (\<exists>gs'. Some (gs @ [[n]]) = Some gs' \<and> forward t gs')))
     (\<lambda>x t. case Some (gs @ [[n]]) of None \<Rightarrow> x = ET_ERROR \<and> t = s
        | Some gs' \<Rightarrow> x = ET_OK \<and> bare t = bare s \<and> chained t gs')"
    using insert_end_sound [OF c f refl] by simp
  show ?thesis
  proof (cases "1 \<le> position \<and> position \<le> int (length gs)")
    case False
    then have "place_in s n position k gs = Some (gs @ [[n]])" unfolding place_in_def by (simp only: if_False)
    moreover have "seek_place s position 1 0 = Some (last (0 # map hd gs), -1)"
      using seek_gap [OF fw, of position] unfolding if_not_P [OF False] .
    moreover have "last (0 # map hd gs) = 0" if "gs = []" using that by simp
    ultimately show ?thesis using at_end few
      by (cases "gs = []") (simp_all add: station_insert_def ET_GRANDCENTRAL_def del: last.simps)
  next
    case True
    define i where "i = nat (position - 1)"
    have i: "i < length gs" and ne: "gs \<noteq> []" using True by (auto simp: i_def)
    define g where "g = gs ! i"
    define h where "h = hd g"
    define p where "p = last (0 # map hd (take i gs))"
    have g: "g \<in> set gs" "g \<noteq> []" using nth_mem [OF i] kn unfolding g_def known_def by metis+
    have h: "valid s h" "\<not> h < 0" using known_members(2) [OF kn, of g] known_members(3) [OF kn, of h] g unfolding h_def by (auto simp: valid_def)
    have sk: "seek_place s position 1 0 = Some (p, h)" using seek_gap [OF fw, of position] True by (simp add: i_def p_def h_def g_def)
    have split: "gs = take i gs @ g # drop (Suc i) gs" "drop i gs = g # drop (Suc i) gs"
      using i by (simp_all add: g_def id_take_nth_drop Cons_nth_drop_Suc)
    have st_in: "station_insert n position k = Get (\<lambda>s. if sy_nstations (id_sys s) < 3 then insert_end n ET_GRANDCENTRAL
     else ask (\<lambda>s. seek_place s position 1 ET_GRANDCENTRAL) (\<lambda>(previous, next).
       if next < 0 then insert_end n previous
       else on_st n (\<lambda>ps. on_st next (\<lambda>pnext.
         if cf_flow_mode (sn_config ps) = ET_STATION_PARALLEL \<and> cf_flow_mode (sn_config pnext) = ET_STATION_PARALLEL \<and>
           k \<noteq> ET_NEWHEAD then
           if et_station_compare_parallel (sn_config pnext) (sn_config ps) = 0 then Ret ET_ERROR
           else if k = 0 then Ret ET_ERROR
           else ask (\<lambda>s. seek_parallel s k 1 next) (\<lambda>(p, q). insert_parallel n p q)
         else insert_before n previous next))))" by (simp add: station_insert_def)
    have pl: "place_in s n position k gs = (if parallel s n \<and> parallel s h \<and> k \<noteq> ET_NEWHEAD then
          if et_station_compare_parallel (sn_config (st s h)) (sn_config (st s n)) = 0 \<or> k = 0 then None
          else Some (gs[i := insert_group n k g])
        else Some (take i gs @ [n] # drop i gs))"
      using True unfolding place_in_def Let_def i_def [symmetric] g_def [symmetric] h_def [symmetric] by simp
    have run: "sound (station_insert n position k) s I Q = sound (if parallel s n \<and> parallel s h \<and> k \<noteq> ET_NEWHEAD then
          if et_station_compare_parallel (sn_config (st s h)) (sn_config (st s n)) = 0 \<or> k = 0 then Ret ET_ERROR
          else ask (\<lambda>s. seek_parallel s k 1 h) (\<lambda>(p, q). insert_parallel n p q)
         else insert_before n p h) s I Q" for I Q
      unfolding st_in using sk h vn few ne by (cases "parallel s n \<and> parallel s h"; cases "k = 0") (auto simp: ET_GRANDCENTRAL_def parallel_def)
    show ?thesis
    proof (cases "parallel s n \<and> parallel s h \<and> k \<noteq> ET_NEWHEAD")
      case False
      have "sound (insert_before n p h) s (\<lambda>t. bare t = bare s \<and> (forward t gs \<or> forward t (take i gs @ [n] # drop i gs)))
         (\<lambda>x t. x = ET_OK \<and> bare t = bare s \<and> chained t (take i gs @ [n] # drop i gs))"
      proof -
        have e: "take i gs @ drop i gs = gs" by simp
        have "drop i gs \<noteq> []" "h = hd (hd (drop i gs))" using split(2) by (simp_all add: h_def)
        note insert_before_sound [of s "take i gs" "drop i gs", unfolded e, OF c spare this(1) p_def this(2)]
        then show ?thesis .
      qed
      then show ?thesis unfolding run pl if_not_P [OF False] by simp
    next
      case par: True
      show ?thesis
      proof (cases "et_station_compare_parallel (sn_config (st s h)) (sn_config (st s n)) = 0 \<or> k = 0")
        case True
        then show ?thesis unfolding run pl if_P [OF par] if_P [OF True] using fw by simp
      next
        case ok: False
        obtain xs ys where xy: "g = xs @ ys" "xs \<noteq> []" "insert_group n k g = xs @ n # ys"
          "(last xs, hd (ys @ [-1])) = (if 1 \<le> k \<and> k < int (length g)
            then (last (take (nat k) g), hd (drop (nat k) g @ [-1])) else (last g, -1))"
          using insert_group_split [OF g(2)] by metis
        have "seek_parallel s k 1 h = Some (last xs, hd (ys @ [-1]))" using seek_member [OF fw g(1), of k] xy(4) by (simp add: h_def)
        moreover have "gs[i := insert_group n k g] = take i gs @ (xs @ n # ys) # drop (Suc i) gs"
          using i by (simp add: upd_conv_take_nth_drop xy(3))
        moreover have "sound (insert_parallel n (last xs) (hd (ys @ [-1]))) s
            (\<lambda>t. bare t = bare s \<and> (forward t gs \<or> forward t (take i gs @ (xs @ n # ys) # drop (Suc i) gs)))
            (\<lambda>x t. x = ET_OK \<and> bare t = bare s \<and> chained t (take i gs @ (xs @ n # ys) # drop (Suc i) gs))"
          using insert_parallel_sound [of s "take i gs" xs ys "drop (Suc i) gs" n "last xs"] c f split(1) xy(1,2) par
          by (simp add: h_def)
        ultimately show ?thesis unfolding run pl if_P [OF par] if_not_P [OF ok] by simp
      qed
    qed
  qed
qed

end
