(* ===== verification/EtRepairProofs.thy ===== *)
theory EtRepairProofs
  imports EtInsertProofs
begin

text \<open>
  \<^verbatim>\<open>et_fix_linkedlist\<close> rebuilds the backward links and the tail from the forward links.
\<close>

lemma fix_group_path:
  assumes "path (np s) (p # hs) (-1)" "\<forall>x\<in>set (p # hs). valid s x \<and> sn_num (st s x) = x" "distinct (p # hs)"
  shows "\<exists>t. fix_group p s = Some t \<and> bare t = bare s \<and> id_sys t = id_sys s \<and> backs (pp t) p hs \<and> (\<forall>x\<in>set hs. pv t x = -1)
     \<and> (\<forall>x. np t x = np s x) \<and> (\<forall>x. 0 \<le> x \<longrightarrow> x \<notin> set hs \<longrightarrow> st t x = st s x)"
  using assms
proof (induction hs arbitrary: p s)
  case Nil
  then show ?case by (simp add: fix_group.simps [of p s])
next
  case (Cons h hs)
  define s1 where "s1 = upst h (\<lambda>x. x\<lparr>sn_prevparallel := p, sn_prev := -1, sn_next := -1\<rparr>) s"
  have h: "np s p = h" "h > -1" "valid s p" "valid s h" "sn_num (st s p) = p" "h \<notin> set hs" using Cons.prems by (simp_all add: valid_def)
  have run: "fix_group p s = fix_group h s1" using h by (simp add: fix_group.simps [of p s] s1_def)
  have b: "bare s1 = bare s" by (simp add: s1_def)
  have same: "np s1 x = np s x" "valid s1 x = valid s x" "sn_num (st s1 x) = sn_num (st s x)" for x by (simp_all add: s1_def)
  have "path (np s1) (h # hs) (-1)" using Cons.prems(1) path_cong [of "h # hs" "np s1" "np s"] same by simp
  then obtain t where t: "fix_group h s1 = Some t" "bare t = bare s1" "id_sys t = id_sys s1" "backs (pp t) h hs" "\<forall>x\<in>set hs. pv t x = -1"
      "\<forall>x. np t x = np s1 x" "\<And>x. 0 \<le> x \<Longrightarrow> x \<notin> set hs \<Longrightarrow> st t x = st s1 x"
    using Cons.IH [of s1 h] Cons.prems(2,3) same by auto
  have "st t h = (st s h)\<lparr>sn_prevparallel := p, sn_prev := -1, sn_next := -1\<rparr>" using t(7) [of h] h by (simp add: s1_def)
  moreover have "st t x = st s x" if "0 \<le> x" "x \<notin> set (h # hs)" for x using t(7) [of x] that h by (simp add: s1_def st_upst)
  ultimately show ?case using t(1-6) run b same by (auto simp: s1_def)
qed

lemma fix_place_group:
  assumes g: "g \<noteq> []" "path (np s) g (-1)" "\<forall>x\<in>set g. valid s x \<and> sn_num (st s x) = x" "distinct g"
    and par: "length g > 1 \<longrightarrow> (\<forall>n\<in>set g. parallel s n)"
  shows "\<exists>t. fix_place b (hd g) s = Some t \<and> bare t = bare s \<and> id_sys t = id_sys s \<and> backs (pp t) (-1) g \<and> (\<forall>x\<in>set (tl g). pv t x = -1)
     \<and> pv t (hd g) = b \<and> nx t (hd g) = nx s (hd g) \<and> (\<forall>x. 0 \<le> x \<longrightarrow> np t x = np s x) \<and> (\<forall>x. 0 \<le> x \<longrightarrow> x \<notin> set g \<longrightarrow> st t x = st s x)"
proof -
  obtain h hs where gd: "g = h # hs" using g(1) by (cases g) auto
  have h: "valid s h" "0 \<le> h" "h \<notin> set hs" using g(3,4) by (simp_all add: gd valid_def)
  define s1 where "s1 = upst h (\<lambda>x. x\<lparr>sn_prev := b\<rparr>) s"
  have c: "sn_config (st s1 x) = sn_config (st s x)" for x by (simp add: s1_def)
  have v: "valid s1 h" using h by (simp add: s1_def)
  show ?thesis
  proof (cases "parallel s h")
    case True
    define s2 where "s2 = upst h (\<lambda>x. x\<lparr>sn_prevparallel := -1\<rparr>) s1"
    have b2: "bare s2 = bare s" "id_sys s2 = id_sys s" by (simp_all add: s2_def s1_def)
    have same: "np s2 x = np s x" "valid s2 x = valid s x" "sn_num (st s2 x) = sn_num (st s x)" for x by (simp_all add: s2_def s1_def)
    have run: "fix_place b h s = fix_group h s2"
      using True h v by (simp add: fix_place_def s1_def [symmetric] s2_def [symmetric] c parallel_def)
    have "path (np s2) (h # hs) (-1)" using g(2) path_cong [of "h # hs" "np s2" "np s" "-1"] same by (simp add: gd)
    then obtain t where t: "fix_group h s2 = Some t" "bare t = bare s2" "id_sys t = id_sys s2" "backs (pp t) h hs" "\<forall>x\<in>set hs. pv t x = -1"
        "\<forall>x. np t x = np s2 x" "\<And>x. 0 \<le> x \<Longrightarrow> x \<notin> set hs \<Longrightarrow> st t x = st s2 x"
      using fix_group_path [of s2 h hs] g(3,4) same gd by auto
    have "st t h = (st s h)\<lparr>sn_prev := b, sn_prevparallel := -1\<rparr>" using t(7) [of h] h by (simp add: s2_def s1_def)
    moreover have "st t x = st s x" if "0 \<le> x" "x \<notin> set (h # hs)" for x using t(7) [of x] that h by (simp add: s2_def s1_def st_upst)
    ultimately show ?thesis using t(1-6) run b2 same by (auto simp: gd)
  next
    case False
    define t where "t = upst h (\<lambda>x. x\<lparr>sn_prevparallel := -1, sn_nextparallel := -1\<rparr>) s1"
    have hs: "hs = []" using False par by (cases hs) (auto simp: gd)
    then have "np s h = -1" using g(2) by (simp add: gd)
    moreover have "fix_place b h s = Some t"
      using False h v by (simp add: fix_place_def s1_def [symmetric] t_def [symmetric] c parallel_def)
    moreover have "bare t = bare s" "id_sys t = id_sys s" by (simp_all add: t_def s1_def)
    moreover have "st t h = (st s h)\<lparr>sn_prev := b, sn_prevparallel := -1, sn_nextparallel := -1\<rparr>" using h by (simp add: t_def s1_def)
    moreover have "st t x = st s x" if "0 \<le> x" "x \<noteq> h" for x using that h by (simp add: t_def s1_def st_upst)
    moreover have "np t x = np s x" if "0 \<le> x" for x using calculation that by (cases "x = h") simp_all
    ultimately show ?thesis by (auto simp: gd hs)
  qed
qed

definition linked :: "et_id \<Rightarrow> int list \<Rightarrow> bool" where
  "linked t g = (backs (pp t) (-1) g \<and> (\<forall>x\<in>set (tl g). pv t x = -1))"

lemma linked_same: "(\<And>x. x \<in> set g \<Longrightarrow> st t x = st s x) \<Longrightarrow> linked t g = linked s g"
  using backs_cong [of g "pp t" "pp s" "-1"] by (auto simp: linked_def dest: list.set_sel(2) [rotated]; cases g; auto)

lemma fix_places_path:
  assumes "path (nx s) (p # map hd gs) (-1)" "\<forall>g\<in>set gs. path (np s) g (-1)" "[] \<notin> set gs"
    "\<forall>x\<in>set (p # concat gs). valid s x \<and> sn_num (st s x) = x" "distinct (p # concat gs)"
    "\<forall>g\<in>set gs. length g > 1 \<longrightarrow> (\<forall>n\<in>set g. parallel s n)"
  shows "\<exists>t. fix_places p s = Some t \<and> bare t = bare s \<and> sy_stat_tail (id_sys t) = last (p # map hd gs)
     \<and> backs (pv t) p (map hd gs) \<and> (\<forall>g\<in>set gs. linked t g) \<and> (\<forall>x\<in>set (p # map hd gs). nx t x = nx s x)
     \<and> (\<forall>x. 0 \<le> x \<longrightarrow> np t x = np s x) \<and> (\<forall>x. 0 \<le> x \<longrightarrow> x \<notin> set (concat gs) \<longrightarrow> st t x = st s x)"
  using assms
proof (induction gs arbitrary: p s)
  case Nil
  then have "fix_places p s = Some (with_tail p s)" by (simp add: fix_places.simps [of p s] with_tail_def)
  then show ?case by simp
next
  case (Cons g gs)
  obtain h hs where gd: "g = h # hs" using Cons.prems(3) by (cases g) auto
  have h: "nx s p = h" "h > -1" "valid s p" "valid s h" "sn_num (st s p) = p" using Cons.prems(1,4) by (auto simp: gd valid_def)
  have "\<exists>u. fix_place p (hd g) s = Some u \<and> bare u = bare s \<and> id_sys u = id_sys s \<and> backs (pp u) (-1) g \<and> (\<forall>x\<in>set (tl g). pv u x = -1)
     \<and> pv u (hd g) = p \<and> nx u (hd g) = nx s (hd g) \<and> (\<forall>x. 0 \<le> x \<longrightarrow> np u x = np s x) \<and> (\<forall>x. 0 \<le> x \<longrightarrow> x \<notin> set g \<longrightarrow> st u x = st s x)"
    by (rule fix_place_group) (use Cons.prems in \<open>auto simp: gd\<close>)
  then obtain u where u: "fix_place p h s = Some u" "bare u = bare s" "linked u g" "pv u h = p" "nx u h = nx s h"
      "\<And>x. 0 \<le> x \<Longrightarrow> np u x = np s x" "\<And>x. 0 \<le> x \<Longrightarrow> x \<notin> set g \<Longrightarrow> st u x = st s x" by (auto simp: gd linked_def)
  have run: "fix_places p s = fix_places h u" using h u(1) by (simp add: fix_places.simps [of p s])
  have nn: "0 \<le> x" if "x \<in> set (p # concat (g # gs))" for x using Cons.prems(4) that by (auto simp: valid_def)
  have same: "valid u x = valid s x" "valid s x \<Longrightarrow> sn_num (st u x) = sn_num (st s x)" "valid s x \<Longrightarrow> parallel u x = parallel s x" for x
    using bare_same(1,2) [OF u(2), of x] by (simp, metis unlinked_keeps(1), metis unlinked_keeps(2) parallel_def)
  have dis: "set g \<inter> set (concat gs) = {}" "p \<notin> set g" "p \<notin> set (concat gs)" using Cons.prems(5) by auto
  have keep: "st u x = st s x" if "x \<in> set (concat gs)" for x using u(7) [of x] nn [of x] that dis(1) by auto
  have heads: "set (map hd gs) \<subseteq> set (concat gs)"
  proof
    fix x assume "x \<in> set (map hd gs)"
    then obtain k where k: "k \<in> set gs" "x = hd k" by auto
    then have "x \<in> set k" using Cons.prems(3) hd_in_set [of k] by (metis list.set_intros(2))
    then show "x \<in> set (concat gs)" using k(1) by auto
  qed
  have hk: "st u x = st s x" if "x \<in> set (map hd gs)" for x using keep subsetD [OF heads that] .
  have "\<exists>t. fix_places h u = Some t \<and> bare t = bare u \<and> sy_stat_tail (id_sys t) = last (h # map hd gs)
     \<and> backs (pv t) h (map hd gs) \<and> (\<forall>g\<in>set gs. linked t g) \<and> (\<forall>x\<in>set (h # map hd gs). nx t x = nx u x)
     \<and> (\<forall>x. 0 \<le> x \<longrightarrow> np t x = np u x) \<and> (\<forall>x. 0 \<le> x \<longrightarrow> x \<notin> set (concat gs) \<longrightarrow> st t x = st u x)"
  proof (rule Cons.IH)
    have "nx u x = nx s x" if "x \<in> set (h # map hd gs)" for x using that hk u(5) by auto
    then show "path (nx u) (h # map hd gs) (-1)"
      using Cons.prems(1) path_cong [of "h # map hd gs" "nx u" "nx s" "-1"] by (simp add: gd)
    show "\<forall>g\<in>set gs. path (np u) g (-1)"
    proof
      fix k assume k: "k \<in> set gs"
      then have "x \<in> set (concat gs)" if "x \<in> set k" for x using that by auto
      then have "np u x = np s x" if "x \<in> set k" for x using keep that by metis
      then show "path (np u) k (-1)" using Cons.prems(2) k path_cong [of k "np u" "np s" "-1"] by simp
    qed
    show "\<forall>x\<in>set (h # concat gs). valid u x \<and> sn_num (st u x) = x" using Cons.prems(4) same by (auto simp: gd)
    show "\<forall>g\<in>set gs. length g > 1 \<longrightarrow> (\<forall>n\<in>set g. parallel u n)"
      using Cons.prems(4,6) same(3) by fastforce
  qed (use Cons.prems(3,5) in \<open>auto simp: gd\<close>)
  then obtain t where t: "fix_places h u = Some t" "bare t = bare u" "sy_stat_tail (id_sys t) = last (h # map hd gs)"
      "backs (pv t) h (map hd gs)" "\<forall>g\<in>set gs. linked t g" "\<forall>x\<in>set (h # map hd gs). nx t x = nx u x"
      "\<And>x. 0 \<le> x \<Longrightarrow> np t x = np u x" "\<And>x. 0 \<le> x \<Longrightarrow> x \<notin> set (concat gs) \<Longrightarrow> st t x = st u x" by blast
  have tg: "st t x = st u x" if "x \<in> set (p # g)" for x
  proof -
    have "x \<notin> set (concat gs)" using that dis by auto
    then show ?thesis using t(8) [of x] nn [of x] that by auto
  qed
  have tp: "st t p = st s p" using tg [of p] u(7) [of p] nn [of p] dis(2) by simp
  have "linked t g" using u(3) linked_same [of g t u] tg by simp
  moreover have "pv t h = p" using u(4) tg [of h] by (simp add: gd)
  moreover have "nx t x = nx s x" if "x \<in> set (p # map hd (g # gs))" for x
    using that tp t(6) u(5) hk by (auto simp: gd)
  moreover have "st t x = st s x" if "0 \<le> x" "x \<notin> set (concat (g # gs))" for x using t(8) [of x] u(7) [of x] that by simp
  ultimately show ?case using run t(1-5,7) u(2,6) by (auto simp: gd)
qed

lemma et_fix_linkedlist_forward:
  assumes fw: "forward s gs"
  shows "\<exists>t. et_fix_linkedlist s = Some t \<and> bare t = bare s \<and> chained t gs"
proof -
  have k: "known s gs" and hd0: "sy_stat_head (id_sys s) = 0" using fw by (simp_all add: forward_def)
  obtain t where t: "fix_places 0 s = Some t" "bare t = bare s" "sy_stat_tail (id_sys t) = last (0 # map hd gs)"
      "backs (pv t) 0 (map hd gs)" "\<forall>g\<in>set gs. linked t g" "\<forall>x\<in>set (0 # map hd gs). nx t x = nx s x"
      "\<And>x. 0 \<le> x \<Longrightarrow> np t x = np s x"
    using fix_places_path [of s 0 gs] fw by (auto simp: forward_def known_def)
  have "forward t gs"
    by (rule forward_same [OF fw t(2)]) (use t(6,7) known_members(3) [OF k] in auto)
  then have "chained t gs" using t(3-5) by (simp add: chained_def linked_def)
  then show ?thesis using t(1,2) hd0 by (simp add: et_fix_linkedlist_def)
qed

end
