(* ===== verification/EtRemoveProofs.thy ===== *)
theory EtRemoveProofs
  imports EtRepairProofs
begin

text \<open>
  \<^verbatim>\<open>station_remove\<close> takes a station out of its place, and leaves the forward links in order wherever it is interrupted.
\<close>

section \<open>Another middle of the list\<close>

lemma forward_swap:
  assumes fw: "forward s (as @ old @ bs)" and kn: "known s (as @ ms @ bs)" and b: "bare t = bare s"
    and nxt: "path (nx t) (last (0 # map hd as) # map hd ms) (hd (map hd bs @ [-1]))"
      "\<And>x. x \<in> set (butlast (0 # map hd as)) \<union> set (map hd bs) \<Longrightarrow> nx t x = nx s x"
    and npt: "\<And>x. x \<in> set (concat (as @ bs)) \<Longrightarrow> np t x = np s x" "\<And>g. g \<in> set ms \<Longrightarrow> path (np t) g (-1)"
  shows "forward t (as @ ms @ bs)"
proof -
  have ha: "0 # map hd as = butlast (0 # map hd as) @ [last (0 # map hd as)]" by (rule append_butlast_last_id [symmetric]) simp
  have o: "path (nx s) ((0 # map hd as) @ map hd old @ map hd bs) (-1)" using fw by (simp add: forward_def)
  have "path (nx s) (butlast (0 # map hd as)) (last (0 # map hd as))"
    using o by (subst (asm) ha) (simp only: append_assoc path_append append_Cons append_Nil list.sel)
  then have "path (nx t) (butlast (0 # map hd as)) (last (0 # map hd as))"
    using nxt(2) path_cong [of "butlast (0 # map hd as)" "nx t" "nx s"] by blast
  moreover have "path (nx t) (map hd bs) (-1)"
    using o nxt(2) path_cong [of "map hd bs" "nx t" "nx s"] by (simp only: path_append) simp
  then have "path (nx t) ((last (0 # map hd as) # map hd ms) @ map hd bs) (-1)" using nxt(1) by (subst path_append) blast
  ultimately have "path (nx t) (butlast (0 # map hd as) @ (last (0 # map hd as) # map hd ms) @ map hd bs) (-1)"
    by (subst path_append) simp
  moreover have "butlast (0 # map hd as) @ (last (0 # map hd as) # map hd ms) @ map hd bs = 0 # map hd (as @ ms @ bs)"
    using ha by (metis append.assoc append_Cons append_Nil map_append)
  ultimately have "path (nx t) (0 # map hd (as @ ms @ bs)) (-1)" by (simp only:)
  moreover have "path (np t) g (-1)" if "g \<in> set (as @ bs)" for g
    using fw npt(1) that path_cong [of g "np t" "np s" "-1"] by (auto simp: forward_def)
  ultimately show ?thesis using fw npt(2) known_bare [OF kn b] bare_same(3) [OF b] unfolding forward_def by auto
qed

lemma chained_swap:
  assumes c: "chained s (as @ old @ bs)" and fw: "forward t (as @ ms @ bs)"
    and pvt: "backs (pv t) (last (0 # map hd as)) (map hd ms)" "bs \<noteq> [] \<Longrightarrow> pv t (hd (hd bs)) = last (0 # map hd (as @ ms))"
      "\<And>x. x \<in> set (concat (as @ bs)) \<Longrightarrow> bs = [] \<or> x \<noteq> hd (hd bs) \<Longrightarrow> pv t x = pv s x"
    and ppt: "\<And>x. x \<in> set (concat (as @ bs)) \<Longrightarrow> pp t x = pp s x" "\<And>g. g \<in> set ms \<Longrightarrow> linked t g"
    and tail: "sy_stat_tail (id_sys t) = (if bs = [] then last (0 # map hd (as @ ms)) else sy_stat_tail (id_sys s))"
  shows "chained t (as @ ms @ bs)"
proof -
  have k: "known s (as @ old @ bs)" using c by (simp add: chained_def forward_def)
  then have ne: "g \<noteq> []" if "g \<in> set (as @ bs)" for g using that by (auto simp: known_def)
  have dis: "distinct (concat as @ concat bs)" using k by (auto simp: known_def)
  have parts: "hd g \<in> set g \<and> set (tl g) \<subseteq> set g" if "g \<in> set (as @ bs)" for g using ne [OF that] by (cases g) auto
  have same: "pv t x = pv s x"
    if x: "x \<in> set (map hd as) \<union> set (tl (map hd bs)) \<union> (\<Union>g\<in>set (as @ bs). set (tl g))" for x
  proof (rule pvt(3))
    have "set (tl (map hd bs)) \<subseteq> hd ` set bs" by (cases bs) auto
    then show m: "x \<in> set (concat (as @ bs))" using x parts by fastforce
    show "bs = [] \<or> x \<noteq> hd (hd bs)"
    proof (cases bs)
      case (Cons h bs')
      then obtain y ys where h: "h = y # ys" using ne [of h] by (cases h) auto
      have "x \<in> set (concat as) \<union> set ys \<union> set (concat bs')" using x parts unfolding Cons h by fastforce
      then show ?thesis using dis unfolding Cons h by auto
    qed simp
  qed
  have bp: "backs (pv s) 0 (map hd as)" "backs (pv s) (last (0 # map hd (as @ old))) (map hd bs)"
    using c unfolding chained_def append_assoc [symmetric] map_append [where xs = "as @ old"] backs_append [where xs = "map hd (as @ old)"]
    by (simp_all add: map_append del: last.simps)
  have "backs (pv t) 0 (map hd as)" using bp(1) backs_cong [of "map hd as" "pv t" "pv s" 0, OF same] by simp
  moreover have "backs (pv t) (last (0 # map hd (as @ ms))) (map hd bs)"
    by (rule backs_redirect [OF bp(2)]) (use pvt(2) same in \<open>auto simp: hd_map\<close>)
  moreover have "last (0 # map hd (as @ ms)) = last (last (0 # map hd as) # map hd ms)" by (simp add: last_append)
  ultimately have "backs (pv t) 0 (map hd as @ map hd ms @ map hd bs)" using pvt(1) by (simp only: backs_append)
  moreover have "linked t g" if g: "g \<in> set (as @ bs)" for g
  proof -
    have "linked s g" using c g by (auto simp: chained_def linked_def)
    moreover have "pv t x = pv s x" if "x \<in> set (tl g)" for x using same [of x] that g by blast
    moreover have "pp t x = pp s x" if "x \<in> set g" for x using ppt(1) [of x] that g by auto
    ultimately show ?thesis using backs_cong [of g "pp t" "pp s" "-1"] by (auto simp: linked_def)
  qed
  moreover have "sy_stat_tail (id_sys t) = last (0 # map hd (as @ ms @ bs))"
  proof (cases bs rule: rev_cases)
    case (snoc bs' h)
    then show ?thesis using tail c by (simp add: chained_def)
  qed (use tail in simp)
  ultimately show ?thesis using fw ppt(2) by (auto simp: chained_def linked_def [symmetric])
qed

section \<open>Removal\<close>

text \<open>The links at a place of the list.\<close>

lemma chained_at:
  assumes c: "chained s (as @ g # bs)"
  defines "p \<equiv> last (0 # map hd as)" and "q \<equiv> hd (map hd bs @ [-1])"
  shows "pv s (hd g) = p" "nx s (hd g) = q" "(sy_stat_tail (id_sys s) = hd g) = (bs = [])"
    "p \<in> set (0 # concat as)" "bs \<noteq> [] \<Longrightarrow> q = hd (hd bs) \<and> q \<in> set (concat bs)"
    "x \<in> set (0 # concat (as @ g # bs)) \<Longrightarrow> valid s x \<and> sn_num (st s x) = x \<and> 0 \<le> x"
    "hd g \<in> set g" "distinct ((0 # concat as) @ g @ concat bs)"
    "set (butlast (0 # map hd as)) \<union> set (map hd bs) \<subseteq> set (0 # concat (as @ bs)) - {p}"
proof -
  let ?gs = "as @ g # bs"
  have k: "known s ?gs" using c by (simp add: chained_def forward_def)
  note m = known_members [OF k]
  have ka: "known s as" "known s bs" using k by (auto simp: known_def)
  have bp: "backs (pv s) 0 (map hd as @ hd g # map hd bs)" using c by (simp add: chained_def del: backs_append)
  show "pv s (hd g) = p" using bp unfolding p_def by (simp only: backs_append backs.simps)
  have "path (nx s) ((0 # map hd as) @ [hd g] @ map hd bs) (-1)" using c by (simp add: chained_def forward_def)
  then show "nx s (hd g) = q" unfolding q_def by simp
  have "distinct ((0 # map hd as) @ hd g # map hd bs)" using heads_distinct [OF k] by simp
  then have "last (map hd bs) \<noteq> hd g" if "bs \<noteq> []" using last_in_set [of "map hd bs"] that by auto
  then show "(sy_stat_tail (id_sys s) = hd g) = (bs = [])" using c by (cases "bs = []") (simp_all add: chained_def)
  show "p \<in> set (0 # concat as)" using known_members(1) [OF ka(1)] by (simp only: p_def)
  show "q = hd (hd bs) \<and> q \<in> set (concat bs)" if "bs \<noteq> []"
    using that known_members(2) [OF ka(2), of "hd bs"] by (cases bs) (auto simp: q_def)
  show "valid s x \<and> sn_num (st s x) = x \<and> 0 \<le> x" if "x \<in> set (0 # concat ?gs)" using m(3) [OF that] .
  show "hd g \<in> set g" using k by (intro hd_in_set) (auto simp: known_def)
  show d: "distinct ((0 # concat as) @ g @ concat bs)" using k by (simp add: known_def)
  have h: "set (map hd as) \<subseteq> set (concat as)" "set (map hd bs) \<subseteq> set (concat bs)"
    using known_members(2) [OF ka(1)] known_members(2) [OF ka(2)] by auto
  have "p \<notin> set (butlast (0 # map hd as))" unfolding p_def by (rule last_head [OF ka(1)])
  moreover have "p \<notin> set (concat bs)" using d \<open>p \<in> set (0 # concat as)\<close> by auto
  moreover have "set (butlast (0 # map hd as)) \<subseteq> set (0 # concat as)"
  proof
    fix x assume "x \<in> set (butlast (0 # map hd as))"
    then have "x \<in> set (0 # map hd as)" by (rule in_set_butlastD)
    then show "x \<in> set (0 # concat as)" using h(1) by (auto simp del: set_concat)
  qed
  ultimately show "set (butlast (0 # map hd as)) \<union> set (map hd bs) \<subseteq> set (0 # concat (as @ bs)) - {p}"
    using h(2) by (auto simp del: butlast.simps)
qed

lemma remove_single_sound:
  assumes c: "chained s (as @ [n] # bs)"
  shows "sound (remove_single n) s (\<lambda>t. bare t = bare s \<and> (forward t (as @ [n] # bs) \<or> forward t (as @ bs)))
     (\<lambda>x t. bare t = bare s \<and> chained t (as @ bs) \<and> st t n = st s n)"
proof -
  let ?gs = "as @ [n] # bs"
  define p where "p = last (0 # map hd as)"
  define q where "q = hd (map hd bs @ [-1])"
  have fw: "forward s ?gs" and k: "known s ?gs" using c by (simp_all add: chained_def forward_def)
  note at = chained_at [OF c, unfolded list.sel, folded p_def q_def]
  have ps: "p \<in> set (0 # concat ?gs)" using at(4) by auto
  have p: "valid s p" "sn_num (st s p) = p" "0 \<le> p" "p \<noteq> n" "n \<noteq> p" using at(6) [OF ps] at(4,8) by auto
  have n: "valid s n" "0 \<le> n" using at(6) [of n] by auto
  have q: "valid s q" "0 \<le> q" "q \<noteq> n" "n \<noteq> q" "q \<noteq> p" "p \<noteq> q" if "bs \<noteq> []"
    using at(6) [of q] at(5) [OF that] at(4,8) by auto
  define t1 where "t1 = (if bs = [] then with_tail p s else upst q (\<lambda>x. x\<lparr>sn_prev := p\<rparr>) s)"
  define t2 where "t2 = upst p (\<lambda>x. x\<lparr>sn_next := q\<rparr>) t1"
  note t = t1_def t2_def
  have b: "bare t1 = bare s" "bare t2 = bare s" by (simp_all add: t)
  have same: "nx t1 x = nx s x" "np t1 x = np s x" "np t2 x = np s x" "pp t2 x = pp s x" "pv t2 x = pv t1 x" for x by (simp_all add: t)
  have u: "nx t2 x = (if x = p then q else nx s x)" "pv t2 x = (if bs \<noteq> [] \<and> x = q then p else pv s x)" if "0 \<le> x" for x
    using that p q by (simp_all add: t st_upst)
  have "sound (remove_single n) s I Q = (I s \<and> I t1 \<and> I t2 \<and> Q () t2)" for I Q
  proof (cases "bs = []")
    case True
    then show ?thesis using p n at(1-3) unfolding remove_single_def by (simp add: t is_tail_def Let_def)
  next
    case False
    then show ?thesis using p n q [OF False] at(1-3) unfolding remove_single_def by (simp add: t is_tail_def Let_def)
  qed
  moreover have "forward t1 ?gs" by (rule forward_same [OF fw b(1)]) (simp_all add: same)
  moreover have F: "forward t2 (as @ [] @ bs)"
  proof (rule forward_swap [of s as "[[n]]" bs])
    show "known s (as @ [] @ bs)" using k by (auto simp: known_def)
    show "nx t2 x = nx s x" if "x \<in> set (butlast (0 # map hd as)) \<union> set (map hd bs)" for x
      using subsetD [OF at(9) that] u(1) [of x] at(6) [of x] by auto
    show "path (nx t2) (last (0 # map hd as) # map hd []) (hd (map hd bs @ [-1]))"
      using u(1) [OF p(3)] by (simp only: list.map path.simps append_Nil list.sel p_def [symmetric] q_def [symmetric] if_True simp_thms)
  qed (use fw b(2) same in simp_all)
  moreover have "chained t2 (as @ [] @ bs)"
  proof (rule chained_swap [of s as "[[n]]" bs, OF _ F])
    show "pv t2 x = pv s x" if "x \<in> set (concat (as @ bs))" "bs = [] \<or> x \<noteq> hd (hd bs)" for x
      using u(2) [of x] at(5) at(6) [of x] that by auto
    show "pv t2 (hd (hd bs)) = last (0 # map hd (as @ []))" if "bs \<noteq> []"
      using u(2) [of q] q(2) [OF that] at(5) [OF that] that p_def by simp
    show "sy_stat_tail (id_sys t2) = (if bs = [] then last (0 # map hd (as @ [])) else sy_stat_tail (id_sys s))"
      by (simp add: t p_def)
  qed (use c same in simp_all)
  moreover have "st t2 n = st s n" using p n q by (simp add: t)
  ultimately show ?thesis using fw b by simp
qed

lemma remove_head_sound:
  assumes c: "chained s (as @ (n # q # ys) # bs)"
  shows "sound (remove_head n) s (\<lambda>t. bare t = bare s \<and> (forward t (as @ (n # q # ys) # bs) \<or> forward t (as @ (q # ys) # bs)))
     (\<lambda>x t. bare t = bare s \<and> chained t (as @ (q # ys) # bs))"
proof -
  let ?gs = "as @ (n # q # ys) # bs"
  define p where "p = last (0 # map hd as)"
  define r where "r = hd (map hd bs @ [-1])"
  have fw: "forward s ?gs" and k: "known s ?gs" using c by (simp_all add: chained_def forward_def)
  note at = chained_at [OF c, unfolded list.sel, folded p_def r_def]
  have ps: "p \<in> set (0 # concat ?gs)" using at(4) by auto
  have p: "valid s p" "sn_num (st s p) = p" "0 \<le> p" "p \<noteq> n" "n \<noteq> p" "p \<noteq> q" "q \<noteq> p" using at(6) [OF ps] at(4,8) by auto
  have n: "valid s n" "0 \<le> n" using at(6) [of n] by auto
  have q: "valid s q" "sn_num (st s q) = q" "0 \<le> q" "q \<noteq> n" "n \<noteq> q" using at(6) [of q] at(8) by auto
  have r: "valid s r \<and> 0 \<le> r \<and> r \<noteq> n \<and> n \<noteq> r \<and> r \<noteq> p \<and> p \<noteq> r \<and> r \<noteq> q \<and> q \<noteq> r" if "bs \<noteq> []"
    using at(6) [of r] at(5) [OF that] at(4,8) by auto
  have npq: "np s n = q" using fw by (simp add: forward_def)
  define t1 where "t1 = upst q (\<lambda>x. x\<lparr>sn_prev := p\<rparr>) s"
  define t2 where "t2 = upst q (\<lambda>x. x\<lparr>sn_next := r\<rparr>) t1"
  define t3 where "t3 = upst q (\<lambda>x. x\<lparr>sn_prevparallel := -1\<rparr>) t2"
  define t4 where "t4 = (if bs = [] then with_tail q t3 else upst r (\<lambda>x. x\<lparr>sn_prev := q\<rparr>) t3)"
  define t5 where "t5 = upst p (\<lambda>x. x\<lparr>sn_next := q\<rparr>) t4"
  note t = t1_def t2_def t3_def t4_def t5_def
  have b: "bare t1 = bare s" "bare t2 = bare s" "bare t3 = bare s" "bare t4 = bare s" "bare t5 = bare s" by (simp_all add: t)
  have same: "nx t1 x = nx s x" "nx t3 x = nx t2 x" "nx t4 x = nx t2 x" "np t1 x = np s x" "np t2 x = np s x"
      "np t3 x = np s x" "np t4 x = np s x" "np t5 x = np s x" for x by (simp_all add: t)
  have v: "valid t1 x = valid s x" "valid t2 x = valid s x" "valid t3 x = valid s x" "valid t4 x = valid s x" for x by (simp_all add: t)
  have u2: "nx t2 x = (if x = q then r else nx s x)" if "0 \<le> x" for x
    using that q v same(1) unfolding t2_def by (simp add: st_upst)
  have u: "nx t5 x = (if x = p then q else if x = q then r else nx s x)" "pp t5 x = (if x = q then -1 else pp s x)"
      "pv t5 x = (if bs \<noteq> [] \<and> x = r then q else if x = q then p else pv s x)" if "0 \<le> x" for x
  proof -
    have "nx t5 x = (if x = p then q else nx t4 x)" unfolding t5_def using that p v by (simp add: st_upst)
    then show "nx t5 x = (if x = p then q else if x = q then r else nx s x)" using same(3) u2 [OF that] by simp
    have "pp t5 x = pp t3 x" "pp t2 x = pp s x" by (simp_all add: t)
    moreover have "pp t3 x = (if x = q then -1 else pp t2 x)" unfolding t3_def using that q v by (simp add: st_upst)
    ultimately show "pp t5 x = (if x = q then -1 else pp s x)" by simp
    have "pv t5 x = pv t4 x" "pv t3 x = pv t1 x" by (simp_all add: t)
    moreover have "pv t1 x = (if x = q then p else pv s x)" unfolding t1_def using that q by (simp add: st_upst)
    moreover have "pv t4 x = (if bs \<noteq> [] \<and> x = r then q else pv t3 x)" unfolding t4_def using that r v by (simp add: st_upst)
    ultimately show "pv t5 x = (if bs \<noteq> [] \<and> x = r then q else if x = q then p else pv s x)" by simp
  qed
  have run: "sound (remove_head n) s I Q = (I s \<and> I t1 \<and> I t2 \<and> I t3 \<and> I t4 \<and> I t5 \<and> Q () t5)" for I Q
  proof (cases "bs = []")
    case True
    then show ?thesis using p n q at(1-3) npq unfolding remove_head_def by (simp add: t is_tail_def Let_def)
  next
    case False
    then show ?thesis using p n q r at(1-3) npq unfolding remove_head_def by (simp add: t is_tail_def Let_def)
  qed
  have keep: "forward ti ?gs" if "bare ti = bare s" "\<And>x. nx ti x = nx t2 x" "\<And>x. np ti x = np s x" for ti
  proof (rule forward_same [OF fw that(1)])
    show "nx ti x = nx s x" if "x \<in> set (0 # map hd ?gs)" for x
    proof -
      have "x \<in> set (0 # map hd as) \<union> {n} \<union> set (map hd bs)" using that by auto
      moreover have "known s as" "known s bs" using k by (auto simp: known_def)
      ultimately have x: "x \<in> set (0 # concat as) \<union> {n} \<union> set (concat bs)"
        using known_members(2) [of s as] known_members(2) [of s bs] by (auto simp del: set_concat)
      then have "x \<noteq> q" "x \<in> set (0 # concat ?gs)" using at(8) by auto
      then show ?thesis using u2 [of x] at(6) [of x] \<open>\<And>x. nx ti x = nx t2 x\<close> by simp
    qed
  qed (use that(3) in simp)
  have fws: "forward t1 ?gs" "forward t2 ?gs" "forward t3 ?gs" "forward t4 ?gs"
    using keep [OF b(2)] keep [OF b(3)] keep [OF b(4)] same forward_same [OF fw b(1)] by simp_all
  have F: "forward t5 (as @ [q # ys] @ bs)"
  proof (rule forward_swap [of s as "[n # q # ys]" bs])
    show "known s (as @ [q # ys] @ bs)" using k by (auto simp: known_def)
    show "nx t5 x = nx s x" if "x \<in> set (butlast (0 # map hd as)) \<union> set (map hd bs)" for x
    proof -
      have "x \<in> set (0 # concat (as @ bs))" "x \<noteq> p" using subsetD [OF at(9) that] by auto
      moreover from this have "x \<noteq> q" "x \<in> set (0 # concat ?gs)" using at(8) by auto
      ultimately show ?thesis using u(1) [of x] at(6) [of x] by simp
    qed
    show "path (nx t5) (last (0 # map hd as) # map hd [q # ys]) (hd (map hd bs @ [-1]))"
      unfolding p_def [symmetric] r_def [symmetric] using u(1) [OF p(3)] u(1) [OF q(3)] p(7) by simp
  qed (use fw b(5) same in \<open>auto simp: forward_def\<close>)
  moreover have "chained t5 (as @ [q # ys] @ bs)"
  proof (rule chained_swap [of s as "[n # q # ys]" bs, OF _ F])
    have inb: "x \<noteq> q" if "x \<in> set (concat (as @ bs))" for x using at(8) that by auto
    have nn: "0 \<le> x" if "x \<in> set (concat (as @ bs)) \<union> set ys" for x
    proof -
      have "x \<in> set (0 # concat ?gs)" using that by auto
      then show ?thesis using at(6) by blast
    qed
    show "pv t5 x = pv s x" if "x \<in> set (concat (as @ bs))" "bs = [] \<or> x \<noteq> hd (hd bs)" for x
    proof -
      have "0 \<le> x" "x \<noteq> q" using nn [OF UnI1] inb that(1) by blast+
      moreover have "\<not> (bs \<noteq> [] \<and> x = r)" using that(2) at(5) by blast
      ultimately show ?thesis using u(3) [of x] by (simp only: if_False simp_thms)
    qed
    show "pp t5 x = pp s x" if "x \<in> set (concat (as @ bs))" for x using u(2) [OF nn [OF UnI1 [OF that]]] inb [OF that] by simp
    show "pv t5 (hd (hd bs)) = last (0 # map hd (as @ [q # ys]))" if "bs \<noteq> []"
      using u(3) [of r] r that at(5) [OF that] by simp
    show "backs (pv t5) (last (0 # map hd as)) (map hd [q # ys])"
      using u(3) [OF q(3)] r q(4) by (auto simp: p_def)
    show "sy_stat_tail (id_sys t5) = (if bs = [] then last (0 # map hd (as @ [q # ys])) else sy_stat_tail (id_sys s))"
      by (simp add: t)
    show "linked t5 g" if "g \<in> set [q # ys]" for g
    proof -
      have l: "backs (pp s) q ys" "\<forall>x\<in>set ys. pv s x = -1" using c by (simp_all add: chained_def)
      have d: "x \<noteq> q \<and> (bs \<noteq> [] \<longrightarrow> x \<noteq> r)" if "x \<in> set ys" for x using at(5,8) that by auto
      have "pp t5 x = pp s x \<and> pv t5 x = pv s x" if "x \<in> set ys" for x using u(2,3) [of x] nn [of x] d [OF that] that by auto
      then show ?thesis using l that u(2) [OF q(3)] backs_cong [of ys "pp t5" "pp s" q] by (auto simp: linked_def)
    qed
  qed (use c in simp)
  ultimately show ?thesis using fw b fws unfolding run by simp
qed

lemma remove_member_sound:
  assumes c: "chained s (as @ (xs @ n # ys) # bs)" and xs: "xs \<noteq> []"
  shows "sound (remove_member n) s (\<lambda>t. bare t = bare s \<and> (forward t (as @ (xs @ n # ys) # bs) \<or> forward t (as @ (xs @ ys) # bs)))
     (\<lambda>x t. bare t = bare s \<and> chained t (as @ (xs @ ys) # bs))"
proof -
  let ?gs = "as @ (xs @ n # ys) # bs"
  define p where "p = last xs"
  define q where "q = hd (ys @ [-1])"
  have fw: "forward s ?gs" and k: "known s ?gs" using c by (simp_all add: chained_def forward_def)
  have d: "distinct ((0 # concat as) @ (xs @ n # ys) @ concat bs)" using k by (simp add: known_def)
  have v: "valid s x \<and> sn_num (st s x) = x \<and> 0 \<le> x" if "x \<in> set (0 # concat ?gs)" for x using known_members(3) [OF k that] .
  have pin: "p \<in> set xs" using xs by (simp add: p_def)
  have p: "valid s p" "sn_num (st s p) = p" "0 \<le> p" "p \<noteq> n" "n \<noteq> p" using v [of p] pin d by auto
  have n: "valid s n" "0 \<le> n" using v [of n] by auto
  have q: "valid s q \<and> 0 \<le> q \<and> q \<noteq> n \<and> n \<noteq> q \<and> q \<noteq> p \<and> p \<noteq> q" if "ys \<noteq> []"
    using v [of q] pin d that by (cases ys) (auto simp: q_def)
  have links: "pp s n = p" "np s n = q" using c xs by (simp_all add: chained_def forward_def p_def q_def)
  define t1 where "t1 = (if ys = [] then s else upst q (\<lambda>x. x\<lparr>sn_prevparallel := p\<rparr>) s)"
  define t2 where "t2 = upst p (\<lambda>x. x\<lparr>sn_nextparallel := q\<rparr>) t1"
  define t3 where "t3 = (if sn_waslast (st s n) = 1 then upst p (\<lambda>x. x\<lparr>sn_waslast := 1\<rparr>) t2 else t2)"
  note t = t1_def t2_def t3_def
  have b: "bare t1 = bare s" "bare t2 = bare s" "bare t3 = bare s" by (simp_all add: t)
  have same: "nx t1 x = nx s x" "nx t2 x = nx s x" "nx t3 x = nx s x" "np t1 x = np s x" "np t3 x = np t2 x" "pv t3 x = pv s x"
      "pp t3 x = pp t1 x" for x by (simp_all add: t)
  have u: "np t2 x = (if x = p then q else np s x)" "pp t3 x = (if ys \<noteq> [] \<and> x = q then p else pp s x)" if "0 \<le> x" for x
    using that p q by (cases "ys = []"; simp add: t st_upst)+
  have run: "sound (remove_member n) s I Q = (I s \<and> I t1 \<and> I t2 \<and> (sn_waslast (st s n) = 1 \<longrightarrow> I t3) \<and> Q () t3)"
    if "I s" "I t1" "I t2" for I Q
  proof (cases "ys = []")
    case True
    then have "\<not> q > -1" by (simp add: q_def)
    then show ?thesis using True p n links that unfolding remove_member_def by (simp add: t Let_def)
  next
    case False
    have "q > -1" using q [OF False] by simp
    then show ?thesis using False p n q [OF False] links that unfolding remove_member_def by (simp add: t Let_def)
  qed
  have f1: "forward t1 ?gs" by (rule forward_same [OF fw b(1)]) (simp_all add: same)
  have F: "forward ti (as @ [xs @ ys] @ bs)" if "bare ti = bare s" "\<And>x. nx ti x = nx s x" "\<And>x. np ti x = np t2 x" for ti
  proof (rule forward_swap [of s as "[xs @ n # ys]" bs])
    show "known s (as @ [xs @ ys] @ bs)" using k xs by (auto simp: known_def)
    show "path (nx ti) (last (0 # map hd as) # map hd [xs @ ys]) (hd (map hd bs @ [-1]))"
    proof -
      have "path (nx s) ((0 # map hd as) @ [hd xs] @ map hd bs) (-1)" using fw xs by (simp add: forward_def)
      then have "path (nx s) (0 # map hd as) (hd xs)" "path (nx s) [hd xs] (hd (map hd bs @ [-1]))"
        unfolding path_append by simp_all
      moreover have "path (nx s) [last (0 # map hd as)] (hd xs)"
        using calculation(1) append_butlast_last_id [of "0 # map hd as"] path_append [of "nx s" "butlast (0 # map hd as)" "[last (0 # map hd as)]" "hd xs"]
        by (metis list.distinct(1))
      ultimately show ?thesis using \<open>\<And>x. nx ti x = nx s x\<close> xs by simp
    qed
    have nq: "np ti x = np s x" if "x \<in> set (0 # concat ?gs)" "x \<noteq> p" for x
      using u(1) [of x] v [OF that(1)] that(2) \<open>\<And>x. np ti x = np t2 x\<close> by simp
    show "np ti x = np s x" if "x \<in> set (concat (as @ bs))" for x
    proof (rule nq)
      show "x \<noteq> p" using pin d that by auto
      show "x \<in> set (0 # concat ?gs)" using that by auto
    qed
    show "path (np ti) g (-1)" if "g \<in> set [xs @ ys]" for g
    proof -
      have "path (np s) (xs @ n # ys) (-1)" using fw by (simp add: forward_def)
      then have o: "path (np s) xs n" "path (np s) ys (-1)" by simp_all
      have "distinct (butlast xs @ [p])" using d xs by (simp add: p_def del: distinct_append) (simp add: distinct_append)
      then have pb: "p \<notin> set (butlast xs)" "p \<notin> set ys" using d pin by auto
      have "path (np ti) xs q"
        by (rule path_redirect [OF o(1) xs]) (use nq u(1) [of p] p pb(1) in_set_butlastD [of _ xs] \<open>\<And>x. np ti x = np t2 x\<close> in \<open>auto simp: p_def [symmetric]\<close>)
      moreover have "path (np ti) ys (-1)" using o(2) path_cong [of ys "np ti" "np s" "-1"] nq pb(2) by auto
      ultimately show ?thesis using that by (simp add: q_def)
    qed
  qed (use fw that(1,2) in simp_all)
  have "chained t3 (as @ [xs @ ys] @ bs)"
  proof (rule chained_swap [of s as "[xs @ n # ys]" bs])
    have bp: "backs (pv s) 0 (map hd as @ hd xs # map hd bs)" using c xs by (simp add: chained_def del: backs_append)
    show "backs (pv t3) (last (0 # map hd as)) (map hd [xs @ ys])" using bp same xs unfolding backs_append by simp
    show "pv t3 (hd (hd bs)) = last (0 # map hd (as @ [xs @ ys]))" if "bs \<noteq> []"
      using bp that same xs unfolding backs_append by (cases bs) auto
    show "pp t3 x = pp s x" if "x \<in> set (concat (as @ bs))" for x
    proof -
      have "ys \<noteq> [] \<Longrightarrow> q \<in> set ys" by (cases ys) (simp_all add: q_def)
      then have "ys \<noteq> [] \<longrightarrow> x \<noteq> q" using d that by auto
      moreover have "x \<in> set (0 # concat ?gs)" using that by auto
      ultimately show ?thesis using u(2) [of x] v [of x] by (auto simp only: if_False if_True simp_thms)
    qed
    show "linked t3 g" if "g \<in> set [xs @ ys]" for g
    proof -
      have l: "backs (pp s) (-1) xs" "backs (pp s) n ys" "\<forall>x\<in>set (tl xs) \<union> set ys. pv s x = -1"
        using c xs by (auto simp: chained_def)
      have nn: "0 \<le> x" if "x \<in> set xs \<union> set ys" for x using v [of x] that by auto
      have "ys \<noteq> [] \<longrightarrow> x \<noteq> q" if "x \<in> set xs \<union> set (tl ys)" for x using d that by (cases ys) (auto simp: q_def)
      then have pe: "pp t3 x = pp s x" if "x \<in> set xs \<union> set (tl ys)" for x
        using u(2) [OF nn] that list.set_sel(2) [of ys x] by (cases ys) auto
      have "backs (pp t3) p ys"
      proof (rule backs_redirect [OF l(2)])
        show "pp t3 (hd ys) = p" if "ys \<noteq> []" using u(2) [of q] q [OF that] that by (simp add: q_def)
      qed (use pe in blast)
      moreover have "backs (pp t3) (-1) xs" using l(1) pe backs_cong [of xs "pp t3" "pp s" "-1"] by blast
      ultimately show ?thesis using that l(3) same xs by (auto simp: linked_def p_def)
    qed
    show "sy_stat_tail (id_sys t3) = (if bs = [] then last (0 # map hd (as @ [xs @ ys])) else sy_stat_tail (id_sys s))"
      using c xs by (simp add: t chained_def)
  qed (use c F [OF b(3)] same in simp_all)
  moreover have "forward t2 (as @ [xs @ ys] @ bs)" "forward t3 (as @ [xs @ ys] @ bs)" using F [OF b(2)] F [OF b(3)] same by simp_all
  ultimately show ?thesis using fw b f1 by (subst run) simp_all
qed

end
