(* ===== verification/EtOrder.thy ===== *)
theory EtOrder
  imports EtRemoveProofs
begin

text \<open>
  What the order of the stations promises: a station comes to the place asked for and leaves it again, a search
  tells its place, and a process that dies in an insertion or a removal leaves a list that
  \<^verbatim>\<open>et_fix_linkedlist\<close> completes to the order before or after it.
\<close>

section \<open>Removal of any station\<close>

definition removed :: "int \<Rightarrow> int list list \<Rightarrow> int list list" where
  "removed n gs = filter (\<lambda>g. g \<noteq> []) (map (removeAll n) gs)"

lemma removed_append [simp]: "removed n (gs @ hs) = removed n gs @ removed n hs"
  by (simp add: removed_def)

lemma removed_Cons: "removed n (g # gs) = (if removeAll n g = [] then removed n gs else removeAll n g # removed n gs)"
  by (simp add: removed_def)

lemma removed_other: "[] \<notin> set gs \<Longrightarrow> n \<notin> set (concat gs) \<Longrightarrow> removed n gs = gs"
  by (induction gs) (auto simp: removed_Cons removed_def)

lemma station_remove_sound:
  assumes c: "chained s gs" and n: "n \<in> set (concat gs)"
  shows "sound (station_remove n) s (\<lambda>t. bare t = bare s \<and> (forward t gs \<or> forward t (removed n gs)))
     (\<lambda>x t. bare t = bare s \<and> chained t (removed n gs))"
proof -
  obtain g where "g \<in> set gs" and ng: "n \<in> set g" using n by auto
  then obtain as bs where gs: "gs = as @ g # bs" using split_list by metis
  obtain xs ys where g: "g = xs @ n # ys" using ng split_list by metis
  have k: "known s gs" using c by (simp add: chained_def forward_def)
  have d: "distinct (concat as @ (xs @ n # ys) @ concat bs)" "[] \<notin> set as" "[] \<notin> set bs"
    using k unfolding gs g by (simp_all add: known_def)
  have "removeAll n xs = xs" "removeAll n ys = ys" using d(1) by (simp_all add: removeAll_id)
  moreover have "removed n as = as" "removed n bs = bs" using d by (auto intro!: removed_other)
  ultimately have r: "removed n gs = as @ (if xs @ ys = [] then [] else [xs @ ys]) @ bs" unfolding gs g by (simp add: removed_Cons)
  have v: "valid s n" using known_members(3) [OF k, of n] n by simp
  show ?thesis
  proof (cases "xs = []")
    case False
    have cg: "chained s (as @ (xs @ n # ys) # bs)" using c unfolding gs g .
    have par: "cf_flow_mode (sn_config (st s n)) = ET_STATION_PARALLEL"
      using k False unfolding gs g known_def parallel_def by (cases xs) auto
    have "pv s n = -1" using cg False by (auto simp: chained_def)
    then have "sound (station_remove n) s I Q = sound (remove_member n) s I Q" for I Q
      using v par unfolding station_remove_def by simp
    then show ?thesis using remove_member_sound [OF cg False] False unfolding r unfolding gs g by simp
  next
    case True
    have cg: "chained s (as @ (n # ys) # bs)" using c unfolding gs g True by simp
    have "last (0 # map hd as) \<in> set (0 # concat (as @ (n # ys) # bs))" using chained_at(4) [OF cg] by auto
    then have "0 \<le> pv s n" using chained_at(1) [OF cg] chained_at(6) [OF cg] by (simp del: last.simps)
    moreover have "np s n = hd (ys @ [-1])" using cg by (auto simp: chained_def forward_def)
    moreover have "0 \<le> hd ys" if "ys \<noteq> []" using chained_at(6) [OF cg, of "hd ys"] that by auto
    moreover have "parallel s n" if "ys \<noteq> []" using k that unfolding gs g True known_def by auto
    ultimately have "sound (station_remove n) s I Q = sound (if ys = [] then remove_single n else remove_head n) s I Q" for I Q
      using v unfolding station_remove_def parallel_def by (cases ys) auto
    moreover have "sound (remove_single n) s (\<lambda>t. bare t = bare s \<and> (forward t (as @ [n] # bs) \<or> forward t (as @ bs)))
       (\<lambda>x t. bare t = bare s \<and> chained t (as @ bs))" if "ys = []"
      by (rule sound_mono [OF remove_single_sound [of s as n bs]]) (use cg that in auto)
    ultimately show ?thesis
      using remove_head_sound [of s as n "hd ys" "tl ys" bs] cg unfolding r unfolding gs g True by (cases ys) simp_all
  qed
qed

section \<open>Search\<close>

lemma find_parallel_path:
  "path (np s) (p # hs) (-1) \<Longrightarrow> \<forall>x\<in>set (p # hs). valid s x \<Longrightarrow>
     find_parallel s n c p = Some (if n \<in> set hs then Some (c + int (length (takeWhile (\<lambda>x. x \<noteq> n) hs))) else None)"
proof (induction hs arbitrary: p c)
  case Nil
  then show ?case by (simp add: find_parallel.simps [of s n c p])
next
  case (Cons h hs)
  have h: "np s p = h" "\<not> h < 0" "valid s p" using Cons.prems by (simp_all add: valid_def)
  then show ?case using Cons.IH [of h "c + 1"] Cons.prems by (simp add: find_parallel.simps [of s n c p])
qed

fun find_in :: "int \<Rightarrow> int list list \<Rightarrow> int \<Rightarrow> (int \<times> int) option" where
  "find_in n [] c = None"
| "find_in n (g # gs) c = (if n \<in> set g then Some (c, int (length (takeWhile (\<lambda>x. x \<noteq> n) g))) else find_in n gs (c + 1))"

lemma find_loop_path:
  "\<lbrakk>path (nx s) (p # map hd gs) (-1); \<forall>g\<in>set gs. g \<noteq> [] \<and> path (np s) g (-1) \<and> (\<forall>x\<in>set g. valid s x);
    \<forall>g\<in>set gs. length g > 1 \<longrightarrow> parallel s (hd g); valid s p\<rbrakk> \<Longrightarrow> find_place_loop s n c p = Some (find_in n gs c)"
proof (induction gs arbitrary: p c)
  case Nil
  then show ?case by (simp add: find_place_loop.simps [of s n c p])
next
  case (Cons g gs)
  obtain h hs where g: "g = h # hs" using Cons.prems(2) by (cases g) auto
  have h: "nx s p = h" "\<not> h < 0" "valid s p" "valid s h" using Cons.prems by (auto simp: g valid_def)
  have IH: "find_place_loop s n (c + 1) h = Some (find_in n gs (c + 1))" using Cons.IH [of h "c + 1"] Cons.prems by (simp add: g)
  have fp: "find_parallel s n 1 h = Some (if n \<in> set hs then Some (1 + int (length (takeWhile (\<lambda>x. x \<noteq> n) hs))) else None)"
    using find_parallel_path [of s h hs n 1] Cons.prems(2) by (simp add: g)
  have "hs = []" if "\<not> parallel s h" using Cons.prems(3) that by (cases hs) (auto simp: g)
  then show ?case using h IH fp by (cases "parallel s h") (auto simp: find_place_loop.simps [of s n c p] g parallel_def)
qed

lemma find_in_at: "distinct (concat gs) \<Longrightarrow> i < length gs \<Longrightarrow> j < length (gs ! i) \<Longrightarrow> find_in (gs ! i ! j) gs c = Some (c + int i, int j)"
proof (induction gs arbitrary: i c)
  case (Cons g gs)
  show ?case
  proof (cases i)
    case 0
    have "length (takeWhile (\<lambda>x. x \<noteq> g ! j) g) = j"
    proof -
      have "takeWhile (\<lambda>x. x \<noteq> g ! j) (take j g @ drop j g) = take j g"
        using Cons.prems(1,3) 0 by (subst takeWhile_append2)
          (auto simp: in_set_conv_nth nth_eq_iff_index_eq Cons_nth_drop_Suc [symmetric])
      then show ?thesis using Cons.prems(3) 0 by simp
    qed
    then show ?thesis using Cons.prems(3) 0 by simp
  next
    case (Suc k)
    have "gs ! k ! j \<in> set (concat gs)" using Cons.prems(2,3) Suc by (auto intro!: bexI [of _ "gs ! k"])
    then have "gs ! k ! j \<notin> set g" using Cons.prems(1) by auto
    then show ?thesis using Cons.IH [of k "c + 1"] Cons.prems Suc by simp
  qed
qed simp

lemma find_in_none: "n \<notin> set (concat gs) \<Longrightarrow> find_in n gs c = None"
  by (induction gs arbitrary: c) auto

lemma station_find_in:
  assumes c: "chained s gs" and few: "(sy_nstations (id_sys s) < 2) = (gs = [])" and n: "n \<noteq> ET_GRANDCENTRAL"
  shows "station_find s n = Some (find_in n gs 1)"
proof -
  have k: "known s gs" and fw: "forward s gs" using c by (simp_all add: chained_def forward_def)
  have "g \<noteq> [] \<and> path (np s) g (-1) \<and> (\<forall>x\<in>set g. valid s x)" if "g \<in> set gs" for g
    using fw that by (auto simp: forward_def known_def)
  moreover have "parallel s (hd g)" if "g \<in> set gs" "length g > 1" for g
    using k that hd_in_set [of g] by (fastforce simp: known_def)
  moreover have "valid s 0" using k by (simp add: known_def)
  ultimately have "find_place_loop s n 1 0 = Some (find_in n gs 1)"
    using find_loop_path [of s 0 gs n 1] fw by (simp add: forward_def)
  then show ?thesis using few n by (cases gs) (simp_all add: station_find_def ET_GRANDCENTRAL_def)
qed

section \<open>The order kept by insertion, removal and repair\<close>

lemma forward_repaired:
  assumes "bare t = bare s" "forward t gs"
  shows "\<exists>u. et_fix_linkedlist t = Some u \<and> bare u = bare s \<and> chained u gs"
  using et_fix_linkedlist_forward [OF assms(2)] assms(1) by metis

text \<open>C34: \<open>station_insert\<close> puts a new station at the position asked for, behind the last one if there is no such position,
  or beside the parallel stations there if its configuration fits them, and refuses it otherwise. If the
  process dies in it at any store, \<open>et_fix_linkedlist\<close> makes a complete list of the order before or the order after.\<close>

theorem station_insert_places:
  assumes c: "chained s gs" and f: "fresh s gs n" and few: "(sy_nstations (id_sys s) < 3) = (gs = [])"
  shows "(\<exists>x t. run (station_insert n position k) s = Some (x, t) \<and>
      (case place_in s n position k gs of None \<Rightarrow> x = ET_ERROR \<and> t = s
       | Some gs' \<Rightarrow> x = ET_OK \<and> bare t = bare s \<and> chained t gs'))
    \<and> (\<forall>t. crash (station_insert n position k) s t \<longrightarrow> (\<exists>u gs'. et_fix_linkedlist t = Some u \<and> bare u = bare s \<and>
      chained u gs' \<and> (gs' = gs \<or> place_in s n position k gs = Some gs')))"
proof -
  note snd = station_insert_sound [OF c f few, of position k]
  show ?thesis
  proof (intro conjI allI impI)
    show "\<exists>x t. run (station_insert n position k) s = Some (x, t) \<and>
      (case place_in s n position k gs of None \<Rightarrow> x = ET_ERROR \<and> t = s
       | Some gs' \<Rightarrow> x = ET_OK \<and> bare t = bare s \<and> chained t gs')" using sound_run [OF snd] by blast
    show "\<exists>u gs'. et_fix_linkedlist t = Some u \<and> bare u = bare s \<and>
      chained u gs' \<and> (gs' = gs \<or> place_in s n position k gs = Some gs')" if "crash (station_insert n position k) s t" for t
      using sound_crash [OF snd that] forward_repaired [of t s] by blast
  qed
qed

text \<open>C35: \<open>station_remove\<close> takes a station out of the list, its group with it if it was alone, and makes the next one of
  a group its head if it was the head. If the process dies in it at any store, \<open>et_fix_linkedlist\<close> makes a complete
  list with the station at its old place or without it.\<close>

theorem station_remove_takes_out:
  assumes c: "chained s gs" and n: "n \<in> set (concat gs)"
  shows "(\<exists>t. run (station_remove n) s = Some ((), t) \<and> bare t = bare s \<and> chained t (removed n gs))
    \<and> (\<forall>t. crash (station_remove n) s t \<longrightarrow> (\<exists>u gs'. et_fix_linkedlist t = Some u \<and> bare u = bare s \<and>
      chained u gs' \<and> (gs' = gs \<or> gs' = removed n gs)))"
proof -
  note snd = station_remove_sound [OF c n]
  show ?thesis
  proof (intro conjI allI impI)
    show "\<exists>t. run (station_remove n) s = Some ((), t) \<and> bare t = bare s \<and> chained t (removed n gs)"
      using sound_run [OF snd] by auto
    show "\<exists>u gs'. et_fix_linkedlist t = Some u \<and> bare u = bare s \<and> chained u gs' \<and> (gs' = gs \<or> gs' = removed n gs)"
      if "crash (station_remove n) s t" for t
      using sound_crash [OF snd that] forward_repaired [of t s] by blast
  qed
qed

text \<open>\<open>station_find\<close> returns, and its result is the position of the station in the list and in its group of parallel
  stations, or that the station is not in the list.\<close>

theorem station_find_place:
  assumes c: "chained s gs" and few: "(sy_nstations (id_sys s) < 2) = (gs = [])"
  shows "(\<forall>i<length gs. \<forall>j<length (gs ! i). station_find s (gs ! i ! j) = Some (Some (1 + int i, int j)))
    \<and> (\<forall>n. n \<notin> set (0 # concat gs) \<longrightarrow> station_find s n = Some None) \<and> station_find s ET_GRANDCENTRAL = Some (Some (0, 0))"
proof (intro conjI allI impI)
  have d: "distinct (0 # concat gs)" using c by (simp add: chained_def forward_def known_def)
  show "station_find s (gs ! i ! j) = Some (Some (1 + int i, int j))" if i: "i < length gs" and j: "j < length (gs ! i)" for i j
  proof -
    have "gs ! i ! j \<in> set (concat gs)" using i j by (auto intro!: bexI [of _ "gs ! i"])
    then have "gs ! i ! j \<noteq> ET_GRANDCENTRAL" using d by (auto simp: ET_GRANDCENTRAL_def)
    then show ?thesis using station_find_in [OF c few] find_in_at [of gs i j 1] d i j by simp
  qed
  show "station_find s n = Some None" if "n \<notin> set (0 # concat gs)" for n
    using station_find_in [OF c few, of n] find_in_none [of n gs 1] that by (simp add: ET_GRANDCENTRAL_def)
qed (simp add: station_find_def ET_GRANDCENTRAL_def)

section \<open>An example\<close>

definition order_station :: "int \<Rightarrow> int \<Rightarrow> int \<Rightarrow> int \<Rightarrow> int \<Rightarrow> int \<Rightarrow> et_station" where
  "order_station n nxt prv q p flow = et_init_station\<lparr>sn_num := n, sn_status := ET_STATION_IDLE, sn_next := nxt, sn_prev := prv,
     sn_nextparallel := q, sn_prevparallel := p, sn_config := default_config\<lparr>cf_flow_mode := flow\<rparr>\<rparr>"

definition order_sample :: et_id where
  "order_sample = sample\<lparr>id_sys := (id_sys sample)\<lparr>sy_nstations := 5, sy_stat_tail := 2\<rparr>,
     id_stats := [order_station 0 1 (-1) (-1) (-1) ET_STATION_SERIAL, order_station 1 2 0 (-1) (-1) ET_STATION_SERIAL,
       order_station 2 (-1) 1 3 (-1) ET_STATION_PARALLEL, order_station 3 (-1) (-1) (-1) 2 ET_STATION_PARALLEL,
       order_station 4 (-1) (-1) (-1) (-1) ET_STATION_PARALLEL]\<rparr>"

lemma order_sample_st [simp]:
  "st order_sample 0 = order_station 0 1 (-1) (-1) (-1) ET_STATION_SERIAL"
  "st order_sample 1 = order_station 1 2 0 (-1) (-1) ET_STATION_SERIAL"
  "st order_sample 2 = order_station 2 (-1) 1 3 (-1) ET_STATION_PARALLEL"
  "st order_sample 3 = order_station 3 (-1) (-1) (-1) 2 ET_STATION_PARALLEL"
  "st order_sample 4 = order_station 4 (-1) (-1) (-1) (-1) ET_STATION_PARALLEL"
  "valid order_sample n = (0 \<le> n \<and> n < 5)" "sy_nstations (id_sys order_sample) = 5"
  by (simp_all add: order_sample_def st_def valid_def nth_Cons')

lemma order_station_simps [simp]:
  "sn_num (order_station n a b c d m) = n" "sn_next (order_station n a b c d m) = a" "sn_prev (order_station n a b c d m) = b"
  "sn_nextparallel (order_station n a b c d m) = c" "sn_prevparallel (order_station n a b c d m) = d"
  "cf_flow_mode (sn_config (order_station n a b c d m)) = m"
  by (simp_all add: order_station_def)

lemma order_sample_chained: "chained order_sample [[1], [2, 3]]" "fresh order_sample [[1], [2, 3]] 4"
proof -
  have "sy_stat_head (id_sys order_sample) = 0" "sy_stat_tail (id_sys order_sample) = 2" by (simp_all add: order_sample_def sample_def)
  then show "chained order_sample [[1], [2, 3]]" by (simp add: chained_def forward_def known_def parallel_def)
  show "fresh order_sample [[1], [2, 3]] 4" by (simp add: fresh_def spare_def)
qed

lemma order_sample_place: "place_in order_sample 4 2 1 [[1], [2, 3]] = Some [[1], [2, 4, 3]]"
  by (simp add: place_in_def insert_group_def parallel_def et_station_compare_parallel_def order_station_def dealing_def default_config_def)

theorem station_insert_places_witness:
  "\<exists>t. run (station_insert 4 2 1) order_sample = Some (ET_OK, t) \<and> chained t [[1], [2, 4, 3]]"
  using station_insert_places [OF order_sample_chained, of 2 1] by (auto simp: order_sample_place)

theorem station_remove_takes_out_witness:
  "\<exists>t. run (station_remove 2) order_sample = Some ((), t) \<and> chained t [[1], [3]]"
  using station_remove_takes_out [OF order_sample_chained(1), of 2] by (auto simp: removed_def)

theorem station_find_place_witness: "station_find order_sample 3 = Some (Some (2, 1)) \<and> station_find order_sample 4 = Some None"
proof -
  have few: "(sy_nstations (id_sys order_sample) < 2) = ([[1], [2, 3 :: int]] = [])" by simp
  note f = station_find_place [OF order_sample_chained(1) few]
  have "station_find order_sample ([[1], [2, 3]] ! 1 ! 1) = Some (Some (1 + int 1, int 1))"
    by (rule conjunct1 [OF f, rule_format]) simp_all
  moreover have "station_find order_sample 4 = Some None" by (rule conjunct1 [OF conjunct2 [OF f], rule_format]) simp
  ultimately show ?thesis by simp
qed

end
