(* ===== verification/EtStationProofs.thy ===== *)
theory EtStationProofs
  imports EtStations EtOrder "HOL-Library.Multiset"
begin

text \<open>
  The order of the stations and their number under creation, removal and moving of stations. \<open>ordered\<close> says that
  exactly the stations in the list are in use.
\<close>

definition ordered :: "et_id \<Rightarrow> int list list \<Rightarrow> bool" where
  "ordered s gs = (chained s gs \<and> sy_nstations (id_sys s) = 1 + int (length (concat gs)) \<and> nstats s = int (length (id_stats s)) \<and>
     (\<forall>n. valid s n \<longrightarrow> (if n \<in> set (0 # concat gs) then placed (st s n) else sn_status (st s n) = ET_STATION_UNUSED)))"

lemma chained_fields:
  assumes c: "chained s gs"
    and st: "\<And>x. x \<in> set (0 # concat gs) \<Longrightarrow> valid t x \<and> sn_num (st t x) = sn_num (st s x) \<and> sn_config (st t x) = sn_config (st s x) \<and>
      nx t x = nx s x \<and> pv t x = pv s x \<and> np t x = np s x \<and> pp t x = pp s x"
    and sys: "sy_stat_head (id_sys t) = sy_stat_head (id_sys s)" "sy_stat_tail (id_sys t) = sy_stat_tail (id_sys s)"
  shows "chained t gs"
proof -
  have k: "known s gs" and fw: "forward s gs" using c by (simp_all add: chained_def forward_def)
  have m: "x \<in> set (0 # concat gs)" if "g \<in> set gs" "x \<in> set g" for g x using that by auto
  have "\<forall>n\<in>set (0 # concat gs). valid t n \<and> sn_num (st t n) = n" using k st unfolding known_def by metis
  moreover have "\<forall>g\<in>set gs. length g > 1 \<longrightarrow> (\<forall>n\<in>set g. parallel t n)"
    using k st [OF m] unfolding known_def parallel_def by simp
  ultimately have kt: "known t gs" using k unfolding known_def by blast
  have h: "x \<in> set (0 # concat gs)" if "x \<in> set (0 # map hd gs)" for x using that known_members(2) [OF k] by (auto simp del: set_concat)
  have "path (nx t) (0 # map hd gs) (-1)"
    using fw path_cong [of "0 # map hd gs" "nx t" "nx s" "-1"] st [OF h] by (simp add: forward_def)
  moreover have "path (np t) g (-1)" "backs (pp t) (-1) g" "\<forall>n\<in>set (tl g). pv t n = -1" if g: "g \<in> set gs" for g
  proof -
    have tl: "x \<in> set g" if "x \<in> set (tl g)" for x using that by (cases g) auto
    show "path (np t) g (-1)" using fw g path_cong [of g "np t" "np s" "-1"] st [OF m [OF g]] by (simp add: forward_def)
    show "backs (pp t) (-1) g" using c g backs_cong [of g "pp t" "pp s" "-1"] st [OF m [OF g]] by (simp add: chained_def)
    show "\<forall>n\<in>set (tl g). pv t n = -1" using c g st [OF m [OF g tl]] by (simp add: chained_def)
  qed
  moreover have "backs (pv t) 0 (map hd gs)"
    using c backs_cong [of "map hd gs" "pv t" "pv s" 0] st [OF h] by (simp add: chained_def)
  ultimately show ?thesis using kt c sys by (auto simp: chained_def forward_def)
qed

lemma chained_unlisted: "chained s gs \<Longrightarrow> valid s n \<Longrightarrow> n \<notin> set (0 # concat gs) \<Longrightarrow> chained (upst n f s) gs"
proof (rule chained_fields)
  fix x assume c: "chained s gs" and n: "valid s n" "n \<notin> set (0 # concat gs)" and x: "x \<in> set (0 # concat gs)"
  then have "valid s x" "x \<noteq> n" using known_members(3) [of s gs x] by (auto simp: chained_def forward_def)
  then show "valid (upst n f s) x \<and> sn_num (st (upst n f s) x) = sn_num (st s x) \<and> sn_config (st (upst n f s) x) = sn_config (st s x) \<and>
      nx (upst n f s) x = nx s x \<and> pv (upst n f s) x = pv s x \<and> np (upst n f s) x = np s x \<and> pp (upst n f s) x = pp s x"
    using n(1) by simp
qed simp_all

lemma count_simps [simp]:
  "st (count_stations d s) n = st s n" "valid (count_stations d s) n = valid s n" "nstats (count_stations d s) = nstats s"
  "sy_nstations (id_sys (count_stations d s)) = sy_nstations (id_sys s) + d" "id_stats (count_stations d s) = id_stats s"
  "sy_stat_head (id_sys (count_stations d s)) = sy_stat_head (id_sys s)" "sy_stat_tail (id_sys (count_stations d s)) = sy_stat_tail (id_sys s)"
  "count_stations (-1) (count_stations 1 s) = s"
  by (simp_all add: count_stations_def st_def valid_def nstats_def)

lemma chained_count [simp]: "chained (count_stations d s) gs = chained s gs"
  by (simp add: chained_def forward_def known_def parallel_def)

lemma nstats_upst [simp]: "nstats (upst n f s) = nstats s" "length (id_stats (upst n f s)) = length (id_stats s)"
  by (simp_all add: nstats_def upst_def)

lemma bare_keeps:
  assumes "bare t = bare s"
  shows "nstats t = nstats s" "length (id_stats t) = length (id_stats s)" "valid s n \<Longrightarrow> sn_status (st t n) = sn_status (st s n)"
    "valid s n \<Longrightarrow> sn_name (st t n) = sn_name (st s n)" "valid s n \<Longrightarrow> sn_config (st t n) = sn_config (st s n)"
proof -
  show "nstats t = nstats s" using arg_cong [OF assms, of nstats] by (simp add: nstats_def bare_def with_tail_def)
  show "length (id_stats t) = length (id_stats s)" using arg_cong [OF assms, of "\<lambda>s. length (id_stats s)"] by (simp add: bare_def)
  show "sn_status (st t n) = sn_status (st s n)" "sn_name (st t n) = sn_name (st s n)" "sn_config (st t n) = sn_config (st s n)" if "valid s n"
    using arg_cong [OF bare_same(2) [OF assms that], of sn_status] arg_cong [OF bare_same(2) [OF assms that], of sn_name]
      arg_cong [OF bare_same(2) [OF assms that], of sn_config] by (simp_all add: unlinked_def)
qed

lemma first_station_find:
  "(\<And>i. i \<in> set is \<Longrightarrow> valid s (int i)) \<Longrightarrow> first_station P is s = Some (map_option int (find (\<lambda>i. P (st s (int i))) is))"
  by (induction "is") auto

lemma first_station_all:
  assumes "nstats s = int (length (id_stats s))"
  shows "first_station P [0..<nat (nstats s)] s = Some None \<or> (\<exists>n. first_station P [0..<nat (nstats s)] s = Some (Some n) \<and> valid s n \<and> P (st s n))"
    "valid s n \<Longrightarrow> P (st s n) \<Longrightarrow> (\<And>m. valid s m \<Longrightarrow> P (st s m) \<Longrightarrow> m = n) \<Longrightarrow> first_station P [0..<nat (nstats s)] s = Some (Some n)"
proof -
  have f: "first_station P [0..<nat (nstats s)] s = Some (map_option int (find (\<lambda>i. P (st s (int i))) [0..<length (id_stats s)]))"
    using assms first_station_find [of "[0..<length (id_stats s)]" s P] by (simp add: valid_def)
  show one: "first_station P [0..<nat (nstats s)] s = Some None \<or>
      (\<exists>n. first_station P [0..<nat (nstats s)] s = Some (Some n) \<and> valid s n \<and> P (st s n))"
  proof (cases "find (\<lambda>i. P (st s (int i))) [0..<length (id_stats s)]")
    case (Some i)
    then have "i < length (id_stats s)" "P (st s (int i))" by (auto simp: find_Some_iff)
    then show ?thesis using f Some by (auto simp: valid_def)
  qed (use f in simp)
  show "first_station P [0..<nat (nstats s)] s = Some (Some n)"
    if n: "valid s n" "P (st s n)" "\<And>m. valid s m \<Longrightarrow> P (st s m) \<Longrightarrow> m = n"
  proof -
    have "nat n \<in> set [0..<length (id_stats s)]" "P (st s (int (nat n)))" using n(1,2) by (auto simp: valid_def)
    then have "find (\<lambda>i. P (st s (int i))) [0..<length (id_stats s)] \<noteq> None" by (auto simp: find_None_iff)
    then show ?thesis using one f n(3) by auto
  qed
qed

lemma listed_concat: "chained s gs \<Longrightarrow> (length (concat gs) = 0) = (gs = [])"
  by (cases gs) (auto simp: chained_def forward_def known_def)

lemma place_in_bare: "bare t = bare s \<Longrightarrow> chained s gs \<Longrightarrow> valid s n \<Longrightarrow> place_in t n position k gs = place_in s n position k gs"
proof -
  assume b: "bare t = bare s" and c: "chained s gs" and n: "valid s n"
  have "sn_config (st t x) = sn_config (st s x)" if "valid s x" for x using bare_keeps(5) [OF b that] .
  moreover have "valid s (hd (gs ! nat (position - 1)))" if "1 \<le> position" "position \<le> int (length gs)"
  proof -
    have "gs ! nat (position - 1) \<in> set gs" using that by (intro nth_mem) auto
    then show ?thesis using c known_members(2,3) [of s gs] by (auto simp: chained_def forward_def simp del: set_concat)
  qed
  ultimately show ?thesis using n by (simp add: place_in_def Let_def parallel_def)
qed

lemma place_in_elements:
  assumes "place_in s n position k gs = Some gs'"
  shows "set (concat gs') = insert n (set (concat gs))" "length (concat gs') = Suc (length (concat gs))"
proof -
  have ins: "mset (concat (take i gs @ h # drop (Suc i) gs)) = mset (concat gs) + {#n#}"
    if "i < length gs" "mset h = mset (gs ! i) + {#n#}" for i h
    using that by (subst (2) id_take_nth_drop [OF that(1)]) simp
  have "mset (concat gs') = mset (concat gs) + {#n#}"
  proof (cases "1 \<le> position \<and> position \<le> int (length gs)")
    case False
    then have "gs' = gs @ [[n]]" using assms unfolding place_in_def if_not_P [OF False] by simp
    then show ?thesis by simp
  next
    case True
    define i where "i = nat (position - 1)"
    have i: "i < length gs" using True by (auto simp: i_def)
    have g: "gs' = gs[i := insert_group n k (gs ! i)] \<or> gs' = take i gs @ [n] # drop i gs"
      using assms True unfolding place_in_def Let_def i_def [symmetric] by (auto split: if_splits)
    have m: "mset (insert_group n k (gs ! i)) = mset (gs ! i) + {#n#}"
      using arg_cong [OF append_take_drop_id [of "nat k" "gs ! i"], of mset] unfolding insert_group_def
      by (simp del: append_take_drop_id)
    have "mset (concat (take i gs @ [n] # drop i gs)) = mset (concat gs) + {#n#}"
      using arg_cong [OF append_take_drop_id [of i gs], of "\<lambda>gs. mset (concat gs)"] by (simp del: append_take_drop_id)
    then show ?thesis using g ins [OF i m] i by (auto simp: upd_conv_take_nth_drop)
  qed
  then show "set (concat gs') = insert n (set (concat gs))" "length (concat gs') = Suc (length (concat gs))"
    by (metis set_mset_mset set_mset_union set_mset_single insert_is_Un Un_commute,
      metis size_mset size_union size_single add.commute plus_1_eq_Suc)
qed

section \<open>Creation and removal\<close>

lemma ordered_known:
  assumes "ordered s gs"
  shows "chained s gs" "valid s 0" "x \<in> set (0 # concat gs) \<Longrightarrow> valid s x \<and> placed (st s x)"
    "valid s x \<Longrightarrow> x \<notin> set (0 # concat gs) \<Longrightarrow> sn_status (st s x) = ET_STATION_UNUSED" "nstats s = int (length (id_stats s))"
  using assms known_members(3) [of s gs x] by (auto simp: ordered_def chained_def forward_def known_def)

lemma orderedI:
  assumes "chained t gs" "sy_nstations (id_sys t) = 1 + int (length (concat gs))" "nstats t = int (length (id_stats t))"
    and "\<And>m. valid t m \<Longrightarrow> m \<in> set (0 # concat gs) \<Longrightarrow> placed (st t m)"
    and "\<And>m. valid t m \<Longrightarrow> m \<notin> set (0 # concat gs) \<Longrightarrow> sn_status (st t m) = ET_STATION_UNUSED"
  shows "ordered t gs"
  using assms unfolding ordered_def by (simp del: set_simps)

lemma ordered_bare:
  assumes o: "ordered s gs" and b: "bare t = bare s" and c: "chained t gs'" and set: "set (concat gs') = set (concat gs)"
  shows "ordered t gs'"
proof -
  have "distinct (concat gs)" "distinct (concat gs')" using o c by (simp_all add: ordered_def chained_def forward_def known_def)
  then have "length (concat gs') = length (concat gs)" using set by (metis distinct_card)
  moreover have "placed (st t n) = placed (st s n)" if "valid s n" for n using bare_keeps(3) [OF b that] by (simp add: placed_def)
  ultimately show ?thesis using o c bare_same(1,4) [OF b] bare_keeps(1-3) [OF b]
    unfolding ordered_def set_simps set by (simp del: set_concat)
qed

lemma create_station_ordered:
  assumes o: "ordered s gs" and nm: "name \<noteq> ''GRAND_CENTRAL''"
  shows "\<exists>r out t gs'. create_station starts name sc position k s = Some (r, out, t) \<and> ordered t gs' \<and> (r \<noteq> ET_OK \<longrightarrow> gs' = gs) \<and>
     (r = ET_OK \<longrightarrow> (\<exists>n. out = Some n \<and> n \<notin> set (0 # concat gs) \<and> sn_name (st t n) = name \<and> sn_config (st t n) = sc \<and>
        place_in t n position k gs = Some gs'))"
proof (cases "sy_nstations (id_sys s) \<ge> nstats s")
  case True
  then show ?thesis using o by (auto simp: create_station_def)
next
  case room: False
  let ?P = "\<lambda>ps. sn_status ps = ET_STATION_UNUSED"
  let ?s1 = "count_stations 1 s"
  note o' = ordered_known [OF o]
  have "first_station ?P [0..<nat (nstats ?s1)] ?s1 = Some None \<or>
      (\<exists>n. first_station ?P [0..<nat (nstats ?s1)] ?s1 = Some (Some n) \<and> valid ?s1 n \<and> ?P (st ?s1 n))"
    by (rule first_station_all(1)) (use o'(5) in simp)
  then consider (none) "first_station ?P [0..<nat (nstats s)] ?s1 = Some None"
    | (some) n where "first_station ?P [0..<nat (nstats s)] ?s1 = Some (Some n)" "valid s n" "?P (st s n)" by auto
  then show ?thesis
  proof cases
    case none
    then show ?thesis using room o by (auto simp: create_station_def)
  next
    case some
    have n: "n \<notin> set (0 # concat gs)" using o'(3) [of n] some(3) by (auto simp: placed_def)
    have n0: "n \<noteq> ET_GRANDCENTRAL" using n by (simp add: ET_GRANDCENTRAL_def)
    define s2 where "s2 = upst n (new_station n name sc) ?s1"
    have v2: "valid s2 m = valid s m" for m by (simp add: s2_def)
    have st2: "st s2 m = (if m = n then new_station n name sc (st s n) else st s m)" if "valid s m" for m
      using that some(2) by (simp add: s2_def st_upst valid_def)
    have sys2: "nstats s2 = nstats s" "sy_nstations (id_sys s2) = sy_nstations (id_sys s) + 1"
      "length (id_stats s2) = length (id_stats s)" by (simp_all add: s2_def)
    have c2: "chained s2 gs" unfolding s2_def by (rule chained_unlisted) (use o'(1) some(2) n in simp_all)
    have cr: "m = n" if "valid s2 m" "sn_status (st s2 m) = ET_STATION_CREATING" for m
    proof (rule ccontr)
      assume "m \<noteq> n"
      then have "valid s m" "sn_status (st s m) = ET_STATION_CREATING" using that by (simp_all add: v2 st2)
      then show False using o'(3) [of m] o'(4) [of m] by (cases "m \<in> set (0 # concat gs)") (simp_all add: placed_def)
    qed
    have first: "first_station (\<lambda>ps. sn_status ps = ET_STATION_CREATING) [0..<nat (nstats s2)] s2 = Some (Some n)"
    proof (rule first_station_all(2) [OF _ _ _ cr])
      show "nstats s2 = int (length (id_stats s2))" using o'(5) sys2 by simp
      show "valid s2 n" "sn_status (st s2 n) = ET_STATION_CREATING" using some(2) by (simp_all add: v2 st2 new_station_def)
    qed
    have run1: "create_station starts name sc position k s = do {
              s \<leftarrow> et_add_stations starts s2;
              ps \<leftarrow> station s n;
              if sn_status ps \<noteq> ET_STATION_IDLE then do {
                s \<leftarrow> set_station n clear_station (count_stations (-1) s);
                Some (ET_ERROR, None, s)
              }
              else do {
                (r, s) \<leftarrow> run (station_insert n position k) s;
                if r \<noteq> ET_OK then do {
                  s \<leftarrow> set_station n (\<lambda>x. x\<lparr>sn_conductor := ET_THREAD_KILL, sn_status := ET_STATION_UNUSED\<rparr>) s;
                  Some (ET_ERROR, None, count_stations (-1) s)
                }
                else Some (ET_OK, Some n, s)
              } }"
      using room some nm by (simp add: create_station_def s2_def Let_def)
    have undone: "ordered (count_stations (-1) (upst n f t)) gs" if t: "chained t gs" "sy_nstations (id_sys t) = sy_nstations (id_sys s) + 1"
        "length (id_stats t) = length (id_stats s)" "nstats t = nstats s" "\<And>m. valid t m = valid s m"
        "\<And>m. valid s m \<Longrightarrow> m \<noteq> n \<Longrightarrow> sn_status (st t m) = sn_status (st s m)" "\<And>x. sn_status (f x) = ET_STATION_UNUSED" for t f
    proof -
      have stu1: "chained (upst n f t) gs" by (rule chained_unlisted) (use t(1,5) some(2) n in simp_all)
      have stu2: "st (upst n f t) m = (if m = n then f (st t n) else st t m)" if "valid s m" for m
        using st_upst [of t n m f] that some(2) t(5) by (simp add: valid_def [of s m])
      show ?thesis
      proof (rule orderedI)
        fix m assume m: "valid (count_stations (-1) (upst n f t)) m"
        then have v: "valid s m" by (simp add: t(5))
        show "placed (st (count_stations (-1) (upst n f t)) m)" if "m \<in> set (0 # concat gs)"
        proof -
          have "m \<noteq> n" using n that by metis
          then show ?thesis using stu2 [OF v] t(6) [OF v] o'(3) [OF that] by (simp add: placed_def)
        qed
        show "sn_status (st (count_stations (-1) (upst n f t)) m) = ET_STATION_UNUSED" if "m \<notin> set (0 # concat gs)"
          using stu2 [OF v] t(6) [OF v] t(7) o'(4) [OF v that] by simp
      qed (use stu1 t(2-4) o in \<open>simp_all add: ordered_def\<close>)
    qed
    show ?thesis
    proof (cases starts)
      case False
      then have "et_add_stations starts s2 = Some s2"
        using room first n0 by (simp add: et_add_stations_def et_conductor_start_def sys2)
      then have "create_station starts name sc position k s = Some (ET_ERROR, None, count_stations (-1) (upst n clear_station s2))"
        unfolding run1 using some(2) by (simp add: v2 st2 new_station_def) (simp add: upst_def count_stations_def st_def)
      moreover have "ordered (count_stations (-1) (upst n clear_station s2)) gs"
        by (rule undone) (use c2 sys2 in \<open>simp_all add: v2 st2 clear_station_def et_init_station_def\<close>)
      ultimately show ?thesis by auto
    next
      case True
      define s3 where "s3 = upst n (\<lambda>x. x\<lparr>sn_status := ET_STATION_IDLE\<rparr>) s2"
      have v3: "valid s3 m = valid s m" for m by (simp add: s3_def v2)
      have st3: "st s3 m = (if m = n then (new_station n name sc (st s n))\<lparr>sn_status := ET_STATION_IDLE\<rparr> else st s m)" if "valid s m" for m
        using st_upst [of s2 n m] that some(2) by (simp add: s3_def valid_def [of s m] v2 st2)
      have add: "et_add_stations starts s2 = Some s3"
        using room first n0 True some(2) by (simp add: et_add_stations_def et_conductor_start_def sys2 s3_def v2)
      have sys3: "nstats s3 = nstats s" "sy_nstations (id_sys s3) = sy_nstations (id_sys s) + 1" "length (id_stats s3) = length (id_stats s)"
        by (simp_all add: s3_def sys2)
      have c3: "chained s3 gs" unfolding s3_def by (rule chained_unlisted) (use c2 some(2) n in \<open>simp_all add: v2\<close>)
      have f3: "fresh s3 gs n" using some(2) n
        by (simp add: fresh_def spare_def v3 st3 new_station_def clear_station_def et_init_station_def)
      have few: "(sy_nstations (id_sys s3) < 3) = (gs = [])"
        using o listed_concat [OF o'(1)] unfolding sys3 ordered_def by (cases "gs = []") auto
      have run2: "create_station starts name sc position k s = do {
                (r, s) \<leftarrow> run (station_insert n position k) s3;
                if r \<noteq> ET_OK then do {
                  s \<leftarrow> set_station n (\<lambda>x. x\<lparr>sn_conductor := ET_THREAD_KILL, sn_status := ET_STATION_UNUSED\<rparr>) s;
                  Some (ET_ERROR, None, count_stations (-1) s)
                }
                else Some (ET_OK, Some n, s) }"
        unfolding run1 add using some(2) by (simp add: v3 st3)
      obtain x t where t: "run (station_insert n position k) s3 = Some (x, t)"
        "case place_in s3 n position k gs of None \<Rightarrow> x = ET_ERROR \<and> t = s3 | Some gs' \<Rightarrow> x = ET_OK \<and> bare t = bare s3 \<and> chained t gs'"
        using sound_run [OF station_insert_sound [OF c3 f3 few, of position k]] by blast
      show ?thesis
      proof (cases "place_in s3 n position k gs")
        case None
        then have "create_station starts name sc position k s =
            Some (ET_ERROR, None, count_stations (-1) (upst n (\<lambda>x. x\<lparr>sn_conductor := ET_THREAD_KILL, sn_status := ET_STATION_UNUSED\<rparr>) s3))"
          unfolding run2 using t some(2) by (simp add: v3)
        moreover have "ordered (count_stations (-1) (upst n (\<lambda>x. x\<lparr>sn_conductor := ET_THREAD_KILL, sn_status := ET_STATION_UNUSED\<rparr>) s3)) gs"
          by (rule undone) (use c3 sys3 in \<open>simp_all add: v3 st3\<close>)
        ultimately show ?thesis by auto
      next
        case (Some gs')
        have b: "bare t = bare s3" "chained t gs'" "x = ET_OK" using t(2) Some by simp_all
        have e: "place_in t n position k gs = Some gs'" using place_in_bare [OF b(1) c3] Some some(2) v3 by simp
        have els: "set (concat gs') = insert n (set (concat gs))" "length (concat gs') = Suc (length (concat gs))"
          using place_in_elements [OF Some] by simp_all
        have stt: "sn_status (st t m) = (if m = n then ET_STATION_IDLE else sn_status (st s m))" if "valid s m" for m
          using bare_keeps(3) [OF b(1), of m] that by (simp add: v3 st3)
        have "ordered t gs'"
          unfolding ordered_def els set_simps
          using o b(2) bare_same(1,4) [OF b(1)] bare_keeps(1,2) [OF b(1)] n some(2) unfolding ordered_def
          by (auto simp: v3 sys3 stt placed_def els simp del: set_concat)
        moreover have "sn_name (st t n) = name" "sn_config (st t n) = sc"
          using bare_keeps(4,5) [OF b(1), of n] some(2) by (simp_all add: v3 st3 new_station_def)
        moreover have "create_station starts name sc position k s = Some (ET_OK, Some n, t)" unfolding run2 using t(1) b(3) by simp
        ultimately show ?thesis using n e by auto
      qed
    qed
  qed
qed

lemma exists_ordered:
  assumes o: "ordered s gs" and l: "id_locality s = ET_LOCAL" "\<not> id_closed s" "id_alive s"
  shows "et_station_exists (Some name) rem s = Some (0, None) \<or>
     (\<exists>n. et_station_exists (Some name) rem s = Some (1, Some n) \<and> n \<in> set (0 # concat gs) \<and> sn_name (st s n) = name)"
proof -
  note o' = ordered_known [OF o]
  have ex: "et_station_exists (Some name) rem s = do {
      found \<leftarrow> first_station (\<lambda>ps. sn_status ps \<noteq> ET_STATION_UNUSED \<and> sn_name ps = name) [0..<nat (nstats s)] s;
      Some (if found \<noteq> None then 1 else 0, found) }"
    using l by (simp add: et_station_exists_def)
  show ?thesis
    using first_station_all(1) [OF o'(5), of "\<lambda>ps. sn_status ps \<noteq> ET_STATION_UNUSED \<and> sn_name ps = name"] o'(4) unfolding ex by fastforce
qed

text \<open>C37: creating a station keeps the order: exactly the stations in the list are in use, and their number is right.
  When it succeeds, the station with that name is in the list, at the place asked for if it is new; when it
  fails, because of the arguments, the number of stations, the conductor or the place, the list is as before.\<close>

theorem et_station_create_at_ordered:
  assumes o: "ordered s gs" and l: "id_locality s = ET_LOCAL" and nm: "stat_name \<noteq> Some ''GRAND_CENTRAL''"
  shows "\<exists>r out t gs'. et_station_create_at memory starts stat_name sconfig position k rem s = Some (r, out, t) \<and> ordered t gs' \<and>
     (r \<noteq> ET_OK \<longrightarrow> gs' = gs) \<and>
     (r = ET_OK \<longrightarrow> (\<exists>n. out = Some n \<and> n \<in> set (0 # concat gs') \<and> stat_name = Some (sn_name (st t n)) \<and>
        (if n \<in> set (0 # concat gs) then t = s else place_in t n position k gs = Some gs')))"
proof -
  define res where "res = et_station_create_at memory starts stat_name sconfig position k rem s"
  define fails where "fails = (\<exists>r out. res = Some (r, out, s) \<and> r \<noteq> ET_OK)"
  have fail: ?thesis if fails using that o unfolding fails_def res_def by blast
  show ?thesis
  proof (cases fails)
    case bad: False
    obtain name where name: "stat_name = Some name" using bad by (cases stat_name) (auto simp: fails_def res_def et_station_create_at_def)
    define given where "given = (case sconfig of Some sc \<Rightarrow> Some sc | None \<Rightarrow> snd (et_station_config_init memory))"
    have "res = Some (ET_ERROR, None, s)" if "given = None"
      unfolding res_def et_station_create_at_def given_def [symmetric] that by (simp add: name)
    then obtain sc where sc: "given = Some sc" using bad unfolding fails_def by (cases given) auto
    have gc: "name \<noteq> ''GRAND_CENTRAL''" using nm by (simp add: name)
    have live: "id_alive s \<and> \<not> id_closed s \<and> res = do {
        (r, found) \<leftarrow> et_station_exists (Some name) (0, None) s;
        if r = 1 then existing_station found sc s else create_station starts name sc position k s }"
      using bad gc l unfolding fails_def res_def et_station_create_at_def given_def [symmetric] name option.case sc by (auto split: if_split_asm)
    consider (new) "et_station_exists (Some name) (0, None) s = Some (0, None)"
      | (old) n where "et_station_exists (Some name) (0, None) s = Some (1, Some n)" "n \<in> set (0 # concat gs)" "sn_name (st s n) = name"
      using exists_ordered [OF o l, of name "(0, None)"] live by blast
    then show ?thesis
    proof cases
      case new
      then have e: "res = create_station starts name sc position k s" using live by simp
      obtain r out t gs' where r: "res = Some (r, out, t)" "ordered t gs'" "r \<noteq> ET_OK \<longrightarrow> gs' = gs"
          "r = ET_OK \<longrightarrow> (\<exists>n. out = Some n \<and> n \<notin> set (0 # concat gs) \<and> sn_name (st t n) = name \<and> sn_config (st t n) = sc \<and>
            place_in t n position k gs = Some gs')"
        using create_station_ordered [OF o gc, of starts sc position k] unfolding e [symmetric] by blast
      moreover have "n \<in> set (0 # concat gs')" if "place_in t n position k gs = Some gs'" for n
        using place_in_elements(1) [OF that] by simp
      ultimately show ?thesis unfolding res_def name by metis
    next
      case old
      have v: "valid s n" "0 \<le> n" "n < nstats s"
        using ordered_known(3) [OF o old(2)] ordered_known(5) [OF o] by (simp_all add: valid_def)
      have "et_station_getstatus n (0, None) s = Some (ET_OK, Some (sn_status (st s n)))"
        using live l v by (simp add: et_station_getstatus_def get_of_def)
      moreover have "res = existing_station (Some n) sc s" using live old(1) by simp
      ultimately have "\<exists>r. res = Some (r, Some n, s)" using v(1) by (simp add: existing_station_def)
      then show ?thesis using o old(2,3) unfolding res_def name by metis
    qed
  qed (use fail in blast)
qed

text \<open>
  What the conductor of a station does with its last events leaves the stations as they are. It may put temporary events
  into Grand Central, which lowers their number.
\<close>

definition stations_kept :: "et_id \<Rightarrow> et_id \<Rightarrow> bool" where
  "stations_kept s t = ((\<exists>k. id_sys t = (id_sys s)\<lparr>sy_ntemps := k\<rparr>) \<and> length (id_stats t) = length (id_stats s) \<and>
     (\<forall>n. valid s n \<longrightarrow> nx t n = nx s n \<and> pv t n = pv s n \<and> np t n = np s n \<and> pp t n = pp s n \<and> sn_num (st t n) = sn_num (st s n) \<and>
        sn_config (st t n) = sn_config (st s n) \<and> sn_status (st t n) = sn_status (st s n)))"

lemma stations_kept_chained:
  assumes k: "stations_kept s t" and c: "chained s gs"
  shows "chained t gs"
proof (rule chained_fields [OF c])
  fix x assume "x \<in> set (0 # concat gs)"
  then have "valid s x" using c known_members(3) [of s gs x] by (simp add: chained_def forward_def)
  then show "valid t x \<and> sn_num (st t x) = sn_num (st s x) \<and> sn_config (st t x) = sn_config (st s x) \<and>
      nx t x = nx s x \<and> pv t x = pv s x \<and> np t x = np s x \<and> pp t x = pp s x"
    using k by (simp add: stations_kept_def valid_def)
qed (use k in \<open>auto simp: stations_kept_def\<close>)

lemma removed_concat: "concat (removed n gs) = removeAll n (concat gs)"
  by (induction gs) (auto simp: removed_def)

lemma removed_elements: "set (concat (removed n gs)) = set (concat gs) - {n}"
  unfolding removed_concat by simp

lemma removed_count:
  assumes "distinct (concat gs)" "n \<in> set (concat gs)"
  shows "length (concat gs) = Suc (length (concat (removed n gs)))"
  using assms(2) length_pos_if_in_set [OF assms(2)]
  unfolding removed_concat distinct_remove1_removeAll [OF assms(1), symmetric] length_remove1 by (simp del: set_concat)

text \<open>C38: a station without attachments is removed from the list and is unused then, the others keep their order, and
  their number is right; a station with attachments stays.\<close>

theorem et_station_remove_ordered:
  assumes o: "ordered s gs" and n: "n \<in> set (concat gs)" and live: "id_locality s = ET_LOCAL" "id_alive s" "\<not> id_closed s"
    and conductor: "\<And>t. stations_kept t (meanwhile t)"
  shows "if sn_nattachments (st s n) > 0 then et_station_remove meanwhile n rem s = Some (ET_ERROR, s)
     else \<exists>t. et_station_remove meanwhile n rem s = Some (ET_OK, t) \<and> ordered t (removed n gs) \<and> sn_status (st t n) = ET_STATION_UNUSED"
proof -
  note o' = ordered_known [OF o]
  have d: "distinct (0 # concat gs)" using o'(1) by (simp add: chained_def forward_def known_def)
  have v: "valid s n" "n \<noteq> ET_GRANDCENTRAL" "0 \<le> n" "n < nstats s"
    using o'(3) [of n] o'(5) n d by (auto simp: valid_def ET_GRANDCENTRAL_def)
  obtain u where u: "run (station_remove n) s = Some ((), u)" "bare u = bare s" "chained u (removed n gs)"
    using sound_run [OF station_remove_sound [OF o'(1) n]] by auto
  have mc: "chained (meanwhile u) (removed n gs)" by (rule stations_kept_chained [OF conductor u(3)])
  have mv: "valid (meanwhile u) m = valid s m" for m using conductor [of u] bare_keeps(2) [OF u(2)] by (simp add: stations_kept_def valid_def)
  have ms: "sn_status (st (meanwhile u) m) = sn_status (st s m)" if "valid s m" for m
    using conductor [of u] bare_keeps(3) [OF u(2) that] bare_same(1) [OF u(2), of m] that by (simp add: stations_kept_def)
  obtain k where sys: "id_sys (meanwhile u) = (id_sys u)\<lparr>sy_ntemps := k\<rparr>" "length (id_stats (meanwhile u)) = length (id_stats u)"
    using conductor [of u] by (auto simp: stations_kept_def)
  define f where "f = (\<lambda>x :: et_station. x\<lparr>sn_conductor := ET_THREAD_KILL, sn_status := ET_STATION_UNUSED\<rparr>)"
  define t where "t = count_stations (-1) (upst n f (meanwhile u))"
  have nin: "n \<notin> set (0 # concat (removed n gs))" using d n removed_elements [of n gs] by (auto simp del: set_concat)
  have stt: "sn_status (st t m) = (if m = n then ET_STATION_UNUSED else sn_status (st s m))" if "valid s m" for m
    using st_upst [of "meanwhile u" n m f] v that ms [OF that] mv by (simp add: t_def valid_def [of s m] f_def)
  have "ordered t (removed n gs)"
  proof (rule orderedI)
    show "chained t (removed n gs)" unfolding t_def chained_count by (rule chained_unlisted) (use mc mv v nin in simp_all)
    show "sy_nstations (id_sys t) = 1 + int (length (concat (removed n gs)))"
      using o removed_count [of gs n] d n bare_same(4) [OF u(2)] by (simp add: t_def sys ordered_def)
    show "nstats t = int (length (id_stats t))"
    proof -
      have "nstats (meanwhile u) = nstats u" by (simp add: nstats_def sys)
      then show ?thesis using o'(5) bare_keeps(1,2) [OF u(2)] sys by (simp add: t_def)
    qed
    fix m assume "valid t m"
    then have vm: "valid s m" by (simp add: t_def mv)
    show "placed (st t m)" if "m \<in> set (0 # concat (removed n gs))"
    proof -
      have "m \<noteq> n" "m \<in> set (0 # concat gs)" using that nin removed_elements [of n gs] by (auto simp del: set_concat)
      then show ?thesis using o'(3) [of m] stt [OF vm] by (simp add: placed_def)
    qed
    show "sn_status (st t m) = ET_STATION_UNUSED" if "m \<notin> set (0 # concat (removed n gs))"
    proof (cases "m = n")
      case False
      then have "m \<notin> set (0 # concat gs)" using that removed_elements [of n gs] by (auto simp del: set_concat)
      then show ?thesis using o'(4) [OF vm] stt [OF vm] False by simp
    qed (use stt [OF vm] in simp)
  qed
  moreover have "et_station_remove meanwhile n rem s = Some (ET_OK, t)" if "\<not> sn_nattachments (st s n) > 0"
    using v live u(1) that mv by (simp add: et_station_remove_def t_def f_def)
  moreover have "et_station_remove meanwhile n rem s = Some (ET_ERROR, s)" if "sn_nattachments (st s n) > 0"
    using v live that by (simp add: et_station_remove_def)
  ultimately show ?thesis using stt [OF v(1)] by simp
qed

section \<open>Moving a station\<close>

lemma serial_alone:
  assumes c: "chained s gs" and n: "n \<in> set (concat gs)" and ser: "\<not> parallel s n"
  obtains as bs where "gs = as @ [n] # bs" "removed n gs = as @ bs" "np s n = -1" "pp s n = -1"
proof -
  obtain g where g: "g \<in> set gs" "n \<in> set g" using n by auto
  have k: "known s gs" using c by (simp add: chained_def forward_def)
  have "g = [n]" using k g ser by (cases g; cases "tl g") (force simp: known_def)+
  then obtain as bs where gs: "gs = as @ [n] # bs" using split_list [OF g(1)] by auto
  have d: "n \<notin> set (concat as)" "n \<notin> set (concat bs)" "[] \<notin> set as" "[] \<notin> set bs" using k unfolding gs by (auto simp: known_def)
  have "removed n gs = as @ bs" using removed_other [OF d(3,1)] removed_other [OF d(4,2)] by (simp add: gs removed_Cons)
  moreover have "np s n = -1" "pp s n = -1" using c unfolding gs by (simp_all add: chained_def forward_def)
  ultimately show ?thesis using that gs by blast
qed

lemma station_insert_serial:
  assumes c: "chained s gs" and sp: "spare s gs n" and ser: "\<not> parallel s n" and many: "\<not> sy_nstations (id_sys s) < 3"
    and pos: "1 \<le> position" "position \<le> int (length gs)"
  shows "\<exists>t. run (station_insert n position k) s = Some (ET_OK, t) \<and> bare t = bare s \<and> chained t (insert_place n (nat (position - 1)) gs)"
proof -
  define i where "i = nat (position - 1)"
  have i: "i < length gs" using pos by (auto simp: i_def)
  have fw: "forward s gs" and kn: "known s gs" using c by (simp_all add: chained_def forward_def)
  define h where "h = hd (gs ! i)"
  define p where "p = last (0 # map hd (take i gs))"
  have h: "valid s h" "\<not> h < 0"
    using known_members(2) [OF kn nth_mem [OF i]] known_members(3) [OF kn, of h] unfolding h_def by (auto simp: valid_def)
  have sk: "seek_place s position 1 0 = Some (p, h)" using seek_gap [OF fw, of position] pos by (simp add: i_def p_def h_def)
  have e: "take i gs @ drop i gs = gs" "drop i gs \<noteq> []" "h = hd (hd (drop i gs))" using i by (simp_all add: h_def hd_drop_conv_nth)
  have "sound (station_insert n position k) s (\<lambda>_. True) Q = sound (insert_before n p h) s (\<lambda>_. True) Q" for Q
    using sk h many sp ser unfolding station_insert_def by (simp add: ET_GRANDCENTRAL_def parallel_def spare_def)
  moreover have "sound (insert_before n p h) s (\<lambda>_. True) (\<lambda>x t. x = ET_OK \<and> bare t = bare s \<and> chained t (insert_place n i gs))"
    by (rule sound_mono [OF insert_before_sound [of s "take i gs" "drop i gs", unfolded e(1), OF c sp e(2) p_def e(3)]])
      (simp_all add: insert_place_def)
  ultimately have "sound (station_insert n position k) s (\<lambda>_. True) (\<lambda>x t. x = ET_OK \<and> bare t = bare s \<and> chained t (insert_place n i gs))"
    by simp
  then show ?thesis unfolding i_def [symmetric] by (auto dest: sound_run)
qed

lemma setposition_runs:
  assumes o: "ordered s gs" and n: "n \<in> set (concat gs)" and live: "id_locality s = ET_LOCAL" "id_alive s" "\<not> id_closed s"
    and pos: "position = ET_END \<or> 0 < position" "k = ET_END \<or> k = ET_NEWHEAD \<or> 0 \<le> k"
  shows "et_station_setposition n position k rem s = do {
      (_, u) \<leftarrow> run (station_remove n) s;
      (err, t) \<leftarrow> run (station_insert n position k) u;
      if err \<noteq> ET_OK then do {
        (p, q) \<leftarrow> find_in n gs 1;
        (_, s) \<leftarrow> run (station_insert n p q) t;
        Some (err, s)
      }
      else Some (err, t) }"
proof -
  note o' = ordered_known [OF o]
  have "n \<noteq> 0" using o'(1) n by (auto simp: chained_def forward_def known_def)
  then have v: "valid s n" "n \<noteq> ET_GRANDCENTRAL" "0 \<le> n" "n < nstats s" "placed (st s n)"
    using o'(3) [of n] o'(5) n by (auto simp: valid_def ET_GRANDCENTRAL_def)
  have "gs \<noteq> []" using n by auto
  then have "(sy_nstations (id_sys s) < 2) = (gs = [])" using o listed_concat [OF o'(1)] unfolding ordered_def by (cases "length (concat gs)") auto
  then have "station_find s n = Some (find_in n gs 1)" using station_find_in [OF o'(1)] v(2) by simp
  then show ?thesis using v live pos by (auto simp: et_station_setposition_def)
qed

text \<open>C39: \<open>et_station_setposition\<close> moves a station that is not parallel to the position asked for among the others.\<close>

theorem et_station_setposition_moves:
  assumes o: "ordered s gs" and n: "n \<in> set (concat gs)" and ser: "\<not> parallel s n"
    and live: "id_locality s = ET_LOCAL" "id_alive s" "\<not> id_closed s"
    and pos: "1 \<le> position" "position \<le> int (length (removed n gs))" "k = ET_END \<or> k = ET_NEWHEAD \<or> 0 \<le> k"
  shows "\<exists>t. et_station_setposition n position k rem s = Some (ET_OK, t) \<and> ordered t (insert_place n (nat (position - 1)) (removed n gs))"
proof -
  note o' = ordered_known [OF o]
  obtain as bs where gs: "gs = as @ [n] # bs" "removed n gs = as @ bs" "np s n = -1" "pp s n = -1"
    using serial_alone [OF o'(1) n ser] by blast
  have v: "valid s n" using o'(3) n by auto
  have "chained s (as @ [n] # bs)" using o'(1) by (simp add: gs)
  note rs = remove_single_sound [OF this]
  have rr: "run (station_remove n) s = run (remove_single n) s" using v ser by (simp add: station_remove_def on_st_def ask_def parallel_def)
  obtain u where u: "run (station_remove n) s = Some ((), u)" "bare u = bare s" "chained u (as @ bs)" "st u n = st s n"
    using sound_run [OF rs] unfolding rr by auto
  have d: "distinct (0 # concat gs)" "sn_num (st s n) = n"
    using o'(1) n by (auto simp: chained_def forward_def known_def)
  have sp: "spare u (as @ bs) n" using d v bare_same(1) [OF u(2)] u(4) gs(3,4) unfolding gs(1) by (auto simp: spare_def)
  have "length (concat (removed n gs)) > 0"
    using listed_concat [OF u(3)] pos(1,2) unfolding gs(2) by (cases "as @ bs = []") auto
  then have many: "\<not> sy_nstations (id_sys u) < 3"
    using o removed_count [of gs n] d(1) n bare_same(4) [OF u(2)] by (simp add: ordered_def)
  have "\<not> parallel u n" using ser u(4) by (simp add: parallel_def)
  then obtain t where t: "run (station_insert n position k) u = Some (ET_OK, t)" "bare t = bare u"
      "chained t (insert_place n (nat (position - 1)) (as @ bs))"
    using station_insert_serial [OF u(3) sp _ many] pos unfolding gs(2) by blast
  have "et_station_setposition n position k rem s = Some (ET_OK, t)"
    using setposition_runs [OF o n live, of position k] pos(1,3) u(1) t(1) by simp
  moreover have "ordered t (insert_place n (nat (position - 1)) (removed n gs))"
  proof (rule ordered_bare [OF o])
    have e: "set (concat (take i xs @ drop i xs)) = set (concat xs)" for i and xs :: "int list list" by (simp del: set_concat)
    then show "set (concat (insert_place n (nat (position - 1)) (removed n gs))) = set (concat gs)"
      using e [of "nat (position - 1)" "removed n gs"] removed_elements [of n gs] n
      by (auto simp: insert_place_def simp del: append_take_drop_id)
  qed (use t u(2) gs(2) in simp_all)
  ultimately show ?thesis by blast
qed

text \<open>A search that goes round in a circle.\<close>

lemma seek_circle:
  assumes S: "\<And>x. x \<in> S \<Longrightarrow> valid t x \<and> nx t x \<in> S" and p: "p \<in> S" "position < c"
  shows "seek_place t position c p = None"
proof -
  have "s = t \<longrightarrow> p \<in> S \<longrightarrow> pos < c \<longrightarrow> False" if "seek_place s pos c p = Some y" for s pos c p y
    using that
  proof (rule seek_place.raw_induct [where P = "\<lambda>s pos c p y. s = t \<longrightarrow> p \<in> S \<longrightarrow> pos < c \<longrightarrow> False", rotated])
    fix f :: "et_id \<Rightarrow> int \<Rightarrow> int \<Rightarrow> int \<Rightarrow> (int \<times> int) option" and s :: et_id and pos c p :: int and y
    assume IH: "\<And>s pos c p y. f s pos c p = Some y \<Longrightarrow> s = t \<longrightarrow> p \<in> S \<longrightarrow> pos < c \<longrightarrow> False"
      and f: "Option.bind (station s p) (\<lambda>pp. if sn_next pp < 0 then Some (p, sn_next pp)
        else if c = pos then Some (p, sn_next pp) else f s pos (c + 1) (sn_next pp)) = Some y"
    show "s = t \<longrightarrow> p \<in> S \<longrightarrow> pos < c \<longrightarrow> False"
    proof (intro impI)
      assume h: "s = t" "p \<in> S" "pos < c"
      have "valid t p" "nx t p \<in> S" "\<not> nx t p < 0" using S [OF h(2)] S [of "nx t p"] by (auto simp: valid_def)
      then have "f t pos (c + 1) (nx t p) = Some y" using f h by (auto split: if_splits)
      then show False using IH [of t pos "c + 1" "nx t p" y] h \<open>nx t p \<in> S\<close> by simp
    qed
  qed
  then show ?thesis using p by (cases "seek_place t position c p") blast+
qed

lemma path_inside: "path f xs e \<Longrightarrow> x \<in> set xs \<Longrightarrow> x \<noteq> last xs \<Longrightarrow> f x \<in> set xs"
proof (induction xs)
  case (Cons y xs)
  then show ?case by (cases xs) auto
qed simp

lemma run_set_st [simp]: "valid s n \<Longrightarrow> run (set_st n f p) s = run p (upst n f s)"
  by (simp add: set_st_def)

lemma run_on_st [simp]: "valid s n \<Longrightarrow> run (on_st n k) s = run (k (st s n)) s"
  by (simp add: on_st_def ask_def)

lemma run_set_tail [simp]: "run (set_tail n p) s = run p (with_tail n s)"
  by (simp add: set_tail_def with_tail_def)

text \<open>C40: but a station that is not parallel and not the last one is moved to the end with its old link to the next station.
  \<open>et_station_setposition\<close> reports success, and the list is a circle: whoever inserts a station at the end afterwards never
  returns, and holds the mutexes of the stations and of the transfers.\<close>

theorem et_station_setposition_circle:
  assumes o: "ordered s (as @ [n] # bs)" and ser: "\<not> parallel s n" and bs: "bs \<noteq> []"
    and live: "id_locality s = ET_LOCAL" "id_alive s" "\<not> id_closed s" and k: "k = ET_END \<or> k = ET_NEWHEAD \<or> 0 \<le> k"
  shows "\<exists>t. et_station_setposition n ET_END k rem s = Some (ET_OK, t) \<and> run (station_insert m ET_END j) t = None"
proof -
  let ?gs = "as @ [n] # bs"
  note o' = ordered_known [OF o]
  have v: "valid s n" using o'(3) [of n] by simp
  have d: "distinct (0 # concat ?gs)" and nn: "sn_num (st s n) = n"
    using o'(1) by (auto simp: chained_def forward_def known_def)
  note rs = remove_single_sound [OF o'(1)]
  have rr: "run (station_remove n) s = run (remove_single n) s" using v ser by (simp add: station_remove_def parallel_def)
  obtain u where u: "run (station_remove n) s = Some ((), u)" "bare u = bare s" "chained u (as @ bs)" "st u n = st s n"
    using sound_run [OF rs] unfolding rr by auto
  have fw: "forward u (as @ bs)" and kn: "known u (as @ bs)" using u(3) by (simp_all add: chained_def forward_def)
  define p where "p = last (0 # map hd (as @ bs))"
  define S where "S = set (0 # map hd (as @ bs)) \<union> {n}"
  have vu: "valid u x = valid s x" for x using bare_same(1) [OF u(2)] .
  have vS: "valid u x \<and> 0 \<le> x" if "x \<in> S" for x
    using that known_members(2) [OF kn] known_members(3) [OF kn, of x] v vu unfolding S_def by (auto simp: valid_def simp del: set_concat map_append)
  have pS: "p \<in> S" unfolding S_def p_def by (intro UnI1 last_in_set) simp
  have pn: "p \<noteq> n"
  proof -
    have "p \<in> set (0 # concat (as @ bs))" unfolding p_def by (rule known_members(1) [OF kn])
    then show ?thesis using d by auto
  qed
  have sp: "sn_num (st u p) = p" using known_members(3) [OF kn, of p] known_members(1) [OF kn] by (simp add: p_def)
  define t where "t = upst p (\<lambda>x. x\<lparr>sn_next := n\<rparr>) (with_tail n (upst n (\<lambda>x. x\<lparr>sn_prev := p\<rparr>) u))"
  have many: "\<not> sy_nstations (id_sys u) < 3"
  proof -
    have "length (concat bs) > 0" using bs d o'(1) by (cases bs) (auto simp: chained_def forward_def known_def)
    then have "1 \<le> int (length (concat bs))" by linarith
    moreover have "sy_nstations (id_sys u) = 2 + int (length (concat as)) + int (length (concat bs))"
      using o bare_same(4) [OF u(2)] by (simp add: ordered_def)
    ultimately show ?thesis by linarith
  qed
  have sk: "seek_place u ET_END 1 0 = Some (p, -1)" using seek_gap [OF fw, of ET_END] by (simp add: p_def)
  have "run (station_insert n ET_END k) u = Some (ET_OK, t)"
    using many sk pS vS [of p] v vu sp u(4) nn pn
    by (simp add: station_insert_def ask_def insert_end_def ET_GRANDCENTRAL_def t_def)
  then have ret: "et_station_setposition n ET_END k rem s = Some (ET_OK, t)"
    using setposition_runs [OF o _ live, of n ET_END k] k u(1) by simp
  have closed: "valid t x \<and> nx t x \<in> S" if x: "x \<in> S" for x
  proof -
    have nt: "nx t x = (if x = p then n else nx u x)" using vS [OF x] vS [OF pS] by (simp add: t_def st_upst)
    have "nx u n = hd (hd bs)" using chained_at(2) [OF o'(1)] u(4) bs by (cases bs) simp_all
    moreover have "hd (hd bs) \<in> S" using bs by (cases bs) (simp_all add: S_def)
    moreover have "nx u x \<in> S" if "x \<noteq> p" "x \<noteq> n"
      unfolding S_def by (intro UnI1, rule path_inside [of _ _ "-1"])
        (use fw that x in \<open>auto simp: forward_def S_def p_def simp del: last.simps map_append\<close>)
    moreover have "n \<in> S" by (simp add: S_def)
    ultimately have "nx t x \<in> S" unfolding nt by metis
    then show ?thesis using vS [OF x] by (simp add: t_def)
  qed
  have "0 \<in> S" by (simp add: S_def)
  then have "seek_place t ET_END 1 0 = None" by (intro seek_circle [of S, OF closed]) simp_all
  moreover have "\<not> sy_nstations (id_sys t) < 3" using many by (simp add: t_def)
  ultimately have "run (station_insert m ET_END j) t = None" by (simp add: station_insert_def ask_def ET_GRANDCENTRAL_def)
  then show ?thesis using ret by blast
qed

section \<open>An example\<close>

definition station_sample :: et_id where
  "station_sample = order_sample\<lparr>id_sys := (id_sys order_sample)\<lparr>sy_nstations := 4,
       sy_config := (sy_config (id_sys order_sample))\<lparr>sg_nstations := 5\<rparr>\<rparr>,
     id_stats := (id_stats order_sample)[4 := et_init_station]\<rparr>"

lemma station_sample_ordered: "ordered station_sample [[1], [2, 3]]"
proof -
  have v: "valid station_sample n = valid order_sample n" for n by (simp add: station_sample_def valid_def)
  have s: "st station_sample n = (if n = 4 then et_init_station else st order_sample n)" if "valid order_sample n" for n
    using that by (auto simp: station_sample_def st_def valid_def nth_list_update)
  show ?thesis
  proof (rule orderedI)
    show "chained station_sample [[1], [2, 3]]"
    proof (rule chained_fields [OF order_sample_chained(1)])
      fix x :: int assume "x \<in> set (0 # concat [[1], [2, 3]])"
      then have "valid order_sample x" "x \<noteq> 4" by auto
      then show "valid station_sample x \<and> sn_num (st station_sample x) = sn_num (st order_sample x) \<and>
          sn_config (st station_sample x) = sn_config (st order_sample x) \<and> nx station_sample x = nx order_sample x \<and>
          pv station_sample x = pv order_sample x \<and> np station_sample x = np order_sample x \<and> pp station_sample x = pp order_sample x"
        using v s by simp
    qed (simp_all add: station_sample_def)
    show "sy_nstations (id_sys station_sample) = 1 + int (length (concat [[1], [2, 3 :: int]]))"
      "nstats station_sample = int (length (id_stats station_sample))"
      by (simp_all add: station_sample_def nstats_def order_sample_def)
    fix m assume "valid station_sample m"
    then have m: "m \<in> {0, 1, 2, 3, 4}" "valid order_sample m" by (auto simp: v)
    show "placed (st station_sample m)" if "m \<in> set (0 # concat [[1], [2, 3]])"
      using that s [OF m(2)] by (auto simp: placed_def order_station_def)
    show "sn_status (st station_sample m) = ET_STATION_UNUSED" if "m \<notin> set (0 # concat [[1], [2, 3]])"
      using that s [OF m(2)] m(1) by (auto simp: et_init_station_def)
  qed
qed

lemma station_sample_live:
  "id_locality station_sample = ET_LOCAL" "id_alive station_sample" "\<not> id_closed station_sample" "\<not> parallel station_sample 1"
  "sn_nattachments (st station_sample 1) = 0"
  by (simp_all add: station_sample_def order_sample_def sample_def parallel_def st_def order_station_def et_init_station_def default_config_def)

theorem et_station_create_at_ordered_witness:
  "\<exists>r out t gs. et_station_create_at True True (Some ''NEW'') None 2 ET_NEWHEAD (0, None) station_sample = Some (r, out, t) \<and> ordered t gs"
  using et_station_create_at_ordered [OF station_sample_ordered station_sample_live(1), of "Some ''NEW''"] by fastforce

theorem et_station_remove_ordered_witness:
  "\<exists>t. et_station_remove id 1 0 station_sample = Some (ET_OK, t) \<and> ordered t [[2, 3]]"
proof -
  have "stations_kept t (id t)" for t by (auto simp: stations_kept_def intro: exI [of _ "sy_ntemps (id_sys t)"])
  from et_station_remove_ordered [OF station_sample_ordered _ station_sample_live(1-3) this, of 1 0]
  show ?thesis by (simp add: station_sample_live(5) removed_def) blast
qed

theorem et_station_setposition_moves_witness:
  "\<exists>t. et_station_setposition 1 1 ET_END 0 station_sample = Some (ET_OK, t) \<and> ordered t [[1], [2, 3]]"
  using et_station_setposition_moves [OF station_sample_ordered _ station_sample_live(4) station_sample_live(1-3), of 1 ET_END 0]
  by (simp add: removed_def insert_place_def)

theorem et_station_setposition_circle_witness:
  "\<exists>t. et_station_setposition 1 ET_END ET_END 0 station_sample = Some (ET_OK, t) \<and> run (station_insert 4 ET_END ET_END) t = None"
proof -
  have "ordered station_sample ([] @ [1] # [[2, 3]])" using station_sample_ordered by simp
  from et_station_setposition_circle [OF this station_sample_live(4) _ station_sample_live(1-3), of ET_END 0 4 ET_END]
  show ?thesis by simp
qed

end
