(* ===== verification/EtRounds.thy ===== *)
theory EtRounds
  imports EtConductorProofs EtStationProofs
begin

text \<open>
  The whole round of a conductor: the events of its station's output list, the stations downstream, and where each
  event ends up. At the end the dealing of a round robin, which goes wrong behind a station that took some events.
\<close>

section \<open>No event is lost\<close>

lemma by_priority_Nil [simp]: "by_priority es []"
  by (simp add: by_priority_def queued_def)

lemma share_set:
  assumes "distinct ns" "\<forall>n\<in>set ns. by_priority (id_events s) (q n)" "by_priority (id_events s) rest"
    and "share user s ns (q, rest) = (q', rest')"
  shows "by_priority (id_events s) rest' \<and> (\<Union>n\<in>set ns. set (q' n)) \<union> set rest' = (\<Union>n\<in>set ns. set (q n)) \<union> set rest"
  using assms
proof (induction ns arbitrary: q rest)
  case (Cons n ns)
  let ?ch = "choice user s n rest" and ?es = "id_events s"
  let ?q = "q(n := merged ?es (q n) ?ch)" and ?rest = "filter (\<lambda>e. e \<notin> set ?ch) rest"
  have sh: "share user s ns (?q, ?rest) = (q', rest')" using Cons.prems(4) by (simp add: Let_def)
  have b: "by_priority ?es ?rest" "by_priority ?es ?ch"
    using by_priority_subseq [OF Cons.prems(3)] choice_subseq by simp_all
  have IH: "by_priority ?es rest' \<and> (\<Union>m\<in>set ns. set (q' m)) \<union> set rest' = (\<Union>m\<in>set ns. set (?q m)) \<union> set ?rest"
    by (rule Cons.IH [OF _ _ b(1) sh]) (use Cons.prems(1,2) in auto)
  have "q' n = merged ?es (q n) ?ch" using share_other [of n ns user s ?q ?rest] sh Cons.prems(1) by simp
  then have "set (q' n) = set (q n) \<union> set ?ch" using set_merged [OF _ b(2)] Cons.prems(2) by simp
  moreover have "(\<Union>m\<in>set ns. set (?q m)) = (\<Union>m\<in>set ns. set (q m))" using Cons.prems(1) by (intro SUP_cong) auto
  moreover have "set ?ch \<union> set ?rest = set rest" using choice_set [of user s n rest] by auto
  ultimately show ?case using IH by auto
qed simp

lemma hand_out_set:
  assumes "distinct (map fst ps)" "\<forall>p\<in>set ps. by_priority es (q (fst p)) \<and> by_priority es (snd p)"
  shows "(\<Union>p\<in>set ps. set (hand_out es ps q (fst p))) = (\<Union>p\<in>set ps. set (q (fst p)) \<union> set (snd p))"
  using assms
proof (induction ps arbitrary: q)
  case (Cons p ps)
  obtain n ch where p: "p = (n, ch)" by (cases p)
  define q1 where "q1 = q(n := merged es (q n) ch)"
  have n: "n \<notin> fst ` set ps" using Cons.prems(1) p by simp
  have "hand_out es ps q1 n = merged es (q n) ch" using hand_out_other [OF n] by (simp add: q1_def)
  then have "set (hand_out es ps q1 n) = set (q n) \<union> set ch" using set_merged Cons.prems(2) p by simp
  moreover have same: "q1 (fst p') = q (fst p')" if "p' \<in> set ps" for p' using n that by (auto simp: q1_def)
  have "(\<Union>p\<in>set ps. set (hand_out es ps q1 (fst p))) = (\<Union>p\<in>set ps. set (q1 (fst p)) \<union> set (snd p))"
    by (rule Cons.IH) (use Cons.prems same in auto)
  moreover have "\<dots> = (\<Union>p\<in>set ps. set (q (fst p)) \<union> set (snd p))" by (intro SUP_cong) (simp_all add: same)
  ultimately show ?case using p by (simp add: q1_def [symmetric])
qed simp

lemma slices_concat: "\<forall>k\<in>set ks. 0 \<le> k \<Longrightarrow> sum_list ks = int (length xs) \<Longrightarrow> concat (slices ks xs) = xs"
proof (induction ks xs rule: slices.induct)
  case (2 k ks xs)
  have "0 \<le> sum_list ks" using 2(2) by (intro sum_list_nonneg) simp
  then have "sum_list ks = int (length (drop (nat k) xs))" using 2(2,3) by simp
  then show ?case using 2(1,2) by simp
qed simp

lemma slices_by_priority:
  assumes "by_priority es xs" "ch \<in> set (slices ks xs)"
  shows "by_priority es ch"
  using assms
proof (induction ks xs rule: slices.induct)
  case (2 k ks xs)
  have "subseq (take (nat k) xs) xs" "subseq (drop (nat k) xs) xs"
    by (rule prefix_imp_subseq [OF take_is_prefix], rule suffix_imp_subseq [OF suffix_drop])
  then show ?case using 2 by_priority_subseq [OF 2(2)] by auto
qed simp

lemma cue_parts_union:
  assumes "ns \<noteq> []" "distinct ns"
  shows "map fst (cue_parts q ns rest) = ns" "(\<Union>p\<in>set (cue_parts q ns rest). set (snd p)) = set rest"
proof -
  obtain nums where n: "equal_numbers (int (length rest)) (map (\<lambda>n. int (length (q n))) ns) = Some nums" "length nums = length ns"
      "\<forall>x\<in>set nums. 0 \<le> x" "sum_list nums = int (length rest)"
    using equal_numbers_length [OF assms(1)] by blast
  have l: "length (slices ks xs) = length ks" for ks xs by (induction ks xs rule: slices.induct) simp_all
  have c: "cue_parts q ns rest = zip ns (slices nums rest)" using n(1) by (simp add: cue_parts_def)
  then show "map fst (cue_parts q ns rest) = ns" using l n(2) by simp
  have "map snd (cue_parts q ns rest) = slices nums rest" using c l n(2) by simp
  then have "(\<Union>p\<in>set (cue_parts q ns rest). set (snd p)) = (\<Union>ch\<in>set (slices nums rest). set ch)" by (metis image_image set_map)
  also have "\<dots> = set (concat (slices nums rest))" by simp
  finally show "(\<Union>p\<in>set (cue_parts q ns rest). set (snd p)) = set rest" using slices_concat [OF n(3,4)] by simp
qed

lemma cue_parts_chunk: "p \<in> set (cue_parts q ns rest) \<Longrightarrow> by_priority es rest \<Longrightarrow> by_priority es (snd p)"
  using slices_by_priority unfolding cue_parts_def by (metis prod.collapse set_zip_rightD)

lemma share_place_if:
  "\<not> (equal_cue_group s g \<and> filter (\<lambda>n. active (st s n)) g \<noteq> []) \<Longrightarrow>
     share_place user s g (q, rest) = share user s (filter (\<lambda>n. active (st s n)) g) (q, rest)"
  by (auto simp: share_place_def)

lemma share_place_set:
  assumes g: "distinct g" "\<forall>n\<in>set g. by_priority (id_events s) (q n)" "by_priority (id_events s) rest"
    and s: "share_place user s g (q, rest) = (q', rest')"
  shows "by_priority (id_events s) rest' \<and> (\<Union>n\<in>set g. set (q' n)) \<union> set rest' = (\<Union>n\<in>set g. set (q n)) \<union> set rest"
proof -
  let ?ns = "filter (\<lambda>n. active (st s n)) g" and ?es = "id_events s"
  have d: "distinct ?ns" "\<forall>n\<in>set ?ns. by_priority ?es (q n)" using g(1,2) by simp_all
  have others: "q' n = q n" if "n \<in> set g" "n \<notin> set ?ns" for n
  proof (cases "equal_cue_group s g \<and> ?ns \<noteq> []")
    case True
    then have "q' = hand_out ?es (cue_parts q ?ns rest) q" using s by (simp add: share_place_def Let_def split: if_splits)
    moreover have "n \<notin> fst ` set (cue_parts q ?ns rest)" using cue_parts_set that(2) by blast
    ultimately show ?thesis using hand_out_other by simp
  next
    case False
    then have "share user s ?ns (q, rest) = (q', rest')" using s share_place_if by metis
    then show ?thesis using share_other [of n ?ns user s q rest] that(2) by simp
  qed
  have core: "by_priority ?es rest' \<and> (\<Union>n\<in>set ?ns. set (q' n)) \<union> set rest' = (\<Union>n\<in>set ?ns. set (q n)) \<union> set rest"
  proof (cases "equal_cue_group s g \<and> ?ns \<noteq> []")
    case True
    then have q': "q' = hand_out ?es (cue_parts q ?ns rest) q" "rest' = []"
      using s unfolding share_place_def Let_def by auto
    note u = cue_parts_union [OF conjunct2 [OF True] d(1), of q rest]
    have f: "fst ` set (cue_parts q ?ns rest) = set ?ns" using u(1) by (metis set_map)
    have "by_priority ?es (snd p)" if "p \<in> set (cue_parts q ?ns rest)" for p
      by (rule cue_parts_chunk [OF that g(3)])
    then have b: "\<forall>p\<in>set (cue_parts q ?ns rest). by_priority ?es (q (fst p)) \<and> by_priority ?es (snd p)" using d(2) f by blast
    have "(\<Union>n\<in>set ?ns. set (q' n)) = (\<Union>p\<in>set (cue_parts q ?ns rest). set (q' (fst p)))" unfolding f [symmetric] by blast
    also have "\<dots> = (\<Union>p\<in>set (cue_parts q ?ns rest). set (q (fst p)) \<union> set (snd p))"
      unfolding q'(1) by (rule hand_out_set [OF _ b]) (simp add: u(1) d(1))
    also have "\<dots> = (\<Union>n\<in>set ?ns. set (q n)) \<union> set rest" unfolding f [symmetric] u(2) [symmetric] by blast
    finally show ?thesis using q'(2) by simp
  next
    case False
    then have "share user s ?ns (q, rest) = (q', rest')" using s share_place_if by metis
    from share_set [OF d g(3) this] show ?thesis .
  qed
  have "(\<Union>n\<in>set g. set (p n)) = (\<Union>n\<in>set ?ns. set (p n)) \<union> (\<Union>n\<in>set g - set ?ns. set (p n))" for p :: "int \<Rightarrow> nat list" by auto
  moreover have "(\<Union>n\<in>set g - set ?ns. set (q' n)) = (\<Union>n\<in>set g - set ?ns. set (q n))" using others by (intro SUP_cong) auto
  ultimately show ?thesis using core by (simp add: Un_ac) blast
qed

lemma share_places_set:
  assumes "distinct (concat gs)" "\<forall>n\<in>set (concat gs). by_priority (id_events s) (q n)" "by_priority (id_events s) rest"
    and "fold (share_place user s) gs (q, rest) = (q', rest')"
  shows "(\<Union>n\<in>set (concat gs). set (q' n)) \<union> set rest' = (\<Union>n\<in>set (concat gs). set (q n)) \<union> set rest \<and>
    (\<forall>m. m \<notin> set (concat gs) \<longrightarrow> q' m = q m)"
  using assms
proof (induction gs arbitrary: q rest)
  case (Cons g gs)
  obtain q1 rest1 where s1: "share_place user s g (q, rest) = (q1, rest1)" by fastforce
  have g: "distinct g" "\<forall>n\<in>set g. by_priority (id_events s) (q n)" "\<forall>n\<in>set (concat gs). by_priority (id_events s) (q n)"
      "set g \<inter> set (concat gs) = {}" "distinct (concat gs)" using Cons.prems(1,2) by auto
  note o = share_place_other [of _ g user s q rest, unfolded s1 fst_conv]
  note c = share_place_set [OF g(1,2) Cons.prems(3) s1]
  have same: "q1 n = q n" if "n \<in> set (concat gs)" for n using o g(4) that by blast
  have IH: "(\<Union>n\<in>set (concat gs). set (q' n)) \<union> set rest' = (\<Union>n\<in>set (concat gs). set (q1 n)) \<union> set rest1 \<and>
      (\<forall>m. m \<notin> set (concat gs) \<longrightarrow> q' m = q1 m)"
    by (rule Cons.IH [OF g(5)]) (use g(3) same c s1 Cons.prems(4) in simp_all)
  have "(\<Union>n\<in>set (concat gs). set (q1 n)) = (\<Union>n\<in>set (concat gs). set (q n))" using same by (intro SUP_cong) auto
  moreover have "q' n = q1 n" if "n \<in> set g" for n using conjunct2 [OF IH] g(4) that by blast
  then have "(\<Union>n\<in>set g. set (q' n)) = (\<Union>n\<in>set g. set (q1 n))" by (intro SUP_cong) simp_all
  moreover have "q' m = q m" if "m \<notin> set (concat (g # gs))" for m using IH o that by simp
  moreover have u: "(\<Union>n\<in>set (concat (g # gs)). set (p n)) = (\<Union>n\<in>set g. set (p n)) \<union> (\<Union>n\<in>set (concat gs). set (p n))"
    for p :: "int \<Rightarrow> nat list" by simp
  ultimately have e: "(\<Union>n\<in>set (concat gs). set (q1 n)) = (\<Union>n\<in>set (concat gs). set (q n))"
      "(\<Union>n\<in>set g. set (q' n)) = (\<Union>n\<in>set g. set (q1 n))" "\<forall>m. m \<notin> set (concat (g # gs)) \<longrightarrow> q' m = q m" by blast+
  have "(\<Union>n\<in>set (concat (g # gs)). set (q' n)) \<union> set rest' = (\<Union>n\<in>set g. set (q1 n)) \<union> ((\<Union>n\<in>set (concat gs). set (q1 n)) \<union> set rest1)"
    unfolding u e(2) Un_assoc conjunct1 [OF IH] by (rule refl)
  also have "\<dots> = ((\<Union>n\<in>set g. set (q1 n)) \<union> set rest1) \<union> (\<Union>n\<in>set (concat gs). set (q n))" unfolding e(1) by blast
  also have "\<dots> = (\<Union>n\<in>set (concat (g # gs)). set (q n)) \<union> set rest" unfolding u conjunct2 [OF c] by blast
  finally show ?case using e(3) by blast
qed simp

lemma merged_keeps: "by_priority es xs \<Longrightarrow> set xs \<subseteq> set (merged es xs ys)"
proof -
  assume "by_priority es xs"
  then have "set xs = set (filter (high es) xs @ filter (low es) xs)" by (simp only: by_priority_filters)
  then show ?thesis by (auto simp: merged_def)
qed

lemma share_keeps:
  "\<forall>n\<in>set ns. by_priority (id_events s) (q n) \<Longrightarrow> set (q m) \<subseteq> set (fst (share user s ns (q, rest)) m)"
proof (induction ns arbitrary: q rest)
  case (Cons n ns)
  define q1 where "q1 = q(n := merged (id_events s) (q n) (choice user s n rest))"
  have "set (q m) \<subseteq> set (q1 m)" using merged_keeps Cons.prems by (simp add: q1_def)
  moreover have "\<forall>n\<in>set ns. by_priority (id_events s) (q1 n)" using Cons.prems merged_priority by (simp add: q1_def)
  ultimately show ?case using Cons.IH [of q1] by (simp add: Let_def q1_def [symmetric]) blast
qed simp

lemma hand_out_keeps: "\<forall>p\<in>set ps. by_priority es (q (fst p)) \<Longrightarrow> set (q m) \<subseteq> set (hand_out es ps q m)"
proof (induction ps arbitrary: q)
  case (Cons p ps)
  obtain n ch where p: "p = (n, ch)" by (cases p)
  define q1 where "q1 = q(n := merged es (q n) ch)"
  have "set (q m) \<subseteq> set (q1 m)" using merged_keeps Cons.prems p by (simp add: q1_def)
  also have "\<forall>p\<in>set ps. by_priority es (q1 (fst p))" using Cons.prems merged_priority p by (simp add: q1_def)
  note Cons.IH [OF this]
  finally show ?case by (simp only: p hand_out.simps q1_def)
qed simp

lemma share_place_keeps:
  assumes "\<forall>n\<in>set g. by_priority (id_events s) (q n)"
  shows "set (q m) \<subseteq> set (fst (share_place user s g (q, rest)) m)"
proof -
  have "set (q m) \<subseteq> set (hand_out (id_events s) (cue_parts q ns rest) q m)" if "set ns \<subseteq> set g" for ns
    by (rule hand_out_keeps) (use cue_parts_set assms that in blast)
  moreover have "set (q m) \<subseteq> set (fst (share user s (filter P g) (q, rest)) m)" for P by (rule share_keeps) (use assms in simp)
  ultimately show ?thesis by (simp add: share_place_def Let_def)
qed

lemma share_places_keeps:
  "\<forall>n\<in>set (concat gs). by_priority (id_events s) (q n) \<Longrightarrow> distinct (concat gs) \<Longrightarrow>
     set (q m) \<subseteq> set (fst (fold (share_place user s) gs (q, rest)) m)"
proof (induction gs arbitrary: q rest)
  case (Cons g gs)
  obtain q1 rest1 where s1: "share_place user s g (q, rest) = (q1, rest1)" by fastforce
  have "q1 n = q n" if "n \<notin> set g" for n using share_place_other [OF that, of user s q rest] s1 by simp
  moreover have "n \<notin> set g" if "n \<in> set (concat gs)" for n using Cons.prems(2) that by auto
  ultimately have "\<forall>n\<in>set (concat gs). by_priority (id_events s) (q1 n)" using Cons.prems(1) by simp
  moreover have "set (q m) \<subseteq> set (q1 m)" using share_place_keeps [of g s q m user rest] Cons.prems(1) s1 by simp
  ultimately show ?case using Cons.IH [of q1 rest1] Cons.prems(2) s1 by simp
qed simp

section \<open>The station of the conductor\<close>

text \<open>The same stations and events give the same shares.\<close>

lemma share_same:
  "\<forall>n\<in>set ns. st s' n = st s n \<Longrightarrow> id_events s' = id_events s \<Longrightarrow> share user s' ns (q, rest) = share user s ns (q, rest)"
proof (induction ns arbitrary: q rest)
  case (Cons n ns)
  have "choice user s' n rest = choice user s n rest" by (rule choice_cong) (use Cons.prems in simp_all)
  then show ?case using Cons by (simp add: Let_def)
qed simp

lemma share_place_same:
  assumes "\<forall>n\<in>set g. st s' n = st s n" "id_events s' = id_events s" "g \<noteq> []"
  shows "share_place user s' g qr = share_place user s g qr"
proof -
  have "filter (\<lambda>n. active (st s' n)) g = filter (\<lambda>n. active (st s n)) g" using assms(1) by (auto intro: filter_cong)
  moreover have "equal_cue_group s' g = equal_cue_group s g" using assms(1,3) by (simp add: equal_cue_group_def parallel_def)
  moreover have "share user s' (filter P g) (q, rest) = share user s (filter P g) (q, rest)" for P q rest
    by (rule share_same) (use assms in simp_all)
  ultimately show ?thesis using assms(2) by (cases qr) (simp add: share_place_def Let_def)
qed

lemma share_places_same:
  "\<forall>n\<in>set (concat gs). st s' n = st s n \<Longrightarrow> id_events s' = id_events s \<Longrightarrow> [] \<notin> set gs \<Longrightarrow>
     fold (share_place user s') gs qr = fold (share_place user s) gs qr"
proof (induction gs arbitrary: qr)
  case (Cons g gs)
  have "share_place user s' g qr = share_place user s g qr" by (rule share_place_same) (use Cons.prems in auto)
  then show ?case using Cons by simp
qed simp

text \<open>A system at work: the order of the stations, Grand Central, the input lists, and no group with round robin.\<close>

definition steady :: "et_id \<Rightarrow> int list list \<Rightarrow> (int \<Rightarrow> nat list) \<Rightarrow> bool" where
  "steady s gs q = (chained s gs \<and> gc_ok s \<and> enough s \<and> inputs s q \<and>
     (\<forall>g\<in>set gs. equal_cue_group s g \<or> (\<forall>n\<in>set g. plain (sn_config (st s n)))))"

lemma steady_groups:
  assumes "steady s gs q" "g \<in> set gs"
  shows "good_group s g"
proof -
  have k: "known s gs" and p: "path (np s) g (-1)"
    using assms by (auto simp: steady_def chained_def forward_def)
  have g: "g \<noteq> []" using k assms(2) by (auto simp: known_def)
  have d: "distinct g" using k assms(2) by (auto simp: known_def distinct_concat_iff)
  have "\<forall>n\<in>set g. valid s n \<and> n \<noteq> 0" using k assms(2) by (auto simp: known_def)
  moreover have "length g > 1 \<Longrightarrow> parallel s (hd g)" using k assms(2) g by (simp add: known_def)
  ultimately show ?thesis using assms p g d by (simp add: good_group_def steady_def)
qed

lemma group_head_ok:
  assumes "backs (pp s) (-1) (as @ p # bs)" "\<forall>n\<in>set (as @ p # bs). valid s n"
  shows "group_head s p = Some (hd (as @ [p]))"
  using assms
proof (induction as arbitrary: p bs rule: rev_induct)
  case Nil
  then show ?case by (simp add: group_head.simps [of s p])
next
  case (snoc x as)
  have "pp s p = x" "valid s x" using snoc.prems by auto
  moreover have "group_head s x = Some (hd (as @ [x]))" by (rule snoc.IH [of _ "p # bs"]) (use snoc.prems in auto)
  moreover have "valid s p" using snoc.prems by simp
  ultimately show ?case by (cases as) (simp_all add: group_head.simps [of s p] valid_def)
qed

text \<open>All events of the output list are taken.\<close>

lemma take_output_ok:
  assumes v: "valid s me" and o: "out_queue s me hs ls" "hs @ ls \<noteq> []"
  shows "\<exists>l. take_output me s = Some ((int (length (hs @ ls)), hs @ ls), upst me (\<lambda>ps. ps\<lparr>sn_list_out := l\<rparr>) s) \<and>
     \<not> ls_locked l \<and> ls_cnt l = 0 \<and> ls_lasthigh l = 0"
proof -
  let ?l = "(sn_list_out (st s me))\<lparr>ls_locked := True\<rparr>"
  have q: "\<not> ls_locked (sn_list_out (st s me))" "out_held (frame_of sn_list_out (st s me) s) hs ls"
    using o(1) v by (simp_all add: out_queue_def)
  have h0: "held (at_lists (id_events s, sn_list_out (st s me))) (hs @ ls)"
    using out_heldD(1) [OF q(2)] by (simp only: held_frame)
  have h: "held (at_lists (id_events s, ?l)) (hs @ ls)" by (rule held_list_cong [OF h0]) simp_all
  have c: "ls_cnt (sn_list_out (st s me)) = int (length (hs @ ls))" using heldD(1) [OF h0] by simp
  note r = et_llist_read_held [OF h o(2)]
  let ?l' = "?l\<lparr>ls_first := None, ls_cnt := 0, ls_lasthigh := 0, ls_out := ls_out ?l + of_nat (length (hs @ ls))\<rparr>\<lparr>ls_locked := False\<rparr>"
  have e: "(upst me f s)\<lparr>id_events := id_events s\<rparr> = upst me f s" for f by (simp add: upst_def)
  have "0 < length (hs @ ls)" using o(2) by (rule length_greater_0_conv [THEN iffD2])
  then have "\<not> int (length (hs @ ls)) < 1" by linarith
  then have "take_output me s = Some ((int (length (hs @ ls)), hs @ ls), upst me (\<lambda>ps. ps\<lparr>sn_list_out := ?l'\<rparr>) s)"
    using v q(1) c r by (simp add: take_output_def lock_out_def unlock_out_def upst_upst e comp_def del: length_append)
  then show ?thesis by (intro exI [of _ ?l']) simp
qed

definition station_after :: "et_id \<Rightarrow> int list list \<Rightarrow> int \<Rightarrow> int list list \<Rightarrow> bool" where
  "station_after s gs me bs = (\<exists>as g. [0] # gs = as @ g # bs \<and> me \<in> set g)"

lemma steady_output:
  assumes s: "steady s gs q" and m: "station_after s gs me bs" and o: "out_queue s me hs ls" "hs @ ls \<noteq> []"
    and d: "\<forall>n. valid s n \<longrightarrow> set (q n) \<inter> set (hs @ ls) = {}"
    and t: "t = upst me (\<lambda>ps. ps\<lparr>sn_list_out := l\<rparr>) s"
  shows "valid s me" "inputs t q" "pending t q (hs @ ls)" "enough t" "gc_ok t" "\<forall>g\<in>set bs. good_group t g"
    "path (nx t) (map hd bs) (-1)" "distinct (concat bs)" "fold (share_place user t) bs qr = fold (share_place user s) bs qr"
    "\<exists>h. (if cf_flow_mode (sn_config (st t me)) = ET_STATION_PARALLEL then group_head t me else Some me) = Some h \<and>
       valid t h \<and> behind (st t h) = hd (map hd bs @ [0])"
proof -
  have c: "chained s gs" and gc: "gc_ok s" and i: "inputs s q" using s by (simp_all add: steady_def)
  have k: "known s gs" and pn: "path (nx s) (0 # map hd gs) (-1)" using c by (simp_all add: chained_def forward_def)
  obtain as g where ag: "[0] # gs = as @ g # bs" "me \<in> set g" using m by (auto simp: station_after_def)
  have cc: "0 # concat gs = concat as @ g @ concat bs" using arg_cong [OF ag(1), of concat] by simp
  have dd: "distinct (0 # concat gs)" "\<forall>n\<in>set (0 # concat gs). valid s n" using k by (simp_all add: known_def)
  have vg: "\<forall>n\<in>set g. valid s n" "\<forall>n\<in>set (concat bs). valid s n" "distinct (concat bs)" "me \<notin> set (concat bs)" "distinct g"
    using dd ag(2) unfolding cc by auto
  show vm: "valid s me" using vg(1) ag(2) by blast
  have sub: "set bs \<subseteq> set gs" using ag(1) by (cases as) auto
  have st: "st t n = (if n = me then (st s n)\<lparr>sn_list_out := l\<rparr> else st s n)" if "valid s n" for n
    using st_upst [OF vm, of n] that by (simp add: t valid_def)
  have vt: "valid t n = valid s n" for n by (simp add: t)
  have et: "id_events t = id_events s" "nevents t = nevents s" by (simp_all add: t)
  have fields: "sn_list_in (st t n) = sn_list_in (st s n)" "sn_fixin (st t n) = sn_fixin (st s n)" "sn_config (st t n) = sn_config (st s n)"
      "sn_status (st t n) = sn_status (st s n)" "nx t n = nx s n" "np t n = np s n" "pp t n = pp s n" if "valid s n" for n
    using st [OF that] by simp_all
  show "inputs t q" using i by (simp add: inputs_def in_queue_valid vt et fields cong: conj_cong imp_cong)
  have oh: "out_held (frame_of sn_list_out (st s me) s) hs ls" using o(1) vm by (simp add: out_queue_def)
  have h: "held (at_lists (id_events s, sn_list_out (st s me))) (hs @ ls)" using out_heldD(1) [OF oh] by (simp only: held_frame)
  have "by_priority (id_events s) (hs @ ls)" using out_heldD(2) [OF oh] by (auto simp: by_priority_def frame_of_def)
  moreover have "ev_owner (id_events s ! i) = ET_SYS" if "i \<in> set (hs @ ls)" for i
    using heldD(2) [OF h] that by (auto simp: owned_def)
  moreover have "i < length (id_events s)" if "i \<in> set (hs @ ls)" for i using held_lt [OF h] that by auto
  moreover have "i \<notin> set (q n)" if "i \<in> set (hs @ ls)" "valid s n" for i n using d that by blast
  ultimately show "pending t q (hs @ ls)" using held_distinct [OF h] by (simp only: pending_def vt et) blast
  show "enough t" using s by (simp add: steady_def enough_def et)
  show "gc_ok t" using gc fields [of 0] vt by (simp add: gc_ok_def active_def parallel_def)
  show "\<forall>g\<in>set bs. good_group t g"
  proof
    fix b assume b: "b \<in> set bs"
    have gb: "good_group s b" using steady_groups [OF s] b sub by blast
    have vb: "\<forall>n\<in>set b. valid s n" "b \<noteq> []" using gb by (simp_all add: good_group_def)
    have "path (np t) b (-1) = path (np s) b (-1)" by (rule path_cong) (use fields(6) vb in blast)
    then show "good_group t b" using gb vb fields(3) vt by (simp add: good_group_def equal_cue_group_def parallel_def)
  qed
  have pb: "path (nx s) (map hd ([0] # gs)) (-1)" using pn by simp
  have ptail: "path (nx s) (map hd bs) (-1)" "nx s (hd g) = hd (map hd bs @ [-1])"
    using pb unfolding ag(1) by simp_all
  have nb: "[] \<notin> set bs" using k sub by (auto simp: known_def)
  have hb: "valid s n" if hn: "n \<in> set (map hd bs)" for n
  proof -
    obtain b where b: "b \<in> set bs" "n = hd b" using hn unfolding set_map by blast
    then have "b \<noteq> []" using nb by blast
    then have "n \<in> set (concat bs)" using b by (auto intro!: bexI [of _ b])
    then show ?thesis using vg(2) by blast
  qed
  show "path (nx t) (map hd bs) (-1)" using ptail(1) path_cong [of "map hd bs" "nx t" "nx s" "-1"] fields(5) hb by simp
  show "distinct (concat bs)" by (rule vg(3))
  show "fold (share_place user t) bs qr = fold (share_place user s) bs qr"
    by (rule share_places_same) (use st vg(2,4) et(1) nb in auto)
  have vh: "valid s (hd g)" using vg(1) ag(2) by (cases g) auto
  have bh: "behind (st t (hd g)) = hd (map hd bs @ [0])"
    using ptail(2) fields(5) [OF vh] hb [of "hd (map hd bs)"] by (cases bs) (simp_all add: behind_def valid_def)
  have "(if cf_flow_mode (sn_config (st t me)) = ET_STATION_PARALLEL then group_head t me else Some me) = Some (hd g)"
  proof (cases "parallel s me")
    case True
    then have "me \<noteq> 0" using gc by (auto simp: gc_ok_def)
    then have "g \<in> set gs" using ag by (cases as) auto
    then have bk: "backs (pp s) (-1) g" using c by (simp add: chained_def)
    have "backs (pp t) (-1) g" using bk backs_cong [of g "pp t" "pp s" "-1"] fields(7) vg(1) by simp
    moreover obtain xs ys where xy: "g = xs @ me # ys" using ag(2) by (auto simp: in_set_conv_decomp)
    ultimately have "group_head t me = Some (hd (xs @ [me]))" using group_head_ok [of t xs me ys] vg(1) vt by simp
    moreover have "hd (xs @ [me]) = hd g" using xy by (cases xs) simp_all
    ultimately show ?thesis using True fields(3) [OF vm] by (simp add: parallel_def)
  next
    case False
    have "length g \<le> 1"
    proof (cases "g \<in> set gs")
      case True
      then show ?thesis using k False ag(2) by (auto simp: known_def not_le)
    next
      case False
      then have "g = [0]" using ag(1) by (cases as) auto
      then show ?thesis by simp
    qed
    then have "g = [me]" using ag(2) by (cases g) auto
    then show ?thesis using False fields(3) [OF vm] by (simp add: parallel_def)
  qed
  then show "\<exists>h. (if cf_flow_mode (sn_config (st t me)) = ET_STATION_PARALLEL then group_head t me else Some me) = Some h \<and>
       valid t h \<and> behind (st t h) = hd (map hd bs @ [0])" using vh vt bh by (intro exI [of _ "hd g"]) simp
qed

lemma not_put_fresh: "not_put (map (\<lambda>e. (e, False)) xs) = xs"
  by (induction xs) simp_all

lemma conductor_round:
  assumes s: "steady s gs q" and m: "station_after s gs me bs" and o: "out_queue s me hs ls" "hs @ ls \<noteq> []"
    and d: "\<forall>n. valid s n \<longrightarrow> set (q n) \<inter> set (hs @ ls) = {}"
    and f: "fold (share_place user s) bs (q, hs @ ls) = (q', rest')"
  shows "\<exists>s'. et_conductor user me s = Some (True, s') \<and> out_queue s' me [] [] \<and> inputs s' (q'(0 := q' 0 @ rest')) \<and>
     steady s' gs (q'(0 := q' 0 @ rest')) \<and> length (id_stats s') = length (id_stats s) \<and>
     (\<forall>n. valid s n \<longrightarrow> n \<notin> set (me # 0 # concat bs) \<longrightarrow> st s' n = st s n)"
proof -
  have "valid s me" using steady_output(1) [OF s m o d refl] .
  then obtain l where l: "take_output me s = Some ((int (length (hs @ ls)), hs @ ls), upst me (\<lambda>ps. ps\<lparr>sn_list_out := l\<rparr>) s)"
      "\<not> ls_locked l" "ls_cnt l = 0" "ls_lasthigh l = 0" using take_output_ok [OF _ o] by blast
  define t where "t = upst me (\<lambda>ps. ps\<lparr>sn_list_out := l\<rparr>) s"
  note t = steady_output [OF s m o d t_def]
  let ?r = "\<lparr>rd_sys = t, rd_events = map (\<lambda>e. (e, False)) (hs @ ls), rd_first = True, rd_left = int (length (hs @ ls))\<rparr>"
  have "distinct (hs @ ls)" using t(3) by (simp add: pending_def)
  then have r: "round_ok ?r q (hs @ ls)"
    unfolding round_ok_def round.select_convs not_put_fresh map_map using t(2-4) by (simp only: comp_def fst_conv map_ident) simp
  from deliver_ok [OF r, unfolded round.select_convs, OF t(7) t(6) t(8) t(5), of user, unfolded t(9) f]
  obtain r' where r': "deliver user (hd (map hd bs @ [0])) ?r = Some (True, r')"
      "delivered (set (concat bs)) q (hs @ ls) (q', rest') t (rd_sys r')"
    by (elim exE conjE) (rule that)
  have vt: "valid t n = valid s n" for n by (simp add: t_def)
  from t(10) obtain h where h: "(if cf_flow_mode (sn_config (st t me)) = ET_STATION_PARALLEL then group_head t me else Some me) = Some h"
      "valid t h" "behind (st t h) = hd (map hd bs @ [0])"
    by (elim exE conjE) (rule that)
  have "et_conductor user me s = Some (True, rd_sys r')"
    using l(1) h r'(1) t(1) vt unfolding et_conductor_def t_def [symmetric] by simp
  moreover have i: "inputs (rd_sys r') (q'(0 := q' 0 @ rest'))" using r'(2) by (simp add: delivered_def)
  moreover obtain A where fl: "flows A (insert 0 (set (concat bs))) t (rd_sys r')" using r'(2) by (auto simp: delivered_def)
  have "valid (rd_sys r') me" using flows_valid [OF fl] t(1) vt by simp
  moreover have "sn_list_out (st (rd_sys r') me) = l" "sn_fixout (st (rd_sys r') me) = sn_fixout (st s me)"
  proof -
    obtain l' where "st (rd_sys r') me = (st t me)\<lparr>sn_list_in := l'\<rparr>" using fl t(1) vt by (auto simp: flows_def)
    then show "sn_list_out (st (rd_sys r') me) = l" "sn_fixout (st (rd_sys r') me) = sn_fixout (st s me)"
      using st_upst_same [OF t(1)] by (simp_all add: t_def)
  qed
  then have "out_queue (rd_sys r') me [] []"
    using \<open>valid (rd_sys r') me\<close> o(1) l(2-4) t(1) by (simp add: out_queue_def out_held_nil frame_of_def)
  moreover have "st (rd_sys r') n = st s n" if "valid s n" "n \<notin> set (me # 0 # concat bs)" for n
    using flows_station [OF fl, of n] that vt st_upst_other [OF t(1) that(1)] by (simp add: t_def)
  moreover have "length (id_stats (rd_sys r')) = length (id_stats s)" using fl by (simp add: flows_def t_def upst_def)
  moreover have "steady (rd_sys r') gs (q'(0 := q' 0 @ rest'))"
  proof -
    have f: "sn_config (st (rd_sys r') n) = sn_config (st s n)" "sn_status (st (rd_sys r') n) = sn_status (st s n)"
        "sn_num (st (rd_sys r') n) = sn_num (st s n)" "nx (rd_sys r') n = nx s n" "pv (rd_sys r') n = pv s n"
        "np (rd_sys r') n = np s n" "pp (rd_sys r') n = pp s n" "valid (rd_sys r') n" if v: "valid s n" for n
    proof -
      obtain l' where "st (rd_sys r') n = (st t n)\<lparr>sn_list_in := l'\<rparr>" using fl v vt by (auto simp: flows_def)
      moreover have "st t n = (if n = me then (st s n)\<lparr>sn_list_out := l\<rparr> else st s n)"
        using st_upst [OF t(1), of n] v by (simp add: t_def valid_def)
      ultimately show "sn_config (st (rd_sys r') n) = sn_config (st s n)" "sn_status (st (rd_sys r') n) = sn_status (st s n)"
        "sn_num (st (rd_sys r') n) = sn_num (st s n)" "nx (rd_sys r') n = nx s n" "pv (rd_sys r') n = pv s n"
        "np (rd_sys r') n = np s n" "pp (rd_sys r') n = pp s n" by simp_all
      show "valid (rd_sys r') n" using flows_valid [OF fl] vt v by simp
    qed
    have c: "chained s gs" and k: "known s gs" using s by (auto simp: steady_def chained_def forward_def)
    have v: "valid s n" if "n \<in> set (0 # concat gs)" for n using k that unfolding known_def by blast
    have heads: "sy_stat_head (id_sys (rd_sys r')) = sy_stat_head (id_sys s)" "sy_stat_tail (id_sys (rd_sys r')) = sy_stat_tail (id_sys s)"
      using fl by (simp_all add: flows_def t_def)
    have "chained (rd_sys r') gs" by (rule chained_fields [OF c]) (use f v heads in simp_all)
    moreover have "gc_ok (rd_sys r')" using s f [of 0] by (simp add: steady_def gc_ok_def active_def parallel_def)
    moreover have "enough (rd_sys r')" by (rule enough_flows [OF fl t(4)])
    moreover have "equal_cue_group (rd_sys r') g \<or> (\<forall>n\<in>set g. plain (sn_config (st (rd_sys r') n)))" if g: "g \<in> set gs" for g
    proof -
      have "g \<noteq> []" "\<forall>n\<in>set g. valid s n" using steady_groups [OF s g] by (simp_all add: good_group_def)
      then have "sn_config (st (rd_sys r') (hd g)) = sn_config (st s (hd g))" "\<forall>n\<in>set g. sn_config (st (rd_sys r') n) = sn_config (st s n)"
        using f(1) by simp_all
      then show ?thesis using s g by (simp add: steady_def equal_cue_group_def parallel_def)
    qed
    ultimately show ?thesis using i by (simp add: steady_def)
  qed
  ultimately show ?thesis by blast
qed

section \<open>What a round does\<close>

text \<open>C18: A round of the conductor of station \<open>me\<close> does what is said here in terms of lists of events: one place of the chain after
  the other behind \<open>me\<close> is shared out to (\<open>share_place\<close>: each station in use takes its selection of what the stations
  before it left, with its prescale or up to its room, an equal-cue group takes all that is left in shares of
  \<open>equal_numbers\<close>), each input list is merged by priority, and what remains goes to the end of Grand Central's. The
  output list is empty then, and no station but these has changed.\<close>

theorem et_conductor_shares:
  assumes "steady s gs q" "station_after s gs me bs" "out_queue s me hs ls" "hs @ ls \<noteq> []"
    "\<forall>n. valid s n \<longrightarrow> set (q n) \<inter> set (hs @ ls) = {}"
  shows "\<exists>s'. et_conductor user me s = Some (True, s') \<and> out_queue s' me [] [] \<and>
     steady s' gs (let (q', rest) = fold (share_place user s) bs (q, hs @ ls) in q'(0 := q' 0 @ rest)) \<and>
     (\<forall>n. valid s n \<longrightarrow> n \<notin> set (me # 0 # concat bs) \<longrightarrow> st s' n = st s n)"
proof -
  obtain q' rest where f: "fold (share_place user s) bs (q, hs @ ls) = (q', rest)" by fastforce
  show ?thesis using conductor_round [OF assms f] unfolding f by (elim exE conjE) (simp only: Let_def prod.case, blast)
qed

text \<open>C19: When no group behind the station deals by round robin (and the stations are in order, \<open>steady\<close>), its conductor neither loses
  nor doubles an event: after the round every event of the output list is in the input list of exactly one station, and
  no event that was in an input list has left it. With a round robin group it can fail, see
  \<open>rrobin_order_right_iff\<close> and \<open>rrobin_loses_event\<close>.\<close>

theorem et_conductor_places_all:
  assumes "steady s gs q" "station_after s gs me bs" "out_queue s me hs ls" "hs @ ls \<noteq> []"
    "\<forall>n. valid s n \<longrightarrow> set (q n) \<inter> set (hs @ ls) = {}"
  shows "\<exists>s' q'. et_conductor user me s = Some (True, s') \<and> steady s' gs q' \<and>
     (\<forall>i\<in>set (hs @ ls). \<exists>!n. valid s n \<and> i \<in> set (q' n)) \<and> (\<forall>n. valid s n \<longrightarrow> set (q n) \<subseteq> set (q' n))"
proof -
  obtain q' rest where f: "fold (share_place user s) bs (q, hs @ ls) = (q', rest)" by fastforce
  from conductor_round [OF assms f] obtain s' where s': "et_conductor user me s = Some (True, s')"
      "inputs s' (q'(0 := q' 0 @ rest))" "steady s' gs (q'(0 := q' 0 @ rest))" "length (id_stats s') = length (id_stats s)"
    by (elim exE conjE) (rule that)
  let ?q = "q'(0 := q' 0 @ rest)"
  have i: "inputs s q" and k: "known s gs" using assms(1) by (simp_all add: steady_def chained_def forward_def)
  obtain as g where ag: "[0] # gs = as @ g # bs" using assms(2) by (auto simp: station_after_def)
  have cc: "0 # concat gs = concat as @ g @ concat bs" using arg_cong [OF ag, of concat] by simp
  have dd: "distinct (0 # concat gs)" "\<forall>n\<in>set (0 # concat gs). valid s n" using k by (simp_all add: known_def)
  then have bs: "distinct (concat bs)" "\<forall>n\<in>set (concat bs). valid s n" unfolding cc by simp_all
  have "set bs \<subseteq> set gs" using ag by (cases as) auto
  then have z: "0 \<notin> set (concat bs)" using dd(1) by auto
  have b: "\<forall>n\<in>set (concat bs). by_priority (id_events s) (q n)" using inputsD(2) [OF i] bs(2) z by metis
  have oh: "out_held (frame_of sn_list_out (st s me) s) hs ls" using assms(3) steady_output(1) [OF assms refl] by (simp add: out_queue_def)
  then have bp: "by_priority (id_events s) (hs @ ls)" using out_heldD(2) [OF oh] by (auto simp: by_priority_def frame_of_def)
  note u = share_places_set [OF bs(1) b bp f]
  note kp = share_places_keeps [OF b bs(1), of _ user "hs @ ls", unfolded f fst_conv]
  have sub: "set (q n) \<subseteq> set (?q n)" for n using kp [of n] by auto
  have "\<exists>!n. valid s n \<and> j \<in> set (?q n)" if j: "j \<in> set (hs @ ls)" for j
  proof -
    have "j \<in> (\<Union>n\<in>set (concat bs). set (q' n)) \<union> set rest" using u j by blast
    then have "\<exists>n. valid s n \<and> j \<in> set (?q n)"
    proof
      assume "j \<in> (\<Union>n\<in>set (concat bs). set (q' n))"
      then obtain n where "n \<in> set (concat bs)" "j \<in> set (q' n)" by blast
      then show ?thesis using bs(2) by (intro exI [of _ n]) auto
    next
      assume "j \<in> set rest"
      then show ?thesis using dd(2) by (intro exI [of _ 0]) simp
    qed
    moreover have "n = m" if "valid s n" "valid s m" "j \<in> set (?q n)" "j \<in> set (?q m)" for n m
      using inputs_disjoint [OF s'(2), of n m] that s'(4) unfolding valid_def by (metis IntI empty_iff)
    ultimately show ?thesis by blast
  qed
  then show ?thesis using s'(1,3) sub by blast
qed

section \<open>Examples\<close>

text \<open>
  Grand Central has four events in its output list. Station 1 takes every second event; the parallel stations 2 and 3
  deal in the given way, and station 3 holds the event 4.
\<close>

definition flow_station :: "int \<Rightarrow> int \<Rightarrow> int \<Rightarrow> int \<Rightarrow> int \<Rightarrow> int \<Rightarrow> int \<Rightarrow> int \<Rightarrow> et_station" where
  "flow_station n nxt prv q p flow mode pre = (order_station n nxt prv q p flow)\<lparr>sn_status := ET_STATION_ACTIVE,
     sn_config := default_config\<lparr>cf_flow_mode := flow, cf_select_mode := mode, cf_prescale := pre\<rparr>\<rparr>"

definition flow_sample :: "int \<Rightarrow> et_id" where
  "flow_sample mode = sample\<lparr>id_sys := (id_sys sample)\<lparr>sy_nstations := 4, sy_stat_tail := 2\<rparr>,
     id_stats := [(flow_station 0 1 (-1) (-1) (-1) ET_STATION_SERIAL ET_STATION_SELECT_ALL 1)\<lparr>sn_list_out := sample_list 4 0 3\<rparr>,
       flow_station 1 2 0 (-1) (-1) ET_STATION_SERIAL ET_STATION_SELECT_ALL 2,
       flow_station 2 (-1) 1 3 (-1) ET_STATION_PARALLEL mode 1,
       (flow_station 3 (-1) (-1) (-1) 2 ET_STATION_PARALLEL mode 1)\<lparr>sn_list_in := sample_list 1 4 4\<rparr>],
     id_events := [sample_event (Some 1) ET_SYS 0 0, sample_event (Some 2) ET_SYS 0 1, sample_event (Some 3) ET_SYS 0 2,
       sample_event None ET_SYS 0 3, sample_event None ET_SYS 0 4, sample_event None 0 0 5]\<rparr>"

text \<open>C27: When all events of the round go into a round robin group, the \<open>i\<close>-th of its \<open>n\<close> active stations is dealt every
  \<open>n\<close>-th event from the \<open>i\<close>-th on, one station's events after the other's in the array, and no event is dealt
  twice or left out.\<close>

theorem rrobin_order_deals:
  assumes "rd_first r" "rd_left r = int (length (rd_events r))" "rd_left r \<le> nevents (rd_sys r)" "0 < n"
  shows "\<exists>pe. rrobin_order r (int n) [0..<n] = Some pe \<and> pe = concat (map (\<lambda>i. every_nth n i (map fst (rd_events r))) [0..<n]) \<and>
     mset pe = mset (map fst (rd_events r))"
proof -
  let ?f = "\<lambda>i. every_nth n i (map fst (rd_events r))"
  have "mset (concat (map ?f [0..<n])) = (\<Sum>i\<leftarrow>[0..<n]. mset (?f i))" by (simp add: mset_concat comp_def)
  also have "\<dots> = (\<Sum>i<n. mset (?f i))" by (simp add: interv_sum_list_conv_sum_set_nat atLeast0LessThan)
  also have "\<dots> = mset (map fst (rd_events r))" by (rule every_nth_mset [OF assms(4)])
  finally show ?thesis using rrobin_order_ok [OF assms, of 0] by simp
qed

definition robin_sample :: round where
  "robin_sample = \<lparr>rd_sys = sample, rd_events = map (\<lambda>e. (e, False)) [0..<5], rd_first = True, rd_left = 5\<rparr>"

theorem rrobin_order_deals_witness:
  "rrobin_order robin_sample 2 [0, 1] = Some [0, 2, 4, 1, 3]"
proof -
  have "rd_first robin_sample" "rd_left robin_sample = int (length (rd_events robin_sample))"
    "rd_left robin_sample \<le> nevents (rd_sys robin_sample)" by (simp_all add: robin_sample_def)
  from rrobin_order_deals [OF this, of 2]
  have "rrobin_order robin_sample 2 [0..<2] = Some (concat (map (\<lambda>i. every_nth 2 i (map fst (rd_events robin_sample))) [0..<2]))"
    by auto
  moreover have "concat (map (\<lambda>i. every_nth 2 i (map fst (rd_events robin_sample))) [0..<2]) = [0, 2, 4, 1, 3]" by code_simp
  moreover have "[0..<2] = [0, 1::nat]" by code_simp
  ultimately show ?thesis by simp
qed

text \<open>C26: When a round robin group is not the first to get events of the round (which are distinct and no more than the system has), and at least as many as the \<open>n\<close> active
  stations of a round robin group are left, the events chosen for the group are those that are left, each once, if and
  only if none of the first \<open>n - 1\<close> events of the round is among the ones put before. Otherwise two stations are to
  get the same event, or too few events are chosen: the search for the events of station \<open>i\<close> starts at the index \<open>i\<close> of
  all events of the round.\<close>

theorem rrobin_order_right_iff:
  assumes r: "\<not> rd_first r" "rd_left r = int (length (not_put (rd_events r)))" "rd_left r \<le> nevents (rd_sys r)"
    and n: "0 < n" "int n \<le> rd_left r" and d: "distinct (map fst (rd_events r))"
  shows "\<exists>pe. rrobin_order r (int n) [0..<n] = Some pe \<and>
    (mset pe = mset (not_put (rd_events r)) \<longleftrightarrow> (\<forall>j. j + 1 < n \<longrightarrow> \<not> snd (rd_events r ! j)))"
proof -
  let ?es = "rd_events r" and ?np = "not_put (rd_events r)" and ?num = "\<lambda>i. rrobin_number (rd_left r) (int n) (int i)"
  define P where "P i = rrobin_pick (int n) 0 (?num i) (drop i ?es)" for i
  have nl: "n \<le> length ?np" using n(2) r(2) by simp
  have "1 \<le> length ?np div n" using n(1) nl by (simp add: div_greater_zero_iff Suc_leI)
  then have "1 \<le> int (length ?np) div int n" by (metis int_one_le_iff_zero_less of_nat_div of_nat_1 of_nat_mono)
  then have one: "\<forall>i\<in>set [0..<n]. 1 \<le> ?num i" unfolding rrobin_number_def r(2) by auto
  have sum: "(\<Sum>i\<leftarrow>[0..<n]. nat (?num i)) = length ?np"
    using rrobin_numbers_sum [OF n(1), of "length ?np"] unfolding r(2) by (simp add: interv_sum_list_conv_sum_set_nat atLeast0LessThan)
  have o: "rrobin_order r (int n) [0..<n] = Some (concat (map P [0..<n]))"
    using rrobin_order_picks [OF r(1) one] r(2,3) unfolding sum P_def by simp
  have lP: "length (P i) \<le> nat (?num i)" if "i < n" for i
    unfolding P_def by (rule rrobin_pick_length) (use one that in simp)
  have "mset (concat (map P [0..<n])) = mset ?np \<longleftrightarrow> (\<forall>j. j + 1 < n \<longrightarrow> \<not> snd (?es ! j))"
  proof
    assume u: "\<forall>j. j + 1 < n \<longrightarrow> \<not> snd (?es ! j)"
    have "P i = every_nth n i ?np" if "i < n" for i
      unfolding P_def r(2) by (rule rrobin_pick_every_nth [OF that nl]) (use u that in simp)
    then have "map P [0..<n] = map (\<lambda>i. every_nth n i ?np) [0..<n]" by simp
    then have "mset (concat (map P [0..<n])) = (\<Sum>i\<leftarrow>[0..<n]. mset (every_nth n i ?np))" by (simp only: mset_concat map_map comp_def)
    also have "\<dots> = (\<Sum>i<n. mset (every_nth n i ?np))" by (simp add: interv_sum_list_conv_sum_set_nat atLeast0LessThan)
    finally show "mset (concat (map P [0..<n])) = mset ?np" using every_nth_mset [OF n(1)] by simp
  next
    assume m: "mset (concat (map P [0..<n])) = mset ?np"
    have "distinct ?np" using d unfolding not_put_def by (rule distinct_map_filter)
    then have dP: "distinct (concat (map P [0..<n]))" using m by (metis mset_eq_imp_distinct_iff)
    have pos: "P i \<noteq> []" if "i < n" for i
    proof
      assume e: "P i = []"
      have "1 \<le> ?num i" using one that by simp
      then have g: "length (P i) < nat (?num i)" using e by simp
      have "length (concat (map P [0..<n])) = (\<Sum>i<n. length (P i))"
        by (simp add: length_concat comp_def interv_sum_list_conv_sum_set_nat atLeast0LessThan)
      also have "\<dots> < (\<Sum>i<n. nat (?num i))"
        by (rule sum_strict_mono_ex1) (use lP g that in \<open>auto intro!: bexI [of _ i]\<close>)
      also have "\<dots> = length ?np" using sum by (simp add: interv_sum_list_conv_sum_set_nat atLeast0LessThan)
      finally show False using mset_eq_length [OF m] by simp
    qed
    show "\<forall>j. j + 1 < n \<longrightarrow> \<not> snd (?es ! j)"
    proof (intro allI impI notI)
      fix j assume j: "j + 1 < n" and p: "snd (?es ! j)"
      have le: "length ?np \<le> length ?es" by (simp add: not_put_def)
      then have "j < length ?es" using j nl by simp
      then have "drop j ?es = (fst (?es ! j), True) # drop (Suc j) ?es" using p by (metis Cons_nth_drop_Suc prod.collapse)
      then have e: "not_put (drop j ?es) = not_put (drop (Suc j) ?es)" by (simp add: not_put_Cons)
      have "not_put (drop j ?es) \<noteq> []" using pos [of j] j unfolding P_def using rrobin_pick_none by auto
      then obtain x xs where "not_put (drop j ?es) = x # xs" by (cases "not_put (drop j ?es)") auto
      then have x: "x \<in> set (P j)" "x \<in> set (P (Suc j))" using e unfolding P_def by (auto intro: rrobin_pick_first)
      have "[0..<n] = [0..<j] @ [j..<n]" using j upt_add_eq_append [of 0 j "n - j"] by simp
      moreover have "[j..<n] = j # Suc j # [Suc (Suc j)..<n]" using j by (simp add: upt_conv_Cons)
      ultimately have "[0..<n] = [0..<j] @ j # Suc j # [Suc (Suc j)..<n]" by simp
      then have "set (P j) \<inter> set (P (Suc j)) = {}" using dP by auto
      then show False using x by blast
    qed
  qed
  then show ?thesis using o by blast
qed

theorem rrobin_order_right_iff_witness:
  "rrobin_order (robin_sample\<lparr>rd_events := [(0, True), (1, False), (2, False), (3, False)], rd_first := False, rd_left := 3\<rparr>) 2 [0, 1] =
     Some [1, 3, 1] \<and> mset [1, 3, 1] \<noteq> mset [1, 2, 3 :: nat] \<and>
   (\<exists>pe. rrobin_order (robin_sample\<lparr>rd_events := [(0, False), (1, False), (2, True), (3, False)], rd_first := False, rd_left := 3\<rparr>) 2 [0, 1] =
     Some pe \<and> mset pe = mset [0, 1, 3])"
proof -
  let ?r = "robin_sample\<lparr>rd_events := [(0, True), (1, False), (2, False), (3, False)], rd_first := False, rd_left := 3\<rparr>"
  let ?t = "robin_sample\<lparr>rd_events := [(0, False), (1, False), (2, True), (3, False)], rd_first := False, rd_left := 3\<rparr>"
  have np: "not_put (rd_events ?r) = [1, 2, 3]" "not_put (rd_events ?t) = [0, 1, 3]" by (simp_all add: not_put_def)
  have u: "[0..<2] = [0, 1::nat]" by code_simp
  have nr: "3 \<le> nevents (rd_sys ?r)" "3 \<le> nevents (rd_sys ?t)" by (simp_all add: robin_sample_def)
  have "\<exists>pe. rrobin_order ?r (int 2) [0..<2] = Some pe \<and>
      (mset pe = mset (not_put (rd_events ?r)) \<longleftrightarrow> (\<forall>j. j + 1 < 2 \<longrightarrow> \<not> snd (rd_events ?r ! j)))"
    by (rule rrobin_order_right_iff) (use nr np in simp_all)
  then have 1: "\<exists>pe. rrobin_order ?r 2 [0, 1] = Some pe \<and> mset pe \<noteq> mset [1, 2, 3]" unfolding np u by (auto simp del: rrobin_order.simps)
  have "\<exists>pe. rrobin_order ?t (int 2) [0..<2] = Some pe \<and>
      (mset pe = mset (not_put (rd_events ?t)) \<longleftrightarrow> (\<forall>j. j + 1 < 2 \<longrightarrow> \<not> snd (rd_events ?t ! j)))"
    by (rule rrobin_order_right_iff) (use nr np in simp_all)
  then have 2: "\<exists>pe. rrobin_order ?t 2 [0, 1] = Some pe \<and> mset pe = mset [0, 1, 3]" unfolding np u by (auto simp del: rrobin_order.simps)
  have "rrobin_order ?r 2 [0, 1] = Some [1, 3, 1]" by code_simp
  with 1 have "mset [1, 3, 1] \<noteq> mset [1, 2, 3 :: nat]" by (metis option.inject)
  with \<open>rrobin_order ?r 2 [0, 1] = Some [1, 3, 1]\<close> 2 show ?thesis by blast
qed

lemma flow_station_simps [simp]:
  "sn_num (flow_station n a b c d m k p) = n" "sn_next (flow_station n a b c d m k p) = a" "sn_prev (flow_station n a b c d m k p) = b"
  "sn_nextparallel (flow_station n a b c d m k p) = c" "sn_prevparallel (flow_station n a b c d m k p) = d"
  "sn_status (flow_station n a b c d m k p) = ET_STATION_ACTIVE" "cf_flow_mode (sn_config (flow_station n a b c d m k p)) = m"
  "cf_select_mode (sn_config (flow_station n a b c d m k p)) = k" "cf_prescale (sn_config (flow_station n a b c d m k p)) = p"
  "cf_block_mode (sn_config (flow_station n a b c d m k p)) = ET_STATION_BLOCKING"
  "sn_list_in (flow_station n a b c d m k p) = et_init_llist" "sn_fixin (flow_station n a b c d m k p) = sn_fixin et_init_station"
  by (simp_all add: flow_station_def order_station_def default_config_def et_init_station_def)

lemma flow_sample_simps [simp]:
  "st (flow_sample m) 0 = (flow_station 0 1 (-1) (-1) (-1) ET_STATION_SERIAL ET_STATION_SELECT_ALL 1)\<lparr>sn_list_out := sample_list 4 0 3\<rparr>"
  "st (flow_sample m) 1 = flow_station 1 2 0 (-1) (-1) ET_STATION_SERIAL ET_STATION_SELECT_ALL 2"
  "st (flow_sample m) 2 = flow_station 2 (-1) 1 3 (-1) ET_STATION_PARALLEL m 1"
  "st (flow_sample m) 3 = (flow_station 3 (-1) (-1) (-1) 2 ET_STATION_PARALLEL m 1)\<lparr>sn_list_in := sample_list 1 4 4\<rparr>"
  "valid (flow_sample m) n = (0 \<le> n \<and> n < 4)" "nevents (flow_sample m) = 6"
  "sy_stat_head (id_sys (flow_sample m)) = 0" "sy_stat_tail (id_sys (flow_sample m)) = 2"
  "id_events (flow_sample m) = [sample_event (Some 1) ET_SYS 0 0, sample_event (Some 2) ET_SYS 0 1, sample_event (Some 3) ET_SYS 0 2,
       sample_event None ET_SYS 0 3, sample_event None ET_SYS 0 4, sample_event None 0 0 5]"
  by (simp_all add: flow_sample_def st_def valid_def nevents_def sample_def nth_Cons')

definition flow_queues :: "int \<Rightarrow> nat list" where
  "flow_queues n = (if n = 3 then [4] else [])"

lemma flow_sample_steady:
  "steady (flow_sample ET_STATION_SELECT_EQUALCUE) [[1], [2, 3]] flow_queues"
  "station_after (flow_sample ET_STATION_SELECT_EQUALCUE) [[1], [2, 3]] 0 [[1], [2, 3]]"
  "out_queue (flow_sample m) 0 [] [0, 1, 2, 3]" "in_queue (flow_sample m) 3 [4]"
  "\<forall>n. valid (flow_sample m) n \<longrightarrow> set (flow_queues n) \<inter> set ([] @ [0, 1, 2, 3]) = {}"
proof -
  let ?s = "flow_sample ET_STATION_SELECT_EQUALCUE"
  have "chained ?s [[1], [2, 3]]" by (simp add: chained_def forward_def known_def parallel_def)
  moreover have "gc_ok ?s" by (simp add: gc_ok_def active_def parallel_def)
  moreover have "enough ?s" by (simp add: enough_def)
  moreover have "inputs ?s flow_queues"
  proof -
    have "in_queue ?s n (flow_queues n) \<and> (n \<noteq> 0 \<longrightarrow> by_priority (id_events ?s) (flow_queues n))" if "valid ?s n" for n
    proof -
      have "n = 0 \<or> n = 1 \<or> n = 2 \<or> n = 3" using that by auto
      moreover have "by_priority (id_events ?s) [4]" unfolding by_priority_def
        by (rule exI [of _ "[]"], rule exI [of _ "[4]"]) (simp add: queued_def low_def sample_event_def)
      ultimately show ?thesis
        using that by (elim disjE) (simp_all add: in_queue_valid flow_queues_def held_def owned_def shape_def et_init_llist_def sample_list_def
          sample_event_def et_init_station_def)
    qed
    then show ?thesis by (auto simp: inputs_def flow_queues_def)
  qed
  ultimately show "steady ?s [[1], [2, 3]] flow_queues"
    by (simp add: steady_def equal_cue_group_def parallel_def plain_def)
  show "station_after ?s [[1], [2, 3]] 0 [[1], [2, 3]]" unfolding station_after_def by (intro exI [of _ "[]"] exI [of _ "[0]"]) simp
  show "out_queue (flow_sample m) 0 [] [0, 1, 2, 3]"
    by (simp add: out_queue_def out_held_def held_def owned_def shape_def queued_def low_def frame_of_def sample_list_def sample_event_def
      et_init_llist_def flow_station_def order_station_def et_init_station_def)
  show "in_queue (flow_sample m) 3 [4]"
    by (simp add: in_queue_valid held_def owned_def shape_def sample_list_def sample_event_def et_init_llist_def et_init_station_def)
  show "\<forall>n. valid (flow_sample m) n \<longrightarrow> set (flow_queues n) \<inter> set ([] @ [0, 1, 2, 3]) = {}" by (simp add: flow_queues_def)
qed

lemma flow_sample_shares:
  "fold (share_place (\<lambda>_ _. True) (flow_sample ET_STATION_SELECT_EQUALCUE)) [[1], [2, 3]] (flow_queues, [] @ [0, 1, 2, 3])
     = (flow_queues(1 := [0, 2], 2 := [1, 3], 3 := [4]), [])"
proof -
  let ?s = "flow_sample ET_STATION_SELECT_EQUALCUE" and ?user = "\<lambda>_ _. True"
  have "choice ?user ?s 1 [0, 1, 2, 3] = [0, 2]"
    by (simp add: choice_def wish_def flow_station_def order_station_def default_config_def et_init_station_def et_init_llist_def)
  moreover have "merged (id_events ?s) [] [0, 2] = [0, 2]" by (simp add: merged_def high_def low_def sample_event_def)
  ultimately have one: "share_place ?user ?s [1] (flow_queues, [0, 1, 2, 3]) = (flow_queues(1 := [0, 2]), [1, 3])"
    by (simp add: share_place_def equal_cue_group_def parallel_def active_def flow_queues_def)
  have "equal_numbers 2 [0, 1] = Some [2, 0]" by code_simp
  then have "cue_parts (flow_queues(1 := [0, 2])) [2, 3] [1, 3] = [(2, [1, 3]), (3, [])]"
    by (simp add: cue_parts_def flow_queues_def)
  moreover have "merged (id_events ?s) [] [1, 3] = [1, 3]" "merged (id_events ?s) [4] [] = [4]"
    by (simp_all add: merged_def high_def low_def sample_event_def)
  ultimately have "share_place ?user ?s [2, 3] (flow_queues(1 := [0, 2]), [1, 3]) = (flow_queues(1 := [0, 2], 2 := [1, 3], 3 := [4]), [])"
    by (simp add: share_place_def equal_cue_group_def parallel_def active_def flow_queues_def)
  then show ?thesis using one by simp
qed

theorem et_conductor_shares_witness:
  "\<exists>s'. et_conductor (\<lambda>_ _. True) 0 (flow_sample ET_STATION_SELECT_EQUALCUE) = Some (True, s') \<and>
     in_queue s' 1 [0, 2] \<and> in_queue s' 2 [1, 3] \<and> in_queue s' 3 [4]"
proof -
  obtain s' where s': "et_conductor (\<lambda>_ _. True) 0 (flow_sample ET_STATION_SELECT_EQUALCUE) = Some (True, s')"
      "steady s' [[1], [2, 3]] (flow_queues(1 := [0, 2], 2 := [1, 3], 3 := [4], 0 := []))"
    using et_conductor_shares [OF flow_sample_steady(1-3) _ flow_sample_steady(5), of "\<lambda>_ _. True"]
    unfolding flow_sample_shares by (auto simp: flow_queues_def)
  have "valid s' n" if "n \<in> {1, 2, 3}" for n
    using s'(2) that by (auto simp: steady_def chained_def forward_def known_def)
  then show ?thesis using s' inputsD(1) [of s' "flow_queues(1 := [0, 2], 2 := [1, 3], 3 := [4], 0 := [])"] by (fastforce simp: steady_def)
qed

theorem et_conductor_places_all_witness:
  "\<exists>s' q'. et_conductor (\<lambda>_ _. True) 0 (flow_sample ET_STATION_SELECT_EQUALCUE) = Some (True, s') \<and> steady s' [[1], [2, 3]] q' \<and>
     (\<forall>i\<in>set ([] @ [0, 1, 2, 3]). \<exists>!n. valid (flow_sample ET_STATION_SELECT_EQUALCUE) n \<and> i \<in> set (q' n))"
proof -
  have "[] @ [0, 1, 2, 3::nat] \<noteq> []" by simp
  from et_conductor_places_all [OF flow_sample_steady(1-3) this flow_sample_steady(5), of "\<lambda>_ _. True"]
  show ?thesis by blast
qed

text \<open>
  A round robin group that is not the first to get events: station 1 takes the events 0 and 2, then both
  stations of the group get the event 1, and the event 3 is in no list any more. The conductor notices nothing.
\<close>

theorem rrobin_loses_event:
  "out_queue (flow_sample ET_STATION_SELECT_RROBIN) 0 [] [0, 1, 2, 3] \<and> in_queue (flow_sample ET_STATION_SELECT_RROBIN) 3 [4] \<and>
   (\<exists>s'. et_conductor (\<lambda>_ _. True) 0 (flow_sample ET_STATION_SELECT_RROBIN) = Some (True, s') \<and> out_queue s' 0 [] [] \<and>
     in_queue s' 0 [] \<and> in_queue s' 1 [0, 2] \<and> in_queue s' 2 [1] \<and> in_queue s' 3 [4, 1])"
proof -
  have "case et_conductor (\<lambda>_ _. True) 0 (flow_sample ET_STATION_SELECT_RROBIN) of None \<Rightarrow> False
    | Some (ok, s') \<Rightarrow> ok \<and> out_queue s' 0 [] [] \<and> in_queue s' 0 [] \<and> in_queue s' 1 [0, 2] \<and> in_queue s' 2 [1] \<and> in_queue s' 3 [4, 1]"
    by code_simp
  then show ?thesis using flow_sample_steady(3,4) by (auto split: option.splits prod.splits)
qed

end
