(* ===== verification/EtConfigProofs.thy ===== *)
theory EtConfigProofs
  imports EtConfig EtQueues
begin

text \<open>
  Every configuration a program can make with the routines of \<^verbatim>\<open>et_statconfig.c\<close> has its parts in their ranges, and
  what a check of it can still refuse are the combinations of parts and the limits of the system.
\<close>

inductive configured :: "et_stat_config \<Rightarrow> bool" where
  init: "et_station_config_init memory = (status, Some sc) \<Longrightarrow> configured sc"
| setblock: "configured sc \<Longrightarrow> configured (snd (et_station_config_setblock sc val))"
| setflow: "configured sc \<Longrightarrow> configured (snd (et_station_config_setflow sc val))"
| setselect: "configured sc \<Longrightarrow> configured (snd (et_station_config_setselect sc val))"
| setuser: "configured sc \<Longrightarrow> configured (snd (et_station_config_setuser sc val))"
| setrestore: "configured sc \<Longrightarrow> configured (snd (et_station_config_setrestore sc val))"
| setcue: "configured sc \<Longrightarrow> configured (snd (et_station_config_setcue sc val))"
| setprescale: "configured sc \<Longrightarrow> configured (snd (et_station_config_setprescale sc val))"
| setselectwords: "configured sc \<Longrightarrow> et_station_config_setselectwords sc words = Some (status, sc') \<Longrightarrow> configured sc'"
| setfunction: "configured sc \<Longrightarrow> configured (snd (et_station_config_setfunction sc name))"
| setlib: "configured sc \<Longrightarrow> configured (snd (et_station_config_setlib sc name))"
| setclass: "configured sc \<Longrightarrow> configured (snd (et_station_config_setclass sc name))"

definition config_typed :: "et_stat_config \<Rightarrow> bool" where
  "config_typed sc = (cf_init sc = ET_STRUCT_OK \<and> cf_flow_mode sc \<in> {ET_STATION_SERIAL, ET_STATION_PARALLEL} \<and>
     cf_block_mode sc \<in> {ET_STATION_BLOCKING, ET_STATION_NONBLOCKING} \<and>
     cf_restore_mode sc \<in> {ET_STATION_RESTORE_OUT, ET_STATION_RESTORE_IN, ET_STATION_RESTORE_GC, ET_STATION_RESTORE_REDIST} \<and>
     cf_select_mode sc \<in> {ET_STATION_SELECT_ALL, ET_STATION_SELECT_MATCH, ET_STATION_SELECT_USER, ET_STATION_SELECT_RROBIN, ET_STATION_SELECT_EQUALCUE} \<and>
     0 \<le> cf_user_mode sc \<and> 1 \<le> cf_cue sc \<and> 1 \<le> cf_prescale sc \<and> length (cf_select sc) = ET_STATION_SELECT_INTS \<and>
     length (cf_fname sc) < ET_FUNCNAME_LENGTH \<and> length (cf_lib sc) < ET_FILENAME_LENGTH \<and> length (cf_class sc) < ET_FILENAME_LENGTH)"

lemma set_config_typed: "config_typed sc \<Longrightarrow> (valid \<Longrightarrow> config_typed (f sc)) \<Longrightarrow> config_typed (snd (set_config valid f sc))"
  by (simp add: set_config_def)

lemma configured_typed: "configured sc \<Longrightarrow> config_typed sc"
proof (induction rule: configured.induct)
  case (init memory status sc)
  then show ?case by (auto simp: et_station_config_init_def config_typed_def split: if_splits)
next
  case (setselectwords sc words status sc')
  then have "sc' = (if cf_init sc = ET_STRUCT_OK then sc\<lparr>cf_select := take ET_STATION_SELECT_INTS words\<rparr> else sc)"
    "cf_init sc = ET_STRUCT_OK \<longrightarrow> ET_STATION_SELECT_INTS \<le> length words"
    by (auto simp: et_station_config_setselectwords_def set_config_def split: if_split_asm)
  then show ?case using setselectwords.IH by (simp add: config_typed_def)
next
  case (setfunction sc name)
  then show ?case by (cases name) (simp_all add: et_station_config_setfunction_def set_name_def set_config_def config_typed_def)
next
  case (setlib sc name)
  then show ?case by (cases name) (simp_all add: et_station_config_setlib_def set_name_def set_config_def config_typed_def)
next
  case (setclass sc name)
  then show ?case by (cases name) (simp_all add: et_station_config_setclass_def set_name_def set_config_def config_typed_def)
qed (unfold et_station_config_setblock_def et_station_config_setflow_def et_station_config_setselect_def
    et_station_config_setuser_def et_station_config_setrestore_def et_station_config_setcue_def et_station_config_setprescale_def,
    (rule set_config_typed, assumption, simp add: config_typed_def, argo?)+)

text \<open>What the check of a configuration refuses although each part is in its range.\<close>

definition config_fits :: "et_id \<Rightarrow> et_stat_config \<Rightarrow> bool" where
  "config_fits s sc = (cf_user_mode sc \<le> sg_nattachments (sy_config (id_sys s)) \<and>
     (cf_select_mode sc = ET_STATION_SELECT_USER \<longrightarrow> 4 \<le> length (cf_lib sc) \<and> cf_fname sc \<noteq> []) \<and>
     (dealing sc \<longrightarrow> cf_flow_mode sc = ET_STATION_PARALLEL \<and> cf_block_mode sc = ET_STATION_BLOCKING \<and>
        cf_restore_mode sc \<noteq> ET_STATION_RESTORE_IN \<and> cf_prescale sc = 1) \<and>
     (cf_restore_mode sc = ET_STATION_RESTORE_REDIST \<longrightarrow> cf_flow_mode sc = ET_STATION_PARALLEL) \<and>
     (cf_block_mode sc = ET_STATION_NONBLOCKING \<longrightarrow> cf_cue sc \<le> nevents s))"

text \<open>C36: a configuration that was made by any sequence of calls of the routines is typed: each mode is one of its values,
  the numbers are positive and the names fit into their arrays; and \<open>et_station_config_check\<close> accepts it if and only if
  the parts go together and keep the limits of the system.\<close>

theorem configured_checked:
  assumes "configured sc"
  shows "config_typed sc \<and> (et_station_config_check s sc = ET_OK) = config_fits s sc"
proof
  show t: "config_typed sc" by (rule configured_typed [OF assms])
  show "(et_station_config_check s sc = ET_OK) = config_fits s sc"
  proof -
    have ok: "\<not> (cf_flow_mode sc \<noteq> ET_STATION_SERIAL \<and> cf_flow_mode sc \<noteq> ET_STATION_PARALLEL)"
      "\<not> (cf_restore_mode sc \<noteq> ET_STATION_RESTORE_OUT \<and> cf_restore_mode sc \<noteq> ET_STATION_RESTORE_IN \<and>
        cf_restore_mode sc \<noteq> ET_STATION_RESTORE_GC \<and> cf_restore_mode sc \<noteq> ET_STATION_RESTORE_REDIST)"
      "\<not> (cf_select_mode sc \<noteq> ET_STATION_SELECT_ALL \<and> cf_select_mode sc \<noteq> ET_STATION_SELECT_MATCH \<and>
        cf_select_mode sc \<noteq> ET_STATION_SELECT_USER \<and> cf_select_mode sc \<noteq> ET_STATION_SELECT_RROBIN \<and>
        cf_select_mode sc \<noteq> ET_STATION_SELECT_EQUALCUE)"
      "\<not> (cf_block_mode sc \<noteq> ET_STATION_BLOCKING \<and> cf_block_mode sc \<noteq> ET_STATION_NONBLOCKING)"
      using t unfolding config_typed_def by blast+
    have n: "\<not> cf_user_mode sc < 0" "\<not> cf_prescale sc < 1" "\<not> cf_cue sc < 1" using t by (simp_all add: config_typed_def)
    show ?thesis
      unfolding et_station_config_check_def if_not_P [OF ok(1)] if_not_P [OF ok(2)] if_not_P [OF ok(3)] if_not_P [OF ok(4)] config_fits_def
      using ok(1,4) n by (cases "dealing sc"; cases "cf_restore_mode sc = ET_STATION_RESTORE_REDIST") (auto simp: Suc_le_eq)
  qed
qed

theorem configured_checked_witness:
  "\<exists>sc. configured sc \<and> cf_cue sc = 5 \<and> et_station_config_check sample sc = ET_OK"
proof -
  obtain sc where sc: "et_station_config_init True = (ET_OK, Some sc)" by (simp add: et_station_config_init_def)
  define sc' where "sc' = snd (et_station_config_setcue sc 5)"
  have "configured sc'" unfolding sc'_def by (intro configured.setcue configured.init [OF sc])
  moreover have "cf_cue sc' = 5" "config_fits sample sc'"
    using sc by (auto simp: sc'_def et_station_config_init_def et_station_config_setcue_def set_config_def config_fits_def dealing_def sample_def)
  ultimately show ?thesis using configured_checked by blast
qed

end
