(* ===== verification/Spec2Isabelle.thy ===== *)
theory Spec2Isabelle
  imports EvioComposite EvioDictionary EvioRandomRead EvioStringArrays EvioNames EtServerProofs EtQueues EtRounds EtConfigProofs
begin

text \<open>
  \<^bold>\<open>The program.\<close> EvioTool reads and writes the event files of Jefferson Lab experiments. Its core in C is
  the EVIO library (\<^verbatim>\<open>src/evio-5.1/src/libsrc\<close>: \<^verbatim>\<open>evio.c\<close>, \<^verbatim>\<open>evio.h\<close>, \<^verbatim>\<open>evioswap.c\<close>, \<^verbatim>\<open>eviofmt.c\<close>,
  \<^verbatim>\<open>eviofmtswap.c\<close>). A program opens a file, pipe, socket or buffer with \<^verbatim>\<open>evOpen\<close> and gets a handle;
  \<^verbatim>\<open>evWrite\<close> puts events into the blocks of an internal buffer, which \<^verbatim>\<open>evFlush\<close> moves to the destination;
  \<^verbatim>\<open>evRead\<close>, \<^verbatim>\<open>evReadAlloc\<close> and \<^verbatim>\<open>evReadNoCopy\<close> take the events out of one block after the other and swap
  them to the byte order of the host when the data were written on another machine; \<^verbatim>\<open>evClose\<close> ends it.
  The events come from an ET system (\<^verbatim>\<open>src/et-14.0-clon/et.s\<close>): a shared memory with a fixed number of events,
  which travel along a chain of stations. Each station has a list of events to be read by the processes attached
  to it and a list of events they have put back; a conductor thread for each station moves the events of its
  output list to the input lists of the stations behind it, and from the last one back to Grand Central.

  \<^bold>\<open>Conventions.\<close> Every routine is a function. A C memory is a list of words or bytes; an access outside of it,
  a null pointer that is followed, a missing \<^verbatim>\<open>printf\<close> argument make the function \<open>None\<close>: the C program has
  no defined behaviour from there on. An error return is a status of \<^verbatim>\<open>evio.h\<close> in the result, beside the state
  the code leaves behind. Machine integers are words of their width, so sums wrap as in C. What the
  operating system decides (allocation, permission to create or read a file, the outcome of \<^verbatim>\<open>fclose\<close>, fresh memory,
  the environment variables) is the parameter \<open>env\<close>; the files and sockets are the state \<open>world\<close>, with
  a plan that says how each system call on a socket turns out (some bytes move, an interrupt, a failure).
  A run of the EVIO library is one thread; its locks have no effect on it. The host is little-endian.
  In the ET system a routine that holds a list's mutex is a program of single stores to the shared memory, in the order
  of the code: run to its end it is the routine, stopped after any store it is what a process leaves behind that
  dies in the middle. Stores take effect in this order for all processes. A thread that waits gets as a parameter
  what the others do meanwhile. \<open>None\<close> is also a routine that waits for ever. Memory for the arrays of event pointers is
  always there.

  \<^bold>\<open>Theories and code.\<close>
  \<^item> \<open>EvioPrelude\<close>: words, memories with checked access, the \<^verbatim>\<open>S_\<close> status codes, shared lemmas.
  \<^item> \<open>ByteSwap\<close>: the \<^verbatim>\<open>EVIO_SWAP\<close> macros of \<^verbatim>\<open>evio.h\<close> and their meaning bit by bit.
  \<^item> \<open>EvioFmt\<close>: \<^verbatim>\<open>eviofmt\<close>, the translation of a composite format to codes. \<open>EvioFmtSwap\<close>: \<^verbatim>\<open>eviofmtswap\<close>,
    which walks over composite data under these codes.
  \<^item> \<open>EvioSwap\<close>: \<^verbatim>\<open>evioswap.c\<close>, with trees of banks, segments and tagsegments as the abstract events.
    \<open>EvioComposite\<close>: the arrays of composite data in it.
  \<^item> \<open>EvioSys\<close>: the model of files and sockets, \<^verbatim>\<open>tcpRead\<close>, \<^verbatim>\<open>tcpWrite\<close>, \<^verbatim>\<open>fileExists\<close>.
  \<^item> \<open>EvioStrings\<close>, \<open>EvioStringArrays\<close>, \<open>EvioNames\<close>, \<open>EvioFileNames\<close>: the string routines, the format of string
    arrays, the tables of names, the names of files.
  \<^item> \<open>EvioHandle\<close>: \<open>EVFILE\<close> is \<^verbatim>\<open>struct evfilestruct\<close> field by field; \<open>lib\<close> is the table \<^verbatim>\<open>handleList\<close> with the world.
  \<^item> \<open>EvioWrite\<close>, \<open>EvioRead\<close>, \<open>EvioRandom\<close>, \<open>EvioOpen\<close>, \<open>EvioControl\<close>: the operations of \<^verbatim>\<open>evio.c\<close> on handles, under the names
    they have there. Long C functions are cut into named parts in the order of the code.
  \<^item> \<open>EvioBlocks\<close>: the file format as a specification (\<open>block\<close>, \<open>file_words\<close>) and the state of the internal buffer in
    terms of it. \<open>EvioWriteBlocks\<close>: the locale \<open>block_sink\<close>, what a destination of blocks promises, and in it the
    invariant \<open>writer\<close> that relates handle, buffer and destination to the list of events written.
    \<open>EvioWriteFile\<close>, \<open>EvioWriteStream\<close>: files, sockets and pipes as such destinations. \<open>EvioOpenWrite\<close>: opening to
    write and to append establishes the invariant.
  \<^item> \<open>EvioReadBlocks\<close>: the locale \<open>word_source\<close>, what \<^verbatim>\<open>evGetNewBuffer\<close> needs of a source, with files, buffers and
    sockets as interpretations, and the state \<open>feeds\<close> of a handle that delivers given events. \<open>EvioOpenRead\<close>: the locale
    \<open>open_source\<close> for opening them, and reading to the end.
  \<^item> \<open>EvioRoundTrip\<close>, \<open>EvioAppend\<close>, \<open>EvioDictionary\<close>, \<open>EvioRandomRead\<close>: the properties that span the calls.

  \<^item> \<open>EtTypes\<close>: the records of \<^verbatim>\<open>et.h\<close> and \<^verbatim>\<open>et_private.h\<close> with the initial values of \<^verbatim>\<open>et_init.c\<close>; event pointers are
    indices. \<open>EtLists\<close>: the list routines of \<^verbatim>\<open>et_readwrite.c\<close> as programs of stores, and the repair of lists.
    \<open>EtServerLists\<close>: the list routines of the conductors, and \<^verbatim>\<open>et_restore\<close>. \<open>EtReadWrite\<close>: the routines on a
    station, with waiting, the recovery of events and \<^verbatim>\<open>et_repair_station\<close>.
  \<^item> \<open>EtListProofs\<close>, \<open>EtWriteProofs\<close>, \<open>EtReadProofs\<close>, \<open>EtDumpProofs\<close>: the lists as sequences of events, the invariant of
    each program at every store, and that a repair works from there. \<open>EtQueues\<close>: the locale \<open>station_list\<close> lifts
    this to the stations. \<open>EtServerProofs\<close>: the routines of \<open>EtServerLists\<close>.
  \<^item> \<open>EtConfig\<close>, \<open>EtConfigProofs\<close>: station configurations, \<^verbatim>\<open>et_statconfig.c\<close>, and which of them the check accepts.
  \<^item> \<open>EtChain\<close>: the order of the stations, \<^verbatim>\<open>station_insert\<close>, \<^verbatim>\<open>station_remove\<close>, \<^verbatim>\<open>station_find\<close> of \<^verbatim>\<open>et_station.c\<close> and its
    repair in \<^verbatim>\<open>et_system.c\<close>. \<open>EtChainProofs\<close>, \<open>EtInsertProofs\<close>, \<open>EtRemoveProofs\<close>, \<open>EtRepairProofs\<close>, \<open>EtOrder\<close>: the linked
    stations as a list of places with one or several parallel stations each.
  \<^item> \<open>EtStations\<close>: the routines of \<^verbatim>\<open>et_station.c\<close>: creating, removing, moving, configuring stations, attaching and detaching.
    \<open>EtStationProofs\<close>: the stations in use, their number and the list agree.
  \<^item> \<open>EtConductor\<close>: one round of \<^verbatim>\<open>et_conductor\<close> of \<^verbatim>\<open>et_system.c\<close>, with \<^verbatim>\<open>et_condition\<close> and \<^verbatim>\<open>shellSort\<close>.
    \<open>EtCueProofs\<close>: the sorting, the numbers of an equal-cue group, the dealing of a round robin group. \<open>EtDealProofs\<close>: all input
    lists together (\<open>inputs\<close>), the events on their way (\<open>pending\<close>), and what one list gets. \<open>EtConductorProofs\<close>: what a station
    chooses (\<open>choice\<close>), what a place shares out (\<open>share_place\<close>). \<open>EtRounds\<close>: the whole round.

  \<^bold>\<open>What the theorems show.\<close> Events written to a new file, appended to an existing one, or sent over a socket are
  the events read back, in order and up to the end of file, with and without a dictionary; the blocks keep
  their limits; \<^verbatim>\<open>evWrite\<close> refines appending to a list, and other handles and files are untouched. Sources in the
  other byte order give the events in host order, since \<^verbatim>\<open>evioswap\<close> turns one encoding of an event tree into the
  other. The composite routines are inverse to each other, arrays of composite data are swapped element by element, the parser
  stays within its array, the string routines do what their comments promise. The lists of the ET stations are queues by priority, and
  a process may die at any store to them: the repair finds every event of the list and of the call either in the
  list or with the process. Likewise the stations keep their order, also when a process dies while it changes it. A
  round of a conductor puts every event into exactly one input list, by the rules of the stations; this
  is for serial stations, groups that share and groups with equal cues. For round robin groups the theorems are about the
  dealing itself: it is right when the group is the first to get events, and otherwise exactly when the stations before took none of the
  first events. There is a round that loses an event. Each theorem of the last group exhibits an input for which the code misbehaves.

  \<^bold>\<open>Fuel and bounds.\<close> \<^verbatim>\<open>evioswap\<close> recurses on the depth of the event; its fuel is four times the words of the
  memory, and a well-formed event needs less (\<open>evioswap_in_place\<close> holds for every fuel from its size on).
  \<^verbatim>\<open>eviofmtswap\<close> has loops that need not end; its theorems state the fuel that suffices. The other loops
  that may run for ever are partial functions whose termination is proved where they return. Events are taken below
  \<open>2 ^ 28\<close> words, where the 32-bit byte counts of the code do not wrap.

  \<^bold>\<open>Not modelled.\<close> \<^verbatim>\<open>evPrintBuffer\<close> and \<^verbatim>\<open>evOpenFake\<close> (debugging aids), \<^verbatim>\<open>eviofmtdump.c\<close> (printing), threads, the
  command line programs, the C++ and Java sources. Of the ET system: the routines of \<^verbatim>\<open>et_event.c\<close> and
  \<^verbatim>\<open>et_attachment.c\<close>, starting a system (\<^verbatim>\<open>et_init_mem_*\<close>, \<^verbatim>\<open>et_grandcentral_station_create\<close>, the heartbeats), the
  loading of user libraries, the network protocol (\<^verbatim>\<open>et_server.c\<close>, \<^verbatim>\<open>et_remote.c\<close>, \<^verbatim>\<open>et_network.c\<close>), the bridge, and the
  later version \<^verbatim>\<open>src/et-16.1\<close>, which the build does not use.
\<close>

end
